(* ===== verification/Prelude.thy ===== *)
theory Prelude
  imports Main "HOL-Library.Word"
begin

text \<open>
  Shared vocabulary of the development: machine words at the widths the sources use, the
  standard exceptions they throw as a datatype, the result type of a fallible operation
  with its sequencing operator, checked reads of a word section, and the generic facts on
  lists and words that several components need.
\<close>

unbundle bit_operations_syntax

section \<open>Machine words and errors\<close>

type_synonym u8 = "8 word"
type_synonym u32 = "32 word"
type_synonym u64 = "64 word"

datatype exn =
    Invalid_argument string
  | Out_of_range string
  | Overflow_error string
  | Length_error string
  | Logic_error string
  | Bad_alloc
  | User_exception string
  | Undefined string
  | Out_of_fuel

text \<open>
  \<open>Undefined\<close> marks a read the code performs without a check and \<open>Out_of_fuel\<close> a bounded
  recursion that hit its bound: the theorems show that neither is reached from a state that
  satisfies a component's invariant. \<open>Bad_alloc\<close> is a failed allocation, \<open>User_exception\<close> whatever
  code of the caller throws: a comparator, a copy or move constructor, a callback.
\<close>

type_synonym 'a res = "exn + 'a"

definition bindE :: "'e + 'a \<Rightarrow> ('a \<Rightarrow> 'e + 'b) \<Rightarrow> 'e + 'b" where
  "bindE r f = (case r of Inl e \<Rightarrow> Inl e | Inr x \<Rightarrow> f x)"

text \<open>
  The largest value of a 64-bit count, \<open>std::numeric_limits<std::uint64_t>::max()\<close>.
  Sizes, ordinals and bit positions are natural numbers; every overflow guard of the code is
  written out against this bound.
\<close>

definition u64_max :: nat where
  "u64_max = 18446744073709551615"

named_theorems res_simps \<open>evaluation and inversion of fallible operations\<close>

lemma bindE_simps [simp]: "bindE (Inl e) f = Inl e" "bindE (Inr x) f = f x"
  by (simp_all add: bindE_def)

lemma bindE_eq_Inr [res_simps]: "bindE r f = Inr y \<longleftrightarrow> (\<exists>x. r = Inr x \<and> f x = Inr y)"
  by (cases r) auto

lemma bindE_eq_Inl [res_simps]:
  "bindE r f = Inl e \<longleftrightarrow> r = Inl e \<or> (\<exists>x. r = Inr x \<and> f x = Inl e)"
  by (cases r) auto

lemma bindE_assoc: "bindE (bindE r f) g = bindE r (\<lambda>x. bindE (f x) g)"
  by (cases r) auto

lemma bindE_cong [fundef_cong]:
  "r = s \<Longrightarrow> (\<And>x. s = Inr x \<Longrightarrow> f x = g x) \<Longrightarrow> bindE r f = bindE s g"
  by (cases s) auto

text \<open>A read that the code checks: out of range raises, it never yields a default.\<close>

definition checked_nth :: "string \<Rightarrow> 'a list \<Rightarrow> nat \<Rightarrow> 'a res" where
  "checked_nth msg xs i = (if i < length xs then Inr (xs ! i) else Inl (Out_of_range msg))"

lemma checked_nth_in [simp]: "i < length xs \<Longrightarrow> checked_nth msg xs i = Inr (xs ! i)"
  by (simp add: checked_nth_def)

lemma checked_nth_Inr [res_simps]:
  "checked_nth msg xs i = Inr x \<longleftrightarrow> i < length xs \<and> xs ! i = x"
  by (auto simp: checked_nth_def)

lemma nth_update_if: "xs[i := x] ! j = (if i = j \<and> i < length xs then x else xs ! j)"
  by (cases "i < length xs") (auto simp: nth_list_update list_update_beyond)

text \<open>Words and the numbers they stand for.\<close>

lemma unat_of_nat_u64: "n < 2 ^ 64 \<Longrightarrow> unat (of_nat n :: u64) = n"
  by (simp add: unsigned_of_nat take_bit_nat_eq_self)

lemma of_nat_u64_eq: "m < 2 ^ 64 \<Longrightarrow> n < 2 ^ 64 \<Longrightarrow> (of_nat m :: u64) = of_nat n \<longleftrightarrow> m = n"
  by (metis unat_of_nat_u64)

lemma of_nat_u64_less: "m < 2 ^ 64 \<Longrightarrow> n < 2 ^ 64 \<Longrightarrow> (of_nat m :: u64) < of_nat n \<longleftrightarrow> m < n"
  by (simp add: word_less_nat_alt unat_of_nat_u64)

section \<open>Stateful operations\<close>

text \<open>
  An operation on a mutable state returns its result together with the state it leaves, also
  when it throws: what an exception leaves behind is part of the model.
\<close>

type_synonym ('s, 'a) op = "'s \<Rightarrow> 'a res \<times> 's"

definition returnM :: "'a \<Rightarrow> ('s, 'a) op" where
  "returnM x = (\<lambda>s. (Inr x, s))"

definition raiseM :: "exn \<Rightarrow> ('s, 'a) op" where
  "raiseM e = (\<lambda>s. (Inl e, s))"

definition bindM :: "('s, 'a) op \<Rightarrow> ('a \<Rightarrow> ('s, 'b) op) \<Rightarrow> ('s, 'b) op" where
  "bindM m f = (\<lambda>s. case m s of (Inl e, s') \<Rightarrow> (Inl e, s') | (Inr x, s') \<Rightarrow> f x s')"

definition modifyM :: "('s \<Rightarrow> 's) \<Rightarrow> ('s, unit) op" where
  "modifyM g = (\<lambda>s. (Inr (), g s))"

definition getM :: "('s \<Rightarrow> 'a) \<Rightarrow> ('s, 'a) op" where
  "getM g = (\<lambda>s. (Inr (g s), s))"

definition liftM :: "('s \<Rightarrow> 'a res) \<Rightarrow> ('s, 'a) op" where
  "liftM g = (\<lambda>s. (g s, s))"

lemma op_simps [simp]:
  "returnM x s = (Inr x, s)" "raiseM e s = (Inl e, s)" "modifyM g s = (Inr (), g s)"
  "getM h s = (Inr (h s), s)" "liftM k s = (k s, s)"
  by (simp_all add: returnM_def raiseM_def modifyM_def getM_def liftM_def)

lemma bindM_apply:
  "bindM m f s = (case m s of (Inl e, s') \<Rightarrow> (Inl e, s') | (Inr x, s') \<Rightarrow> f x s')"
  by (simp add: bindM_def)

lemma bindM_Inr [simp]: "m s = (Inr x, s') \<Longrightarrow> bindM m f s = f x s'"
  and bindM_Inl [simp]: "m s = (Inl e, s') \<Longrightarrow> bindM m f s = (Inl e, s')"
  by (simp_all add: bindM_def)

lemma bindM_eq_Inr [res_simps]:
  "bindM m f s = (Inr y, s'') \<longleftrightarrow> (\<exists>x s'. m s = (Inr x, s') \<and> f x s' = (Inr y, s''))"
  by (auto simp: bindM_def split: prod.splits sum.splits)

lemma bindM_eq_Inl [res_simps]:
  "bindM m f s = (Inl e, s'') \<longleftrightarrow>
     m s = (Inl e, s'') \<or> (\<exists>x s'. m s = (Inr x, s') \<and> f x s' = (Inl e, s''))"
  by (auto simp: bindM_def split: prod.splits sum.splits)

lemma bindM_assoc: "bindM (bindM m f) g = bindM m (\<lambda>x. bindM (f x) g)"
  by (auto simp: bindM_def fun_eq_iff split: prod.splits sum.splits)

lemma bindM_return [simp]: "bindM (returnM x) f = f x"
  by (simp add: bindM_def returnM_def)

end
