(* ===== verification/ObjectPath.thy ===== *)
theory ObjectPath
  imports Prelude
begin

text \<open>
  Canonical names of immutable files (\<open>object_path.h\<close>): the validated 128-bit object
  identity, the sharded relative path that an identity and a file kind determine, and the
  parser of that path. The laws are the two directions of the round trip.
\<close>

section \<open>Identities and paths\<close>

datatype file_kind = Native_blob | Fractional_index

fun file_extension :: "file_kind \<Rightarrow> string" where
  "file_extension Native_blob = ''.kv''"
| "file_extension Fractional_index = ''.index''"

record object_id =
  hex :: string

definition lower_hex :: "char \<Rightarrow> bool" where
  "lower_hex c \<longleftrightarrow>
     (of_char CHR ''0'' \<le> (of_char c :: nat) \<and> (of_char c :: nat) \<le> of_char CHR ''9'') \<or>
     (of_char CHR ''a'' \<le> (of_char c :: nat) \<and> (of_char c :: nat) \<le> of_char CHR ''f'')"

definition new_object_id :: "string \<Rightarrow> object_id res" where
  "new_object_id s =
     (if length s \<noteq> 32 then
        Inl (Invalid_argument ''object ID must contain 32 lowercase hex digits'')
      else if \<not> list_all lower_hex s then Inl (Invalid_argument ''noncanonical object ID'')
      else Inr \<lparr>hex = s\<rparr>)"

definition object_path :: "object_id \<Rightarrow> file_kind \<Rightarrow> string" where
  "object_path i k =
     take 2 (hex i) @ ''/'' @ take 2 (drop 2 (hex i)) @ ''/'' @
     (drop 4 (hex i) @ file_extension k)"

definition parse_object_path :: "string \<Rightarrow> (object_id \<times> file_kind) res" where
  "parse_object_path path =
     (if length path < 37 \<or> length path > 40 \<or> path ! 2 \<noteq> CHR ''/'' \<or>
         path ! 5 \<noteq> CHR ''/'' \<or> path ! 34 \<noteq> CHR ''.'' then
        Inl (Invalid_argument ''noncanonical sharded object path'')
      else bindE (new_object_id (take 2 path @ take 2 (drop 3 path) @ take 28 (drop 6 path)))
        (\<lambda>i. let extension = drop 34 path in
           if extension = file_extension Native_blob then Inr (i, Native_blob)
           else if extension = file_extension Fractional_index then Inr (i, Fractional_index)
           else Inl (Invalid_argument ''unsupported Everett object extension'')))"

definition valid_id :: "object_id \<Rightarrow> bool" where
  "valid_id i \<longleftrightarrow> length (hex i) = 32 \<and> list_all lower_hex (hex i)"

lemma new_object_id_Inr [res_simps]: "new_object_id s = Inr i \<longleftrightarrow> valid_id i \<and> hex i = s"
  by (cases i) (auto simp: new_object_id_def valid_id_def)

lemma file_extension_inj [simp]: "file_extension k = file_extension k' \<longleftrightarrow> k = k'"
  by (cases k; cases k') auto

lemma length_file_extension: "length (file_extension k) \<in> {3, 6}"
  by (cases k) auto

section \<open>Round trip\<close>

lemma length_object_path:
  "valid_id i \<Longrightarrow> length (object_path i k) = 34 + length (file_extension k)"
  by (simp add: object_path_def valid_id_def)

lemma split_path:
  assumes "34 < length p" "p ! 2 = a" "p ! 5 = b"
  shows "p = take 2 p @ [a] @ take 2 (drop 3 p) @ [b] @ take 28 (drop 6 p) @ drop 34 p"
proof -
  have "p = take 2 p @ p ! 2 # drop 3 p"
    using assms(1) id_take_nth_drop [of 2 p] by (simp add: numeral_3_eq_3 numeral_2_eq_2)
  moreover have "drop 3 p = take 2 (drop 3 p) @ p ! 5 # drop 6 p"
    using assms(1) id_take_nth_drop [of 2 "drop 3 p"] by (simp add: eval_nat_numeral)
  moreover have "drop 6 p = take 28 (drop 6 p) @ drop 34 p"
    using append_take_drop_id [of 28 "drop 6 p"] by simp
  ultimately show ?thesis using assms(2,3) by simp
qed

lemma parse_pieces:
  assumes "length a = 2" "length b = 2" "length c = 28"
    and "p = a @ ''/'' @ b @ ''/'' @ c @ e"
  shows "p ! 2 = CHR ''/''" "p ! 5 = CHR ''/''" "take 2 p = a" "take 2 (drop 3 p) = b"
    "take 28 (drop 6 p) = c" "drop 34 p = e" "length p = 34 + length e"
  using assms by (simp_all add: nth_append)

lemma path_dot: "length c = 34 \<Longrightarrow> (c @ file_extension k) ! 34 = CHR ''.''"
  by (cases k) (simp_all add: nth_append)

text \<open>
  C40. Parsing accepts exactly the canonical paths: a path parses to an identity and a kind
  if and only if the identity is well formed and the path is the one printed for them.
\<close>

theorem parse_object_path_iff:
  "parse_object_path p = Inr (i, k) \<longleftrightarrow> valid_id i \<and> p = object_path i k"
proof
  assume parsed: "parse_object_path p = Inr (i, k)"
  then have len: "34 < length p" and at: "p ! 2 = CHR ''/''" "p ! 5 = CHR ''/''"
    and id: "valid_id i" "hex i = take 2 p @ take 2 (drop 3 p) @ take 28 (drop 6 p)"
    and ext: "drop 34 p = file_extension k"
    by (auto simp: parse_object_path_def Let_def res_simps split: if_splits)
  then have "object_path i k =
      take 2 p @ ''/'' @ take 2 (drop 3 p) @ ''/'' @ take 28 (drop 6 p) @ drop 34 p"
    by (simp add: object_path_def)
  then show "valid_id i \<and> p = object_path i k"
    using id(1) split_path [OF len at] by simp
next
  assume "valid_id i \<and> p = object_path i k"
  then have id: "valid_id i" and p: "p = object_path i k" by auto
  let ?a = "take 2 (hex i)" and ?b = "take 2 (drop 2 (hex i))" and ?c = "drop 4 (hex i)"
  have p': "p = ?a @ ''/'' @ ?b @ ''/'' @ ?c @ file_extension k"
    using p by (simp add: object_path_def)
  have lens: "length ?a = 2" "length ?b = 2" "length ?c = 28"
    using id by (auto simp: valid_id_def)
  note pieces = parse_pieces [OF lens p']
  have dot: "p ! 34 = CHR ''.''"
    unfolding p' using lens path_dot [of "?a @ ''/'' @ ?b @ ''/'' @ ?c" k] by simp
  have "hex i = ?a @ ?b @ ?c"
    by (metis (no_types) append_take_drop_id drop_drop numeral_Bit0)
  then have "new_object_id (?a @ ?b @ ?c) = Inr i"
    using id by (simp add: new_object_id_Inr)
  then show "parse_object_path p = Inr (i, k)"
    using dot pieces length_file_extension [of k]
    by (cases k) (auto simp: parse_object_path_def)
qed

end
