(* ===== verification/NurseryTree.thy ===== *)
theory NurseryTree
  imports Prelude
begin

text \<open>
  The functional contract of the nursery map: AVL trees whose nodes cache their height, with
  insertion and removal as pure functions, their effect on the in-order list of bindings
  under a strict weak order of the keys, and the balance and height bounds. The heap
  operations of \<open>NurseryMap\<close> refine these functions.
\<close>

section \<open>Binary trees\<close>

datatype 'a btree = Tip | Bin "'a btree" 'a "'a btree"

fun inorder :: "'a btree \<Rightarrow> 'a list" where
  "inorder Tip = []"
| "inorder (Bin l a r) = inorder l @ a # inorder r"

fun depth :: "'a btree \<Rightarrow> nat" where
  "depth Tip = 0"
| "depth (Bin l a r) = 1 + max (depth l) (depth r)"

lemma inorder_map_btree: "inorder (map_btree f t) = map f (inorder t)"
  by (induction t) auto

lemma set_btree_inorder: "set_btree t = set (inorder t)"
  by (induction t) auto

section \<open>Pure AVL operations\<close>

type_synonym ('k, 'v) avl = "(('k \<times> 'v) \<times> nat) btree"

fun ht :: "('e \<times> nat) btree \<Rightarrow> nat" where
  "ht Tip = 0"
| "ht (Bin l (e, n) r) = n"

definition mk :: "('e \<times> nat) btree \<Rightarrow> 'e \<Rightarrow> ('e \<times> nat) btree \<Rightarrow> ('e \<times> nat) btree" where
  "mk l e r = Bin l (e, 1 + max (ht l) (ht r)) r"

fun rotl :: "('e \<times> nat) btree \<Rightarrow> 'e \<Rightarrow> ('e \<times> nat) btree \<Rightarrow> ('e \<times> nat) btree" where
  "rotl l e (Bin rl (f, n) rr) = mk (mk l e rl) f rr"
| "rotl l e Tip = mk l e Tip"

fun rotr :: "('e \<times> nat) btree \<Rightarrow> 'e \<Rightarrow> ('e \<times> nat) btree \<Rightarrow> ('e \<times> nat) btree" where
  "rotr (Bin ll (f, n) lr) e r = mk ll f (mk lr e r)"
| "rotr Tip e r = mk Tip e r"

fun lean_left :: "('e \<times> nat) btree \<Rightarrow> ('e \<times> nat) btree" where
  "lean_left (Bin l (e, n) r) = (if ht l < ht r then rotl l e r else Bin l (e, n) r)"
| "lean_left Tip = Tip"

fun lean_right :: "('e \<times> nat) btree \<Rightarrow> ('e \<times> nat) btree" where
  "lean_right (Bin l (e, n) r) = (if ht r < ht l then rotr l e r else Bin l (e, n) r)"
| "lean_right Tip = Tip"

definition rebal :: "('e \<times> nat) btree \<Rightarrow> 'e \<Rightarrow> ('e \<times> nat) btree \<Rightarrow> ('e \<times> nat) btree" where
  "rebal l e r =
     (if ht r + 1 < ht l then rotr (lean_left l) e r
      else if ht l + 1 < ht r then rotl l e (lean_right r)
      else mk l e r)"

fun ins :: "('k \<Rightarrow> 'k \<Rightarrow> bool) \<Rightarrow> 'k \<Rightarrow> 'v \<Rightarrow> ('k, 'v) avl \<Rightarrow> ('k, 'v) avl \<times> bool" where
  "ins lt k v Tip = (Bin Tip ((k, v), 1) Tip, True)"
| "ins lt k v (Bin l (e, n) r) =
     (if lt k (fst e) then (case ins lt k v l of (l', b) \<Rightarrow> (rebal l' e r, b))
      else if lt (fst e) k then (case ins lt k v r of (r', b) \<Rightarrow> (rebal l e r', b))
      else (Bin l ((fst e, v), n) r, False))"

fun del_first :: "('e \<times> nat) btree \<Rightarrow> 'e \<times> ('e \<times> nat) btree" where
  "del_first (Bin Tip (e, n) r) = (e, r)"
| "del_first (Bin l (e, n) r) = (case del_first l of (f, l') \<Rightarrow> (f, rebal l' e r))"
| "del_first Tip = undefined"

fun del :: "('k \<Rightarrow> 'k \<Rightarrow> bool) \<Rightarrow> 'k \<Rightarrow> ('k, 'v) avl \<Rightarrow> ('k, 'v) avl \<times> bool" where
  "del lt k Tip = (Tip, False)"
| "del lt k (Bin l (e, n) r) =
     (if lt k (fst e) then
        (case del lt k l of (l', b) \<Rightarrow> (if b then rebal l' e r else Bin l' (e, n) r, b))
      else if lt (fst e) k then
        (case del lt k r of (r', b) \<Rightarrow> (if b then rebal l e r' else Bin l (e, n) r', b))
      else if l = Tip then (r, True) else if r = Tip then (l, True)
      else (case del_first r of (f, r') \<Rightarrow> (rebal l f r', True)))"

section \<open>In-order contents\<close>

abbreviation entries :: "('e \<times> nat) btree \<Rightarrow> 'e list" where
  "entries t \<equiv> map fst (inorder t)"

named_theorems inorder_simps \<open>in-order contents after restructuring\<close>

lemma entries_mk [inorder_simps]: "entries (mk l e r) = entries l @ e # entries r"
  by (simp add: mk_def)

lemma entries_rot [inorder_simps]:
  "entries (rotl l e r) = entries l @ e # entries r"
  "entries (rotr l e r) = entries l @ e # entries r"
  by (cases r rule: btree.exhaust; force simp: mk_def)
     (cases l rule: btree.exhaust; force simp: mk_def)

lemma entries_lean [inorder_simps]:
  "entries (lean_left t) = entries t" "entries (lean_right t) = entries t"
  by (cases t rule: lean_left.cases; simp add: entries_rot)
     (cases t rule: lean_right.cases; simp add: entries_rot)

lemma entries_rebal [inorder_simps]: "entries (rebal l e r) = entries l @ e # entries r"
  by (simp add: rebal_def inorder_simps)

lemma entries_del_first:
  "t \<noteq> Tip \<Longrightarrow> del_first t = (f, t') \<Longrightarrow> entries t = f # entries t'"
  by (induction t arbitrary: f t' rule: del_first.induct)
     (auto simp: entries_rebal split: prod.splits)

section \<open>Balance\<close>

text \<open>Cached heights are exact and sibling heights differ by at most one.\<close>

fun avl :: "('e \<times> nat) btree \<Rightarrow> bool" where
  "avl Tip = True"
| "avl (Bin l (e, n) r) \<longleftrightarrow> avl l \<and> avl r \<and> n = 1 + max (ht l) (ht r) \<and>
     ht l \<le> ht r + 1 \<and> ht r \<le> ht l + 1"

lemma ht_depth: "avl t \<Longrightarrow> ht t = depth t"
  by (induction t rule: avl.induct) auto

lemma ht_0: "avl t \<Longrightarrow> ht t = 0 \<longleftrightarrow> t = Tip"
  by (cases t rule: avl.cases) auto

lemma avl_mk: "avl l \<Longrightarrow> avl r \<Longrightarrow> ht l \<le> ht r + 1 \<Longrightarrow> ht r \<le> ht l + 1 \<Longrightarrow> avl (mk l e r)"
  by (simp add: mk_def)

lemma ht_mk [simp]: "ht (mk l e r) = 1 + max (ht l) (ht r)"
  by (simp add: mk_def)

lemma avl_Bin_ht: "avl t \<Longrightarrow> 0 < ht t \<Longrightarrow>
   \<exists>l e r. t = Bin l (e, ht t) r \<and> avl l \<and> avl r \<and> ht t = 1 + max (ht l) (ht r) \<and>
     ht l \<le> ht r + 1 \<and> ht r \<le> ht l + 1"
  by (cases t rule: avl.cases) auto

lemma rot_right_avl:
  assumes "avl l" "avl r" "ht l = ht r + 2"
  shows "avl (rotr (lean_left l) e r) \<and>
    ht r + 2 \<le> ht (rotr (lean_left l) e r) \<and> ht (rotr (lean_left l) e r) \<le> ht r + 3"
proof -
  obtain ll f lr where l: "l = Bin ll (f, ht l) lr" and a: "avl ll" "avl lr"
    and h: "ht l = 1 + max (ht ll) (ht lr)" "ht ll \<le> ht lr + 1" "ht lr \<le> ht ll + 1"
    using avl_Bin_ht [OF assms(1)] assms(3) by auto
  show ?thesis
  proof (cases "ht ll < ht lr")
    case True
    then obtain x g y where lr: "lr = Bin x (g, ht lr) y" and b: "avl x" "avl y"
      and k: "ht lr = 1 + max (ht x) (ht y)" "ht x \<le> ht y + 1" "ht y \<le> ht x + 1"
      using avl_Bin_ht [OF a(2)] by auto
    have "rotr (lean_left l) e r = mk (mk ll f x) g (mk y e r)"
      using True by (subst l, simp, subst lr) (simp add: mk_def)
    then show ?thesis
      using a b h k True assms(2,3) by (auto intro!: avl_mk)
  next
    case False
    then have "rotr (lean_left l) e r = mk ll f (mk lr e r)"
      by (subst l) simp
    then show ?thesis
      using a h False assms(2,3) by (auto intro!: avl_mk)
  qed
qed

lemma rot_left_avl:
  assumes "avl l" "avl r" "ht r = ht l + 2"
  shows "avl (rotl l e (lean_right r)) \<and>
    ht l + 2 \<le> ht (rotl l e (lean_right r)) \<and> ht (rotl l e (lean_right r)) \<le> ht l + 3"
proof -
  obtain rl f rr where r: "r = Bin rl (f, ht r) rr" and a: "avl rl" "avl rr"
    and h: "ht r = 1 + max (ht rl) (ht rr)" "ht rl \<le> ht rr + 1" "ht rr \<le> ht rl + 1"
    using avl_Bin_ht [OF assms(2)] assms(3) by auto
  show ?thesis
  proof (cases "ht rr < ht rl")
    case True
    then obtain x g y where rl: "rl = Bin x (g, ht rl) y" and b: "avl x" "avl y"
      and k: "ht rl = 1 + max (ht x) (ht y)" "ht x \<le> ht y + 1" "ht y \<le> ht x + 1"
      using avl_Bin_ht [OF a(1)] by auto
    have "rotl l e (lean_right r) = mk (mk l e x) g (mk y f rr)"
      using True by (subst r, simp, subst rl) (simp add: mk_def)
    then show ?thesis
      using a b h k True assms(1,3) by (auto intro!: avl_mk)
  next
    case False
    then have "rotl l e (lean_right r) = mk (mk l e rl) f rr"
      by (subst r) simp
    then show ?thesis
      using a h False assms(1,3) by (auto intro!: avl_mk)
  qed
qed

text \<open>
  One level of rebalancing restores the invariant when a subtree's height moved by one; the
  result is as high as the higher subtree, or one higher.
\<close>

lemma rebal_avl:
  assumes "avl l" "avl r" "ht l \<le> ht r + 2" "ht r \<le> ht l + 2"
  shows "avl (rebal l e r) \<and>
    max (ht l) (ht r) \<le> ht (rebal l e r) \<and> ht (rebal l e r) \<le> 1 + max (ht l) (ht r) \<and>
    (ht l \<le> ht r + 1 \<longrightarrow> ht r \<le> ht l + 1 \<longrightarrow> ht (rebal l e r) = 1 + max (ht l) (ht r))"
proof -
  consider "ht l = ht r + 2" | "ht r = ht l + 2" | "ht l \<le> ht r + 1 \<and> ht r \<le> ht l + 1"
    using assms(3,4) by linarith
  then show ?thesis
  proof cases
    case 1
    then show ?thesis
      using rot_right_avl [OF assms(1,2) 1, of e] by (auto simp: rebal_def)
  next
    case 2
    then show ?thesis
      using rot_left_avl [OF assms(1,2) 2, of e] by (auto simp: rebal_def)
  next
    case 3
    then show ?thesis
      using assms by (auto simp: rebal_def intro!: avl_mk)
  qed
qed

lemma ins_avl:
  "avl t \<Longrightarrow> ins lt k v t = (t', b) \<Longrightarrow> avl t' \<and> ht t \<le> ht t' \<and> ht t' \<le> ht t + 1"
proof (induction lt k v t arbitrary: t' b rule: ins.induct)
  case (1 lt k v)
  then show ?case by auto
next
  case (2 lt k v l e n r)
  consider "lt k (fst e)" | "\<not> lt k (fst e)" "lt (fst e) k" | "\<not> lt k (fst e)" "\<not> lt (fst e) k"
    by blast
  then show ?case
  proof cases
    case 1
    obtain l' c where l': "ins lt k v l = (l', c)" by fastforce
    with 2 1 have "avl l' \<and> ht l \<le> ht l' \<and> ht l' \<le> ht l + 1" by auto
    then show ?thesis
      using 2 1 l' rebal_avl [of l' r e] by auto
  next
    case 2
    obtain r' c where r': "ins lt k v r = (r', c)" by fastforce
    with "2.prems" "2.IH" 2 have "avl r' \<and> ht r \<le> ht r' \<and> ht r' \<le> ht r + 1" by auto
    then show ?thesis
      using "2.prems" 2 r' rebal_avl [of l r' e] by auto
  next
    case 3
    then show ?thesis using "2.prems" by auto
  qed
qed

lemma del_first_avl:
  "avl t \<Longrightarrow> t \<noteq> Tip \<Longrightarrow> del_first t = (f, t') \<Longrightarrow> avl t' \<and> ht t' \<le> ht t \<and> ht t \<le> ht t' + 1"
proof (induction t arbitrary: f t' rule: del_first.induct)
  case (2 v va vb e n r)
  let ?l = "Bin v va vb"
  obtain g l' where l': "del_first ?l = (g, l')" by fastforce
  then have "avl l' \<and> ht l' \<le> ht ?l \<and> ht ?l \<le> ht l' + 1"
    using 2 by auto
  then show ?case
    using 2 l' rebal_avl [of l' r e] by auto
qed auto

lemma del_avl:
  "avl t \<Longrightarrow> del lt k t = (t', b) \<Longrightarrow> avl t' \<and> ht t' \<le> ht t \<and> ht t \<le> ht t' + 1 \<and> (\<not> b \<longrightarrow> t' = t)"
proof (induction lt k t arbitrary: t' b rule: del.induct)
  case (1 lt k)
  then show ?case by auto
next
  case (2 lt k l e n r)
  consider "lt k (fst e)" | "\<not> lt k (fst e)" "lt (fst e) k" | "\<not> lt k (fst e)" "\<not> lt (fst e) k"
    by blast
  then show ?case
  proof cases
    case 1
    obtain l' c where l': "del lt k l = (l', c)" by fastforce
    with 2 1 have "avl l' \<and> ht l' \<le> ht l \<and> ht l \<le> ht l' + 1 \<and> (\<not> c \<longrightarrow> l' = l)" by auto
    then show ?thesis
      using "2.prems" 1 l' rebal_avl [of l' r e] by (auto split: if_splits)
  next
    case 2
    obtain r' c where r': "del lt k r = (r', c)" by fastforce
    with "2.prems" "2.IH" 2 have "avl r' \<and> ht r' \<le> ht r \<and> ht r \<le> ht r' + 1 \<and> (\<not> c \<longrightarrow> r' = r)"
      by auto
    then show ?thesis
      using "2.prems" 2 r' rebal_avl [of l r' e] by (auto split: if_splits)
  next
    case 3
    obtain f r' where r': "del_first r = (f, r')" by fastforce
    have "r \<noteq> Tip \<Longrightarrow> avl r' \<and> ht r' \<le> ht r \<and> ht r \<le> ht r' + 1"
      using del_first_avl [OF _ _ r'] "2.prems" by auto
    then show ?thesis
      using "2.prems" 3 r' rebal_avl [of l r' f] by (auto split: if_splits)
  qed
qed

text \<open>
  A balanced tree of height \<open>h\<close> holds at least \<open>fib (h + 2) - 1\<close> bindings, so the height
  is logarithmic: at least \<open>2 ^ (h div 2)\<close> bindings plus one.
\<close>

lemma avl_size: "avl t \<Longrightarrow> 2 ^ (ht t div 2) \<le> length (inorder t) + 1"
proof (induction "ht t" arbitrary: t rule: less_induct)
  case less
  show ?case
  proof (cases "ht t < 2")
    case True
    then show ?thesis by simp
  next
    case False
    then obtain l e r where t: "t = Bin l (e, ht t) r" and a: "avl l" "avl r"
      and h: "ht t = 1 + max (ht l) (ht r)" "ht l \<le> ht r + 1" "ht r \<le> ht l + 1"
      using avl_Bin_ht [OF less.prems] by auto
    have m: "ht t \<le> ht l + 2" "ht t \<le> ht r + 2" "ht l < ht t" "ht r < ht t"
      using h by auto
    have "2 ^ (ht t div 2 - 1) \<le> (2::nat) ^ (ht l div 2)" "2 ^ (ht t div 2 - 1) \<le> (2::nat) ^ (ht r div 2)"
      using m by (auto intro!: power_increasing)
    moreover have "2 ^ (ht l div 2) \<le> length (inorder l) + 1" "2 ^ (ht r div 2) \<le> length (inorder r) + 1"
      using less.hyps [OF m(3) a(1)] less.hyps [OF m(4) a(2)] .
    moreover have "(2::nat) ^ (ht t div 2) = 2 * 2 ^ (ht t div 2 - 1)"
      using False by (simp flip: power_Suc)
    moreover have "length (inorder t) = length (inorder l) + length (inorder r) + 1"
      by (subst t) simp
    ultimately show ?thesis by linarith
  qed
qed

section \<open>Ordered contents\<close>

text \<open>
  The comparator's documented contract: a strict weak order. Keys are equivalent when
  neither precedes the other; the map stores one binding per class.
\<close>

definition equiv_key :: "('k \<Rightarrow> 'k \<Rightarrow> bool) \<Rightarrow> 'k \<Rightarrow> 'k \<Rightarrow> bool" where
  "equiv_key lt x y \<longleftrightarrow> \<not> lt x y \<and> \<not> lt y x"

definition below :: "('k \<Rightarrow> 'k \<Rightarrow> bool) \<Rightarrow> 'k \<Rightarrow> ('k \<times> 'v) list \<Rightarrow> ('k \<times> 'v) list" where
  "below lt k es = filter (\<lambda>e. lt (fst e) k) es"

definition above :: "('k \<Rightarrow> 'k \<Rightarrow> bool) \<Rightarrow> 'k \<Rightarrow> ('k \<times> 'v) list \<Rightarrow> ('k \<times> 'v) list" where
  "above lt k es = filter (\<lambda>e. lt k (fst e)) es"

definition held :: "('k \<Rightarrow> 'k \<Rightarrow> bool) \<Rightarrow> 'k \<Rightarrow> ('k \<times> 'v) list \<Rightarrow> ('k \<times> 'v) option" where
  "held lt k es = find (\<lambda>e. equiv_key lt k (fst e)) es"

text \<open>Assignment keeps the representative that is already stored.\<close>

definition put_entry ::
  "('k \<Rightarrow> 'k \<Rightarrow> bool) \<Rightarrow> 'k \<Rightarrow> 'v \<Rightarrow> ('k \<times> 'v) list \<Rightarrow> ('k \<times> 'v) list" where
  "put_entry lt k v es =
     below lt k es @ (case held lt k es of None \<Rightarrow> (k, v) | Some e \<Rightarrow> (fst e, v)) # above lt k es"

definition drop_entry :: "('k \<Rightarrow> 'k \<Rightarrow> bool) \<Rightarrow> 'k \<Rightarrow> ('k \<times> 'v) list \<Rightarrow> ('k \<times> 'v) list" where
  "drop_entry lt k es = below lt k es @ above lt k es"

abbreviation ordered :: "('k \<Rightarrow> 'k \<Rightarrow> bool) \<Rightarrow> ('k \<times> 'v) list \<Rightarrow> bool" where
  "ordered lt es \<equiv> sorted_wrt (\<lambda>x y. lt (fst x) (fst y)) es"

fun find_pure :: "('k \<Rightarrow> 'k \<Rightarrow> bool) \<Rightarrow> 'k \<Rightarrow> ('k, 'v) avl \<Rightarrow> 'v option" where
  "find_pure lt k Tip = None"
| "find_pure lt k (Bin l (e, n) r) =
     (if lt k (fst e) then find_pure lt k l
      else if lt (fst e) k then find_pure lt k r else Some (snd e))"

locale weak_order =
  fixes lt :: "'k \<Rightarrow> 'k \<Rightarrow> bool"
  assumes asym: "lt x y \<Longrightarrow> \<not> lt y x"
    and cotrans: "lt x z \<Longrightarrow> lt x y \<or> lt y z"
begin

lemma irrefl: "\<not> lt x x"
  using asym by blast

lemma trans: "lt x y \<Longrightarrow> lt y z \<Longrightarrow> lt x z"
  using asym cotrans by blast

lemma equiv_trans: "equiv_key lt x y \<Longrightarrow> equiv_key lt y z \<Longrightarrow> equiv_key lt x z"
  unfolding equiv_key_def using cotrans by blast

lemma equiv_less: "equiv_key lt x y \<Longrightarrow> lt x z \<longleftrightarrow> lt y z" "equiv_key lt x y \<Longrightarrow> lt z x \<longleftrightarrow> lt z y"
  unfolding equiv_key_def using cotrans by blast+

lemma pivot_cases:
  obtains "lt k x" "\<not> lt x k" "\<not> equiv_key lt k x"
  | "lt x k" "\<not> lt k x" "\<not> equiv_key lt k x"
  | "\<not> lt k x" "\<not> lt x k" "equiv_key lt k x"
  using asym unfolding equiv_key_def by blast

lemma filter_high:
  assumes "ordered lt (xs @ e # ys)" "lt k (fst e)"
  shows "below lt k (xs @ e # ys) = below lt k xs"
    and "above lt k (xs @ e # ys) = above lt k xs @ e # ys"
    and "held lt k (xs @ e # ys) = held lt k xs"
proof -
  have gt: "\<forall>y \<in> set ys. lt k (fst y)" "\<forall>y \<in> set ys. \<not> lt (fst y) k"
    "\<forall>y \<in> set ys. \<not> equiv_key lt k (fst y)" "\<not> lt (fst e) k"
    using assms trans asym unfolding equiv_key_def sorted_wrt_append sorted_wrt.simps by blast+
  then show "below lt k (xs @ e # ys) = below lt k xs"
    and "above lt k (xs @ e # ys) = above lt k xs @ e # ys"
    using assms(2) by (simp_all add: below_def above_def filter_True filter_False)
  have "find (\<lambda>x. equiv_key lt k (fst x)) (e # ys) = None"
    using gt assms(2) by (auto simp: find_None_iff equiv_key_def)
  then show "held lt k (xs @ e # ys) = held lt k xs"
    unfolding held_def by (induction xs) simp_all
qed

lemma filter_low:
  assumes "ordered lt (xs @ e # ys)" "lt (fst e) k"
  shows "below lt k (xs @ e # ys) = xs @ e # below lt k ys"
    and "above lt k (xs @ e # ys) = above lt k ys"
    and "held lt k (xs @ e # ys) = held lt k ys"
proof -
  have "\<forall>x \<in> set xs. lt (fst x) (fst e)"
    using assms(1) by (simp add: sorted_wrt_append)
  then have le: "\<forall>x \<in> set xs. lt (fst x) k" "\<forall>x \<in> set xs. \<not> lt k (fst x)"
    "\<forall>x \<in> set xs. \<not> equiv_key lt k (fst x)" "\<not> lt k (fst e)" "\<not> equiv_key lt k (fst e)"
    using assms(2) trans asym unfolding equiv_key_def by blast+
  then show "below lt k (xs @ e # ys) = xs @ e # below lt k ys"
    and "above lt k (xs @ e # ys) = above lt k ys"
    using assms(2) by (simp_all add: below_def above_def filter_True filter_False)
  show "held lt k (xs @ e # ys) = held lt k ys"
    using le(3,5) unfolding held_def by (induction xs) simp_all
qed

lemma filter_mid:
  assumes "ordered lt (xs @ e # ys)" "equiv_key lt k (fst e)"
  shows "below lt k (xs @ e # ys) = xs" and "above lt k (xs @ e # ys) = ys"
    and "held lt k (xs @ e # ys) = Some e"
proof -
  have "\<forall>x \<in> set xs. lt (fst x) (fst e)" "\<forall>y \<in> set ys. lt (fst e) (fst y)"
    using assms(1) by (simp_all add: sorted_wrt_append)
  then have side: "\<forall>x \<in> set xs. lt (fst x) k" "\<forall>y \<in> set ys. lt k (fst y)"
    using equiv_less [OF assms(2)] by blast+
  then have "\<forall>x \<in> set xs. \<not> lt k (fst x)" "\<forall>y \<in> set ys. \<not> lt (fst y) k"
    "\<forall>x \<in> set xs. \<not> equiv_key lt k (fst x)"
    using asym unfolding equiv_key_def by blast+
  then show "below lt k (xs @ e # ys) = xs" "above lt k (xs @ e # ys) = ys"
    using side assms(2) by (simp_all add: below_def above_def equiv_key_def filter_True filter_False)
  show "held lt k (xs @ e # ys) = Some e"
    using \<open>\<forall>x \<in> set xs. \<not> equiv_key lt k (fst x)\<close> assms(2)
    unfolding held_def by (induction xs) simp_all
qed

lemma entries_ins:
  "ordered lt (entries t) \<Longrightarrow> ins lt k v t = (t', b) \<Longrightarrow>
     entries t' = put_entry lt k v (entries t) \<and> b = (held lt k (entries t) = None)"
proof (induction t arbitrary: t' b)
  case Tip
  then show ?case by (auto simp: put_entry_def below_def above_def held_def)
next
  case (Bin l a r)
  obtain e n where a: "a = (e, n)" by fastforce
  have o: "ordered lt (entries l @ e # entries r)" "ordered lt (entries l)" "ordered lt (entries r)"
    using Bin.prems(1) a by (auto simp: sorted_wrt_append)
  show ?case
  proof (rule pivot_cases [of k "fst e"])
    assume lt: "lt k (fst e)"
    obtain l' c where l': "ins lt k v l = (l', c)" by fastforce
    show ?thesis
      using Bin.prems(2) Bin.IH(1) [OF o(2) l'] a lt l' filter_high [OF o(1) lt]
      by (auto simp: put_entry_def entries_rebal)
  next
    assume gt: "lt (fst e) k" "\<not> lt k (fst e)"
    obtain r' c where r': "ins lt k v r = (r', c)" by fastforce
    show ?thesis
      using Bin.prems(2) Bin.IH(2) [OF o(3) r'] a gt r' filter_low [OF o(1) gt(1)]
      by (auto simp: put_entry_def entries_rebal)
  next
    assume eq: "\<not> lt k (fst e)" "\<not> lt (fst e) k" "equiv_key lt k (fst e)"
    then show ?thesis
      using Bin.prems(2) a filter_mid [OF o(1) eq(3)] by (auto simp: put_entry_def)
  qed
qed

lemma entries_del:
  "ordered lt (entries t) \<Longrightarrow> del lt k t = (t', b) \<Longrightarrow>
     entries t' = drop_entry lt k (entries t) \<and> b = (held lt k (entries t) \<noteq> None)"
proof (induction t arbitrary: t' b)
  case Tip
  then show ?case by (auto simp: drop_entry_def below_def above_def held_def)
next
  case (Bin l a r)
  obtain e n where a: "a = (e, n)" by fastforce
  have o: "ordered lt (entries l @ e # entries r)" "ordered lt (entries l)" "ordered lt (entries r)"
    using Bin.prems(1) a by (auto simp: sorted_wrt_append)
  show ?case
  proof (rule pivot_cases [of k "fst e"])
    assume lt: "lt k (fst e)"
    obtain l' c where l': "del lt k l = (l', c)" by fastforce
    show ?thesis
      using Bin.prems(2) Bin.IH(1) [OF o(2) l'] a lt l' filter_high [OF o(1) lt]
      by (auto simp: drop_entry_def entries_rebal split: if_splits)
  next
    assume gt: "lt (fst e) k" "\<not> lt k (fst e)"
    obtain r' c where r': "del lt k r = (r', c)" by fastforce
    show ?thesis
      using Bin.prems(2) Bin.IH(2) [OF o(3) r'] a gt r' filter_low [OF o(1) gt(1)]
      by (auto simp: drop_entry_def entries_rebal split: if_splits)
  next
    assume eq: "\<not> lt k (fst e)" "\<not> lt (fst e) k" "equiv_key lt k (fst e)"
    obtain f r' where r': "del_first r = (f, r')" by fastforce
    show ?thesis
      using Bin.prems(2) a eq r' entries_del_first [OF _ r'] filter_mid [OF o(1) eq(3)]
      by (auto simp: drop_entry_def entries_rebal split: if_splits)
  qed
qed

lemma find_pure_held:
  "ordered lt (entries t) \<Longrightarrow> find_pure lt k t = map_option snd (held lt k (entries t))"
proof (induction t)
  case Tip
  then show ?case by (simp add: held_def)
next
  case (Bin l a r)
  obtain e n where a: "a = (e, n)" by fastforce
  have o: "ordered lt (entries l @ e # entries r)" "ordered lt (entries l)" "ordered lt (entries r)"
    using Bin.prems(1) a by (auto simp: sorted_wrt_append)
  show ?case
    using Bin.IH(1) [OF o(2)] Bin.IH(2) [OF o(3)] a
      filter_high(3) [OF o(1)] filter_low(3) [OF o(1)] filter_mid(3) [OF o(1)]
    by (cases rule: pivot_cases [of k "fst e"]) simp_all
qed

lemma ordered_below_above: "ordered lt es \<Longrightarrow> ordered lt (below lt k es)"
  "ordered lt es \<Longrightarrow> ordered lt (above lt k es)"
  by (simp_all add: below_def above_def sorted_wrt_filter)

lemma in_below: "e \<in> set (below lt k es) \<longleftrightarrow> e \<in> set es \<and> lt (fst e) k"
  and in_above: "e \<in> set (above lt k es) \<longleftrightarrow> e \<in> set es \<and> lt k (fst e)"
  by (simp_all add: below_def above_def)

definition kept :: "'k \<Rightarrow> ('k \<times> 'v) list \<Rightarrow> 'k" where
  "kept k es = (case held lt k es of None \<Rightarrow> k | Some e \<Rightarrow> fst e)"

lemma equiv_kept: "equiv_key lt k (kept k es)"
proof (cases "held lt k es")
  case None
  then show ?thesis using irrefl by (simp add: kept_def equiv_key_def)
next
  case (Some e)
  then have "equiv_key lt k (fst e)" by (auto simp: held_def find_Some_iff)
  then show ?thesis using Some by (simp add: kept_def)
qed

lemma put_entry_kept: "put_entry lt k v es = below lt k es @ (kept k es, v) # above lt k es"
  by (simp add: put_entry_def kept_def split: option.splits)

lemma ordered_put: "ordered lt es \<Longrightarrow> ordered lt (put_entry lt k v es)"
  using ordered_below_above [of es k] equiv_less [OF equiv_kept [of k es]] trans
  by (auto simp: put_entry_kept sorted_wrt_append in_below in_above)

lemma ordered_drop: "ordered lt es \<Longrightarrow> ordered lt (drop_entry lt k es)"
  using ordered_below_above [of es k] trans
  by (auto simp: drop_entry_def sorted_wrt_append in_below in_above)

lemma held_Some_iff:
  assumes "ordered lt es"
  shows "held lt k es = Some e \<longleftrightarrow> e \<in> set es \<and> equiv_key lt k (fst e)"
proof
  assume "held lt k es = Some e"
  then show "e \<in> set es \<and> equiv_key lt k (fst e)"
    by (auto simp: held_def find_Some_iff)
next
  assume "e \<in> set es \<and> equiv_key lt k (fst e)"
  moreover then obtain xs ys where "es = xs @ e # ys" by (auto dest: split_list)
  ultimately show "held lt k es = Some e"
    using filter_mid(3) [of xs e ys k] assms by simp
qed

lemma held_None_iff: "held lt k es = None \<longleftrightarrow> (\<forall>e \<in> set es. \<not> equiv_key lt k (fst e))"
  by (auto simp: held_def find_None_iff)

lemma held_same_members:
  assumes "ordered lt es" "ordered lt fs" "equiv_key lt j k"
    and "\<And>e. equiv_key lt j (fst e) \<Longrightarrow> e \<in> set es \<longleftrightarrow> e \<in> set fs"
  shows "held lt j es = held lt k fs"
proof (cases "held lt k fs")
  case None
  then have "held lt j es = None"
    using assms(3,4) equiv_trans unfolding held_None_iff equiv_key_def by blast
  then show ?thesis using None by simp
next
  case (Some e)
  then have "e \<in> set fs" "equiv_key lt j (fst e)"
    using held_Some_iff [OF assms(2)] assms(3) equiv_trans by blast+
  then show ?thesis
    using Some held_Some_iff [OF assms(1)] assms(4) by simp
qed

lemma held_put:
  fixes es :: "('k \<times> 'v) list"
  assumes o: "ordered lt es"
  shows "held lt j (put_entry lt k v es) =
    (if equiv_key lt j k then Some (kept k es, v) else held lt j es)"
proof (cases "equiv_key lt j k")
  case True
  then have "equiv_key lt j (kept k es)"
    using equiv_kept equiv_trans by blast
  then show ?thesis
    using True held_Some_iff [OF ordered_put [OF o]] by (simp add: put_entry_kept)
next
  case False
  have "held lt j (put_entry lt k v es) = held lt j es"
  proof (rule held_same_members [OF ordered_put [OF o] o])
    show "equiv_key lt j j" using irrefl by (simp add: equiv_key_def)
    fix e :: "'k \<times> 'v" assume e: "equiv_key lt j (fst e)"
    then have "\<not> equiv_key lt (fst e) k" "\<not> equiv_key lt (fst e) (kept k es)"
      using False equiv_kept equiv_trans unfolding equiv_key_def by blast+
    moreover from this have "e \<noteq> (kept k es, v)"
      using irrefl by (auto simp: equiv_key_def)
    ultimately show "e \<in> set (put_entry lt k v es) \<longleftrightarrow> e \<in> set es"
      by (auto simp: put_entry_kept in_below in_above equiv_key_def)
  qed
  then show ?thesis using False by simp
qed

lemma held_drop:
  fixes es :: "('k \<times> 'v) list"
  assumes o: "ordered lt es"
  shows "held lt j (drop_entry lt k es) = (if equiv_key lt j k then None else held lt j es)"
proof (cases "equiv_key lt j k")
  case True
  have "\<not> equiv_key lt j (fst e)" if "lt (fst e) k \<or> lt k (fst e)" for e
    using that True equiv_less [OF True] by (auto simp: equiv_key_def)
  then show ?thesis
    using True by (auto simp: held_None_iff drop_entry_def in_below in_above)
next
  case False
  have "held lt j (drop_entry lt k es) = held lt j es"
  proof (rule held_same_members [OF ordered_drop [OF o] o])
    show "equiv_key lt j j" using irrefl by (simp add: equiv_key_def)
    fix e :: "'k \<times> 'v" assume "equiv_key lt j (fst e)"
    then have "\<not> equiv_key lt (fst e) k"
      using False equiv_trans by blast
    then show "e \<in> set (drop_entry lt k es) \<longleftrightarrow> e \<in> set es"
      by (auto simp: drop_entry_def in_below in_above equiv_key_def)
  qed
  then show ?thesis using False by simp
qed

end

end
