(* ===== verification/NurseryMap.thy ===== *)
theory NurseryMap
  imports NurseryTree
begin

text \<open>
  The persistent nursery map (\<open>nursery_map.h\<close>): an AVL tree of shared nodes in an explicit
  heap, mutated in place only where the current edit token owns a node and copied along the
  path otherwise. This theory holds the heap, the node operations and the map's public
  operations. Nodes and tokens are numbered in allocation order, so a pointer is an index.
\<close>

section \<open>Code of the caller\<close>

text \<open>
  Comparators and the copy and move constructors of keys and values are code of the caller and
  may throw at any call. The outcomes of the calls to come are a list: \<open>None\<close> returns, \<open>Some x\<close> throws
  \<open>x\<close>, and every call behind the end of the list returns. What a comparator returns is the
  strict weak order \<open>lt\<close> that the header asks for.
\<close>

type_synonym user_calls = "string option list"

definition user_call :: "(user_calls, unit) op" where
  "user_call = (\<lambda>cs. case cs of [] \<Rightarrow> (Inr (), []) | None # cs \<Rightarrow> (Inr (), cs) | Some x # cs \<Rightarrow> (Inl (User_exception x), cs))"

definition compare_keys :: "('k \<Rightarrow> 'k \<Rightarrow> bool) \<Rightarrow> 'k \<Rightarrow> 'k \<Rightarrow> (user_calls, bool) op" where
  "compare_keys lt a b = bindM user_call (\<lambda>_. returnM (lt a b))"

section \<open>Heap of nodes and edit tokens\<close>

record ('k, 'v) nnode =
  entry :: "'k \<times> 'v"
  left :: "nat option"
  right :: "nat option"
  edit :: nat
  height :: nat

record ('k, 'v) heap =
  nodes :: "('k, 'v) nnode list"
  tokens :: "bool list"
  room :: nat
  calls :: user_calls

record statistics =
  nodes_created :: nat
  path_copies :: nat
  rotations :: nat

type_synonym ('k, 'v, 'a) edit_op = "(('k, 'v) heap \<times> statistics, 'a) op"

text \<open>
  Every \<open>make_shared\<close> can throw: \<open>room\<close> is the number of allocations that still succeed.
\<close>

definition spend :: "('k, 'v, unit) edit_op" where
  "spend = (\<lambda>(h, w). if room h = 0 then (Inl Bad_alloc, (h, w))
     else (Inr (), (h\<lparr>room := room h - 1\<rparr>, w)))"

definition on_calls :: "(user_calls, 'a) op \<Rightarrow> ('k, 'v, 'a) edit_op" where
  "on_calls m = (\<lambda>(h, w). case m (calls h) of (r, cs) \<Rightarrow> (r, (h\<lparr>calls := cs\<rparr>, w)))"

definition load_node :: "nat \<Rightarrow> ('k, 'v, ('k, 'v) nnode) edit_op" where
  "load_node a = (\<lambda>(h, w). (if a < length (nodes h) then Inr (nodes h ! a)
     else Inl (Undefined ''node pointer''), (h, w)))"

definition store_node :: "nat \<Rightarrow> (('k, 'v) nnode \<Rightarrow> ('k, 'v) nnode) \<Rightarrow> ('k, 'v, unit) edit_op" where
  "store_node a f = (\<lambda>(h, w). (Inr (), (h\<lparr>nodes := (nodes h)[a := f (nodes h ! a)]\<rparr>, w)))"

definition new_node :: "('k, 'v) nnode \<Rightarrow> ('k, 'v, nat) edit_op" where
  "new_node n = bindM spend (\<lambda>_ (h, w). (Inr (length (nodes h)),
     (h\<lparr>nodes := nodes h @ [n]\<rparr>, w\<lparr>nodes_created := nodes_created w + 1\<rparr>)))"

text \<open>
  A binding is allocated, then its key and its value are constructed. Bindings are immutable, so
  a node holds the pair itself.
\<close>

definition make_binding :: "('k, 'v, unit) edit_op" where
  "make_binding = bindM spend (\<lambda>_. bindM (on_calls user_call) (\<lambda>_. on_calls user_call))"

section \<open>Node operations\<close>

text \<open>
  A C++ parameter \<open>node_pointer & item\<close> is a slot: an operation takes the pointer in the
  slot and returns the pointer to leave there, and the caller stores it back into the field
  it came from. \<open>tok\<close> is the identity of the map's current edit token.
\<close>

definition editable :: "nat \<Rightarrow> nat \<Rightarrow> ('k, 'v, nat) edit_op" where
  "editable tok a = bindM (load_node a) (\<lambda>n.
     if edit n \<noteq> tok then
       bindM (new_node (n\<lparr>edit := tok\<rparr>)) (\<lambda>b.
       bindM (modifyM (\<lambda>(h, w). (h, w\<lparr>path_copies := path_copies w + 1\<rparr>))) (\<lambda>_. returnM b))
     else returnM a)"

definition node_height :: "nat option \<Rightarrow> ('k, 'v, nat) edit_op" where
  "node_height p = (case p of None \<Rightarrow> returnM 0
     | Some a \<Rightarrow> bindM (load_node a) (\<lambda>n. returnM (height n)))"

definition refresh :: "nat \<Rightarrow> ('k, 'v, unit) edit_op" where
  "refresh a = bindM (load_node a) (\<lambda>n.
     bindM (node_height (left n)) (\<lambda>l. bindM (node_height (right n)) (\<lambda>r.
     store_node a (\<lambda>n. n\<lparr>height := 1 + max l r\<rparr>))))"

definition balance :: "nat \<Rightarrow> ('k, 'v, int) edit_op" where
  "balance a = bindM (load_node a) (\<lambda>n.
     bindM (node_height (left n)) (\<lambda>l. bindM (node_height (right n)) (\<lambda>r.
     returnM (int l - int r))))"

definition deref :: "nat option \<Rightarrow> ('k, 'v, nat) edit_op" where
  "deref p = (case p of None \<Rightarrow> raiseM (Undefined ''null node'') | Some a \<Rightarrow> returnM a)"

definition count_rotation :: "('k, 'v, unit) edit_op" where
  "count_rotation = modifyM (\<lambda>(h, w). (h, w\<lparr>rotations := rotations w + 1\<rparr>))"

definition rotate_left :: "nat \<Rightarrow> nat \<Rightarrow> ('k, 'v, nat) edit_op" where
  "rotate_left tok item =
     bindM (load_node item) (\<lambda>n. bindM (deref (right n)) (\<lambda>r.
     bindM (editable tok r) (\<lambda>next.
     bindM (load_node next) (\<lambda>m.
     bindM (store_node item (\<lambda>n. n\<lparr>right := left m\<rparr>)) (\<lambda>_.
     bindM (refresh item) (\<lambda>_.
     bindM (store_node next (\<lambda>m. m\<lparr>left := Some item\<rparr>)) (\<lambda>_.
     bindM (refresh next) (\<lambda>_.
     bindM count_rotation (\<lambda>_. returnM next)))))))))"

definition rotate_right :: "nat \<Rightarrow> nat \<Rightarrow> ('k, 'v, nat) edit_op" where
  "rotate_right tok item =
     bindM (load_node item) (\<lambda>n. bindM (deref (left n)) (\<lambda>l.
     bindM (editable tok l) (\<lambda>next.
     bindM (load_node next) (\<lambda>m.
     bindM (store_node item (\<lambda>n. n\<lparr>left := right m\<rparr>)) (\<lambda>_.
     bindM (refresh item) (\<lambda>_.
     bindM (store_node next (\<lambda>m. m\<lparr>right := Some item\<rparr>)) (\<lambda>_.
     bindM (refresh next) (\<lambda>_.
     bindM count_rotation (\<lambda>_. returnM next)))))))))"

definition rebalance :: "nat \<Rightarrow> nat \<Rightarrow> ('k, 'v, nat) edit_op" where
  "rebalance tok item =
     bindM (refresh item) (\<lambda>_. bindM (balance item) (\<lambda>b.
     if b > 1 then
       bindM (load_node item) (\<lambda>n. bindM (deref (left n)) (\<lambda>l.
       bindM (editable tok l) (\<lambda>l.
       bindM (store_node item (\<lambda>n. n\<lparr>left := Some l\<rparr>)) (\<lambda>_.
       bindM (balance l) (\<lambda>bl.
       bindM (if bl < 0 then
                bindM (rotate_left tok l) (\<lambda>l. store_node item (\<lambda>n. n\<lparr>left := Some l\<rparr>))
              else returnM ()) (\<lambda>_.
       rotate_right tok item))))))
     else if b < -1 then
       bindM (load_node item) (\<lambda>n. bindM (deref (right n)) (\<lambda>r.
       bindM (editable tok r) (\<lambda>r.
       bindM (store_node item (\<lambda>n. n\<lparr>right := Some r\<rparr>)) (\<lambda>_.
       bindM (balance r) (\<lambda>br.
       bindM (if br > 0 then
                bindM (rotate_right tok r) (\<lambda>r. store_node item (\<lambda>n. n\<lparr>right := Some r\<rparr>))
              else returnM ()) (\<lambda>_.
       rotate_left tok item))))))
     else returnM item))"

text \<open>
  Recursion descends the tree; the fuel bounds the depth, and the callers below supply the
  cached height of the root, which the invariant makes exact.
\<close>

fun insert_node ::
  "('k \<Rightarrow> 'k \<Rightarrow> bool) \<Rightarrow> nat \<Rightarrow> nat \<Rightarrow> nat option \<Rightarrow> 'k \<Rightarrow> 'v \<Rightarrow> ('k, 'v, nat \<times> bool) edit_op" where
  "insert_node lt tok fuel None key val =
     bindM make_binding (\<lambda>_.
     bindM (new_node \<lparr>entry = (key, val), left = None, right = None, edit = tok, height = 1\<rparr>)
       (\<lambda>a. returnM (a, True)))"
| "insert_node lt tok 0 (Some item) key val = raiseM Out_of_fuel"
| "insert_node lt tok (Suc fuel) (Some item) key val =
     bindM (load_node item) (\<lambda>n.
     bindM (on_calls (compare_keys lt key (fst (entry n)))) (\<lambda>before.
     if before then
       bindM (editable tok item) (\<lambda>item.
       bindM (insert_node lt tok fuel (left n) key val) (\<lambda>(l, inserted).
       bindM (store_node item (\<lambda>n. n\<lparr>left := Some l\<rparr>)) (\<lambda>_.
       bindM (rebalance tok item) (\<lambda>item. returnM (item, inserted)))))
     else bindM (on_calls (compare_keys lt (fst (entry n)) key)) (\<lambda>behind.
     if behind then
       bindM (editable tok item) (\<lambda>item.
       bindM (insert_node lt tok fuel (right n) key val) (\<lambda>(r, inserted).
       bindM (store_node item (\<lambda>n. n\<lparr>right := Some r\<rparr>)) (\<lambda>_.
       bindM (rebalance tok item) (\<lambda>item. returnM (item, inserted)))))
     else
       bindM make_binding (\<lambda>_.
       bindM (editable tok item) (\<lambda>item.
       bindM (store_node item (\<lambda>m. m\<lparr>entry := (fst (entry n), val)\<rparr>)) (\<lambda>_.
       returnM (item, False)))))))"

fun remove_first :: "nat \<Rightarrow> nat \<Rightarrow> nat \<Rightarrow> ('k, 'v, ('k \<times> 'v) \<times> nat option) edit_op" where
  "remove_first tok 0 item = raiseM Out_of_fuel"
| "remove_first tok (Suc fuel) item =
     bindM (load_node item) (\<lambda>n.
     case left n of
       None \<Rightarrow> returnM (entry n, right n)
     | Some l \<Rightarrow>
         bindM (editable tok item) (\<lambda>item.
         bindM (remove_first tok fuel l) (\<lambda>(first, l').
         bindM (store_node item (\<lambda>n. n\<lparr>left := l'\<rparr>)) (\<lambda>_.
         bindM (rebalance tok item) (\<lambda>item. returnM (first, Some item))))))"

fun remove_node ::
  "('k \<Rightarrow> 'k \<Rightarrow> bool) \<Rightarrow> nat \<Rightarrow> nat \<Rightarrow> nat option \<Rightarrow> 'k \<Rightarrow> ('k, 'v, nat option \<times> bool) edit_op" where
  "remove_node lt tok fuel None key = returnM (None, False)"
| "remove_node lt tok 0 (Some item) key = raiseM Out_of_fuel"
| "remove_node lt tok (Suc fuel) (Some item) key =
     bindM (load_node item) (\<lambda>n.
     bindM (on_calls (compare_keys lt key (fst (entry n)))) (\<lambda>before.
     if before then
       bindM (editable tok item) (\<lambda>item.
       bindM (remove_node lt tok fuel (left n) key) (\<lambda>(l, erased).
       bindM (store_node item (\<lambda>n. n\<lparr>left := l\<rparr>)) (\<lambda>_.
       if erased then bindM (rebalance tok item) (\<lambda>item. returnM (Some item, True))
       else returnM (Some item, False))))
     else bindM (on_calls (compare_keys lt (fst (entry n)) key)) (\<lambda>behind.
     if behind then
       bindM (editable tok item) (\<lambda>item.
       bindM (remove_node lt tok fuel (right n) key) (\<lambda>(r, erased).
       bindM (store_node item (\<lambda>n. n\<lparr>right := r\<rparr>)) (\<lambda>_.
       if erased then bindM (rebalance tok item) (\<lambda>item. returnM (Some item, True))
       else returnM (Some item, False))))
     else case (left n, right n) of
       (Some l, Some r) \<Rightarrow>
         bindM (editable tok item) (\<lambda>item.
         bindM (remove_first tok fuel r) (\<lambda>(first, r').
         bindM (store_node item (\<lambda>n. n\<lparr>right := r'\<rparr>)) (\<lambda>_.
         bindM (store_node item (\<lambda>n. n\<lparr>entry := first\<rparr>)) (\<lambda>_.
         bindM (rebalance tok item) (\<lambda>item. returnM (Some item, True))))))
     | (l, r) \<Rightarrow> returnM (if l = None then r else l, True))))"

text \<open>A lookup changes nothing; only the outcomes of its comparator calls are consumed.\<close>

fun find_in ::
  "('k \<Rightarrow> 'k \<Rightarrow> bool) \<Rightarrow> ('k, 'v) heap \<Rightarrow> nat \<Rightarrow> nat option \<Rightarrow> 'k \<Rightarrow> (user_calls, 'v option) op" where
  "find_in lt h fuel None key = returnM None"
| "find_in lt h 0 (Some item) key = raiseM Out_of_fuel"
| "find_in lt h (Suc fuel) (Some item) key =
     (if item < length (nodes h) then
        let n = nodes h ! item in
        bindM (compare_keys lt key (fst (entry n))) (\<lambda>before.
        if before then find_in lt h fuel (left n) key
        else bindM (compare_keys lt (fst (entry n)) key) (\<lambda>behind.
          if behind then find_in lt h fuel (right n) key
          else returnM (Some (snd (entry n)))))
      else raiseM (Undefined ''node pointer''))"

fun visit_in :: "('k, 'v) heap \<Rightarrow> nat \<Rightarrow> nat option \<Rightarrow> ('k \<times> 'v) list res" where
  "visit_in h fuel None = Inr []"
| "visit_in h 0 (Some item) = Inl Out_of_fuel"
| "visit_in h (Suc fuel) (Some item) =
     (if item < length (nodes h) then
        let n = nodes h ! item in
        bindE (visit_in h fuel (left n)) (\<lambda>xs.
        bindE (visit_in h fuel (right n)) (\<lambda>ys. Inr (xs @ entry n # ys)))
      else Inl (Undefined ''node pointer''))"

section \<open>The map and its snapshots\<close>

text \<open>
  A transient map owns its edit token; a snapshot is a frozen root. Both point into the
  shared heap. A failed edit poisons its map, and every later use of that map throws.
\<close>

record nursery_map =
  root :: "nat option"
  own_edit :: "nat option"
  msize :: nat
  work :: statistics
  failed :: bool

record snapshot =
  sroot :: "nat option"
  ssize :: nat

definition empty_map :: nursery_map where
  "empty_map = \<lparr>root = None, own_edit = None, msize = 0,
     work = \<lparr>nodes_created = 0, path_copies = 0, rotations = 0\<rparr>, failed = False\<rparr>"

definition require_active :: "nursery_map \<Rightarrow> unit res" where
  "require_active m = (if failed m then Inl (Logic_error ''failed nursery map'') else Inr ())"

definition root_height :: "('k, 'v) heap \<Rightarrow> nat option \<Rightarrow> nat" where
  "root_height h p = (case p of None \<Rightarrow> 0 | Some a \<Rightarrow> height (nodes h ! a))"

definition token_open :: "('k, 'v) heap \<Rightarrow> nat \<Rightarrow> bool" where
  "token_open h t \<longleftrightarrow> t < length (tokens h) \<and> tokens h ! t"

definition begin_edit :: "('k, 'v) heap \<Rightarrow> nat option \<Rightarrow> nat res \<times> ('k, 'v) heap" where
  "begin_edit h e =
     (let fresh_token = (if room h = 0 then (Inl Bad_alloc, h)
        else (Inr (length (tokens h)), h\<lparr>tokens := tokens h @ [True], room := room h - 1\<rparr>))
      in case e of None \<Rightarrow> fresh_token | Some t \<Rightarrow> if token_open h t then (Inr t, h) else fresh_token)"

definition freeze ::
  "('k, 'v) heap \<Rightarrow> nursery_map \<Rightarrow> snapshot res \<times> ('k, 'v) heap" where
  "freeze h m = (case require_active m of Inl e \<Rightarrow> (Inl e, h)
     | Inr _ \<Rightarrow> (Inr \<lparr>sroot = root m, ssize = msize m\<rparr>,
         (case own_edit m of None \<Rightarrow> h | Some t \<Rightarrow> h\<lparr>tokens := (tokens h)[t := False]\<rparr>)))"

definition thaw :: "snapshot \<Rightarrow> nursery_map" where
  "thaw s = empty_map\<lparr>root := sroot s, msize := ssize s\<rparr>"

text \<open>Moving from a map leaves an empty, usable map behind.\<close>

definition move_map :: "nursery_map \<Rightarrow> nursery_map \<times> nursery_map" where
  "move_map other = (other, empty_map)"

definition move_snapshot :: "snapshot \<Rightarrow> snapshot \<times> snapshot" where
  "move_snapshot other = (other, \<lparr>sroot = None, ssize = 0\<rparr>)"

definition insert_or_assign ::
  "('k \<Rightarrow> 'k \<Rightarrow> bool) \<Rightarrow> 'k \<Rightarrow> 'v \<Rightarrow> ('k, 'v) heap \<times> nursery_map \<Rightarrow>
   bool res \<times> ('k, 'v) heap \<times> nursery_map" where
  "insert_or_assign lt key val = (\<lambda>(h, m). case require_active m of
     Inl e \<Rightarrow> (Inl e, (h, m))
   | Inr _ \<Rightarrow> (case begin_edit h (own_edit m) of
       (Inl e, h1) \<Rightarrow> (Inl e, (h1, m\<lparr>failed := True\<rparr>))
     | (Inr t, h1) \<Rightarrow>
         (case insert_node lt t (root_height h1 (root m)) (root m) key val (h1, work m) of
            (Inl e, (h2, w)) \<Rightarrow> (Inl e, (h2, m\<lparr>own_edit := Some t, work := w, failed := True\<rparr>))
          | (Inr (a, inserted), (h2, w)) \<Rightarrow> (Inr inserted, (h2, m\<lparr>root := Some a, own_edit := Some t,
              msize := msize m + of_bool inserted, work := w\<rparr>)))))"

definition erase_key ::
  "('k \<Rightarrow> 'k \<Rightarrow> bool) \<Rightarrow> 'k \<Rightarrow> ('k, 'v) heap \<times> nursery_map \<Rightarrow>
   bool res \<times> ('k, 'v) heap \<times> nursery_map" where
  "erase_key lt key = (\<lambda>(h, m). case require_active m of
     Inl e \<Rightarrow> (Inl e, (h, m))
   | Inr _ \<Rightarrow> (case begin_edit h (own_edit m) of
       (Inl e, h1) \<Rightarrow> (Inl e, (h1, m\<lparr>failed := True\<rparr>))
     | (Inr t, h1) \<Rightarrow>
         (case remove_node lt t (root_height h1 (root m)) (root m) key (h1, work m) of
            (Inl e, (h2, w)) \<Rightarrow> (Inl e, (h2, m\<lparr>own_edit := Some t, work := w, failed := True\<rparr>))
          | (Inr (p, erased), (h2, w)) \<Rightarrow> (Inr erased, (h2, m\<lparr>root := p, own_edit := Some t,
              msize := msize m - of_bool erased, work := w\<rparr>)))))"

text \<open>The outcomes of the comparator calls of a lookup are an argument of it.\<close>

definition snapshot_find ::
  "('k \<Rightarrow> 'k \<Rightarrow> bool) \<Rightarrow> user_calls \<Rightarrow> ('k, 'v) heap \<Rightarrow> snapshot \<Rightarrow> 'k \<Rightarrow> 'v option res" where
  "snapshot_find lt cs h s key = fst (find_in lt h (root_height h (sroot s)) (sroot s) key cs)"

definition snapshot_list :: "('k, 'v) heap \<Rightarrow> snapshot \<Rightarrow> ('k \<times> 'v) list res" where
  "snapshot_list h s = visit_in h (root_height h (sroot s)) (sroot s)"

definition map_find ::
  "('k \<Rightarrow> 'k \<Rightarrow> bool) \<Rightarrow> user_calls \<Rightarrow> ('k, 'v) heap \<Rightarrow> nursery_map \<Rightarrow> 'k \<Rightarrow> 'v option res" where
  "map_find lt cs h m key =
     bindE (require_active m) (\<lambda>_. fst (find_in lt h (root_height h (root m)) (root m) key cs))"

definition map_list :: "('k, 'v) heap \<Rightarrow> nursery_map \<Rightarrow> ('k \<times> 'v) list res" where
  "map_list h m = bindE (require_active m) (\<lambda>_. visit_in h (root_height h (root m)) (root m))"

definition map_size :: "nursery_map \<Rightarrow> nat res" where
  "map_size m = bindE (require_active m) (\<lambda>_. Inr (msize m))"

section \<open>Several owners over one heap\<close>

text \<open>
  A program holds any number of transient maps and snapshots over the same heap and applies
  the operations in any order.
\<close>

record ('k, 'v) owners =
  store :: "('k, 'v) heap"
  maps :: "nursery_map list"
  snaps :: "snapshot list"

inductive owner_step ::
  "('k \<Rightarrow> 'k \<Rightarrow> bool) \<Rightarrow> ('k, 'v) owners \<Rightarrow> ('k, 'v) owners \<Rightarrow> bool"
  for lt :: "'k \<Rightarrow> 'k \<Rightarrow> bool" where
  create: "owner_step lt s (s\<lparr>maps := maps s @ [empty_map]\<rparr>)"
| insert: "i < length (maps s) \<Longrightarrow> insert_or_assign lt key val (store s, maps s ! i) = (r, (h, m)) \<Longrightarrow>
    owner_step lt s (s\<lparr>store := h, maps := (maps s)[i := m]\<rparr>)"
| erase: "i < length (maps s) \<Longrightarrow> erase_key lt key (store s, maps s ! i) = (r, (h, m)) \<Longrightarrow>
    owner_step lt s (s\<lparr>store := h, maps := (maps s)[i := m]\<rparr>)"
| freeze: "i < length (maps s) \<Longrightarrow> freeze (store s) (maps s ! i) = (Inr z, h) \<Longrightarrow>
    owner_step lt s (s\<lparr>store := h, snaps := snaps s @ [z]\<rparr>)"
| thaw: "j < length (snaps s) \<Longrightarrow> owner_step lt s (s\<lparr>maps := maps s @ [thaw (snaps s ! j)]\<rparr>)"
| move: "i < length (maps s) \<Longrightarrow> move_map (maps s ! i) = (m, m') \<Longrightarrow>
    owner_step lt s (s\<lparr>maps := (maps s)[i := m'] @ [m]\<rparr>)"
| refill: "owner_step lt s (s\<lparr>store := (store s)\<lparr>room := n, calls := cs\<rparr>\<rparr>)"

text \<open>
  \<open>refill\<close> is the behaviour of the allocator and of the caller's code: how many allocations still
  succeed and which calls throw may change at any time. The program starts with no owner and an
  empty heap.
\<close>

definition owners0 :: "nat \<Rightarrow> ('k, 'v) owners" where
  "owners0 n = \<lparr>store = \<lparr>nodes = [], tokens = [], room = n, calls = []\<rparr>, maps = [], snaps = []\<rparr>"

inductive owners_reachable :: "('k \<Rightarrow> 'k \<Rightarrow> bool) \<Rightarrow> ('k, 'v) owners \<Rightarrow> bool"
  for lt :: "'k \<Rightarrow> 'k \<Rightarrow> bool" where
  start: "owners_reachable lt (owners0 n)"
| step: "owners_reachable lt s \<Longrightarrow> owner_step lt s s' \<Longrightarrow> owners_reachable lt s'"

inductive_cases owner_stepE: "owner_step lt s s'"

end
