(* ===== verification/NurseryRefine.thy ===== *)
theory NurseryRefine
  imports NurseryMap
begin

text \<open>
  The heap operations of \<open>NurseryMap\<close> refine the pure AVL functions of \<open>NurseryTree\<close>, and
  write only nodes that the current edit token owns. The frame part is what isolates frozen
  snapshots; the functional part gives the map semantics.
\<close>

section \<open>Trees in the heap\<close>

text \<open>
  The shape of a tree in the heap is a tree of addresses. \<open>wf_tree\<close> says that the links of
  the nodes follow the shape, \<open>dist\<close> that no node occurs twice, and \<open>content\<close> reads the
  pure tree of bindings and cached heights.
\<close>

fun ptr :: "nat btree \<Rightarrow> nat option" where
  "ptr Tip = None"
| "ptr (Bin l a r) = Some a"

fun wf_tree :: "('k, 'v) nnode list \<Rightarrow> nat btree \<Rightarrow> bool" where
  "wf_tree ns Tip = True"
| "wf_tree ns (Bin l a r) \<longleftrightarrow> a < length ns \<and> left (ns ! a) = ptr l \<and> right (ns ! a) = ptr r \<and>
     wf_tree ns l \<and> wf_tree ns r"

fun dist :: "nat btree \<Rightarrow> bool" where
  "dist Tip = True"
| "dist (Bin l a r) \<longleftrightarrow> a \<notin> set_btree l \<and> a \<notin> set_btree r \<and> set_btree l \<inter> set_btree r = {} \<and>
     dist l \<and> dist r"

definition cell :: "('k, 'v) nnode list \<Rightarrow> nat \<Rightarrow> ('k \<times> 'v) \<times> nat" where
  "cell ns a = (entry (ns ! a), height (ns ! a))"

abbreviation content :: "('k, 'v) nnode list \<Rightarrow> nat btree \<Rightarrow> ('k, 'v) avl" where
  "content ns T \<equiv> map_btree (cell ns) T"

lemma ptr_None [simp]: "ptr T = None \<longleftrightarrow> T = Tip" "None = ptr T \<longleftrightarrow> T = Tip"
  by (cases T; simp)+

lemma ptr_Some: "ptr T = Some a \<longleftrightarrow> (\<exists>l r. T = Bin l a r)"
  by (cases T) auto

lemma map_btree_Tip [simp]: "map_btree f T = Tip \<longleftrightarrow> T = Tip" "Tip = map_btree f T \<longleftrightarrow> T = Tip"
  by (cases T; simp)+

lemma wf_tree_bound: "wf_tree ns T \<Longrightarrow> a \<in> set_btree T \<Longrightarrow> a < length ns"
  by (induction T) auto

lemma same_nodes:
  "wf_tree ns T \<Longrightarrow> length ns \<le> length ns' \<Longrightarrow> (\<And>a. a \<in> set_btree T \<Longrightarrow> ns' ! a = ns ! a) \<Longrightarrow>
     wf_tree ns' T \<and> content ns' T = content ns T"
  by (induction T) (auto simp: cell_def)

section \<open>What an edit may change\<close>

text \<open>
  \<open>frame tok A h h'\<close>: between \<open>h\<close> and \<open>h'\<close> only nodes of \<open>A\<close> that the token owns were
  written, every other node is bit for bit the same, no node changed its owner, and every
  new node belongs to the token.
\<close>

definition frame :: "nat \<Rightarrow> nat set \<Rightarrow> ('k, 'v) heap \<Rightarrow> ('k, 'v) heap \<Rightarrow> bool" where
  "frame tok A h h' \<longleftrightarrow> length (nodes h) \<le> length (nodes h') \<and> tokens h' = tokens h \<and> set (calls h') \<subseteq> set (calls h) \<and>
     (\<forall>a < length (nodes h). edit (nodes h' ! a) = edit (nodes h ! a) \<and>
        (a \<in> A \<and> edit (nodes h ! a) = tok \<or> nodes h' ! a = nodes h ! a)) \<and>
     (\<forall>a. length (nodes h) \<le> a \<and> a < length (nodes h') \<longrightarrow> edit (nodes h' ! a) = tok)"

abbreviation fresh :: "('k, 'v) heap \<Rightarrow> ('k, 'v) heap \<Rightarrow> nat set" where
  "fresh h h' \<equiv> {length (nodes h) ..< length (nodes h')}"

lemma frame_refl [simp]: "frame tok A h h"
  by (simp add: frame_def)

lemma frame_length: "frame tok A h h' \<Longrightarrow> length (nodes h) \<le> length (nodes h')"
  by (simp add: frame_def)

lemma frame_trans:
  assumes "frame tok A h h1" "frame tok B h1 h2" "B \<subseteq> C \<union> fresh h h1" "A \<subseteq> C"
  shows "frame tok C h h2"
  unfolding frame_def
proof (intro conjI allI impI)
  show "length (nodes h) \<le> length (nodes h2)" "tokens h2 = tokens h" "set (calls h2) \<subseteq> set (calls h)"
    using assms(1,2) by (auto simp: frame_def)
next
  fix a assume a: "a < length (nodes h)"
  then have a1: "a < length (nodes h1)" and nf: "a \<notin> fresh h h1"
    using assms(1) by (simp_all add: frame_def)
  show "edit (nodes h2 ! a) = edit (nodes h ! a)"
    using assms(1,2) a a1 by (simp add: frame_def)
  show "a \<in> C \<and> edit (nodes h ! a) = tok \<or> nodes h2 ! a = nodes h ! a"
    using assms a a1 nf unfolding frame_def by (metis UnE subsetD)
next
  fix a assume "length (nodes h) \<le> a \<and> a < length (nodes h2)"
  then show "edit (nodes h2 ! a) = tok"
    using assms(1,2) unfolding frame_def by (metis not_le)
qed

lemma frame_trans_same: "frame tok A h h1 \<Longrightarrow> frame tok A h1 h2 \<Longrightarrow> frame tok A h h2"
  by (rule frame_trans) auto

lemma frame_mono: "frame tok A h h' \<Longrightarrow> A \<subseteq> B \<Longrightarrow> frame tok B h h'"
  by (auto simp: frame_def)

lemma frame_same:
  assumes "frame tok A h h'" "wf_tree (nodes h) T"
    and "\<And>a. a \<in> set_btree T \<Longrightarrow> a \<notin> A \<or> edit (nodes h ! a) \<noteq> tok"
  shows "wf_tree (nodes h') T" and "content (nodes h') T = content (nodes h) T"
proof -
  have "nodes h' ! a = nodes h ! a" if "a \<in> set_btree T" for a
    using assms(1) assms(3) [OF that] wf_tree_bound [OF assms(2) that] by (auto simp: frame_def)
  then show "wf_tree (nodes h') T" "content (nodes h') T = content (nodes h) T"
    using same_nodes [OF assms(2)] frame_length [OF assms(1)] by blast+
qed

lemma frame_disjoint:
  assumes "frame tok A h h'" "wf_tree (nodes h) T" "set_btree T \<inter> A = {}"
  shows "wf_tree (nodes h') T" and "content (nodes h') T = content (nodes h) T"
  using frame_same [OF assms(1,2)] assms(3) by blast+

lemma frame_other:
  assumes "frame tok A h h'" "a < length (nodes h)" "a \<notin> A"
  shows "nodes h' ! a = nodes h ! a" and "a < length (nodes h')"
  using assms by (auto simp: frame_def)

text \<open>
  What an edit can throw: a failed allocation, or what one of the pending calls of the caller's
  code throws.
\<close>

definition thrown :: "('k, 'v) heap \<Rightarrow> exn \<Rightarrow> bool" where
  "thrown h e \<longleftrightarrow> e = Bad_alloc \<or> (\<exists>x. e = User_exception x \<and> Some x \<in> set (calls h))"

lemma thrown_alloc [simp]: "thrown h Bad_alloc"
  by (simp add: thrown_def)

lemma frame_calls: "frame tok A h h' \<Longrightarrow> set (calls h') \<subseteq> set (calls h)"
  by (simp add: frame_def)

lemma thrown_later: "thrown h' e \<Longrightarrow> frame tok A h h' \<Longrightarrow> thrown h e"
  using frame_calls by (fastforce simp: thrown_def)

text \<open>A tree rebuilt from \<open>A\<close> and new nodes avoids whatever avoided \<open>A\<close> before.\<close>

lemma fresh_disjoint:
  "S \<subseteq> A \<union> fresh h h' \<Longrightarrow> a \<notin> A \<Longrightarrow> a < length (nodes h) \<Longrightarrow> a \<notin> S"
  by auto

lemma fresh_disjoint_set:
  "S \<subseteq> A \<union> fresh h h' \<Longrightarrow> wf_tree (nodes h) T \<Longrightarrow> set_btree T \<inter> A = {} \<Longrightarrow> set_btree T \<inter> S = {}"
  using wf_tree_bound by fastforce

lemma frame_write:
  "edit (nodes h ! a) = tok \<Longrightarrow> edit x = tok \<Longrightarrow> frame tok {a} h (h\<lparr>nodes := (nodes h)[a := x]\<rparr>)"
  by (auto simp: frame_def nth_update_if)

lemma same_write: "wf_tree ns T \<Longrightarrow> a \<notin> set_btree T \<Longrightarrow>
    wf_tree (ns[a := x]) T \<and> content (ns[a := x]) T = content ns T"
  by (rule same_nodes) (auto simp: nth_update_if)

lemma load_node_in [simp]: "a < length (nodes h) \<Longrightarrow> load_node a (h, w) = (Inr (nodes h ! a), (h, w))"
  by (simp add: load_node_def)

lemma store_node_eq [simp]:
  "store_node a f (h, w) = (Inr (), (h\<lparr>nodes := (nodes h)[a := f (nodes h ! a)]\<rparr>, w))"
  by (simp add: store_node_def)

lemma deref_ptr [simp]: "deref (Some a) s = (Inr a, s)"
  by (simp add: deref_def)

lemma node_height_ptr [simp]:
  "wf_tree (nodes h) T \<Longrightarrow> node_height (ptr T) (h, w) = (Inr (ht (content (nodes h) T)), (h, w))"
  by (cases T) (simp_all add: node_height_def cell_def)

lemma refresh_eq:
  "wf_tree (nodes h) (Bin l a r) \<Longrightarrow> refresh a (h, w) = (Inr (), (h\<lparr>nodes := (nodes h)
     [a := (nodes h ! a)\<lparr>height := 1 + max (ht (content (nodes h) l)) (ht (content (nodes h) r))\<rparr>]\<rparr>, w))"
  by (simp add: refresh_def)

lemma balance_eq:
  "wf_tree (nodes h) (Bin l a r) \<Longrightarrow> balance a (h, w) =
     (Inr (int (ht (content (nodes h) l)) - int (ht (content (nodes h) r))), (h, w))"
  by (simp add: balance_def)

lemma editable_spec:
  assumes "a < length (nodes h)" "editable tok a (h, w) = (res, (h', w'))"
  shows "frame tok {} h h' \<and> (case res of Inl e \<Rightarrow> e = Bad_alloc
    | Inr b \<Rightarrow> (b = a \<or> b \<in> fresh h h') \<and> b < length (nodes h') \<and>
        nodes h' ! b = (nodes h ! a)\<lparr>edit := tok\<rparr>)"
  using assms
  by (auto simp: editable_def new_node_def spend_def bindM_apply frame_def nth_append
      split: if_splits)

section \<open>Rotations and rebalancing refine the pure functions\<close>

text \<open>
  The result of a successful edit: a well-formed tree at the returned pointer, built from
  the nodes \<open>A\<close> it was given and new ones, with the stated content.
\<close>

definition built ::
  "nat set \<Rightarrow> ('k, 'v) heap \<Rightarrow> ('k, 'v) heap \<Rightarrow> nat option \<Rightarrow> ('k, 'v) avl \<Rightarrow> bool" where
  "built A h h' p c \<longleftrightarrow> (\<exists>T. ptr T = p \<and> wf_tree (nodes h') T \<and> dist T \<and>
     set_btree T \<subseteq> A \<union> fresh h h' \<and> content (nodes h') T = c)"

lemma built_tree:
  "wf_tree (nodes h') T \<Longrightarrow> dist T \<Longrightarrow> set_btree T \<subseteq> A \<union> fresh h h' \<Longrightarrow>
     built A h h' (ptr T) (content (nodes h') T)"
  by (auto simp: built_def)

text \<open>Making the root of a subtree writable: the same tree, its root owned by the token.\<close>

lemma editable_tree:
  assumes wf: "wf_tree (nodes h) (Bin l a r)" and d: "dist (Bin l a r)"
    and ed: "editable tok a (h, w) = (Inr b, (h', w'))"
  shows "frame tok {} h h'" "b = a \<or> b \<in> fresh h h'" "wf_tree (nodes h') (Bin l b r)" "dist (Bin l b r)"
    "content (nodes h') l = content (nodes h) l" "content (nodes h') r = content (nodes h) r"
    "cell (nodes h') b = cell (nodes h) a" "edit (nodes h' ! b) = tok"
proof -
  have sp: "frame tok {} h h'" "b = a \<or> b \<in> fresh h h'" "b < length (nodes h')"
    "nodes h' ! b = (nodes h ! a)\<lparr>edit := tok\<rparr>"
    using editable_spec [OF _ ed] wf by auto
  have sub: "wf_tree (nodes h') l" "content (nodes h') l = content (nodes h) l"
    "wf_tree (nodes h') r" "content (nodes h') r = content (nodes h) r"
    using frame_same [OF sp(1)] wf by auto
  have "b \<notin> set_btree l" "b \<notin> set_btree r"
    using sp(2) d wf wf_tree_bound [of "nodes h"] by fastforce+
  then show "frame tok {} h h'" "b = a \<or> b \<in> fresh h h'" "wf_tree (nodes h') (Bin l b r)"
    "dist (Bin l b r)" "content (nodes h') l = content (nodes h) l"
    "content (nodes h') r = content (nodes h) r" "cell (nodes h') b = cell (nodes h) a"
    "edit (nodes h' ! b) = tok"
    using sp sub wf d by (auto simp: cell_def)
qed

lemma editable_fails: "a < length (nodes h) \<Longrightarrow> editable tok a (h, w) = (Inl e, (h', w')) \<Longrightarrow>
    e = Bad_alloc \<and> frame tok {} h h'"
  using editable_spec by fastforce

text \<open>Storing a subtree into an owned node, and recomputing its height.\<close>

lemma link_left:
  assumes "wf_tree (nodes h) l" "wf_tree (nodes h) r" "a < length (nodes h)" "right (nodes h ! a) = ptr r"
    and "dist (Bin l a r)" "edit (nodes h ! a) = tok"
  defines "h' \<equiv> h\<lparr>nodes := (nodes h)[a := (nodes h ! a)\<lparr>left := ptr l\<rparr>]\<rparr>"
  shows "wf_tree (nodes h') (Bin l a r)" "content (nodes h') l = content (nodes h) l"
    "content (nodes h') r = content (nodes h) r" "cell (nodes h') a = cell (nodes h) a"
    "frame tok {a} h h'" "edit (nodes h' ! a) = tok" "fresh h h' = {}"
proof -
  note sw = same_write [of "nodes h" l a "(nodes h ! a)\<lparr>left := ptr l\<rparr>"]
    same_write [of "nodes h" r a "(nodes h ! a)\<lparr>left := ptr l\<rparr>"]
  show "wf_tree (nodes h') (Bin l a r)" "content (nodes h') l = content (nodes h) l"
    "content (nodes h') r = content (nodes h) r" "cell (nodes h') a = cell (nodes h) a"
    "edit (nodes h' ! a) = tok" "fresh h h' = {}"
    using assms(1-6) sw by (simp_all add: h'_def cell_def)
  show "frame tok {a} h h'"
    unfolding h'_def by (rule frame_write) (simp_all add: assms(6))
qed

lemma link_right:
  assumes "wf_tree (nodes h) l" "wf_tree (nodes h) r" "a < length (nodes h)" "left (nodes h ! a) = ptr l"
    and "dist (Bin l a r)" "edit (nodes h ! a) = tok"
  defines "h' \<equiv> h\<lparr>nodes := (nodes h)[a := (nodes h ! a)\<lparr>right := ptr r\<rparr>]\<rparr>"
  shows "wf_tree (nodes h') (Bin l a r)" "content (nodes h') l = content (nodes h) l"
    "content (nodes h') r = content (nodes h) r" "cell (nodes h') a = cell (nodes h) a"
    "frame tok {a} h h'" "edit (nodes h' ! a) = tok" "fresh h h' = {}"
proof -
  note sw = same_write [of "nodes h" l a "(nodes h ! a)\<lparr>right := ptr r\<rparr>"]
    same_write [of "nodes h" r a "(nodes h ! a)\<lparr>right := ptr r\<rparr>"]
  show "wf_tree (nodes h') (Bin l a r)" "content (nodes h') l = content (nodes h) l"
    "content (nodes h') r = content (nodes h) r" "cell (nodes h') a = cell (nodes h) a"
    "edit (nodes h' ! a) = tok" "fresh h h' = {}"
    using assms(1-6) sw by (simp_all add: h'_def cell_def)
  show "frame tok {a} h h'"
    unfolding h'_def by (rule frame_write) (simp_all add: assms(6))
qed

lemma refresh_tree:
  assumes wf: "wf_tree (nodes h) (Bin l a r)" and d: "dist (Bin l a r)"
    and own: "edit (nodes h ! a) = tok" and run: "refresh a (h, w) = (res, (h', w'))"
  shows "res = Inr ()" "w' = w" "frame tok {a} h h'" "fresh h h' = {}" "wf_tree (nodes h') (Bin l a r)"
    "content (nodes h') (Bin l a r) =
       mk (content (nodes h) l) (entry (nodes h ! a)) (content (nodes h) r)"
    "content (nodes h') l = content (nodes h) l" "content (nodes h') r = content (nodes h) r"
    "edit (nodes h' ! a) = tok" "entry (nodes h' ! a) = entry (nodes h ! a)"
proof -
  let ?x = "(nodes h ! a)\<lparr>height := 1 + max (ht (content (nodes h) l)) (ht (content (nodes h) r))\<rparr>"
  have h': "h' = h\<lparr>nodes := (nodes h)[a := ?x]\<rparr>" "res = Inr ()" "w' = w"
    using run refresh_eq [OF wf, of w] by simp_all
  then show "res = Inr ()" "w' = w" "fresh h h' = {}" by simp_all
  show "frame tok {a} h h'"
    using own frame_write [of h a tok ?x] by (simp add: h'(1))
  show "wf_tree (nodes h') (Bin l a r)" "content (nodes h') l = content (nodes h) l"
    "content (nodes h') r = content (nodes h) r" "edit (nodes h' ! a) = tok"
    "entry (nodes h' ! a) = entry (nodes h ! a)"
    using wf d own same_write [of "nodes h" l a ?x] same_write [of "nodes h" r a ?x]
    by (simp_all add: h'(1))
  then show "content (nodes h') (Bin l a r) =
       mk (content (nodes h) l) (entry (nodes h ! a)) (content (nodes h) r)"
    using wf by (simp add: mk_def cell_def h'(1))
qed

lemma rotate_left_spec:
  assumes wf: "wf_tree (nodes h) (Bin l a (Bin rl b rr))" and d: "dist (Bin l a (Bin rl b rr))"
    and own: "edit (nodes h ! a) = tok" and run: "rotate_left tok a (h, w) = (res, (h', w'))"
  shows "frame tok {a, b} h h' \<and> (case res of Inl e \<Rightarrow> e = Bad_alloc
    | Inr c \<Rightarrow> built (set_btree (Bin l a (Bin rl b rr))) h h' (Some c)
        (rotl (content (nodes h) l) (entry (nodes h ! a)) (content (nodes h) (Bin rl b rr))))"
proof -
  have b: "b < length (nodes h)" "wf_tree (nodes h) (Bin rl b rr)" "dist (Bin rl b rr)"
    and a: "a < length (nodes h)" "right (nodes h ! a) = Some b" "wf_tree (nodes h) l"
    using wf d by auto
  obtain q h1 w1 where ed: "editable tok b (h, w) = (q, (h1, w1))"
    by (metis prod.exhaust)
  show ?thesis
  proof (cases q)
    case (Inl e)
    then have "e = Bad_alloc \<and> frame tok {a, b} h h1"
      using editable_fails [OF b(1)] ed by (blast intro: frame_mono)
    then show ?thesis
      using run a ed Inl by (auto simp: rotate_left_def bindM_apply)
  next
    case (Inr c)
    note e1 = editable_tree [OF b(2,3) ed [unfolded Inr]]
    have a1: "nodes h1 ! a = nodes h ! a" "a < length (nodes h1)" "wf_tree (nodes h1) l"
      "content (nodes h1) l = content (nodes h) l"
      using e1(1) a frame_same [OF e1(1) a(3)] by (auto simp: frame_def)
    have c: "c \<notin> set_btree l" "c \<noteq> a" "c \<notin> set_btree rl" "c \<notin> set_btree rr"
      using e1(2,4) d a wf_tree_bound [OF a(3)] by fastforce+
    define h2 where "h2 = h1\<lparr>nodes := (nodes h1)[a := (nodes h1 ! a)\<lparr>right := ptr rl\<rparr>]\<rparr>"
    have dl: "dist (Bin l a rl)" using d by auto
    have pre2: "wf_tree (nodes h1) rl" "left (nodes h1 ! a) = ptr l" "edit (nodes h1 ! a) = tok"
      using e1(3) a1(1) wf own by auto
    note e2 = link_right [OF a1(3) pre2(1) a1(2) pre2(2) dl pre2(3), folded h2_def]
    obtain u h3 w3 where rf: "refresh a (h2, w1) = (u, (h3, w3))"
      by (metis prod.exhaust)
    note e3 = refresh_tree [OF e2(1) dl e2(6) rf]
    have f13: "frame tok {a} h1 h3"
      using frame_trans [OF e2(5) e3(3), of "{a}"] by simp
    have rr1: "wf_tree (nodes h1) rr" and arr: "a \<notin> set_btree rr"
      using e1(3) d by auto
    have c3: "nodes h3 ! c = nodes h1 ! c" "c < length (nodes h3)"
      "wf_tree (nodes h3) rr" "content (nodes h3) rr = content (nodes h) rr"
      using f13 c(2) e1(3,6) frame_same [OF f13 rr1] arr by (auto simp: frame_def)
    define h4 where "h4 = h3\<lparr>nodes := (nodes h3)[c := (nodes h3 ! c)\<lparr>left := ptr (Bin l a rl)\<rparr>]\<rparr>"
    have dc: "dist (Bin (Bin l a rl) c rr)" using d c by auto
    have pre4: "right (nodes h3 ! c) = ptr rr" "edit (nodes h3 ! c) = tok"
      using c3(1) e1(3,8) by auto
    note e4 = link_left [OF e3(5) c3(3,2) pre4(1) dc pre4(2), folded h4_def]
    obtain v h5 w5 where rf2: "refresh c (h4, w3) = (v, (h5, w5))"
      by (metis prod.exhaust)
    note e5 = refresh_tree [OF e4(1) dc e4(6) rf2]
    have m: "left (nodes h1 ! c) = ptr rl" using e1(3) by simp
    have run': "rotate_left tok a (h, w) = (Inr c, (h5, w5\<lparr>rotations := rotations w5 + 1\<rparr>))"
      using a b ed Inr e1(3) a1 c3 rf rf2 e3(1) e5(1) m
      by (simp add: rotate_left_def h2_def h4_def count_rotation_def)
    have f15: "frame tok {a, c} h1 h5"
      using frame_trans [OF f13 frame_trans [OF e4(5) e5(3), of "{c}"], of "{a, c}"] by simp
    have f05: "frame tok {a, b} h h5"
      using frame_trans [OF e1(1) f15, of "{a, b}"] e1(2) by auto
    have "content (nodes h5) (Bin (Bin l a rl) c rr) =
        rotl (content (nodes h) l) (entry (nodes h ! a)) (content (nodes h) (Bin rl b rr))"
      using e5(6) e4(2,3,4) e3(6,7,8) e2(2,3,4) c3 a1 e1(5,6,7) by (auto simp: cell_def)
    moreover have "set_btree (Bin (Bin l a rl) c rr) \<subseteq> set_btree (Bin l a (Bin rl b rr)) \<union> fresh h h5"
      using e1(2) frame_length [OF f15] by auto
    ultimately have "built (set_btree (Bin l a (Bin rl b rr))) h h5 (Some c)
        (rotl (content (nodes h) l) (entry (nodes h ! a)) (content (nodes h) (Bin rl b rr)))"
      using built_tree [OF e5(5) dc] by (metis ptr.simps(2))
    moreover have "res = Inr c" "h' = h5"
      using run run' by simp_all
    ultimately show ?thesis
      using f05 by simp
  qed
qed

lemma rotate_right_spec:
  assumes wf: "wf_tree (nodes h) (Bin (Bin ll b lr) a r)" and d: "dist (Bin (Bin ll b lr) a r)"
    and own: "edit (nodes h ! a) = tok" and run: "rotate_right tok a (h, w) = (res, (h', w'))"
  shows "frame tok {a, b} h h' \<and> (case res of Inl e \<Rightarrow> e = Bad_alloc
    | Inr c \<Rightarrow> built (set_btree (Bin (Bin ll b lr) a r)) h h' (Some c)
        (rotr (content (nodes h) (Bin ll b lr)) (entry (nodes h ! a)) (content (nodes h) r)))"
proof -
  have b: "b < length (nodes h)" "wf_tree (nodes h) (Bin ll b lr)" "dist (Bin ll b lr)"
    and a: "a < length (nodes h)" "left (nodes h ! a) = Some b" "wf_tree (nodes h) r"
    using wf d by auto
  obtain q h1 w1 where ed: "editable tok b (h, w) = (q, (h1, w1))"
    by (metis prod.exhaust)
  show ?thesis
  proof (cases q)
    case (Inl e)
    then have "e = Bad_alloc \<and> frame tok {a, b} h h1"
      using editable_fails [OF b(1)] ed by (blast intro: frame_mono)
    then show ?thesis
      using run a ed Inl by (auto simp: rotate_right_def bindM_apply)
  next
    case (Inr c)
    note e1 = editable_tree [OF b(2,3) ed [unfolded Inr]]
    have a1: "nodes h1 ! a = nodes h ! a" "a < length (nodes h1)" "wf_tree (nodes h1) r"
      "content (nodes h1) r = content (nodes h) r"
      using e1(1) a frame_same [OF e1(1) a(3)] by (auto simp: frame_def)
    have c: "c \<notin> set_btree r" "c \<noteq> a" "c \<notin> set_btree ll" "c \<notin> set_btree lr"
      using e1(2,4) d a wf_tree_bound [OF a(3)] by fastforce+
    define h2 where "h2 = h1\<lparr>nodes := (nodes h1)[a := (nodes h1 ! a)\<lparr>left := ptr lr\<rparr>]\<rparr>"
    have dl: "dist (Bin lr a r)" using d by auto
    have pre2: "wf_tree (nodes h1) lr" "right (nodes h1 ! a) = ptr r" "edit (nodes h1 ! a) = tok"
      using e1(3) a1(1) wf own by auto
    note e2 = link_left [OF pre2(1) a1(3) a1(2) pre2(2) dl pre2(3), folded h2_def]
    obtain u h3 w3 where rf: "refresh a (h2, w1) = (u, (h3, w3))"
      by (metis prod.exhaust)
    note e3 = refresh_tree [OF e2(1) dl e2(6) rf]
    have f13: "frame tok {a} h1 h3"
      using frame_trans [OF e2(5) e3(3), of "{a}"] by simp
    have ll1: "wf_tree (nodes h1) ll" and all: "a \<notin> set_btree ll"
      using e1(3) d by auto
    have c3: "nodes h3 ! c = nodes h1 ! c" "c < length (nodes h3)"
      "wf_tree (nodes h3) ll" "content (nodes h3) ll = content (nodes h) ll"
      using f13 c(2) e1(3,5) frame_same [OF f13 ll1] all by (auto simp: frame_def)
    define h4 where "h4 = h3\<lparr>nodes := (nodes h3)[c := (nodes h3 ! c)\<lparr>right := ptr (Bin lr a r)\<rparr>]\<rparr>"
    have dc: "dist (Bin ll c (Bin lr a r))" using d c by auto
    have pre4: "left (nodes h3 ! c) = ptr ll" "edit (nodes h3 ! c) = tok"
      using c3(1) e1(3,8) by auto
    note e4 = link_right [OF c3(3) e3(5) c3(2) pre4(1) dc pre4(2), folded h4_def]
    obtain v h5 w5 where rf2: "refresh c (h4, w3) = (v, (h5, w5))"
      by (metis prod.exhaust)
    note e5 = refresh_tree [OF e4(1) dc e4(6) rf2]
    have m: "right (nodes h1 ! c) = ptr lr" using e1(3) by simp
    have run': "rotate_right tok a (h, w) = (Inr c, (h5, w5\<lparr>rotations := rotations w5 + 1\<rparr>))"
      using a b ed Inr e1(3) a1 c3 rf rf2 e3(1) e5(1) m
      by (simp add: rotate_right_def h2_def h4_def count_rotation_def)
    have f15: "frame tok {a, c} h1 h5"
      using frame_trans [OF f13 frame_trans [OF e4(5) e5(3), of "{c}"], of "{a, c}"] by simp
    have f05: "frame tok {a, b} h h5"
      using frame_trans [OF e1(1) f15, of "{a, b}"] e1(2) by auto
    have "content (nodes h5) (Bin ll c (Bin lr a r)) =
        rotr (content (nodes h) (Bin ll b lr)) (entry (nodes h ! a)) (content (nodes h) r)"
      using e5(6) e4(2,3,4) e3(6,7,8) e2(2,3,4) c3 a1 e1(5,6,7) by (auto simp: cell_def)
    moreover have "set_btree (Bin ll c (Bin lr a r)) \<subseteq> set_btree (Bin (Bin ll b lr) a r) \<union> fresh h h5"
      using e1(2) frame_length [OF f15] by auto
    ultimately have "built (set_btree (Bin (Bin ll b lr) a r)) h h5 (Some c)
        (rotr (content (nodes h) (Bin ll b lr)) (entry (nodes h ! a)) (content (nodes h) r))"
      using built_tree [OF e5(5) dc] by (metis ptr.simps(2))
    moreover have "res = Inr c" "h' = h5"
      using run run' by simp_all
    ultimately show ?thesis
      using f05 by simp
  qed
qed

text \<open>The inner rotation of a double rotation, as one step of \<open>rebalance\<close>.\<close>

definition lean_left_op :: "nat \<Rightarrow> nat \<Rightarrow> nat \<Rightarrow> ('k, 'v, unit) edit_op" where
  "lean_left_op tok item l = bindM (editable tok l) (\<lambda>l.
     bindM (store_node item (\<lambda>n. n\<lparr>left := Some l\<rparr>)) (\<lambda>_. bindM (balance l) (\<lambda>bl.
     if bl < 0 then bindM (rotate_left tok l) (\<lambda>l. store_node item (\<lambda>n. n\<lparr>left := Some l\<rparr>))
     else returnM ())))"

definition lean_right_op :: "nat \<Rightarrow> nat \<Rightarrow> nat \<Rightarrow> ('k, 'v, unit) edit_op" where
  "lean_right_op tok item r = bindM (editable tok r) (\<lambda>r.
     bindM (store_node item (\<lambda>n. n\<lparr>right := Some r\<rparr>)) (\<lambda>_. bindM (balance r) (\<lambda>br.
     if br > 0 then bindM (rotate_right tok r) (\<lambda>r. store_node item (\<lambda>n. n\<lparr>right := Some r\<rparr>))
     else returnM ())))"

lemma rebalance_eq:
  "rebalance tok item = bindM (refresh item) (\<lambda>_. bindM (balance item) (\<lambda>b.
     if b > 1 then bindM (load_node item) (\<lambda>n. bindM (deref (left n)) (\<lambda>l.
       bindM (lean_left_op tok item l) (\<lambda>_. rotate_right tok item)))
     else if b < -1 then bindM (load_node item) (\<lambda>n. bindM (deref (right n)) (\<lambda>r.
       bindM (lean_right_op tok item r) (\<lambda>_. rotate_left tok item)))
     else returnM item))"
  unfolding rebalance_def lean_left_op_def lean_right_op_def bindM_assoc ..

lemma built_Some:
  assumes "built A h h' (Some d) c"
  obtains x y where "wf_tree (nodes h') (Bin x d y)" "dist (Bin x d y)"
    "set_btree (Bin x d y) \<subseteq> A \<union> fresh h h'" "content (nodes h') (Bin x d y) = c"
  using assms by (auto simp: built_def ptr_Some)

lemma lean_left_spec:
  assumes wf: "wf_tree (nodes h) (Bin (Bin ll b lr) a r)" and d: "dist (Bin (Bin ll b lr) a r)"
    and own: "edit (nodes h ! a) = tok" and run: "lean_left_op tok a b (h, w) = (res, (h', w'))"
  shows "frame tok (set_btree (Bin (Bin ll b lr) a r)) h h' \<and> (case res of Inl e \<Rightarrow> e = Bad_alloc
    | Inr _ \<Rightarrow> \<exists>x c y. wf_tree (nodes h') (Bin (Bin x c y) a r) \<and> dist (Bin (Bin x c y) a r) \<and>
        set_btree (Bin x c y) \<subseteq> set_btree (Bin ll b lr) \<union> fresh h h' \<and>
        content (nodes h') (Bin x c y) = lean_left (content (nodes h) (Bin ll b lr)) \<and>
        content (nodes h') r = content (nodes h) r \<and> cell (nodes h') a = cell (nodes h) a \<and>
        edit (nodes h' ! a) = tok)"
proof -
  let ?A = "set_btree (Bin (Bin ll b lr) a r)"
  have b: "b < length (nodes h)" "wf_tree (nodes h) (Bin ll b lr)" "dist (Bin ll b lr)"
    and a: "a < length (nodes h)" "right (nodes h ! a) = ptr r" "wf_tree (nodes h) r"
    using wf d by auto
  obtain q h1 w1 where ed: "editable tok b (h, w) = (q, (h1, w1))"
    by (metis prod.exhaust)
  show ?thesis
  proof (cases q)
    case (Inl e)
    then have "e = Bad_alloc \<and> frame tok ?A h h1"
      using editable_fails [OF b(1)] ed by (blast intro: frame_mono)
    then show ?thesis
      using run ed Inl by (auto simp: lean_left_op_def bindM_apply)
  next
    case (Inr c)
    note e1 = editable_tree [OF b(2,3) ed [unfolded Inr]]
    have a1: "nodes h1 ! a = nodes h ! a" "a < length (nodes h1)" "wf_tree (nodes h1) r"
      "content (nodes h1) r = content (nodes h) r"
      using e1(1) a frame_same [OF e1(1) a(3)] by (auto simp: frame_def)
    have c: "c \<notin> set_btree r" "c \<noteq> a"
      using e1(2,4) d a wf_tree_bound [OF a(3)] by fastforce+
    define h2 where "h2 = h1\<lparr>nodes := (nodes h1)[a := (nodes h1 ! a)\<lparr>left := ptr (Bin ll c lr)\<rparr>]\<rparr>"
    have dl: "dist (Bin (Bin ll c lr) a r)" using d c e1(4) by auto
    have pre2: "right (nodes h1 ! a) = ptr r" "edit (nodes h1 ! a) = tok"
      using a1(1) a own by auto
    note e2 = link_left [OF e1(3) a1(3) a1(2) pre2(1) dl pre2(2), folded h2_def]
    have f02: "frame tok ?A h h2"
      using frame_trans [OF e1(1) e2(5), of ?A] by simp
    have sc: "set_btree (Bin ll c lr) \<subseteq> set_btree (Bin ll b lr) \<union> fresh h h2"
      using e1(2) frame_length [OF e2(5)] by auto
    have cc: "cell (nodes h2) c = cell (nodes h) b" "edit (nodes h2 ! c) = tok"
      "content (nodes h2) (Bin ll c lr) = content (nodes h) (Bin ll b lr)"
      using e1(5,6,7,8) e2(2,4) c(2) by (auto simp: h2_def cell_def nth_update_if)
    have bal: "balance c (h2, w1) = (Inr (int (ht (content (nodes h) ll)) -
        int (ht (content (nodes h) lr))), (h2, w1))"
      using balance_eq [of h2 ll c lr w1] e2(1) cc(3) by auto
    have pre: "lean_left_op tok a b (h, w) =
        (if ht (content (nodes h) ll) < ht (content (nodes h) lr)
         then bindM (rotate_left tok c) (\<lambda>l. store_node a (\<lambda>n. n\<lparr>left := Some l\<rparr>)) (h2, w1)
         else (Inr (), (h2, w1)))"
      using ed Inr bal by (simp add: lean_left_op_def h2_def)
    show ?thesis
    proof (cases "ht (content (nodes h) ll) < ht (content (nodes h) lr)")
      case False
      then have eqs: "res = Inr ()" "h' = h2" "w' = w1" using pre run by auto
      have "content (nodes h2) (Bin ll c lr) = lean_left (content (nodes h) (Bin ll b lr))"
        using False cc(3) by (simp add: cell_def)
      then show ?thesis
        unfolding eqs using f02 sc dl e2 a1 by (auto simp: cell_def)
    next
      case True
      then obtain x y z where lr: "lr = Bin x y z" by (cases lr) auto
      obtain p h3 w3 where rot: "rotate_left tok c (h2, w1) = (p, (h3, w3))"
        by (metis prod.exhaust)
      have wf2: "wf_tree (nodes h2) (Bin ll c (Bin x y z))" "dist (Bin ll c (Bin x y z))"
        using e2(1) e1(4) lr by auto
      note rs = rotate_left_spec [OF wf2 cc(2) rot]
      have f23: "frame tok (set_btree (Bin ll c lr)) h2 h3"
        using rs lr by (auto intro: frame_mono)
      have f03: "frame tok ?A h h3"
        using frame_trans [OF f02 f23, of ?A] sc by auto
      show ?thesis
      proof (cases p)
        case (Inl e)
        then show ?thesis
          using pre True run rot rs f03 by (auto simp: bindM_apply)
      next
        case (Inr e)
        have bt: "built (set_btree (Bin ll c lr)) h2 h3 (Some e)
            (rotl (content (nodes h2) ll) (entry (nodes h2 ! c)) (content (nodes h2) lr))"
          using rs Inr lr by simp
        obtain u v where T: "wf_tree (nodes h3) (Bin u e v)" "dist (Bin u e v)"
          "set_btree (Bin u e v) \<subseteq> set_btree (Bin ll c lr) \<union> fresh h2 h3"
          "content (nodes h3) (Bin u e v) =
             rotl (content (nodes h2) ll) (entry (nodes h2 ! c)) (content (nodes h2) lr)"
          by (rule built_Some [OF bt])
        have ar: "a \<notin> set_btree (Bin ll c lr)" "set_btree r \<inter> set_btree (Bin ll c lr) = {}"
          using dl by auto
        have a3: "nodes h3 ! a = nodes h2 ! a" "a < length (nodes h3)"
          "wf_tree (nodes h3) r" "content (nodes h3) r = content (nodes h2) r"
          using frame_other [OF f23 _ ar(1)] frame_disjoint [OF f23 _ ar(2)] e2(1) by simp_all
        have du: "dist (Bin (Bin u e v) a r)"
          using fresh_disjoint [OF T(3) ar(1)] fresh_disjoint_set [OF T(3) _ ar(2)] e2(1) T(2) dl by auto
        define h4 where "h4 = h3\<lparr>nodes := (nodes h3)[a := (nodes h3 ! a)\<lparr>left := ptr (Bin u e v)\<rparr>]\<rparr>"
        have pre4: "right (nodes h3 ! a) = ptr r" "edit (nodes h3 ! a) = tok"
          using a3(1) e2(1,6) by auto
        note e4 = link_left [OF T(1) a3(3,2) pre4(1) du pre4(2), folded h4_def]
        have eqs: "res = Inr ()" "h' = h4" "w' = w3"
          using pre True run rot Inr by (auto simp: h4_def)
        have f04: "frame tok ?A h h4"
          using frame_trans [OF f03 e4(5), of ?A] by simp
        have "set_btree (Bin u e v) \<subseteq> set_btree (Bin ll b lr) \<union> fresh h h4"
          using T(3) sc frame_length [OF f02] frame_length [OF f23] frame_length [OF e4(5)] by fastforce
        moreover have "content (nodes h4) (Bin u e v) = lean_left (content (nodes h) (Bin ll b lr))"
          using T(4) True cc(1,3) e4(2) by (simp add: cell_def)
        moreover have "content (nodes h4) r = content (nodes h) r" "cell (nodes h4) a = cell (nodes h) a"
          using e4(3,4) a3 e2(3,4) a1 by (simp_all add: cell_def)
        ultimately show ?thesis
          unfolding eqs using f04 e4(1,6) du by auto
      qed
    qed
  qed
qed

lemma lean_right_spec:
  assumes wf: "wf_tree (nodes h) (Bin l a (Bin rl b rr))" and d: "dist (Bin l a (Bin rl b rr))"
    and own: "edit (nodes h ! a) = tok" and run: "lean_right_op tok a b (h, w) = (res, (h', w'))"
  shows "frame tok (set_btree (Bin l a (Bin rl b rr))) h h' \<and> (case res of Inl e \<Rightarrow> e = Bad_alloc
    | Inr _ \<Rightarrow> \<exists>x c y. wf_tree (nodes h') (Bin l a (Bin x c y)) \<and> dist (Bin l a (Bin x c y)) \<and>
        set_btree (Bin x c y) \<subseteq> set_btree (Bin rl b rr) \<union> fresh h h' \<and>
        content (nodes h') (Bin x c y) = lean_right (content (nodes h) (Bin rl b rr)) \<and>
        content (nodes h') l = content (nodes h) l \<and> cell (nodes h') a = cell (nodes h) a \<and>
        edit (nodes h' ! a) = tok)"
proof -
  let ?A = "set_btree (Bin l a (Bin rl b rr))"
  have b: "b < length (nodes h)" "wf_tree (nodes h) (Bin rl b rr)" "dist (Bin rl b rr)"
    and a: "a < length (nodes h)" "left (nodes h ! a) = ptr l" "wf_tree (nodes h) l"
    using wf d by auto
  obtain q h1 w1 where ed: "editable tok b (h, w) = (q, (h1, w1))"
    by (metis prod.exhaust)
  show ?thesis
  proof (cases q)
    case (Inl e)
    then have "e = Bad_alloc \<and> frame tok ?A h h1"
      using editable_fails [OF b(1)] ed by (blast intro: frame_mono)
    then show ?thesis
      using run ed Inl by (auto simp: lean_right_op_def bindM_apply)
  next
    case (Inr c)
    note e1 = editable_tree [OF b(2,3) ed [unfolded Inr]]
    have a1: "nodes h1 ! a = nodes h ! a" "a < length (nodes h1)" "wf_tree (nodes h1) l"
      "content (nodes h1) l = content (nodes h) l"
      using e1(1) a frame_same [OF e1(1) a(3)] by (auto simp: frame_def)
    have c: "c \<notin> set_btree l" "c \<noteq> a"
      using e1(2,4) d a wf_tree_bound [OF a(3)] by fastforce+
    define h2 where "h2 = h1\<lparr>nodes := (nodes h1)[a := (nodes h1 ! a)\<lparr>right := ptr (Bin rl c rr)\<rparr>]\<rparr>"
    have dl: "dist (Bin l a (Bin rl c rr))" using d c e1(4) by auto
    have pre2: "left (nodes h1 ! a) = ptr l" "edit (nodes h1 ! a) = tok"
      using a1(1) a own by auto
    note e2 = link_right [OF a1(3) e1(3) a1(2) pre2(1) dl pre2(2), folded h2_def]
    have f02: "frame tok ?A h h2"
      using frame_trans [OF e1(1) e2(5), of ?A] by simp
    have sc: "set_btree (Bin rl c rr) \<subseteq> set_btree (Bin rl b rr) \<union> fresh h h2"
      using e1(2) frame_length [OF e2(5)] by auto
    have cc: "cell (nodes h2) c = cell (nodes h) b" "edit (nodes h2 ! c) = tok"
      "content (nodes h2) (Bin rl c rr) = content (nodes h) (Bin rl b rr)"
      using e1(5,6,7,8) e2(3,4) c(2) by (auto simp: h2_def cell_def nth_update_if)
    have bal: "balance c (h2, w1) = (Inr (int (ht (content (nodes h) rl)) -
        int (ht (content (nodes h) rr))), (h2, w1))"
      using balance_eq [of h2 rl c rr w1] e2(1) cc(3) by auto
    have pre: "lean_right_op tok a b (h, w) =
        (if ht (content (nodes h) rr) < ht (content (nodes h) rl)
         then bindM (rotate_right tok c) (\<lambda>l. store_node a (\<lambda>n. n\<lparr>right := Some l\<rparr>)) (h2, w1)
         else (Inr (), (h2, w1)))"
      using ed Inr bal by (simp add: lean_right_op_def h2_def)
    show ?thesis
    proof (cases "ht (content (nodes h) rr) < ht (content (nodes h) rl)")
      case False
      then have eqs: "res = Inr ()" "h' = h2" "w' = w1" using pre run by auto
      have "content (nodes h2) (Bin rl c rr) = lean_right (content (nodes h) (Bin rl b rr))"
        using False cc(3) by (simp add: cell_def)
      then show ?thesis
        unfolding eqs using f02 sc dl e2 a1 by (auto simp: cell_def)
    next
      case True
      then obtain x y z where rl: "rl = Bin x y z" by (cases rl) auto
      obtain p h3 w3 where rot: "rotate_right tok c (h2, w1) = (p, (h3, w3))"
        by (metis prod.exhaust)
      have wf2: "wf_tree (nodes h2) (Bin (Bin x y z) c rr)" "dist (Bin (Bin x y z) c rr)"
        using e2(1) e1(4) rl by auto
      note rs = rotate_right_spec [OF wf2 cc(2) rot]
      have f23: "frame tok (set_btree (Bin rl c rr)) h2 h3"
        using rs rl by (auto intro: frame_mono)
      have f03: "frame tok ?A h h3"
        using frame_trans [OF f02 f23, of ?A] sc by auto
      show ?thesis
      proof (cases p)
        case (Inl e)
        then show ?thesis
          using pre True run rot rs f03 by (auto simp: bindM_apply)
      next
        case (Inr e)
        have bt: "built (set_btree (Bin rl c rr)) h2 h3 (Some e)
            (rotr (content (nodes h2) rl) (entry (nodes h2 ! c)) (content (nodes h2) rr))"
          using rs Inr rl by simp
        obtain u v where T: "wf_tree (nodes h3) (Bin u e v)" "dist (Bin u e v)"
          "set_btree (Bin u e v) \<subseteq> set_btree (Bin rl c rr) \<union> fresh h2 h3"
          "content (nodes h3) (Bin u e v) =
             rotr (content (nodes h2) rl) (entry (nodes h2 ! c)) (content (nodes h2) rr)"
          by (rule built_Some [OF bt])
        have ar: "a \<notin> set_btree (Bin rl c rr)" "set_btree l \<inter> set_btree (Bin rl c rr) = {}"
          using dl by auto
        have a3: "nodes h3 ! a = nodes h2 ! a" "a < length (nodes h3)"
          "wf_tree (nodes h3) l" "content (nodes h3) l = content (nodes h2) l"
          using frame_other [OF f23 _ ar(1)] frame_disjoint [OF f23 _ ar(2)] e2(1) by simp_all
        have du: "dist (Bin l a (Bin u e v))"
          using fresh_disjoint [OF T(3) ar(1)] fresh_disjoint_set [OF T(3) _ ar(2)] e2(1) T(2) dl by auto
        define h4 where "h4 = h3\<lparr>nodes := (nodes h3)[a := (nodes h3 ! a)\<lparr>right := ptr (Bin u e v)\<rparr>]\<rparr>"
        have pre4: "left (nodes h3 ! a) = ptr l" "edit (nodes h3 ! a) = tok"
          using a3(1) e2(1,6) by auto
        note e4 = link_right [OF a3(3) T(1) a3(2) pre4(1) du pre4(2), folded h4_def]
        have eqs: "res = Inr ()" "h' = h4" "w' = w3"
          using pre True run rot Inr by (auto simp: h4_def)
        have f04: "frame tok ?A h h4"
          using frame_trans [OF f03 e4(5), of ?A] by simp
        have "set_btree (Bin u e v) \<subseteq> set_btree (Bin rl b rr) \<union> fresh h h4"
          using T(3) sc frame_length [OF f02] frame_length [OF f23] frame_length [OF e4(5)] by fastforce
        moreover have "content (nodes h4) (Bin u e v) = lean_right (content (nodes h) (Bin rl b rr))"
          using T(4) True cc(1,3) e4(3) by (simp add: cell_def)
        moreover have "content (nodes h4) l = content (nodes h) l" "cell (nodes h4) a = cell (nodes h) a"
          using e4(2,4) a3 e2(2,4) a1 by (simp_all add: cell_def)
        ultimately show ?thesis
          unfolding eqs using f04 e4(1,6) du by auto
      qed
    qed
  qed
qed

lemma built_mono:
  assumes "built A h1 h2 p c" "A \<subseteq> B \<union> fresh h h1" "length (nodes h) \<le> length (nodes h1)"
  shows "built B h h2 p c"
proof -
  obtain T where T: "ptr T = p" "wf_tree (nodes h2) T" "dist T" "set_btree T \<subseteq> A \<union> fresh h1 h2"
    "content (nodes h2) T = c"
    using assms(1) by (auto simp: built_def)
  have "set_btree T \<subseteq> B \<union> fresh h h2"
  proof
    fix x assume "x \<in> set_btree T"
    moreover from this have "x < length (nodes h2)" using wf_tree_bound [OF T(2)] by simp
    ultimately show "x \<in> B \<union> fresh h h2" using T(4) assms(2,3) by fastforce
  qed
  then show ?thesis
    using T by (auto simp: built_def)
qed

lemma built_frame: "frame tok B h h1 \<Longrightarrow> built A h1 h2 p c \<Longrightarrow> built A h h2 p c"
  by (rule built_mono) (auto simp: frame_def)

lemma rebalance_spec:
  assumes wf: "wf_tree (nodes h) (Bin l a r)" and d: "dist (Bin l a r)"
    and own: "edit (nodes h ! a) = tok" and run: "rebalance tok a (h, w) = (res, (h', w'))"
  shows "frame tok (set_btree (Bin l a r)) h h' \<and> (case res of Inl e \<Rightarrow> e = Bad_alloc
    | Inr p \<Rightarrow> built (set_btree (Bin l a r)) h h' (Some p)
        (rebal (content (nodes h) l) (entry (nodes h ! a)) (content (nodes h) r)))"
proof -
  let ?A = "set_btree (Bin l a r)"
  let ?l = "content (nodes h) l" and ?r = "content (nodes h) r" and ?e = "entry (nodes h ! a)"
  obtain u h1 w1 where rf: "refresh a (h, w) = (u, (h1, w1))"
    by (metis prod.exhaust)
  note e1 = refresh_tree [OF wf d own rf]
  have f01: "frame tok ?A h h1"
    using e1(3) by (rule frame_mono) simp
  have bal: "balance a (h1, w1) = (Inr (int (ht ?l) - int (ht ?r)), (h1, w1))"
    using balance_eq [OF e1(5), of w1] e1(7,8) by simp
  have a1: "a < length (nodes h1)" "left (nodes h1 ! a) = ptr l" "right (nodes h1 ! a) = ptr r"
    using e1(5) by auto
  consider (left) "ht ?r + 1 < ht ?l" | (right) "ht ?l + 1 < ht ?r"
    | (mid) "\<not> ht ?r + 1 < ht ?l" "\<not> ht ?l + 1 < ht ?r"
    by linarith
  then show ?thesis
  proof cases
    case left
    then obtain ll b lr where l: "l = Bin ll b lr" by (cases l) auto
    obtain q h2 w2 where lean: "lean_left_op tok a b (h1, w1) = (q, (h2, w2))"
      by (metis prod.exhaust)
    have run': "rebalance tok a (h, w) = bindM (lean_left_op tok a b) (\<lambda>_. rotate_right tok a) (h1, w1)"
      using rf e1(1) bal left a1 l by (simp add: rebalance_eq)
    note ls = lean_left_spec [OF e1(5) [unfolded l] d [unfolded l] e1(9) lean, folded l]
    have f02: "frame tok ?A h h2"
      using frame_trans_same [OF f01 conjunct1 [OF ls]] .
    show ?thesis
    proof (cases q)
      case (Inl e)
      then show ?thesis using run run' lean ls f02 by (auto simp: bindM_apply)
    next
      case (Inr v)
      obtain x c y where T: "wf_tree (nodes h2) (Bin (Bin x c y) a r)" "dist (Bin (Bin x c y) a r)"
        "set_btree (Bin x c y) \<subseteq> set_btree l \<union> fresh h1 h2"
        "content (nodes h2) (Bin x c y) = lean_left (content (nodes h1) l)"
        "content (nodes h2) r = content (nodes h1) r" "cell (nodes h2) a = cell (nodes h1) a"
        "edit (nodes h2 ! a) = tok"
        using ls Inr by auto
      have rot: "rotate_right tok a (h2, w2) = (res, (h', w'))"
        using run run' lean Inr by simp
      note rs = rotate_right_spec [OF T(1,2,7) rot]
      have sub: "set_btree (Bin (Bin x c y) a r) \<subseteq> ?A \<union> fresh h h2"
        using T(3) frame_length [OF f01] by fastforce
      have "frame tok ?A h h'"
        by (rule frame_trans [OF f02 conjunct1 [OF rs]]) (use sub in auto)
      moreover have "rebal ?l ?e ?r = rotr (content (nodes h2) (Bin x c y)) (entry (nodes h2 ! a)) (content (nodes h2) r)"
        using left T(4,5,6) e1(7,8,10) by (simp add: rebal_def cell_def)
      ultimately show ?thesis
        using rs built_mono [OF _ sub frame_length [OF f02]] by (auto split: sum.splits)
    qed
  next
    case right
    then obtain rl b rr where r: "r = Bin rl b rr" by (cases r) auto
    obtain q h2 w2 where lean: "lean_right_op tok a b (h1, w1) = (q, (h2, w2))"
      by (metis prod.exhaust)
    have run': "rebalance tok a (h, w) = bindM (lean_right_op tok a b) (\<lambda>_. rotate_left tok a) (h1, w1)"
      using rf e1(1) bal right a1 r by (simp add: rebalance_eq)
    note ls = lean_right_spec [OF e1(5) [unfolded r] d [unfolded r] e1(9) lean, folded r]
    have f02: "frame tok ?A h h2"
      using frame_trans_same [OF f01 conjunct1 [OF ls]] .
    show ?thesis
    proof (cases q)
      case (Inl e)
      then show ?thesis using run run' lean ls f02 by (auto simp: bindM_apply)
    next
      case (Inr v)
      obtain x c y where T: "wf_tree (nodes h2) (Bin l a (Bin x c y))" "dist (Bin l a (Bin x c y))"
        "set_btree (Bin x c y) \<subseteq> set_btree r \<union> fresh h1 h2"
        "content (nodes h2) (Bin x c y) = lean_right (content (nodes h1) r)"
        "content (nodes h2) l = content (nodes h1) l" "cell (nodes h2) a = cell (nodes h1) a"
        "edit (nodes h2 ! a) = tok"
        using ls Inr by auto
      have rot: "rotate_left tok a (h2, w2) = (res, (h', w'))"
        using run run' lean Inr by simp
      note rs = rotate_left_spec [OF T(1,2,7) rot]
      have sub: "set_btree (Bin l a (Bin x c y)) \<subseteq> ?A \<union> fresh h h2"
        using T(3) frame_length [OF f01] by fastforce
      have "frame tok ?A h h'"
        by (rule frame_trans [OF f02 conjunct1 [OF rs]]) (use sub in auto)
      moreover have "rebal ?l ?e ?r = rotl (content (nodes h2) l) (entry (nodes h2 ! a)) (content (nodes h2) (Bin x c y))"
        using right T(4,5,6) e1(7,8,10) by (simp add: rebal_def cell_def)
      ultimately show ?thesis
        using rs built_mono [OF _ sub frame_length [OF f02]] by (auto split: sum.splits)
    qed
  next
    case mid
    have "res = Inr a" "h' = h1"
      using run rf e1(1) bal mid by (auto simp: rebalance_eq)
    moreover have "built ?A h h1 (Some a) (mk ?l ?e ?r)"
      using built_tree [OF e1(5) d, of ?A h] e1(6) by auto
    ultimately show ?thesis
      using f01 mid by (simp add: rebal_def)
  qed
qed

section \<open>Insertion and removal\<close>

text \<open>
  Descending into a child: the parent becomes writable, the child's edit runs, and its new
  root is stored back. The parent, its other child and the child's new tree stay apart.
\<close>

lemma descend_left:
  assumes e: "wf_tree (nodes h1) (Bin l b r)" "dist (Bin l b r)" "edit (nodes h1 ! b) = tok"
    and sub: "frame tok (set_btree l) h1 h2" "built (set_btree l) h1 h2 p c"
  obtains T where "ptr T = p" "wf_tree (nodes h2) T" "content (nodes h2) T = c"
    "right (nodes h2 ! b) = ptr r" "wf_tree (nodes h2) r" "content (nodes h2) r = content (nodes h1) r"
    "cell (nodes h2) b = cell (nodes h1) b" "dist (Bin T b r)" "edit (nodes h2 ! b) = tok"
    "set_btree (Bin T b r) \<subseteq> set_btree (Bin l b r) \<union> fresh h1 h2" "b < length (nodes h2)"
proof -
  obtain T where T: "ptr T = p" "wf_tree (nodes h2) T" "dist T"
    "set_btree T \<subseteq> set_btree l \<union> fresh h1 h2" "content (nodes h2) T = c"
    using sub(2) by (auto simp: built_def)
  have ap: "b \<notin> set_btree l" "set_btree r \<inter> set_btree l = {}" "b < length (nodes h1)" "wf_tree (nodes h1) r"
    using e(1,2) by auto
  have b2: "nodes h2 ! b = nodes h1 ! b" "b < length (nodes h2)" "wf_tree (nodes h2) r"
    "content (nodes h2) r = content (nodes h1) r"
    using frame_other [OF sub(1) ap(3,1)] frame_disjoint [OF sub(1) ap(4,2)] by simp_all
  have "dist (Bin T b r)"
    using fresh_disjoint [OF T(4) ap(1,3)] fresh_disjoint_set [OF T(4) ap(4,2)] T(3) e(2) by auto
  moreover have "set_btree (Bin T b r) \<subseteq> set_btree (Bin l b r) \<union> fresh h1 h2"
    using T(4) by auto
  ultimately show thesis
    using that [of T] T b2 e(1,3) by (simp add: cell_def)
qed

lemma descend_right:
  assumes e: "wf_tree (nodes h1) (Bin l b r)" "dist (Bin l b r)" "edit (nodes h1 ! b) = tok"
    and sub: "frame tok (set_btree r) h1 h2" "built (set_btree r) h1 h2 p c"
  obtains T where "ptr T = p" "wf_tree (nodes h2) T" "content (nodes h2) T = c"
    "left (nodes h2 ! b) = ptr l" "wf_tree (nodes h2) l" "content (nodes h2) l = content (nodes h1) l"
    "cell (nodes h2) b = cell (nodes h1) b" "dist (Bin l b T)" "edit (nodes h2 ! b) = tok"
    "set_btree (Bin l b T) \<subseteq> set_btree (Bin l b r) \<union> fresh h1 h2" "b < length (nodes h2)"
proof -
  obtain T where T: "ptr T = p" "wf_tree (nodes h2) T" "dist T"
    "set_btree T \<subseteq> set_btree r \<union> fresh h1 h2" "content (nodes h2) T = c"
    using sub(2) by (auto simp: built_def)
  have ap: "b \<notin> set_btree r" "set_btree l \<inter> set_btree r = {}" "b < length (nodes h1)" "wf_tree (nodes h1) l"
    using e(1,2) by auto
  have b2: "nodes h2 ! b = nodes h1 ! b" "b < length (nodes h2)" "wf_tree (nodes h2) l"
    "content (nodes h2) l = content (nodes h1) l"
    using frame_other [OF sub(1) ap(3,1)] frame_disjoint [OF sub(1) ap(4,2)] by simp_all
  have "dist (Bin l b T)"
    using fresh_disjoint [OF T(4) ap(1,3)] fresh_disjoint_set [OF T(4) ap(4,2)] T(3) e(2) by auto
  moreover have "set_btree (Bin l b T) \<subseteq> set_btree (Bin l b r) \<union> fresh h1 h2"
    using T(4) by auto
  ultimately show thesis
    using that [of T] T b2 e(1,3) by (simp add: cell_def)
qed

text \<open>
  \<open>ready\<close> is the situation after a descent: the child's new tree is stored back into the
  writable parent and all changes so far are within the frame.
\<close>

definition ready :: "nat \<Rightarrow> nat set \<Rightarrow> ('k, 'v) heap \<Rightarrow> ('k, 'v) heap \<Rightarrow> nat btree \<Rightarrow> nat \<Rightarrow> nat btree \<Rightarrow> bool" where
  "ready tok A h h3 l b r \<longleftrightarrow> wf_tree (nodes h3) (Bin l b r) \<and> dist (Bin l b r) \<and>
     edit (nodes h3 ! b) = tok \<and> frame tok A h h3 \<and> set_btree (Bin l b r) \<subseteq> A \<union> fresh h h3"

text \<open>
  \<open>refines tok S c m f C P\<close>: started on a subtree of shape \<open>S\<close> and content \<open>c\<close>, the operation
  \<open>m\<close> stays within the subtree's frame, fails only by allocation or in the caller's code, and leaves a tree with
  content \<open>C x\<close> at \<open>f x\<close>, where its result \<open>x\<close> satisfies \<open>P\<close>.
\<close>

definition refines ::
  "nat \<Rightarrow> nat btree \<Rightarrow> ('k, 'v) avl \<Rightarrow> ('k, 'v, 'x) edit_op \<Rightarrow> ('x \<Rightarrow> nat option) \<Rightarrow>
   ('x \<Rightarrow> ('k, 'v) avl) \<Rightarrow> ('x \<Rightarrow> bool) \<Rightarrow> bool" where
  "refines tok S c m f C P \<longleftrightarrow> (\<forall>h1 w1 u h2 w2. wf_tree (nodes h1) S \<longrightarrow> content (nodes h1) S = c \<longrightarrow>
     m (h1, w1) = (u, (h2, w2)) \<longrightarrow> frame tok (set_btree S) h1 h2 \<and>
     (case u of Inl e \<Rightarrow> thrown h1 e | Inr x \<Rightarrow> built (set_btree S) h1 h2 (f x) (C x) \<and> P x))"

lemma refinesI:
  assumes "\<And>h1 w1 u h2 w2. wf_tree (nodes h1) S \<Longrightarrow> content (nodes h1) S = c \<Longrightarrow>
      m (h1, w1) = (u, (h2, w2)) \<Longrightarrow> frame tok (set_btree S) h1 h2 \<and>
      (case u of Inl e \<Rightarrow> thrown h1 e | Inr x \<Rightarrow> built (set_btree S) h1 h2 (f x) (C x) \<and> P x)"
  shows "refines tok S c m f C P"
  using assms unfolding refines_def by blast

lemma refinesD:
  assumes "refines tok S c m f C P" "wf_tree (nodes h1) S" "content (nodes h1) S = c"
    "m (h1, w1) = (u, (h2, w2))"
  shows "frame tok (set_btree S) h1 h2 \<and>
    (case u of Inl e \<Rightarrow> thrown h1 e | Inr x \<Rightarrow> built (set_btree S) h1 h2 (f x) (C x) \<and> P x)"
  using assms unfolding refines_def by blast

lemma enter_left:
  assumes wf: "wf_tree (nodes h) (Bin l a r)" "dist (Bin l a r)"
    and run: "bindM (editable tok a) (\<lambda>b. bindM m (\<lambda>x.
      bindM (store_node b (\<lambda>n. n\<lparr>left := f x\<rparr>)) (\<lambda>_. K b x))) (h, w) = (res, (h', w'))"
    and sub: "refines tok l (content (nodes h) l) m f C P"
  shows "(\<exists>e. res = Inl e \<and> thrown h e) \<and> frame tok (set_btree (Bin l a r)) h h' \<or>
    (\<exists>b x h3 w3 T. K b x (h3, w3) = (res, (h', w')) \<and> P x \<and>
      ready tok (set_btree (Bin l a r)) h h3 T b r \<and> content (nodes h3) T = C x \<and>
      content (nodes h3) r = content (nodes h) r \<and> cell (nodes h3) b = cell (nodes h) a)"
proof -
  let ?A = "set_btree (Bin l a r)"
  have a: "a < length (nodes h)" using wf(1) by simp
  obtain q h1 w1 where ed: "editable tok a (h, w) = (q, (h1, w1))" by (metis prod.exhaust)
  show ?thesis
  proof (cases q)
    case (Inl e)
    have "e = Bad_alloc \<and> frame tok {} h h1"
      using editable_fails [of a h tok w e h1 w1] a ed Inl by simp
    then have "e = Bad_alloc" "frame tok ?A h h1" using frame_mono [of tok "{}" h h1 ?A] by simp_all
    moreover have "res = Inl e" "h' = h1" using run ed Inl by (simp_all add: bindM_apply)
    ultimately show ?thesis by simp
  next
    case (Inr b)
    note e1 = editable_tree [OF wf ed [unfolded Inr]]
    obtain u h2 w2 where m: "m (h1, w1) = (u, (h2, w2))" by (metis prod.exhaust)
    have wl: "wf_tree (nodes h1) l" using e1(3) by simp
    note sp = refinesD [OF sub wl e1(5) m]
    have f01: "frame tok ?A h h1" using e1(1) by (rule frame_mono) simp
    have f02: "frame tok ?A h h2" by (rule frame_trans [OF f01 conjunct1 [OF sp]]) auto
    show ?thesis
    proof (cases u)
      case (Inl e)
      then have "thrown h e" using sp thrown_later [OF _ f01] by simp
      then show ?thesis using run ed Inr m Inl f02 by (auto simp: bindM_apply)
    next
      case (Inr x)
      have bl: "built (set_btree l) h1 h2 (f x) (C x)" and P: "P x" using sp Inr by simp_all
      obtain T where T: "ptr T = f x" "wf_tree (nodes h2) T" "content (nodes h2) T = C x"
        "right (nodes h2 ! b) = ptr r" "wf_tree (nodes h2) r" "content (nodes h2) r = content (nodes h1) r"
        "cell (nodes h2) b = cell (nodes h1) b" "dist (Bin T b r)" "edit (nodes h2 ! b) = tok"
        "set_btree (Bin T b r) \<subseteq> set_btree (Bin l b r) \<union> fresh h1 h2" "b < length (nodes h2)"
        by (rule descend_left [OF e1(3,4,8) conjunct1 [OF sp] bl])
      define h3 where "h3 = h2\<lparr>nodes := (nodes h2)[b := (nodes h2 ! b)\<lparr>left := ptr T\<rparr>]\<rparr>"
      note e3 = link_left [OF T(2,5,11,4,8,9), folded h3_def]
      have sA: "set_btree (Bin T b r) \<subseteq> ?A \<union> fresh h h2"
        using T(10) e1(2) frame_length [OF f01] frame_length [OF conjunct1 [OF sp]] by fastforce
      have "frame tok ?A h h3" by (rule frame_trans [OF f02 e3(5)]) (use sA in auto)
      then have "ready tok ?A h h3 T b r"
        unfolding ready_def using e3(1,6,7) T(8) sA by (auto simp: h3_def)
      moreover have "K b x (h3, w2) = (res, (h', w'))"
        using run ed \<open>q = Inr b\<close> m Inr T(1) by (simp add: h3_def)
      moreover have "content (nodes h3) T = C x" "content (nodes h3) r = content (nodes h) r"
        "cell (nodes h3) b = cell (nodes h) a"
        using e3(2,3,4) T(3,6,7) e1(6,7) by simp_all
      ultimately show ?thesis
        using P by blast
    qed
  qed
qed

lemma enter_right:
  assumes wf: "wf_tree (nodes h) (Bin l a r)" "dist (Bin l a r)"
    and run: "bindM (editable tok a) (\<lambda>b. bindM m (\<lambda>x.
      bindM (store_node b (\<lambda>n. n\<lparr>right := f x\<rparr>)) (\<lambda>_. K b x))) (h, w) = (res, (h', w'))"
    and sub: "refines tok r (content (nodes h) r) m f C P"
  shows "(\<exists>e. res = Inl e \<and> thrown h e) \<and> frame tok (set_btree (Bin l a r)) h h' \<or>
    (\<exists>b x h3 w3 T. K b x (h3, w3) = (res, (h', w')) \<and> P x \<and>
      ready tok (set_btree (Bin l a r)) h h3 l b T \<and> content (nodes h3) T = C x \<and>
      content (nodes h3) l = content (nodes h) l \<and> cell (nodes h3) b = cell (nodes h) a)"
proof -
  let ?A = "set_btree (Bin l a r)"
  have a: "a < length (nodes h)" using wf(1) by simp
  obtain q h1 w1 where ed: "editable tok a (h, w) = (q, (h1, w1))" by (metis prod.exhaust)
  show ?thesis
  proof (cases q)
    case (Inl e)
    have "e = Bad_alloc \<and> frame tok {} h h1"
      using editable_fails [of a h tok w e h1 w1] a ed Inl by simp
    then have "e = Bad_alloc" "frame tok ?A h h1" using frame_mono [of tok "{}" h h1 ?A] by simp_all
    moreover have "res = Inl e" "h' = h1" using run ed Inl by (simp_all add: bindM_apply)
    ultimately show ?thesis by simp
  next
    case (Inr b)
    note e1 = editable_tree [OF wf ed [unfolded Inr]]
    obtain u h2 w2 where m: "m (h1, w1) = (u, (h2, w2))" by (metis prod.exhaust)
    have wl: "wf_tree (nodes h1) r" using e1(3) by simp
    note sp = refinesD [OF sub wl e1(6) m]
    have f01: "frame tok ?A h h1" using e1(1) by (rule frame_mono) simp
    have f02: "frame tok ?A h h2" by (rule frame_trans [OF f01 conjunct1 [OF sp]]) auto
    show ?thesis
    proof (cases u)
      case (Inl e)
      then have "thrown h e" using sp thrown_later [OF _ f01] by simp
      then show ?thesis using run ed Inr m Inl f02 by (auto simp: bindM_apply)
    next
      case (Inr x)
      have bl: "built (set_btree r) h1 h2 (f x) (C x)" and P: "P x" using sp Inr by simp_all
      obtain T where T: "ptr T = f x" "wf_tree (nodes h2) T" "content (nodes h2) T = C x"
        "left (nodes h2 ! b) = ptr l" "wf_tree (nodes h2) l" "content (nodes h2) l = content (nodes h1) l"
        "cell (nodes h2) b = cell (nodes h1) b" "dist (Bin l b T)" "edit (nodes h2 ! b) = tok"
        "set_btree (Bin l b T) \<subseteq> set_btree (Bin l b r) \<union> fresh h1 h2" "b < length (nodes h2)"
        by (rule descend_right [OF e1(3,4,8) conjunct1 [OF sp] bl])
      define h3 where "h3 = h2\<lparr>nodes := (nodes h2)[b := (nodes h2 ! b)\<lparr>right := ptr T\<rparr>]\<rparr>"
      note e3 = link_right [OF T(5,2,11,4,8,9), folded h3_def]
      have sA: "set_btree (Bin l b T) \<subseteq> ?A \<union> fresh h h2"
        using T(10) e1(2) frame_length [OF f01] frame_length [OF conjunct1 [OF sp]] by fastforce
      have "frame tok ?A h h3" by (rule frame_trans [OF f02 e3(5)]) (use sA in auto)
      then have "ready tok ?A h h3 l b T"
        unfolding ready_def using e3(1,6,7) T(8) sA by (auto simp: h3_def)
      moreover have "K b x (h3, w2) = (res, (h', w'))"
        using run ed \<open>q = Inr b\<close> m Inr T(1) by (simp add: h3_def)
      moreover have "content (nodes h3) T = C x" "content (nodes h3) l = content (nodes h) l"
        "cell (nodes h3) b = cell (nodes h) a"
        using e3(2,3,4) T(3,6,7) e1(5,7) by simp_all
      ultimately show ?thesis
        using P by blast
    qed
  qed
qed

text \<open>Rebalancing after a descent, with the value the caller returns.\<close>

lemma finish_rebalance:
  assumes rdy: "ready tok A h h3 l b r"
    and run: "bindM (rebalance tok b) (\<lambda>q. returnM (g q)) (h3, w3) = (res, (h', w'))"
  shows "frame tok A h h' \<and> (case res of Inl e \<Rightarrow> e = Bad_alloc
    | Inr y \<Rightarrow> \<exists>q. y = g q \<and> built A h h' (Some q)
        (rebal (content (nodes h3) l) (fst (cell (nodes h3) b)) (content (nodes h3) r)))"
proof -
  obtain v h4 w4 where rb: "rebalance tok b (h3, w3) = (v, (h4, w4))" by (metis prod.exhaust)
  have r: "wf_tree (nodes h3) (Bin l b r)" "dist (Bin l b r)" "edit (nodes h3 ! b) = tok"
    "frame tok A h h3" "set_btree (Bin l b r) \<subseteq> A \<union> fresh h h3"
    using rdy by (auto simp: ready_def)
  note rs = rebalance_spec [OF r(1-3) rb]
  have "frame tok A h h4"
    by (rule frame_trans [OF r(4) conjunct1 [OF rs] r(5)]) simp
  then show ?thesis
    using run rb rs built_mono [OF _ r(5) frame_length [OF r(4)]]
    by (auto simp: bindM_apply cell_def split: sum.splits)
qed

text \<open>The two together: edit the left child, then rebalance the parent.\<close>

lemma edit_left:
  assumes wf: "wf_tree (nodes h) (Bin l a r)" "dist (Bin l a r)"
    and run: "bindM (editable tok a) (\<lambda>b. bindM m (\<lambda>x.
      bindM (store_node b (\<lambda>n. n\<lparr>left := f x\<rparr>)) (\<lambda>_.
      bindM (rebalance tok b) (\<lambda>q. returnM (g x q))))) (h, w) = (res, (h', w'))"
    and sub: "refines tok l (content (nodes h) l) m f C P"
  shows "frame tok (set_btree (Bin l a r)) h h' \<and> (case res of Inl e \<Rightarrow> thrown h e
    | Inr y \<Rightarrow> \<exists>q x. y = g x q \<and> P x \<and> built (set_btree (Bin l a r)) h h' (Some q)
        (rebal (C x) (entry (nodes h ! a)) (content (nodes h) r)))"
  using enter_left [OF wf run sub]
proof (elim disjE conjE exE)
  fix b x h3 w3 T
  assume K: "bindM (rebalance tok b) (\<lambda>q. returnM (g x q)) (h3, w3) = (res, (h', w'))"
    and rdy: "ready tok (set_btree (Bin l a r)) h h3 T b r" and "P x" "content (nodes h3) T = C x"
    "content (nodes h3) r = content (nodes h) r" "cell (nodes h3) b = cell (nodes h) a"
  then show ?thesis
    using finish_rebalance [OF rdy K] by (auto simp: cell_def split: sum.splits)
qed auto

text \<open>The mirror image.\<close>

lemma edit_right:
  assumes wf: "wf_tree (nodes h) (Bin l a r)" "dist (Bin l a r)"
    and run: "bindM (editable tok a) (\<lambda>b. bindM m (\<lambda>x.
      bindM (store_node b (\<lambda>n. n\<lparr>right := f x\<rparr>)) (\<lambda>_.
      bindM (rebalance tok b) (\<lambda>q. returnM (g x q))))) (h, w) = (res, (h', w'))"
    and sub: "refines tok r (content (nodes h) r) m f C P"
  shows "frame tok (set_btree (Bin l a r)) h h' \<and> (case res of Inl e \<Rightarrow> thrown h e
    | Inr y \<Rightarrow> \<exists>q x. y = g x q \<and> P x \<and> built (set_btree (Bin l a r)) h h' (Some q)
        (rebal (content (nodes h) l) (entry (nodes h ! a)) (C x)))"
  using enter_right [OF wf run sub]
proof (elim disjE conjE exE)
  fix b x h3 w3 T
  assume K: "bindM (rebalance tok b) (\<lambda>q. returnM (g x q)) (h3, w3) = (res, (h', w'))"
    and rdy: "ready tok (set_btree (Bin l a r)) h h3 l b T" and "P x" "content (nodes h3) T = C x"
    "content (nodes h3) l = content (nodes h) l" "cell (nodes h3) b = cell (nodes h) a"
  then show ?thesis
    using finish_rebalance [OF rdy K] by (auto simp: cell_def split: sum.splits)
qed auto

text \<open>Insertion refines \<open>ins\<close>; the only exceptions are those of the allocator and of the caller's code.\<close>

lemma spend_cases: "spend (h, w) = (res, (h', w')) \<Longrightarrow>
    w' = w \<and> nodes h' = nodes h \<and> tokens h' = tokens h \<and> calls h' = calls h \<and> (res = Inl Bad_alloc \<or> res = Inr ())"
  by (auto simp: spend_def split: if_splits)

lemma frame_nodes: "nodes h1 = nodes h \<Longrightarrow> tokens h1 = tokens h \<Longrightarrow> set (calls h1) \<subseteq> set (calls h) \<Longrightarrow> frame tok A h h1"
  by (simp add: frame_def)

lemma on_calls_cases:
  "on_calls user_call (h, w) = (res, (h', w')) \<Longrightarrow> w' = w \<and> nodes h' = nodes h \<and> tokens h' = tokens h \<and>
    set (calls h') \<subseteq> set (calls h) \<and> (case res of Inl e \<Rightarrow> thrown h e | Inr _ \<Rightarrow> True)"
  by (auto simp: on_calls_def user_call_def thrown_def split: list.splits option.splits)

text \<open>Calls of the caller's code and allocations change neither nodes nor tokens.\<close>

definition outside :: "('k, 'v, 'a) edit_op \<Rightarrow> ('a \<Rightarrow> bool) \<Rightarrow> bool" where
  "outside m P \<longleftrightarrow> (\<forall>h w res h' w'. m (h, w) = (res, (h', w')) \<longrightarrow> w' = w \<and> nodes h' = nodes h \<and> tokens h' = tokens h \<and>
     set (calls h') \<subseteq> set (calls h) \<and> (case res of Inl e \<Rightarrow> thrown h e | Inr x \<Rightarrow> P x))"

lemma outsideD:
  "outside m P \<Longrightarrow> m (h, w) = (res, (h', w')) \<Longrightarrow> w' = w \<and> nodes h' = nodes h \<and> tokens h' = tokens h \<and>
     set (calls h') \<subseteq> set (calls h) \<and> (case res of Inl e \<Rightarrow> thrown h e | Inr x \<Rightarrow> P x)"
  unfolding outside_def by blast

lemma outside_bind:
  assumes "outside m P" "\<And>x. P x \<Longrightarrow> outside (f x) Q"
  shows "outside (bindM m f) Q"
  unfolding outside_def
proof (intro allI impI)
  fix h h' :: "('a, 'b) heap" and w w' res
  assume run: "bindM m f (h, w) = (res, (h', w'))"
  obtain q h1 w1 where m: "m (h, w) = (q, (h1, w1))" by (metis prod.exhaust)
  note a = outsideD [OF assms(1) m]
  show "w' = w \<and> nodes h' = nodes h \<and> tokens h' = tokens h \<and>
     set (calls h') \<subseteq> set (calls h) \<and> (case res of Inl e \<Rightarrow> thrown h e | Inr x \<Rightarrow> Q x)"
  proof (cases q)
    case (Inl e)
    then have "res = Inl e" "h' = h1" "w' = w1" using run m by simp_all
    then show ?thesis using a Inl by simp
  next
    case (Inr x)
    then have "f x (h1, w1) = (res, (h', w'))" "P x" using run m a by simp_all
    from outsideD [OF assms(2) [OF this(2)] this(1)] a show ?thesis
      by (auto simp: thrown_def split: sum.splits)
  qed
qed

lemma outside_spend: "outside spend (\<lambda>_. True)"
  unfolding outside_def using spend_cases by (fastforce split: sum.splits)

lemma outside_user_call: "outside (on_calls user_call) (\<lambda>_. True)"
  unfolding outside_def using on_calls_cases by (fastforce split: sum.splits)

lemma outside_make_binding: "outside make_binding (\<lambda>_. True)"
  unfolding make_binding_def by (intro outside_bind [OF outside_spend] outside_bind [OF outside_user_call] outside_user_call)

lemma outside_compare: "outside (on_calls (compare_keys lt a b)) (\<lambda>x. x = lt a b)"
  unfolding outside_def
  by (auto simp: on_calls_def compare_keys_def user_call_def bindM_apply thrown_def split: list.splits option.splits)

text \<open>The outcome of an edit that may write the nodes \<open>A\<close>; what ran outside before it does not show.\<close>

abbreviation edited ::
  "nat \<Rightarrow> nat set \<Rightarrow> ('k, 'v) heap \<Rightarrow> 'x res \<Rightarrow> ('k, 'v) heap \<Rightarrow> ('x \<Rightarrow> nat option) \<Rightarrow> ('x \<Rightarrow> ('k, 'v) avl) \<Rightarrow> ('x \<Rightarrow> bool) \<Rightarrow> bool" where
  "edited tok A h res h' f C P \<equiv> frame tok A h h' \<and>
     (case res of Inl e \<Rightarrow> thrown h e | Inr x \<Rightarrow> built A h h' (f x) (C x) \<and> P x)"

lemma after_outside:
  assumes out: "outside m Q" and run: "bindM m F (h, w) = (res, (h', w'))"
    and rest: "\<And>x h1. Q x \<Longrightarrow> nodes h1 = nodes h \<Longrightarrow> F x (h1, w) = (res, (h', w')) \<Longrightarrow> edited tok A h1 res h' f C P"
  shows "edited tok A h res h' f C P"
proof -
  obtain q h1 w1 where m: "m (h, w) = (q, (h1, w1))" by (metis prod.exhaust)
  note a = outsideD [OF out m]
  have f1: "frame tok A h h1" using a by (intro frame_nodes) simp_all
  show ?thesis
  proof (cases q)
    case (Inl e)
    then have "res = Inl e" "h' = h1" using run m by simp_all
    then show ?thesis using a Inl f1 by simp
  next
    case (Inr x)
    then have "F x (h1, w) = (res, (h', w'))" using run m a by simp
    then have e: "edited tok A h1 res h' f C P" using a Inr by (intro rest) simp_all
    then have "frame tok A h h'" using frame_trans_same [OF f1] by blast
    moreover have "built A h h' p c = built A h1 h' p c" for p c using a by (simp add: built_def)
    ultimately show ?thesis using e thrown_later [OF _ f1] by (auto split: sum.splits)
  qed
qed

text \<open>The two comparisons on the way down.\<close>

lemma after_comparisons:
  assumes run: "bindM (on_calls (compare_keys lt key k)) (\<lambda>before. if before then X
      else bindM (on_calls (compare_keys lt k key)) (\<lambda>behind. if behind then Y else Z)) (h, w) = (res, (h', w'))"
    and rest: "\<And>h1. nodes h1 = nodes h \<Longrightarrow> (if lt key k then X else if lt k key then Y else Z) (h1, w) = (res, (h', w')) \<Longrightarrow>
      edited tok A h1 res h' f C P"
  shows "edited tok A h res h' f C P"
proof (rule after_outside [OF outside_compare run])
  fix x h1
  assume x: "x = lt key k" "nodes h1 = nodes h" and run1: "(if x then X
      else bindM (on_calls (compare_keys lt k key)) (\<lambda>behind. if behind then Y else Z)) (h1, w) = (res, (h', w'))"
  show "edited tok A h1 res h' f C P"
  proof (cases "lt key k")
    case True
    then show ?thesis using x run1 by (intro rest) simp_all
  next
    case False
    then have "bindM (on_calls (compare_keys lt k key)) (\<lambda>behind. if behind then Y else Z) (h1, w) = (res, (h', w'))"
      using x run1 by simp
    then show ?thesis
      by (rule after_outside [OF outside_compare]) (use False x(2) in \<open>auto intro!: rest\<close>)
  qed
qed

lemma new_leaf_spec:
  assumes run: "insert_node lt tok fuel None key val (h, w) = (res, (h', w'))"
  shows "edited tok {} h res h' (\<lambda>x. Some (fst x)) (\<lambda>_. Bin Tip ((key, val), 1) Tip) snd"
proof (rule after_outside [OF outside_make_binding])
  let ?n = "\<lparr>entry = (key, val), left = None, right = None, edit = tok, height = 1\<rparr>"
  show "bindM make_binding (\<lambda>_. bindM (new_node ?n) (\<lambda>a. returnM (a, True))) (h, w) = (res, (h', w'))"
    using run by simp
  fix h1 :: "('a, 'b) heap"
  assume run1: "bindM (new_node ?n) (\<lambda>a. returnM (a, True)) (h1, w) = (res, (h', w'))"
  let ?a = "length (nodes h1)"
  have "frame tok {} h1 h' \<and> (res = Inl Bad_alloc \<or> res = Inr (?a, True) \<and> nodes h' = nodes h1 @ [?n])"
    using run1 by (auto simp: new_node_def spend_def bindM_apply frame_def nth_append split: if_splits)
  moreover have "built {} h1 h' (Some ?a) (Bin Tip ((key, val), 1) Tip)" if "nodes h' = nodes h1 @ [?n]"
    using that unfolding built_def by (intro exI [of _ "Bin Tip ?a Tip"]) (simp add: cell_def)
  ultimately show "edited tok {} h1 res h' (\<lambda>x. Some (fst x)) (\<lambda>_. Bin Tip ((key, val), 1) Tip) snd" by auto
qed

lemma write_entry:
  fixes h :: "('k, 'v) heap" and e :: "'k \<times> 'v"
  assumes "wf_tree (nodes h) (Bin l b r)" "dist (Bin l b r)" "edit (nodes h ! b) = tok"
  defines "h' \<equiv> h\<lparr>nodes := (nodes h)[b := (nodes h ! b)\<lparr>entry := e\<rparr>]\<rparr>"
  shows "wf_tree (nodes h') (Bin l b r)" "content (nodes h') l = content (nodes h) l"
    "content (nodes h') r = content (nodes h) r" "cell (nodes h') b = (e, height (nodes h ! b))"
    "frame tok {b} h h'" "edit (nodes h' ! b) = tok" "fresh h h' = {}"
proof -
  note sw = same_write [of "nodes h" l b "(nodes h ! b)\<lparr>entry := e\<rparr>"]
    same_write [of "nodes h" r b "(nodes h ! b)\<lparr>entry := e\<rparr>"]
  show "wf_tree (nodes h') (Bin l b r)" "content (nodes h') l = content (nodes h) l"
    "content (nodes h') r = content (nodes h) r" "cell (nodes h') b = (e, height (nodes h ! b))"
    "edit (nodes h' ! b) = tok" "fresh h h' = {}"
    using assms(1-3) sw by (simp_all add: h'_def cell_def)
  show "frame tok {b} h h'"
    unfolding h'_def by (rule frame_write) (simp_all add: assms(3))
qed

lemma replace_entry_spec:
  assumes wf: "wf_tree (nodes h) (Bin l a r)" "dist (Bin l a r)"
    and run: "bindM (editable tok a) (\<lambda>b.
      bindM (store_node b (\<lambda>m. m\<lparr>entry := e\<rparr>)) (\<lambda>_. returnM (b, False))) (h, w) = (res, (h', w'))"
  shows "edited tok (set_btree (Bin l a r)) h res h' (\<lambda>x. Some (fst x))
    (\<lambda>_. Bin (content (nodes h) l) (e, height (nodes h ! a)) (content (nodes h) r)) (\<lambda>x. \<not> snd x)"
proof -
  let ?A = "set_btree (Bin l a r)"
  obtain p h1 w1 where ed: "editable tok a (h, w) = (p, (h1, w1))" by (metis prod.exhaust)
  show ?thesis
  proof (cases p)
    case (Inl y)
    have "y = Bad_alloc \<and> frame tok {} h h1"
      using editable_fails [of a h tok w y h1 w1] ed Inl wf(1) by simp
    then have "y = Bad_alloc \<and> frame tok ?A h h1" using frame_mono [of tok "{}" h h1 ?A] by simp
    then show ?thesis using run ed Inl by (auto simp: bindM_apply)
  next
    case (Inr b)
    note e1 = editable_tree [OF wf ed [unfolded Inr]]
    define h2 where "h2 = h1\<lparr>nodes := (nodes h1)[b := (nodes h1 ! b)\<lparr>entry := e\<rparr>]\<rparr>"
    note e2 = write_entry [OF e1(3,4,8), of e, folded h2_def]
    have f: "frame tok ?A h h1" using frame_mono [OF e1(1)] by simp
    have f2: "frame tok ?A h h2"
      by (rule frame_trans [OF f e2(5)]) (use e1(2) in auto)
    have "set_btree (Bin l b r) \<subseteq> ?A \<union> fresh h h2"
      using e1(2) frame_length [OF e2(5)] by auto
    from built_tree [OF e2(1) e1(4) this]
    have "built ?A h h2 (Some b) (Bin (content (nodes h) l) (e, height (nodes h ! a)) (content (nodes h) r))"
      using e2(2-4) e1(5-7) by (simp add: cell_def)
    moreover have "res = Inr (b, False)" "h' = h2"
      using run ed Inr by (auto simp: h2_def)
    ultimately show ?thesis using f2 by simp
  qed
qed

lemma bind_load: "a < length (nodes h) \<Longrightarrow> bindM (load_node a) f (h, w) = f (nodes h ! a) (h, w)"
  by (simp add: bindM_apply load_node_in)

lemma insert_spec:
  fixes key :: 'k and val :: 'v and c :: "('k, 'v) avl"
  shows "dist T \<Longrightarrow> depth T \<le> fuel \<Longrightarrow>
   refines tok T c (insert_node lt tok fuel (ptr T) key val) (\<lambda>x. Some (fst x))
     (\<lambda>x. fst (ins lt key val c)) (\<lambda>x. snd x = snd (ins lt key val c))"
proof (induction T arbitrary: fuel c)
  case Tip
  show ?case
  proof (rule refinesI)
    fix h h' :: "('k, 'v) heap" and w w' u assume "insert_node lt tok fuel (ptr Tip) key val (h, w) = (u, (h', w'))"
      and "content (nodes h) Tip = c"
    then show "edited tok (set_btree Tip) h u h' (\<lambda>x. Some (fst x)) (\<lambda>x. fst (ins lt key val c)) (\<lambda>x. snd x = snd (ins lt key val c))"
      using new_leaf_spec [of lt tok fuel key val h w u h' w'] by (auto split: sum.splits)
  qed
next
  case (Bin l a r)
  obtain n where fuel: "fuel = Suc n" "depth l \<le> n" "depth r \<le> n"
    using Bin.prems(2) by (cases fuel) auto
  have dl: "dist l" "dist r" using Bin.prems(1) by auto
  let ?A = "set_btree (Bin l a r)"
  let ?goal = "\<lambda>h res h'. edited tok ?A h res h' (\<lambda>x. Some (fst x)) (\<lambda>x. fst (ins lt key val c)) (\<lambda>x. snd x = snd (ins lt key val c))"
  show ?case
  proof (rule refinesI)
    fix g h' :: "('k, 'v) heap" and w w' res
    let ?k = "fst (entry (nodes g ! a))"
    assume wfg: "wf_tree (nodes g) (Bin l a r)" and cg: "content (nodes g) (Bin l a r) = c"
      and r: "insert_node lt tok fuel (ptr (Bin l a r)) key val (g, w) = (res, (h', w'))"
    have a: "a < length (nodes g)" "left (nodes g ! a) = ptr l" "right (nodes g ! a) = ptr r"
      and cc: "c = Bin (content (nodes g) l) (entry (nodes g ! a), height (nodes g ! a)) (content (nodes g) r)"
      using wfg cg by (auto simp: cell_def)
    note run = r [unfolded fuel(1) ptr.simps insert_node.simps bind_load [OF a(1)] a(2,3)]
    show "?goal g res h'"
    proof (rule after_comparisons [OF run])
      fix h assume same: "nodes h = nodes g" and run: "(if lt key ?k then bindM (editable tok a) (\<lambda>item.
          bindM (insert_node lt tok n (ptr l) key val) (\<lambda>(l, inserted). bindM (store_node item (\<lambda>n. n\<lparr>left := Some l\<rparr>)) (\<lambda>_.
          bindM (rebalance tok item) (\<lambda>item. returnM (item, inserted)))))
        else if lt ?k key then bindM (editable tok a) (\<lambda>item.
          bindM (insert_node lt tok n (ptr r) key val) (\<lambda>(r, inserted). bindM (store_node item (\<lambda>n. n\<lparr>right := Some r\<rparr>)) (\<lambda>_.
          bindM (rebalance tok item) (\<lambda>item. returnM (item, inserted)))))
        else bindM make_binding (\<lambda>_. bindM (editable tok a) (\<lambda>item.
          bindM (store_node item (\<lambda>m. m\<lparr>entry := (?k, val)\<rparr>)) (\<lambda>_. returnM (item, False))))) (h, w) = (res, (h', w'))"
      have wf: "wf_tree (nodes h) (Bin l a r)" using wfg same by simp
      consider (lt) "lt key ?k" | (gt) "\<not> lt key ?k" "lt ?k key" | (eq) "\<not> lt key ?k" "\<not> lt ?k key"
        by blast
      then show "?goal h res h'"
      proof cases
        case lt
        have "bindM (editable tok a) (\<lambda>b. bindM (insert_node lt tok n (ptr l) key val) (\<lambda>x.
            bindM (store_node b (\<lambda>m. m\<lparr>left := Some (fst x)\<rparr>)) (\<lambda>_.
            bindM (rebalance tok b) (\<lambda>q. returnM (q, snd x))))) (h, w) = (res, (h', w'))"
          using run lt by (simp add: case_prod_beta')
        from edit_left [OF wf Bin.prems(1) this Bin.IH(1) [OF dl(1) fuel(2)]]
        show ?thesis
          using lt same by (auto simp: cc case_prod_beta' split: sum.splits)
      next
        case gt
        have "bindM (editable tok a) (\<lambda>b. bindM (insert_node lt tok n (ptr r) key val) (\<lambda>x.
            bindM (store_node b (\<lambda>m. m\<lparr>right := Some (fst x)\<rparr>)) (\<lambda>_.
            bindM (rebalance tok b) (\<lambda>q. returnM (q, snd x))))) (h, w) = (res, (h', w'))"
          using run gt by (simp add: case_prod_beta')
        from edit_right [OF wf Bin.prems(1) this Bin.IH(2) [OF dl(2) fuel(3)]]
        show ?thesis
          using gt same by (auto simp: cc case_prod_beta' split: sum.splits)
      next
        case eq
        then have "bindM make_binding (\<lambda>_. bindM (editable tok a) (\<lambda>b.
            bindM (store_node b (\<lambda>m. m\<lparr>entry := (?k, val)\<rparr>)) (\<lambda>_. returnM (b, False)))) (h, w) = (res, (h', w'))"
          using run by simp
        then show ?thesis
        proof (rule after_outside [OF outside_make_binding])
          fix h1 assume s1: "nodes h1 = nodes h" and run1: "bindM (editable tok a) (\<lambda>b.
            bindM (store_node b (\<lambda>m. m\<lparr>entry := (?k, val)\<rparr>)) (\<lambda>_. returnM (b, False))) (h1, w) = (res, (h', w'))"
          have "wf_tree (nodes h1) (Bin l a r)" using wf s1 by simp
          from replace_entry_spec [OF this Bin.prems(1) run1] show "?goal h1 res h'"
            using eq same s1 by (auto simp: cc split: sum.splits)
        qed
      qed
    qed
  qed
qed

end
