(* ===== verification/NurseryEdits.thy ===== *)
theory NurseryEdits
  imports NurseryRefine
begin

text \<open>
  Removal in the heap refines \<open>del\<close>, lookup and traversal read the tree they are given, and
  no edit runs out of fuel or follows a dangling pointer.
\<close>

section \<open>Removal\<close>

lemma remove_first_spec:
  fixes c :: "('k, 'v) avl"
  shows "dist T \<Longrightarrow> T = Bin l a r \<Longrightarrow> depth T \<le> fuel \<Longrightarrow>
   refines tok T c (remove_first tok fuel a) snd (\<lambda>_. snd (del_first c)) (\<lambda>x. fst x = fst (del_first c))"
proof (induction l arbitrary: T a r fuel c)
  case Tip
  obtain n where fuel: "fuel = Suc n" using Tip by (cases fuel) auto
  show ?case
  proof (rule refinesI)
    fix h h' :: "('k, 'v) heap" and w w' res
    assume wf: "wf_tree (nodes h) T" and c: "content (nodes h) T = c"
      and run: "remove_first tok fuel a (h, w) = (res, (h', w'))"
    have "res = Inr (entry (nodes h ! a), ptr r)" "h' = h"
      using run wf Tip fuel by auto
    moreover have "built (set_btree T) h h (ptr r) (content (nodes h) r)"
      using wf Tip by (intro built_tree) auto
    moreover have "del_first c = (entry (nodes h ! a), content (nodes h) r)"
      using Tip c by (auto simp: cell_def)
    ultimately show "frame tok (set_btree T) h h' \<and> (case res of Inl e \<Rightarrow> thrown h e
      | Inr x \<Rightarrow> built (set_btree T) h h' (snd x) (snd (del_first c)) \<and> fst x = fst (del_first c))"
      by simp
  qed
next
  case (Bin ll b lr)
  let ?l = "Bin ll b lr"
  obtain n where fuel: "fuel = Suc n" "depth ?l \<le> n" using Bin.prems by (cases fuel) auto
  have dl: "dist ?l" using Bin.prems by auto
  show ?case
  proof (rule refinesI)
    fix h h' :: "('k, 'v) heap" and w w' res
    assume wf: "wf_tree (nodes h) T" and c: "content (nodes h) T = c"
      and r: "remove_first tok fuel a (h, w) = (res, (h', w'))"
    have wf': "wf_tree (nodes h) (Bin ?l a r)" "dist (Bin ?l a r)" using wf Bin.prems by auto
    have "bindM (editable tok a) (\<lambda>m. bindM (remove_first tok n b) (\<lambda>x.
        bindM (store_node m (\<lambda>m. m\<lparr>left := snd x\<rparr>)) (\<lambda>_.
        bindM (rebalance tok m) (\<lambda>q. returnM (fst x, Some q))))) (h, w) = (res, (h', w'))"
      using r wf' fuel(1) by (simp add: case_prod_beta')
    from edit_left [OF wf' this Bin.IH(1) [OF dl refl fuel(2)]]
    show "frame tok (set_btree T) h h' \<and> (case res of Inl e \<Rightarrow> thrown h e
      | Inr x \<Rightarrow> built (set_btree T) h h' (snd x) (snd (del_first c)) \<and> fst x = fst (del_first c))"
      using Bin.prems(2) c by (auto simp: cell_def case_prod_beta' split: sum.splits)
  qed
qed

lemma ready_write_entry:
  fixes h h3 :: "('k, 'v) heap" and e :: "'k \<times> 'v"
  assumes "ready tok A h h3 l b r"
  defines "h4 \<equiv> h3\<lparr>nodes := (nodes h3)[b := (nodes h3 ! b)\<lparr>entry := e\<rparr>]\<rparr>"
  shows "ready tok A h h4 l b r" "content (nodes h4) l = content (nodes h3) l"
    "content (nodes h4) r = content (nodes h3) r" "fst (cell (nodes h4) b) = e"
proof -
  have r: "wf_tree (nodes h3) (Bin l b r)" "dist (Bin l b r)" "edit (nodes h3 ! b) = tok"
    "frame tok A h h3" "set_btree (Bin l b r) \<subseteq> A \<union> fresh h h3"
    using assms(1) by (auto simp: ready_def)
  note e4 = write_entry [OF r(1-3), of e, folded h4_def]
  have "frame tok A h h4"
    by (rule frame_trans [OF r(4) e4(5)]) (use r(5) in auto)
  then show "ready tok A h h4 l b r"
    using e4(1,6,7) r(2,5) by (auto simp: ready_def h4_def)
  show "content (nodes h4) l = content (nodes h3) l"
    "content (nodes h4) r = content (nodes h3) r" "fst (cell (nodes h4) b) = e"
    using e4 by simp_all
qed

lemma finish_remove:
  assumes rdy: "ready tok A h h3 l b r"
    and run: "(if erased then bindM (rebalance tok b) (\<lambda>q. returnM (Some q, True))
      else returnM (Some b, False)) (h3, w3) = (res, (h', w'))"
  shows "frame tok A h h' \<and> (case res of Inl e \<Rightarrow> e = Bad_alloc
    | Inr y \<Rightarrow> snd y = erased \<and> built A h h' (fst y)
        (if erased then rebal (content (nodes h3) l) (fst (cell (nodes h3) b)) (content (nodes h3) r)
         else content (nodes h3) (Bin l b r)))"
proof (cases erased)
  case True
  with run have "bindM (rebalance tok b) (\<lambda>q. returnM (Some q, True)) (h3, w3) = (res, (h', w'))"
    by simp
  from finish_rebalance [OF rdy this] show ?thesis
    using True by (auto split: sum.splits)
next
  case False
  then have "res = Inr (Some b, False)" "h' = h3" using run by auto
  moreover have "built A h h3 (ptr (Bin l b r)) (content (nodes h3) (Bin l b r))"
    using rdy by (intro built_tree) (auto simp: ready_def)
  ultimately show ?thesis
    using False rdy by (simp add: ready_def)
qed

lemma remove_spec:
  fixes key :: 'k and c :: "('k, 'v) avl"
  shows "dist T \<Longrightarrow> depth T \<le> fuel \<Longrightarrow>
   refines tok T c (remove_node lt tok fuel (ptr T) key) fst
     (\<lambda>_. fst (del lt key c)) (\<lambda>x. snd x = snd (del lt key c))"
proof (induction T arbitrary: fuel c)
  case Tip
  show ?case
  proof (rule refinesI)
    fix h h' :: "('k, 'v) heap" and w w' u
    assume "remove_node lt tok fuel (ptr Tip) key (h, w) = (u, (h', w'))" "content (nodes h) Tip = c"
    then have "u = Inr (None, False)" "h' = h" "c = Tip" by auto
    then show "frame tok (set_btree Tip) h h' \<and> (case u of Inl e \<Rightarrow> thrown h e
      | Inr x \<Rightarrow> built (set_btree Tip) h h' (fst x) (fst (del lt key c)) \<and> snd x = snd (del lt key c))"
      using built_tree [of h Tip "{}" h] by simp
  qed
next
  case (Bin l a r)
  obtain n where fuel: "fuel = Suc n" "depth l \<le> n" "depth r \<le> n"
    using Bin.prems(2) by (cases fuel) auto
  have dl: "dist l" "dist r" using Bin.prems(1) by auto
  let ?A = "set_btree (Bin l a r)"
  let ?goal = "\<lambda>h res h'. edited tok ?A h res h' fst (\<lambda>_. fst (del lt key c)) (\<lambda>x. snd x = snd (del lt key c))"
  show ?case
  proof (rule refinesI)
    fix g h' :: "('k, 'v) heap" and w w' res
    let ?k = "fst (entry (nodes g ! a))"
    assume wfg: "wf_tree (nodes g) (Bin l a r)" and cg: "content (nodes g) (Bin l a r) = c"
      and rr: "remove_node lt tok fuel (ptr (Bin l a r)) key (g, w) = (res, (h', w'))"
    have a: "a < length (nodes g)" "left (nodes g ! a) = ptr l" "right (nodes g ! a) = ptr r"
      and cc: "c = Bin (content (nodes g) l) (entry (nodes g ! a), height (nodes g ! a)) (content (nodes g) r)"
      using wfg cg by (auto simp: cell_def)
    note run = rr [unfolded fuel(1) ptr.simps remove_node.simps bind_load [OF a(1)] a(2,3)]
    show "?goal g res h'"
    proof (rule after_comparisons [OF run])
      fix h
      assume same: "nodes h = nodes g" and run: "(if lt key ?k then bindM (editable tok a) (\<lambda>item.
          bindM (remove_node lt tok n (ptr l) key) (\<lambda>(l, erased). bindM (store_node item (\<lambda>n. n\<lparr>left := l\<rparr>)) (\<lambda>_.
          if erased then bindM (rebalance tok item) (\<lambda>item. returnM (Some item, True)) else returnM (Some item, False))))
        else if lt ?k key then bindM (editable tok a) (\<lambda>item.
          bindM (remove_node lt tok n (ptr r) key) (\<lambda>(r, erased). bindM (store_node item (\<lambda>n. n\<lparr>right := r\<rparr>)) (\<lambda>_.
          if erased then bindM (rebalance tok item) (\<lambda>item. returnM (Some item, True)) else returnM (Some item, False))))
        else case (ptr l, ptr r) of
            (Some l, Some r) \<Rightarrow> bindM (editable tok a) (\<lambda>item. bindM (remove_first tok n r) (\<lambda>(first, r').
              bindM (store_node item (\<lambda>n. n\<lparr>right := r'\<rparr>)) (\<lambda>_. bindM (store_node item (\<lambda>n. n\<lparr>entry := first\<rparr>)) (\<lambda>_.
              bindM (rebalance tok item) (\<lambda>item. returnM (Some item, True))))))
          | (l, r) \<Rightarrow> returnM (if l = None then r else l, True)) (h, w) = (res, (h', w'))"
      have wf: "wf_tree (nodes h) (Bin l a r)" using wfg same by simp
      consider (lt) "lt key ?k" | (gt) "\<not> lt key ?k" "lt ?k key"
        | (none) "\<not> lt key ?k" "\<not> lt ?k key" "l = Tip \<or> r = Tip"
        | (both) "\<not> lt key ?k" "\<not> lt ?k key" "l \<noteq> Tip" "r \<noteq> Tip"
        by blast
      then show "?goal h res h'"
      proof cases
        case lt
        have "bindM (editable tok a) (\<lambda>b. bindM (remove_node lt tok n (ptr l) key) (\<lambda>x.
            bindM (store_node b (\<lambda>m. m\<lparr>left := fst x\<rparr>)) (\<lambda>_.
            if snd x then bindM (rebalance tok b) (\<lambda>q. returnM (Some q, True)) else returnM (Some b, False))))
            (h, w) = (res, (h', w'))"
          using run lt by (simp add: case_prod_beta')
        from enter_left [OF wf Bin.prems(1) this Bin.IH(1) [OF dl(1) fuel(2)]]
        show ?thesis
        proof (elim disjE conjE exE)
          fix b x h3 w3 T
          assume K: "(if snd x then bindM (rebalance tok b) (\<lambda>q. returnM (Some q, True))
              else returnM (Some b, False)) (h3, w3) = (res, (h', w'))"
            and rdy: "ready tok ?A h h3 T b r" and x: "snd x = snd (del lt key (content (nodes h) l))"
            and T: "content (nodes h3) T = fst (del lt key (content (nodes h) l))"
              "content (nodes h3) r = content (nodes h) r" "cell (nodes h3) b = cell (nodes h) a"
          obtain t e where d: "del lt key (content (nodes h) l) = (t, e)" by fastforce
          show ?thesis
            using finish_remove [OF rdy K] lt x T d by (auto simp: cc cell_def same split: sum.splits)
        qed auto
      next
        case gt
        have "bindM (editable tok a) (\<lambda>b. bindM (remove_node lt tok n (ptr r) key) (\<lambda>x.
            bindM (store_node b (\<lambda>m. m\<lparr>right := fst x\<rparr>)) (\<lambda>_.
            if snd x then bindM (rebalance tok b) (\<lambda>q. returnM (Some q, True)) else returnM (Some b, False))))
            (h, w) = (res, (h', w'))"
          using run gt by (simp add: case_prod_beta')
        from enter_right [OF wf Bin.prems(1) this Bin.IH(2) [OF dl(2) fuel(3)]]
        show ?thesis
        proof (elim disjE conjE exE)
          fix b x h3 w3 T
          assume K: "(if snd x then bindM (rebalance tok b) (\<lambda>q. returnM (Some q, True))
              else returnM (Some b, False)) (h3, w3) = (res, (h', w'))"
            and rdy: "ready tok ?A h h3 l b T" and x: "snd x = snd (del lt key (content (nodes h) r))"
            and T: "content (nodes h3) T = fst (del lt key (content (nodes h) r))"
              "content (nodes h3) l = content (nodes h) l" "cell (nodes h3) b = cell (nodes h) a"
          obtain t e where d: "del lt key (content (nodes h) r) = (t, e)" by fastforce
          show ?thesis
            using finish_remove [OF rdy K] gt x T d by (auto simp: cc cell_def same split: sum.splits)
        qed auto
      next
        case none
        then have "res = Inr (if l = Tip then ptr r else ptr l, True)" "h' = h"
          using run by (cases l; cases r; auto)+
        moreover have "built ?A h h (ptr l) (content (nodes h) l)" "built ?A h h (ptr r) (content (nodes h) r)"
          using wf Bin.prems(1) by (auto intro!: built_tree)
        ultimately show ?thesis
          using none same by (auto simp: cc)
      next
        case both
        then obtain rl b rr where r: "r = Bin rl b rr" by (cases r) auto
        have run': "bindM (editable tok a) (\<lambda>m. bindM (remove_first tok n b) (\<lambda>x.
            bindM (store_node m (\<lambda>m. m\<lparr>right := snd x\<rparr>)) (\<lambda>_.
            bindM (store_node m (\<lambda>m. m\<lparr>entry := fst x\<rparr>)) (\<lambda>_.
            bindM (rebalance tok m) (\<lambda>q. returnM (Some q, True)))))) (h, w) = (res, (h', w'))"
          using run both r by (cases l) (simp_all add: case_prod_beta')
        have fd: "del lt key c = (case del_first (content (nodes h) r) of
            (f, r') \<Rightarrow> (rebal (content (nodes h) l) f r', True))"
          using both cc same by simp
        from enter_right [OF wf Bin.prems(1) run' remove_first_spec [OF dl(2) r fuel(3)]]
        show ?thesis
        proof (elim disjE conjE exE)
          fix m x h3 w3 T
          assume K: "bindM (store_node m (\<lambda>m. m\<lparr>entry := fst x\<rparr>)) (\<lambda>_.
              bindM (rebalance tok m) (\<lambda>q. returnM (Some q, True))) (h3, w3) = (res, (h', w'))"
            and rdy: "ready tok ?A h h3 l m T" and x: "fst x = fst (del_first (content (nodes h) r))"
            and T: "content (nodes h3) T = snd (del_first (content (nodes h) r))"
              "content (nodes h3) l = content (nodes h) l"
          let ?h4 = "h3\<lparr>nodes := (nodes h3)[m := (nodes h3 ! m)\<lparr>entry := fst x\<rparr>]\<rparr>"
          note r4 = ready_write_entry [OF rdy, of "fst x"]
          have "bindM (rebalance tok m) (\<lambda>q. returnM (Some q, True)) (?h4, w3) = (res, (h', w'))"
            using K by (simp add: bindM_def)
          from finish_rebalance [OF r4(1) this] show ?thesis
            using r4(2-4) x T fd by (auto simp: case_prod_beta' split: sum.splits)
        qed auto
      qed
    qed
  qed
qed

end
