(* ===== verification/NurseryOwners.thy ===== *)
theory NurseryOwners
  imports NurseryEdits
begin

text \<open>
  Any number of transient maps and snapshots over one heap: the invariant that keeps their
  trees apart, its preservation by every operation, and the public laws of the nursery map
  (map semantics, snapshot isolation, balance, and the absence of undefined reads).
\<close>

section \<open>Reading a tree\<close>

lemma root_height_ptr [simp]:
  "wf_tree (nodes h) T \<Longrightarrow> root_height h (ptr T) = ht (content (nodes h) T)"
  by (cases T) (auto simp: root_height_def cell_def)

text \<open>
  Whatever the calls of the comparator do, a lookup returns the entry that belongs to the key or
  passes on the exception of one of them; when they all return, it returns.
\<close>

definition answers :: "user_calls \<Rightarrow> 'a res \<Rightarrow> 'a \<Rightarrow> bool" where
  "answers cs r v \<longleftrightarrow> r = Inr v \<or> (\<exists>x. r = Inl (User_exception x) \<and> Some x \<in> set cs)"

lemma answers_quiet [simp]: "answers [] r v \<longleftrightarrow> r = Inr v"
  by (simp add: answers_def)

lemma answers_mono: "answers cs' r v \<Longrightarrow> set cs' \<subseteq> set cs \<Longrightarrow> answers cs r v"
  by (auto simp: answers_def)

lemma answers_after_comparison:
  assumes "\<And>cs'. set cs' \<subseteq> set cs \<Longrightarrow> answers cs' (fst (F (lt a b) cs')) v"
  shows "answers cs (fst (bindM (compare_keys lt a b) F cs)) v"
proof (cases cs)
  case Nil
  then show ?thesis using assms [of "[]"] by (simp add: compare_keys_def user_call_def bindM_apply)
next
  case (Cons o1 rest)
  show ?thesis
  proof (cases o1)
    case None
    have "answers cs (fst (F (lt a b) rest)) v"
      by (rule answers_mono [OF assms [of rest]]) (auto simp: Cons)
    then show ?thesis by (simp add: Cons None compare_keys_def user_call_def bindM_apply)
  next
    case (Some x)
    then show ?thesis by (simp add: Cons compare_keys_def user_call_def bindM_apply answers_def)
  qed
qed

lemma find_in_spec:
  "wf_tree (nodes h) T \<Longrightarrow> depth T \<le> fuel \<Longrightarrow>
     answers cs (fst (find_in lt h fuel (ptr T) k cs)) (find_pure lt k (content (nodes h) T))"
proof (induction T arbitrary: fuel cs)
  case Tip
  then show ?case by (simp add: answers_def)
next
  case (Bin l a r)
  then obtain n where n: "fuel = Suc n" "depth l \<le> n" "depth r \<le> n" by (cases fuel) auto
  have wf: "a < length (nodes h)" "left (nodes h ! a) = ptr l" "right (nodes h ! a) = ptr r"
    "wf_tree (nodes h) l" "wf_tree (nodes h) r" using Bin.prems(1) by auto
  have c: "cell (nodes h) a = (entry (nodes h ! a), height (nodes h ! a))" by (simp add: cell_def)
  let ?k = "fst (entry (nodes h ! a))"
  have "answers cs (fst (bindM (compare_keys lt k ?k) (\<lambda>before. if before then find_in lt h n (ptr l) k
      else bindM (compare_keys lt ?k k) (\<lambda>behind. if behind then find_in lt h n (ptr r) k
        else returnM (Some (snd (entry (nodes h ! a)))))) cs))
      (find_pure lt k (content (nodes h) (Bin l a r)))"
  proof (rule answers_after_comparison)
    fix cs1
    show "answers cs1 (fst ((if lt k ?k then find_in lt h n (ptr l) k
      else bindM (compare_keys lt ?k k) (\<lambda>behind. if behind then find_in lt h n (ptr r) k
        else returnM (Some (snd (entry (nodes h ! a)))))) cs1)) (find_pure lt k (content (nodes h) (Bin l a r)))"
    proof (cases "lt k ?k")
      case True
      then show ?thesis using Bin.IH(1) [OF wf(4) n(2), of cs1] c by simp
    next
      case False
      have "answers cs1 (fst (bindM (compare_keys lt ?k k) (\<lambda>behind. if behind then find_in lt h n (ptr r) k
        else returnM (Some (snd (entry (nodes h ! a))))) cs1)) (find_pure lt k (content (nodes h) (Bin l a r)))"
      proof (rule answers_after_comparison)
        fix cs2
        show "answers cs2 (fst ((if lt ?k k then find_in lt h n (ptr r) k
          else returnM (Some (snd (entry (nodes h ! a))))) cs2)) (find_pure lt k (content (nodes h) (Bin l a r)))"
          using False Bin.IH(2) [OF wf(5) n(3), of cs2] c by (simp add: answers_def)
      qed
      then show ?thesis using False by simp
    qed
  qed
  then show ?case
    unfolding n(1) ptr.simps find_in.simps Let_def if_P [OF wf(1)] wf(2,3) .
qed

lemma visit_in_spec:
  "wf_tree (nodes h) T \<Longrightarrow> depth T \<le> fuel \<Longrightarrow>
     visit_in h fuel (ptr T) = Inr (entries (content (nodes h) T))"
proof (induction T arbitrary: fuel)
  case (Bin l a r)
  then obtain n where "fuel = Suc n" "depth l \<le> n" "depth r \<le> n" by (cases fuel) auto
  then show ?case using Bin by (simp add: cell_def Let_def)
qed simp

lemma depth_map_btree [simp]: "depth (map_btree f t) = depth t"
  by (induction t) auto

section \<open>The invariant\<close>

text \<open>
  \<open>holds lt h p es T\<close>: at pointer \<open>p\<close> there is a well-formed, balanced tree of shape \<open>T\<close> whose
  bindings, in key order, are \<open>es\<close>.
\<close>

definition holds ::
  "('k \<Rightarrow> 'k \<Rightarrow> bool) \<Rightarrow> ('k, 'v) heap \<Rightarrow> nat option \<Rightarrow> ('k \<times> 'v) list \<Rightarrow> nat btree \<Rightarrow> bool" where
  "holds lt h p es T \<longleftrightarrow> ptr T = p \<and> wf_tree (nodes h) T \<and> dist T \<and> avl (content (nodes h) T) \<and>
     entries (content (nodes h) T) = es \<and> ordered lt es"

definition closed :: "('k, 'v) heap \<Rightarrow> nat \<Rightarrow> bool" where
  "closed h a \<longleftrightarrow> \<not> token_open h (edit (nodes h ! a))"

definition snap_ok :: "('k \<Rightarrow> 'k \<Rightarrow> bool) \<Rightarrow> ('k, 'v) heap \<Rightarrow> snapshot \<Rightarrow> ('k \<times> 'v) list \<Rightarrow> bool" where
  "snap_ok lt h z es \<longleftrightarrow> (\<exists>T. holds lt h (sroot z) es T \<and> ssize z = length es \<and>
     (\<forall>a \<in> set_btree T. closed h a))"

definition map_ok :: "('k \<Rightarrow> 'k \<Rightarrow> bool) \<Rightarrow> ('k, 'v) heap \<Rightarrow> nursery_map \<Rightarrow> ('k \<times> 'v) list \<Rightarrow> bool" where
  "map_ok lt h m es \<longleftrightarrow> \<not> failed m \<and> (\<exists>T. holds lt h (root m) es T \<and> msize m = length es \<and>
     (\<forall>a \<in> set_btree T. closed h a \<or> own_edit m = Some (edit (nodes h ! a))))"

definition tokens_ok :: "('k, 'v) heap \<Rightarrow> nursery_map list \<Rightarrow> bool" where
  "tokens_ok h ms \<longleftrightarrow>
     (\<forall>a < length (nodes h). edit (nodes h ! a) < length (tokens h)) \<and>
     (\<forall>i < length ms. \<forall>t. own_edit (ms ! i) = Some t \<longrightarrow> t < length (tokens h)) \<and>
     (\<forall>i < length ms. \<forall>j < length ms. \<forall>t. i \<noteq> j \<longrightarrow> token_open h t \<longrightarrow>
        own_edit (ms ! i) = Some t \<longrightarrow> own_edit (ms ! j) \<noteq> Some t)"

definition owners_ok :: "('k \<Rightarrow> 'k \<Rightarrow> bool) \<Rightarrow> ('k, 'v) owners \<Rightarrow> bool" where
  "owners_ok lt s \<longleftrightarrow> tokens_ok (store s) (maps s) \<and>
     (\<forall>m \<in> set (maps s). failed m \<or> (\<exists>es. map_ok lt (store s) m es)) \<and>
     (\<forall>z \<in> set (snaps s). \<exists>es. snap_ok lt (store s) z es)"

lemma holds_find:
  assumes "weak_order lt" "holds lt h p es T"
  shows "answers cs (fst (find_in lt h (root_height h p) p k cs)) (map_option snd (held lt k es))"
proof -
  have T: "ptr T = p" "wf_tree (nodes h) T" "avl (content (nodes h) T)"
    "entries (content (nodes h) T) = es" "ordered lt es"
    using assms(2) by (auto simp: holds_def)
  have "depth T \<le> root_height h p"
    using T(1,2) ht_depth [OF T(3)] by auto
  then show ?thesis
    using find_in_spec [OF T(2), of _ cs lt k] weak_order.find_pure_held [OF assms(1), of "content (nodes h) T"] T
    by simp
qed

lemma holds_list:
  assumes "holds lt h p es T"
  shows "visit_in h (root_height h p) p = Inr es"
proof -
  have T: "ptr T = p" "wf_tree (nodes h) T" "avl (content (nodes h) T)" "entries (content (nodes h) T) = es"
    using assms by (auto simp: holds_def)
  have "depth T \<le> root_height h p"
    using T(1,2) ht_depth [OF T(3)] by auto
  then show ?thesis
    using visit_in_spec [OF T(2)] T by simp
qed

lemma snap_ok_reads:
  assumes "weak_order lt" "snap_ok lt h z es"
  shows "answers cs (snapshot_find lt cs h z k) (map_option snd (held lt k es))" "snapshot_list h z = Inr es"
proof -
  obtain T where T: "holds lt h (sroot z) es T"
    using assms(2) by (auto simp: snap_ok_def)
  then show "answers cs (snapshot_find lt cs h z k) (map_option snd (held lt k es))" "snapshot_list h z = Inr es"
    using holds_find [OF assms(1) T] holds_list [OF T]
    by (simp_all add: snapshot_find_def snapshot_list_def)
qed

lemma map_ok_reads:
  assumes "weak_order lt" "map_ok lt h m es"
  shows "answers cs (map_find lt cs h m k) (map_option snd (held lt k es))" "map_list h m = Inr es"
    "map_size m = Inr (length es)"
proof -
  obtain T where T: "holds lt h (root m) es T" "\<not> failed m" "msize m = length es"
    using assms(2) by (auto simp: map_ok_def)
  then show "answers cs (map_find lt cs h m k) (map_option snd (held lt k es))" "map_list h m = Inr es"
    "map_size m = Inr (length es)"
    using holds_find [OF assms(1) T(1)] holds_list [OF T(1)]
    by (simp_all add: map_find_def map_list_def map_size_def require_active_def)
qed

text \<open>The same when every call of the comparator returns.\<close>

lemmas snap_ok_finds = snap_ok_reads(1) [where cs = "[]", unfolded answers_quiet]
  and map_ok_finds = map_ok_reads(1) [where cs = "[]", unfolded answers_quiet]

section \<open>Frames and the other owners\<close>

text \<open>
  Writing only nodes of one open token leaves every tree intact that has no node of that
  token.
\<close>

lemma holds_frame:
  assumes "holds lt h p es T" "frame tok A h h'" "\<And>a. a \<in> set_btree T \<Longrightarrow> edit (nodes h ! a) \<noteq> tok"
  shows "holds lt h' p es T"
  using assms(1) frame_same [OF assms(2), of T] assms(3) by (auto simp: holds_def)

lemma frame_edit: "frame tok A h h' \<Longrightarrow> a < length (nodes h) \<Longrightarrow> edit (nodes h' ! a) = edit (nodes h ! a)"
  by (simp add: frame_def)

lemma frame_tokens: "frame tok A h h' \<Longrightarrow> token_open h' t = token_open h t"
  by (simp add: frame_def token_open_def)

lemma holds_bound: "holds lt h p es T \<Longrightarrow> a \<in> set_btree T \<Longrightarrow> a < length (nodes h)"
  using wf_tree_bound by (auto simp: holds_def)

lemma snap_ok_frame:
  assumes z: "snap_ok lt h z es" and f: "frame tok A h h'" and o: "token_open h tok"
  shows "snap_ok lt h' z es"
proof -
  obtain T where T: "holds lt h (sroot z) es T" "ssize z = length es" "\<forall>a \<in> set_btree T. closed h a"
    using z by (auto simp: snap_ok_def)
  have "holds lt h' (sroot z) es T"
    by (rule holds_frame [OF T(1) f]) (use T(3) o in \<open>auto simp: closed_def\<close>)
  moreover have "\<forall>a \<in> set_btree T. closed h' a"
    using T(3) holds_bound [OF T(1)] frame_edit [OF f] frame_tokens [OF f] by (simp add: closed_def)
  ultimately show ?thesis using T(2) by (auto simp: snap_ok_def)
qed

lemma map_ok_frame:
  assumes m: "map_ok lt h m es" and f: "frame tok A h h'" and o: "token_open h tok"
    and other: "own_edit m \<noteq> Some tok"
  shows "map_ok lt h' m es"
proof -
  obtain T where T: "holds lt h (root m) es T" "msize m = length es" "\<not> failed m"
    "\<forall>a \<in> set_btree T. closed h a \<or> own_edit m = Some (edit (nodes h ! a))"
    using m by (auto simp: map_ok_def)
  have "holds lt h' (root m) es T"
    by (rule holds_frame [OF T(1) f]) (use T(4) o other in \<open>auto simp: closed_def\<close>)
  moreover have "\<forall>a \<in> set_btree T. closed h' a \<or> own_edit m = Some (edit (nodes h' ! a))"
    using T(4) holds_bound [OF T(1)] frame_edit [OF f] frame_tokens [OF f] by (simp add: closed_def)
  ultimately show ?thesis using T(2,3) by (auto simp: map_ok_def)
qed

text \<open>Changing only tokens or the allocator's room.\<close>

lemma holds_nodes: "nodes h' = nodes h \<Longrightarrow> holds lt h' p es T = holds lt h p es T"
  by (simp add: holds_def)

lemma ok_nodes:
  assumes "nodes h' = nodes h" "\<And>a. a < length (nodes h) \<Longrightarrow> closed h a \<Longrightarrow> closed h' a"
  shows "snap_ok lt h z es \<Longrightarrow> snap_ok lt h' z es" and "map_ok lt h m es \<Longrightarrow> map_ok lt h' m es"
proof -
  assume "snap_ok lt h z es"
  then obtain T where T: "holds lt h (sroot z) es T" "ssize z = length es" "\<forall>a \<in> set_btree T. closed h a"
    by (auto simp: snap_ok_def)
  then show "snap_ok lt h' z es"
    using assms(2) holds_bound [OF T(1)] holds_nodes [OF assms(1)] unfolding snap_ok_def by metis
next
  assume "map_ok lt h m es"
  then obtain T where T: "holds lt h (root m) es T" "msize m = length es" "\<not> failed m"
    "\<forall>a \<in> set_btree T. closed h a \<or> own_edit m = Some (edit (nodes h ! a))"
    by (auto simp: map_ok_def)
  then show "map_ok lt h' m es"
    using assms holds_bound [OF T(1)] holds_nodes [OF assms(1)] unfolding map_ok_def by metis
qed

section \<open>One edit\<close>

lemma begin_edit_cases:
  "begin_edit h e = (Inr t, h1) \<Longrightarrow> e = Some t \<and> token_open h t \<and> h1 = h \<or>
     (\<forall>t'. e = Some t' \<longrightarrow> \<not> token_open h t') \<and> t = length (tokens h) \<and>
       h1 = h\<lparr>tokens := tokens h @ [True], room := room h - 1\<rparr>"
  by (cases e) (auto simp: begin_edit_def Let_def split: if_splits)

lemma tokens_okD:
  assumes "tokens_ok h ms"
  shows "a < length (nodes h) \<Longrightarrow> edit (nodes h ! a) < length (tokens h)"
    and "i < length ms \<Longrightarrow> own_edit (ms ! i) = Some t \<Longrightarrow> t < length (tokens h)"
    and "i < length ms \<Longrightarrow> j < length ms \<Longrightarrow> i \<noteq> j \<Longrightarrow> token_open h t \<Longrightarrow>
      own_edit (ms ! i) = Some t \<Longrightarrow> own_edit (ms ! j) \<noteq> Some t"
  using assms unfolding tokens_ok_def by blast+

lemma tokens_okI:
  assumes "\<And>a. a < length (nodes h) \<Longrightarrow> edit (nodes h ! a) < length (tokens h)"
    and "\<And>i t. i < length ms \<Longrightarrow> own_edit (ms ! i) = Some t \<Longrightarrow> t < length (tokens h)"
    and "\<And>i j t. i < length ms \<Longrightarrow> j < length ms \<Longrightarrow> i \<noteq> j \<Longrightarrow> token_open h t \<Longrightarrow>
      own_edit (ms ! i) = Some t \<Longrightarrow> own_edit (ms ! j) \<noteq> Some t"
  shows "tokens_ok h ms"
  using assms unfolding tokens_ok_def by blast

text \<open>The discipline depends on a map only through its token.\<close>

lemma tokens_ok_same_edit:
  assumes "tokens_ok h ms" "i < length ms" "own_edit m' = own_edit (ms ! i)"
  shows "tokens_ok h (ms[i := m'])"
proof -
  have eq: "own_edit (ms[i := m'] ! j) = own_edit (ms ! j)" for j
    using assms(2,3) by (simp add: nth_update_if)
  show ?thesis
    by (rule tokens_okI) (use tokens_okD [OF assms(1)] eq in simp_all)
qed

lemma begin_edit_ok:
  assumes tk: "tokens_ok h ms" "i < length ms" and run: "begin_edit h (own_edit (ms ! i)) = (Inr t, h1)"
  shows "nodes h1 = nodes h" "token_open h1 t" "\<And>a. a < length (nodes h) \<Longrightarrow> closed h1 a = closed h a"
    "\<And>j. j < length ms \<Longrightarrow> j \<noteq> i \<Longrightarrow> own_edit (ms ! j) \<noteq> Some t"
    "own_edit (ms ! i) = Some t \<or> (\<forall>t'. own_edit (ms ! i) = Some t' \<longrightarrow> \<not> token_open h t')"
    "own_edit m' = Some t \<Longrightarrow> tokens_ok h1 (ms[i := m'])"
proof -
  consider (old) "own_edit (ms ! i) = Some t" "token_open h t" "h1 = h"
    | (new) "\<forall>t'. own_edit (ms ! i) = Some t' \<longrightarrow> \<not> token_open h t'" "t = length (tokens h)"
        "h1 = h\<lparr>tokens := tokens h @ [True], room := room h - 1\<rparr>"
    using begin_edit_cases [OF run] by blast
  note cs = this
  show "nodes h1 = nodes h" by (cases rule: cs) auto
  show op: "token_open h1 t" by (cases rule: cs) (auto simp: token_open_def)
  have to: "token_open h1 t' = (token_open h t' \<or> t' = t)" for t'
    by (cases rule: cs) (auto simp: token_open_def nth_append)
  show cl: "closed h1 a = closed h a" if "a < length (nodes h)" for a
    using tokens_okD(1) [OF tk(1) that]
    by (cases rule: cs) (auto simp: closed_def token_open_def nth_append)
  show oth: "own_edit (ms ! j) \<noteq> Some t" if "j < length ms" "j \<noteq> i" for j
    using tokens_okD(3) [OF tk(1), of i j t] tokens_okD(2) [OF tk(1), of j t] tk(2) that
    by (cases rule: cs) auto
  show "own_edit (ms ! i) = Some t \<or> (\<forall>t'. own_edit (ms ! i) = Some t' \<longrightarrow> \<not> token_open h t')"
    by (cases rule: cs) auto
  show "tokens_ok h1 (ms[i := m'])" if m': "own_edit m' = Some t"
  proof -
    have len: "length (tokens h) \<le> length (tokens h1)" "t < length (tokens h1)"
      using op by (cases rule: cs; simp add: token_open_def)+
    have n: "nodes h1 = nodes h" by (cases rule: cs) auto
    have self: "ms[i := m'] ! i = m'" and keep: "\<And>j. j \<noteq> i \<Longrightarrow> ms[i := m'] ! j = ms ! j"
      using tk(2) by simp_all
    show ?thesis
    proof (rule tokens_okI)
      fix a assume "a < length (nodes h1)"
      then show "edit (nodes h1 ! a) < length (tokens h1)"
        using tokens_okD(1) [OF tk(1), of a] len(1) n by simp
    next
      fix j t' assume "j < length (ms[i := m'])" "own_edit (ms[i := m'] ! j) = Some t'"
      then show "t' < length (tokens h1)"
        using tokens_okD(2) [OF tk(1), of j t'] len m' self keep [of j] by (cases "j = i") auto
    next
      fix j k t' assume jk: "j < length (ms[i := m'])" "k < length (ms[i := m'])" "j \<noteq> k"
        "token_open h1 t'" "own_edit (ms[i := m'] ! j) = Some t'"
      consider "j = i" | "k = i" "j \<noteq> i" | "j \<noteq> i" "k \<noteq> i" by blast
      then show "own_edit (ms[i := m'] ! k) \<noteq> Some t'"
      proof cases
        case 1
        then show ?thesis using jk m' self keep [of k] oth [of k] by simp
      next
        case 2
        then show ?thesis using jk m' self keep [of j] oth [of j] by auto
      next
        case 3
        then have "token_open h t'" using jk to [of t'] keep [of j] oth [of j] by auto
        then show ?thesis
          using tokens_okD(3) [OF tk(1), of j k t'] jk 3 keep [of j] keep [of k] by simp
      qed
    qed
  qed
qed

text \<open>Failing to allocate a token changes nothing.\<close>

lemma begin_edit_calls: "begin_edit h e = (r, h1) \<Longrightarrow> calls h1 = calls h"
  by (auto simp: begin_edit_def Let_def split: option.splits if_splits)

lemma begin_edit_fails: "begin_edit h e = (Inl x, h1) \<Longrightarrow> x = Bad_alloc \<and> h1 = h"
  by (auto simp: begin_edit_def Let_def split: option.splits if_splits)

lemma tokens_ok_frame:
  assumes "tokens_ok h ms" "frame tok A h h'" "tok < length (tokens h)"
  shows "tokens_ok h' ms"
proof -
  have "edit (nodes h' ! a) < length (tokens h)" if "a < length (nodes h')" for a
    using tokens_okD(1) [OF assms(1), of a] assms(2,3) that unfolding frame_def by (metis not_less)
  moreover have "tokens h' = tokens h" using assms(2) by (simp add: frame_def)
  ultimately show ?thesis
    using tokens_okD [OF assms(1)] by (intro tokens_okI) (simp_all add: token_open_def)
qed

text \<open>
  What one edit of map \<open>i\<close> does to everything else, whatever its outcome: the token
  discipline, every snapshot and every other map survive.
\<close>

definition others_kept ::
  "('k \<Rightarrow> 'k \<Rightarrow> bool) \<Rightarrow> ('k, 'v) heap \<Rightarrow> nursery_map list \<Rightarrow> nat \<Rightarrow> ('k, 'v) heap \<Rightarrow> nursery_map \<Rightarrow> bool" where
  "others_kept lt h ms i h' m' \<longleftrightarrow> tokens_ok h' (ms[i := m']) \<and>
     (\<forall>z es. snap_ok lt h z es \<longrightarrow> snap_ok lt h' z es) \<and>
     (\<forall>j es. j < length ms \<longrightarrow> j \<noteq> i \<longrightarrow> map_ok lt h (ms ! j) es \<longrightarrow> map_ok lt h' (ms ! j) es)"

lemma others_kept_frame:
  assumes tk: "tokens_ok h ms" "i < length ms" and be: "begin_edit h (own_edit (ms ! i)) = (Inr t, h1)"
    and f: "frame t A h1 h2" and m': "own_edit m' = Some t"
  shows "others_kept lt h ms i h2 m'"
proof -
  note b = begin_edit_ok [OF tk be]
  have "t < length (tokens h1)" using b(2) by (simp add: token_open_def)
  then have "tokens_ok h2 (ms[i := m'])"
    using tokens_ok_frame [OF b(6) [OF m'] f] by simp
  moreover have "snap_ok lt h2 z es" if "snap_ok lt h z es" for z es
    using snap_ok_frame [OF ok_nodes(1) [OF b(1) _ that] f b(2)] b(3) by blast
  moreover have "map_ok lt h2 (ms ! j) es" if "j < length ms" "j \<noteq> i" "map_ok lt h (ms ! j) es" for j es
    using map_ok_frame [OF ok_nodes(2) [OF b(1) _ that(3)] f b(2) b(4) [OF that(1,2)]] b(3) by blast
  ultimately show ?thesis unfolding others_kept_def by blast
qed

text \<open>The edited map itself, when the edit returns.\<close>

lemma edited_map_ok:
  assumes tk: "tokens_ok h ms" "i < length ms" and be: "begin_edit h (own_edit (ms ! i)) = (Inr t, h1)"
    and T: "holds lt h (root (ms ! i)) es T"
      "\<forall>a \<in> set_btree T. closed h a \<or> own_edit (ms ! i) = Some (edit (nodes h ! a))"
    and f: "frame t (set_btree T) h1 h2" and bt: "built (set_btree T) h1 h2 p c"
    and c: "avl c" "ordered lt (entries c)"
    and m': "root m' = p" "own_edit m' = Some t" "msize m' = length (entries c)" "\<not> failed m'"
  shows "map_ok lt h2 m' (entries c)"
proof -
  note b = begin_edit_ok [OF tk be]
  obtain T' where T': "ptr T' = p" "wf_tree (nodes h2) T'" "dist T'"
    "set_btree T' \<subseteq> set_btree T \<union> fresh h1 h2" "content (nodes h2) T' = c"
    using bt by (auto simp: built_def)
  have "closed h2 a \<or> t = edit (nodes h2 ! a)" if a: "a \<in> set_btree T'" for a
  proof (cases "a \<in> set_btree T")
    case True
    then have an: "a < length (nodes h1)" using holds_bound [OF T(1)] b(1) by simp
    have "closed h1 a \<or> t = edit (nodes h1 ! a)"
      using T(2) True b(1,3,5) an by (auto simp: closed_def)
    then show ?thesis
      using frame_edit [OF f an] frame_tokens [OF f] by (simp add: closed_def)
  next
    case False
    then have "a \<in> fresh h1 h2" using a T'(4) by auto
    then show ?thesis using f by (auto simp: frame_def)
  qed
  then show ?thesis
    using T' c m' by (auto simp: map_ok_def holds_def)
qed

text \<open>The cached size follows the contents.\<close>

lemma length_split:
  assumes "weak_order lt" "ordered lt es"
  shows "length es = length (below lt k es) + length (above lt k es) + of_bool (held lt k es \<noteq> None)"
proof (cases "held lt k es")
  case None
  then have "\<forall>e \<in> set es. \<not> equiv_key lt k (fst e)"
    using weak_order.held_None_iff [OF assms(1)] by blast
  then show ?thesis
    using None weak_order.asym [OF assms(1)]
    by (induction es) (auto simp: below_def above_def held_def equiv_key_def)
next
  case (Some e)
  then have "e \<in> set es" "equiv_key lt k (fst e)"
    using weak_order.held_Some_iff [OF assms] by blast+
  then obtain xs ys where "es = xs @ e # ys" by (auto dest: split_list)
  then show ?thesis
    using weak_order.filter_mid [OF assms(1), of xs e ys k] assms(2) \<open>equiv_key lt k (fst e)\<close> by simp
qed

lemma length_put_entry:
  "weak_order lt \<Longrightarrow> ordered lt es \<Longrightarrow>
     length (put_entry lt k v es) = length es + of_bool (held lt k es = None)"
  using length_split [of lt es k] by (simp add: put_entry_def split: option.splits)

lemma length_drop_entry:
  "weak_order lt \<Longrightarrow> ordered lt es \<Longrightarrow>
     length (drop_entry lt k es) = length es - of_bool (held lt k es \<noteq> None)"
  using length_split [of lt es k] by (simp add: drop_entry_def)

text \<open>
  The effect of an insertion on the whole: an exception of the allocator or of the caller's code poisons the
  map, a result is the abstract assignment; all other owners are as before.
\<close>

lemma insert_effect:
  assumes wo: "weak_order lt" and tk: "tokens_ok h ms" "i < length ms"
    and ok: "map_ok lt h (ms ! i) es"
    and run: "insert_or_assign lt key val (h, ms ! i) = (r, (h', m'))"
  shows "others_kept lt h ms i h' m' \<and> (case r of Inl e \<Rightarrow> thrown h e \<and> failed m'
    | Inr b \<Rightarrow> map_ok lt h' m' (put_entry lt key val es) \<and> b = (held lt key es = None))"
proof -
  let ?m = "ms ! i"
  obtain T where T: "holds lt h (root ?m) es T" "msize ?m = length es" "\<not> failed ?m"
    "\<forall>a \<in> set_btree T. closed h a \<or> own_edit ?m = Some (edit (nodes h ! a))"
    using ok by (auto simp: map_ok_def)
  have ra: "require_active ?m = Inr ()" using T(3) by (simp add: require_active_def)
  obtain q h1 where be: "begin_edit h (own_edit ?m) = (q, h1)" by fastforce
  show ?thesis
  proof (cases q)
    case (Inl x)
    then have "r = Inl Bad_alloc" "h' = h" "m' = ?m\<lparr>failed := True\<rparr>"
      using run ra be begin_edit_fails by (auto simp: insert_or_assign_def)
    moreover have "tokens_ok h (ms[i := ?m\<lparr>failed := True\<rparr>])"
      by (rule tokens_ok_same_edit [OF tk]) simp
    ultimately show ?thesis by (simp add: others_kept_def)
  next
    case (Inr t)
    note be' = be [unfolded Inr]
    note b = begin_edit_ok [OF tk be']
    have T1: "ptr T = root ?m" "wf_tree (nodes h1) T" "dist T" "avl (content (nodes h1) T)"
      "entries (content (nodes h1) T) = es" "ordered lt es"
      using T(1) b(1) by (auto simp: holds_def)
    let ?c = "content (nodes h1) T"
    have depth: "depth T \<le> root_height h1 (root ?m)"
      using root_height_ptr [OF T1(2), unfolded T1(1)] ht_depth [OF T1(4)] by simp
    obtain u h2 w2 where ins: "insert_node lt t (root_height h1 (root ?m)) (root ?m) key val (h1, work ?m)
        = (u, (h2, w2))" by (metis prod.exhaust)
    note sp = refinesD [OF insert_spec [OF T1(3) depth, of t ?c lt key val, unfolded T1(1)] T1(2) refl ins]
    obtain c' i' where pure: "ins lt key val ?c = (c', i')" by fastforce
    have c': "avl c'" "entries c' = put_entry lt key val es" "i' = (held lt key es = None)"
      using ins_avl [OF T1(4) pure] weak_order.entries_ins [OF wo _ pure] T1(5,6) by auto
    show ?thesis
    proof (cases u)
      case (Inl x)
      then have "r = Inl x" "h' = h2" "m' = ?m\<lparr>own_edit := Some t, work := w2, failed := True\<rparr>" "thrown h1 x"
        using run ra be' ins sp by (auto simp: insert_or_assign_def)
      then show ?thesis
        using others_kept_frame [OF tk be' conjunct1 [OF sp]] begin_edit_calls [OF be] by (simp add: thrown_def)
    next
      case (Inr x)
      then have eqs: "r = Inr (snd x)" "h' = h2" "m' = ?m\<lparr>root := Some (fst x), own_edit := Some t,
          msize := msize ?m + of_bool (snd x), work := w2\<rparr>"
        using run ra be' ins by (auto simp: insert_or_assign_def split: prod.splits)
      have "built (set_btree T) h1 h2 (Some (fst x)) c'" "snd x = i'"
        using sp Inr pure by simp_all
      moreover have "length (entries c') = length es + of_bool i'"
        using c' length_put_entry [OF wo T1(6)] by simp
      moreover have "ordered lt (entries c')"
        using c'(2) weak_order.ordered_put [OF wo T1(6)] by simp
      ultimately have "map_ok lt h2 m' (entries c')"
        using edited_map_ok [OF tk be' T(1,4) conjunct1 [OF sp], of "Some (fst x)" c' m'] c'(1) T(2,3) eqs(3)
        by simp
      then show ?thesis
        using others_kept_frame [OF tk be' conjunct1 [OF sp], of m'] eqs c' \<open>snd x = i'\<close> by simp
    qed
  qed
qed

lemma erase_effect:
  assumes wo: "weak_order lt" and tk: "tokens_ok h ms" "i < length ms"
    and ok: "map_ok lt h (ms ! i) es"
    and run: "erase_key lt key (h, ms ! i) = (r, (h', m'))"
  shows "others_kept lt h ms i h' m' \<and> (case r of Inl e \<Rightarrow> thrown h e \<and> failed m'
    | Inr b \<Rightarrow> map_ok lt h' m' (drop_entry lt key es) \<and> b = (held lt key es \<noteq> None))"
proof -
  let ?m = "ms ! i"
  obtain T where T: "holds lt h (root ?m) es T" "msize ?m = length es" "\<not> failed ?m"
    "\<forall>a \<in> set_btree T. closed h a \<or> own_edit ?m = Some (edit (nodes h ! a))"
    using ok by (auto simp: map_ok_def)
  have ra: "require_active ?m = Inr ()" using T(3) by (simp add: require_active_def)
  obtain q h1 where be: "begin_edit h (own_edit ?m) = (q, h1)" by fastforce
  show ?thesis
  proof (cases q)
    case (Inl x)
    then have "r = Inl Bad_alloc" "h' = h" "m' = ?m\<lparr>failed := True\<rparr>"
      using run ra be begin_edit_fails by (auto simp: erase_key_def)
    moreover have "tokens_ok h (ms[i := ?m\<lparr>failed := True\<rparr>])"
      by (rule tokens_ok_same_edit [OF tk]) simp
    ultimately show ?thesis by (simp add: others_kept_def)
  next
    case (Inr t)
    note be' = be [unfolded Inr]
    note b = begin_edit_ok [OF tk be']
    have T1: "ptr T = root ?m" "wf_tree (nodes h1) T" "dist T" "avl (content (nodes h1) T)"
      "entries (content (nodes h1) T) = es" "ordered lt es"
      using T(1) b(1) by (auto simp: holds_def)
    let ?c = "content (nodes h1) T"
    have depth: "depth T \<le> root_height h1 (root ?m)"
      using root_height_ptr [OF T1(2), unfolded T1(1)] ht_depth [OF T1(4)] by simp
    obtain u h2 w2 where rem: "remove_node lt t (root_height h1 (root ?m)) (root ?m) key (h1, work ?m)
        = (u, (h2, w2))" by (metis prod.exhaust)
    note sp = refinesD [OF remove_spec [OF T1(3) depth, of t ?c lt key, unfolded T1(1)] T1(2) refl rem]
    obtain c' i' where pure: "del lt key ?c = (c', i')" by fastforce
    have c': "avl c'" "entries c' = drop_entry lt key es" "i' = (held lt key es \<noteq> None)"
      using del_avl [OF T1(4) pure] weak_order.entries_del [OF wo _ pure] T1(5,6) by auto
    show ?thesis
    proof (cases u)
      case (Inl x)
      then have "r = Inl x" "h' = h2" "m' = ?m\<lparr>own_edit := Some t, work := w2, failed := True\<rparr>" "thrown h1 x"
        using run ra be' rem sp by (auto simp: erase_key_def)
      then show ?thesis
        using others_kept_frame [OF tk be' conjunct1 [OF sp]] begin_edit_calls [OF be] by (simp add: thrown_def)
    next
      case (Inr x)
      then have eqs: "r = Inr (snd x)" "h' = h2" "m' = ?m\<lparr>root := fst x, own_edit := Some t,
          msize := msize ?m - of_bool (snd x), work := w2\<rparr>"
        using run ra be' rem by (auto simp: erase_key_def split: prod.splits)
      have "built (set_btree T) h1 h2 (fst x) c'" "snd x = i'"
        using sp Inr pure by simp_all
      moreover have "length (entries c') = length es - of_bool i'"
        using c' length_drop_entry [OF wo T1(6)] by simp
      moreover have "ordered lt (entries c')"
        using c'(2) weak_order.ordered_drop [OF wo T1(6)] by simp
      ultimately have "map_ok lt h2 m' (entries c')"
        using edited_map_ok [OF tk be' T(1,4) conjunct1 [OF sp], of "fst x" c' m'] c'(1) T(2,3) eqs(3)
        by simp
      then show ?thesis
        using others_kept_frame [OF tk be' conjunct1 [OF sp], of m'] eqs c' \<open>snd x = i'\<close> by simp
    qed
  qed
qed

section \<open>Every reachable state\<close>

lemma poisoned_edit:
  "failed m \<Longrightarrow> insert_or_assign lt key val (h, m) = (Inl (Logic_error ''failed nursery map''), (h, m))"
  "failed m \<Longrightarrow> erase_key lt key (h, m) = (Inl (Logic_error ''failed nursery map''), (h, m))"
  by (simp_all add: insert_or_assign_def erase_key_def require_active_def)

lemma others_kept_ok:
  assumes ok: "owners_ok lt s" and i: "i < length (maps s)"
    and kept: "others_kept lt (store s) (maps s) i h m" and m: "failed m \<or> (\<exists>es. map_ok lt h m es)"
  shows "owners_ok lt (s\<lparr>store := h, maps := (maps s)[i := m]\<rparr>)"
proof -
  have "failed m' \<or> (\<exists>es. map_ok lt h m' es)" if m': "m' \<in> set ((maps s)[i := m])" for m'
  proof -
    obtain j where j: "j < length (maps s)" "m' = (maps s)[i := m] ! j"
      using m' by (auto simp: in_set_conv_nth)
    show ?thesis
    proof (cases "j = i")
      case True
      then show ?thesis using j m by simp
    next
      case False
      then have eq: "m' = maps s ! j" and "m' \<in> set (maps s)" using j by auto
      then have "failed m' \<or> (\<exists>es. map_ok lt (store s) m' es)" using ok unfolding owners_ok_def by blast
      then show ?thesis using kept j(1) False eq unfolding others_kept_def by blast
    qed
  qed
  moreover have "\<exists>es. snap_ok lt h z es" if "z \<in> set (snaps s)" for z
    using ok kept that unfolding owners_ok_def others_kept_def by blast
  ultimately show ?thesis
    using kept by (simp add: owners_ok_def others_kept_def)
qed

lemma insert_kept:
  assumes wo: "weak_order lt" and ok: "owners_ok lt s" and i: "i < length (maps s)"
    and run: "insert_or_assign lt key val (store s, maps s ! i) = (r, (h, m))"
  shows "others_kept lt (store s) (maps s) i h m \<and> (failed m \<or> (\<exists>es. map_ok lt h m es))"
proof (cases "failed (maps s ! i)")
  case True
  then have "h = store s" "m = maps s ! i"
    using run poisoned_edit(1) [of "maps s ! i" lt key val "store s"] by simp_all
  then show ?thesis
    using True ok by (simp add: others_kept_def owners_ok_def)
next
  case False
  then obtain es where "map_ok lt (store s) (maps s ! i) es" "tokens_ok (store s) (maps s)"
    using ok i unfolding owners_ok_def by (meson nth_mem)
  then show ?thesis
    using insert_effect [OF wo _ i _ run, of es] by (cases r) auto
qed

lemma erase_kept:
  assumes wo: "weak_order lt" and ok: "owners_ok lt s" and i: "i < length (maps s)"
    and run: "erase_key lt key (store s, maps s ! i) = (r, (h, m))"
  shows "others_kept lt (store s) (maps s) i h m \<and> (failed m \<or> (\<exists>es. map_ok lt h m es))"
proof (cases "failed (maps s ! i)")
  case True
  then have "h = store s" "m = maps s ! i"
    using run poisoned_edit(2) [of "maps s ! i" lt key "store s"] by simp_all
  then show ?thesis
    using True ok by (simp add: others_kept_def owners_ok_def)
next
  case False
  then obtain es where "map_ok lt (store s) (maps s ! i) es" "tokens_ok (store s) (maps s)"
    using ok i unfolding owners_ok_def by (meson nth_mem)
  then show ?thesis
    using erase_effect [OF wo _ i _ run, of es] by (cases r) auto
qed

text \<open>An empty map, and a map thawed from a snapshot, have no token yet.\<close>

lemma empty_map_ok: "map_ok lt h empty_map []"
  unfolding map_ok_def by (auto simp: empty_map_def holds_def intro!: exI [of _ Tip])

lemma thaw_ok: "snap_ok lt h z es \<Longrightarrow> map_ok lt h (thaw z) es"
  by (auto simp: snap_ok_def map_ok_def thaw_def empty_map_def)

lemma tokens_ok_append:
  assumes "tokens_ok h ms" "own_edit m = None"
  shows "tokens_ok h (ms @ [m])"
proof (rule tokens_okI)
  fix i j t assume "i < length (ms @ [m])" "j < length (ms @ [m])" "i \<noteq> j" "token_open h t"
    "own_edit ((ms @ [m]) ! i) = Some t"
  then show "own_edit ((ms @ [m]) ! j) \<noteq> Some t"
    using tokens_okD(3) [OF assms(1), of i j t] assms(2)
    by (auto simp: nth_append split: if_splits)
qed (use tokens_okD [OF assms(1)] assms(2) in \<open>auto simp: nth_append split: if_splits\<close>)

text \<open>Freezing closes the map's token, so every node of the new snapshot is closed.\<close>

lemma freeze_ok:
  assumes ok: "map_ok lt h m es" and run: "freeze h m = (Inr z, h')"
  shows "snap_ok lt h' z es" "nodes h' = nodes h" "length (tokens h') = length (tokens h)"
    "\<And>t. token_open h' t \<Longrightarrow> token_open h t"
proof -
  obtain T where T: "holds lt h (root m) es T" "msize m = length es" "\<not> failed m"
    "\<forall>a \<in> set_btree T. closed h a \<or> own_edit m = Some (edit (nodes h ! a))"
    using ok by (auto simp: map_ok_def)
  have z: "z = \<lparr>sroot = root m, ssize = msize m\<rparr>"
    and h': "h' = (case own_edit m of None \<Rightarrow> h | Some t \<Rightarrow> h\<lparr>tokens := (tokens h)[t := False]\<rparr>)"
    using run T(3) by (auto simp: freeze_def require_active_def)
  show n: "nodes h' = nodes h" and "length (tokens h') = length (tokens h)"
    and to: "\<And>t. token_open h' t \<Longrightarrow> token_open h t"
    by (auto simp: h' token_open_def nth_update_if split: option.splits if_splits)
  have own: "\<not> token_open h' t" if "own_edit m = Some t" for t
    using that by (simp add: h' token_open_def nth_update_if)
  have "closed h' a" if "a \<in> set_btree T" for a
  proof (cases "closed h a")
    case True
    then show ?thesis using to n by (auto simp: closed_def)
  next
    case False
    then have "own_edit m = Some (edit (nodes h ! a))" using T(4) that by blast
    then show ?thesis using own n by (simp add: closed_def)
  qed
  then show "snap_ok lt h' z es"
    using T(1,2) holds_nodes [OF n] unfolding snap_ok_def z by auto
qed

lemma freeze_kept:
  assumes "nodes h' = nodes h" "length (tokens h') = length (tokens h)" "\<And>t. token_open h' t \<Longrightarrow> token_open h t"
  shows "tokens_ok h ms \<Longrightarrow> tokens_ok h' ms" "snap_ok lt h z es \<Longrightarrow> snap_ok lt h' z es"
    "map_ok lt h m es \<Longrightarrow> map_ok lt h' m es"
proof -
  show "tokens_ok h ms \<Longrightarrow> tokens_ok h' ms"
    using tokens_okD [of h ms] assms by (intro tokens_okI) simp_all
  have "\<And>a. closed h a \<Longrightarrow> closed h' a"
    using assms(1,3) by (auto simp: closed_def)
  then show "snap_ok lt h z es \<Longrightarrow> snap_ok lt h' z es" "map_ok lt h m es \<Longrightarrow> map_ok lt h' m es"
    using ok_nodes [OF assms(1)] by blast+
qed

lemma move_tokens_ok:
  assumes "tokens_ok h ms" "i < length ms"
  shows "tokens_ok h (ms[i := empty_map] @ [ms ! i])"
proof (rule tokens_okI)
  have e: "own_edit empty_map = None" by (simp add: empty_map_def)
  let ?ns = "ms[i := empty_map] @ [ms ! i]"
  have at: "j < length ?ns \<Longrightarrow> own_edit (?ns ! j) = Some t \<Longrightarrow>
      (\<exists>k < length ms. own_edit (ms ! k) = Some t \<and> (if j = length ms then k = i else k = j \<and> k \<noteq> i))" for j t
    using assms(2) e by (auto simp: nth_append nth_update_if split: if_splits)
  show "\<And>a. a < length (nodes h) \<Longrightarrow> edit (nodes h ! a) < length (tokens h)"
    using tokens_okD(1) [OF assms(1)] .
  show "\<And>j t. j < length ?ns \<Longrightarrow> own_edit (?ns ! j) = Some t \<Longrightarrow> t < length (tokens h)"
    using at tokens_okD(2) [OF assms(1)] by blast
  show "\<And>j k t. j < length ?ns \<Longrightarrow> k < length ?ns \<Longrightarrow> j \<noteq> k \<Longrightarrow> token_open h t \<Longrightarrow>
      own_edit (?ns ! j) = Some t \<Longrightarrow> own_edit (?ns ! k) \<noteq> Some t"
    using at tokens_okD(3) [OF assms(1)] by (metis (no_types, lifting))
qed

lemma owner_step_ok:
  assumes wo: "weak_order lt" and step: "owner_step lt s s'" and ok: "owners_ok lt s"
  shows "owners_ok lt s'"
  using step
proof cases
  case create
  then show ?thesis
    using ok tokens_ok_append [of "store s" "maps s" empty_map] empty_map_ok
    unfolding owners_ok_def by (auto simp: empty_map_def)
next
  case (insert i key val r h m)
  then show ?thesis
    using others_kept_ok [OF ok insert(2)] insert_kept [OF wo ok insert(2,3)] by blast
next
  case (erase i key r h m)
  then show ?thesis
    using others_kept_ok [OF ok erase(2)] erase_kept [OF wo ok erase(2,3)] by blast
next
  case (freeze i z h)
  have "\<not> failed (maps s ! i)"
    using freeze(3) by (auto simp: freeze_def require_active_def split: if_splits)
  then obtain es where es: "map_ok lt (store s) (maps s ! i) es"
    using ok freeze(2) unfolding owners_ok_def by (meson nth_mem)
  note fz = freeze_ok [OF es freeze(3)]
  note kept = freeze_kept [OF fz(2-4)]
  have "failed m \<or> (\<exists>es. map_ok lt h m es)" if "m \<in> set (maps s)" for m
    using ok that kept(3) unfolding owners_ok_def by blast
  moreover have "\<exists>es. snap_ok lt h y es" if "y \<in> set (snaps s @ [z])" for y
  proof (cases "y = z")
    case True
    then show ?thesis using fz(1) by blast
  next
    case False
    then show ?thesis using ok that kept(2) unfolding owners_ok_def by auto blast
  qed
  moreover have "tokens_ok h (maps s)"
    using ok kept(1) unfolding owners_ok_def by blast
  ultimately show ?thesis
    using freeze(1) unfolding owners_ok_def by simp
next
  case (thaw j)
  obtain es where "snap_ok lt (store s) (snaps s ! j) es"
    using ok thaw(2) unfolding owners_ok_def by (meson nth_mem)
  then have new: "map_ok lt (store s) (thaw (snaps s ! j)) es" by (rule thaw_ok)
  have "own_edit (thaw (snaps s ! j)) = None" by (simp add: thaw_def empty_map_def)
  then have "tokens_ok (store s) (maps s @ [thaw (snaps s ! j)])"
    using ok unfolding owners_ok_def by (intro tokens_ok_append) auto
  then show ?thesis
    using ok thaw(1) new unfolding owners_ok_def by auto
next
  case (move i m m')
  then have eq: "m = maps s ! i" "m' = empty_map" by (simp_all add: move_map_def)
  have "failed x \<or> (\<exists>es. map_ok lt (store s) x es)" if x: "x \<in> set ((maps s)[i := m'] @ [m])" for x
  proof -
    have "x \<in> set (maps s) \<or> x = empty_map"
      using x eq move(2) set_update_subset_insert [of "maps s" i m'] by auto
    then show ?thesis
      using ok empty_map_ok [of lt "store s"] unfolding owners_ok_def by blast
  qed
  then show ?thesis
    using ok move(1) eq move_tokens_ok [OF _ move(2), of "store s"] unfolding owners_ok_def by simp
next
  case (refill cs n)
  have to: "token_open ((store s)\<lparr>room := n, calls := cs\<rparr>) t = token_open (store s) t" for t
    by (simp add: token_open_def)
  have kept: "snap_ok lt (store s) z es \<Longrightarrow> snap_ok lt ((store s)\<lparr>room := n, calls := cs\<rparr>) z es"
    "map_ok lt (store s) m es \<Longrightarrow> map_ok lt ((store s)\<lparr>room := n, calls := cs\<rparr>) m es"
    "tokens_ok (store s) ms \<Longrightarrow> tokens_ok ((store s)\<lparr>room := n, calls := cs\<rparr>) ms" for z m es ms
    by (rule freeze_kept [of _ "store s"]; simp add: to)+
  then have "\<And>z. \<exists>es. snap_ok lt (store s) z es \<Longrightarrow> \<exists>es. snap_ok lt ((store s)\<lparr>room := n, calls := cs\<rparr>) z es"
    "\<And>m. failed m \<or> (\<exists>es. map_ok lt (store s) m es) \<Longrightarrow>
       failed m \<or> (\<exists>es. map_ok lt ((store s)\<lparr>room := n, calls := cs\<rparr>) m es)"
    by blast+
  then show ?thesis
    using ok refill kept(3) unfolding owners_ok_def by simp
qed

lemma owners0_ok: "owners_ok lt (owners0 n)"
  by (auto simp: owners_ok_def owners0_def intro: tokens_okI)

lemma reachable_ok: "owners_reachable lt s \<Longrightarrow> weak_order lt \<Longrightarrow> owners_ok lt s"
  by (induction rule: owners_reachable.induct) (auto intro: owner_step_ok owners0_ok)

end
