(* ===== verification/Nursery.thy ===== *)
theory Nursery
  imports NurseryOwners
begin

text \<open>
  The public laws of the nursery map, over every state that any sequence of operations on any
  number of maps and snapshots can reach: the abstract map semantics of assignment and
  removal, the isolation of snapshots and of independent maps, what an error leaves behind,
  the order of the listing and the balance bound on the depth of a search.
\<close>

section \<open>From the invariant to the public operations\<close>

lemma map_ok_listed:
  assumes wo: "weak_order lt" and r: "owners_reachable lt s" and i: "i < length (maps s)"
    and l: "map_list (store s) (maps s ! i) = Inr es"
  shows "tokens_ok (store s) (maps s)" "map_ok lt (store s) (maps s ! i) es"
proof -
  have ok: "owners_ok lt s" by (rule reachable_ok [OF r wo])
  then show "tokens_ok (store s) (maps s)" by (simp add: owners_ok_def)
  have "\<not> failed (maps s ! i)" using l by (auto simp: map_list_def require_active_def)
  then obtain fs where "map_ok lt (store s) (maps s ! i) fs"
    using ok i unfolding owners_ok_def by (meson nth_mem)
  moreover from map_ok_reads(2) [OF wo this] have "fs = es" using l by simp
  ultimately show "map_ok lt (store s) (maps s ! i) es" by simp
qed

lemma map_ok_ordered: "map_ok lt h m es \<Longrightarrow> ordered lt es"
  and snap_ok_ordered: "snap_ok lt h z es \<Longrightarrow> ordered lt es"
  by (auto simp: map_ok_def snap_ok_def holds_def)

lemma map_find_after:
  assumes wo: "weak_order lt" and "map_ok lt h m es" and upd: "\<And>k. held lt k fs = f k (held lt k es)"
    and "map_ok lt h' m' fs"
  shows "map_find lt [] h' m' k = Inr (map_option snd (f k (held lt k es)))"
  using map_ok_finds [OF wo assms(4)] upd by simp

lemma edit_step_keeps_snap:
  assumes wo: "weak_order lt" and ok: "owners_ok lt s" and st: "owner_step lt s s'"
    and z: "snap_ok lt (store s) z es"
  shows "snap_ok lt (store s') z es"
  using st
proof cases
  case (insert i key val r h m)
  then show ?thesis using insert_kept [OF wo ok insert(2,3)] z by (auto simp: others_kept_def)
next
  case (erase i key r h m)
  then show ?thesis using erase_kept [OF wo ok erase(2,3)] z by (auto simp: others_kept_def)
next
  case (freeze i y h)
  then have "\<not> failed (maps s ! i)" by (auto simp: freeze_def require_active_def split: if_splits)
  then obtain es where "map_ok lt (store s) (maps s ! i) es"
    using ok freeze(2) unfolding owners_ok_def by (meson nth_mem)
  from freeze_ok [OF this freeze(3)] show ?thesis
    using freeze_kept(2) [OF _ _ _ z] freeze(1) by simp
next
  case (refill cs n)
  have "snap_ok lt ((store s)\<lparr>room := n, calls := cs\<rparr>) z es"
    by (rule freeze_kept(2) [OF _ _ _ z]) (simp_all add: token_open_def)
  then show ?thesis using refill by simp
qed (use z in simp_all)

lemma snap_ok_run:
  assumes wo: "weak_order lt" and r: "owners_reachable lt s" and run: "(owner_step lt)\<^sup>*\<^sup>* s s'"
    and z: "snap_ok lt (store s) z es"
  shows "owners_reachable lt s' \<and> snap_ok lt (store s') z es"
  using run
proof induction
  case base
  then show ?case using r z by simp
next
  case (step y y')
  then show ?case
    using edit_step_keeps_snap [OF wo reachable_ok [OF _ wo]] owners_reachable.step by blast
qed

section \<open>A concrete run\<close>

text \<open>Facts that build reachable states step by step; the witnesses below use them.\<close>

lemma reach_create: "owners_reachable lt s \<Longrightarrow> owners_reachable lt (s\<lparr>maps := maps s @ [empty_map]\<rparr>)"
  by (rule owners_reachable.step [OF _ owner_step.create])

lemma reach_insert:
  "owners_reachable lt s \<Longrightarrow> i < length (maps s) \<Longrightarrow>
     insert_or_assign lt key val (store s, maps s ! i) = (r, (h, m)) \<Longrightarrow>
     owners_reachable lt (s\<lparr>store := h, maps := (maps s)[i := m]\<rparr>)"
  by (rule owners_reachable.step [OF _ owner_step.insert])

lemma reach_freeze:
  "owners_reachable lt s \<Longrightarrow> i < length (maps s) \<Longrightarrow> freeze (store s) (maps s ! i) = (Inr z, h) \<Longrightarrow>
     owners_reachable lt (s\<lparr>store := h, snaps := snaps s @ [z]\<rparr>)"
  by (rule owners_reachable.step [OF _ owner_step.freeze])

definition assign_all ::
  "('k \<Rightarrow> 'k \<Rightarrow> bool) \<Rightarrow> ('k \<times> 'v) list \<Rightarrow> ('k, 'v) owners \<Rightarrow> ('k, 'v) owners" where
  "assign_all lt = fold (\<lambda>(k, v) s. case insert_or_assign lt k v (store s, maps s ! 0) of
     (r, (h, m)) \<Rightarrow> s\<lparr>store := h, maps := (maps s)[0 := m]\<rparr>)"

lemma steps_assign_all: "0 < length (maps s) \<Longrightarrow> (owner_step lt)\<^sup>*\<^sup>* s (assign_all lt es s)"
proof (induction es arbitrary: s)
  case Nil
  then show ?case by (simp add: assign_all_def)
next
  case (Cons e es)
  obtain k v where e: "e = (k, v)" by fastforce
  obtain r h m where eq: "insert_or_assign lt k v (store s, maps s ! 0) = (r, (h, m))"
    by (metis prod.exhaust)
  have "owner_step lt s (s\<lparr>store := h, maps := (maps s)[0 := m]\<rparr>)"
    by (rule owner_step.insert [OF Cons.prems eq])
  then show ?case
    using Cons.IH [of "s\<lparr>store := h, maps := (maps s)[0 := m]\<rparr>"] Cons.prems eq
    by (simp add: assign_all_def e converse_rtranclp_into_rtranclp)
qed

lemma length_assign_all [simp]: "length (maps (assign_all lt es s)) = length (maps s)"
  by (induction es arbitrary: s) (auto simp: assign_all_def split: prod.splits)

lemma reach_run: "owners_reachable lt s \<Longrightarrow> (owner_step lt)\<^sup>*\<^sup>* s s' \<Longrightarrow> owners_reachable lt s'"
  by (rotate_tac, induction rule: rtranclp_induct) (auto intro: owners_reachable.step)

definition demo :: "(nat, nat) owners" where
  "demo = (let s = assign_all (<) [(5, 50), (3, 30)] ((owners0 100)\<lparr>maps := [empty_map]\<rparr>)
     in case freeze (store s) (maps s ! 0) of
       (Inr z, h) \<Rightarrow> s\<lparr>store := h, snaps := [z]\<rparr> | _ \<Rightarrow> s)"

lemma weak_order_nat: "weak_order ((<) :: nat \<Rightarrow> nat \<Rightarrow> bool)"
  by unfold_locales auto

lemma demo_reachable: "owners_reachable (<) demo"
proof -
  let ?s = "assign_all (<) [(5, 50), (3, 30)] ((owners0 100)\<lparr>maps := [empty_map]\<rparr>) :: (nat, nat) owners"
  have "owners_reachable (<) ((owners0 100)\<lparr>maps := [empty_map]\<rparr> :: (nat, nat) owners)"
    using reach_create [OF owners_reachable.start, of "(<)" 100] by (simp add: owners0_def)
  then have s: "owners_reachable (<) ?s" "0 < length (maps ?s)"
    using reach_run [OF _ steps_assign_all [of "(owners0 100)\<lparr>maps := [empty_map]\<rparr>" "(<)" "[(5 :: nat, 50 :: nat), (3, 30)]"]]
    by simp_all
  have "\<not> failed (maps ?s ! 0)" "snaps ?s = []" by code_simp+
  then obtain z h where "freeze (store ?s) (maps ?s ! 0) = (Inr z, h)" "snaps ?s = []"
    by (simp add: freeze_def require_active_def)
  then show ?thesis
    using reach_freeze [OF s, of z h] by (simp add: demo_def Let_def)
qed

text \<open>An edit in general: a removal, or an assignment of a new value.\<close>

definition edit_of ::
  "('k \<Rightarrow> 'k \<Rightarrow> bool) \<Rightarrow> 'k \<Rightarrow> 'v option \<Rightarrow> ('k, 'v) heap \<times> nursery_map \<Rightarrow>
   bool res \<times> ('k, 'v) heap \<times> nursery_map" where
  "edit_of lt key new = (case new of None \<Rightarrow> erase_key lt key | Some val \<Rightarrow> insert_or_assign lt key val)"

lemma edit_of_effect:
  assumes "weak_order lt" "tokens_ok h ms" "i < length ms" "map_ok lt h (ms ! i) es"
    "edit_of lt key new (h, ms ! i) = (r, (h', m'))"
  shows "others_kept lt h ms i h' m' \<and> (case r of Inl e \<Rightarrow> thrown h e \<and> failed m' | Inr _ \<Rightarrow> \<not> failed m')"
proof (cases new)
  case None
  then have "erase_key lt key (h, ms ! i) = (r, (h', m'))" using assms(5) by (simp add: edit_of_def)
  from erase_effect [OF assms(1-4) this] show ?thesis by (cases r) (auto simp: map_ok_def)
next
  case (Some v)
  then have "insert_or_assign lt key v (h, ms ! i) = (r, (h', m'))" using assms(5) by (simp add: edit_of_def)
  from insert_effect [OF assms(1-4) this] show ?thesis by (cases r) (auto simp: map_ok_def)
qed

lemma edit_of_poisoned:
  "failed m \<Longrightarrow> edit_of lt key new (h, m) = (Inl (Logic_error ''failed nursery map''), (h, m))"
  by (cases new) (simp_all add: edit_of_def poisoned_edit)

section \<open>Properties\<close>

text \<open>
  C7. A snapshot never changes. Whatever edits, freezes, thaws, moves, allocation failures and
  exceptions of the caller's comparators, keys and values run after it was taken, on any map
  including the one it was frozen from, every lookup in it and its ordered listing return what
  they returned when it was taken. While the comparator returns, none of these reads fails: no
  dangling node is read and the recursion always ends; when a call of it throws, a lookup gives
  the same answer or passes that exception on, and nothing else.
\<close>

theorem snapshot_isolation:
  assumes "weak_order lt" "owners_reachable lt s" "z \<in> set (snaps s)" "(owner_step lt)\<^sup>*\<^sup>* s s'"
  shows "snapshot_find lt [] (store s') z k = snapshot_find lt [] (store s) z k \<and>
    snapshot_list (store s') z = snapshot_list (store s) z \<and>
    (\<exists>es v. snapshot_list (store s) z = Inr es \<and> length es = ssize z \<and>
      snapshot_find lt [] (store s) z k = Inr v \<and> answers cs (snapshot_find lt cs (store s') z k) v)"
proof -
  obtain es where es: "snap_ok lt (store s) z es"
    using reachable_ok [OF assms(2,1)] assms(3) unfolding owners_ok_def by blast
  then have es': "snap_ok lt (store s') z es"
    using snap_ok_run [OF assms(1,2,4)] by blast
  have "length es = ssize z" using es by (auto simp: snap_ok_def)
  then show ?thesis
    using snap_ok_finds [OF assms(1) es] snap_ok_reads [OF assms(1) es] snap_ok_finds [OF assms(1) es']
      snap_ok_reads [OF assms(1) es'] by simp
qed

lemma snapshot_isolation_witness:
  "snapshot_list (store (assign_all (<) [(3, 31), (4, 40)] demo)) (snaps demo ! 0) = Inr [(3, 30), (5, 50)]"
proof -
  have len: "0 < length (maps demo)" "snaps demo ! 0 \<in> set (snaps demo)"
    "snapshot_list (store demo) (snaps demo ! 0) = Inr [(3, 30), (5, 50)]" by code_simp+
  have "(owner_step (<))\<^sup>*\<^sup>* demo (assign_all (<) [(3, 31), (4, 40)] demo)"
    by (rule steps_assign_all [OF len(1)])
  then show ?thesis
    using snapshot_isolation [OF weak_order_nat demo_reachable len(2)] len(3) by simp
qed

text \<open>
  C9. Assignment is the assignment of a finite map: afterwards the key, and every key
  equivalent to it under the comparator, reads the new value and every other key reads what
  it read before; the call reports whether the key was absent, the size grows by one exactly
  then, and the listing is the old one with the binding put in its place, where an existing
  key keeps its stored representative. The lookups are those of a comparator that returns.
\<close>

theorem insert_semantics:
  assumes "weak_order lt" "owners_reachable lt s" "i < length (maps s)"
    and "map_list (store s) (maps s ! i) = Inr es"
    and "insert_or_assign lt key val (store s, maps s ! i) = (Inr inserted, (h, m))"
  shows "map_find lt [] h m k =
      (if equiv_key lt k key then Inr (Some val) else map_find lt [] (store s) (maps s ! i) k) \<and>
    inserted = (map_find lt [] (store s) (maps s ! i) key = Inr None) \<and>
    map_size m = Inr (length es + of_bool inserted) \<and>
    map_list h m = Inr (put_entry lt key val es)"
proof -
  note ok = map_ok_listed [OF assms(1-4)]
  have eff: "map_ok lt h m (put_entry lt key val es)" "inserted = (held lt key es = None)"
    using insert_effect [OF assms(1) ok(1) assms(3) ok(2) assms(5)] by simp_all
  have o: "ordered lt es" by (rule map_ok_ordered [OF ok(2)])
  show ?thesis
    using map_ok_finds [OF assms(1) eff(1)] map_ok_reads(2,3) [OF assms(1) eff(1)] map_ok_finds [OF assms(1) ok(2)] eff(2)
      weak_order.held_put [OF assms(1) o] length_put_entry [OF assms(1) o] by auto
qed

lemma insert_semantics_witness:
  "\<exists>h m. insert_or_assign (<) 4 40 (store demo, maps demo ! 0) = (Inr True, (h, m)) \<and>
     map_list h m = Inr [(3, 30), (4, 40), (5, 50)] \<and> map_find (<) [] h m 4 = Inr (Some 40)"
proof -
  have d: "0 < length (maps demo)" "map_list (store demo) (maps demo ! 0) = Inr [(3, 30), (5, 50)]"
    "fst (insert_or_assign (<) 4 40 (store demo, maps demo ! 0)) = Inr True"
    "put_entry (<) 4 40 [(3 :: nat, 30), (5, 50)] = [(3, 30), (4, 40), (5, 50 :: nat)]" by code_simp+
  then obtain h m where run: "insert_or_assign (<) 4 40 (store demo, maps demo ! 0) = (Inr True, (h, m))"
    by (metis prod.exhaust fst_conv)
  from insert_semantics [OF weak_order_nat demo_reachable d(1,2) run, of 4] show ?thesis
    using run d(4) by (simp add: equiv_key_def)
qed

text \<open>
  C11. Removal is the removal of a finite map: afterwards every key equivalent to the removed
  one is absent and every other key reads what it read before; the call reports whether the
  key was present, the size shrinks by one exactly then, and the listing is the old one
  without the binding. The lookups are those of a comparator that returns.
\<close>

theorem erase_semantics:
  assumes "weak_order lt" "owners_reachable lt s" "i < length (maps s)"
    and "map_list (store s) (maps s ! i) = Inr es"
    and "erase_key lt key (store s, maps s ! i) = (Inr erased, (h, m))"
  shows "map_find lt [] h m k =
      (if equiv_key lt k key then Inr None else map_find lt [] (store s) (maps s ! i) k) \<and>
    erased = (map_find lt [] (store s) (maps s ! i) key \<noteq> Inr None) \<and>
    map_size m = Inr (length es - of_bool erased) \<and>
    map_list h m = Inr (drop_entry lt key es)"
proof -
  note ok = map_ok_listed [OF assms(1-4)]
  have eff: "map_ok lt h m (drop_entry lt key es)" "erased = (held lt key es \<noteq> None)"
    using erase_effect [OF assms(1) ok(1) assms(3) ok(2) assms(5)] by simp_all
  have o: "ordered lt es" by (rule map_ok_ordered [OF ok(2)])
  show ?thesis
    using map_ok_finds [OF assms(1) eff(1)] map_ok_reads(2,3) [OF assms(1) eff(1)] map_ok_finds [OF assms(1) ok(2)] eff(2)
      weak_order.held_drop [OF assms(1) o] length_drop_entry [OF assms(1) o] by auto
qed

lemma erase_semantics_witness:
  "\<exists>h m. erase_key (<) 3 (store demo, maps demo ! 0) = (Inr True, (h, m)) \<and>
     map_list h m = Inr [(5, 50)] \<and> map_find (<) [] h m 3 = Inr None"
proof -
  have d: "0 < length (maps demo)" "map_list (store demo) (maps demo ! 0) = Inr [(3, 30), (5, 50)]"
    "fst (erase_key (<) 3 (store demo, maps demo ! 0)) = Inr True"
    "drop_entry (<) 3 [(3 :: nat, 30), (5, 50)] = [(5, 50 :: nat)]" by code_simp+
  then obtain h m where run: "erase_key (<) 3 (store demo, maps demo ! 0) = (Inr True, (h, m))"
    by (metis prod.exhaust fst_conv)
  from erase_semantics [OF weak_order_nat demo_reachable d(1,2) run, of 3] show ?thesis
    using run d(4) by (simp add: equiv_key_def)
qed

text \<open>
  C12. Errors. An assignment or a removal of a usable map fails only with an exhausted allocator
  or with an exception that a call of the caller's code threw: of the comparator, on the way
  down, or of the construction of a key or value in the new binding. Every such failure poisons
  the map, which from then on refuses every lookup and listing before any comparison; an edit of
  a map that was already poisoned leaves it exactly as it is, together with the whole heap. An
  edit of one map, failed or not, is invisible to every other map.
\<close>

theorem edit_errors:
  assumes wo: "weak_order lt" and r: "owners_reachable lt s" and i: "i < length (maps s)"
    and run: "edit_of lt key new (store s, maps s ! i) = (r, (h, m))"
  shows "(case r of Inr b \<Rightarrow> \<not> failed (maps s ! i) \<and> \<not> failed m
      | Inl e \<Rightarrow> failed m \<and> map_find lt cs h m k = Inl (Logic_error ''failed nursery map'') \<and>
          map_list h m = Inl (Logic_error ''failed nursery map'') \<and>
          (if failed (maps s ! i) then e = Logic_error ''failed nursery map'' \<and> (h, m) = (store s, maps s ! i)
           else e = Bad_alloc \<or> (\<exists>x. e = User_exception x \<and> Some x \<in> set (calls (store s))))) \<and>
    (\<forall>j < length (maps s). j \<noteq> i \<longrightarrow>
      map_find lt [] h (maps s ! j) k = map_find lt [] (store s) (maps s ! j) k \<and>
      map_list h (maps s ! j) = map_list (store s) (maps s ! j))"
proof (cases "failed (maps s ! i)")
  case True
  then show ?thesis
    using run edit_of_poisoned [OF True, of lt key new "store s"]
    by (auto simp: map_find_def map_list_def require_active_def)
next
  case False
  have ok: "owners_ok lt s" by (rule reachable_ok [OF r wo])
  then have tk: "tokens_ok (store s) (maps s)" by (simp add: owners_ok_def)
  obtain es where "map_ok lt (store s) (maps s ! i) es"
    using ok i False unfolding owners_ok_def by (meson nth_mem)
  note eff = edit_of_effect [OF wo tk i this run]
  have "map_find lt [] h (maps s ! j) k = map_find lt [] (store s) (maps s ! j) k \<and>
      map_list h (maps s ! j) = map_list (store s) (maps s ! j)" if j: "j < length (maps s)" "j \<noteq> i" for j
  proof (cases "failed (maps s ! j)")
    case True
    then show ?thesis by (simp add: map_find_def map_list_def require_active_def)
  next
    case False
    then obtain fs where "map_ok lt (store s) (maps s ! j) fs"
      using ok j unfolding owners_ok_def by (meson nth_mem)
    moreover then have "map_ok lt h (maps s ! j) fs"
      using eff j by (auto simp: others_kept_def)
    ultimately show ?thesis using map_ok_finds [OF wo] map_ok_reads(2) [OF wo] by metis
  qed
  then show ?thesis
    using eff False by (cases r) (auto simp: map_find_def map_list_def require_active_def thrown_def)
qed

text \<open>
  Two failures, both of an assignment of the absent key 9 to the map with the keys 3 and 5: the
  second allocation is refused, or the second comparison on the way down throws.
\<close>

lemma edit_errors_witness:
  "(\<exists>h m. edit_of (<) 9 (Some 90) ((store demo)\<lparr>room := 1, calls := []\<rparr>, maps demo ! 0) = (Inl Bad_alloc, (h, m)) \<and>
     map_find (<) [] h m 3 = Inl (Logic_error ''failed nursery map'')) \<and>
   (\<exists>h m. edit_of (<) 9 (Some 90) ((store demo)\<lparr>room := 9, calls := [None, Some ''compare'']\<rparr>, maps demo ! 0) =
       (Inl (User_exception ''compare''), (h, m)) \<and>
     map_find (<) [] h m 3 = Inl (Logic_error ''failed nursery map''))"
proof -
  have fail: "\<exists>h m. edit_of (<) 9 (Some 90) ((store demo)\<lparr>room := n, calls := cs\<rparr>, maps demo ! 0) = (Inl e, (h, m)) \<and>
      map_find (<) [] h m 3 = Inl (Logic_error ''failed nursery map'')"
    if e: "fst (edit_of (<) 9 (Some 90) ((store demo)\<lparr>room := n, calls := cs\<rparr>, maps demo ! 0)) = Inl e" for n cs e
  proof -
    let ?s = "demo\<lparr>store := (store demo)\<lparr>room := n, calls := cs\<rparr>\<rparr>"
    have r: "owners_reachable (<) ?s"
      by (rule owners_reachable.step [OF demo_reachable owner_step.refill])
    have "length (maps demo) = 1" by code_simp
    then have d: "0 < length (maps ?s)" by simp
    let ?R = "edit_of (<) 9 (Some 90) ((store demo)\<lparr>room := n, calls := cs\<rparr>, maps demo ! 0)"
    obtain h m where R: "?R = (Inl e, (h, m))" using e by (cases ?R) auto
    then have run: "edit_of (<) 9 (Some 90) (store ?s, maps ?s ! 0) = (Inl e, (h, m))" by simp
    from edit_errors [OF weak_order_nat r d run, of "[]" 3]
    have "map_find (<) [] h m 3 = Inl (Logic_error ''failed nursery map'')" by simp
    then show ?thesis using R by blast
  qed
  have "fst (edit_of (<) 9 (Some 90) ((store demo)\<lparr>room := 1, calls := []\<rparr>, maps demo ! 0)) = Inl Bad_alloc"
    "fst (edit_of (<) 9 (Some 90) ((store demo)\<lparr>room := 9, calls := [None, Some ''compare'']\<rparr>, maps demo ! 0)) =
       Inl (User_exception ''compare'')" by code_simp+
  then show ?thesis using fail by blast
qed

text \<open>
  C13. Shape. Every listing of a usable map is strictly increasing under the comparator, its
  length is the cached size, every lookup reads the listing's entry for the key (or passes on an
  exception of the comparator), and the tree is balanced: a search descends at most
  \<open>root_height\<close> nodes and \<open>2 ^ (root_height div 2)\<close> is at most one more than the size, so
  the depth is logarithmic whatever the history of assignments and removals.
\<close>

theorem balanced_and_ordered:
  assumes "weak_order lt" "owners_reachable lt s" "i < length (maps s)" "\<not> failed (maps s ! i)"
  shows "\<exists>es. map_list (store s) (maps s ! i) = Inr es \<and> map_size (maps s ! i) = Inr (length es) \<and>
    sorted_wrt (\<lambda>x y. lt (fst x) (fst y)) es \<and>
    (\<forall>k. map_find lt [] (store s) (maps s ! i) k =
       Inr (map_option snd (find (\<lambda>e. equiv_key lt k (fst e)) es))) \<and>
    (\<forall>k cs. answers cs (map_find lt cs (store s) (maps s ! i) k)
       (map_option snd (find (\<lambda>e. equiv_key lt k (fst e)) es))) \<and>
    2 ^ (root_height (store s) (root (maps s ! i)) div 2) \<le> length es + 1"
proof -
  obtain es where es: "map_ok lt (store s) (maps s ! i) es"
    using reachable_ok [OF assms(2,1)] assms(3,4) unfolding owners_ok_def by (meson nth_mem)
  then obtain T where T: "holds lt (store s) (root (maps s ! i)) es T"
    by (auto simp: map_ok_def)
  then have "2 ^ (root_height (store s) (root (maps s ! i)) div 2) \<le> length es + 1"
    using avl_size [of "content (nodes (store s)) T"] root_height_ptr [of "store s" T]
    by (auto simp: holds_def)
  then show ?thesis
    using map_ok_finds [OF assms(1) es] map_ok_reads [OF assms(1) es] map_ok_ordered [OF es] by (auto simp: held_def)
qed

lemma balanced_and_ordered_witness:
  "\<exists>es. map_list (store demo) (maps demo ! 0) = Inr es \<and> length es = 2 \<and> sorted_wrt (\<lambda>x y. fst x < fst y) es"
proof -
  have d: "0 < length (maps demo)" "\<not> failed (maps demo ! 0)" "map_size (maps demo ! 0) = Inr 2"
    by code_simp+
  from balanced_and_ordered [OF weak_order_nat demo_reachable d(1,2)] show ?thesis
    using d(3) by auto
qed

end
