(* ===== verification/Fingerprint.thy ===== *)
theory Fingerprint
  imports Prelude
begin

text \<open>
  Additive table fingerprints (\<open>fingerprint.h\<close>): the algebra a policy supplies, the wrapping
  reference algebra, the stable hash of the reference store, and the signature of a binding
  and of a change. The algebra's laws are a locale; the wrapping algebra provides them.
\<close>

section \<open>The algebra\<close>

record 'e fingerprint_algebra =
  zero_of :: 'e
  lift_of :: "u64 \<Rightarrow> 'e"
  add_of :: "'e \<Rightarrow> 'e \<Rightarrow> 'e"
  subtract_of :: "'e \<Rightarrow> 'e \<Rightarrow> 'e"
  multiply_of :: "'e \<Rightarrow> 'e \<Rightarrow> 'e"

definition wrapping_fingerprint_algebra :: "u64 fingerprint_algebra" where
  "wrapping_fingerprint_algebra =
     \<lparr>zero_of = 0, lift_of = (\<lambda>x. x), add_of = (+), subtract_of = (-), multiply_of = (*)\<rparr>"

text \<open>What the pinned sets rely on: a commutative group under addition.\<close>

locale additive_fingerprint =
  fixes A :: "'e fingerprint_algebra"
  assumes add_assoc: "add_of A (add_of A x y) z = add_of A x (add_of A y z)"
    and add_commute: "add_of A x y = add_of A y x"
    and add_zero: "add_of A (zero_of A) x = x"
    and subtract_add: "subtract_of A (add_of A x y) y = x"
    and add_subtract: "add_of A (subtract_of A x y) y = x"
begin

lemma add_left_commute: "add_of A x (add_of A y z) = add_of A y (add_of A x z)"
  by (metis add_assoc add_commute)

lemmas add_ac = add_assoc add_commute add_left_commute

lemma add_zero_right: "add_of A x (zero_of A) = x"
  by (metis add_commute add_zero)

lemma foldl_add: "foldl (add_of A) x ys = add_of A x (foldl (add_of A) (zero_of A) ys)"
proof (induction ys arbitrary: x)
  case Nil
  then show ?case by (simp add: add_zero_right)
next
  case (Cons y ys)
  have "foldl (add_of A) x (y # ys) = add_of A (add_of A x y) (foldl (add_of A) (zero_of A) ys)"
    by (simp only: foldl.simps Cons.IH [of "add_of A x y"])
  also have "\<dots> = add_of A x (foldl (add_of A) y ys)"
    by (simp only: Cons.IH [of y] add_assoc)
  finally show ?case by (simp add: add_zero)
qed

text \<open>The sum of a list, and its invariance under the operations a pinned set performs.\<close>

definition total :: "'e list \<Rightarrow> 'e" where
  "total xs = foldl (add_of A) (zero_of A) xs"

lemma total_simps [simp]: "total [] = zero_of A" "total (x # xs) = add_of A x (total xs)"
  using foldl_add [of x xs] by (simp_all add: total_def add_zero)

lemma total_append: "total (xs @ ys) = add_of A (total xs) (total ys)"
  by (induction xs) (simp_all add: add_zero add_assoc)

lemma total_partition:
  "total (map f xs) = add_of A (total (map f (filter P xs))) (total (map f (filter (\<lambda>x. \<not> P x) xs)))"
  by (induction xs) (auto simp: add_zero add_ac)

lemma subtract_total: "subtract_of A (add_of A x y) x = y"
  by (metis add_commute subtract_add)

end

text \<open>What signatures of bindings rely on beyond that: multiplication distributes.\<close>

locale fingerprint_ring = additive_fingerprint +
  assumes multiply_zero: "multiply_of A x (zero_of A) = zero_of A"
    and multiply_subtract:
      "multiply_of A x (subtract_of A y z) = subtract_of A (multiply_of A x y) (multiply_of A x z)"
begin

lemma step_telescopes: "add_of A (add_of A s x) (subtract_of A y x) = add_of A s y"
  by (metis add_assoc add_commute add_subtract)

end

interpretation wrapping: fingerprint_ring wrapping_fingerprint_algebra
  by unfold_locales (simp_all add: wrapping_fingerprint_algebra_def algebra_simps)

section \<open>The reference hash\<close>

definition mix :: "u64 \<Rightarrow> u64" where
  "mix x =
     (let x = x XOR drop_bit 30 x;
          x = x * 0xbf58476d1ce4e5b9;
          x = x XOR drop_bit 27 x;
          x = x * 0x94d049bb133111eb
      in x XOR drop_bit 31 x)"

definition hash_key :: "string \<Rightarrow> u64" where
  "hash_key text = mix (foldl (\<lambda>r c. (r XOR of_nat (of_char c)) * 0x100000001b3) 0xcbf29ce484222325 text)"

definition hash_value :: "u64 \<Rightarrow> u64" where
  "hash_value x = mix (x XOR 0xd6e8feb86659fd93)"

section \<open>Signatures\<close>

text \<open>The hash is a parameter of the table: a key hash and a value hash.\<close>

definition binding ::
  "'e fingerprint_algebra \<Rightarrow> ('k \<Rightarrow> u64) \<Rightarrow> ('v \<Rightarrow> u64) \<Rightarrow> 'k \<Rightarrow> 'v option \<Rightarrow> 'e" where
  "binding A hk hv key value = (case value of
     Some v \<Rightarrow> multiply_of A (lift_of A (hk key)) (lift_of A (hv v)) | None \<Rightarrow> zero_of A)"

definition delta ::
  "'e fingerprint_algebra \<Rightarrow> ('k \<Rightarrow> u64) \<Rightarrow> ('v \<Rightarrow> u64) \<Rightarrow> 'k \<Rightarrow> 'v option \<Rightarrow> 'v option \<Rightarrow> 'e" where
  "delta A hk hv key before after =
     (let old_hash = (case before of Some v \<Rightarrow> lift_of A (hv v) | None \<Rightarrow> zero_of A);
          new_hash = (case after of Some v \<Rightarrow> lift_of A (hv v) | None \<Rightarrow> zero_of A)
      in multiply_of A (lift_of A (hk key)) (subtract_of A new_hash old_hash))"

text \<open>A table edited key by key, with its signature maintained by the deltas.\<close>

fun run_updates ::
  "'e fingerprint_algebra \<Rightarrow> ('k \<Rightarrow> u64) \<Rightarrow> ('v \<Rightarrow> u64) \<Rightarrow> ('k \<rightharpoonup> 'v) \<times> 'e \<Rightarrow> ('k \<times> 'v option) list \<Rightarrow>
   ('k \<rightharpoonup> 'v) \<times> 'e" where
  "run_updates A hk hv (t, s) [] = (t, s)"
| "run_updates A hk hv (t, s) ((k, v) # us) =
     run_updates A hk hv (t(k := v), add_of A s (delta A hk hv k (t k) v)) us"

context fingerprint_ring
begin

lemma delta_bindings: "delta A hk hv k a b = subtract_of A (binding A hk hv k b) (binding A hk hv k a)"
  by (auto simp: delta_def binding_def Let_def multiply_subtract multiply_zero split: option.splits)

lemma total_bindings_update:
  assumes "distinct ks" "k \<in> set ks"
  shows "total (map (\<lambda>j. binding A hk hv j ((t(k := v)) j)) ks) =
    add_of A (total (map (\<lambda>j. binding A hk hv j (t j)) ks)) (delta A hk hv k (t k) v)"
  using assms
proof (induction ks)
  case (Cons j ks)
  let ?b = "\<lambda>j. binding A hk hv j (t j)"
  show ?case
  proof (cases "j = k")
    case True
    then have "map (\<lambda>j. binding A hk hv j ((t(k := v)) j)) ks = map ?b ks"
      using Cons.prems(1) by (intro map_cong refl) auto
    then have same: "total (map (\<lambda>j. binding A hk hv j ((t(k := v)) j)) ks) = total (map ?b ks)"
      by (rule arg_cong)
    have "add_of A (binding A hk hv k v) x =
        add_of A (add_of A (?b k) x) (subtract_of A (binding A hk hv k v) (?b k))" for x
      using step_telescopes [of x "?b k"] by (simp add: add_commute)
    from this [of "total (map ?b ks)"] show ?thesis using True same by (simp add: delta_bindings)
  next
    case False
    then show ?thesis using Cons by (simp add: add_assoc)
  qed
qed simp

lemma run_updates_total:
  assumes "distinct ks"
  shows "fst ` set us \<subseteq> set ks \<Longrightarrow>
    run_updates A hk hv (t, total (map (\<lambda>j. binding A hk hv j (t j)) ks)) us = (t', s') \<Longrightarrow>
    s' = total (map (\<lambda>j. binding A hk hv j (t' j)) ks)"
proof (induction us arbitrary: t)
  case (Cons u us)
  obtain k v where u: "u = (k, v)" by fastforce
  then have "total (map (\<lambda>j. binding A hk hv j ((t(k := v)) j)) ks) =
      add_of A (total (map (\<lambda>j. binding A hk hv j (t j)) ks)) (delta A hk hv k (t k) v)"
    using Cons.prems(1) by (intro total_bindings_update [OF assms]) simp
  then show ?case
    using Cons.IH [of "t(k := v)"] Cons.prems u by (simp del: fun_upd_apply)
qed simp

lemma run_updates_untouched: "run_updates A hk hv (t, s) us = (t', s') \<Longrightarrow> k \<notin> fst ` set us \<Longrightarrow> t' k = t k"
  by (induction us arbitrary: t s) auto

end

section \<open>The mixer is a permutation\<close>

lemma xorshift_inj:
  fixes x y :: u64
  assumes "27 \<le> n" "x XOR drop_bit n x = y XOR drop_bit n y"
  shows "x = y"
proof (rule bit_word_eqI)
  have eq: "bit x i \<noteq> bit x (n + i) \<longleftrightarrow> bit y i \<noteq> bit y (n + i)" for i
    using arg_cong [OF assms(2), of "\<lambda>w. bit w i"] by (simp add: bit_xor_iff bit_drop_bit_eq)
  have hi: "bit x i = bit y i" if "64 \<le> i" for i
    using that bit_imp_le_length [of x i] bit_imp_le_length [of y i] by auto
  have all: "64 \<le> i + k * n \<Longrightarrow> bit x i = bit y i" for i k
  proof (induction k arbitrary: i)
    case 0
    then show ?case using hi by simp
  next
    case (Suc k)
    have "bit x (n + i) = bit y (n + i)" by (rule Suc.IH) (use Suc.prems in simp)
    then show ?case using eq [of i] by auto
  qed
  fix i
  show "bit x i = bit y i" using all [of i 3] assms(1) by simp
qed

lemma mult_inj:
  fixes x y c d :: u64
  assumes "c * d = 1" "x * c = y * c"
  shows "x = y"
proof -
  have "x * (c * d) = y * (c * d)"
    using assms(2) by (simp flip: mult.assoc)
  then show ?thesis using assms(1) by simp
qed

lemma mix_injD:
  assumes "mix x = mix y"
  shows "x = y"
proof -
  let ?f = "\<lambda>x :: u64. (x XOR drop_bit 30 x) * 0xbf58476d1ce4e5b9"
  let ?g = "\<lambda>x :: u64. (x XOR drop_bit 27 x) * 0x94d049bb133111eb"
  have "?g (?f x) = ?g (?f y)"
    by (rule xorshift_inj [of 31]) (use assms in \<open>simp_all add: mix_def Let_def\<close>)
  then have "?f x XOR drop_bit 27 (?f x) = ?f y XOR drop_bit 27 (?f y)"
    by (rule mult_inj [of _ "0x319642b2d24d8ec3", rotated]) simp
  then have "?f x = ?f y"
    by (rule xorshift_inj [rotated]) simp
  then have "x XOR drop_bit 30 x = y XOR drop_bit 30 y"
    by (rule mult_inj [of _ "0x96de1b173f119089", rotated]) simp
  then show ?thesis
    by (rule xorshift_inj [rotated]) simp
qed

section \<open>Properties\<close>

text \<open>
  The value hash of the reference store is a permutation of the 64-bit words: the mixer's
  xor-shifts and odd multiplications lose nothing, so two values hash alike exactly when they
  are equal.
\<close>

theorem hash_value_injective: "hash_value x = hash_value y \<longleftrightarrow> x = y"
proof -
  have "(x XOR c) XOR c = x" for x c :: u64
    by (simp add: xor.assoc)
  then have "x XOR c = y XOR c \<longleftrightarrow> x = y" for c by metis
  then show ?thesis
    using mix_injD unfolding hash_value_def by blast
qed

lemma wrapping_simps [simp]:
  "zero_of wrapping_fingerprint_algebra = 0" "add_of wrapping_fingerprint_algebra = (+)"
  "subtract_of wrapping_fingerprint_algebra = (-)"
  by (simp_all add: wrapping_fingerprint_algebra_def)

lemma total_is_sum:
  "distinct ks \<Longrightarrow> wrapping.total (map f ks) = (\<Sum>k\<in>set ks. f k)"
  by (induction ks) simp_all

text \<open>
  Maintaining a table's signature by deltas is exact: after any sequence of assignments
  and removals on an initially empty table, the running signature is the sum, over the keys
  the table then binds, of the signatures of their bindings. It therefore depends on the
  table only, not on the history that built it.
\<close>

theorem deltas_sum_to_table:
  assumes "run_updates wrapping_fingerprint_algebra hk hv (Map.empty, 0) us = (t, s)"
  shows "s = (\<Sum>k\<in>dom t. binding wrapping_fingerprint_algebra hk hv k (t k))"
proof -
  let ?A = wrapping_fingerprint_algebra
  obtain ks where ks: "set ks = fst ` set us" "distinct ks"
    using finite_distinct_list [of "fst ` set us"] by auto
  have none: "binding ?A hk hv k None = 0" for k
    by (simp add: binding_def wrapping_fingerprint_algebra_def)
  have "wrapping.total (map (\<lambda>j. binding ?A hk hv j None) ks) = 0"
    using total_is_sum [OF ks(2), of "\<lambda>j. binding ?A hk hv j None"] none by simp
  then have "s = wrapping.total (map (\<lambda>j. binding ?A hk hv j (t j)) ks)"
    using wrapping.run_updates_total [OF ks(2), of us hk hv Map.empty t s] assms ks(1) by simp
  then have s: "s = (\<Sum>k\<in>set ks. binding ?A hk hv k (t k))"
    by (simp add: total_is_sum [OF ks(2)])
  have "dom t \<subseteq> set ks"
    using wrapping.run_updates_untouched [OF assms] ks(1) by (auto simp: dom_def)
  then show ?thesis
    unfolding s by (intro sum.mono_neutral_right) (auto simp: none dom_def)
qed

lemma deltas_sum_to_table_witness:
  "\<exists>t s. run_updates wrapping_fingerprint_algebra (\<lambda>k. k) hash_value (Map.empty, 0)
      [(1, Some 10), (2, Some 20), (1, None)] = (t, s) \<and>
     s = binding wrapping_fingerprint_algebra (\<lambda>k. k) hash_value 2 (Some 20)"
proof -
  obtain t s where r: "run_updates wrapping_fingerprint_algebra (\<lambda>k. k) hash_value (Map.empty, 0)
      [(1, Some 10), (2, Some 20), (1, None)] = (t, s)" by fastforce
  then have t: "t = (\<lambda>k. if k = 2 then Some 20 else None)" by (auto simp: fun_eq_iff)
  then have "dom t = {2}" by (auto simp: dom_def)
  then show ?thesis using deltas_sum_to_table [OF r] r t by simp
qed

end
