(* ===== verification/Pins.thy ===== *)
theory Pins
  imports Fingerprint
begin

text \<open>
  Persistent pinned sets (\<open>pins.h\<close>): an immutable collection of objects with their additive
  contributions, a cached projection to the pins and a cached signature. The laws: every
  constructor keeps the caches exact, a replacement preserves the signature, and which object
  identities each operation keeps, adds and drops.
\<close>

section \<open>State and operations\<close>

record ('t, 'e) pin_entry =
  object_id :: string
  object :: "'t option"
  contribution :: 'e
  native_signature :: "'e option"

record ('t, 'e) pin_set =
  pin_entries :: "('t, 'e) pin_entry list"
  pins :: "'t option list"
  signature :: 'e

definition empty_pins :: "'e fingerprint_algebra \<Rightarrow> ('t, 'e) pin_set" where
  "empty_pins A = \<lparr>pin_entries = [], pins = [], signature = zero_of A\<rparr>"

definition pin_find :: "('t, 'e) pin_set \<Rightarrow> string \<Rightarrow> ('t, 'e) pin_entry option" where
  "pin_find s name = find (\<lambda>e. object_id e = name) (pin_entries s)"

definition recompute_signature :: "'e fingerprint_algebra \<Rightarrow> ('t, 'e) pin_set \<Rightarrow> 'e" where
  "recompute_signature A s = foldl (\<lambda>r e. add_of A r (contribution e)) (zero_of A) (pin_entries s)"

definition validate_pin :: "('t, 'e) pin_entry \<Rightarrow> unit res" where
  "validate_pin e =
     (if object_id e = [] then Inl (Invalid_argument ''empty pinned object identity'')
      else if object e = None then Inl (Invalid_argument ''null pinned object'') else Inr ())"

definition pin_add ::
  "'e fingerprint_algebra \<Rightarrow> ('t, 'e) pin_set \<Rightarrow> ('t, 'e) pin_entry \<Rightarrow> ('t, 'e) pin_set res" where
  "pin_add A s e = bindE (validate_pin e) (\<lambda>_.
     if pin_find s (object_id e) \<noteq> None then
       Inl (Invalid_argument ''duplicate pinned object identity'')
     else Inr (s\<lparr>signature := add_of A (signature s) (contribution e),
       pins := pins s @ [object e], pin_entries := pin_entries s @ [e]\<rparr>))"

definition pin_remove ::
  "'e fingerprint_algebra \<Rightarrow> ('t, 'e) pin_set \<Rightarrow> string \<Rightarrow> ('t, 'e) pin_set res" where
  "pin_remove A s name = (case pin_find s name of
     None \<Rightarrow> Inl (Invalid_argument ''removing an unpinned object identity'')
   | Some old \<Rightarrow>
       (let kept = filter (\<lambda>e. object_id e \<noteq> name) (pin_entries s) in
        Inr \<lparr>pin_entries = kept, pins = map object kept,
             signature = subtract_of A (signature s) (contribution old)\<rparr>))"

text \<open>The loop over the expected inputs, with the inputs seen so far and their sum.\<close>

fun expect_inputs ::
  "'e fingerprint_algebra \<Rightarrow> ('t, 'e) pin_set \<Rightarrow> string list \<Rightarrow> 'e \<Rightarrow> string list \<Rightarrow>
   (string list \<times> 'e) res" where
  "expect_inputs A s inputs removed [] = Inr (inputs, removed)"
| "expect_inputs A s inputs removed (name # names) =
     (if name \<in> set inputs then Inl (Invalid_argument ''duplicate expected pinned input'')
      else case pin_find s name of
        None \<Rightarrow> Inl (Invalid_argument ''expected pinned input is absent'')
      | Some old \<Rightarrow> expect_inputs A s (inputs @ [name]) (add_of A removed (contribution old)) names)"

text \<open>The loop over the replacements, with the ones already accepted.\<close>

fun accept_replacements ::
  "'e fingerprint_algebra \<Rightarrow> ('t, 'e) pin_set \<Rightarrow> ('t, 'e) pin_entry list \<Rightarrow> 'e \<Rightarrow>
   ('t, 'e) pin_entry list \<Rightarrow> 'e res" where
  "accept_replacements A s before added [] = Inr added"
| "accept_replacements A s before added (e # es) = bindE (validate_pin e) (\<lambda>_.
     if pin_find s (object_id e) \<noteq> None then
       Inl (Invalid_argument ''replacement must name a new immutable object'')
     else if list_ex (\<lambda>b. object_id b = object_id e) before then
       Inl (Invalid_argument ''duplicate replacement object identity'')
     else accept_replacements A s (before @ [e]) (add_of A added (contribution e)) es)"

definition pin_replace ::
  "'e fingerprint_algebra \<Rightarrow> ('t, 'e) pin_set \<Rightarrow> string list \<Rightarrow> ('t, 'e) pin_entry list \<Rightarrow>
   ('t, 'e) pin_set res" where
  "pin_replace A s expected replacements =
     bindE (expect_inputs A s [] (zero_of A) expected) (\<lambda>(inputs, removed).
     bindE (accept_replacements A s [] (zero_of A) replacements) (\<lambda>added.
     if added \<noteq> removed then
       Inl (Invalid_argument ''replacement changes the pinned contribution sum'')
     else
       let kept = filter (\<lambda>e. object_id e \<notin> set inputs) (pin_entries s) in
       Inr \<lparr>pin_entries = kept @ replacements, pins = map object kept @ map object replacements,
            signature = add_of A (subtract_of A (signature s) removed) added\<rparr>))"

section \<open>The invariant\<close>

definition pin_ok :: "'e fingerprint_algebra \<Rightarrow> ('t, 'e) pin_set \<Rightarrow> bool" where
  "pin_ok A s \<longleftrightarrow> distinct (map object_id (pin_entries s)) \<and>
     (\<forall>e \<in> set (pin_entries s). object_id e \<noteq> [] \<and> object e \<noteq> None) \<and>
     pins s = map object (pin_entries s) \<and> signature s = recompute_signature A s"

lemma validate_Inr [res_simps]: "validate_pin e = Inr u \<longleftrightarrow> object_id e \<noteq> [] \<and> object e \<noteq> None"
  by (auto simp: validate_pin_def)

lemma pin_find_None [simp]: "pin_find s name = None \<longleftrightarrow> name \<notin> object_id ` set (pin_entries s)"
  by (auto simp: pin_find_def find_None_iff)

lemma pin_find_Some_in: "pin_find s name = Some e \<Longrightarrow> e \<in> set (pin_entries s) \<and> object_id e = name"
  by (auto simp: pin_find_def find_Some_iff)

lemma find_by_id: "distinct (map f es) \<Longrightarrow> e \<in> set es \<Longrightarrow> find (\<lambda>x. f x = f e) es = Some e"
  by (induction es) auto

lemma pin_find_Some_iff:
  assumes "distinct (map object_id (pin_entries s))"
  shows "pin_find s name = Some e \<longleftrightarrow> e \<in> set (pin_entries s) \<and> object_id e = name"
proof
  assume e: "e \<in> set (pin_entries s) \<and> object_id e = name"
  then show "pin_find s name = Some e"
    using find_by_id [OF assms, of e] by (simp add: pin_find_def)
qed (rule pin_find_Some_in)

lemma remove_named:
  "distinct (map f es) \<Longrightarrow> e \<in> set es \<Longrightarrow> f e \<notin> N \<Longrightarrow>
     remove1 e (filter (\<lambda>x. f x \<in> insert (f e) N) es) = filter (\<lambda>x. f x \<in> N) es"
proof (induction es)
  case (Cons x es)
  show ?case
  proof (cases "x = e")
    case True
    then have "filter (\<lambda>y. f y \<in> insert (f e) N) es = filter (\<lambda>y. f y \<in> N) es"
      using Cons.prems(1) True by (intro filter_cong refl) (force simp: image_iff)
    then show ?thesis using True Cons.prems by simp
  next
    case False
    then show ?thesis using Cons by auto
  qed
qed simp

lemma expect_inputs_Inr:
  "expect_inputs A s ins r names = Inr (ins', r') \<Longrightarrow> ins' = ins @ names \<and>
     set names \<subseteq> object_id ` set (pin_entries s) \<and> (distinct ins \<longrightarrow> distinct ins')"
  by (induction A s ins r names rule: expect_inputs.induct)
     (auto split: if_splits option.splits dest: pin_find_Some_in)

definition fresh_pin :: "('t, 'e) pin_set \<Rightarrow> ('t, 'e) pin_entry \<Rightarrow> bool" where
  "fresh_pin s e \<longleftrightarrow> object_id e \<noteq> [] \<and> object e \<noteq> None \<and> object_id e \<notin> object_id ` set (pin_entries s)"

lemma accept_replacements_Cons:
  "accept_replacements A s before a (e # es) = Inr a' \<longleftrightarrow> fresh_pin s e \<and>
     object_id e \<notin> set (map object_id before) \<and>
     accept_replacements A s (before @ [e]) (add_of A a (contribution e)) es = Inr a'"
proof -
  have "list_ex (\<lambda>b. object_id b = object_id e) before \<longleftrightarrow> object_id e \<in> set (map object_id before)"
    by (induction before) auto
  then show ?thesis by (auto simp: fresh_pin_def res_simps simp del: not_None_eq)
qed

lemma accept_replacements_Inr:
  "accept_replacements A s before a es = Inr a' \<Longrightarrow> distinct (map object_id before) \<Longrightarrow>
     (\<forall>e \<in> set es. fresh_pin s e) \<and> distinct (map object_id (before @ es))"
proof (induction es arbitrary: before a)
  case (Cons e es)
  then have e: "fresh_pin s e" "object_id e \<notin> set (map object_id before)"
    and go: "accept_replacements A s (before @ [e]) (add_of A a (contribution e)) es = Inr a'"
    unfolding accept_replacements_Cons by blast+
  have "distinct (map object_id (before @ [e]))" using e(2) Cons.prems(2) by simp
  from Cons.IH [OF go this] show ?case using e(1) by simp
qed simp

context additive_fingerprint
begin

lemma recompute_total: "recompute_signature A s = total (map contribution (pin_entries s))"
  by (simp add: recompute_signature_def total_def foldl_map)

lemma accepted_sum:
  "accept_replacements A s before a es = Inr a' \<Longrightarrow> a' = add_of A a (total (map contribution es))"
proof (induction es arbitrary: before a)
  case (Cons e es)
  then have "accept_replacements A s (before @ [e]) (add_of A a (contribution e)) es = Inr a'"
    unfolding accept_replacements_Cons by blast
  from Cons.IH [OF this] show ?case by (simp add: add_assoc)
qed (simp add: add_zero_right)

lemma expected_sum:
  "expect_inputs A s ins r names = Inr (ins', r') \<Longrightarrow>
     r' = add_of A r (total (map (\<lambda>n. contribution (the (pin_find s n))) names))"
proof (induction names arbitrary: ins r)
  case (Cons n names)
  then obtain e where e: "pin_find s n = Some e"
    and "expect_inputs A s (ins @ [n]) (add_of A r (contribution e)) names = Inr (ins', r')"
    by (simp split: if_splits option.splits)
  from Cons.IH [OF this(2)] show ?case by (simp add: add_assoc e)
qed (simp add: add_zero_right)

lemma total_remove1:
  "x \<in> set xs \<Longrightarrow> total (map f xs) = add_of A (f x) (total (map f (remove1 x xs)))"
  by (induction xs) (auto simp: add_left_commute)

text \<open>Summing over the distinct expected names is summing over the entries they name.\<close>

lemma total_named:
  fixes es :: "('t, 'x) pin_entry list"
  assumes "distinct (map object_id es)" "distinct names" "set names \<subseteq> object_id ` set es"
  shows "total (map (\<lambda>n. f (the (find (\<lambda>e. object_id e = n) es))) names) =
    total (map f (filter (\<lambda>e. object_id e \<in> set names) es))"
  using assms(2,3)
proof (induction names)
  case (Cons n names)
  let ?P = "\<lambda>ns e. object_id e \<in> set ns"
  obtain e where e: "e \<in> set es" "object_id e = n" using Cons.prems by auto
  have "find (\<lambda>e. object_id e = n) es = Some e"
    using find_by_id [OF assms(1) e(1)] e(2) by simp
  moreover have "remove1 e (filter (?P (n # names)) es) = filter (?P names) es"
    using remove_named [OF assms(1) e(1), of "set names"] e(2) Cons.prems(1) by simp
  ultimately show ?case
    using total_remove1 [of e "filter (?P (n # names)) es" f] Cons e by simp
qed simp

lemma empty_pins_ok: "pin_ok A (empty_pins A)"
  by (simp add: pin_ok_def empty_pins_def recompute_signature_def)

lemma pin_add_ok:
  assumes "pin_ok A s" "pin_add A s e = Inr s'"
  shows "pin_ok A s' \<and> pin_entries s' = pin_entries s @ [e]"
  using assms
  by (auto simp: pin_add_def res_simps pin_ok_def recompute_total total_append add_zero_right image_iff
      split: if_splits)

lemma pin_remove_ok:
  assumes ok: "pin_ok A s" and run: "pin_remove A s name = Inr s'"
  shows "pin_ok A s' \<and> pin_entries s' = filter (\<lambda>e. object_id e \<noteq> name) (pin_entries s)"
proof -
  let ?kept = "filter (\<lambda>e. object_id e \<noteq> name) (pin_entries s)"
  obtain old where old: "pin_find s name = Some old"
    and s': "s' = \<lparr>pin_entries = ?kept, pins = map object ?kept,
      signature = subtract_of A (signature s) (contribution old)\<rparr>"
    using run by (auto simp: pin_remove_def Let_def split: option.splits)
  have d: "distinct (map object_id (pin_entries s))" using ok by (simp add: pin_ok_def)
  have "total (map contribution (filter (\<lambda>e. object_id e = name) (pin_entries s))) = contribution old"
    using total_named [OF d, of "[name]" contribution] old pin_find_Some_in [OF old]
    by (auto simp: pin_find_def add_zero_right)
  then have "signature s' = recompute_signature A s'"
    using ok total_partition [of contribution "pin_entries s" "\<lambda>e. object_id e = name"]
    by (simp add: s' recompute_total pin_ok_def subtract_total)
  then show ?thesis
    using ok by (auto simp: pin_ok_def s' distinct_map_filter)
qed

lemma expect_inputs_total:
  "set names \<subseteq> object_id ` set (pin_entries s) \<Longrightarrow> distinct (ins @ names) \<Longrightarrow>
     \<exists>r'. expect_inputs A s ins r names = Inr (ins @ names, r')"
proof (induction names arbitrary: ins r)
  case (Cons n names)
  then obtain e where "pin_find s n = Some e" by (cases "pin_find s n") auto
  then show ?case using Cons.IH [of "ins @ [n]"] Cons.prems by simp
qed simp

lemma accept_replacements_total:
  "\<forall>e \<in> set es. fresh_pin s e \<Longrightarrow> distinct (map object_id (before @ es)) \<Longrightarrow>
     \<exists>a'. accept_replacements A s before a es = Inr a'"
proof (induction es arbitrary: before a)
  case (Cons e es)
  then show ?case using Cons.IH [of "before @ [e]"] by (simp add: accept_replacements_Cons del: accept_replacements.simps(2))
qed simp

text \<open>The two loops in closed form.\<close>

lemma expect_inputs_iff:
  assumes d: "distinct (map object_id (pin_entries s))"
  shows "expect_inputs A s [] (zero_of A) names = Inr (ins, r) \<longleftrightarrow> ins = names \<and> distinct names \<and>
    set names \<subseteq> object_id ` set (pin_entries s) \<and>
    r = total (map contribution (filter (\<lambda>e. object_id e \<in> set names) (pin_entries s)))"
proof -
  have sum: "r' = total (map contribution (filter (\<lambda>e. object_id e \<in> set names) (pin_entries s)))"
    if "expect_inputs A s [] (zero_of A) names = Inr (ins', r')" for ins' r'
  proof -
    have "distinct names" "set names \<subseteq> object_id ` set (pin_entries s)"
      using expect_inputs_Inr [OF that] by auto
    from total_named [OF d this] show ?thesis
      using expected_sum [OF that] by (simp add: pin_find_def add_zero)
  qed
  show ?thesis
    using sum expect_inputs_Inr [of A s "[]" "zero_of A" names]
      expect_inputs_total [of names s "[]" "zero_of A"] by fastforce
qed

lemma accept_replacements_iff:
  "accept_replacements A s [] (zero_of A) es = Inr a \<longleftrightarrow>
     (\<forall>e \<in> set es. fresh_pin s e) \<and> distinct (map object_id es) \<and> a = total (map contribution es)"
  using accepted_sum [of s "[]" "zero_of A" es] accept_replacements_Inr [of A s "[]" "zero_of A" es]
    accept_replacements_total [of es s "[]" "zero_of A"] by (fastforce simp: add_zero)

lemma pin_replace_iff:
  assumes ok: "pin_ok A s"
  shows "pin_replace A s expected new = Inr s' \<longleftrightarrow>
    distinct expected \<and> set expected \<subseteq> object_id ` set (pin_entries s) \<and>
    (\<forall>e \<in> set new. fresh_pin s e) \<and> distinct (map object_id new) \<and>
    foldl (add_of A) (zero_of A) (map contribution new) = foldl (add_of A) (zero_of A)
      (map contribution (filter (\<lambda>e. object_id e \<in> set expected) (pin_entries s))) \<and>
    s' = \<lparr>pin_entries = filter (\<lambda>e. object_id e \<notin> set expected) (pin_entries s) @ new,
      pins = map object (filter (\<lambda>e. object_id e \<notin> set expected) (pin_entries s) @ new),
      signature = signature s\<rparr>"
proof -
  have d: "distinct (map object_id (pin_entries s))" using ok by (simp add: pin_ok_def)
  show ?thesis
    unfolding pin_replace_def bindE_eq_Inr
    by (auto simp: expect_inputs_iff [OF d] accept_replacements_iff bindE_eq_Inr add_subtract
        Let_def simp flip: total_def)
qed

lemma pin_replace_ok:
  assumes ok: "pin_ok A s" and run: "pin_replace A s expected new = Inr s'"
  shows "pin_ok A s'"
proof -
  let ?kept = "filter (\<lambda>e. object_id e \<notin> set expected) (pin_entries s)"
  have new: "\<forall>e \<in> set new. fresh_pin s e" "distinct (map object_id new)"
    "total (map contribution new) =
      total (map contribution (filter (\<lambda>e. object_id e \<in> set expected) (pin_entries s)))"
    and s': "s' = \<lparr>pin_entries = ?kept @ new, pins = map object (?kept @ new), signature = signature s\<rparr>"
    using run unfolding pin_replace_iff [OF ok] total_def by blast+
  have "total (map contribution (?kept @ new)) = total (map contribution (pin_entries s))"
    using total_partition [of contribution "pin_entries s" "\<lambda>e. object_id e \<in> set expected"] new(3)
    by (simp add: total_append add_commute)
  moreover have "object_id ` set ?kept \<inter> object_id ` set new = {}"
    using new(1) by (auto simp: fresh_pin_def image_iff) metis
  then have "distinct (map object_id (?kept @ new))"
    using ok new(2) by (simp add: pin_ok_def distinct_map_filter)
  moreover have "\<forall>e \<in> set (?kept @ new). object_id e \<noteq> [] \<and> object e \<noteq> None"
    using ok new(1) by (auto simp: pin_ok_def fresh_pin_def)
  ultimately show ?thesis
    using ok by (simp add: pin_ok_def s' recompute_total)
qed

end

section \<open>Every set the program can build\<close>

inductive pin_built :: "'e fingerprint_algebra \<Rightarrow> ('t, 'e) pin_set \<Rightarrow> bool" for A :: "'e fingerprint_algebra" where
  none: "pin_built A (empty_pins A)"
| add: "pin_built A s \<Longrightarrow> pin_add A s e = Inr s' \<Longrightarrow> pin_built A s'"
| remove: "pin_built A s \<Longrightarrow> pin_remove A s name = Inr s' \<Longrightarrow> pin_built A s'"
| replace: "pin_built A s \<Longrightarrow> pin_replace A s expected new = Inr s' \<Longrightarrow> pin_built A s'"

lemma pin_built_ok: "pin_built A s \<Longrightarrow> additive_fingerprint A \<Longrightarrow> pin_ok A s"
  by (induction rule: pin_built.induct)
     (auto dest: additive_fingerprint.empty_pins_ok additive_fingerprint.pin_add_ok
        additive_fingerprint.pin_remove_ok additive_fingerprint.pin_replace_ok)

section \<open>Properties\<close>

text \<open>
  C14. Every pinned set that any sequence of additions, removals and replacements builds keeps
  its caches exact: identities are distinct and nonempty, no pin is null, the pins are the
  objects of the entries in order, and the cached signature is the recomputed one, under any
  additive algebra.
\<close>

theorem pinned_caches_exact:
  assumes "additive_fingerprint A" "pin_built A s"
  shows "signature s = recompute_signature A s \<and> pins s = map object (pin_entries s) \<and>
    distinct (map object_id (pin_entries s)) \<and>
    list_all (\<lambda>e. object_id e \<noteq> [] \<and> object e \<noteq> None) (pin_entries s)"
  using pin_built_ok [OF assms(2,1)] by (simp add: pin_ok_def list_all_iff)

definition demo_pin :: "string \<Rightarrow> u64 \<Rightarrow> (nat, u64) pin_entry" where
  "demo_pin n c = \<lparr>object_id = n, object = Some 0, contribution = c, native_signature = None\<rparr>"

definition demo_pins :: "(nat, u64) pin_set" where
  "demo_pins = \<lparr>pin_entries = [demo_pin ''a'' 5, demo_pin ''b'' 7], pins = [Some 0, Some 0], signature = 12\<rparr>"

lemma demo_pins_built: "pin_built wrapping_fingerprint_algebra demo_pins"
proof -
  have "pin_built wrapping_fingerprint_algebra
      (\<lparr>pin_entries = [demo_pin ''a'' 5], pins = [Some 0], signature = 5\<rparr> :: (nat, u64) pin_set)"
    by (rule pin_built.add [OF pin_built.none, of _ "demo_pin ''a'' 5"]) code_simp
  then show ?thesis
    by (rule pin_built.add [of _ _ "demo_pin ''b'' 7"]) code_simp
qed

lemma pinned_caches_exact_witness:
  "signature demo_pins = recompute_signature wrapping_fingerprint_algebra demo_pins"
  using pinned_caches_exact [OF wrapping.additive_fingerprint_axioms demo_pins_built] by blast

text \<open>
  C16. A replacement succeeds exactly when the expected inputs are distinct and present, the
  replacements carry distinct, nonempty, new identities and non-null objects, and their
  contributions sum to those of the inputs. It then keeps the signature, drops exactly the
  expected entries, keeps the others in order and appends the replacements; in every other
  case it throws and produces no set.
\<close>

theorem replace_exactly_when:
  assumes A: "additive_fingerprint A" and s: "pin_built A s"
  shows "pin_replace A s expected new = Inr s' \<longleftrightarrow>
    distinct expected \<and> set expected \<subseteq> object_id ` set (pin_entries s) \<and>
    list_all (\<lambda>e. object_id e \<noteq> [] \<and> object e \<noteq> None \<and> object_id e \<notin> object_id ` set (pin_entries s)) new \<and>
    distinct (map object_id new) \<and>
    foldl (add_of A) (zero_of A) (map contribution new) =
      foldl (add_of A) (zero_of A)
        (map contribution (filter (\<lambda>e. object_id e \<in> set expected) (pin_entries s))) \<and>
    s' = \<lparr>pin_entries = filter (\<lambda>e. object_id e \<notin> set expected) (pin_entries s) @ new,
      pins = map object (filter (\<lambda>e. object_id e \<notin> set expected) (pin_entries s) @ new),
      signature = signature s\<rparr>"
  using additive_fingerprint.pin_replace_iff [OF A pin_built_ok [OF s A]]
  by (simp add: list_all_iff fresh_pin_def)

lemma replace_exactly_when_witness:
  "pin_replace wrapping_fingerprint_algebra demo_pins [''b'', ''a''] [demo_pin ''c'' 12] =
     Inr \<lparr>pin_entries = [demo_pin ''c'' 12], pins = [Some 0], signature = 12\<rparr>"
  unfolding replace_exactly_when [OF wrapping.additive_fingerprint_axioms demo_pins_built]
  by (simp add: demo_pins_def demo_pin_def)

end
