(* ===== verification/OutputBudget.thy ===== *)
theory OutputBudget
  imports Prelude
begin

text \<open>
  The shared output allowance (\<open>output_budget.h\<close>): one atomic counter with a limit, leases
  that charge it, and the compare-exchange loop that acquires them. Every atomic operation is
  one step of an interleaving of any number of threads; counters are 64-bit words, so an
  accounting error would wrap. The laws: the counter is always the sum of the outstanding
  leases and never exceeds the limit.
\<close>

section \<open>State\<close>

record budget =
  limit :: u64
  used :: u64

record lease =
  attached :: bool
  bytes :: u64

text \<open>A call of \<open>try_acquire\<close> in progress: what it asks for and the value it last loaded.\<close>

record acquiring =
  request :: u64
  seen :: u64

record system =
  shared :: budget
  leases :: "lease list"
  calls :: "acquiring list"

definition new_budget :: "u64 \<Rightarrow> budget" where
  "new_budget n = \<lparr>limit = n, used = 0\<rparr>"

definition empty_lease :: lease where
  "empty_lease = \<lparr>attached = False, bytes = 0\<rparr>"

definition fetch_sub :: "u64 \<Rightarrow> budget \<Rightarrow> budget" where
  "fetch_sub n b = b\<lparr>used := used b - n\<rparr>"

section \<open>Operations\<close>

definition reset :: "budget \<times> lease \<Rightarrow> budget \<times> lease" where
  "reset = (\<lambda>(b, l). (if attached l then fetch_sub (bytes l) b else b, empty_lease))"

definition shrink :: "u64 \<Rightarrow> budget \<times> lease \<Rightarrow> unit res \<times> budget \<times> lease" where
  "shrink n = (\<lambda>(b, l).
     if n > bytes l then (Inl (Invalid_argument ''output lease cannot grow''), (b, l))
     else (Inr (), (if attached l then fetch_sub (bytes l - n) b else b, l\<lparr>bytes := n\<rparr>)))"

definition move_lease :: "lease \<Rightarrow> lease \<times> lease" where
  "move_lease other = (other, empty_lease)"

definition assign_lease :: "budget \<times> lease \<times> lease \<Rightarrow> budget \<times> lease \<times> lease" where
  "assign_lease = (\<lambda>(b, this, other). case reset (b, this) of (b', _) \<Rightarrow>
     (b', move_lease other))"

text \<open>
  \<open>try_acquire\<close>: load, then loop over the comparison and the compare-exchange. A weak
  compare-exchange may fail although the value is as expected; either failure reloads.
\<close>

definition start_acquire :: "budget \<Rightarrow> u64 \<Rightarrow> acquiring" where
  "start_acquire b n = \<lparr>request = n, seen = used b\<rparr>"

definition too_large :: "budget \<Rightarrow> acquiring \<Rightarrow> bool" where
  "too_large b c \<longleftrightarrow> request c > limit b - seen c"

definition exchange :: "bool \<Rightarrow> budget \<Rightarrow> acquiring \<Rightarrow> (acquiring + lease) \<times> budget" where
  "exchange spurious b c =
     (if used b = seen c \<and> \<not> spurious then
        (Inr \<lparr>attached = True, bytes = request c\<rparr>, b\<lparr>used := seen c + request c\<rparr>)
      else (Inl (c\<lparr>seen := used b\<rparr>), b))"

fun try_acquire :: "nat \<Rightarrow> budget \<Rightarrow> acquiring \<Rightarrow> lease option res \<times> budget" where
  "try_acquire 0 b c = (Inl Out_of_fuel, b)"
| "try_acquire (Suc fuel) b c =
     (if too_large b c then (Inr None, b)
      else case exchange False b c of
        (Inr l, b') \<Rightarrow> (Inr (Some l), b')
      | (Inl c', b') \<Rightarrow> try_acquire fuel b' c')"

section \<open>Interleavings\<close>

definition without :: "nat \<Rightarrow> 'a list \<Rightarrow> 'a list" where
  "without i xs = take i xs @ drop (Suc i) xs"

inductive budget_step :: "system \<Rightarrow> system \<Rightarrow> bool" where
  call: "budget_step s (s\<lparr>calls := calls s @ [start_acquire (shared s) n]\<rparr>)"
| refuse: "i < length (calls s) \<Longrightarrow> too_large (shared s) (calls s ! i) \<Longrightarrow>
    budget_step s (s\<lparr>calls := without i (calls s)\<rparr>)"
| retry: "i < length (calls s) \<Longrightarrow> \<not> too_large (shared s) (calls s ! i) \<Longrightarrow>
    exchange spurious (shared s) (calls s ! i) = (Inl c, b) \<Longrightarrow>
    budget_step s (s\<lparr>shared := b, calls := (calls s)[i := c]\<rparr>)"
| grant: "i < length (calls s) \<Longrightarrow> \<not> too_large (shared s) (calls s ! i) \<Longrightarrow>
    exchange spurious (shared s) (calls s ! i) = (Inr l, b) \<Longrightarrow>
    budget_step s (s\<lparr>shared := b, calls := without i (calls s), leases := leases s @ [l]\<rparr>)"
| reset: "i < length (leases s) \<Longrightarrow> reset (shared s, leases s ! i) = (b, l) \<Longrightarrow>
    budget_step s (s\<lparr>shared := b, leases := (leases s)[i := l]\<rparr>)"
| destroy: "i < length (leases s) \<Longrightarrow> reset (shared s, leases s ! i) = (b, l) \<Longrightarrow>
    budget_step s (s\<lparr>shared := b, leases := without i (leases s)\<rparr>)"
| shrink: "i < length (leases s) \<Longrightarrow> shrink n (shared s, leases s ! i) = (r, (b, l)) \<Longrightarrow>
    budget_step s (s\<lparr>shared := b, leases := (leases s)[i := l]\<rparr>)"
| move: "i < length (leases s) \<Longrightarrow> move_lease (leases s ! i) = (l, l') \<Longrightarrow>
    budget_step s (s\<lparr>leases := (leases s)[i := l'] @ [l]\<rparr>)"
| assign: "i < length (leases s) \<Longrightarrow> j < length (leases s) \<Longrightarrow> i \<noteq> j \<Longrightarrow>
    assign_lease (shared s, leases s ! i, leases s ! j) = (b, l, l') \<Longrightarrow>
    budget_step s (s\<lparr>shared := b, leases := (leases s)[i := l, j := l']\<rparr>)"

definition system0 :: "u64 \<Rightarrow> system" where
  "system0 n = \<lparr>shared = new_budget n, leases = [], calls = []\<rparr>"

section \<open>The invariant\<close>

definition charged :: "lease list \<Rightarrow> nat" where
  "charged ls = sum_list (map (\<lambda>l. unat (bytes l)) ls)"

definition budget_ok :: "system \<Rightarrow> bool" where
  "budget_ok s \<longleftrightarrow> unat (used (shared s)) = charged (leases s) \<and> used (shared s) \<le> limit (shared s) \<and>
     (\<forall>l \<in> set (leases s). \<not> attached l \<longrightarrow> bytes l = 0) \<and>
     (\<forall>c \<in> set (calls s). seen c \<le> limit (shared s))"

lemma set_without: "set (without i xs) \<subseteq> set xs"
  by (auto simp: without_def dest: in_set_takeD in_set_dropD)

lemma charged_simps [simp]:
  "charged [] = 0" "charged (l # ls) = unat (bytes l) + charged ls"
  "charged (ls @ ms) = charged ls + charged ms"
  by (simp_all add: charged_def)

lemma charged_split:
  "i < length ls \<Longrightarrow> charged ls = unat (bytes (ls ! i)) + charged (without i ls)"
  unfolding without_def by (subst id_take_nth_drop [of i ls]) simp_all

lemma charged_update:
  "i < length ls \<Longrightarrow> charged (ls[i := l]) = unat (bytes l) + charged (without i ls)"
  using charged_split [of i "ls[i := l]"] by (simp add: without_def)

lemma charged_bound: "i < length ls \<Longrightarrow> unat (bytes (ls ! i)) \<le> charged ls"
  by (simp add: charged_split)

text \<open>Returning part of a lease never drives the counter below what remains.\<close>

lemma fetch_sub_charged:
  assumes "unat (used b) = charged ls" "i < length ls" "n \<le> bytes (ls ! i)"
  shows "unat (used (fetch_sub n b)) = charged ls - unat n" "limit (fetch_sub n b) = limit b"
    "used (fetch_sub n b) \<le> used b"
proof -
  have "n \<le> used b"
    using assms charged_bound [OF assms(2)] by (simp add: word_le_nat_alt)
  then show "unat (used (fetch_sub n b)) = charged ls - unat n" "used (fetch_sub n b) \<le> used b"
    using assms(1) by (simp_all add: fetch_sub_def unat_sub word_le_nat_alt)
qed (simp add: fetch_sub_def)

lemma grant_charged:
  assumes "\<not> too_large b c" "exchange sp b c = (Inr l, b')" "used b \<le> limit b"
  shows "unat (used b') = unat (used b) + unat (bytes l)" "limit b' = limit b" "used b' \<le> limit b'" "attached l"
proof -
  have l: "l = \<lparr>attached = True, bytes = request c\<rparr>" "b' = b\<lparr>used := used b + request c\<rparr>" "seen c = used b"
    using assms(2) by (auto simp: exchange_def split: if_splits)
  have "unat (request c) \<le> unat (limit b) - unat (used b)"
    using assms(1,3) l(3) by (simp add: too_large_def word_le_nat_alt unat_sub not_less)
  then have "unat (used b) + unat (request c) \<le> unat (limit b)"
    using assms(3) by (simp add: word_le_nat_alt)
  moreover from this have "unat (used b + request c) = unat (used b) + unat (request c)"
    using unsigned_less [of "limit b", where 'a = nat] by (intro unat_add_lem [THEN iffD1]) simp
  ultimately show "unat (used b') = unat (used b) + unat (bytes l)" "limit b' = limit b" "used b' \<le> limit b'" "attached l"
    using l by (simp_all add: word_le_nat_alt)
qed

lemma reset_charged:
  assumes ok: "budget_ok s" and i: "i < length (leases s)" and r: "reset (shared s, leases s ! i) = (b, l)"
  shows "unat (used b) = charged (without i (leases s))" "limit b = limit (shared s)"
    "used b \<le> limit b" "l = empty_lease"
proof -
  have "\<not> attached (leases s ! i) \<Longrightarrow> bytes (leases s ! i) = 0"
    using ok i by (simp add: budget_ok_def)
  moreover note fetch_sub_charged [of "shared s" "leases s" i "bytes (leases s ! i)"]
  ultimately show "unat (used b) = charged (without i (leases s))" "limit b = limit (shared s)"
    "used b \<le> limit b" "l = empty_lease"
    using ok i r charged_split [OF i] by (auto simp: reset_def budget_ok_def split: if_splits)
qed

lemma budget_step_ok:
  assumes "budget_step s s'" "budget_ok s"
  shows "budget_ok s' \<and> limit (shared s') = limit (shared s)"
  using assms(1)
proof cases
  case (call n)
  then show ?thesis using assms(2) by (auto simp: budget_ok_def start_acquire_def)
next
  case (refuse i)
  then show ?thesis using assms(2) set_without [of i "calls s"] by (auto simp: budget_ok_def)
next
  case (retry i sp c b)
  then have "b = shared s" "seen c = used (shared s)"
    by (auto simp: exchange_def split: if_splits)
  then show ?thesis
    using assms(2) retry(1) set_update_subset_insert [of "calls s" i c] by (auto simp: budget_ok_def)
next
  case (grant i sp l b)
  then show ?thesis
    using assms(2) grant_charged [OF grant(3,4)] set_without [of i "calls s"]
    by (auto simp: budget_ok_def)
next
  case (reset i b l)
  note r = reset_charged [OF assms(2) reset(2,3)]
  then show ?thesis
    using assms(2) reset(1,2) set_update_subset_insert [of "leases s" i l]
    by (auto simp: budget_ok_def charged_update empty_lease_def)
next
  case (destroy i b l)
  note r = reset_charged [OF assms(2) destroy(2,3)]
  then show ?thesis
    using assms(2) destroy(1,2) set_without [of i "leases s"] by (auto simp: budget_ok_def)
next
  case (shrink i n r b l)
  have ok: "unat (used (shared s)) = charged (leases s)" "used (shared s) \<le> limit (shared s)"
    "\<not> attached (leases s ! i) \<Longrightarrow> bytes (leases s ! i) = 0"
    using assms(2) shrink(2) by (auto simp: budget_ok_def)
  have "unat (used b) = charged ((leases s)[i := l]) \<and> limit b = limit (shared s) \<and> used b \<le> limit b \<and>
      (\<not> attached l \<longrightarrow> bytes l = 0)"
  proof (cases "n > bytes (leases s ! i)")
    case True
    then have "b = shared s" "(leases s)[i := l] = leases s"
      using shrink(3) by (auto simp: shrink_def)
    then show ?thesis using True shrink(3) ok by (auto simp: shrink_def)
  next
    case False
    then have n: "n \<le> bytes (leases s ! i)" by simp
    then have "bytes (leases s ! i) - n \<le> bytes (leases s ! i)"
      by (simp add: word_le_nat_alt unat_sub)
    note f = fetch_sub_charged [OF ok(1) shrink(2) this]
    have "unat (bytes (leases s ! i) - n) = unat (bytes (leases s ! i)) - unat n"
      "unat n \<le> unat (bytes (leases s ! i))"
      using n by (simp_all add: unat_sub word_le_nat_alt)
    then show ?thesis
      using shrink(3) n f ok charged_split [OF shrink(2)] charged_update [OF shrink(2), of l]
      by (auto simp: shrink_def split: if_splits)
  qed
  then show ?thesis
    using assms(2) shrink(1) set_update_subset_insert [of "leases s" i l] by (auto simp: budget_ok_def)
next
  case (move i l l')
  then have "l = leases s ! i" "l' = empty_lease" by (simp_all add: move_lease_def)
  then show ?thesis
    using assms(2) move(1,2) set_update_subset_insert [of "leases s" i l'] charged_split [OF move(2)]
    by (auto simp: budget_ok_def charged_update empty_lease_def)
next
  case (assign i j b l l')
  obtain u where r: "reset (shared s, leases s ! i) = (b, u)" and l: "l = leases s ! j" "l' = empty_lease"
    using assign(5) by (auto simp: assign_lease_def move_lease_def split: prod.splits)
  note r' = reset_charged [OF assms(2) assign(2) r]
  have "charged ((leases s)[i := l, j := l']) = charged (without i (leases s))"
    using charged_split [of j "(leases s)[i := l]"] charged_update [of j "(leases s)[i := l]" l']
      charged_update [OF assign(2), of l] assign(2-4) l by (simp add: empty_lease_def)
  moreover have "set ((leases s)[i := l, j := l']) \<subseteq> insert empty_lease (set (leases s))"
    using set_update_subset_insert [of "(leases s)[i := l]" j l'] set_update_subset_insert [of "leases s" i l]
      l assign(3) by auto
  ultimately show ?thesis
    using assms(2) assign(1) r' by (auto simp: budget_ok_def empty_lease_def)
qed

lemma system0_ok: "budget_ok (system0 n)"
  by (simp add: budget_ok_def system0_def new_budget_def)

lemma run_ok: "budget_step\<^sup>*\<^sup>* s s' \<Longrightarrow> budget_ok s \<Longrightarrow> budget_ok s' \<and> limit (shared s') = limit (shared s)"
  by (induction rule: rtranclp_induct) (auto dest: budget_step_ok)

section \<open>Properties\<close>

text \<open>
  C17. Under every interleaving of acquisitions, retries, spurious failures, resets, shrinks,
  moves, assignments and destructions by any number of threads, the shared counter is exactly
  the sum of the outstanding leases, without wrap-around, and never exceeds the limit, which
  never changes.
\<close>

theorem budget_never_exceeded:
  assumes "budget_step\<^sup>*\<^sup>* (system0 n) s"
  shows "unat (used (shared s)) = charged (leases s) \<and> charged (leases s) \<le> unat n \<and>
    limit (shared s) = n"
  using run_ok [OF assms system0_ok]
  by (auto simp: budget_ok_def system0_def new_budget_def word_le_nat_alt)

lemma budget_never_exceeded_witness:
  "\<exists>s. budget_step\<^sup>*\<^sup>* (system0 10) s \<and> charged (leases s) = 7 \<and> charged (leases s) \<le> unat (10 :: u64)"
proof -
  let ?s1 = "(system0 10)\<lparr>calls := [\<lparr>request = 7, seen = 0\<rparr>]\<rparr>"
  let ?s2 = "(system0 10)\<lparr>shared := \<lparr>limit = 10, used = 7\<rparr>, leases := [\<lparr>attached = True, bytes = 7\<rparr>]\<rparr>"
  have "budget_step (system0 10) ?s1"
    using budget_step.call [of "system0 10" 7] by (simp add: system0_def start_acquire_def new_budget_def)
  moreover have "budget_step ?s1 ?s2"
    using budget_step.grant [of 0 ?s1 False "\<lparr>attached = True, bytes = 7\<rparr>" "\<lparr>limit = 10, used = 7\<rparr>"]
    by (simp add: system0_def new_budget_def too_large_def exchange_def without_def)
  ultimately have r: "budget_step\<^sup>*\<^sup>* (system0 10) ?s2" by simp
  show ?thesis
    using budget_never_exceeded [OF r] r by (intro exI [of _ ?s2]) simp
qed

text \<open>
  An acquisition that runs without interference returns at its first comparison: it gets
  exactly the bytes it asked for when they fit under the limit, and nothing otherwise; a
  stale first load costs one retry and changes nothing else.
\<close>

theorem try_acquire_decides:
  assumes "used b \<le> limit b" "seen c \<le> limit b" "seen c = used b \<or> request c \<le> limit b - seen c"
  shows "try_acquire 2 b c =
    (if unat (used b) + unat (request c) \<le> unat (limit b)
     then (Inr (Some \<lparr>attached = True, bytes = request c\<rparr>), b\<lparr>used := used b + request c\<rparr>)
     else (Inr None, b))"
proof -
  have fits: "request c > limit b - used b \<longleftrightarrow> \<not> unat (used b) + unat (request c) \<le> unat (limit b)"
    using assms(1) by (auto simp: word_le_nat_alt word_less_nat_alt unat_sub)
  show ?thesis
    using assms(3) fits by (auto simp: numeral_2_eq_2 too_large_def exchange_def)
qed

lemma try_acquire_decides_witness:
  "try_acquire 2 \<lparr>limit = 10, used = 4\<rparr> \<lparr>request = 6, seen = 2\<rparr> =
     (Inr (Some \<lparr>attached = True, bytes = 6\<rparr>), \<lparr>limit = 10, used = 10\<rparr>)"
  using try_acquire_decides [of "\<lparr>limit = 10, used = 4\<rparr>" "\<lparr>request = 6, seen = 2\<rparr>"] by simp

end
