(* ===== verification/Bits.thy ===== *)
theory Bits
  imports Prelude
begin

text \<open>
  Bit sequences, most significant first: the numbers and words they stand for, and the bits
  of a byte string. Every packed field of the code is read and written through these.
\<close>

section \<open>Bits and numbers\<close>

fun bits_value :: "bool list \<Rightarrow> nat" where
  "bits_value [] = 0"
| "bits_value (b # bs) = of_bool b * 2 ^ length bs + bits_value bs"

definition bits_of :: "nat \<Rightarrow> nat \<Rightarrow> bool list" where
  "bits_of w n = map (\<lambda>j. odd (n div 2 ^ (w - 1 - j))) [0..<w]"

lemma bits_value_less: "bits_value bs < 2 ^ length bs"
  by (induction bs) auto

lemma bits_of_0 [simp]: "bits_of 0 n = []"
  by (simp add: bits_of_def)

lemma bits_of_Suc: "bits_of (Suc w) n = odd (n div 2 ^ w) # bits_of w n"
proof -
  have "[0..<Suc w] = 0 # map Suc [0..<w]" by (simp add: map_Suc_upt upt_conv_Cons del: upt_Suc)
  then show ?thesis by (simp add: bits_of_def)
qed

lemma length_bits_of [simp]: "length (bits_of w n) = w"
  by (simp add: bits_of_def)

lemma bits_value_of: "bits_value (bits_of w n) = n mod 2 ^ w"
proof (induction w)
  case (Suc w)
  have "n mod 2 ^ Suc w = of_bool (odd (n div 2 ^ w)) * 2 ^ w + n mod 2 ^ w"
    using mod_mult2_eq [of n "2 ^ w" 2] by (cases "odd (n div 2 ^ w)") (simp_all add: mult.commute odd_iff_mod_2_eq_one)
  then show ?case by (simp add: bits_of_Suc Suc)
qed simp

lemma bits_value_inj: "bits_value as = bits_value bs \<Longrightarrow> length as = length bs \<Longrightarrow> as = bs"
proof (induction as arbitrary: bs)
  case (Cons a as)
  then obtain b cs where bs: "bs = b # cs" "length as = length cs" by (cases bs) auto
  have "a = b"
    using Cons.prems(1) bs bits_value_less [of as] bits_value_less [of cs] by (cases a; cases b) auto
  then show ?case using Cons bs by auto
qed simp

lemma bits_of_value: "bits_of (length bs) (bits_value bs) = bs"
  by (rule bits_value_inj) (simp_all add: bits_value_of bits_value_less)

lemma bits_value_append: "bits_value (as @ bs) = bits_value as * 2 ^ length bs + bits_value bs"
  by (induction as) (simp_all add: power_add algebra_simps)

lemma bits_value_replicate [simp]: "bits_value (replicate n False) = 0"
  by (induction n) simp_all

lemma nth_bits_of: "i < w \<Longrightarrow> bits_of w n ! i = odd (n div 2 ^ (w - 1 - i))"
  by (simp add: bits_of_def)

lemma bits_value_nth:
  "k < length bs \<Longrightarrow> odd (bits_value bs div 2 ^ k) = bs ! (length bs - 1 - k)"
  using nth_bits_of [of "length bs - 1 - k" "length bs" "bits_value bs"] by (simp add: bits_of_value)

section \<open>Bits and words\<close>

definition wbits :: "bool list \<Rightarrow> u64" where
  "wbits bs = of_nat (bits_value bs)"

definition word_bits :: "nat \<Rightarrow> u64 \<Rightarrow> bool list" where
  "word_bits w x = bits_of w (unat x)"

lemma length_word_bits [simp]: "length (word_bits w x) = w"
  by (simp add: word_bits_def)

lemma nth_word_bits: "i < w \<Longrightarrow> word_bits w x ! i = bit x (w - 1 - i)"
  by (simp add: word_bits_def nth_bits_of bit_unsigned_iff flip: bit_iff_odd)

lemma bit_wbits:
  assumes "length bs \<le> 64"
  shows "bit (wbits bs) k \<longleftrightarrow> k < length bs \<and> bs ! (length bs - 1 - k)"
proof -
  have w: "bit (wbits bs) k \<longleftrightarrow> k < 64 \<and> odd (bits_value bs div 2 ^ k)"
    unfolding wbits_def bit_of_nat_iff bit_iff_odd [of "bits_value bs"] by simp
  show ?thesis
  proof (cases "k < length bs")
    case True
    then show ?thesis using w assms bits_value_nth [OF True] by simp
  next
    case False
    then have "(2 :: nat) ^ length bs \<le> 2 ^ k" by simp
    then have "bits_value bs < 2 ^ k" by (rule less_le_trans [OF bits_value_less])
    then have "bits_value bs div 2 ^ k = 0" by simp
    then show ?thesis using False w by simp
  qed
qed

lemma unat_wbits: "length bs \<le> 64 \<Longrightarrow> unat (wbits bs) = bits_value bs"
proof -
  assume "length bs \<le> 64"
  then have "(2 :: nat) ^ length bs \<le> 2 ^ 64" by (rule power_increasing) simp
  then show ?thesis using bits_value_less [of bs] by (simp add: wbits_def unat_of_nat_u64)
qed

lemma wbits_word_bits: "w \<le> 64 \<Longrightarrow> wbits (word_bits w x) = take_bit w x"
  by (rule bit_word_eqI) (auto simp: bit_wbits nth_word_bits bit_take_bit_iff)

lemma wbits_word_bits_64 [simp]: "wbits (word_bits 64 x) = x"
  unfolding wbits_word_bits [OF order_refl] by (rule bit_word_eqI) (simp add: bit_take_bit_iff)

lemma word_bits_wbits: "length bs \<le> 64 \<Longrightarrow> word_bits (length bs) (wbits bs) = bs"
  by (simp add: word_bits_def unat_wbits bits_of_value)

lemma wbits_eq_iff: "length as \<le> 64 \<Longrightarrow> length as = length bs \<Longrightarrow> wbits as = wbits bs \<longleftrightarrow> as = bs"
  by (metis word_bits_wbits)

lemma wbits_less_iff:
  "length as \<le> 64 \<Longrightarrow> length bs \<le> 64 \<Longrightarrow> wbits as < wbits bs \<longleftrightarrow> bits_value as < bits_value bs"
  by (simp add: word_less_nat_alt unat_wbits)

lemma drop_bit_wbits:
  "length bs \<le> 64 \<Longrightarrow> k \<le> length bs \<Longrightarrow> drop_bit k (wbits bs) = wbits (take (length bs - k) bs)"
  by (rule bit_word_eqI) (auto simp: bit_drop_bit_eq bit_wbits algebra_simps)

lemma push_bit_wbits:
  "length bs = 64 \<Longrightarrow> k \<le> 64 \<Longrightarrow> push_bit k (wbits bs) = wbits (drop k bs @ replicate k False)"
  by (rule bit_word_eqI) (auto simp: bit_push_bit_iff bit_wbits nth_append add.commute)

lemma or_wbits:
  "length as + length bs \<le> 64 \<Longrightarrow> wbits (as @ replicate (length bs) False) OR wbits bs = wbits (as @ bs)"
  by (rule bit_word_eqI) (auto simp: bit_or_iff bit_wbits nth_append)

lemma and_mask_wbits:
  "length bs \<le> 64 \<Longrightarrow> k \<le> length bs \<Longrightarrow> wbits bs AND mask k = wbits (drop (length bs - k) bs)"
  by (rule bit_word_eqI) (auto simp: bit_and_iff bit_mask_iff bit_wbits algebra_simps)

lemma xor_wbits:
  "length as = length bs \<Longrightarrow> length as \<le> 64 \<Longrightarrow> wbits as XOR wbits bs = wbits (map2 (\<noteq>) as bs)"
  by (rule bit_word_eqI) (auto simp: bit_xor_iff bit_wbits)

lemma xor_eq_0: "x XOR y = 0 \<longleftrightarrow> x = y" for x y :: u64
proof
  assume "x XOR y = 0"
  then have "(x XOR y) XOR y = y" by simp
  then show "x = y" by (simp add: xor.assoc)
qed simp

section \<open>Byte strings\<close>

definition byte_bits :: "u8 \<Rightarrow> bool list" where
  "byte_bits b = bits_of 8 (unat b)"

definition all_bits :: "u8 list \<Rightarrow> bool list" where
  "all_bits bs = concat (map byte_bits bs)"

lemma length_byte_bits [simp]: "length (byte_bits b) = 8"
  by (simp add: byte_bits_def)

lemma all_bits_simps [simp]:
  "all_bits [] = []" "all_bits (b # bs) = byte_bits b @ all_bits bs"
  "all_bits (as @ bs) = all_bits as @ all_bits bs"
  by (simp_all add: all_bits_def)

lemma length_all_bits [simp]: "length (all_bits bs) = 8 * length bs"
  by (induction bs) simp_all

lemma take_all_bits: "take (8 * n) (all_bits bs) = all_bits (take n bs)"
  and drop_all_bits: "drop (8 * n) (all_bits bs) = all_bits (drop n bs)"
proof -
  have "take (8 * n) (all_bits bs) = all_bits (take n bs) \<and> drop (8 * n) (all_bits bs) = all_bits (drop n bs)"
  proof (cases "n \<le> length bs")
    case True
    have "all_bits bs = all_bits (take n bs) @ all_bits (drop n bs)"
      by (simp flip: all_bits_simps(3))
    then show ?thesis using True by simp
  qed simp
  then show "take (8 * n) (all_bits bs) = all_bits (take n bs)" "drop (8 * n) (all_bits bs) = all_bits (drop n bs)"
    by blast+
qed

lemma nth_byte_bits: "i < 8 \<Longrightarrow> byte_bits b ! i = bit b (7 - i)"
  by (simp add: byte_bits_def nth_bits_of bit_unsigned_iff flip: bit_iff_odd)

lemma nth_all_bits:
  assumes "i < 8 * length bs"
  shows "all_bits bs ! i = bit (bs ! (i div 8)) (7 - i mod 8)"
proof -
  have n: "i div 8 < length bs" using assms by (simp add: div_less_iff_less_mult)
  have "all_bits bs ! i = drop (8 * (i div 8)) (all_bits bs) ! (i mod 8)"
    using assms by simp
  also have "\<dots> = byte_bits (bs ! (i div 8)) ! (i mod 8)"
    using Cons_nth_drop_Suc [OF n, symmetric] by (simp add: drop_all_bits nth_append)
  finally show ?thesis by (simp add: nth_byte_bits)
qed

lemma byte_bits_inj: "byte_bits a = byte_bits b \<longleftrightarrow> a = b"
proof
  assume eq: "byte_bits a = byte_bits b"
  have "bits_value (byte_bits c) = unat c" for c
    using unsigned_less [of c, where 'a = nat] by (simp add: byte_bits_def bits_value_of)
  then have "unat a = unat b" by (metis eq)
  then show "a = b" by (simp add: word_unat_eq_iff)
qed simp

lemma all_bits_inj: "all_bits as = all_bits bs \<Longrightarrow> as = bs"
proof (induction as arbitrary: bs)
  case Nil
  then have "length bs = 0" using length_all_bits [of bs] by simp
  then show ?case by simp
next
  case (Cons a as)
  then have "length bs \<noteq> 0" using length_all_bits [of bs] by (metis length_0_conv length_all_bits list.distinct(1) mult_eq_0_iff)
  then obtain b cs where "bs = b # cs" by (cases bs) auto
  then show ?case using Cons by (simp add: byte_bits_inj)
qed

text \<open>A byte assembled from eight bits.\<close>

definition bits_byte :: "bool list \<Rightarrow> u8" where
  "bits_byte bs = of_nat (bits_value bs)"

lemma byte_bits_byte: "length bs = 8 \<Longrightarrow> byte_bits (bits_byte bs) = bs"
  using bits_value_less [of bs] bits_of_value [of bs]
  by (simp add: byte_bits_def bits_byte_def unsigned_of_nat take_bit_nat_eq_self)

section \<open>Common prefixes\<close>

fun lcp :: "'a list \<Rightarrow> 'a list \<Rightarrow> nat" where
  "lcp (x # xs) (y # ys) = (if x = y then Suc (lcp xs ys) else 0)"
| "lcp [] ys = 0"
| "lcp xs [] = 0"

lemma lcp_le: "lcp xs ys \<le> length xs" "lcp xs ys \<le> length ys"
  by (induction xs ys rule: lcp.induct) auto

lemma lcp_take: "take (lcp xs ys) xs = take (lcp xs ys) ys"
  by (induction xs ys rule: lcp.induct) auto

lemma lcp_differs: "lcp xs ys < length xs \<Longrightarrow> lcp xs ys < length ys \<Longrightarrow> xs ! lcp xs ys \<noteq> ys ! lcp xs ys"
  by (induction xs ys rule: lcp.induct) auto

lemma lcp_self [simp]: "lcp xs xs = length xs"
  by (induction xs) auto

lemma lcp_commute: "lcp xs ys = lcp ys xs"
proof (induction xs ys rule: lcp.induct)
  case (3 v va)
  then show ?case by simp
next
  case (2 ys)
  then show ?case by (cases ys) simp_all
qed auto

lemma lcp_append: "length xs = length ys \<Longrightarrow>
    lcp (xs @ us) (ys @ vs) = (if xs = ys then length xs + lcp us vs else lcp xs ys)"
  by (induction xs ys rule: list_induct2) auto

lemma lcp_eq_length: "length xs = length ys \<Longrightarrow> lcp xs ys = length xs \<longleftrightarrow> xs = ys"
  by (induction xs ys rule: list_induct2) auto

lemma lcp_map2: "length (takeWhile Not (map2 (\<noteq>) xs ys)) = lcp xs ys"
  by (induction xs ys rule: lcp.induct) auto

text \<open>Agreement of two lists is agreement of their fixed-size blocks.\<close>

lemma lcp_blocks:
  assumes "\<And>x. length (f x) = n" "inj f" "0 < n"
  shows "length xs = length ys \<Longrightarrow> xs \<noteq> ys \<Longrightarrow>
    lcp (concat (map f xs)) (concat (map f ys)) div n = lcp xs ys"
proof (induction xs ys rule: list_induct2)
  case (Cons x xs y ys)
  show ?case
  proof (cases "x = y")
    case True
    then show ?thesis using Cons assms(3) True by (simp add: lcp_append assms(1) div_add_self1)
  next
    case False
    then have ne: "f x \<noteq> f y" using assms(2) by (auto dest: injD)
    then have "lcp (f x) (f y) < n"
      using lcp_le(1) [of "f x" "f y"] lcp_eq_length [of "f x" "f y"] assms(1) by (metis le_neq_implies_less)
    then show ?thesis using ne False by (simp add: lcp_append assms(1))
  qed
qed simp

section \<open>Counting zeros\<close>

definition countl_zero :: "u64 \<Rightarrow> nat" where
  "countl_zero x = length (takeWhile Not (word_bits 64 x))"

definition countr_zero :: "u64 \<Rightarrow> nat" where
  "countr_zero x = length (takeWhile Not (rev (word_bits 64 x)))"

lemma takeWhile_replicate: "takeWhile P (replicate n x @ xs) = (if P x then replicate n x @ takeWhile P xs else takeWhile P (replicate n x @ xs))"
  by (induction n) auto

lemma word_bits_pad:
  assumes "length bs \<le> 64"
  shows "word_bits 64 (wbits bs) = replicate (64 - length bs) False @ bs"
  using assms by (intro nth_equalityI) (auto simp: nth_word_bits bit_wbits nth_append add.commute)

lemma countl_zero_xor:
  assumes "length as = length bs" "length as \<le> 64"
  shows "countl_zero (wbits as XOR wbits bs) = 64 - length as + lcp as bs"
proof -
  have "word_bits 64 (wbits as XOR wbits bs) = replicate (64 - length as) False @ map2 (\<noteq>) as bs"
    using assms by (simp add: xor_wbits word_bits_pad)
  then show ?thesis
    using takeWhile_replicate [of Not "64 - length as" False "map2 (\<noteq>) as bs"] lcp_map2 [of as bs]
    by (simp add: countl_zero_def)
qed

lemma countr_zero_xor:
  assumes "length as = 64" "length bs = 64"
  shows "countr_zero (wbits as XOR wbits bs) = lcp (rev as) (rev bs)"
proof -
  have "word_bits 64 (wbits as XOR wbits bs) = map2 (\<noteq>) as bs"
    using assms word_bits_pad [of "map2 (\<noteq>) as bs"] by (simp add: xor_wbits)
  then have "rev (word_bits 64 (wbits as XOR wbits bs)) = map2 (\<noteq>) (rev as) (rev bs)"
    using assms by (simp add: zip_rev rev_map flip: rev_map)
  then show ?thesis
    using lcp_map2 [of "rev as" "rev bs"] by (simp add: countr_zero_def)
qed

end
