(* ===== verification/Registry.thy ===== *)
theory Registry
  imports Bits
begin

text \<open>
  Sort registries (\<open>registry.h\<close>): the type-level description of which sorts a key may have
  and how their codes are laid out. A registry is a C++ type; here it is a datatype with the
  same constructors, and the compile-time computations on it are functions. The laws: the
  dispatcher inverts the code table, extension is a preorder that preserves every occupied
  code, and the inferred common width is the width of every leaf.
\<close>

section \<open>Encodings, sorts and registries\<close>

datatype profile_unit = Byte | Bit

datatype value_layout = Variable_values | Fixed_values nat

record encoding =
  unit_of :: profile_unit
  fixed_bits :: "nat option"

text \<open>\<open>value_bits\<close>: the static assertion is the error branch.\<close>

definition value_bits :: "value_layout \<Rightarrow> nat \<Rightarrow> nat option res" where
  "value_bits v shift = (case v of Variable_values \<Rightarrow> Inr None
     | Fixed_values n \<Rightarrow> if n \<le> u64_max div 2 ^ shift then Inr (Some (n * 2 ^ shift))
         else Inl (Logic_error ''fixed value width exceeds a bit extent''))"

definition byte_encoding :: "value_layout \<Rightarrow> encoding res" where
  "byte_encoding v = bindE (value_bits v 3) (\<lambda>w. Inr \<lparr>unit_of = Byte, fixed_bits = w\<rparr>)"

definition bit_encoding :: "value_layout \<Rightarrow> encoding res" where
  "bit_encoding v = bindE (value_bits v 0) (\<lambda>w. Inr \<lparr>unit_of = Bit, fixed_bits = w\<rparr>)"

text \<open>
  A sort type is named; \<open>unsorted<T>\<close> is the sort of the type \<open>T\<close>. A slot is a sort or the
  reserved hole \<open>sort_undefined\<close>.
\<close>

datatype sort = Unsorted string encoding | Sort string encoding

datatype slot = Hole | Leaf sort

datatype registry =
    Reg_unsorted string encoding
  | Reg_undefined
  | Reg_tip slot
  | Reg_bin registry registry
  | Reg_list "slot list"

fun encoding_of :: "sort \<Rightarrow> encoding" where
  "encoding_of (Unsorted t e) = e"
| "encoding_of (Sort n e) = e"

section \<open>Compile-time information\<close>

fun slot_leaves :: "slot \<Rightarrow> sort list" where
  "slot_leaves Hole = []"
| "slot_leaves (Leaf s) = [s]"

fun slot_mode :: "slot \<Rightarrow> profile_unit option" where
  "slot_mode Hole = None"
| "slot_mode (Leaf s) = Some (unit_of (encoding_of s))"

fun slot_width :: "slot \<Rightarrow> nat option" where
  "slot_width Hole = None"
| "slot_width (Leaf s) = fixed_bits (encoding_of s)"

fun leaf_ok :: "slot \<Rightarrow> bool" where
  "leaf_ok Hole = True"
| "leaf_ok (Leaf s) \<longleftrightarrow> (case fixed_bits (encoding_of s) of None \<Rightarrow> True
     | Some w \<Rightarrow> unit_of (encoding_of s) \<noteq> Byte \<or> w mod 8 = 0)"

definition join_width :: "nat \<times> nat option \<Rightarrow> nat \<times> nat option \<Rightarrow> nat option" where
  "join_width = (\<lambda>(ca, wa) (cb, wb).
     if ca = 0 then wb else if cb = 0 then wa
     else if wa \<noteq> None \<and> wb \<noteq> None \<and> wa = wb then wa else None)"

fun list_width :: "slot list \<Rightarrow> nat \<times> nat option" where
  "list_width [] = (0, None)"
| "list_width (s # ss) =
     (length (slot_leaves s) + fst (list_width ss),
      join_width (length (slot_leaves s), slot_width s) (list_width ss))"

fun leaves :: "registry \<Rightarrow> sort list" where
  "leaves (Reg_unsorted t e) = [Unsorted t e]"
| "leaves Reg_undefined = []"
| "leaves (Reg_tip s) = slot_leaves s"
| "leaves (Reg_bin l r) = leaves l @ leaves r"
| "leaves (Reg_list ss) = concat (map slot_leaves ss)"

fun count :: "registry \<Rightarrow> nat" where
  "count (Reg_unsorted t e) = 1"
| "count Reg_undefined = 0"
| "count (Reg_tip s) = length (slot_leaves s)"
| "count (Reg_bin l r) = count l + count r"
| "count (Reg_list ss) = fst (list_width ss)"

fun mode :: "registry \<Rightarrow> profile_unit option" where
  "mode (Reg_unsorted t e) = slot_mode (Leaf (Unsorted t e))"
| "mode Reg_undefined = None"
| "mode (Reg_tip s) = slot_mode s"
| "mode (Reg_bin l r) = Some Bit"
| "mode (Reg_list ss) = Some Byte"

fun width :: "registry \<Rightarrow> nat option" where
  "width (Reg_unsorted t e) = fixed_bits e"
| "width Reg_undefined = None"
| "width (Reg_tip s) = slot_width s"
| "width (Reg_bin l r) = join_width (count l, width l) (count r, width r)"
| "width (Reg_list ss) = snd (list_width ss)"

text \<open>The static assertions of \<open>info\<close> and \<open>registry_traits\<close>.\<close>

fun info_ok :: "registry \<Rightarrow> bool" where
  "info_ok (Reg_unsorted t e) = leaf_ok (Leaf (Unsorted t e))"
| "info_ok Reg_undefined = True"
| "info_ok (Reg_tip s) = leaf_ok s"
| "info_ok (Reg_bin l r) = (info_ok l \<and> info_ok r)"
| "info_ok (Reg_list ss) \<longleftrightarrow> length ss \<le> 256 \<and> list_all leaf_ok ss \<and>
     list_all (\<lambda>s. slot_mode s = None \<or> slot_mode s = Some Byte) ss"

definition registry_ok :: "registry \<Rightarrow> bool" where
  "registry_ok r \<longleftrightarrow> info_ok r \<and> distinct (leaves r)"

definition registry_unit :: "registry \<Rightarrow> profile_unit" where
  "registry_unit r = (case mode r of Some u \<Rightarrow> u | None \<Rightarrow> Byte)"

definition value_width :: "registry \<Rightarrow> nat option" where
  "value_width r = map_option (\<lambda>w. w div (if registry_unit r = Byte then 8 else 1)) (width r)"

section \<open>Extension\<close>

fun list_extends :: "slot list \<Rightarrow> slot list \<Rightarrow> bool" where
  "list_extends [] ns = True"
| "list_extends (s # ss) [] = False"
| "list_extends (s # ss) (n # ns) \<longleftrightarrow> (s = Hole \<or> s = n) \<and> list_extends ss ns"

fun extension :: "registry \<Rightarrow> registry \<Rightarrow> bool" where
  "extension (Reg_bin o1 o2) (Reg_bin n1 n2) \<longleftrightarrow>
     (count o1 = 0 \<or> extension o1 n1) \<and> (count o2 = 0 \<or> extension o2 n2)"
| "extension (Reg_list os) (Reg_list ns) \<longleftrightarrow> list_extends os ns"
| "extension (Reg_unsorted t e) (Reg_tip s) \<longleftrightarrow> s = Leaf (Unsorted t e)"
| "extension (Reg_tip s) (Reg_unsorted t e) \<longleftrightarrow> s = Leaf (Unsorted t e)"
| "extension a b \<longleftrightarrow> a = b"

definition extends :: "registry \<Rightarrow> registry \<Rightarrow> bool" where
  "extends a b \<longleftrightarrow> count a = 0 \<or> extension a b"

definition registry_extends :: "registry \<Rightarrow> registry \<Rightarrow> bool" where
  "registry_extends a b \<longleftrightarrow> registry_ok a \<and> registry_ok b \<and> extends a b"

section \<open>Dispatch\<close>

text \<open>
  The reader is a parameter: \<open>read_bits\<close> takes a width and returns a word or throws, and
  leaves a reader behind either way. The visitor's branch is the sort it is called with.
\<close>

type_synonym 'r reader = "nat \<Rightarrow> ('r, u64) op"

definition discriminator :: "'r reader \<Rightarrow> nat \<Rightarrow> ('r, u64) op" where
  "discriminator rd w = bindM (rd w) (\<lambda>code.
     if code \<ge> push_bit w 1 then raiseM (Invalid_argument ''sort discriminator exceeds its width'')
     else returnM code)"

fun visit_slot :: "slot \<Rightarrow> ('r, sort) op" where
  "visit_slot Hole = raiseM (Invalid_argument ''undefined sort code'')"
| "visit_slot (Leaf s) = returnM s"

fun list_at :: "nat \<Rightarrow> u64 \<Rightarrow> slot list \<Rightarrow> ('r, sort) op" where
  "list_at i code [] = raiseM (Invalid_argument ''undefined sort code'')"
| "list_at i code (s # ss) =
     (if code = of_nat i then visit_slot s else list_at (Suc i) code ss)"

fun dispatch :: "'r reader \<Rightarrow> registry \<Rightarrow> ('r, sort) op" where
  "dispatch rd Reg_undefined = raiseM (Invalid_argument ''empty sort registry'')"
| "dispatch rd (Reg_tip s) = visit_slot s"
| "dispatch rd (Reg_unsorted t e) = visit_slot (Leaf (Unsorted t e))"
| "dispatch rd (Reg_bin l r) = bindM (discriminator rd 1) (\<lambda>code.
     if code \<noteq> 0 then dispatch rd r else dispatch rd l)"
| "dispatch rd (Reg_list ss) = bindM (discriminator rd 8) (\<lambda>code. list_at 0 code ss)"

section \<open>Widths\<close>

lemma list_width_count: "fst (list_width ss) = length (concat (map slot_leaves ss))"
  by (induction ss) simp_all

lemma count_leaves: "count r = length (leaves r)"
  by (induction r) (simp_all add: list_width_count)

text \<open>A width is common to a list of sorts when there is a sort and all of them have it.\<close>

definition common_width :: "sort list \<Rightarrow> nat option \<Rightarrow> bool" where
  "common_width ss w \<longleftrightarrow> (\<forall>n. w = Some n \<longleftrightarrow> ss \<noteq> [] \<and> (\<forall>s \<in> set ss. fixed_bits (encoding_of s) = Some n))"

lemma common_width_slot: "common_width (slot_leaves s) (slot_width s)"
  by (cases s) (auto simp: common_width_def)

lemma common_width_join:
  assumes "common_width as wa" "common_width bs wb"
  shows "common_width (as @ bs) (join_width (length as, wa) (length bs, wb))"
proof (cases "as = [] \<or> bs = []")
  case True
  then show ?thesis using assms by (auto simp: join_width_def common_width_def)
next
  case False
  show ?thesis
  proof -
    have "join_width (length as, wa) (length bs, wb) = Some n \<longleftrightarrow> wa = Some n \<and> wb = Some n" for n
      using False by (auto simp: join_width_def)
    moreover have "wa = Some n \<longleftrightarrow> (\<forall>s \<in> set as. fixed_bits (encoding_of s) = Some n)"
      "wb = Some n \<longleftrightarrow> (\<forall>s \<in> set bs. fixed_bits (encoding_of s) = Some n)" for n
      using assms False by (simp_all add: common_width_def)
    ultimately show ?thesis
      using False unfolding common_width_def by (simp add: ball_Un)
  qed
qed

lemma common_width_list: "common_width (concat (map slot_leaves ss)) (snd (list_width ss))"
proof (induction ss)
  case Nil
  then show ?case by (simp add: common_width_def)
next
  case (Cons s ss)
  have "list_width ss = (length (concat (map slot_leaves ss)), snd (list_width ss))"
    by (metis list_width_count prod.collapse)
  then show ?case
    using common_width_join [OF common_width_slot Cons.IH, of s] by simp
qed

lemma common_width_registry: "common_width (leaves r) (width r)"
proof (induction r)
  case (Reg_bin l r)
  then show ?case using common_width_join [OF Reg_bin] by (simp add: count_leaves)
next
  case (Reg_list ss)
  then show ?case using common_width_list by simp
qed (use common_width_slot [of "Leaf (Unsorted _ _)"] common_width_slot in \<open>auto simp: common_width_def\<close>)

section \<open>Extension preserves codes\<close>

lemma visit_slot_Inr [simp]: "visit_slot s r = (Inr x, r') \<longleftrightarrow> s = Leaf x \<and> r' = r"
  by (cases s) auto

lemma list_at_leaves: "list_at i code ss r = (Inr x, r') \<Longrightarrow> x \<in> set (concat (map slot_leaves ss)) \<and> r' = r"
  by (induction i code ss rule: list_at.induct) (auto split: if_splits)

lemma list_at_extends:
  "list_extends os ns \<Longrightarrow> list_at i code os r = (Inr x, r') \<Longrightarrow> list_at i code ns r = (Inr x, r')"
proof (induction os ns arbitrary: i rule: list_extends.induct)
  case (3 s ss n ns)
  then show ?case by (cases "code = of_nat i") auto
qed simp_all

lemma dispatch_leaves: "dispatch rd a r = (Inr x, r') \<Longrightarrow> x \<in> set (leaves a)"
  by (induction a arbitrary: r)
     (auto simp: bindM_eq_Inr dest: list_at_leaves split: if_splits)

lemma dispatch_empty: "count a = 0 \<Longrightarrow> dispatch rd a r = (Inr x, r') \<Longrightarrow> False"
  using dispatch_leaves [of rd a r x r'] by (auto simp: count_leaves)

lemma dispatch_extension:
  "extension a b \<Longrightarrow> dispatch rd a r = (Inr x, r') \<Longrightarrow> dispatch rd b r = (Inr x, r')"
proof (induction a b arbitrary: r rule: extension.induct)
  case (1 o1 o2 n1 n2)
  then show ?case by (auto simp: bindM_eq_Inr dest: dispatch_empty split: if_splits)
next
  case (2 os ns)
  then show ?case using list_at_extends by (auto simp: bindM_eq_Inr)
qed auto

lemma extension_refl: "extension a a"
proof (induction a)
  case (Reg_list ss)
  have "list_extends ss ss" by (induction ss) auto
  then show ?case by simp
qed auto

lemma list_extends_trans: "list_extends as bs \<Longrightarrow> list_extends bs cs \<Longrightarrow> list_extends as cs"
proof (induction as bs arbitrary: cs rule: list_extends.induct)
  case (3 s ss n ns)
  then show ?case by (cases cs) auto
qed auto

lemma list_extends_count: "list_extends os ns \<Longrightarrow> fst (list_width os) \<le> fst (list_width ns)"
  by (induction os ns rule: list_extends.induct) auto

lemma extension_count: "extension a b \<Longrightarrow> count a \<le> count b"
  by (induction a b rule: extension.induct) (auto simp: list_extends_count)

lemma extension_trans: "extension a b \<Longrightarrow> extension b c \<Longrightarrow> extension a c"
proof (induction a b arbitrary: c rule: extension.induct)
  case (1 o1 o2 n1 n2)
  then obtain m1 m2 where c: "c = Reg_bin m1 m2" by (cases c) auto
  then show ?case
    using 1 extension_count [of o1 n1] extension_count [of o2 n2] by auto
next
  case (2 os ns)
  then show ?case by (cases c) (auto intro: list_extends_trans)
next
  case (3 t e s)
  then show ?case by (cases c) auto
next
  case (4 s t e)
  then show ?case by (cases c) auto
qed auto

section \<open>The code table\<close>

text \<open>A reader over a list of bits, most significant first, and the codes of each sort.\<close>

definition bit_reader :: "bool list reader" where
  "bit_reader w = (\<lambda>bs. if length bs < w then (Inl (Out_of_range ''truncated''), bs)
     else (Inr (of_nat (bits_value (take w bs))), drop w bs))"

fun codes :: "registry \<Rightarrow> (bool list \<times> sort) list" where
  "codes (Reg_unsorted t e) = [([], Unsorted t e)]"
| "codes Reg_undefined = []"
| "codes (Reg_tip s) = map (Pair []) (slot_leaves s)"
| "codes (Reg_bin l r) = map (apfst (Cons False)) (codes l) @ map (apfst (Cons True)) (codes r)"
| "codes (Reg_list ss) =
     concat (map (\<lambda>i. map (Pair (bits_of 8 i)) (slot_leaves (ss ! i))) [0..<length ss])"

lemma read_discriminator:
  assumes "length c = w" "w \<le> 8"
  shows "discriminator bit_reader w (c @ rest) = (Inr (of_nat (bits_value c)), rest)"
proof -
  have "bits_value c < 2 ^ w" using assms bits_value_less [of c] by simp
  moreover have "(2 :: nat) ^ w \<le> 2 ^ 8" using assms(2) by (rule power_increasing) simp
  moreover have "push_bit w (1 :: u64) = of_nat (2 ^ w)" by (simp add: push_bit_eq_mult)
  ultimately have "(of_nat (bits_value c) :: u64) < push_bit w 1"
    by (simp add: of_nat_u64_less del: of_nat_power)
  then show ?thesis
    using assms(1) by (simp add: discriminator_def bindM_def bit_reader_def)
qed

lemma discriminator_Inr:
  "discriminator bit_reader w bs = (Inr code, rest) \<Longrightarrow> w \<le> 8 \<Longrightarrow>
     \<exists>c. bs = c @ rest \<and> length c = w \<and> code = of_nat (bits_value c)"
  by (rule exI [of _ "take w bs"]) (auto simp: discriminator_def bit_reader_def bindM_eq_Inr split: if_splits)

lemma list_at_nth:
  assumes "n < 256" "i \<le> n" "i + length ss \<le> 256"
  shows "list_at i (of_nat n) ss r = (Inr x, r') \<longleftrightarrow> n - i < length ss \<and> ss ! (n - i) = Leaf x \<and> r' = r"
  using assms(2,3)
proof (induction ss arbitrary: i)
  case (Cons s ss)
  have "(of_nat n :: u64) = of_nat i \<longleftrightarrow> n = i"
    using assms(1) Cons.prems by (simp add: word_of_nat_eq_iff take_bit_nat_eq_self)
  then show ?case using Cons by (cases "n = i") (auto simp: nth_Cons')
qed simp

lemma in_prefixed: "(c, x) \<in> apfst (Cons b) ` S \<longleftrightarrow> (\<exists>d. c = b # d \<and> (d, x) \<in> S)"
  by force

lemma in_slot_codes: "(c, x) \<in> Pair d ` set (slot_leaves s) \<longleftrightarrow> c = d \<and> s = Leaf x"
  by (cases s) auto

text \<open>The dispatcher reads exactly the codes of the table.\<close>

lemma dispatch_codes:
  "info_ok a \<Longrightarrow> dispatch bit_reader a bs = (Inr x, rest) \<longleftrightarrow> (\<exists>c. bs = c @ rest \<and> (c, x) \<in> set (codes a))"
proof (induction a arbitrary: bs)
  case (Reg_tip s)
  then show ?case by (cases s) auto
next
  case (Reg_bin l r)
  have IH: "dispatch bit_reader l bs = (Inr x, rest) \<longleftrightarrow> (\<exists>c. bs = c @ rest \<and> (c, x) \<in> set (codes l))"
    "dispatch bit_reader r bs = (Inr x, rest) \<longleftrightarrow> (\<exists>c. bs = c @ rest \<and> (c, x) \<in> set (codes r))" for bs
    using Reg_bin by simp_all
  show ?case
  proof (cases bs)
    case Nil
    then show ?thesis
      by (auto simp: bindM_eq_Inr discriminator_def bit_reader_def)
  next
    case (Cons b cs)
    have "discriminator bit_reader 1 (b # cs) = (Inr (of_bool b), cs)"
      using read_discriminator [of "[b]" 1 cs] by simp
    then show ?thesis using IH [of cs] Cons by (cases b) (auto simp: bindM_def in_prefixed)
  qed
next
  case (Reg_list ss)
  then have len: "length ss \<le> 256" by simp
  have "dispatch bit_reader (Reg_list ss) bs = (Inr x, rest) \<longleftrightarrow>
      (\<exists>c. bs = c @ rest \<and> length c = 8 \<and> bits_value c < length ss \<and> ss ! bits_value c = Leaf x)"
    (is "?L \<longleftrightarrow> ?R")
  proof
    assume ?L
    then obtain code s' where "discriminator bit_reader 8 bs = (Inr code, s')" "list_at 0 code ss s' = (Inr x, rest)"
      by (auto simp: bindM_eq_Inr)
    then obtain c where "bs = c @ s'" "length c = 8" "list_at 0 (of_nat (bits_value c)) ss s' = (Inr x, rest)"
      using discriminator_Inr [of 8 bs code s'] by auto
    then show ?R using list_at_nth [of "bits_value c" 0 ss s' x rest] bits_value_less [of c] len by auto
  next
    assume ?R
    then obtain c where "bs = c @ rest" "length c = 8" "bits_value c < length ss" "ss ! bits_value c = Leaf x"
      by blast
    then show ?L
      using read_discriminator [of c 8 rest] list_at_nth [of "bits_value c" 0 ss rest x rest]
        bits_value_less [of c] len by (simp add: bindM_def)
  qed
  moreover have "(c, x) \<in> set (codes (Reg_list ss)) \<longleftrightarrow>
      length c = 8 \<and> bits_value c < length ss \<and> ss ! bits_value c = Leaf x" for c
  proof -
    have "(c, x) \<in> set (codes (Reg_list ss)) \<longleftrightarrow> (\<exists>i < length ss. c = bits_of 8 i \<and> ss ! i = Leaf x)"
      by (auto simp: in_slot_codes)
    also have "\<dots> \<longleftrightarrow> length c = 8 \<and> bits_value c < length ss \<and> ss ! bits_value c = Leaf x"
      using len bits_of_value [of c] by (auto simp: bits_value_of)
    finally show ?thesis .
  qed
  ultimately show ?case by auto
qed auto

lemma codes_leaves: "map snd (codes a) = leaves a"
proof (induction a)
  case (Reg_list ss)
  have "map snd (codes (Reg_list ss)) = concat (map (\<lambda>i. slot_leaves (ss ! i)) [0..<length ss])"
    by (simp add: map_concat comp_def)
  also have "\<dots> = concat (map slot_leaves (map (\<lambda>i. ss ! i) [0..<length ss]))"
    by (simp add: comp_def)
  finally show ?case by (simp add: map_nth)
qed (simp_all add: comp_def)

lemma codes_prefix_free:
  assumes "info_ok a" "(c, x) \<in> set (codes a)" "(d, y) \<in> set (codes a)" "d = c @ e"
  shows "e = [] \<and> x = y"
proof -
  have "dispatch bit_reader a d = (Inr x, e)" "dispatch bit_reader a d = (Inr y, [])"
    using dispatch_codes [OF assms(1), of d] assms(2-4) by auto
  then show ?thesis by simp
qed

lemma dispatch_extends:
  assumes "extends a b" "dispatch rd a r = (Inr x, r')"
  shows "dispatch rd b r = (Inr x, r')"
proof -
  have "count a \<noteq> 0" by (rule notI) (rule dispatch_empty [OF _ assms(2)])
  then show ?thesis using assms dispatch_extension [of a b rd r x r'] by (simp add: extends_def)
qed

lemma extends_trans: "extends a b \<Longrightarrow> extends b c \<Longrightarrow> extends a c"
  using extension_trans extension_count unfolding extends_def by fastforce

section \<open>Properties\<close>

text \<open>
  C18. Extending a registry changes no occupied code: whatever reader supplies the bits, a
  dispatch that selects a sort under the old registry selects the same sort and leaves the
  same reader under the new one. Extension is reflexive and transitive, so this holds along
  any chain of upgrades.
\<close>

theorem extension_preserves_codes:
  assumes "registry_extends a b" "dispatch rd a r = (Inr x, r')"
  shows "dispatch rd b r = (Inr x, r') \<and> registry_extends a a \<and>
    (\<forall>c. registry_extends b c \<longrightarrow> registry_extends a c \<and> dispatch rd c r = (Inr x, r'))"
proof -
  have e: "extends a b" "registry_ok a" "registry_ok b" using assms(1) by (simp_all add: registry_extends_def)
  have b: "dispatch rd b r = (Inr x, r')" by (rule dispatch_extends [OF e(1) assms(2)])
  have "registry_extends a a" using e(2) extension_refl [of a] by (simp add: registry_extends_def extends_def)
  moreover have "registry_extends a c \<and> dispatch rd c r = (Inr x, r')" if "registry_extends b c" for c
  proof -
    have c: "extends b c" "registry_ok c" using that by (simp_all add: registry_extends_def)
    have "extends a c" by (rule extends_trans [OF e(1) c(1)])
    moreover have "dispatch rd c r = (Inr x, r')" by (rule dispatch_extends [OF c(1) b])
    ultimately show ?thesis using c(2) e(2) by (simp add: registry_extends_def)
  qed
  ultimately show ?thesis using b by blast
qed

definition text_sort :: sort where
  "text_sort = Unsorted ''optional string'' \<lparr>unit_of = Byte, fixed_bits = None\<rparr>"

definition old_registry :: registry where
  "old_registry = Reg_bin (Reg_tip (Leaf text_sort)) Reg_undefined"

definition new_registry :: registry where
  "new_registry = Reg_bin (Reg_tip (Leaf text_sort))
     (Reg_list [Hole, Leaf (Sort ''count'' \<lparr>unit_of = Byte, fixed_bits = Some 64\<rparr>)])"

lemma extension_preserves_codes_witness:
  "dispatch bit_reader new_registry [False, True] = (Inr text_sort, [True])"
proof -
  have "registry_extends old_registry new_registry" by code_simp
  moreover have "dispatch bit_reader old_registry [False, True] = (Inr text_sort, [True])"
    by (simp add: old_registry_def discriminator_def bit_reader_def bindM_def)
  ultimately show ?thesis by (rule extension_preserves_codes [THEN conjunct1])
qed

text \<open>
  C19. The code table is what the dispatcher reads: over a bit stream, a dispatch under an
  admitted registry selects a sort exactly when the stream starts with that sort's code, and
  it consumes that code and nothing more. Every sort of the registry has exactly one code and
  no code is a prefix of another.
\<close>

theorem dispatch_reads_code_table:
  assumes "registry_ok a"
  shows "(dispatch bit_reader a bs = (Inr x, rest) \<longleftrightarrow> (\<exists>c. bs = c @ rest \<and> (c, x) \<in> set (codes a))) \<and>
    (x \<in> set (leaves a) \<longrightarrow> (\<exists>!c. (c, x) \<in> set (codes a))) \<and>
    (\<forall>c d y. (c, x) \<in> set (codes a) \<longrightarrow> (c @ d, y) \<in> set (codes a) \<longrightarrow> d = [] \<and> y = x)"
proof -
  have ok: "info_ok a" "distinct (leaves a)" using assms by (simp_all add: registry_ok_def)
  have "\<exists>!c. (c, x) \<in> set (codes a)" if x: "x \<in> set (leaves a)"
  proof -
    have d: "distinct (map snd (codes a))" using ok(2) by (simp add: codes_leaves)
    have "x \<in> set (map snd (codes a))" using x by (simp add: codes_leaves)
    then obtain c where "(c, x) \<in> set (codes a)" by auto
    moreover have "c = c'" if "(c, x) \<in> set (codes a)" "(c', x) \<in> set (codes a)" for c c'
      using d that inj_onD [of snd "set (codes a)" "(c, x)" "(c', x)"] by (auto simp: distinct_map)
    ultimately show ?thesis by blast
  qed
  moreover have "d = [] \<and> y = x" if "(c, x) \<in> set (codes a)" "(c @ d, y) \<in> set (codes a)" for c d y
    using codes_prefix_free [OF ok(1) that refl] by simp
  ultimately show ?thesis
    by (simp add: dispatch_codes [OF ok(1)])
qed

lemma dispatch_reads_code_table_witness:
  "dispatch bit_reader new_registry ([True, False, False, False, False, False, False, False, True] @ [True]) =
     (Inr (Sort ''count'' \<lparr>unit_of = Byte, fixed_bits = Some 64\<rparr>), [True])"
proof -
  have "registry_ok new_registry" by code_simp
  moreover have "([True, False, False, False, False, False, False, False, True],
      Sort ''count'' \<lparr>unit_of = Byte, fixed_bits = Some 64\<rparr>) \<in> set (codes new_registry)" by code_simp
  ultimately show ?thesis
    using dispatch_reads_code_table [THEN conjunct1, of new_registry] by blast
qed

text \<open>
  The inferred value width is the common one: a registry has a fixed width exactly when
  it has a sort and every one of its sorts has that width; holes impose nothing.
\<close>

theorem width_is_common:
  "width a = Some w \<longleftrightarrow> leaves a \<noteq> [] \<and> (\<forall>s \<in> set (leaves a). fixed_bits (encoding_of s) = Some w)"
  using common_width_registry [of a] by (simp add: common_width_def)

lemma width_is_common_witness: "width new_registry \<noteq> Some 64"
  unfolding width_is_common by code_simp

end
