(* ===== verification/WordView.thy ===== *)
theory WordView
  imports Bits
begin

text \<open>
  Words in byte storage (\<open>word_view.h\<close>, \<open>key_detail.h\<close>): checked views of native or portable
  little-endian words, big-endian loads and stores, and the longest common prefix of two byte
  strings computed a word at a time. The host's byte order is a parameter of every operation;
  the laws hold for both.
\<close>

section \<open>Memory access\<close>

text \<open>
  \<open>memcpy\<close> between eight bytes and a word: byte \<open>i\<close> is the \<open>i\<close>-th least significant one on a
  little-endian host. Reading outside the storage is undefined behaviour.
\<close>

definition native_value :: "bool \<Rightarrow> u8 list \<Rightarrow> u64" where
  "native_value little bs = wbits (all_bits (if little then rev bs else bs))"

definition native_bytes :: "bool \<Rightarrow> u64 \<Rightarrow> u8 list" where
  "native_bytes little x =
     (let bs = map (\<lambda>i. ucast (drop_bit (56 - 8 * i) x)) [0..<8] in if little then rev bs else bs)"

definition memcpy_load :: "bool \<Rightarrow> u8 list \<Rightarrow> nat \<Rightarrow> u64 res" where
  "memcpy_load little bs at = (if at + 8 \<le> length bs then Inr (native_value little (take 8 (drop at bs)))
     else Inl (Undefined ''read outside storage''))"

definition memcpy_store :: "u8 list \<Rightarrow> nat \<Rightarrow> u8 list \<Rightarrow> u8 list res" where
  "memcpy_store bs at src = (if at + length src \<le> length bs
     then Inr (take at bs @ src @ drop (at + length src) bs)
     else Inl (Undefined ''write outside storage''))"

definition read_byte :: "u8 list \<Rightarrow> nat \<Rightarrow> u8 res" where
  "read_byte bs at = (if at < length bs then Inr (bs ! at) else Inl (Undefined ''read outside storage''))"

definition reverse_bytes :: "u64 \<Rightarrow> u64" where
  "reverse_bytes x =
     (let x = push_bit 8 (x AND 0x00ff00ff00ff00ff) OR (drop_bit 8 x AND 0x00ff00ff00ff00ff);
          x = push_bit 16 (x AND 0x0000ffff0000ffff) OR (drop_bit 16 x AND 0x0000ffff0000ffff)
      in push_bit 32 x OR drop_bit 32 x)"

definition load_big :: "bool \<Rightarrow> u8 list \<Rightarrow> nat \<Rightarrow> u64 res" where
  "load_big little bs at = bindE (memcpy_load little bs at) (\<lambda>value.
     Inr (if little then reverse_bytes value else value))"

definition store_big :: "bool \<Rightarrow> u8 list \<Rightarrow> nat \<Rightarrow> u64 \<Rightarrow> u8 list res" where
  "store_big little bs at value =
     memcpy_store bs at (native_bytes little (if little then reverse_bytes value else value))"

section \<open>Word and sample views\<close>

record word_view =
  vbytes :: "u8 list"
  vlittle :: bool

definition native_words :: "bool \<Rightarrow> u64 list \<Rightarrow> word_view" where
  "native_words little ws = \<lparr>vbytes = concat (map (native_bytes little) ws), vlittle = little\<rparr>"

definition little_endian_words :: "u8 list \<Rightarrow> word_view res" where
  "little_endian_words bs =
     (if length bs mod 8 \<noteq> 0 then Inl (Invalid_argument ''word section length is not a multiple of eight'')
      else Inr \<lparr>vbytes = bs, vlittle = True\<rparr>)"

definition view_size :: "word_view \<Rightarrow> nat" where
  "view_size v = length (vbytes v) div 8"

definition subspan :: "word_view \<Rightarrow> nat \<Rightarrow> nat option \<Rightarrow> word_view res" where
  "subspan v offset n =
     (if offset > view_size v then Inl (Out_of_range ''word section offset'')
      else let n' = (case n of None \<Rightarrow> view_size v - offset | Some n \<Rightarrow> n) in
        if n' > view_size v - offset then Inl (Out_of_range ''word section length'')
        else Inr (v\<lparr>vbytes := take (8 * n') (drop (8 * offset) (vbytes v))\<rparr>))"

definition word_at :: "bool \<Rightarrow> word_view \<Rightarrow> nat \<Rightarrow> u64 res" where
  "word_at host v i =
     (if i \<ge> view_size v then Inl (Out_of_range ''word section index'')
      else bindE (memcpy_load host (vbytes v) (8 * i)) (\<lambda>value.
        Inr (if \<not> host \<and> vlittle v then reverse_bytes value else value)))"

record sample_value =
  sample_first :: u64
  sample_sparse :: u64

definition little_endian_samples :: "u8 list \<Rightarrow> word_view res" where
  "little_endian_samples bs =
     (if length bs mod 16 \<noteq> 0 then Inl (Invalid_argument ''sample section length is not a multiple of sixteen'')
      else little_endian_words bs)"

definition sample_at :: "bool \<Rightarrow> word_view \<Rightarrow> nat \<Rightarrow> sample_value res" where
  "sample_at host v i =
     (if i \<ge> view_size v div 2 then Inl (Out_of_range ''sample section index'')
      else bindE (word_at host v (2 * i)) (\<lambda>a. bindE (word_at host v (2 * i + 1)) (\<lambda>b.
        Inr \<lparr>sample_first = a, sample_sparse = b\<rparr>)))"

section \<open>Common prefixes\<close>

text \<open>
  The scalar path of \<open>common_bytes\<close>: whole words while eight bytes remain, then bytes. The
  first component tells whether a differing word decided the result.
\<close>

function common_words :: "bool \<Rightarrow> u8 list \<Rightarrow> u8 list \<Rightarrow> nat \<Rightarrow> nat \<Rightarrow> (bool \<times> nat) res" where
  "common_words little a b n at =
     (if n - at \<ge> 8 then
        bindE (memcpy_load little a at) (\<lambda>x. bindE (memcpy_load little b at) (\<lambda>y.
        let different = x XOR y in
        if different \<noteq> 0 then
          Inr (True, at + (if little then countr_zero different else countl_zero different) div 8)
        else common_words little a b n (at + 8)))
      else Inr (False, at))"
  by auto
termination by (relation "measure (\<lambda>(little, a, b, n, at). n - at)") auto

function common_tail :: "u8 list \<Rightarrow> u8 list \<Rightarrow> nat \<Rightarrow> nat \<Rightarrow> nat res" where
  "common_tail a b n at =
     (if at = n then Inr at
      else if at < length a \<and> at < length b then
        if a ! at = b ! at then common_tail a b n (at + 1) else Inr at
      else Inl (Undefined ''read outside storage''))"
  by auto
termination by (relation "measure (\<lambda>(a, b, n, at). length a - at)") auto

declare common_words.simps [simp del] common_tail.simps [simp del]

definition common_bytes :: "bool \<Rightarrow> u8 list \<Rightarrow> u8 list \<Rightarrow> nat \<Rightarrow> nat res" where
  "common_bytes little a b n = bindE (common_words little a b n 0) (\<lambda>(decided, at).
     if decided then Inr at else common_tail a b n at)"

section \<open>Byte order\<close>

lemma byte_index: "\<forall>k \<in> {0..<64 :: nat}. (63 - k) div 8 = 7 - k div 8 \<and> 7 - (63 - k) mod 8 = k mod 8 \<and> k div 8 < 8 \<and>
    56 - 8 * (7 - k div 8) + k mod 8 = k"
  by code_simp

lemma bit_native_value:
  assumes "length bs = 8" "k < 64"
  shows "bit (native_value little bs) k = bit (bs ! (if little then k div 8 else 7 - k div 8)) (k mod 8)"
proof -
  have m: "(63 - k) div 8 = 7 - k div 8" "7 - (63 - k) mod 8 = k mod 8" "k div 8 < 8"
    using byte_index assms(2) by simp_all
  have "bit (native_value little bs) k = all_bits (if little then rev bs else bs) ! (63 - k)"
    using assms by (simp add: native_value_def bit_wbits)
  also have "\<dots> = bit ((if little then rev bs else bs) ! (7 - k div 8)) (k mod 8)"
    using nth_all_bits [of "63 - k" "if little then rev bs else bs"] assms(1) unfolding m by simp
  finally show ?thesis
    using assms(1) m(3) by (cases little) (simp_all add: rev_nth)
qed

lemma bit_reverse_bytes:
  assumes "k < 64"
  shows "bit (reverse_bytes x) k = bit x (8 * (7 - k div 8) + k mod 8)"
proof -
  have "\<forall>k \<in> {0..<64}. bit (reverse_bytes x) k = bit x (8 * (7 - k div 8) + k mod 8)"
    by (simp add: atLeastLessThan_nat_numeral reverse_bytes_def Let_def bit_simps flip: numeral_2_eq_2)
  then show ?thesis using assms by simp
qed

lemma reverse_native:
  assumes "length bs = 8"
  shows "reverse_bytes (native_value little bs) = native_value (\<not> little) bs"
proof (rule bit_word_eqI)
  fix k assume "k < LENGTH(64)"
  then have k: "k < 64" by simp
  then have "k div 8 < 8" by simp
  then have "8 * (7 - k div 8) + k mod 8 < 64" "(8 * (7 - k div 8) + k mod 8) div 8 = 7 - k div 8"
    by (simp_all add: div_mult_self3)
  then show "bit (reverse_bytes (native_value little bs)) k = bit (native_value (\<not> little) bs) k"
    using k \<open>k div 8 < 8\<close> by (simp add: bit_reverse_bytes bit_native_value [OF assms])
qed

lemma length_native_bytes [simp]: "length (native_bytes little x) = 8"
  by (simp add: native_bytes_def Let_def)

lemma native_value_bytes: "native_value little (native_bytes little x) = x"
proof -
  let ?bs = "map (\<lambda>i. ucast (drop_bit (56 - 8 * i) x)) [0..<8] :: u8 list"
  have v: "native_value False ?bs = x"
  proof (rule bit_word_eqI)
    fix k assume "k < LENGTH(64)"
    then have k: "k < 64" and k8: "k div 8 < 8" by simp_all
    have "56 - 8 * (7 - k div 8) + k mod 8 = k" using byte_index k by simp
    moreover have "bit (native_value False ?bs) k = bit x (56 - 8 * (7 - k div 8) + k mod 8)"
      using k k8 bit_native_value [of ?bs k False]
      by (simp add: bit_ucast_iff bit_drop_bit_eq del: add_diff_assoc2 diff_diff_left)
    ultimately show "bit (native_value False ?bs) k = bit x k" by (simp only:)
  qed
  show ?thesis
    using v by (simp add: native_value_def native_bytes_def Let_def)
qed

lemma all_bits_native: "all_bits (native_bytes False x) = word_bits 64 x"
proof -
  have "wbits (all_bits (native_bytes False x)) = wbits (word_bits 64 x)"
    using native_value_bytes [of False x] by (simp add: native_value_def)
  then show ?thesis
    using wbits_eq_iff [of "all_bits (native_bytes False x)" "word_bits 64 x"] by simp
qed

lemma native_bytes_reverse: "native_bytes True (reverse_bytes x) = native_bytes False x"
proof -
  have "native_value False (native_bytes True (reverse_bytes x)) = x"
  proof -
    have "native_value True (native_bytes True (reverse_bytes x)) = reverse_bytes x"
      by (rule native_value_bytes)
    then have "reverse_bytes (reverse_bytes x) = native_value False (native_bytes True (reverse_bytes x))"
      using reverse_native [of "native_bytes True (reverse_bytes x)" True] by simp
    moreover have "reverse_bytes (reverse_bytes x) = x"
      using reverse_native [of "native_bytes False x" False] reverse_native [of "native_bytes False x" True]
      by (simp add: native_value_bytes)
    ultimately show ?thesis by simp
  qed
  then have "all_bits (native_bytes True (reverse_bytes x)) = word_bits 64 x"
    using wbits_eq_iff [of "all_bits (native_bytes True (reverse_bytes x))" "word_bits 64 x"]
    by (simp add: native_value_def)
  then show ?thesis by (intro all_bits_inj) (simp add: all_bits_native)
qed

text \<open>On either host a big-endian load is the word of the next 64 bits, and a store writes them.\<close>

lemma load_big_wbits:
  "at + 8 \<le> length bs \<Longrightarrow> load_big little bs at = Inr (wbits (all_bits (take 8 (drop at bs))))"
  by (cases little) (simp_all add: load_big_def memcpy_load_def reverse_native, simp_all add: native_value_def)

lemma store_big_bits:
  "at + 8 \<le> length bs \<Longrightarrow> store_big little bs at x = Inr (take at bs @ native_bytes False x @ drop (at + 8) bs)"
  by (cases little) (simp_all add: store_big_def memcpy_store_def native_bytes_reverse)

section \<open>Views\<close>

lemma nth_chunk:
  "(\<And>x. length (f x) = n) \<Longrightarrow> i < length xs \<Longrightarrow> take n (drop (n * i) (concat (map f xs))) = f (xs ! i)"
proof (induction xs arbitrary: i)
  case (Cons x xs)
  then show ?case by (cases i) (simp_all add: drop_Cons')
qed simp

lemma length_chunks: "(\<And>x. length (f x) = n) \<Longrightarrow> length (concat (map f xs)) = n * length xs"
  by (induction xs) simp_all

lemma memcpy_chunk:
  assumes "8 * i + 8 \<le> length bs"
  shows "memcpy_load little bs (8 * i) = Inr (native_value little (take 8 (drop (8 * i) bs)))"
  using assms by (simp add: memcpy_load_def)

lemma word_at_in:
  assumes "i < view_size v"
  shows "word_at host v i = Inr (native_value (if host then True else vlittle v) (take 8 (drop (8 * i) (vbytes v))))"
proof -
  have len: "8 * i + 8 \<le> length (vbytes v)"
    using assms by (simp add: view_size_def)
  then have "length (take 8 (drop (8 * i) (vbytes v))) = 8" by simp
  then show ?thesis
    using assms len by (auto simp: word_at_def memcpy_chunk reverse_native)
qed

section \<open>Common prefixes\<close>

lemma inj_byte_bits: "inj byte_bits" and inj_rev_byte_bits: "inj (rev \<circ> byte_bits)"
  by (auto simp: inj_def byte_bits_inj)

lemma rev_all_bits: "rev (all_bits (rev bs)) = concat (map (rev \<circ> byte_bits) bs)"
  by (induction bs) simp_all

text \<open>The first differing bit of two words falls into the first differing byte.\<close>

lemma differing_word:
  assumes "length as = 8" "length bs = 8" "as \<noteq> bs"
  shows "(if little then countr_zero (native_value little as XOR native_value little bs)
     else countl_zero (native_value little as XOR native_value little bs)) div 8 = lcp as bs"
proof (cases little)
  case True
  have "countr_zero (wbits (all_bits (rev as)) XOR wbits (all_bits (rev bs))) =
      lcp (concat (map (rev \<circ> byte_bits) as)) (concat (map (rev \<circ> byte_bits) bs))"
    using assms countr_zero_xor [of "all_bits (rev as)" "all_bits (rev bs)"] by (simp add: rev_all_bits)
  then show ?thesis
    using True lcp_blocks [OF _ inj_rev_byte_bits, of 8 as bs] assms by (simp add: native_value_def)
next
  case False
  then show ?thesis
    using countl_zero_xor [of "all_bits as" "all_bits bs"] lcp_blocks [OF _ inj_byte_bits, of 8 as bs] assms
    by (simp add: native_value_def flip: all_bits_def)
qed

lemma native_value_eq: "length as = 8 \<Longrightarrow> length bs = 8 \<Longrightarrow> native_value l as = native_value l bs \<longleftrightarrow> as = bs"
  using all_bits_inj by (auto simp: native_value_def wbits_eq_iff)

text \<open>What the word loop leaves: the answer, or full agreement up to a position with fewer than eight bytes to go.\<close>

lemma common_words_spec:
  assumes "n \<le> length a" "n \<le> length b"
  shows "at \<le> n \<Longrightarrow> take at a = take at b \<Longrightarrow>
    \<exists>d p. common_words little a b n at = Inr (d, p) \<and> p \<le> n \<and> take p a = take p b \<and>
      (d \<longrightarrow> p = lcp (take n a) (take n b))"
proof (induction "n - at" arbitrary: at rule: less_induct)
  case less
  show ?case
  proof (cases "n - at \<ge> 8")
    case False
    then have "common_words little a b n at = Inr (False, at)"
      by (simp add: common_words.simps [of _ _ _ _ at])
    then show ?thesis using less.prems by blast
  next
    case True
    let ?x = "take 8 (drop at a)" and ?y = "take 8 (drop at b)"
    have len: "length ?x = 8" "length ?y = 8" and in': "at + 8 \<le> length a" "at + 8 \<le> length b"
      using True assms by simp_all
    have split: "take n a = take at a @ ?x @ drop (at + 8) (take n a)"
      "take n b = take at b @ ?y @ drop (at + 8) (take n b)"
      using True by (simp_all add: drop_take take_add [symmetric] flip: append_assoc)
    show ?thesis
    proof (cases "?x = ?y")
      case True
      have "take (at + 8) a = take (at + 8) b" using less.prems(2) True by (simp add: take_add)
      from less.hyps [OF _ _ this] show ?thesis
        using \<open>n - at \<ge> 8\<close> True in' by (simp add: common_words.simps [of _ _ _ _ at] memcpy_load_def Let_def)
    next
      case False
      have "lcp (take n a) (take n b) = at + lcp ?x ?y"
        using False len less.prems assms
        by (subst split(1), subst split(2)) (simp add: lcp_append)
      moreover have "lcp ?x ?y < 8" using False len lcp_eq_length [of ?x ?y] lcp_le(1) [of ?x ?y] by linarith
      moreover have "take (lcp (take n a) (take n b)) a = take (lcp (take n a) (take n b)) b"
      proof -
        have "lcp (take n a) (take n b) \<le> n" using lcp_le(1) [of "take n a" "take n b"] by simp
        then show ?thesis using lcp_take [of "take n a" "take n b"] by (simp add: min.absorb1)
      qed
      ultimately show ?thesis
        using differing_word [OF len False, of little] native_value_eq [OF len, of little] False
          \<open>n - at \<ge> 8\<close> in' by (auto simp: common_words.simps [of _ _ _ _ at] memcpy_load_def Let_def xor_eq_0)
    qed
  qed
qed

lemma common_tail_spec:
  assumes "n \<le> length a" "n \<le> length b"
  shows "at \<le> n \<Longrightarrow> take at a = take at b \<Longrightarrow> common_tail a b n at = Inr (lcp (take n a) (take n b))"
proof (induction "n - at" arbitrary: at rule: less_induct)
  case less
  show ?case
  proof (cases "at = n")
    case True
    then show ?thesis using less.prems(2) assms by (simp add: common_tail.simps)
  next
    case False
    then have i: "at < n" "at < length a" "at < length b" using less.prems assms by simp_all
    show ?thesis
    proof (cases "a ! at = b ! at")
      case True
      then have "take (Suc at) a = take (Suc at) b" using less.prems(2) i by (simp add: take_Suc_conv_app_nth)
      then show ?thesis using less.hyps [of "Suc at"] i True by (simp add: common_tail.simps [of a b n at])
    next
      case False
      have "take n a = take at a @ a ! at # drop (Suc at) (take n a)" "take n b = take at b @ b ! at # drop (Suc at) (take n b)"
        using i id_take_nth_drop [of at "take n a"] id_take_nth_drop [of at "take n b"] assms by simp_all
      then have "lcp (take n a) (take n b) = at"
        using less.prems(2) False i by (metis (no_types, lifting) add.right_neutral lcp.simps(1) lcp_append length_take min.absorb2 nat_less_le)
      then show ?thesis using i False by (simp add: common_tail.simps [of a b n at])
    qed
  qed
qed

lemma common_bytes_lcp:
  assumes "n \<le> length a" "n \<le> length b"
  shows "common_bytes little a b n = Inr (lcp (take n a) (take n b))"
proof -
  obtain d p where w: "common_words little a b n 0 = Inr (d, p)" "p \<le> n" "take p a = take p b"
    "d \<longrightarrow> p = lcp (take n a) (take n b)"
    using common_words_spec [OF assms, of 0 little] by auto
  then show ?thesis
    using common_tail_spec [OF assms w(2,3)] by (simp add: common_bytes_def)
qed

section \<open>Words as bytes\<close>

text \<open>A section of words in either byte order; a native one has the host's order.\<close>

definition word_section :: "bool \<Rightarrow> u64 list \<Rightarrow> word_view" where
  "word_section little ws = \<lparr>vbytes = concat (map (native_bytes little) ws), vlittle = little\<rparr>"

lemma native_words_section: "native_words host ws = word_section host ws"
  by (simp add: native_words_def word_section_def)

lemma view_size_section [simp]: "view_size (word_section little ws) = length ws"
  using length_chunks [of "native_bytes little" 8 ws] by (simp add: view_size_def word_section_def)

lemma word_at_section:
  assumes "i < length ws" "little = host \<or> little"
  shows "word_at host (word_section little ws) i = Inr (ws ! i)"
  using assms word_at_in [of i "word_section little ws" host] nth_chunk [of "native_bytes little" 8 i ws]
  by (auto simp: native_value_bytes) (auto simp: word_section_def native_value_bytes)

section \<open>Properties\<close>

text \<open>
  Word sections are portable: on a host of either byte order, a view over native words
  reads back exactly those words, a view over a byte section reads the little-endian words
  of the section, and an index past the end throws instead of reading.
\<close>

theorem word_sections_portable:
  "word_at host (native_words host ws) i =
     (if i < length ws then Inr (ws ! i) else Inl (Out_of_range ''word section index'')) \<and>
   little_endian_words (concat (map (native_bytes True) ws)) =
     Inr \<lparr>vbytes = concat (map (native_bytes True) ws), vlittle = True\<rparr> \<and>
   word_at host \<lparr>vbytes = concat (map (native_bytes True) ws), vlittle = True\<rparr> i =
     (if i < length ws then Inr (ws ! i) else Inl (Out_of_range ''word section index''))"
proof -
  have len: "length (concat (map (native_bytes l) ws)) = 8 * length ws" for l
    by (rule length_chunks) simp
  have "word_at host (word_section l ws) i =
      (if i < length ws then Inr (ws ! i) else Inl (Out_of_range ''word section index''))" if "l = host \<or> l" for l
    using that word_at_section [of i ws l host] by (simp add: word_at_def view_size_section)
  then show ?thesis
    by (auto simp: native_words_def little_endian_words_def len word_section_def)
qed

text \<open>
  Big-endian access is host independent: storing a word big-endian and loading it back
  returns it on either host, both hosts write the same bytes, the neighbouring bytes are
  untouched, and the stored bytes spell the word most significant bit first.
\<close>

theorem big_endian_round_trip:
  assumes "at + 8 \<le> length bs"
  shows "\<exists>bs'. (\<forall>host. store_big host bs at x = Inr bs' \<and> load_big host bs' at = Inr x) \<and>
    length bs' = length bs \<and> take at bs' = take at bs \<and> drop (at + 8) bs' = drop (at + 8) bs \<and>
    all_bits (take 8 (drop at bs')) = word_bits 64 x"
proof (intro exI conjI allI)
  let ?bs = "take at bs @ native_bytes False x @ drop (at + 8) bs"
  have mid: "take 8 (drop at ?bs) = native_bytes False x" using assms by simp
  fix host
  show "store_big host bs at x = Inr ?bs" by (rule store_big_bits [OF assms])
  have "load_big host ?bs at = Inr (wbits (all_bits (take 8 (drop at ?bs))))"
    by (rule load_big_wbits) (use assms in simp)
  then show "load_big host ?bs at = Inr x" unfolding mid by (simp add: all_bits_native)
  show "length ?bs = length bs" "take at ?bs = take at bs" "drop (at + 8) ?bs = drop (at + 8) bs"
    using assms by simp_all
  show "all_bits (take 8 (drop at ?bs)) = word_bits 64 x"
    unfolding mid by (rule all_bits_native)
qed

lemma big_endian_round_trip_witness:
  "\<exists>bs'. store_big True [1, 2, 3, 4, 5, 6, 7, 8, 9] 1 258 = Inr bs' \<and> load_big True bs' 1 = Inr 258 \<and> take 1 bs' = [1]"
  using big_endian_round_trip [of 1 "[1, 2, 3, 4, 5, 6, 7, 8, 9]" 258] by force

text \<open>
  The word-at-a-time comparison computes the longest common prefix of the two byte
  strings on either host, and never reads outside them.
\<close>

theorem common_bytes_is_lcp:
  assumes "n \<le> length a" "n \<le> length b"
  shows "common_bytes host a b n = Inr (lcp (take n a) (take n b))"
  by (rule common_bytes_lcp [OF assms])

lemma common_bytes_is_lcp_witness:
  "common_bytes True [1, 2, 3, 4, 5, 6, 7, 8, 9, 10] [1, 2, 3, 4, 5, 6, 7, 8, 9, 11] 10 = Inr 9"
  using common_bytes_is_lcp [of 10 "[1, 2, 3, 4, 5, 6, 7, 8, 9, 10]" "[1, 2, 3, 4, 5, 6, 7, 8, 9, 11]" True]
  by simp

end
