(* ===== verification/BitString.thy ===== *)
theory BitString
  imports WordView
begin

text \<open>
  Packed bit strings (\<open>profile.h\<close>): views that may begin inside a byte, bounded fields loaded
  from and stored into byte storage, the overlapping bit copy, owned strings with canonical
  padding, and the comparison of two views. The abstraction of a view is its list of bits.
\<close>

section \<open>Checked arithmetic\<close>

definition profile_add :: "nat \<Rightarrow> nat \<Rightarrow> nat res" where
  "profile_add a b = (if b > u64_max - a then Inl (Overflow_error ''profile addition'') else Inr (a + b))"

definition profile_multiply :: "nat \<Rightarrow> nat \<Rightarrow> nat res" where
  "profile_multiply a b = (if b \<noteq> 0 \<and> a > u64_max div b
     then Inl (Overflow_error ''profile multiplication'') else Inr (a * b))"

definition byte_count :: "nat \<Rightarrow> nat" where
  "byte_count bits = (bits + 7) div 8"

section \<open>Views\<close>

record bit_view =
  storage :: "u8 list"
  offset :: nat
  bsize :: nat

definition new_bit_view :: "u8 list \<Rightarrow> nat \<Rightarrow> nat \<Rightarrow> bit_view res" where
  "new_bit_view bytes bits off = bindE (profile_multiply (length bytes) 8) (\<lambda>capacity.
     if off > capacity \<or> bits > capacity - off then Inl (Invalid_argument ''bit view exceeds storage'')
     else Inr \<lparr>storage = bytes, offset = off, bsize = bits\<rparr>)"

definition bit_at :: "bit_view \<Rightarrow> nat \<Rightarrow> bool res" where
  "bit_at v i = (if i \<ge> bsize v then Inl (Out_of_range ''bit position'')
     else let b = offset v + i in bindE (read_byte (storage v) (b div 8)) (\<lambda>x.
       Inr (odd (unat x div 2 ^ (7 - b mod 8)))))"

definition subview :: "bit_view \<Rightarrow> nat \<Rightarrow> nat \<Rightarrow> bit_view res" where
  "subview v first n = (if first > bsize v \<or> n > bsize v - first then Inl (Out_of_range ''bit subview'')
     else Inr (v\<lparr>offset := offset v + first, bsize := n\<rparr>))"

definition bprefix :: "bit_view \<Rightarrow> nat \<Rightarrow> bit_view res" where
  "bprefix v n = subview v 0 (min n (bsize v))"

definition view_ok :: "bit_view \<Rightarrow> bool" where
  "view_ok v \<longleftrightarrow> offset v + bsize v \<le> 8 * length (storage v)"

definition view_bits :: "bit_view \<Rightarrow> bool list" where
  "view_bits v = take (bsize v) (drop (offset v) (all_bits (storage v)))"

section \<open>Fields\<close>

definition low_mask :: "nat \<Rightarrow> u64" where
  "low_mask width = (if width = 64 then NOT 0 else push_bit width 1 - 1)"

fun gather_bytes :: "u8 list \<Rightarrow> nat \<Rightarrow> nat \<Rightarrow> u64 \<Rightarrow> u64 res" where
  "gather_bytes bs at 0 value = Inr value"
| "gather_bytes bs at (Suc n) value = bindE (read_byte bs at) (\<lambda>b.
     gather_bytes bs (at + 1) n (push_bit 8 value OR ucast b))"

text \<open>\<open>load_bits\<close> of a view: the position is \<open>data.offset() + first\<close>.\<close>

definition load_at :: "bool \<Rightarrow> u8 list \<Rightarrow> nat \<Rightarrow> nat \<Rightarrow> u64 res" where
  "load_at host bs pos width =
     (if width = 0 then Inr 0
      else let source = pos div 8; shift = pos mod 8; bytes = (shift + width + 7) div 8 in
        if bytes \<ge> 8 then
          bindE (load_big host bs source) (\<lambda>value.
          bindE (if shift \<noteq> 0 then
              let value = push_bit shift value in
              if bytes = 9 then bindE (read_byte bs (source + 8)) (\<lambda>b. Inr (value OR drop_bit (8 - shift) (ucast b)))
              else Inr value
            else Inr value) (\<lambda>value.
          Inr (if width = 64 then value else drop_bit (64 - width) value)))
        else bindE (gather_bytes bs source bytes 0) (\<lambda>value.
          Inr (drop_bit (8 * bytes - shift - width) value AND low_mask width)))"

definition load_bits :: "bool \<Rightarrow> bit_view \<Rightarrow> nat \<Rightarrow> nat \<Rightarrow> u64 res" where
  "load_bits host data first width = load_at host (storage data) (offset data + first) width"

text \<open>\<open>store_bits\<close> into memory at a byte address; one byte per iteration.\<close>

function store_loop :: "u8 list \<Rightarrow> nat \<Rightarrow> nat \<Rightarrow> u64 \<Rightarrow> nat \<Rightarrow> u8 list res" where
  "store_loop mem target at value width =
     (if width = 0 then Inr mem
      else let n = min width (8 - at mod 8); shift = 8 - at mod 8 - n;
               field_mask = push_bit shift (low_mask n);
               field = push_bit shift (drop_bit (width - n) value AND low_mask n) in
        bindE (read_byte mem (target + at div 8)) (\<lambda>old.
        store_loop (mem[target + at div 8 := ucast ((ucast old AND NOT field_mask) OR field)])
          target (at + n) value (width - n)))"
  by auto
termination by (relation "measure (\<lambda>(mem, target, at, value, width). width)") auto

declare store_loop.simps [simp del]

definition store_bits :: "bool \<Rightarrow> u8 list \<Rightarrow> nat \<Rightarrow> nat \<Rightarrow> u64 \<Rightarrow> nat \<Rightarrow> u8 list res" where
  "store_bits host mem target at value width =
     (if width = 0 then Inr mem
      else if width = 64 \<and> at mod 8 = 0 then store_big host mem (target + at div 8) value
      else store_loop mem target at value width)"

section \<open>The overlapping copy\<close>

text \<open>
  Both ranges lie in one memory. \<open>span\<close> is the source's bytes as an address and a length; a
  load reads the memory as it is at that moment.
\<close>

record memory_view =
  address :: nat
  extent :: nat
  moffset :: nat
  msize :: nat

definition source_view :: "u8 list \<Rightarrow> memory_view \<Rightarrow> bit_view" where
  "source_view mem s =
     \<lparr>storage = take (extent s) (drop (address s) mem), offset = moffset s, bsize = msize s\<rparr>"

definition memmove :: "u8 list \<Rightarrow> nat \<Rightarrow> nat \<Rightarrow> nat \<Rightarrow> u8 list res" where
  "memmove mem to from n = (if from + n \<le> length mem then memcpy_store mem to (take n (drop from mem))
     else Inl (Undefined ''read outside storage''))"

function copy_backwards :: "bool \<Rightarrow> u8 list \<Rightarrow> nat \<Rightarrow> nat \<Rightarrow> memory_view \<Rightarrow> nat \<Rightarrow> u8 list res" where
  "copy_backwards host mem target first s n =
     (if n = 0 then Inr mem
      else let width = min n 64; n' = n - width in
        bindE (load_bits host (source_view mem s) n' width) (\<lambda>x.
        bindE (store_bits host mem target (first + n') x width) (\<lambda>mem.
        copy_backwards host mem target first s n')))"
  by auto
termination by (relation "measure (\<lambda>(host, mem, target, first, s, n). n)") auto

function copy_words :: "bool \<Rightarrow> u8 list \<Rightarrow> nat \<Rightarrow> nat \<Rightarrow> memory_view \<Rightarrow> nat \<Rightarrow> (u8 list \<times> nat) res" where
  "copy_words host mem target first s at =
     (if msize s - at \<ge> 64 then
        bindE (load_bits host (source_view mem s) at 64) (\<lambda>x.
        bindE (store_big host mem (target + (first + at) div 8) x) (\<lambda>mem.
        copy_words host mem target first s (at + 64)))
      else Inr (mem, at))"
  by auto
termination by (relation "measure (\<lambda>(host, mem, target, first, s, at). msize s - at)") auto

function copy_tail :: "bool \<Rightarrow> u8 list \<Rightarrow> nat \<Rightarrow> nat \<Rightarrow> memory_view \<Rightarrow> nat \<Rightarrow> u8 list res" where
  "copy_tail host mem target first s at =
     (if at \<ge> msize s then Inr mem
      else let width = min (msize s - at) 8 in
        bindE (load_bits host (source_view mem s) at width) (\<lambda>x.
        bindE (store_bits host mem target (first + at) x width) (\<lambda>mem.
        copy_tail host mem target first s (at + width))))"
  by auto
termination by (relation "measure (\<lambda>(host, mem, target, first, s, at). msize s - at)") auto

declare copy_backwards.simps [simp del] copy_words.simps [simp del] copy_tail.simps [simp del]

text \<open>The forward copy: bits up to a byte boundary of the destination, then blocks, then bits.\<close>

definition copy_head :: "bool \<Rightarrow> u8 list \<Rightarrow> nat \<Rightarrow> nat \<Rightarrow> memory_view \<Rightarrow> (u8 list \<times> nat) res" where
  "copy_head host mem target first s =
     (if first mod 8 \<noteq> 0 then
        let width = min (msize s) (8 - first mod 8) in
        bindE (load_bits host (source_view mem s) 0 width) (\<lambda>x.
        bindE (store_bits host mem target first x width) (\<lambda>mem. Inr (mem, width)))
      else Inr (mem, 0))"

definition copy_middle :: "bool \<Rightarrow> u8 list \<Rightarrow> nat \<Rightarrow> nat \<Rightarrow> memory_view \<Rightarrow> nat \<Rightarrow> (u8 list \<times> nat) res" where
  "copy_middle host mem target first s at =
     (if (moffset s + at) mod 8 = 0 then
        let bytes = (msize s - at) div 8 in
        bindE (if bytes \<noteq> 0 then memmove mem (target + (first + at) div 8)
            (address s + (moffset s + at) div 8) bytes else Inr mem) (\<lambda>mem. Inr (mem, at + 8 * bytes))
      else copy_words host mem target first s at)"

definition copy_bits :: "bool \<Rightarrow> u8 list \<Rightarrow> nat \<Rightarrow> nat \<Rightarrow> memory_view \<Rightarrow> u8 list res" where
  "copy_bits host mem target first s =
     (if msize s = 0 then Inr mem
      else if first mod 8 = 0 \<and> moffset s mod 8 = 0 \<and> msize s mod 8 = 0 then
        memmove mem (target + first div 8) (address s + moffset s div 8) (msize s div 8)
      else let destination = target + first div 8; origin = address s + moffset s div 8;
               source_bytes = byte_count (moffset s mod 8 + msize s);
               backwards = (destination > origin \<or> destination = origin \<and> first mod 8 > moffset s mod 8) \<and>
                 destination - origin < source_bytes in
        if backwards then copy_backwards host mem target first s (msize s)
        else
          bindE (copy_head host mem target first s) (\<lambda>(mem, at).
          bindE (copy_middle host mem target first s at) (\<lambda>(mem, at).
          copy_tail host mem target first s at)))"

section \<open>Owned strings\<close>

record bit_string =
  bytes :: "u8 list"
  bit_size :: nat

definition validate_string :: "bit_string \<Rightarrow> unit res" where
  "validate_string s =
     (if bit_size s > u64_max - 7 \<or> length (bytes s) \<noteq> byte_count (bit_size s)
      then Inl (Invalid_argument ''packed bit-string length'')
      else if bit_size s mod 8 \<noteq> 0 \<and> unat (last (bytes s)) mod 2 ^ (8 - bit_size s mod 8) \<noteq> 0
      then Inl (Invalid_argument ''nonzero bit-string padding'') else Inr ())"

definition string_view :: "bit_string \<Rightarrow> bit_view res" where
  "string_view s = bindE (validate_string s) (\<lambda>_. new_bit_view (bytes s) (bit_size s) 0)"

text \<open>The fresh zeroed buffer lies behind the source's storage.\<close>

definition copy_string :: "bool \<Rightarrow> bit_view \<Rightarrow> bit_string res" where
  "copy_string host v =
     (let n = byte_count (bsize v); base = length (storage v) in
      bindE (copy_bits host (storage v @ replicate n 0) base 0
        \<lparr>address = 0, extent = base, moffset = offset v, msize = bsize v\<rparr>) (\<lambda>mem.
      Inr \<lparr>bytes = drop base mem, bit_size = bsize v\<rparr>))"

definition from_bytes :: "u8 list \<Rightarrow> bit_string res" where
  "from_bytes src = bindE (profile_multiply (length src) 8) (\<lambda>n. Inr \<lparr>bytes = src, bit_size = n\<rparr>)"

fun set_digits :: "string \<Rightarrow> nat \<Rightarrow> u8 list \<Rightarrow> u8 list res" where
  "set_digits [] i bs = Inr bs"
| "set_digits (c # cs) i bs =
     (if c \<noteq> CHR ''0'' \<and> c \<noteq> CHR ''1'' then Inl (Invalid_argument ''expected binary digits'')
      else set_digits cs (i + 1)
        (if c = CHR ''1'' then bs[i div 8 := bs ! (i div 8) OR push_bit (7 - i mod 8) 1] else bs))"

definition from_bits :: "string \<Rightarrow> bit_string res" where
  "from_bits src =
     (if length src > u64_max - 7 then Inl (Length_error ''profile bit string too large'')
      else bindE (set_digits src 0 (replicate (byte_count (length src)) 0)) (\<lambda>bs.
        Inr \<lparr>bytes = bs, bit_size = length src\<rparr>))"

section \<open>Comparison\<close>

record bit_comparison =
  common_bits :: nat
  order :: int

function compare_words :: "bool \<Rightarrow> bit_view \<Rightarrow> bit_view \<Rightarrow> nat \<Rightarrow> nat \<Rightarrow> bit_comparison res" where
  "compare_words host a b n at =
     (if at \<ge> n then Inr \<lparr>common_bits = n,
        order = (if bsize a < bsize b then -1 else if bsize a > bsize b then 1 else 0)\<rparr>
      else let width = min (n - at) 64 in
        bindE (load_bits host a at width) (\<lambda>x. bindE (load_bits host b at width) (\<lambda>y.
        let different = x XOR y in
        if different \<noteq> 0 then Inr \<lparr>common_bits = at + countl_zero different - (64 - width),
          order = (if x < y then -1 else 1)\<rparr>
        else compare_words host a b n (at + width))))"
  by auto
termination by (relation "measure (\<lambda>(host, a, b, n, at). n - at)") auto

declare compare_words.simps [simp del]

definition first_bit :: "bit_view \<Rightarrow> bool res" where
  "first_bit v = bindE (read_byte (storage v) (offset v div 8)) (\<lambda>x.
     Inr (odd (unat x div 2 ^ (7 - offset v mod 8))))"

definition compare_common_bits :: "bool \<Rightarrow> bit_view \<Rightarrow> bit_view \<Rightarrow> bit_comparison res" where
  "compare_common_bits host a b =
     (let n = min (bsize a) (bsize b) in
      bindE (if n \<noteq> 0 then bindE (first_bit a) (\<lambda>x. bindE (first_bit b) (\<lambda>y. Inr (x, y)))
        else Inr (False, False)) (\<lambda>(x, y).
      if x \<noteq> y then Inr \<lparr>common_bits = 0, order = (if x then 1 else -1)\<rparr>
      else if n \<ge> 8 \<and> offset a mod 8 = 0 \<and> offset b mod 8 = 0 then
        bindE (common_bytes host (drop (offset a div 8) (storage a)) (drop (offset b div 8) (storage b))
          (n div 8)) (\<lambda>c.
        let at = 8 * c in
        if n - at \<ge> 8 then
          bindE (load_bits host a at 8) (\<lambda>x. bindE (load_bits host b at 8) (\<lambda>y.
          Inr \<lparr>common_bits = at + countl_zero (x XOR y) - 56, order = (if x < y then -1 else 1)\<rparr>))
        else compare_words host a b n at)
      else compare_words host a b n 0))"

definition compare_bits :: "bool \<Rightarrow> bit_view \<Rightarrow> bit_view \<Rightarrow> int res" where
  "compare_bits host a b = bindE (compare_common_bits host a b) (\<lambda>c. Inr (order c))"

end
