(* ===== verification/BitFields.thy ===== *)
theory BitFields
  imports BitString
begin

text \<open>
  What the field operations of \<open>BitString\<close> do to the bits of the memory: a load reads the bits
  of the field, a store splices them in, and the overlapping copy splices the source's bits as
  they were before the copy, in either direction and on either host.
\<close>

section \<open>Splices\<close>

text \<open>Every write replaces a range of the memory's bits.\<close>

definition splice :: "bool list \<Rightarrow> nat \<Rightarrow> bool list \<Rightarrow> bool list" where
  "splice m d bs = take d m @ bs @ drop (d + length bs) m"

lemma length_splice: "d + length bs \<le> length m \<Longrightarrow> length (splice m d bs) = length m"
  by (simp add: splice_def)

lemma splice_nil [simp]: "splice m d [] = m"
  by (simp add: splice_def)

lemma splice_append:
  "d + length as + length bs \<le> length m \<Longrightarrow> splice (splice m d as) (d + length as) bs = splice m d (as @ bs)"
  by (simp add: splice_def ac_simps)

lemma splice_before:
  "d + length as + length bs \<le> length m \<Longrightarrow> splice (splice m (d + length as) bs) d as = splice m d (as @ bs)"
  by (simp add: splice_def ac_simps)

lemma splice_inner:
  assumes "d + n \<le> length m" "a + length as \<le> n"
  shows "splice m d (splice (take n (drop d m)) a as) = splice m (d + a) as"
proof -
  let ?x = "take n (drop d m)"
  have "n \<le> length (drop d m)" "a \<le> n" using assms by simp_all
  then have x: "length ?x = n" "take a ?x = take a (drop d m)" by (simp_all add: min_absorb1)
  have len: "length (splice ?x a as) = n" using assms x(1) by (simp add: length_splice)
  have front: "take d m @ take a (drop d m) = take (d + a) m" by (simp add: take_add)
  have "drop (a + length as) ?x = take (n - (a + length as)) (drop (d + a + length as) m)"
    by (simp add: drop_take add.commute add.left_commute)
  moreover have "drop (d + n) m = drop (n - (a + length as)) (drop (d + a + length as) m)"
    using assms(2) by (simp add: add.commute)
  ultimately have rear: "drop (a + length as) ?x @ drop (d + n) m = drop (d + a + length as) m"
    by (simp only: append_take_drop_id)
  have "splice m d (splice ?x a as) = take d m @ splice ?x a as @ drop (d + n) m"
    unfolding splice_def [of m d] len ..
  also have "\<dots> = (take d m @ take a (drop d m)) @ as @ drop (a + length as) ?x @ drop (d + n) m"
    unfolding splice_def x(2) by simp
  finally show ?thesis unfolding front rear by (simp only: splice_def)
qed

lemma read_before: "p + w \<le> d \<Longrightarrow> d \<le> length m \<Longrightarrow> take w (drop p (splice m d bs)) = take w (drop p m)"
  by (simp add: splice_def drop_take)

lemma read_after:
  "d + length bs \<le> p \<Longrightarrow> d + length bs \<le> length m \<Longrightarrow> take w (drop p (splice m d bs)) = take w (drop p m)"
  by (simp add: splice_def)

lemma all_bits_update: "i < length bs \<Longrightarrow> all_bits (bs[i := b]) = splice (all_bits bs) (8 * i) (byte_bits b)"
proof -
  assume i: "i < length bs"
  have "bs[i := b] = take i bs @ b # drop (Suc i) bs" using i by (simp add: upd_conv_take_nth_drop)
  then show ?thesis
    using drop_all_bits [of "Suc i" bs] by (simp add: splice_def take_all_bits add.commute)
qed

lemma memcpy_store_bits:
  "at + length src \<le> length bs \<Longrightarrow> \<exists>bs'. memcpy_store bs at src = Inr bs' \<and>
     all_bits bs' = splice (all_bits bs) (8 * at) (all_bits src)"
  by (simp add: memcpy_store_def splice_def distrib_left flip: take_all_bits drop_all_bits)

section \<open>Loading\<close>

lemma push_bit_wbits_short:
  "length bs + k \<le> 64 \<Longrightarrow> push_bit k (wbits bs) = wbits (bs @ replicate k False)"
  by (rule bit_word_eqI) (auto simp: bit_push_bit_iff bit_wbits nth_append)

lemma ucast_wbits: "ucast b = wbits (byte_bits b)"
proof (rule bit_word_eqI)
  fix k assume "k < LENGTH(64)"
  show "bit (ucast b :: u64) k = bit (wbits (byte_bits b)) k"
  proof (cases "k < 8")
    case True
    then show ?thesis by (simp add: bit_ucast_iff bit_wbits nth_byte_bits)
  next
    case False
    then show ?thesis using bit_imp_le_length [of b k] by (auto simp: bit_ucast_iff bit_wbits)
  qed
qed

lemma low_mask_mask: "width \<le> 64 \<Longrightarrow> low_mask width = mask width"
proof (cases "width = 64")
  case True
  then show ?thesis by (simp add: low_mask_def, intro bit_word_eqI) (simp add: bit_mask_iff bit_not_iff)
qed (simp add: low_mask_def mask_eq_exp_minus_1 push_bit_eq_mult)

lemma gather_bytes_spec:
  "at + n \<le> length bs \<Longrightarrow> length l + 8 * n \<le> 64 \<Longrightarrow>
     gather_bytes bs at n (wbits l) = Inr (wbits (l @ take (8 * n) (all_bits (drop at bs))))"
proof (induction n arbitrary: at l)
  case (Suc n)
  then have i: "at < length bs" by simp
  have "push_bit 8 (wbits l) OR ucast (bs ! at) = wbits (l @ byte_bits (bs ! at))"
    using Suc.prems or_wbits [of l "byte_bits (bs ! at)"] by (simp add: push_bit_wbits_short ucast_wbits)
  moreover have "drop at bs = bs ! at # drop (Suc at) bs" using i by (simp add: Cons_nth_drop_Suc)
  ultimately show ?case
    using Suc.IH [of "Suc at" "l @ byte_bits (bs ! at)"] Suc.prems i by (simp add: read_byte_def)
qed simp

lemma shifted_word:
  assumes "s < 8" "64 \<le> length b"
  shows "push_bit s (wbits (take 64 b)) = wbits (drop s (take 64 b) @ replicate s False)"
  by (rule push_bit_wbits) (use assms in simp_all)

lemma shifted_short:
  assumes "s < 8" "64 \<le> length b" "s + width \<le> 64"
  shows "drop_bit (64 - width) (push_bit s (wbits (take 64 b))) = wbits (take width (drop s b))"
proof -
  have "drop_bit (64 - width) (push_bit s (wbits (take 64 b))) =
      wbits (take width (drop s (take 64 b) @ replicate s False))"
    unfolding shifted_word [OF assms(1,2)] using assms by (subst drop_bit_wbits) simp_all
  also have "take width (drop s (take 64 b) @ replicate s False) = take width (drop s b)"
    using assms by (simp add: take_drop)
  finally show ?thesis .
qed

lemma shifted_long:
  assumes "s < 8" "72 \<le> length b"
  shows "push_bit s (wbits (take 64 b)) OR drop_bit (8 - s) (wbits (take 8 (drop 64 b))) =
    wbits (take 64 (drop s b))"
proof -
  let ?x = "drop s (take 64 b)" and ?y = "take s (drop 64 b)"
  have "drop_bit (8 - s) (wbits (take 8 (drop 64 b))) = wbits ?y"
    using assms by (subst drop_bit_wbits) simp_all
  moreover have "push_bit s (wbits (take 64 b)) = wbits (?x @ replicate (length ?y) False)"
    using assms shifted_word [of s b] by simp
  moreover have "?x @ ?y = take 64 (drop s b)"
  proof -
    have "take 64 (drop s b) = drop s (take (64 + s) b)" by (simp add: take_drop add.commute)
    then show ?thesis using assms by (simp add: take_add)
  qed
  ultimately show ?thesis
    using or_wbits [of ?x ?y] assms by simp
qed

lemma load_at_long:
  assumes s: "s < 8" "width \<le> 64" "(s + width + 7) div 8 \<ge> 8"
    and fit: "8 * q + s + width \<le> 8 * length bs" and pos: "pos div 8 = q" "pos mod 8 = s"
  shows "load_at host bs pos width = Inr (wbits (take width (drop s (all_bits (drop q bs)))))"
proof -
  let ?b = "all_bits (drop q bs)" and ?n = "(s + width + 7) div 8"
  have w: "57 \<le> s + width" "width \<noteq> 0" using s by linarith+
  then have q: "q + 8 \<le> length bs" using fit by linarith
  have big: "load_big host bs q = Inr (wbits (take 64 ?b))"
    using load_big_wbits [OF q, of host] take_all_bits [of 8 "drop q bs"] by simp
  have len: "64 \<le> length ?b" using q by simp
  consider (aligned) "s = 0" | (short) "s \<noteq> 0" "s + width \<le> 64" "?n \<noteq> 9" | (long) "s \<noteq> 0" "64 < s + width" "?n = 9"
    using s w by linarith
  then show ?thesis
  proof cases
    case aligned
    then show ?thesis
      using s(3) w(2) big shifted_short [of 0 ?b width] s(2) len by (simp add: load_at_def Let_def pos)
  next
    case short
    then show ?thesis
      using s(3) w(2) big shifted_short [OF s(1) len short(2)] by (simp add: load_at_def Let_def pos)
  next
    case long
    then have q9: "q + 8 < length bs" using fit by linarith
    then have len9: "72 \<le> length ?b" by simp
    have "take 8 (drop 64 ?b) = byte_bits (bs ! (q + 8))"
      using drop_all_bits [of 8 "drop q bs"] Cons_nth_drop_Suc [OF q9, symmetric] by (simp add: add.commute)
    then have "push_bit s (wbits (take 64 ?b)) OR drop_bit (8 - s) (ucast (bs ! (q + 8))) = wbits (take 64 (drop s ?b))"
      using shifted_long [OF s(1) len9] by (simp add: ucast_wbits)
    moreover have "drop_bit (64 - width) (wbits (take 64 (drop s ?b))) = wbits (take width (drop s ?b))"
      using s(2) len9 s(1) by (subst drop_bit_wbits) simp_all
    ultimately show ?thesis
      using long w(2) big q9 s(2) by (simp add: load_at_def Let_def pos read_byte_def)
  qed
qed

lemma load_at_short:
  assumes s: "s < 8" "(s + width + 7) div 8 < 8" "width \<noteq> 0"
    and fit: "8 * q + s + width \<le> 8 * length bs" and pos: "pos div 8 = q" "pos mod 8 = s"
  shows "load_at host bs pos width = Inr (wbits (take width (drop s (all_bits (drop q bs)))))"
proof -
  let ?b = "all_bits (drop q bs)"
  define n where "n = (s + width + 7) div 8"
  have n: "s + width \<le> 8 * n" "n < 8" "q + n \<le> length bs" "width \<le> 64"
    using s fit unfolding n_def by linarith+
  have "gather_bytes bs q n (wbits []) = Inr (wbits (take (8 * n) ?b))"
    using gather_bytes_spec [of q n bs "[]"] n by simp
  then have g: "gather_bytes bs q n 0 = Inr (wbits (take (8 * n) ?b))" by (simp add: wbits_def)
  have len: "8 * n \<le> length ?b" using n by simp
  have "drop_bit (8 * n - s - width) (wbits (take (8 * n) ?b)) = wbits (take (s + width) ?b)"
    using len n by (subst drop_bit_wbits) (simp_all add: min_def)
  moreover have "wbits (take (s + width) ?b) AND low_mask width = wbits (drop s (take (s + width) ?b))"
    using len n by (simp add: low_mask_mask) (subst and_mask_wbits; simp)
  moreover have "drop s (take (s + width) ?b) = take width (drop s ?b)" by (simp add: take_drop add.commute)
  ultimately show ?thesis
    using g s n by (simp add: load_at_def Let_def pos flip: n_def)
qed

text \<open>A field load is the word of the field's bits, on either host, and reads only the storage.\<close>

lemma load_at_bits:
  assumes "pos + width \<le> 8 * length bs" "width \<le> 64"
  shows "load_at host bs pos width = Inr (wbits (take width (drop pos (all_bits bs))))"
proof (cases "width = 0")
  case True
  then show ?thesis by (simp add: load_at_def wbits_def)
next
  case False
  let ?q = "pos div 8" and ?s = "pos mod 8"
  have fit: "8 * ?q + ?s + width \<le> 8 * length bs" using assms(1) by simp
  have "drop ?s (drop (8 * ?q) (all_bits bs)) = drop pos (all_bits bs)" by simp
  then have db: "drop ?s (all_bits (drop ?q bs)) = drop pos (all_bits bs)" by (simp only: drop_all_bits)
  show ?thesis
  proof (cases "(?s + width + 7) div 8 \<ge> 8")
    case True
    then show ?thesis using load_at_long [OF _ assms(2) True fit refl refl] db by simp
  next
    case F: False
    then show ?thesis using load_at_short [OF _ _ False fit refl refl] db by simp
  qed
qed

lemma load_bits_view:
  assumes "view_ok v" "first + width \<le> bsize v" "width \<le> 64"
  shows "load_bits host v first width = Inr (wbits (take width (drop first (view_bits v))))"
proof -
  have "take width (drop first (view_bits v)) = take width (drop (offset v + first) (all_bits (storage v)))"
    using assms(2) by (simp add: view_bits_def drop_take add.commute)
  then show ?thesis
    using load_at_bits [of "offset v + first" width "storage v"] assms by (simp add: load_bits_def view_ok_def)
qed

section \<open>Storing\<close>

text \<open>One byte of a field: the bits inside the mask come from the value, the others stay.\<close>

lemma byte_bits_update:
  fixes old :: u8
  assumes "a + n \<le> 8" "n \<le> w" "w \<le> 64"
  defines "sh \<equiv> 8 - a - n"
  shows "byte_bits (ucast ((ucast old AND NOT (push_bit sh (low_mask n))) OR
      push_bit sh (drop_bit (w - n) value AND low_mask n))) =
    splice (byte_bits old) a (take n (word_bits w value))"
proof (rule nth_equalityI)
  have len: "length (take n (word_bits w value)) = n" using assms(2) by simp
  then show l: "length (byte_bits (ucast ((ucast old AND NOT (push_bit sh (low_mask n))) OR
      push_bit sh (drop_bit (w - n) value AND low_mask n)))) =
    length (splice (byte_bits old) a (take n (word_bits w value)))"
    using assms(1) by (subst length_splice) simp_all
  fix i assume "i < length (byte_bits (ucast ((ucast old AND NOT (push_bit sh (low_mask n))) OR
      push_bit sh (drop_bit (w - n) value AND low_mask n))))"
  then have i: "i < 8" by simp
  define k where "k = 7 - i"
  have m: "low_mask n = mask n" using assms by (intro low_mask_mask) simp
  have "bit (ucast ((ucast old AND NOT (push_bit sh (low_mask n))) OR
      push_bit sh (drop_bit (w - n) value AND low_mask n)) :: u8) k =
    (if sh \<le> k \<and> k < sh + n then bit value (k - sh + (w - n)) else bit old k)"
    using i unfolding m k_def
    by (auto simp: bit_ucast_iff bit_or_iff bit_and_iff bit_not_iff bit_push_bit_iff bit_mask_iff bit_drop_bit_eq add.commute)
  moreover have "splice (byte_bits old) a (take n (word_bits w value)) ! i =
    (if a \<le> i \<and> i < a + n then bit value (w - 1 - (i - a)) else bit old k)"
    using i assms(1,2) unfolding k_def
    by (auto simp: splice_def nth_append nth_byte_bits nth_word_bits)
  moreover have "sh \<le> k \<and> k < sh + n \<longleftrightarrow> a \<le> i \<and> i < a + n"
    using assms(1) i unfolding sh_def k_def by arith
  moreover have "k - sh + (w - n) = w - 1 - (i - a)" if "a \<le> i" "i < a + n"
    using that assms(1,2) i unfolding sh_def k_def by arith
  ultimately show "byte_bits (ucast ((ucast old AND NOT (push_bit sh (low_mask n))) OR
      push_bit sh (drop_bit (w - n) value AND low_mask n))) ! i =
    splice (byte_bits old) a (take n (word_bits w value)) ! i"
    using i by (simp add: nth_byte_bits k_def)
qed

lemma word_bits_split:
  assumes "n \<le> w" "w \<le> 64"
  shows "take n (word_bits w x) @ word_bits (w - n) x = word_bits w x"
  using assms by (intro nth_equalityI) (auto simp: nth_append nth_word_bits)

lemma splice_byte:
  assumes "q < length mem" "a + length bs \<le> 8" "byte_bits b = splice (byte_bits (mem ! q)) a bs"
  shows "all_bits (mem[q := b]) = splice (all_bits mem) (8 * q + a) bs"
proof -
  have "take 8 (drop (8 * q) (all_bits mem)) = byte_bits (mem ! q)"
    using assms(1) by (simp add: drop_all_bits Cons_nth_drop_Suc [symmetric])
  then show ?thesis
    using splice_inner [of "8 * q" 8 "all_bits mem" a bs] assms
    by (simp add: all_bits_update)
qed

text \<open>A store replaces exactly the field's bits.\<close>

lemma store_loop_bits:
  "at + width \<le> 8 * (length mem - target) \<Longrightarrow> target \<le> length mem \<Longrightarrow> width \<le> 64 \<Longrightarrow>
     \<exists>mem'. store_loop mem target at value width = Inr mem' \<and>
       all_bits mem' = splice (all_bits mem) (8 * target + at) (word_bits width value)"
proof (induction width arbitrary: mem at rule: less_induct)
  case (less w)
  show ?case
  proof (cases "w = 0")
    case True
    then show ?thesis by (simp add: store_loop.simps word_bits_def)
  next
    case False
    define q a n where "q = target + at div 8" and "a = at mod 8" and "n = min w (8 - at mod 8)"
    have a: "a < 8" "at = 8 * (at div 8) + a" by (simp_all add: a_def)
    have n: "0 < n" "n \<le> w" "a + n \<le> 8" "w - n < w" using False a(1) by (auto simp: n_def a_def)
    have "8 * (at div 8) < 8 * (length mem - target)" using less.prems(1) False a(2) n by linarith
    then have q: "q < length mem" by (simp add: q_def)
    define b where "b = (ucast ((ucast (mem ! q) AND NOT (push_bit (8 - a - n) (low_mask n))) OR
      push_bit (8 - a - n) (drop_bit (w - n) value AND low_mask n)) :: u8)"
    have len: "length (take n (word_bits w value)) = n" using n(2) by simp
    have pos: "8 * q + a = 8 * target + at" using a(2) by (simp add: q_def)
    have m: "all_bits (mem[q := b]) = splice (all_bits mem) (8 * target + at) (take n (word_bits w value))"
      using splice_byte [OF q, of a "take n (word_bits w value)" b]
        byte_bits_update [OF n(3,2) less.prems(3), of "mem ! q" "value"] len n(3) by (simp add: b_def pos)
    obtain mem' where mem': "store_loop (mem[q := b]) target (at + n) value (w - n) = Inr mem'"
      "all_bits mem' = splice (all_bits (mem[q := b])) (8 * target + (at + n)) (word_bits (w - n) value)"
      using less.IH [OF n(4), of "at + n" "mem[q := b]"] less.prems n by auto
    have "all_bits mem' = splice (all_bits mem) (8 * target + at) (take n (word_bits w value) @ word_bits (w - n) value)"
      using splice_append [of "8 * target + at" "take n (word_bits w value)" "word_bits (w - n) value" "all_bits mem"]
        mem'(2) m len n(2) less.prems by (simp add: add.assoc)
    then have "all_bits mem' = splice (all_bits mem) (8 * target + at) (word_bits w value)"
      using word_bits_split [OF n(2) less.prems(3)] by simp
    moreover have "store_loop mem target at value w = store_loop (mem[q := b]) target (at + n) value (w - n)"
    proof -
      have eqs: "at mod 8 = a" "target + at div 8 = q" "min w (8 - a) = n"
        by (simp_all add: a_def q_def n_def)
      show ?thesis
        using False q unfolding store_loop.simps [of mem target at] Let_def eqs by (simp add: read_byte_def b_def)
    qed
    ultimately show ?thesis using mem'(1) by simp
  qed
qed

lemma store_bits_bits:
  assumes "8 * target + at + width \<le> 8 * length mem" "width \<le> 64"
  shows "\<exists>mem'. store_bits host mem target at value width = Inr mem' \<and> length mem' = length mem \<and>
    all_bits mem' = splice (all_bits mem) (8 * target + at) (word_bits width value)"
proof -
  have t: "at + width \<le> 8 * (length mem - target)" "target \<le> length mem" using assms(1) by linarith+
  have "\<exists>mem'. store_bits host mem target at value width = Inr mem' \<and>
    all_bits mem' = splice (all_bits mem) (8 * target + at) (word_bits width value)"
  proof (cases "width = 64 \<and> at mod 8 = 0")
    case True
    then have "8 * (at div 8) = at" by (simp add: mod_0_imp_dvd)
    then have pos: "8 * (target + at div 8) = 8 * target + at" by simp
    then have fit: "target + at div 8 + 8 \<le> length mem" using assms True by linarith
    then have "store_big host mem (target + at div 8) value = memcpy_store mem (target + at div 8) (native_bytes False value)"
      by (simp add: store_big_bits memcpy_store_def)
    then show ?thesis
      using memcpy_store_bits [of "target + at div 8" "native_bytes False value" mem] fit True
      unfolding store_bits_def by (simp add: all_bits_native flip: pos)
  next
    case False
    then show ?thesis
      using store_loop_bits [OF t assms(2), of "value"]
      by (auto simp: store_bits_def word_bits_def)
  qed
  then obtain mem' where m: "store_bits host mem target at value width = Inr mem'"
    "all_bits mem' = splice (all_bits mem) (8 * target + at) (word_bits width value)" by blast
  have "length (all_bits mem') = length (all_bits mem)"
    unfolding m(2) by (rule length_splice) (use assms in simp)
  then have "length mem' = length mem" by (simp only: length_all_bits)
  then show ?thesis using m by simp
qed

section \<open>Copying\<close>

text \<open>
  Facts shared by the loops: \<open>d\<close> and \<open>o\<close> are the bit addresses of the destination and of the
  source, \<open>n\<close> the number of bits.
\<close>

definition source_ok :: "u8 list \<Rightarrow> memory_view \<Rightarrow> bool" where
  "source_ok mem s \<longleftrightarrow> address s + extent s \<le> length mem \<and> moffset s + msize s \<le> 8 * extent s"

abbreviation origin_bit :: "memory_view \<Rightarrow> nat" where
  "origin_bit s \<equiv> 8 * address s + moffset s"

lemma source_ok_length: "length mem' = length mem \<Longrightarrow> source_ok mem' s = source_ok mem s"
  by (simp add: source_ok_def)

lemma source_ok_bound: "source_ok mem s \<Longrightarrow> origin_bit s + msize s \<le> 8 * length mem"
  by (simp add: source_ok_def)

lemma load_source:
  assumes "source_ok mem s" "at + w \<le> msize s" "w \<le> 64"
  shows "load_bits host (source_view mem s) at w = Inr (wbits (take w (drop (origin_bit s + at) (all_bits mem))))"
proof -
  let ?e = "take (extent s) (drop (address s) mem)"
  have "extent s \<le> length (drop (address s) mem)" using assms(1) unfolding source_ok_def length_drop by linarith
  then have len: "length ?e = extent s" by (simp only: length_take min_absorb2)
  have "load_bits host (source_view mem s) at w = Inr (wbits (take w (drop (moffset s + at) (all_bits ?e))))"
    using load_at_bits [of "moffset s + at" w ?e host] assms len
    by (simp add: load_bits_def source_view_def source_ok_def)
  also have "take w (drop (moffset s + at) (all_bits ?e)) = take w (drop (origin_bit s + at) (all_bits mem))"
  proof -
    have "all_bits ?e = take (8 * extent s) (drop (8 * address s) (all_bits mem))"
      by (simp only: take_all_bits drop_all_bits)
    moreover have "w \<le> 8 * extent s - (moffset s + at)"
      using assms(1,2) unfolding source_ok_def by linarith
    ultimately show ?thesis by (simp add: drop_take min_absorb1 add.assoc add.commute add.left_commute)
  qed
  finally show ?thesis .
qed

lemma load_store_chunk:
  assumes "source_ok mem s" "at + w \<le> msize s" "w \<le> 64" "8 * target + pos + w \<le> 8 * length mem"
  shows "\<exists>mem'. bindE (load_bits host (source_view mem s) at w) (\<lambda>x. store_bits host mem target pos x w) = Inr mem' \<and>
    length mem' = length mem \<and>
    all_bits mem' = splice (all_bits mem) (8 * target + pos) (take w (drop (origin_bit s + at) (all_bits mem)))"
proof -
  let ?l = "take w (drop (origin_bit s + at) (all_bits mem))"
  have "length ?l = w" using assms(2) source_ok_bound [OF assms(1)] by simp
  then have "word_bits w (wbits ?l) = ?l" using word_bits_wbits [of ?l] assms(3) by simp
  then show ?thesis
    using store_bits_bits [OF assms(4,3), of host "wbits ?l"] load_source [OF assms(1-3), of host] by simp
qed

text \<open>Backwards: the destination lies at or behind the source, so unread bits stay intact.\<close>

lemma copy_backwards_bits:
  assumes "source_ok mem s" "n \<le> msize s" "origin_bit s \<le> 8 * target + first" "8 * target + first + n \<le> 8 * length mem"
  shows "\<exists>mem'. copy_backwards host mem target first s n = Inr mem' \<and> length mem' = length mem \<and>
    all_bits mem' = splice (all_bits mem) (8 * target + first) (take n (drop (origin_bit s) (all_bits mem)))"
  using assms(1,2,4)
proof (induction n arbitrary: mem rule: less_induct)
  case (less n)
  let ?d = "8 * target + first" and ?o = "origin_bit s" and ?m = "all_bits mem"
  show ?case
  proof (cases "n = 0")
    case True
    then show ?thesis by (simp add: copy_backwards.simps)
  next
    case False
    define w where "w = min n 64"
    have w: "w \<le> n" "w \<le> 64" "n - w < n" "0 < w" using False by (auto simp: w_def)
    let ?l = "take w (drop (?o + (n - w)) ?m)" and ?r = "take (n - w) (drop ?o ?m)"
    have bound: "?o + n \<le> length ?m" "?d + n \<le> length ?m"
      using less.prems source_ok_bound [OF less.prems(1)] by simp_all
    have len: "length ?l = w" "length ?r = n - w" using w(1) bound by simp_all
    obtain mem1 where m1: "bindE (load_bits host (source_view mem s) (n - w) w)
        (\<lambda>x. store_bits host mem target (first + (n - w)) x w) = Inr mem1"
      "length mem1 = length mem" "all_bits mem1 = splice ?m (8 * target + (first + (n - w))) ?l"
      using load_store_chunk [OF less.prems(1), of "n - w" w target "first + (n - w)" host] less.prems w by auto
    have keep: "take (n - w) (drop ?o (all_bits mem1)) = ?r"
      unfolding m1(3) using assms(3) bound w by (intro read_before) simp_all
    obtain mem2 where m2: "copy_backwards host mem1 target first s (n - w) = Inr mem2"
      "length mem2 = length mem" "all_bits mem2 = splice (all_bits mem1) ?d ?r"
    proof -
      have "source_ok mem1 s" using less.prems(1) source_ok_length [OF m1(2)] by simp
      moreover have "n - w \<le> msize s" "8 * target + first + (n - w) \<le> 8 * length mem1"
        using less.prems(2,3) m1(2) by linarith+
      ultimately show ?thesis using less.IH [OF w(3), of mem1] keep that m1(2) by metis
    qed
    have "all_bits mem2 = splice ?m ?d (?r @ ?l)"
      using splice_before [of ?d ?r ?l ?m] len bound w m1(3) m2(3) by (simp add: add.assoc)
    also have "?r @ ?l = take n (drop ?o ?m)"
      using take_add [of "n - w" w "drop ?o ?m"] w(1) by (simp add: add.commute)
    finally have "all_bits mem2 = splice ?m ?d (take n (drop ?o ?m))" .
    moreover have "copy_backwards host mem target first s n = copy_backwards host mem1 target first s (n - w)"
    proof -
      obtain x where "load_bits host (source_view mem s) (n - w) w = Inr x"
        "store_bits host mem target (first + (n - w)) x w = Inr mem1"
        using m1(1) by (auto simp: bindE_eq_Inr)
      then show ?thesis
        using False by (simp add: copy_backwards.simps [of host mem target first s n] Let_def flip: w_def)
    qed
    ultimately show ?thesis using m2 by auto
  qed
qed

text \<open>
  Forwards: the destination begins at or before the source or lies beyond it. \<open>copied\<close> is the
  state in which the first \<open>at\<close> bits have been moved.
\<close>

definition copied :: "u8 list \<Rightarrow> u8 list \<Rightarrow> nat \<Rightarrow> memory_view \<Rightarrow> nat \<Rightarrow> bool" where
  "copied mem0 mem d s at \<longleftrightarrow> length mem = length mem0 \<and> at \<le> msize s \<and>
     all_bits mem = splice (all_bits mem0) d (take at (drop (origin_bit s) (all_bits mem0)))"

definition forward_ok :: "u8 list \<Rightarrow> nat \<Rightarrow> memory_view \<Rightarrow> bool" where
  "forward_ok mem0 d s \<longleftrightarrow> source_ok mem0 s \<and> d + msize s \<le> 8 * length mem0 \<and>
     (d \<le> origin_bit s \<or> origin_bit s + msize s \<le> d)"

lemma copied_read:
  assumes "forward_ok mem0 d s" "copied mem0 mem d s at" "at + w \<le> msize s"
  shows "take w (drop (origin_bit s + at) (all_bits mem)) = take w (drop (origin_bit s + at) (all_bits mem0))"
proof -
  let ?l = "take at (drop (origin_bit s) (all_bits mem0))"
  have b: "origin_bit s + msize s \<le> length (all_bits mem0)" "d + msize s \<le> length (all_bits mem0)"
    using assms(1) source_ok_bound by (auto simp: forward_ok_def)
  have len: "length ?l = at" using b assms(3) by simp
  have m: "all_bits mem = splice (all_bits mem0) d ?l" using assms(2) by (simp add: copied_def)
  consider "d \<le> origin_bit s" | "origin_bit s + msize s \<le> d" using assms(1) by (auto simp: forward_ok_def)
  then show ?thesis
  proof cases
    case 1
    then show ?thesis unfolding m by (intro read_after) (use len b assms(3) in simp_all)
  next
    case 2
    then show ?thesis unfolding m by (intro read_before) (use len b assms(3) in simp_all)
  qed
qed

lemma copied_step:
  assumes f: "forward_ok mem0 d s" and c: "copied mem0 mem d s at" and w: "at + w \<le> msize s"
    and mem': "all_bits mem' = splice (all_bits mem) (d + at) (take w (drop (origin_bit s + at) (all_bits mem)))"
    and len': "length mem' = length mem"
  shows "copied mem0 mem' d s (at + w)"
proof -
  let ?o = "origin_bit s" and ?m = "all_bits mem0"
  have b: "?o + msize s \<le> length ?m" "d + msize s \<le> length ?m"
    using f source_ok_bound by (auto simp: forward_ok_def)
  have len: "length (take at (drop ?o ?m)) = at" "length (take w (drop (?o + at) ?m)) = w"
    using b w by simp_all
  have "all_bits mem' = splice (splice ?m d (take at (drop ?o ?m))) (d + at) (take w (drop (?o + at) ?m))"
    using mem' copied_read [OF f c w] c by (simp add: copied_def)
  also have "\<dots> = splice ?m d (take at (drop ?o ?m) @ take w (drop (?o + at) ?m))"
    using splice_append [of d "take at (drop ?o ?m)" "take w (drop (?o + at) ?m)" ?m] len b w by simp
  also have "take at (drop ?o ?m) @ take w (drop (?o + at) ?m) = take (at + w) (drop ?o ?m)"
    by (simp add: take_add add.commute)
  finally show ?thesis using c w len' by (simp add: copied_def)
qed

lemma copied_start: "copied mem0 mem0 d s 0"
  by (simp add: copied_def)

lemma copied_source: "forward_ok mem0 d s \<Longrightarrow> copied mem0 mem d s at \<Longrightarrow> source_ok mem s"
  by (simp add: forward_ok_def copied_def source_ok_def)

lemma copied_chunk:
  assumes f: "forward_ok mem0 (8 * target + first) s" and c: "copied mem0 mem (8 * target + first) s at"
    and w: "at + w \<le> msize s" "w \<le> 64"
  shows "\<exists>mem' x. load_bits host (source_view mem s) at w = Inr x \<and>
    store_bits host mem target (first + at) x w = Inr mem' \<and> copied mem0 mem' (8 * target + first) s (at + w)"
proof -
  have "8 * target + (first + at) + w \<le> 8 * length mem"
    using f c w(1) by (simp add: forward_ok_def copied_def)
  from load_store_chunk [OF copied_source [OF f c] w this, of host]
  obtain mem' x where "load_bits host (source_view mem s) at w = Inr x"
    "store_bits host mem target (first + at) x w = Inr mem'" and m: "length mem' = length mem"
    "all_bits mem' = splice (all_bits mem) (8 * target + (first + at)) (take w (drop (origin_bit s + at) (all_bits mem)))"
    unfolding bindE_eq_Inr by blast
  moreover have "copied mem0 mem' (8 * target + first) s (at + w)"
    by (rule copied_step [OF f c w(1) _ m(1)]) (simp add: m(2) add.assoc)
  ultimately show ?thesis by blast
qed

lemma copy_tail_bits:
  assumes f: "forward_ok mem0 (8 * target + first) s"
  shows "copied mem0 mem (8 * target + first) s at \<Longrightarrow>
    \<exists>mem'. copy_tail host mem target first s at = Inr mem' \<and> copied mem0 mem' (8 * target + first) s (msize s)"
proof (induction "msize s - at" arbitrary: mem at rule: less_induct)
  case less
  show ?case
  proof (cases "at \<ge> msize s")
    case True
    then have "at = msize s" using less.prems by (simp add: copied_def)
    then show ?thesis using less.prems by (simp add: copy_tail.simps)
  next
    case False
    define w where "w = min (msize s - at) 8"
    have w: "at + w \<le> msize s" "w \<le> 64" "msize s - (at + w) < msize s - at" using False by (auto simp: w_def)
    obtain mem1 x where "load_bits host (source_view mem s) at w = Inr x"
      "store_bits host mem target (first + at) x w = Inr mem1" and c: "copied mem0 mem1 (8 * target + first) s (at + w)"
      using copied_chunk [OF f less.prems w(1,2), of host] by blast
    then have "copy_tail host mem target first s at = copy_tail host mem1 target first s (at + w)"
      using False by (simp add: copy_tail.simps [of host mem target first s at] Let_def flip: w_def)
    then show ?thesis using less.hyps [OF w(3) c] by simp
  qed
qed

lemma copy_words_bits:
  assumes f: "forward_ok mem0 (8 * target + first) s"
  shows "copied mem0 mem (8 * target + first) s at \<Longrightarrow> (msize s - at \<ge> 64 \<longrightarrow> (first + at) mod 8 = 0) \<Longrightarrow>
    \<exists>mem' at'. copy_words host mem target first s at = Inr (mem', at') \<and> copied mem0 mem' (8 * target + first) s at'"
proof (induction "msize s - at" arbitrary: mem at rule: less_induct)
  case less
  show ?case
  proof (cases "msize s - at \<ge> 64")
    case False
    then show ?thesis using less.prems by (simp add: copy_words.simps [of host mem target first s at])
  next
    case True
    obtain mem1 x where l: "load_bits host (source_view mem s) at 64 = Inr x"
      "store_bits host mem target (first + at) x 64 = Inr mem1" and c: "copied mem0 mem1 (8 * target + first) s (at + 64)"
    proof -
      have "at + 64 \<le> msize s" using True by simp
      from copied_chunk [OF f less.prems(1) this order_refl, of host] show ?thesis using that by blast
    qed
    have al: "(first + at) mod 8 = 0" using less.prems(2) True by blast
    then have "store_big host mem (target + (first + at) div 8) x = Inr mem1"
      using l(2) by (simp add: store_bits_def)
    then have "copy_words host mem target first s at = copy_words host mem1 target first s (at + 64)"
      using True l(1) by (simp add: copy_words.simps [of host mem target first s at])
    moreover have "(first + (at + 64)) mod 8 = 0" using al by presburger
    ultimately show ?thesis using less.hyps [OF _ c] True by simp
  qed
qed

text \<open>A byte-aligned block is a chunk of the forward copy.\<close>

lemma memmove_bits:
  assumes "from + n \<le> length mem" "to + n \<le> length mem"
  shows "\<exists>mem'. memmove mem to from n = Inr mem' \<and> length mem' = length mem \<and>
    all_bits mem' = splice (all_bits mem) (8 * to) (take (8 * n) (drop (8 * from) (all_bits mem)))"
proof -
  have len: "length (take n (drop from mem)) = n" using assms(1) by simp
  then have fit: "to + length (take n (drop from mem)) \<le> length mem" using assms(2) by simp
  then have "memmove mem to from n = Inr (take to mem @ take n (drop from mem) @ drop (to + n) mem)"
    using assms(1) len by (simp add: memmove_def memcpy_store_def)
  then show ?thesis
    using memcpy_store_bits [OF fit] assms len
    by (auto simp: memmove_def memcpy_store_def drop_all_bits take_all_bits)
qed

lemma copied_block:
  assumes f: "forward_ok mem0 (8 * target + first) s" and c: "copied mem0 mem (8 * target + first) s at"
    and n: "at + 8 * n \<le> msize s" and al: "(first + at) mod 8 = 0" "(moffset s + at) mod 8 = 0"
  shows "\<exists>mem'. memmove mem (target + (first + at) div 8) (address s + (moffset s + at) div 8) n = Inr mem' \<and>
    copied mem0 mem' (8 * target + first) s (at + 8 * n)"
proof -
  let ?to = "target + (first + at) div 8" and ?from = "address s + (moffset s + at) div 8"
  have to: "8 * ?to = 8 * target + first + at" and from': "8 * ?from = origin_bit s + at"
    using al by (simp_all add: mod_0_imp_dvd)
  have "8 * (?from + n) \<le> 8 * length mem"
    using from' n source_ok_bound [OF copied_source [OF f c]] by simp
  moreover have "8 * (?to + n) \<le> 8 * length mem"
    using to n f c by (simp add: forward_ok_def copied_def)
  ultimately obtain mem' where m: "memmove mem ?to ?from n = Inr mem'" "length mem' = length mem"
    "all_bits mem' = splice (all_bits mem) (8 * ?to) (take (8 * n) (drop (8 * ?from) (all_bits mem)))"
    using memmove_bits [of ?from n mem ?to] by auto
  have "copied mem0 mem' (8 * target + first) s (at + 8 * n)"
    by (rule copied_step [OF f c n _ m(2)]) (use m(3) to from' in \<open>simp add: add.assoc\<close>)
  then show ?thesis using m(1) by blast
qed

text \<open>The three phases of the forward copy.\<close>

lemma copy_head_bits:
  assumes f: "forward_ok mem (8 * target + first) s"
  shows "\<exists>mem' at. copy_head host mem target first s = Inr (mem', at) \<and>
    copied mem mem' (8 * target + first) s at \<and> (at < msize s \<longrightarrow> (first + at) mod 8 = 0)"
proof (cases "first mod 8 = 0")
  case True
  then show ?thesis using copied_start by (simp add: copy_head_def)
next
  case False
  define w where "w = min (msize s) (8 - first mod 8)"
  have w: "0 + w \<le> msize s" "w \<le> 64" by (auto simp: w_def)
  have "(first + w) mod 8 = 0" if "w < msize s"
  proof -
    have "w = 8 - first mod 8" using that by (auto simp: w_def)
    then show ?thesis by presburger
  qed
  then show ?thesis
    using False copied_chunk [OF f copied_start w, of host] by (auto simp: copy_head_def Let_def simp flip: w_def)
qed

lemma copy_middle_bits:
  assumes f: "forward_ok mem0 (8 * target + first) s" and c: "copied mem0 mem (8 * target + first) s at"
    and al: "at < msize s \<longrightarrow> (first + at) mod 8 = 0"
  shows "\<exists>mem' at'. copy_middle host mem target first s at = Inr (mem', at') \<and>
    copied mem0 mem' (8 * target + first) s at'"
proof (cases "(moffset s + at) mod 8 = 0")
  case True
  define n where "n = (msize s - at) div 8"
  show ?thesis
  proof (cases "n = 0")
    case True
    then show ?thesis using \<open>(moffset s + at) mod 8 = 0\<close> c by (auto simp: copy_middle_def Let_def n_def)
  next
    case False
    then have "at < msize s" by (auto simp: n_def)
    moreover have "at + 8 * n \<le> msize s" using c by (auto simp: copied_def n_def)
    ultimately show ?thesis
      using copied_block [OF f c, of n] al True False by (auto simp: copy_middle_def Let_def simp flip: n_def)
  qed
next
  case False
  then show ?thesis using copy_words_bits [OF f c, of host] al by (auto simp: copy_middle_def)
qed

lemma copy_directions:
  fixes a b f m n :: nat
  defines "f8 \<equiv> f mod 8" and "m8 \<equiv> m mod 8" and "to \<equiv> a + f div 8" and "from \<equiv> b + m div 8"
  shows "(to > from \<or> to = from \<and> f8 > m8) \<Longrightarrow> 8 * b + m \<le> 8 * a + f"
    and "\<not> ((to > from \<or> to = from \<and> f8 > m8) \<and> to - from < (m8 + n + 7) div 8) \<Longrightarrow>
      8 * a + f \<le> 8 * b + m \<or> 8 * b + m + n \<le> 8 * a + f"
proof -
  have e: "8 * a + f = 8 * to + f8" "8 * b + m = 8 * from + m8" "f8 < 8" "m8 < 8"
    by (simp_all add: f8_def m8_def to_def from_def)
  show "(to > from \<or> to = from \<and> f8 > m8) \<Longrightarrow> 8 * b + m \<le> 8 * a + f"
    unfolding e(1,2) using e(3,4) by linarith
  assume "\<not> ((to > from \<or> to = from \<and> f8 > m8) \<and> to - from < (m8 + n + 7) div 8)"
  then consider "to < from" | "to = from" "f8 \<le> m8" | "from \<le> to" "(m8 + n + 7) div 8 \<le> to - from"
    by linarith
  then show "8 * a + f \<le> 8 * b + m \<or> 8 * b + m + n \<le> 8 * a + f"
    unfolding e(1,2) using e(3,4) by cases linarith+
qed

text \<open>The whole copy, whichever path it takes.\<close>

lemma copy_bits_splice:
  assumes s: "source_ok mem s" and fit: "8 * target + first + msize s \<le> 8 * length mem"
  shows "\<exists>mem'. copy_bits host mem target first s = Inr mem' \<and> length mem' = length mem \<and>
    all_bits mem' = splice (all_bits mem) (8 * target + first) (take (msize s) (drop (origin_bit s) (all_bits mem)))"
    (is "\<exists>mem'. _ = Inr mem' \<and> ?done mem'")
proof -
  let ?to = "target + first div 8" and ?from = "address s + moffset s div 8"
  let ?after = "?to > ?from \<or> ?to = ?from \<and> first mod 8 > moffset s mod 8"
  let ?behind = "?after \<and> ?to - ?from < byte_count (moffset s mod 8 + msize s)"
  consider (empty) "msize s = 0"
    | (bytes) "msize s \<noteq> 0" "first mod 8 = 0 \<and> moffset s mod 8 = 0 \<and> msize s mod 8 = 0"
    | (behind) "msize s \<noteq> 0" "\<not> (first mod 8 = 0 \<and> moffset s mod 8 = 0 \<and> msize s mod 8 = 0)" ?behind
    | (forth) "msize s \<noteq> 0" "\<not> (first mod 8 = 0 \<and> moffset s mod 8 = 0 \<and> msize s mod 8 = 0)" "\<not> ?behind"
    by blast
  then show ?thesis
  proof cases
    case empty
    then show ?thesis by (simp add: copy_bits_def)
  next
    case bytes
    then have e: "8 * ?to = 8 * target + first" "8 * ?from = origin_bit s" "8 * (msize s div 8) = msize s"
      by (simp_all add: mod_0_imp_dvd)
    have "8 * (?from + msize s div 8) \<le> 8 * length mem" "8 * (?to + msize s div 8) \<le> 8 * length mem"
      using e fit source_ok_bound [OF s] by simp_all
    then show ?thesis
      using memmove_bits [of ?from "msize s div 8" mem ?to] bytes e by (simp add: copy_bits_def)
  next
    case behind
    then have "copy_bits host mem target first s = copy_backwards host mem target first s (msize s)"
      unfolding copy_bits_def Let_def by (simp only: if_False if_True simp_thms)
    moreover have "origin_bit s \<le> 8 * target + first" using copy_directions(1) behind(3) by blast
    ultimately show ?thesis using copy_backwards_bits [OF s order_refl _ fit, of host] by simp
  next
    case forth
    then have f: "forward_ok mem (8 * target + first) s"
      using s fit copy_directions(2) [of "address s" "moffset s" "target" first "msize s"]
      by (simp add: forward_ok_def byte_count_def)
    obtain mem1 at1 where h: "copy_head host mem target first s = Inr (mem1, at1)"
      and c1: "copied mem mem1 (8 * target + first) s at1" and al: "at1 < msize s \<longrightarrow> (first + at1) mod 8 = 0"
      using copy_head_bits [OF f, of host] by (elim exE conjE)
    obtain mem2 at2 where m: "copy_middle host mem1 target first s at1 = Inr (mem2, at2)"
      and c2: "copied mem mem2 (8 * target + first) s at2"
      using copy_middle_bits [OF f c1 al, of host] by blast
    have "copy_bits host mem target first s = copy_tail host mem2 target first s at2"
      using forth h m unfolding copy_bits_def Let_def by (simp only: if_False bindE_simps case_prod_conv)
    then show ?thesis
      using copy_tail_bits [OF f c2, of host] by (auto simp: copied_def)
  qed
qed

section \<open>Properties\<close>

text \<open>
  C29. The bit copy is correct under any overlap: for a source inside the memory and a
  destination that fits, the copy returns, on either host, a memory of the same length whose
  destination bits are the source's bits as they were before the copy and whose other bits
  are unchanged. No access leaves the storage.
\<close>

theorem copy_bits_exact:
  assumes "source_ok mem s" "8 * target + first + msize s \<le> 8 * length mem"
  shows "\<exists>mem'. copy_bits host mem target first s = Inr mem' \<and> length mem' = length mem \<and>
    all_bits mem' = take (8 * target + first) (all_bits mem) @
      take (msize s) (drop (8 * address s + moffset s) (all_bits mem)) @
      drop (8 * target + first + msize s) (all_bits mem)"
  using copy_bits_splice [OF assms, of host] assms(2) source_ok_bound [OF assms(1)]
  by (auto simp: splice_def)

lemma copy_bits_exact_witness:
  "\<exists>mem'. copy_bits True [0xA5, 0x3C, 0xFF, 0] 0 5 \<lparr>address = 0, extent = 4, moffset = 2, msize = 13\<rparr> = Inr mem' \<and>
     length mem' = 4"
  using copy_bits_exact [of "[0xA5, 0x3C, 0xFF, 0]" "\<lparr>address = 0, extent = 4, moffset = 2, msize = 13\<rparr>" 0 5 True]
  by (auto simp: source_ok_def)

text \<open>
  A field written with \<open>store_bits\<close> is read back by \<open>load_bits\<close>: the load returns the low
  bits of the value, on either host, and every bit outside the field is unchanged.
\<close>

theorem field_round_trip:
  assumes "8 * target + at + width \<le> 8 * length mem" "width \<le> 64"
  shows "\<exists>mem'. store_bits host mem target at x width = Inr mem' \<and>
    load_at host mem' (8 * target + at) width = Inr (take_bit width x) \<and> length mem' = length mem \<and>
    take (8 * target + at) (all_bits mem') = take (8 * target + at) (all_bits mem) \<and>
    drop (8 * target + at + width) (all_bits mem') = drop (8 * target + at + width) (all_bits mem)"
proof -
  obtain mem' where m: "store_bits host mem target at x width = Inr mem'" "length mem' = length mem"
    "all_bits mem' = splice (all_bits mem) (8 * target + at) (word_bits width x)"
    using store_bits_bits [OF assms, of host x] by blast
  have fit: "8 * target + at + width \<le> 8 * length mem'" using assms(1) m(2) by simp
  have "load_at host mem' (8 * target + at) width = Inr (wbits (word_bits width x))"
    using load_at_bits [OF fit assms(2), of host] assms(1) by (simp add: m(3) splice_def)
  then show ?thesis
    using m assms by (auto simp: wbits_word_bits splice_def)
qed

lemma field_round_trip_witness:
  "\<exists>mem'. store_bits False [0, 0, 0] 1 3 0x1F5 7 = Inr mem' \<and> load_at False mem' 11 7 = Inr 0x75"
  using field_round_trip [where target = 1 and at = 3 and width = 7 and mem = "[0, 0, 0]" and host = False and x = "0x1F5"] by auto

end
