(* ===== verification/Policy.thy ===== *)
theory Policy
  imports Registry
begin

text \<open>
  The storage policy (\<open>policy.h\<close>): the compile-time description of how a family of streams is
  stored, with its static assertions and the constants derived from it.
\<close>

datatype stream_role = Native | Borrowed

datatype backspace_encoding = Exponential_golomb nat | Golomb nat

fun backspace_ok :: "backspace_encoding \<Rightarrow> bool" where
  "backspace_ok (Exponential_golomb order) \<longleftrightarrow> order \<le> 63"
| "backspace_ok (Golomb m) \<longleftrightarrow> m \<noteq> 0 \<and> m \<le> u64_max"

record storage_policy =
  registry_of :: registry
  group_size :: nat
  backspace :: backspace_encoding
  codec_block_size :: nat

definition policy_unit :: "storage_policy \<Rightarrow> profile_unit" where
  "policy_unit p = registry_unit (registry_of p)"

fun bit_width :: "nat \<Rightarrow> nat" where
  "bit_width n = (if n = 0 then 0 else Suc (bit_width (n div 2)))"

declare bit_width.simps [simp del]

definition has_single_bit :: "nat \<Rightarrow> bool" where
  "has_single_bit n \<longleftrightarrow> n \<noteq> 0 \<and> n = 2 ^ (bit_width n - 1)"

definition policy_ok :: "storage_policy \<Rightarrow> bool" where
  "policy_ok p \<longleftrightarrow> registry_ok (registry_of p) \<and>
     group_size p \<ge> 3 \<and> group_size p < u64_max \<and> has_single_bit (group_size p + 1) \<and>
     (policy_unit p = Bit \<or> backspace p = Exponential_golomb 0) \<and> backspace_ok (backspace p) \<and>
     0 < codec_block_size p \<and> codec_block_size p < 2 ^ 32"

definition class_bits :: "storage_policy \<Rightarrow> nat" where
  "class_bits p = bit_width (group_size p)"

definition unit_shift :: "storage_policy \<Rightarrow> nat" where
  "unit_shift p = (if policy_unit p = Byte then 3 else 0)"

definition bits_per_unit :: "storage_policy \<Rightarrow> nat" where
  "bits_per_unit p = 2 ^ unit_shift p"

definition policy_value_width :: "storage_policy \<Rightarrow> nat option" where
  "policy_value_width p = value_width (registry_of p)"

definition string_registry :: registry where
  "string_registry = Reg_bin (Reg_tip (Leaf text_sort)) Reg_undefined"

definition default_policy :: storage_policy where
  "default_policy = \<lparr>registry_of = Reg_unsorted ''optional string'' \<lparr>unit_of = Byte, fixed_bits = None\<rparr>,
     group_size = 15, backspace = Exponential_golomb 0, codec_block_size = 15\<rparr>"

definition string_policy :: storage_policy where
  "string_policy = default_policy\<lparr>registry_of := string_registry\<rparr>"

lemma bit_width_power: "bit_width (2 ^ n - 1) = n" "bit_width (2 ^ n) = Suc n"
proof (induction n)
  case (Suc n)
  have "(2 ^ Suc n - 1) div 2 = (2 ^ n - 1 :: nat)" by simp
  moreover have "(2 :: nat) \<le> 2 ^ Suc n" by simp
  then have "(2 ^ Suc n - 1 :: nat) \<noteq> 0" by linarith
  ultimately show "bit_width (2 ^ Suc n - 1) = Suc n"
    using Suc(1) by (subst bit_width.simps) simp
  show "bit_width (2 ^ Suc n) = Suc (Suc n)"
    using Suc(2) by (subst bit_width.simps) simp
qed (simp_all add: bit_width.simps)

lemma bit_width_bounds: "n < 2 ^ bit_width n" "n \<noteq> 0 \<Longrightarrow> 2 ^ (bit_width n - 1) \<le> n"
proof -
  have "n < 2 ^ bit_width n \<and> (n \<noteq> 0 \<longrightarrow> 2 ^ (bit_width n - 1) \<le> n)"
  proof (induction n rule: less_induct)
    case (less n)
    show ?case
    proof (cases "n \<le> 1")
      case True
      then consider "n = 0" | "n = 1" by linarith
      then show ?thesis by cases (simp_all add: bit_width.simps)
    next
      case False
      define h where "h = n div 2"
      have h: "h < n" "h \<noteq> 0" "n = 2 * h + n mod 2" using False by (simp_all add: h_def)
      have w: "bit_width n = Suc (bit_width h)" using False by (subst bit_width.simps) (simp add: h_def)
      have "bit_width h \<noteq> 0" using h(2) by (subst bit_width.simps) simp
      then obtain k where k: "bit_width h = Suc k" using not0_implies_Suc by blast
      have "h < 2 * 2 ^ k" "2 ^ k \<le> h" using less.IH [OF h(1)] h(2) k by simp_all
      moreover have "n mod 2 < 2" by simp
      ultimately have "n < 2 * (2 * 2 ^ k)" "2 * 2 ^ k \<le> n" using h(3) by linarith+
      then show ?thesis unfolding w k by simp
    qed
  qed
  then show "n < 2 ^ bit_width n" "n \<noteq> 0 \<Longrightarrow> 2 ^ (bit_width n - 1) \<le> n" by auto
qed

lemma bit_width_eqI:
  assumes "2 ^ z \<le> n" "n < 2 ^ Suc z"
  shows "bit_width n = Suc z"
proof -
  have n: "n \<noteq> 0" using assms(1) by (metis not_le zero_less_numeral zero_less_power)
  have "2 ^ z < (2 :: nat) ^ bit_width n" using bit_width_bounds(1) [of n] assms(1) by linarith
  then have "z < bit_width n" by simp
  moreover have "2 ^ (bit_width n - 1) < (2 :: nat) ^ Suc z" using bit_width_bounds(2) [OF n] assms(2) by linarith
  then have "bit_width n - 1 < Suc z" by (simp only: power_strict_increasing_iff one_less_numeral_iff semiring_norm)
  ultimately show ?thesis by linarith
qed

lemma bit_width_le: "n < 2 ^ z \<Longrightarrow> bit_width n \<le> z"
proof (cases "n = 0")
  case False
  assume "n < 2 ^ z"
  then have "2 ^ (bit_width n - 1) < (2 :: nat) ^ z" using bit_width_bounds(2) [OF False] by linarith
  then have "bit_width n - 1 < z" by (simp only: power_strict_increasing_iff one_less_numeral_iff semiring_norm)
  then show ?thesis by simp
qed (simp add: bit_width.simps)

lemma policy_group:
  assumes "policy_ok p"
  shows "group_size p + 1 = 2 ^ class_bits p" "2 \<le> class_bits p" "class_bits p \<le> 63"
proof -
  define n where "n = bit_width (group_size p + 1) - 1"
  have g: "group_size p + 1 = 2 ^ n" using assms unfolding policy_ok_def has_single_bit_def n_def by blast
  then have c: "class_bits p = n" using bit_width_power(1) [of n] by (simp add: class_bits_def flip: g)
  then show "group_size p + 1 = 2 ^ class_bits p" using g by simp
  have g4: "4 \<le> (2 :: nat) ^ n" "(2 :: nat) ^ n < 2 ^ 64"
    using assms g by (auto simp: policy_ok_def u64_max_def)
  show "2 \<le> class_bits p"
  proof (rule ccontr)
    assume "\<not> 2 \<le> class_bits p"
    then have "(2 :: nat) ^ n \<le> 2 ^ 1" unfolding c by (intro power_increasing) simp_all
    then show False using g4(1) by simp
  qed
  show "class_bits p \<le> 63"
    unfolding c using power_less_imp_less_exp [OF _ g4(2)] by simp
qed

lemma default_policies_ok: "policy_ok default_policy" "policy_ok string_policy"
proof -
  have "bit_width (15 + 1) = 5" using bit_width_power(2) [of 4] by simp
  then have s: "has_single_bit (15 + 1)" by (simp add: has_single_bit_def)
  show "policy_ok default_policy" "policy_ok string_policy"
    using s by (simp_all add: policy_ok_def string_policy_def default_policy_def string_registry_def
      registry_ok_def policy_unit_def registry_unit_def text_sort_def u64_max_def)
qed

end
