(* ===== verification/BitCompare.thy ===== *)
theory BitCompare
  imports BitFields Policy
begin

text \<open>
  Keys as bit strings (\<open>profile.h\<close>): the lexicographic order that the word-at-a-time comparison
  computes, canonical owned strings, and the comparison of profile prefixes in the units of a
  policy.
\<close>

section \<open>The order on bit sequences\<close>

fun lex :: "bool list \<Rightarrow> bool list \<Rightarrow> int" where
  "lex (a # as) (b # bs) = (if a = b then lex as bs else if a then 1 else -1)"
| "lex [] [] = 0"
| "lex [] (b # bs) = -1"
| "lex (a # as) [] = 1"

lemma lex_self [simp]: "lex as as = 0"
  by (induction as) auto

lemma lex_range: "lex as bs \<in> {-1, 0, 1}"
  by (induction as bs rule: lex.induct) auto

lemma lex_eq_0: "lex as bs = 0 \<longleftrightarrow> as = bs"
  by (induction as bs rule: lex.induct) auto

lemma lex_swap: "lex bs as = - lex as bs"
  by (induction as bs rule: lex.induct) auto

lemma lex_append:
  "length as = length bs \<Longrightarrow> lex (as @ us) (bs @ vs) = (if as = bs then lex us vs else lex as bs)"
  by (induction as bs rule: list_induct2) auto

lemma lex_prefix: "take (min (length as) (length bs)) as = take (min (length as) (length bs)) bs \<Longrightarrow>
    lex as bs = (if length as < length bs then -1 else if length as > length bs then 1 else 0)"
  by (induction as bs rule: lex.induct) auto

lemma lex_value: "length as = length bs \<Longrightarrow> bits_value as < bits_value bs \<longleftrightarrow> lex as bs = -1"
proof (induction as bs rule: list_induct2)
  case (Cons a as b bs)
  then show ?case using bits_value_less [of as] bits_value_less [of bs] by (cases a; cases b) auto
qed simp

lemma lex_trans: "lex as bs < 0 \<Longrightarrow> lex bs cs < 0 \<Longrightarrow> lex as cs < 0"
proof (induction as bs arbitrary: cs rule: lex.induct)
  case (1 a as b bs)
  then show ?case by (cases cs) (auto split: if_splits)
next
  case (3 b bs)
  then show ?case by (cases cs) (auto split: if_splits)
qed auto

lemma lex_wbits:
  assumes "length as = length bs" "length as \<le> 64" "as \<noteq> bs"
  shows "(if wbits as < wbits bs then - 1 else 1) = lex as bs"
  using assms wbits_less_iff [of as bs] lex_value [OF assms(1)] lex_range [of as bs] lex_eq_0 [of as bs]
  by auto

section \<open>Views and the comparison\<close>

lemma length_view_bits: "view_ok v \<Longrightarrow> length (view_bits v) = bsize v"
  by (simp add: view_ok_def view_bits_def)

lemma odd_bit: "odd (unat x div 2 ^ k) = bit x k" for x :: u8
  by (simp add: bit_unsigned_iff flip: bit_iff_odd)

lemma first_bit_hd:
  assumes "view_ok v" "bsize v \<noteq> 0"
  shows "first_bit v = Inr (view_bits v ! 0)"
proof -
  have i: "offset v < 8 * length (storage v)" using assms by (simp add: view_ok_def)
  then have "offset v div 8 < length (storage v)" by (simp add: div_less_iff_less_mult mult.commute)
  then show ?thesis
    using assms i by (simp add: first_bit_def read_byte_def odd_bit view_bits_def nth_all_bits)
qed

text \<open>Splitting two sequences at a position up to which they agree.\<close>

lemma agree_split:
  assumes "take p as = take p bs" "p + w \<le> length as" "p + w \<le> length bs"
    and "take w (drop p as) \<noteq> take w (drop p bs)"
  shows "lcp as bs = p + lcp (take w (drop p as)) (take w (drop p bs))"
    "lex as bs = lex (take w (drop p as)) (take w (drop p bs))"
proof -
  have s: "as = take p as @ take w (drop p as) @ drop (p + w) as" "bs = take p bs @ take w (drop p bs) @ drop (p + w) bs"
    by (metis append_take_drop_id drop_drop add.commute)+
  have l: "length (take p as) = p" "length (take w (drop p as)) = length (take w (drop p bs))"
    using assms(2,3) by simp_all
  show "lcp as bs = p + lcp (take w (drop p as)) (take w (drop p bs))"
    by (subst s(1), subst s(2)) (use assms l in \<open>simp add: lcp_append\<close>)
  show "lex as bs = lex (take w (drop p as)) (take w (drop p bs))"
    by (subst s(1), subst s(2)) (use assms l in \<open>simp add: lex_append\<close>)
qed

text \<open>A chunk of both views, compared as words.\<close>

lemma chunk_compare:
  assumes a: "view_ok a" "view_ok b" and w: "at + w \<le> bsize a" "at + w \<le> bsize b" "w \<le> 64"
    and agree: "take at (view_bits a) = take at (view_bits b)"
  obtains x y where "load_bits host a at w = Inr x" "load_bits host b at w = Inr y"
    "x = y \<longleftrightarrow> take (at + w) (view_bits a) = take (at + w) (view_bits b)"
    "x \<noteq> y \<Longrightarrow> at + countl_zero (x XOR y) - (64 - w) = lcp (view_bits a) (view_bits b) \<and>
       (if x < y then -1 else 1) = lex (view_bits a) (view_bits b)"
proof -
  let ?A = "view_bits a" and ?B = "view_bits b"
  let ?x = "take w (drop at ?A)" and ?y = "take w (drop at ?B)"
  have len: "length ?A = bsize a" "length ?B = bsize b" using a by (simp_all add: length_view_bits)
  then have l: "length ?x = w" "length ?y = w" using w by simp_all
  have loads: "load_bits host a at w = Inr (wbits ?x)" "load_bits host b at w = Inr (wbits ?y)"
    using load_bits_view [of a at w host] load_bits_view [of b at w host] a w by simp_all
  have eq: "wbits ?x = wbits ?y \<longleftrightarrow> ?x = ?y" using wbits_eq_iff [of ?x ?y] l w(3) by simp
  have "?x = ?y \<longleftrightarrow> take (at + w) ?A = take (at + w) ?B"
    using agree by (simp add: take_add)
  moreover have "at + countl_zero (wbits ?x XOR wbits ?y) - (64 - w) = lcp ?A ?B \<and>
      (if wbits ?x < wbits ?y then -1 else 1) = lex ?A ?B" if "wbits ?x \<noteq> wbits ?y"
  proof -
    have ne: "?x \<noteq> ?y" using that eq by blast
    note sp = agree_split [OF agree _ _ ne]
    have "countl_zero (wbits ?x XOR wbits ?y) = 64 - w + lcp ?x ?y"
      using countl_zero_xor [of ?x ?y] l w(3) by simp
    then show ?thesis using sp len w l lex_wbits [OF _ _ ne] by simp
  qed
  ultimately show ?thesis using that [OF loads] eq by simp
qed

lemma compare_words_spec:
  assumes a: "view_ok a" "view_ok b" and n: "n = min (bsize a) (bsize b)"
  shows "at \<le> n \<Longrightarrow> take at (view_bits a) = take at (view_bits b) \<Longrightarrow>
    compare_words host a b n at =
      Inr \<lparr>common_bits = lcp (view_bits a) (view_bits b), order = lex (view_bits a) (view_bits b)\<rparr>"
proof (induction "n - at" arbitrary: at rule: less_induct)
  case less
  let ?A = "view_bits a" and ?B = "view_bits b"
  have len: "length ?A = bsize a" "length ?B = bsize b" using a by (simp_all add: length_view_bits)
  show ?case
  proof (cases "at \<ge> n")
    case True
    then have at: "at = n" using less.prems(1) by simp
    have pre: "take (min (length ?A) (length ?B)) ?A = take (min (length ?A) (length ?B)) ?B"
      using less.prems(2) by (simp only: at n len)
    have "lcp ?A ?B = n"
    proof -
      have "?A = take n ?A @ drop n ?A" "?B = take n ?A @ drop n ?B"
        using pre by (metis append_take_drop_id len n)+
      then have "lcp ?A ?B = length (take n ?A) + lcp (drop n ?A) (drop n ?B)"
        by (metis lcp_append)
      moreover have "drop n ?A = [] \<or> drop n ?B = []" using len n by (simp add: min_def)
      ultimately show ?thesis using len n by (cases "drop n ?A") auto
    qed
    then show ?thesis
      using lex_prefix [OF pre] True by (simp add: compare_words.simps [of host a b n at] len)
  next
    case False
    define w where "w = min (n - at) 64"
    have w: "at + w \<le> bsize a" "at + w \<le> bsize b" "w \<le> 64" "n - (at + w) < n - at" "at + w \<le> n"
      using False less.prems(1) by (auto simp: w_def n)
    obtain x y where xy: "load_bits host a at w = Inr x" "load_bits host b at w = Inr y"
      "x = y \<longleftrightarrow> take (at + w) ?A = take (at + w) ?B"
      "x \<noteq> y \<Longrightarrow> at + countl_zero (x XOR y) - (64 - w) = lcp ?A ?B \<and> (if x < y then -1 else 1) = lex ?A ?B"
      using chunk_compare [OF a w(1-3) less.prems(2), of host] by blast
    have step: "compare_words host a b n at = (if x \<noteq> y
        then Inr \<lparr>common_bits = at + countl_zero (x XOR y) - (64 - w), order = (if x < y then -1 else 1)\<rparr>
        else compare_words host a b n (at + w))"
      using False xy(1,2) by (simp add: compare_words.simps [of host a b n at] Let_def xor_eq_0 flip: w_def)
    show ?thesis
    proof (cases "x = y")
      case True
      then show ?thesis using step less.hyps [OF w(4,5)] xy(3) by simp
    next
      case F: False
      then show ?thesis using step xy(4) by simp
    qed
  qed
qed

text \<open>The byte-aligned fast path agrees with the word loop.\<close>

lemma aligned_bytes:
  assumes "view_ok v" "offset v mod 8 = 0"
  shows "8 * k \<le> bsize v \<Longrightarrow> take (8 * k) (view_bits v) = all_bits (take k (drop (offset v div 8) (storage v)))"
    and "k \<le> bsize v div 8 \<Longrightarrow> k \<le> length (drop (offset v div 8) (storage v))"
proof -
  have o: "offset v = 8 * (offset v div 8)" using assms(2) by (simp add: mod_0_imp_dvd)
  show "8 * k \<le> bsize v \<Longrightarrow> take (8 * k) (view_bits v) = all_bits (take k (drop (offset v div 8) (storage v)))"
    unfolding view_bits_def by (subst o) (simp add: drop_all_bits take_all_bits)
  show "k \<le> bsize v div 8 \<Longrightarrow> k \<le> length (drop (offset v div 8) (storage v))"
    using assms(1) o unfolding view_ok_def length_drop by linarith
qed

lemma compare_common_bits_spec:
  assumes a: "view_ok a" "view_ok b"
  shows "compare_common_bits host a b =
    Inr \<lparr>common_bits = lcp (view_bits a) (view_bits b), order = lex (view_bits a) (view_bits b)\<rparr>"
proof -
  let ?A = "view_bits a" and ?B = "view_bits b"
  define n where "n = min (bsize a) (bsize b)"
  have len: "length ?A = bsize a" "length ?B = bsize b" using a by (simp_all add: length_view_bits)
  note loop = compare_words_spec [OF a n_def, of _ host]
  show ?thesis
  proof (cases "n \<noteq> 0 \<and> ?A ! 0 \<noteq> ?B ! 0")
    case True
    then obtain x as y bs where e: "?A = x # as" "?B = y # bs" using len by (cases ?A; cases ?B) (auto simp: n_def)
    have "bsize a \<noteq> 0" "bsize b \<noteq> 0" using True by (auto simp: n_def)
    then have "compare_common_bits host a b = Inr \<lparr>common_bits = 0, order = (if x then 1 else -1)\<rparr>"
      using True first_bit_hd [OF a(1)] first_bit_hd [OF a(2)] e
      by (simp add: compare_common_bits_def Let_def flip: n_def)
    then show ?thesis using True e by simp
  next
    case False
    have skip: "bindE (if n \<noteq> 0 then bindE (first_bit a) (\<lambda>x. bindE (first_bit b) (\<lambda>y. Inr (x, y)))
        else Inr (False, False)) f = f (if n \<noteq> 0 then (?A ! 0, ?B ! 0) else (False, False))" for f :: "bool \<times> bool \<Rightarrow> bit_comparison res"
      using first_bit_hd [OF a(1)] first_bit_hd [OF a(2)] by (auto simp: n_def)
    show ?thesis
    proof (cases "n \<ge> 8 \<and> offset a mod 8 = 0 \<and> offset b mod 8 = 0")
      case F: False
      then have "compare_common_bits host a b = compare_words host a b n 0"
        using False skip unfolding compare_common_bits_def Let_def n_def [symmetric] by auto
      then show ?thesis using loop [of 0] by simp
    next
      case True
      let ?a = "drop (offset a div 8) (storage a)" and ?b = "drop (offset b div 8) (storage b)"
      let ?k = "n div 8"
      have k: "?k \<le> length ?a" "?k \<le> length ?b" "8 * ?k \<le> bsize a" "8 * ?k \<le> bsize b"
        using aligned_bytes(2) [OF a(1), of ?k] aligned_bytes(2) [OF a(2), of ?k] True
        by (auto simp: n_def div_le_mono)
      define c where "c = lcp (take ?k ?a) (take ?k ?b)"
      have c: "common_bytes host ?a ?b ?k = Inr c" unfolding c_def by (rule common_bytes_lcp [OF k(1,2)])
      have ck: "c \<le> ?k" using lcp_le(1) [of "take ?k ?a" "take ?k ?b"] k by (simp add: c_def)
      have "take c ?a = take c ?b"
        using lcp_take [of "take ?k ?a" "take ?k ?b"] ck by (simp add: min_absorb1 flip: c_def)
      then have agree: "take (8 * c) ?A = take (8 * c) ?B"
        using aligned_bytes(1) [OF a(1), of c] aligned_bytes(1) [OF a(2), of c] True k ck by simp
      have go: "compare_common_bits host a b = (if n - 8 * c \<ge> 8 then
          bindE (load_bits host a (8 * c) 8) (\<lambda>x. bindE (load_bits host b (8 * c) 8) (\<lambda>y.
          Inr \<lparr>common_bits = 8 * c + countl_zero (x XOR y) - 56, order = (if x < y then -1 else 1)\<rparr>))
        else compare_words host a b n (8 * c))"
        using False skip c True unfolding compare_common_bits_def Let_def n_def [symmetric] by auto
      show ?thesis
      proof (cases "n - 8 * c \<ge> 8")
        case False
        then show ?thesis using go loop [of "8 * c"] agree ck by simp
      next
        case True
        have w: "8 * c + 8 \<le> bsize a" "8 * c + 8 \<le> bsize b" "(8 :: nat) \<le> 64" using True by (auto simp: n_def)
        obtain x y where xy: "load_bits host a (8 * c) 8 = Inr x" "load_bits host b (8 * c) 8 = Inr y"
          "x = y \<longleftrightarrow> take (8 * c + 8) ?A = take (8 * c + 8) ?B"
          "x \<noteq> y \<Longrightarrow> 8 * c + countl_zero (x XOR y) - (64 - 8) = lcp ?A ?B \<and> (if x < y then -1 else 1) = lex ?A ?B"
          using chunk_compare [OF a w agree, of host] by blast
        have ck': "c < ?k" using True by linarith
        have "take (Suc c) ?a \<noteq> take (Suc c) ?b"
        proof -
          have "take ?k ?a ! c \<noteq> take ?k ?b ! c"
            unfolding c_def by (rule lcp_differs) (use ck' k in \<open>simp_all flip: c_def\<close>)
          then show ?thesis using ck' k by (metis Suc_le_eq lessI nth_take)
        qed
        moreover have "8 * Suc c \<le> bsize a" "8 * Suc c \<le> bsize b" using w by simp_all
        ultimately have "take (8 * Suc c) ?A \<noteq> take (8 * Suc c) ?B"
          using aligned_bytes(1) [OF a(1), of "Suc c"] aligned_bytes(1) [OF a(2), of "Suc c"]
            \<open>n \<ge> 8 \<and> offset a mod 8 = 0 \<and> offset b mod 8 = 0\<close> all_bits_inj by metis
        then have "x \<noteq> y" using xy(3) by (simp add: add.commute)
        then show ?thesis using go True xy(1,2,4) by simp
      qed
    qed
  qed
qed

lemma compare_bits_spec: "view_ok a \<Longrightarrow> view_ok b \<Longrightarrow> compare_bits host a b = Inr (lex (view_bits a) (view_bits b))"
  by (simp add: compare_bits_def compare_common_bits_spec)

lemma subview_Inr:
  assumes "view_ok v" "subview v a n = Inr w"
  shows "view_ok w" "view_bits w = take n (drop a (view_bits v))" "bsize w = n" "a + n \<le> bsize v"
  using assms by (auto simp: subview_def view_ok_def view_bits_def drop_take min_absorb1 add.commute split: if_splits)

lemma bprefix_ok:
  assumes "view_ok v"
  shows "\<exists>w. bprefix v n = Inr w \<and> view_ok w \<and> view_bits w = take n (view_bits v) \<and> bsize w = min n (bsize v)"
proof -
  obtain w where w: "subview v 0 (min n (bsize v)) = Inr w" by (simp add: subview_def)
  then show ?thesis
    using subview_Inr [OF assms w] length_view_bits [OF assms] by (auto simp: bprefix_def min_def)
qed

end
