(* ===== verification/OwnedStrings.thy ===== *)
theory OwnedStrings
  imports BitCompare
begin

text \<open>
  Owned bit strings (\<open>bit_string\<close> of \<open>profile.h\<close>): exactly the valid ones are canonical
  encodings of bit sequences, and the ways of making one all give a canonical string.
\<close>

section \<open>Owned strings\<close>

text \<open>The bits of a valid string; the padding of the last byte is zero.\<close>

definition string_bits :: "bit_string \<Rightarrow> bool list" where
  "string_bits s = take (bit_size s) (all_bits (bytes s))"

definition string_ok :: "bit_string \<Rightarrow> bool" where
  "string_ok s \<longleftrightarrow> bit_size s \<le> u64_max - 7 \<and>
     all_bits (bytes s) = string_bits s @ replicate (8 * byte_count (bit_size s) - bit_size s) False \<and>
     length (bytes s) = byte_count (bit_size s)"

lemma byte_count_bounds: "n \<le> 8 * byte_count n" "8 * byte_count n < n + 8"
  unfolding byte_count_def by linarith+

lemma unat_byte_bits: "unat b = bits_value (byte_bits b)" for b :: u8
  using unsigned_less [of b, where 'a = nat] by (simp add: byte_bits_def bits_value_of)

lemma byte_tail_zero:
  fixes b :: u8
  assumes "k \<le> 8"
  shows "unat b mod 2 ^ k = 0 \<longleftrightarrow> drop (8 - k) (byte_bits b) = replicate k False"
proof -
  define h t where "h = take (8 - k) (byte_bits b)" and "t = drop (8 - k) (byte_bits b)"
  have l: "length t = k" using assms by (simp add: t_def)
  have "byte_bits b = h @ t" by (simp add: h_def t_def)
  then have "unat b = bits_value h * 2 ^ k + bits_value t"
    by (simp only: unat_byte_bits bits_value_append l)
  moreover have "bits_value t < 2 ^ k" using bits_value_less [of t] by (simp only: l)
  ultimately have "unat b mod 2 ^ k = bits_value t" by simp
  moreover have "bits_value t = 0 \<longleftrightarrow> t = replicate k False"
  proof
    assume "bits_value t = 0"
    then show "t = replicate k False" by (intro bits_value_inj) (simp_all only: l bits_value_replicate length_replicate)
  next
    assume t: "t = replicate k False"
    show "bits_value t = 0" unfolding t by (rule bits_value_replicate)
  qed
  ultimately show ?thesis by (simp only: t_def)
qed

lemma last_byte_bits:
  assumes "bs \<noteq> []"
  shows "drop (8 * (length bs - 1)) (all_bits bs) = byte_bits (last bs)"
proof -
  have "drop (length bs - 1) (butlast bs @ [last bs]) = [last bs]" by simp
  then have "drop (length bs - 1) bs = [last bs]" using assms by simp
  then show ?thesis by (simp add: drop_all_bits)
qed

lemma validate_string_iff: "validate_string s = Inr () \<longleftrightarrow> string_ok s"
proof (cases "bit_size s \<le> u64_max - 7 \<and> length (bytes s) = byte_count (bit_size s)")
  case False
  then show ?thesis by (auto simp: validate_string_def string_ok_def not_le)
next
  case True
  define q r where "q = bit_size s div 8" and "r = bit_size s mod 8"
  have n: "bit_size s = 8 * q + r" and r8: "r < 8" by (simp_all add: q_def r_def)
  show ?thesis
  proof (cases "r = 0")
    case r: True
    then have "byte_count (bit_size s) = q" by (simp add: byte_count_def n)
    then show ?thesis
      using True r by (simp add: validate_string_def string_ok_def string_bits_def n)
  next
    case r: False
    have c: "byte_count (bit_size s) = Suc q"
    proof -
      have "8 * q + r + 7 = 8 * (q + 1) + (r - 1)" "(r - 1) div 8 = 0" using r r8 by simp_all
      then show ?thesis by (simp only: byte_count_def n div_mult_self4 zero_neq_numeral simp_thms)
    qed
    then have len: "length (bytes s) = Suc q" and ne: "bytes s \<noteq> []" using True by auto
    have "drop (bit_size s) (all_bits (bytes s)) = drop r (drop (8 * q) (all_bits (bytes s)))"
      by (simp add: n add.commute)
    also have "\<dots> = drop r (byte_bits (last (bytes s)))"
      using last_byte_bits [OF ne] by (simp only: len diff_Suc_1)
    finally have d: "drop (bit_size s) (all_bits (bytes s)) = drop r (byte_bits (last (bytes s)))" .
    have pad: "8 * byte_count (bit_size s) - bit_size s = 8 - r" using r8 unfolding c by (simp add: n)
    have "all_bits (bytes s) = string_bits s @ drop r (byte_bits (last (bytes s)))"
      unfolding string_bits_def d [symmetric] by simp
    then have "string_ok s \<longleftrightarrow> drop r (byte_bits (last (bytes s))) = replicate (8 - r) False"
      using True unfolding string_ok_def pad by (metis same_append_eq)
    moreover have "unat (last (bytes s)) mod 2 ^ (8 - r) = 0 \<longleftrightarrow> drop r (byte_bits (last (bytes s))) = replicate (8 - r) False"
      using byte_tail_zero [of "8 - r" "last (bytes s)"] r8 by simp
    ultimately show ?thesis using True r unfolding validate_string_def r_def [symmetric] by simp
  qed
qed

lemma length_string_bits: "string_ok s \<Longrightarrow> length (string_bits s) = bit_size s"
  using byte_count_bounds(1) [of "bit_size s"] by (simp add: string_bits_def string_ok_def)

lemma string_view_ok:
  assumes "string_ok s"
  shows "\<exists>v. string_view s = Inr v \<and> view_ok v \<and> view_bits v = string_bits s \<and> bsize v = bit_size s"
proof -
  have l: "length (bytes s) = byte_count (bit_size s)" "bit_size s \<le> u64_max - 7"
    using assms(1) by (simp_all add: string_ok_def)
  then have "length (bytes s) \<le> u64_max div 8" "bit_size s \<le> 8 * length (bytes s)"
    using byte_count_bounds [of "bit_size s"] by (simp_all add: u64_max_def)
  then show ?thesis
    using assms(1) validate_string_iff [of s]
    by (auto simp: string_view_def new_bit_view_def profile_multiply_def view_ok_def view_bits_def string_bits_def mult.commute)
qed

text \<open>Equality of valid strings is equality of their bits.\<close>

lemma string_ok_eq:
  assumes "string_ok s" "string_ok t" "string_bits s = string_bits t"
  shows "s = t"
proof -
  have n: "bit_size s = bit_size t" using assms length_string_bits by metis
  then have "all_bits (bytes s) = all_bits (bytes t)"
    using assms unfolding string_ok_def by metis
  then have "bytes s = bytes t" by (rule all_bits_inj)
  then show ?thesis using n by (cases s; cases t) simp
qed

lemma string_ok_intro:
  assumes "all_bits bs = xs @ replicate (8 * byte_count n - n) False" "length bs = byte_count n"
    and "length xs = n" "n \<le> u64_max - 7"
  shows "string_ok \<lparr>bytes = bs, bit_size = n\<rparr>" "string_bits \<lparr>bytes = bs, bit_size = n\<rparr> = xs"
  using assms by (simp_all add: string_ok_def string_bits_def)

lemma all_bits_zero [simp]: "all_bits (replicate k 0) = replicate (8 * k) False"
  by (induction k) (simp_all add: byte_bits_def bits_of_def map_replicate_const flip: replicate_add)

lemma copy_string_ok:
  assumes v: "view_ok v" "bsize v \<le> u64_max - 7"
  shows "\<exists>s. copy_string host v = Inr s \<and> string_ok s \<and> string_bits s = view_bits v \<and> bit_size s = bsize v"
proof -
  define n base where "n = byte_count (bsize v)" and "base = length (storage v)"
  define mem0 where "mem0 = storage v @ replicate n 0"
  define src where "src = \<lparr>address = 0, extent = base, moffset = offset v, msize = bsize v\<rparr>"
  have fields: "address src = 0" "moffset src = offset v" "msize src = bsize v" by (simp_all add: src_def)
  have ok: "source_ok mem0 src" using v(1) by (simp add: source_ok_def view_ok_def src_def mem0_def base_def)
  have b: "bsize v \<le> 8 * n" using byte_count_bounds(1) [of "bsize v"] by (simp add: n_def)
  have fit: "8 * base + 0 + msize src \<le> 8 * length mem0"
    using b by (simp add: fields mem0_def base_def)
  obtain mem where m: "copy_bits host mem0 base 0 src = Inr mem" "length mem = length mem0"
    "all_bits mem = splice (all_bits mem0) (8 * base + 0) (take (msize src) (drop (8 * address src + moffset src) (all_bits mem0)))"
    using copy_bits_splice [OF ok fit, of host] by blast
  have start: "all_bits mem0 = all_bits (storage v) @ replicate (8 * n) False" by (simp add: mem0_def)
  have "take (bsize v) (drop (offset v) (all_bits mem0)) = view_bits v"
    using v(1) unfolding start by (simp add: view_bits_def view_ok_def)
  then have "all_bits mem = splice (all_bits mem0) (8 * base) (view_bits v)"
    using m(3) by (simp only: fields mult_0_right add_0 add_0_right)
  then have "drop (8 * base) (all_bits mem) = view_bits v @ replicate (8 * n - bsize v) False"
    using length_view_bits [OF v(1)] unfolding start by (simp add: splice_def base_def)
  then have d: "all_bits (drop base mem) = view_bits v @ replicate (8 * n - bsize v) False"
    by (simp only: drop_all_bits)
  have "length (drop base mem) = n" using m(2) by (simp add: mem0_def base_def)
  note s = string_ok_intro [OF d [unfolded n_def] this [unfolded n_def] length_view_bits [OF v(1)] v(2)]
  have "copy_string host v = Inr \<lparr>bytes = drop base mem, bit_size = bsize v\<rparr>"
    using m(1) unfolding copy_string_def Let_def n_def [symmetric] base_def [symmetric] mem0_def src_def
    by simp
  then show ?thesis using s by auto
qed

text \<open>Binary digits are set one at a time in a zeroed buffer.\<close>

lemma set_one_bit:
  assumes "i < 8 * length bs"
  shows "all_bits (bs[i div 8 := bs ! (i div 8) OR push_bit (7 - i mod 8) 1]) = (all_bits bs)[i := True]"
proof (rule nth_equalityI)
  let ?bs = "bs[i div 8 := bs ! (i div 8) OR push_bit (7 - i mod 8) 1]"
  show "length (all_bits ?bs) = length ((all_bits bs)[i := True])" by simp
  fix j assume "j < length (all_bits ?bs)"
  then have j: "j < 8 * length bs" by simp
  have i: "i div 8 < length bs" using assms by (simp add: div_less_iff_less_mult)
  have one: "bit (push_bit (7 - i mod 8) (1 :: u8)) (7 - j mod 8) \<longleftrightarrow> i mod 8 = j mod 8"
  proof -
    have "push_bit m (1 :: u8) = 2 ^ m" for m by (simp add: push_bit_eq_mult)
    moreover have "7 - i mod 8 = 7 - j mod 8 \<longleftrightarrow> i mod 8 = j mod 8" by linarith
    ultimately show ?thesis by (auto simp: bit_exp_iff simp del: push_bit_of_1)
  qed
  have same: "i = j \<longleftrightarrow> i div 8 = j div 8 \<and> i mod 8 = j mod 8" by (metis div_mult_mod_eq)
  show "all_bits ?bs ! j = (all_bits bs)[i := True] ! j"
    using j i one same by (auto simp: nth_all_bits nth_list_update bit_or_iff assms)
qed

definition digits_ok :: "string \<Rightarrow> bool" where
  "digits_ok cs \<longleftrightarrow> set cs \<subseteq> {CHR ''0'', CHR ''1''}"

lemma digits_ok_simps [simp]:
  "digits_ok []" "digits_ok (c # cs) \<longleftrightarrow> (c = CHR ''0'' \<or> c = CHR ''1'') \<and> digits_ok cs"
  by (auto simp: digits_ok_def)

definition digit_bits :: "string \<Rightarrow> bool list" where
  "digit_bits cs = map (\<lambda>c. c = CHR ''1'') cs"

lemma set_digits_bits:
  "i + length cs \<le> 8 * length bs \<Longrightarrow> digits_ok cs \<Longrightarrow>
     all_bits bs = done @ replicate (8 * length bs - i) False \<Longrightarrow> length done = i \<Longrightarrow>
     \<exists>bs'. set_digits cs i bs = Inr bs' \<and> length bs' = length bs \<and>
       all_bits bs' = done @ digit_bits cs @ replicate (8 * length bs - (i + length cs)) False"
proof (induction cs arbitrary: i bs "done")
  case Nil
  then show ?case by (simp add: digit_bits_def)
next
  case (Cons c cs)
  define b where "b = (c = CHR ''1'')"
  define bs1 where "bs1 = (if b then bs[i div 8 := bs ! (i div 8) OR push_bit (7 - i mod 8) 1] else bs)"
  have i: "i < 8 * length bs" using Cons.prems(1) by simp
  have z: "replicate (8 * length bs - i) False = False # replicate (8 * length bs - (i + 1)) False"
    using i by (metis Suc_diff_Suc Suc_eq_plus1 replicate_Suc)
  have bits: "all_bits bs = done @ False # replicate (8 * length bs - (i + 1)) False"
    using Cons.prems(3) unfolding z .
  have "all_bits bs1 = (done @ [b]) @ replicate (8 * length bs1 - (i + 1)) False"
  proof (cases b)
    case True
    then show ?thesis
      using set_one_bit [OF i] Cons.prems(4) unfolding bits by (simp add: bs1_def list_update_append)
  next
    case False
    then show ?thesis using bits by (simp add: bs1_def)
  qed
  moreover have l: "length bs1 = length bs" by (simp add: bs1_def)
  ultimately obtain bs' where r: "set_digits cs (i + 1) bs1 = Inr bs'" "length bs' = length bs1"
    "all_bits bs' = (done @ [b]) @ digit_bits cs @ replicate (8 * length bs1 - (i + 1 + length cs)) False"
    using Cons.IH [of "i + 1" bs1 "done @ [b]"] Cons.prems by auto
  have "c = CHR ''0'' \<or> c = CHR ''1''" using Cons.prems(2) by simp
  then have "set_digits (c # cs) i bs = set_digits cs (i + 1) bs1" by (auto simp: bs1_def b_def)
  then show ?case using r l by (simp add: digit_bits_def b_def)
qed

lemma set_digits_bad: "\<not> digits_ok cs \<Longrightarrow> set_digits cs i bs = Inl (Invalid_argument ''expected binary digits'')"
  by (induction cs i bs rule: set_digits.induct) auto

lemma from_bits_ok:
  assumes "digits_ok cs" "length cs \<le> u64_max - 7"
  shows "\<exists>s. from_bits cs = Inr s \<and> string_ok s \<and> string_bits s = digit_bits cs"
proof -
  let ?n = "byte_count (length cs)"
  obtain bs where b: "set_digits cs 0 (replicate ?n 0) = Inr bs" "length bs = ?n"
    "all_bits bs = digit_bits cs @ replicate (8 * ?n - length cs) False"
    using set_digits_bits [of 0 cs "replicate ?n 0" "[]"] assms byte_count_bounds(1) [of "length cs"] by auto
  have "from_bits cs = Inr \<lparr>bytes = bs, bit_size = length cs\<rparr>"
    using b(1) assms(2) by (simp add: from_bits_def)
  then show ?thesis
    using string_ok_intro [OF b(3,2) _ assms(2)] by (auto simp: digit_bits_def)
qed

lemma from_bytes_ok: "length bs \<le> u64_max div 8 - 1 \<Longrightarrow>
    \<exists>s. from_bytes bs = Inr s \<and> string_ok s \<and> string_bits s = all_bits bs"
  by (auto simp: from_bytes_def profile_multiply_def u64_max_def string_ok_def string_bits_def byte_count_def mult.commute)

section \<open>Properties\<close>

text \<open>
  C30. The word-at-a-time comparison (leading bits, aligned bytes, then 64-bit chunks) computes the
  length of the common prefix and the lexicographic order of the two bit sequences, for views
  that begin anywhere inside a byte and on either host.
\<close>

theorem comparison_is_lexicographic:
  assumes "view_ok a" "view_ok b"
  shows "compare_common_bits host a b =
    Inr \<lparr>common_bits = lcp (view_bits a) (view_bits b), order = lex (view_bits a) (view_bits b)\<rparr>"
  using assms by (rule compare_common_bits_spec)

lemma comparison_is_lexicographic_witness:
  "compare_common_bits True \<lparr>storage = [0xA5, 0x3C], offset = 0, bsize = 12\<rparr>
      \<lparr>storage = [0xFA, 0x53, 0xE0], offset = 4, bsize = 14\<rparr> = Inr \<lparr>common_bits = 12, order = -1\<rparr>"
proof -
  have "view_bits \<lparr>storage = [0xA5, 0x3C], offset = 0, bsize = 12\<rparr> =
      [True, False, True, False, False, True, False, True, False, False, True, True]"
    "view_bits \<lparr>storage = [0xFA, 0x53, 0xE0], offset = 4, bsize = 14\<rparr> =
      [True, False, True, False, False, True, False, True, False, False, True, True, True, True]"
    by (simp_all add: view_bits_def byte_bits_def bits_of_def upt_rec)
  then show ?thesis
    using comparison_is_lexicographic [of "\<lparr>storage = [0xA5, 0x3C], offset = 0, bsize = 12\<rparr>"
      "\<lparr>storage = [0xFA, 0x53, 0xE0], offset = 4, bsize = 14\<rparr>" True] by (simp add: view_ok_def)
qed

text \<open>
  Valid strings are canonical: \<open>validate\<close> accepts a string exactly when its bytes are its
  bits followed by zero padding, two valid strings with the same bits are the same value, and
  the view of a valid string shows its bits. A string made by \<open>copy\<close> from a view of at most
  the admissible length is valid and holds the view's bits.
\<close>

theorem strings_are_canonical:
  "(validate_string s = Inr () \<longleftrightarrow> string_ok s) \<and>
   (string_ok s \<and> string_ok t \<and> string_bits s = string_bits t \<longrightarrow> s = t) \<and>
   (string_ok s \<longrightarrow> (\<exists>v. string_view s = Inr v \<and> view_ok v \<and> view_bits v = string_bits s)) \<and>
   (view_ok w \<and> bsize w \<le> u64_max - 7 \<longrightarrow>
     (\<exists>u. copy_string host w = Inr u \<and> string_ok u \<and> string_bits u = view_bits w))"
  by (intro conjI impI) (use validate_string_iff string_ok_eq string_view_ok copy_string_ok in blast)+

lemma strings_are_canonical_witness:
  "string_ok \<lparr>bytes = [0xA0], bit_size = 3\<rparr> \<and>
   (\<exists>v. string_view \<lparr>bytes = [0xA0], bit_size = 3\<rparr> = Inr v \<and> view_bits v = [True, False, True]) \<and>
   (\<exists>u. copy_string True \<lparr>storage = [0xA5], offset = 2, bsize = 4\<rparr> = Inr u \<and> string_bits u = [True, False, False, True])"
proof -
  have b: "byte_bits 0xA0 = [True, False, True, False, False, False, False, False]"
    "byte_bits 0xA5 = [True, False, True, False, False, True, False, True]"
    by (simp_all add: byte_bits_def bits_of_def upt_rec)
  let ?s = "\<lparr>bytes = [0xA0], bit_size = 3\<rparr>" and ?w = "\<lparr>storage = [0xA5], offset = 2, bsize = 4\<rparr>"
  have "validate_string ?s = Inr ()" by (simp add: validate_string_def u64_max_def byte_count_def)
  moreover have "view_ok ?w \<and> bsize ?w \<le> u64_max - 7" by (simp add: view_ok_def u64_max_def)
  moreover have "string_bits ?s = [True, False, True]" "view_bits ?w = [True, False, False, True]"
    by (simp_all add: string_bits_def view_bits_def b)
  ultimately show ?thesis using strings_are_canonical [of ?s ?s ?w True] by metis
qed

text \<open>
  Parsing binary digits: \<open>from_bits\<close> rejects any other character, refuses a text that is
  too long, and otherwise returns the canonical string whose bits are the digits.
\<close>

theorem from_bits_decides:
  "(from_bits cs = Inr s \<longleftrightarrow>
     length cs \<le> u64_max - 7 \<and> digits_ok cs \<and> string_ok s \<and> string_bits s = digit_bits cs) \<and>
   (from_bits cs = Inl e \<longleftrightarrow>
     (if length cs > u64_max - 7 then e = Length_error ''profile bit string too large''
      else \<not> digits_ok cs \<and> e = Invalid_argument ''expected binary digits''))"
proof -
  consider (long) "length cs > u64_max - 7" | (bad) "length cs \<le> u64_max - 7" "\<not> digits_ok cs"
    | (good) t where "length cs \<le> u64_max - 7" "digits_ok cs" "from_bits cs = Inr t" "string_ok t"
        "string_bits t = digit_bits cs"
    using from_bits_ok [of cs] by (meson not_le)
  then show ?thesis
  proof cases
    case long
    then show ?thesis by (auto simp: from_bits_def)
  next
    case bad
    then show ?thesis by (auto simp: from_bits_def set_digits_bad)
  next
    case good
    then have "t = s \<longleftrightarrow> string_ok s \<and> string_bits s = digit_bits cs" using string_ok_eq by metis
    then show ?thesis using good(1-3) by simp
  qed
qed

end
