(* ===== verification/Counts.thy ===== *)
theory Counts
  imports OwnedStrings
begin

text \<open>
  Writers and readers of the profile codes (\<open>profile_detail\<close> of \<open>profile.h\<close>): growth of an owned
  string, fixed fields, unary runs, the variable-length count codes (varints for byte profiles,
  exponential-Golomb codes for bit profiles) and the backspace codes of a policy. A reader is an
  operation on the read position; an error leaves the position where the code leaves it.
\<close>

section \<open>Growing an owned string\<close>

text \<open>\<open>std::vector<std::byte>::max_size\<close> is \<open>PTRDIFF_MAX\<close>.\<close>

definition vector_max :: nat where
  "vector_max = 9223372036854775807"

definition resize_string :: "bit_string \<Rightarrow> nat \<Rightarrow> bit_string res" where
  "resize_string s bits =
     (if bits > u64_max - 7 then Inl (Length_error ''profile bit string too large'')
      else let n = byte_count bits in
        if n > vector_max then Inl (Length_error ''profile bit string too large'')
        else let bs = take n (bytes s) @ replicate (n - length (bytes s)) 0 in
          Inr \<lparr>bytes = (if bits mod 8 \<noteq> 0
              then bs[length bs - 1 := last bs AND ucast (push_bit (8 - bits mod 8) (0xff :: u32))] else bs),
            bit_size = bits\<rparr>)"

text \<open>The source lies in storage of its own; the destination's buffer is in front of it.\<close>

definition copy_into :: "bool \<Rightarrow> bit_string \<Rightarrow> nat \<Rightarrow> bit_view \<Rightarrow> bit_string res" where
  "copy_into host target first source =
     (if first > bit_size target \<or> bsize source > bit_size target - first
      then Inl (Out_of_range ''profile copy exceeds destination'')
      else let n = length (bytes target) in
        bindE (copy_bits host (bytes target @ storage source) 0 first
          \<lparr>address = n, extent = length (storage source), moffset = offset source, msize = bsize source\<rparr>)
        (\<lambda>mem. Inr (target\<lparr>bytes := take n mem\<rparr>)))"

text \<open>
  \<open>inside\<close> is the outcome of the pointer comparison: the source borrows the target's own buffer,
  which growing may free, so its bits are saved first.
\<close>

definition append_view :: "bool \<Rightarrow> bool \<Rightarrow> bit_string \<Rightarrow> bit_view \<Rightarrow> bit_string res" where
  "append_view host inside target source =
     (let at = bit_size target in
      if bsize source \<noteq> 0 \<and> inside then
        bindE (copy_string host source) (\<lambda>saved.
        bindE (profile_add at (bit_size saved)) (\<lambda>n. bindE (resize_string target n) (\<lambda>t.
        bindE (string_view saved) (\<lambda>v. copy_into host t at v))))
      else
        bindE (profile_add at (bsize source)) (\<lambda>n. bindE (resize_string target n) (\<lambda>t.
        copy_into host t at source)))"

definition append_bit :: "bit_string \<Rightarrow> bool \<Rightarrow> bit_string res" where
  "append_bit target b =
     (let at = bit_size target in
      bindE (profile_add at 1) (\<lambda>n. bindE (resize_string target n) (\<lambda>t.
      Inr (if b then t\<lparr>bytes := (bytes t)[at div 8 := bytes t ! (at div 8) OR push_bit (7 - at mod 8) 1]\<rparr> else t))))"

definition append_byte :: "bit_string \<Rightarrow> u32 \<Rightarrow> bit_string res" where
  "append_byte target x =
     (if bit_size target mod 8 \<noteq> 0 then Inl (Logic_error ''unaligned byte profile writer'')
      else bindE (profile_add (bit_size target) 8) (\<lambda>n.
        Inr \<lparr>bytes = bytes target @ [ucast x], bit_size = n\<rparr>))"

section \<open>Fixed fields and unary runs\<close>

definition put_fixed :: "bool \<Rightarrow> bit_string \<Rightarrow> nat \<Rightarrow> u64 \<Rightarrow> nat \<Rightarrow> (bit_string \<times> nat) res" where
  "put_fixed host target at x w =
     (if w > 64 \<or> at > bit_size target \<or> w > bit_size target - at
      then Inl (Out_of_range ''profile fixed field exceeds destination'')
      else bindE (store_bits host (bytes target) 0 at x w) (\<lambda>bs.
        Inr (target\<lparr>bytes := bs\<rparr>, at + w)))"

definition read_fixed :: "bool \<Rightarrow> bit_view \<Rightarrow> nat \<Rightarrow> (nat, u64) op" where
  "read_fixed host data w = (\<lambda>at.
     if w > 64 \<or> at > bsize data \<or> w > bsize data - at
     then (Inl (Invalid_argument ''truncated backspace remainder''), at)
     else case load_bits host data at w of Inl e \<Rightarrow> (Inl e, at) | Inr x \<Rightarrow> (Inr x, at + w))"

function read_zero_run :: "bool \<Rightarrow> bit_view \<Rightarrow> nat \<Rightarrow> string \<Rightarrow> string \<Rightarrow> nat \<Rightarrow> (nat, nat) op" where
  "read_zero_run host data limit truncated overflow zeros at =
     (if at \<ge> bsize data then (Inl (Invalid_argument truncated), at)
      else let width = min (bsize data - at) 64 in
        case load_bits host data at width of Inl e \<Rightarrow> (Inl e, at)
        | Inr word \<Rightarrow> let leading = countl_zero word - (64 - width) in
            if leading > limit - zeros then (Inl (Invalid_argument overflow), at + (limit - zeros + 1))
            else if leading \<noteq> width then (Inr (zeros + leading), at + leading + 1)
            else read_zero_run host data limit truncated overflow (zeros + leading) (at + leading))"
  by auto
termination by (relation "measure (\<lambda>(host, data, limit, truncated, overflow, zeros, at). bsize data - at)")
  (auto simp: min_def)

declare read_zero_run.simps [simp del]

section \<open>Counts\<close>

function write_varint :: "bit_string \<Rightarrow> u64 \<Rightarrow> bit_string res" where
  "write_varint target x =
     (if x \<ge> 128 then bindE (append_byte target (ucast (x AND 127) OR 128)) (\<lambda>t. write_varint t (drop_bit 7 x))
      else append_byte target (ucast x))"
  by auto

lemma drop_bit_7_less: "x \<ge> 128 \<Longrightarrow> unat (drop_bit 7 x) < unat x" for x :: u64
proof -
  assume "x \<ge> 128"
  then have "128 \<le> unat x" by (simp add: word_le_nat_alt)
  moreover have "unat (drop_bit 7 x) = unat x div 128" unfolding unat_drop_bit_eq by (simp add: drop_bit_eq_div)
  ultimately show ?thesis by simp
qed

termination write_varint
  by (relation "measure (\<lambda>(target, x). unat x)") (auto simp: drop_bit_7_less)

declare write_varint.simps [simp del]

definition write_count :: "bool \<Rightarrow> storage_policy \<Rightarrow> bit_string \<Rightarrow> u64 \<Rightarrow> bit_string res" where
  "write_count host p target x =
     (if policy_unit p = Byte then write_varint target x
      else let maximum = (x = -1);
               width = (if maximum then 65 else bit_width (unat (x + 1)));
               at = bit_size target in
        bindE (profile_add at (2 * width - 1)) (\<lambda>n. bindE (resize_string target n) (\<lambda>t.
        if maximum then
          bindE (put_fixed host t (at + 64) 1 1) (\<lambda>(t, at).
          bindE (put_fixed host t at 0 64) (\<lambda>(t, at). Inr t))
        else bindE (put_fixed host t (at + (width - 1)) (x + 1) width) (\<lambda>(t, at). Inr t))))"

function read_varint :: "bit_view \<Rightarrow> nat \<Rightarrow> u64 \<Rightarrow> (nat, u64) op" where
  "read_varint data shift x at =
     (if shift > 63 then (Inl (Invalid_argument ''overflowing profile count''), at)
      else if at \<ge> bsize data div 8 then (Inl (Invalid_argument ''truncated profile count''), at)
      else case read_byte (storage data) at of Inl e \<Rightarrow> (Inl e, at)
      | Inr part \<Rightarrow>
          if shift = 63 \<and> part > 1 then (Inl (Invalid_argument ''overflowing profile count''), at + 1)
          else let x = x OR push_bit shift (ucast (part AND 127)) in
            if part AND 128 = 0 then
              if shift \<noteq> 0 \<and> part AND 127 = 0
              then (Inl (Invalid_argument ''noncanonical profile count''), at + 1) else (Inr x, at + 1)
            else read_varint data (shift + 7) x (at + 1))"
  by auto
termination by (relation "measure (\<lambda>(data, shift, x, at). 70 - shift)") auto

declare read_varint.simps [simp del]

text \<open>The short codes of a bit profile, decoded from one 16-bit field.\<close>

definition read_short :: "bool \<Rightarrow> bit_view \<Rightarrow> (nat, u64 option) op" where
  "read_short host data = (\<lambda>at.
     if at \<le> bsize data \<and> bsize data - at \<ge> 16 then
       case load_bits host data at 16 of Inl e \<Rightarrow> (Inl e, at)
       | Inr word \<Rightarrow> let zeros = countl_zero word - 48 in
           if zeros < 8 then (Inr (Some (drop_bit (15 - 2 * zeros) word - 1)), at + (2 * zeros + 1))
           else (Inr None, at)
     else (Inr None, at))"

definition read_long :: "bool \<Rightarrow> bit_view \<Rightarrow> (nat, u64) op" where
  "read_long host data =
     bindM (read_zero_run host data 64 ''truncated exponential-Golomb count''
       ''overflowing exponential-Golomb count'' 0) (\<lambda>zeros at.
     if zeros > bsize data - at then (Inl (Invalid_argument ''truncated exponential-Golomb count''), bsize data)
     else bindM (read_fixed host data zeros) (\<lambda>suffix.
       if zeros = 64 then
         if suffix \<noteq> 0 then raiseM (Invalid_argument ''overflowing exponential-Golomb count'') else returnM (-1)
       else returnM ((push_bit zeros 1 - 1) + suffix)) at)"

definition read_count :: "bool \<Rightarrow> storage_policy \<Rightarrow> bit_view \<Rightarrow> (nat, u64) op" where
  "read_count host p data =
     (if policy_unit p = Byte then read_varint data 0 0
      else bindM (read_short host data) (\<lambda>short.
        case short of Some x \<Rightarrow> returnM x | None \<Rightarrow> read_long host data))"

section \<open>Backspaces\<close>

definition golomb_cutoff :: "nat \<Rightarrow> u64" where
  "golomb_cutoff m = (let width = bit_width (m - 1) in
     if width = 64 then 0 - of_nat m else push_bit width 1 - of_nat m)"

fun backspace_bits :: "backspace_encoding \<Rightarrow> u64 \<Rightarrow> nat res" where
  "backspace_bits (Exponential_golomb k) x =
     (let quotient = drop_bit k x;
          pre = (if quotient = -1 then 129 else 2 * bit_width (unat (quotient + 1)) - 1) in
      Inr (pre + k))"
| "backspace_bits (Golomb m) x =
     (let width = bit_width (m - 1);
          remainder_width = width - of_bool (x mod of_nat m < golomb_cutoff m) in
      bindE (profile_add (unat (x div of_nat m)) 1) (\<lambda>n. profile_add n remainder_width))"

fun put_backspace :: "bool \<Rightarrow> backspace_encoding \<Rightarrow> bit_string \<Rightarrow> nat \<Rightarrow> u64 \<Rightarrow> bit_string res" where
  "put_backspace host (Exponential_golomb k) t at x =
     (let quotient = drop_bit k x in
      bindE (if quotient = -1 then
          bindE (put_fixed host t (at + 64) 1 1) (\<lambda>(t, at). put_fixed host t at 0 64)
        else let code = quotient + 1; width = bit_width (unat code) in
          put_fixed host t (at + (width - 1)) code width) (\<lambda>(t, at).
      bindE (put_fixed host t at x k) (\<lambda>(t, at). Inr t)))"
| "put_backspace host (Golomb m) t at x =
     (let width = bit_width (m - 1); cutoff = golomb_cutoff m in
      bindE (put_fixed host t (at + unat (x div of_nat m)) 1 1) (\<lambda>(t, at).
      let remainder = x mod of_nat m in
      bindE (if remainder < cutoff then put_fixed host t at remainder (width - 1)
        else put_fixed host t at (remainder + cutoff) width) (\<lambda>(t, at). Inr t)))"

definition write_backspace :: "bool \<Rightarrow> storage_policy \<Rightarrow> bit_string \<Rightarrow> u64 \<Rightarrow> bit_string res" where
  "write_backspace host p target x =
     (if policy_unit p = Byte then write_count host p target x
      else let at = bit_size target in
        bindE (backspace_bits (backspace p) x) (\<lambda>len. bindE (profile_add at len) (\<lambda>n.
        bindE (resize_string target n) (\<lambda>t. put_backspace host (backspace p) t at x))))"

definition read_golomb :: "bool \<Rightarrow> nat \<Rightarrow> bit_view \<Rightarrow> (nat, u64) op" where
  "read_golomb host m data =
     (let width = bit_width (m - 1); cutoff = golomb_cutoff m; limit = u64_max div m in
      bindM (read_zero_run host data limit ''truncated backspace remainder'' ''overflowing Golomb quotient'' 0)
        (\<lambda>quotient.
      bindM (if width \<noteq> 0 then
          bindM (read_fixed host data (width - 1)) (\<lambda>remainder.
          if remainder \<ge> cutoff then
            bindM (read_fixed host data 1) (\<lambda>b. returnM ((push_bit 1 remainder OR b) - cutoff))
          else returnM remainder)
        else returnM 0) (\<lambda>remainder.
      let base = of_nat quotient * of_nat m in
      if remainder > -1 - base then raiseM (Invalid_argument ''overflowing Golomb backspace'')
      else returnM (base + remainder))))"

definition read_backspace :: "bool \<Rightarrow> storage_policy \<Rightarrow> bit_view \<Rightarrow> (nat, u64) op" where
  "read_backspace host p data =
     (if policy_unit p = Byte then read_count host p data
      else case backspace p of
        Exponential_golomb k \<Rightarrow>
          bindM (read_count host p data) (\<lambda>quotient.
          if quotient > drop_bit k (-1) then raiseM (Invalid_argument ''overflowing exponential-Golomb backspace'')
          else bindM (read_fixed host data k) (\<lambda>remainder. returnM (push_bit k quotient OR remainder)))
      | Golomb m \<Rightarrow> read_golomb host m data)"

end
