(* ===== verification/CountCodes.thy ===== *)
theory CountCodes
  imports Counts
begin

text \<open>
  What the writers and readers of \<open>Counts\<close> do to the bits: every writer appends exactly the
  code of its value to a canonical string, and a reader succeeds exactly on a code, returning
  its value and the position behind it. The codes are given as reference functions on numbers.
\<close>

section \<open>Growing a canonical string\<close>

lemma byte_mask_bits:
  fixes b :: u8
  assumes "k \<le> 8"
  shows "byte_bits (b AND ucast (push_bit k (0xff :: u32))) = take (8 - k) (byte_bits b) @ replicate k False"
proof (rule nth_equalityI)
  fix i assume "i < length (byte_bits (b AND ucast (push_bit k (0xff :: u32))))"
  then have i: "i < 8" by simp
  have ff: "(0xff :: u32) = mask 8" by (simp add: mask_eq_exp_minus_1)
  have "bit (ucast (push_bit k (0xff :: u32)) :: u8) (7 - i) \<longleftrightarrow> k \<le> 7 - i"
    unfolding ff using i by (auto simp: bit_ucast_iff bit_push_bit_iff bit_mask_iff)
  then show "byte_bits (b AND ucast (push_bit k (0xff :: u32))) ! i = (take (8 - k) (byte_bits b) @ replicate k False) ! i"
    using i assms by (auto simp: nth_byte_bits bit_and_iff nth_append)
qed (use assms in simp)

lemma padded_bytes:
  assumes "string_ok s"
  shows "all_bits (take m (bytes s) @ replicate (m - length (bytes s)) 0) =
    take (8 * m) (string_bits s @ replicate (8 * m) False)"
proof -
  let ?c = "byte_count (bit_size s)"
  have b: "all_bits (bytes s) = string_bits s @ replicate (8 * ?c - bit_size s) False" "length (bytes s) = ?c"
    "length (string_bits s) = bit_size s" "bit_size s \<le> 8 * ?c"
    using assms length_string_bits [OF assms] byte_count_bounds(1) [of "bit_size s"] by (simp_all add: string_ok_def)
  show ?thesis
  proof (cases "m \<le> ?c")
    case True
    then have "all_bits (take m (bytes s)) = take (8 * m) (string_bits s @ replicate (8 * ?c - bit_size s) False)"
      by (simp only: b(1) flip: take_all_bits)
    then show ?thesis using True b(2-4) by (simp add: min_def)
  next
    case False
    then have "all_bits (take m (bytes s) @ replicate (m - length (bytes s)) 0) =
        string_bits s @ replicate (8 * ?c - bit_size s) False @ replicate (8 * (m - ?c)) False"
      using b(1,2) by simp
    also have "\<dots> = string_bits s @ replicate (8 * m - bit_size s) False"
      using False b(4) by (simp flip: replicate_add)
    finally show ?thesis using False b(3,4) by (simp add: min_def)
  qed
qed

lemma masked_bytes:
  assumes "length bs = byte_count n" "n mod 8 \<noteq> 0"
  shows "all_bits (bs[length bs - 1 := last bs AND ucast (push_bit (8 - n mod 8) (0xff :: u32))]) =
    take n (all_bits bs) @ replicate (8 * byte_count n - n) False"
proof -
  define q r where "q = n div 8" and "r = n mod 8"
  have n: "n = 8 * q + r" and r: "r < 8" "r \<noteq> 0" using assms(2) by (simp_all add: q_def r_def)
  have c: "byte_count n = Suc q"
  proof -
    have "8 * q + r + 7 = 8 * (q + 1) + (r - 1)" "(r - 1) div 8 = 0" using r by simp_all
    then show ?thesis by (simp only: byte_count_def n div_mult_self4 zero_neq_numeral simp_thms)
  qed
  then have "bs \<noteq> []" and len: "length bs = Suc q" using assms(1) by auto
  then obtain as b where bs: "bs = as @ [b]" "length as = q" by (cases bs rule: rev_cases) auto
  have "take n (all_bits bs) = all_bits as @ take r (byte_bits b)" using bs by (simp add: n)
  moreover have "bs[length bs - 1 := last bs AND ucast (push_bit (8 - n mod 8) (0xff :: u32))] =
      as @ [b AND ucast (push_bit (8 - r) (0xff :: u32))]"
    using bs by (simp add: list_update_append r_def)
  moreover have "8 * byte_count n - n = 8 - r" unfolding c by (simp add: n)
  ultimately show ?thesis using byte_mask_bits [of "8 - r" b] r(1) by simp
qed

lemma resize_string_bits:
  assumes "string_ok s" "n \<le> u64_max - 7"
  shows "\<exists>t. resize_string s n = Inr t \<and> string_ok t \<and> bit_size t = n \<and>
    string_bits t = take n (string_bits s @ replicate n False)"
proof -
  let ?m = "byte_count n"
  define bs where "bs = take ?m (bytes s) @ replicate (?m - length (bytes s)) 0"
  have l: "length bs = ?m" by (simp add: bs_def)
  have bits: "all_bits bs = take (8 * ?m) (string_bits s @ replicate (8 * ?m) False)"
    unfolding bs_def by (rule padded_bytes [OF assms(1)])
  have le: "n \<le> 8 * ?m" by (rule byte_count_bounds)
  then have first_n: "take n (all_bits bs) = take n (string_bits s @ replicate n False)"
    unfolding bits by (simp add: min_absorb1)
  define out where "out = (if n mod 8 \<noteq> 0
    then bs[length bs - 1 := last bs AND ucast (push_bit (8 - n mod 8) (0xff :: u32))] else bs)"
  have out: "all_bits out = take n (all_bits bs) @ replicate (8 * ?m - n) False"
  proof (cases "n mod 8 = 0")
    case True
    then have "8 * ?m = n" by (auto simp: byte_count_def elim!: dvdE)
    then show ?thesis using True l by (simp add: out_def)
  next
    case False
    then show ?thesis using masked_bytes [OF l False] by (simp add: out_def)
  qed
  have "length out = ?m" using l by (simp add: out_def)
  moreover have "length (take n (all_bits bs)) = n" using l le by simp
  ultimately have ok: "string_ok \<lparr>bytes = out, bit_size = n\<rparr>"
    "string_bits \<lparr>bytes = out, bit_size = n\<rparr> = take n (all_bits bs)"
    using string_ok_intro [OF out _ _ assms(2)] by blast+
  have "?m \<le> vector_max"
    using byte_count_bounds(2) [of n] assms(2) by (simp add: vector_max_def u64_max_def)
  then have "resize_string s n = Inr \<lparr>bytes = out, bit_size = n\<rparr>"
    using assms(2) by (simp add: resize_string_def Let_def out_def bs_def)
  then show ?thesis using ok first_n by auto
qed

lemma grow_string:
  assumes "string_ok s" "n \<le> u64_max - 7" "bit_size s \<le> n"
  obtains t where "resize_string s n = Inr t" "string_ok t" "bit_size t = n"
    "string_bits t = string_bits s @ replicate (n - bit_size s) False"
proof -
  have "take n (string_bits s @ replicate n False) = string_bits s @ replicate (n - bit_size s) False"
    using assms(3) length_string_bits [OF assms(1)] by (simp add: min_def)
  then show ?thesis using resize_string_bits [OF assms(1,2)] that by auto
qed

lemma string_ok_write:
  assumes "string_ok s" "length bs = length (bytes s)" "at + length f \<le> bit_size s"
    and "all_bits bs = splice (all_bits (bytes s)) at f"
  shows "string_ok (s\<lparr>bytes := bs\<rparr>)" "string_bits (s\<lparr>bytes := bs\<rparr>) = splice (string_bits s) at f"
proof -
  have l: "length (string_bits s) = bit_size s" by (rule length_string_bits [OF assms(1)])
  have "all_bits bs = splice (string_bits s) at f @ replicate (8 * byte_count (bit_size s) - bit_size s) False"
    using assms l unfolding string_ok_def splice_def by simp
  moreover have "length (splice (string_bits s) at f) = bit_size s" using assms(3) l by (simp add: length_splice)
  moreover have e: "s\<lparr>bytes := bs\<rparr> = \<lparr>bytes = bs, bit_size = bit_size s\<rparr>" by (cases s) simp
  ultimately show "string_ok (s\<lparr>bytes := bs\<rparr>)" "string_bits (s\<lparr>bytes := bs\<rparr>) = splice (string_bits s) at f"
    unfolding e using string_ok_intro [of bs "splice (string_bits s) at f" "bit_size s"] assms(1,2)
    by (simp_all add: string_ok_def)
qed

lemma put_fixed_splice:
  assumes "string_ok s" "at + w \<le> bit_size s" "w \<le> 64"
  shows "\<exists>t. put_fixed host s at x w = Inr (t, at + w) \<and> string_ok t \<and> bit_size t = bit_size s \<and>
    string_bits t = splice (string_bits s) at (word_bits w x)"
proof -
  have "bit_size s \<le> 8 * length (bytes s)"
    using assms(1) byte_count_bounds(1) [of "bit_size s"] by (simp add: string_ok_def)
  then obtain bs where "store_bits host (bytes s) 0 at x w = Inr bs" "length bs = length (bytes s)"
    "all_bits bs = splice (all_bits (bytes s)) at (word_bits w x)"
    using store_bits_bits [of 0 at w "bytes s" host x] assms(2,3) by auto
  then show ?thesis
    using string_ok_write [OF assms(1), of bs at "word_bits w x"] assms(2,3) by (auto simp: put_fixed_def)
qed

text \<open>Fields are put one after the other into the zeroes of a grown string.\<close>

lemma put_fixed_fill:
  assumes "string_ok s" "string_bits s = xs @ replicate n False" "at = length xs + a" "a + w \<le> n" "w \<le> 64"
  obtains t where "put_fixed host s at x w = Inr (t, at + w)" "string_ok t"
    "string_bits t = (xs @ replicate a False @ word_bits w x) @ replicate (n - (a + w)) False"
proof -
  have "length xs + n = bit_size s" using length_string_bits [OF assms(1)] assms(2) by simp
  then have fit: "at + w \<le> bit_size s" using assms(3,4) by simp
  have "splice (xs @ replicate n False) at (word_bits w x) =
      (xs @ replicate a False @ word_bits w x) @ replicate (n - (a + w)) False"
    using assms(3,4) by (simp add: splice_def min_def add.assoc)
  then show ?thesis using put_fixed_splice [OF assms(1) fit assms(5), of host x] assms(2) that by auto
qed

lemma copy_into_splice:
  assumes "string_ok s" "view_ok v" "at + bsize v \<le> bit_size s"
  shows "\<exists>t. copy_into host s at v = Inr t \<and> string_ok t \<and> bit_size t = bit_size s \<and>
    string_bits t = splice (string_bits s) at (view_bits v)"
proof -
  define n where "n = length (bytes s)"
  let ?mem = "bytes s @ storage v"
  let ?src = "\<lparr>address = n, extent = length (storage v), moffset = offset v, msize = bsize v\<rparr>"
  have cap: "bit_size s \<le> 8 * n"
    using assms(1) byte_count_bounds(1) [of "bit_size s"] by (simp add: string_ok_def n_def)
  have src: "source_ok ?mem ?src" using assms(2) by (simp add: source_ok_def view_ok_def n_def)
  have fit: "8 * 0 + at + msize ?src \<le> 8 * length ?mem" using assms(3) cap by (simp add: n_def)
  have sb: "take (bsize v) (drop (8 * n + offset v) (all_bits ?mem)) = view_bits v"
    by (simp add: n_def view_bits_def)
  obtain mem where m: "copy_bits host ?mem 0 at ?src = Inr mem" "length mem = length ?mem"
    "all_bits mem = splice (all_bits ?mem) at (view_bits v)"
    using copy_bits_splice [OF src fit, of host] sb by auto
  have "take (8 * n) (all_bits mem) = splice (all_bits (bytes s)) at (view_bits v)"
    using assms(3) cap length_view_bits [OF assms(2)] unfolding m(3) by (simp add: splice_def n_def)
  then have "all_bits (take n mem) = splice (all_bits (bytes s)) at (view_bits v)"
    by (simp only: take_all_bits)
  moreover have "length (take n mem) = length (bytes s)" using m(2) by (simp add: n_def)
  ultimately show ?thesis
    using string_ok_write [OF assms(1), of "take n mem" at "view_bits v"] m(1) assms(3) length_view_bits [OF assms(2)]
    by (auto simp: copy_into_def Let_def n_def)
qed

lemma append_view_bits:
  assumes s: "string_ok s" and v: "view_ok v" and n: "bit_size s + bsize v \<le> u64_max - 7"
  shows "\<exists>t. append_view host inside s v = Inr t \<and> string_ok t \<and> string_bits t = string_bits s @ view_bits v"
proof -
  have go: "\<exists>t. bindE (profile_add (bit_size s) (bsize w)) (\<lambda>n. bindE (resize_string s n) (\<lambda>t.
      copy_into host t (bit_size s) w)) = Inr t \<and> string_ok t \<and> string_bits t = string_bits s @ view_bits w"
    if w: "view_ok w" "bsize w = bsize v" for w
  proof -
    have nw: "bit_size s + bsize w \<le> u64_max - 7" using n w(2) by simp
    obtain t where t: "resize_string s (bit_size s + bsize w) = Inr t" "string_ok t"
      "bit_size t = bit_size s + bsize w"
      "string_bits t = string_bits s @ replicate (bit_size s + bsize w - bit_size s) False"
      by (rule grow_string [OF s nw le_add1])
    have fit: "bit_size s + bsize w \<le> bit_size t" using t(3) by simp
    have "splice (string_bits t) (bit_size s) (view_bits w) = string_bits s @ view_bits w"
      unfolding t(4) using length_string_bits [OF s] length_view_bits [OF w(1)] by (simp add: splice_def)
    then show ?thesis
      using copy_into_splice [OF t(2) w(1) fit, of host] t(1) nw by (auto simp: profile_add_def u64_max_def)
  qed
  show ?thesis
  proof (cases "bsize v \<noteq> 0 \<and> inside")
    case True
    have "bsize v \<le> u64_max - 7" using n by simp
    then obtain c where c: "copy_string host v = Inr c" "string_ok c" "string_bits c = view_bits v" "bit_size c = bsize v"
      using copy_string_ok [OF v, of host] by blast
    obtain w where w: "string_view c = Inr w" "view_ok w" "view_bits w = view_bits v" "bsize w = bsize v"
      using string_view_ok [OF c(2)] c(3,4) by auto
    show ?thesis using True c(1,4) w(1) go [OF w(2,4)] w(3,4) by (simp add: append_view_def Let_def)
  next
    case False
    then show ?thesis using go [OF v refl] by (auto simp: append_view_def Let_def)
  qed
qed

section \<open>The codes\<close>

text \<open>
  The exponential-Golomb code of order zero, the base-128 code with the least significant group
  first, and the Golomb code with a truncated binary remainder, of numbers.
\<close>

definition exp_golomb :: "nat \<Rightarrow> bool list" where
  "exp_golomb n = replicate (bit_width (n + 1) - 1) False @ bits_of (bit_width (n + 1)) (n + 1)"

fun varint :: "nat \<Rightarrow> u8 list" where
  "varint n = (if n \<ge> 128 then of_nat (128 + n mod 128) # varint (n div 128) else [of_nat n])"

declare varint.simps [simp del]

definition golomb_code :: "nat \<Rightarrow> nat \<Rightarrow> bool list" where
  "golomb_code m n = replicate (n div m) False @ True #
     (let w = bit_width (m - 1); cutoff = 2 ^ w - m; r = n mod m in
      if r < cutoff then bits_of (w - 1) r else bits_of w (r + cutoff))"

definition count_code :: "storage_policy \<Rightarrow> u64 \<Rightarrow> bool list" where
  "count_code p x = (if policy_unit p = Byte then all_bits (varint (unat x)) else exp_golomb (unat x))"

fun tail_code :: "backspace_encoding \<Rightarrow> nat \<Rightarrow> bool list" where
  "tail_code (Exponential_golomb k) n = exp_golomb (n div 2 ^ k) @ bits_of k n"
| "tail_code (Golomb m) n = golomb_code m n"

definition backspace_code :: "storage_policy \<Rightarrow> u64 \<Rightarrow> bool list" where
  "backspace_code p x = (if policy_unit p = Byte then all_bits (varint (unat x)) else tail_code (backspace p) (unat x))"

text \<open>A code of order zero is a run of zeroes, a one and a field as wide as the run.\<close>

lemma exp_golomb_shape:
  assumes "n + 1 = 2 ^ length s + bits_value s"
  shows "exp_golomb n = replicate (length s) False @ True # s"
proof -
  have w: "bit_width (n + 1) = Suc (length s)"
    using assms bits_value_less [of s] by (intro bit_width_eqI) simp_all
  have "bits_of (Suc (length s)) (n + 1) = True # s"
  proof (rule bits_value_inj)
    show "bits_value (bits_of (Suc (length s)) (n + 1)) = bits_value (True # s)"
      using assms bits_value_less [of s] by (simp add: bits_value_of)
  qed simp
  then show ?thesis unfolding exp_golomb_def w by simp
qed

lemma exp_golomb_obtain:
  obtains s where "n + 1 = 2 ^ length s + bits_value s" "exp_golomb n = replicate (length s) False @ True # s"
proof -
  define z where "z = bit_width (n + 1) - 1"
  have lo: "2 ^ z \<le> n + 1" using bit_width_bounds(2) [of "n + 1"] by (simp add: z_def)
  have "bit_width (n + 1) \<noteq> 0" by (subst bit_width.simps) simp
  then have hi: "n + 1 < 2 ^ z + 2 ^ z" using bit_width_bounds(1) [of "n + 1"] by (cases "bit_width (n + 1)") (simp_all add: z_def)
  define s where "s = bits_of z (n + 1 - 2 ^ z)"
  have "n + 1 = 2 ^ length s + bits_value s"
    using lo hi by (simp add: s_def bits_value_of)
  then show ?thesis using that exp_golomb_shape by blast
qed

lemma length_exp_golomb: "length (exp_golomb n) = 2 * bit_width (n + 1) - 1"
proof -
  have "bit_width (n + 1) \<noteq> 0" by (subst bit_width.simps) simp
  then show ?thesis by (simp add: exp_golomb_def)
qed

section \<open>Writing\<close>

lemma append_byte_bits:
  assumes "string_ok s" "bit_size s mod 8 = 0" "bit_size s + 8 \<le> u64_max - 7"
  obtains t where "append_byte s x = Inr t" "string_ok t" "bit_size t = bit_size s + 8"
    "string_bits t = string_bits s @ byte_bits (ucast x)"
proof -
  obtain q where q: "bit_size s = 8 * q" using assms(2) by (auto elim: dvdE)
  then have c: "byte_count (bit_size s) = q" "byte_count (bit_size s + 8) = Suc q" by (simp_all add: byte_count_def)
  have b: "all_bits (bytes s) = string_bits s" "length (bytes s) = q" "length (string_bits s) = bit_size s"
    using assms(1) length_string_bits [OF assms(1)] c(1) q by (simp_all add: string_ok_def)
  have "all_bits (bytes s @ [ucast x]) = (string_bits s @ byte_bits (ucast x)) @
      replicate (8 * byte_count (bit_size s + 8) - (bit_size s + 8)) False"
    using b(1) unfolding c(2) by (simp add: q)
  then have "string_ok \<lparr>bytes = bytes s @ [ucast x], bit_size = bit_size s + 8\<rparr>"
    "string_bits \<lparr>bytes = bytes s @ [ucast x], bit_size = bit_size s + 8\<rparr> = string_bits s @ byte_bits (ucast x)"
    using string_ok_intro [of "bytes s @ [ucast x]" "string_bits s @ byte_bits (ucast x)" "bit_size s + 8"] b c(2) assms(3)
    by simp_all
  moreover have "append_byte s x = Inr \<lparr>bytes = bytes s @ [ucast x], bit_size = bit_size s + 8\<rparr>"
    using assms(2,3) by (simp add: append_byte_def profile_add_def u64_max_def)
  ultimately show ?thesis using that by simp
qed

lemma byte_group: "(ucast (ucast (x AND 127) OR 128 :: u32) :: u8) = of_nat (128 + unat x mod 128)" for x :: u64
proof -
  have m: "x AND 127 = of_nat (unat x mod 128)"
  proof -
    have "(127 :: u64) = mask 7" by (simp add: mask_eq_exp_minus_1)
    then have "x AND 127 = take_bit 7 x" by (simp only: take_bit_eq_mask)
    then have "unat (x AND 127) = unat x mod 128"
      by (simp only: unsigned_take_bit_eq) (simp add: take_bit_eq_mod)
    moreover have "of_nat (unat (x AND 127)) = x AND 127" by (simp only: of_nat_unat ucast_id)
    ultimately show ?thesis by metis
  qed
  define r where "r = unat x mod 128"
  have r: "r < 128" by (simp add: r_def)
  have "(of_nat r :: u8) AND 128 = 0"
  proof (rule bit_word_eqI)
    fix k assume "k < LENGTH(8)"
    have "\<not> bit r 7" using r by (simp add: bit_iff_odd)
    then have "\<not> bit (of_nat r :: u8) 7" by (simp add: bit_of_nat_iff)
    moreover have "bit (128 :: u8) k \<longleftrightarrow> k = 7" using bit_exp_iff [of 7 k, where 'a = "8 word"] by auto
    ultimately show "bit ((of_nat r :: u8) AND 128) k = bit (0 :: u8) k" by (auto simp: bit_and_iff)
  qed
  then have "(of_nat r :: u8) OR 128 = of_nat r + 128" by (simp only: disjunctive_add_eq_or)
  moreover have "(ucast (ucast (of_nat r :: u64) OR 128 :: u32) :: u8) = of_nat r OR 128"
    by (rule bit_word_eqI) (auto simp: bit_ucast_iff bit_or_iff bit_of_nat_iff)
  ultimately show ?thesis unfolding m r_def [symmetric] by simp
qed

lemma write_varint_bits:
  "string_ok s \<Longrightarrow> bit_size s mod 8 = 0 \<Longrightarrow> bit_size s + 8 * length (varint (unat x)) \<le> u64_max - 7 \<Longrightarrow>
    \<exists>t. write_varint s x = Inr t \<and> string_ok t \<and> string_bits t = string_bits s @ all_bits (varint (unat x))"
proof (induction s x rule: write_varint.induct)
  case (1 s x)
  show ?case
  proof (cases "x \<ge> 128")
    case False
    then have n: "unat x < 128" by (simp add: word_le_nat_alt)
    then have v: "varint (unat x) = [ucast x]" by (subst varint.simps) (simp add: unsigned_ucast_eq)
    have "bit_size s + 8 \<le> u64_max - 7" using 1(4) by (simp add: v)
    then obtain t where "append_byte s (ucast x) = Inr t" "string_ok t"
      "string_bits t = string_bits s @ byte_bits (ucast (ucast x :: u32))"
      by (rule append_byte_bits [OF 1(2,3)])
    moreover have "(ucast (ucast x :: u32) :: u8) = ucast x"
      by (rule bit_word_eqI) (auto simp: bit_ucast_iff)
    ultimately show ?thesis using False by (subst write_varint.simps) (simp add: v)
  next
    case True
    then have n: "unat x \<ge> 128" by (simp add: word_le_nat_alt)
    have d: "unat (drop_bit 7 x) = unat x div 128" unfolding unat_drop_bit_eq by (simp add: drop_bit_eq_div)
    have v: "varint (unat x) = of_nat (128 + unat x mod 128) # varint (unat (drop_bit 7 x))"
      using n unfolding d by (subst varint.simps) simp
    have "bit_size s + 8 \<le> u64_max - 7" using 1(4) by (simp add: v)
    then obtain t where t: "append_byte s (ucast (x AND 127) OR 128) = Inr t" "string_ok t" "bit_size t = bit_size s + 8"
      "string_bits t = string_bits s @ byte_bits (ucast (ucast (x AND 127) OR 128 :: u32))"
      by (rule append_byte_bits [OF 1(2,3)])
    have "\<exists>t'. write_varint t (drop_bit 7 x) = Inr t' \<and> string_ok t' \<and>
        string_bits t' = string_bits t @ all_bits (varint (unat (drop_bit 7 x)))"
      using 1(1) [OF True t(1,2)] 1(3,4) t(3) by (simp add: v)
    then show ?thesis using True t(1,4) by (subst write_varint.simps) (auto simp: v byte_group)
  qed
qed

text \<open>The code of order zero, put into zeroes.\<close>

definition put_exp :: "bool \<Rightarrow> bit_string \<Rightarrow> nat \<Rightarrow> u64 \<Rightarrow> (bit_string \<times> nat) res" where
  "put_exp host t at q =
     (if q = -1 then bindE (put_fixed host t (at + 64) 1 1) (\<lambda>(t, at). put_fixed host t at 0 64)
      else put_fixed host t (at + (bit_width (unat (q + 1)) - 1)) (q + 1) (bit_width (unat (q + 1))))"

lemma unat_max_u64: "unat (-1 :: u64) = 18446744073709551615"
  by (simp add: unsigned_minus_1_eq_mask mask_eq_exp_minus_1)

lemma exp_golomb_max: "exp_golomb 18446744073709551615 = replicate 64 False @ True # replicate 64 False"
proof -
  have "(18446744073709551615 :: nat) + 1 = 2 ^ length (replicate 64 False) + bits_value (replicate 64 False)" by simp
  then show ?thesis using exp_golomb_shape by fastforce
qed

lemma exp_golomb_word:
  assumes "q \<noteq> -1"
  shows "exp_golomb (unat q) = replicate (bit_width (unat (q + 1)) - 1) False @ word_bits (bit_width (unat (q + 1))) (q + 1)"
    "bit_width (unat (q + 1)) \<le> 64" "unat (q + 1) = unat q + 1"
proof -
  have "q + 1 \<noteq> 0" using assms by (metis add_eq_0_iff2 minus_equation_iff)
  then show u: "unat (q + 1) = unat q + 1" by (simp add: unatSuc add.commute)
  show "exp_golomb (unat q) = replicate (bit_width (unat (q + 1)) - 1) False @ word_bits (bit_width (unat (q + 1))) (q + 1)"
    unfolding u by (simp add: exp_golomb_def word_bits_def u)
  show "bit_width (unat (q + 1)) \<le> 64"
    using unsigned_less [of "q + 1", where 'a = nat] by (intro bit_width_le) simp
qed

lemma put_exp_bits:
  assumes s: "string_ok s" "string_bits s = xs @ replicate n False" and at: "at = length xs"
    and fit: "length (exp_golomb (unat q)) \<le> n"
  obtains t where "put_exp host s at q = Inr (t, at + length (exp_golomb (unat q)))" "string_ok t"
    "string_bits t = (xs @ exp_golomb (unat q)) @ replicate (n - length (exp_golomb (unat q))) False"
proof (cases "q = -1")
  case True
  let ?one = "word_bits 1 (1 :: u64)" and ?z = "replicate 64 False"
  have w: "?one = [True]" "word_bits 64 0 = ?z"
    by (simp_all add: word_bits_def bits_of_def map_replicate_const)
  have e: "exp_golomb (unat q) = ?z @ True # ?z" by (simp only: True unat_max_u64 exp_golomb_max)
  have n: "129 \<le> n" using fit by (simp add: e)
  obtain t where t: "put_fixed host s (at + 64) 1 1 = Inr (t, at + 64 + 1)" "string_ok t"
    "string_bits t = (xs @ ?z @ ?one) @ replicate (n - (64 + 1)) False"
    by (rule put_fixed_fill [OF s, of "at + 64" 64 1 host 1]) (use at n in simp_all)
  obtain u where u: "put_fixed host t (at + 64 + 1) 0 64 = Inr (u, at + 64 + 1 + 64)" "string_ok u"
    "string_bits u = ((xs @ ?z @ ?one) @ replicate 0 False @ word_bits 64 0) @ replicate (n - (64 + 1) - (0 + 64)) False"
    by (rule put_fixed_fill [OF t(2,3), of "at + 64 + 1" 0 64 host 0]) (use at n in simp_all)
  have "put_exp host s at q = Inr (u, at + length (exp_golomb (unat q)))"
    unfolding e put_exp_def using True t(1) u(1) by simp
  moreover have "string_bits u = (xs @ exp_golomb (unat q)) @ replicate (n - length (exp_golomb (unat q))) False"
    unfolding e u(3) w by simp
  ultimately show ?thesis using that u(2) by blast
next
  case False
  let ?w = "bit_width (unat (q + 1))"
  note e = exp_golomb_word [OF False]
  have l: "length (exp_golomb (unat q)) = ?w - 1 + ?w" by (simp add: e(1))
  obtain t where "put_fixed host s (at + (?w - 1)) (q + 1) ?w = Inr (t, at + (?w - 1) + ?w)" "string_ok t"
    "string_bits t = (xs @ replicate (?w - 1) False @ word_bits ?w (q + 1)) @ replicate (n - (?w - 1 + ?w)) False"
    by (rule put_fixed_fill [OF s, of "at + (?w - 1)" "?w - 1" ?w host "q + 1"]) (use at fit l e(2) in simp_all)
  then show ?thesis using that [of t] False unfolding l by (simp add: put_exp_def e(1) add.assoc)
qed

lemma write_count_bit:
  assumes p: "policy_unit p = Bit" and s: "string_ok s"
    and n: "bit_size s + length (exp_golomb (unat x)) \<le> u64_max - 7"
  shows "\<exists>t. write_count host p s x = Inr t \<and> string_ok t \<and> string_bits t = string_bits s @ exp_golomb (unat x)"
proof -
  let ?l = "length (exp_golomb (unat x))"
  have l: "2 * (if x = -1 then 65 else bit_width (unat (x + 1))) - 1 = ?l"
  proof (cases "x = -1")
    case True
    then show ?thesis by (simp add: unat_max_u64 exp_golomb_max)
  next
    case False
    then show ?thesis using exp_golomb_word(3) [OF False] by (simp add: length_exp_golomb)
  qed
  obtain g where g: "resize_string s (bit_size s + ?l) = Inr g" "string_ok g"
    "string_bits g = string_bits s @ replicate (bit_size s + ?l - bit_size s) False"
    by (rule grow_string [OF s n le_add1])
  obtain t where t: "put_exp host g (bit_size s) x = Inr (t, bit_size s + ?l)" "string_ok t"
    "string_bits t = (string_bits s @ exp_golomb (unat x)) @ replicate (bit_size s + ?l - bit_size s - ?l) False"
    by (rule put_exp_bits [OF g(2,3), of "bit_size s" x host]) (use length_string_bits [OF s] in simp_all)
  have "write_count host p s x = bindE (put_exp host g (bit_size s) x) (\<lambda>(t, at). Inr t)"
  proof -
    have a: "profile_add (bit_size s) ?l = Inr (bit_size s + ?l)" using n by (simp add: profile_add_def u64_max_def)
    have "write_count host p s x =
        (if x = -1 then bindE (put_fixed host g (bit_size s + 64) 1 1) (\<lambda>(t, at).
           bindE (put_fixed host t at 0 64) (\<lambda>(t, at). Inr t))
         else bindE (put_fixed host g (bit_size s + ((if x = -1 then 65 else bit_width (unat (x + 1))) - 1)) (x + 1)
           (if x = -1 then 65 else bit_width (unat (x + 1)))) (\<lambda>(t, at). Inr t))"
      unfolding write_count_def Let_def l a g(1) bindE_simps p by (simp only: profile_unit.simps if_False)
    also have "\<dots> = bindE (put_exp host g (bit_size s) x) (\<lambda>(t, at). Inr t)"
      by (cases "x = -1") (simp_all only: put_exp_def if_True if_False simp_thms bindE_assoc split_def)
    finally show ?thesis .
  qed
  then show ?thesis using t by simp
qed

text \<open>Every count is appended as its code.\<close>

lemma write_count_bits:
  assumes "string_ok s" "policy_unit p = Byte \<longrightarrow> bit_size s mod 8 = 0"
    and "bit_size s + length (count_code p x) \<le> u64_max - 7"
  shows "\<exists>t. write_count host p s x = Inr t \<and> string_ok t \<and> string_bits t = string_bits s @ count_code p x"
proof (cases "policy_unit p")
  case Byte
  then show ?thesis
    using write_varint_bits [OF assms(1), of x] assms by (simp add: write_count_def count_code_def)
next
  case Bit
  then show ?thesis
    using write_count_bit [OF Bit assms(1), of x host] assms by (simp add: count_code_def)
qed

text \<open>The truncated binary remainder of a Golomb code.\<close>

lemma unat_push_bit_1: "w < 64 \<Longrightarrow> unat (push_bit w 1 :: u64) = 2 ^ w"
proof -
  assume "w < 64"
  then have "(2 :: nat) ^ w < 2 ^ 64" by (intro power_strict_increasing) simp_all
  moreover have "push_bit w (1 :: u64) = of_nat (2 ^ w)" by (simp add: push_bit_eq_mult)
  ultimately show ?thesis by (simp only: unat_of_nat_u64)
qed

lemma golomb_cutoff_value:
  assumes "0 < m" "m \<le> u64_max"
  shows "unat (golomb_cutoff m) = 2 ^ bit_width (m - 1) - m" "m \<le> 2 ^ bit_width (m - 1)" "bit_width (m - 1) \<le> 64"
proof -
  let ?w = "bit_width (m - 1)"
  have m: "unat (of_nat m :: u64) = m" using assms(2) by (intro unat_of_nat_u64) (simp add: u64_max_def)
  show le: "m \<le> 2 ^ ?w" using bit_width_bounds(1) [of "m - 1"] assms(1) by linarith
  show w: "?w \<le> 64" using assms(2) by (intro bit_width_le) (simp add: u64_max_def)
  show "unat (golomb_cutoff m) = 2 ^ ?w - m"
  proof (cases "?w = 64")
    case True
    have "unat (0 - of_nat m :: u64) = 2 ^ 64 - m"
      using assms(1) by (simp only: unat_sub_if_size m word_size) simp
    then show ?thesis by (simp only: golomb_cutoff_def Let_def True simp_thms if_True)
  next
    case False
    then have p: "unat (push_bit ?w 1 :: u64) = 2 ^ ?w" using w by (intro unat_push_bit_1) linarith
    then have "(of_nat m :: u64) \<le> push_bit ?w 1" using le m by (simp only: word_le_nat_alt)
    then show ?thesis using False m p by (simp only: golomb_cutoff_def Let_def if_False unat_sub)
  qed
qed

lemma golomb_tail:
  fixes x :: u64
  assumes "0 < m" "m \<le> u64_max"
  defines "r \<equiv> x mod of_nat m"
  shows "unat (x div of_nat m) = unat x div m" "unat r = unat x mod m"
    "r < golomb_cutoff m \<longleftrightarrow> unat x mod m < 2 ^ bit_width (m - 1) - m"
    "unat (r + golomb_cutoff m) = unat x mod m + (2 ^ bit_width (m - 1) - m)"
proof -
  have m: "unat (of_nat m :: u64) = m" using assms(2) by (intro unat_of_nat_u64) (simp add: u64_max_def)
  note c = golomb_cutoff_value [OF assms(1,2)]
  show "unat (x div of_nat m) = unat x div m" and r: "unat r = unat x mod m"
    by (simp_all only: r_def unat_div unat_mod m)
  show "r < golomb_cutoff m \<longleftrightarrow> unat x mod m < 2 ^ bit_width (m - 1) - m"
    by (simp only: word_less_nat_alt r c(1))
  have "unat x mod m < m" using assms(1) by simp
  then have lt: "unat r + unat (golomb_cutoff m) < 2 ^ bit_width (m - 1)" using c(2) unfolding r c(1) by linarith
  have "(2 :: nat) ^ bit_width (m - 1) \<le> 2 ^ LENGTH(64)" using c(3) by (intro power_increasing) simp_all
  then have "unat r + unat (golomb_cutoff m) < 2 ^ LENGTH(64)" using lt by linarith
  then show "unat (r + golomb_cutoff m) = unat x mod m + (2 ^ bit_width (m - 1) - m)"
    by (simp only: unat_add_lem [THEN iffD1] r c(1))
qed

lemma unat_drop_bit: "unat (drop_bit k x) = unat x div 2 ^ k" for x :: u64
  unfolding unat_drop_bit_eq by (simp add: drop_bit_eq_div)

lemma length_tail_code:
  assumes "backspace_ok enc" "length (tail_code enc (unat x)) \<le> u64_max"
  shows "backspace_bits enc x = Inr (length (tail_code enc (unat x)))"
proof (cases enc)
  case (Exponential_golomb k)
  let ?q = "drop_bit k x"
  have "(if ?q = -1 then 129 else 2 * bit_width (unat (?q + 1)) - 1) = length (exp_golomb (unat ?q))"
  proof (cases "?q = -1")
    case True
    show ?thesis unfolding True unat_max_u64 exp_golomb_max by simp
  next
    case False
    then show ?thesis using exp_golomb_word(3) [OF False] by (simp add: length_exp_golomb)
  qed
  then show ?thesis unfolding Exponential_golomb backspace_bits.simps Let_def by (simp add: unat_drop_bit)
next
  case (Golomb m)
  then have m: "0 < m" "m \<le> u64_max" using assms(1) by simp_all
  note g = golomb_tail [OF m, of x]
  have l: "length (tail_code enc (unat x)) = unat x div m + 1 +
      (bit_width (m - 1) - of_bool (x mod of_nat m < golomb_cutoff m))"
    unfolding Golomb by (simp add: golomb_code_def Let_def g(3))
  then have "unat x div m + 1 \<le> u64_max"
    "unat x div m + 1 + (bit_width (m - 1) - of_bool (x mod of_nat m < golomb_cutoff m)) \<le> u64_max"
    using assms(2) by linarith+
  then show ?thesis
    unfolding l unfolding Golomb backspace_bits.simps Let_def g(1) by (simp add: profile_add_def)
qed

lemma put_backspace_bits:
  assumes enc: "backspace_ok enc" and s: "string_ok s" "string_bits s = xs @ replicate n False"
    and at: "at = length xs" and n: "n = length (tail_code enc (unat x))"
  shows "\<exists>t. put_backspace host enc s at x = Inr t \<and> string_ok t \<and> string_bits t = xs @ tail_code enc (unat x)"
proof (cases enc)
  case (Exponential_golomb k)
  let ?e = "exp_golomb (unat (drop_bit k x))"
  have code: "tail_code enc (unat x) = ?e @ word_bits k x"
    unfolding Exponential_golomb by (simp add: unat_drop_bit word_bits_def)
  have le: "length ?e \<le> n" "n - length ?e = k" unfolding n code by simp_all
  obtain t where t: "put_exp host s at (drop_bit k x) = Inr (t, at + length ?e)" "string_ok t"
    "string_bits t = (xs @ ?e) @ replicate (n - length ?e) False"
    by (rule put_exp_bits [OF s at le(1)])
  have k: "k \<le> 64" using enc by (simp add: Exponential_golomb)
  obtain u where u: "put_fixed host t (at + length ?e) x k = Inr (u, at + length ?e + k)" "string_ok u"
    "string_bits u = ((xs @ ?e) @ replicate 0 False @ word_bits k x) @ replicate (k - (0 + k)) False"
    by (rule put_fixed_fill [OF t(2) t(3) [unfolded le(2)], of "at + length ?e" 0 k host x]) (use at k in simp_all)
  have "put_backspace host enc s at x =
      bindE (put_exp host s at (drop_bit k x)) (\<lambda>(t, at). bindE (put_fixed host t at x k) (\<lambda>(t, at). Inr t))"
    unfolding Exponential_golomb put_backspace.simps put_exp_def Let_def ..
  then show ?thesis using t(1) u by (simp add: code)
next
  case (Golomb m)
  then have m: "0 < m" "m \<le> u64_max" using enc by simp_all
  note g = golomb_tail [OF m, of x]
  let ?w = "bit_width (m - 1)" and ?q = "unat x div m" and ?one = "word_bits 1 (1 :: u64)"
  define y v where "y = (if x mod of_nat m < golomb_cutoff m then x mod of_nat m else x mod of_nat m + golomb_cutoff m)"
    and "v = (if x mod of_nat m < golomb_cutoff m then ?w - 1 else ?w)"
  have one: "?one = [True]" by (simp add: word_bits_def bits_of_def)
  have code: "tail_code enc (unat x) = replicate ?q False @ ?one @ word_bits v y"
    unfolding Golomb one by (simp add: golomb_code_def Let_def v_def y_def word_bits_def g)
  have n: "n = ?q + 1 + v" unfolding n code by simp
  have v: "v \<le> 64" using golomb_cutoff_value(3) [OF m] by (auto simp: v_def)
  obtain t where t: "put_fixed host s (at + ?q) 1 1 = Inr (t, at + ?q + 1)" "string_ok t"
    "string_bits t = (xs @ replicate ?q False @ ?one) @ replicate (n - (?q + 1)) False"
    by (rule put_fixed_fill [OF s, of "at + ?q" ?q 1 host 1]) (use at n in simp_all)
  obtain u where u: "put_fixed host t (at + ?q + 1) y v = Inr (u, at + ?q + 1 + v)" "string_ok u"
    "string_bits u = ((xs @ replicate ?q False @ ?one) @ replicate 0 False @ word_bits v y) @ replicate (n - (?q + 1) - (0 + v)) False"
    by (rule put_fixed_fill [OF t(2,3), of "at + ?q + 1" 0 v host y]) (use at n v in simp_all)
  have "put_backspace host enc s at x = bindE (put_fixed host t (at + ?q + 1) y v) (\<lambda>(t, at). Inr t)"
    unfolding Golomb put_backspace.simps Let_def g(1) t(1) bindE_simps prod.case y_def v_def by (simp only: if_distrib cong: if_cong) simp
  then show ?thesis using u n by (simp add: code)
qed

text \<open>Every backspace is appended as its code.\<close>

lemma write_backspace_bits:
  assumes "policy_ok p" "string_ok s" "policy_unit p = Byte \<longrightarrow> bit_size s mod 8 = 0"
    and n: "bit_size s + length (backspace_code p x) \<le> u64_max - 7"
  shows "\<exists>t. write_backspace host p s x = Inr t \<and> string_ok t \<and> string_bits t = string_bits s @ backspace_code p x"
proof (cases "policy_unit p")
  case Byte
  then show ?thesis
    using write_count_bits [OF assms(2,3), of x host] n by (simp add: write_backspace_def backspace_code_def count_code_def)
next
  case Bit
  let ?c = "tail_code (backspace p) (unat x)"
  have c: "backspace_code p x = ?c" using Bit by (simp add: backspace_code_def)
  have enc: "backspace_ok (backspace p)" using assms(1) by (simp add: policy_ok_def)
  have n': "bit_size s + length ?c \<le> u64_max - 7" using n by (simp only: c)
  obtain g where g: "resize_string s (bit_size s + length ?c) = Inr g" "string_ok g"
    "string_bits g = string_bits s @ replicate (bit_size s + length ?c - bit_size s) False"
    by (rule grow_string [OF assms(2) n' le_add1])
  have len: "backspace_bits (backspace p) x = Inr (length ?c)"
    using n' by (intro length_tail_code [OF enc]) (simp add: u64_max_def)
  have add: "profile_add (bit_size s) (length ?c) = Inr (bit_size s + length ?c)"
    using n' by (simp add: profile_add_def u64_max_def)
  have "write_backspace host p s x = put_backspace host (backspace p) g (bit_size s) x"
    unfolding write_backspace_def Let_def len bindE_simps add g(1) using Bit by simp
  then show ?thesis
    using put_backspace_bits [OF enc g(2,3), of "bit_size s" x host] length_string_bits [OF assms(2)] by (simp add: c)
qed

end
