(* ===== verification/CountReads.thy ===== *)
theory CountReads
  imports CountCodes
begin

text \<open>
  The readers of \<open>Counts\<close> accept exactly the codes of \<open>CountCodes\<close>: a read returns a value and a
  new position if and only if the bits at the old position begin with that value's code and the
  new position is the one behind it. In particular no value has a second encoding.
\<close>

section \<open>Runs of zeroes\<close>

definition run :: "bool list \<Rightarrow> nat" where
  "run l = length (takeWhile Not l)"

lemma run_append: "run (a @ b) = (if run a < length a then run a else length a + run b)"
  unfolding run_def by (induction a) auto

lemma run_le: "run l \<le> length l"
  by (simp add: run_def length_takeWhile_le)

lemma run_take: "run (take w l) < length (take w l) \<Longrightarrow> run l = run (take w l)"
  using run_append [of "take w l" "drop w l"] by simp

lemma run_drop: "run (take w l) = length (take w l) \<Longrightarrow> run l = length (take w l) + run (drop w l)"
  using run_append [of "take w l" "drop w l"] by simp

lemma run_code: "run (replicate z False @ True # s) = z"
  by (induction z) (simp_all add: run_def)

lemma run_split: "run l < length l \<Longrightarrow> l = replicate (run l) False @ True # drop (run l + 1) l"
proof (induction l)
  case (Cons b l)
  then show ?case by (cases b) (simp_all add: run_def)
qed (simp add: run_def)

lemma countl_zero_chunk: "length c \<le> 64 \<Longrightarrow> countl_zero (wbits c) = 64 - length c + run c"
  by (simp add: countl_zero_def word_bits_pad takeWhile_replicate run_def)

lemma read_zero_run_spec:
  assumes v: "view_ok data"
  shows "at \<le> bsize data \<Longrightarrow> zeros \<le> limit \<Longrightarrow>
    read_zero_run host data limit truncated overflow zeros at =
      (let z = run (drop at (view_bits data)) in
       if zeros + z > limit then (Inl (Invalid_argument overflow), at + (limit - zeros + 1))
       else if at + z \<ge> bsize data then (Inl (Invalid_argument truncated), bsize data)
       else (Inr (zeros + z), at + z + 1))"
proof (induction "bsize data - at" arbitrary: at zeros rule: less_induct)
  case less
  let ?ys = "drop at (view_bits data)"
  have len: "length ?ys = bsize data - at" using length_view_bits [OF v] by simp
  show ?case
  proof (cases "at = bsize data")
    case True
    then have "?ys = []" using len by simp
    then show ?thesis using True less.prems by (simp add: read_zero_run.simps [of host data limit] run_def)
  next
    case False
    define w where "w = min (bsize data - at) 64"
    have w: "0 < w" "at + w \<le> bsize data" "w \<le> 64" using False less.prems(1) by (auto simp: w_def)
    define c where "c = take w ?ys"
    have lc: "length c = w" using w(2) len by (simp add: c_def)
    have load: "load_bits host data at w = Inr (wbits c)"
      unfolding c_def by (rule load_bits_view [OF v w(2,3)])
    have lead: "countl_zero (wbits c) - (64 - w) = run c" using countl_zero_chunk [of c] lc w(3) by simp
    have step: "read_zero_run host data limit truncated overflow zeros at =
        (if run c > limit - zeros then (Inl (Invalid_argument overflow), at + (limit - zeros + 1))
         else if run c \<noteq> w then (Inr (zeros + run c), at + run c + 1)
         else read_zero_run host data limit truncated overflow (zeros + run c) (at + run c))"
      using False less.prems(1) by (subst read_zero_run.simps) (simp add: load lead Let_def flip: w_def)
    consider (inside) "run c < w" | (all) "run c = w" using run_le [of c] lc by linarith
    then show ?thesis
    proof cases
      case inside
      then have z: "run ?ys = run c" using run_take [of w ?ys] lc by (simp add: c_def)
      show ?thesis unfolding step z Let_def using inside w(2) less.prems(2) by auto
    next
      case all
      then have z: "run ?ys = w + run (drop (at + w) (view_bits data))"
        using run_drop [of w ?ys] lc by (simp add: c_def add.commute)
      show ?thesis
      proof (cases "w > limit - zeros")
        case True
        then have "zeros + (w + run (drop (at + w) (view_bits data))) > limit" using less.prems(2) by linarith
        then show ?thesis unfolding step z Let_def all using True by simp
      next
        case F: False
        then have "read_zero_run host data limit truncated overflow (zeros + w) (at + w) =
          (let z = run (drop (at + w) (view_bits data)) in
           if zeros + w + z > limit then (Inl (Invalid_argument overflow), at + w + (limit - (zeros + w) + 1))
           else if at + w + z \<ge> bsize data then (Inl (Invalid_argument truncated), bsize data)
           else (Inr (zeros + w + z), at + w + z + 1))"
          using w less.prems by (intro less.hyps) linarith+
        then show ?thesis unfolding step z all using F less.prems(2) by (simp add: Let_def add.assoc)
      qed
    qed
  qed
qed

lemma read_zero_run_beyond: "at > bsize data \<Longrightarrow> read_zero_run host data limit truncated overflow zeros at =
    (Inl (Invalid_argument truncated), at)"
  by (simp add: read_zero_run.simps)

lemma read_fixed_spec:
  assumes "view_ok data" "w \<le> 64"
  shows "read_fixed host data w at = (if at + w \<le> bsize data then (Inr (wbits (take w (drop at (view_bits data)))), at + w)
    else (Inl (Invalid_argument ''truncated backspace remainder''), at))"
  using assms load_bits_view [OF assms(1) _ assms(2), of at host] by (auto simp: read_fixed_def)

section \<open>Exponential-Golomb counts\<close>

lemma exp_golomb_prefix:
  fixes ys :: "bool list"
  defines "z \<equiv> run ys"
  shows "(\<exists>rest. ys = exp_golomb n @ rest) \<longleftrightarrow>
    2 * z + 1 \<le> length ys \<and> n + 1 = 2 ^ z + bits_value (take z (drop (z + 1) ys))" (is "?code \<longleftrightarrow> ?num")
    and "ys = exp_golomb n @ rest \<Longrightarrow> length (exp_golomb n) = 2 * z + 1"
proof -
  obtain s where s: "n + 1 = 2 ^ length s + bits_value s" "exp_golomb n = replicate (length s) False @ True # s"
    by (rule exp_golomb_obtain)
  have r: "z = length s" if "ys = exp_golomb n @ rest" for rest
    using run_code [of "length s" "s @ rest"] that by (simp add: z_def s(2))
  then show "ys = exp_golomb n @ rest \<Longrightarrow> length (exp_golomb n) = 2 * z + 1" by (simp add: s(2))
  show "?code \<longleftrightarrow> ?num"
  proof
    assume ?code
    then obtain rest where "ys = exp_golomb n @ rest" by blast
    then show ?num using r [of rest] s by simp
  next
    assume v: ?num
    define s where "s = take z (drop (z + 1) ys)"
    have "z \<le> length ys - (z + 1)" using v by linarith
    then have "length s = z" by (simp add: s_def min_absorb2)
    then have "exp_golomb n = replicate z False @ True # s"
      using v exp_golomb_shape [of n s] by (simp add: s_def)
    moreover have "ys = replicate z False @ True # s @ drop z (drop (z + 1) ys)"
    proof -
      have "run ys < length ys" using v by (simp only: z_def) linarith
      then show ?thesis using run_split [of ys] by (simp only: s_def z_def append_take_drop_id)
    qed
    ultimately show ?code by (metis append_Cons append_assoc)
  qed
qed

text \<open>A code that is complete in the data, in terms of its run of zeroes.\<close>

lemma exp_golomb_at:
  fixes data :: bit_view and at :: nat
  assumes "view_ok data"
  defines "ys \<equiv> drop at (view_bits data)"
  defines "z \<equiv> run ys"
  shows "(\<exists>rest. ys = exp_golomb n @ rest) \<and> at' = at + length (exp_golomb n) \<longleftrightarrow>
    at + (2 * z + 1) \<le> bsize data \<and> n + 1 = 2 ^ z + bits_value (take z (drop (at + z + 1) (view_bits data))) \<and>
    at' = at + (2 * z + 1)"
proof -
  have l: "length ys = bsize data - at" using length_view_bits [OF assms(1)] by (simp add: ys_def)
  have d: "drop (z + 1) ys = drop (at + z + 1) (view_bits data)" by (simp add: ys_def add.commute add.left_commute)
  have i: "2 * z + 1 \<le> length ys \<longleftrightarrow> at + (2 * z + 1) \<le> bsize data" unfolding l by linarith
  show ?thesis
    using exp_golomb_prefix [of ys n] unfolding z_def [symmetric] d i by auto
qed

lemma unat_ones_plus:
  assumes "z < 64" "length s = z"
  shows "unat ((push_bit z 1 - 1) + wbits s :: u64) + 1 = 2 ^ z + bits_value s"
proof -
  have p: "unat (push_bit z 1 :: u64) = 2 ^ z" by (rule unat_push_bit_1 [OF assms(1)])
  have "(1 :: u64) \<le> push_bit z 1" by (simp only: word_le_nat_alt p) simp
  then have m: "unat (push_bit z 1 - 1 :: u64) = 2 ^ z - 1" by (simp only: unat_sub p) simp
  have s: "unat (wbits s) = bits_value s" using assms by (intro unat_wbits) simp
  have b: "bits_value s < 2 ^ z" using bits_value_less [of s] assms(2) by simp
  have "(2 :: nat) ^ Suc z \<le> 2 ^ 64" using assms(1) by (intro power_increasing) simp_all
  then have "unat (push_bit z 1 - 1 :: u64) + unat (wbits s) < 2 ^ LENGTH(64)"
    using b unfolding m s by simp
  then have "unat ((push_bit z 1 - 1) + wbits s :: u64) = 2 ^ z - 1 + bits_value s"
    by (simp only: unat_add_lem [THEN iffD1] m s)
  then show ?thesis by simp
qed

lemma read_long_iff:
  assumes v: "view_ok data"
  shows "read_long host data at = (Inr x, at') \<longleftrightarrow>
    (\<exists>rest. drop at (view_bits data) = exp_golomb (unat x) @ rest) \<and> at' = at + length (exp_golomb (unat x))"
proof -
  define z where "z = run (drop at (view_bits data))"
  define s where "s = take z (drop (at + z + 1) (view_bits data))"
  have x: "unat x < 2 ^ 64" using unsigned_less [of x, where 'a = nat] by simp
  note code = exp_golomb_at [OF v, of at "unat x" at', folded z_def, folded s_def]
  show ?thesis
  proof (cases "at \<le> bsize data")
    case False
    then have "drop at (view_bits data) = []" using length_view_bits [OF v] by simp
    moreover have "exp_golomb (unat x) \<noteq> []" using exp_golomb_obtain [of "unat x"] by (metis append_is_Nil_conv list.distinct(1))
    ultimately show ?thesis using False by (simp add: read_long_def read_zero_run_beyond bindM_def)
  next
    case True
    note zr = read_zero_run_spec [OF v True, of 0 64 host, folded z_def, unfolded Let_def, simplified]
    consider (long) "z > 64" | (cut) "z \<le> 64" "at + z \<ge> bsize data"
      | (short) "z \<le> 64" "at + z < bsize data" "at + (2 * z + 1) > bsize data"
      | (code) "z \<le> 64" "at + (2 * z + 1) \<le> bsize data" by linarith
    then show ?thesis
    proof cases
      case long
      then have "(2 :: nat) ^ 65 \<le> 2 ^ z" by (intro power_increasing) simp_all
      then have "unat x + 1 < 2 ^ z" using x by simp
      then have "unat x + 1 \<noteq> 2 ^ z + bits_value s" by linarith
      then show ?thesis unfolding code using long by (simp add: read_long_def bindM_def zr)
    next
      case cut
      then show ?thesis unfolding code by (simp add: read_long_def bindM_def zr)
    next
      case short
      then have "z > bsize data - (at + z + 1)" by linarith
      then show ?thesis unfolding code using short by (simp add: read_long_def bindM_def zr)
    next
      case ok: code
      have ls: "length s = z" using ok(2) length_view_bits [OF v] by (simp add: s_def)
      have su: "unat (wbits s) = bits_value s" using ok(1) ls by (intro unat_wbits) simp
      have rf: "read_fixed host data z (at + z + 1) = (Inr (wbits s), at + (2 * z + 1))"
        using read_fixed_spec [OF v ok(1), of host "at + z + 1"] ok(2) by (simp add: s_def algebra_simps)
      have go: "read_long host data at =
          (if z = 64 then if wbits s \<noteq> 0 then (Inl (Invalid_argument ''overflowing exponential-Golomb count''), at + (2 * z + 1))
             else (Inr (-1), at + (2 * z + 1))
           else (Inr ((push_bit z 1 - 1) + wbits s), at + (2 * z + 1)))"
      proof -
        have zr': "read_zero_run host data 64 tr ov 0 at = (Inr z, at + z + 1)" for tr ov
          using ok zr [of tr ov] by simp
        have fit: "\<not> z > bsize data - (at + z + 1)" using ok(2) by linarith
        show ?thesis
          unfolding read_long_def bindM_apply zr' prod.case sum.case using fit
          by (simp only: if_False rf prod.case sum.case) simp
      qed
      show ?thesis
      proof (cases "z = 64")
        case True
        have "wbits s = 0 \<longleftrightarrow> bits_value s = 0" using su by (metis unsigned_0 unsigned_eq_0_iff)
        moreover have "x = -1 \<longleftrightarrow> unat x = 18446744073709551615" using unat_max_u64 by (metis word_unat_eq_iff)
        moreover have "bits_value s = 0 \<and> unat x = 18446744073709551615 \<longleftrightarrow> unat x + 1 = 2 ^ z + bits_value s"
          using x by (auto simp: True)
        ultimately show ?thesis unfolding code go using True ok(2) by auto
      next
        case F: False
        then have u: "unat ((push_bit z 1 - 1) + wbits s) + 1 = 2 ^ z + bits_value s"
          using ok(1) by (intro unat_ones_plus ls) simp
        then have "(push_bit z 1 - 1) + wbits s = x \<longleftrightarrow> unat x + 1 = 2 ^ z + bits_value s"
          by (metis word_unat_eq_iff add_right_cancel)
        then show ?thesis unfolding code go using F ok(2) by auto
      qed
    qed
  qed
qed

text \<open>The sixteen-bit fast path agrees with the general decoder wherever it answers.\<close>

lemma read_short_cases:
  assumes v: "view_ok data"
  obtains (skip) "read_short host data at = (Inr None, at)"
  | (fast) "at + (2 * run (drop at (view_bits data)) + 1) \<le> bsize data"
      "\<exists>y. read_short host data at = (Inr (Some y), at + (2 * run (drop at (view_bits data)) + 1)) \<and>
         unat y + 1 = 2 ^ run (drop at (view_bits data)) +
           bits_value (take (run (drop at (view_bits data))) (drop (at + run (drop at (view_bits data)) + 1) (view_bits data)))"
proof (cases "at \<le> bsize data \<and> bsize data - at \<ge> 16 \<and> run (take 16 (drop at (view_bits data))) < 8")
  case False
  show ?thesis
  proof (rule skip, cases "at \<le> bsize data \<and> bsize data - at \<ge> 16")
    case True
    let ?c = "take 16 (drop at (view_bits data))"
    have l: "length ?c = 16" using True length_view_bits [OF v] by simp
    have "at + 16 \<le> bsize data" using True by linarith
    then have "load_bits host data at 16 = Inr (wbits ?c)" using load_bits_view [OF v, of at 16 host] by simp
    moreover have "countl_zero (wbits ?c) - 48 = run ?c" using countl_zero_chunk [of ?c] l by simp
    ultimately show "read_short host data at = (Inr None, at)"
      using True False unfolding read_short_def by (simp add: Let_def)
  qed (auto simp: read_short_def)
next
  case True
  let ?ys = "drop at (view_bits data)"
  let ?c = "take 16 ?ys"
  define z where "z = run ?c"
  have l: "length ?c = 16" and n: "length ?ys \<ge> 16" using True length_view_bits [OF v] by simp_all
  have "run ?c < length ?c" using True unfolding l by linarith
  then have z: "z < 8" "run ?ys = z" using True run_take [of 16 ?ys] by (simp_all only: z_def)
  define s where "s = take z (drop (z + 1) ?ys)"
  have "?ys = replicate z False @ True # drop (z + 1) ?ys"
    using run_split [of ?ys] z n by simp
  then have "take (2 * z + 1) ?ys = take (2 * z + 1) (replicate z False @ True # drop (z + 1) ?ys)" by (rule arg_cong)
  also have "\<dots> = replicate z False @ True # s" by (simp add: s_def)
  finally have code: "take (2 * z + 1) ?ys = replicate z False @ True # s" .
  have "at + 16 \<le> bsize data" using True by linarith
  then have "load_bits host data at 16 = Inr (wbits ?c)" using load_bits_view [OF v, of at 16 host] by simp
  moreover have "countl_zero (wbits ?c) - 48 = z" using countl_zero_chunk [of ?c] l by (simp add: z_def)
  moreover have "drop_bit (15 - 2 * z) (wbits ?c) = wbits (replicate z False @ True # s)"
  proof -
    have "drop_bit (15 - 2 * z) (wbits ?c) = wbits (take (16 - (15 - 2 * z)) ?c)"
      by (rule drop_bit_wbits [of ?c "15 - 2 * z", unfolded l]) simp_all
    moreover have "16 - (15 - 2 * z) = 2 * z + 1" "min (2 * z + 1) 16 = 2 * z + 1" using z(1) by linarith+
    ultimately show ?thesis by (simp only: take_take code)
  qed
  ultimately have go: "read_short host data at = (Inr (Some (wbits (replicate z False @ True # s) - 1)), at + (2 * z + 1))"
    using True z(1) unfolding read_short_def by (simp add: Let_def)
  have ls: "length s = z" using n z(1) by (simp add: s_def)
  have w: "unat (wbits (replicate z False @ True # s)) = 2 ^ z + bits_value s"
  proof -
    have "unat (wbits (replicate z False @ True # s)) = bits_value (replicate z False @ True # s)"
      using ls z(1) by (intro unat_wbits) simp
    then show ?thesis using ls by (simp add: bits_value_append)
  qed
  then have "(1 :: u64) \<le> wbits (replicate z False @ True # s)" by (simp only: word_le_nat_alt) (simp add: Suc_le_eq)
  then have "unat (wbits (replicate z False @ True # s) - 1) = 2 ^ z + bits_value s - 1" by (simp only: unat_sub w) simp
  then have "unat (wbits (replicate z False @ True # s) - 1) + 1 = 2 ^ z + bits_value s" by simp
  moreover have "at + (2 * run ?ys + 1) \<le> bsize data" using True z(1) unfolding z(2) by linarith
  moreover have sd: "take z (drop (at + z + 1) (view_bits data)) = s" by (simp add: s_def algebra_simps)
  ultimately show ?thesis
    by (intro fast) (simp_all only: z(2) sd, intro exI conjI, rule go)
qed

lemma read_count_bit_iff:
  assumes v: "view_ok data" and p: "policy_unit p = Bit"
  shows "read_count host p data at = (Inr x, at') \<longleftrightarrow>
    (\<exists>rest. drop at (view_bits data) = exp_golomb (unat x) @ rest) \<and> at' = at + length (exp_golomb (unat x))"
proof (rule read_short_cases [OF v, of host at], goal_cases)
  case 1
  then have "read_count host p data at = read_long host data at" using p by (simp add: read_count_def bindM_def)
  then show ?thesis using read_long_iff [OF v] by simp
next
  case fast: 2
  let ?z = "run (drop at (view_bits data))"
  obtain y where y: "read_short host data at = (Inr (Some y), at + (2 * ?z + 1))"
    "unat y + 1 = 2 ^ ?z + bits_value (take ?z (drop (at + ?z + 1) (view_bits data)))" using fast(2) by blast
  have "read_count host p data at = (Inr y, at + (2 * ?z + 1))" using p y(1) by (simp add: read_count_def bindM_def)
  moreover have "y = x \<longleftrightarrow> unat x + 1 = 2 ^ ?z + bits_value (take ?z (drop (at + ?z + 1) (view_bits data)))"
    using y(2) by (metis word_unat_eq_iff add_right_cancel)
  ultimately show ?thesis unfolding exp_golomb_at [OF v] using fast(1) by auto
qed

section \<open>Varints\<close>

lemma length_varint: "length (varint n) = (if n < 128 then 1 else Suc (length (varint (n div 128))))"
  by (subst varint.simps) simp

lemma varint_head:
  "(\<exists>rest. b # ys = varint n @ rest) \<longleftrightarrow>
    (if unat b < 128 then n = unat b
     else n \<ge> 128 \<and> n mod 128 = unat b mod 128 \<and> (\<exists>rest. ys = varint (n div 128) @ rest))"
proof -
  have b: "unat b < 256" using unsigned_less [of b, where 'a = nat] by simp
  have of: "b = of_nat m \<longleftrightarrow> unat b = m" if "m < 256" for m
    using that by (auto simp: unsigned_of_nat take_bit_nat_eq_self word_unat_eq_iff)
  show ?thesis
  proof (cases "n < 128")
    case True
    then show ?thesis by (subst varint.simps) (auto simp: of)
  next
    case False
    have "128 + n mod 128 < 256" using mod_less_divisor [of 128 n] by linarith
    then have h: "b = of_nat (128 + n mod 128) \<longleftrightarrow> unat b = 128 + n mod 128" by (rule of)
    have v: "varint n = of_nat (128 + n mod 128) # varint (n div 128)" using False by (subst varint.simps) simp
    have "unat b = 128 + n mod 128 \<longleftrightarrow> \<not> unat b < 128 \<and> n mod 128 = unat b mod 128"
    proof (cases "unat b < 128")
      case F: False
      define c where "c = unat b - 128"
      have "unat b = 128 + c" "c < 128" using F b by (simp_all add: c_def)
      then show ?thesis by auto
    qed simp
    then have "(b = of_nat (128 + n mod 128) \<and> (\<exists>rest. ys = varint (n div 128) @ rest)) \<longleftrightarrow>
        (if unat b < 128 then n = unat b
         else n \<ge> 128 \<and> n mod 128 = unat b mod 128 \<and> (\<exists>rest. ys = varint (n div 128) @ rest))"
      using False unfolding h by auto
    moreover have "(\<exists>rest. b # ys = varint n @ rest) \<longleftrightarrow>
        b = of_nat (128 + n mod 128) \<and> (\<exists>rest. ys = varint (n div 128) @ rest)"
      unfolding v by simp
    ultimately show ?thesis by simp
  qed
qed

lemma or_shifted:
  fixes acc c :: u64
  assumes "unat acc < 2 ^ s" "unat acc + unat c * 2 ^ s < 2 ^ 64"
  shows "unat (acc OR push_bit s c) = unat acc + unat c * 2 ^ s"
proof -
  have high: "\<not> bit acc j" if "j \<ge> s" for j
  proof -
    have "(2 :: nat) ^ s \<le> 2 ^ j" using that by (intro power_increasing) simp_all
    then have "unat acc < 2 ^ j" using assms(1) by linarith
    then have "unat acc div 2 ^ j = 0" by (rule div_less)
    then have "\<not> bit (unat acc) j" by (simp add: bit_iff_odd)
    then show ?thesis by (simp add: bit_unsigned_iff)
  qed
  have "acc AND push_bit s c = 0"
    by (rule bit_word_eqI) (auto simp: bit_and_iff bit_push_bit_iff high)
  then have e: "acc OR push_bit s c = acc + push_bit s c" by (simp only: disjunctive_add_eq_or)
  have "c = (of_nat (unat c) :: u64)" by simp
  then have "push_bit s c = of_nat (unat c * 2 ^ s)"
    by (metis push_bit_eq_mult of_nat_mult of_nat_power of_nat_numeral)
  then have p: "unat (push_bit s c) = unat c * 2 ^ s"
    using assms(2) by (simp only: unat_of_nat_u64)
  show ?thesis unfolding e using assms(2) by (subst unat_add_lem [THEN iffD1]) (simp_all add: p)
qed

lemma unat_ucast_byte: "unat (ucast b :: u64) = unat b" for b :: u8
  using unsigned_less [of b, where 'a = nat] by (simp add: unsigned_ucast_eq take_bit_nat_eq_self)

lemma byte_low: "unat (b AND 127) = unat b mod 128" for b :: u8
proof -
  have "(127 :: u8) = mask 7" by (simp add: mask_eq_exp_minus_1)
  then have "b AND 127 = take_bit 7 b" by (simp only: take_bit_eq_mask)
  then show ?thesis by (simp only: unsigned_take_bit_eq) (simp add: take_bit_eq_mod)
qed

lemma byte_high: "b AND 128 = 0 \<longleftrightarrow> unat b < 128" for b :: u8
proof -
  have h: "bit (128 :: u8) j \<longleftrightarrow> j = 7" for j using bit_exp_iff [of 7 j, where 'a = "8 word"] by auto
  have "b AND 128 = 0 \<longleftrightarrow> \<not> bit b 7"
  proof
    assume "b AND 128 = 0"
    then have "\<not> bit (b AND 128) 7" by simp
    then show "\<not> bit b 7" by (simp add: bit_and_iff h)
  next
    assume "\<not> bit b 7"
    then show "b AND 128 = 0" by (intro bit_word_eqI) (simp only: bit_and_iff h, auto)
  qed
  also have "bit b 7 \<longleftrightarrow> odd (unat b div 128)" using odd_bit [of b 7] by simp
  also have "unat b div 128 = (if unat b < 128 then 0 else 1)"
    using unsigned_less [of b, where 'a = nat] by auto
  finally show ?thesis by simp
qed

text \<open>One group of a varint.\<close>

lemma read_varint_group:
  assumes rb: "read_byte (storage data) at = Inr b" and at: "at < bsize data div 8"
    and s: "shift \<le> 63" "unat acc < 2 ^ shift" "unat acc + unat b mod 128 * 2 ^ shift < 2 ^ 64 \<or> shift = 63 \<and> unat b > 1"
  obtains acc' where "unat acc + unat b mod 128 * 2 ^ shift < 2 ^ 64 \<longrightarrow> unat acc' = unat acc + unat b mod 128 * 2 ^ shift"
    "read_varint data shift acc at =
      (if shift = 63 \<and> unat b > 1 then (Inl (Invalid_argument ''overflowing profile count''), at + 1)
       else if unat b < 128 then
         if shift \<noteq> 0 \<and> unat b = 0 then (Inl (Invalid_argument ''noncanonical profile count''), at + 1) else (Inr acc', at + 1)
       else read_varint data (shift + 7) acc' (at + 1))"
proof -
  define acc' where "acc' = acc OR push_bit shift (ucast (b AND 127))"
  have acc: "unat acc' = unat acc + unat b mod 128 * 2 ^ shift" if "unat acc + unat b mod 128 * 2 ^ shift < 2 ^ 64"
    using or_shifted [OF s(2), of "ucast (b AND 127)"] that by (simp add: acc'_def byte_low unat_ucast_byte)
  have "b > 1 \<longleftrightarrow> unat b > 1" by (simp add: word_less_nat_alt)
  moreover have "b AND 127 = 0 \<longleftrightarrow> unat b mod 128 = 0" using byte_low [of b] by (metis unsigned_0 unsigned_eq_0_iff)
  moreover have "unat b < 128 \<Longrightarrow> unat b mod 128 = 0 \<longleftrightarrow> unat b = 0" by simp
  ultimately have "read_varint data shift acc at =
      (if shift = 63 \<and> unat b > 1 then (Inl (Invalid_argument ''overflowing profile count''), at + 1)
       else if unat b < 128 then
         if shift \<noteq> 0 \<and> unat b = 0 then (Inl (Invalid_argument ''noncanonical profile count''), at + 1) else (Inr acc', at + 1)
       else read_varint data (shift + 7) acc' (at + 1))"
    using rb at s(1) unfolding byte_high [symmetric]
    by (subst read_varint.simps) (simp add: byte_high Let_def acc'_def)
  then show ?thesis using that acc by blast
qed

lemma read_varint_iff:
  assumes v: "bsize data div 8 \<le> length (storage data)"
  defines "B \<equiv> take (bsize data div 8) (storage data)"
  shows "k \<le> 10 \<Longrightarrow> unat acc < 2 ^ (7 * k) \<Longrightarrow>
    read_varint data (7 * k) acc at = (Inr x, at') \<longleftrightarrow>
      (\<exists>n. (k \<noteq> 0 \<longrightarrow> n \<noteq> 0) \<and> unat x = unat acc + n * 2 ^ (7 * k) \<and>
        (\<exists>rest. drop at B = varint n @ rest) \<and> at' = at + length (varint n))"
proof (induction "10 - k" arbitrary: k acc at rule: less_induct)
  case less
  let ?P = "2 ^ (7 * k) :: nat"
  have lB: "length B = bsize data div 8" using v by (simp add: B_def)
  have x64: "unat x < 2 ^ 64" using unsigned_less [of x, where 'a = nat] by simp
  have nonempty: "varint n \<noteq> []" for n by (subst varint.simps) simp
  show ?case
  proof (cases "k = 10")
    case True
    have "unat x \<noteq> unat acc + n * ?P" if "n \<noteq> 0" for n
    proof -
      have "(2 :: nat) ^ 64 \<le> ?P" by (rule power_increasing) (simp_all add: True)
      also have "\<dots> \<le> n * ?P" using that by simp
      finally show ?thesis using x64 by linarith
    qed
    moreover have "read_varint data (7 * k) acc at = (Inl (Invalid_argument ''overflowing profile count''), at)"
      by (subst read_varint.simps) (simp add: True)
    ultimately show ?thesis using True by auto
  next
    case F: False
    then have k: "k \<le> 9" "7 * k \<le> 63" using less.prems(1) by simp_all
    show ?thesis
    proof (cases "at < length B")
      case False
      then have "drop at B = []" by simp
      then show ?thesis using False lB k nonempty by (simp add: read_varint.simps [of data "7 * k"])
    next
      case True
      define b where "b = B ! at"
      define g where "g = unat b mod 128"
      have rb: "read_byte (storage data) at = Inr b" using True lB v by (simp add: read_byte_def b_def B_def)
      have d: "drop at B = b # drop (at + 1) B" using True by (simp add: Cons_nth_drop_Suc b_def)
      have b256: "unat b < 256" using unsigned_less [of b, where 'a = nat] by simp
      have g: "g < 128" by (simp add: g_def)
      have P64: "k \<noteq> 9 \<Longrightarrow> 128 * ?P \<le> 2 ^ 63"
      proof -
        assume "k \<noteq> 9"
        then have "(2 :: nat) ^ (7 + 7 * k) \<le> 2 ^ 63" using k(1) by (intro power_increasing) simp_all
        then show ?thesis by (simp add: power_add)
      qed
      have acc_g: "unat acc + g * ?P < 128 * ?P"
      proof -
        have "(g + 1) * ?P \<le> 128 * ?P" using g by (intro mult_right_mono) simp_all
        moreover have "(g + 1) * ?P = g * ?P + ?P" by simp
        ultimately show ?thesis using less.prems(2) by linarith
      qed
      have small: "unat acc + g * ?P < 2 ^ 64 \<or> 7 * k = 63 \<and> unat b > 1"
      proof (cases "k = 9")
        case True
        then have "unat b \<le> 1 \<Longrightarrow> g * ?P \<le> 2 ^ 63" using k by (simp add: g_def)
        then show ?thesis using True less.prems(2) by fastforce
      next
        case False
        then show ?thesis using P64 acc_g by simp
      qed
      obtain acc' where acc': "unat acc + g * ?P < 2 ^ 64 \<longrightarrow> unat acc' = unat acc + g * ?P"
        and step: "read_varint data (7 * k) acc at =
          (if 7 * k = 63 \<and> unat b > 1 then (Inl (Invalid_argument ''overflowing profile count''), at + 1)
           else if unat b < 128 then
             if 7 * k \<noteq> 0 \<and> unat b = 0 then (Inl (Invalid_argument ''noncanonical profile count''), at + 1)
             else (Inr acc', at + 1)
           else read_varint data (7 * k + 7) acc' (at + 1))"
        using read_varint_group [OF rb True [unfolded lB] k(2) less.prems(2) small [unfolded g_def]]
        unfolding g_def by blast
      let ?R = "\<lambda>n. (k \<noteq> 0 \<longrightarrow> n \<noteq> 0) \<and> unat x = unat acc + n * ?P \<and>
        (if unat b < 128 then n = unat b
         else n \<ge> 128 \<and> n mod 128 = g \<and> (\<exists>rest. drop (at + 1) B = varint (n div 128) @ rest)) \<and>
        at' = at + length (varint n)"
      have rhs: "(\<exists>n. (k \<noteq> 0 \<longrightarrow> n \<noteq> 0) \<and> unat x = unat acc + n * ?P \<and>
          (\<exists>rest. drop at B = varint n @ rest) \<and> at' = at + length (varint n)) \<longleftrightarrow> (\<exists>n. ?R n)"
        unfolding d varint_head g_def ..
      consider (over) "k = 9" "unat b > 1" | (last) "k = 9 \<longrightarrow> unat b \<le> 1" "unat b < 128"
        | (more) "k \<noteq> 9" "unat b \<ge> 128" by linarith
      then show ?thesis
      proof cases
        case over
        have no: "\<not> ?R n" for n
        proof
          assume r: "?R n"
          then have "n \<ge> 2" using over(2) by (auto split: if_splits)
          then have "2 * ?P \<le> n * ?P" by (intro mult_right_mono) simp_all
          then show False using r x64 over(1) by simp
        qed
        have "read_varint data (7 * k) acc at = (Inl (Invalid_argument ''overflowing profile count''), at + 1)"
          unfolding step using over by simp
        then show ?thesis unfolding rhs using no by simp
      next
        case last
        then have fit: "unat acc + g * ?P < 2 ^ 64" using small by auto
        have gb: "g = unat b" using last(2) by (simp add: g_def)
        have len: "length (varint (unat b)) = 1" using last(2) by (subst length_varint) simp
        have "acc' = x \<longleftrightarrow> unat x = unat acc + unat b * ?P" using acc' fit gb by (metis word_unat_eq_iff)
        then show ?thesis unfolding rhs step using last len by auto
      next
        case more
        have fit: "unat acc + g * ?P < 2 ^ 64" using small more(1) by auto
        have a: "unat acc' = unat acc + g * ?P" using acc' fit by simp
        have ac: "unat acc' < 2 ^ (7 * (k + 1))" using acc_g by (simp add: a power_add mult.commute)
        have ks: "10 - (k + 1) < 10 - k" "k + 1 \<le> 10" using k(1) by simp_all
        have ih: "read_varint data (7 * (k + 1)) acc' (at + 1) = (Inr x, at') \<longleftrightarrow>
          (\<exists>m. (k + 1 \<noteq> 0 \<longrightarrow> m \<noteq> 0) \<and> unat x = unat acc' + m * 2 ^ (7 * (k + 1)) \<and>
            (\<exists>rest. drop (at + 1) B = varint m @ rest) \<and> at' = at + 1 + length (varint m))"
          by (rule less.hyps [OF ks ac])
        have "(\<exists>n. ?R n) \<longleftrightarrow> (\<exists>m. m \<noteq> 0 \<and> unat x = unat acc' + m * 2 ^ (7 * (k + 1)) \<and>
            (\<exists>rest. drop (at + 1) B = varint m @ rest) \<and> at' = at + 1 + length (varint m))" (is "_ \<longleftrightarrow> (\<exists>m. ?S m)")
        proof
          assume "\<exists>n. ?R n"
          then obtain n where n: "?R n" by blast
          then have n128: "n \<ge> 128" "n mod 128 = g" using more(2) by auto
          then have e: "n = g + 128 * (n div 128)" by (metis mod_mult_div_eq)
          have "?S (n div 128)"
          proof (intro conjI)
            show "n div 128 \<noteq> 0" using n128(1) by (simp add: div_eq_0_iff)
            have "n * ?P = g * ?P + n div 128 * (128 * ?P)" by (subst e) (simp add: algebra_simps)
            then show "unat x = unat acc' + n div 128 * 2 ^ (7 * (k + 1))"
              using n unfolding a by (simp add: power_add)
            show "\<exists>rest. drop (at + 1) B = varint (n div 128) @ rest" using n more(2) by auto
            show "at' = at + 1 + length (varint (n div 128))" using n n128(1) length_varint [of n] by auto
          qed
          then show "\<exists>m. ?S m" ..
        next
          assume "\<exists>m. ?S m"
          then obtain m where m: "?S m" by blast
          define n where "n = 128 * m + g"
          have n: "n div 128 = m" "n mod 128 = g" "n \<ge> 128" using m g by (simp_all add: n_def)
          have "n * ?P = g * ?P + m * (128 * ?P)" by (simp add: n_def algebra_simps)
          then have "unat x = unat acc + n * ?P" using m unfolding a by (simp add: power_add)
          moreover have "at' = at + length (varint n)" using m n length_varint [of n] by simp
          ultimately have "?R n" using n m more(2) by auto
          then show "\<exists>n. ?R n" ..
        qed
        moreover have "read_varint data (7 * k) acc at = read_varint data (7 * (k + 1)) acc' (at + 1)"
          unfolding step using more by (simp add: add.commute)
        ultimately show ?thesis unfolding rhs using ih by simp
      qed
    qed
  qed
qed

lemma read_count_byte_iff:
  assumes v: "bsize data div 8 \<le> length (storage data)" and p: "policy_unit p = Byte"
  shows "read_count host p data at = (Inr x, at') \<longleftrightarrow>
    (\<exists>rest. drop at (take (bsize data div 8) (storage data)) = varint (unat x) @ rest) \<and>
    at' = at + length (varint (unat x))"
  using read_varint_iff [OF v, of 0 0 at x at'] p by (simp add: read_count_def)

section \<open>Backspaces\<close>

lemma bits_of_mod: "bits_of k n = bits_of k (n mod 2 ^ k)"
  by (rule bits_value_inj) (simp_all add: bits_value_of)

lemma bits_of_snoc: "bits_of (Suc k) n = bits_of k (n div 2) @ [odd n]"
proof (rule bits_value_inj)
  have "n mod 2 ^ Suc k = (n div 2 mod 2 ^ k) * 2 + n mod 2"
    using mod_mult2_eq [of n 2 "2 ^ k"] by simp
  then show "bits_value (bits_of (Suc k) n) = bits_value (bits_of k (n div 2) @ [odd n])"
    by (simp only: bits_value_of bits_value_append) (simp add: odd_iff_mod_2_eq_one)
qed simp

lemma prefix_fixed: "length c = k \<Longrightarrow> (\<exists>rest. ys = c @ rest) \<longleftrightarrow> k \<le> length ys \<and> take k ys = c"
  by (metis append_eq_conv_conj append_take_drop_id length_take min_absorb2 length_append le_add1)

lemma read_exp_iff:
  assumes v: "view_ok data" and p: "policy_unit p = Bit" "backspace p = Exponential_golomb k" and k: "k \<le> 63"
  shows "read_backspace host p data at = (Inr x, at') \<longleftrightarrow>
    (\<exists>rest. drop at (view_bits data) = tail_code (backspace p) (unat x) @ rest) \<and>
    at' = at + length (tail_code (backspace p) (unat x))"
proof -
  let ?V = "view_bits data"
  have x64: "unat x < 2 ^ 64" using unsigned_less [of x, where 'a = nat] by simp
  have lim: "unat (drop_bit k (-1) :: u64) = 18446744073709551615 div 2 ^ k"
    unfolding unat_drop_bit unat_max_u64 ..
  have join: "unat (push_bit k q OR r) = unat q * 2 ^ k + unat r"
    if "q \<le> drop_bit k (-1)" "unat r < 2 ^ k" for q r :: u64
  proof -
    have "unat q \<le> 18446744073709551615 div 2 ^ k" using that(1) by (simp only: word_le_nat_alt lim)
    then have "unat q * 2 ^ k \<le> 18446744073709551615" by (simp add: less_eq_div_iff_mult_less_eq)
    moreover have "(2 :: nat) ^ k dvd 2 ^ 64" using k by (intro le_imp_power_dvd) simp
    ultimately have "unat q * 2 ^ k + 2 ^ k \<le> 2 ^ 64"
    proof -
      assume le: "unat q * 2 ^ k \<le> 18446744073709551615" and d: "(2 :: nat) ^ k dvd 2 ^ 64"
      from d obtain j where j: "(2 :: nat) ^ 64 = 2 ^ k * j" by (elim dvdE)
      have "unat q * 2 ^ k < 2 ^ 64" using le by simp
      then have "unat q < j" unfolding j by (simp add: mult.commute)
      then have "(unat q + 1) * 2 ^ k \<le> j * 2 ^ k" by (intro mult_right_mono) simp_all
      then show ?thesis unfolding j by (simp add: algebra_simps)
    qed
    then have "unat r + unat q * 2 ^ k < 2 ^ 64" using that(2) by linarith
    then show ?thesis using or_shifted [OF that(2), of q] by (simp add: or.commute add.commute)
  qed
  define n where "n = unat x"
  define c where "c = exp_golomb (n div 2 ^ k)"
  have code: "tail_code (backspace p) n = c @ bits_of k n" by (simp add: p(2) c_def)
  have run: "read_backspace host p data at =
      bindM (read_count host p data) (\<lambda>q. if q > drop_bit k (-1)
        then raiseM (Invalid_argument ''overflowing exponential-Golomb backspace'')
        else bindM (read_fixed host data k) (\<lambda>r. returnM (push_bit k q OR r))) at"
    by (simp add: read_backspace_def p)
  have k64: "k \<le> 64" using k by simp
  note rf = read_fixed_spec [OF v k64]
  show ?thesis unfolding n_def [symmetric] code
  proof
    assume "read_backspace host p data at = (Inr x, at')"
    then obtain q at1 r where q: "read_count host p data at = (Inr q, at1)" "q \<le> drop_bit k (-1)"
      and r: "read_fixed host data k at1 = (Inr r, at')" "x = push_bit k q OR r"
      unfolding run by (auto simp: bindM_eq_Inr split: if_splits)
    from q(1) obtain rest where rest: "drop at ?V = exp_golomb (unat q) @ rest" "at1 = at + length (exp_golomb (unat q))"
      unfolding read_count_bit_iff [OF v p(1)] by blast
    have fits: "at1 + k \<le> bsize data" "r = wbits (take k (drop at1 ?V))" "at' = at1 + k"
      using r(1) unfolding rf by (auto split: if_splits)
    have d: "drop at1 ?V = rest" unfolding rest(2) by (subst add.commute, subst drop_drop [symmetric]) (simp add: rest(1))
    have l: "length (take k rest) = k" using fits(1) length_view_bits [OF v] d by (metis length_drop length_take min_absorb2 le_diff_conv2 add_leD1 add.commute)
    have ur: "unat r = bits_value (take k rest)" unfolding fits(2) d using l k by (intro unat_wbits) simp
    then have rl: "unat r < 2 ^ k" using bits_value_less [of "take k rest"] l by simp
    have "n = unat q * 2 ^ k + unat r" unfolding n_def r(2) by (rule join [OF q(2) rl])
    then have n: "n div 2 ^ k = unat q" "n mod 2 ^ k = unat r" using rl by simp_all
    have "bits_of k n = take k rest"
      using bits_of_mod [of k n] bits_of_value [of "take k rest"] unfolding n(2) ur l by simp
    then have "rest = bits_of k n @ drop k rest" by simp
    then have "drop at ?V = (c @ bits_of k n) @ drop k rest" unfolding rest(1) c_def n(1) by simp
    then show "(\<exists>rest. drop at ?V = (c @ bits_of k n) @ rest) \<and> at' = at + length (c @ bits_of k n)"
      using rest(2) fits(3) by (auto simp: c_def n(1))
  next
    assume "(\<exists>rest. drop at ?V = (c @ bits_of k n) @ rest) \<and> at' = at + length (c @ bits_of k n)"
    then obtain rest where rest: "drop at ?V = c @ bits_of k n @ rest" and at': "at' = at + length c + k" by auto
    define q where "q = drop_bit k x"
    have uq: "unat q = n div 2 ^ k" by (simp add: q_def n_def unat_drop_bit)
    have rc: "read_count host p data at = (Inr q, at + length c)"
      unfolding read_count_bit_iff [OF v p(1)] uq using rest by (auto simp: c_def)
    have "n div 2 ^ k \<le> 18446744073709551615 div 2 ^ k" using x64 by (intro div_le_mono) (simp add: n_def)
    then have ql: "q \<le> drop_bit k (-1)" by (simp only: word_le_nat_alt lim uq)
    have d: "drop (at + length c) ?V = bits_of k n @ rest" by (subst add.commute, subst drop_drop [symmetric]) (simp add: rest)
    have "length (drop at ?V) = length c + k + length rest" unfolding rest by simp
    moreover have "c \<noteq> []" using exp_golomb_obtain [of "n div 2 ^ k"] unfolding c_def by (metis append_is_Nil_conv list.distinct(1))
    ultimately have fits: "at + length c + k \<le> bsize data" using length_view_bits [OF v] by (cases c) auto
    have ur: "unat (wbits (bits_of k n)) = n mod 2 ^ k"
      using k unat_wbits [of "bits_of k n"] by (simp add: bits_value_of)
    have "read_fixed host data k (at + length c) = (Inr (wbits (bits_of k n)), at')"
      using rf fits at' d by simp
    moreover have "push_bit k q OR wbits (bits_of k n) = x"
    proof -
      have lt: "unat (wbits (bits_of k n)) < 2 ^ k" unfolding ur by simp
      have "unat (push_bit k q OR wbits (bits_of k n)) = n" unfolding join [OF ql lt] unfolding uq ur by (rule div_mult_mod_eq)
      then show ?thesis unfolding n_def by (simp only: word_unat_eq_iff)
    qed
    ultimately show "read_backspace host p data at = (Inr x, at')"
      unfolding run using rc ql by (auto simp: bindM_eq_Inr not_le)
  qed
qed

text \<open>The remainder of a Golomb code.\<close>

definition golomb_tail_code :: "nat \<Rightarrow> nat \<Rightarrow> bool list" where
  "golomb_tail_code m r = (let w = bit_width (m - 1); cutoff = 2 ^ w - m in
     if r < cutoff then bits_of (w - 1) r else bits_of w (r + cutoff))"

lemma golomb_code_split: "golomb_code m n = replicate (n div m) False @ True # golomb_tail_code m (n mod m)"
  by (simp add: golomb_code_def golomb_tail_code_def Let_def)

definition read_golomb_tail :: "bool \<Rightarrow> nat \<Rightarrow> bit_view \<Rightarrow> (nat, u64) op" where
  "read_golomb_tail host m data =
     (if bit_width (m - 1) \<noteq> 0 then
        bindM (read_fixed host data (bit_width (m - 1) - 1)) (\<lambda>remainder.
        if remainder \<ge> golomb_cutoff m then
          bindM (read_fixed host data 1) (\<lambda>b. returnM ((push_bit 1 remainder OR b) - golomb_cutoff m))
        else returnM remainder)
      else returnM 0)"

lemma word_bit_join: "unat r < 2 ^ 63 \<Longrightarrow> unat (push_bit 1 r OR wbits [b]) = 2 * unat r + of_bool b"
proof -
  assume r: "unat r < 2 ^ 63"
  have b: "unat (wbits [b]) = of_bool b" by (subst unat_wbits) simp_all
  have "unat (wbits [b] OR push_bit 1 r) = unat (wbits [b]) + unat r * 2 ^ 1"
    by (rule or_shifted) (use r b in auto)
  then show ?thesis by (simp only: or.commute [of "push_bit 1 r"] b) simp
qed

lemma golomb_widths:
  assumes "0 < m" "m \<le> u64_max" "bit_width (m - 1) = Suc v"
  shows "2 ^ v < m" "m \<le> 2 * 2 ^ v" "v \<le> 63" "2 * 2 ^ v - m < 2 ^ v"
proof -
  have "m - 1 \<noteq> 0" using assms(3) by (cases "m - 1 = 0") (simp_all add: bit_width.simps)
  then have "2 ^ v \<le> m - 1" using bit_width_bounds(2) [of "m - 1"] assms(3) by simp
  then show v: "2 ^ v < m" using assms(1) by linarith
  show "m \<le> 2 * 2 ^ v" "v \<le> 63" using golomb_cutoff_value(2,3) [OF assms(1,2)] assms(3) by simp_all
  then show "2 * 2 ^ v - m < 2 ^ v" using v by linarith
qed

lemma read_golomb_tail_iff:
  assumes v: "view_ok data" and at: "at \<le> bsize data" and m: "0 < m" "m \<le> u64_max"
  shows "read_golomb_tail host m data at = (Inr y, at') \<longleftrightarrow>
    unat y < m \<and> (\<exists>rest. drop at (view_bits data) = golomb_tail_code m (unat y) @ rest) \<and>
    at' = at + length (golomb_tail_code m (unat y))"
proof (cases "bit_width (m - 1)")
  case 0
  then have "m - 1 < 2 ^ 0" using bit_width_bounds(1) [of "m - 1"] by simp
  then have "m = 1" using m(1) by simp
  then show ?thesis
    using 0 by (auto simp: read_golomb_tail_def golomb_tail_code_def unsigned_eq_0_iff)
next
  case (Suc w)
  let ?V = "view_bits data"
  define ts where "ts = drop at ?V"
  define cut where "cut = 2 * 2 ^ w - m"
  note g = golomb_widths [OF m Suc]
  have c: "unat (golomb_cutoff m) = cut" using golomb_cutoff_value(1) [OF m] Suc by (simp add: cut_def)
  have code: "golomb_tail_code m r = (if r < cut then bits_of w r else bits_of (Suc w) (r + cut))" for r
    unfolding golomb_tail_code_def Let_def Suc cut_def by simp
  have lt: "length ts = bsize data - at" using length_view_bits [OF v] by (simp add: ts_def)
  have w64: "w \<le> 64" using g(3) by simp
  define top where "top = take w ts"
  have rf: "read_fixed host data w at = (if w \<le> length ts then (Inr (wbits top), at + w)
      else (Inl (Invalid_argument ''truncated backspace remainder''), at))"
  proof -
    have "at + w \<le> bsize data \<longleftrightarrow> w \<le> length ts" using at unfolding lt by linarith
    then show ?thesis using read_fixed_spec [OF v w64, of host at] by (simp add: top_def ts_def)
  qed
  have utop: "unat (wbits top) = bits_value top" using w64 by (intro unat_wbits) (simp add: top_def)
  have rb: "read_fixed host data 1 (at + w) = (if Suc w \<le> length ts then (Inr (wbits [ts ! w]), at + Suc w)
      else (Inl (Invalid_argument ''truncated backspace remainder''), at + w))" if "w \<le> length ts"
  proof -
    have "take 1 (drop (at + w) ?V) = [ts ! w]" if "Suc w \<le> length ts"
    proof -
      have "drop (at + w) ?V = drop w ts" by (simp add: ts_def add.commute)
      moreover have "drop w ts = ts ! w # drop (Suc w) ts" using that by (simp add: Cons_nth_drop_Suc)
      ultimately show ?thesis by simp
    qed
    moreover have "at + w + 1 \<le> bsize data \<longleftrightarrow> Suc w \<le> length ts" using at unfolding lt by linarith
    ultimately show ?thesis using read_fixed_spec [OF v, of 1 host "at + w"] by simp
  qed
  have short: "(\<exists>rest. ts = golomb_tail_code m r @ rest) \<longleftrightarrow> w \<le> length ts \<and> bits_value top = r" if "r < cut" for r
  proof -
    have "r < 2 ^ w" using that g(4) by (simp add: cut_def)
    then have "top = bits_of w r \<longleftrightarrow> bits_value top = r" if "w \<le> length ts"
      using bits_value_inj [of top "bits_of w r"] that by (auto simp: bits_value_of top_def)
    then show ?thesis using that prefix_fixed [of "bits_of w r" w ts] by (auto simp: code top_def)
  qed
  have long: "(\<exists>rest. ts = golomb_tail_code m r @ rest) \<longleftrightarrow>
      Suc w \<le> length ts \<and> 2 * bits_value top + of_bool (ts ! w) = r + cut" if "\<not> r < cut" "r < m" for r
  proof -
    have s: "r + cut < 2 ^ Suc w" using that(2) g(2) by (simp add: cut_def)
    have "take (Suc w) ts = bits_of (Suc w) (r + cut) \<longleftrightarrow> 2 * bits_value top + of_bool (ts ! w) = r + cut"
      if l: "Suc w \<le> length ts"
    proof -
      have t: "take (Suc w) ts = top @ [ts ! w]" using l by (simp add: top_def take_Suc_conv_app_nth)
      have "bits_value (take (Suc w) ts) = 2 * bits_value top + of_bool (ts ! w)" unfolding t by (simp add: bits_value_append)
      moreover have "bits_value (bits_of (Suc w) (r + cut)) = r + cut" using s by (simp add: bits_value_of del: power_Suc)
      ultimately show ?thesis
        using bits_value_inj [of "take (Suc w) ts" "bits_of (Suc w) (r + cut)"] l by auto
    qed
    then show ?thesis using that(1) prefix_fixed [of "bits_of (Suc w) (r + cut)" "Suc w" ts] by (auto simp: code)
  qed
  have tl: "bits_value top < 2 ^ w" if "w \<le> length ts" using bits_value_less [of top] that by (simp add: top_def)
  have joined: "unat ((push_bit 1 (wbits top) OR wbits [ts ! w]) - golomb_cutoff m) = 2 * bits_value top + of_bool (ts ! w) - cut"
    "2 * bits_value top + of_bool (ts ! w) - cut < m" if "w \<le> length ts" "bits_value top \<ge> cut"
  proof -
    have "(2 :: nat) ^ w \<le> 2 ^ 63" using g(3) by (intro power_increasing) simp_all
    then have "unat (wbits top) < 2 ^ 63" using tl [OF that(1)] utop by simp
    then have j: "unat (push_bit 1 (wbits top) OR wbits [ts ! w]) = 2 * bits_value top + of_bool (ts ! w)"
      using word_bit_join utop by simp
    then have "golomb_cutoff m \<le> push_bit 1 (wbits top) OR wbits [ts ! w]"
      using that(2) by (simp only: word_le_nat_alt c)
    then show "unat ((push_bit 1 (wbits top) OR wbits [ts ! w]) - golomb_cutoff m) = 2 * bits_value top + of_bool (ts ! w) - cut"
      by (simp only: unat_sub j c)
    have "2 * bits_value top + of_bool (ts ! w) < 2 * 2 ^ w" using tl [OF that(1)] by (cases "ts ! w") simp_all
    then show "2 * bits_value top + of_bool (ts ! w) - cut < m" using g(2) m(1) that(2) by (simp add: cut_def)
  qed
  have low: "wbits top \<ge> golomb_cutoff m \<longleftrightarrow> bits_value top \<ge> cut" by (simp only: word_le_nat_alt c utop)
  have run: "read_golomb_tail host m data at = (if \<not> w \<le> length ts then (Inl (Invalid_argument ''truncated backspace remainder''), at)
      else if bits_value top < cut then (Inr (wbits top), at + w)
      else if \<not> Suc w \<le> length ts then (Inl (Invalid_argument ''truncated backspace remainder''), at + w)
      else (Inr ((push_bit 1 (wbits top) OR wbits [ts ! w]) - golomb_cutoff m), at + Suc w))"
    unfolding read_golomb_tail_def Suc diff_Suc_1 bindM_apply
    by (simp add: rf low rb not_le bindM_apply del: One_nat_def)
  define r where "r = unat y"
  have len: "length (golomb_tail_code m r) = (if r < cut then w else Suc w)" by (simp add: code)
  have cm: "cut < m" using g by (simp add: cut_def)
  show ?thesis unfolding run ts_def [symmetric] r_def [symmetric]
  proof (cases "w \<le> length ts")
    case False
    then show "(if \<not> w \<le> length ts then (Inl (Invalid_argument ''truncated backspace remainder''), at)
      else if bits_value top < cut then (Inr (wbits top), at + w)
      else if \<not> Suc w \<le> length ts then (Inl (Invalid_argument ''truncated backspace remainder''), at + w)
      else (Inr ((push_bit 1 (wbits top) OR wbits [ts ! w]) - golomb_cutoff m), at + Suc w)) = (Inr y, at') \<longleftrightarrow>
      r < m \<and> (\<exists>rest. ts = golomb_tail_code m r @ rest) \<and> at' = at + length (golomb_tail_code m r)"
      using short long by (cases "r < cut") auto
  next
    case w: True
    show "(if \<not> w \<le> length ts then (Inl (Invalid_argument ''truncated backspace remainder''), at)
      else if bits_value top < cut then (Inr (wbits top), at + w)
      else if \<not> Suc w \<le> length ts then (Inl (Invalid_argument ''truncated backspace remainder''), at + w)
      else (Inr ((push_bit 1 (wbits top) OR wbits [ts ! w]) - golomb_cutoff m), at + Suc w)) = (Inr y, at') \<longleftrightarrow>
      r < m \<and> (\<exists>rest. ts = golomb_tail_code m r @ rest) \<and> at' = at + length (golomb_tail_code m r)"
    proof (cases "bits_value top < cut")
      case True
      have "wbits top = y \<longleftrightarrow> bits_value top = r" using utop by (metis r_def word_unat_eq_iff)
      moreover have "\<not> (2 * bits_value top + of_bool (ts ! w) = r + cut)" if "\<not> r < cut"
        using that True by (cases "ts ! w") simp_all
      ultimately show ?thesis using w True short [of r] long [of r] len cm by (cases "r < cut") auto
    next
      case False
      then have ge: "bits_value top \<ge> cut" by simp
      define val where "val = 2 * bits_value top + of_bool (ts ! w)"
      have val: "2 * cut \<le> val" "val - cut < m" using ge joined(2) [OF w ge] by (simp_all add: val_def)
      have y: "(push_bit 1 (wbits top) OR wbits [ts ! w]) - golomb_cutoff m = y \<longleftrightarrow> val = r + cut"
        using joined(1) [OF w ge] val(1) unfolding val_def [symmetric] by (metis r_def word_unat_eq_iff add_diff_cancel_right' le_add_diff_inverse2 trans_le_add1 mult_2 add_leD1)
      have rhs: "r < m \<and> (\<exists>rest. ts = golomb_tail_code m r @ rest) \<and> at' = at + length (golomb_tail_code m r) \<longleftrightarrow>
          Suc w \<le> length ts \<and> val = r + cut \<and> at' = at + Suc w"
      proof (cases "r < cut")
        case True
        then have "bits_value top \<noteq> r" "val \<noteq> r + cut" using ge val(1) by linarith+
        then show ?thesis unfolding short [OF True] by simp
      next
        case nr: False
        show ?thesis
        proof (cases "r < m")
          case True
          show ?thesis unfolding long [OF nr True] len val_def using nr True by simp
        next
          case F: False
          then have "val \<noteq> r + cut" using val(2) by linarith
          then show ?thesis using F by simp
        qed
      qed
      show ?thesis unfolding rhs using w False y by auto
    qed
  qed
qed

lemma read_golomb_iff:
  assumes v: "view_ok data" and m: "0 < m" "m \<le> u64_max"
  shows "read_golomb host m data at = (Inr x, at') \<longleftrightarrow>
    (\<exists>rest. drop at (view_bits data) = golomb_code m (unat x) @ rest) \<and> at' = at + length (golomb_code m (unat x))"
proof -
  let ?V = "view_bits data"
  define n where "n = unat x"
  have n64: "n \<le> u64_max" using unsigned_less [of x, where 'a = nat] by (simp add: n_def u64_max_def)
  have um: "unat (of_nat m :: u64) = m" using m(2) by (intro unat_of_nat_u64) (simp add: u64_max_def)
  have base: "unat (of_nat q * of_nat m :: u64) = q * m" if "q \<le> u64_max div m" for q
  proof -
    have "q * m \<le> u64_max" using that m(1) by (simp add: less_eq_div_iff_mult_less_eq)
    then show ?thesis using unat_of_nat_u64 [of "q * m"] by (simp add: u64_max_def)
  qed
  have room: "\<not> y > -1 - (of_nat q * of_nat m) \<longleftrightarrow> q * m + unat y \<le> u64_max" if "q \<le> u64_max div m" for q and y :: u64
  proof -
    have "unat (-1 - of_nat q * of_nat m :: u64) = u64_max - q * m"
      using base [OF that] unat_max_u64 by (subst unat_sub) (simp_all add: u64_max_def)
    moreover have "q * m \<le> u64_max" using that m(1) by (simp add: less_eq_div_iff_mult_less_eq)
    ultimately show ?thesis by (simp only: word_less_nat_alt not_less) linarith
  qed
  have total: "of_nat q * of_nat m + y = x \<longleftrightarrow> q * m + unat y = n"
    if "q \<le> u64_max div m" "q * m + unat y \<le> u64_max" for q and y :: u64
  proof -
    have "unat (of_nat q * of_nat m + y) = q * m + unat y"
      using that(2) base [OF that(1)] by (subst unat_add_lem [THEN iffD1]) (simp_all add: u64_max_def)
    then show ?thesis unfolding n_def by (metis word_unat_eq_iff)
  qed
  have run: "read_golomb host m data at =
      bindM (read_zero_run host data (u64_max div m) ''truncated backspace remainder'' ''overflowing Golomb quotient'' 0)
        (\<lambda>q. bindM (read_golomb_tail host m data) (\<lambda>y.
          if y > -1 - of_nat q * of_nat m then raiseM (Invalid_argument ''overflowing Golomb backspace'')
          else returnM (of_nat q * of_nat m + y))) at"
    by (simp only: read_golomb_def read_golomb_tail_def Let_def)
  show ?thesis unfolding n_def [symmetric]
  proof
    assume r: "read_golomb host m data at = (Inr x, at')"
    then obtain q at1 y where q: "read_zero_run host data (u64_max div m) ''truncated backspace remainder''
        ''overflowing Golomb quotient'' 0 at = (Inr q, at1)"
      and y: "read_golomb_tail host m data at1 = (Inr y, at')" "\<not> y > -1 - of_nat q * of_nat m"
        "of_nat q * of_nat m + y = x"
      unfolding run by (auto simp: bindM_eq_Inr split: if_splits)
    have at: "at \<le> bsize data"
      using q by (rule contrapos_pp) (simp add: read_zero_run_beyond)
    define z where "z = run (drop at ?V)"
    have zz: "z \<le> u64_max div m" "at + z < bsize data" "q = z" "at1 = at + z + 1"
      using q unfolding read_zero_run_spec [OF v at le0] z_def [symmetric] Let_def by (auto split: if_splits)
    have "run (drop at ?V) < length (drop at ?V)" using zz(2) length_view_bits [OF v] by (simp add: z_def)
    from run_split [OF this] have ys: "drop at ?V = replicate z False @ True # drop at1 ?V"
      unfolding z_def [symmetric] by (simp add: zz(4) algebra_simps)
    have at1: "at1 \<le> bsize data" using zz by simp
    obtain rest where t: "unat y < m" "drop at1 ?V = golomb_tail_code m (unat y) @ rest" "at' = at1 + length (golomb_tail_code m (unat y))"
      using y(1) unfolding read_golomb_tail_iff [OF v at1 m] by blast
    have "z * m + unat y \<le> u64_max" using y(2) room [OF zz(1), of y] zz(3) by simp
    then have n: "n = z * m + unat y" using total [OF zz(1), of y] y(3) zz(3) by simp
    then have "n div m = z" "n mod m = unat y" using t(1) by simp_all
    then have code: "golomb_code m n = replicate z False @ True # golomb_tail_code m (unat y)"
      by (simp only: golomb_code_split)
    show "(\<exists>rest. drop at ?V = golomb_code m n @ rest) \<and> at' = at + length (golomb_code m n)"
      unfolding code ys using t(2,3) zz(4) by simp
  next
    assume "(\<exists>rest. drop at ?V = golomb_code m n @ rest) \<and> at' = at + length (golomb_code m n)"
    then obtain rest where ys: "drop at ?V = replicate (n div m) False @ True # golomb_tail_code m (n mod m) @ rest"
      and at': "at' = at + (n div m + 1) + length (golomb_tail_code m (n mod m))"
      unfolding golomb_code_split by auto
    define z where "z = n div m"
    have rz: "run (drop at ?V) = z" unfolding ys by (simp add: run_code z_def)
    have len: "length (drop at ?V) = z + 1 + length (golomb_tail_code m (n mod m)) + length rest" unfolding ys by (simp add: z_def)
    then have at: "at \<le> bsize data" "at + z < bsize data" using length_view_bits [OF v] by simp_all
    have zl: "z \<le> u64_max div m" unfolding z_def using n64 by (rule div_le_mono)
    have q: "read_zero_run host data (u64_max div m) ''truncated backspace remainder''
        ''overflowing Golomb quotient'' 0 at = (Inr z, at + z + 1)"
      unfolding read_zero_run_spec [OF v at(1) le0] rz Let_def using zl at(2) by simp
    have d: "drop (at + z + 1) ?V = golomb_tail_code m (n mod m) @ rest"
    proof -
      have "drop (at + z + 1) ?V = drop (z + 1) (drop at ?V)" by (simp add: algebra_simps)
      then show ?thesis unfolding ys by (simp add: z_def)
    qed
    define y where "y = (of_nat (n mod m) :: u64)"
    have "n mod m \<le> u64_max" using n64 by (meson mod_less_eq_dividend order_trans)
    then have uy: "unat y = n mod m" unfolding y_def by (intro unat_of_nat_u64) (simp add: u64_max_def)
    have at1: "at + z + 1 \<le> bsize data" using at(2) by simp
    have t: "read_golomb_tail host m data (at + z + 1) = (Inr y, at')"
      unfolding read_golomb_tail_iff [OF v at1 m] uy using d m(1) at' by (simp add: z_def)
    have sum: "z * m + unat y = n" unfolding uy z_def by (rule div_mult_mod_eq)
    have "\<not> y > -1 - of_nat z * of_nat m" unfolding room [OF zl] sum by (rule n64)
    moreover have "of_nat z * of_nat m + y = x" using total [OF zl, of y] sum n64 by simp
    ultimately show "read_golomb host m data at = (Inr x, at')"
      unfolding run using q t by (simp add: bindM_apply)
  qed
qed

text \<open>Every reader of a bit profile accepts exactly the codes.\<close>

lemma read_backspace_bit_iff:
  assumes "policy_ok p" "view_ok data" "policy_unit p = Bit"
  shows "read_backspace host p data at = (Inr x, at') \<longleftrightarrow>
    (\<exists>rest. drop at (view_bits data) = backspace_code p x @ rest) \<and> at' = at + length (backspace_code p x)"
proof (cases "backspace p")
  case (Exponential_golomb k)
  have "backspace_ok (backspace p)" using assms(1) by (simp add: policy_ok_def)
  then have "k \<le> 63" by (simp add: Exponential_golomb)
  then show ?thesis
    using read_exp_iff [OF assms(2,3) Exponential_golomb] assms(3) by (simp add: backspace_code_def)
next
  case (Golomb m)
  have "backspace_ok (backspace p)" using assms(1) by (simp add: policy_ok_def)
  then have "0 < m" "m \<le> u64_max" by (simp_all add: Golomb)
  then show ?thesis
    using read_golomb_iff [OF assms(2), of m host at x at'] assms(3) by (simp add: backspace_code_def read_backspace_def Golomb)
qed

section \<open>Positions in units\<close>

text \<open>
  Positions count the policy's units: bytes or bits. A byte profile lies at a byte boundary.
\<close>

definition profile_data :: "storage_policy \<Rightarrow> bit_view \<Rightarrow> bool" where
  "profile_data p data \<longleftrightarrow> view_ok data \<and> (policy_unit p = Byte \<longrightarrow> offset data = 0 \<and> bsize data mod 8 = 0)"

lemma bits_per_unit_simps [simp]:
  "policy_unit p = Byte \<Longrightarrow> bits_per_unit p = 8" "policy_unit p = Bit \<Longrightarrow> bits_per_unit p = 1"
  by (simp_all add: bits_per_unit_def unit_shift_def)

lemma byte_prefix:
  "(\<exists>rest. drop (8 * at) (all_bits B) = all_bits bs @ rest) \<longleftrightarrow> (\<exists>rest. drop at B = bs @ rest)"
proof
  assume "\<exists>rest. drop (8 * at) (all_bits B) = all_bits bs @ rest"
  then obtain rest where "all_bits (drop at B) = all_bits bs @ rest" unfolding drop_all_bits by blast
  then have "take (8 * length bs) (all_bits (drop at B)) = all_bits bs" by simp
  then have "take (length bs) (drop at B) = bs" unfolding take_all_bits by (rule all_bits_inj)
  then have "drop at B = bs @ drop (length bs) (drop at B)" by (metis append_take_drop_id)
  then show "\<exists>rest. drop at B = bs @ rest" ..
next
  assume "\<exists>rest. drop at B = bs @ rest"
  then show "\<exists>rest. drop (8 * at) (all_bits B) = all_bits bs @ rest" by (auto simp: drop_all_bits)
qed

lemma byte_data:
  assumes "profile_data p data" "policy_unit p = Byte"
  shows "bsize data div 8 \<le> length (storage data)"
    "view_bits data = all_bits (take (bsize data div 8) (storage data))"
proof -
  obtain n where n: "bsize data = 8 * n" using assms by (auto simp: profile_data_def elim: dvdE)
  then show "bsize data div 8 \<le> length (storage data)" using assms by (simp add: profile_data_def view_ok_def)
  show "view_bits data = all_bits (take (bsize data div 8) (storage data))"
    using assms n by (simp add: view_bits_def profile_data_def take_all_bits)
qed

lemma read_backspace_iff:
  assumes "policy_ok p" "profile_data p data"
  shows "read_backspace host p data at = (Inr x, at') \<longleftrightarrow>
    (\<exists>rest. drop (bits_per_unit p * at) (view_bits data) = backspace_code p x @ rest) \<and>
    bits_per_unit p * at' = bits_per_unit p * at + length (backspace_code p x)"
proof (cases "policy_unit p")
  case Byte
  have "read_backspace host p data at = read_count host p data at" by (simp add: read_backspace_def Byte)
  moreover have "8 * at' = 8 * at + 8 * length (varint (unat x)) \<longleftrightarrow> at' = at + length (varint (unat x))" by linarith
  ultimately show ?thesis
    using read_count_byte_iff [OF byte_data(1) [OF assms(2) Byte] Byte, of host at x at'] Byte
    unfolding byte_data(2) [OF assms(2) Byte] by (simp add: backspace_code_def byte_prefix)
next
  case Bit
  have "view_ok data" using assms(2) by (simp add: profile_data_def)
  from read_backspace_bit_iff [OF assms(1) this Bit] show ?thesis by (simp add: Bit)
qed

section \<open>Errors\<close>

text \<open>A reader fails only with \<open>std::invalid_argument\<close>.\<close>

definition rejects :: "('a res \<times> nat) \<Rightarrow> bool" where
  "rejects r \<longleftrightarrow> (\<forall>e. fst r = Inl e \<longrightarrow> (\<exists>msg. e = Invalid_argument msg))"

lemma rejects_simps [simp]:
  "rejects (Inr x, n)" "rejects (Inl (Invalid_argument msg), n)"
  by (simp_all add: rejects_def)

lemma rejects_bind:
  "rejects (m at) \<Longrightarrow> (\<And>x at'. m at = (Inr x, at') \<Longrightarrow> rejects (f x at')) \<Longrightarrow> rejects (bindM m f at)"
  by (cases "m at"; cases "fst (m at)") (auto simp: bindM_apply rejects_def split: sum.splits)

lemma rejects_zero_run:
  assumes "view_ok data"
  shows "rejects (read_zero_run host data limit truncated overflow 0 at)"
proof (cases "at \<le> bsize data")
  case True
  then show ?thesis by (simp add: read_zero_run_spec [OF assms] Let_def)
qed (simp add: read_zero_run_beyond)

lemma rejects_fixed: "view_ok data \<Longrightarrow> rejects (read_fixed host data w at)"
proof (cases "w \<le> 64")
  case True
  then show "view_ok data \<Longrightarrow> ?thesis" by (simp add: read_fixed_spec)
qed (simp add: read_fixed_def)

lemma rejects_varint: "bsize data div 8 \<le> length (storage data) \<Longrightarrow> rejects (read_varint data shift acc at)"
proof (induction data shift acc at rule: read_varint.induct)
  case (1 data shift acc at)
  show ?case
  proof (cases "shift > 63 \<or> at \<ge> bsize data div 8")
    case True
    then show ?thesis by (subst read_varint.simps) auto
  next
    case False
    then obtain b where b: "read_byte (storage data) at = Inr b" using 1(2) by (simp add: read_byte_def)
    show ?thesis using False b 1 by (subst read_varint.simps) (simp add: Let_def)
  qed
qed

lemma rejects_long: "view_ok data \<Longrightarrow> rejects (read_long host data at)"
  unfolding read_long_def
  by (intro rejects_bind rejects_zero_run) (simp_all add: rejects_bind rejects_fixed split: if_split)

lemma rejects_count:
  assumes "view_ok data" "bsize data div 8 \<le> length (storage data)"
  shows "rejects (read_count host p data at)"
proof -
  have s: "rejects (read_short host data at)"
    by (rule read_short_cases [OF assms(1), of host at]) auto
  show ?thesis
    unfolding read_count_def
    using s assms by (auto intro!: rejects_bind rejects_varint rejects_long split: option.split)
qed

lemma rejects_golomb: "view_ok data \<Longrightarrow> rejects (read_golomb host m data at)"
  unfolding read_golomb_def Let_def
  by (intro rejects_bind rejects_zero_run) (auto intro!: rejects_bind rejects_fixed split: if_split)

lemma rejects_backspace:
  assumes "view_ok data" "bsize data div 8 \<le> length (storage data)"
  shows "rejects (read_backspace host p data at)"
  unfolding read_backspace_def
  using assms by (auto intro!: rejects_bind rejects_count rejects_fixed rejects_golomb split: if_split backspace_encoding.split)

lemma view_ok_bytes: "view_ok v \<Longrightarrow> bsize v div 8 \<le> length (storage v)"
  by (simp add: view_ok_def)

section \<open>Properties\<close>

text \<open>
  C31. A reader accepts exactly the codes. Reading a backspace from a profile returns a value and
  a position if and only if the bits there begin with that value's code and the position is the
  one behind it: varints in byte profiles, exponential-Golomb codes of any order and Golomb codes
  of any modulus in bit profiles. No value has a second, longer or overflowing encoding that is
  accepted, and nothing that is a code is rejected.
\<close>

theorem reader_accepts_exactly_codes:
  assumes "policy_ok p" "profile_data p data"
  shows "read_backspace host p data at = (Inr x, at') \<longleftrightarrow>
    (\<exists>rest. drop (bits_per_unit p * at) (view_bits data) = backspace_code p x @ rest) \<and>
    bits_per_unit p * at' = bits_per_unit p * at + length (backspace_code p x)"
  using assms by (rule read_backspace_iff)

lemma reader_accepts_exactly_codes_witness:
  "read_backspace True default_policy \<lparr>storage = [0xAC, 2, 7], offset = 0, bsize = 24\<rparr> 0 = (Inr 300, 2)"
proof -
  have u: "policy_unit default_policy = Byte"
    by (simp add: default_policy_def policy_unit_def registry_unit_def)
  have d: "profile_data default_policy \<lparr>storage = [0xAC, 2, 7], offset = 0, bsize = 24\<rparr>"
    by (simp add: profile_data_def view_ok_def)
  have "varint 300 = [0xAC, 2]" by (simp add: varint.simps [of 300] varint.simps [of 2])
  then have c: "backspace_code default_policy 300 = byte_bits 0xAC @ byte_bits 2"
    by (simp add: backspace_code_def u)
  show ?thesis
    unfolding reader_accepts_exactly_codes [OF default_policies_ok(1) d] c u
    by (simp add: u view_bits_def)
qed

text \<open>
  Writing and reading back: a backspace appended to a canonical string that has room for it
  leaves a canonical string with the old bits in front, from whose view the reader returns the
  value at the old end and the new end as position.
\<close>

theorem backspace_round_trip:
  assumes "policy_ok p" "string_ok s" "bit_size s = bits_per_unit p * at"
    and "bit_size s + length (backspace_code p x) \<le> u64_max - 7"
  shows "\<exists>t v at'. write_backspace host p s x = Inr t \<and> string_ok t \<and>
    take (bit_size s) (string_bits t) = string_bits s \<and> string_view t = Inr v \<and>
    read_backspace host p v at = (Inr x, at') \<and> bit_size t = bits_per_unit p * at'"
proof -
  have al: "policy_unit p = Byte \<longrightarrow> bit_size s mod 8 = 0" using assms(3) by auto
  obtain t where t: "write_backspace host p s x = Inr t" "string_ok t" "string_bits t = string_bits s @ backspace_code p x"
    using write_backspace_bits [OF assms(1,2) al assms(4), of host] by blast
  obtain v where v: "string_view t = Inr v" "view_ok v" "view_bits v = string_bits t" "bsize v = bit_size t"
    using string_view_ok [OF t(2)] by blast
  have ls: "length (string_bits s) = bit_size s" "length (string_bits t) = bit_size t"
    using assms(2) t(2) by (simp_all add: length_string_bits)
  then have size: "bit_size t = bits_per_unit p * at + length (backspace_code p x)" using t(3) assms(3) by simp
  have "offset v = 0" using v(1) by (auto simp: string_view_def new_bit_view_def res_simps Let_def split: if_splits)
  moreover have "policy_unit p = Byte \<Longrightarrow> bit_size t mod 8 = 0"
    unfolding size by (simp add: backspace_code_def)
  ultimately have d: "profile_data p v" using v(2,4) by (auto simp: profile_data_def)
  define len where "len = length (backspace_code p x) div bits_per_unit p"
  have len: "length (backspace_code p x) = bits_per_unit p * len"
    by (cases "policy_unit p") (simp_all add: len_def backspace_code_def)
  have "read_backspace host p v at = (Inr x, at + len)"
    unfolding read_backspace_iff [OF assms(1) d] v(3) t(3) using ls(1) assms(3) len by (simp add: distrib_left)
  moreover have "bit_size t = bits_per_unit p * (at + len)" unfolding size len by (simp add: distrib_left)
  ultimately show ?thesis using t v ls(1) by auto
qed

lemma backspace_round_trip_witness:
  "\<exists>t v at'. write_backspace False string_policy \<lparr>bytes = [0xA0], bit_size = 3\<rparr> 5 = Inr t \<and>
     string_view t = Inr v \<and> read_backspace False string_policy v 3 = (Inr 5, at') \<and> bit_size t = at'"
proof -
  have u: "policy_unit string_policy = Bit"
    by (simp add: string_policy_def string_registry_def policy_unit_def registry_unit_def text_sort_def)
  have ok: "string_ok \<lparr>bytes = [0xA0], bit_size = 3\<rparr>"
    unfolding validate_string_iff [symmetric] by (simp add: validate_string_def u64_max_def byte_count_def)
  have "bit_width 6 = 3" by (simp add: bit_width.simps)
  then have "length (backspace_code string_policy 5) = 5"
    unfolding backspace_code_def u by (simp add: string_policy_def default_policy_def length_exp_golomb)
  then show ?thesis
    using backspace_round_trip [OF default_policies_ok(2) ok, of 3 5 False] u by (auto simp: u64_max_def)
qed

text \<open>
  Malformed input is rejected, never trusted: whatever the bytes of a view are and wherever
  the reader starts, it returns a value or throws \<open>std::invalid_argument\<close>; it reads nothing
  outside the storage.
\<close>

theorem reader_only_rejects:
  assumes "view_ok data" "read_backspace host p data at = (Inl e, at')"
  shows "\<exists>msg. e = Invalid_argument msg"
  using rejects_backspace [OF assms(1) view_ok_bytes [OF assms(1)], of host p at] assms(2) by (simp add: rejects_def)

lemma reader_only_rejects_witness:
  "\<exists>msg. fst (read_backspace True default_policy \<lparr>storage = [0x80, 0], offset = 0, bsize = 16\<rparr> 0) = Inl (Invalid_argument msg)"
proof -
  let ?r = "read_backspace True default_policy \<lparr>storage = [0x80, 0], offset = 0, bsize = 16\<rparr> 0"
  have "policy_unit default_policy = Byte" by (simp add: default_policy_def policy_unit_def registry_unit_def)
  then have "?r = read_varint \<lparr>storage = [0x80, 0], offset = 0, bsize = 16\<rparr> 0 0 0"
    by (simp add: read_backspace_def read_count_def)
  also have "\<dots> = (Inl (Invalid_argument ''noncanonical profile count''), 2)"
    by (simp add: read_varint.simps [of _ 0] read_varint.simps [of _ 7] read_byte_def)
  finally have r: "?r = (Inl (Invalid_argument ''noncanonical profile count''), 2)" .
  have "view_ok \<lparr>storage = [0x80, 0], offset = 0, bsize = 16\<rparr>" by (simp add: view_ok_def)
  from reader_only_rejects [OF this r] obtain msg
    where "Invalid_argument ''noncanonical profile count'' = Invalid_argument msg" by blast
  then have "fst ?r = Inl (Invalid_argument msg)" unfolding r by (simp only: fst_conv)
  then show ?thesis by blast
qed

end
