(* ===== verification/QueryContext.thy ===== *)
theory QueryContext
  imports CountReads
begin

text \<open>
  Query contexts (\<open>profile_query_context\<close> of \<open>profile.h\<close>): the comparison of a front-coded key
  with a query is carried from one record to the next by order, agreement and length alone. The
  theorems state which key a context stands for, although no key is ever reconstructed.
\<close>

section \<open>Anchors\<close>

definition unit_multiple :: "storage_policy \<Rightarrow> nat \<Rightarrow> bool" where
  "unit_multiple p n \<longleftrightarrow> n mod bits_per_unit p = 0"

definition common_prefix_units :: "bool \<Rightarrow> storage_policy \<Rightarrow> bit_view \<Rightarrow> bit_view \<Rightarrow> nat res" where
  "common_prefix_units host p a b =
     (if \<not> unit_multiple p (bsize a) \<or> \<not> unit_multiple p (bsize b)
      then Inl (Invalid_argument ''key length does not match profile unit'')
      else bindE (compare_common_bits host a b) (\<lambda>c. Inr (common_bits c div bits_per_unit p)))"

record profile_anchor =
  prefix_view :: bit_view
  anchor_units :: nat

definition complete_anchor :: "storage_policy \<Rightarrow> bit_view \<Rightarrow> profile_anchor res" where
  "complete_anchor p key = (if \<not> unit_multiple p (bsize key) then Inl (Invalid_argument ''anchor unit mismatch'')
     else Inr \<lparr>prefix_view = key, anchor_units = bsize key div bits_per_unit p\<rparr>)"

definition compare_profile_prefix :: "bool \<Rightarrow> storage_policy \<Rightarrow> profile_anchor \<Rightarrow> bit_view \<Rightarrow> int res" where
  "compare_profile_prefix host p key query =
     (if \<not> unit_multiple p (bsize query) \<or> \<not> unit_multiple p (bsize (prefix_view key))
      then Inl (Invalid_argument ''query unit mismatch'')
      else let query_units = bsize query div bits_per_unit p in
        bindE (profile_multiply (min (anchor_units key) query_units) (bits_per_unit p)) (\<lambda>needed.
        if bsize (prefix_view key) < needed then Inl (Invalid_argument ''query prefix is incomplete'')
        else bindE (bprefix (prefix_view key) needed) (\<lambda>a. bindE (bprefix query needed) (\<lambda>b.
          bindE (compare_bits host a b) (\<lambda>order.
          Inr (if order \<noteq> 0 then order
            else if anchor_units key < query_units then -1
            else if anchor_units key > query_units then 1 else 0))))))"

section \<open>Contexts\<close>

record profile_encoded_record =
  retained :: nat
  key_units :: nat
  value_units :: nat
  suffix_view :: bit_view
  value_view :: bit_view
  next_offset :: nat

text \<open>A context that was moved from has no query.\<close>

record query_context =
  query_string :: "bit_string option"
  context_common :: nat
  context_units :: nat
  context_order :: int
  length_known :: bool

definition start_context :: "bit_string \<Rightarrow> query_context" where
  "start_context s = \<lparr>query_string = Some s, context_common = 0, context_units = 0,
     context_order = (if bit_size s \<noteq> 0 then -1 else 0), length_known = True\<rparr>"

definition new_context :: "bool \<Rightarrow> storage_policy \<Rightarrow> bit_view \<Rightarrow> query_context res" where
  "new_context host p query =
     (if \<not> unit_multiple p (bsize query) then Inl (Invalid_argument ''query unit mismatch'')
      else bindE (copy_string host query) (\<lambda>s. Inr (start_context s)))"

definition context_from_owned :: "storage_policy \<Rightarrow> bit_string \<Rightarrow> query_context res" where
  "context_from_owned p s = bindE (validate_string s) (\<lambda>_.
     if \<not> unit_multiple p (bit_size s) then Inl (Invalid_argument ''query unit mismatch'')
     else Inr (start_context s))"

definition context_query :: "query_context \<Rightarrow> bit_view res" where
  "context_query c = (case query_string c of
     None \<Rightarrow> Inl (Logic_error ''comparison context has no query'') | Some s \<Rightarrow> string_view s)"

definition context_full_units :: "query_context \<Rightarrow> nat option" where
  "context_full_units c = (if length_known c then Some (context_units c) else None)"

text \<open>\<open>n << P::unit_shift\<close> on 64 bits.\<close>

definition unit_bits :: "storage_policy \<Rightarrow> nat \<Rightarrow> nat" where
  "unit_bits p n = n * bits_per_unit p mod 2 ^ 64"

fun sum_parts :: "nat \<Rightarrow> bit_view list \<Rightarrow> nat res" where
  "sum_parts acc [] = Inr acc"
| "sum_parts acc (part # parts) = bindE (profile_add acc (bsize part)) (\<lambda>t. sum_parts t parts)"

text \<open>The loop over the literal's spans: position, order and number of compared bits.\<close>

fun compare_parts :: "bool \<Rightarrow> bit_view \<Rightarrow> nat \<Rightarrow> nat \<Rightarrow> bit_view list \<Rightarrow> (nat \<times> int \<times> nat) res" where
  "compare_parts host query at compared [] = Inr (at, 0, compared)"
| "compare_parts host query at compared (part # parts) =
     (let available = bsize query - at in
      bindE (subview query at available) (\<lambda>other.
      bindE (bprefix other (min (bsize part) available)) (\<lambda>other.
      bindE (compare_common_bits host part other) (\<lambda>result.
      let compared = compared + common_bits result +
            of_bool (common_bits result < min (bsize part) available);
          at = at + common_bits result in
      if order result \<noteq> 0 then Inr (at, order result, compared)
      else compare_parts host query at compared parts))))"

definition advance_parts ::
  "bool \<Rightarrow> storage_policy \<Rightarrow> nat \<Rightarrow> nat \<Rightarrow> bit_view list \<Rightarrow> query_context \<Rightarrow> (query_context \<times> nat) res" where
  "advance_parts host p retained_bits full_bits literal c =
     (if \<not> unit_multiple p full_bits \<or> retained_bits > full_bits \<or>
         (length_known c \<and> retained_bits > unit_bits p (context_units c))
      then Inl (Invalid_argument ''invalid inherited comparison frame'')
      else bindE (sum_parts retained_bits literal) (\<lambda>total.
        if total \<noteq> full_bits then Inl (Invalid_argument ''incomplete comparison literal'')
        else bindE (if context_common c \<ge> retained_bits then
            bindE (context_query c) (\<lambda>query.
            bindE (compare_parts host query retained_bits 0 literal) (\<lambda>(at, ord, compared).
            Inr (c\<lparr>context_common := at,
              context_order := (if ord \<noteq> 0 then ord
                else if full_bits < bsize query then -1 else if full_bits > bsize query then 1 else 0)\<rparr>, compared)))
          else Inr (c, 0)) (\<lambda>(c, compared).
        Inr (c\<lparr>context_units := full_bits div bits_per_unit p, length_known := True\<rparr>, compared))))"

definition with_key :: "bool \<Rightarrow> storage_policy \<Rightarrow> bit_view \<Rightarrow> query_context \<Rightarrow> query_context res" where
  "with_key host p key c =
     (if \<not> unit_multiple p (bsize key) then Inl (Invalid_argument ''boundary key unit mismatch'')
      else bindE (context_query c) (\<lambda>query. bindE (compare_common_bits host key query) (\<lambda>comparison.
        Inr (c\<lparr>context_common := common_bits comparison, context_units := bsize key div bits_per_unit p,
          length_known := True, context_order := order comparison\<rparr>))))"

definition context_advance ::
  "bool \<Rightarrow> storage_policy \<Rightarrow> profile_encoded_record \<Rightarrow> query_context \<Rightarrow> (query_context \<times> nat) res" where
  "context_advance host p r c =
     (if length_known c \<and> retained r > context_units c
      then Inl (Invalid_argument ''comparison anchor is too short'')
      else bindE (profile_multiply (retained r) (bits_per_unit p)) (\<lambda>retained_bits.
        bindE (if context_common c \<ge> retained_bits then
            bindE (context_query c) (\<lambda>query.
            bindE (subview query retained_bits (bsize query - retained_bits)) (\<lambda>suffix_query.
            bindE (compare_common_bits host (suffix_view r) suffix_query) (\<lambda>comparison.
            bindE (profile_add retained_bits (common_bits comparison)) (\<lambda>common.
            Inr (c\<lparr>context_common := common, context_order := order comparison\<rparr>,
              common_bits comparison +
              of_bool (common_bits comparison < min (bsize (suffix_view r)) (bsize suffix_query)))))))
          else Inr (c, 0)) (\<lambda>(c, compared).
        Inr (c\<lparr>context_units := key_units r, length_known := True\<rparr>, compared))))"

definition context_predecessor :: "storage_policy \<Rightarrow> nat \<Rightarrow> query_context \<Rightarrow> query_context res" where
  "context_predecessor p lcp_bits c =
     (if context_order c > 0 then Inl (Invalid_argument ''invalid cut predecessor comparison'')
      else bindE (if length_known c then bindE (profile_multiply (context_units c) (bits_per_unit p)) (\<lambda>n. Inr (lcp_bits > n))
          else Inr False) (\<lambda>bad.
        if bad then Inl (Invalid_argument ''invalid cut predecessor comparison'')
        else bindE (context_query c) (\<lambda>query.
          let common = min lcp_bits (context_common c); known = (common = bsize query) in
          Inr (c\<lparr>context_common := common, length_known := known,
            context_units := (if known then bsize query div bits_per_unit p else 0),
            context_order := (if known then 0 else -1)\<rparr>))))"

section \<open>Agreement of sequences\<close>

lemma lcp_nil [simp]: "lcp xs [] = 0"
  by (cases xs) auto

lemma take_lcp_split:
  assumes "r \<le> lcp k q"
  shows "take r k = take r q" "r \<le> length k" "r \<le> length q"
proof -
  have "take r (take (lcp k q) k) = take r (take (lcp k q) q)" by (rule arg_cong [OF lcp_take])
  then show "take r k = take r q" using assms by (simp add: min_absorb1)
  show "r \<le> length k" "r \<le> length q" using assms lcp_le [of k q] by simp_all
qed

lemma inherit_agreeing:
  assumes "r \<le> lcp k q"
  shows "lcp (take r k @ s) q = r + lcp s (drop r q)" "lex (take r k @ s) q = lex s (drop r q)"
proof -
  note t = take_lcp_split [OF assms]
  have "take r k @ s = take r q @ s" "q = take r q @ drop r q" using t(1) by simp_all
  then show "lcp (take r k @ s) q = r + lcp s (drop r q)" "lex (take r k @ s) q = lex s (drop r q)"
    using lcp_append [of "take r q" "take r q" s "drop r q"] lex_append [of "take r q" "take r q" s "drop r q"] t(3)
    by simp_all
qed

lemma inherit_differing:
  "lcp k q < r \<Longrightarrow> r \<le> length k \<Longrightarrow> lcp (take r k @ s) q = lcp k q \<and> lex (take r k @ s) q = lex k q"
proof (induction k q arbitrary: r rule: lcp.induct)
  case (1 x xs y ys)
  then show ?case by (cases r) (auto split: if_splits)
next
  case (3 v va)
  then show ?case by (cases r) auto
qed auto

lemma lcp_between:
  "lex c b \<le> 0 \<Longrightarrow> lex b q \<le> 0 \<Longrightarrow> lcp c q = min (lcp c b) (lcp b q) \<and> lex c q \<le> 0"
proof (induction c q arbitrary: b rule: lcp.induct)
  case (1 x xs y ys)
  then show ?case by (cases b) (auto split: if_splits)
next
  case (2 ys)
  then show ?case by (cases ys; cases b) auto
next
  case (3 v va)
  then show ?case by (cases b) (auto split: if_splits)
qed

lemma lex_prefix_order:
  "lcp a b = min (length a) (length b) \<Longrightarrow> lex a b = (if length a < length b then -1 else if length a > length b then 1 else 0)"
proof -
  assume e: "lcp a b = min (length a) (length b)"
  show ?thesis
    using lex_prefix [of a b] lcp_take [of a b] unfolding e by simp
qed

section \<open>The key a context stands for\<close>

definition context_ok :: "storage_policy \<Rightarrow> query_context \<Rightarrow> bool list \<Rightarrow> bool" where
  "context_ok p c q \<longleftrightarrow> (\<exists>s. query_string c = Some s \<and> string_ok s \<and> string_bits s = q \<and> unit_multiple p (length q))"

definition describes :: "storage_policy \<Rightarrow> query_context \<Rightarrow> bool list \<Rightarrow> bool list \<Rightarrow> bool" where
  "describes p c q k \<longleftrightarrow> context_ok p c q \<and>
     context_common c = lcp k q \<and> context_order c = lex k q \<and>
     (length_known c \<longrightarrow> context_units c * bits_per_unit p = length k) \<and>
     length k \<le> u64_max \<and> unit_multiple p (length k)"

lemma bits_per_unit_pos [simp]: "0 < bits_per_unit p"
  by (simp add: bits_per_unit_def)

lemma units_exact: "unit_multiple p n \<Longrightarrow> n div bits_per_unit p * bits_per_unit p = n"
  by (auto simp: unit_multiple_def)

lemma context_query_ok:
  assumes "context_ok p c q"
  shows "\<exists>v. context_query c = Inr v \<and> view_ok v \<and> view_bits v = q \<and> bsize v = length q"
proof -
  obtain s where s: "query_string c = Some s" "string_ok s" "string_bits s = q"
    using assms by (auto simp: context_ok_def)
  then show ?thesis
    using string_view_ok [OF s(2)] length_string_bits [OF s(2)] by (auto simp: context_query_def)
qed

lemma context_ok_update [simp]:
  "context_ok p (c\<lparr>context_common := a\<rparr>) q = context_ok p c q"
  "context_ok p (c\<lparr>context_units := u\<rparr>) q = context_ok p c q"
  "context_ok p (c\<lparr>context_order := i\<rparr>) q = context_ok p c q"
  "context_ok p (c\<lparr>length_known := b\<rparr>) q = context_ok p c q"
  by (simp_all add: context_ok_def)

lemma start_context_describes:
  assumes "string_ok s" "unit_multiple p (bit_size s)"
  shows "describes p (start_context s) (string_bits s) []"
  using assms length_string_bits [OF assms(1)]
  by (cases "string_bits s") (auto simp: describes_def context_ok_def start_context_def unit_multiple_def)

lemma new_context_describes:
  assumes "view_ok v" "bsize v \<le> u64_max - 7" "unit_multiple p (bsize v)"
  shows "\<exists>c. new_context host p v = Inr c \<and> describes p c (view_bits v) []"
proof -
  obtain s where "copy_string host v = Inr s" "string_ok s" "string_bits s = view_bits v" "bit_size s = bsize v"
    using copy_string_ok [OF assms(1,2), of host] by blast
  then show ?thesis
    using start_context_describes [of s p] assms(3) by (auto simp: new_context_def)
qed

lemma multiply_units: "n * bits_per_unit p \<le> u64_max \<Longrightarrow> profile_multiply n (bits_per_unit p) = Inr (n * bits_per_unit p)"
  by (simp add: profile_multiply_def div_less_iff_less_mult not_less)

lemma context_advance_describes:
  assumes d: "describes p c q k" and v: "view_ok (suffix_view r)"
    and r: "retained r * bits_per_unit p \<le> length k"
    and n: "key_units r * bits_per_unit p = retained r * bits_per_unit p + bsize (suffix_view r)"
      "key_units r * bits_per_unit p \<le> u64_max"
  shows "\<exists>c' work. context_advance host p r c = Inr (c', work) \<and>
    describes p c' q (take (retained r * bits_per_unit p) k @ view_bits (suffix_view r)) \<and>
    length_known c' \<and> work \<le> bsize (suffix_view r)"
proof -
  define b where "b = retained r * bits_per_unit p"
  define k' where "k' = take b k @ view_bits (suffix_view r)"
  have lk: "length k' = key_units r * bits_per_unit p"
    using n(1) r length_view_bits [OF v] by (simp add: k'_def b_def)
  have ok: "context_ok p c q" and cm: "context_common c = lcp k q" "context_order c = lex k q"
    using d by (simp_all add: describes_def)
  have short: "\<not> (length_known c \<and> retained r > context_units c)"
  proof
    assume a: "length_known c \<and> retained r > context_units c"
    then have "context_units c * bits_per_unit p < b" unfolding b_def by simp
    moreover have "context_units c * bits_per_unit p = length k" using d a by (simp add: describes_def)
    ultimately show False using r by (simp add: b_def)
  qed
  have mul: "profile_multiply (retained r) (bits_per_unit p) = Inr b"
    using n unfolding b_def by (intro multiply_units) simp
  have fin: "describes p (c'\<lparr>context_units := key_units r, length_known := True\<rparr>) q k'"
    if "context_ok p c' q" "context_common c' = lcp k' q" "context_order c' = lex k' q" for c'
    using that lk n(2) by (simp add: describes_def unit_multiple_def)
  show ?thesis unfolding b_def [symmetric] k'_def [symmetric]
  proof (cases "lcp k q \<ge> b")
    case True
    note ag = inherit_agreeing [OF True, of "view_bits (suffix_view r)", folded k'_def]
    obtain w where w: "context_query c = Inr w" "view_ok w" "view_bits w = q" "bsize w = length q"
      using context_query_ok [OF ok] by blast
    have bq: "b \<le> length q" using take_lcp_split(3) [OF True] .
    obtain u where u: "subview w b (bsize w - b) = Inr u" using bq w(4) by (simp add: subview_def)
    note uok = subview_Inr [OF w(2) u]
    have ub: "view_bits u = drop b q" "bsize u = length q - b" using uok(2,3) w(3,4) by simp_all
    have cmp: "compare_common_bits host (suffix_view r) u =
        Inr \<lparr>common_bits = lcp (view_bits (suffix_view r)) (drop b q), order = lex (view_bits (suffix_view r)) (drop b q)\<rparr>"
      using compare_common_bits_spec [OF v uok(1), of host] by (simp only: ub(1))
    define l where "l = lcp (view_bits (suffix_view r)) (drop b q)"
    have l: "l \<le> bsize (suffix_view r)" using lcp_le(1) length_view_bits [OF v] by (metis l_def)
    have add: "profile_add b l = Inr (b + l)" using l n by (simp add: profile_add_def b_def)
    define c' where "c' = c\<lparr>context_common := b + l, context_order := lex (view_bits (suffix_view r)) (drop b q)\<rparr>"
    have "context_advance host p r c = Inr (c'\<lparr>context_units := key_units r, length_known := True\<rparr>,
        l + of_bool (l < min (bsize (suffix_view r)) (bsize u)))"
      unfolding context_advance_def using short mul True cm(1) w(1) u cmp add by (simp add: l_def c'_def)
    moreover have "describes p (c'\<lparr>context_units := key_units r, length_known := True\<rparr>) q k'"
      by (rule fin) (use ok ag in \<open>simp_all add: c'_def l_def\<close>)
    moreover have "l + of_bool (l < min (bsize (suffix_view r)) (bsize u)) \<le> bsize (suffix_view r)" using l by auto
    ultimately show "\<exists>c' work. context_advance host p r c = Inr (c', work) \<and> describes p c' q k' \<and>
        length_known c' \<and> work \<le> bsize (suffix_view r)" by fastforce
  next
    case False
    then have "lcp k' q = lcp k q" "lex k' q = lex k q"
      using inherit_differing [of k q b "view_bits (suffix_view r)"] r by (simp_all add: k'_def b_def)
    then have "describes p (c\<lparr>context_units := key_units r, length_known := True\<rparr>) q k'"
      using ok cm by (intro fin) simp_all
    moreover have "context_advance host p r c = Inr (c\<lparr>context_units := key_units r, length_known := True\<rparr>, 0)"
      unfolding context_advance_def using short mul False cm(1) by simp
    ultimately show "\<exists>c' work. context_advance host p r c = Inr (c', work) \<and> describes p c' q k' \<and>
        length_known c' \<and> work \<le> bsize (suffix_view r)" by fastforce
  qed
qed

lemma with_key_describes:
  assumes d: "context_ok p c q" and v: "view_ok v" "unit_multiple p (bsize v)" "bsize v \<le> u64_max"
  shows "\<exists>c'. with_key host p v c = Inr c' \<and> describes p c' q (view_bits v)"
proof -
  obtain w where w: "context_query c = Inr w" "view_ok w" "view_bits w = q"
    using context_query_ok [OF d] by blast
  show ?thesis
    using w(1) compare_common_bits_spec [OF v(1) w(2), of host] v d w(3)
    by (simp add: with_key_def describes_def length_view_bits units_exact)
qed

lemma context_predecessor_describes:
  assumes d: "describes p c q b" and le: "lex k b \<le> 0" "lex b q \<le> 0"
    and k: "length k \<le> u64_max" "unit_multiple p (length k)"
  shows "\<exists>c'. context_predecessor p (lcp k b) c = Inr c' \<and> describes p c' q k"
proof -
  have ok: "context_ok p c q" and cm: "context_common c = lcp b q" "context_order c = lex b q"
    using d by (simp_all add: describes_def)
  have btw: "lcp k q = min (lcp k b) (lcp b q)" "lex k q \<le> 0" using lcp_between [OF le] by simp_all
  obtain w where w: "context_query c = Inr w" "bsize w = length q" using context_query_ok [OF ok] by blast
  have fits: "(if length_known c then bindE (profile_multiply (context_units c) (bits_per_unit p)) (\<lambda>n. Inr (lcp k b > n))
      else Inr False) = Inr False"
  proof (cases "length_known c")
    case True
    then have "context_units c * bits_per_unit p = length b" "length b \<le> u64_max" using d by (simp_all add: describes_def)
    then show ?thesis using True multiply_units [of "context_units c" p] lcp_le(2) [of k b] by (simp add: not_less)
  qed simp
  define known where "known \<longleftrightarrow> lcp k q = length q"
  have go: "context_predecessor p (lcp k b) c = Inr (c\<lparr>context_common := lcp k q, length_known := known,
      context_units := (if known then length q div bits_per_unit p else 0), context_order := (if known then 0 else -1)\<rparr>)"
    using fits cm le(2) w by (simp add: context_predecessor_def Let_def btw(1) known_def)
  have eq: "k = q" if "known"
  proof -
    have e: "take (length q) k = q" "length q \<le> length k"
      using take_lcp_split [of "length q" k q] that by (simp_all add: known_def)
    then have "lcp k q = min (length k) (length q)" using that by (simp add: known_def)
    from lex_prefix_order [OF this] btw(2) e(2) have "length k = length q" by (auto split: if_splits)
    then show ?thesis using e(1) by simp
  qed
  have "lex k q = (if known then 0 else -1)"
  proof (cases known)
    case True
    then show ?thesis using eq by simp
  next
    case False
    then have "k \<noteq> q" by (auto simp: known_def)
    then show ?thesis using False btw(2) lex_range [of k q] lex_eq_0 [of k q] by auto
  qed
  then show ?thesis
    unfolding go using ok k eq by (auto simp: describes_def units_exact context_ok_def)
qed

lemma sum_parts_total: "acc + sum_list (map bsize parts) \<le> u64_max \<Longrightarrow>
    sum_parts acc parts = Inr (acc + sum_list (map bsize parts))"
  by (induction parts arbitrary: acc) (auto simp: profile_add_def)

lemma compare_parts_spec:
  assumes w: "view_ok w" "view_bits w = q"
  shows "at \<le> length q \<Longrightarrow> (\<forall>v\<in>set parts. view_ok v) \<Longrightarrow>
    \<exists>at' ord work. compare_parts host w at n parts = Inr (at', ord, work) \<and>
      at' = at + lcp (concat (map view_bits parts)) (drop at q) \<and>
      (if ord \<noteq> 0 then ord = lex (concat (map view_bits parts)) (drop at q)
       else at' = at + length (concat (map view_bits parts))) \<and>
      work \<le> n + length (concat (map view_bits parts))"
proof (induction parts arbitrary: at n)
  case (Cons v parts)
  have len: "length q = bsize w" using w length_view_bits by blast
  have v: "view_ok v" using Cons.prems(2) by simp
  define avail where "avail = bsize w - at"
  obtain u where u: "subview w at avail = Inr u" using Cons.prems(1) len by (simp add: subview_def avail_def)
  note uok = subview_Inr [OF w(1) u]
  have ub: "view_bits u = drop at q" "bsize u = avail" using uok(2,3) w(2) len by (simp_all add: avail_def)
  obtain x where x: "bprefix u (min (bsize v) avail) = Inr x" "view_ok x" "view_bits x = take (min (bsize v) avail) (drop at q)"
    using bprefix_ok [OF uok(1), of "min (bsize v) avail"] unfolding ub(1) by blast
  define vb l where "vb = view_bits v" and "l = lcp vb (view_bits x)"
  have lv: "length vb = bsize v" using length_view_bits [OF v] by (simp add: vb_def)
  have cmp: "compare_common_bits host v x = Inr \<lparr>common_bits = l, order = lex vb (view_bits x)\<rparr>"
    using compare_common_bits_spec [OF v x(2), of host] by (simp add: l_def vb_def)
  have l: "l \<le> min (bsize v) avail"
  proof -
    have "length (view_bits x) \<le> min (bsize v) avail" unfolding x(3) length_take by (rule min.cobounded2)
    then show ?thesis using lcp_le [of vb "view_bits x", folded l_def] lv by simp
  qed
  define n' where "n' = n + l + of_bool (l < min (bsize v) avail)"
  have work: "n' \<le> n + length vb" using l unfolding n'_def lv by auto
  have step: "compare_parts host w at n (v # parts) =
      (if lex vb (view_bits x) \<noteq> 0 then Inr (at + l, lex vb (view_bits x), n') else compare_parts host w (at + l) n' parts)"
    using u x(1) cmp by (simp add: Let_def n'_def flip: avail_def)
  have dl: "length (drop at q) = avail" using len by (simp add: avail_def)
  show ?case
  proof (cases "vb = view_bits x")
    case True
    then have lb: "l = bsize v" "bsize v \<le> avail" using l lv x(3) dl by (auto simp: l_def)
    then have pre: "drop at q = vb @ drop (at + l) q"
      using True x(3) lb by (metis append_take_drop_id drop_drop add.commute min_absorb1)
    have at: "at + l \<le> length q" using lb Cons.prems(1) len by (simp add: avail_def)
    have parts: "\<forall>v\<in>set parts. view_ok v" using Cons.prems(2) by simp
    obtain at' ord work' where ih: "compare_parts host w (at + l) n' parts = Inr (at', ord, work')"
      "at' = at + l + lcp (concat (map view_bits parts)) (drop (at + l) q)"
      "if ord \<noteq> 0 then ord = lex (concat (map view_bits parts)) (drop (at + l) q)
       else at' = at + l + length (concat (map view_bits parts))"
      "work' \<le> n' + length (concat (map view_bits parts))"
      using Cons.IH [OF at parts, of n'] by blast
    have c: "concat (map view_bits (v # parts)) = vb @ concat (map view_bits parts)" by (simp add: vb_def)
    have "lcp (vb @ concat (map view_bits parts)) (drop at q) = l + lcp (concat (map view_bits parts)) (drop (at + l) q)"
      "lex (vb @ concat (map view_bits parts)) (drop at q) = lex (concat (map view_bits parts)) (drop (at + l) q)"
      unfolding pre using lv lb(1) by (simp_all add: lcp_append lex_append)
    moreover have "lex vb (view_bits x) = 0" using True by simp
    ultimately show ?thesis unfolding step c using ih work lv lb(1) by auto
  next
    case False
    then have ne: "lex vb (view_bits x) \<noteq> 0" by (simp add: lex_eq_0)
    have c: "concat (map view_bits (v # parts)) = vb @ concat (map view_bits parts)" by (simp add: vb_def)
    let ?m = "min (bsize v) avail"
    have q: "drop at q = view_bits x @ drop ?m (drop at q)" unfolding x(3) by (rule append_take_drop_id [symmetric])
    have lx: "length (view_bits x) = ?m" unfolding x(3) using dl by (simp add: min_def)
    have "lcp (vb @ ys) (drop at q) = l \<and> lex (vb @ ys) (drop at q) = lex vb (view_bits x)" for ys
    proof (cases "bsize v \<le> avail")
      case True
      then have "length vb = length (view_bits x)" using lx lv by simp
      then show ?thesis by (subst (1 2) q) (simp add: lcp_append lex_append False l_def)
    next
      case F: False
      then have m: "?m = avail" by simp
      have q': "drop at q = view_bits x" unfolding x(3) m using dl by simp
      define a b where "a = take avail vb" and "b = drop avail vb"
      have ab: "vb = a @ b" "length a = length (view_bits x)" "b \<noteq> []"
        using F lv lx m by (simp_all add: a_def b_def)
      have "lcp (a @ zs) (view_bits x) = lcp a (view_bits x)" "lex (a @ z # zs) (view_bits x) = (if a = view_bits x then 1 else lex a (view_bits x))"
        for z zs using ab(2) lcp_append [of a "view_bits x" zs "[]"] lex_append [of a "view_bits x" "z # zs" "[]"] by auto
      then show ?thesis
        unfolding q' l_def ab(1) append_assoc using ab(3) by (cases b) auto
    qed
    then show ?thesis unfolding step c using ne work l lv by auto
  qed
qed simp

lemma advance_parts_describes:
  assumes d: "describes p c q k" and v: "\<forall>v\<in>set literal. view_ok v"
    and r: "r \<le> length k" and n: "r + sum_list (map bsize literal) = full" "full \<le> u64_max" "unit_multiple p full"
  shows "\<exists>c' work. advance_parts host p r full literal c = Inr (c', work) \<and>
    describes p c' q (take r k @ concat (map view_bits literal)) \<and> length_known c' \<and> work \<le> sum_list (map bsize literal)"
proof -
  define ls k' where "ls = concat (map view_bits literal)" and "k' = take r k @ concat (map view_bits literal)"
  have lls: "length ls = sum_list (map bsize literal)"
    unfolding ls_def using v by (induction literal) (auto simp: length_view_bits)
  then have lk: "length k' = full" using n(1) r by (simp add: k'_def ls_def)
  have ok: "context_ok p c q" and cm: "context_common c = lcp k q" "context_order c = lex k q"
    using d by (simp_all add: describes_def)
  have guard: "\<not> (\<not> unit_multiple p full \<or> r > full \<or> (length_known c \<and> r > unit_bits p (context_units c)))"
  proof -
    have "unit_bits p (context_units c) = length k" if "length_known c"
      using d that by (simp add: describes_def unit_bits_def u64_max_def)
    then show ?thesis using n r by auto
  qed
  have total: "sum_parts r literal = Inr full" using sum_parts_total [of r literal] n by simp
  have fin: "describes p (c'\<lparr>context_units := full div bits_per_unit p, length_known := True\<rparr>) q k'"
    if "context_ok p c' q" "context_common c' = lcp k' q" "context_order c' = lex k' q" for c'
    using that lk n units_exact [OF n(3)] by (simp add: describes_def)
  show ?thesis unfolding ls_def [symmetric] lls [symmetric]
  proof (cases "lcp k q \<ge> r")
    case True
    note ag = inherit_agreeing [OF True, of ls, folded k'_def [folded ls_def]]
    obtain w where w: "context_query c = Inr w" "view_ok w" "view_bits w = q" "bsize w = length q"
      using context_query_ok [OF ok] by blast
    have rq: "r \<le> length q" using take_lcp_split(3) [OF True] .
    obtain at' ord work where cp: "compare_parts host w r 0 literal = Inr (at', ord, work)"
      "at' = r + lcp ls (drop r q)" "if ord \<noteq> 0 then ord = lex ls (drop r q) else at' = r + length ls" "work \<le> 0 + length ls"
      using compare_parts_spec [OF w(2,3) rq v, of host 0] unfolding ls_def by blast
    have order: "(if ord \<noteq> 0 then ord else if full < bsize w then -1 else if full > bsize w then 1 else 0) = lex k' q"
    proof (cases "ord = 0")
      case False
      then show ?thesis using cp(3) ag(2) by simp
    next
      case z: True
      then have "lcp ls (drop r q) = length ls" using cp(2,3) by simp
      then have "lcp ls (drop r q) = min (length ls) (length (drop r q))" using lcp_le(2) [of ls "drop r q"] by simp
      from lex_prefix_order [OF this] have "lex k' q = (if length ls < length q - r then -1 else if length ls > length q - r then 1 else 0)"
        unfolding ag(2) by simp
      moreover have "full = r + length ls" using n(1) lls by simp
      ultimately show ?thesis using z w(4) rq by auto
    qed
    define c' where "c' = c\<lparr>context_common := at', context_order := lex k' q\<rparr>"
    have "advance_parts host p r full literal c =
        Inr (c'\<lparr>context_units := full div bits_per_unit p, length_known := True\<rparr>, work)"
      unfolding advance_parts_def using guard total True cm(1) w(1) cp(1) order by (simp add: c'_def)
    moreover have "describes p (c'\<lparr>context_units := full div bits_per_unit p, length_known := True\<rparr>) q k'"
      by (rule fin) (use ok ag cp(2) in \<open>simp_all add: c'_def\<close>)
    ultimately show "\<exists>c' work. advance_parts host p r full literal c = Inr (c', work) \<and> describes p c' q (take r k @ ls) \<and>
        length_known c' \<and> work \<le> length ls"
      using cp(4) unfolding k'_def ls_def [symmetric] by fastforce
  next
    case False
    then have "lcp k' q = lcp k q" "lex k' q = lex k q"
      using inherit_differing [of k q r ls] r by (simp_all add: k'_def ls_def)
    then have "describes p (c\<lparr>context_units := full div bits_per_unit p, length_known := True\<rparr>) q k'"
      using ok cm by (intro fin) simp_all
    moreover have "advance_parts host p r full literal c = Inr (c\<lparr>context_units := full div bits_per_unit p, length_known := True\<rparr>, 0)"
      unfolding advance_parts_def using guard total False cm(1) by simp
    ultimately show "\<exists>c' work. advance_parts host p r full literal c = Inr (c', work) \<and> describes p c' q (take r k @ ls) \<and>
        length_known c' \<and> work \<le> length ls"
      unfolding k'_def ls_def [symmetric] by fastforce
  qed
qed

section \<open>Anchored prefixes\<close>

lemma compare_profile_prefix_spec:
  assumes v: "view_ok (prefix_view a)" "view_ok w" and u: "unit_multiple p (bsize w)" "bsize w \<le> u64_max"
    and k: "length k = anchor_units a * bits_per_unit p" "view_bits (prefix_view a) = take (bsize (prefix_view a)) k"
      "unit_multiple p (bsize (prefix_view a))" "min (length k) (bsize w) \<le> bsize (prefix_view a)"
  shows "compare_profile_prefix host p a w = Inr (lex k (view_bits w))"
proof -
  define m where "m = min (length k) (bsize w)"
  have bw: "bsize w div bits_per_unit p * bits_per_unit p = bsize w" by (rule units_exact [OF u(1)])
  have m: "min (anchor_units a) (bsize w div bits_per_unit p) * bits_per_unit p = m"
    using bw by (simp add: m_def k(1) nat_mult_min_left)
  have mul: "profile_multiply (min (anchor_units a) (bsize w div bits_per_unit p)) (bits_per_unit p) = Inr m"
    using multiply_units [of "min (anchor_units a) (bsize w div bits_per_unit p)" p] u(2) unfolding m by (simp add: m_def)
  obtain x where x: "bprefix (prefix_view a) m = Inr x" "view_ok x" "view_bits x = take m k"
    using bprefix_ok [OF v(1), of m] k(2,4) by (auto simp: m_def min_absorb1)
  obtain y where y: "bprefix w m = Inr y" "view_ok y" "view_bits y = take m (view_bits w)"
    using bprefix_ok [OF v(2), of m] by blast
  define q where "q = view_bits w"
  have lq: "length q = bsize w" using length_view_bits [OF v(2)] by (simp add: q_def)
  have cmp: "compare_bits host x y = Inr (lex (take m k) (take m q))"
    using compare_bits_spec [OF x(2) y(2), of host] x(3) y(3) by (simp add: q_def)
  have split: "lex k q = (if take m k = take m q then lex (drop m k) (drop m q) else lex (take m k) (take m q))"
    using lex_append [of "take m k" "take m q" "drop m k" "drop m q"] lq by (simp add: m_def)
  have tails: "lex (drop m k) (drop m q) = (if length k < bsize w then -1 else if length k > bsize w then 1 else 0)"
    using lq by (cases "drop m k"; cases "drop m q") (auto simp: m_def min_def split: if_splits)
  have units: "anchor_units a < bsize w div bits_per_unit p \<longleftrightarrow> length k < bsize w"
    "anchor_units a > bsize w div bits_per_unit p \<longleftrightarrow> length k > bsize w"
    using bw unfolding k(1) by (metis mult_less_cancel2 bits_per_unit_pos)+
  have "m \<le> bsize (prefix_view a)" using k(4) by (simp add: m_def)
  then show ?thesis
    unfolding compare_profile_prefix_def using u(1) k(3) mul x(1) y(1) cmp split tails units
    by (simp add: not_less lex_eq_0 flip: q_def)
qed

section \<open>Properties\<close>

text \<open>
  C33. Advancing a comparison never needs a key: if a context stands for the key \<open>k\<close> and the next
  record keeps a prefix of \<open>k\<close> and appends its suffix, then \<open>advance\<close> succeeds and the new context
  stands for exactly that next key (its order with the query, its agreement with it, its length),
  having compared at most the suffix.
\<close>

theorem advance_follows_keys:
  assumes "describes p c q k" "view_ok (suffix_view r)" "retained r * bits_per_unit p \<le> length k"
    and "key_units r * bits_per_unit p = retained r * bits_per_unit p + bsize (suffix_view r)"
    and "key_units r * bits_per_unit p \<le> u64_max"
  shows "\<exists>c' work. context_advance host p r c = Inr (c', work) \<and>
    describes p c' q (take (retained r * bits_per_unit p) k @ view_bits (suffix_view r)) \<and>
    length_known c' \<and> work \<le> bsize (suffix_view r)"
  using assms by (rule context_advance_describes)

lemma default_unit [simp]: "policy_unit default_policy = Byte"
  by (simp add: default_policy_def policy_unit_def registry_unit_def)

lemma advance_follows_keys_witness:
  "\<exists>c c' work. new_context True default_policy \<lparr>storage = [0x61, 0x62], offset = 0, bsize = 16\<rparr> = Inr c \<and>
     context_advance True default_policy \<lparr>retained = 0, key_units = 1, value_units = 0,
       suffix_view = \<lparr>storage = [0x61], offset = 0, bsize = 8\<rparr>, value_view = \<lparr>storage = [], offset = 0, bsize = 0\<rparr>,
       next_offset = 3\<rparr> c = Inr (c', work) \<and> context_common c' = 8 \<and> context_order c' = -1 \<and> work \<le> 8"
proof -
  let ?q = "\<lparr>storage = [0x61, 0x62], offset = 0, bsize = 16\<rparr> :: bit_view"
  let ?r = "\<lparr>retained = 0, key_units = 1, value_units = 0,
       suffix_view = \<lparr>storage = [0x61], offset = 0, bsize = 8\<rparr>, value_view = \<lparr>storage = [], offset = 0, bsize = 0\<rparr>,
       next_offset = 3\<rparr>"
  have "view_ok ?q" "bsize ?q \<le> u64_max - 7" "unit_multiple default_policy (bsize ?q)"
    by (simp_all add: view_ok_def u64_max_def unit_multiple_def)
  then obtain c where c: "new_context True default_policy ?q = Inr c" "describes default_policy c (view_bits ?q) []"
    using new_context_describes by blast
  obtain c' work where a: "context_advance True default_policy ?r c = Inr (c', work)"
    "describes default_policy c' (view_bits ?q) (take (retained ?r * bits_per_unit default_policy) [] @ view_bits (suffix_view ?r))"
    "work \<le> bsize (suffix_view ?r)"
    using advance_follows_keys [OF c(2), of ?r True] by (auto simp: view_ok_def u64_max_def)
  have "view_bits ?q = byte_bits 0x61 @ byte_bits 0x62" "view_bits (suffix_view ?r) = byte_bits 0x61"
    by (simp_all add: view_bits_def)
  then have "lcp (view_bits (suffix_view ?r)) (view_bits ?q) = 8" "lex (view_bits (suffix_view ?r)) (view_bits ?q) = -1"
    using lcp_append [of "byte_bits 0x61" "byte_bits 0x61" "[]" "byte_bits 0x62"]
      lex_append [of "byte_bits 0x61" "byte_bits 0x61" "[]" "byte_bits 0x62"]
    by (simp_all) (cases "byte_bits 0x62"; use length_byte_bits [of "0x62"] in simp)
  then show ?thesis using c(1) a by (auto simp: describes_def)
qed

text \<open>
  Stepping back without reading: when a context stands for a boundary key \<open>b\<close> at or below the
  query and the key \<open>k\<close> before it is known only by its common prefix with \<open>b\<close>, \<open>predecessor\<close>
  succeeds and the new context stands for \<open>k\<close>: its agreement with the query is the smaller of the
  two, and it equals the query exactly when all of the query is matched.
\<close>

theorem predecessor_without_key:
  assumes "describes p c q b" "lex k b \<le> 0" "lex b q \<le> 0" "length k \<le> u64_max" "unit_multiple p (length k)"
  shows "\<exists>c'. context_predecessor p (lcp k b) c = Inr c' \<and> describes p c' q k"
  using assms by (rule context_predecessor_describes)

lemma predecessor_without_key_witness:
  "\<exists>c c'. new_context False string_policy \<lparr>storage = [0xA0], offset = 0, bsize = 3\<rparr> = Inr c \<and>
     context_predecessor string_policy 0 c = Inr c' \<and> context_order c' = -1 \<and> \<not> length_known c'"
proof -
  let ?q = "\<lparr>storage = [0xA0], offset = 0, bsize = 3\<rparr> :: bit_view"
  have u: "unit_multiple string_policy n" for n
    by (simp add: unit_multiple_def bits_per_unit_def unit_shift_def string_policy_def policy_unit_def
        string_registry_def registry_unit_def text_sort_def)
  have q: "view_ok ?q" "bsize ?q \<le> u64_max - 7" by (simp_all add: view_ok_def u64_max_def)
  then obtain c where c: "new_context False string_policy ?q = Inr c" "describes string_policy c (view_bits ?q) []"
    using new_context_describes [OF q u] by blast
  have l: "length (view_bits ?q) = 3" using length_view_bits [OF q(1)] by simp
  then have "lex [] (view_bits ?q) = -1" by (cases "view_bits ?q") simp_all
  then obtain c' where p: "context_predecessor string_policy (lcp [] []) c = Inr c'" "describes string_policy c' (view_bits ?q) []"
    using predecessor_without_key [OF c(2), of "[]"] u by auto
  have "\<not> length_known c'"
    using p(1) c(2) l context_query_ok [of string_policy c "view_bits ?q"]
    by (auto simp: context_predecessor_def describes_def res_simps Let_def split: if_splits)
  then show ?thesis using c(1) p \<open>lex [] (view_bits ?q) = -1\<close> by (auto simp: describes_def)
qed

text \<open>
  An anchor compares like its key: a stored prefix of a key together with the key's length
  decides the order of the whole key and a query, as long as the prefix covers the shorter of
  the two.
\<close>

theorem anchor_compares_like_key:
  assumes "view_ok (prefix_view a)" "view_ok w" "unit_multiple p (bsize w)" "bsize w \<le> u64_max"
    and "length k = anchor_units a * bits_per_unit p" "view_bits (prefix_view a) = take (bsize (prefix_view a)) k"
    and "unit_multiple p (bsize (prefix_view a))" "min (length k) (bsize w) \<le> bsize (prefix_view a)"
  shows "compare_profile_prefix host p a w = Inr (lex k (view_bits w))"
  using assms by (rule compare_profile_prefix_spec)

lemma anchor_compares_like_key_witness:
  "compare_profile_prefix True default_policy
     \<lparr>prefix_view = \<lparr>storage = [0x61], offset = 0, bsize = 8\<rparr>, anchor_units = 2\<rparr>
     \<lparr>storage = [0x61], offset = 0, bsize = 8\<rparr> = Inr 1"
proof -
  let ?a = "\<lparr>prefix_view = \<lparr>storage = [0x61], offset = 0, bsize = 8\<rparr>, anchor_units = 2\<rparr>"
  let ?w = "\<lparr>storage = [0x61], offset = 0, bsize = 8\<rparr> :: bit_view"
  let ?k = "byte_bits 0x61 @ byte_bits 0x62"
  have "compare_profile_prefix True default_policy ?a ?w = Inr (lex ?k (view_bits ?w))"
    by (rule anchor_compares_like_key) (simp_all add: view_ok_def view_bits_def unit_multiple_def u64_max_def)
  moreover have "lex ?k (view_bits ?w) = 1"
    using lex_append [of "byte_bits 0x61" "byte_bits 0x61" "byte_bits 0x62" "[]"] length_byte_bits [of "0x62"]
    by (cases "byte_bits 0x62") (simp_all add: view_bits_def)
  ultimately show ?thesis by simp
qed

end
