(* ===== verification/SelectWord.thy ===== *)
theory SelectWord
  imports Policy
begin

text \<open>
  Selection in a machine word (\<open>select_word\<close> of \<open>elias_fano.h\<close>): the broadword algorithm counts
  the ones of all bytes at once, finds the byte by a marked subtraction and finishes inside it.
  The proof follows the digits of the word in base 256; what happens inside one byte is decided
  by evaluation over all bytes.
\<close>

section \<open>The algorithm\<close>

definition select_finish :: "u64 \<Rightarrow> u64 \<Rightarrow> nat \<Rightarrow> nat \<Rightarrow> nat" where
  "select_finish x nibbles shift ordinal =
     (let lower = unat (drop_bit shift nibbles AND 15);
          step = of_bool (ordinal \<ge> lower);
          shift = shift + step * 4;
          ordinal = ordinal - step * lower;
          bits = unat (drop_bit shift x AND 15);
          lower = bits mod 2 + bits div 2 mod 2;
          step = of_bool (ordinal \<ge> lower);
          shift = shift + step * 2;
          ordinal = ordinal - step * lower
      in shift + ordinal + of_bool (drop_bit shift x AND 1 = 0))"

definition select_word :: "u64 \<Rightarrow> nat \<Rightarrow> nat" where
  "select_word x ordinal =
     (let pairs = x - (drop_bit 1 x AND 0x5555555555555555);
          nibbles = (pairs AND 0x3333333333333333) + (drop_bit 2 pairs AND 0x3333333333333333);
          bytes = (nibbles + drop_bit 4 nibbles) AND 0x0f0f0f0f0f0f0f0f;
          prefixes = bytes * 0x0101010101010101;
          marked = ((prefixes OR 0x8080808080808080) -
                     of_nat (ordinal + 1) * 0x0101010101010101) AND 0x8080808080808080;
          shift = countr_zero marked - countr_zero marked mod 8;
          ordinal = (if shift \<noteq> 0 then ordinal - unat (drop_bit (shift - 8) prefixes AND 255) else ordinal)
      in select_finish x nibbles shift ordinal)"

text \<open>Its specification: the positions of the ones, in order.\<close>

definition ones :: "u64 \<Rightarrow> nat list" where
  "ones x = filter (bit x) [0..<64]"

definition popcount :: "u64 \<Rightarrow> nat" where
  "popcount x = length (ones x)"

section \<open>Digits in base 256\<close>

fun dig :: "nat list \<Rightarrow> nat" where
  "dig [] = 0"
| "dig (d # ds) = d + 256 * dig ds"

abbreviation bytes_ok :: "nat list \<Rightarrow> bool" where
  "bytes_ok ds \<equiv> \<forall>d\<in>set ds. d < 256"

lemma dig_less: "bytes_ok ds \<Longrightarrow> dig ds < 256 ^ length ds"
proof (induction ds)
  case (Cons d ds)
  then have "dig ds + 1 \<le> 256 ^ length ds" "d < 256" by simp_all
  then have "256 * (dig ds + 1) \<le> 256 * 256 ^ length ds" by (intro mult_left_mono) simp_all
  then show ?case using \<open>d < 256\<close> by simp
qed simp

lemma dig_add: "length xs = length ys \<Longrightarrow> dig xs + dig ys = dig (map2 (+) xs ys)"
  by (induction xs ys rule: list_induct2) simp_all

lemma dig_sub: "length xs = length ys \<Longrightarrow> list_all2 (\<le>) ys xs \<Longrightarrow> dig xs - dig ys = dig (map2 (-) xs ys) \<and> dig ys \<le> dig xs"
  by (induction xs ys rule: list_induct2) auto

lemma and_digit:
  fixes d e D E :: nat
  assumes "d < 2 ^ k" "e < 2 ^ k"
  shows "(d + 2 ^ k * D) AND (e + 2 ^ k * E) = (d AND e) + 2 ^ k * (D AND E)"
proof (rule bit_eqI)
  fix n
  have b: "bit (a + 2 ^ k * A) n \<longleftrightarrow> (if n < k then bit a n else bit A (n - k))" if "a < 2 ^ k" for a A :: nat
  proof (cases "n < k")
    case True
    have "take_bit k (a + 2 ^ k * A) = a" using that by (simp add: take_bit_eq_mod)
    then show ?thesis using True by (metis bit_take_bit_iff)
  next
    case False
    have "drop_bit k (a + 2 ^ k * A) = A" using that by (simp add: drop_bit_eq_div)
    then have "bit A (n - k) = bit (drop_bit k (a + 2 ^ k * A)) (n - k)" by simp
    then show ?thesis using False by (simp add: bit_drop_bit_eq del: drop_bit_eq_div)
  qed
  have "take_bit k (d AND e) = d AND e"
    using assms by (simp add: take_bit_and take_bit_nat_eq_self)
  then have "d AND e < 2 ^ k" using take_bit_nat_eq_self_iff [of k "d AND e"] by simp
  then show "bit ((d + 2 ^ k * D) AND (e + 2 ^ k * E)) n \<longleftrightarrow> bit ((d AND e) + 2 ^ k * (D AND E)) n"
    using assms by (simp add: bit_and_iff b)
qed

lemma dig_and: "length xs = length ys \<Longrightarrow> bytes_ok xs \<Longrightarrow> bytes_ok ys \<Longrightarrow> dig xs AND dig ys = dig (map2 (AND) xs ys)"
  by (induction xs ys rule: list_induct2) (use and_digit [where k = 8] in simp_all)

lemma dig_append: "dig (xs @ ys) = dig xs + 256 ^ length xs * dig ys"
  by (induction xs) (simp_all add: algebra_simps)

lemma dig_drop: "bytes_ok ds \<Longrightarrow> dig ds div 256 ^ n = dig (drop n ds)"
proof (cases "n \<le> length ds")
  case True
  assume ok: "bytes_ok ds"
  have "dig ds = dig (take n ds) + 256 ^ n * dig (drop n ds)"
    using dig_append [of "take n ds" "drop n ds"] True by simp
  moreover have "dig (take n ds) < 256 ^ n" using dig_less [of "take n ds"] ok True by (auto dest: in_set_takeD)
  ultimately show ?thesis by simp
next
  case False
  assume "bytes_ok ds"
  then have "dig ds < 256 ^ length ds" by (rule dig_less)
  also have "\<dots> \<le> 256 ^ n" using False by (intro power_increasing) simp_all
  finally show ?thesis using False by simp
qed

text \<open>A shift by less than a byte borrows the low bits of the next digit.\<close>

lemma dig_shift:
  assumes "s \<le> 8"
  shows "bytes_ok ds \<Longrightarrow> dig ds div 2 ^ s = dig (map2 (\<lambda>b c. b div 2 ^ s + 2 ^ (8 - s) * (c mod 2 ^ s)) ds (tl ds @ [0]))"
proof (induction ds)
  case (Cons d ds)
  have p: "(256 :: nat) = 2 ^ (8 - s) * 2 ^ s" using assms by (simp flip: power_add)
  have split: "dig ds = 2 ^ s * (dig ds div 2 ^ s) + dig ds mod 2 ^ s" by simp
  have low: "dig ds mod 2 ^ s = (case ds of [] \<Rightarrow> 0 | c # _ \<Rightarrow> c mod 2 ^ s)"
  proof (cases ds)
    case (Cons c cs)
    have "(2 :: nat) ^ s dvd 256 * dig cs" unfolding p by simp
    then show ?thesis by (simp add: Cons mod_add_right_eq [symmetric])
  qed simp
  have "(d + 256 * dig ds) div 2 ^ s = d div 2 ^ s + 2 ^ (8 - s) * dig ds"
    unfolding p by (simp add: mult.assoc mult.left_commute [of _ "2 ^ s"])
  also have "\<dots> = d div 2 ^ s + 2 ^ (8 - s) * (dig ds mod 2 ^ s) + 256 * (dig ds div 2 ^ s)"
  proof -
    have "2 ^ (8 - s) * dig ds = 2 ^ (8 - s) * (2 ^ s * (dig ds div 2 ^ s) + dig ds mod 2 ^ s)"
      by (rule arg_cong [OF split])
    then show ?thesis unfolding p by (simp only: distrib_left mult.assoc add.assoc add.commute)
  qed
  finally show ?case using Cons low by (cases ds) simp_all
qed simp

section \<open>Inside a byte\<close>

definition pair_counts :: "nat \<Rightarrow> nat" where
  "pair_counts b = b - (b div 2 AND 0x55)"

definition nibble_counts :: "nat \<Rightarrow> nat" where
  "nibble_counts b = (pair_counts b AND 0x33) + (pair_counts b div 4 AND 0x33)"

text \<open>Positions of the ones among the low \<open>w\<close> bits.\<close>

definition low_ones :: "nat \<Rightarrow> nat \<Rightarrow> nat list" where
  "low_ones w n = filter (\<lambda>j. odd (n div 2 ^ j)) [0..<w]"

definition in_nibble :: "nat \<Rightarrow> nat \<Rightarrow> nat" where
  "in_nibble n k = (let lower = n mod 2 + n div 2 mod 2; step = of_bool (k \<ge> lower); k = k - step * lower in
     step * 2 + k + of_bool (n div 2 ^ (step * 2) mod 2 = 0))"

lemma in_nibble_correct: "n < 16 \<Longrightarrow> k < length (low_ones 4 n) \<Longrightarrow> in_nibble n k = low_ones 4 n ! k"
proof -
  assume n: "n < 16" "k < length (low_ones 4 n)"
  have "\<forall>n\<in>set [0..<16]. \<forall>k\<in>set [0..<length (low_ones 4 n)]. in_nibble n k = low_ones 4 n ! k"
    by code_simp
  then show ?thesis using n by simp
qed

definition nibble_pairs :: "nat \<Rightarrow> nat" where
  "nibble_pairs n = n - (n div 2 AND 5)"

lemma nibble_facts:
  assumes "n < 16"
  shows "x < 2 \<Longrightarrow> (n div 2 + 8 * x) AND 5 = n div 2 AND 5" "n div 2 AND 5 \<le> n" "nibble_pairs n < 16"
    "x < 4 \<Longrightarrow> (nibble_pairs n div 4 + 4 * x) AND 3 = nibble_pairs n div 4 AND 3"
    "(nibble_pairs n AND 3) + (nibble_pairs n div 4 AND 3) = length (low_ones 4 n)"
proof -
  have "\<forall>n\<in>set [0..<16]. \<forall>x\<in>set [0..<2]. (n div 2 + 8 * x) AND 5 = (n div 2 AND 5 :: nat)" by code_simp
  then show "x < 2 \<Longrightarrow> (n div 2 + 8 * x) AND 5 = n div 2 AND 5" using assms by simp
  have "\<forall>n\<in>set [0..<16]. (n div 2 AND 5 :: nat) \<le> n \<and> nibble_pairs n < 16" by code_simp
  then show "n div 2 AND 5 \<le> n" "nibble_pairs n < 16" using assms by simp_all
  have "\<forall>n\<in>set [0..<16]. \<forall>x\<in>set [0..<4]. (nibble_pairs n div 4 + 4 * x) AND 3 = nibble_pairs n div 4 AND 3" by code_simp
  then show "x < 4 \<Longrightarrow> (nibble_pairs n div 4 + 4 * x) AND 3 = nibble_pairs n div 4 AND 3" using assms by simp
  have "\<forall>n\<in>set [0..<16]. (nibble_pairs n AND 3) + (nibble_pairs n div 4 AND 3) = length (low_ones 4 n)" by code_simp
  then show "(nibble_pairs n AND 3) + (nibble_pairs n div 4 AND 3) = length (low_ones 4 n)" using assms by simp
qed

lemma byte_counts:
  assumes "b < 256"
  shows "b div 2 AND 0x55 \<le> b" "pair_counts b < 256"
    "nibble_counts b = length (low_ones 4 (b mod 16)) + 16 * length (low_ones 4 (b div 16))"
proof -
  define l h where "l = b mod 16" and "h = b div 16"
  have b: "b = l + 16 * h" and lh: "l < 16" "h < 16" using assms by (simp_all add: l_def h_def)
  note l = nibble_facts [OF lh(1)] and h = nibble_facts [OF lh(2)]
  have "b div 2 = (l div 2 + 8 * (h mod 2)) + 2 ^ 4 * (h div 2)" unfolding b by simp presburger
  moreover have "(0x55 :: nat) = 5 + 2 ^ 4 * 5" by simp
  moreover have "l div 2 + 8 * (h mod 2) < 2 ^ 4" using lh(1) by simp
  ultimately have five: "b div 2 AND 0x55 = (l div 2 AND 5) + 16 * (h div 2 AND 5)"
    using and_digit [of "l div 2 + 8 * (h mod 2)" 4 5 "h div 2" 5] l(1) [of "h mod 2"] by simp
  then show "b div 2 AND 0x55 \<le> b" unfolding b using l(2) h(2) by simp
  have pc: "pair_counts b = nibble_pairs l + 2 ^ 4 * nibble_pairs h"
    unfolding pair_counts_def five unfolding nibble_pairs_def b using l(2) h(2) by simp
  then show "pair_counts b < 256" using l(3) h(3) by simp
  have div4: "(x + 16 * y) div 4 = x div 4 + 4 * (y mod 4) + 16 * (y div 4)" for x y :: nat
  proof -
    have "(x + 16 * y) div 4 = x div 4 + 4 * y" using div_mult_self2 [of 4 x "4 * y"] by simp
    moreover have "y = y mod 4 + 4 * (y div 4)" by simp
    ultimately show ?thesis by linarith
  qed
  have "pair_counts b AND 0x33 = (nibble_pairs l AND 3) + 16 * (nibble_pairs h AND 3)"
    using and_digit [of "nibble_pairs l" 4 3 "nibble_pairs h" 3] l(3) unfolding pc by simp
  moreover have "pair_counts b div 4 = (nibble_pairs l div 4 + 4 * (nibble_pairs h mod 4)) + 2 ^ 4 * (nibble_pairs h div 4)"
    using div4 unfolding pc by simp
  then have "pair_counts b div 4 AND 0x33 = (nibble_pairs l div 4 AND 3) + 16 * (nibble_pairs h div 4 AND 3)"
    using and_digit [of "nibble_pairs l div 4 + 4 * (nibble_pairs h mod 4)" 4 3 "nibble_pairs h div 4" 3] l(3)
      l(4) [of "nibble_pairs h mod 4"] by simp
  ultimately have "nibble_counts b = ((nibble_pairs l AND 3) + (nibble_pairs l div 4 AND 3)) +
      16 * ((nibble_pairs h AND 3) + (nibble_pairs h div 4 AND 3))"
    by (simp add: nibble_counts_def)
  then show "nibble_counts b = length (low_ones 4 (b mod 16)) + 16 * length (low_ones 4 (b div 16))"
    using l(5) h(5) by (simp add: l_def h_def)
qed

lemma low_ones_append: "low_ones (v + w) n = low_ones v (n mod 2 ^ v) @ map ((+) v) (low_ones w (n div 2 ^ v))"
proof -
  have lo: "filter (\<lambda>j. odd (n div 2 ^ j)) [0..<v] = low_ones v (n mod 2 ^ v)"
    unfolding low_ones_def
  proof (rule filter_cong [OF refl])
    fix j assume "j \<in> set [0..<v]"
    then have "bit (take_bit v n) j = bit n j" by (simp add: bit_take_bit_iff)
    then show "odd (n div 2 ^ j) = odd (n mod 2 ^ v div 2 ^ j)" by (simp only: bit_iff_odd take_bit_eq_mod)
  qed
  have "[v..<v + w] = map ((+) v) [0..<w]" by (intro nth_equalityI) simp_all
  then have "filter (\<lambda>j. odd (n div 2 ^ j)) [v..<v + w] = map ((+) v) (low_ones w (n div 2 ^ v))"
    by (simp add: filter_map low_ones_def comp_def power_add div_mult2_eq)
  then show ?thesis using lo upt_add_eq_append [of 0 v w] by (simp add: low_ones_def)
qed

lemma length_low_ones: "length (low_ones w n) \<le> w"
  unfolding low_ones_def using length_filter_le [of _ "[0..<w]"] by simp

section \<open>Words as eight bytes\<close>

definition rep :: "u64 \<Rightarrow> nat list \<Rightarrow> bool" where
  "rep x ds \<longleftrightarrow> unat x = dig ds \<and> length ds = 8 \<and> bytes_ok ds"

lemma rep_exists: "\<exists>ds. rep x ds"
proof -
  have "\<exists>ds. n = dig ds \<and> length ds = k \<and> bytes_ok ds" if "n < 256 ^ k" for n k
    using that
  proof (induction k arbitrary: n)
    case (Suc k)
    then have "n div 256 < 256 ^ k" by (simp add: less_mult_imp_div_less mult.commute)
    then obtain ds where ds: "n div 256 = dig ds" "length ds = k" "bytes_ok ds" using Suc.IH by blast
    have "n = dig (n mod 256 # ds)" by (simp flip: ds(1))
    then show ?case using ds by (intro exI [of _ "n mod 256 # ds"]) simp
  qed simp
  then show ?thesis using unsigned_less [of x, where 'a = nat] by (simp add: rep_def)
qed

lemma rep_eq: "rep x ds \<Longrightarrow> rep y ds \<Longrightarrow> x = y"
  by (simp add: rep_def word_unat_eq_iff)

lemma and_byte: "d < 256 \<Longrightarrow> d AND e < 256" for d e :: nat
proof -
  assume "d < 256"
  then have "take_bit 8 d = d" by (simp add: take_bit_nat_eq_self)
  moreover have "take_bit 8 (d AND e) = take_bit 8 d AND e" by (simp only: take_bit_eq_mask ac_simps)
  ultimately have "take_bit 8 (d AND e) = d AND e" by simp
  then show ?thesis using take_bit_nat_eq_self_iff [of 8 "d AND e"] by simp
qed

lemma rep_and: "rep x xs \<Longrightarrow> rep y ys \<Longrightarrow> rep (x AND y) (map2 (AND) xs ys)"
  unfolding rep_def by (auto simp: unsigned_and_eq dig_and and_byte dest!: set_zip_leftD)

lemma rep_add: "rep x xs \<Longrightarrow> rep y ys \<Longrightarrow> bytes_ok (map2 (+) xs ys) \<Longrightarrow> rep (x + y) (map2 (+) xs ys)"
proof -
  assume r: "rep x xs" "rep y ys" and ok: "bytes_ok (map2 (+) xs ys)"
  have e: "unat x + unat y = dig (map2 (+) xs ys)" using r by (simp add: rep_def dig_add)
  have "dig (map2 (+) xs ys) < 256 ^ 8" using dig_less [OF ok] r by (simp add: rep_def)
  then have "unat (x + y) = dig (map2 (+) xs ys)" using e by (subst unat_add_lem [THEN iffD1]) simp_all
  then show ?thesis using r ok by (simp add: rep_def)
qed

lemma rep_sub: "rep x xs \<Longrightarrow> rep y ys \<Longrightarrow> list_all2 (\<le>) ys xs \<Longrightarrow> rep (x - y) (map2 (-) xs ys)"
proof -
  assume r: "rep x xs" "rep y ys" and le: "list_all2 (\<le>) ys xs"
  have d: "dig xs - dig ys = dig (map2 (-) xs ys)" "dig ys \<le> dig xs"
    using dig_sub [of xs ys] r le by (simp_all add: rep_def)
  then have "y \<le> x" using r by (simp add: rep_def word_le_nat_alt)
  then have "unat (x - y) = dig (map2 (-) xs ys)" using d r by (simp add: unat_sub rep_def)
  moreover have "bytes_ok (map2 (-) xs ys)" using r by (auto simp: rep_def dest!: set_zip_leftD)
  ultimately show ?thesis using r by (simp add: rep_def)
qed

definition shifted :: "nat \<Rightarrow> nat \<Rightarrow> nat \<Rightarrow> nat" where
  "shifted s b c = b div 2 ^ s + 2 ^ (8 - s) * (c mod 2 ^ s)"

lemma rep_shift: "rep x xs \<Longrightarrow> s \<le> 8 \<Longrightarrow> rep (drop_bit s x) (map2 (shifted s) xs (tl xs @ [0]))"
proof -
  assume r: "rep x xs" and s: "s \<le> 8"
  have "unat (drop_bit s x) = unat x div 2 ^ s" unfolding unat_drop_bit_eq by (simp add: drop_bit_eq_div)
  then have "unat (drop_bit s x) = dig (map2 (shifted s) xs (tl xs @ [0]))"
    using r dig_shift [OF s, of xs] by (simp add: rep_def shifted_def)
  moreover have "shifted s b c < 256" if "b < 256" for b c
  proof -
    have p: "(256 :: nat) = 2 ^ (8 - s) * 2 ^ s" using s by (simp flip: power_add)
    have "b div 2 ^ s < 2 ^ (8 - s)" using that unfolding p by (simp add: less_mult_imp_div_less)
    moreover have "(c mod 2 ^ s + 1) * 2 ^ (8 - s) \<le> 2 ^ s * 2 ^ (8 - s)" by (intro mult_right_mono) (simp_all add: Suc_le_eq)
    ultimately show ?thesis unfolding p shifted_def by (simp add: algebra_simps)
  qed
  then have "bytes_ok (map2 (shifted s) xs (tl xs @ [0]))" using r by (auto simp: rep_def dest!: set_zip_leftD)
  ultimately show ?thesis using r by (simp add: rep_def)
qed

lemma replicate_8: "replicate 8 x = [x, x, x, x, x, x, x, x]"
  by (simp add: numeral_eq_Suc)

lemma rep_constants:
  "rep 0x5555555555555555 (replicate 8 0x55)" "rep 0x3333333333333333 (replicate 8 0x33)"
  "rep 0x0f0f0f0f0f0f0f0f (replicate 8 0x0f)" "rep 0x8080808080808080 (replicate 8 0x80)"
  by (simp_all add: rep_def replicate_8)

lemma eight:
  assumes "length xs = 8"
  obtains a b c d e f g h where "xs = [a, b, c, d, e, f, g, h]"
  using assms by (auto simp: length_Suc_conv numeral_eq_Suc)

lemma masked_shift:
  assumes "b < 256" "c < 256"
  shows "shifted 1 b c AND 0x55 = b div 2 AND 0x55" "shifted 2 b c AND 0x33 = b div 4 AND 0x33"
proof -
  have m: "x AND 0x55 = (x AND 127) AND 0x55" "x AND 0x33 = (x AND 63) AND 0x33" for x :: nat
    by (simp_all add: and.assoc)
  have t: "(n + 2 ^ k * y) AND mask k = n AND mask k" for n k y :: nat
    by (simp add: take_bit_eq_mask [symmetric] take_bit_eq_mod)
  have eq: "shifted 1 b c AND 127 = b div 2 AND 127" "shifted 2 b c AND 63 = b div 4 AND 63"
    using t [of "b div 2" 7 "c mod 2"] t [of "b div 4" 6 "c mod 4"]
    by (simp_all add: shifted_def mask_eq_exp_minus_1)
  show "shifted 1 b c AND 0x55 = b div 2 AND 0x55"
    unfolding m(1) [of "shifted 1 b c"] m(1) [of "b div 2"] eq(1) ..
  show "shifted 2 b c AND 0x33 = b div 4 AND 0x33"
    unfolding m(2) [of "shifted 2 b c"] m(2) [of "b div 4"] eq(2) ..
qed

section \<open>Counting all bytes at once\<close>

definition byte_count_ones :: "nat \<Rightarrow> nat" where
  "byte_count_ones b = length (low_ones 8 b)"

lemma low_ones_byte: "b < 256 \<Longrightarrow> low_ones 8 b = low_ones 4 (b mod 16) @ map ((+) 4) (low_ones 4 (b div 16))"
  using low_ones_append [of 4 4 b] by simp

lemma byte_count_ones: "b < 256 \<Longrightarrow> byte_count_ones b = nibble_counts b mod 16 + nibble_counts b div 16"
  using byte_counts(3) [of b] length_low_ones [of 4 "b mod 16"] length_low_ones [of 4 "b div 16"]
  by (simp add: byte_count_ones_def low_ones_byte)

lemma rep_pairs: "rep x bs \<Longrightarrow> rep (x - (drop_bit 1 x AND 0x5555555555555555)) (map pair_counts bs)"
proof -
  assume r: "rep x bs"
  then obtain a b c d e f g h where bs: "bs = [a, b, c, d, e, f, g, h]" by (auto simp: rep_def intro: eight)
  have l: "a < 256" "b < 256" "c < 256" "d < 256" "e < 256" "f < 256" "g < 256" "h < 256" using r by (simp_all add: rep_def bs)
  have "rep (drop_bit 1 x AND 0x5555555555555555) (map (\<lambda>b. b div 2 AND 0x55) bs)"
  proof -
    have "rep (drop_bit 1 x) (map2 (shifted 1) bs (tl bs @ [0]))" by (rule rep_shift [OF r]) simp
    from rep_and [OF this rep_constants(1)] show ?thesis using l masked_shift(1) by (simp add: bs replicate_8)
  qed
  from rep_sub [OF r this] show ?thesis
    using l byte_counts(1) by (simp add: bs pair_counts_def)
qed

lemma rep_nibbles:
  assumes "rep x bs" "pairs = x - (drop_bit 1 x AND 0x5555555555555555)"
  shows "rep ((pairs AND 0x3333333333333333) + (drop_bit 2 pairs AND 0x3333333333333333)) (map nibble_counts bs)"
proof -
  have r: "rep pairs (map pair_counts bs)" unfolding assms(2) by (rule rep_pairs [OF assms(1)])
  obtain a b c d e f g h where bs: "bs = [a, b, c, d, e, f, g, h]" using assms(1) by (auto simp: rep_def intro: eight)
  have l: "a < 256" "b < 256" "c < 256" "d < 256" "e < 256" "f < 256" "g < 256" "h < 256"
    using assms(1) by (simp_all add: rep_def bs)
  have n: "nibble_counts b < 256" if "b < 256" for b
    using byte_counts(3) [OF that] length_low_ones [of 4 "b mod 16"] length_low_ones [of 4 "b div 16"] by simp
  have "rep (drop_bit 2 pairs AND 0x3333333333333333) (map (\<lambda>b. pair_counts b div 4 AND 0x33) bs)"
  proof -
    have "rep (drop_bit 2 pairs) (map2 (shifted 2) (map pair_counts bs) (tl (map pair_counts bs) @ [0]))"
      by (rule rep_shift [OF r]) simp
    from rep_and [OF this rep_constants(2)] show ?thesis
      using l masked_shift(2) byte_counts(2) by (simp add: bs replicate_8)
  qed
  from rep_add [OF rep_and [OF r rep_constants(2)] this] show ?thesis
    using l n by (simp add: bs nibble_counts_def replicate_8)
qed

lemma rep_bytes:
  assumes r: "rep nibbles (map nibble_counts bs)" and b: "length bs = 8" "bytes_ok bs"
  shows "rep ((nibbles + drop_bit 4 nibbles) AND 0x0f0f0f0f0f0f0f0f) (map byte_count_ones bs)"
proof -
  obtain a b c d e f g h where bs: "bs = [a, b, c, d, e, f, g, h]" using b by (auto intro: eight)
  have l: "a < 256" "b < 256" "c < 256" "d < 256" "e < 256" "f < 256" "g < 256" "h < 256" using b by (simp_all add: bs)
  have n: "nibble_counts b mod 16 \<le> 4" "nibble_counts b div 16 \<le> 4" if "b < 256" for b
    using byte_counts(3) [OF that] length_low_ones [of 4 "b mod 16"] length_low_ones [of 4 "b div 16"] by simp_all
  define sm where "sm b k = nibble_counts b + shifted 4 (nibble_counts b) k" for b k
  have sm: "sm b k < 256" "sm b k AND 15 = byte_count_ones b" if "b < 256" "k mod 16 \<le> 4" for b k
  proof -
    have e: "sm b k = (nibble_counts b mod 16 + nibble_counts b div 16) + 16 * (nibble_counts b div 16 + k mod 16)"
      unfolding sm_def shifted_def using mult_div_mod_eq [of 16 "nibble_counts b"] by simp
    then show "sm b k < 256" using n [OF that(1)] that(2) by simp
    have "sm b k AND mask 4 = sm b k mod 2 ^ 4" by (simp only: take_bit_eq_mask [symmetric] take_bit_eq_mod)
    then have "sm b k AND 15 = sm b k mod 16" by (simp add: mask_eq_exp_minus_1)
    also have "\<dots> = nibble_counts b mod 16 + nibble_counts b div 16"
    proof -
      have u: "nibble_counts b mod 16 + nibble_counts b div 16 < 16" using n [OF that(1)] by simp
      show ?thesis unfolding e by (simp only: mod_mult_self2 mod_less [OF u])
    qed
    finally show "sm b k AND 15 = byte_count_ones b" using byte_count_ones [OF that(1)] by simp
  qed
  have "rep (drop_bit 4 nibbles) (map2 (shifted 4) (map nibble_counts bs) (tl (map nibble_counts bs) @ [0]))"
    by (rule rep_shift [OF r]) simp
  from rep_add [OF r this] have "rep (nibbles + drop_bit 4 nibbles)
      [sm a (nibble_counts b), sm b (nibble_counts c), sm c (nibble_counts d), sm d (nibble_counts e),
       sm e (nibble_counts f), sm f (nibble_counts g), sm g (nibble_counts h), sm h 0]"
    using sm(1) l n by (simp add: bs flip: sm_def)
  from rep_and [OF this rep_constants(3)] show ?thesis
    using sm(2) l n by (simp add: bs replicate_8)
qed

lemma rep_prefixes:
  assumes r: "rep x cs" and c: "\<forall>c\<in>set cs. c \<le> 8"
  shows "rep (x * 0x0101010101010101) (map (\<lambda>i. sum_list (take (i + 1) cs)) [0..<8])"
proof -
  obtain a b c d e f g h where cs: "cs = [a, b, c, d, e, f, g, h]" using r by (auto simp: rep_def intro: eight)
  have l: "a \<le> 8" "b \<le> 8" "c \<le> 8" "d \<le> 8" "e \<le> 8" "f \<le> 8" "g \<le> 8" "h \<le> 8" using assms(2) by (simp_all add: cs)
  let ?ps = "[a, a + b, a + b + c, a + b + c + d, a + b + c + d + e, a + b + c + d + e + f,
    a + b + c + d + e + f + g, a + b + c + d + e + f + g + h]"
  have ok: "bytes_ok ?ps" using l by simp
  have "dig cs * 0x0101010101010101 = dig ?ps + 2 ^ 64 * dig [b + c + d + e + f + g + h, c + d + e + f + g + h,
      d + e + f + g + h, e + f + g + h, f + g + h, g + h, h]"
    unfolding cs by (simp add: algebra_simps)
  then have "dig cs * 0x0101010101010101 mod 2 ^ 64 = dig ?ps mod 2 ^ 64" by (simp only: mod_mult_self2)
  moreover have "dig ?ps < 2 ^ 64" using dig_less [OF ok] by simp
  then have "dig ?ps mod 2 ^ 64 = dig ?ps" by (rule mod_less)
  ultimately have "dig cs * 0x0101010101010101 mod 2 ^ 64 = dig ?ps" by (rule trans)
  moreover have "unat (x * 0x0101010101010101) = unat x * 0x0101010101010101 mod 2 ^ 64"
    by (simp add: unat_word_ariths)
  ultimately have "rep (x * 0x0101010101010101) ?ps" using r ok by (simp add: rep_def)
  moreover have "map (\<lambda>i. sum_list (take (i + 1) cs)) [0..<8] = ?ps" by (simp add: cs upt_rec add.assoc)
  ultimately show ?thesis by simp
qed

section \<open>Reading digits back\<close>

lemma rep_high_digits: "rep x ds \<Longrightarrow> unat (drop_bit (8 * i) x) = dig (drop i ds)"
proof -
  assume r: "rep x ds"
  have "unat (drop_bit (8 * i) x) = unat x div 256 ^ i"
    unfolding unat_drop_bit_eq by (simp add: drop_bit_eq_div power_mult)
  then show ?thesis using r dig_drop [of ds i] by (simp add: rep_def)
qed

lemma dig_head: "i < length ds \<Longrightarrow> dig (drop i ds) = ds ! i + 256 * dig (drop (Suc i) ds)"
  by (simp add: Cons_nth_drop_Suc [symmetric])

lemma unat_and_mask: "unat (x AND mask k) = unat x mod 2 ^ k" for x :: u64
  by (simp only: unsigned_take_bit_eq flip: take_bit_eq_mask) (simp add: take_bit_eq_mod)

lemma rep_field:
  assumes "rep x ds" "i < 8" "k + j \<le> 8"
  shows "unat (drop_bit (8 * i + j) x AND mask k) = ds ! i div 2 ^ j mod 2 ^ k"
proof -
  have len: "i < length ds" "ds ! i < 256" using assms by (auto simp: rep_def)
  have e: "drop_bit (8 * i + j) x = drop_bit j (drop_bit (8 * i) x)" by (simp add: add.commute)
  have "unat (drop_bit (8 * i + j) x) = dig (drop i ds) div 2 ^ j"
    unfolding e unat_drop_bit_eq [of j] rep_high_digits [OF assms(1)] by (simp add: drop_bit_eq_div)
  also have "\<dots> = ds ! i div 2 ^ j + 2 ^ (8 - j) * dig (drop (Suc i) ds)"
  proof -
    have p: "(256 :: nat) = 2 ^ (8 - j) * 2 ^ j" using assms(3) by (simp flip: power_add)
    show ?thesis unfolding dig_head [OF len(1)] p by (simp add: mult.assoc mult.left_commute [of _ "2 ^ j"])
  qed
  finally have u: "unat (drop_bit (8 * i + j) x) = ds ! i div 2 ^ j + 2 ^ (8 - j) * dig (drop (Suc i) ds)" .
  have "(2 :: nat) ^ k dvd 2 ^ (8 - j)" using assms(3) by (intro le_imp_power_dvd) simp
  then have "2 ^ (8 - j) * dig (drop (Suc i) ds) mod 2 ^ k = 0" by auto
  then show ?thesis unfolding unat_and_mask u by (metis mod_add_right_eq add.right_neutral)
qed

lemma masks: "(255 :: u64) = mask 8" "(15 :: u64) = mask 4" "(1 :: u64) = mask 1"
  by (simp_all add: mask_eq_exp_minus_1)

lemma rep_bit:
  assumes "rep x ds" "i < 8" "j < 8"
  shows "bit x (8 * i + j) \<longleftrightarrow> odd (ds ! i div 2 ^ j)"
proof -
  have "bit x (8 * i + j) \<longleftrightarrow> bit (drop_bit (8 * i + j) x AND mask 1) 0"
    by (simp add: bit_and_iff bit_drop_bit_eq bit_mask_iff)
  also have "\<dots> \<longleftrightarrow> odd (unat (drop_bit (8 * i + j) x AND mask 1))"
    by (simp add: bit_unsigned_iff flip: bit_0)
  finally show ?thesis using rep_field [OF assms(1,2), of 1 j] assms(3) by simp
qed

lemma countr_zero_least:
  assumes "bit x k" "\<And>j. j < k \<Longrightarrow> \<not> bit x j"
  shows "countr_zero x = k"
proof -
  have k: "k < 64" using bit_imp_le_length [OF assms(1)] by simp
  let ?r = "rev (word_bits 64 x)"
  have r: "?r ! j = bit x j" if "j < 64" for j using that by (simp add: rev_nth nth_word_bits)
  have "takeWhile Not ?r = take k ?r"
    by (rule takeWhile_eq_take_P_nth) (use k r assms in auto)
  then show ?thesis using k by (simp add: countr_zero_def)
qed

lemma rep_mark:
  assumes r: "rep x ps" and p: "\<forall>p\<in>set ps. p \<le> 64" and k: "k < 64"
  shows "rep (((x OR 0x8080808080808080) - of_nat (k + 1) * 0x0101010101010101) AND 0x8080808080808080)
    (map (\<lambda>p. if k < p then 128 else 0) ps)"
proof -
  obtain a b c d e f g h where ps: "ps = [a, b, c, d, e, f, g, h]" using r by (auto simp: rep_def intro: eight)
  have l: "a \<le> 64" "b \<le> 64" "c \<le> 64" "d \<le> 64" "e \<le> 64" "f \<le> 64" "g \<le> 64" "h \<le> 64"
    using p by (simp_all add: ps)
  have hi: "n AND 128 = (if n \<ge> 128 then 128 else 0)" if "n < 256" for n :: nat
  proof -
    have "(n mod 128 + 2 ^ 7 * (n div 128)) AND (0 + 2 ^ 7 * 1) = (n mod 128 AND 0) + 2 ^ 7 * (n div 128 AND 1)"
      by (rule and_digit) simp_all
    then have "n AND 128 = 128 * (n div 128 AND 1)" by simp
    moreover have "n \<ge> 128 \<Longrightarrow> n div 128 = 1" using that by (intro div_nat_eqI) simp_all
    ultimately show ?thesis by simp
  qed
  have "rep (x AND 0x8080808080808080) (replicate 8 0)"
    using rep_and [OF r rep_constants(4)] l hi by (simp add: ps replicate_8)
  moreover have "rep 0 (replicate 8 0)" by (simp add: rep_def replicate_8)
  ultimately have "x AND 0x8080808080808080 = 0" by (rule rep_eq)
  then have o: "x OR 0x8080808080808080 = x + 0x8080808080808080" by (rule disjunctive_add_eq_or [symmetric])
  have high: "rep (x + 0x8080808080808080) (map (\<lambda>p. p + 128) ps)"
    using rep_add [OF r rep_constants(4)] l by (simp add: ps replicate_8)
  have low: "rep (of_nat (k + 1) * 0x0101010101010101) (replicate 8 (k + 1))"
  proof -
    have "unat (of_nat (k + 1) * 0x0101010101010101 :: u64) = (k + 1) * 0x0101010101010101"
    proof -
      have "of_nat (k + 1) * 0x0101010101010101 = (of_nat ((k + 1) * 0x0101010101010101) :: u64)" by simp
      moreover have "(k + 1) * 0x0101010101010101 < 2 ^ 64" using k by simp
      ultimately show ?thesis by (simp only: unat_of_nat_u64)
    qed
    then show ?thesis using k by (simp add: rep_def replicate_8)
  qed
  have "list_all2 (\<le>) (replicate 8 (k + 1)) (map (\<lambda>p. p + 128) ps)" using k by (simp add: ps replicate_8)
  from rep_sub [OF high low this] have "rep ((x OR 0x8080808080808080) - of_nat (k + 1) * 0x0101010101010101)
      (map2 (-) (map (\<lambda>p. p + 128) ps) (replicate 8 (k + 1)))"
    unfolding o .
  moreover have hk: "(127 + p - k) AND 128 = (if k < p then 128 else 0)" if "p \<le> 64" for p
    using hi [of "127 + p - k"] that k by auto
  then have "map2 (AND) (map2 (-) (map (\<lambda>p. p + 128) ps) (replicate 8 (k + 1))) (replicate 8 0x80) =
      map (\<lambda>p. if k < p then 128 else 0) ps"
    using l by (simp add: ps replicate_8)
  ultimately show ?thesis using rep_and [OF _ rep_constants(4)] by metis
qed

section \<open>Correctness\<close>

lemma low_ones_dig: "bytes_ok ds \<Longrightarrow> length (low_ones (8 * length ds) (dig ds)) = sum_list (map byte_count_ones ds)"
proof (induction ds)
  case (Cons d ds)
  have "low_ones (8 + 8 * length ds) (dig (d # ds)) = low_ones 8 d @ map ((+) 8) (low_ones (8 * length ds) (dig ds))"
    using low_ones_append [of 8 "8 * length ds" "dig (d # ds)"] Cons.prems by simp
  then show ?case using Cons by (simp add: byte_count_ones_def)
qed (simp add: low_ones_def)

lemma ones_low: "ones x = low_ones 64 (unat x)"
  by (simp add: ones_def low_ones_def bit_unsigned_iff flip: bit_iff_odd cong: filter_cong)

lemma ones_split:
  assumes r: "rep x bs" and i: "i < 8"
  defines "before \<equiv> sum_list (take i (map byte_count_ones bs))"
  assumes k: "before \<le> k" "k < before + byte_count_ones (bs ! i)"
  shows "ones x ! k = 8 * i + low_ones 8 (bs ! i) ! (k - before)"
proof -
  have len: "length bs = 8" "bytes_ok bs" "unat x = dig bs" using r by (simp_all add: rep_def)
  have "64 = 8 * i + (8 + (56 - 8 * i))" using i by simp
  then have s: "ones x = low_ones (8 * i) (dig bs mod 2 ^ (8 * i)) @
      map ((+) (8 * i)) (low_ones (8 + (56 - 8 * i)) (dig bs div 2 ^ (8 * i)))"
    unfolding ones_low len(3) using low_ones_append [of "8 * i" "8 + (56 - 8 * i)" "dig bs"] by simp
  have pow: "(2 :: nat) ^ (8 * i) = 256 ^ i" by (simp add: power_mult)
  have "dig bs = dig (take i bs) + 256 ^ i * dig (drop i bs)"
    using dig_append [of "take i bs" "drop i bs"] len(1) i by simp
  moreover have "dig (take i bs) < 256 ^ i" using dig_less [of "take i bs"] len i by (auto dest: in_set_takeD)
  ultimately have m: "dig bs mod 2 ^ (8 * i) = dig (take i bs)" "dig bs div 2 ^ (8 * i) = dig (drop i bs)"
    unfolding pow by simp_all
  have "bytes_ok (take i bs)" using len(2) by (auto dest: in_set_takeD)
  from low_ones_dig [OF this] have lb: "length (low_ones (8 * i) (dig bs mod 2 ^ (8 * i))) = before"
    unfolding m before_def using len(1) i by (simp add: take_map)
  have "low_ones (8 + (56 - 8 * i)) (dig (drop i bs)) =
      low_ones 8 (bs ! i) @ map ((+) 8) (low_ones (56 - 8 * i) (dig (drop (Suc i) bs)))"
    using low_ones_append [of 8 "56 - 8 * i" "dig (drop i bs)"] dig_head [of i bs] len i by simp
  then have t: "ones x = low_ones (8 * i) (dig bs mod 2 ^ (8 * i)) @
      map ((+) (8 * i)) (low_ones 8 (bs ! i) @ map ((+) 8) (low_ones (56 - 8 * i) (dig (drop (Suc i) bs))))"
    unfolding s m by simp
  have "k - before < length (low_ones 8 (bs ! i))" using k unfolding byte_count_ones_def by linarith
  then show ?thesis unfolding t using k(1) lb by (simp add: nth_append)
qed

lemma select_finish_correct:
  assumes r: "rep x bs" "rep nibbles (map nibble_counts bs)" and i: "i < 8" and k: "k < byte_count_ones (bs ! i)"
  shows "select_finish x nibbles (8 * i) k = 8 * i + low_ones 8 (bs ! i) ! k"
proof -
  define b where "b = bs ! i"
  have b: "b < 256" using r(1) i by (auto simp: rep_def b_def)
  have lb: "length bs = 8" using r(1) by (simp add: rep_def)
  define lo hi where "lo = low_ones 4 (b mod 16)" and "hi = low_ones 4 (b div 16)"
  have lens: "length lo \<le> 4" "length hi \<le> 4" unfolding lo_def hi_def by (rule length_low_ones)+
  have ones: "low_ones 8 b = lo @ map ((+) 4) hi" unfolding lo_def hi_def by (rule low_ones_byte [OF b])
  have lower: "unat (drop_bit (8 * i) nibbles AND 15) = length lo"
    using rep_field [OF r(2) i, of 4 0] byte_counts(3) [OF b] lb i lens unfolding masks lo_def hi_def
    by (simp add: b_def)
  define st where "st = (of_bool (length lo \<le> k) :: nat)"
  define nb where "nb = b div 2 ^ (4 * st) mod 16"
  define k' where "k' = k - st * length lo"
  have st: "st \<le> 1" by (simp add: st_def)
  have nb: "nb < 16" "low_ones 4 nb = (if st = 0 then lo else hi)"
    using b by (simp_all add: nb_def st_def lo_def hi_def)
  have k': "k' < length (low_ones 4 nb)"
    using k unfolding nb(2) by (auto simp: k'_def st_def byte_count_ones_def ones simp flip: b_def)
  have field: "unat (drop_bit (8 * i + st * 4) x AND 15) = nb"
    using rep_field [OF r(1) i, of 4 "st * 4"] st unfolding masks by (simp add: nb_def b_def mult.commute)
  define l2 where "l2 = nb mod 2 + nb div 2 mod 2"
  define s2 where "s2 = (of_bool (l2 \<le> k') :: nat)"
  have s2: "s2 \<le> 1" by (simp add: s2_def)
  have last: "drop_bit (8 * i + st * 4 + s2 * 2) x AND 1 = 0 \<longleftrightarrow> nb div 2 ^ (s2 * 2) mod 2 = 0"
  proof -
    have j: "8 * i + st * 4 + s2 * 2 = 8 * i + (st * 4 + s2 * 2)" "1 + (st * 4 + s2 * 2) \<le> 8" using st s2 by simp_all
    have "unat (drop_bit (8 * i + st * 4 + s2 * 2) x AND 1) = b div 2 ^ (st * 4 + s2 * 2) mod 2"
      using rep_field [OF r(1) i j(2)] unfolding j(1) masks by (simp add: b_def)
    moreover have "b div 2 ^ (st * 4 + s2 * 2) mod 2 = nb div 2 ^ (s2 * 2) mod 2"
    proof -
      have "nb div 2 ^ (s2 * 2) mod 2 = b div 2 ^ (4 * st) div 2 ^ (s2 * 2) mod 2"
      proof -
        have "bit (take_bit 4 (b div 2 ^ (4 * st))) (s2 * 2) = bit (b div 2 ^ (4 * st)) (s2 * 2)"
          using s2 by (simp add: bit_take_bit_iff)
        then have "odd (nb div 2 ^ (s2 * 2)) = odd (b div 2 ^ (4 * st) div 2 ^ (s2 * 2))"
          by (simp add: bit_iff_odd take_bit_eq_mod nb_def)
        then show ?thesis by (simp add: mod2_eq_if)
      qed
      then show ?thesis unfolding power_add div_mult2_eq mult.commute [of st 4] by simp
    qed
    ultimately show ?thesis by (metis unsigned_0 unsigned_eq_0_iff)
  qed
  have nibble: "in_nibble nb k' = s2 * 2 + (k' - s2 * l2) + of_bool (nb div 2 ^ (s2 * 2) mod 2 = 0)"
    unfolding in_nibble_def Let_def l2_def [symmetric] s2_def [symmetric] ..
  have "select_finish x nibbles (8 * i) k =
      8 * i + st * 4 + s2 * 2 + (k' - s2 * l2) + of_bool (nb div 2 ^ (s2 * 2) mod 2 = 0)"
    unfolding select_finish_def Let_def lower st_def [symmetric] field k'_def [symmetric] l2_def [symmetric]
      s2_def [symmetric] last ..
  also have "\<dots> = 8 * i + st * 4 + in_nibble nb k'"
    unfolding nibble by (simp only: add.assoc)
  also have "in_nibble nb k' = low_ones 4 nb ! k'" by (rule in_nibble_correct [OF nb(1) k'])
  also have "8 * i + st * 4 + low_ones 4 nb ! k' = 8 * i + low_ones 8 b ! k"
    unfolding nb(2) ones using k' unfolding nb(2)
    by (auto simp: nth_append k'_def st_def split: if_splits)
  finally show ?thesis by (simp add: b_def)
qed

lemma select_word_rep:
  assumes r: "rep x bs" and k: "k < popcount x"
  shows "select_word x k = ones x ! k"
proof -
  have len: "length bs = 8" "bytes_ok bs" using r by (simp_all add: rep_def)
  define cs where "cs = map byte_count_ones bs"
  define ps where "ps = map (\<lambda>i. sum_list (take (i + 1) cs)) [0..<8]"
  have cs8: "\<forall>c\<in>set cs. c \<le> 8" unfolding cs_def byte_count_ones_def using length_low_ones [of 8] by simp
  have sum8: "sum_list (take i cs) \<le> 8 * i" for i
  proof -
    have "\<forall>c\<in>set l. c \<le> 8 \<Longrightarrow> sum_list l \<le> 8 * length l" for l :: "nat list" by (induction l) auto
    then have "sum_list (take i cs) \<le> 8 * length (take i cs)"
      using cs8 by (meson in_set_takeD)
    then show ?thesis by (simp add: min_def split: if_splits)
  qed
  have total: "popcount x = sum_list cs"
    using low_ones_dig [OF len(2)] r len(1) unfolding popcount_def ones_low by (simp add: rep_def cs_def)
  have k64: "k < 64" using k sum8 [of 8] len(1) by (simp add: total cs_def)
  define pairs where "pairs = x - (drop_bit 1 x AND 0x5555555555555555)"
  define nibbles where "nibbles = (pairs AND 0x3333333333333333) + (drop_bit 2 pairs AND 0x3333333333333333)"
  define prefixes where "prefixes = ((nibbles + drop_bit 4 nibbles) AND 0x0f0f0f0f0f0f0f0f) * 0x0101010101010101"
  define marked where "marked = ((prefixes OR 0x8080808080808080) - of_nat (k + 1) * 0x0101010101010101) AND 0x8080808080808080"
  have nib: "rep nibbles (map nibble_counts bs)" unfolding nibbles_def by (rule rep_nibbles [OF r pairs_def])
  have pre: "rep prefixes ps"
    unfolding prefixes_def ps_def by (rule rep_prefixes [OF _ cs8]) (simp only: cs_def, rule rep_bytes [OF nib len])
  have "\<forall>p\<in>set ps. p \<le> 64"
  proof
    fix p assume "p \<in> set ps"
    then obtain i where "i < 8" "p = sum_list (take (i + 1) cs)" by (auto simp: ps_def)
    then show "p \<le> 64" using sum8 [of "i + 1"] by simp
  qed
  then have mark: "rep marked (map (\<lambda>p. if k < p then 128 else 0) ps)"
    unfolding marked_def by (rule rep_mark [OF pre _ k64])
  define i where "i = (LEAST i. k < ps ! i)"
  have last: "k < ps ! 7" using k total len(1) by (simp add: ps_def cs_def)
  have i: "k < ps ! i" "\<And>j. j < i \<Longrightarrow> \<not> k < ps ! j" "i \<le> 7"
    unfolding i_def using last LeastI [of "\<lambda>i. k < ps ! i" 7] not_less_Least Least_le [of "\<lambda>i. k < ps ! i" 7] by blast+
  have ps: "ps ! j = sum_list (take (j + 1) cs)" if "j < 8" for j using that by (simp add: ps_def)
  define before where "before = sum_list (take i cs)"
  have sum: "ps ! i = before + byte_count_ones (bs ! i)"
    using i(3) len(1) ps [of i] by (simp add: before_def cs_def take_Suc_conv_app_nth)
  have lower: "before \<le> k"
  proof (cases i)
    case (Suc j)
    then show ?thesis using i(2) [of j] i(3) ps [of j] by (simp add: before_def)
  qed (simp add: before_def)
  have bits: "bit marked (8 * a + b) \<longleftrightarrow> k < ps ! a \<and> b = 7" if "a < 8" "b < 8" for a b
  proof -
    have "length ps = 8" by (simp add: ps_def)
    then have "bit marked (8 * a + b) \<longleftrightarrow> k < ps ! a \<and> odd (128 div 2 ^ b :: nat)"
      using rep_bit [OF mark that] that(1) by simp
    moreover have "odd (128 div 2 ^ b :: nat) \<longleftrightarrow> b = 7"
    proof -
      have "\<forall>b\<in>set [0..<8]. odd (128 div 2 ^ b :: nat) \<longleftrightarrow> b = 7" by code_simp
      then show ?thesis using that(2) by simp
    qed
    ultimately show ?thesis by simp
  qed
  have "countr_zero marked = 8 * i + 7"
  proof (rule countr_zero_least)
    show "bit marked (8 * i + 7)" using bits [of i 7] i by simp
    fix j assume "j < 8 * i + 7"
    moreover have "j = 8 * (j div 8) + j mod 8" "j mod 8 < 8" by simp_all
    ultimately have "j div 8 < i \<or> j div 8 = i \<and> j mod 8 \<noteq> 7" "j div 8 < 8" using i(3) by linarith+
    then show "\<not> bit marked j" using bits [of "j div 8" "j mod 8"] i(2) by auto
  qed
  then have shift: "countr_zero marked - countr_zero marked mod 8 = 8 * i" by simp
  have rest: "(if 8 * i \<noteq> 0 then k - unat (drop_bit (8 * i - 8) prefixes AND 255) else k) = k - before"
  proof (cases i)
    case (Suc j)
    have "unat (drop_bit (8 * j + 0) prefixes AND mask 8) = ps ! j div 2 ^ 0 mod 2 ^ 8"
      using i(3) Suc by (intro rep_field [OF pre]) simp_all
    moreover have "ps ! j \<le> 64" using sum8 [of "j + 1"] ps [of j] i(3) Suc by simp
    ultimately show ?thesis
      using ps [of j] i(3) Suc unfolding masks(1) by (simp add: before_def)
  qed (simp add: before_def)
  have "select_word x k = select_finish x nibbles (8 * i) (k - before)"
    unfolding select_word_def Let_def pairs_def [symmetric] nibbles_def [symmetric] prefixes_def [symmetric]
      marked_def [symmetric] shift rest ..
  also have "\<dots> = 8 * i + low_ones 8 (bs ! i) ! (k - before)"
    using i(1,3) sum lower by (intro select_finish_correct [OF r nib]) simp_all
  also have "\<dots> = ones x ! k"
    using ones_split [OF r, of i k] i(1,3) sum lower by (simp add: before_def cs_def)
  finally show ?thesis .
qed

lemma select_word_ones: "k < popcount x \<Longrightarrow> select_word x k = ones x ! k"
  using rep_exists [of x] select_word_rep by blast

section \<open>Properties\<close>

text \<open>
  C39. Broadword selection is selection: for every word and every ordinal below the number of its
  ones, \<open>select_word\<close> returns the position of that one, counted from the least significant bit.
\<close>

theorem select_word_selects:
  assumes "k < popcount x"
  shows "select_word x k = ones x ! k"
  by (rule select_word_ones [OF assms])

lemma select_word_selects_witness: "select_word 0xB0 1 = 5 \<and> select_word 0xB0 2 = 7"
proof -
  have "ones 0xB0 = [4, 5, 7]"
    unfolding ones_low by (simp add: low_ones_def upt_rec)
  then show ?thesis
    using select_word_selects [of 1 "0xB0"] select_word_selects [of 2 "0xB0"] by (simp add: popcount_def)
qed

end
