(* ===== verification/EliasFano.thy ===== *)
theory EliasFano
  imports SelectWord WordView
begin

text \<open>
  Elias-Fano directories (\<open>elias_fano.h\<close>, scalar target): a nondecreasing sequence is split into
  low fields packed side by side and high parts written as one bit each; a directory of samples
  finds the one of every ordinal. The builder, the checked view, selection and the forward cursor
  follow the source; reads and writes the code does not check are \<open>Undefined\<close> outside their
  storage.
\<close>

section \<open>Storage\<close>

definition ef_words :: "nat \<Rightarrow> nat" where
  "ef_words bits = (bits + 63) div 64"

definition get_at :: "'a list \<Rightarrow> nat \<Rightarrow> 'a res" where
  "get_at xs i = (if i < length xs then Inr (xs ! i) else Inl (Undefined ''read outside storage''))"

definition put_at :: "'a list \<Rightarrow> nat \<Rightarrow> 'a \<Rightarrow> 'a list res" where
  "put_at xs i x = (if i < length xs then Inr (xs[i := x]) else Inl (Undefined ''write outside storage''))"

fun ef_monotone_from :: "u64 list \<Rightarrow> bool" where
  "ef_monotone_from (x # y # ws) \<longleftrightarrow> \<not> y < x \<and> ef_monotone_from (y # ws)"
| "ef_monotone_from ws \<longleftrightarrow> True"

definition ef_monotone :: "u64 list \<Rightarrow> bool" where
  "ef_monotone source \<longleftrightarrow> length source < 2 \<or> ef_monotone_from source"

section \<open>Packing the low fields\<close>

text \<open>
  Fields of \<open>W\<close> bits return to a word boundary after \<open>64 div gcd W 64\<close> values. A tile computes
  each of its output words from the fields that overlap it.
\<close>

definition tile_inputs :: "nat \<Rightarrow> nat" where
  "tile_inputs W = 64 div gcd W 64"

definition tile_outputs :: "nat \<Rightarrow> nat" where
  "tile_outputs W = W div gcd W 64"

definition field_mask :: "nat \<Rightarrow> u64" where
  "field_mask W = push_bit W 1 - 1"

definition low_component :: "nat \<Rightarrow> nat \<Rightarrow> nat \<Rightarrow> u64 list \<Rightarrow> u64 res" where
  "low_component W O' I source = bindE (get_at source I) (\<lambda>x.
     let bit_pos = I * W; first_bit = O' * 64 in
     Inr (if bit_pos < first_bit then drop_bit (first_bit - bit_pos) (x AND field_mask W)
          else push_bit (bit_pos - first_bit) (x AND field_mask W)))"

fun low_join :: "nat \<Rightarrow> nat \<Rightarrow> nat \<Rightarrow> nat \<Rightarrow> u64 list \<Rightarrow> u64 res" where
  "low_join W O' I 0 source = Inr 0"
| "low_join W O' I (Suc n) source = bindE (low_component W O' I source) (\<lambda>x.
     bindE (low_join W O' (Suc I) n source) (\<lambda>y. Inr (x OR y)))"

definition low_word :: "nat \<Rightarrow> nat \<Rightarrow> u64 list \<Rightarrow> u64 res" where
  "low_word W O' source =
     low_join W O' (O' * 64 div W) ((O' * 64 + 63) div W - O' * 64 div W + 1) source"

fun low_tile :: "nat \<Rightarrow> nat \<Rightarrow> nat \<Rightarrow> u64 list \<Rightarrow> u64 list \<Rightarrow> nat \<Rightarrow> u64 list res" where
  "low_tile W O' 0 source out base = Inr out"
| "low_tile W O' (Suc n) source out base = bindE (low_word W O' source) (\<lambda>x.
     bindE (put_at out (base + O') x) (\<lambda>out. low_tile W (Suc O') n source out base))"

lemma tile_inputs_pos: "0 < tile_inputs W"
  by (simp add: tile_inputs_def div_greater_zero_iff dvd_imp_le)

function pack_tiles :: "nat \<Rightarrow> u64 list \<Rightarrow> u64 list \<Rightarrow> nat \<Rightarrow> (nat \<times> u64 list) res" where
  "pack_tiles W source out at =
     (if length source - at \<ge> tile_inputs W then
        bindE (low_tile W 0 (tile_outputs W) (drop at source) out (at div tile_inputs W * tile_outputs W))
          (\<lambda>out. pack_tiles W source out (at + tile_inputs W))
      else Inr (at, out))"
  by auto
termination
proof (relation "measure (\<lambda>(W, source, out, at). length source - at)")
  show "((W, source, out', at + tile_inputs W), W, source, out, at) \<in> measure (\<lambda>(W, source, out, at). length source - at)"
    if "tile_inputs W \<le> length source - at" for W at and source out out' :: "u64 list"
    using that tile_inputs_pos [of W] by simp
qed simp

declare pack_tiles.simps [simp del]

text \<open>The final incomplete tile is cleared and then filled field by field.\<close>

fun clear_words :: "u64 list \<Rightarrow> nat \<Rightarrow> nat \<Rightarrow> u64 list" where
  "clear_words out i 0 = out"
| "clear_words out i (Suc n) = clear_words (out[i := 0]) (Suc i) n"

definition or_at :: "u64 list \<Rightarrow> nat \<Rightarrow> u64 \<Rightarrow> u64 list res" where
  "or_at out i x = bindE (get_at out i) (\<lambda>y. put_at out i (y OR x))"

fun pack_tail :: "nat \<Rightarrow> u64 list \<Rightarrow> u64 list \<Rightarrow> nat \<Rightarrow> nat \<Rightarrow> u64 list res" where
  "pack_tail W [] out base i = Inr out"
| "pack_tail W (x # xs) out base i =
     (let bit_pos = i * W; shift = bit_pos mod 64; field = x AND field_mask W in
      bindE (or_at out (base + bit_pos div 64) (push_bit shift field)) (\<lambda>out.
      bindE (if shift + W > 64 then or_at out (base + bit_pos div 64 + 1) (drop_bit (64 - shift) field)
             else Inr out) (\<lambda>out. pack_tail W xs out base (i + 1))))"

definition pack_low_fixed :: "nat \<Rightarrow> u64 list \<Rightarrow> u64 list \<Rightarrow> u64 list res" where
  "pack_low_fixed W source out =
     (if W = 0 then Inr out
      else bindE (pack_tiles W source out 0) (\<lambda>(at, out).
        let base = at div tile_inputs W * tile_outputs W in
        if base > length out then Inl (Undefined ''subspan outside storage'')
        else pack_tail W (drop at source) (clear_words out base (length out - base)) base 0))"

definition pack_low :: "u64 list \<Rightarrow> u64 list \<Rightarrow> nat \<Rightarrow> u64 list res" where
  "pack_low source out low_width =
     (if low_width > 63 then Inl (Invalid_argument ''elias_fano low width'')
      else if low_width \<noteq> 0 \<and> length source > (u64_max - 63) div low_width then
        Inl (Overflow_error ''elias_fano low section extent'')
      else if length out \<noteq> ef_words (length source * low_width) then
        Inl (Invalid_argument ''elias_fano low output size'')
      else pack_low_fixed low_width source out)"

section \<open>Writing the high bits\<close>

text \<open>The high position of the \<open>i\<close>-th value, in the wrapping arithmetic of the code.\<close>

definition high_position :: "nat \<Rightarrow> u64 list \<Rightarrow> nat \<Rightarrow> nat" where
  "high_position low_width source i = unat (drop_bit low_width (source ! i) + of_nat i)"

function write_high_loop :: "u64 list \<Rightarrow> nat \<Rightarrow> nat \<Rightarrow> nat \<Rightarrow> u64 \<Rightarrow> u64 list \<Rightarrow> (nat \<times> u64 \<times> u64 list) res" where
  "write_high_loop source low_width i at pending out =
     (if i < length source then
        let position = high_position low_width source i; next_word = position div 64 in
        bindE (if next_word \<noteq> at then bindE (put_at out at pending) (\<lambda>out. Inr (next_word, 0, out))
               else Inr (at, pending, out)) (\<lambda>(at, pending, out).
          write_high_loop source low_width (i + 1) at (pending OR push_bit (position mod 64) 1) out)
      else Inr (at, pending, out))"
  by auto
termination by (relation "measure (\<lambda>(source, w, i, _). length source - i)") auto

declare write_high_loop.simps [simp del]

definition write_high :: "u64 list \<Rightarrow> u64 list \<Rightarrow> nat \<Rightarrow> u64 list res" where
  "write_high source out low_width =
     bindE (write_high_loop source low_width 0 0 0 out) (\<lambda>(at, pending, out).
       if source \<noteq> [] then put_at out at pending else Inr out)"

section \<open>The checked view\<close>

record elias_fano_view =
  v_low :: word_view
  v_high :: word_view
  v_samples :: word_view
  v_sparse :: word_view
  v_entry_count :: nat
  v_universe :: u64
  v_high_bits :: nat
  v_low_width :: nat

definition ef_maximum :: nat where
  "ef_maximum = u64_max - 255"

definition extents_overflow :: "nat \<Rightarrow> u64 \<Rightarrow> nat \<Rightarrow> bool" where
  "extents_overflow entries universe low_width \<longleftrightarrow>
     entries > ef_maximum \<or> (low_width \<noteq> 0 \<and> entries > ef_maximum div low_width) \<or>
     unat (drop_bit low_width universe) > ef_maximum - entries"

definition new_elias_fano_view ::
  "word_view \<Rightarrow> word_view \<Rightarrow> word_view \<Rightarrow> word_view \<Rightarrow> nat \<Rightarrow> u64 \<Rightarrow> nat \<Rightarrow> elias_fano_view res" where
  "new_elias_fano_view low high samples sparse entry_count universe low_width =
     (let v = \<lparr>v_low = low, v_high = high, v_samples = samples, v_sparse = sparse, v_entry_count = entry_count,
                v_universe = universe, v_high_bits = 0, v_low_width = low_width\<rparr> in
      if low_width > 63 then Inl (Invalid_argument ''elias_fano low width'')
      else if entry_count = 0 then
        (if universe \<noteq> 0 \<or> low_width \<noteq> 0 \<or> vbytes low \<noteq> [] \<or> vbytes high \<noteq> [] \<or>
            view_size samples div 2 \<noteq> 0 \<or> vbytes sparse \<noteq> []
         then Inl (Invalid_argument ''invalid empty Elias-Fano sections'') else Inr v)
      else if extents_overflow entry_count universe low_width then
        Inl (Overflow_error ''elias_fano section extent'')
      else let low_bits = entry_count * low_width;
               high_bits = unat (drop_bit low_width universe) + entry_count in
        if view_size low \<noteq> ef_words low_bits \<or> view_size high \<noteq> ef_words high_bits \<or>
           view_size samples div 2 \<noteq> (entry_count + 255) div 256
        then Inl (Invalid_argument ''invalid elias_fano spans'')
        else Inr (v\<lparr>v_high_bits := high_bits\<rparr>))"

definition ef_decode :: "bool \<Rightarrow> elias_fano_view \<Rightarrow> nat \<Rightarrow> nat \<Rightarrow> u64 res" where
  "ef_decode host v ordinal position =
     (if position < ordinal then Inl (Invalid_argument ''invalid elias_fano high value'')
      else let hi = position - ordinal in
      if hi > unat (drop_bit (v_low_width v) (v_universe v)) then
        Inl (Invalid_argument ''elias_fano high overflow'')
      else bindE
        (if v_low_width v \<noteq> 0 then
           let bit_pos = ordinal * v_low_width v; at = bit_pos div 64; shift = bit_pos mod 64 in
           bindE (word_at host (v_low v) at) (\<lambda>x.
           bindE (if shift + v_low_width v > 64
                  then bindE (word_at host (v_low v) (at + 1)) (\<lambda>y. Inr (drop_bit shift x OR push_bit (64 - shift) y))
                  else Inr (drop_bit shift x)) (\<lambda>lo. Inr (lo AND field_mask (v_low_width v))))
         else Inr 0) (\<lambda>lo.
        let val = push_bit (v_low_width v) (of_nat hi) OR lo in
        if val > v_universe v then Inl (Invalid_argument ''elias_fano value exceeds universe'')
        else Inr val))"

section \<open>Selection\<close>

abbreviation dense_group :: u64 where
  "dense_group \<equiv> - 1"

definition high_bit :: "bool \<Rightarrow> elias_fano_view \<Rightarrow> nat \<Rightarrow> bool res" where
  "high_bit host v position = bindE (word_at host (v_high v) (position div 64)) (\<lambda>x.
     Inr (x AND push_bit (position mod 64) 1 \<noteq> 0))"

definition sparse_position :: "bool \<Rightarrow> elias_fano_view \<Rightarrow> sample_value \<Rightarrow> nat \<Rightarrow> nat res" where
  "sparse_position host v sample lane =
     (if unat (sample_sparse sample) > view_size (v_sparse v) \<or>
         lane \<ge> view_size (v_sparse v) - unat (sample_sparse sample) then
        Inl (Invalid_argument ''invalid elias_fano exception'')
      else bindE (word_at host (v_sparse v) (unat (sample_sparse sample) + lane)) (\<lambda>x.
        let position = unat x in
        if position \<ge> v_high_bits v then Inl (Invalid_argument ''invalid elias_fano sparse position'')
        else bindE (high_bit host v position) (\<lambda>set.
          if set then Inr position else Inl (Invalid_argument ''invalid elias_fano sparse position''))))"

text \<open>
  At most 65 words are scanned from the sample. The distance from the sample is an unsigned
  difference, so a position before it counts as too far.
\<close>

definition too_far :: "nat \<Rightarrow> nat \<Rightarrow> bool" where
  "too_far position first_one \<longleftrightarrow> position < first_one \<or> position - first_one \<ge> 4096"

function scan_dense :: "bool \<Rightarrow> elias_fano_view \<Rightarrow> nat \<Rightarrow> nat \<Rightarrow> nat \<Rightarrow> u64 \<Rightarrow> nat \<Rightarrow> nat res" where
  "scan_dense host v first_one scanned at bits remaining =
     (if scanned < 65 \<and> at < view_size (v_high v) then
        bindE (if scanned \<noteq> 0 then word_at host (v_high v) at else Inr bits) (\<lambda>bits.
        if remaining < popcount bits then
          let position = at * 64 + select_word bits remaining in
          if position \<ge> v_high_bits v \<or> too_far position first_one
          then Inl (Invalid_argument ''elias_fano dense span'') else Inr position
        else scan_dense host v first_one (scanned + 1) (at + 1) bits (remaining - popcount bits))
      else Inl (Invalid_argument ''elias_fano missing high bit''))"
  by auto
termination by (relation "measure (\<lambda>(_, _, _, scanned, _). 65 - scanned)") auto

declare scan_dense.simps [simp del]

definition from_bit :: "nat \<Rightarrow> u64" where
  "from_bit n = push_bit n (- 1)"

definition select_high :: "bool \<Rightarrow> elias_fano_view \<Rightarrow> nat \<Rightarrow> nat res" where
  "select_high host v ordinal =
     bindE (sample_at host (v_samples v) (ordinal div 256)) (\<lambda>sample.
     let remaining = ordinal mod 256; first_one = unat (sample_first sample) in
     if sample_sparse sample \<noteq> dense_group then sparse_position host v sample remaining
     else if first_one \<ge> v_high_bits v then Inl (Invalid_argument ''invalid elias_fano sample'')
     else bindE (word_at host (v_high v) (first_one div 64)) (\<lambda>x.
       scan_dense host v first_one 0 (first_one div 64) (x AND from_bit (first_one mod 64)) remaining))"

definition ef_select :: "bool \<Rightarrow> elias_fano_view \<Rightarrow> nat \<Rightarrow> u64 res" where
  "ef_select host v ordinal =
     (if ordinal \<ge> v_entry_count v then Inl (Out_of_range ''Elias-Fano ordinal'')
      else bindE (select_high host v ordinal) (\<lambda>position. ef_decode host v ordinal position))"

section \<open>The forward cursor\<close>

record elias_fano_cursor =
  c_source :: elias_fano_view
  c_sample :: sample_value
  c_ordinal :: nat
  c_word :: nat
  c_remaining :: u64

definition cursor_done :: "elias_fano_cursor \<Rightarrow> bool" where
  "cursor_done c \<longleftrightarrow> c_ordinal c = v_entry_count (c_source c)"

definition new_cursor :: "bool \<Rightarrow> elias_fano_view \<Rightarrow> nat \<Rightarrow> elias_fano_cursor res" where
  "new_cursor host v ordinal =
     (let c = \<lparr>c_source = v, c_sample = \<lparr>sample_first = 0, sample_sparse = 0\<rparr>, c_ordinal = ordinal,
               c_word = 0, c_remaining = 0\<rparr> in
      if ordinal > v_entry_count v then Inl (Out_of_range ''Elias-Fano cursor ordinal'')
      else if cursor_done c \<or> ordinal mod 256 = 0 then Inr c
      else bindE (sample_at host (v_samples v) (ordinal div 256)) (\<lambda>sample.
        if sample_sparse sample = dense_group then
          bindE (select_high host v ordinal) (\<lambda>position.
          bindE (word_at host (v_high v) (position div 64)) (\<lambda>x.
            Inr (c\<lparr>c_sample := sample, c_word := position div 64,
                    c_remaining := x AND from_bit (position mod 64)\<rparr>)))
        else Inr (c\<lparr>c_sample := sample\<rparr>)))"

text \<open>An exception leaves the fields assigned so far: the cursor is the state of the operation.\<close>

definition enter_group :: "bool \<Rightarrow> (elias_fano_cursor, unit) op" where
  "enter_group host =
     bindM (liftM (\<lambda>c. sample_at host (v_samples (c_source c)) (c_ordinal c div 256))) (\<lambda>sample.
     bindM (modifyM (\<lambda>c. c\<lparr>c_sample := sample\<rparr>)) (\<lambda>_.
     if sample_sparse sample = dense_group then
       bindM (getM (\<lambda>c. unat (sample_first sample) \<ge> v_high_bits (c_source c))) (\<lambda>bad.
       if bad then raiseM (Invalid_argument ''invalid elias_fano sample'')
       else bindM (modifyM (\<lambda>c. c\<lparr>c_word := unat (sample_first sample) div 64\<rparr>)) (\<lambda>_.
         bindM (liftM (\<lambda>c. word_at host (v_high (c_source c)) (c_word c))) (\<lambda>x.
         modifyM (\<lambda>c. c\<lparr>c_remaining := x AND from_bit (unat (sample_first sample) mod 64)\<rparr>))))
     else returnM ()))"

function skip_words :: "bool \<Rightarrow> (elias_fano_cursor, unit) op" where
  "skip_words host c =
     (if c_remaining c = 0 then
        let c = c\<lparr>c_word := c_word c + 1\<rparr>; first_word = unat (sample_first (c_sample c)) div 64 in
        if c_word c \<ge> view_size (v_high (c_source c)) \<or> c_word c < first_word \<or> c_word c - first_word \<ge> 65
        then (Inl (Invalid_argument ''elias_fano missing high bit''), c)
        else (case word_at host (v_high (c_source c)) (c_word c) of
            Inl e \<Rightarrow> (Inl e, c)
          | Inr x \<Rightarrow> skip_words host (c\<lparr>c_remaining := x\<rparr>))
      else (Inr (), c))"
  by auto
termination
  by (relation "measure (\<lambda>(host, c). view_size (v_high (c_source c)) - c_word c)") (auto simp: Let_def)

declare skip_words.simps [simp del]

definition next_position :: "bool \<Rightarrow> (elias_fano_cursor, nat) op" where
  "next_position host =
     bindM (getM c_sample) (\<lambda>sample.
     if sample_sparse sample \<noteq> dense_group then
       liftM (\<lambda>c. sparse_position host (c_source c) sample (c_ordinal c mod 256))
     else bindM (skip_words host) (\<lambda>_.
       bindM (getM (\<lambda>c. c_word c * 64 + countr_zero (c_remaining c))) (\<lambda>position.
       bindM (getM (\<lambda>c. position \<ge> v_high_bits (c_source c))) (\<lambda>bad.
       if bad \<or> too_far position (unat (sample_first sample))
       then raiseM (Invalid_argument ''elias_fano dense span'') else returnM position))))"

definition cursor_next :: "bool \<Rightarrow> (elias_fano_cursor, u64) op" where
  "cursor_next host =
     bindM (getM cursor_done) (\<lambda>at_end.
     if at_end then raiseM (Out_of_range ''Elias-Fano cursor end'')
     else bindM (getM c_ordinal) (\<lambda>ordinal.
       bindM (if ordinal mod 256 = 0 then enter_group host else returnM ()) (\<lambda>_.
       bindM (next_position host) (\<lambda>position.
       bindM (liftM (\<lambda>c. ef_decode host (c_source c) ordinal position)) (\<lambda>val.
       bindM (modifyM (\<lambda>c. c\<lparr>c_remaining := c_remaining c AND (c_remaining c - 1), c_ordinal := ordinal + 1\<rparr>))
         (\<lambda>_. returnM val))))))"

section \<open>The builder\<close>

record elias_fano =
  ef_low :: "u64 list"
  ef_high :: "u64 list"
  ef_samples :: "sample_value list"
  ef_sparse :: "u64 list"
  ef_entry_count :: nat
  ef_universe :: u64
  ef_low_width :: nat

definition empty_ef :: elias_fano where
  "empty_ef = \<lparr>ef_low = [], ef_high = [], ef_samples = [], ef_sparse = [], ef_entry_count = 0,
     ef_universe = 0, ef_low_width = 0\<rparr>"

function sample_groups :: "nat \<Rightarrow> u64 list \<Rightarrow> nat \<Rightarrow> sample_value list \<Rightarrow> u64 list \<Rightarrow> sample_value list \<times> u64 list" where
  "sample_groups low_width residuals begin_at samples sparse =
     (if begin_at < length residuals then
        let end_at = (if length residuals - begin_at < 256 then length residuals else begin_at + 256);
            first_one = drop_bit low_width (residuals ! begin_at) + of_nat begin_at;
            last_one = drop_bit low_width (residuals ! (end_at - 1)) + of_nat (end_at - 1);
            spread = last_one - first_one \<ge> 4096;
            exception = (if spread then of_nat (length sparse) else dense_group);
            sparse = (if spread then
                sparse @ map (\<lambda>i. drop_bit low_width (residuals ! i) + of_nat i) [begin_at..<end_at]
              else sparse)
        in sample_groups low_width residuals (begin_at + 256)
             (samples @ [\<lparr>sample_first = first_one, sample_sparse = exception\<rparr>]) sparse
      else (samples, sparse))"
  by auto
termination by (relation "measure (\<lambda>(_, residuals, begin_at, _). length residuals - begin_at)") auto

declare sample_groups.simps [simp del]

definition choose_width :: "u64 \<Rightarrow> nat \<Rightarrow> nat" where
  "choose_width universe n =
     (let quotient = universe div of_nat n in
      if quotient \<noteq> 0 then bit_width (unat quotient) - 1 else 0)"

definition ef_build :: "u64 list \<Rightarrow> elias_fano res" where
  "ef_build residuals =
     (if residuals = [] then Inr empty_ef
      else if \<not> ef_monotone residuals then Inl (Invalid_argument ''elias_fano nonmonotone offsets'')
      else let n = length residuals; top = last residuals; w = choose_width top n in
      if extents_overflow n top w then Inl (Overflow_error ''elias_fano section extent'')
      else let low_bits = n * w; high_bits = unat (drop_bit w top) + n in
      bindE (pack_low residuals (replicate (ef_words low_bits) 0) w) (\<lambda>low.
      bindE (write_high residuals (replicate (ef_words high_bits) 0) w) (\<lambda>high.
      let (samples, sparse) = sample_groups w residuals 0 [] [] in
      Inr \<lparr>ef_low = low, ef_high = high, ef_samples = samples, ef_sparse = sparse, ef_entry_count = n,
            ef_universe = top, ef_low_width = w\<rparr>)))"

definition sample_words :: "sample_value list \<Rightarrow> u64 list" where
  "sample_words ss = concat (map (\<lambda>s. [sample_first s, sample_sparse s]) ss)"

definition ef_view :: "bool \<Rightarrow> elias_fano \<Rightarrow> elias_fano_view res" where
  "ef_view host e =
     new_elias_fano_view (native_words host (ef_low e)) (native_words host (ef_high e))
       (native_words host (sample_words (ef_samples e))) (native_words host (ef_sparse e))
       (ef_entry_count e) (ef_universe e) (ef_low_width e)"

end
