(* ===== verification/ProfileView.thy ===== *)
theory ProfileView
  imports QueryContext EliasFano
begin

text \<open>
  The reader of a front-coded profile (\<open>profile_view\<close> of \<open>profile.h\<close>): metadata and its checks,
  record framing, location of a record inside its block, window comparison against a query,
  traversal, and reconstruction of a key from its prefix chain. A view takes the policy and the
  host's byte order as parameters. Physical positions and lengths count policy units.
\<close>

section \<open>Metadata\<close>

datatype profile_count_code = Varint | Exp_golomb_zero
datatype profile_bit_order = Msb_first
datatype bit_backspace_code = Exponential_golomb_code | Golomb_code

fun backspace_code_of :: "backspace_encoding \<Rightarrow> bit_backspace_code" where
  "backspace_code_of (Exponential_golomb k) = Exponential_golomb_code"
| "backspace_code_of (Golomb m) = Golomb_code"

fun backspace_parameter_of :: "backspace_encoding \<Rightarrow> nat" where
  "backspace_parameter_of (Exponential_golomb k) = k"
| "backspace_parameter_of (Golomb m) = m"

record profile_metadata =
  m_version :: nat
  m_key_unit :: profile_unit
  m_value_unit :: profile_unit
  m_count_unit :: profile_unit
  m_offset_unit :: profile_unit
  m_count_code :: profile_count_code
  m_backspace_code :: bit_backspace_code
  m_backspace_parameter :: nat
  m_bit_order :: profile_bit_order
  m_role :: stream_role
  m_policy_fixed_values :: bool
  m_policy_value_width :: nat
  m_common_value_width :: "nat option"
  m_group_size :: nat
  m_codec_block_size :: nat
  m_terminal_key_units :: nat
  m_record_count :: nat
  m_extent :: nat

definition value_or :: "nat option \<Rightarrow> nat \<Rightarrow> nat" where
  "value_or o' d = (case o' of None \<Rightarrow> d | Some n \<Rightarrow> n)"

definition initial_metadata :: "storage_policy \<Rightarrow> stream_role \<Rightarrow> profile_metadata" where
  "initial_metadata p role =
     \<lparr>m_version = 2, m_key_unit = policy_unit p, m_value_unit = policy_unit p, m_count_unit = policy_unit p,
      m_offset_unit = policy_unit p,
      m_count_code = (if policy_unit p = Byte then Varint else Exp_golomb_zero),
      m_backspace_code = backspace_code_of (backspace p),
      m_backspace_parameter = backspace_parameter_of (backspace p),
      m_bit_order = Msb_first, m_role = role,
      m_policy_fixed_values = (policy_value_width p \<noteq> None),
      m_policy_value_width = value_or (policy_value_width p) 0,
      m_common_value_width = Some (if role = Borrowed then 0 else value_or (policy_value_width p) 0),
      m_group_size = group_size p, m_codec_block_size = codec_block_size p,
      m_terminal_key_units = 0, m_record_count = 0, m_extent = 0\<rparr>"

section \<open>Views\<close>

record profile_view =
  pv_bytes :: "u8 list"
  pv_offsets :: elias_fano_view
  pv_metadata :: profile_metadata
  pv_data :: bit_view

text \<open>64-bit sums that the code leaves unchecked.\<close>

definition u64_add :: "nat \<Rightarrow> nat \<Rightarrow> nat" where
  "u64_add a b = (a + b) mod 2 ^ 64"

definition u64_mult :: "nat \<Rightarrow> nat \<Rightarrow> nat" where
  "u64_mult a b = a * b mod 2 ^ 64"

definition count_blocks :: "storage_policy \<Rightarrow> profile_metadata \<Rightarrow> nat" where
  "count_blocks p m = m_record_count m div codec_block_size p + of_bool (m_record_count m mod codec_block_size p \<noteq> 0)"

definition from_sections ::
  "storage_policy \<Rightarrow> stream_role \<Rightarrow> u8 list \<Rightarrow> elias_fano_view \<Rightarrow> profile_metadata \<Rightarrow> profile_view res" where
  "from_sections p role bs offsets m =
     (let expected = initial_metadata p role; bad = (\<lambda>msg. Inl (Invalid_argument msg)) in
      if m_version m \<noteq> 2 \<or> m_key_unit m \<noteq> policy_unit p \<or> m_value_unit m \<noteq> policy_unit p \<or>
         m_count_unit m \<noteq> policy_unit p \<or> m_offset_unit m \<noteq> policy_unit p \<or>
         m_backspace_code m \<noteq> backspace_code_of (backspace p) \<or>
         m_backspace_parameter m \<noteq> backspace_parameter_of (backspace p) \<or>
         m_count_code m \<noteq> m_count_code expected \<or> m_bit_order m \<noteq> Msb_first \<or> m_role m \<noteq> role \<or>
         m_group_size m \<noteq> group_size p \<or> m_codec_block_size m \<noteq> codec_block_size p
      then bad ''profile metadata does not match reader policy''
      else if \<not> m_policy_fixed_values m \<and> m_policy_value_width m \<noteq> 0
      then bad ''variable profile policy width must be zero''
      else if role = Borrowed \<and> m_common_value_width m \<noteq> Some 0
      then bad ''borrowed profile must have empty values''
      else if role \<noteq> Borrowed \<and> m_policy_fixed_values m \<and> m_common_value_width m \<noteq> Some (m_policy_value_width m)
      then bad ''fixed value width metadata mismatch''
      else if m_record_count m = 0 \<and> (m_extent m \<noteq> 0 \<or> m_terminal_key_units m \<noteq> 0)
      then bad ''nonempty data for empty profile''
      else bindE (profile_multiply (m_extent m) (bits_per_unit p)) (\<lambda>bits.
        let blocks = count_blocks p m in
        if bits > u64_max - 7 \<or> length bs \<noteq> byte_count bits \<or> blocks = u64_max \<or>
           v_entry_count offsets \<noteq> blocks + 1
        then bad ''profile section length mismatch''
        else bindE (new_bit_view bs bits 0) (\<lambda>data.
          Inr \<lparr>pv_bytes = bs, pv_offsets = offsets, pv_metadata = m, pv_data = data\<rparr>)))"

definition pv_size :: "profile_view \<Rightarrow> nat" where
  "pv_size v = m_record_count (pv_metadata v)"

abbreviation common_width :: "profile_view \<Rightarrow> nat" where
  "common_width v \<equiv> value_or (m_common_value_width (pv_metadata v)) 0"

definition validate_offset_metadata :: "profile_view \<Rightarrow> unit res" where
  "validate_offset_metadata v =
     bindE (profile_multiply (pv_size v) (common_width v)) (\<lambda>stride.
       if stride > m_extent (pv_metadata v) \<or>
          unat (v_universe (pv_offsets v)) \<noteq> m_extent (pv_metadata v) - stride
       then Inl (Invalid_argument ''profile offset universe or fixed stride mismatch'') else Inr ())"

definition block_offset :: "bool \<Rightarrow> storage_policy \<Rightarrow> profile_view \<Rightarrow> nat \<Rightarrow> nat res" where
  "block_offset host p v block =
     (let blocks = count_blocks p (pv_metadata v) in
      if block > blocks then Inl (Out_of_range ''profile block ordinal'')
      else let ordinal = (if block = blocks then pv_size v else block * codec_block_size p) in
        bindE (ef_select host (pv_offsets v) block) (\<lambda>residual.
        Inr (u64_add (unat residual) (u64_mult ordinal (common_width v)))))"

definition validate_contents :: "bool \<Rightarrow> storage_policy \<Rightarrow> profile_view \<Rightarrow> unit res" where
  "validate_contents host p v =
     bindE (validate_offset_metadata v) (\<lambda>_.
     let bits = bsize (pv_data v) in
     if bits mod 8 \<noteq> 0 \<and> last (pv_bytes v) AND (push_bit (8 - bits mod 8) 1 - 1) \<noteq> 0
     then Inl (Invalid_argument ''nonzero profile padding'')
     else bindE (block_offset host p v 0) (\<lambda>a.
       if a \<noteq> 0 then Inl (Invalid_argument ''profile offset units or extent mismatch'')
       else bindE (block_offset host p v (count_blocks p (pv_metadata v))) (\<lambda>b.
         if b \<noteq> m_extent (pv_metadata v) then Inl (Invalid_argument ''profile offset units or extent mismatch'')
         else Inr ())))"

definition new_profile_view ::
  "bool \<Rightarrow> storage_policy \<Rightarrow> stream_role \<Rightarrow> u8 list \<Rightarrow> elias_fano_view \<Rightarrow> profile_metadata \<Rightarrow> profile_view res" where
  "new_profile_view host p role bs offsets m =
     bindE (from_sections p role bs offsets m) (\<lambda>v. bindE (validate_contents host p v) (\<lambda>_. Inr v))"

section \<open>Frames\<close>

text \<open>A reader's result with the position it leaves, when it succeeds.\<close>

definition read_at :: "(nat, u64) op \<Rightarrow> nat \<Rightarrow> (nat \<times> nat) res" where
  "read_at rd at = (case rd at of (Inl e, _) \<Rightarrow> Inl e | (Inr x, at') \<Rightarrow> Inr (unat x, at'))"

definition read_absolute :: "bool \<Rightarrow> storage_policy \<Rightarrow> profile_view \<Rightarrow> nat \<Rightarrow> (nat \<times> nat) res" where
  "read_absolute host p v start =
     bindE (read_at (read_count host p (pv_data v)) start) (\<lambda>(kept, at).
       if kept > start then Inl (Invalid_argument ''profile retained prefix exceeds physical offset'')
       else Inr (kept, at))"

definition read_relative :: "bool \<Rightarrow> storage_policy \<Rightarrow> profile_view \<Rightarrow> nat \<Rightarrow> nat \<Rightarrow> (nat \<times> nat) res" where
  "read_relative host p v at previous =
     bindE (read_at (read_backspace host p (pv_data v)) at) (\<lambda>(back_by, at).
       if back_by > previous then Inl (Invalid_argument ''profile backspace exceeds predecessor'')
       else Inr (previous - back_by, at))"

text \<open>The lengths of a payload and the position of its suffix.\<close>

definition parse_lengths :: "bool \<Rightarrow> storage_policy \<Rightarrow> profile_view \<Rightarrow> nat \<Rightarrow> (nat \<times> nat \<times> nat) res" where
  "parse_lengths host p v at =
     bindE (read_at (read_count host p (pv_data v)) at) (\<lambda>(suffix, at).
     bindE (case m_common_value_width (pv_metadata v) of
         Some w \<Rightarrow> Inr (w, at) | None \<Rightarrow> read_at (read_count host p (pv_data v)) at) (\<lambda>(val, at).
     let limit = m_extent (pv_metadata v) in
     if at > limit \<or> suffix > limit - at \<or> val > limit - at - suffix
     then Inl (Invalid_argument ''truncated profile payload'') else Inr (suffix, val, at)))"

definition parse_frame :: "bool \<Rightarrow> storage_policy \<Rightarrow> profile_view \<Rightarrow> nat \<Rightarrow> nat \<Rightarrow> (nat \<times> nat) res" where
  "parse_frame host p v at kept =
     bindE (parse_lengths host p v at) (\<lambda>(suffix, val, at). Inr (u64_add kept suffix, at + suffix + val))"

definition parse_payload :: "bool \<Rightarrow> storage_policy \<Rightarrow> profile_view \<Rightarrow> nat \<Rightarrow> nat \<Rightarrow> profile_encoded_record res" where
  "parse_payload host p v at kept =
     bindE (parse_lengths host p v at) (\<lambda>(suffix, val, at).
     bindE (profile_multiply suffix (bits_per_unit p)) (\<lambda>suffix_bits.
     bindE (profile_multiply val (bits_per_unit p)) (\<lambda>value_bits.
     bindE (profile_multiply at (bits_per_unit p)) (\<lambda>key_at.
     bindE (subview (pv_data v) key_at suffix_bits) (\<lambda>key_data.
     bindE (profile_multiply (at + suffix) (bits_per_unit p)) (\<lambda>value_at.
     bindE (subview (pv_data v) value_at value_bits) (\<lambda>value_data.
       Inr \<lparr>retained = kept, key_units = u64_add kept suffix, value_units = val, suffix_view = key_data,
         value_view = value_data, next_offset = at + suffix + val\<rparr>)))))))"

definition parse_absolute :: "bool \<Rightarrow> storage_policy \<Rightarrow> profile_view \<Rightarrow> nat \<Rightarrow> profile_encoded_record res" where
  "parse_absolute host p v at = bindE (read_absolute host p v at) (\<lambda>(kept, at). parse_payload host p v at kept)"

definition parse_relative :: "bool \<Rightarrow> storage_policy \<Rightarrow> profile_view \<Rightarrow> nat \<Rightarrow> nat \<Rightarrow> profile_encoded_record res" where
  "parse_relative host p v at previous =
     bindE (read_relative host p v at previous) (\<lambda>(kept, at). parse_payload host p v at kept)"

section \<open>Location\<close>

text \<open>
  Replaying the controls of a block: the position and retained prefix of the record and the length
  of its predecessor within the block. The state is the counter of skipped headers; a control that
  is refused leaves the headers before it counted. Without a counter the code runs the same steps.
\<close>

fun skip_headers ::
  "bool \<Rightarrow> storage_policy \<Rightarrow> profile_view \<Rightarrow> nat \<Rightarrow> nat \<Rightarrow> nat \<Rightarrow> nat \<Rightarrow> (nat, nat \<times> nat \<times> nat) op" where
  "skip_headers host p v 0 at kept previous = returnM (at, kept, previous)"
| "skip_headers host p v (Suc n) at kept previous =
     bindM (liftM (\<lambda>_. parse_frame host p v at kept)) (\<lambda>(units, following).
     bindM (liftM (\<lambda>_. read_relative host p v following units)) (\<lambda>(kept, at).
     bindM (modifyM Suc) (\<lambda>_. skip_headers host p v n at kept units)))"

definition locate_record :: "bool \<Rightarrow> storage_policy \<Rightarrow> profile_view \<Rightarrow> nat \<Rightarrow> (nat, nat \<times> nat \<times> nat) op" where
  "locate_record host p v ordinal =
     (let group = ordinal div codec_block_size p in
      bindM (liftM (\<lambda>_. block_offset host p v group)) (\<lambda>start.
      bindM (liftM (\<lambda>_. read_absolute host p v start)) (\<lambda>(kept, at).
      if group = 0 \<and> kept \<noteq> 0 then raiseM (Invalid_argument ''first profile key is not literal'')
      else skip_headers host p v (ordinal - group * codec_block_size p) at kept 0)))"

definition encoded_at :: "bool \<Rightarrow> storage_policy \<Rightarrow> profile_view \<Rightarrow> nat \<Rightarrow> profile_encoded_record res" where
  "encoded_at host p v ordinal =
     (if ordinal \<ge> pv_size v then Inl (Out_of_range ''profile record ordinal'')
      else bindE (fst (locate_record host p v ordinal 0)) (\<lambda>(at, kept, _). parse_payload host p v at kept))"

text \<open>The length of the key before an ordinal; the headers read for it are counted.\<close>

definition predecessor_units :: "bool \<Rightarrow> storage_policy \<Rightarrow> profile_view \<Rightarrow> nat \<Rightarrow> (nat, nat) op" where
  "predecessor_units host p v ordinal =
     (if ordinal > pv_size v then raiseM (Out_of_range ''profile predecessor ordinal'')
      else if ordinal = 0 then returnM 0
      else if ordinal = pv_size v then returnM (m_terminal_key_units (pv_metadata v))
      else bindM (locate_record host p v (ordinal - 1)) (\<lambda>(at, kept, _).
        bindM (liftM (\<lambda>_. parse_payload host p v at kept)) (\<lambda>record.
        bindM (modifyM Suc) (\<lambda>_. returnM (key_units record)))))"

definition locate_with_predecessor ::
  "bool \<Rightarrow> storage_policy \<Rightarrow> profile_view \<Rightarrow> nat \<Rightarrow> (nat, nat \<times> nat \<times> nat) op" where
  "locate_with_predecessor host p v ordinal =
     bindM (locate_record host p v ordinal) (\<lambda>(at, kept, previous).
     bindM (if ordinal \<noteq> 0 \<and> ordinal mod codec_block_size p = 0 then predecessor_units host p v ordinal
       else returnM previous) (\<lambda>previous.
     if kept > previous then raiseM (Invalid_argument ''profile retained prefix exceeds predecessor'')
     else returnM (at, kept, previous)))"

text \<open>
  The record after \<open>previous\<close>. The offset of a block comes from the view or from a cursor, whose
  new state is returned when it was asked.
\<close>

definition next_record ::
  "bool \<Rightarrow> storage_policy \<Rightarrow> profile_view \<Rightarrow> profile_encoded_record \<Rightarrow> nat \<Rightarrow> (nat \<Rightarrow> (nat \<times> 'c) res) \<Rightarrow>
     (profile_encoded_record \<times> 'c option) res" where
  "next_record host p v previous ordinal block_at =
     (let at = next_offset previous in
      if ordinal mod codec_block_size p = 0 then
        bindE (block_at (ordinal div codec_block_size p)) (\<lambda>(expected, c).
        if expected \<noteq> at then Inl (Invalid_argument ''profile group offset mismatch'')
        else bindE (parse_absolute host p v at) (\<lambda>next.
          if retained next > key_units previous
          then Inl (Invalid_argument ''profile retained prefix exceeds predecessor'') else Inr (next, Some c)))
      else bindE (parse_relative host p v at (key_units previous)) (\<lambda>next. Inr (next, None)))"

definition view_offset :: "bool \<Rightarrow> storage_policy \<Rightarrow> profile_view \<Rightarrow> nat \<Rightarrow> (nat \<times> unit) res" where
  "view_offset host p v block = bindE (block_offset host p v block) (\<lambda>n. Inr (n, ()))"

definition decode_into ::
  "bool \<Rightarrow> storage_policy \<Rightarrow> profile_encoded_record \<Rightarrow> nat \<Rightarrow> bit_string \<Rightarrow> nat \<Rightarrow> (bit_string \<times> nat) res" where
  "decode_into host p r limit scratch ctx_units =
     (if retained r > ctx_units then Inl (Invalid_argument ''profile anchor is too short'')
      else let keep = min (retained r) limit in
        bindE (profile_multiply keep (bits_per_unit p)) (\<lambda>keep_bits.
        if keep_bits > bit_size scratch then Inl (Invalid_argument ''profile anchor prefix is incomplete'')
        else bindE (resize_string scratch keep_bits) (\<lambda>scratch.
          let full = min (key_units r) limit in
          bindE (profile_multiply (full - keep) (bits_per_unit p)) (\<lambda>n.
          bindE (bprefix (suffix_view r) n) (\<lambda>suffix.
          bindE (append_view host False scratch suffix) (\<lambda>scratch. Inr (scratch, key_units r)))))))"

section \<open>Traversal\<close>

record profile_item =
  item_ordinal :: nat
  item_key :: profile_anchor
  item_value :: bit_view

record comparison_work =
  skipped_headers :: nat
  visited_headers :: nat
  compared_bits :: nat

record comparison_item =
  ci_ordinal :: nat
  ci_comparison :: query_context
  ci_value :: bit_view

text \<open>
  A callback is an operation on its own state; it returns whether to go on. The loops run over
  the number of records left.
\<close>

fun compare_loop ::
  "bool \<Rightarrow> storage_policy \<Rightarrow> profile_view \<Rightarrow> (comparison_item \<Rightarrow> ('s, bool) op) \<Rightarrow> nat \<Rightarrow> nat \<Rightarrow>
     query_context \<Rightarrow> profile_encoded_record \<Rightarrow> ('s \<times> comparison_work, unit) op" where
  "compare_loop host p v callback 0 i context record s = (Inr (), s)"
| "compare_loop host p v callback (Suc n) i context record (s, work) =
     (case context_advance host p record context of Inl e \<Rightarrow> (Inl e, (s, work))
      | Inr (context, compared) \<Rightarrow>
         let work = work\<lparr>visited_headers := visited_headers work + 1, compared_bits := compared_bits work + compared\<rparr> in
         case callback \<lparr>ci_ordinal = i, ci_comparison = context, ci_value = value_view record\<rparr> s of
           (Inl e, s) \<Rightarrow> (Inl e, (s, work))
         | (Inr False, s) \<Rightarrow> (Inr (), (s, work))
         | (Inr True, s) \<Rightarrow>
             if n = 0 then (Inr (), (s, work))
             else (case next_record host p v record (i + 1) (view_offset host p v) of Inl e \<Rightarrow> (Inl e, (s, work))
               | Inr (next, _) \<Rightarrow> compare_loop host p v callback n (i + 1) context next (s, work)))"

definition window_ok :: "storage_policy \<Rightarrow> profile_view \<Rightarrow> nat \<Rightarrow> nat \<Rightarrow> bool" where
  "window_ok p v first_ordinal last_ordinal \<longleftrightarrow>
     \<not> (first_ordinal > last_ordinal \<or> last_ordinal > pv_size v \<or> last_ordinal - first_ordinal > group_size p)"

text \<open>Location counts in the caller's work record.\<close>

definition on_skipped :: "(nat, 'a) op \<Rightarrow> ('s \<times> comparison_work, 'a) op" where
  "on_skipped m = (\<lambda>(s, work). case m (skipped_headers work) of (r, n) \<Rightarrow> (r, (s, work\<lparr>skipped_headers := n\<rparr>)))"

definition compare_window ::
  "bool \<Rightarrow> storage_policy \<Rightarrow> profile_view \<Rightarrow> nat \<Rightarrow> nat \<Rightarrow> query_context \<Rightarrow> (comparison_item \<Rightarrow> ('s, bool) op) \<Rightarrow> bool \<Rightarrow>
     ('s \<times> comparison_work, nat option) op" where
  "compare_window host p v first_ordinal last_ordinal context callback want_predecessor =
     (if \<not> window_ok p v first_ordinal last_ordinal
      then raiseM (Out_of_range ''profile comparison window exceeds cascade group'')
      else if first_ordinal = last_ordinal then
        if want_predecessor then
          bindM (on_skipped (predecessor_units host p v first_ordinal)) (\<lambda>units. returnM (Some units))
        else returnM None
      else
        bindM (on_skipped (if want_predecessor then locate_with_predecessor host p v first_ordinal
          else locate_record host p v first_ordinal)) (\<lambda>(at, kept, previous).
        bindM (liftM (\<lambda>_. parse_payload host p v at kept)) (\<lambda>record.
        bindM (compare_loop host p v callback (last_ordinal - first_ordinal) first_ordinal context record) (\<lambda>_.
        returnM (if want_predecessor then Some previous else None)))))"

text \<open>
  The traversal loop: whether the callback asked for all records, and the last one read.
\<close>

fun visit_loop ::
  "bool \<Rightarrow> storage_policy \<Rightarrow> profile_view \<Rightarrow> nat \<Rightarrow> (profile_item \<Rightarrow> ('s, bool) op) \<Rightarrow> nat \<Rightarrow> nat \<Rightarrow> bit_string \<Rightarrow>
     nat \<Rightarrow> profile_encoded_record \<Rightarrow> ('s, profile_encoded_record option) op" where
  "visit_loop host p v limit callback 0 i scratch ctx_units record s = (Inr (Some record), s)"
| "visit_loop host p v limit callback (Suc n) i scratch ctx_units record s =
     (case decode_into host p record limit scratch ctx_units of Inl e \<Rightarrow> (Inl e, s)
      | Inr (scratch, ctx_units) \<Rightarrow>
         (case string_view scratch of Inl e \<Rightarrow> (Inl e, s)
          | Inr key \<Rightarrow>
             (case callback \<lparr>item_ordinal = i, item_key = \<lparr>prefix_view = key, anchor_units = ctx_units\<rparr>,
                 item_value = value_view record\<rparr> s of
               (Inl e, s) \<Rightarrow> (Inl e, s)
             | (Inr False, s) \<Rightarrow> (Inr None, s)
             | (Inr True, s) \<Rightarrow>
                 if n = 0 then (Inr (Some record), s)
                 else (case next_record host p v record (i + 1) (view_offset host p v) of Inl e \<Rightarrow> (Inl e, s)
                   | Inr (next, _) \<Rightarrow> visit_loop host p v limit callback n (i + 1) scratch ctx_units next s))))"

definition visit_window ::
  "bool \<Rightarrow> storage_policy \<Rightarrow> profile_view \<Rightarrow> nat \<Rightarrow> nat \<Rightarrow> profile_anchor \<Rightarrow> nat \<Rightarrow> (profile_item \<Rightarrow> ('s, bool) op) \<Rightarrow>
     ('s, unit) op" where
  "visit_window host p v first_ordinal last_ordinal anchor prefix_limit callback =
     (if \<not> window_ok p v first_ordinal last_ordinal
      then raiseM (Out_of_range ''profile window exceeds the policy group size'')
      else if first_ordinal = last_ordinal then returnM ()
      else if \<not> unit_multiple p (bsize (prefix_view anchor)) \<or> bsize (prefix_view anchor) div bits_per_unit p > anchor_units anchor
      then raiseM (Invalid_argument ''profile anchor units'')
      else bindM (liftM (\<lambda>_.
          bindE (profile_multiply (min prefix_limit (bsize (prefix_view anchor) div bits_per_unit p)) (bits_per_unit p)) (\<lambda>bits.
          bindE (bprefix (prefix_view anchor) bits) (\<lambda>kept. bindE (copy_string host kept) (\<lambda>scratch.
          bindE (encoded_at host p v first_ordinal) (\<lambda>record. Inr (scratch, record))))))) (\<lambda>(scratch, record).
        bindM (visit_loop host p v prefix_limit callback (last_ordinal - first_ordinal) first_ordinal scratch
          (anchor_units anchor) record) (\<lambda>_. returnM ())))"

definition empty_string :: bit_string where
  "empty_string = \<lparr>bytes = [], bit_size = 0\<rparr>"

definition check_end :: "profile_view \<Rightarrow> profile_encoded_record \<Rightarrow> unit res" where
  "check_end v record =
     (if next_offset record \<noteq> m_extent (pv_metadata v) then Inl (Invalid_argument ''trailing profile data'')
      else if key_units record \<noteq> m_terminal_key_units (pv_metadata v)
      then Inl (Invalid_argument ''profile terminal length mismatch'') else Inr ())"

definition visit_all ::
  "bool \<Rightarrow> storage_policy \<Rightarrow> profile_view \<Rightarrow> (profile_item \<Rightarrow> ('s, bool) op) \<Rightarrow> ('s, unit) op" where
  "visit_all host p v callback =
     (if pv_size v = 0 then returnM ()
      else bindM (liftM (\<lambda>_. encoded_at host p v 0)) (\<lambda>record.
        bindM (visit_loop host p v u64_max callback (pv_size v) 0 empty_string 0 record) (\<lambda>stop.
        case stop of None \<Rightarrow> returnM () | Some record \<Rightarrow> liftM (\<lambda>_. check_end v record))))"

section \<open>Reconstruction\<close>

record profile_decoded_record =
  decoded_prefix :: bit_string
  decoded_units :: nat
  decoded_value :: bit_string

fun reconstruct_loop ::
  "bool \<Rightarrow> storage_policy \<Rightarrow> profile_view \<Rightarrow> nat \<Rightarrow> profile_encoded_record \<Rightarrow> nat \<Rightarrow> bit_string \<Rightarrow> bit_string res" where
  "reconstruct_loop host p v ordinal record need key =
     (if need = 0 then Inr key
      else if key_units record < need then Inl (Invalid_argument ''profile predecessor prefix is too short'')
      else bindE (if retained record < need then
          bindE (profile_multiply (need - retained record) (bits_per_unit p)) (\<lambda>n.
          bindE (profile_multiply (retained record) (bits_per_unit p)) (\<lambda>first_bit.
          bindE (bprefix (suffix_view record) n) (\<lambda>part.
          bindE (copy_into host key first_bit part) (\<lambda>key. Inr (retained record, key)))))
        else Inr (need, key)) (\<lambda>(need, key).
        if need = 0 then Inr key
        else (case ordinal of
            0 \<Rightarrow> Inl (Invalid_argument ''nonliteral first profile key'')
          | Suc k \<Rightarrow> bindE (encoded_at host p v k) (\<lambda>earlier.
              if key_units earlier < retained record
              then Inl (Invalid_argument ''profile predecessor prefix is too short'')
              else reconstruct_loop host p v k earlier need key))))"

declare reconstruct_loop.simps [simp del]

definition reconstruct_at ::
  "bool \<Rightarrow> storage_policy \<Rightarrow> profile_view \<Rightarrow> nat \<Rightarrow> nat \<Rightarrow> profile_decoded_record res" where
  "reconstruct_at host p v ordinal prefix_limit =
     bindE (encoded_at host p v ordinal) (\<lambda>record.
     bindE (copy_string host (value_view record)) (\<lambda>val.
     let need = min (key_units record) prefix_limit in
     bindE (profile_multiply need (bits_per_unit p)) (\<lambda>bits.
     bindE (resize_string empty_string bits) (\<lambda>key.
     bindE (reconstruct_loop host p v ordinal record need key) (\<lambda>key.
       Inr \<lparr>decoded_prefix = key, decoded_units = key_units record, decoded_value = val\<rparr>)))))"

end
