(* ===== verification/ProfileCursor.thy ===== *)
theory ProfileCursor
  imports ProfileView
begin

text \<open>
  The resumable readers of a profile (\<open>profile_encoded_cursor\<close> and \<open>profile_cursor\<close> of
  \<open>profile.h\<close>): each carries its navigation cursor with the committed record, and an operation
  that throws leaves both where they were.
\<close>

definition no_record :: profile_encoded_record where
  "no_record = \<lparr>retained = 0, key_units = 0, value_units = 0,
     suffix_view = \<lparr>storage = [], offset = 0, bsize = 0\<rparr>, value_view = \<lparr>storage = [], offset = 0, bsize = 0\<rparr>,
     next_offset = 0\<rparr>"

text \<open>The offset of the next block from a copy of the navigation cursor.\<close>

definition cursor_offset ::
  "bool \<Rightarrow> storage_policy \<Rightarrow> profile_view \<Rightarrow> elias_fano_cursor \<Rightarrow> nat \<Rightarrow> (nat \<times> elias_fano_cursor) res" where
  "cursor_offset host p v offsets block =
     (case cursor_next host offsets of (Inl e, _) \<Rightarrow> Inl e
      | (Inr residual, offsets) \<Rightarrow>
          Inr (u64_add (unat residual) (u64_mult (u64_mult block (codec_block_size p)) (common_width v)), offsets))"

section \<open>Framing only\<close>

record encoded_cursor =
  ec_view :: profile_view
  ec_offsets :: elias_fano_cursor
  ec_record :: profile_encoded_record
  ec_ordinal :: nat

definition encoded_done :: "encoded_cursor \<Rightarrow> bool" where
  "encoded_done c \<longleftrightarrow> ec_ordinal c = pv_size (ec_view c)"

definition new_encoded_cursor :: "bool \<Rightarrow> storage_policy \<Rightarrow> profile_view \<Rightarrow> encoded_cursor res" where
  "new_encoded_cursor host p v =
     bindE (new_cursor host (pv_offsets v) 0) (\<lambda>offsets.
     let c = \<lparr>ec_view = v, ec_offsets = offsets, ec_record = no_record, ec_ordinal = 0\<rparr> in
     if encoded_done c then Inr c
     else bindE (encoded_at host p v 0) (\<lambda>record.
       case cursor_next host offsets of (Inl e, _) \<Rightarrow> Inl e
       | (Inr _, offsets) \<Rightarrow> Inr (c\<lparr>ec_offsets := offsets, ec_record := record\<rparr>)))"

definition encoded_peek :: "encoded_cursor \<Rightarrow> profile_encoded_record res" where
  "encoded_peek c =
     (if encoded_done c then Inl (Out_of_range ''encoded profile cursor at end'') else Inr (ec_record c))"

definition encoded_advance :: "bool \<Rightarrow> storage_policy \<Rightarrow> (encoded_cursor, unit) op" where
  "encoded_advance host p = (\<lambda>c.
     if encoded_done c then (Inl (Out_of_range ''encoded profile cursor at end''), c)
     else if ec_ordinal c + 1 = pv_size (ec_view c) then
       (case check_end (ec_view c) (ec_record c) of Inl e \<Rightarrow> (Inl e, c)
        | Inr _ \<Rightarrow> (Inr (), c\<lparr>ec_ordinal := ec_ordinal c + 1\<rparr>))
     else
       (case next_record host p (ec_view c) (ec_record c) (ec_ordinal c + 1)
           (cursor_offset host p (ec_view c) (ec_offsets c)) of Inl e \<Rightarrow> (Inl e, c)
        | Inr (next, offsets) \<Rightarrow>
            (Inr (), c\<lparr>ec_record := next,
              ec_offsets := (case offsets of None \<Rightarrow> ec_offsets c | Some offsets \<Rightarrow> offsets),
              ec_ordinal := ec_ordinal c + 1\<rparr>)))"

section \<open>Keys\<close>

record profile_cursor =
  pc_view :: profile_view
  pc_offsets :: elias_fano_cursor
  pc_scratch :: bit_string
  pc_context :: nat
  pc_record :: profile_encoded_record
  pc_ordinal :: nat

definition cursor_at_end :: "profile_cursor \<Rightarrow> bool" where
  "cursor_at_end c \<longleftrightarrow> pc_ordinal c = pv_size (pc_view c)"

definition new_profile_cursor ::
  "bool \<Rightarrow> storage_policy \<Rightarrow> profile_view \<Rightarrow> nat \<Rightarrow> bit_view \<Rightarrow> profile_cursor res" where
  "new_profile_cursor host p v ordinal query =
     bindE (new_cursor host (pv_offsets v)
       (if ordinal < pv_size v then ordinal div codec_block_size p else v_entry_count (pv_offsets v))) (\<lambda>offsets.
     let c = \<lparr>pc_view = v, pc_offsets = offsets, pc_scratch = empty_string, pc_context = 0, pc_record = no_record,
              pc_ordinal = ordinal\<rparr> in
     if ordinal > pv_size v then Inl (Out_of_range ''profile cursor ordinal'')
     else if cursor_at_end c then Inr c
     else bindE (encoded_at host p v ordinal) (\<lambda>record.
       case cursor_next host offsets of (Inl e, _) \<Rightarrow> Inl e
       | (Inr _, offsets) \<Rightarrow>
           let kept = unit_bits p (retained record) in
           if kept > bsize query then Inl (Invalid_argument ''profile cursor missing query prefix'')
           else bindE (subview query 0 kept) (\<lambda>prefix. bindE (copy_string host prefix) (\<lambda>scratch.
             bindE (decode_into host p record u64_max scratch (retained record)) (\<lambda>(scratch, units).
             Inr (c\<lparr>pc_offsets := offsets, pc_record := record, pc_scratch := scratch, pc_context := units\<rparr>))))))"

definition start_profile_cursor :: "bool \<Rightarrow> storage_policy \<Rightarrow> profile_view \<Rightarrow> profile_cursor res" where
  "start_profile_cursor host p v = new_profile_cursor host p v 0 \<lparr>storage = [], offset = 0, bsize = 0\<rparr>"

definition cursor_peek :: "profile_cursor \<Rightarrow> profile_item res" where
  "cursor_peek c =
     (if cursor_at_end c then Inl (Out_of_range ''profile cursor at end'')
      else bindE (string_view (pc_scratch c)) (\<lambda>key.
        Inr \<lparr>item_ordinal = pc_ordinal c, item_key = \<lparr>prefix_view = key, anchor_units = pc_context c\<rparr>,
          item_value = value_view (pc_record c)\<rparr>))"

definition cursor_retained_bits :: "storage_policy \<Rightarrow> profile_cursor \<Rightarrow> nat res" where
  "cursor_retained_bits p c =
     (if cursor_at_end c then Inl (Out_of_range ''profile cursor at end'')
      else Inr (unit_bits p (retained (pc_record c))))"

text \<open>
  The comparison of the old key with the new one, from the retained prefix on: the first unit
  decides unless the encoding was redundant.
\<close>

definition compare_step ::
  "bool \<Rightarrow> storage_policy \<Rightarrow> bit_string \<Rightarrow> profile_encoded_record \<Rightarrow> bit_comparison res" where
  "compare_step host p scratch next =
     bindE (profile_multiply (retained next) (bits_per_unit p)) (\<lambda>kept.
     bindE (string_view scratch) (\<lambda>previous.
     if kept = bsize previous \<or> bsize (suffix_view next) = 0 then
       Inr \<lparr>common_bits = kept,
         order = (if kept \<noteq> bsize previous then 1 else if bsize (suffix_view next) = 0 then 0 else -1)\<rparr>
     else
       bindE (load_bits host previous kept (bits_per_unit p)) (\<lambda>before.
       bindE (load_bits host (suffix_view next) 0 (bits_per_unit p)) (\<lambda>after.
       if before \<noteq> after then
         Inr \<lparr>common_bits = kept + (countl_zero (before XOR after) - (64 - bits_per_unit p)),
           order = (if before < after then -1 else 1)\<rparr>
       else bindE (subview previous kept (bsize previous - kept)) (\<lambda>rest.
         bindE (compare_common_bits host rest (suffix_view next)) (\<lambda>suffix.
         Inr \<lparr>common_bits = kept + common_bits suffix, order = order suffix\<rparr>))))))"

definition advance_profile_cursor ::
  "bool \<Rightarrow> storage_policy \<Rightarrow> bool \<Rightarrow> (profile_cursor, bit_comparison option) op" where
  "advance_profile_cursor host p compare = (\<lambda>c.
     if cursor_at_end c then (Inl (Out_of_range ''profile cursor at end''), c)
     else if pc_ordinal c + 1 = pv_size (pc_view c) then
       (case check_end (pc_view c) (pc_record c) of Inl e \<Rightarrow> (Inl e, c)
        | Inr _ \<Rightarrow> (Inr None, c\<lparr>pc_ordinal := pc_ordinal c + 1\<rparr>))
     else
       (case bindE (next_record host p (pc_view c) (pc_record c) (pc_ordinal c + 1)
               (cursor_offset host p (pc_view c) (pc_offsets c))) (\<lambda>(next, offsets).
             bindE (if compare then bindE (compare_step host p (pc_scratch c) next) (\<lambda>r. Inr (Some r)) else Inr None) (\<lambda>result.
             bindE (decode_into host p next u64_max (pc_scratch c) (pc_context c)) (\<lambda>(scratch, units).
             Inr (result, c\<lparr>pc_scratch := scratch, pc_context := units, pc_record := next,
               pc_offsets := (case offsets of None \<Rightarrow> pc_offsets c | Some offsets \<Rightarrow> offsets),
               pc_ordinal := pc_ordinal c + 1\<rparr>)))) of
          Inl e \<Rightarrow> (Inl e, c) | Inr (result, c) \<Rightarrow> (Inr result, c)))"

definition advance_comparison :: "bool \<Rightarrow> storage_policy \<Rightarrow> (profile_cursor, bit_comparison option) op" where
  "advance_comparison host p = advance_profile_cursor host p True"

end
