(* ===== verification/ProfileBuild.thy ===== *)
theory ProfileBuild
  imports ProfileView
begin

text \<open>
  The writers of a profile (\<open>profile_array::build\<close> and \<open>profile_borrowed_writer\<close> of
  \<open>profile.h\<close>): the batch encoder with its options (prefix ceilings, restart factor, retention
  hints) and the incremental writer of borrowed streams with its rollback.
\<close>

record profile_record =
  record_key :: bit_string
  record_value :: bit_string
  retained_limit_bits :: "nat option"

record profile_array =
  pa_bytes :: "u8 list"
  pa_offsets :: elias_fano
  pa_metadata :: profile_metadata

definition array_view :: "bool \<Rightarrow> storage_policy \<Rightarrow> stream_role \<Rightarrow> profile_array \<Rightarrow> profile_view res" where
  "array_view host p role a =
     bindE (ef_view host (pa_offsets a)) (\<lambda>offsets. from_sections p role (pa_bytes a) offsets (pa_metadata a))"

section \<open>The batch encoder\<close>

text \<open>The width all values share, when they share one.\<close>

definition start_width :: "storage_policy \<Rightarrow> stream_role \<Rightarrow> profile_record list \<Rightarrow> nat option res" where
  "start_width p role records =
     (if role = Borrowed then Inr (Some 0)
      else if policy_value_width p \<noteq> None then Inr (policy_value_width p)
      else case records of [] \<Rightarrow> Inr (Some 0)
        | r # _ \<Rightarrow> bindE (string_view (record_value r)) (\<lambda>v. Inr (Some (bsize v div bits_per_unit p))))"

fun check_records :: "storage_policy \<Rightarrow> stream_role \<Rightarrow> profile_record list \<Rightarrow> nat option \<Rightarrow> nat option res" where
  "check_records p role [] common = Inr common"
| "check_records p role (r # rs) common =
     bindE (string_view (record_key r)) (\<lambda>key. bindE (string_view (record_value r)) (\<lambda>val.
     if \<not> unit_multiple p (bsize key) \<or> \<not> unit_multiple p (bsize val)
     then Inl (Invalid_argument ''record length does not match profile unit'')
     else let width = bsize val div bits_per_unit p in
       if role = Borrowed then
         if width \<noteq> 0 then Inl (Invalid_argument ''borrowed profile cannot carry values'')
         else check_records p role rs common
       else if policy_value_width p \<noteq> None then
         if Some width \<noteq> policy_value_width p
         then Inl (Invalid_argument ''value does not match fixed policy width'')
         else check_records p role rs common
       else check_records p role rs (if common \<noteq> None \<and> common \<noteq> Some width then None else common)))"

record encoder =
  e_data :: bit_string
  e_previous :: bit_view
  e_previous_units :: nat
  e_anchor_offset :: nat
  e_offsets :: "u64 list"

text \<open>The retained prefix of a record: the common units, limited by hint, ceiling and restarts.\<close>

definition choose_retained ::
  "storage_policy \<Rightarrow> nat \<Rightarrow> nat option \<Rightarrow> nat option \<Rightarrow> nat \<Rightarrow> nat \<Rightarrow> nat \<Rightarrow> nat \<Rightarrow> nat" where
  "choose_retained p common hint ceiling restart_factor start anchor units =
     (let kept = common div bits_per_unit p;
          kept = (case hint of None \<Rightarrow> kept | Some h \<Rightarrow> min kept (h div bits_per_unit p));
          kept = (case ceiling of None \<Rightarrow> kept | Some c \<Rightarrow> min kept c) in
      if kept \<noteq> 0 \<and> restart_factor \<noteq> 0 \<and> units \<le> u64_max div restart_factor \<and>
         start - anchor > restart_factor * units then 0 else kept)"

definition encode_record ::
  "bool \<Rightarrow> storage_policy \<Rightarrow> nat option \<Rightarrow> nat option \<Rightarrow> nat \<Rightarrow> nat \<Rightarrow> profile_record \<Rightarrow> encoder \<Rightarrow> encoder res" where
  "encode_record host p common ceiling restart_factor i r s =
     bindE (string_view (record_key r)) (\<lambda>key. bindE (string_view (record_value r)) (\<lambda>val.
     bindE (compare_common_bits host (e_previous s) key) (\<lambda>comparison.
     if i \<noteq> 0 \<and> order comparison > 0 then Inl (Invalid_argument ''profile keys must be sorted'')
     else let start = bit_size (e_data s) div bits_per_unit p; block_start = (i mod codec_block_size p = 0) in
       bindE (if block_start then
           bindE (profile_multiply i (value_or common 0)) (\<lambda>stride. Inr (e_offsets s @ [of_nat start - of_nat stride]))
         else Inr (e_offsets s)) (\<lambda>offsets.
       let units = bsize key div bits_per_unit p;
           kept = choose_retained p (common_bits comparison) (retained_limit_bits r) ceiling restart_factor
             start (e_anchor_offset s) units;
           anchor = (if kept = 0 then start else e_anchor_offset s) in
       bindE (if block_start then write_count host p (e_data s) (of_nat kept)
         else write_backspace host p (e_data s) (of_nat (e_previous_units s) - of_nat kept)) (\<lambda>data.
       bindE (write_count host p data (of_nat units - of_nat kept)) (\<lambda>data.
       bindE (if common = None then write_count host p data (of_nat (bsize val div bits_per_unit p)) else Inr data) (\<lambda>data.
       bindE (profile_multiply kept (bits_per_unit p)) (\<lambda>kept_bits.
       bindE (subview key kept_bits (bsize key - kept_bits)) (\<lambda>suffix.
       bindE (append_view host False data suffix) (\<lambda>data.
       bindE (append_view host False data val) (\<lambda>data.
         Inr \<lparr>e_data = data, e_previous = key, e_previous_units = units, e_anchor_offset = anchor,
           e_offsets = offsets\<rparr>)))))))))))"

fun encode_records ::
  "bool \<Rightarrow> storage_policy \<Rightarrow> nat option \<Rightarrow> nat list \<Rightarrow> nat \<Rightarrow> nat \<Rightarrow> profile_record list \<Rightarrow> encoder \<Rightarrow> encoder res" where
  "encode_records host p common ceilings restart_factor i [] s = Inr s"
| "encode_records host p common ceilings restart_factor i (r # rs) s =
     bindE (encode_record host p common (if ceilings = [] then None else Some (ceilings ! i)) restart_factor i r s)
       (\<lambda>s. encode_records host p common ceilings restart_factor (i + 1) rs s)"

definition build_profile ::
  "bool \<Rightarrow> storage_policy \<Rightarrow> stream_role \<Rightarrow> profile_record list \<Rightarrow> nat list \<Rightarrow> nat \<Rightarrow> profile_array res" where
  "build_profile host p role records ceilings restart_factor =
     (if ceilings \<noteq> [] \<and> length ceilings \<noteq> length records
      then Inl (Invalid_argument ''one profile prefix ceiling is required per record'')
      else if restart_factor \<noteq> 0 \<and> restart_factor < 3
      then Inl (Invalid_argument ''LPFC factor must be at least three'')
      else bindE (start_width p role records) (\<lambda>common. bindE (check_records p role records common) (\<lambda>common.
        bindE (encode_records host p common ceilings restart_factor 0 records
          \<lparr>e_data = empty_string, e_previous = \<lparr>storage = [], offset = 0, bsize = 0\<rparr>, e_previous_units = 0,
           e_anchor_offset = 0, e_offsets = []\<rparr>) (\<lambda>s.
        let extent = bit_size (e_data s) div bits_per_unit p in
        bindE (profile_multiply (length records) (value_or common 0)) (\<lambda>stride.
        bindE (ef_build (e_offsets s @ [of_nat extent - of_nat stride])) (\<lambda>offsets.
          Inr \<lparr>pa_bytes = bytes (e_data s), pa_offsets = offsets,
            pa_metadata = (initial_metadata p role)\<lparr>m_common_value_width := common, m_record_count := length records,
              m_terminal_key_units := e_previous_units s, m_extent := extent\<rparr>\<rparr>))))))"

definition empty_array :: "storage_policy \<Rightarrow> stream_role \<Rightarrow> profile_array res" where
  "empty_array p role = bindE (ef_build [0]) (\<lambda>offsets.
     Inr \<lparr>pa_bytes = [], pa_offsets = offsets, pa_metadata = initial_metadata p role\<rparr>)"

section \<open>The incremental writer\<close>

record borrowed_writer =
  bw_data :: bit_string
  bw_previous :: bit_string
  bw_offsets :: "u64 list"
  bw_count :: nat
  bw_finished :: bool

definition new_borrowed_writer :: borrowed_writer where
  "new_borrowed_writer = \<lparr>bw_data = empty_string, bw_previous = empty_string, bw_offsets = [], bw_count = 0,
     bw_finished = False\<rparr>"

text \<open>
  The output is written into local copies: the code's rollback cuts the stream and the offsets
  back to what they were.
\<close>

definition append_output ::
  "bool \<Rightarrow> storage_policy \<Rightarrow> bit_view \<Rightarrow> nat \<Rightarrow> borrowed_writer \<Rightarrow> (bit_string \<times> u64 list) res" where
  "append_output host p key kept w =
     (let units = bsize key div bits_per_unit p; previous_units = bit_size (bw_previous w) div bits_per_unit p;
          block_start = (bw_count w mod codec_block_size p = 0);
          offsets = (if block_start then bw_offsets w @ [of_nat (bit_size (bw_data w) div bits_per_unit p)]
            else bw_offsets w) in
      bindE (if block_start then write_count host p (bw_data w) (of_nat kept)
        else write_backspace host p (bw_data w) (of_nat previous_units - of_nat kept)) (\<lambda>data.
      bindE (write_count host p data (of_nat units - of_nat kept)) (\<lambda>data.
      bindE (profile_multiply kept (bits_per_unit p)) (\<lambda>kept_bits.
      bindE (subview key kept_bits (bsize key - kept_bits)) (\<lambda>suffix.
      bindE (append_view host False data suffix) (\<lambda>data. Inr (data, offsets)))))))"

definition append_known ::
  "bool \<Rightarrow> storage_policy \<Rightarrow> bit_view \<Rightarrow> nat \<Rightarrow> nat \<Rightarrow> (borrowed_writer, unit) op" where
  "append_known host p key exact_common_bits prefix_ceiling =
     bindM (liftM (\<lambda>w. profile_add (bw_count w) 1)) (\<lambda>next_count.
     let kept = min (exact_common_bits div bits_per_unit p) prefix_ceiling in
     if byte_count (bsize key) > vector_max then raiseM (Length_error ''profile bit string too large'')
     else bindM (liftM (append_output host p key kept)) (\<lambda>(data, offsets).
       bindM (modifyM (\<lambda>w. w\<lparr>bw_data := data, bw_offsets := offsets\<rparr>)) (\<lambda>_.
       let common = exact_common_bits div bits_per_unit p * bits_per_unit p in
       bindM (liftM (\<lambda>w. resize_string (bw_previous w) (bsize key))) (\<lambda>previous.
       bindM (modifyM (\<lambda>w. w\<lparr>bw_previous := previous\<rparr>)) (\<lambda>_.
       bindM (liftM (\<lambda>w. bindE (subview key common (bsize key - common)) (\<lambda>rest.
         copy_into host (bw_previous w) common rest))) (\<lambda>previous.
       modifyM (\<lambda>w. w\<lparr>bw_previous := previous, bw_count := next_count\<rparr>)))))))"

definition writer_append :: "bool \<Rightarrow> storage_policy \<Rightarrow> bit_view \<Rightarrow> nat \<Rightarrow> (borrowed_writer, unit) op" where
  "writer_append host p key prefix_ceiling =
     bindM (getM bw_finished) (\<lambda>fin.
     if fin then raiseM (Logic_error ''borrowed profile writer is finished'')
     else if \<not> unit_multiple p (bsize key) then raiseM (Invalid_argument ''key length does not match profile unit'')
     else bindM (liftM (\<lambda>w. bindE (string_view (bw_previous w)) (\<lambda>previous. compare_common_bits host previous key))) (\<lambda>comparison.
       bindM (getM bw_count) (\<lambda>n.
       if n \<noteq> 0 \<and> order comparison > 0 then raiseM (Invalid_argument ''profile keys must be sorted'')
       else append_known host p key (common_bits comparison) prefix_ceiling)))"

definition writer_finish :: "storage_policy \<Rightarrow> (borrowed_writer, profile_array) op" where
  "writer_finish p =
     bindM (getM bw_finished) (\<lambda>fin.
     if fin then raiseM (Logic_error ''borrowed profile writer is finished'')
     else bindM (getM (\<lambda>w. bit_size (bw_data w) div bits_per_unit p)) (\<lambda>extent.
       bindM (liftM (\<lambda>w. ef_build (bw_offsets w @ [of_nat extent]))) (\<lambda>offsets.
       bindM (getM (\<lambda>w. \<lparr>pa_bytes = bytes (bw_data w), pa_offsets = offsets,
         pa_metadata = (initial_metadata p Borrowed)\<lparr>m_record_count := bw_count w, m_extent := extent,
           m_terminal_key_units := bit_size (bw_previous w) div bits_per_unit p\<rparr>\<rparr>)) (\<lambda>result.
       bindM (modifyM (\<lambda>w. w\<lparr>bw_data := empty_string, bw_previous := empty_string, bw_offsets := [],
         bw_finished := True\<rparr>)) (\<lambda>_. returnM result)))))"

end
