(* ===== verification/EliasPack.thy ===== *)
theory EliasPack
  imports EliasFano
begin

text \<open>
  What the packing loops of an Elias-Fano directory write, bit by bit: the low section is the
  concatenation of the low fields, the high section has exactly the high positions set. Neither
  loop leaves its storage.
\<close>

section \<open>Bits of a word section\<close>

definition bitpos :: "u64 list \<Rightarrow> nat \<Rightarrow> bool" where
  "bitpos ws b \<longleftrightarrow> bit (ws ! (b div 64)) (b mod 64)"

lemma get_at_in [simp]: "i < length xs \<Longrightarrow> get_at xs i = Inr (xs ! i)"
  by (simp add: get_at_def)

lemma put_at_in [simp]: "i < length xs \<Longrightarrow> put_at xs i x = Inr (xs[i := x])"
  by (simp add: put_at_def)

lemma or_at_in [simp]: "i < length xs \<Longrightarrow> or_at xs i x = Inr (xs[i := xs ! i OR x])"
  by (simp add: or_at_def)

lemma bitpos_join: "n < 64 \<Longrightarrow> bitpos ws (64 * i + n) = bit (ws ! i) n"
  by (simp add: bitpos_def)

lemma bitpos_zero [simp]: "b < 64 * n \<Longrightarrow> \<not> bitpos (replicate n 0) b"
  by (simp add: bitpos_def)

lemma bit_field [simp]: "W \<le> 63 \<Longrightarrow> bit (field_mask W) n \<longleftrightarrow> n < W"
proof -
  assume "W \<le> 63"
  have "field_mask W = mask W" by (simp add: field_mask_def mask_eq_exp_minus_1 push_bit_eq_mult)
  then show ?thesis using \<open>W \<le> 63\<close> by (auto simp: bit_mask_iff)
qed

lemma bit_push_u64: "bit (push_bit k x) n \<longleftrightarrow> k \<le> n \<and> n < 64 \<and> bit x (n - k)" for x :: u64
  by (auto simp: bit_push_bit_iff)

lemma bit_top: "bit x n \<Longrightarrow> n < 64" for x :: u64
  using bit_imp_le_length [of x n] by simp

section \<open>The low fields\<close>

lemma low_component_bits:
  assumes "W \<le> 63" "I < length source"
  shows "\<exists>x. low_component W O' I source = Inr x \<and>
    (\<forall>n<64. bit x n \<longleftrightarrow> I * W \<le> 64 * O' + n \<and> 64 * O' + n < I * W + W \<and>
      bit (source ! I) (64 * O' + n - I * W))"
proof (cases "I * W < O' * 64")
  case True
  have "n + (O' * 64 - I * W) = 64 * O' + n - I * W" for n using True by linarith
  then show ?thesis using assms True
    by (auto simp: low_component_def Let_def bit_drop_bit_eq bit_and_iff add.commute)
next
  case False
  have "n - (I * W - O' * 64) = 64 * O' + n - I * W" if "I * W - O' * 64 \<le> n" for n using False that by linarith
  then show ?thesis using assms False
    by (auto simp: low_component_def Let_def bit_push_u64 bit_and_iff)
qed

lemma ex_range_Suc:
  "(\<exists>J. I \<le> J \<and> J < I + Suc n \<and> Q J) \<longleftrightarrow> Q I \<or> (\<exists>J. Suc I \<le> J \<and> J < Suc I + n \<and> Q J)"
proof
  assume "\<exists>J. I \<le> J \<and> J < I + Suc n \<and> Q J"
  then obtain J where J: "I \<le> J" "J < I + Suc n" "Q J" by blast
  then show "Q I \<or> (\<exists>J. Suc I \<le> J \<and> J < Suc I + n \<and> Q J)" by (cases "J = I") auto
next
  assume "Q I \<or> (\<exists>J. Suc I \<le> J \<and> J < Suc I + n \<and> Q J)"
  moreover have "I < I + Suc n" by simp
  ultimately show "\<exists>J. I \<le> J \<and> J < I + Suc n \<and> Q J"
    by (metis Suc_leD add_Suc add_Suc_right order_refl)
qed

lemma low_join_bits:
  assumes "W \<le> 63" "I + n \<le> length source"
  shows "\<exists>x. low_join W O' I n source = Inr x \<and>
    (\<forall>m<64. bit x m \<longleftrightarrow> (\<exists>J. I \<le> J \<and> J < I + n \<and> J * W \<le> 64 * O' + m \<and> 64 * O' + m < J * W + W \<and>
      bit (source ! J) (64 * O' + m - J * W)))"
  using assms(2)
proof (induction n arbitrary: I)
  case (Suc n)
  obtain x where x: "low_component W O' I source = Inr x"
    "\<And>m. m < 64 \<Longrightarrow> bit x m \<longleftrightarrow> I * W \<le> 64 * O' + m \<and> 64 * O' + m < I * W + W \<and> bit (source ! I) (64 * O' + m - I * W)"
    using low_component_bits [of W I source O'] assms(1) Suc.prems by auto
  obtain y where y: "low_join W O' (Suc I) n source = Inr y"
    "\<And>m. m < 64 \<Longrightarrow> bit y m \<longleftrightarrow> (\<exists>J. Suc I \<le> J \<and> J < Suc I + n \<and> J * W \<le> 64 * O' + m \<and> 64 * O' + m < J * W + W \<and>
      bit (source ! J) (64 * O' + m - J * W))"
    using Suc.IH [of "Suc I"] Suc.prems by auto
  have "bit (x OR y) m \<longleftrightarrow> (\<exists>J. I \<le> J \<and> J < I + Suc n \<and> J * W \<le> 64 * O' + m \<and> 64 * O' + m < J * W + W \<and>
      bit (source ! J) (64 * O' + m - J * W))" (is "_ \<longleftrightarrow> (\<exists>J. ?P J)") if "m < 64" for m
  proof -
    show ?thesis unfolding bit_or_iff x(2) [OF that] y(2) [OF that] ex_range_Suc by (simp only: mult.commute)
  qed
  then show ?case using x(1) y(1) by simp
qed simp

lemma field_at:
  fixes W I b :: nat
  assumes "0 < W" "I * W \<le> b" "b < I * W + W"
  shows "b div W = I" "b - I * W = b mod W"
proof -
  have "b = (b - I * W) + I * W" "b - I * W < W" using assms by linarith+
  then obtain r where r: "b = r + I * W" "r < W" by blast
  show "b div W = I" "b - I * W = b mod W" using r assms(1) by simp_all
qed

lemma low_word_bits:
  assumes "0 < W" "W \<le> 63" "(O' * 64 + 63) div W < length source"
  shows "\<exists>x. low_word W O' source = Inr x \<and>
    (\<forall>n<64. bit x n \<longleftrightarrow> bit (source ! ((64 * O' + n) div W)) ((64 * O' + n) mod W))"
proof -
  let ?I = "O' * 64 div W" and ?n = "(O' * 64 + 63) div W - O' * 64 div W + 1"
  have le: "?I \<le> (O' * 64 + 63) div W" by (simp add: div_le_mono)
  then have "?I + ?n \<le> length source" using assms(3) by linarith
  from low_join_bits [OF assms(2) this, of O'] obtain x where x: "low_word W O' source = Inr x"
    "\<And>m. m < 64 \<Longrightarrow> bit x m \<longleftrightarrow> (\<exists>J. ?I \<le> J \<and> J < ?I + ?n \<and> J * W \<le> 64 * O' + m \<and> 64 * O' + m < J * W + W \<and>
      bit (source ! J) (64 * O' + m - J * W))"
    unfolding low_word_def by blast
  have "bit x n \<longleftrightarrow> bit (source ! ((64 * O' + n) div W)) ((64 * O' + n) mod W)" if "n < 64" for n
  proof -
    let ?J = "(64 * O' + n) div W"
    have "?I \<le> ?J" "?J \<le> (O' * 64 + 63) div W" using that by (simp_all add: div_le_mono mult.commute)
    then have r: "?I \<le> ?J" "?J < ?I + ?n" using le by linarith+
    have s: "?J * W \<le> 64 * O' + n" "64 * O' + n < ?J * W + W"
      using assms(1) dividend_less_div_times [of W "64 * O' + n"] by simp_all
    show ?thesis unfolding x(2) [OF that] using r s field_at [OF assms(1)] by metis
  qed
  then show ?thesis using x(1) by blast
qed

text \<open>A tile writes whole words; the words before and after it stay as they are.\<close>

lemma low_tile_bits:
  assumes "0 < W" "W \<le> 63" "\<And>k. k < O' + n \<Longrightarrow> (k * 64 + 63) div W < length source" "base + O' + n \<le> length out"
  shows "\<exists>out'. low_tile W O' n source out base = Inr out' \<and> length out' = length out \<and>
    (\<forall>i. \<not> (base + O' \<le> i \<and> i < base + O' + n) \<longrightarrow> out' ! i = out ! i) \<and>
    (\<forall>k m. O' \<le> k \<longrightarrow> k < O' + n \<longrightarrow> m < 64 \<longrightarrow>
      bit (out' ! (base + k)) m = bit (source ! ((64 * k + m) div W)) ((64 * k + m) mod W))"
  using assms(3,4)
proof (induction n arbitrary: O' out)
  case (Suc n)
  obtain x where x: "low_word W O' source = Inr x"
    "\<And>m. m < 64 \<Longrightarrow> bit x m \<longleftrightarrow> bit (source ! ((64 * O' + m) div W)) ((64 * O' + m) mod W)"
    using low_word_bits [OF assms(1,2), of O' source] Suc.prems(1) [of O'] by auto
  have "\<And>k. k < Suc O' + n \<Longrightarrow> (k * 64 + 63) div W < length source" "base + Suc O' + n \<le> length (out[base + O' := x])"
    using Suc.prems by simp_all
  from Suc.IH [OF this] obtain out' where o: "low_tile W (Suc O') n source (out[base + O' := x]) base = Inr out'"
    "length out' = length out"
    "\<And>i. \<not> (base + Suc O' \<le> i \<and> i < base + Suc O' + n) \<Longrightarrow> out' ! i = out[base + O' := x] ! i"
    "\<And>k m. Suc O' \<le> k \<Longrightarrow> k < Suc O' + n \<Longrightarrow> m < 64 \<Longrightarrow>
      bit (out' ! (base + k)) m = bit (source ! ((64 * k + m) div W)) ((64 * k + m) mod W)"
    by auto
  have first: "out' ! (base + O') = x" using o(3) [of "base + O'"] Suc.prems(2) by simp
  show ?case
  proof (intro exI conjI allI impI)
    show "low_tile W O' (Suc n) source out base = Inr out'" using x(1) o(1) Suc.prems(2) by simp
    show "length out' = length out" by (rule o(2))
    show "out' ! i = out ! i" if "\<not> (base + O' \<le> i \<and> i < base + O' + Suc n)" for i
    proof -
      have "i \<noteq> base + O'" "\<not> (base + Suc O' \<le> i \<and> i < base + Suc O' + n)" using that by auto
      then show ?thesis using o(3) [of i] by simp
    qed
    show "bit (out' ! (base + k)) m = bit (source ! ((64 * k + m) div W)) ((64 * k + m) mod W)"
      if "O' \<le> k" "k < O' + Suc n" "m < 64" for k m
      using that first x(2) o(4) [of k m] by (cases "k = O'") simp_all
  qed
qed simp

lemma tile_shape:
  assumes "0 < W"
  shows "64 * tile_outputs W = W * tile_inputs W" "k < tile_outputs W \<Longrightarrow> (k * 64 + 63) div W < tile_inputs W"
proof -
  have d: "gcd W 64 dvd W" "gcd W 64 dvd 64" by simp_all
  show e: "64 * tile_outputs W = W * tile_inputs W"
    unfolding tile_outputs_def tile_inputs_def using d by (simp add: div_mult_swap mult.commute)
  assume "k < tile_outputs W"
  then have "64 * (k + 1) \<le> 64 * tile_outputs W" by (intro mult_left_mono) simp_all
  then have "k * 64 + 63 < W * tile_inputs W" unfolding e by simp
  then show "(k * 64 + 63) div W < tile_inputs W"
    using assms by (simp add: div_less_iff_less_mult mult.commute)
qed

text \<open>The low section as a sequence of bits: the fields in order.\<close>

definition low_ok :: "nat \<Rightarrow> u64 list \<Rightarrow> u64 list \<Rightarrow> nat \<Rightarrow> bool" where
  "low_ok W source out n \<longleftrightarrow> (\<forall>b < n * W. bitpos out b = bit (source ! (b div W)) (b mod W))"

lemma pack_tiles_bits:
  assumes W: "0 < W" "W \<le> 63" and size: "length source * W \<le> 64 * length out"
    and start: "at = tile_inputs W * t" "at \<le> length source" "low_ok W source out at"
  shows "\<exists>t' out'. pack_tiles W source out at = Inr (tile_inputs W * t', out') \<and> length out' = length out \<and>
    tile_inputs W * t' \<le> length source \<and> length source - tile_inputs W * t' < tile_inputs W \<and>
    low_ok W source out' (tile_inputs W * t')"
  using start size
proof (induction "length source - at" arbitrary: at t out rule: less_induct)
  case less
  let ?n = "tile_inputs W" and ?base = "t * tile_outputs W"
  show ?case
  proof (cases "?n \<le> length source - at")
    case False
    then show ?thesis using less.prems by (subst pack_tiles.simps) auto
  next
    case True
    have base: "at div ?n * tile_outputs W = ?base" "64 * ?base = at * W"
      using tile_inputs_pos [of W] tile_shape(1) [OF W(1)] by (simp_all add: less.prems(1) mult.assoc mult.left_commute)
    have fin: "64 * (?base + tile_outputs W) = (at + ?n) * W"
      using base(2) tile_shape(1) [OF W(1)] by (simp add: algebra_simps)
    also have "\<dots> \<le> length source * W" using True less.prems(2) by (intro mult_right_mono) simp_all
    finally have fits: "?base + 0 + tile_outputs W \<le> length out" using less.prems(4) by simp
    have inside: "(k * 64 + 63) div W < length (drop at source)" if "k < 0 + tile_outputs W" for k
      using tile_shape(2) [OF W(1), of k] that True by simp
    from low_tile_bits [OF W inside fits] obtain out' where o:
      "low_tile W 0 (tile_outputs W) (drop at source) out ?base = Inr out'" "length out' = length out"
      "\<And>i. \<not> (?base \<le> i \<and> i < ?base + tile_outputs W) \<Longrightarrow> out' ! i = out ! i"
      "\<And>k m. k < tile_outputs W \<Longrightarrow> m < 64 \<Longrightarrow>
        bit (out' ! (?base + k)) m = bit (drop at source ! ((64 * k + m) div W)) ((64 * k + m) mod W)"
      by auto
    have ok: "low_ok W source out' (at + ?n)"
      unfolding low_ok_def
    proof (intro allI impI)
      fix b assume b: "b < (at + ?n) * W"
      show "bitpos out' b = bit (source ! (b div W)) (b mod W)"
      proof (cases "b < at * W")
        case True
        then have "b div 64 < ?base" using base(2) by (simp add: div_less_iff_less_mult mult.commute)
        then show ?thesis using True less.prems(3) o(3) [of "b div 64"] by (simp add: bitpos_def low_ok_def)
      next
        case False
        define c where "c = b - at * W"
        have c: "b = 64 * ?base + c" using False base(2) by (simp add: c_def)
        have k: "c div 64 < tile_outputs W" using b unfolding fin [symmetric] c by (simp add: div_less_iff_less_mult)
        have d: "b div W = at + c div W" "b mod W = c mod W" unfolding c base(2) using W(1) by simp_all
        have "bitpos out' b = bit (out' ! (?base + c div 64)) (c mod 64)" unfolding bitpos_def c by simp
        also have "\<dots> = bit (drop at source ! (c div W)) (c mod W)" using o(4) [OF k, of "c mod 64"] by simp
        finally show ?thesis unfolding d using less.prems(2) by simp
      qed
    qed
    have nx: "at + ?n = ?n * Suc t" "at + ?n \<le> length source" "length source - (at + ?n) < length source - at"
      using less.prems(1,2) True tile_inputs_pos [of W] by simp_all
    have "length source * W \<le> 64 * length out'" using less.prems(4) o(2) by simp
    from less.hyps [OF nx(3,1,2) ok this] show ?thesis
      by (subst pack_tiles.simps) (use True o(1,2) in \<open>simp add: base(1)\<close>)
  qed
qed

text \<open>One field of the tail, which may straddle two words.\<close>

definition or_field :: "nat \<Rightarrow> u64 \<Rightarrow> u64 list \<Rightarrow> nat \<Rightarrow> u64 list res" where
  "or_field W field out first_bit =
     bindE (or_at out (first_bit div 64) (push_bit (first_bit mod 64) field)) (\<lambda>out.
       if first_bit mod 64 + W > 64 then or_at out (first_bit div 64 + 1) (drop_bit (64 - first_bit mod 64) field)
       else Inr out)"

lemma or_field_bits:
  assumes W: "0 < W" "W \<le> 63" and fits: "first_bit + W \<le> 64 * length out"
  shows "\<exists>out'. or_field W (x AND field_mask W) out first_bit = Inr out' \<and> length out' = length out \<and>
    (\<forall>b < 64 * length out. bitpos out' b = (bitpos out b \<or> first_bit \<le> b \<and> b < first_bit + W \<and> bit x (b - first_bit)))"
proof -
  let ?f = "x AND field_mask W" and ?q = "first_bit div 64" and ?s = "first_bit mod 64"
  have split: "first_bit = 64 * ?q + ?s" by simp
  have q: "?q < length out" using fits W(1) by linarith
  define one where "one = out[?q := out ! ?q OR push_bit ?s ?f]"
  define two where "two = (if ?s + W > 64 then one[?q + 1 := one ! (?q + 1) OR drop_bit (64 - ?s) ?f] else one)"
  have len: "length one = length out" "length two = length out" by (simp_all add: one_def two_def)
  have q1: "?s + W > 64 \<Longrightarrow> ?q + 1 < length out" using fits split by linarith
  have "or_at out ?q (push_bit ?s ?f) = Inr one" unfolding one_def by (rule or_at_in [OF q])
  moreover have "(if ?s + W > 64 then or_at one (?q + 1) (drop_bit (64 - ?s) ?f) else Inr one) = Inr two"
    unfolding two_def using q1 len(1) by (cases "?s + W > 64") (simp_all only: if_True if_False or_at_in simp_thms)
  ultimately have run: "or_field W ?f out first_bit = Inr two"
    unfolding or_field_def by (simp only: bindE_simps)
  have "bitpos two b = (bitpos out b \<or> first_bit \<le> b \<and> b < first_bit + W \<and> bit x (b - first_bit))"
    if "b < 64 * length out" for b
  proof -
    have b: "b = 64 * (b div 64) + b mod 64" "b mod 64 < 64" by simp_all
    consider (same) "b div 64 = ?q" | (succ) "b div 64 = ?q + 1" | (other) "b div 64 \<noteq> ?q" "b div 64 \<noteq> ?q + 1"
      by blast
    then show ?thesis
    proof cases
      case same
      have two: "bitpos two b = bit (out ! ?q OR push_bit ?s ?f) (b mod 64)"
        using q same unfolding bitpos_def two_def one_def by (simp add: nth_update_if)
      have ored: "bit (out ! ?q OR push_bit ?s ?f) (b mod 64) = (bitpos out b \<or> ?s \<le> b mod 64 \<and> b mod 64 - ?s < W \<and> bit x (b mod 64 - ?s))"
        using W(2) by (auto simp: bitpos_def same bit_or_iff bit_push_u64 bit_and_iff)
      have "b mod 64 - ?s = b - first_bit" "?s \<le> b mod 64 \<longleftrightarrow> first_bit \<le> b"
        using b(1) same split by linarith+
      then show ?thesis unfolding two ored by (auto simp: less_diff_conv2)
    next
      case succ
      have two: "bitpos two b = (bitpos out b \<or> ?s + W > 64 \<and> bit (drop_bit (64 - ?s) ?f) (b mod 64))"
        using q1 succ unfolding bitpos_def two_def one_def by (simp add: nth_update_if bit_or_iff)
      have e: "64 - ?s + b mod 64 = b - first_bit" "first_bit \<le> b"
        using b(1) succ split by linarith+
      have "bit (drop_bit (64 - ?s) ?f) (b mod 64) \<longleftrightarrow> b - first_bit < W \<and> bit x (b - first_bit)"
        using W(2) unfolding bit_drop_bit_eq comp_def e by (auto simp: bit_and_iff)
      moreover have "?s + W > 64" if "b < first_bit + W" using that b(1) succ split by linarith
      ultimately show ?thesis unfolding two using e(2) by (auto simp: less_diff_conv2)
    next
      case other
      have "b < first_bit \<or> first_bit + W \<le> b"
      proof (cases "b div 64 < ?q")
        case True
        then show ?thesis using b split by linarith
      next
        case False
        then have "?q + 2 \<le> b div 64" using other by linarith
        then show ?thesis using b split W(2) by linarith
      qed
      moreover have "bitpos two b = bitpos out b"
        using other unfolding bitpos_def two_def one_def by (simp add: nth_update_if)
      ultimately show ?thesis by auto
    qed
  qed
  then show ?thesis using run len(2) by blast
qed

lemma pack_tail_step:
  "pack_tail W (x # xs) out base i =
     bindE (or_field W (x AND field_mask W) out (64 * base + i * W)) (\<lambda>out. pack_tail W xs out base (i + 1))"
proof -
  have "(64 * base + i * W) div 64 = base + i * W div 64" "(64 * base + i * W) mod 64 = i * W mod 64" by simp_all
  then show ?thesis by (simp only: or_field_def pack_tail.simps Let_def bindE_assoc)
qed

lemma clear_words_eq: "i + n \<le> length out \<Longrightarrow>
    length (clear_words out i n) = length out \<and>
    (\<forall>j. clear_words out i n ! j = (if i \<le> j \<and> j < i + n then 0 else out ! j))"
proof (induction n arbitrary: out i)
  case (Suc n)
  have "clear_words out i (Suc n) ! j = (if i \<le> j \<and> j < i + Suc n then 0 else out ! j)" for j
    using Suc.IH [of "Suc i" "out[i := 0]"] Suc.prems by (auto simp: nth_update_if)
  then show ?case using Suc.IH [of "Suc i" "out[i := 0]"] Suc.prems by simp
qed auto

text \<open>\<open>i\<close> fields of the tail are in place and the rest of the section is clear.\<close>

definition packed :: "nat \<Rightarrow> u64 list \<Rightarrow> u64 list \<Rightarrow> nat \<Rightarrow> bool" where
  "packed W source out n \<longleftrightarrow>
     (\<forall>b < 64 * length out. bitpos out b = (b < n * W \<and> bit (source ! (b div W)) (b mod W)))"

lemma pack_tail_bits:
  assumes W: "0 < W" "W \<le> 63" and size: "length source * W \<le> 64 * length out"
    and base: "64 * base = at * W" and xs: "xs = drop (at + i) source" "at + i \<le> length source"
    and pre: "packed W source out (at + i)"
  shows "\<exists>out'. pack_tail W xs out base i = Inr out' \<and> length out' = length out \<and> packed W source out' (length source)"
  using size xs pre
proof (induction xs arbitrary: out i)
  case Nil
  then have "at + i = length source" by simp
  then show ?case using Nil by simp
next
  case (Cons x xs)
  have at: "at + i < length source" "x = source ! (at + i)" "xs = drop (at + (i + 1)) source"
    using Cons.prems(2,3) by (metis drop_all list.distinct(1) not_le nat_less_le,
      metis drop_all list.distinct(1) not_le hd_drop_conv_nth list.sel(1),
      metis Cons.prems(2) drop_Suc list.sel(3) tl_drop add_Suc_right Suc_eq_plus1)
  have first: "64 * base + i * W = (at + i) * W" unfolding base by (simp add: algebra_simps)
  have "(at + i) * W + W \<le> length source * W" using at(1) mult_le_mono1 [of "Suc (at + i)" "length source" W] by simp
  then have fits: "64 * base + i * W + W \<le> 64 * length out" unfolding first using Cons.prems(1) by linarith
  obtain out' where o: "or_field W (x AND field_mask W) out (64 * base + i * W) = Inr out'" "length out' = length out"
    "\<And>b. b < 64 * length out \<Longrightarrow> bitpos out' b = (bitpos out b \<or> (at + i) * W \<le> b \<and> b < (at + i) * W + W \<and>
      bit x (b - (at + i) * W))"
    using or_field_bits [OF W fits, of x] unfolding first by blast
  have "packed W source out' (at + (i + 1))"
    unfolding packed_def
  proof (intro allI impI)
    fix b assume b: "b < 64 * length out'"
    have "(at + i) * W \<le> b \<and> b < (at + i) * W + W \<and> bit x (b - (at + i) * W) \<longleftrightarrow>
        (at + i) * W \<le> b \<and> b < (at + i) * W + W \<and> bit (source ! (b div W)) (b mod W)"
      using field_at [OF W(1), of "at + i" b] at(2) by auto
    then have "bitpos out' b = (b < (at + i) * W \<and> bit (source ! (b div W)) (b mod W) \<or>
        (at + i) * W \<le> b \<and> b < (at + i) * W + W \<and> bit (source ! (b div W)) (b mod W))"
      using o(3) [of b] b o(2) Cons.prems(4) unfolding packed_def by simp
    moreover have "(at + (i + 1)) * W = (at + i) * W + W" by (simp add: algebra_simps)
    ultimately show "bitpos out' b = (b < (at + (i + 1)) * W \<and> bit (source ! (b div W)) (b mod W))" by auto
  qed
  moreover have "length source * W \<le> 64 * length out'" "at + (i + 1) \<le> length source"
    using Cons.prems(1) o(2) at(1) by simp_all
  ultimately obtain out'' where "pack_tail W xs out' base (i + 1) = Inr out''" "length out'' = length out'"
    "packed W source out'' (length source)"
    using Cons.IH [of out' "i + 1"] at(3) by blast
  then show ?case unfolding pack_tail_step using o(1,2) by simp
qed

lemma pack_low_fixed_bits:
  assumes "W \<le> 63" "length out = ef_words (length source * W)"
  shows "\<exists>out'. pack_low_fixed W source out = Inr out' \<and> length out' = length out \<and> packed W source out' (length source)"
proof (cases "W = 0")
  case True
  then show ?thesis using assms by (simp add: pack_low_fixed_def packed_def ef_words_def)
next
  case False
  then have W: "0 < W" "W \<le> 63" using assms(1) by simp_all
  have size: "length source * W \<le> 64 * length out" unfolding assms(2) ef_words_def by linarith
  have "low_ok W source out 0" by (simp add: low_ok_def)
  then obtain t out' where o: "pack_tiles W source out 0 = Inr (tile_inputs W * t, out')" "length out' = length out"
    "tile_inputs W * t \<le> length source" "low_ok W source out' (tile_inputs W * t)"
    using pack_tiles_bits [OF W size, of 0 0] by auto
  let ?at = "tile_inputs W * t" and ?base = "t * tile_outputs W"
  have base: "?at div tile_inputs W * tile_outputs W = ?base" "64 * ?base = ?at * W"
    using tile_inputs_pos [of W] tile_shape(1) [OF W(1)] by (simp_all add: mult.assoc mult.left_commute)
  have "64 * ?base \<le> 64 * length out" unfolding base(2) using mult_le_mono1 [OF o(3), of W] size by linarith
  then have le: "?base \<le> length out'" using o(2) by simp
  let ?clear = "clear_words out' ?base (length out' - ?base)"
  have clear: "length ?clear = length out'" "\<And>j. ?clear ! j = (if ?base \<le> j \<and> j < length out' then 0 else out' ! j)"
    using clear_words_eq [of ?base "length out' - ?base" out'] le by simp_all
  have "packed W source ?clear (?at + 0)"
    unfolding packed_def
  proof (intro allI impI)
    fix b assume b: "b < 64 * length ?clear"
    then have w: "b div 64 < length out'" unfolding clear(1) by (simp add: div_less_iff_less_mult mult.commute)
    have "?base \<le> b div 64 \<longleftrightarrow> \<not> b < ?at * W"
      unfolding base(2) [symmetric] using div_less_iff_less_mult [of 64 b ?base] by (simp add: mult.commute linorder_not_less [symmetric])
    then show "bitpos ?clear b = (b < (?at + 0) * W \<and> bit (source ! (b div W)) (b mod W))"
      using w o(4) by (auto simp: bitpos_def clear(2) low_ok_def)
  qed
  then have "\<exists>out''. pack_tail W (drop (?at + 0) source) ?clear ?base 0 = Inr out'' \<and> length out'' = length ?clear \<and>
      packed W source out'' (length source)"
    using size o(2,3) by (intro pack_tail_bits [OF W _ base(2)]) (simp_all add: clear(1) [unfolded o(2)] o(2))
  then show ?thesis
    using False o(1,2) le base(1) clear(1) unfolding pack_low_fixed_def by (auto simp: Let_def not_less)
qed

lemma pack_low_bits:
  assumes "low_width \<le> 63" "low_width \<noteq> 0 \<Longrightarrow> length source \<le> (u64_max - 63) div low_width"
    and "length out = ef_words (length source * low_width)"
  shows "\<exists>out'. pack_low source out low_width = Inr out' \<and> length out' = length out \<and>
    packed low_width source out' (length source)"
  using pack_low_fixed_bits [OF assms(1,3)] assms unfolding pack_low_def by (auto simp: not_less)

end
