(* ===== verification/EliasHigh.thy ===== *)
theory EliasHigh
  imports EliasPack
begin

text \<open>
  The high section of an Elias-Fano directory as a set of positions: what the writer leaves, and
  how a scan through its words finds the one of a given ordinal.
\<close>

section \<open>Positions\<close>

definition positions :: "nat \<Rightarrow> u64 list \<Rightarrow> nat list" where
  "positions w vs = map (\<lambda>i. unat (drop_bit w (vs ! i)) + i) [0..<length vs]"

lemma length_positions [simp]: "length (positions w vs) = length vs"
  by (simp add: positions_def)

lemma nth_positions [simp]: "i < length vs \<Longrightarrow> positions w vs ! i = unat (drop_bit w (vs ! i)) + i"
  by (simp add: positions_def)

lemma drop_bit_mono: "x \<le> y \<Longrightarrow> unat (drop_bit w x) \<le> unat (drop_bit w y)" for x y :: u64
  unfolding word_le_nat_alt unat_drop_bit_eq by (simp add: drop_bit_eq_div div_le_mono)

lemma positions_less:
  assumes "sorted vs" "i < j" "j < length vs"
  shows "positions w vs ! i < positions w vs ! j"
  using drop_bit_mono [OF sorted_nth_mono [OF assms(1), of i j], of w] assms(2,3) by simp

lemma sorted_positions: "sorted vs \<Longrightarrow> sorted_wrt (<) (positions w vs)"
  by (simp add: sorted_wrt_iff_nth_less positions_less del: nth_positions)

lemma high_position_eq:
  assumes "unat (drop_bit w (vs ! i)) + i < 2 ^ 64"
  shows "high_position w vs i = unat (drop_bit w (vs ! i)) + i"
proof -
  have "i < 2 ^ 64" using assms by linarith
  then have "unat (of_nat i :: u64) = i" by (rule unat_of_nat_u64)
  then show ?thesis using assms unfolding high_position_def by (subst unat_add_lem [THEN iffD1]) simp_all
qed

section \<open>Ones in order\<close>

definition set_bits :: "u64 list \<Rightarrow> nat \<Rightarrow> nat list" where
  "set_bits ws a = filter (bitpos ws) [a..<64 * length ws]"

lemma set_bits_from: "set_bits ws a = filter (\<lambda>p. a \<le> p) (set_bits ws 0)"
proof (cases "a \<le> 64 * length ws")
  case True
  have "filter (\<lambda>p. a \<le> p \<and> bitpos ws p) [0..<a] = []" by (simp add: filter_empty_conv)
  moreover have "filter (\<lambda>p. a \<le> p \<and> bitpos ws p) [a..<64 * length ws] = filter (bitpos ws) [a..<64 * length ws]"
    by (rule filter_cong) simp_all
  ultimately show ?thesis
    using True upt_add_eq_append [of 0 a "64 * length ws - a"] by (simp add: set_bits_def conj_commute)
next
  case False
  then show ?thesis by (auto simp: set_bits_def filter_empty_conv)
qed

lemma set_bits_positions:
  assumes "set_bits ws 0 = positions w vs" "sorted vs" "k < length vs"
  shows "set_bits ws (positions w vs ! k) = drop k (positions w vs)"
proof -
  let ?p = "positions w vs"
  have s: "sorted_wrt (<) ?p" by (rule sorted_positions [OF assms(2)])
  have "filter (\<lambda>q. ?p ! k \<le> q) ?p = drop k ?p"
  proof (rule strict_sorted_equal)
    show "sorted_wrt (<) (filter (\<lambda>q. ?p ! k \<le> q) ?p)" "sorted_wrt (<) (drop k ?p)"
      using s by (simp_all add: sorted_wrt_filter sorted_wrt_drop)
    show "set (filter (\<lambda>q. ?p ! k \<le> q) ?p) = set (drop k ?p)"
    proof (intro equalityI subsetI)
      fix q assume "q \<in> set (filter (\<lambda>q. ?p ! k \<le> q) ?p)"
      then obtain j where j: "j < length vs" "q = ?p ! j" "?p ! k \<le> q" by (auto simp: in_set_conv_nth)
      then have "k \<le> j" using positions_less [OF assms(2), of j k w] assms(3) by (metis not_le)
      then show "q \<in> set (drop k ?p)" using j by (auto simp: in_set_conv_nth intro!: exI [of _ "j - k"])
    next
      fix q assume "q \<in> set (drop k ?p)"
      then obtain j where "j < length (drop k ?p)" "q = drop k ?p ! j" by (metis in_set_conv_nth)
      then have j: "k + j < length vs" "q = ?p ! (k + j)" using assms(3) by (simp_all del: nth_positions)
      then have "?p ! k \<le> q" using positions_less [OF assms(2), of k "k + j" w] by (cases j) (simp_all add: less_imp_le)
      then show "q \<in> set (filter (\<lambda>q. ?p ! k \<le> q) ?p)" using j by (auto simp: in_set_conv_nth)
    qed
  qed
  then show ?thesis unfolding set_bits_from [of ws "?p ! k"] assms(1) .
qed

lemma bit_from_bit: "n < 64 \<Longrightarrow> bit (x AND from_bit k) n \<longleftrightarrow> k \<le> n \<and> bit x n"
  by (auto simp: from_bit_def bit_and_iff bit_not_iff bit_mask_iff)

lemma set_bits_word:
  assumes "i < length ws" "k < 64"
  shows "set_bits ws (64 * i + k) = map ((+) (64 * i)) (ones (ws ! i AND from_bit k)) @ set_bits ws (64 * (i + 1))"
proof -
  have "[64 * i + k..<64 * length ws] = [64 * i + k..<64 * i + 64] @ [64 * (i + 1)..<64 * length ws]"
    using assms upt_add_eq_append [of "64 * i + k" "64 * i + 64" "64 * length ws - (64 * i + 64)"] by (simp add: add.commute)
  moreover have "[64 * i + k..<64 * i + 64] = map ((+) (64 * i)) [k..<64]"
    using map_add_upt [of "64 * i" "64"] by (intro nth_equalityI) simp_all
  moreover have "ones (ws ! i AND from_bit k) = filter (bit (ws ! i)) [k..<64]"
  proof -
    have "[0..<64] = [0..<k] @ [k..<64]" using assms(2) upt_add_eq_append [of 0 k "64 - k"] by simp
    moreover have "filter (bit (ws ! i AND from_bit k)) [0..<k] = []"
      using assms(2) by (simp add: filter_empty_conv bit_from_bit)
    moreover have "filter (bit (ws ! i AND from_bit k)) [k..<64] = filter (bit (ws ! i)) [k..<64]"
      by (rule filter_cong) (simp_all add: bit_from_bit)
    ultimately show ?thesis by (simp add: ones_def)
  qed
  moreover have "filter (bitpos ws) (map ((+) (64 * i)) [k..<64]) = map ((+) (64 * i)) (filter (bit (ws ! i)) [k..<64])"
    by (auto simp: filter_map comp_def bitpos_join intro!: arg_cong [where f = "map _"] filter_cong)
  ultimately show ?thesis by (simp add: set_bits_def)
qed

lemma set_bits_beyond: "64 * length ws \<le> a \<Longrightarrow> set_bits ws a = []"
  by (simp add: set_bits_def)

lemma from_bit_0 [simp]: "x AND from_bit 0 = x"
  by (simp add: from_bit_def)

lemma ones_range: "q \<in> set (ones x) \<Longrightarrow> q < 64" "bit x q \<Longrightarrow> q \<in> set (ones x)" "q \<in> set (ones x) \<Longrightarrow> bit x q"
  by (auto simp: ones_def bit_top)

section \<open>Writing\<close>

text \<open>The writer's state after \<open>i\<close> values: finished words below \<open>at\<close>, one pending word, zeroes.\<close>

definition high_state :: "nat set \<Rightarrow> nat \<Rightarrow> u64 \<Rightarrow> u64 list \<Rightarrow> bool" where
  "high_state P at pending out \<longleftrightarrow>
     (\<forall>b < 64 * length out. bitpos out b = (b \<in> P \<and> b div 64 \<noteq> at)) \<and>
     (\<forall>m < 64. bit pending m = (64 * at + m \<in> P)) \<and> (\<forall>p\<in>P. p div 64 \<le> at)"

lemma bitpos_update: "b < 64 * length ws \<Longrightarrow>
    bitpos (ws[i := x]) b = (if b div 64 = i then bit x (b mod 64) else bitpos ws b)"
proof -
  assume "b < 64 * length ws"
  then have "b div 64 < length ws" by (simp add: div_less_iff_less_mult mult.commute)
  then show ?thesis by (auto simp: bitpos_def nth_update_if)
qed

lemma high_state_flush:
  assumes "high_state P at pending out" "at < length out"
  shows "\<forall>b < 64 * length out. bitpos (out[at := pending]) b = (b \<in> P)"
proof (intro allI impI)
  fix b assume b: "b < 64 * length out"
  have "64 * (b div 64) + b mod 64 = b" by simp
  then show "bitpos (out[at := pending]) b = (b \<in> P)"
    using assms(1) b unfolding high_state_def bitpos_update [OF b] by (metis mod_less_divisor zero_less_numeral)
qed

lemma high_state_step:
  assumes s: "high_state P at pending out" and p: "p \<notin> P" "\<And>q. q \<in> P \<Longrightarrow> q < p" "p < 64 * length out"
    and at: "at < length out" "at \<le> p div 64"
  shows "\<exists>pending' out'. (if p div 64 \<noteq> at then bindE (put_at out at pending) (\<lambda>out. Inr (p div 64, 0, out))
       else Inr (at, pending, out)) = Inr (p div 64, pending', out') \<and> length out' = length out \<and>
     high_state (insert p P) (p div 64) (pending' OR push_bit (p mod 64) 1) out'"
proof -
  have split: "64 * (p div 64) + m = p \<longleftrightarrow> m = p mod 64" if "m < 64" for m
    using that by (metis div_mult_mod_eq add_left_cancel mult.commute)
  have fresh: "bit (push_bit (p mod 64) 1 :: u64) m \<longleftrightarrow> 64 * (p div 64) + m = p" if "m < 64" for m
    unfolding split [OF that] bit_push_u64 using that by (auto simp: bit_1_iff)
  have le: "q div 64 \<le> p div 64" if "q \<in> P" for q using p(2) [OF that] by (simp add: div_le_mono)
  show ?thesis
  proof (cases "p div 64 = at")
    case True
    have "high_state (insert p P) at (pending OR push_bit (p mod 64) 1) out"
      using s fresh le unfolding high_state_def True [symmetric] bit_or_iff by auto
    then show ?thesis using True by auto
  next
    case False
    have flush: "\<forall>b < 64 * length out. bitpos (out[at := pending]) b = (b \<in> P)"
      by (rule high_state_flush [OF s at(1)])
    have none: "q div 64 \<noteq> p div 64" if "q \<in> P" for q
      using False at(2) s that unfolding high_state_def by (metis le_antisym)
    have clear: "64 * (p div 64) + m \<notin> P" if "m < 64" for m using none [of "64 * (p div 64) + m"] that by auto
    have "high_state (insert p P) (p div 64) (0 OR push_bit (p mod 64) 1) (out[at := pending])"
      using flush fresh le none clear unfolding high_state_def bit_or_iff by auto
    then show ?thesis using False at(1) by auto
  qed
qed

lemma write_high_loop_bits:
  assumes vs: "sorted vs" "\<And>i. i < length vs \<Longrightarrow> positions w vs ! i < 64 * length out"
      "\<And>i. i < length vs \<Longrightarrow> positions w vs ! i < 2 ^ 64"
    and i: "i \<le> length vs" and at: "at < length out" "at = (if i = 0 then 0 else positions w vs ! (i - 1) div 64)"
    and s: "high_state (set (take i (positions w vs))) at pending out"
  shows "\<exists>at' pending' out'. write_high_loop vs w i at pending out = Inr (at', pending', out') \<and>
    at' < length out \<and> length out' = length out \<and> high_state (set (positions w vs)) at' pending' out'"
  using vs(2) i at s
proof (induction "length vs - i" arbitrary: i at pending out)
  case 0
  then show ?case by (subst write_high_loop.simps) simp
next
  case (Suc n)
  let ?p = "positions w vs ! i" and ?P = "set (take i (positions w vs))"
  have i: "i < length vs" using Suc.hyps(2) by simp
  have p: "high_position w vs i = ?p" using high_position_eq [of w vs i] vs(3) [OF i] i by simp
  have less: "q < ?p" if q: "q \<in> ?P" for q
  proof -
    obtain j where "j < i" "q = positions w vs ! j" using q i by (auto simp: in_set_conv_nth)
    then show ?thesis using positions_less [OF vs(1)] i by blast
  qed
  have "positions w vs ! (i - 1) \<le> ?p" using positions_less [OF vs(1), of "i - 1" i w] i by (cases i) (simp_all add: less_imp_le)
  then have at: "at \<le> ?p div 64" unfolding Suc.prems(4) by (simp add: div_le_mono)
  have "?p < 64 * length out" by (rule Suc.prems(1) [OF i])
  then obtain pending' out' where o: "(if ?p div 64 \<noteq> at then bindE (put_at out at pending) (\<lambda>out. Inr (?p div 64, 0, out))
       else Inr (at, pending, out)) = Inr (?p div 64, pending', out')" "length out' = length out"
     "high_state (insert ?p ?P) (?p div 64) (pending' OR push_bit (?p mod 64) 1) out'"
    using high_state_step [OF Suc.prems(5) _ less _ Suc.prems(3) at] less by blast
  have P: "insert ?p ?P = set (take (Suc i) (positions w vs))"
    using i by (simp add: take_Suc_conv_app_nth del: nth_positions)
  have "\<exists>at' pending'' out''. write_high_loop vs w (Suc i) (?p div 64) (pending' OR push_bit (?p mod 64) 1) out' = Inr (at', pending'', out'') \<and>
      at' < length out' \<and> length out'' = length out' \<and> high_state (set (positions w vs)) at' pending'' out''"
  proof (rule Suc.hyps(1))
    show "n = length vs - Suc i" using Suc.hyps(2) by simp
    show "?p div 64 < length out'" using Suc.prems(1) [OF i] o(2) by (simp add: div_less_iff_less_mult mult.commute)
    show "high_state (set (take (Suc i) (positions w vs))) (?p div 64) (pending' OR push_bit (?p mod 64) 1) out'"
      using o(3) unfolding P .
  qed (use Suc.prems(1) o(2) i in simp_all)
  moreover have "write_high_loop vs w i at pending out =
      write_high_loop vs w (Suc i) (?p div 64) (pending' OR push_bit (?p mod 64) 1) out'"
    by (subst write_high_loop.simps) (simp only: i p Let_def o(1) if_True bindE_simps prod.case Suc_eq_plus1)
  ultimately show ?case using o(2) by simp
qed

lemma write_high_bits:
  assumes vs: "sorted vs" "vs \<noteq> []" and top: "unat (drop_bit w (last vs)) + length vs \<le> 64 * N"
      "unat (drop_bit w (last vs)) + length vs \<le> 2 ^ 64"
  shows "\<exists>high. write_high vs (replicate N 0) w = Inr high \<and> length high = N \<and> set_bits high 0 = positions w vs"
proof -
  have le: "positions w vs ! i < unat (drop_bit w (last vs)) + length vs" if "i < length vs" for i
  proof -
    have "vs ! i \<le> last vs" using that vs by (simp add: last_conv_nth sorted_nth_mono)
    then show ?thesis using drop_bit_mono [of "vs ! i" "last vs" w] that by simp
  qed
  have "0 < N" using top(1) vs(2) by (cases N) auto
  moreover have "high_state (set (take 0 (positions w vs))) 0 0 (replicate N 0)"
    by (simp add: high_state_def)
  ultimately obtain at pending out where o: "write_high_loop vs w 0 0 0 (replicate N 0) = Inr (at, pending, out)"
    "at < N" "length out = N" "high_state (set (positions w vs)) at pending out"
    using write_high_loop_bits [OF vs(1), of w "replicate N 0" 0 0 0] less_le_trans [OF le top(1)]
      less_le_trans [OF le top(2)] by (auto simp del: nth_positions)
  have bits: "\<forall>b < 64 * length out. bitpos (out[at := pending]) b = (b \<in> set (positions w vs))"
    by (rule high_state_flush) (use o in simp_all)
  have "set_bits (out[at := pending]) 0 = positions w vs"
  proof (rule strict_sorted_equal)
    show "sorted_wrt (<) (set_bits (out[at := pending]) 0)" by (simp add: set_bits_def sorted_wrt_filter)
    show "sorted_wrt (<) (positions w vs)" by (rule sorted_positions [OF vs(1)])
    have "q < 64 * N" if "q \<in> set (positions w vs)" for q
      using that le top(1) by (fastforce simp: in_set_conv_nth simp del: nth_positions)
    then show "set (set_bits (out[at := pending]) 0) = set (positions w vs)"
      using bits o(3) by (auto simp: set_bits_def)
  qed
  then show ?thesis using o vs(2) by (auto simp: write_high_def)
qed

end
