(* ===== verification/EliasSelect.thy ===== *)
theory EliasSelect
  imports EliasHigh
begin

text \<open>
  Elias-Fano directories from end to end: a view whose sections hold the encoding of a sequence
  selects every element of it, the forward cursor walks it, the builder produces such sections in
  native words, and the same words shipped as little-endian bytes read the same on either host.
\<close>

section \<open>Sections and encodings\<close>

definition reads :: "bool \<Rightarrow> word_view \<Rightarrow> u64 list \<Rightarrow> bool" where
  "reads host w ws \<longleftrightarrow> view_size w = length ws \<and> (\<forall>i < length ws. word_at host w i = Inr (ws ! i))"

lemma readsD: "reads host w ws \<Longrightarrow> view_size w = length ws" "reads host w ws \<Longrightarrow> i < length ws \<Longrightarrow> word_at host w i = Inr (ws ! i)"
  by (simp_all add: reads_def)

definition sample_fits :: "bool \<Rightarrow> elias_fano_view \<Rightarrow> u64 list \<Rightarrow> u64 list \<Rightarrow> nat \<Rightarrow> bool" where
  "sample_fits host v sps vs g \<longleftrightarrow> (\<exists>s. sample_at host (v_samples v) g = Inr s \<and>
     unat (sample_first s) = positions (v_low_width v) vs ! (256 * g) \<and>
     (\<forall>i < length vs. i div 256 = g \<longrightarrow>
       (if sample_sparse s = dense_group then positions (v_low_width v) vs ! i < unat (sample_first s) + 4096
        else unat (sample_sparse s) + i mod 256 < length sps \<and>
             unat (sps ! (unat (sample_sparse s) + i mod 256)) = positions (v_low_width v) vs ! i)))"

definition encodes :: "bool \<Rightarrow> elias_fano_view \<Rightarrow> u64 list \<Rightarrow> bool" where
  "encodes host v vs \<longleftrightarrow> (\<exists>lows highs sps.
     reads host (v_low v) lows \<and> reads host (v_high v) highs \<and> reads host (v_sparse v) sps \<and>
     v_entry_count v = length vs \<and> v_low_width v \<le> 63 \<and> sorted vs \<and> length vs \<le> 2 ^ 63 \<and>
     length vs * v_low_width v \<le> 64 * length lows \<and> packed (v_low_width v) vs lows (length vs) \<and>
     set_bits highs 0 = positions (v_low_width v) vs \<and>
     (\<forall>x\<in>set vs. x \<le> v_universe v) \<and>
     (\<forall>p\<in>set (positions (v_low_width v) vs). p < v_high_bits v) \<and>
     (\<forall>i < length vs. sample_fits host v sps vs (i div 256)))"

text \<open>Decoding joins the two parts.\<close>

lemma next_word_bit: "64 \<le> b mod 64 + m \<Longrightarrow> b + m = 64 * (b div 64 + 1) + (b mod 64 + m - 64)" for b m :: nat
proof -
  define q r where "q = b div 64" and "r = b mod 64"
  assume "64 \<le> b mod 64 + m"
  moreover have "b = 64 * q + r" by (simp add: q_def r_def)
  ultimately show ?thesis by (simp flip: q_def r_def)
qed

lemma decode_fields:
  assumes low: "reads host (v_low v) lows" "packed (v_low_width v) vs lows (length vs)"
      "length vs * v_low_width v \<le> 64 * length lows" "v_low_width v \<le> 63"
    and i: "i < length vs" "vs ! i \<le> v_universe v"
  shows "ef_decode host v i (positions (v_low_width v) vs ! i) = Inr (vs ! i)"
proof -
  let ?w = "v_low_width v" and ?x = "vs ! i"
  have hi: "positions ?w vs ! i - i = unat (drop_bit ?w ?x)" "\<not> positions ?w vs ! i < i" using i(1) by simp_all
  have le: "\<not> unat (drop_bit ?w ?x) > unat (drop_bit ?w (v_universe v))" using drop_bit_mono [OF i(2)] by (simp add: not_less)
  have lo: "(if ?w \<noteq> 0 then
       let bit_pos = i * ?w; at = bit_pos div 64; shift = bit_pos mod 64 in
       bindE (word_at host (v_low v) at) (\<lambda>x.
       bindE (if shift + ?w > 64
              then bindE (word_at host (v_low v) (at + 1)) (\<lambda>y. Inr (drop_bit shift x OR push_bit (64 - shift) y))
              else Inr (drop_bit shift x)) (\<lambda>lo. Inr (lo AND field_mask ?w)))
     else Inr 0) = Inr (take_bit ?w ?x)"
  proof (cases "?w = 0")
    case False
    let ?b = "i * ?w" let ?at = "?b div 64" and ?s = "?b mod 64"
    have split: "?b = 64 * ?at + ?s" by simp
    have end_at: "?b + ?w \<le> 64 * length lows"
    proof -
      have "Suc i * ?w \<le> length vs * ?w" using i(1) by (intro mult_le_mono1) simp
      then show ?thesis using low(3) by simp
    qed
    then have at: "?at < length lows" "?s + ?w > 64 \<Longrightarrow> ?at + 1 < length lows" using False split by linarith+
    define lo where "lo = (if ?s + ?w > 64 then drop_bit ?s (lows ! ?at) OR push_bit (64 - ?s) (lows ! (?at + 1))
      else drop_bit ?s (lows ! ?at))"
    have bits: "bit lo m \<longleftrightarrow> bitpos lows (?b + m)" if m: "m < ?w" for m
    proof (cases "?s + m < 64")
      case True
      have "\<not> 64 - ?s \<le> m" using True by linarith
      then have "bit (push_bit (64 - ?s) (lows ! (?at + 1))) m = False" by (simp add: bit_push_u64)
      moreover have "bitpos lows (?b + m) = bit (lows ! ?at) (?s + m)"
        using bitpos_join [OF True, of lows ?at] unfolding split [symmetric] by (simp add: add.assoc [symmetric])
      ultimately show ?thesis by (simp add: lo_def bit_or_iff bit_drop_bit_eq)
    next
      case False
      have "?b + m = 64 * (?at + 1) + (?s + m - 64)" by (rule next_word_bit) (use False in simp)
      moreover have "?s + m - 64 < 64" using m low(4) by (simp add: less_diff_conv2)
      ultimately have "bitpos lows (?b + m) = bit (lows ! (?at + 1)) (?s + m - 64)" using bitpos_join by metis
      moreover have "\<not> bit (drop_bit ?s (lows ! ?at)) m" using False bit_top [of "lows ! ?at" "?s + m"] by (auto simp: bit_drop_bit_eq)
      moreover have "m - (64 - ?s) = ?s + m - 64" "64 - ?s \<le> m" "m < 64" using False m low(4) by simp_all
      moreover have "?s + ?w > 64" using False m by linarith
      ultimately show ?thesis by (simp add: lo_def bit_or_iff bit_push_u64)
    qed
    have "bit (lo AND field_mask ?w) m \<longleftrightarrow> bit (take_bit ?w ?x) m" for m
    proof (cases "m < ?w")
      case True
      have "?b + m < 64 * length lows" "?b + m < length vs * ?w" using True end_at i(1) mult_le_mono1 [of "Suc i" "length vs" ?w] by simp_all
      then have "bitpos lows (?b + m) = bit (vs ! ((?b + m) div ?w)) ((?b + m) mod ?w)"
        using low(2) unfolding packed_def by simp
      also have "\<dots> = bit ?x m" using field_at [of ?w i "?b + m"] True by simp
      finally show ?thesis using True bits [OF True] low(4) by (simp add: bit_and_iff bit_take_bit_iff)
    qed (use low(4) in \<open>simp add: bit_and_iff bit_take_bit_iff\<close>)
    then have "lo AND field_mask ?w = take_bit ?w ?x" by (simp add: bit_eq_iff)
    then show ?thesis
      using False readsD(2) [OF low(1) at(1)] readsD(2) [OF low(1) at(2)] by (simp add: Let_def flip: lo_def)
        (auto simp: lo_def)
  qed simp
  have "push_bit ?w (of_nat (unat (drop_bit ?w ?x))) OR take_bit ?w ?x = ?x"
    by (simp add: bits_ident [of ?w ?x] disjunctive_add_eq_or [symmetric] push_bit_take_bit) (simp add: bit_eq_iff bit_or_iff bit_push_u64 bit_take_bit_iff bit_drop_bit_eq; auto simp: bit_top)
  then show ?thesis using hi le i(2) unfolding ef_decode_def lo by (simp add: Let_def not_less [symmetric])
qed

section \<open>Selection\<close>

lemma popcount_ones: "popcount x = length (ones x)"
  by (simp add: popcount_def)

text \<open>
  The scan: the ones from the current word on are those of \<open>bits\<close> followed by those of the later
  words, and the target is the one with index \<open>remaining\<close> among them.
\<close>

lemma scan_dense_correct:
  assumes h: "reads host (v_high v) highs" and t: "t < v_high_bits v" "first_one \<le> t" "t < first_one + 4096"
    and at: "first_one div 64 + scanned = at" "at < length highs"
    and target: "remaining < length (set_bits highs (64 * at + k))" "k < 64"
      "set_bits highs (64 * at + k) ! remaining = t" "scanned = 0 \<Longrightarrow> bits = highs ! at AND from_bit k" "scanned \<noteq> 0 \<Longrightarrow> k = 0"
  shows "scan_dense host v first_one scanned at bits remaining = Inr t"
  using at target
proof (induction "65 - scanned" arbitrary: scanned at bits remaining k rule: less_induct)
  case less
  note at = less.prems(1,2) and target = less.prems(3-7)
  let ?ones = "ones (highs ! at AND from_bit k)"
  have split: "set_bits highs (64 * at + k) = map ((+) (64 * at)) ?ones @ set_bits highs (64 * (at + 1))"
    by (rule set_bits_word [OF at(2) target(2)])
  have "t \<in> set (set_bits highs (64 * at + k))" using target(1,3) nth_mem by blast
  then have t1: "64 * at + k \<le> t" by (simp add: set_bits_def)
  then have s: "scanned < 65" using at(1) t(3) by linarith
  have bits: "(if scanned \<noteq> 0 then word_at host (v_high v) at else Inr bits) = Inr (highs ! at AND from_bit k)"
    using readsD(2) [OF h at(2)] target(4,5) by simp
  have size: "at < view_size (v_high v)" using readsD(1) [OF h] at(2) by simp
  show ?case
  proof (cases "remaining < popcount (highs ! at AND from_bit k)")
    case True
    then have "t = at * 64 + select_word (highs ! at AND from_bit k) remaining"
      using target(3) unfolding split by (simp add: nth_append popcount_ones select_word_ones)
    then show ?thesis
      using s bits size True t by (subst scan_dense.simps) (simp add: Let_def too_far_def)
  next
    case False
    then have r: "set_bits highs (64 * (at + 1)) ! (remaining - popcount (highs ! at AND from_bit k)) = t"
        "remaining - popcount (highs ! at AND from_bit k) < length (set_bits highs (64 * (at + 1)))"
      using target(1,3) unfolding split by (simp_all add: nth_append popcount_ones not_less)
    then have "64 * (at + 1) < 64 * length highs"
      by (metis less_nat_zero_code list.size(3) not_le set_bits_beyond)
    then have next_at: "at + 1 < length highs" by simp
    have "64 * (at + 1) \<le> t" using r nth_mem [OF r(2)] by (simp add: set_bits_def)
    have "scan_dense host v first_one (scanned + 1) (at + 1) (highs ! at AND from_bit k)
        (remaining - popcount (highs ! at AND from_bit k)) = Inr t"
      by (rule less.hyps [where k = 0]) (use s at next_at r in simp_all)
    then show ?thesis
      using s bits size False by (subst scan_dense.simps) (simp add: Let_def)
  qed
qed

lemma high_bit_correct:
  assumes "reads host (v_high v) highs" "p \<in> set (set_bits highs 0)"
  shows "high_bit host v p = Inr True"
proof -
  have "p div 64 < length highs" "bit (highs ! (p div 64)) (p mod 64)"
    using assms(2) by (simp_all add: set_bits_def bitpos_def div_less_iff_less_mult mult.commute)
  then show ?thesis
    using readsD(2) [OF assms(1)] by (simp add: high_bit_def bit_iff_and_push_bit_not_eq_0)
qed

lemma sparse_position_correct:
  assumes s: "reads host (v_sparse v) sps" and h: "reads host (v_high v) highs"
    and p: "unat (sample_sparse sample) + lane < length sps" "unat (sps ! (unat (sample_sparse sample) + lane)) = p"
      "p < v_high_bits v" "p \<in> set (set_bits highs 0)"
  shows "sparse_position host v sample lane = Inr p"
  using p readsD [OF s] high_bit_correct [OF h p(4)] unfolding sparse_position_def by (simp add: Let_def)

lemma position_range:
  assumes "set_bits highs 0 = positions w vs" "i < length vs"
  shows "positions w vs ! i \<in> set (set_bits highs 0)" "positions w vs ! i div 64 < length highs"
proof -
  show "positions w vs ! i \<in> set (set_bits highs 0)" using assms by (simp del: nth_positions)
  then show "positions w vs ! i div 64 < length highs"
    by (simp add: set_bits_def div_less_iff_less_mult mult.commute)
qed

lemma group_start:
  fixes i n :: nat
  assumes "i < n"
  shows "256 * (i div 256) \<le> i" "256 * (i div 256) < n" "i = 256 * (i div 256) + i mod 256"
    "i mod 256 < n - 256 * (i div 256)"
proof -
  show s: "i = 256 * (i div 256) + i mod 256" by simp
  show le: "256 * (i div 256) \<le> i" by simp
  show "256 * (i div 256) < n" using le assms by (rule le_less_trans)
  have "i mod 256 = i - 256 * (i div 256)" by (simp add: minus_mult_div_eq_mod)
  then show "i mod 256 < n - 256 * (i div 256)" using le assms by (simp add: diff_less_mono)
qed

lemma select_high_correct:
  assumes e: "encodes host v vs" and i: "i < length vs"
  shows "select_high host v i = Inr (positions (v_low_width v) vs ! i)"
proof -
  let ?p = "positions (v_low_width v) vs" and ?g = "i div 256"
  obtain highs sps where h: "reads host (v_high v) highs" and sp: "reads host (v_sparse v) sps"
    and so: "sorted vs" and bits: "set_bits highs 0 = ?p" and lt: "?p ! i < v_high_bits v"
    and fit: "sample_fits host v sps vs ?g" and less: "\<forall>p\<in>set ?p. p < v_high_bits v"
    using e i unfolding encodes_def by (auto simp del: nth_positions)
  obtain s where s: "sample_at host (v_samples v) ?g = Inr s" "unat (sample_first s) = ?p ! (256 * ?g)"
    "if sample_sparse s = dense_group then ?p ! i < unat (sample_first s) + 4096
     else unat (sample_sparse s) + i mod 256 < length sps \<and> unat (sps ! (unat (sample_sparse s) + i mod 256)) = ?p ! i"
    using fit i unfolding sample_fits_def by (auto simp del: nth_positions)
  note range = position_range [OF bits i]
  show ?thesis
  proof (cases "sample_sparse s = dense_group")
    case False
    then have "sparse_position host v s (i mod 256) = Inr (?p ! i)"
      using s(3) lt range(1) by (intro sparse_position_correct [OF sp h]) simp_all
    then show ?thesis using s(1) False by (simp add: select_high_def Let_def)
  next
    case True
    let ?f = "unat (sample_first s)"
    have g: "256 * ?g < length vs" "256 * ?g \<le> i" using group_start [OF i] by simp_all
    have f: "?f \<le> ?p ! i" using positions_less [OF so _ i, of "256 * ?g" "v_low_width v"] g(2) unfolding s(2)
      by (cases "256 * ?g = i") (simp_all add: less_imp_le del: nth_positions)
    have fb: "?f < v_high_bits v" "?f div 64 < length highs"
      using f lt range(2) div_le_mono [OF f, of 64] by linarith+
    have rest: "set_bits highs (64 * (?f div 64) + ?f mod 64) = drop (256 * ?g) ?p"
      using set_bits_positions [OF bits so g(1)] unfolding s(2) [symmetric] by (simp del: nth_positions)
    have "scan_dense host v ?f 0 (?f div 64) (highs ! (?f div 64) AND from_bit (?f mod 64)) (i mod 256) = Inr (?p ! i)"
    proof (rule scan_dense_correct [OF h lt f])
      show "?p ! i < ?f + 4096" using s(3) True by simp
      show "i mod 256 < length (set_bits highs (64 * (?f div 64) + ?f mod 64))"
        "set_bits highs (64 * (?f div 64) + ?f mod 64) ! (i mod 256) = ?p ! i"
        unfolding rest using group_start [OF i] by (simp_all del: nth_positions)
    qed (use fb in simp_all)
    then show ?thesis
      using s(1) True fb readsD(2) [OF h fb(2)] by (simp add: select_high_def Let_def not_le)
  qed
qed

lemma encodes_decode:
  assumes "encodes host v vs" "i < length vs"
  shows "ef_decode host v i (positions (v_low_width v) vs ! i) = Inr (vs ! i)"
  using assms unfolding encodes_def by (elim exE conjE) (rule decode_fields; simp)

lemma ef_select_correct:
  assumes "encodes host v vs"
  shows "ef_select host v i = (if i < length vs then Inr (vs ! i) else Inl (Out_of_range ''Elias-Fano ordinal''))"
proof -
  have "v_entry_count v = length vs" using assms by (auto simp: encodes_def)
  then show ?thesis
    using select_high_correct [OF assms] encodes_decode [OF assms] by (simp add: ef_select_def del: nth_positions)
qed

section \<open>The cursor\<close>

lemma countr_zero_ones:
  assumes "x \<noteq> 0"
  shows "ones x = countr_zero x # ones (x AND (x - 1))" "countr_zero x < 64"
proof -
  define n where "n = (LEAST n. bit x n)"
  have "\<exists>n. bit x n" using assms by (auto simp: bit_eq_iff)
  then have n: "bit x n" "\<And>m. bit x m \<Longrightarrow> n \<le> m" unfolding n_def by (meson LeastI_ex Least_le)+
  have n64: "n < 64" by (rule bit_top [OF n(1)])
  have z: "countr_zero x = n" by (rule countr_zero_least [OF n(1)]) (use n(2) in \<open>auto simp: not_less [symmetric]\<close>)
  define y where "y = unset_bit n x"
  have y: "bit y m \<longleftrightarrow> bit x m \<and> m \<noteq> n" for m by (auto simp: y_def bit_unset_bit_iff)
  have one: "bit (push_bit n (1 :: u64)) m \<longleftrightarrow> m = n" for m unfolding bit_push_u64 using n64 by (auto simp: bit_1_iff)
  have "x = y OR push_bit n 1" by (rule bit_eqI) (use y one n(1) in \<open>auto simp: bit_or_iff\<close>)
  moreover have "y AND push_bit n 1 = 0" by (rule bit_eqI) (unfold bit_and_iff y one, simp)
  ultimately have x: "x = y + push_bit n 1" by (simp add: disjunctive_add_eq_or)
  have "y AND mask n = 0"
    by (rule bit_eqI) (use n(2) in \<open>auto simp: bit_and_iff y bit_mask_iff not_less [symmetric]\<close>)
  then have "y + mask n = y OR mask n" by (simp add: disjunctive_add_eq_or)
  moreover have "x - 1 = y + mask n" unfolding x mask_eq_exp_minus_1 by (simp add: push_bit_eq_mult)
  ultimately have e: "bit (x AND (x - 1)) m \<longleftrightarrow> bit x m \<and> m \<noteq> n" for m
    using n(2) [of m] y by (auto simp: bit_and_iff bit_or_iff bit_mask_iff not_less [symmetric])
  have "[0..<64] = [0..<n] @ n # [Suc n..<64]" using n64 upt_conv_Cons [of n 64] upt_add_eq_append [of 0 n "64 - n"] by simp
  moreover have "filter (bit x) [0..<n] = []" "filter (\<lambda>m. bit x m \<and> m \<noteq> n) [0..<n] = []"
    using n(2) by (auto simp: filter_empty_conv not_less [symmetric])
  moreover have "filter (\<lambda>m. bit x m \<and> m \<noteq> n) [Suc n..<64] = filter (bit x) [Suc n..<64]" by (rule filter_cong) simp_all
  moreover have "bit (x AND (x - 1)) = (\<lambda>m. bit x m \<and> m \<noteq> n)" by (rule ext) (rule e)
  ultimately show "ones x = countr_zero x # ones (x AND (x - 1))" using n(1) unfolding ones_def z by simp
  show "countr_zero x < 64" using z n64 by simp
qed

lemma ones_0 [simp]: "ones 0 = []"
  by (simp add: ones_def)

text \<open>The ones a cursor in a dense group has still to pass.\<close>

definition ahead :: "u64 list \<Rightarrow> elias_fano_cursor \<Rightarrow> nat list" where
  "ahead highs c = map ((+) (64 * c_word c)) (ones (c_remaining c)) @ set_bits highs (64 * (c_word c + 1))"

lemma near_word:
  fixes w p f :: nat
  assumes "64 * (w + 1) \<le> p" "p < f + 4096"
  shows "w + 1 < f div 64 + 65"
proof -
  have "f < 64 * (f div 64) + 64" using mod_less_divisor [of 64 f] mult_div_mod_eq [of 64 f] by simp
  then have "64 * (w + 1) < 64 * (f div 64 + 65)" using assms by simp
  then show ?thesis by simp
qed

lemma skip_words_correct:
  assumes h: "reads host (v_high (c_source c)) highs"
    and a: "ahead highs c = p # rest" "p < unat (sample_first (c_sample c)) + 4096"
    and w: "unat (sample_first (c_sample c)) div 64 \<le> c_word c"
  shows "\<exists>word bits. skip_words host c = (Inr (), c\<lparr>c_word := word, c_remaining := bits\<rparr>) \<and> bits \<noteq> 0 \<and>
    c_word c \<le> word \<and> ahead highs (c\<lparr>c_word := word, c_remaining := bits\<rparr>) = p # rest"
  using assms
proof (induction "view_size (v_high (c_source c)) - c_word c" arbitrary: c rule: less_induct)
  case less
  show ?case
  proof (cases "c_remaining c = 0")
    case False
    then show ?thesis using less.prems
      by (subst skip_words.simps) (intro exI [of _ "c_word c"] exI [of _ "c_remaining c"]; simp)
  next
    case True
    let ?word = "c_word c + 1" and ?f = "unat (sample_first (c_sample c))"
    have rest: "set_bits highs (64 * ?word) = p # rest" using less.prems(2) True by (simp add: ahead_def)
    then have "p \<in> set (set_bits highs (64 * ?word))" by simp
    then have p: "64 * ?word \<le> p" "p < 64 * length highs" by (simp_all add: set_bits_def)
    then have "64 * ?word < 64 * length highs" by (rule le_less_trans)
    then have size: "?word < length highs" by simp
    define c' where "c' = c\<lparr>c_word := ?word, c_remaining := highs ! ?word\<rparr>"
    have ahead: "ahead highs c' = p # rest"
      using set_bits_word [OF size, of 0] rest unfolding ahead_def c'_def by simp
    have ih: "\<exists>word bits. skip_words host c' = (Inr (), c'\<lparr>c_word := word, c_remaining := bits\<rparr>) \<and> bits \<noteq> 0 \<and>
      c_word c' \<le> word \<and> ahead highs (c'\<lparr>c_word := word, c_remaining := bits\<rparr>) = p # rest"
    proof (rule less.hyps)
      show "view_size (v_high (c_source c')) - c_word c' < view_size (v_high (c_source c)) - c_word c"
        using size readsD(1) [OF less.prems(1)] by (simp add: c'_def)
      show "reads host (v_high (c_source c')) highs" using less.prems(1) by (simp add: c'_def)
      show "ahead highs c' = p # rest" by (rule ahead)
    qed (use less.prems(3,4) in \<open>simp_all add: c'_def\<close>)
    have near: "\<not> (view_size (v_high (c_source c)) \<le> ?word \<or> ?word < ?f div 64 \<or> 65 \<le> ?word - ?f div 64)"
      using size readsD(1) [OF less.prems(1)] near_word [OF p(1) less.prems(3)] less.prems(4) by simp
    have read: "word_at host (v_high (c_source c)) ?word = Inr (highs ! ?word)"
      by (rule readsD(2) [OF less.prems(1) size])
    have "skip_words host c = skip_words host c'"
      using True near read by (subst skip_words.simps) (simp add: Let_def c'_def)
    then obtain word bits where "skip_words host c = (Inr (), c\<lparr>c_word := word, c_remaining := bits\<rparr>)" "bits \<noteq> 0"
      "?word \<le> word" "ahead highs (c\<lparr>c_word := word, c_remaining := bits\<rparr>) = p # rest"
      using ih by (auto simp: c'_def)
    then show ?thesis by (intro exI [of _ word] exI [of _ bits]) simp
  qed
qed

text \<open>
  A cursor inside the group of its ordinal: it holds the group's sample, and in a dense group the
  ones ahead of it are the positions of the values still to come.
\<close>

definition in_group :: "bool \<Rightarrow> u64 list \<Rightarrow> nat \<Rightarrow> elias_fano_cursor \<Rightarrow> bool" where
  "in_group host vs k c \<longleftrightarrow> sample_at host (v_samples (c_source c)) (k div 256) = Inr (c_sample c) \<and>
     (sample_sparse (c_sample c) = dense_group \<longrightarrow>
       unat (sample_first (c_sample c)) div 64 \<le> c_word c \<and>
       (\<forall>highs. reads host (v_high (c_source c)) highs \<longrightarrow>
         ahead highs c = drop k (positions (v_low_width (c_source c)) vs)))"

definition walks :: "bool \<Rightarrow> u64 list \<Rightarrow> elias_fano_view \<Rightarrow> nat \<Rightarrow> elias_fano_cursor \<Rightarrow> bool" where
  "walks host vs v k c \<longleftrightarrow> c_source c = v \<and> c_ordinal c = k \<and> k \<le> length vs \<and>
     (k < length vs \<and> k mod 256 \<noteq> 0 \<longrightarrow> in_group host vs k c)"

lemma reads_unique: "reads host w xs \<Longrightarrow> reads host w ys \<Longrightarrow> xs = ys"
  unfolding reads_def by (metis nth_equalityI sum.inject(2))

lemma encodes_obtain:
  assumes "encodes host v vs" "k < length vs"
  obtains highs sps s where "reads host (v_high v) highs" "reads host (v_sparse v) sps" "sorted vs"
    "set_bits highs 0 = positions (v_low_width v) vs" "positions (v_low_width v) vs ! k < v_high_bits v"
    "positions (v_low_width v) vs ! (256 * (k div 256)) < v_high_bits v"
    "sample_at host (v_samples v) (k div 256) = Inr s"
    "unat (sample_first s) = positions (v_low_width v) vs ! (256 * (k div 256))"
    "if sample_sparse s = dense_group then positions (v_low_width v) vs ! k < unat (sample_first s) + 4096
     else unat (sample_sparse s) + k mod 256 < length sps \<and>
       unat (sps ! (unat (sample_sparse s) + k mod 256)) = positions (v_low_width v) vs ! k"
proof -
  obtain highs sps where b: "reads host (v_high v) highs" "reads host (v_sparse v) sps" "sorted vs"
    "set_bits highs 0 = positions (v_low_width v) vs"
    "\<forall>p\<in>set (positions (v_low_width v) vs). p < v_high_bits v" "sample_fits host v sps vs (k div 256)"
    using assms unfolding encodes_def by blast
  moreover have "positions (v_low_width v) vs ! i \<in> set (positions (v_low_width v) vs)" if "i < length vs" for i
    using that by (simp del: nth_positions)
  moreover note assms(2) group_start(2) [OF assms(2)]
  ultimately show ?thesis using that unfolding sample_fits_def by (smt (verit) assms(2))
qed

lemma enter_group_correct:
  assumes e: "encodes host (c_source c) vs" and k: "c_ordinal c = k" "k < length vs" "k mod 256 = 0"
  shows "\<exists>c'. enter_group host c = (Inr (), c') \<and> c_source c' = c_source c \<and> c_ordinal c' = k \<and> in_group host vs k c'"
proof -
  let ?v = "c_source c" let ?p = "positions (v_low_width ?v) vs"
  have kg: "256 * (k div 256) = k" using k(3) by (simp add: mult_div_mod_eq [of 256 k, unfolded k(3), simplified])
  obtain highs s where h: "reads host (v_high ?v) highs" and so: "sorted vs" and bits: "set_bits highs 0 = ?p"
    and less: "?p ! k < v_high_bits ?v" and s: "sample_at host (v_samples ?v) (k div 256) = Inr s" "unat (sample_first s) = ?p ! k"
    using encodes_obtain [OF e k(2)] unfolding kg by metis
  show ?thesis
  proof (cases "sample_sparse s = dense_group")
    case False
    then show ?thesis using s k(1) by (simp add: enter_group_def bindM_apply in_group_def)
  next
    case True
    let ?f = "unat (sample_first s)"
    define c' where "c' = c\<lparr>c_sample := s, c_word := ?f div 64, c_remaining := highs ! (?f div 64) AND from_bit (?f mod 64)\<rparr>"
    have w: "?f div 64 < length highs" using position_range(2) [OF bits k(2)] s(2) by simp
    have "set_bits highs ?f = drop k ?p" unfolding s(2) by (rule set_bits_positions [OF bits so k(2)])
    then have "ahead highs c' = drop k ?p"
      using set_bits_word [OF w, of "?f mod 64"] by (simp add: ahead_def c'_def)
    then have "in_group host vs k c'"
      using s(1) reads_unique [OF h] by (auto simp: in_group_def c'_def)
    moreover have "enter_group host c = (Inr (), c')"
      using s True less w readsD(2) [OF h w] k(1) unfolding enter_group_def c'_def by (simp add: bindM_apply not_le)
    ultimately show ?thesis using k(1) by (auto simp: c'_def)
  qed
qed

lemma next_position_correct:
  assumes e: "encodes host (c_source c) vs" and k: "c_ordinal c = k" "k < length vs" and g: "in_group host vs k c"
  shows "\<exists>c'. next_position host c = (Inr (positions (v_low_width (c_source c)) vs ! k), c') \<and>
    c_source c' = c_source c \<and> c_ordinal c' = k \<and>
    (Suc k mod 256 \<noteq> 0 \<longrightarrow> in_group host vs (Suc k) (c'\<lparr>c_remaining := c_remaining c' AND (c_remaining c' - 1)\<rparr>))"
proof -
  let ?v = "c_source c" let ?p = "positions (v_low_width ?v) vs" let ?s = "c_sample c"
  obtain highs sps s where h: "reads host (v_high ?v) highs" and sp: "reads host (v_sparse ?v) sps"
    and so: "sorted vs" and bits: "set_bits highs 0 = ?p"
    and less: "?p ! k < v_high_bits ?v" and s: "sample_at host (v_samples ?v) (k div 256) = Inr s"
      "unat (sample_first s) = ?p ! (256 * (k div 256))"
      "if sample_sparse s = dense_group then ?p ! k < unat (sample_first s) + 4096
       else unat (sample_sparse s) + k mod 256 < length sps \<and> unat (sps ! (unat (sample_sparse s) + k mod 256)) = ?p ! k"
    by (rule encodes_obtain [OF e k(2)]) blast
  have same: "s = ?s" using s(1) g by (simp add: in_group_def)
  have group: "Suc k mod 256 \<noteq> 0 \<Longrightarrow> Suc k div 256 = k div 256" by (simp add: div_Suc mod_Suc split: if_splits)
  show ?thesis
  proof (cases "sample_sparse ?s = dense_group")
    case False
    have "sparse_position host ?v ?s (k mod 256) = Inr (?p ! k)"
      using s(3) False same less position_range(1) [OF bits k(2)] by (intro sparse_position_correct [OF sp h]) simp_all
    then show ?thesis using False k(1) g group
      by (auto simp: next_position_def bindM_apply in_group_def simp del: nth_positions)
  next
    case True
    let ?f = "unat (sample_first ?s)"
    have a: "ahead highs c = ?p ! k # drop (Suc k) ?p" and w: "?f div 64 \<le> c_word c"
      using g h True k(2) by (simp_all add: in_group_def Cons_nth_drop_Suc del: nth_positions)
    have near: "?p ! k < ?f + 4096" using s(3) same True by simp
    have far: "?f \<le> ?p ! k"
      using s(2) same group_start(1) [OF k(2)] positions_less [OF so _ k(2), of "256 * (k div 256)" "v_low_width ?v"]
      by (cases "256 * (k div 256) = k") (simp_all add: less_imp_le del: nth_positions)
    obtain word bits' where o: "skip_words host c = (Inr (), c\<lparr>c_word := word, c_remaining := bits'\<rparr>)" "bits' \<noteq> 0"
      "c_word c \<le> word" "ahead highs (c\<lparr>c_word := word, c_remaining := bits'\<rparr>) = ?p ! k # drop (Suc k) ?p"
      using skip_words_correct [OF h a near w] by blast
    let ?c = "c\<lparr>c_word := word, c_remaining := bits'\<rparr>"
    have p: "word * 64 + countr_zero bits' = ?p ! k"
      "map ((+) (64 * word)) (ones (bits' AND (bits' - 1))) @ set_bits highs (64 * (word + 1)) = drop (Suc k) ?p"
      using o(4) unfolding ahead_def by (simp_all add: countr_zero_ones(1) [OF o(2)] del: nth_positions)
    have "in_group host vs (Suc k) (?c\<lparr>c_remaining := bits' AND (bits' - 1)\<rparr>)" if "Suc k mod 256 \<noteq> 0"
      using g group [OF that] True w o(3) p(2) reads_unique [OF h] by (auto simp: in_group_def ahead_def)
    moreover have "next_position host c = (Inr (?p ! k), ?c)"
      using True o(1) p(1) less near far by (simp add: next_position_def bindM_apply too_far_def del: nth_positions)
    ultimately show ?thesis using k(1) by auto
  qed
qed

lemma cursor_next_correct:
  assumes e: "encodes host v vs" and w: "walks host vs v k c"
  shows "if k < length vs then \<exists>c'. cursor_next host c = (Inr (vs ! k), c') \<and> walks host vs v (Suc k) c'
    else cursor_next host c = (Inl (Out_of_range ''Elias-Fano cursor end''), c)"
proof (cases "k < length vs")
  case False
  then have "k = length vs" "v_entry_count v = length vs" using w e by (auto simp: walks_def encodes_def)
  then show ?thesis using w by (simp add: cursor_next_def bindM_apply cursor_done_def walks_def)
next
  case True
  have c: "c_source c = v" "c_ordinal c = k" using w by (simp_all add: walks_def)
  have n: "v_entry_count v = length vs" using e by (auto simp: encodes_def)
  have "\<exists>c1. (if k mod 256 = 0 then enter_group host else returnM ()) c = (Inr (), c1) \<and> c_source c1 = v \<and>
      c_ordinal c1 = k \<and> in_group host vs k c1"
    using enter_group_correct [of host c vs k] e c True w by (auto simp: walks_def)
  then obtain c1 where c1: "(if k mod 256 = 0 then enter_group host else returnM ()) c = (Inr (), c1)"
    "c_source c1 = v" "c_ordinal c1 = k" "in_group host vs k c1" by blast
  obtain c2 where c2: "next_position host c1 = (Inr (positions (v_low_width v) vs ! k), c2)" "c_source c2 = v"
    "Suc k mod 256 \<noteq> 0 \<longrightarrow> in_group host vs (Suc k) (c2\<lparr>c_remaining := c_remaining c2 AND (c_remaining c2 - 1)\<rparr>)"
    using next_position_correct [of host c1 vs k] e c1 True by auto
  have "cursor_next host c =
      (Inr (vs ! k), c2\<lparr>c_remaining := c_remaining c2 AND (c_remaining c2 - 1), c_ordinal := k + 1\<rparr>)"
    using c n True c1(1) c2(1,2) encodes_decode [OF e True]
    by (simp add: cursor_next_def bindM_apply cursor_done_def del: nth_positions)
  moreover have "walks host vs v (Suc k) (c2\<lparr>c_remaining := c_remaining c2 AND (c_remaining c2 - 1), c_ordinal := k + 1\<rparr>)"
    using c2(2,3) True by (auto simp: walks_def in_group_def ahead_def)
  ultimately show ?thesis using True by auto
qed

end
