(* ===== verification/EliasBuild.thy ===== *)
theory EliasBuild
  imports EliasSelect
begin

text \<open>
  The Elias-Fano builder: its sample directory, the extents it chooses, and the properties of the
  whole component.
\<close>

section \<open>Starting a cursor\<close>

lemma encodes_count: "encodes host v vs \<Longrightarrow> v_entry_count v = length vs"
  by (auto simp: encodes_def)

lemma new_cursor_correct:
  assumes e: "encodes host v vs" and k: "k \<le> length vs"
  shows "\<exists>c. new_cursor host v k = Inr c \<and> walks host vs v k c"
proof (cases "k = length vs \<or> k mod 256 = 0")
  case True
  then show ?thesis using encodes_count [OF e] k
    by (auto simp: new_cursor_def cursor_done_def walks_def Let_def)
next
  case False
  then have k: "k < length vs" "k mod 256 \<noteq> 0" using k by simp_all
  let ?p = "positions (v_low_width v) vs"
  obtain highs s where h: "reads host (v_high v) highs" and so: "sorted vs" and bits: "set_bits highs 0 = ?p"
    and s: "sample_at host (v_samples v) (k div 256) = Inr s" "unat (sample_first s) = ?p ! (256 * (k div 256))"
    by (rule encodes_obtain [OF e k(1)]) blast
  show ?thesis
  proof (cases "sample_sparse s = dense_group")
    case False
    then show ?thesis using s k encodes_count [OF e]
      by (auto simp: new_cursor_def cursor_done_def walks_def Let_def in_group_def)
  next
    case True
    let ?t = "?p ! k"
    have w: "?t div 64 < length highs" by (rule position_range(2) [OF bits k(1)])
    have le: "unat (sample_first s) \<le> ?t"
      using s(2) group_start(1) [OF k(1)] positions_less [OF so _ k(1), of "256 * (k div 256)" "v_low_width v"]
      by (cases "256 * (k div 256) = k") (simp_all add: less_imp_le del: nth_positions)
    have "set_bits highs (64 * (?t div 64) + ?t mod 64) = drop k ?p"
      using set_bits_positions [OF bits so k(1)] by (simp del: nth_positions)
    then have rest: "map ((+) (64 * (?t div 64))) (ones (highs ! (?t div 64) AND from_bit (?t mod 64))) @
        set_bits highs (64 * (?t div 64 + 1)) = drop k ?p"
      using set_bits_word [OF w, of "?t mod 64"] by (simp del: nth_positions)
    define c where "c = \<lparr>c_source = v, c_sample = s, c_ordinal = k, c_word = ?t div 64,
      c_remaining = highs ! (?t div 64) AND from_bit (?t mod 64)\<rparr>"
    have "new_cursor host v k = Inr c"
      using s True k encodes_count [OF e] select_high_correct [OF e k(1)] readsD(2) [OF h w]
      by (simp add: new_cursor_def cursor_done_def Let_def c_def del: nth_positions)
    moreover have "walks host vs v k c"
      using s(1) k(1) div_le_mono [OF le, of 64] rest reads_unique [OF h]
      by (auto simp: walks_def in_group_def ahead_def c_def simp del: nth_positions)
    ultimately show ?thesis by blast
  qed
qed

section \<open>The sample directory\<close>

text \<open>Entry \<open>g\<close> of the directory describes group \<open>g\<close>.\<close>

definition good_sample :: "nat \<Rightarrow> u64 list \<Rightarrow> sample_value \<Rightarrow> u64 list \<Rightarrow> nat \<Rightarrow> bool" where
  "good_sample w vs s sps g \<longleftrightarrow> unat (sample_first s) = positions w vs ! (256 * g) \<and>
     (\<forall>i < length vs. i div 256 = g \<longrightarrow>
       (if sample_sparse s = dense_group then positions w vs ! i < unat (sample_first s) + 4096
        else unat (sample_sparse s) + i mod 256 < length sps \<and>
             unat (sps ! (unat (sample_sparse s) + i mod 256)) = positions w vs ! i))"

lemma good_sample_append: "good_sample w vs s sps g \<Longrightarrow> good_sample w vs s (sps @ ys) g"
  by (auto simp: good_sample_def nth_append)

lemma position_word:
  assumes "positions w vs ! i < 2 ^ 64" "i < length vs"
  shows "unat (drop_bit w (vs ! i) + of_nat i) = positions w vs ! i"
  using assms high_position_eq [of w vs i] by (simp add: high_position_def)

lemma unat_dense: "2 ^ 63 < unat dense_group"
  by (simp add: unsigned_minus_1_eq_mask mask_eq_exp_minus_1)

lemma unat_4096: "unat (4096 :: u64) = 4096"
  by simp

text \<open>The end of the group that begins at \<open>b\<close>.\<close>

abbreviation group_end :: "u64 list \<Rightarrow> nat \<Rightarrow> nat" where
  "group_end vs b \<equiv> (if length vs - b < 256 then length vs else b + 256)"

lemma sample_group_good:
  assumes vs: "sorted vs" "\<And>i. i < length vs \<Longrightarrow> positions w vs ! i < 2 ^ 64" and b: "b = 256 * g" "b < length vs"
    and sps: "length sps < 2 ^ 63"
  defines "s \<equiv> group_end vs b"
  defines "first_one \<equiv> drop_bit w (vs ! b) + of_nat b :: u64" and "last_one \<equiv> drop_bit w (vs ! (s - 1)) + of_nat (s - 1) :: u64"
  defines "entries \<equiv> map (\<lambda>i. drop_bit w (vs ! i) + of_nat i :: u64) [b..<s]"
  shows "(last_one - first_one \<ge> 4096 \<longleftrightarrow> positions w vs ! (s - 1) \<ge> positions w vs ! b + 4096)"
    and "good_sample w vs \<lparr>sample_first = first_one,
        sample_sparse = (if last_one - first_one \<ge> 4096 then of_nat (length sps) else dense_group)\<rparr>
      (if last_one - first_one \<ge> 4096 then sps @ entries else sps) g"
proof -
  let ?p = "positions w vs"
  have s: "b < s" "s \<le> length vs" "s \<le> b + 256" using b(2) by (auto simp: s_def)
  have first: "unat first_one = ?p ! b" unfolding first_one_def by (rule position_word [OF vs(2) [OF b(2)] b(2)])
  have last: "unat last_one = ?p ! (s - 1)" unfolding last_one_def using s by (intro position_word vs(2)) simp_all
  have le: "?p ! i \<le> ?p ! j" if "i \<le> j" "j < length vs" for i j
    using positions_less [OF vs(1) _ that(2), of i w] that(1) by (cases "i = j") (simp_all add: less_imp_le del: nth_positions)
  have "?p ! b \<le> ?p ! (s - 1)" using s by (intro le) simp_all
  then have "unat (last_one - first_one) = ?p ! (s - 1) - ?p ! b" using first last by (simp add: unat_sub word_le_nat_alt)
  then show spread: "last_one - first_one \<ge> 4096 \<longleftrightarrow> ?p ! (s - 1) \<ge> ?p ! b + 4096"
    using \<open>?p ! b \<le> ?p ! (s - 1)\<close> unfolding word_le_nat_alt unat_4096 by (simp add: le_diff_conv2 add.commute del: nth_positions)
  have group: "b \<le> i" "i < s" "i - b = i mod 256" if "i < length vs" "i div 256 = g" for i
  proof -
    have i: "i = b + i mod 256" "i mod 256 < 256" using that(2) b(1) by (metis mult_div_mod_eq, simp)
    then show "b \<le> i" "i - b = i mod 256" by linarith+
    show "i < s" using i that(1) by (auto simp: s_def)
  qed
  show "good_sample w vs \<lparr>sample_first = first_one,
        sample_sparse = (if last_one - first_one \<ge> 4096 then of_nat (length sps) else dense_group)\<rparr>
      (if last_one - first_one \<ge> 4096 then sps @ entries else sps) g"
  proof (cases "last_one - first_one \<ge> 4096")
    case True
    have idx: "unat (of_nat (length sps) :: u64) = length sps" using sps by (intro unat_of_nat_u64) simp
    have word: "unat (drop_bit w (vs ! i) + of_nat i) = ?p ! i" if "i < length vs" for i
      by (rule position_word [OF vs(2) [OF that] that])
    have nd: "(of_nat (length sps) :: u64) \<noteq> dense_group" using idx sps unat_dense by (metis less_irrefl less_trans)
    have e: "length entries = s - b" "\<And>i. b \<le> i \<Longrightarrow> i < s \<Longrightarrow> unat (entries ! (i - b)) = ?p ! i"
      unfolding entries_def using s(2) word by (auto simp del: nth_positions)
    have "length sps + i mod 256 < length sps + length entries \<and> unat ((sps @ entries) ! (length sps + i mod 256)) = ?p ! i"
      if "i < length vs" "i div 256 = g" for i
      using group [OF that] e by (metis add_less_cancel_left diff_less_mono nth_append_length_plus)
    then show ?thesis using True first b(1) nd idx by (simp add: good_sample_def del: nth_positions)
  next
    case False
    then have top: "?p ! (s - 1) < ?p ! b + 4096" using spread by simp
    have "?p ! i \<le> ?p ! (s - 1)" if "i < length vs" "i div 256 = g" for i
      using group [OF that] s by (intro le) simp_all
    then have "?p ! i < unat first_one + 4096" if "i < length vs" "i div 256 = g" for i
      using le_less_trans [OF _ top] that unfolding first by blast
    then show ?thesis using False first b(1) unfolding good_sample_def by (simp del: nth_positions)
  qed
qed

definition good_samples :: "nat \<Rightarrow> u64 list \<Rightarrow> sample_value list \<Rightarrow> u64 list \<Rightarrow> nat \<Rightarrow> bool" where
  "good_samples w vs ss sps b \<longleftrightarrow> length ss = (b + 255) div 256 \<and> (\<forall>g < length ss. good_sample w vs (ss ! g) sps g) \<and>
     length sps \<le> b \<and> (if b = 0 then sps = [] else 16 * length sps \<le> positions w vs ! (b - 1))"

lemma sample_groups_step:
  assumes vs: "sorted vs" "\<And>i. i < length vs \<Longrightarrow> positions w vs ! i < 2 ^ 64" "length vs \<le> 2 ^ 62"
    and g: "good_samples w vs ss sps b" "b = 256 * g" "b < length vs"
  shows "\<exists>s sps'. sample_groups w vs b ss sps = sample_groups w vs (b + 256) (ss @ [s]) sps' \<and>
    good_samples w vs (ss @ [s]) sps' (group_end vs b)"
proof -
  let ?p = "positions w vs"
  define t where "t = group_end vs b"
  let ?first = "drop_bit w (vs ! b) + of_nat b :: u64" and ?last = "drop_bit w (vs ! (t - 1)) + of_nat (t - 1) :: u64"
  let ?new = "map (\<lambda>i. drop_bit w (vs ! i) + of_nat i :: u64) [b..<t]"
  let ?sps = "if ?last - ?first \<ge> 4096 then sps @ ?new else sps"
  let ?entry = "\<lparr>sample_first = ?first, sample_sparse = (if ?last - ?first \<ge> 4096 then of_nat (length sps) else dense_group)\<rparr>"
  define e where "e = ?entry"
  define q where "q = ?sps"
  have len: "length ss = g" "length sps \<le> b" using g(1,2) by (simp_all add: good_samples_def)
  then have "length sps < 2 ^ 63" using g(3) vs(3) by simp
  note good = sample_group_good [OF vs(1,2) g(2,3) this, folded t_def]
  have s: "b < t" "t \<le> length vs" "t \<le> b + 256" "(t + 255) div 256 = Suc g" using g(2,3) by (auto simp: t_def)
  have le: "?p ! i \<le> ?p ! j" if "i \<le> j" "j < length vs" for i j
    using positions_less [OF vs(1) _ that(2), of i w] that(1) by (cases "i = j") (simp_all add: less_imp_le del: nth_positions)
  have before: "16 * length sps \<le> ?p ! b"
    using g(1) le [of "b - 1" b] g(3) unfolding good_samples_def by (auto split: if_splits simp del: nth_positions)
  have "?p ! b \<le> ?p ! (t - 1)" using s by (intro le) simp_all
  then have bound: "16 * length q \<le> ?p ! (t - 1)" and le_t: "length q \<le> t"
    using before good(1) s(1,3) len(2) unfolding q_def by (auto split: if_split simp del: nth_positions)
  have "good_sample w vs ((ss @ [e]) ! h) q h" if h: "h < length (ss @ [e])" for h
  proof (cases "h = g")
    case True
    then have "(ss @ [e]) ! h = e" using len(1) by (simp add: nth_append)
    then show ?thesis using good(2) True unfolding e_def q_def by (simp only:)
  next
    case False
    then have "h < length ss" using h len(1) by simp
    then show ?thesis using g(1) good_sample_append unfolding q_def by (simp add: good_samples_def nth_append)
  qed
  then have "good_samples w vs (ss @ [e]) q t"
    using bound le_t s(1,4) len(1) by (simp add: good_samples_def)
  moreover have "sample_groups w vs b ss sps = sample_groups w vs (b + 256) (ss @ [e]) q"
    using g(3) unfolding e_def q_def t_def by (subst sample_groups.simps) (simp only: Let_def if_True)
  ultimately show ?thesis unfolding t_def by blast
qed

lemma sample_groups_good:
  assumes vs: "sorted vs" "\<And>i. i < length vs \<Longrightarrow> positions w vs ! i < 2 ^ 64" "length vs \<le> 2 ^ 62"
    and g: "good_samples w vs ss sps (min b (length vs))" "b = 256 * g"
  shows "\<exists>ss' sps'. sample_groups w vs b ss sps = (ss', sps') \<and> good_samples w vs ss' sps' (length vs)"
  using g
proof (induction "length vs - b" arbitrary: b ss sps g rule: less_induct)
  case less
  show ?case
  proof (cases "b < length vs")
    case False
    then show ?thesis using less.prems(1) by (subst sample_groups.simps) simp
  next
    case True
    then have "good_samples w vs ss sps b" using less.prems(1) by simp
    then obtain s sps' where s: "sample_groups w vs b ss sps = sample_groups w vs (b + 256) (ss @ [s]) sps'"
      "good_samples w vs (ss @ [s]) sps' (group_end vs b)"
      using sample_groups_step [OF vs _ less.prems(2) True] by blast
    have "group_end vs b = min (b + 256) (length vs)" using True by auto
    then have "\<exists>ss' sps''. sample_groups w vs (b + 256) (ss @ [s]) sps' = (ss', sps'') \<and> good_samples w vs ss' sps'' (length vs)"
      using s(2) less.prems(2) True by (intro less.hyps [where g = "Suc g"]) simp_all
    then show ?thesis unfolding s(1) .
  qed
qed

section \<open>Building\<close>

lemma ef_monotone_from_sorted: "ef_monotone_from vs = sorted vs"
  by (induction vs rule: ef_monotone_from.induct) (auto simp: not_less order_trans)

lemma ef_monotone_sorted: "ef_monotone vs = sorted vs"
proof (cases "length vs < 2")
  case True
  then have "vs = [] \<or> (\<exists>x. vs = [x])" by (cases vs) auto
  then show ?thesis by (auto simp: ef_monotone_def)
qed (simp add: ef_monotone_def ef_monotone_from_sorted)

text \<open>The chosen width leaves at most three high bits per value.\<close>

lemma choose_width_bounds:
  assumes "0 < n" "n < 2 ^ 64"
  shows "choose_width u n \<le> 63" "unat (drop_bit (choose_width u n) u) < 2 * n" "2 ^ choose_width u n \<le> max 1 (unat u div n)"
proof -
  let ?w = "choose_width u n"
  have n: "unat (of_nat n :: u64) = n" by (rule unat_of_nat_u64 [OF assms(2)])
  have q: "unat (u div of_nat n) = unat u div n" by (simp add: unat_div n)
  have zero: "u div of_nat n = 0 \<longleftrightarrow> unat u div n = 0" using q by (metis unsigned_0 unsigned_eq_0_iff)
  have w: "?w = (if unat u div n = 0 then 0 else bit_width (unat u div n) - 1)"
    by (simp add: choose_width_def Let_def zero q)
  have u: "unat u < 2 ^ 64" using unsigned_less [of u, where 'a = nat] by simp
  have "unat u div n < 2 ^ 64" using u div_le_dividend [of "unat u" n] by linarith
  then have "bit_width (unat u div n) \<le> 64" by (rule bit_width_le)
  then show "?w \<le> 63" by (auto simp: w)
  have up: "unat u div n < 2 ^ Suc ?w"
    using bit_width_bounds(1) [of "unat u div n"] by (cases "bit_width (unat u div n)") (auto simp: w)
  have "unat u < 2 ^ Suc ?w * n" using up assms(1) by (simp add: div_less_iff_less_mult)
  then have "unat u div 2 ^ ?w < 2 * n" by (simp add: div_less_iff_less_mult mult.commute mult.left_commute)
  then show "unat (drop_bit ?w u) < 2 * n" unfolding unat_drop_bit_eq by (simp add: drop_bit_eq_div)
  show "2 ^ ?w \<le> max 1 (unat u div n)"
    using bit_width_bounds(2) [of "unat u div n"] by (auto simp: w)
qed

text \<open>The structures a built directory holds.\<close>

definition built :: "u64 list \<Rightarrow> elias_fano \<Rightarrow> bool" where
  "built vs e \<longleftrightarrow> (let n = length vs; w = ef_low_width e in
     ef_entry_count e = n \<and> w \<le> 63 \<and> (\<forall>x\<in>set vs. x \<le> ef_universe e) \<and>
     \<not> (n \<noteq> 0 \<and> extents_overflow n (ef_universe e) w) \<and> unat (drop_bit w (ef_universe e)) \<le> 2 * n \<and>
     (n = 0 \<longrightarrow> ef_universe e = 0 \<and> w = 0) \<and> (n \<noteq> 0 \<longrightarrow> w = choose_width (ef_universe e) n) \<and>
     length (ef_low e) = ef_words (n * w) \<and> packed w vs (ef_low e) n \<and>
     length (ef_high e) = ef_words (unat (drop_bit w (ef_universe e)) + n) \<and>
     set_bits (ef_high e) 0 = positions w vs \<and>
     good_samples w vs (ef_samples e) (ef_sparse e) n)"

lemma fits_extents:
  fixes n w h :: nat
  assumes "n \<le> 2 ^ 57" "w \<le> 63" "h \<le> 2 * n"
  shows "n \<le> ef_maximum" "w \<noteq> 0 \<Longrightarrow> n \<le> ef_maximum div w" "h \<le> ef_maximum - n" "w \<noteq> 0 \<Longrightarrow> n \<le> (u64_max - 63) div w"
    "h + n \<le> 2 ^ 64"
proof -
  have "n * w \<le> 2 ^ 57 * 63" using assms by (intro mult_le_mono) simp_all
  then show "w \<noteq> 0 \<Longrightarrow> n \<le> ef_maximum div w" "w \<noteq> 0 \<Longrightarrow> n \<le> (u64_max - 63) div w"
    by (simp_all add: less_eq_div_iff_mult_less_eq ef_maximum_def u64_max_def)
qed (use assms in \<open>simp_all add: ef_maximum_def u64_max_def\<close>)

lemma ef_words_room: "b \<le> 64 * ef_words b"
  by (simp add: ef_words_def)

lemma ef_build_correct:
  assumes "sorted vs" "length vs \<le> 2 ^ 57"
  shows "\<exists>e. ef_build vs = Inr e \<and> built vs e"
proof (cases "vs = []")
  case True
  have "positions 0 [] = []" by (simp add: positions_def)
  then show ?thesis using True
    by (auto simp: ef_build_def built_def empty_ef_def ef_words_def packed_def set_bits_def good_samples_def)
next
  case False
  let ?n = "length vs" and ?u = "last vs"
  let ?w = "choose_width ?u ?n" let ?h = "unat (drop_bit ?w ?u)"
  have n: "0 < ?n" "?n < 2 ^ 64" using False assms(2) by simp_all
  note w = choose_width_bounds [OF n, of ?u]
  note fit = fits_extents [OF assms(2) w(1) less_imp_le [OF w(2)]]
  have le: "\<forall>x\<in>set vs. x \<le> ?u"
    using assms(1) False by (metis append_butlast_last_id sorted_append Un_iff set_append list.set_intros(1) empty_iff list.set(1) order_refl set_ConsD)
  have pos: "positions ?w vs ! i < 2 ^ 64" if "i < ?n" for i
  proof -
    have "unat (drop_bit ?w (vs ! i)) \<le> ?h" using le that by (intro drop_bit_mono) simp
    then show ?thesis using that fit(5) by simp
  qed
  obtain low where low: "pack_low vs (replicate (ef_words (?n * ?w)) 0) ?w = Inr low"
    "length low = ef_words (?n * ?w)" "packed ?w vs low ?n"
    using pack_low_bits [OF w(1), of vs "replicate (ef_words (?n * ?w)) 0"] fit(4) by auto
  have room: "?h + ?n \<le> 64 * ef_words (?h + ?n)" by (rule ef_words_room)
  obtain high where high: "write_high vs (replicate (ef_words (?h + ?n)) 0) ?w = Inr high"
    "length high = ef_words (?h + ?n)" "set_bits high 0 = positions ?w vs"
    using write_high_bits [OF assms(1) False room fit(5)] by blast
  have "good_samples ?w vs [] [] (min 0 ?n)" by (simp add: good_samples_def)
  then obtain ss sps where ss: "sample_groups ?w vs 0 [] [] = (ss, sps)" "good_samples ?w vs ss sps ?n"
    using sample_groups_good [OF assms(1) pos _, of "[]" "[]" 0 0] assms(2) by auto
  let ?e = "\<lparr>ef_low = low, ef_high = high, ef_samples = ss, ef_sparse = sps, ef_entry_count = ?n, ef_universe = ?u, ef_low_width = ?w\<rparr>"
  have ext: "\<not> extents_overflow ?n ?u ?w" using fit(1,2,3) by (auto simp: extents_overflow_def not_less)
  have "ef_build vs = Inr ?e"
    using False ext assms(1) low(1) high(1) ss(1) by (simp add: ef_build_def ef_monotone_sorted Let_def)
  moreover have "built vs ?e"
    using w le ext low(2,3) high(2,3) ss(2) False by (simp add: built_def)
  ultimately show ?thesis by blast
qed

text \<open>The view of a built directory, over native words or over words shipped in either order.\<close>

definition ef_view_in :: "bool \<Rightarrow> elias_fano \<Rightarrow> elias_fano_view res" where
  "ef_view_in little e =
     new_elias_fano_view (word_section little (ef_low e)) (word_section little (ef_high e))
       (word_section little (sample_words (ef_samples e))) (word_section little (ef_sparse e))
       (ef_entry_count e) (ef_universe e) (ef_low_width e)"

lemma ef_view_native: "ef_view host e = ef_view_in host e"
  by (simp add: ef_view_def ef_view_in_def native_words_section)

lemma sample_words_nth:
  "length (sample_words ss) = 2 * length ss"
  "i < length ss \<Longrightarrow> sample_words ss ! (2 * i) = sample_first (ss ! i) \<and> sample_words ss ! (2 * i + 1) = sample_sparse (ss ! i)"
proof -
  show len: "length (sample_words ss) = 2 * length ss" for ss by (induction ss) (simp_all add: sample_words_def)
  show "i < length ss \<Longrightarrow> sample_words ss ! (2 * i) = sample_first (ss ! i) \<and> sample_words ss ! (2 * i + 1) = sample_sparse (ss ! i)"
  proof (induction ss arbitrary: i)
    case (Cons s ss)
    then show ?case by (cases i) (simp_all add: sample_words_def)
  qed simp
qed

lemma sample_at_section:
  assumes "i < length ss" "little = host \<or> little"
  shows "sample_at host (word_section little (sample_words ss)) i = Inr (ss ! i)"
proof -
  have "word_at host (word_section little (sample_words ss)) (2 * i) = Inr (sample_first (ss ! i))"
    "word_at host (word_section little (sample_words ss)) (2 * i + 1) = Inr (sample_sparse (ss ! i))"
    using assms sample_words_nth word_at_section [of _ "sample_words ss" little host] by simp_all
  then show ?thesis using assms(1) by (simp add: sample_at_def sample_words_nth(1))
qed

lemma reads_section: "little = host \<or> little \<Longrightarrow> reads host (word_section little ws) ws"
  by (simp add: reads_def word_at_section)

lemma section_empty [simp]: "vbytes (word_section little []) = []"
  by (simp add: word_section_def)

lemma ef_view_correct:
  assumes b: "built vs e" and vs: "sorted vs" "length vs \<le> 2 ^ 57" and l: "little = host \<or> little"
  shows "\<exists>v. ef_view_in little e = Inr v \<and> encodes host v vs"
proof -
  let ?n = "length vs" and ?w = "ef_low_width e" let ?h = "unat (drop_bit ?w (ef_universe e))"
  have e: "ef_entry_count e = ?n" "?w \<le> 63" "\<forall>x\<in>set vs. x \<le> ef_universe e"
    "length (ef_low e) = ef_words (?n * ?w)" "packed ?w vs (ef_low e) ?n" "length (ef_high e) = ef_words (?h + ?n)"
    "set_bits (ef_high e) 0 = positions ?w vs" "good_samples ?w vs (ef_samples e) (ef_sparse e) ?n"
    using b by (simp_all add: built_def Let_def)
  define v where "v = \<lparr>v_low = word_section little (ef_low e), v_high = word_section little (ef_high e),
    v_samples = word_section little (sample_words (ef_samples e)), v_sparse = word_section little (ef_sparse e),
    v_entry_count = ?n, v_universe = ef_universe e, v_high_bits = (if ?n = 0 then 0 else ?h + ?n), v_low_width = ?w\<rparr>"
  have view: "ef_view_in little e = Inr v"
  proof (cases "?n = 0")
    case True
    then have z: "ef_universe e = 0" "?w = 0" using b by (simp_all add: built_def Let_def)
    then have "ef_low e = []" "ef_high e = []" "ef_samples e = []" "ef_sparse e = []"
      using True e(4,6,8) by (simp_all add: ef_words_def good_samples_def)
    then show ?thesis using True e(1) z by (simp add: ef_view_in_def new_elias_fano_view_def v_def sample_words_def Let_def)
  next
    case False
    then have "\<not> extents_overflow ?n (ef_universe e) ?w" using b unfolding built_def Let_def by blast
    moreover have "length (ef_samples e) = (?n + 255) div 256" using e(8) by (simp add: good_samples_def)
    ultimately show ?thesis
      using False e(1,2,4,6) by (simp add: ef_view_in_def new_elias_fano_view_def v_def Let_def sample_words_nth(1))
  qed
  have low: "?n * ?w \<le> 64 * length (ef_low e)" unfolding e(4) ef_words_def by linarith
  have fits: "sample_fits host v (ef_sparse e) vs (i div 256)" if i: "i < ?n" for i
  proof -
    have g: "i div 256 < length (ef_samples e)"
    proof -
      have "i div 256 < (?n + 255) div 256" using i by linarith
      then show ?thesis using e(8) by (simp add: good_samples_def)
    qed
    then have "good_sample ?w vs (ef_samples e ! (i div 256)) (ef_sparse e) (i div 256)" using e(8) by (simp add: good_samples_def)
    then show ?thesis
      using sample_at_section [OF g l] unfolding sample_fits_def good_sample_def v_def by (auto simp del: nth_positions)
  qed
  have high: "p < ?h + ?n" if "p \<in> set (positions ?w vs)" for p
  proof -
    obtain i where i: "i < ?n" "p = unat (drop_bit ?w (vs ! i)) + i" using \<open>p \<in> _\<close> by (auto simp: in_set_conv_nth)
    then have "unat (drop_bit ?w (vs ! i)) \<le> ?h" using e(3) by (intro drop_bit_mono) simp
    then show ?thesis using i by simp
  qed
  have "length vs \<le> 2 ^ 63" using vs(2) by simp
  moreover have "p < v_high_bits v" if "p \<in> set (positions ?w vs)" for p
    using high [OF that] that by (auto simp: v_def positions_def)
  ultimately have "encodes host v vs"
    unfolding encodes_def using e(2,3,5,7) vs(1) low fits reads_section [OF l]
    by (intro exI [of _ "ef_low e"] exI [of _ "ef_high e"] exI [of _ "ef_sparse e"]) (simp add: v_def)
  then show ?thesis using view by blast
qed

section \<open>Damaged directories\<close>

definition checked :: "exn \<Rightarrow> bool" where
  "checked e \<longleftrightarrow> (case e of Invalid_argument m \<Rightarrow> True | Out_of_range m \<Rightarrow> True | _ \<Rightarrow> False)"

definition only_checked :: "'a res \<Rightarrow> bool" where
  "only_checked r \<longleftrightarrow> (case r of Inl e \<Rightarrow> checked e | Inr x \<Rightarrow> True)"

lemma only_checked_simps [simp]:
  "only_checked (Inr x)" "only_checked (Inl e) = checked e" "checked (Invalid_argument m)" "checked (Out_of_range m)"
  by (simp_all add: only_checked_def checked_def)

lemma only_checkedD: "only_checked r \<Longrightarrow> r = Inl e \<Longrightarrow> checked e"
  by simp

lemma only_checked_bind:
  "only_checked r \<Longrightarrow> (\<And>x. r = Inr x \<Longrightarrow> only_checked (f x)) \<Longrightarrow> only_checked (bindE r f)"
  by (cases r) simp_all

lemma word_at_checked [simp]: "only_checked (word_at host v i)"
  using word_at_in [of i v host] by (cases "i < view_size v") (simp_all add: word_at_def)

lemma sample_at_checked [simp]: "only_checked (sample_at host v i)"
  by (auto simp: sample_at_def intro!: only_checked_bind)

lemma sparse_position_checked: "only_checked (sparse_position host v s lane)"
  by (auto simp: sparse_position_def high_bit_def Let_def intro!: only_checked_bind)

lemma scan_dense_checked: "only_checked (scan_dense host v f scanned at bits remaining)"
proof (induction host v f scanned at bits remaining rule: scan_dense.induct)
  case (1 host v f scanned at bits remaining)
  show ?case
  proof (cases "scanned < 65 \<and> at < view_size (v_high v)")
    case True
    have "only_checked (bindE (if scanned \<noteq> 0 then word_at host (v_high v) at else Inr bits) (\<lambda>bits.
        if remaining < popcount bits then
          let position = at * 64 + select_word bits remaining in
          if position \<ge> v_high_bits v \<or> too_far position f
          then Inl (Invalid_argument ''elias_fano dense span'') else Inr position
        else scan_dense host v f (scanned + 1) (at + 1) bits (remaining - popcount bits)))"
      using 1 True by (intro only_checked_bind) (auto simp: Let_def)
    then show ?thesis using True by (subst scan_dense.simps) (simp only: if_True simp_thms)
  qed (subst scan_dense.simps, auto)
qed

lemma select_high_checked: "only_checked (select_high host v i)"
  by (auto simp: select_high_def Let_def sparse_position_checked scan_dense_checked intro!: only_checked_bind)

lemma ef_decode_checked: "only_checked (ef_decode host v i p)" "ef_decode host v i p = Inr x \<Longrightarrow> x \<le> v_universe v"
proof -
  show "only_checked (ef_decode host v i p)"
    unfolding ef_decode_def Let_def by (auto intro!: only_checked_bind)
  show "ef_decode host v i p = Inr x \<Longrightarrow> x \<le> v_universe v"
    unfolding ef_decode_def Let_def by (auto simp: bindE_eq_Inr not_less split: if_splits)
qed

definition op_checked :: "('s, 'a) op \<Rightarrow> bool" where
  "op_checked m \<longleftrightarrow> (\<forall>s. only_checked (fst (m s)))"

lemma op_checked_bind: "op_checked m \<Longrightarrow> (\<And>x. op_checked (f x)) \<Longrightarrow> op_checked (bindM m f)"
  by (auto simp: op_checked_def bindM_apply split: prod.splits sum.splits) (metis fst_conv only_checked_simps(2))

lemma op_checked_simps [simp]:
  "op_checked (returnM x)" "op_checked (getM g)" "op_checked (modifyM h)" "op_checked (raiseM e) = checked e"
  "(\<And>s. only_checked (k s)) \<Longrightarrow> op_checked (liftM k)"
  by (simp_all add: op_checked_def)

lemma skip_words_checked: "only_checked (fst (skip_words host c))"
proof (induction host c rule: skip_words.induct)
  case (1 host c)
  show ?case
  proof (cases "word_at host (v_high (c_source c)) (Suc (c_word c))")
    case (Inl e)
    then have "checked e" using word_at_checked [of host "v_high (c_source c)" "Suc (c_word c)"] by simp
    then show ?thesis using Inl by (subst skip_words.simps) (simp add: Let_def)
  next
    case (Inr x)
    then show ?thesis by (subst skip_words.simps) (use 1 in \<open>simp add: Let_def\<close>)
  qed
qed

lemma cursor_next_checked: "op_checked (cursor_next host)"
  unfolding cursor_next_def enter_group_def next_position_def
  by (auto intro!: op_checked_bind simp: sparse_position_checked ef_decode_checked)
    (auto simp: op_checked_def skip_words_checked)

text \<open>Reading on with a cursor.\<close>

fun cursor_take :: "bool \<Rightarrow> nat \<Rightarrow> (elias_fano_cursor, u64 list) op" where
  "cursor_take host 0 = returnM []"
| "cursor_take host (Suc n) = bindM (cursor_next host) (\<lambda>x. bindM (cursor_take host n) (\<lambda>xs. returnM (x # xs)))"

lemma cursor_take_correct:
  assumes "encodes host v vs"
  shows "walks host vs v k c \<Longrightarrow> k + n \<le> length vs \<Longrightarrow>
    \<exists>c'. cursor_take host n c = (Inr (take n (drop k vs)), c') \<and> walks host vs v (k + n) c'"
proof (induction n arbitrary: k c)
  case (Suc n)
  then obtain c1 where c1: "cursor_next host c = (Inr (vs ! k), c1)" "walks host vs v (Suc k) c1"
    using cursor_next_correct [OF assms Suc.prems(1)] by auto
  obtain c2 where c2: "cursor_take host n c1 = (Inr (take n (drop (Suc k) vs)), c2)" "walks host vs v (Suc k + n) c2"
    using Suc.IH [OF c1(2)] Suc.prems(2) by auto
  have "drop k vs = vs ! k # drop (Suc k) vs" using Suc.prems(2) by (simp add: Cons_nth_drop_Suc)
  then show ?case using c1(1) c2 by (simp add: bindM_apply)
qed simp

section \<open>Properties\<close>

text \<open>
  C21. Elias-Fano round trip: every nondecreasing sequence of at most \<open>2^57\<close> words is encoded, and
  the view of its sections, native or shipped as little-endian bytes to a host of either order,
  is accepted and selects exactly the elements of the sequence; any other ordinal is refused.
\<close>

theorem elias_fano_round_trip:
  assumes "sorted vs" "length vs \<le> 2 ^ 57"
  shows "\<exists>e. ef_build vs = Inr e \<and> (\<forall>little. (little = host \<or> little) \<longrightarrow>
    (\<exists>v. ef_view_in little e = Inr v \<and> ef_view host e = ef_view_in host e \<and>
      (\<forall>i. ef_select host v i =
        (if i < length vs then Inr (vs ! i) else Inl (Out_of_range ''Elias-Fano ordinal'')))))"
  using ef_build_correct [OF assms] ef_view_correct [OF _ assms] ef_select_correct ef_view_native by metis

lemma elias_fano_round_trip_witness:
  "\<exists>e v. ef_build [3, 3, 900] = Inr e \<and> ef_view_in True e = Inr v \<and> ef_select False v 1 = Inr 3 \<and>
     ef_select False v 2 = Inr 900 \<and> ef_select False v 3 = Inl (Out_of_range ''Elias-Fano ordinal'')"
proof -
  have "sorted [3, 3, 900 :: u64]" by simp
  from elias_fano_round_trip [OF this, of False] obtain e where e: "ef_build [3, 3, 900] = Inr e"
    "\<forall>little. (little = False \<or> little) \<longrightarrow> (\<exists>v. ef_view_in little e = Inr v \<and> ef_view False e = ef_view_in False e \<and>
      (\<forall>i. ef_select False v i = (if i < length [3, 3, 900 :: u64] then Inr ([3, 3, 900] ! i)
        else Inl (Out_of_range ''Elias-Fano ordinal''))))" by auto
  then obtain v where "ef_view_in True e = Inr v" "\<And>i. ef_select False v i = (if i < length [3, 3, 900 :: u64] then Inr ([3, 3, 900] ! i)
        else Inl (Out_of_range ''Elias-Fano ordinal''))" by blast
  then show ?thesis using e(1) by simp
qed

text \<open>
  C22. The forward cursor refines the sequence: started at any ordinal of a built directory, it
  yields the remaining elements one by one and then refuses to go on, staying where it is.
\<close>

theorem cursor_walks_sequence:
  assumes "sorted vs" "length vs \<le> 2 ^ 57" "ef_build vs = Inr e" "ef_view_in little e = Inr v" "little = host \<or> little"
    and "k \<le> length vs"
  shows "\<exists>c c'. new_cursor host v k = Inr c \<and> cursor_take host (length vs - k) c = (Inr (drop k vs), c') \<and>
    cursor_next host c' = (Inl (Out_of_range ''Elias-Fano cursor end''), c')"
proof -
  have e: "encodes host v vs"
    using ef_build_correct [OF assms(1,2)] ef_view_correct [OF _ assms(1,2,5)] assms(3,4) by fastforce
  obtain c where c: "new_cursor host v k = Inr c" "walks host vs v k c" using new_cursor_correct [OF e assms(6)] by blast
  obtain c' where c': "cursor_take host (length vs - k) c = (Inr (drop k vs), c')" "walks host vs v (length vs) c'"
    using cursor_take_correct [OF e c(2), of "length vs - k"] assms(6) by auto
  then show ?thesis using c(1) cursor_next_correct [OF e c'(2)] by auto
qed

lemma cursor_walks_sequence_witness:
  "\<exists>e v c c'. ef_build [3, 3, 900] = Inr e \<and> ef_view_in True e = Inr v \<and> new_cursor False v 1 = Inr c \<and>
     cursor_take False 2 c = (Inr [3, 900], c')"
proof -
  have s: "sorted [3, 3, 900 :: u64]" "length [3, 3, 900 :: u64] \<le> 2 ^ 57" by simp_all
  obtain e v where e: "ef_build [3, 3, 900] = Inr e" "ef_view_in True e = Inr v"
    using ef_build_correct [OF s] ef_view_correct [OF _ s, of _ True False] by blast
  show ?thesis using cursor_walks_sequence [OF s e, of False 1] e
    by (auto simp: numeral_2_eq_2 simp del: cursor_take.simps)
qed

text \<open>
  C23. The directory is small: for \<open>n\<close> values with largest value \<open>u\<close>, the low section has exactly
  the words of \<open>n\<close> fields no wider than \<open>log2 (u / n)\<close>, the high section at most three bits per
  value, one sample per 256 values, and at most \<open>3 n / 16\<close> exception entries.
\<close>

theorem elias_fano_size_bounds:
  assumes "sorted vs" "vs \<noteq> []" "length vs \<le> 2 ^ 57" "ef_build vs = Inr e"
  shows "length (ef_low e) = (length vs * ef_low_width e + 63) div 64 \<and>
    2 ^ ef_low_width e \<le> max 1 (unat (ef_universe e) div length vs) \<and>
    length (ef_high e) \<le> (3 * length vs + 63) div 64 \<and>
    length (ef_samples e) = (length vs + 255) div 256 \<and> 16 * length (ef_sparse e) \<le> 3 * length vs"
proof -
  let ?n = "length vs" and ?w = "ef_low_width e"
  have b: "built vs e" using ef_build_correct [OF assms(1,3)] assms(4) by auto
  have n: "0 < ?n" "?n < 2 ^ 64" using assms(2,3) by simp_all
  have w: "?w = choose_width (ef_universe e) ?n" using b assms(2) by (simp add: built_def Let_def)
  have h: "unat (drop_bit ?w (ef_universe e)) < 2 * ?n" unfolding w by (rule choose_width_bounds(2) [OF n])
  have e: "\<forall>x\<in>set vs. x \<le> ef_universe e" "length (ef_high e) = ef_words (unat (drop_bit ?w (ef_universe e)) + ?n)"
    "good_samples ?w vs (ef_samples e) (ef_sparse e) ?n" "length (ef_low e) = ef_words (?n * ?w)"
    using b by (simp_all add: built_def Let_def)
  have last: "vs ! (?n - 1) \<le> ef_universe e" using e(1) assms(2) by simp
  have "16 * length (ef_sparse e) \<le> positions ?w vs ! (?n - 1)"
    using e(3) assms(2) by (simp add: good_samples_def del: nth_positions)
  also have "\<dots> \<le> unat (drop_bit ?w (ef_universe e)) + (?n - 1)" using drop_bit_mono [OF last, of ?w] n(1) by simp
  finally have "16 * length (ef_sparse e) \<le> 3 * ?n" using h by linarith
  moreover have "length (ef_high e) \<le> (3 * ?n + 63) div 64" unfolding e(2) ef_words_def using h by (intro div_le_mono) simp
  ultimately show ?thesis
    using choose_width_bounds(3) [OF n, of "ef_universe e"] e(3,4) unfolding w [symmetric] by (simp add: ef_words_def good_samples_def)
qed

lemma elias_fano_size_bounds_witness:
  "\<exists>e. ef_build [3, 3, 900] = Inr e \<and> length (ef_high e) \<le> 1 \<and> length (ef_samples e) = 1 \<and> ef_sparse e = []"
proof -
  have s: "sorted [3, 3, 900 :: u64]" "length [3, 3, 900 :: u64] \<le> 2 ^ 57" by simp_all
  obtain e where e: "ef_build [3, 3, 900] = Inr e" using ef_build_correct [OF s] by blast
  have b: "length (ef_high e) \<le> 1" "length (ef_samples e) = 1" "16 * length (ef_sparse e) \<le> 9"
    using elias_fano_size_bounds [OF s(1) _ s(2) e] by simp_all
  then have "length (ef_sparse e) = 0" by linarith
  then show ?thesis using b e by simp
qed

text \<open>Everything in front of the last assignment of \<open>next\<close> leaves the directory and the ordinal alone.\<close>

definition keeps_place :: "(elias_fano_cursor, 'a) op \<Rightarrow> bool" where
  "keeps_place m \<longleftrightarrow> (\<forall>c. c_source (snd (m c)) = c_source c \<and> c_ordinal (snd (m c)) = c_ordinal c)"

lemma keeps_place_simps [simp]:
  "keeps_place (returnM x)" "keeps_place (raiseM e)" "keeps_place (liftM f)" "keeps_place (getM g)"
  by (simp_all add: keeps_place_def)

lemma keeps_place_modify: "(\<And>c. c_source (f c) = c_source c \<and> c_ordinal (f c) = c_ordinal c) \<Longrightarrow> keeps_place (modifyM f)"
  by (simp add: keeps_place_def)

lemma keeps_place_bind: "keeps_place m \<Longrightarrow> (\<And>x. keeps_place (f x)) \<Longrightarrow> keeps_place (bindM m f)"
  unfolding keeps_place_def bindM_apply by (auto split: prod.splits sum.splits) (metis snd_conv)+

lemma keeps_place_if: "(b \<Longrightarrow> keeps_place m) \<Longrightarrow> (\<not> b \<Longrightarrow> keeps_place m') \<Longrightarrow> keeps_place (if b then m else m')"
  by simp

lemma skip_words_keeps: "keeps_place (skip_words host)"
proof -
  have "c_source (snd (skip_words host c)) = c_source c \<and> c_ordinal (snd (skip_words host c)) = c_ordinal c" for c
  proof (induction host c rule: skip_words.induct)
    case (1 host c)
    show ?case
      by (subst (1 2) skip_words.simps) (use 1 in \<open>auto simp: Let_def split: sum.splits\<close>)
  qed
  then show ?thesis by (simp add: keeps_place_def)
qed

lemma next_position_keeps: "keeps_place (next_position host)"
  unfolding next_position_def
  by (intro keeps_place_bind keeps_place_if skip_words_keeps keeps_place_simps)

lemma enter_group_keeps: "keeps_place (enter_group host)"
  unfolding enter_group_def
  by (intro keeps_place_bind keeps_place_if keeps_place_modify keeps_place_simps) simp_all

lemma cursor_next_result:
  "case cursor_next host c of
     (Inr x, c') \<Rightarrow> c_ordinal c \<noteq> v_entry_count (c_source c) \<and> x \<le> v_universe (c_source c) \<and>
       (\<exists>position. ef_decode host (c_source c) (c_ordinal c) position = Inr x) \<and>
       c_source c' = c_source c \<and> c_ordinal c' = Suc (c_ordinal c)
   | (Inl e, c') \<Rightarrow> checked e \<and> c_source c' = c_source c \<and> c_ordinal c' = c_ordinal c"
proof (cases "cursor_done c")
  case True
  then show ?thesis by (simp add: cursor_next_def bindM_apply)
next
  case False
  define enter where "enter = (if c_ordinal c mod 256 = 0 then enter_group host else returnM ())"
  define locate where "locate = bindM enter (\<lambda>_. next_position host)"
  have k: "keeps_place locate"
    unfolding locate_def enter_def by (intro keeps_place_bind keeps_place_if enter_group_keeps next_position_keeps keeps_place_simps)
  obtain r c1 where l: "locate c = (r, c1)" by fastforce
  have c1: "c_source c1 = c_source c" "c_ordinal c1 = c_ordinal c" using k l by (simp_all add: keeps_place_def) (metis snd_conv)+
  have run: "cursor_next host c = bindM locate (\<lambda>position.
      bindM (liftM (\<lambda>d. ef_decode host (c_source d) (c_ordinal c) position)) (\<lambda>val.
      bindM (modifyM (\<lambda>d. d\<lparr>c_remaining := c_remaining d AND (c_remaining d - 1), c_ordinal := c_ordinal c + 1\<rparr>))
        (\<lambda>_. returnM val))) c"
    unfolding cursor_next_def locate_def bindM_assoc enter_def [symmetric] using False by (simp add: enter_def)
  have err: "checked e" if "fst (cursor_next host c) = Inl e" for e
    using cursor_next_checked [of host] that by (auto simp: op_checked_def only_checked_def) (metis sum.simps(5))
  show ?thesis
  proof (cases r)
    case (Inl e)
    then have "cursor_next host c = (Inl e, c1)" unfolding run using l by simp
    then show ?thesis using err c1 by simp
  next
    case (Inr position)
    show ?thesis
    proof (cases "ef_decode host (c_source c) (c_ordinal c) position")
      case (Inl e)
      then have "cursor_next host c = (Inl e, c1)" unfolding run using l Inr c1 by (simp add: bindM_apply)
      then show ?thesis using err c1 by simp
    next
      case val: (Inr x)
      then have "cursor_next host c = (Inr x, c1\<lparr>c_remaining := c_remaining c1 AND (c_remaining c1 - 1), c_ordinal := c_ordinal c + 1\<rparr>)"
        unfolding run using l Inr c1 by (simp add: bindM_apply)
      then show ?thesis using val c1 ef_decode_checked(2) [OF val] False by (auto simp: cursor_done_def)
    qed
  qed
qed

text \<open>
  C25. Damaged directories stay harmless. Whatever the words of a view are, selection and the
  cursor read nothing outside the sections. Selection returns a value of at most the universe, for
  an ordinal in range. From any state, a step of the cursor decodes the value of the ordinal it
  stands on, again at most the universe, and moves to the next ordinal of the same directory;
  otherwise each throws \<open>invalid_argument\<close> or \<open>out_of_range\<close>, and a step that throws stays at its ordinal.
\<close>

theorem damaged_directory_is_refused:
  "(case ef_select host v i of Inr x \<Rightarrow> i < v_entry_count v \<and> x \<le> v_universe v | Inl e \<Rightarrow> checked e) \<and>
   (case new_cursor host v i of Inr c \<Rightarrow> c_source c = v \<and> c_ordinal c = i \<and> i \<le> v_entry_count v | Inl e \<Rightarrow> checked e) \<and>
   (case cursor_next host c of
      (Inr x, c') \<Rightarrow> c_ordinal c \<noteq> v_entry_count (c_source c) \<and> x \<le> v_universe (c_source c) \<and>
        (\<exists>position. ef_decode host (c_source c) (c_ordinal c) position = Inr x) \<and>
        c_source c' = c_source c \<and> c_ordinal c' = Suc (c_ordinal c)
    | (Inl e, c') \<Rightarrow> checked e \<and> c_source c' = c_source c \<and> c_ordinal c' = c_ordinal c)"
proof (intro conjI)
  show "case ef_select host v i of Inr x \<Rightarrow> i < v_entry_count v \<and> x \<le> v_universe v | Inl e \<Rightarrow> checked e"
    using only_checkedD [OF select_high_checked [of host v i]] only_checkedD [OF ef_decode_checked(1) [of host v i]]
      ef_decode_checked(2) [of host v i]
    by (cases "select_high host v i") (auto simp: ef_select_def not_le split: sum.splits)
  have "only_checked (new_cursor host v i)"
    by (auto simp: new_cursor_def Let_def select_high_checked intro!: only_checked_bind)
  moreover have "new_cursor host v i = Inr c \<Longrightarrow> c_source c = v \<and> c_ordinal c = i \<and> i \<le> v_entry_count v" for c
    by (auto simp: new_cursor_def Let_def bindE_eq_Inr split: if_splits)
  ultimately show "case new_cursor host v i of Inr c \<Rightarrow> c_source c = v \<and> c_ordinal c = i \<and> i \<le> v_entry_count v | Inl e \<Rightarrow> checked e"
    unfolding only_checked_def by (cases "new_cursor host v i") simp_all
qed (rule cursor_next_result)

text \<open>A directory that announces a value and carries no sample for it.\<close>

definition truncated_view :: elias_fano_view where
  "truncated_view = \<lparr>v_low = native_words True [], v_high = native_words True [], v_samples = native_words True [],
     v_sparse = native_words True [], v_entry_count = 1, v_universe = 3, v_high_bits = 0, v_low_width = 0\<rparr>"

lemma damaged_directory_is_refused_witness:
  "\<exists>c e c'. new_cursor True truncated_view 0 = Inr c \<and> c_source c = truncated_view \<and>
     cursor_next True c = (Inl e, c') \<and> checked e \<and> c_source c' = truncated_view \<and> c_ordinal c' = 0"
proof -
  obtain c where c: "new_cursor True truncated_view 0 = Inr c" "c_ordinal c = 0" "c_source c = truncated_view"
    by (simp add: new_cursor_def truncated_view_def cursor_done_def)
  obtain e where "fst (cursor_next True c) = Inl e"
    using c(2,3) by (simp add: cursor_next_def cursor_done_def enter_group_def bindM_apply truncated_view_def sample_at_def
      word_at_def view_size_def native_words_def)
  then obtain c' where n: "cursor_next True c = (Inl e, c')" by (metis prod.exhaust fst_conv)
  then show ?thesis using damaged_directory_is_refused [where host = True and v = truncated_view and i = 0 and c = c] c n by simp
qed

end
