(* ===== verification/ProfileFrames.thy ===== *)
theory ProfileFrames
  imports ProfileCursor ProfileBuild EliasBuild CountReads
begin

text \<open>
  The framing of a profile. The unit codes of a frame are read back exactly; every frame a view
  accepts, whatever its bytes are, lies inside the payload with a key no longer than the payload;
  all that damaged bytes can do is to make an operation throw \<open>invalid_argument\<close> or
  \<open>out_of_range\<close>.
\<close>

section \<open>Unit codes\<close>

lemma count_code_units:
  obtains n where "length (count_code p x) = bits_per_unit p * n" "0 < n"
proof (cases "policy_unit p")
  case Byte
  have "varint (unat x) \<noteq> []" by (simp add: varint.simps)
  then show ?thesis using that [of "length (varint (unat x))"] Byte by (simp add: count_code_def)
next
  case Bit
  have "exp_golomb (unat x) \<noteq> []" using exp_golomb_obtain [of "unat x"] by (metis append_is_Nil_conv list.distinct(1))
  then show ?thesis using that [of "length (exp_golomb (unat x))"] Bit by (simp add: count_code_def)
qed

lemma backspace_code_units:
  obtains n where "length (backspace_code p x) = bits_per_unit p * n"
  by (cases "policy_unit p") (auto simp: backspace_code_def)

lemma read_count_iff:
  assumes "profile_data p data"
  shows "read_count host p data at = (Inr x, at') \<longleftrightarrow>
    (\<exists>rest. drop (bits_per_unit p * at) (view_bits data) = count_code p x @ rest) \<and>
    bits_per_unit p * at' = bits_per_unit p * at + length (count_code p x)"
proof (cases "policy_unit p")
  case Byte
  have "8 * at' = 8 * at + 8 * length (varint (unat x)) \<longleftrightarrow> at' = at + length (varint (unat x))" by linarith
  then show ?thesis
    using read_count_byte_iff [OF byte_data(1) [OF assms Byte] Byte, of host at x at'] Byte
    unfolding byte_data(2) [OF assms Byte] by (simp add: count_code_def byte_prefix)
next
  case Bit
  have "view_ok data" using assms by (simp add: profile_data_def)
  from read_count_bit_iff [OF this Bit] show ?thesis by (simp add: Bit count_code_def)
qed

text \<open>Reading a code that is there, and what a successful read says.\<close>

lemma read_at_count:
  assumes "profile_data p data" "drop (bits_per_unit p * at) (view_bits data) = count_code p (of_nat n) @ rest" "n < 2 ^ 64"
  shows "read_at (read_count host p data) at = Inr (n, at + length (count_code p (of_nat n)) div bits_per_unit p)"
proof -
  obtain k where k: "length (count_code p (of_nat n)) = bits_per_unit p * k" by (rule count_code_units)
  have "read_count host p data at = (Inr (of_nat n), at + k)"
    using read_count_iff [OF assms(1), of host at "of_nat n" "at + k"] assms(2) by (simp add: k distrib_left)
  then show ?thesis using assms(3) by (simp add: read_at_def k unat_of_nat_u64)
qed

lemma read_at_backspace:
  assumes "policy_ok p" "profile_data p data" "drop (bits_per_unit p * at) (view_bits data) = backspace_code p (of_nat n) @ rest"
    and "n < 2 ^ 64"
  shows "read_at (read_backspace host p data) at = Inr (n, at + length (backspace_code p (of_nat n)) div bits_per_unit p)"
proof -
  obtain k where k: "length (backspace_code p (of_nat n)) = bits_per_unit p * k" by (rule backspace_code_units)
  have "read_backspace host p data at = (Inr (of_nat n), at + k)"
    using read_backspace_iff [OF assms(1,2), of host at "of_nat n" "at + k"] assms(3) by (simp add: k distrib_left)
  then show ?thesis using assms(4) by (simp add: read_at_def k unat_of_nat_u64)
qed

lemma read_at_Inr:
  assumes "profile_data p data" "read_at (read_count host p data) at = Inr (n, at')"
  shows "at < at'" "n < 2 ^ 64"
proof -
  obtain x where x: "read_count host p data at = (Inr x, at')" "n = unat x"
    using assms(2) by (auto simp: read_at_def split: prod.splits sum.splits)
  obtain k where "length (count_code p x) = bits_per_unit p * k" "0 < k" by (rule count_code_units)
  then have "bits_per_unit p * at' = bits_per_unit p * (at + k)"
    using x(1) read_count_iff [OF assms(1), of host at x at'] by (simp add: distrib_left)
  then have "at' = at + k" by (simp only: mult_cancel1 bits_per_unit_pos [THEN less_imp_neq, symmetric] simp_thms)
  then show "at < at'" using \<open>0 < k\<close> by simp
  show "n < 2 ^ 64" using unsigned_less [of x, where 'a = nat] x(2) by simp
qed

lemma read_at_backspace_Inr:
  assumes "policy_ok p" "profile_data p data" "read_at (read_backspace host p data) at = Inr (n, at')"
  shows "at \<le> at'"
proof -
  obtain x where x: "read_backspace host p data at = (Inr x, at')"
    using assms(3) by (auto simp: read_at_def split: prod.splits sum.splits)
  have "bits_per_unit p * at \<le> bits_per_unit p * at'" using read_backspace_iff [OF assms(1,2), of host at x at'] x by simp
  then show ?thesis by simp
qed

section \<open>Admitted views\<close>

definition admitted :: "storage_policy \<Rightarrow> profile_view \<Rightarrow> bool" where
  "admitted p v \<longleftrightarrow> policy_ok p \<and> profile_data p (pv_data v) \<and>
     bsize (pv_data v) = m_extent (pv_metadata v) * bits_per_unit p \<and> bsize (pv_data v) \<le> u64_max - 7"

lemma admittedD:
  assumes "admitted p v"
  shows "policy_ok p" "profile_data p (pv_data v)" "view_ok (pv_data v)"
    "bsize (pv_data v) = m_extent (pv_metadata v) * bits_per_unit p" "m_extent (pv_metadata v) * bits_per_unit p \<le> u64_max - 7"
    "m_extent (pv_metadata v) \<le> u64_max - 7"
proof -
  show a: "policy_ok p" "profile_data p (pv_data v)" "view_ok (pv_data v)"
    "bsize (pv_data v) = m_extent (pv_metadata v) * bits_per_unit p" "m_extent (pv_metadata v) * bits_per_unit p \<le> u64_max - 7"
    using assms by (simp_all add: admitted_def profile_data_def)
  have "m_extent (pv_metadata v) * 1 \<le> m_extent (pv_metadata v) * bits_per_unit p"
    by (intro mult_le_mono2) (simp add: Suc_leI)
  then show "m_extent (pv_metadata v) \<le> u64_max - 7" using a(5) by linarith
qed

lemma from_sections_admitted:
  assumes "policy_ok p" "from_sections p role bs offsets m = Inr v"
  shows "admitted p v" "pv_metadata v = m" "pv_offsets v = offsets" "pv_bytes v = bs"
    "v_entry_count offsets = count_blocks p m + 1" "m_codec_block_size m = codec_block_size p" "m_role m = role"
    "pv_data v = \<lparr>storage = bs, offset = 0, bsize = m_extent m * bits_per_unit p\<rparr>"
proof -
  define u where "u = bits_per_unit p"
  obtain bits data where b: "profile_multiply (m_extent m) u = Inr bits" "bits \<le> u64_max - 7" "length bs = byte_count bits"
    "v_entry_count offsets = count_blocks p m + 1" "new_bit_view bs bits 0 = Inr data"
    "v = \<lparr>pv_bytes = bs, pv_offsets = offsets, pv_metadata = m, pv_data = data\<rparr>"
    "m_codec_block_size m = codec_block_size p" "m_role m = role"
    using assms(2) unfolding from_sections_def Let_def u_def
    by (auto simp: bindE_eq_Inr split: if_splits)
  have bits: "bits = m_extent m * u" using b(1) by (auto simp: profile_multiply_def split: if_splits)
  have data: "data = \<lparr>storage = bs, offset = 0, bsize = bits\<rparr>" "view_ok data"
    using b(5) by (auto simp: new_bit_view_def view_ok_def Let_def res_simps profile_multiply_def split: if_splits)
  have "policy_unit p = Byte \<Longrightarrow> bits mod 8 = 0" by (simp add: bits u_def)
  then show "admitted p v" using data bits b(2) assms(1) by (simp add: admitted_def profile_data_def b(6) u_def)
  show "pv_metadata v = m" "pv_offsets v = offsets" "pv_bytes v = bs"
    "v_entry_count offsets = count_blocks p m + 1" "m_codec_block_size m = codec_block_size p" "m_role m = role"
    "pv_data v = \<lparr>storage = bs, offset = 0, bsize = m_extent m * bits_per_unit p\<rparr>"
    using b data(1) bits by (simp_all add: u_def)
qed

section \<open>Outcomes of a read\<close>

text \<open>
  A postcondition of an operation that may throw: it throws one of the checked exceptions or
  returns a value that satisfies the condition.
\<close>

definition yields :: "'a res \<Rightarrow> ('a \<Rightarrow> bool) \<Rightarrow> bool" where
  "yields r P \<longleftrightarrow> (case r of Inl e \<Rightarrow> checked e | Inr x \<Rightarrow> P x)"

lemma yields_simps [simp]:
  "yields (Inl e) P = checked e" "yields (Inr x) P = P x"
  by (simp_all add: yields_def)

lemma yields_bind: "yields r P \<Longrightarrow> (\<And>x. r = Inr x \<Longrightarrow> P x \<Longrightarrow> yields (f x) Q) \<Longrightarrow> yields (bindE r f) Q"
  by (cases r) simp_all

lemma yields_checked: "only_checked r \<Longrightarrow> yields r (\<lambda>x. r = Inr x)"
  by (cases r) simp_all

lemma yields_weaken: "yields r P \<Longrightarrow> (\<And>x. r = Inr x \<Longrightarrow> P x \<Longrightarrow> Q x) \<Longrightarrow> yields r Q"
  by (cases r) simp_all

lemma yields_Inr: "yields r P \<Longrightarrow> r = Inr x \<Longrightarrow> P x"
  by simp

lemma yields_if: "(b \<Longrightarrow> yields r P) \<Longrightarrow> (\<not> b \<Longrightarrow> yields s P) \<Longrightarrow> yields (if b then r else s) P"
  by simp

section \<open>Accepted frames\<close>

text \<open>
  A frame is in range when its prefix and its key end before its payload does, and its payload
  within the stream.
\<close>

definition in_range :: "storage_policy \<Rightarrow> profile_view \<Rightarrow> profile_encoded_record \<Rightarrow> bool" where
  "in_range p v r \<longleftrightarrow> retained r \<le> key_units r \<and> key_units r \<le> next_offset r \<and> value_units r \<le> next_offset r \<and>
     next_offset r \<le> m_extent (pv_metadata v) \<and>
     view_ok (suffix_view r) \<and> bsize (suffix_view r) = (key_units r - retained r) * bits_per_unit p \<and>
     view_ok (value_view r) \<and> bsize (value_view r) = value_units r * bits_per_unit p"

lemma read_at_yields:
  assumes "admitted p v"
  shows "yields (read_at (read_count host p (pv_data v)) at) (\<lambda>(n, at'). at < at')"
    "yields (read_at (read_backspace host p (pv_data v)) at) (\<lambda>(n, at'). at \<le> at')"
proof -
  have "only_checked (read_at (read_count host p (pv_data v)) at)" "only_checked (read_at (read_backspace host p (pv_data v)) at)"
    using rejects_count [of "pv_data v" host p at] rejects_backspace [of "pv_data v" host p at]
      admittedD(3) [OF assms] view_ok_bytes [of "pv_data v"]
    by (auto simp: read_at_def rejects_def split: prod.splits sum.splits)
  note c = this [THEN yields_checked]
  show "yields (read_at (read_count host p (pv_data v)) at) (\<lambda>(n, at'). at < at')"
    by (rule yields_weaken [OF c(1)]) (auto dest: read_at_Inr(1) [OF admittedD(2) [OF assms]])
  show "yields (read_at (read_backspace host p (pv_data v)) at) (\<lambda>(n, at'). at \<le> at')"
    by (rule yields_weaken [OF c(2)]) (auto dest: read_at_backspace_Inr [OF admittedD(1,2) [OF assms]])
qed

lemma parse_lengths_yields:
  assumes "admitted p v"
  shows "yields (parse_lengths host p v at) (\<lambda>(suffix, val, at'). at \<le> at' \<and> at' + suffix + val \<le> m_extent (pv_metadata v))"
  unfolding parse_lengths_def
proof (rule yields_bind [OF read_at_yields(1) [OF assms]], clarify, rule yields_bind)
  fix suffix at1
  show "yields (case m_common_value_width (pv_metadata v) of None \<Rightarrow> read_at (read_count host p (pv_data v)) at1 | Some w \<Rightarrow> Inr (w, at1))
    (\<lambda>(val, at'). at1 \<le> at')"
    using yields_weaken [OF read_at_yields(1) [OF assms]] by (auto split: option.split)
qed (auto simp: Let_def)

lemma u64_add_small: "a + b \<le> u64_max \<Longrightarrow> u64_add a b = a + b"
  by (simp add: u64_add_def u64_max_def)

lemma parse_frame_yields:
  assumes "admitted p v" "kept \<le> at"
  shows "yields (parse_frame host p v at kept) (\<lambda>(units, following). kept \<le> units \<and> units \<le> following \<and>
    following \<le> m_extent (pv_metadata v))"
  unfolding parse_frame_def
  by (rule yields_bind [OF parse_lengths_yields [OF assms(1)]])
    (use assms(2) admittedD(6) [OF assms(1)] in \<open>auto simp: u64_add_small\<close>)

lemma units_fit:
  assumes "admitted p v" "n \<le> m_extent (pv_metadata v)"
  shows "profile_multiply n (bits_per_unit p) = Inr (n * bits_per_unit p)"
proof (rule multiply_units)
  have "n * bits_per_unit p \<le> m_extent (pv_metadata v) * bits_per_unit p" using assms(2) by (rule mult_le_mono1)
  then show "n * bits_per_unit p \<le> u64_max" using admittedD(5) [OF assms(1)] by linarith
qed

text \<open>The payload a view parses, with its fields written out.\<close>

lemma subview_units:
  assumes "admitted p v" "at + n \<le> m_extent (pv_metadata v)"
  shows "\<exists>w. subview (pv_data v) (at * bits_per_unit p) (n * bits_per_unit p) = Inr w \<and> view_ok w \<and>
    bsize w = n * bits_per_unit p \<and>
    view_bits w = take (n * bits_per_unit p) (drop (at * bits_per_unit p) (view_bits (pv_data v)))"
proof -
  have "(at + n) * bits_per_unit p \<le> bsize (pv_data v)"
    unfolding admittedD(4) [OF assms(1)] using assms(2) by (rule mult_le_mono1)
  then have "\<exists>w. subview (pv_data v) (at * bits_per_unit p) (n * bits_per_unit p) = Inr w"
    unfolding distrib_right subview_def by simp
  then obtain w where "subview (pv_data v) (at * bits_per_unit p) (n * bits_per_unit p) = Inr w" by blast
  then show ?thesis using subview_Inr [OF admittedD(3) [OF assms(1)]] by metis
qed

lemma parse_payload_eq:
  assumes v: "admitted p v" and r: "parse_lengths host p v at = Inr (suffix, val, at')"
  shows "\<exists>s w. parse_payload host p v at kept = Inr \<lparr>retained = kept, key_units = u64_add kept suffix, value_units = val,
      suffix_view = s, value_view = w, next_offset = at' + suffix + val\<rparr> \<and> view_ok s \<and> view_ok w \<and>
    bsize s = suffix * bits_per_unit p \<and> bsize w = val * bits_per_unit p \<and>
    view_bits s = take (suffix * bits_per_unit p) (drop (at' * bits_per_unit p) (view_bits (pv_data v))) \<and>
    view_bits w = take (val * bits_per_unit p) (drop ((at' + suffix) * bits_per_unit p) (view_bits (pv_data v)))"
proof -
  have b: "at \<le> at'" "at' + suffix + val \<le> m_extent (pv_metadata v)"
    using yields_Inr [OF parse_lengths_yields [OF v] r] by simp_all
  note m = units_fit [OF v]
  obtain s where s: "subview (pv_data v) (at' * bits_per_unit p) (suffix * bits_per_unit p) = Inr s" "view_ok s"
    "bsize s = suffix * bits_per_unit p"
    "view_bits s = take (suffix * bits_per_unit p) (drop (at' * bits_per_unit p) (view_bits (pv_data v)))"
    using subview_units [OF v, of at' suffix] b by auto
  obtain w where w: "subview (pv_data v) ((at' + suffix) * bits_per_unit p) (val * bits_per_unit p) = Inr w" "view_ok w"
    "bsize w = val * bits_per_unit p"
    "view_bits w = take (val * bits_per_unit p) (drop ((at' + suffix) * bits_per_unit p) (view_bits (pv_data v)))"
    using subview_units [OF v, of "at' + suffix" val] b by auto
  have "parse_payload host p v at kept = Inr \<lparr>retained = kept, key_units = u64_add kept suffix, value_units = val,
      suffix_view = s, value_view = w, next_offset = at' + suffix + val\<rparr>"
    unfolding parse_payload_def r using m [of suffix] m [of val] m [of at'] m [of "at' + suffix"] b s(1) w(1) by simp
  then show ?thesis using s w by blast
qed

lemma parse_payload_yields:
  assumes v: "admitted p v" and k: "kept \<le> at"
  shows "yields (parse_payload host p v at kept) (\<lambda>r. retained r = kept \<and> in_range p v r)"
proof (cases "parse_lengths host p v at")
  case (Inl e)
  then show ?thesis using parse_lengths_yields [OF v, of host at] by (simp add: parse_payload_def)
next
  case (Inr r)
  obtain suffix val at' where r: "r = (suffix, val, at')" by (cases r)
  have b: "at \<le> at'" "at' + suffix + val \<le> m_extent (pv_metadata v)"
    using yields_Inr [OF parse_lengths_yields [OF v] Inr] by (simp_all add: r)
  then have "u64_add kept suffix = kept + suffix" using k admittedD(6) [OF v] by (simp add: u64_add_small)
  then show ?thesis using parse_payload_eq [OF v Inr [unfolded r], of kept] b k by (auto simp: in_range_def)
qed

section \<open>Controls and location\<close>

lemma read_absolute_yields:
  assumes "admitted p v"
  shows "yields (read_absolute host p v start) (\<lambda>(kept, at). kept \<le> start \<and> start < at)"
  unfolding read_absolute_def by (rule yields_bind [OF read_at_yields(1) [OF assms]]) auto

lemma read_relative_yields:
  assumes "admitted p v"
  shows "yields (read_relative host p v at previous) (\<lambda>(kept, at'). kept \<le> previous \<and> at \<le> at')"
  unfolding read_relative_def by (rule yields_bind [OF read_at_yields(2) [OF assms]]) auto

text \<open>
  A located record under a counter: the counter grows by at most \<open>b\<close>, whether the location succeeds
  or throws.
\<close>

definition counted :: "(nat, 'a) op \<Rightarrow> nat \<Rightarrow> ('a \<Rightarrow> bool) \<Rightarrow> bool" where
  "counted m b P \<longleftrightarrow> (\<forall>n. n \<le> snd (m n) \<and> snd (m n) \<le> n + b \<and> yields (fst (m n)) P)"

lemma countedD: "counted m b P \<Longrightarrow> m n = (r, n') \<Longrightarrow> n \<le> n' \<and> n' \<le> n + b \<and> yields r P"
  unfolding counted_def by (metis fst_conv snd_conv)

lemma counted_mono: "counted m a P \<Longrightarrow> a \<le> b \<Longrightarrow> counted m b P"
  unfolding counted_def by (meson add_left_mono le_trans)

lemma counted_bind:
  assumes "counted m a P" "\<And>x. P x \<Longrightarrow> counted (f x) b Q"
  shows "counted (bindM m f) (a + b) Q"
  unfolding counted_def
proof
  fix n
  obtain r n1 where m: "m n = (r, n1)" by fastforce
  note a = countedD [OF assms(1) m]
  show "n \<le> snd (bindM m f n) \<and> snd (bindM m f n) \<le> n + (a + b) \<and> yields (fst (bindM m f n)) Q"
  proof (cases r)
    case (Inl e)
    then show ?thesis using m a by (simp add: bindM_apply)
  next
    case (Inr x)
    obtain r2 n2 where f: "f x n1 = (r2, n2)" by fastforce
    have "P x" using a Inr by simp
    then have "n1 \<le> n2 \<and> n2 \<le> n1 + b \<and> yields r2 Q" by (intro countedD [OF assms(2) f])
    then show ?thesis using m a Inr f by (auto simp: bindM_apply)
  qed
qed

lemma counted_lift [simp]: "counted (liftM (\<lambda>_. r)) b P \<longleftrightarrow> yields r P"
  by (simp add: counted_def)

lemma counted_return [simp]: "counted (returnM x) b P \<longleftrightarrow> P x"
  by (simp add: counted_def)

lemma counted_raise [simp]: "counted (raiseM e) b P \<longleftrightarrow> checked e"
  by (simp add: counted_def)

lemma counted_Suc: "counted (modifyM Suc) 1 (\<lambda>_. True)"
  by (simp add: counted_def)

lemma counted_lift_bind:
  assumes "yields r P" "\<And>x. r = Inr x \<Longrightarrow> P x \<Longrightarrow> counted (f x) b Q"
  shows "counted (bindM (liftM (\<lambda>_. r)) f) b Q"
proof -
  have "yields r (\<lambda>x. r = Inr x \<and> P x)" using assms(1) by (cases r) simp_all
  then have "counted (liftM (\<lambda>_. r) :: (nat, 'a) op) 0 (\<lambda>x. r = Inr x \<and> P x)" by simp
  from counted_bind [OF this, of f b Q] show ?thesis using assms(2) by simp
qed

lemma skip_headers_yields:
  assumes "admitted p v"
  shows "kept \<le> at \<Longrightarrow> previous \<le> m_extent (pv_metadata v) \<Longrightarrow>
    counted (skip_headers host p v n at kept previous) n (\<lambda>(at', kept', previous'). kept' \<le> at' \<and> previous' \<le> m_extent (pv_metadata v))"
proof (induction n arbitrary: at kept previous)
  case 0
  then show ?case by (simp add: counted_def)
next
  case (Suc n)
  show ?case
    unfolding skip_headers.simps
  proof (rule counted_lift_bind [OF parse_frame_yields [OF assms Suc.prems(1)]], clarify)
    fix units following
    assume f: "units \<le> following" "following \<le> m_extent (pv_metadata v)"
    show "counted (bindM (liftM (\<lambda>_. read_relative host p v following units)) (\<lambda>(kept, at).
        bindM (modifyM Suc) (\<lambda>_. skip_headers host p v n at kept units))) (Suc n)
      (\<lambda>(at', kept', previous'). kept' \<le> at' \<and> previous' \<le> m_extent (pv_metadata v))"
    proof (rule counted_lift_bind [OF read_relative_yields [OF assms]], clarify)
      fix kept at assume "kept \<le> units" "following \<le> at"
      then have "counted (skip_headers host p v n at kept units) n
          (\<lambda>(at', kept', previous'). kept' \<le> at' \<and> previous' \<le> m_extent (pv_metadata v))"
        using f by (intro Suc.IH) linarith+
      from counted_bind [OF counted_Suc this]
      show "counted (bindM (modifyM Suc) (\<lambda>_. skip_headers host p v n at kept units)) (Suc n)
          (\<lambda>(at', kept', previous'). kept' \<le> at' \<and> previous' \<le> m_extent (pv_metadata v))" by simp
    qed
  qed
qed

lemma ef_select_checked: "only_checked (ef_select host v i)"
  by (auto simp: ef_select_def intro!: only_checked_bind select_high_checked ef_decode_checked(1))

lemma block_offset_checked: "only_checked (block_offset host p v b)"
  by (auto simp: block_offset_def Let_def intro!: only_checked_bind ef_select_checked)

lemma locate_record_yields:
  assumes "admitted p v"
  shows "counted (locate_record host p v i) (i mod codec_block_size p) (\<lambda>(at, kept, previous). kept \<le> at \<and>
    previous \<le> m_extent (pv_metadata v))"
  unfolding locate_record_def Let_def
proof (rule counted_lift_bind [OF yields_checked [OF block_offset_checked]],
    rule counted_lift_bind [OF read_absolute_yields [OF assms]], clarify)
  fix start kept at :: nat
  assume "kept \<le> start" "start < at"
  then have "kept \<le> at" by simp
  from skip_headers_yields [OF assms this le0, of host "i mod codec_block_size p"]
  show "counted (if i div codec_block_size p = 0 \<and> kept \<noteq> 0
      then raiseM (Invalid_argument ''first profile key is not literal'')
      else skip_headers host p v (i - i div codec_block_size p * codec_block_size p) at kept 0) (i mod codec_block_size p)
    (\<lambda>(at, kept, previous). kept \<le> at \<and> previous \<le> m_extent (pv_metadata v))"
    by (simp add: minus_div_mult_eq_mod)
qed

lemma encoded_at_yields:
  assumes "admitted p v"
  shows "yields (encoded_at host p v i) (\<lambda>r. i < pv_size v \<and> in_range p v r)"
  unfolding encoded_at_def
proof (rule yields_if)
  assume "\<not> i \<ge> pv_size v"
  then have i: "i < pv_size v" by simp
  have y: "yields (fst (locate_record host p v i 0)) (\<lambda>(at, kept, previous). kept \<le> at \<and> previous \<le> m_extent (pv_metadata v))"
    using locate_record_yields [OF assms, of host i] unfolding counted_def by blast
  show "yields (bindE (fst (locate_record host p v i 0)) (\<lambda>(at, kept, _). parse_payload host p v at kept))
    (\<lambda>r. i < pv_size v \<and> in_range p v r)"
    by (rule yields_bind [OF y]) (auto intro: yields_weaken [OF parse_payload_yields [OF assms]] simp: i)
qed simp

lemma predecessor_units_yields:
  assumes "admitted p v"
  shows "counted (predecessor_units host p v i) (codec_block_size p) (\<lambda>units. i \<le> pv_size v \<and>
    (i < pv_size v \<longrightarrow> units \<le> m_extent (pv_metadata v)))"
proof -
  have b: "0 < codec_block_size p" using admittedD(1) [OF assms] by (simp add: policy_ok_def)
  let ?P = "\<lambda>units. i \<le> pv_size v \<and> (i < pv_size v \<longrightarrow> units \<le> m_extent (pv_metadata v))"
  consider "i > pv_size v" | "i = 0 \<or> i = pv_size v" | "0 < i" "i < pv_size v" by linarith
  then show ?thesis
  proof cases
    case 3
    have step: "counted (bindM (liftM (\<lambda>_. parse_payload host p v at kept)) (\<lambda>record.
        bindM (modifyM Suc) (\<lambda>_. returnM (key_units record)))) 1 ?P" if "kept \<le> at" for at kept
    proof (rule counted_lift_bind [OF parse_payload_yields [OF assms that]])
      fix r assume "retained r = kept \<and> in_range p v r"
      then show "counted (bindM (modifyM Suc) (\<lambda>_. returnM (key_units r))) 1 ?P"
        using 3 counted_bind [OF counted_Suc, of "\<lambda>_. returnM (key_units r)" 0 ?P] by (simp add: in_range_def)
    qed
    have "counted (bindM (locate_record host p v (i - 1)) (\<lambda>(at, kept, _).
        bindM (liftM (\<lambda>_. parse_payload host p v at kept)) (\<lambda>record.
        bindM (modifyM Suc) (\<lambda>_. returnM (key_units record))))) ((i - 1) mod codec_block_size p + 1) ?P"
      by (rule counted_bind [OF locate_record_yields [OF assms]]) (use step in auto)
    moreover have "(i - 1) mod codec_block_size p + 1 \<le> codec_block_size p"
      using mod_less_divisor [OF b, of "i - 1"] by simp
    ultimately have "counted (bindM (locate_record host p v (i - 1)) (\<lambda>(at, kept, _).
        bindM (liftM (\<lambda>_. parse_payload host p v at kept)) (\<lambda>record.
        bindM (modifyM Suc) (\<lambda>_. returnM (key_units record))))) (codec_block_size p) ?P"
      by (rule counted_mono)
    moreover have "\<not> i > pv_size v" "i \<noteq> 0" "i \<noteq> pv_size v" using 3 by simp_all
    ultimately show ?thesis by (simp only: predecessor_units_def if_False)
  qed (auto simp: predecessor_units_def counted_def)
qed

lemma next_record_yields:
  assumes "admitted p v" "in_range p v r" "\<And>b. only_checked (block_at b)"
  shows "yields (next_record host p v r i block_at) (\<lambda>(r', c). in_range p v r' \<and> retained r' \<le> key_units r)"
proof -
  have le: "key_units r \<le> next_offset r" using assms(2) by (simp add: in_range_def)
  have absolute: "yields (parse_absolute host p v (next_offset r)) (in_range p v)"
    unfolding parse_absolute_def
    by (rule yields_bind [OF read_absolute_yields [OF assms(1)]])
      (auto intro: yields_weaken [OF parse_payload_yields [OF assms(1)]])
  have relative: "yields (parse_relative host p v (next_offset r) (key_units r)) (\<lambda>r'. in_range p v r' \<and> retained r' \<le> key_units r)"
    unfolding parse_relative_def
    by (rule yields_bind [OF read_relative_yields [OF assms(1)]])
      (use le in \<open>auto intro: yields_weaken [OF parse_payload_yields [OF assms(1)]]\<close>)
  show ?thesis
    unfolding next_record_def Let_def
    by (intro yields_if yields_bind [OF yields_checked [OF assms(3)]] yields_bind [OF absolute] yields_bind [OF relative])
      (auto intro!: yields_bind [OF absolute])
qed

text \<open>Decoding a frame in range onto an agreeing key: never fails when the key is long enough.\<close>

lemma decode_into_ok:
  assumes v: "admitted p v" "in_range p v r" and s: "string_ok s" "bit_size s = min ctx_units limit * bits_per_unit p"
    and r: "retained r \<le> ctx_units"
  shows "\<exists>t. decode_into host p r limit s ctx_units = Inr (t, key_units r) \<and> string_ok t \<and>
    string_bits t = take (min (key_units r) limit * bits_per_unit p) (take (retained r * bits_per_unit p) (string_bits s) @ view_bits (suffix_view r))"
proof -
  define u where "u = bits_per_unit p"
  define keep where "keep = min (retained r) limit"
  define full where "full = min (key_units r) limit"
  have rng: "retained r \<le> key_units r" "key_units r \<le> m_extent (pv_metadata v)" "view_ok (suffix_view r)"
    "bsize (suffix_view r) = (key_units r - retained r) * u"
    using v(2) by (auto simp: in_range_def u_def)
  have le: "keep \<le> full" "full \<le> m_extent (pv_metadata v)" using rng by (auto simp: keep_def full_def)
  have m: "profile_multiply keep u = Inr (keep * u)" "profile_multiply (full - keep) u = Inr ((full - keep) * u)"
    using units_fit [OF v(1), of keep] units_fit [OF v(1), of "full - keep"] le by (simp_all add: u_def)
  have big: "full * u \<le> u64_max - 7" using mult_le_mono1 [OF le(2), of u] admittedD(5) [OF v(1)] unfolding u_def by (rule order_trans)
  have ku: "keep * u \<le> full * u" using le(1) by (rule mult_le_mono1)
  have fits: "keep * u \<le> bit_size s" unfolding s(2) u_def keep_def using r by (intro mult_le_mono1) simp
  have ls: "length (string_bits s) = bit_size s" using s(1) by (rule length_string_bits)
  obtain s1 where s1: "resize_string s (keep * u) = Inr s1" "string_ok s1" "bit_size s1 = keep * u"
    "string_bits s1 = take (keep * u) (string_bits s)"
    using resize_string_bits [OF s(1), of "keep * u"] big ku fits ls by auto
  obtain w where w: "bprefix (suffix_view r) ((full - keep) * u) = Inr w" "view_ok w"
    "view_bits w = take ((full - keep) * u) (view_bits (suffix_view r))" "bsize w = min ((full - keep) * u) (bsize (suffix_view r))"
    using bprefix_ok [OF rng(3)] by metis
  have "bsize w \<le> (full - keep) * u" using w(4) by simp
  moreover have "keep * u + (full - keep) * u = full * u" using ku by (simp add: diff_mult_distrib)
  ultimately have "bit_size s1 + bsize w \<le> u64_max - 7" unfolding s1(3) using big by linarith
  then obtain t where t: "append_view host False s1 w = Inr t" "string_ok t" "string_bits t = string_bits s1 @ view_bits w"
    using append_view_bits [OF s1(2) w(2)] by blast
  have dec: "decode_into host p r limit s ctx_units = Inr (t, key_units r)"
    using r fits unfolding decode_into_def Let_def keep_def [symmetric] full_def [symmetric] u_def [symmetric]
    by (simp add: m s1(1) w(1) t(1))
  have "string_bits t = take (full * u) (take (retained r * u) (string_bits s) @ view_bits (suffix_view r))"
  proof (cases "limit \<le> retained r")
    case True
    then have "keep = limit" "full = limit" using rng(1) by (simp_all add: keep_def full_def)
    moreover have "limit * u \<le> retained r * u" using True by (rule mult_le_mono1)
    moreover have "limit * u \<le> length (string_bits s)" using fits ls \<open>keep = limit\<close> by simp
    ultimately show ?thesis using t(3) s1(4) w(3) by (simp add: min_absorb1)
  next
    case False
    then have k: "keep = retained r" by (simp add: keep_def)
    have "length (take (retained r * u) (string_bits s)) = retained r * u" using fits ls k by simp
    then show ?thesis using t(3) s1(4) w(3) k le(1) by (simp add: diff_mult_distrib)
  qed
  then show ?thesis using dec t(2) by (simp add: full_def u_def)
qed

section \<open>Reconstruction\<close>

text \<open>One step of the reconstruction: the part of the key between its retained prefix and \<open>need\<close>.\<close>

lemma copy_suffix_ok:
  assumes v: "admitted p v" "in_range p v r" and k: "string_ok key" "need * bits_per_unit p \<le> bit_size key"
    and n: "retained r < need" "need \<le> key_units r"
  shows "\<exists>key'. bindE (profile_multiply (need - retained r) (bits_per_unit p)) (\<lambda>n.
      bindE (profile_multiply (retained r) (bits_per_unit p)) (\<lambda>first_bit.
      bindE (bprefix (suffix_view r) n) (\<lambda>part.
      bindE (copy_into host key first_bit part) (\<lambda>key. Inr (retained r, key))))) = Inr (retained r, key') \<and>
    string_ok key' \<and> bit_size key' = bit_size key \<and>
    string_bits key' = splice (string_bits key) (retained r * bits_per_unit p)
      (take ((need - retained r) * bits_per_unit p) (view_bits (suffix_view r)))"
proof -
  define u where "u = bits_per_unit p"
  have rng: "key_units r \<le> m_extent (pv_metadata v)" "view_ok (suffix_view r)" "bsize (suffix_view r) = (key_units r - retained r) * u"
    using v(2) by (auto simp: in_range_def u_def)
  have m: "profile_multiply (need - retained r) u = Inr ((need - retained r) * u)" "profile_multiply (retained r) u = Inr (retained r * u)"
    using units_fit [OF v(1), of "need - retained r"] units_fit [OF v(1), of "retained r"] n rng(1) by (simp_all add: u_def)
  obtain w where w: "bprefix (suffix_view r) ((need - retained r) * u) = Inr w" "view_ok w"
    "view_bits w = take ((need - retained r) * u) (view_bits (suffix_view r))" "bsize w = min ((need - retained r) * u) (bsize (suffix_view r))"
    using bprefix_ok [OF rng(2)] by metis
  have "retained r * u + bsize w \<le> retained r * u + (need - retained r) * u" using w(4) by simp
  also have "\<dots> = need * u" using n(1) by (simp add: diff_mult_distrib)
  also have "\<dots> \<le> bit_size key" using k(2) by (simp add: u_def)
  finally obtain t where t: "copy_into host key (retained r * u) w = Inr t" "string_ok t" "bit_size t = bit_size key"
    "string_bits t = splice (string_bits key) (retained r * u) (view_bits w)"
    using copy_into_splice [OF k(1) w(2)] by blast
  show ?thesis unfolding u_def [symmetric] using m w(1,3) t by simp
qed

lemma reconstruct_step_yields:
  assumes v: "admitted p v" and r: "in_range p v r" and k: "string_ok key" "need * bits_per_unit p \<le> bit_size key"
    and rest: "\<And>j e need' key'. i = Suc j \<Longrightarrow> in_range p v e \<Longrightarrow> string_ok key' \<Longrightarrow> bit_size key' = bit_size key \<Longrightarrow>
      need' \<le> need \<Longrightarrow> yields (reconstruct_loop host p v j e need' key') (\<lambda>t. string_ok t \<and> bit_size t = bit_size key)"
  shows "yields (reconstruct_loop host p v i r need key) (\<lambda>key'. string_ok key' \<and> bit_size key' = bit_size key)"
proof -
  have go: "yields (case i of 0 \<Rightarrow> Inl (Invalid_argument ''nonliteral first profile key'')
      | Suc j \<Rightarrow> bindE (encoded_at host p v j) (\<lambda>earlier.
          if key_units earlier < retained r then Inl (Invalid_argument ''profile predecessor prefix is too short'')
          else reconstruct_loop host p v j earlier need' key')) (\<lambda>t. string_ok t \<and> bit_size t = bit_size key)"
    if "string_ok key'" "bit_size key' = bit_size key" "need' \<le> need" for need' key'
  proof (cases i)
    case (Suc j)
    then show ?thesis using that rest by (auto intro!: yields_bind [OF encoded_at_yields [OF v]])
  qed simp
  consider "need = 0 \<or> key_units r < need" | (copy) "need \<noteq> 0" "need \<le> key_units r" "retained r < need"
    | (keep) "need \<noteq> 0" "need \<le> key_units r" "need \<le> retained r" by linarith
  then show ?thesis
  proof cases
    case 1
    then show ?thesis using k by (subst reconstruct_loop.simps) auto
  next
    case copy
    from copy_suffix_ok [OF v r k copy(3,2), of host] obtain key' where
      c: "bindE (profile_multiply (need - retained r) (bits_per_unit p)) (\<lambda>n.
          bindE (profile_multiply (retained r) (bits_per_unit p)) (\<lambda>first_bit.
          bindE (bprefix (suffix_view r) n) (\<lambda>part.
          bindE (copy_into host key first_bit part) (\<lambda>key. Inr (retained r, key))))) = Inr (retained r, key')"
        "string_ok key'" "bit_size key' = bit_size key" by blast
    show ?thesis
      using copy go [of key' "retained r"] c by (subst reconstruct_loop.simps) (simp split del: nat.split)
  next
    case keep
    then show ?thesis using go [of key need] k by (subst reconstruct_loop.simps) (simp split del: nat.split)
  qed
qed

lemma reconstruct_loop_yields:
  assumes v: "admitted p v"
  shows "in_range p v r \<Longrightarrow> string_ok key \<Longrightarrow> need * bits_per_unit p \<le> bit_size key \<Longrightarrow>
    yields (reconstruct_loop host p v i r need key) (\<lambda>key'. string_ok key' \<and> bit_size key' = bit_size key)"
proof (induction i arbitrary: r need key)
  case (Suc i)
  show ?case
  proof (rule reconstruct_step_yields [OF v Suc.prems])
    fix j e need' and key' :: bit_string
    assume a: "Suc i = Suc j" "in_range p v e" "string_ok key'" "bit_size key' = bit_size key" "need' \<le> need"
    have "need' * bits_per_unit p \<le> bit_size key'"
      using mult_le_mono1 [OF a(5), of "bits_per_unit p"] Suc.prems(3) unfolding a(4) by (rule order_trans)
    then show "yields (reconstruct_loop host p v j e need' key') (\<lambda>t. string_ok t \<and> bit_size t = bit_size key)"
      using Suc.IH [OF a(2,3), of need'] a(1,4) by simp
  qed
qed (rule reconstruct_step_yields [OF v]; simp)

lemma empty_string_ok [simp]: "string_ok empty_string" "bit_size empty_string = 0" "string_bits empty_string = []"
  by (simp_all add: empty_string_def string_ok_def string_bits_def byte_count_def)

lemma reconstruct_at_yields:
  assumes v: "admitted p v"
  shows "yields (reconstruct_at host p v i limit) (\<lambda>d. i < pv_size v \<and> string_ok (decoded_prefix d) \<and> string_ok (decoded_value d) \<and>
    bit_size (decoded_prefix d) = min (decoded_units d) limit * bits_per_unit p \<and> decoded_units d \<le> m_extent (pv_metadata v))"
  unfolding reconstruct_at_def Let_def
proof (rule yields_bind [OF encoded_at_yields [OF v]])
  fix r
  assume r: "i < pv_size v \<and> in_range p v r"
  define need where "need = min (key_units r) limit"
  have n: "need \<le> m_extent (pv_metadata v)" "key_units r \<le> m_extent (pv_metadata v)" using r by (auto simp: need_def in_range_def)
  have nu: "need * bits_per_unit p \<le> u64_max - 7" using mult_le_mono1 [OF n(1)] admittedD(5) [OF v] by (rule order_trans)
  have "value_units r * bits_per_unit p \<le> u64_max - 7"
  proof -
    have "value_units r \<le> m_extent (pv_metadata v)" using r by (auto simp: in_range_def)
    then show ?thesis using admittedD(5) [OF v] by (rule order_trans [OF mult_le_mono1])
  qed
  then obtain val where val: "copy_string host (value_view r) = Inr val" "string_ok val"
    using copy_string_ok [of "value_view r" host] r by (auto simp: in_range_def)
  obtain key where key: "resize_string empty_string (need * bits_per_unit p) = Inr key" "string_ok key"
    "bit_size key = need * bits_per_unit p"
    using resize_string_bits [OF empty_string_ok(1) nu] by blast
  have "yields (reconstruct_loop host p v i r need key) (\<lambda>key'. string_ok key' \<and> bit_size key' = bit_size key)"
    using r key by (intro reconstruct_loop_yields [OF v]) simp_all
  note loop = this
  show "yields (bindE (copy_string host (value_view r)) (\<lambda>val.
      bindE (profile_multiply (min (key_units r) limit) (bits_per_unit p)) (\<lambda>bits.
      bindE (resize_string empty_string bits) (\<lambda>key.
      bindE (reconstruct_loop host p v i r (min (key_units r) limit) key) (\<lambda>key.
        Inr \<lparr>decoded_prefix = key, decoded_units = key_units r, decoded_value = val\<rparr>)))))
    (\<lambda>d. i < pv_size v \<and> string_ok (decoded_prefix d) \<and> string_ok (decoded_value d) \<and>
      bit_size (decoded_prefix d) = min (decoded_units d) limit * bits_per_unit p \<and> decoded_units d \<le> m_extent (pv_metadata v))"
    unfolding need_def [symmetric] val(1) units_fit [OF v n(1)] bindE_simps key(1)
    by (rule yields_bind [OF loop]) (use r n(2) val(2) key(3) in \<open>simp add: need_def\<close>)
qed

section \<open>Properties\<close>

lemma default_policy_facts:
  "policy_unit default_policy = Byte" "policy_value_width default_policy = None" "codec_block_size default_policy = 15"
  "group_size default_policy = 15" "backspace default_policy = Exponential_golomb 0"
  by (simp_all add: default_policy_def policy_unit_def registry_unit_def policy_value_width_def value_width_def)

text \<open>
  C20. Damaged profiles are refused, never trusted. Whatever the payload and the offsets of a view
  are, locating a record returns one whose retained prefix, key and value lie inside the payload,
  reconstructing a key returns a canonical string of the announced length, and looking up a
  predecessor's length replays at most one block; otherwise each throws \<open>invalid_argument\<close> or
  \<open>out_of_range\<close>. The counter of replayed headers grows by at most one block even then. Nothing outside the sections is read and no loop is left unfinished.
\<close>

theorem damaged_profile_is_refused:
  assumes "policy_ok p" "from_sections p role bs offsets m = Inr v"
  shows "(case encoded_at host p v i of Inr r \<Rightarrow> i < m_record_count m \<and> in_range p v r | Inl e \<Rightarrow> checked e) \<and>
    (case reconstruct_at host p v i limit of
       Inr d \<Rightarrow> string_ok (decoded_prefix d) \<and> string_ok (decoded_value d) \<and> decoded_units d \<le> m_extent m \<and>
         bit_size (decoded_prefix d) = min (decoded_units d) limit * bits_per_unit p
     | Inl e \<Rightarrow> checked e) \<and>
    (case predecessor_units host p v i before of (r, skipped) \<Rightarrow>
       before \<le> skipped \<and> skipped \<le> before + codec_block_size p \<and>
       (case r of Inr units \<Rightarrow> i \<le> m_record_count m \<and> (i < m_record_count m \<longrightarrow> units \<le> m_extent m) | Inl e \<Rightarrow> checked e))"
proof -
  note v = from_sections_admitted [OF assms]
  show ?thesis
    using encoded_at_yields [OF v(1), of host i] reconstruct_at_yields [OF v(1), of host i limit]
      countedD [OF predecessor_units_yields [OF v(1), of host i], of before]
    unfolding pv_size_def v(2) yields_def by (auto split: sum.splits prod.splits)
qed

lemma damaged_profile_is_refused_witness:
  "\<exists>v. from_sections default_policy Native [0x80, 0x01, 0xFF] \<lparr>v_low = native_words True [], v_high = native_words True [],
       v_samples = native_words True [], v_sparse = native_words True [], v_entry_count = 2, v_universe = 3, v_high_bits = 0,
       v_low_width = 0\<rparr>
       ((initial_metadata default_policy Native)\<lparr>m_record_count := 1, m_extent := 3, m_terminal_key_units := 2\<rparr>) = Inr v \<and>
     (case encoded_at True default_policy v 0 of Inr r \<Rightarrow> in_range default_policy v r | Inl e \<Rightarrow> checked e)"
proof -
  let ?o = "\<lparr>v_low = native_words True [], v_high = native_words True [], v_samples = native_words True [],
    v_sparse = native_words True [], v_entry_count = 2, v_universe = 3, v_high_bits = 0, v_low_width = 0\<rparr>"
  let ?m = "(initial_metadata default_policy Native)\<lparr>m_record_count := 1, m_extent := 3, m_terminal_key_units := 2\<rparr>"
  have "\<exists>v. from_sections default_policy Native [0x80, 0x01, 0xFF] ?o ?m = Inr v"
    by (simp add: from_sections_def initial_metadata_def profile_multiply_def new_bit_view_def u64_max_def byte_count_def
      count_blocks_def value_or_def default_policy_facts)
  then obtain v where v: "from_sections default_policy Native [0x80, 0x01, 0xFF] ?o ?m = Inr v" by blast
  show ?thesis
    using v damaged_profile_is_refused [OF default_policies_ok(1) v, of 0 True 0 0] by (auto split: sum.splits)
qed

end
