(* ===== verification/ProfileStream.thy ===== *)
theory ProfileStream
  imports ProfileFrames
begin

text \<open>
  What a profile stores: a list of frames, each with the retained prefix, the key and the value
  of a record. A view that holds the stream of such a list locates, parses, walks and
  reconstructs exactly these records.
\<close>

section \<open>Frames and streams\<close>

record frame =
  fr_kept :: nat
  fr_key :: "bool list"
  fr_value :: "bool list"

definition prev_key :: "frame list \<Rightarrow> nat \<Rightarrow> bool list" where
  "prev_key fs i = (if i = 0 then [] else fr_key (fs ! (i - 1)))"

definition control_bits :: "storage_policy \<Rightarrow> frame list \<Rightarrow> nat \<Rightarrow> bool list" where
  "control_bits p fs i =
     (if i mod codec_block_size p = 0 then count_code p (of_nat (fr_kept (fs ! i)))
      else backspace_code p (of_nat (length (prev_key fs i) div bits_per_unit p - fr_kept (fs ! i))))"

definition payload_bits :: "storage_policy \<Rightarrow> nat option \<Rightarrow> frame \<Rightarrow> bool list" where
  "payload_bits p c f =
     count_code p (of_nat (length (fr_key f) div bits_per_unit p - fr_kept f)) @
     (if c = None then count_code p (of_nat (length (fr_value f) div bits_per_unit p)) else []) @
     drop (fr_kept f * bits_per_unit p) (fr_key f) @ fr_value f"

definition stream :: "storage_policy \<Rightarrow> nat option \<Rightarrow> frame list \<Rightarrow> nat \<Rightarrow> bool list" where
  "stream p c fs n = concat (map (\<lambda>i. control_bits p fs i @ payload_bits p c (fs ! i)) [0..<n])"

definition place :: "storage_policy \<Rightarrow> nat option \<Rightarrow> frame list \<Rightarrow> nat \<Rightarrow> nat" where
  "place p c fs n = length (stream p c fs n) div bits_per_unit p"

definition frame_ok :: "storage_policy \<Rightarrow> nat option \<Rightarrow> frame list \<Rightarrow> nat \<Rightarrow> bool" where
  "frame_ok p c fs i \<longleftrightarrow> unit_multiple p (length (fr_key (fs ! i))) \<and> unit_multiple p (length (fr_value (fs ! i))) \<and>
     fr_kept (fs ! i) * bits_per_unit p \<le> lcp (prev_key fs i) (fr_key (fs ! i)) \<and>
     (\<forall>w. c = Some w \<longrightarrow> length (fr_value (fs ! i)) = w * bits_per_unit p)"

definition frames_ok :: "storage_policy \<Rightarrow> nat option \<Rightarrow> frame list \<Rightarrow> bool" where
  "frames_ok p c fs \<longleftrightarrow> (\<forall>i < length fs. frame_ok p c fs i)"

lemma bits_per_unit_nonzero [simp]: "bits_per_unit p \<noteq> 0"
  using bits_per_unit_pos [of p] by simp

lemma stream_Suc: "stream p c fs (Suc n) = stream p c fs n @ control_bits p fs n @ payload_bits p c (fs ! n)"
  by (simp add: stream_def)

lemma stream_0 [simp]: "stream p c fs 0 = []" "place p c fs 0 = 0"
  by (simp_all add: stream_def place_def)

lemma unit_multiple_iff: "unit_multiple p n \<longleftrightarrow> (\<exists>k. n = k * bits_per_unit p)"
  unfolding unit_multiple_def by (metis dvd_eq_mod_eq_0 dvd_def mult.commute)

lemma frames_okD: "frames_ok p c fs \<Longrightarrow> i < length fs \<Longrightarrow> frame_ok p c fs i"
  by (simp add: frames_ok_def)

lemma frame_units:
  assumes "frame_ok p c fs i"
  shows "length (fr_key (fs ! i)) div bits_per_unit p * bits_per_unit p = length (fr_key (fs ! i))"
    "length (fr_value (fs ! i)) div bits_per_unit p * bits_per_unit p = length (fr_value (fs ! i))"
    "fr_kept (fs ! i) \<le> length (fr_key (fs ! i)) div bits_per_unit p"
    "fr_kept (fs ! i) \<le> length (prev_key fs i) div bits_per_unit p"
    "fr_kept (fs ! i) * bits_per_unit p \<le> length (prev_key fs i)"
    "take (fr_kept (fs ! i) * bits_per_unit p) (prev_key fs i) = take (fr_kept (fs ! i) * bits_per_unit p) (fr_key (fs ! i))"
proof -
  have u: "unit_multiple p (length (fr_key (fs ! i)))" "unit_multiple p (length (fr_value (fs ! i)))"
    and k: "fr_kept (fs ! i) * bits_per_unit p \<le> lcp (prev_key fs i) (fr_key (fs ! i))"
    using assms by (simp_all add: frame_ok_def)
  show "length (fr_key (fs ! i)) div bits_per_unit p * bits_per_unit p = length (fr_key (fs ! i))"
    "length (fr_value (fs ! i)) div bits_per_unit p * bits_per_unit p = length (fr_value (fs ! i))"
    using u by (simp_all only: units_exact)
  have l: "fr_kept (fs ! i) * bits_per_unit p \<le> length (prev_key fs i)" "fr_kept (fs ! i) * bits_per_unit p \<le> length (fr_key (fs ! i))"
    using k lcp_le [of "prev_key fs i" "fr_key (fs ! i)"] by linarith+
  then show "fr_kept (fs ! i) \<le> length (fr_key (fs ! i)) div bits_per_unit p"
    "fr_kept (fs ! i) \<le> length (prev_key fs i) div bits_per_unit p"
    "fr_kept (fs ! i) * bits_per_unit p \<le> length (prev_key fs i)"
    by (simp_all add: less_eq_div_iff_mult_less_eq)
  show "take (fr_kept (fs ! i) * bits_per_unit p) (prev_key fs i) = take (fr_kept (fs ! i) * bits_per_unit p) (fr_key (fs ! i))"
    using k lcp_take [of "prev_key fs i" "fr_key (fs ! i)"] by (metis min_absorb1 take_take)
qed

lemma frame_key:
  assumes "frame_ok p c fs i"
  shows "take (fr_kept (fs ! i) * bits_per_unit p) (prev_key fs i) @ drop (fr_kept (fs ! i) * bits_per_unit p) (fr_key (fs ! i)) = fr_key (fs ! i)"
  unfolding frame_units(6) [OF assms] by simp

text \<open>Every part of the stream is a whole number of units.\<close>

lemma control_units: "\<exists>k. length (control_bits p fs i) = k * bits_per_unit p"
proof (cases "i mod codec_block_size p = 0")
  case True
  obtain n where "length (count_code p (of_nat (fr_kept (fs ! i)))) = bits_per_unit p * n" by (rule count_code_units)
  then show ?thesis using True by (auto simp: control_bits_def mult.commute)
next
  case False
  obtain n where "length (backspace_code p (of_nat (length (prev_key fs i) div bits_per_unit p - fr_kept (fs ! i)))) = bits_per_unit p * n"
    by (rule backspace_code_units)
  then show ?thesis using False by (auto simp: control_bits_def mult.commute)
qed

lemma count_units: "\<exists>k. length (count_code p x) = Suc k * bits_per_unit p"
proof -
  obtain n where "length (count_code p x) = bits_per_unit p * n" "0 < n" by (rule count_code_units)
  then show ?thesis by (intro exI [of _ "n - 1"]) (simp add: mult.commute)
qed

lemma payload_units:
  assumes "frame_ok p c fs i"
  shows "\<exists>k. length (payload_bits p c (fs ! i)) = Suc k * bits_per_unit p"
proof -
  let ?f = "fs ! i" and ?u = "bits_per_unit p"
  obtain a where a: "length (count_code p (of_nat (length (fr_key ?f) div ?u - fr_kept ?f))) = Suc a * ?u" using count_units by blast
  obtain b where b: "length (count_code p (of_nat (length (fr_value ?f) div ?u))) = Suc b * ?u" using count_units by blast
  have "length (drop (fr_kept ?f * ?u) (fr_key ?f)) = (length (fr_key ?f) div ?u - fr_kept ?f) * ?u"
    by (simp add: diff_mult_distrib frame_units(1) [OF assms])
  then have "length (payload_bits p c ?f) = (Suc a + (if c = None then Suc b else 0) +
      (length (fr_key ?f) div ?u - fr_kept ?f) + length (fr_value ?f) div ?u) * ?u"
    using a b by (simp add: payload_bits_def distrib_right frame_units(2) [OF assms])
  then show ?thesis by (metis add_Suc)
qed

lemma stream_units:
  assumes "frames_ok p c fs"
  shows "n \<le> length fs \<Longrightarrow> length (stream p c fs n) = place p c fs n * bits_per_unit p"
proof (induction n)
  case (Suc n)
  obtain a where a: "length (control_bits p fs n) = a * bits_per_unit p" using control_units by blast
  obtain b where b: "length (payload_bits p c (fs ! n)) = Suc b * bits_per_unit p"
    using payload_units [OF frames_okD [OF assms, of n]] Suc.prems by auto
  have "length (stream p c fs (Suc n)) = (place p c fs n + a + Suc b) * bits_per_unit p"
    using Suc a b by (simp add: stream_Suc distrib_right)
  then show ?case by (simp add: place_def)
qed simp

text \<open>The parts of a frame, where they lie.\<close>

definition payload_place :: "storage_policy \<Rightarrow> nat option \<Rightarrow> frame list \<Rightarrow> nat \<Rightarrow> nat" where
  "payload_place p c fs i = place p c fs i + length (control_bits p fs i) div bits_per_unit p"

lemma place_Suc:
  assumes "frames_ok p c fs" "i < length fs"
  shows "place p c fs (Suc i) = payload_place p c fs i + length (payload_bits p c (fs ! i)) div bits_per_unit p"
    "place p c fs i < place p c fs (Suc i)" "payload_place p c fs i < place p c fs (Suc i)"
proof -
  obtain a where a: "length (control_bits p fs i) = a * bits_per_unit p" using control_units by blast
  obtain b where b: "length (payload_bits p c (fs ! i)) = Suc b * bits_per_unit p"
    using payload_units [OF frames_okD [OF assms]] by auto
  have "length (stream p c fs (Suc i)) = (place p c fs i + a + Suc b) * bits_per_unit p"
    using stream_units [OF assms(1), of i] assms(2) a b by (simp add: stream_Suc distrib_right)
  then have "place p c fs (Suc i) = place p c fs i + a + Suc b" by (simp add: place_def)
  moreover have "length (control_bits p fs i) div bits_per_unit p = a" "length (payload_bits p c (fs ! i)) div bits_per_unit p = Suc b"
    unfolding a b by simp_all
  ultimately show "place p c fs (Suc i) = payload_place p c fs i + length (payload_bits p c (fs ! i)) div bits_per_unit p"
    "place p c fs i < place p c fs (Suc i)" "payload_place p c fs i < place p c fs (Suc i)"
    by (simp_all add: payload_place_def)
qed

lemma stream_prefix: "m \<le> n \<Longrightarrow> \<exists>rest. stream p c fs n = stream p c fs m @ rest"
proof -
  assume "m \<le> n"
  then have "[0..<n] = [0..<m] @ [m..<n]" by (metis le0 upt_add_eq_append le_add_diff_inverse)
  then show ?thesis unfolding stream_def by auto
qed

lemma place_mono: "m \<le> n \<Longrightarrow> place p c fs m \<le> place p c fs n"
  using stream_prefix [of m n p c fs] by (auto simp: place_def intro: div_le_mono)

lemma stream_drop:
  assumes "frames_ok p c fs" "i < length fs"
  shows "\<exists>rest. drop (place p c fs i * bits_per_unit p) (stream p c fs (length fs)) = control_bits p fs i @ payload_bits p c (fs ! i) @ rest"
    "\<exists>rest. drop (payload_place p c fs i * bits_per_unit p) (stream p c fs (length fs)) = payload_bits p c (fs ! i) @ rest"
proof -
  obtain rest where r: "stream p c fs (length fs) = stream p c fs (Suc i) @ rest"
    using stream_prefix [of "Suc i" "length fs" p c fs] assms(2) by auto
  have l: "length (stream p c fs i) = place p c fs i * bits_per_unit p"
    using stream_units [OF assms(1), of i] assms(2) by simp
  show d: "\<exists>rest. drop (place p c fs i * bits_per_unit p) (stream p c fs (length fs)) = control_bits p fs i @ payload_bits p c (fs ! i) @ rest"
    by (intro exI [of _ rest]) (simp add: r stream_Suc flip: l)
  obtain a where a: "length (control_bits p fs i) = a * bits_per_unit p" using control_units by blast
  have "payload_place p c fs i * bits_per_unit p = place p c fs i * bits_per_unit p + length (control_bits p fs i)"
    by (simp add: payload_place_def a distrib_right)
  then show "\<exists>rest. drop (payload_place p c fs i * bits_per_unit p) (stream p c fs (length fs)) = payload_bits p c (fs ! i) @ rest"
    using d by (metis append_eq_conv_conj drop_drop add.commute)
qed

lemma prev_key_Suc [simp]: "prev_key fs (Suc i) = fr_key (fs ! i)" and prev_key_0 [simp]: "prev_key fs 0 = []"
  by (simp_all add: prev_key_def)

lemma key_before_place:
  assumes "frames_ok p c fs"
  shows "i \<le> length fs \<Longrightarrow> length (prev_key fs i) div bits_per_unit p \<le> place p c fs i"
proof (induction i)
  case (Suc i)
  let ?f = "fs ! i" and ?u = "bits_per_unit p"
  have f: "frame_ok p c fs i" using frames_okD [OF assms] Suc.prems by simp
  obtain b where b: "length (payload_bits p c ?f) = Suc b * ?u" using payload_units [OF f] by blast
  have "(length (fr_key ?f) div ?u - fr_kept ?f) * ?u \<le> length (payload_bits p c ?f)"
    by (simp add: payload_bits_def diff_mult_distrib frame_units(1) [OF f])
  then have "length (fr_key ?f) div ?u - fr_kept ?f \<le> Suc b" by (simp add: b del: mult_Suc)
  moreover have "place p c fs (Suc i) = payload_place p c fs i + Suc b"
    using place_Suc(1) [OF assms, of i] Suc.prems by (simp add: b del: mult_Suc)
  moreover have "fr_kept ?f \<le> place p c fs i" using Suc frame_units(4) [OF f] by simp
  moreover have "place p c fs i \<le> payload_place p c fs i" by (simp add: payload_place_def)
  ultimately show ?case by simp
qed simp

text \<open>The sample of a block: its place less the room of the values of a fixed width before it.\<close>

definition residual :: "storage_policy \<Rightarrow> nat option \<Rightarrow> frame list \<Rightarrow> nat \<Rightarrow> nat" where
  "residual p c fs i = place p c fs i - i * value_or c 0"

lemma value_or_simps [simp]: "value_or (Some w) d = w" "value_or None d = d"
  by (simp_all add: value_or_def)

lemma place_step:
  assumes "frames_ok p c fs" "i < length fs"
  shows "place p c fs i + value_or c 0 < place p c fs (Suc i)"
proof -
  let ?f = "fs ! i" and ?u = "bits_per_unit p"
  have f: "frame_ok p c fs i" by (rule frames_okD [OF assms])
  obtain b where b: "length (payload_bits p c ?f) = Suc b * ?u" using payload_units [OF f] by blast
  have s: "place p c fs (Suc i) = payload_place p c fs i + Suc b" using place_Suc(1) [OF assms] by (simp add: b del: mult_Suc)
  obtain a where a: "length (count_code p (of_nat (length (fr_key ?f) div ?u - fr_kept ?f))) = Suc a * ?u" using count_units by blast
  have "(Suc a + value_or c 0) * ?u \<le> length (payload_bits p c ?f)"
    using f unfolding payload_bits_def length_append a by (cases c) (simp_all add: frame_ok_def distrib_right)
  then have "Suc a + value_or c 0 \<le> Suc b" unfolding b mult_le_cancel2 by simp
  then show ?thesis using s by (simp add: payload_place_def)
qed

lemma residual_mono:
  assumes "frames_ok p c fs"
  shows "j \<le> length fs \<Longrightarrow> i \<le> j \<Longrightarrow> residual p c fs i \<le> residual p c fs j" and
    "j \<le> length fs \<Longrightarrow> j * value_or c 0 \<le> place p c fs j" "j \<le> length fs \<Longrightarrow> j \<le> place p c fs j"
proof -
  show w: "j \<le> length fs \<Longrightarrow> j * value_or c 0 \<le> place p c fs j" for j
  proof (induction j)
    case (Suc j)
    then show ?case using place_step [OF assms, of j] by simp
  qed simp
  show "j \<le> length fs \<Longrightarrow> i \<le> j \<Longrightarrow> residual p c fs i \<le> residual p c fs j"
  proof (induction j)
    case (Suc j)
    have "residual p c fs j \<le> residual p c fs (Suc j)"
      using place_step [OF assms, of j] w [of j] Suc.prems by (simp add: residual_def)
    then show ?case using Suc by (cases "i = Suc j") auto
  qed simp
  show "j \<le> length fs \<Longrightarrow> j \<le> place p c fs j"
  proof (induction j)
    case (Suc j)
    then show ?case using place_step [OF assms, of j] by simp
  qed simp
qed

definition blocks_of :: "storage_policy \<Rightarrow> nat \<Rightarrow> nat" where
  "blocks_of p n = n div codec_block_size p + of_bool (n mod codec_block_size p \<noteq> 0)"

definition samples :: "storage_policy \<Rightarrow> nat option \<Rightarrow> frame list \<Rightarrow> u64 list" where
  "samples p c fs = map (\<lambda>g. of_nat (residual p c fs (min (g * codec_block_size p) (length fs)))) [0..<blocks_of p (length fs) + 1]"

definition holds :: "bool \<Rightarrow> storage_policy \<Rightarrow> nat option \<Rightarrow> frame list \<Rightarrow> profile_view \<Rightarrow> bool" where
  "holds host p c fs v \<longleftrightarrow> admitted p v \<and> frames_ok p c fs \<and> view_bits (pv_data v) = stream p c fs (length fs) \<and>
     m_common_value_width (pv_metadata v) = c \<and> pv_size v = length fs \<and>
     m_terminal_key_units (pv_metadata v) = length (prev_key fs (length fs)) div bits_per_unit p \<and>
     encodes host (pv_offsets v) (samples p c fs)"

lemma holdsD:
  assumes "holds host p c fs v"
  shows "admitted p v" "frames_ok p c fs" "view_bits (pv_data v) = stream p c fs (length fs)"
    "m_common_value_width (pv_metadata v) = c" "pv_size v = length fs" "m_extent (pv_metadata v) = place p c fs (length fs)"
    "i \<le> length fs \<Longrightarrow> place p c fs i \<le> u64_max - 7" "0 < codec_block_size p"
proof -
  show h: "admitted p v" "frames_ok p c fs" "view_bits (pv_data v) = stream p c fs (length fs)"
    "m_common_value_width (pv_metadata v) = c" "pv_size v = length fs"
    using assms by (simp_all add: holds_def)
  show "0 < codec_block_size p" using admittedD(1) [OF h(1)] by (simp add: policy_ok_def)
  have "length (view_bits (pv_data v)) = m_extent (pv_metadata v) * bits_per_unit p"
    using admittedD(3,4) [OF h(1)] by (simp add: length_view_bits)
  then show e: "m_extent (pv_metadata v) = place p c fs (length fs)" by (simp add: h(3) place_def)
  show "i \<le> length fs \<Longrightarrow> place p c fs i \<le> u64_max - 7"
    using place_mono [of i "length fs" p c fs] admittedD(6) [OF h(1)] e by simp
qed

lemma of_nat_place:
  assumes "holds host p c fs v" "i \<le> length fs" "n \<le> place p c fs i"
  shows "n < 2 ^ 64"
  using holdsD(7) [OF assms(1,2)] assms(3) by (simp add: u64_max_def)

lemma block_offset_holds:
  assumes h: "holds host p c fs v" and b: "b \<le> blocks_of p (length fs)"
  shows "block_offset host p v b = Inr (place p c fs (min (b * codec_block_size p) (length fs)))"
proof -
  let ?n = "length fs" and ?B = "codec_block_size p"
  define i where "i = min (b * ?B) ?n"
  have B: "0 < ?B" by (rule holdsD(8) [OF h])
  have blocks: "count_blocks p (pv_metadata v) = blocks_of p ?n"
    using holdsD(5) [OF h] by (simp add: count_blocks_def blocks_of_def pv_size_def)
  have sel: "ef_select host (pv_offsets v) b = Inr (of_nat (residual p c fs i))"
    using ef_select_correct [of host "pv_offsets v" "samples p c fs" b] h b
    by (simp add: holds_def samples_def i_def del: upt_Suc)
  have i: "i \<le> ?n" by (simp add: i_def)
  have "(if b = blocks_of p ?n then pv_size v else b * ?B) = i"
  proof (cases "b = blocks_of p ?n")
    case True
    have e: "?n = ?n div ?B * ?B + ?n mod ?B" by simp
    have "?n mod ?B \<le> of_bool (?n mod ?B \<noteq> 0) * ?B" using mod_less_divisor [OF B, of ?n] by (simp add: less_imp_le)
    then have "?n \<le> b * ?B" unfolding True blocks_of_def distrib_right using e by linarith
    then show ?thesis using True holdsD(5) [OF h] by (simp add: i_def)
  next
    case False
    have "b \<le> ?n div ?B" using False b by (cases "?n mod ?B = 0") (simp_all add: blocks_of_def)
    then have "b * ?B \<le> ?n div ?B * ?B" by (rule mult_le_mono1)
    also have "\<dots> \<le> ?n" by simp
    finally show ?thesis using False by (simp add: i_def)
  qed
  then have o: "block_offset host p v b = Inr (u64_add (unat (of_nat (residual p c fs i) :: u64)) (u64_mult i (value_or c 0)))"
    using b holdsD(4,5) [OF h] by (simp add: block_offset_def Let_def blocks sel split del: if_split)
  have w: "i * value_or c 0 \<le> place p c fs i" by (rule residual_mono(2) [OF holdsD(2) [OF h] i])
  have "i * value_or c 0 < 2 ^ 64" "place p c fs i < 2 ^ 64" "residual p c fs i < 2 ^ 64"
    using of_nat_place [OF h i] w by (simp_all add: residual_def)
  then show ?thesis using o w i_def by (simp add: u64_add_def u64_mult_def unat_of_nat_u64 residual_def)
qed

section \<open>Parsing\<close>

text \<open>A parsed record is the record of a frame.\<close>

definition is_record :: "storage_policy \<Rightarrow> nat option \<Rightarrow> frame list \<Rightarrow> nat \<Rightarrow> profile_encoded_record \<Rightarrow> bool" where
  "is_record p c fs i r \<longleftrightarrow> retained r = fr_kept (fs ! i) \<and>
     key_units r = length (fr_key (fs ! i)) div bits_per_unit p \<and>
     view_bits (suffix_view r) = drop (fr_kept (fs ! i) * bits_per_unit p) (fr_key (fs ! i)) \<and>
     view_bits (value_view r) = fr_value (fs ! i) \<and> view_ok (value_view r) \<and> next_offset r = place p c fs (Suc i)"

lemma parse_payload_holds:
  assumes h: "holds host p c fs v" and i: "i < length fs"
  shows "\<exists>r. parse_payload host p v (payload_place p c fs i) (fr_kept (fs ! i)) = Inr r \<and> is_record p c fs i r \<and> in_range p v r"
    "parse_frame host p v (payload_place p c fs i) (fr_kept (fs ! i)) =
       Inr (length (fr_key (fs ! i)) div bits_per_unit p, place p c fs (Suc i))"
proof -
  let ?f = "fs ! i" and ?u = "bits_per_unit p" let ?s = "length (fr_key ?f) div ?u - fr_kept ?f" and ?w = "length (fr_value ?f) div ?u"
  have f: "frame_ok p c fs i" by (rule frames_okD [OF holdsD(2) [OF h] i])
  define at where "at = payload_place p c fs i"
  define sc where "sc = count_code p (of_nat ?s)"
  define vc where "vc = (if c = None then count_code p (of_nat ?w) else [])"
  define body where "body = drop (fr_kept ?f * ?u) (fr_key ?f)"
  obtain a where a: "length sc = Suc a * ?u" unfolding sc_def using count_units by blast
  obtain b where b: "length vc = b * ?u" unfolding vc_def using count_units by (metis list.size(3) mult_0)
  have body: "length body = ?s * ?u" by (simp add: body_def diff_mult_distrib frame_units(1) [OF f])
  have val: "length (fr_value ?f) = ?w * ?u" by (rule frame_units(2) [OF f, symmetric])
  obtain rest where d: "drop (at * ?u) (view_bits (pv_data v)) = sc @ vc @ body @ fr_value ?f @ rest"
    using stream_drop(2) [OF holdsD(2) [OF h] i] by (auto simp: holdsD(3) [OF h] payload_bits_def at_def sc_def vc_def body_def)
  have nx: "place p c fs (Suc i) = at + Suc a + b + ?s + ?w"
  proof -
    have "length (payload_bits p c ?f) = (Suc a + b + ?s + ?w) * ?u"
      using a b body val by (simp add: payload_bits_def sc_def vc_def body_def distrib_right)
    then show ?thesis using place_Suc(1) [OF holdsD(2) [OF h] i] by (simp add: at_def del: mult_Suc)
  qed
  have le: "place p c fs (Suc i) \<le> m_extent (pv_metadata v)" unfolding holdsD(6) [OF h] using i by (intro place_mono) simp
  have small: "?s < 2 ^ 64" "?w < 2 ^ 64" using of_nat_place [OF h, of "Suc i"] i nx by simp_all
  have pd: "profile_data p (pv_data v)" using admittedD(2) [OF holdsD(1) [OF h]] .
  have r1: "read_at (read_count host p (pv_data v)) at = Inr (?s, at + Suc a)"
    using read_at_count [OF pd _ small(1), of at "vc @ body @ fr_value ?f @ rest" host] d a
    by (simp add: sc_def mult.commute del: mult_Suc)
  have "drop (at * ?u + length sc) (view_bits (pv_data v)) = vc @ body @ fr_value ?f @ rest"
    using d by (metis append_eq_conv_conj drop_drop add.commute)
  moreover have "(at + Suc a) * ?u = at * ?u + length sc" by (simp only: a distrib_right)
  ultimately have d2: "drop ((at + Suc a) * ?u) (view_bits (pv_data v)) = vc @ body @ fr_value ?f @ rest" by (simp only:)
  have "drop ((at + Suc a) * ?u + length vc) (view_bits (pv_data v)) = body @ fr_value ?f @ rest"
    using d2 by (metis append_eq_conv_conj drop_drop add.commute)
  moreover have "(at + Suc a + b) * ?u = (at + Suc a) * ?u + length vc" by (simp only: b distrib_right)
  ultimately have d3: "drop ((at + Suc a + b) * ?u) (view_bits (pv_data v)) = body @ fr_value ?f @ rest" by (simp only:)
  have "drop ((at + Suc a + b) * ?u + length body) (view_bits (pv_data v)) = fr_value ?f @ rest"
    using d3 by (metis append_eq_conv_conj drop_drop add.commute)
  moreover have "(at + Suc a + b + ?s) * ?u = (at + Suc a + b) * ?u + length body" by (simp only: body distrib_right)
  ultimately have d4: "drop ((at + Suc a + b + ?s) * ?u) (view_bits (pv_data v)) = fr_value ?f @ rest" by (simp only:)
  have r2: "(case c of Some w \<Rightarrow> Inr (w, at + Suc a) | None \<Rightarrow> read_at (read_count host p (pv_data v)) (at + Suc a)) = Inr (?w, at + Suc a + b)"
  proof (cases c)
    case None
    then have "length (count_code p (of_nat ?w)) = b * ?u" using b by (simp add: vc_def)
    then show ?thesis
      using read_at_count [OF pd _ small(2), of "at + Suc a" "body @ fr_value ?f @ rest" host] d2 None
      by (simp add: vc_def mult.commute)
  next
    case (Some w)
    then have "b = 0" using b by (simp add: vc_def)
    moreover have "w = ?w" using f Some by (simp add: frame_ok_def)
    ultimately show ?thesis using Some by simp
  qed
  have fit: "\<not> (at + Suc a + b > m_extent (pv_metadata v) \<or> ?s > m_extent (pv_metadata v) - (at + Suc a + b) \<or>
      ?w > m_extent (pv_metadata v) - (at + Suc a + b) - ?s)"
    using le unfolding nx by linarith
  have lengths: "parse_lengths host p v at = Inr (?s, ?w, at + Suc a + b)"
    unfolding parse_lengths_def r1 bindE_simps prod.case holdsD(4) [OF h] r2 Let_def if_not_P [OF fit] ..
  have k: "fr_kept ?f \<le> length (fr_key ?f) div ?u" by (rule frame_units(3) [OF f])
  have "length (fr_key ?f) div ?u \<le> place p c fs (Suc i)" using key_before_place [OF holdsD(2) [OF h], of "Suc i"] i by simp
  then have add: "u64_add (fr_kept ?f) ?s = length (fr_key ?f) div ?u"
    using k le admittedD(6) [OF holdsD(1) [OF h]] by (simp add: u64_add_small)
  show "parse_frame host p v (payload_place p c fs i) (fr_kept ?f) = Inr (length (fr_key ?f) div ?u, place p c fs (Suc i))"
    using lengths add nx by (simp add: parse_frame_def flip: at_def)
  obtain r where r: "parse_payload host p v at (fr_kept ?f) = Inr r" "is_record p c fs i r"
  proof -
    obtain s w where sw: "parse_payload host p v at (fr_kept ?f) = Inr \<lparr>retained = fr_kept ?f, key_units = u64_add (fr_kept ?f) ?s,
        value_units = ?w, suffix_view = s, value_view = w, next_offset = at + Suc a + b + ?s + ?w\<rparr>" "view_ok w"
      "view_bits s = take (?s * ?u) (drop ((at + Suc a + b) * ?u) (view_bits (pv_data v)))"
      "view_bits w = take (?w * ?u) (drop ((at + Suc a + b + ?s) * ?u) (view_bits (pv_data v)))"
      using parse_payload_eq [OF holdsD(1) [OF h] lengths] by blast
    then show ?thesis using that d3 d4 body val add nx by (simp add: is_record_def body_def)
  qed
  have "fr_kept ?f \<le> at"
    using key_before_place [OF holdsD(2) [OF h], of i] i frame_units(4) [OF f] by (simp add: at_def payload_place_def)
  then have "in_range p v r" using parse_payload_yields [OF holdsD(1) [OF h], of "fr_kept ?f" at host] r(1) by simp
  then show "\<exists>r. parse_payload host p v (payload_place p c fs i) (fr_kept ?f) = Inr r \<and> is_record p c fs i r \<and> in_range p v r"
    using r by (auto simp: at_def)
qed

text \<open>The control of a frame gives its retained prefix.\<close>

lemma control_place: "place p c fs i + length (control_bits p fs i) div bits_per_unit p = payload_place p c fs i"
  by (simp add: payload_place_def)

lemma read_absolute_holds:
  assumes h: "holds host p c fs v" and i: "i < length fs" "i mod codec_block_size p = 0"
  shows "read_absolute host p v (place p c fs i) = Inr (fr_kept (fs ! i), payload_place p c fs i)"
proof -
  have f: "frame_ok p c fs i" by (rule frames_okD [OF holdsD(2) [OF h] i(1)])
  have ctl: "control_bits p fs i = count_code p (of_nat (fr_kept (fs ! i)))" using i(2) by (simp add: control_bits_def)
  obtain rest where d: "drop (bits_per_unit p * place p c fs i) (view_bits (pv_data v)) = count_code p (of_nat (fr_kept (fs ! i))) @ rest"
    using stream_drop(1) [OF holdsD(2) [OF h] i(1)] holdsD(3) [OF h] by (auto simp: ctl mult.commute)
  have le: "fr_kept (fs ! i) \<le> place p c fs i"
    using frame_units(4) [OF f] key_before_place [OF holdsD(2) [OF h], of i] i(1) by simp
  then have "fr_kept (fs ! i) < 2 ^ 64" by (rule of_nat_place [OF h less_imp_le [OF i(1)]])
  from read_at_count [OF admittedD(2) [OF holdsD(1) [OF h]] d this, of host] show ?thesis
    using le control_place [of p c fs i] by (simp add: read_absolute_def ctl)
qed

lemma read_relative_holds:
  assumes h: "holds host p c fs v" and i: "i < length fs" "i mod codec_block_size p \<noteq> 0"
  shows "read_relative host p v (place p c fs i) (length (prev_key fs i) div bits_per_unit p) =
    Inr (fr_kept (fs ! i), payload_place p c fs i)"
proof -
  let ?k = "fr_kept (fs ! i)" let ?n = "length (prev_key fs i) div bits_per_unit p"
  have f: "frame_ok p c fs i" by (rule frames_okD [OF holdsD(2) [OF h] i(1)])
  have ctl: "control_bits p fs i = backspace_code p (of_nat (?n - ?k))" using i(2) by (simp add: control_bits_def)
  obtain rest where d: "drop (bits_per_unit p * place p c fs i) (view_bits (pv_data v)) = backspace_code p (of_nat (?n - ?k)) @ rest"
    using stream_drop(1) [OF holdsD(2) [OF h] i(1)] holdsD(3) [OF h] by (auto simp: ctl mult.commute)
  have "?n - ?k \<le> place p c fs i" using key_before_place [OF holdsD(2) [OF h], of i] i(1) by simp
  then have "?n - ?k < 2 ^ 64" by (rule of_nat_place [OF h less_imp_le [OF i(1)]])
  from read_at_backspace [OF admittedD(1,2) [OF holdsD(1) [OF h]] d this, of host] show ?thesis
    using frame_units(4) [OF f] control_place [of p c fs i] by (simp add: read_relative_def ctl)
qed

section \<open>Location\<close>

lemma skip_headers_holds:
  assumes h: "holds host p c fs v"
  shows "(\<forall>j. i < j \<and> j \<le> i + n \<longrightarrow> j mod codec_block_size p \<noteq> 0) \<Longrightarrow> i + n < length fs \<Longrightarrow>
    skip_headers host p v n (payload_place p c fs i) (fr_kept (fs ! i)) previous t =
      (Inr (payload_place p c fs (i + n), fr_kept (fs ! (i + n)),
        if n = 0 then previous else length (prev_key fs (i + n)) div bits_per_unit p), t + n)"
proof (induction n arbitrary: i previous t)
  case (Suc n)
  have f: "parse_frame host p v (payload_place p c fs i) (fr_kept (fs ! i)) =
      Inr (length (prev_key fs (Suc i)) div bits_per_unit p, place p c fs (Suc i))"
    using parse_payload_holds(2) [OF h, of i] Suc.prems(2) by simp
  have r: "read_relative host p v (place p c fs (Suc i)) (length (prev_key fs (Suc i)) div bits_per_unit p) =
      Inr (fr_kept (fs ! Suc i), payload_place p c fs (Suc i))"
    using Suc.prems by (intro read_relative_holds [OF h]) auto
  have "skip_headers host p v n (payload_place p c fs (Suc i)) (fr_kept (fs ! Suc i)) (length (prev_key fs (Suc i)) div bits_per_unit p) (Suc t) =
      (Inr (payload_place p c fs (Suc i + n), fr_kept (fs ! (Suc i + n)),
        if n = 0 then length (prev_key fs (Suc i)) div bits_per_unit p else length (prev_key fs (Suc i + n)) div bits_per_unit p), Suc t + n)"
    using Suc.prems by (intro Suc.IH) auto
  then show ?case using f r by (auto simp: bindM_apply)
qed simp

lemma block_parts:
  fixes i B :: nat
  assumes "0 < B"
  shows "i div B * B \<le> i" "i div B * B mod B = 0" "i div B * B < j \<Longrightarrow> j \<le> i \<Longrightarrow> j mod B \<noteq> 0"
proof -
  show "i div B * B \<le> i" "i div B * B mod B = 0" by simp_all
  assume j: "i div B * B < j" "j \<le> i"
  show "j mod B \<noteq> 0"
  proof
    assume "j mod B = 0"
    then have "j = j div B * B" by auto
    moreover have "j div B \<le> i div B" using j(2) by (rule div_le_mono)
    then have "j div B * B \<le> i div B * B" by (rule mult_le_mono1)
    ultimately show False using j(1) by simp
  qed
qed

lemma locate_record_holds:
  assumes h: "holds host p c fs v" and i: "i < length fs"
  shows "locate_record host p v i t = (Inr (payload_place p c fs i, fr_kept (fs ! i),
    if i mod codec_block_size p = 0 then 0 else length (prev_key fs i) div bits_per_unit p), t + i mod codec_block_size p)"
proof -
  let ?B = "codec_block_size p"
  define g where "g = i div ?B"
  have B: "0 < ?B" by (rule holdsD(8) [OF h])
  note parts = block_parts [OF B, of i, folded g_def]
  have gi: "g * ?B < length fs" "i - g * ?B = i mod ?B" "g * ?B + i mod ?B = i"
    using le_less_trans [OF parts(1) i] by (simp_all add: g_def minus_div_mult_eq_mod)
  have "g \<le> blocks_of p (length fs)" using div_le_mono [of i "length fs" ?B] i by (simp add: g_def blocks_of_def)
  then have start: "block_offset host p v g = Inr (place p c fs (g * ?B))"
    using block_offset_holds [OF h] gi(1) by simp
  have ab: "read_absolute host p v (place p c fs (g * ?B)) = Inr (fr_kept (fs ! (g * ?B)), payload_place p c fs (g * ?B))"
    by (rule read_absolute_holds [OF h gi(1) parts(2)])
  have z: "\<not> (g = 0 \<and> fr_kept (fs ! (g * ?B)) \<noteq> 0)"
    using frame_units(4) [OF frames_okD [OF holdsD(2) [OF h], of 0]] i by (cases "g = 0"; cases fs) auto
  have "skip_headers host p v (i mod ?B) (payload_place p c fs (g * ?B)) (fr_kept (fs ! (g * ?B))) 0 t =
      (Inr (payload_place p c fs i, fr_kept (fs ! i), if i mod ?B = 0 then 0 else length (prev_key fs i) div bits_per_unit p), t + i mod ?B)"
    using skip_headers_holds [OF h, of "g * ?B" "i mod ?B" 0 t] parts(3) i gi(3) by simp
  then show ?thesis
    using start ab z gi(2) by (simp add: locate_record_def Let_def bindM_apply flip: g_def)
qed

lemma encoded_at_holds:
  assumes h: "holds host p c fs v" and i: "i < length fs"
  shows "\<exists>r. encoded_at host p v i = Inr r \<and> is_record p c fs i r \<and> in_range p v r"
  using parse_payload_holds(1) [OF h i] locate_record_holds [OF h i, of 0] holdsD(5) [OF h] i by (simp add: encoded_at_def)

lemma next_record_holds:
  assumes h: "holds host p c fs v" and r: "is_record p c fs i r" and i: "Suc i < length fs"
    and b: "\<And>b. Suc i = b * codec_block_size p \<Longrightarrow> block_at b = Inr (place p c fs (Suc i), s)"
  shows "\<exists>r' o'. next_record host p v r (Suc i) block_at = Inr (r', o') \<and> is_record p c fs (Suc i) r' \<and> in_range p v r' \<and>
    o' = (if Suc i mod codec_block_size p = 0 then Some s else None)"
proof -
  have at: "next_offset r = place p c fs (Suc i)" "key_units r = length (prev_key fs (Suc i)) div bits_per_unit p"
    using r by (simp_all add: is_record_def)
  obtain r' where r': "parse_payload host p v (payload_place p c fs (Suc i)) (fr_kept (fs ! Suc i)) = Inr r'"
    "is_record p c fs (Suc i) r'" "in_range p v r'"
    using parse_payload_holds(1) [OF h i] by blast
  show ?thesis
  proof (cases "Suc i mod codec_block_size p = 0")
    case True
    then have "Suc i = Suc i div codec_block_size p * codec_block_size p" by auto
    then have bo: "block_at (Suc i div codec_block_size p) = Inr (place p c fs (Suc i), s)" by (rule b)
    have "\<not> retained r' > key_units r"
      using frame_units(4) [OF frames_okD [OF holdsD(2) [OF h] i]] r'(2) at(2) by (simp add: is_record_def)
    then show ?thesis
      using True bo r' read_absolute_holds [OF h i True] at(1) by (simp add: next_record_def Let_def parse_absolute_def)
  next
    case False
    then show ?thesis
      using r' read_relative_holds [OF h i False] unfolding at [symmetric] by (simp add: next_record_def Let_def parse_relative_def)
  qed
qed

section \<open>Keys\<close>

lemma decode_into_holds:
  assumes h: "holds host p c fs v" and i: "i < length fs" and r: "is_record p c fs i r" "in_range p v r"
    and s: "string_ok s" "string_bits s = prev_key fs i"
  shows "\<exists>t. decode_into host p r u64_max s (length (prev_key fs i) div bits_per_unit p) = Inr (t, length (fr_key (fs ! i)) div bits_per_unit p) \<and>
    string_ok t \<and> string_bits t = fr_key (fs ! i)"
proof -
  let ?u = "bits_per_unit p"
  have f: "frame_ok p c fs i" by (rule frames_okD [OF holdsD(2) [OF h] i])
  have prev: "length (prev_key fs i) div ?u * ?u = length (prev_key fs i)"
    using frame_units(1) [OF frames_okD [OF holdsD(2) [OF h], of "i - 1"]] i by (cases i) simp_all
  have le: "length (prev_key fs i) div ?u \<le> u64_max" "length (fr_key (fs ! i)) div ?u \<le> u64_max"
    using key_before_place [OF holdsD(2) [OF h], of i] key_before_place [OF holdsD(2) [OF h], of "Suc i"]
      holdsD(7) [OF h, of i] holdsD(7) [OF h, of "Suc i"] i by simp_all
  have size: "bit_size s = min (length (prev_key fs i) div ?u) u64_max * ?u"
    using length_string_bits [OF s(1)] s(2) prev le(1) by (simp add: min_absorb1)
  have kept: "retained r = fr_kept (fs ! i)" "key_units r = length (fr_key (fs ! i)) div ?u"
    "view_bits (suffix_view r) = drop (fr_kept (fs ! i) * ?u) (fr_key (fs ! i))"
    using r(1) by (simp_all add: is_record_def)
  have "retained r \<le> length (prev_key fs i) div ?u" using frame_units(4) [OF f] by (simp add: kept(1))
  from decode_into_ok [OF holdsD(1) [OF h] r(2) s(1) size this, of host] obtain t where
    t: "decode_into host p r u64_max s (length (prev_key fs i) div ?u) = Inr (t, key_units r)" "string_ok t"
    "string_bits t = take (min (key_units r) u64_max * ?u) (take (retained r * ?u) (string_bits s) @ view_bits (suffix_view r))"
    by blast
  have "string_bits t = fr_key (fs ! i)"
    unfolding t(3) kept s(2) frame_key [OF f] using le(2) frame_units(1) [OF f] by (simp add: min_absorb1)
  then show ?thesis using t(1,2) kept(2) by auto
qed

text \<open>
  A traversal hands the records to a callback that looks at their bits only; the reference feeds
  it the keys and values themselves.
\<close>

fun feed :: "(nat \<Rightarrow> bool list \<Rightarrow> bool list \<Rightarrow> ('s, bool) op) \<Rightarrow> nat \<Rightarrow> (bool list \<times> bool list) list \<Rightarrow> ('s, bool) op" where
  "feed cb i [] s = (Inr True, s)"
| "feed cb i ((k, v) # xs) s = (case cb i k v s of (Inl e, s) \<Rightarrow> (Inl e, s) | (Inr False, s) \<Rightarrow> (Inr False, s)
     | (Inr True, s) \<Rightarrow> feed cb (i + 1) xs s)"

definition contents :: "frame list \<Rightarrow> (bool list \<times> bool list) list" where
  "contents fs = map (\<lambda>f. (fr_key f, fr_value f)) fs"

definition on_bits :: "(nat \<Rightarrow> bool list \<Rightarrow> bool list \<Rightarrow> ('s, bool) op) \<Rightarrow> profile_item \<Rightarrow> ('s, bool) op" where
  "on_bits cb it = cb (item_ordinal it) (view_bits (prefix_view (item_key it))) (view_bits (item_value it))"

lemma view_offset_holds:
  assumes h: "holds host p c fs v" and i: "i < length fs" "i = b * codec_block_size p"
  shows "view_offset host p v b = Inr (place p c fs i, ())"
proof -
  have "b * codec_block_size p div codec_block_size p = b" using holdsD(8) [OF h] by simp
  then have "b \<le> blocks_of p (length fs)"
    using div_le_mono [of i "length fs" "codec_block_size p"] i by (simp add: blocks_of_def)
  then show ?thesis using block_offset_holds [OF h] i by (simp add: view_offset_def min_absorb1)
qed

lemma visit_loop_holds:
  assumes h: "holds host p c fs v"
  shows "i + Suc n \<le> length fs \<Longrightarrow> is_record p c fs i r \<Longrightarrow> in_range p v r \<Longrightarrow> string_ok s \<Longrightarrow> string_bits s = prev_key fs i \<Longrightarrow>
    case feed cb i (contents (take (Suc n) (drop i fs))) st of
      (Inl e, st') \<Rightarrow> visit_loop host p v u64_max (on_bits cb) (Suc n) i s (length (prev_key fs i) div bits_per_unit p) r st = (Inl e, st')
    | (Inr False, st') \<Rightarrow> visit_loop host p v u64_max (on_bits cb) (Suc n) i s (length (prev_key fs i) div bits_per_unit p) r st = (Inr None, st')
    | (Inr True, st') \<Rightarrow> \<exists>r'. is_record p c fs (i + n) r' \<and>
        visit_loop host p v u64_max (on_bits cb) (Suc n) i s (length (prev_key fs i) div bits_per_unit p) r st = (Inr (Some r'), st')"
proof (induction n arbitrary: i r s st)
  case (0 i r s st)
  then have i: "i < length fs" by simp
  obtain t where t: "decode_into host p r u64_max s (length (prev_key fs i) div bits_per_unit p) = Inr (t, length (fr_key (fs ! i)) div bits_per_unit p)"
    "string_ok t" "string_bits t = fr_key (fs ! i)" using decode_into_holds [OF h i 0(2-5)] by blast
  obtain w where w: "string_view t = Inr w" "view_bits w = fr_key (fs ! i)" using string_view_ok [OF t(2)] t(3) by auto
  have d: "contents (take (Suc 0) (drop i fs)) = [(fr_key (fs ! i), fr_value (fs ! i))]"
    using i by (simp add: contents_def take_Suc hd_drop_conv_nth)
  have "view_bits (value_view r) = fr_value (fs ! i)" using 0(2) by (simp add: is_record_def)
  then show ?case using 0(2) t(1) w by (auto simp: d on_bits_def split: prod.splits sum.splits bool.splits)
next
  case (Suc n i r s st)
  then have i: "i < length fs" "Suc i < length fs" "Suc i + Suc n \<le> length fs" by simp_all
  obtain t where t: "decode_into host p r u64_max s (length (prev_key fs i) div bits_per_unit p) = Inr (t, length (fr_key (fs ! i)) div bits_per_unit p)"
    "string_ok t" "string_bits t = fr_key (fs ! i)" using decode_into_holds [OF h i(1) Suc.prems(2-5)] by blast
  obtain w where w: "string_view t = Inr w" "view_bits w = fr_key (fs ! i)" using string_view_ok [OF t(2)] t(3) by auto
  have d: "contents (take (Suc (Suc n)) (drop i fs)) = (fr_key (fs ! i), fr_value (fs ! i)) # contents (take (Suc n) (drop (Suc i) fs))"
    unfolding contents_def Cons_nth_drop_Suc [OF i(1), symmetric] by simp
  have val: "view_bits (value_view r) = fr_value (fs ! i)" using Suc.prems(2) by (simp add: is_record_def)
  obtain r' where r': "next_record host p v r (Suc i) (view_offset host p v) = Inr (r', if Suc i mod codec_block_size p = 0 then Some () else None)"
    "is_record p c fs (Suc i) r'" "in_range p v r'"
    using next_record_holds [OF h Suc.prems(2) i(2), of "view_offset host p v" "()"] view_offset_holds [OF h i(2)] by blast
  have IH: "case feed cb (Suc i) (contents (take (Suc n) (drop (Suc i) fs))) st' of
      (Inl e, st'') \<Rightarrow> visit_loop host p v u64_max (on_bits cb) (Suc n) (Suc i) t (length (fr_key (fs ! i)) div bits_per_unit p) r' st' = (Inl e, st'')
    | (Inr False, st'') \<Rightarrow> visit_loop host p v u64_max (on_bits cb) (Suc n) (Suc i) t (length (fr_key (fs ! i)) div bits_per_unit p) r' st' = (Inr None, st'')
    | (Inr True, st'') \<Rightarrow> \<exists>r''. is_record p c fs (Suc i + n) r'' \<and>
        visit_loop host p v u64_max (on_bits cb) (Suc n) (Suc i) t (length (fr_key (fs ! i)) div bits_per_unit p) r' st' = (Inr (Some r''), st'')" for st'
    by (rule Suc.IH [OF i(3) r'(2,3) t(2), unfolded prev_key_Suc, OF t(3)])
  show ?case
  proof (cases "cb i (fr_key (fs ! i)) (fr_value (fs ! i)) st")
    case (Pair o' st')
    show ?thesis
    proof (cases "o' = Inr True")
      case True
      then have "visit_loop host p v u64_max (on_bits cb) (Suc (Suc n)) i s (length (prev_key fs i) div bits_per_unit p) r st =
          visit_loop host p v u64_max (on_bits cb) (Suc n) (Suc i) t (length (fr_key (fs ! i)) div bits_per_unit p) r' st'"
        using t(1) w val r'(1) Pair by (subst visit_loop.simps) (simp add: on_bits_def del: visit_loop.simps)
      moreover have "feed cb i (contents (take (Suc (Suc n)) (drop i fs))) st = feed cb (Suc i) (contents (take (Suc n) (drop (Suc i) fs))) st'"
        unfolding d using True Pair by simp
      ultimately show ?thesis
        using IH [of st'] by (simp only: add_Suc_shift split: prod.splits sum.splits bool.splits)
    next
      case False
      then show ?thesis
        using t(1) w val Pair by (cases o') (auto simp: d on_bits_def split: bool.splits)
    qed
  qed
qed

lemma visit_all_holds:
  assumes h: "holds host p c fs v"
  shows "visit_all host p v (on_bits cb) st = (case feed cb 0 (contents fs) st of (Inl e, st) \<Rightarrow> (Inl e, st) | (Inr b, st) \<Rightarrow> (Inr (), st))"
proof (cases fs)
  case Nil
  then show ?thesis using holdsD(5) [OF h] by (simp add: visit_all_def contents_def)
next
  case (Cons f fs')
  define n where "n = length fs'"
  have n: "length fs = Suc n" "take (Suc n) (drop 0 fs) = fs" by (simp_all add: Cons n_def)
  obtain r where r: "encoded_at host p v 0 = Inr r" "is_record p c fs 0 r" "in_range p v r"
    using encoded_at_holds [OF h, of 0] n(1) by auto
  note loop = visit_loop_holds [OF h, of 0 n r empty_string cb st, unfolded n(2) prev_key_0 list.size(3) div_0 add_0]
  have fin: "check_end v r' = Inr ()" if "is_record p c fs n r'" for r'
  proof -
    have "m_terminal_key_units (pv_metadata v) = length (fr_key (fs ! n)) div bits_per_unit p"
      using h n(1) by (simp add: holds_def)
    then show ?thesis using that holdsD(6) [OF h] n(1) by (simp add: check_end_def is_record_def)
  qed
  have go: "visit_all host p v (on_bits cb) st =
      bindM (visit_loop host p v u64_max (on_bits cb) (Suc n) 0 empty_string 0 r)
        (\<lambda>stop. case stop of None \<Rightarrow> returnM () | Some record \<Rightarrow> liftM (\<lambda>_. check_end v record)) st"
    using r(1) holdsD(5) [OF h] n(1) by (simp add: visit_all_def del: visit_loop.simps)
  show ?thesis
  proof (cases "feed cb 0 (contents fs) st")
    case (Pair o' st')
    have l: "case feed cb 0 (contents fs) st of
        (Inl e, st') \<Rightarrow> visit_loop host p v u64_max (on_bits cb) (Suc n) 0 empty_string 0 r st = (Inl e, st')
      | (Inr False, st') \<Rightarrow> visit_loop host p v u64_max (on_bits cb) (Suc n) 0 empty_string 0 r st = (Inr None, st')
      | (Inr True, st') \<Rightarrow> \<exists>r'. is_record p c fs n r' \<and>
          visit_loop host p v u64_max (on_bits cb) (Suc n) 0 empty_string 0 r st = (Inr (Some r'), st')"
      by (rule loop) (use r(2,3) n(1) in simp_all)
    consider e where "o' = Inl e" | "o' = Inr False" | "o' = Inr True" by (cases o') auto
    then show ?thesis
      by cases (use l Pair fin in \<open>auto simp: go bindM_apply simp del: visit_loop.simps\<close>)
  qed
qed

lemma splice_key:
  assumes "n \<le> m" "m \<le> length k" "m \<le> length t"
  shows "splice t n (take (m - n) (drop n k)) = take n t @ take (m - n) (drop n k) @ drop m t"
  using assms by (simp add: splice_def)

text \<open>
  Reconstruction: the wanted prefix of a key is filled in from its end, each frame supplying what
  it does not share with its predecessor.
\<close>

lemma reconstruct_loop_holds:
  assumes h: "holds host p c fs v"
  shows "i < length fs \<Longrightarrow> is_record p c fs i r \<Longrightarrow> in_range p v r \<Longrightarrow> string_ok key \<Longrightarrow>
    need * bits_per_unit p \<le> bit_size key \<Longrightarrow> need \<le> key_units r \<Longrightarrow>
    \<exists>t. reconstruct_loop host p v i r need key = Inr t \<and> string_ok t \<and>
      string_bits t = take (need * bits_per_unit p) (fr_key (fs ! i)) @ drop (need * bits_per_unit p) (string_bits key)"
proof (induction i arbitrary: r need key rule: less_induct)
  case (less i)
  let ?u = "bits_per_unit p" and ?k = "fr_kept (fs ! i)"
  have f: "frame_ok p c fs i" by (rule frames_okD [OF holdsD(2) [OF h] less.prems(1)])
  have r: "retained r = ?k" "view_bits (suffix_view r) = drop (?k * ?u) (fr_key (fs ! i))" "key_units r = length (fr_key (fs ! i)) div ?u"
    using less.prems(2) by (simp_all add: is_record_def)
  have nk: "need * ?u \<le> length (fr_key (fs ! i))"
    using mult_le_mono1 [OF less.prems(6), of ?u] unfolding r(3) frame_units(1) [OF f] .
  have lk: "length (string_bits key) = bit_size key" by (rule length_string_bits [OF less.prems(4)])
  text \<open>The predecessor supplies what is still needed.\<close>
  have earlier: "\<exists>t. (case i of 0 \<Rightarrow> Inl (Invalid_argument ''nonliteral first profile key'')
        | Suc j \<Rightarrow> bindE (encoded_at host p v j) (\<lambda>earlier. if key_units earlier < retained r
            then Inl (Invalid_argument ''profile predecessor prefix is too short'')
            else reconstruct_loop host p v j earlier need' key')) = Inr t \<and> string_ok t \<and>
      string_bits t = take (need' * ?u) (fr_key (fs ! i)) @ drop (need' * ?u) (string_bits key')"
    if n: "need' \<noteq> 0" "need' \<le> ?k" and k: "string_ok key'" "bit_size key' = bit_size key" "need' \<le> need" for need' key'
  proof (cases i)
    case 0
    then show ?thesis using frame_units(4) [OF f] n by simp
  next
    case (Suc j)
    then have j: "j < i" "j < length fs" using less.prems(1) by simp_all
    obtain e where e: "encoded_at host p v j = Inr e" "is_record p c fs j e" "in_range p v e"
      using encoded_at_holds [OF h j(2)] by blast
    have ke: "?k \<le> key_units e" using frame_units(4) [OF f] e(2) Suc by (simp add: is_record_def)
    have nb: "need' * ?u \<le> bit_size key'" using mult_le_mono1 [OF k(3), of ?u] less.prems(5) unfolding k(2) by (rule order_trans)
    obtain t where t: "reconstruct_loop host p v j e need' key' = Inr t" "string_ok t"
      "string_bits t = take (need' * ?u) (fr_key (fs ! j)) @ drop (need' * ?u) (string_bits key')"
      using less.IH [OF j e(2,3) k(1) nb] n(2) ke by auto
    have "take (need' * ?u) (fr_key (fs ! j)) = take (need' * ?u) (take (?k * ?u) (prev_key fs i))"
      using mult_le_mono1 [OF n(2), of ?u] by (simp add: Suc min_absorb1)
    also have "\<dots> = take (need' * ?u) (fr_key (fs ! i))"
      unfolding frame_units(6) [OF f] using mult_le_mono1 [OF n(2), of ?u] by (simp add: min_absorb1)
    finally show ?thesis using Suc e(1) ke r(1) t by simp
  qed
  consider "need = 0" | (copy) "need \<noteq> 0" "?k < need" | (keep) "need \<noteq> 0" "need \<le> ?k" by linarith
  then show ?case
  proof cases
    case 1
    then show ?thesis using less.prems(4) by (subst reconstruct_loop.simps) simp
  next
    case copy
    have short: "\<not> key_units r < need" using less.prems(6) by simp
    from copy_suffix_ok [OF holdsD(1) [OF h] less.prems(3,4,5), of host] copy(2) less.prems(6) r(1) obtain key' where
      c: "bindE (profile_multiply (need - retained r) (bits_per_unit p)) (\<lambda>n.
          bindE (profile_multiply (retained r) (bits_per_unit p)) (\<lambda>first_bit.
          bindE (bprefix (suffix_view r) n) (\<lambda>part.
          bindE (copy_into host key first_bit part) (\<lambda>key. Inr (retained r, key))))) = Inr (?k, key')"
        "string_ok key'" "bit_size key' = bit_size key"
        "string_bits key' = splice (string_bits key) (?k * ?u) (take ((need - ?k) * ?u) (drop (?k * ?u) (fr_key (fs ! i))))"
      by (auto simp: r(2))
    have ku: "?k * ?u \<le> need * ?u" using copy(2) by simp
    have bits: "string_bits key' = take (?k * ?u) (string_bits key) @ take (need * ?u - ?k * ?u) (drop (?k * ?u) (fr_key (fs ! i))) @
        drop (need * ?u) (string_bits key)"
      using splice_key [OF ku nk, of "string_bits key"] less.prems(5) lk by (simp add: c(4) diff_mult_distrib)
    show ?thesis
    proof (cases "?k = 0")
      case True
      then show ?thesis using short copy c(1,2) bits by (subst reconstruct_loop.simps) (simp add: r(1))
    next
      case False
      obtain t where t: "(case i of 0 \<Rightarrow> Inl (Invalid_argument ''nonliteral first profile key'')
        | Suc j \<Rightarrow> bindE (encoded_at host p v j) (\<lambda>earlier. if key_units earlier < retained r
            then Inl (Invalid_argument ''profile predecessor prefix is too short'')
            else reconstruct_loop host p v j earlier ?k key')) = Inr t" "string_ok t"
        "string_bits t = take (?k * ?u) (fr_key (fs ! i)) @ drop (?k * ?u) (string_bits key')"
        using earlier [OF False order_refl c(2,3)] copy(2) by auto
      have "drop (?k * ?u) (string_bits key') = take (need * ?u - ?k * ?u) (drop (?k * ?u) (fr_key (fs ! i))) @ drop (need * ?u) (string_bits key)"
      proof -
        have "?k * ?u \<le> length (string_bits key)" using ku less.prems(5) unfolding lk by (rule order_trans)
        then have "length (take (?k * ?u) (string_bits key)) = ?k * ?u" by simp
        then show ?thesis unfolding bits by (metis append_eq_conv_conj)
      qed
      moreover have "take (?k * ?u) (fr_key (fs ! i)) @ take (need * ?u - ?k * ?u) (drop (?k * ?u) (fr_key (fs ! i))) = take (need * ?u) (fr_key (fs ! i))"
        using ku by (metis take_add le_add_diff_inverse)
      ultimately have "string_bits t = take (need * ?u) (fr_key (fs ! i)) @ drop (need * ?u) (string_bits key)"
        using t(3) by (metis append_assoc)
      moreover have "reconstruct_loop host p v i r need key = Inr t"
        using short copy c(1) t(1) False by (subst reconstruct_loop.simps) (simp add: r(1) split del: nat.split)
      ultimately show ?thesis using t(2) by blast
    qed
  next
    case keep
    obtain t where t: "(case i of 0 \<Rightarrow> Inl (Invalid_argument ''nonliteral first profile key'')
        | Suc j \<Rightarrow> bindE (encoded_at host p v j) (\<lambda>earlier. if key_units earlier < retained r
            then Inl (Invalid_argument ''profile predecessor prefix is too short'')
            else reconstruct_loop host p v j earlier need key)) = Inr t" "string_ok t"
        "string_bits t = take (need * ?u) (fr_key (fs ! i)) @ drop (need * ?u) (string_bits key)"
      using earlier [OF keep less.prems(4) refl order_refl] by blast
    then show ?thesis using keep less.prems(6) by (subst reconstruct_loop.simps) (simp add: r(1) split del: nat.split)
  qed
qed

lemma reconstruct_at_holds:
  assumes h: "holds host p c fs v" and i: "i < length fs"
  shows "\<exists>d. reconstruct_at host p v i limit = Inr d \<and> decoded_units d * bits_per_unit p = length (fr_key (fs ! i)) \<and>
    string_ok (decoded_prefix d) \<and> string_bits (decoded_prefix d) = take (limit * bits_per_unit p) (fr_key (fs ! i)) \<and>
    string_ok (decoded_value d) \<and> string_bits (decoded_value d) = fr_value (fs ! i)"
proof -
  let ?u = "bits_per_unit p"
  have f: "frame_ok p c fs i" by (rule frames_okD [OF holdsD(2) [OF h] i])
  obtain r where r: "encoded_at host p v i = Inr r" "is_record p c fs i r" "in_range p v r"
    using encoded_at_holds [OF h i] by blast
  define need where "need = min (key_units r) limit"
  have ku: "key_units r = length (fr_key (fs ! i)) div ?u" using r(2) by (simp add: is_record_def)
  have n: "need \<le> m_extent (pv_metadata v)" using r(3) by (auto simp: need_def in_range_def)
  have nu: "need * ?u \<le> u64_max - 7" using mult_le_mono1 [OF n] admittedD(5) [OF holdsD(1) [OF h]] by (rule order_trans)
  have "value_units r * ?u \<le> u64_max - 7"
  proof -
    have "value_units r \<le> m_extent (pv_metadata v)" using r(3) by (auto simp: in_range_def)
    then show ?thesis using admittedD(5) [OF holdsD(1) [OF h]] by (rule order_trans [OF mult_le_mono1])
  qed
  then obtain val where val: "copy_string host (value_view r) = Inr val" "string_ok val" "string_bits val = view_bits (value_view r)"
    using copy_string_ok [of "value_view r" host] r(3) by (auto simp: in_range_def)
  obtain key where key: "resize_string empty_string (need * ?u) = Inr key" "string_ok key" "bit_size key = need * ?u"
    using resize_string_bits [OF empty_string_ok(1) nu] by blast
  obtain t where t: "reconstruct_loop host p v i r need key = Inr t" "string_ok t"
    "string_bits t = take (need * ?u) (fr_key (fs ! i)) @ drop (need * ?u) (string_bits key)"
    using reconstruct_loop_holds [OF h i r(2,3) key(2), of need] key(3) by (auto simp: need_def)
  have "string_bits t = take (need * ?u) (fr_key (fs ! i))" using t(3) length_string_bits [OF key(2)] key(3) by simp
  also have "\<dots> = take (limit * ?u) (fr_key (fs ! i))"
  proof (cases "key_units r \<le> limit")
    case True
    then have "length (fr_key (fs ! i)) \<le> limit * ?u" using mult_le_mono1 [OF True, of ?u] frame_units(1) [OF f] by (simp add: ku)
    then show ?thesis using True frame_units(1) [OF f] by (simp add: need_def ku min_absorb1)
  qed (simp add: need_def)
  finally have b: "string_bits t = take (limit * ?u) (fr_key (fs ! i))" .
  have "reconstruct_at host p v i limit = Inr \<lparr>decoded_prefix = t, decoded_units = key_units r, decoded_value = val\<rparr>"
    unfolding reconstruct_at_def Let_def r(1) val(1) bindE_simps
    unfolding need_def [symmetric] units_fit [OF holdsD(1) [OF h] n] key(1) t(1) bindE_simps ..
  moreover have "string_bits val = fr_value (fs ! i)" using val(3) r(2) by (simp add: is_record_def)
  ultimately show ?thesis using t(2) b val(2) frame_units(1) [OF f] by (simp add: ku)
qed

end
