(* ===== verification/ProfileWrites.thy ===== *)
theory ProfileWrites
  imports ProfileStream
begin

text \<open>
  The batch encoder writes the stream of the frames that front coding gives, its offsets are the
  block samples, and the sections it returns are admitted by the checked constructor. Together
  with \<open>ProfileStream\<close>: what is built is read back.
\<close>

section \<open>Front coding\<close>

text \<open>The frames of a list of records, appended to those already coded.\<close>

fun front_code ::
  "storage_policy \<Rightarrow> nat option \<Rightarrow> nat list \<Rightarrow> nat \<Rightarrow> profile_record list \<Rightarrow> nat \<Rightarrow> frame list \<Rightarrow> frame list" where
  "front_code p c ceilings rf [] anchor fs = fs"
| "front_code p c ceilings rf (r # rs) anchor fs =
     (let i = length fs; key = string_bits (record_key r); start = place p c fs i;
          kept = choose_retained p (lcp (prev_key fs i) key) (retained_limit_bits r)
            (if ceilings = [] then None else Some (ceilings ! i)) rf start anchor (length key div bits_per_unit p) in
      front_code p c ceilings rf rs (if kept = 0 then start else anchor)
        (fs @ [\<lparr>fr_kept = kept, fr_key = key, fr_value = string_bits (record_value r)\<rparr>]))"

lemma choose_retained_le: "choose_retained p common hint ceiling rf start anchor units \<le> common div bits_per_unit p"
  by (auto simp: choose_retained_def Let_def split: option.splits)

lemma front_code_extends: "\<exists>gs. front_code p c ceilings rf rs anchor fs = fs @ gs \<and>
    contents gs = map (\<lambda>r. (string_bits (record_key r), string_bits (record_value r))) rs"
proof (induction rs arbitrary: anchor fs)
  case (Cons r rs)
  let ?i = "length fs" let ?key = "string_bits (record_key r)"
  define kept where "kept = choose_retained p (lcp (prev_key fs ?i) ?key) (retained_limit_bits r)
    (if ceilings = [] then None else Some (ceilings ! ?i)) rf (place p c fs ?i) anchor (length ?key div bits_per_unit p)"
  define f where "f = \<lparr>fr_kept = kept, fr_key = ?key, fr_value = string_bits (record_value r)\<rparr>"
  obtain gs where "front_code p c ceilings rf rs (if kept = 0 then place p c fs ?i else anchor) (fs @ [f]) = (fs @ [f]) @ gs"
    "contents gs = map (\<lambda>r. (string_bits (record_key r), string_bits (record_value r))) rs"
    using Cons by blast
  then show ?case
    by (intro exI [of _ "f # gs"]) (simp add: Let_def contents_def f_def flip: kept_def)
qed (simp add: contents_def)

text \<open>Appending frames leaves the stream of the old ones as it was.\<close>

lemma prev_key_append: "i \<le> length fs \<Longrightarrow> prev_key (fs @ gs) i = prev_key fs i"
  by (cases i) (simp_all add: nth_append)

lemma control_append: "i < length fs \<Longrightarrow> control_bits p (fs @ gs) i = control_bits p fs i"
  by (simp add: control_bits_def prev_key_append nth_append)

lemma stream_append: "n \<le> length fs \<Longrightarrow> stream p c (fs @ gs) n = stream p c fs n"
  unfolding stream_def by (intro arg_cong [where f = concat] map_cong) (simp_all add: control_append nth_append)

lemma place_append: "n \<le> length fs \<Longrightarrow> place p c (fs @ gs) n = place p c fs n"
  by (simp add: place_def stream_append)

lemma residual_append: "n \<le> length fs \<Longrightarrow> residual p c (fs @ gs) n = residual p c fs n"
  by (simp add: residual_def place_append)

lemma frames_ok_append:
  "frames_ok p c (fs @ [f]) \<longleftrightarrow> frames_ok p c fs \<and> frame_ok p c (fs @ [f]) (length fs)"
proof -
  have "frame_ok p c (fs @ [f]) i = frame_ok p c fs i" if "i < length fs" for i
    using that by (simp add: frame_ok_def nth_append prev_key_append)
  then show ?thesis by (auto simp: frames_ok_def less_Suc_eq)
qed

section \<open>One record\<close>

definition record_ok :: "storage_policy \<Rightarrow> profile_record \<Rightarrow> bool" where
  "record_ok p r \<longleftrightarrow> string_ok (record_key r) \<and> string_ok (record_value r) \<and>
     unit_multiple p (bit_size (record_key r)) \<and> unit_multiple p (bit_size (record_value r))"

definition encoding :: "storage_policy \<Rightarrow> nat option \<Rightarrow> frame list \<Rightarrow> nat \<Rightarrow> encoder \<Rightarrow> bool" where
  "encoding p c fs anchor s \<longleftrightarrow> frames_ok p c fs \<and> string_ok (e_data s) \<and> string_bits (e_data s) = stream p c fs (length fs) \<and>
     view_ok (e_previous s) \<and> view_bits (e_previous s) = prev_key fs (length fs) \<and>
     e_previous_units s = length (prev_key fs (length fs)) div bits_per_unit p \<and> e_anchor_offset s = anchor \<and>
     e_offsets s = map (\<lambda>g. of_nat (residual p c fs (g * codec_block_size p))) [0..<blocks_of p (length fs)]"

lemma blocks_of_Suc:
  assumes "0 < codec_block_size p"
  shows "blocks_of p (Suc n) = (if n mod codec_block_size p = 0 then Suc (blocks_of p n) else blocks_of p n)"
    "n mod codec_block_size p = 0 \<Longrightarrow> blocks_of p n * codec_block_size p = n"
    "g < blocks_of p n \<Longrightarrow> g * codec_block_size p < n"
proof -
  let ?B = "codec_block_size p"
  define q r where "q = n div ?B" and "r = n mod ?B"
  have n: "n = q * ?B + r" "r < ?B" using assms by (simp_all add: q_def r_def)
  show "blocks_of p (Suc n) = (if n mod ?B = 0 then Suc (blocks_of p n) else blocks_of p n)"
  proof (cases "Suc r = ?B")
    case True
    then have s: "Suc n = Suc q * ?B + 0" using n(1) by simp
    have "Suc n div ?B = Suc q" "Suc n mod ?B = 0" unfolding s using assms by simp_all
    then show ?thesis using True by (auto simp: blocks_of_def simp flip: q_def r_def)
  next
    case False
    then have r: "Suc r < ?B" using n(2) by simp
    have s: "Suc n = q * ?B + Suc r" using n(1) by simp
    have "(q * ?B + Suc r) div ?B = q" by (rule div_nat_eqI) (use r in \<open>simp_all add: mult.commute\<close>)
    moreover have "(q * ?B + Suc r) mod ?B = Suc r" using r by (simp del: add_Suc_right)
    ultimately have "Suc n div ?B = q" "Suc n mod ?B = Suc r" unfolding s by simp_all
    then show ?thesis by (simp add: blocks_of_def flip: q_def r_def)
  qed
  show "n mod ?B = 0 \<Longrightarrow> blocks_of p n * ?B = n" by (auto simp: blocks_of_def)
  assume "g < blocks_of p n"
  then have "g < q \<or> g = q \<and> 0 < r" unfolding blocks_of_def q_def [symmetric] r_def [symmetric] by (cases "r = 0") auto
  then show "g * ?B < n"
  proof
    assume "g < q"
    then have "g * ?B < q * ?B" using assms by simp
    then show ?thesis using n(1) by linarith
  qed (use n(1) in simp)
qed

lemma stream_bits:
  assumes "encoding p c fs anchor s"
  shows "bit_size (e_data s) = place p c fs (length fs) * bits_per_unit p" "bit_size (e_data s) div bits_per_unit p = place p c fs (length fs)"
    "policy_unit p = Byte \<longrightarrow> bit_size (e_data s) mod 8 = 0"
proof -
  show "bit_size (e_data s) = place p c fs (length fs) * bits_per_unit p"
    using assms stream_units [of p c fs "length fs"] by (simp add: encoding_def flip: length_string_bits)
  then show "bit_size (e_data s) div bits_per_unit p = place p c fs (length fs)"
    "policy_unit p = Byte \<longrightarrow> bit_size (e_data s) mod 8 = 0" by simp_all
qed

lemma subview_rest:
  assumes "view_ok w" "k \<le> bsize w"
  shows "\<exists>x. subview w k (bsize w - k) = Inr x \<and> view_ok x \<and> view_bits x = drop k (view_bits w) \<and> bsize x = bsize w - k"
proof -
  have "\<exists>x. subview w k (bsize w - k) = Inr x" using assms(2) by (simp add: subview_def)
  then obtain x where x: "subview w k (bsize w - k) = Inr x" by blast
  show ?thesis using subview_Inr [OF assms(1) x] length_view_bits [OF assms(1)] x by simp
qed

text \<open>The framed output of one record: control, lengths, suffix and value behind the old stream.\<close>

definition head_bits :: "storage_policy \<Rightarrow> nat option \<Rightarrow> frame \<Rightarrow> bool list" where
  "head_bits p c f = count_code p (of_nat (length (fr_key f) div bits_per_unit p - fr_kept f)) @
     (if c = None then count_code p (of_nat (length (fr_value f) div bits_per_unit p)) else []) @
     drop (fr_kept f * bits_per_unit p) (fr_key f)"

lemma payload_head: "payload_bits p c f = head_bits p c f @ fr_value f"
  by (simp add: payload_bits_def head_bits_def)

lemma write_head:
  assumes p: "policy_ok p" and d: "string_ok d" "policy_unit p = Byte \<longrightarrow> bit_size d mod 8 = 0"
    and f: "frame_ok p c (fs @ [f]) (length fs)" and x: "view_ok x" "view_bits x = drop (fr_kept f * bits_per_unit p) (fr_key f)"
    and fit: "bit_size d + length (control_bits p (fs @ [f]) (length fs)) + length (head_bits p c f) \<le> u64_max - 7"
  shows "\<exists>t. bindE (if length fs mod codec_block_size p = 0 then write_count host p d (of_nat (fr_kept f))
      else write_backspace host p d (of_nat (length (prev_key fs (length fs)) div bits_per_unit p) - of_nat (fr_kept f))) (\<lambda>data.
    bindE (write_count host p data (of_nat (length (fr_key f) div bits_per_unit p) - of_nat (fr_kept f))) (\<lambda>data.
    bindE (if c = None then write_count host p data (of_nat (length (fr_value f) div bits_per_unit p)) else Inr data) (\<lambda>data.
    append_view host False data x))) = Inr t \<and> string_ok t \<and>
    string_bits t = string_bits d @ control_bits p (fs @ [f]) (length fs) @ head_bits p c f"
proof -
  let ?u = "bits_per_unit p" let ?n = "length (fr_key f) div ?u" let ?m = "length (prev_key fs (length fs)) div ?u"
  note units = frame_units [OF f, unfolded nth_append_length prev_key_append [OF order_refl]]
  define ctl where "ctl = control_bits p (fs @ [f]) (length fs)"
  define cnt where "cnt = count_code p (of_nat (?n - fr_kept f))"
  define vc where "vc = (if c = None then count_code p (of_nat (length (fr_value f) div ?u)) else [])"
  have pay: "head_bits p c f = cnt @ vc @ view_bits x"
    by (simp add: head_bits_def cnt_def vc_def x(2))
  have ld: "length (string_bits d) = bit_size d" by (rule length_string_bits [OF d(1)])
  have size: "bit_size t = length (string_bits t)" if "string_ok t" for t using length_string_bits [OF that] by simp
  have al: "\<exists>k. length ctl = k * ?u" unfolding ctl_def by (rule control_units)
  obtain t1 where t1: "(if length fs mod codec_block_size p = 0 then write_count host p d (of_nat (fr_kept f))
      else write_backspace host p d (of_nat ?m - of_nat (fr_kept f))) = Inr t1" "string_ok t1" "string_bits t1 = string_bits d @ ctl"
  proof (cases "length fs mod codec_block_size p = 0")
    case True
    then have "ctl = count_code p (of_nat (fr_kept f))" by (simp add: ctl_def control_bits_def)
    moreover have "bit_size d + length ctl \<le> u64_max - 7" using fit by (simp add: ctl_def)
    ultimately show ?thesis using write_count_bits [OF d, of "of_nat (fr_kept f)" host] True that by auto
  next
    case False
    have "of_nat ?m - of_nat (fr_kept f) = (of_nat (?m - fr_kept f) :: u64)" using units(4) by (simp add: of_nat_diff)
    moreover have "ctl = backspace_code p (of_nat (?m - fr_kept f))"
      using False by (simp add: ctl_def control_bits_def prev_key_append)
    moreover have "bit_size d + length ctl \<le> u64_max - 7" using fit by (simp add: ctl_def)
    ultimately show ?thesis using write_backspace_bits [OF p d, of "of_nat (?m - fr_kept f)" host] False that by auto
  qed
  have s1: "bit_size t1 = bit_size d + length ctl" using size [OF t1(2)] t1(3) ld by simp
  have a1: "policy_unit p = Byte \<longrightarrow> bit_size t1 mod 8 = 0" using d(2) al unfolding s1 by auto
  have sub: "of_nat ?n - of_nat (fr_kept f) = (of_nat (?n - fr_kept f) :: u64)" using units(3) by (simp add: of_nat_diff)
  have "bit_size t1 + length cnt \<le> u64_max - 7" using fit unfolding s1 pay by (simp add: ctl_def)
  then obtain t2 where t2: "write_count host p t1 (of_nat ?n - of_nat (fr_kept f)) = Inr t2" "string_ok t2" "string_bits t2 = string_bits t1 @ cnt"
    using write_count_bits [OF t1(2) a1, of "of_nat (?n - fr_kept f)" host] by (auto simp: cnt_def sub)
  have s2: "bit_size t2 = bit_size d + length ctl + length cnt" using size [OF t2(2)] t1(3) t2(3) ld by simp
  obtain b where b: "length cnt = Suc b * ?u" unfolding cnt_def using count_units by blast
  have a2: "policy_unit p = Byte \<longrightarrow> bit_size t2 mod 8 = 0" using d(2) al unfolding s2 b by (auto simp: mod_simps)
  obtain t3 where t3: "(if c = None then write_count host p t2 (of_nat (length (fr_value f) div ?u)) else Inr t2) = Inr t3" "string_ok t3"
    "string_bits t3 = string_bits t2 @ vc"
  proof (cases c)
    case None
    then have "bit_size t2 + length (count_code p (of_nat (length (fr_value f) div ?u))) \<le> u64_max - 7"
      using fit unfolding s2 pay by (simp add: ctl_def vc_def)
    then show ?thesis
      using write_count_bits [OF t2(2) a2, of "of_nat (length (fr_value f) div ?u)" host] None that by (auto simp: vc_def)
  next
    case Some
    show ?thesis by (rule that [of t2]) (use Some t2 in \<open>simp_all add: vc_def\<close>)
  qed
  have s3: "bit_size t3 = bit_size d + length ctl + length cnt + length vc" using size [OF t3(2)] t1(3) t2(3) t3(3) ld by simp
  have "bit_size t3 + bsize x \<le> u64_max - 7"
    using fit length_view_bits [OF x(1)] unfolding s3 pay by (simp add: ctl_def)
  then obtain t4 where t4: "append_view host False t3 x = Inr t4" "string_ok t4" "string_bits t4 = string_bits t3 @ view_bits x"
    using append_view_bits [OF t3(2) x(1)] by blast
  have bits: "string_bits t4 = string_bits d @ ctl @ head_bits p c f" unfolding pay using t1(3) t2(3) t3(3) t4(3) by simp
  show ?thesis
    unfolding t1(1) bindE_simps t2(1) t3(1) t4(1) using t4(2) bits by (simp add: ctl_def)
qed

lemma write_frame:
  assumes p: "policy_ok p" and d: "string_ok d" "policy_unit p = Byte \<longrightarrow> bit_size d mod 8 = 0"
    and f: "frame_ok p c (fs @ [f]) (length fs)" and views: "view_ok x" "view_ok w"
      "view_bits x = drop (fr_kept f * bits_per_unit p) (fr_key f)" "view_bits w = fr_value f"
    and fit: "bit_size d + length (control_bits p (fs @ [f]) (length fs)) + length (payload_bits p c f) \<le> u64_max - 7"
  shows "\<exists>t. bindE (if length fs mod codec_block_size p = 0 then write_count host p d (of_nat (fr_kept f))
      else write_backspace host p d (of_nat (length (prev_key fs (length fs)) div bits_per_unit p) - of_nat (fr_kept f))) (\<lambda>data.
    bindE (write_count host p data (of_nat (length (fr_key f) div bits_per_unit p) - of_nat (fr_kept f))) (\<lambda>data.
    bindE (if c = None then write_count host p data (of_nat (length (fr_value f) div bits_per_unit p)) else Inr data) (\<lambda>data.
    bindE (append_view host False data x) (\<lambda>data. append_view host False data w)))) = Inr t \<and> string_ok t \<and>
    string_bits t = string_bits d @ control_bits p (fs @ [f]) (length fs) @ payload_bits p c f"
proof -
  obtain t where t: "bindE (if length fs mod codec_block_size p = 0 then write_count host p d (of_nat (fr_kept f))
      else write_backspace host p d (of_nat (length (prev_key fs (length fs)) div bits_per_unit p) - of_nat (fr_kept f))) (\<lambda>data.
    bindE (write_count host p data (of_nat (length (fr_key f) div bits_per_unit p) - of_nat (fr_kept f))) (\<lambda>data.
    bindE (if c = None then write_count host p data (of_nat (length (fr_value f) div bits_per_unit p)) else Inr data) (\<lambda>data.
    append_view host False data x))) = Inr t" "string_ok t"
    "string_bits t = string_bits d @ control_bits p (fs @ [f]) (length fs) @ head_bits p c f"
    using write_head [OF p d f views(1,3), of host] fit by (auto simp: payload_head)
  have "bit_size t + bsize w \<le> u64_max - 7"
    using fit length_string_bits [OF t(2)] length_string_bits [OF d(1)] length_view_bits [OF views(2)] views(4)
    unfolding t(3) payload_head by simp
  then obtain t' where t': "append_view host False t w = Inr t'" "string_ok t'" "string_bits t' = string_bits t @ view_bits w"
    using append_view_bits [OF t(2) views(2)] by blast
  have "bindE (if length fs mod codec_block_size p = 0 then write_count host p d (of_nat (fr_kept f))
      else write_backspace host p d (of_nat (length (prev_key fs (length fs)) div bits_per_unit p) - of_nat (fr_kept f))) (\<lambda>data.
    bindE (write_count host p data (of_nat (length (fr_key f) div bits_per_unit p) - of_nat (fr_kept f))) (\<lambda>data.
    bindE (if c = None then write_count host p data (of_nat (length (fr_value f) div bits_per_unit p)) else Inr data) (\<lambda>data.
    bindE (append_view host False data x) (\<lambda>data. append_view host False data w)))) = Inr t'"
    using t(1) t'(1) unfolding bindE_assoc [symmetric] by (simp only: bindE_simps bindE_assoc)
  then show ?thesis using t'(2,3) t(3) views(4) by (simp add: payload_head)
qed

text \<open>A new frame takes part of the order, the units and the prefix its key shares.\<close>

lemma new_frame_ok:
  assumes "record_ok p r" "\<And>w. c = Some w \<Longrightarrow> bit_size (record_value r) = w * bits_per_unit p"
    and "kept * bits_per_unit p \<le> lcp (prev_key fs (length fs)) (string_bits (record_key r))"
  shows "frame_ok p c (fs @ [\<lparr>fr_kept = kept, fr_key = string_bits (record_key r), fr_value = string_bits (record_value r)\<rparr>]) (length fs)"
  using assms by (simp add: frame_ok_def record_ok_def length_string_bits prev_key_append)

lemma offsets_step:
  fixes offs :: "u64 list"
  assumes F: "frames_ok p c fs" and offs: "offs = map (\<lambda>g. of_nat (residual p c fs (g * codec_block_size p))) [0..<blocks_of p (length fs)]"
    and B: "0 < codec_block_size p" and small: "place p c fs (length fs) < 2 ^ 64"
  shows "bindE (if length fs mod codec_block_size p = 0 then
        bindE (profile_multiply (length fs) (value_or c 0)) (\<lambda>stride. Inr (offs @ [of_nat (place p c fs (length fs)) - of_nat stride]))
      else Inr offs) k =
    k (map (\<lambda>g. of_nat (residual p c (fs @ [f]) (g * codec_block_size p))) [0..<blocks_of p (Suc (length fs))])"
proof -
  let ?i = "length fs" let ?B = "codec_block_size p"
  have old: "offs = map (\<lambda>g. of_nat (residual p c (fs @ [f]) (g * ?B))) [0..<blocks_of p ?i]"
    using blocks_of_Suc(3) [OF B, of _ ?i] by (auto simp: offs residual_append less_imp_le)
  show ?thesis
  proof (cases "?i mod ?B = 0")
    case True
    have "?i * value_or c 0 \<le> place p c fs ?i" using F by (intro residual_mono(2)) simp_all
    then have w: "profile_multiply ?i (value_or c 0) = Inr (?i * value_or c 0)"
      "of_nat (place p c fs ?i) - of_nat (?i * value_or c 0) = (of_nat (residual p c (fs @ [f]) (blocks_of p ?i * ?B)) :: u64)"
    proof -
      assume le: "?i * value_or c 0 \<le> place p c fs ?i"
      have m: "?i * value_or c 0 \<le> u64_max" using le small by (simp add: u64_max_def)
      then show "profile_multiply ?i (value_or c 0) = Inr (?i * value_or c 0)"
        by (auto simp: profile_multiply_def div_less_iff_less_mult)
      show "of_nat (place p c fs ?i) - of_nat (?i * value_or c 0) = (of_nat (residual p c (fs @ [f]) (blocks_of p ?i * ?B)) :: u64)"
        unfolding blocks_of_Suc(2) [OF B True] using le by (simp add: residual_def place_append of_nat_diff)
    qed
    then show ?thesis using True by (simp add: old blocks_of_Suc(1) [OF B] del: of_nat_mult)
  next
    case False
    then show ?thesis by (simp add: old blocks_of_Suc(1) [OF B])
  qed
qed

lemma encode_record_holds:
  assumes p: "policy_ok p" and e: "encoding p c fs anchor s" and r: "record_ok p r"
    and c: "\<And>w. c = Some w \<Longrightarrow> bit_size (record_value r) = w * bits_per_unit p"
    and order: "fs \<noteq> [] \<Longrightarrow> lex (prev_key fs (length fs)) (string_bits (record_key r)) \<le> 0"
    and kept: "kept = choose_retained p (lcp (prev_key fs (length fs)) (string_bits (record_key r))) (retained_limit_bits r) ceiling rf
      (place p c fs (length fs)) anchor (length (string_bits (record_key r)) div bits_per_unit p)"
    and f: "f = \<lparr>fr_kept = kept, fr_key = string_bits (record_key r), fr_value = string_bits (record_value r)\<rparr>"
    and fit: "length (stream p c (fs @ [f]) (Suc (length fs))) \<le> u64_max - 7"
  shows "\<exists>s'. encode_record host p c ceiling rf (length fs) r s = Inr s' \<and>
    encoding p c (fs @ [f]) (if kept = 0 then place p c fs (length fs) else anchor) s'"
proof -
  let ?u = "bits_per_unit p" and ?i = "length fs" let ?key = "string_bits (record_key r)"
  have B: "0 < codec_block_size p" using p by (simp add: policy_ok_def)
  note enc = e [unfolded encoding_def]
  obtain key where key: "string_view (record_key r) = Inr key" "view_ok key" "view_bits key = ?key" "bsize key = length ?key"
    using string_view_ok [of "record_key r"] r by (auto simp: record_ok_def length_string_bits)
  obtain val where val: "string_view (record_value r) = Inr val" "view_ok val" "view_bits val = string_bits (record_value r)"
      "bsize val = length (string_bits (record_value r))"
    using string_view_ok [of "record_value r"] r by (auto simp: record_ok_def length_string_bits)
  have cmp: "compare_common_bits host (e_previous s) key = Inr \<lparr>common_bits = lcp (prev_key fs ?i) ?key, order = lex (prev_key fs ?i) ?key\<rparr>"
    using compare_common_bits_spec [of "e_previous s" key host] enc key by simp
  have sorted: "\<not> (?i \<noteq> 0 \<and> lex (prev_key fs ?i) ?key > 0)" using order by auto
  note start = stream_bits [OF e]
  have old: "frames_ok p c fs" "e_offsets s = map (\<lambda>g. of_nat (residual p c fs (g * codec_block_size p))) [0..<blocks_of p ?i]"
    using enc by simp_all
  have "kept \<le> lcp (prev_key fs ?i) ?key div ?u" unfolding kept by (rule choose_retained_le)
  then have ku: "kept * ?u \<le> lcp (prev_key fs ?i) ?key" by (simp add: less_eq_div_iff_mult_less_eq)
  have fo: "frame_ok p c (fs @ [f]) ?i" unfolding f by (rule new_frame_ok [OF r c ku])
  have fs': "frames_ok p c (fs @ [f])" using enc fo by (simp add: frames_ok_append)
  have str: "stream p c (fs @ [f]) (Suc ?i) = stream p c fs ?i @ control_bits p (fs @ [f]) ?i @ payload_bits p c f"
    by (simp add: stream_Suc stream_append)
  have ld: "bit_size (e_data s) = length (stream p c fs ?i)" using enc by (simp flip: length_string_bits)
  have ksize: "length ?key \<le> u64_max - 7" using r by (simp add: record_ok_def string_ok_def length_string_bits)
  have kl: "kept * ?u \<le> length ?key" using ku lcp_le(2) [of "prev_key fs ?i" ?key] by linarith
  then have km: "profile_multiply kept ?u = Inr (kept * ?u)" using ksize by (intro multiply_units) linarith
  obtain x where x: "subview key (kept * ?u) (bsize key - kept * ?u) = Inr x" "view_ok x" "view_bits x = drop (kept * ?u) ?key"
    using subview_rest [OF key(2), of "kept * ?u"] kl key(3,4) by auto
  have fk: "fr_kept f = kept" "fr_key f = ?key" "fr_value f = string_bits (record_value r)" by (simp_all add: f)
  obtain t where t: "bindE (if ?i mod codec_block_size p = 0 then write_count host p (e_data s) (of_nat kept)
      else write_backspace host p (e_data s) (of_nat (length (prev_key fs ?i) div ?u) - of_nat kept)) (\<lambda>data.
    bindE (write_count host p data (of_nat (length ?key div ?u) - of_nat kept)) (\<lambda>data.
    bindE (if c = None then write_count host p data (of_nat (length (string_bits (record_value r)) div ?u)) else Inr data) (\<lambda>data.
    bindE (append_view host False data x) (\<lambda>data. append_view host False data val)))) = Inr t" "string_ok t"
    "string_bits t = stream p c (fs @ [f]) (Suc ?i)"
    using write_frame [OF p _ start(3) fo x(2) val(2), of host, unfolded fk] enc x(3) val(3) fit unfolding str ld by auto
  have small: "place p c fs ?i < 2 ^ 64"
  proof -
    have "place p c fs ?i \<le> length (stream p c fs ?i)" by (simp add: place_def)
    also have "\<dots> \<le> u64_max - 7" using fit unfolding str by simp
    finally show ?thesis by (simp add: u64_max_def)
  qed
  define s' where "s' = \<lparr>e_data = t, e_previous = key, e_previous_units = length ?key div ?u,
    e_anchor_offset = (if kept = 0 then place p c fs ?i else anchor),
    e_offsets = map (\<lambda>g. of_nat (residual p c (fs @ [f]) (g * codec_block_size p))) [0..<blocks_of p (Suc ?i)]\<rparr>"
  have "encode_record host p c ceiling rf ?i r s = Inr s'"
  proof -
    have fields: "e_previous_units s = length (prev_key fs ?i) div ?u" "e_anchor_offset s = anchor" using enc by simp_all
    have "encode_record host p c ceiling rf ?i r s =
      bindE (bindE (if ?i mod codec_block_size p = 0 then write_count host p (e_data s) (of_nat kept)
      else write_backspace host p (e_data s) (of_nat (length (prev_key fs ?i) div ?u) - of_nat kept)) (\<lambda>data.
    bindE (write_count host p data (of_nat (length ?key div ?u) - of_nat kept)) (\<lambda>data.
    bindE (if c = None then write_count host p data (of_nat (length (string_bits (record_value r)) div ?u)) else Inr data) (\<lambda>data.
    bindE (append_view host False data x) (\<lambda>data. append_view host False data val))))) (\<lambda>t. Inr (s'\<lparr>e_data := t\<rparr>))"
      unfolding encode_record_def key(1) val(1) bindE_simps cmp bit_comparison.simps if_not_P [OF sorted] Let_def start(2)
        offsets_step [OF old B small, of _ f] key(4) val(4) fields kept [symmetric] km x(1) [unfolded key(4)] bindE_assoc
      by (simp add: s'_def)
    then show ?thesis unfolding t(1) by (simp add: s'_def)
  qed
  moreover have "encoding p c (fs @ [f]) (if kept = 0 then place p c fs ?i else anchor) s'"
    using fs' t(2,3) key(2,3) by (simp add: encoding_def s'_def fk)
  ultimately show ?thesis by blast
qed

section \<open>All records\<close>

text \<open>Consecutive keys are in order.\<close>

fun sorted_after :: "bool list option \<Rightarrow> profile_record list \<Rightarrow> bool" where
  "sorted_after prev [] = True"
| "sorted_after prev (r # rs) \<longleftrightarrow> (\<forall>k. prev = Some k \<longrightarrow> lex k (string_bits (record_key r)) \<le> 0) \<and>
     sorted_after (Some (string_bits (record_key r))) rs"

lemma encode_records_holds:
  assumes p: "policy_ok p"
  shows "encoding p c fs anchor s \<Longrightarrow> (\<And>r. r \<in> set rs \<Longrightarrow> record_ok p r) \<Longrightarrow>
    (\<And>r w. r \<in> set rs \<Longrightarrow> c = Some w \<Longrightarrow> bit_size (record_value r) = w * bits_per_unit p) \<Longrightarrow>
    sorted_after (if fs = [] then None else Some (prev_key fs (length fs))) rs \<Longrightarrow>
    F = front_code p c ceilings rf rs anchor fs \<Longrightarrow> length (stream p c F (length F)) \<le> u64_max - 7 \<Longrightarrow>
    \<exists>s' anchor'. encode_records host p c ceilings rf (length fs) rs s = Inr s' \<and> encoding p c F anchor' s'"
proof (induction rs arbitrary: fs anchor s)
  case (Cons r rs)
  let ?i = "length fs" let ?key = "string_bits (record_key r)"
  define ceiling where "ceiling = (if ceilings = [] then None else Some (ceilings ! ?i))"
  define kept where "kept = choose_retained p (lcp (prev_key fs ?i) ?key) (retained_limit_bits r) ceiling rf
    (place p c fs ?i) anchor (length ?key div bits_per_unit p)"
  define f where "f = \<lparr>fr_kept = kept, fr_key = ?key, fr_value = string_bits (record_value r)\<rparr>"
  let ?a = "if kept = 0 then place p c fs ?i else anchor"
  have F: "F = front_code p c ceilings rf rs ?a (fs @ [f])"
    using Cons.prems(5) unfolding f_def kept_def ceiling_def by (simp add: Let_def)
  obtain gs where gs: "F = (fs @ [f]) @ gs" using front_code_extends [of p c ceilings rf rs ?a "fs @ [f]"] F by auto
  have "stream p c (fs @ [f]) (Suc ?i) = stream p c F (Suc ?i)" unfolding gs by (rule stream_append [symmetric]) simp
  moreover have "Suc ?i \<le> length F" using gs by simp
  ultimately have fit: "length (stream p c (fs @ [f]) (Suc ?i)) \<le> u64_max - 7"
    using stream_prefix [of "Suc ?i" "length F" p c F] Cons.prems(6) by auto
  have order: "lex (prev_key fs ?i) ?key \<le> 0" if "fs \<noteq> []" using Cons.prems(4) that by simp
  obtain s1 where s1: "encode_record host p c ceiling rf ?i r s = Inr s1" "encoding p c (fs @ [f]) ?a s1"
    using encode_record_holds [OF p Cons.prems(1) _ _ order kept_def f_def fit, of host] Cons.prems(2,3) [of r] by (meson list.set_intros(1))
  have "\<exists>s' anchor'. encode_records host p c ceilings rf (length (fs @ [f])) rs s1 = Inr s' \<and> encoding p c F anchor' s'"
    using Cons.prems by (intro Cons.IH [OF s1(2) _ _ _ F]) (simp_all add: f_def)
  then show ?case using s1(1) by (simp add: ceiling_def)
qed auto

definition record_width :: "storage_policy \<Rightarrow> profile_record \<Rightarrow> nat" where
  "record_width p r = bit_size (record_value r) div bits_per_unit p"

text \<open>The width a profile announces: the one all values share, or none.\<close>

definition shared_width :: "storage_policy \<Rightarrow> stream_role \<Rightarrow> profile_record list \<Rightarrow> nat option" where
  "shared_width p role records =
     (if role = Borrowed then Some 0
      else if policy_value_width p \<noteq> None then policy_value_width p
      else case records of [] \<Rightarrow> Some 0
        | r # _ \<Rightarrow> if \<forall>x\<in>set records. record_width p x = record_width p r then Some (record_width p r) else None)"

definition records_ok :: "storage_policy \<Rightarrow> stream_role \<Rightarrow> profile_record list \<Rightarrow> bool" where
  "records_ok p role records \<longleftrightarrow> (\<forall>r\<in>set records. record_ok p r \<and> (role = Borrowed \<longrightarrow> bit_size (record_value r) = 0) \<and>
     (role \<noteq> Borrowed \<longrightarrow> (\<forall>w. policy_value_width p = Some w \<longrightarrow> record_width p r = w))) \<and> sorted_after None records"

lemma string_view_size:
  assumes "string_ok s"
  shows "\<exists>v. string_view s = Inr v \<and> bsize v = bit_size s"
  using string_view_ok [OF assms] by auto

lemma check_records_ok:
  assumes "\<And>r. r \<in> set rs \<Longrightarrow> record_ok p r \<and> (role = Borrowed \<longrightarrow> bit_size (record_value r) = 0) \<and>
     (role \<noteq> Borrowed \<longrightarrow> (\<forall>w. policy_value_width p = Some w \<longrightarrow> record_width p r = w))"
  shows "check_records p role rs common = Inr (if role \<noteq> Borrowed \<and> policy_value_width p = None \<and>
      \<not> (\<forall>x\<in>set rs. common = Some (record_width p x)) then None else common)"
  using assms
proof (induction rs arbitrary: common)
  case (Cons r rs)
  obtain k v where k: "string_view (record_key r) = Inr k" "bsize k = bit_size (record_key r)"
    and v: "string_view (record_value r) = Inr v" "bsize v = bit_size (record_value r)"
    using string_view_size Cons.prems [of r] by (metis list.set_intros(1) record_ok_def)
  have u: "unit_multiple p (bsize k)" "unit_multiple p (bsize v)" using Cons.prems [of r] k(2) v(2) by (simp_all add: record_ok_def)
  have w: "bsize v div bits_per_unit p = record_width p r" by (simp add: v(2) record_width_def)
  have step: "check_records p role (r # rs) common = (if role = Borrowed then
      if record_width p r \<noteq> 0 then Inl (Invalid_argument ''borrowed profile cannot carry values'') else check_records p role rs common
    else if policy_value_width p \<noteq> None then
      if Some (record_width p r) \<noteq> policy_value_width p then Inl (Invalid_argument ''value does not match fixed policy width'')
      else check_records p role rs common
    else check_records p role rs (if common \<noteq> None \<and> common \<noteq> Some (record_width p r) then None else common))"
    unfolding check_records.simps k(1) v(1) bindE_simps Let_def w using u by simp
  have IH: "check_records p role rs common' = Inr (if role \<noteq> Borrowed \<and> policy_value_width p = None \<and>
      \<not> (\<forall>x\<in>set rs. common' = Some (record_width p x)) then None else common')" for common'
    using Cons.prems by (intro Cons.IH) simp
  consider "role = Borrowed" | w where "role \<noteq> Borrowed" "policy_value_width p = Some w" | "role \<noteq> Borrowed" "policy_value_width p = None"
    by fastforce
  then show ?case
  proof cases
    case 1
    then have "record_width p r = 0" using Cons.prems [of r] by (simp add: record_width_def)
    then show ?thesis unfolding step IH using 1 by simp
  next
    case 2
    then show ?thesis unfolding step IH using Cons.prems [of r] by simp
  next
    case 3
    then show ?thesis unfolding step IH by (cases common) auto
  qed
qed simp

lemma start_check_width:
  assumes "records_ok p role records"
  shows "bindE (start_width p role records) (check_records p role records) = Inr (shared_width p role records)"
proof -
  have r: "record_ok p r \<and> (role = Borrowed \<longrightarrow> bit_size (record_value r) = 0) \<and>
     (role \<noteq> Borrowed \<longrightarrow> (\<forall>w. policy_value_width p = Some w \<longrightarrow> record_width p r = w))" if "r \<in> set records" for r
    using assms that by (simp add: records_ok_def)
  note check = check_records_ok [of records p role, OF r]
  have "start_width p role records = Inr (if role = Borrowed then Some 0 else if policy_value_width p \<noteq> None then policy_value_width p
    else case records of [] \<Rightarrow> Some 0 | r # _ \<Rightarrow> Some (record_width p r))"
  proof (cases records)
    case (Cons x xs)
    then obtain v where "string_view (record_value x) = Inr v" "bsize v = bit_size (record_value x)"
      using string_view_size r [of x] by (metis list.set_intros(1) record_ok_def)
    then show ?thesis by (simp add: start_width_def Cons record_width_def)
  qed (simp add: start_width_def)
  then show ?thesis by (auto simp: check shared_width_def split: list.split)
qed

lemma shared_width_values:
  assumes "records_ok p role records" "r \<in> set records" "shared_width p role records = Some w"
  shows "bit_size (record_value r) = w * bits_per_unit p"
proof -
  have r: "record_ok p r" "role = Borrowed \<longrightarrow> bit_size (record_value r) = 0"
    "role \<noteq> Borrowed \<longrightarrow> (\<forall>w. policy_value_width p = Some w \<longrightarrow> record_width p r = w)"
    using assms(1,2) by (simp_all add: records_ok_def)
  have "record_width p r = w"
    using assms(2,3) r(2,3) by (auto simp: shared_width_def record_width_def split: if_splits list.splits)
  then show ?thesis using r(1) units_exact by (auto simp: record_ok_def record_width_def)
qed

section \<open>Built profiles\<close>

definition built_profile :: "storage_policy \<Rightarrow> stream_role \<Rightarrow> nat option \<Rightarrow> frame list \<Rightarrow> profile_array \<Rightarrow> bool" where
  "built_profile p role c F a \<longleftrightarrow> frames_ok p c F \<and> (role = Borrowed \<longrightarrow> c = Some 0) \<and>
     (role \<noteq> Borrowed \<longrightarrow> (\<forall>w. policy_value_width p = Some w \<longrightarrow> c = Some w)) \<and>
     string_ok \<lparr>bytes = pa_bytes a, bit_size = length (stream p c F (length F))\<rparr> \<and>
     string_bits \<lparr>bytes = pa_bytes a, bit_size = length (stream p c F (length F))\<rparr> = stream p c F (length F) \<and>
     ef_build (samples p c F) = Inr (pa_offsets a) \<and> length (stream p c F (length F)) < 2 ^ 57 \<and>
     pa_metadata a = (initial_metadata p role)\<lparr>m_common_value_width := c, m_record_count := length F,
       m_terminal_key_units := length (prev_key F (length F)) div bits_per_unit p, m_extent := place p c F (length F)\<rparr>"

lemma place_length: "place p c fs n \<le> length (stream p c fs n)"
  by (simp add: place_def)

lemma blocks_of_le: "0 < codec_block_size p \<Longrightarrow> blocks_of p n \<le> n"
proof (induction n)
  case (Suc n)
  then show ?case by (simp add: blocks_of_Suc(1))
qed (simp add: blocks_of_def)

lemma samples_sorted:
  assumes "frames_ok p c F" "length (stream p c F (length F)) < 2 ^ 57" and B: "0 < codec_block_size p"
  shows "sorted (samples p c F)" "length (samples p c F) \<le> 2 ^ 57"
    "samples p c F = map (\<lambda>g. of_nat (residual p c F (g * codec_block_size p))) [0..<blocks_of p (length F)] @
      [of_nat (residual p c F (length F))]"
proof -
  let ?n = "length F" and ?B = "codec_block_size p"
  have small: "residual p c F i < 2 ^ 64" if "i \<le> ?n" for i
  proof -
    have "residual p c F i \<le> place p c F ?n" using place_mono [OF that] by (simp add: residual_def le_trans [OF diff_le_self])
    also have "\<dots> \<le> length (stream p c F ?n)" by (rule place_length)
    finally show ?thesis using assms(2) by simp
  qed
  show "sorted (samples p c F)"
    unfolding samples_def sorted_iff_nth_mono_less
  proof (intro allI impI)
    fix i j
    assume ij: "i < j" "j < length (map (\<lambda>g. of_nat (residual p c F (min (g * ?B) ?n)) :: u64) [0..<blocks_of p ?n + 1])"
    have le: "i * ?B \<le> j * ?B" using ij(1) by (intro mult_le_mono1) simp
    have "residual p c F (min (i * ?B) ?n) \<le> residual p c F (min (j * ?B) ?n)"
      by (intro residual_mono(1) [OF assms(1)] min.mono le order_refl) simp
    then show "map (\<lambda>g. of_nat (residual p c F (min (g * ?B) ?n)) :: u64) [0..<blocks_of p ?n + 1] ! i
        \<le> map (\<lambda>g. of_nat (residual p c F (min (g * ?B) ?n))) [0..<blocks_of p ?n + 1] ! j"
      using ij small by (simp add: word_le_nat_alt unat_of_nat_u64 del: upt_Suc)
  qed
  have "?n \<le> place p c F ?n" by (rule residual_mono(3) [OF assms(1) order_refl])
  then have "?n < 2 ^ 57" using place_length [of p c F ?n] assms(2) by linarith
  then show "length (samples p c F) \<le> 2 ^ 57" using blocks_of_le [OF B, of ?n] by (simp add: samples_def)
  have last: "min (blocks_of p ?n * ?B) ?n = ?n"
  proof -
    have e: "?n = ?n div ?B * ?B + ?n mod ?B" by simp
    have "?n mod ?B \<le> of_bool (?n mod ?B \<noteq> 0) * ?B" using mod_less_divisor [OF B, of ?n] by (simp add: less_imp_le)
    then have "?n \<le> blocks_of p ?n * ?B" unfolding blocks_of_def distrib_right using e by linarith
    then show ?thesis by simp
  qed
  then show "samples p c F = map (\<lambda>g. of_nat (residual p c F (g * ?B))) [0..<blocks_of p ?n] @ [of_nat (residual p c F ?n)]"
    using blocks_of_Suc(3) [OF B, of _ ?n] by (simp add: samples_def min_absorb1 less_imp_le)
qed

lemma build_profile_built:
  assumes p: "policy_ok p" and r: "records_ok p role records"
    and opts: "ceilings = [] \<or> length ceilings = length records" "rf = 0 \<or> rf \<ge> 3"
    and c: "c = shared_width p role records" and F: "F = front_code p c ceilings rf records 0 []"
    and fit: "length (stream p c F (length F)) < 2 ^ 57"
  shows "\<exists>a. build_profile host p role records ceilings rf = Inr a \<and> built_profile p role c F a"
proof -
  let ?u = "bits_per_unit p" and ?n = "length F"
  have B: "0 < codec_block_size p" using p by (simp add: policy_ok_def)
  define s0 where "s0 = \<lparr>e_data = empty_string, e_previous = \<lparr>storage = [], offset = 0, bsize = 0\<rparr>, e_previous_units = 0,
     e_anchor_offset = 0, e_offsets = []\<rparr>"
  have e0: "encoding p c [] 0 s0" by (simp add: encoding_def s0_def frames_ok_def view_ok_def view_bits_def blocks_of_def)
  have n: "?n = length records"
    using front_code_extends [of p c ceilings rf records 0 "[]"] F by (auto simp: contents_def dest: arg_cong [where f = length])
  obtain s anchor where s: "encode_records host p c ceilings rf 0 records s0 = Inr s" "encoding p c F anchor s"
    using encode_records_holds [OF p e0 _ _ _ F, of host] r fit shared_width_values [OF r] c
    by (auto simp: records_ok_def u64_max_def)
  note enc = s(2) [unfolded encoding_def]
  note ext = stream_bits [OF s(2)]
  have size: "bit_size (e_data s) = length (stream p c F ?n)" using enc by (simp flip: length_string_bits)
  have stride: "length records * value_or c 0 \<le> place p c F ?n" using residual_mono(2) [of p c F ?n] enc n by simp
  have small: "place p c F ?n < 2 ^ 57" using place_length [of p c F ?n] fit by linarith
  have mult: "profile_multiply (length records) (value_or c 0) = Inr (length records * value_or c 0)"
    using stride small by (auto simp: profile_multiply_def u64_max_def div_less_iff_less_mult)
  have smp: "e_offsets s @ [of_nat (place p c F ?n) - of_nat (length records * value_or c 0)] = samples p c F"
  proof -
    have "of_nat (place p c F ?n) - of_nat (length records * value_or c 0) = (of_nat (residual p c F ?n) :: u64)"
      using stride n by (simp add: residual_def of_nat_diff)
    then show ?thesis using enc samples_sorted(3) [OF _ fit B] by simp
  qed
  obtain offs where offs: "ef_build (samples p c F) = Inr offs"
    using ef_build_correct [OF samples_sorted(1,2) [OF _ fit B]] enc by blast
  define a where "a = \<lparr>pa_bytes = bytes (e_data s), pa_offsets = offs,
    pa_metadata = (initial_metadata p role)\<lparr>m_common_value_width := c, m_record_count := length records,
      m_terminal_key_units := e_previous_units s, m_extent := place p c F ?n\<rparr>\<rparr>"
  have "build_profile host p role records ceilings rf = Inr a"
  proof -
    have ov: "\<not> (ceilings \<noteq> [] \<and> length ceilings \<noteq> length records)" "\<not> (rf \<noteq> 0 \<and> rf < 3)" using opts by auto
    have w: "bindE (start_width p role records) (\<lambda>common. bindE (check_records p role records common) k) = k c" for k :: "nat option \<Rightarrow> profile_array res"
      using start_check_width [OF r] unfolding c [symmetric] by (metis bindE_assoc bindE_simps(2))
    show ?thesis
      unfolding build_profile_def if_not_P [OF ov(1)] if_not_P [OF ov(2)] w s0_def [symmetric] s(1) bindE_simps Let_def ext(2) mult smp offs
      by (simp add: a_def)
  qed
  moreover have "built_profile p role c F a"
  proof -
    have d: "\<lparr>bytes = pa_bytes a, bit_size = length (stream p c F ?n)\<rparr> = e_data s" using size by (simp add: a_def)
    have "role = Borrowed \<longrightarrow> c = Some 0" "role \<noteq> Borrowed \<longrightarrow> (\<forall>w. policy_value_width p = Some w \<longrightarrow> c = Some w)"
      by (simp_all add: c shared_width_def)
    then show ?thesis using enc offs fit n unfolding built_profile_def d by (simp add: a_def)
  qed
  ultimately show ?thesis by blast
qed

text \<open>The sections of a built profile, native or shipped, make an admitted view that holds its frames.\<close>

definition array_view_in :: "bool \<Rightarrow> storage_policy \<Rightarrow> stream_role \<Rightarrow> profile_array \<Rightarrow> profile_view res" where
  "array_view_in little p role a =
     bindE (ef_view_in little (pa_offsets a)) (\<lambda>offsets. from_sections p role (pa_bytes a) offsets (pa_metadata a))"

lemma array_view_native: "array_view host p role a = array_view_in host p role a"
  by (simp add: array_view_def array_view_in_def ef_view_native)

lemma ef_universe_built:
  assumes "ef_build vs = Inr e" "vs \<noteq> []"
  shows "ef_universe e = last vs"
proof -
  obtain ss sps where s: "sample_groups (choose_width (last vs) (length vs)) vs 0 [] [] = (ss, sps)" by fastforce
  show ?thesis using assms unfolding ef_build_def Let_def s by (auto simp: bindE_eq_Inr split: if_splits)
qed

lemma padding_mask: "x AND (push_bit k 1 - 1) = 0 \<longleftrightarrow> unat x mod 2 ^ k = 0" for x :: u8
proof -
  have "x AND (push_bit k 1 - 1) = take_bit k x" by (simp add: take_bit_eq_mask mask_eq_exp_minus_1 push_bit_of_1)
  moreover have "unat (take_bit k x) = unat x mod 2 ^ k" unfolding unsigned_take_bit_eq by (rule take_bit_eq_mod)
  ultimately show ?thesis by (metis unsigned_eq_0_iff)
qed

lemma ef_view_universe: "ef_view_in little e = Inr o' \<Longrightarrow> v_universe o' = ef_universe e"
  by (auto simp: ef_view_in_def new_elias_fano_view_def Let_def split: if_splits)

lemma initial_metadata_simps [simp]:
  "m_version (initial_metadata p role) = 2" "m_key_unit (initial_metadata p role) = policy_unit p"
  "m_value_unit (initial_metadata p role) = policy_unit p" "m_count_unit (initial_metadata p role) = policy_unit p"
  "m_offset_unit (initial_metadata p role) = policy_unit p"
  "m_backspace_code (initial_metadata p role) = backspace_code_of (backspace p)"
  "m_backspace_parameter (initial_metadata p role) = backspace_parameter_of (backspace p)"
  "m_bit_order (initial_metadata p role) = Msb_first" "m_role (initial_metadata p role) = role"
  "m_policy_fixed_values (initial_metadata p role) = (policy_value_width p \<noteq> None)"
  "m_policy_value_width (initial_metadata p role) = value_or (policy_value_width p) 0"
  "m_group_size (initial_metadata p role) = group_size p" "m_codec_block_size (initial_metadata p role) = codec_block_size p"
  by (simp_all add: initial_metadata_def)

lemma array_view_holds:
  assumes p: "policy_ok p" and a: "built_profile p role c F a" and l: "little = host \<or> little"
  shows "\<exists>v. array_view_in little p role a = Inr v \<and> holds host p c F v \<and> validate_contents host p v = Inr ()"
proof -
  let ?u = "bits_per_unit p" and ?n = "length F" let ?bits = "length (stream p c F ?n)" let ?m = "pa_metadata a"
  have B: "0 < codec_block_size p" using p by (simp add: policy_ok_def)
  note b = a [unfolded built_profile_def]
  have F: "frames_ok p c F" and small: "?bits < 2 ^ 57" using b by simp_all
  have bits: "?bits = place p c F ?n * ?u" using stream_units [OF F order_refl] .
  note srt = samples_sorted [OF F small B]
  obtain e where e: "ef_build (samples p c F) = Inr e" "pa_offsets a = e" "built (samples p c F) e"
    using ef_build_correct [OF srt(1,2)] b by auto
  obtain o' where ov: "ef_view_in little e = Inr o'" "encodes host o' (samples p c F)"
    using ef_view_correct [OF e(3) srt(1,2) l] by blast
  have cnt: "v_entry_count o' = blocks_of p ?n + 1" using encodes_count [OF ov(2)] by (simp add: samples_def)
  have str: "length (pa_bytes a) = byte_count ?bits" "?bits \<le> u64_max - 7" using b by (simp_all add: string_ok_def)
  define d where "d = \<lparr>storage = pa_bytes a, offset = 0, bsize = ?bits\<rparr>"
  have dv: "new_bit_view (pa_bytes a) ?bits 0 = Inr d"
    using str byte_count_bounds [of ?bits] by (auto simp: new_bit_view_def profile_multiply_def d_def u64_max_def)
  define v where "v = \<lparr>pv_bytes = pa_bytes a, pv_offsets = o', pv_metadata = ?m, pv_data = d\<rparr>"
  have m: "m_extent ?m = place p c F ?n" "m_record_count ?m = ?n" "m_common_value_width ?m = c"
    "m_terminal_key_units ?m = length (prev_key F ?n) div ?u" using b by simp_all
  have mult: "profile_multiply (place p c F ?n) ?u = Inr ?bits"
    unfolding bits using bits str(2) by (intro multiply_units) simp
  have blocks: "count_blocks p ?m = blocks_of p ?n" by (simp add: count_blocks_def blocks_of_def m)
  have "blocks_of p ?n \<noteq> u64_max"
  proof -
    have "blocks_of p ?n < 2 ^ 57" using srt(2) by (simp add: samples_def)
    then show ?thesis by (simp add: u64_max_def)
  qed
  moreover have fields: "m_version ?m = 2" "m_key_unit ?m = policy_unit p" "m_value_unit ?m = policy_unit p"
    "m_count_unit ?m = policy_unit p" "m_offset_unit ?m = policy_unit p" "m_backspace_code ?m = backspace_code_of (backspace p)"
    "m_backspace_parameter ?m = backspace_parameter_of (backspace p)" "m_count_code ?m = m_count_code (initial_metadata p role)"
    "m_bit_order ?m = Msb_first" "m_role ?m = role" "m_group_size ?m = group_size p" "m_codec_block_size ?m = codec_block_size p"
    "m_policy_fixed_values ?m = (policy_value_width p \<noteq> None)" "m_policy_value_width ?m = value_or (policy_value_width p) 0"
    using b by simp_all
  moreover have "\<not> (\<not> m_policy_fixed_values ?m \<and> m_policy_value_width ?m \<noteq> 0)"
    unfolding fields by (cases "policy_value_width p") simp_all
  moreover have "\<not> (role = Borrowed \<and> m_common_value_width ?m \<noteq> Some 0)" using b m by simp
  moreover have "\<not> (role \<noteq> Borrowed \<and> m_policy_fixed_values ?m \<and> m_common_value_width ?m \<noteq> Some (m_policy_value_width ?m))"
    unfolding fields m using b by (cases "policy_value_width p") auto
  moreover have "\<not> (m_record_count ?m = 0 \<and> (m_extent ?m \<noteq> 0 \<or> m_terminal_key_units ?m \<noteq> 0))" unfolding m by auto
  ultimately have secs: "from_sections p role (pa_bytes a) o' ?m = Inr v"
    using str mult dv cnt blocks unfolding from_sections_def Let_def by (simp add: v_def m)
  have pd: "profile_data p d" "view_bits d = stream p c F ?n" "bsize d = ?bits"
  proof -
    have "view_ok d" using byte_count_bounds [of ?bits] str(1) by (simp add: view_ok_def d_def mult.commute)
    then show "profile_data p d" using bits by (auto simp: profile_data_def d_def)
    show "view_bits d = stream p c F ?n" using b by (simp add: view_bits_def d_def string_bits_def)
  qed (simp add: d_def)
  have adm: "admitted p v" using p pd bits str(2) m(1) by (simp add: admitted_def v_def)
  have h: "holds host p c F v" using adm F pd(2) m ov(2) by (simp add: holds_def v_def pv_size_def)
  have "validate_contents host p v = Inr ()"
  proof -
    have w: "?n * value_or c 0 \<le> place p c F ?n" by (rule residual_mono(2) [OF F order_refl])
    have pl: "place p c F ?n < 2 ^ 57" using place_length [of p c F ?n] small by linarith
    have stride: "profile_multiply (pv_size v) (common_width v) = Inr (?n * value_or c 0)"
      using w pl by (auto simp: profile_multiply_def v_def pv_size_def m u64_max_def div_less_iff_less_mult)
    have "residual p c F ?n < 2 ^ 64" using pl by (simp add: residual_def)
    then have "unat (v_universe o') = place p c F ?n - ?n * value_or c 0"
      using ef_view_universe [OF ov(1)] ef_universe_built [OF e(1)] srt(3) by (simp add: unat_of_nat_u64) (simp add: residual_def)
    then have off: "validate_offset_metadata v = Inr ()"
      using w stride by (simp add: validate_offset_metadata_def v_def m)
    have pad: "\<not> (bsize (pv_data v) mod 8 \<noteq> 0 \<and> last (pv_bytes v) AND (push_bit (8 - bsize (pv_data v) mod 8) 1 - 1) \<noteq> 0)"
    proof -
      have "validate_string \<lparr>bytes = pa_bytes a, bit_size = ?bits\<rparr> = Inr ()" using b by (simp add: validate_string_iff)
      then show ?thesis unfolding padding_mask by (auto simp: validate_string_def v_def pd(3) Let_def split: if_splits)
    qed
    have b0: "block_offset host p v 0 = Inr 0" using block_offset_holds [OF h, of 0] by simp
    have "block_offset host p v (count_blocks p (pv_metadata v)) = Inr (place p c F (min (blocks_of p ?n * codec_block_size p) ?n))"
      using block_offset_holds [OF h, of "blocks_of p ?n"] by (simp add: blocks v_def)
    moreover have "min (blocks_of p ?n * codec_block_size p) ?n = ?n"
    proof -
      have e: "?n = ?n div codec_block_size p * codec_block_size p + ?n mod codec_block_size p" by simp
      have "?n mod codec_block_size p \<le> of_bool (?n mod codec_block_size p \<noteq> 0) * codec_block_size p"
        using mod_less_divisor [OF B, of ?n] by (simp add: less_imp_le)
      then have "?n \<le> blocks_of p ?n * codec_block_size p" unfolding blocks_of_def distrib_right using e by linarith
      then show ?thesis by simp
    qed
    ultimately have bn: "block_offset host p v (count_blocks p (pv_metadata v)) = Inr (m_extent (pv_metadata v))"
      by (simp add: v_def m)
    show ?thesis unfolding validate_contents_def off bindE_simps Let_def if_not_P [OF pad] b0 bn by simp
  qed
  then show ?thesis using h ov(1) e(2) secs by (auto simp: array_view_in_def)
qed

text \<open>How long the stream of a byte profile can get: at most ten bytes per count.\<close>

lemma varint_groups: "n < 128 ^ Suc k \<Longrightarrow> length (varint n) \<le> Suc k"
proof (induction k arbitrary: n)
  case (Suc k)
  show ?case
  proof (cases "n < 128")
    case False
    have "n div 128 < 128 ^ Suc k" using Suc.prems by (simp add: div_less_iff_less_mult mult.commute)
    from Suc.IH [OF this] show ?thesis using False by (subst varint.simps) simp
  qed (simp add: varint.simps)
qed (simp add: varint.simps)

lemma byte_code_length:
  assumes "policy_unit p = Byte"
  shows "length (count_code p x) \<le> 80" "length (backspace_code p x) \<le> 80"
proof -
  have "unat x < 2 ^ 64" using unsigned_less [of x, where 'a = nat] by simp
  then have "unat x < 128 ^ Suc 9" by (simp add: less_trans [of _ "2 ^ 64"])
  then have "length (varint (unat x)) \<le> 10" using varint_groups [of "unat x" 9] by simp
  then show "length (count_code p x) \<le> 80" "length (backspace_code p x) \<le> 80"
    using assms by (simp_all add: count_code_def backspace_code_def)
qed

lemma byte_stream_length:
  assumes "policy_unit p = Byte"
  shows "length (stream p c fs n) \<le> (\<Sum>i<n. 240 + length (fr_key (fs ! i)) + length (fr_value (fs ! i)))"
proof (induction n)
  case (Suc n)
  have "length (control_bits p fs n) \<le> 80" using byte_code_length [OF assms] by (simp add: control_bits_def)
  moreover have "length (payload_bits p c (fs ! n)) \<le> 160 + length (fr_key (fs ! n)) + length (fr_value (fs ! n))"
  proof -
    let ?a = "count_code p (of_nat (length (fr_key (fs ! n)) div bits_per_unit p - fr_kept (fs ! n)))"
    let ?b = "count_code p (of_nat (length (fr_value (fs ! n)) div bits_per_unit p))"
    have "length (payload_bits p c (fs ! n)) \<le> length ?a + length ?b + length (fr_key (fs ! n)) + length (fr_value (fs ! n))"
      by (cases c) (simp_all add: payload_bits_def)
    then show ?thesis using byte_code_length(1) [OF assms, of "of_nat (length (fr_key (fs ! n)) div bits_per_unit p - fr_kept (fs ! n))"]
      byte_code_length(1) [OF assms, of "of_nat (length (fr_value (fs ! n)) div bits_per_unit p)"] by linarith
  qed
  ultimately show ?case using Suc by (simp add: stream_Suc)
qed simp

lemma byte_front_code_length:
  assumes "policy_unit p = Byte" "F = front_code p c ceilings rf records 0 []"
  shows "length (stream p c F (length F)) \<le>
    (\<Sum>r\<leftarrow>records. 240 + length (string_bits (record_key r)) + length (string_bits (record_value r)))"
proof -
  have cont: "contents F = map (\<lambda>r. (string_bits (record_key r), string_bits (record_value r))) records"
    using front_code_extends [of p c ceilings rf records 0 "[]"] assms(2) by auto
  have "(\<Sum>i<length F. 240 + length (fr_key (F ! i)) + length (fr_value (F ! i))) =
      (\<Sum>f\<leftarrow>F. 240 + length (fr_key f) + length (fr_value f))"
    by (simp add: sum_list_sum_nth atLeast0LessThan)
  also have "\<dots> = (\<Sum>(k, v)\<leftarrow>contents F. 240 + length k + length v)" by (simp add: contents_def o_def)
  also have "\<dots> = (\<Sum>r\<leftarrow>records. 240 + length (string_bits (record_key r)) + length (string_bits (record_value r)))"
    by (simp add: cont o_def)
  finally show ?thesis using byte_stream_length [OF assms(1), of c F "length F"] by simp
qed

section \<open>Properties\<close>

text \<open>
  C1. Profile round trip. Sorted records of the policy's units, with any prefix ceilings, retention
  hints and restart factor, are encoded whenever the stream stays under \<open>2^57\<close> bits; the sections,
  read natively or shipped as little-endian words to a host of either order, pass the checked
  constructor; and a traversal hands its callback exactly the keys and values of the records, in
  order, until the callback stops or throws.
\<close>

theorem profile_round_trip:
  assumes "policy_ok p" "records_ok p role records" "ceilings = [] \<or> length ceilings = length records" "rf = 0 \<or> rf \<ge> 3"
    and "F = front_code p (shared_width p role records) ceilings rf records 0 []"
    and "length (stream p (shared_width p role records) F (length F)) < 2 ^ 57" "little = host \<or> little"
  shows "\<exists>a v. build_profile maker p role records ceilings rf = Inr a \<and> array_view_in little p role a = Inr v \<and>
    validate_contents host p v = Inr () \<and>
    visit_all host p v (on_bits cb) st =
      (case feed cb 0 (map (\<lambda>r. (string_bits (record_key r), string_bits (record_value r))) records) st of
         (Inl e, st) \<Rightarrow> (Inl e, st) | (Inr b, st) \<Rightarrow> (Inr (), st))"
proof -
  obtain a where a: "build_profile maker p role records ceilings rf = Inr a" "built_profile p role (shared_width p role records) F a"
    using build_profile_built [OF assms(1-4) refl assms(5,6)] by blast
  obtain v where v: "array_view_in little p role a = Inr v" "holds host p (shared_width p role records) F v"
    "validate_contents host p v = Inr ()"
    using array_view_holds [OF assms(1) a(2) assms(7)] by blast
  have "contents F = map (\<lambda>r. (string_bits (record_key r), string_bits (record_value r))) records"
    using front_code_extends [of p "shared_width p role records" ceilings rf records 0 "[]"] assms(5) by auto
  then show ?thesis using a(1) v visit_all_holds [OF v(2), of cb st] by auto
qed

definition two_records :: "profile_record list" where
  "two_records =
     [\<lparr>record_key = \<lparr>bytes = [97, 98], bit_size = 16\<rparr>, record_value = \<lparr>bytes = [1], bit_size = 8\<rparr>, retained_limit_bits = None\<rparr>,
      \<lparr>record_key = \<lparr>bytes = [97, 99, 1], bit_size = 24\<rparr>, record_value = \<lparr>bytes = [], bit_size = 0\<rparr>, retained_limit_bits = None\<rparr>]"

lemma two_records_ok:
  "records_ok default_policy Native two_records"
  "F = front_code default_policy c [] 0 two_records 0 [] \<Longrightarrow> length (stream default_policy c F (length F)) < 2 ^ 57"
proof -
  have ok: "string_ok \<lparr>bytes = [97, 98], bit_size = 16\<rparr>" "string_ok \<lparr>bytes = [1], bit_size = 8\<rparr>"
    "string_ok \<lparr>bytes = [97, 99, 1], bit_size = 24\<rparr>" "string_ok \<lparr>bytes = [], bit_size = 0\<rparr>"
    unfolding validate_string_iff [symmetric] by (simp_all add: validate_string_def u64_max_def byte_count_def)
  have u: "unit_multiple default_policy n \<longleftrightarrow> n mod 8 = 0" for n
    by (simp add: unit_multiple_def default_policy_facts)
  have "lex (string_bits \<lparr>bytes = [97, 98], bit_size = 16\<rparr>) (string_bits \<lparr>bytes = [97, 99, 1], bit_size = 24\<rparr>) \<le> 0"
    by (simp add: string_bits_def byte_bits_def bits_of_def upt_rec)
  then show "records_ok default_policy Native two_records"
    using ok by (simp add: records_ok_def two_records_def record_ok_def u default_policy_facts)
  assume "F = front_code default_policy c [] 0 two_records 0 []"
  from byte_front_code_length [OF default_policy_facts(1) this] show "length (stream default_policy c F (length F)) < 2 ^ 57"
    by (simp add: two_records_def string_bits_def)
qed

lemma profile_round_trip_witness:
  "\<exists>a v. build_profile True default_policy Native two_records [] 0 = Inr a \<and> array_view_in True default_policy Native a = Inr v \<and>
     visit_all False default_policy v (on_bits (\<lambda>i k x s. (Inr True, s @ [(i, k)]))) [] =
       (Inr (), [(0, string_bits \<lparr>bytes = [97, 98], bit_size = 16\<rparr>), (1, string_bits \<lparr>bytes = [97, 99, 1], bit_size = 24\<rparr>)])"
proof -
  let ?cb = "\<lambda>i k x s. (Inr True, s @ [(i, k)])"
  show ?thesis
    using profile_round_trip [OF default_policies_ok(1) two_records_ok(1) _ _ refl two_records_ok(2) [OF refl], of True False True ?cb "[]"]
    by (auto simp: two_records_def)
qed

text \<open>
  C4. Random access. From the same sections, any record is reconstructed without its neighbours'
  keys being kept: the first \<open>limit\<close> units of its key, its full length and its value; an ordinal
  past the end is refused.
\<close>

theorem records_reconstruct:
  assumes "policy_ok p" "records_ok p role records" "ceilings = [] \<or> length ceilings = length records" "rf = 0 \<or> rf \<ge> 3"
    and "F = front_code p (shared_width p role records) ceilings rf records 0 []"
    and "length (stream p (shared_width p role records) F (length F)) < 2 ^ 57"
  shows "\<exists>a v. build_profile host p role records ceilings rf = Inr a \<and> array_view host p role a = Inr v \<and>
    (\<forall>i limit. case reconstruct_at host p v i limit of
       Inr d \<Rightarrow> i < length records \<and> string_bits (decoded_prefix d) = take (limit * bits_per_unit p) (string_bits (record_key (records ! i))) \<and>
         decoded_units d * bits_per_unit p = bit_size (record_key (records ! i)) \<and> decoded_value d = record_value (records ! i)
     | Inl e \<Rightarrow> length records \<le> i \<and> e = Out_of_range ''profile record ordinal'')"
proof -
  let ?c = "shared_width p role records"
  obtain a where a: "build_profile host p role records ceilings rf = Inr a" "built_profile p role ?c F a"
    using build_profile_built [OF assms(1-4) refl assms(5,6)] by blast
  obtain v where v: "array_view host p role a = Inr v" "holds host p ?c F v"
    using array_view_holds [OF assms(1) a(2), of host host] by (auto simp: array_view_native)
  have cont: "contents F = map (\<lambda>r. (string_bits (record_key r), string_bits (record_value r))) records"
    using front_code_extends [of p ?c ceilings rf records 0 "[]"] assms(5) by auto
  have len: "length F = length records" using arg_cong [OF cont, of length] by (simp add: contents_def)
  have nth: "fr_key (F ! i) = string_bits (record_key (records ! i))" "fr_value (F ! i) = string_bits (record_value (records ! i))"
    if "i < length records" for i
    using arg_cong [OF cont, of "\<lambda>xs. xs ! i"] that len by (simp_all add: contents_def)
  have "case reconstruct_at host p v i limit of
      Inr d \<Rightarrow> i < length records \<and> string_bits (decoded_prefix d) = take (limit * bits_per_unit p) (string_bits (record_key (records ! i))) \<and>
        decoded_units d * bits_per_unit p = bit_size (record_key (records ! i)) \<and> decoded_value d = record_value (records ! i)
    | Inl e \<Rightarrow> length records \<le> i \<and> e = Out_of_range ''profile record ordinal''" for i limit
  proof (cases "i < length records")
    case True
    have r: "string_ok (record_key (records ! i))" "string_ok (record_value (records ! i))"
      using assms(2) True by (simp_all add: records_ok_def record_ok_def)
    obtain d where d: "reconstruct_at host p v i limit = Inr d" "decoded_units d * bits_per_unit p = length (fr_key (F ! i))"
      "string_bits (decoded_prefix d) = take (limit * bits_per_unit p) (fr_key (F ! i))"
      "string_ok (decoded_value d)" "string_bits (decoded_value d) = fr_value (F ! i)"
      using reconstruct_at_holds [OF v(2), of i limit] True len by auto
    have "decoded_value d = record_value (records ! i)" using string_ok_eq [OF d(4) r(2)] d(5) nth(2) [OF True] by simp
    then show ?thesis using d True nth(1) [OF True] length_string_bits [OF r(1)] by simp
  next
    case False
    then show ?thesis using holdsD(5) [OF v(2)] len by (simp add: reconstruct_at_def encoded_at_def)
  qed
  then show ?thesis using a(1) v(1) by blast
qed

lemma records_reconstruct_witness:
  "\<exists>a v d. build_profile True default_policy Native two_records [] 0 = Inr a \<and> array_view True default_policy Native a = Inr v \<and>
     reconstruct_at True default_policy v 1 u64_max = Inr d \<and> decoded_units d = 3"
proof -
  obtain a v where a: "build_profile True default_policy Native two_records [] 0 = Inr a" "array_view True default_policy Native a = Inr v"
    and r: "\<forall>i limit. case reconstruct_at True default_policy v i limit of
       Inr d \<Rightarrow> i < length two_records \<and>
         string_bits (decoded_prefix d) = take (limit * bits_per_unit default_policy) (string_bits (record_key (two_records ! i))) \<and>
         decoded_units d * bits_per_unit default_policy = bit_size (record_key (two_records ! i)) \<and> decoded_value d = record_value (two_records ! i)
     | Inl e \<Rightarrow> length two_records \<le> i \<and> e = Out_of_range ''profile record ordinal''"
    using records_reconstruct [OF default_policies_ok(1) two_records_ok(1) _ _ refl two_records_ok(2) [OF refl], of True] by auto
  show ?thesis
    using a r [rule_format, of 1 u64_max] by (cases "reconstruct_at True default_policy v 1 u64_max")
      (auto simp: two_records_def default_policy_facts)
qed

end
