(* ===== verification/ProfileWriter.thy ===== *)
theory ProfileWriter
  imports ProfileWrites
begin

text \<open>
  The incremental writer of borrowed profiles writes the stream of the same frames as the batch
  encoder: appending keys one by one with their ceilings and finishing gives the same sections.
\<close>

definition writing :: "storage_policy \<Rightarrow> frame list \<Rightarrow> borrowed_writer \<Rightarrow> bool" where
  "writing p fs w \<longleftrightarrow> frames_ok p (Some 0) fs \<and> string_ok (bw_data w) \<and> string_bits (bw_data w) = stream p (Some 0) fs (length fs) \<and>
     string_ok (bw_previous w) \<and> string_bits (bw_previous w) = prev_key fs (length fs) \<and>
     bw_offsets w = map (\<lambda>g. of_nat (residual p (Some 0) fs (g * codec_block_size p))) [0..<blocks_of p (length fs)] \<and>
     bw_count w = length fs \<and> \<not> bw_finished w"

text \<open>The control, length and suffix of a frame without a value.\<close>

lemma append_output_holds:
  assumes p: "policy_ok p" and w: "writing p fs w" and key: "view_ok key" "view_bits key = fr_key f"
    and f: "frame_ok p (Some 0) (fs @ [f]) (length fs)" "fr_value f = []"
    and fit: "length (stream p (Some 0) (fs @ [f]) (Suc (length fs))) \<le> u64_max - 7" "length (fr_key f) \<le> u64_max - 7"
  shows "\<exists>t. append_output host p key (fr_kept f) w =
      Inr (t, map (\<lambda>g. of_nat (residual p (Some 0) (fs @ [f]) (g * codec_block_size p))) [0..<blocks_of p (Suc (length fs))]) \<and>
    string_ok t \<and> string_bits t = stream p (Some 0) (fs @ [f]) (Suc (length fs))"
proof -
  let ?u = "bits_per_unit p" and ?i = "length fs" and ?c = "Some 0 :: nat option"
  have B: "0 < codec_block_size p" using p by (simp add: policy_ok_def)
  note wr = w [unfolded writing_def]
  note units = frame_units [OF f(1), unfolded nth_append_length prev_key_append [OF order_refl]]
  have kl: "fr_kept f * ?u \<le> length (fr_key f)" using mult_le_mono1 [OF units(3), of ?u] unfolding units(1) .
  have km: "profile_multiply (fr_kept f) ?u = Inr (fr_kept f * ?u)" using kl fit(2) by (intro multiply_units) linarith
  have ks: "bsize key = length (fr_key f)" using key by (simp flip: length_view_bits)
  obtain x where x: "subview key (fr_kept f * ?u) (bsize key - fr_kept f * ?u) = Inr x" "view_ok x"
    "view_bits x = drop (fr_kept f * ?u) (fr_key f)"
    using subview_rest [OF key(1), of "fr_kept f * ?u"] kl ks key(2) by auto
  have str: "stream p ?c (fs @ [f]) (Suc ?i) = stream p ?c fs ?i @ control_bits p (fs @ [f]) ?i @ head_bits p ?c f"
    by (simp add: stream_Suc stream_append payload_head f(2))
  have ld: "bit_size (bw_data w) = length (stream p ?c fs ?i)" using wr by (simp flip: length_string_bits)
  have lu: "length (stream p ?c fs ?i) = place p ?c fs ?i * ?u" using wr by (intro stream_units) simp_all
  then have al: "policy_unit p = Byte \<longrightarrow> bit_size (bw_data w) mod 8 = 0" by (simp add: ld)
  have lp: "bit_size (bw_previous w) = length (prev_key fs ?i)" using wr by (simp flip: length_string_bits)
  have pl: "bit_size (bw_data w) div ?u = place p ?c fs ?i" by (simp add: ld place_def)
  obtain t where t: "bindE (if ?i mod codec_block_size p = 0 then write_count host p (bw_data w) (of_nat (fr_kept f))
      else write_backspace host p (bw_data w) (of_nat (length (prev_key fs ?i) div ?u) - of_nat (fr_kept f))) (\<lambda>data.
    bindE (write_count host p data (of_nat (length (fr_key f) div ?u) - of_nat (fr_kept f))) (\<lambda>data.
    append_view host False data x)) = Inr t" "string_ok t" "string_bits t = stream p ?c (fs @ [f]) (Suc ?i)"
    using write_head [OF p _ al f(1) x(2,3), of host] wr fit(1) unfolding str ld by auto
  let ?offs = "map (\<lambda>g. of_nat (residual p ?c (fs @ [f]) (g * codec_block_size p))) [0..<blocks_of p (Suc ?i)] :: u64 list"
  have old: "bw_offsets w = map (\<lambda>g. of_nat (residual p ?c (fs @ [f]) (g * codec_block_size p))) [0..<blocks_of p ?i]"
    using wr blocks_of_Suc(3) [OF B, of _ ?i] by (auto simp: residual_append less_imp_le)
  have "residual p ?c (fs @ [f]) ?i = place p ?c fs ?i" by (simp add: residual_def place_append)
  then have offs: "(if bw_count w mod codec_block_size p = 0 then bw_offsets w @ [of_nat (bit_size (bw_data w) div ?u)] else bw_offsets w) = ?offs"
    using wr blocks_of_Suc(2) [OF B, of ?i] by (simp add: old blocks_of_Suc(1) [OF B] pl)
  have n: "bw_count w = ?i" using wr by simp
  have "append_output host p key (fr_kept f) w =
      bindE (bindE (if ?i mod codec_block_size p = 0 then write_count host p (bw_data w) (of_nat (fr_kept f))
      else write_backspace host p (bw_data w) (of_nat (length (prev_key fs ?i) div ?u) - of_nat (fr_kept f))) (\<lambda>data.
    bindE (write_count host p data (of_nat (length (fr_key f) div ?u) - of_nat (fr_kept f))) (\<lambda>data.
    append_view host False data x))) (\<lambda>data. Inr (data, ?offs))"
    unfolding append_output_def Let_def offs [unfolded n] n lp ks km x(1) [unfolded ks] bindE_simps bindE_assoc ..
  then show ?thesis unfolding t(1) using t(2,3) by simp
qed

text \<open>The predecessor after a key: its shared units stay, the rest is copied.\<close>

lemma replace_previous:
  assumes p: "string_ok s" and key: "view_ok key" "bsize key \<le> u64_max - 7"
    and c: "c \<le> lcp (string_bits s) (view_bits key)"
  shows "\<exists>t x t'. resize_string s (bsize key) = Inr t \<and> subview key c (bsize key - c) = Inr x \<and> copy_into host t c x = Inr t' \<and>
    string_ok t' \<and> string_bits t' = view_bits key"
proof -
  have lk: "length (view_bits key) = bsize key" by (rule length_view_bits [OF key(1)])
  have le: "c \<le> length (string_bits s)" "c \<le> bsize key" using c lcp_le [of "string_bits s" "view_bits key"] lk by linarith+
  obtain t where t: "resize_string s (bsize key) = Inr t" "string_ok t" "bit_size t = bsize key"
    "string_bits t = take (bsize key) (string_bits s @ replicate (bsize key) False)"
    using resize_string_bits [OF p key(2)] by blast
  obtain x where x: "subview key c (bsize key - c) = Inr x" "view_ok x" "view_bits x = drop c (view_bits key)" "bsize x = bsize key - c"
    using subview_rest [OF key(1) le(2)] by blast
  obtain t' where t': "copy_into host t c x = Inr t'" "string_ok t'" "string_bits t' = splice (string_bits t) c (view_bits x)"
    using copy_into_splice [OF t(2) x(2), of c host] t(3) x(4) le(2) by auto
  have "take c (string_bits s) = take c (view_bits key)"
    using c lcp_take [of "string_bits s" "view_bits key"] by (metis min_absorb1 take_take)
  then have "take c (string_bits t) = take c (view_bits key)" using le by (simp add: t(4) min_absorb1)
  moreover have "drop (c + length (view_bits x)) (string_bits t) = []" using length_string_bits [OF t(2)] t(3) x(3) lk le(2) by simp
  ultimately have "string_bits t' = view_bits key" unfolding t'(3) splice_def x(3) [symmetric] by (simp add: x(3))
  then show ?thesis using t(1) x(1) t'(1,2) by blast
qed

lemma writer_append_holds:
  assumes p: "policy_ok p" and w: "writing p fs w" and key: "view_ok key" "bsize key \<le> u64_max - 7" "unit_multiple p (bsize key)"
    and order: "fs \<noteq> [] \<Longrightarrow> lex (prev_key fs (length fs)) (view_bits key) \<le> 0"
    and f: "f = \<lparr>fr_kept = min (lcp (prev_key fs (length fs)) (view_bits key) div bits_per_unit p) ceiling, fr_key = view_bits key, fr_value = []\<rparr>"
    and fit: "length (stream p (Some 0) (fs @ [f]) (Suc (length fs))) \<le> u64_max - 7"
  shows "\<exists>w'. writer_append host p key ceiling w = (Inr (), w') \<and> writing p (fs @ [f]) w'"
proof -
  let ?u = "bits_per_unit p" and ?i = "length fs" and ?c = "Some 0 :: nat option" let ?l = "lcp (prev_key fs ?i) (view_bits key)"
  note wr = w [unfolded writing_def]
  have lk: "length (view_bits key) = bsize key" by (rule length_view_bits [OF key(1)])
  obtain prev where prev: "string_view (bw_previous w) = Inr prev" "view_ok prev" "view_bits prev = prev_key fs ?i"
    using string_view_ok [of "bw_previous w"] wr by auto
  have cmp: "compare_common_bits host prev key = Inr \<lparr>common_bits = ?l, order = lex (prev_key fs ?i) (view_bits key)\<rparr>"
    using compare_common_bits_spec [OF prev(2) key(1), of host] prev(3) by simp
  have "min (?l div ?u) ceiling * ?u \<le> ?l div ?u * ?u" by (intro mult_le_mono1) simp
  also have "\<dots> \<le> ?l" by simp
  finally have fo: "frame_ok p ?c (fs @ [f]) ?i"
    using key(3) lk by (simp add: f frame_ok_def prev_key_append unit_multiple_def)
  obtain t where t: "append_output host p key (fr_kept f) w =
      Inr (t, map (\<lambda>g. of_nat (residual p ?c (fs @ [f]) (g * codec_block_size p))) [0..<blocks_of p (Suc ?i)])"
    "string_ok t" "string_bits t = stream p ?c (fs @ [f]) (Suc ?i)"
    using append_output_holds [OF p w key(1) _ fo _ fit, of host] key(2) lk by (auto simp: f)
  define offs where "offs = (map (\<lambda>g. of_nat (residual p ?c (fs @ [f]) (g * codec_block_size p))) [0..<blocks_of p (Suc ?i)] :: u64 list)"
  have "?l div ?u * ?u \<le> lcp (string_bits (bw_previous w)) (view_bits key)" using wr by simp
  from replace_previous [OF _ key(1,2) this, of host] wr obtain a x t' where
    r: "resize_string (bw_previous w) (bsize key) = Inr a" "subview key (?l div ?u * ?u) (bsize key - ?l div ?u * ?u) = Inr x"
      "copy_into host a (?l div ?u * ?u) x = Inr t'" "string_ok t'" "string_bits t' = view_bits key" by blast
  have "Suc ?i \<le> u64_max - 7"
  proof -
    have "frames_ok p ?c (fs @ [f])" using wr fo by (simp add: frames_ok_append)
    then have "Suc ?i \<le> place p ?c (fs @ [f]) (Suc ?i)" by (intro residual_mono(3)) simp_all
    also have "\<dots> \<le> length (stream p ?c (fs @ [f]) (Suc ?i))" by (rule place_length)
    finally show ?thesis using fit by simp
  qed
  then have add: "profile_add (bw_count w) 1 = Inr (Suc ?i)" using wr by (simp add: profile_add_def)
  have vm: "\<not> byte_count (bsize key) > vector_max"
    using key(2) byte_count_bounds(2) [of "bsize key"] by (simp add: vector_max_def u64_max_def)
  define w' where "w' = w\<lparr>bw_data := t, bw_offsets := offs, bw_previous := t', bw_count := Suc ?i\<rparr>"
  have ordered: "\<not> (bw_count w \<noteq> 0 \<and> lex (prev_key fs ?i) (view_bits key) > 0)" using order wr by auto
  have kept: "fr_kept f = min (?l div ?u) ceiling" by (simp add: f)
  have "append_known host p key ?l ceiling w = (Inr (), w')"
    using t(1) r(1-3) add vm unfolding append_known_def kept offs_def [symmetric] Let_def by (simp add: w'_def)
  then have "writer_append host p key ceiling w = (Inr (), w')"
    using wr key(3) prev(1) cmp ordered by (simp add: writer_append_def bindM_apply)
  moreover have "writing p (fs @ [f]) w'"
    using wr fo t(2,3) r(4,5) by (simp add: writing_def w'_def frames_ok_append offs_def f)
  ultimately show ?thesis by blast
qed

section \<open>Whole profiles\<close>

fun append_all :: "bool \<Rightarrow> storage_policy \<Rightarrow> (bit_view \<times> nat) list \<Rightarrow> (borrowed_writer, unit) op" where
  "append_all host p [] = returnM ()"
| "append_all host p ((key, ceiling) # ks) = bindM (writer_append host p key ceiling) (\<lambda>_. append_all host p ks)"

lemma append_all_holds:
  assumes p: "policy_ok p"
  shows "writing p fs w \<Longrightarrow> length ks = length rs \<Longrightarrow>
    (\<And>i. i < length rs \<Longrightarrow> view_ok (ks ! i) \<and> view_bits (ks ! i) = string_bits (record_key (rs ! i)) \<and> record_ok p (rs ! i) \<and>
      retained_limit_bits (rs ! i) = None \<and> bit_size (record_value (rs ! i)) = 0) \<Longrightarrow>
    sorted_after (if fs = [] then None else Some (prev_key fs (length fs))) rs \<Longrightarrow>
    length fs + length rs = length ceilings \<Longrightarrow>
    F = front_code p (Some 0) ceilings 0 rs anchor fs \<Longrightarrow> length (stream p (Some 0) F (length F)) \<le> u64_max - 7 \<Longrightarrow>
    \<exists>w'. append_all host p (zip ks (drop (length fs) ceilings)) w = (Inr (), w') \<and> writing p F w'"
proof (induction rs arbitrary: fs w ks anchor)
  case (Cons r rs)
  let ?i = "length fs" and ?c = "Some 0 :: nat option" let ?key = "string_bits (record_key r)"
  obtain k ks' where ks: "ks = k # ks'" using Cons.prems(2) by (cases ks) simp_all
  have k: "view_ok k" "view_bits k = ?key" "record_ok p r" "retained_limit_bits r = None" "bit_size (record_value r) = 0"
    using Cons.prems(3) [of 0] by (simp_all add: ks)
  have sz: "length ?key = bit_size (record_key r)" "bsize k = length ?key" "string_bits (record_value r) = []"
    using k by (simp_all add: record_ok_def length_string_bits flip: length_view_bits)
      (metis length_0_conv length_string_bits)
  have ks2: "bsize k \<le> u64_max - 7" "unit_multiple p (bsize k)" using k(3) sz by (simp_all add: record_ok_def string_ok_def)
  have ci: "?i < length ceilings" "ceilings \<noteq> []" using Cons.prems(5) by auto
  define f where "f = \<lparr>fr_kept = min (lcp (prev_key fs ?i) (view_bits k) div bits_per_unit p) (ceilings ! ?i), fr_key = view_bits k, fr_value = []\<rparr>"
  have choose: "choose_retained p (lcp (prev_key fs ?i) ?key) (retained_limit_bits r) (if ceilings = [] then None else Some (ceilings ! ?i)) 0
      (place p ?c fs ?i) anchor (length ?key div bits_per_unit p) = fr_kept f"
    using ci(2) k(2,4) by (simp add: choose_retained_def f_def)
  obtain anchor' where F: "F = front_code p ?c ceilings 0 rs anchor' (fs @ [f])"
    using Cons.prems(6) k(2) sz(3) unfolding front_code.simps choose Let_def by (simp add: f_def)
  obtain gs where gs: "F = (fs @ [f]) @ gs" using front_code_extends [of p ?c ceilings 0 rs anchor' "fs @ [f]"] F by auto
  have "stream p ?c (fs @ [f]) (Suc ?i) = stream p ?c F (Suc ?i)" unfolding gs by (rule stream_append [symmetric]) simp
  moreover have "Suc ?i \<le> length F" using gs by simp
  ultimately have fit: "length (stream p ?c (fs @ [f]) (Suc ?i)) \<le> u64_max - 7"
    using stream_prefix [of "Suc ?i" "length F" p ?c F] Cons.prems(7) by auto
  have order: "lex (prev_key fs ?i) (view_bits k) \<le> 0" if "fs \<noteq> []" using Cons.prems(4) that k(2) by simp
  obtain w1 where w1: "writer_append host p k (ceilings ! ?i) w = (Inr (), w1)" "writing p (fs @ [f]) w1"
    using writer_append_holds [OF p Cons.prems(1) k(1) ks2 order f_def fit] by blast
  have rest: "view_ok (ks' ! i) \<and> view_bits (ks' ! i) = string_bits (record_key (rs ! i)) \<and> record_ok p (rs ! i) \<and>
      retained_limit_bits (rs ! i) = None \<and> bit_size (record_value (rs ! i)) = 0" if "i < length rs" for i
    using Cons.prems(3) [of "Suc i"] that by (simp add: ks)
  have "\<exists>w'. append_all host p (zip ks' (drop (length (fs @ [f])) ceilings)) w1 = (Inr (), w') \<and> writing p F w'"
    using Cons.prems by (intro Cons.IH [OF w1(2) _ rest _ _ F]) (simp_all add: ks f_def k(2))
  moreover have "zip ks (drop ?i ceilings) = (k, ceilings ! ?i) # zip ks' (drop (Suc ?i) ceilings)"
    using ci(1) by (simp add: ks Cons_nth_drop_Suc [symmetric])
  ultimately show ?case using w1(1) by simp
qed auto

text \<open>A profile is determined by its frames.\<close>

lemma built_profile_unique:
  assumes "built_profile p role c F a" "built_profile p role c F b"
  shows "a = b"
proof -
  have "\<lparr>bytes = pa_bytes a, bit_size = length (stream p c F (length F))\<rparr> = \<lparr>bytes = pa_bytes b, bit_size = length (stream p c F (length F))\<rparr>"
    using assms by (intro string_ok_eq) (simp_all add: built_profile_def)
  then have "pa_bytes a = pa_bytes b" by simp
  moreover have "pa_offsets a = pa_offsets b" "pa_metadata a = pa_metadata b" using assms by (auto simp: built_profile_def)
  ultimately show ?thesis by (cases a; cases b) simp
qed

lemma writer_finish_holds:
  assumes p: "policy_ok p" and w: "writing p F w" and fit: "length (stream p (Some 0) F (length F)) < 2 ^ 57"
  shows "\<exists>a w'. writer_finish p w = (Inr a, w') \<and> built_profile p Borrowed (Some 0) F a \<and> bw_finished w'"
proof -
  let ?c = "Some 0 :: nat option" and ?n = "length F"
  have B: "0 < codec_block_size p" using p by (simp add: policy_ok_def)
  note wr = w [unfolded writing_def]
  have F: "frames_ok p ?c F" using wr by simp
  have size: "bit_size (bw_data w) = length (stream p ?c F ?n)" using wr by (simp flip: length_string_bits)
  have prev: "bit_size (bw_previous w) = length (prev_key F ?n)" using wr by (simp flip: length_string_bits)
  have pl: "bit_size (bw_data w) div bits_per_unit p = place p ?c F ?n" by (simp add: size place_def)
  have smp: "bw_offsets w @ [of_nat (place p ?c F ?n)] = samples p ?c F"
    using wr samples_sorted(3) [OF F fit B] by (simp add: residual_def)
  obtain offs where offs: "ef_build (samples p ?c F) = Inr offs"
    using ef_build_correct [OF samples_sorted(1,2) [OF F fit B]] by blast
  define a where "a = \<lparr>pa_bytes = bytes (bw_data w), pa_offsets = offs,
    pa_metadata = (initial_metadata p Borrowed)\<lparr>m_record_count := ?n, m_extent := place p ?c F ?n,
      m_terminal_key_units := length (prev_key F ?n) div bits_per_unit p\<rparr>\<rparr>"
  have "\<exists>w'. writer_finish p w = (Inr a, w') \<and> bw_finished w'"
    using wr offs smp unfolding writer_finish_def bindM_apply by (simp add: pl prev a_def)
  moreover have "built_profile p Borrowed ?c F a"
  proof -
    have "\<lparr>bytes = pa_bytes a, bit_size = length (stream p ?c F ?n)\<rparr> = bw_data w" using size by (simp add: a_def)
    then show ?thesis using wr offs fit unfolding built_profile_def by (simp add: a_def initial_metadata_def)
  qed
  ultimately show ?thesis by blast
qed

section \<open>Properties\<close>

text \<open>
  C27. The incremental writer is the batch encoder: keys appended one by one, each with its prefix
  ceiling, and finished give exactly the sections and metadata that the batch encoder gives for
  the same keys and ceilings, and the writer is then closed.
\<close>

theorem writer_equals_batch:
  assumes "policy_ok p" "records_ok p Borrowed records" "length keys = length records" "length ceilings = length records"
    and "\<And>i. i < length records \<Longrightarrow> view_ok (keys ! i) \<and> view_bits (keys ! i) = string_bits (record_key (records ! i)) \<and>
      retained_limit_bits (records ! i) = None"
    and "F = front_code p (Some 0) ceilings 0 records 0 []" "length (stream p (Some 0) F (length F)) < 2 ^ 57"
  shows "\<exists>a w. build_profile maker p Borrowed records ceilings 0 = Inr a \<and>
    bindM (append_all host p (zip keys ceilings)) (\<lambda>_. writer_finish p) new_borrowed_writer = (Inr a, w) \<and> bw_finished w"
proof -
  have c: "shared_width p Borrowed records = Some 0" by (simp add: shared_width_def)
  obtain a where a: "build_profile maker p Borrowed records ceilings 0 = Inr a" "built_profile p Borrowed (Some 0) F a"
    using build_profile_built [OF assms(1,2) _ _ c [symmetric] assms(6,7)] assms(4) by auto
  have w0: "writing p [] new_borrowed_writer"
    by (simp add: writing_def new_borrowed_writer_def frames_ok_def blocks_of_def)
  have r: "view_ok (keys ! i) \<and> view_bits (keys ! i) = string_bits (record_key (records ! i)) \<and> record_ok p (records ! i) \<and>
      retained_limit_bits (records ! i) = None \<and> bit_size (record_value (records ! i)) = 0" if "i < length records" for i
    using assms(2,5) that by (simp add: records_ok_def)
  obtain w where w: "append_all host p (zip keys ceilings) new_borrowed_writer = (Inr (), w)" "writing p F w"
    using append_all_holds [OF assms(1) w0 assms(3) r _ _ assms(6)] assms(2,4,7) by (auto simp: records_ok_def u64_max_def)
  obtain b w' where b: "writer_finish p w = (Inr b, w')" "built_profile p Borrowed (Some 0) F b" "bw_finished w'"
    using writer_finish_holds [OF assms(1) w(2) assms(7)] by blast
  have "b = a" by (rule built_profile_unique [OF b(2) a(2)])
  then show ?thesis using a(1) w(1) b by simp
qed

definition two_keys :: "profile_record list" where
  "two_keys = map (\<lambda>r. r\<lparr>record_value := empty_string\<rparr>) two_records"

lemma writer_equals_batch_witness:
  "\<exists>a w. build_profile False default_policy Borrowed two_keys [0, 1] 0 = Inr a \<and>
     bindM (append_all True default_policy [(\<lparr>storage = [97, 98], offset = 0, bsize = 16\<rparr>, 0),
       (\<lparr>storage = [97, 99, 1], offset = 0, bsize = 24\<rparr>, 1)]) (\<lambda>_. writer_finish default_policy) new_borrowed_writer = (Inr a, w)"
proof -
  let ?F = "front_code default_policy (Some 0) [0, 1] 0 two_keys 0 []"
  let ?keys = "[\<lparr>storage = [97, 98], offset = 0, bsize = 16\<rparr>, \<lparr>storage = [97, 99, 1], offset = 0, bsize = 24\<rparr>]"
  have ok: "records_ok default_policy Borrowed two_keys"
    using two_records_ok(1) by (simp add: records_ok_def two_keys_def two_records_def record_ok_def unit_multiple_def)
  have fit: "length (stream default_policy (Some 0) ?F (length ?F)) < 2 ^ 57"
    using byte_front_code_length [OF default_policy_facts(1) refl, of "Some 0" "[0, 1]" 0 two_keys]
    by (simp add: two_keys_def two_records_def string_bits_def)
  have keys: "view_ok (?keys ! i) \<and> view_bits (?keys ! i) = string_bits (record_key (two_keys ! i)) \<and>
      retained_limit_bits (two_keys ! i) = None" if "i < length two_keys" for i
  proof -
    have "i = 0 \<or> i = 1" using that by (auto simp: two_keys_def two_records_def)
    then show ?thesis by (auto simp: two_keys_def two_records_def view_ok_def view_bits_def string_bits_def)
  qed
  have l: "length ?keys = length two_keys" "length [0 :: nat, 1] = length two_keys" by (simp_all add: two_keys_def two_records_def)
  show ?thesis
    using writer_equals_batch [OF default_policies_ok(1) ok l keys refl fit, of False True] by auto
qed

end
