(* ===== verification/ProfileWalk.thy ===== *)
theory ProfileWalk
  imports ProfileWriter
begin

text \<open>
  The resumable cursors over a profile that holds frames: they stand on the records one after
  the other, their navigation cursor stays one block ahead, and the comparison they return on the
  way is the one of the two keys.
\<close>

section \<open>The comparison of consecutive keys\<close>

lemma inherit_compare:
  assumes "r \<le> length a"
  shows "lcp a (take r a @ s) = r + lcp (drop r a) s" "lex a (take r a @ s) = lex (drop r a) s"
proof -
  have "r \<le> lcp a a" using assms by simp
  note i = inherit_agreeing [OF this, of s]
  show "lcp a (take r a @ s) = r + lcp (drop r a) s" using i(1) by (simp add: lcp_commute)
  show "lex a (take r a @ s) = lex (drop r a) s" using i(2) by (metis lex_swap)
qed

lemma first_unit:
  assumes "length a = length b" "length a \<le> 64" "a \<noteq> b"
  shows "countl_zero (wbits a XOR wbits b) - (64 - length a) = lcp a b" "(if wbits a < wbits b then -1 else 1) = lex a b"
  using countl_zero_xor [of a b] lex_wbits [OF assms] assms by simp_all

lemma compare_step_spec:
  assumes s: "string_ok scratch" "unit_multiple p (bit_size scratch)"
    and r: "view_ok (suffix_view r)" "unit_multiple p (bsize (suffix_view r))" "retained r * bits_per_unit p \<le> bit_size scratch"
    and k: "k = take (retained r * bits_per_unit p) (string_bits scratch) @ view_bits (suffix_view r)"
  shows "compare_step host p scratch r = Inr \<lparr>common_bits = lcp (string_bits scratch) k, order = lex (string_bits scratch) k\<rparr>"
proof -
  let ?u = "bits_per_unit p" and ?P = "string_bits scratch" and ?S = "view_bits (suffix_view r)"
  define kept where "kept = retained r * ?u"
  have lp: "length ?P = bit_size scratch" by (rule length_string_bits [OF s(1)])
  have ls: "length ?S = bsize (suffix_view r)" by (rule length_view_bits [OF r(1)])
  have u: "?u \<le> 64" "0 < ?u" by (cases "policy_unit p") simp_all
  have mul: "profile_multiply (retained r) ?u = Inr kept"
    unfolding kept_def using r(3) s(1) unfolding string_ok_def by (intro multiply_units) linarith
  obtain v where v: "string_view scratch = Inr v" "view_ok v" "view_bits v = ?P" "bsize v = bit_size scratch"
    using string_view_ok [OF s(1)] by blast
  have "kept \<le> length ?P" using r(3) lp by (simp add: kept_def)
  note ic = inherit_compare [OF this, of ?S, folded kept_def, folded k [folded kept_def]]
  define A where "A = drop kept ?P"
  have la: "length A = bit_size scratch - kept" using lp by (simp add: A_def)
  show ?thesis
  proof (cases "kept = bit_size scratch \<or> bsize (suffix_view r) = 0")
    case True
    then have "compare_step host p scratch r = Inr \<lparr>common_bits = kept,
        order = (if kept \<noteq> bit_size scratch then 1 else if bsize (suffix_view r) = 0 then 0 else -1)\<rparr>"
      by (simp add: compare_step_def mul v(1,4))
    moreover have "lcp A ?S = 0" using True la ls by (cases A; cases ?S) auto
    moreover have "lex A ?S = (if kept \<noteq> bit_size scratch then 1 else if bsize (suffix_view r) = 0 then 0 else -1)"
      using True la ls r(3) by (cases A; cases ?S) (auto simp: kept_def)
    ultimately show ?thesis by (simp add: ic flip: A_def)
  next
    case False
    have ms: "unit_multiple p kept" by (simp add: kept_def unit_multiple_def)
    have room: "?u \<le> length A" "?u \<le> length ?S"
    proof -
      have "bit_size scratch - kept \<noteq> 0" using False r(3) by (simp add: kept_def)
      moreover have "(bit_size scratch - kept) mod ?u = 0"
        using s(2) ms by (auto simp: unit_multiple_iff simp flip: diff_mult_distrib)
      ultimately show "?u \<le> length A" unfolding la by (metis mod_less not_le_imp_less)
      show "?u \<le> length ?S" using r(2) False unfolding ls by (metis mod_less not_le_imp_less unit_multiple_def)
    qed
    define a b where "a = take ?u A" and "b = take ?u ?S"
    have lab: "length a = ?u" "length b = ?u" using room by (simp_all add: a_def b_def)
    have loads: "load_bits host v kept ?u = Inr (wbits a)" "load_bits host (suffix_view r) 0 ?u = Inr (wbits b)"
      using load_bits_view [OF v(2), of kept ?u host] load_bits_view [OF r(1), of 0 ?u host] room u(1) la ls v(3,4) r(3)
      by (simp_all add: a_def b_def A_def kept_def)
    have eq: "wbits a = wbits b \<longleftrightarrow> a = b" using wbits_eq_iff [of a b] lab u(1) by simp
    show ?thesis
    proof (cases "a = b")
      case True
      obtain w where w: "subview v kept (bsize v - kept) = Inr w" "view_ok w" "view_bits w = A"
        using subview_rest [OF v(2), of kept] r(3) v(3,4) by (auto simp: A_def kept_def)
      show ?thesis
        using False True w compare_common_bits_spec [OF w(2) r(1), of host]
        by (simp add: compare_step_def mul v(1,4) loads ic flip: A_def)
    next
      case ne: False
      have sp: "lcp A ?S = lcp a b" "lex A ?S = lex a b"
        using agree_split [of 0 A ?S ?u] ne room by (simp_all add: a_def b_def)
      have "wbits a \<noteq> wbits b" using ne eq by simp
      then show ?thesis
        using False first_unit [OF _ _ ne] lab u(1)
        by (simp add: compare_step_def mul v(1,4) loads ic sp flip: A_def)
    qed
  qed
qed

section \<open>Standing on a record\<close>

definition stands :: "bool \<Rightarrow> storage_policy \<Rightarrow> nat option \<Rightarrow> frame list \<Rightarrow> profile_view \<Rightarrow> nat \<Rightarrow> profile_cursor \<Rightarrow> bool" where
  "stands host p c fs v i s \<longleftrightarrow> pc_view s = v \<and> pc_ordinal s = i \<and> i \<le> length fs \<and>
     (i < length fs \<longrightarrow> walks host (samples p c fs) (pv_offsets v) (i div codec_block_size p + 1) (pc_offsets s) \<and>
       is_record p c fs i (pc_record s) \<and> in_range p v (pc_record s) \<and> string_ok (pc_scratch s) \<and>
       string_bits (pc_scratch s) = fr_key (fs ! i) \<and> pc_context s = length (fr_key (fs ! i)) div bits_per_unit p)"

lemma samples_nth:
  assumes "g \<le> blocks_of p (length fs)"
  shows "samples p c fs ! g = of_nat (residual p c fs (min (g * codec_block_size p) (length fs)))" "length (samples p c fs) = blocks_of p (length fs) + 1"
  using assms by (simp_all add: samples_def del: upt_Suc)

lemma cursor_offset_holds:
  assumes h: "holds host p c fs v" and w: "walks host (samples p c fs) (pv_offsets v) b s"
    and b: "b * codec_block_size p = i" "i < length fs"
  shows "\<exists>s'. cursor_offset host p v s b = Inr (place p c fs i, s') \<and> walks host (samples p c fs) (pv_offsets v) (Suc b) s'"
proof -
  let ?B = "codec_block_size p"
  have B: "0 < ?B" by (rule holdsD(8) [OF h])
  have e: "encodes host (pv_offsets v) (samples p c fs)" using h by (simp add: holds_def)
  have le: "b \<le> blocks_of p (length fs)"
  proof -
    have "b = i div ?B" using b(1) B by auto
    then show ?thesis using div_le_mono [of i "length fs" ?B] b(2) by (simp add: blocks_of_def)
  qed
  have "b < length (samples p c fs)" using samples_nth(2) [OF le, of c] le by simp
  then obtain s' where s': "cursor_next host s = (Inr (samples p c fs ! b), s')" "walks host (samples p c fs) (pv_offsets v) (Suc b) s'"
    using cursor_next_correct [OF e w] by auto
  have v: "samples p c fs ! b = of_nat (residual p c fs i)" using samples_nth(1) [OF le] b by (simp add: min_absorb1)
  have w: "i * value_or c 0 \<le> place p c fs i" by (rule residual_mono(2) [OF holdsD(2) [OF h] less_imp_le [OF b(2)]])
  have small: "place p c fs i < 2 ^ 64" "i < 2 ^ 64"
    using of_nat_place [OF h less_imp_le [OF b(2)]] residual_mono(3) [OF holdsD(2) [OF h] less_imp_le [OF b(2)]] by simp_all
  have rs: "residual p c fs i < 2 ^ 64" and iw: "i * value_or c 0 < 2 ^ 64" using w small(1) by (simp_all add: residual_def)
  then have "u64_add (unat (of_nat (residual p c fs i) :: u64)) (u64_mult (u64_mult b ?B) (value_or c 0)) = place p c fs i"
    unfolding u64_add_def u64_mult_def unat_of_nat_u64 [OF rs] b(1) mod_less [OF small(2)] mod_less [OF iw]
    using w small(1) by (simp add: residual_def)
  then show ?thesis using s' v holdsD(4) [OF h] by (simp add: cursor_offset_def)
qed

lemma block_of_next:
  fixes i B :: nat
  assumes "0 < B"
  shows "Suc i mod B = 0 \<Longrightarrow> Suc i = b * B \<Longrightarrow> i div B + 1 = b" "Suc i mod B \<noteq> 0 \<Longrightarrow> Suc i div B = i div B"
proof -
  show "i div B + 1 = b" if "Suc i = b * B"
  proof (cases b)
    case (Suc b')
    then have i: "i = b' * B + (B - 1)" using that assms by simp
    have "(b' * B + (B - 1)) div B = b'" by (rule div_nat_eqI) (use assms in \<open>simp_all add: mult.commute\<close>)
    then show ?thesis unfolding i by (simp add: Suc)
  qed (use that in simp)
  show "Suc i mod B \<noteq> 0 \<Longrightarrow> Suc i div B = i div B" by (simp add: div_Suc)
qed

text \<open>The record behind one that a navigation cursor is on, and where that leaves the cursor.\<close>

lemma cursor_next_record:
  assumes h: "holds host p c fs v" and r: "is_record p c fs i r" and i: "Suc i < length fs"
    and w: "walks host (samples p c fs) (pv_offsets v) (i div codec_block_size p + 1) offs"
  shows "\<exists>r' o'. next_record host p v r (Suc i) (cursor_offset host p v offs) = Inr (r', o') \<and>
    is_record p c fs (Suc i) r' \<and> in_range p v r' \<and>
    walks host (samples p c fs) (pv_offsets v) (Suc i div codec_block_size p + 1) (case o' of None \<Rightarrow> offs | Some o' \<Rightarrow> o')"
proof -
  let ?B = "codec_block_size p"
  have B: "0 < ?B" by (rule holdsD(8) [OF h])
  obtain o1 where o1: "\<And>b. Suc i = b * ?B \<Longrightarrow> cursor_offset host p v offs b = Inr (place p c fs (Suc i), o1)"
    "Suc i mod ?B = 0 \<Longrightarrow> walks host (samples p c fs) (pv_offsets v) (Suc (i div ?B + 1)) o1"
  proof (cases "Suc i mod ?B = 0")
    case True
    then have d: "Suc i = Suc i div ?B * ?B" by auto
    then have e: "(i div ?B + 1) * ?B = Suc i" unfolding block_of_next(1) [OF B True d] by (rule sym)
    obtain o1 where "cursor_offset host p v offs (i div ?B + 1) = Inr (place p c fs (Suc i), o1)"
      "walks host (samples p c fs) (pv_offsets v) (Suc (i div ?B + 1)) o1"
      using cursor_offset_holds [OF h w e i] by blast
    then show ?thesis using that block_of_next(1) [OF B True] by metis
  next
    case False
    show ?thesis by (rule that [of offs]) (use False in auto)
  qed
  obtain r' o' where r': "next_record host p v r (Suc i) (cursor_offset host p v offs) = Inr (r', o')"
    "is_record p c fs (Suc i) r'" "in_range p v r'" "o' = (if Suc i mod ?B = 0 then Some o1 else None)"
    using next_record_holds [OF h r i, of "cursor_offset host p v offs" o1] o1(1) by blast
  have "walks host (samples p c fs) (pv_offsets v) (Suc i div ?B + 1) (case o' of None \<Rightarrow> offs | Some o' \<Rightarrow> o')"
  proof (cases "Suc i mod ?B = 0")
    case True
    then have "i div ?B + 1 = Suc i div ?B" using block_of_next(1) [OF B True, of "Suc i div ?B"] by auto
    then show ?thesis using o1(2) True r'(4) by simp
  next
    case False
    then show ?thesis using block_of_next(2) [OF B False] w r'(4) by simp
  qed
  then show ?thesis using r'(1-3) by blast
qed

lemma advance_holds:
  assumes h: "holds host p c fs v" and s: "stands host p c fs v i s" and i: "i < length fs"
  shows "\<exists>s'. advance_profile_cursor host p compare s =
      (Inr (if compare \<and> Suc i < length fs then Some \<lparr>common_bits = lcp (fr_key (fs ! i)) (fr_key (fs ! Suc i)),
          order = lex (fr_key (fs ! i)) (fr_key (fs ! Suc i))\<rparr> else None), s') \<and>
    stands host p c fs v (Suc i) s'"
proof -
  let ?u = "bits_per_unit p" and ?B = "codec_block_size p"
  have B: "0 < ?B" by (rule holdsD(8) [OF h])
  note st = s [unfolded stands_def]
  have size: "pv_size (pc_view s) = length fs" using st holdsD(5) [OF h] by simp
  have here: "\<not> cursor_at_end s" using st i size by (simp add: cursor_at_end_def)
  show ?thesis
  proof (cases "Suc i < length fs")
    case False
    then have n: "length fs = Suc i" using i by simp
    have "m_terminal_key_units (pv_metadata v) = length (fr_key (fs ! i)) div ?u" using h n by (simp add: holds_def)
    then have "check_end v (pc_record s) = Inr ()" using st i holdsD(6) [OF h] n by (simp add: check_end_def is_record_def)
    then show ?thesis using here st i size n by (simp add: advance_profile_cursor_def stands_def)
  next
    case True
    have r: "is_record p c fs i (pc_record s)" and sc: "string_ok (pc_scratch s)" "string_bits (pc_scratch s) = prev_key fs (Suc i)"
      "pc_context s = length (prev_key fs (Suc i)) div ?u"
      and w: "walks host (samples p c fs) (pv_offsets v) (i div ?B + 1) (pc_offsets s)" using st i by simp_all
    obtain r' o' where r': "next_record host p v (pc_record s) (Suc i) (cursor_offset host p v (pc_offsets s)) = Inr (r', o')"
      "is_record p c fs (Suc i) r'" "in_range p v r'"
      "walks host (samples p c fs) (pv_offsets v) (Suc i div ?B + 1) (case o' of None \<Rightarrow> pc_offsets s | Some o' \<Rightarrow> o')"
      using cursor_next_record [OF h r True w] by blast
    have f: "frame_ok p c fs i" "frame_ok p c fs (Suc i)" using frames_okD [OF holdsD(2) [OF h]] i True by simp_all
    have kept: "retained r' * ?u \<le> bit_size (pc_scratch s)"
      using frame_units(5) [OF f(2)] r'(2) sc(2) length_string_bits [OF sc(1)] by (simp add: is_record_def)
    have key: "fr_key (fs ! Suc i) = take (retained r' * ?u) (string_bits (pc_scratch s)) @ view_bits (suffix_view r')"
      using frame_key [OF f(2)] r'(2) sc(2) by (simp add: is_record_def)
    have um: "unit_multiple p (bit_size (pc_scratch s))" "unit_multiple p (bsize (suffix_view r'))" "view_ok (suffix_view r')"
      using f(1) sc(2) length_string_bits [OF sc(1)] r'(3) by (simp_all add: frame_ok_def in_range_def unit_multiple_def)
    have cmp: "compare_step host p (pc_scratch s) r' = Inr \<lparr>common_bits = lcp (fr_key (fs ! i)) (fr_key (fs ! Suc i)),
        order = lex (fr_key (fs ! i)) (fr_key (fs ! Suc i))\<rparr>"
      using compare_step_spec [OF sc(1) um(1,3,2) kept key, of host] sc(2) by simp
    obtain t where t: "decode_into host p r' u64_max (pc_scratch s) (pc_context s) = Inr (t, length (fr_key (fs ! Suc i)) div ?u)"
      "string_ok t" "string_bits t = fr_key (fs ! Suc i)"
      using decode_into_holds [OF h True r'(2,3) sc(1,2)] sc(3) by auto
    define s' where "s' = s\<lparr>pc_scratch := t, pc_context := length (fr_key (fs ! Suc i)) div ?u, pc_record := r',
      pc_offsets := (case o' of None \<Rightarrow> pc_offsets s | Some o' \<Rightarrow> o'), pc_ordinal := Suc i\<rparr>"
    have "advance_profile_cursor host p compare s = (Inr (if compare \<and> Suc i < length fs then Some \<lparr>common_bits = lcp (fr_key (fs ! i)) (fr_key (fs ! Suc i)),
          order = lex (fr_key (fs ! i)) (fr_key (fs ! Suc i))\<rparr> else None), s')"
      using here size st True r'(1) cmp t(1) by (simp add: advance_profile_cursor_def s'_def)
    then show ?thesis using st True r'(2-4) t(2,3) by (simp add: stands_def s'_def)
  qed
qed

text \<open>A query between the key before an ordinal and the key there supplies the retained prefix.\<close>

lemma new_profile_cursor_holds:
  assumes h: "holds host p c fs v" and i: "i \<le> length fs"
    and q: "view_ok query" "i < length fs \<Longrightarrow> lex (prev_key fs i) (view_bits query) \<le> 0"
      "i < length fs \<Longrightarrow> lex (view_bits query) (fr_key (fs ! i)) \<le> 0"
  shows "\<exists>s. new_profile_cursor host p v i query = Inr s \<and> stands host p c fs v i s"
proof -
  let ?u = "bits_per_unit p" and ?B = "codec_block_size p"
  have e: "encodes host (pv_offsets v) (samples p c fs)" using h by (simp add: holds_def)
  have ls: "length (samples p c fs) = blocks_of p (length fs) + 1" by (simp add: samples_def)
  have size: "pv_size v = length fs" by (rule holdsD(5) [OF h])
  show ?thesis
  proof (cases "i < length fs")
    case False
    have "v_entry_count (pv_offsets v) = length (samples p c fs)" by (rule encodes_count [OF e])
    then obtain offs where "new_cursor host (pv_offsets v) (v_entry_count (pv_offsets v)) = Inr offs"
      using new_cursor_correct [OF e, of "length (samples p c fs)"] by auto
    then show ?thesis using False i size by (auto simp: new_profile_cursor_def cursor_at_end_def stands_def)
  next
    case True
    have f: "frame_ok p c fs i" by (rule frames_okD [OF holdsD(2) [OF h] True])
    have "i div ?B < length (samples p c fs)"
      using div_le_mono [of i "length fs" ?B] i ls by (simp add: blocks_of_def)
    then obtain offs o1 where o: "new_cursor host (pv_offsets v) (i div ?B) = Inr offs"
        "cursor_next host offs = (Inr (samples p c fs ! (i div ?B)), o1)" "walks host (samples p c fs) (pv_offsets v) (Suc (i div ?B)) o1"
      using new_cursor_correct [OF e, of "i div ?B"] cursor_next_correct [OF e] by (metis less_imp_le)
    obtain r where r: "encoded_at host p v i = Inr r" "is_record p c fs i r" "in_range p v r"
      using encoded_at_holds [OF h True] by blast
    define kept where "kept = retained r * ?u"
    have rk: "retained r = fr_kept (fs ! i)" using r(2) by (simp add: is_record_def)
    have "lcp (prev_key fs i) (fr_key (fs ! i)) \<le> lcp (view_bits query) (fr_key (fs ! i))"
      using lcp_between [OF q(2,3)] True by simp
    then have kq: "kept \<le> lcp (view_bits query) (fr_key (fs ! i))" using f by (simp add: frame_ok_def kept_def rk)
    note ag = take_lcp_split [OF kq]
    have lq: "kept \<le> bsize query" using ag(2) length_view_bits [OF q(1)] by simp
    have kb: "kept \<le> u64_max - 7"
    proof -
      have "retained r \<le> m_extent (pv_metadata v)" using r(3) by (auto simp: in_range_def)
      then have "kept \<le> m_extent (pv_metadata v) * ?u" unfolding kept_def by (rule mult_le_mono1)
      then show ?thesis using admittedD(5) [OF holdsD(1) [OF h]] by linarith
    qed
    have ub: "unit_bits p (retained r) = kept" using kb unfolding unit_bits_def kept_def [symmetric] by (simp add: u64_max_def)
    have "\<exists>x. subview query 0 kept = Inr x" using lq by (simp add: subview_def)
    then obtain x where x: "subview query 0 kept = Inr x" by blast
    note xv = subview_Inr [OF q(1) x]
    obtain s where s: "copy_string host x = Inr s" "string_ok s" "string_bits s = view_bits x" "bit_size s = kept"
      using copy_string_ok [OF xv(1), of host] xv(3) kb by auto
    have "retained r \<le> u64_max" using r(3) admittedD(6) [OF holdsD(1) [OF h]] by (auto simp: in_range_def)
    then have sz: "bit_size s = min (retained r) u64_max * ?u" using s(4) by (simp add: min_absorb1 kept_def)
    obtain t where t: "decode_into host p r u64_max s (retained r) = Inr (t, key_units r)" "string_ok t"
      "string_bits t = take (min (key_units r) u64_max * ?u) (take kept (string_bits s) @ view_bits (suffix_view r))"
      using decode_into_ok [OF holdsD(1) [OF h] r(3) s(2) sz order_refl, of host] unfolding kept_def by blast
    have ku: "key_units r = length (fr_key (fs ! i)) div ?u" using r(2) by (simp add: is_record_def)
    have "key_units r \<le> u64_max" using r(3) admittedD(6) [OF holdsD(1) [OF h]] by (auto simp: in_range_def)
    moreover have "take kept (string_bits s) @ view_bits (suffix_view r) = fr_key (fs ! i)"
    proof -
      have "take kept (string_bits s) = take kept (fr_key (fs ! i))" using s(3) xv(2) ag(1) by simp
      then show ?thesis using r(2) by (simp add: is_record_def kept_def rk)
    qed
    ultimately have tb: "string_bits t = fr_key (fs ! i)"
      using frame_units(1) [OF f] unfolding t(3) by (simp add: min_absorb1 ku)
    define c' where "c' = \<lparr>pc_view = v, pc_offsets = o1, pc_scratch = t, pc_context = key_units r, pc_record = r, pc_ordinal = i\<rparr>"
    have "new_profile_cursor host p v i query = Inr c'"
      using True size o(1,2) r(1) ub lq x s(1) t(1)
      by (simp add: new_profile_cursor_def cursor_at_end_def Let_def c'_def)
    moreover have "stands host p c fs v i c'" using True o(3) r(2,3) t(2) tb ku by (simp add: stands_def c'_def)
    ultimately show ?thesis by blast
  qed
qed

text \<open>What a cursor shows on its way to the end.\<close>

fun cursor_items :: "bool \<Rightarrow> storage_policy \<Rightarrow> nat \<Rightarrow>
    (profile_cursor, ((nat \<times> bool list \<times> bool list) \<times> bit_comparison option) list) op" where
  "cursor_items host p 0 = returnM []"
| "cursor_items host p (Suc n) = bindM (liftM cursor_peek) (\<lambda>it. bindM (advance_comparison host p) (\<lambda>r.
     bindM (cursor_items host p n) (\<lambda>xs.
     returnM (((item_ordinal it, view_bits (prefix_view (item_key it)), view_bits (item_value it)), r) # xs))))"

definition step_items :: "(bool list \<times> bool list) list \<Rightarrow> nat \<Rightarrow> ((nat \<times> bool list \<times> bool list) \<times> bit_comparison option) list" where
  "step_items xs i = map (\<lambda>j. ((j, xs ! j), if Suc j < length xs
     then Some \<lparr>common_bits = lcp (fst (xs ! j)) (fst (xs ! Suc j)), order = lex (fst (xs ! j)) (fst (xs ! Suc j))\<rparr> else None)) [i..<length xs]"

lemma cursor_peek_holds:
  assumes "holds host p c fs v" "stands host p c fs v i s" "i < length fs"
  shows "\<exists>it. cursor_peek s = Inr it \<and> item_ordinal it = i \<and> view_bits (prefix_view (item_key it)) = fr_key (fs ! i) \<and>
    view_bits (item_value it) = fr_value (fs ! i)"
proof -
  obtain w where "string_view (pc_scratch s) = Inr w" "view_bits w = fr_key (fs ! i)"
    using string_view_ok [of "pc_scratch s"] assms(2,3) by (auto simp: stands_def)
  then show ?thesis
    using assms holdsD(5) [OF assms(1)] by (simp add: cursor_peek_def cursor_at_end_def stands_def is_record_def)
qed

lemma cursor_items_holds:
  assumes h: "holds host p c fs v"
  shows "stands host p c fs v i s \<Longrightarrow> i + n = length fs \<Longrightarrow>
    \<exists>s'. cursor_items host p n s = (Inr (step_items (contents fs) i), s') \<and> stands host p c fs v (length fs) s'"
proof (induction n arbitrary: i s)
  case 0
  then show ?case by (simp add: step_items_def contents_def)
next
  case (Suc n)
  then have i: "i < length fs" by simp
  obtain it where it: "cursor_peek s = Inr it" "item_ordinal it = i" "view_bits (prefix_view (item_key it)) = fr_key (fs ! i)"
    "view_bits (item_value it) = fr_value (fs ! i)" using cursor_peek_holds [OF h Suc.prems(1) i] by blast
  let ?r = "if Suc i < length fs then Some \<lparr>common_bits = lcp (fr_key (fs ! i)) (fr_key (fs ! Suc i)),
          order = lex (fr_key (fs ! i)) (fr_key (fs ! Suc i))\<rparr> else None"
  obtain s1 where s1: "advance_comparison host p s = (Inr ?r, s1)" "stands host p c fs v (Suc i) s1"
    using advance_holds [OF h Suc.prems(1) i, of True] by (auto simp: advance_comparison_def)
  obtain s2 where s2: "cursor_items host p n s1 = (Inr (step_items (contents fs) (Suc i)), s2)" "stands host p c fs v (length fs) s2"
    using Suc.IH [OF s1(2)] Suc.prems(2) by auto
  have "step_items (contents fs) i = ((i, fr_key (fs ! i), fr_value (fs ! i)), ?r) # step_items (contents fs) (Suc i)"
    using i unfolding step_items_def by (subst upt_conv_Cons) (simp_all add: contents_def)
  then show ?case using it s1(1) s2 by (simp add: bindM_apply split del: if_split)
qed

section \<open>Properties\<close>

text \<open>
  C6. The cursor walks the records. Started at any ordinal of built sections with a query between
  the key before that ordinal and the key there (any query at the end), it shows the remaining
  records in order; each step returns the exact common prefix and order of the two keys it
  passes, the last one nothing; and at the end peeking, advancing and reading the prefix throw
  \<open>out_of_range\<close> and leave the cursor as it is.
\<close>

theorem cursor_walks_records:
  assumes "policy_ok p" "records_ok p role records" "ceilings = [] \<or> length ceilings = length records" "rf = 0 \<or> rf \<ge> 3"
    and "F = front_code p (shared_width p role records) ceilings rf records 0 []"
    and "length (stream p (shared_width p role records) F (length F)) < 2 ^ 57" "little = host \<or> little"
    and "build_profile maker p role records ceilings rf = Inr a" "array_view_in little p role a = Inr v"
    and "keys = map (\<lambda>r. (string_bits (record_key r), string_bits (record_value r))) records" "i \<le> length records"
    and "view_ok query" "i < length records \<Longrightarrow> lex (view_bits query) (fst (keys ! i)) \<le> 0"
      "i < length records \<Longrightarrow> 0 < i \<Longrightarrow> lex (fst (keys ! (i - 1))) (view_bits query) \<le> 0"
  shows "\<exists>s s'. new_profile_cursor host p v i query = Inr s \<and>
    cursor_items host p (length records - i) s = (Inr (step_items keys i), s') \<and>
    cursor_peek s' = Inl (Out_of_range ''profile cursor at end'') \<and>
    cursor_retained_bits p s' = Inl (Out_of_range ''profile cursor at end'') \<and>
    advance_comparison host p s' = (Inl (Out_of_range ''profile cursor at end''), s')"
proof -
  let ?c = "shared_width p role records"
  have b: "built_profile p role ?c F a" using build_profile_built [OF assms(1-4) refl assms(5,6), of maker] assms(8) by auto
  have h: "holds host p ?c F v" using array_view_holds [OF assms(1) b assms(7)] assms(9) by auto
  have cont: "contents F = keys" using front_code_extends [of p ?c ceilings rf records 0 "[]"] assms(5,10) by auto
  have len: "length F = length records" using arg_cong [OF cont, of length] assms(10) by (simp add: contents_def)
  have nth: "fr_key (F ! j) = fst (keys ! j)" if "j < length records" for j
    using that len unfolding cont [symmetric] by (simp add: contents_def)
  have before: "lex (prev_key F i) (view_bits query) \<le> 0" if "i < length F"
    using that assms(14) nth [of "i - 1"] len by (cases i; cases "view_bits query") auto
  have after: "lex (view_bits query) (fr_key (F ! i)) \<le> 0" if "i < length F"
    using that assms(13) nth [of i] len by simp
  obtain s where s: "new_profile_cursor host p v i query = Inr s" "stands host p ?c F v i s"
    using new_profile_cursor_holds [OF h _ assms(12) before after] assms(11) len by auto
  obtain s' where s': "cursor_items host p (length records - i) s = (Inr (step_items keys i), s')" "stands host p ?c F v (length F) s'"
    using cursor_items_holds [OF h s(2), of "length records - i"] assms(11) len cont by auto
  have "cursor_at_end s'" using s'(2) holdsD(5) [OF h] by (simp add: stands_def cursor_at_end_def)
  then show ?thesis
    using s(1) s'(1) by (simp add: cursor_peek_def cursor_retained_bits_def advance_comparison_def advance_profile_cursor_def)
qed

lemma cursor_walks_records_witness:
  "\<exists>a v s s'. build_profile True default_policy Native two_records [] 0 = Inr a \<and> array_view_in True default_policy Native a = Inr v \<and>
     start_profile_cursor False default_policy v = Inr s \<and>
     cursor_items False default_policy 2 s =
       (Inr [((0, string_bits \<lparr>bytes = [97, 98], bit_size = 16\<rparr>, string_bits \<lparr>bytes = [1], bit_size = 8\<rparr>), Some \<lparr>common_bits = 15, order = -1\<rparr>),
             ((1, string_bits \<lparr>bytes = [97, 99, 1], bit_size = 24\<rparr>, []), None)], s')"
proof -
  let ?keys = "map (\<lambda>r. (string_bits (record_key r), string_bits (record_value r))) two_records"
  let ?q = "\<lparr>storage = [], offset = 0, bsize = 0\<rparr>"
  note two = two_records_ok(2) [OF refl, of "shared_width default_policy Native two_records"]
  obtain a where a: "build_profile True default_policy Native two_records [] 0 = Inr a" "built_profile default_policy Native
      (shared_width default_policy Native two_records) (front_code default_policy (shared_width default_policy Native two_records) [] 0 two_records 0 []) a"
    using build_profile_built [OF default_policies_ok(1) two_records_ok(1) _ _ refl refl two] by auto
  obtain v where v: "array_view_in True default_policy Native a = Inr v"
    using array_view_holds [OF default_policies_ok(1) a(2), of True False] by auto
  have q: "view_ok ?q" "lex (view_bits ?q) (fst (?keys ! 0)) \<le> 0"
    by (simp_all add: view_ok_def view_bits_def two_records_def string_bits_def byte_bits_def bits_of_def upt_rec)
  have "step_items ?keys 0 = [((0, string_bits \<lparr>bytes = [97, 98], bit_size = 16\<rparr>, string_bits \<lparr>bytes = [1], bit_size = 8\<rparr>), Some \<lparr>common_bits = 15, order = -1\<rparr>),
      ((1, string_bits \<lparr>bytes = [97, 99, 1], bit_size = 24\<rparr>, []), None)]"
    by (simp add: step_items_def two_records_def string_bits_def byte_bits_def bits_of_def upt_rec)
  moreover have "length two_records = 2" by (simp add: two_records_def)
  ultimately show ?thesis
    using cursor_walks_records [OF default_policies_ok(1) two_records_ok(1) _ _ refl two _ a(1) v refl _ q(1), of False 0] a(1) v q(2)
    by (auto simp: start_profile_cursor_def)
qed

end
