(* ===== verification/NativeWriter.thy ===== *)
theory NativeWriter
  imports ProfileWriter
begin

text \<open>
  The incremental writer of native profiles (\<open>native_writer.h\<close>): the framing of one record, with
  its fast path for byte profiles, and the checked writer on top of it that keeps the last key.
\<close>

section \<open>Framing\<close>

record native_output =
  no_data :: bit_string
  no_offsets :: "u64 list"
  no_common :: "nat option"
  no_count :: nat
  no_previous_units :: nat
  no_finished :: bool

definition new_native_output :: "storage_policy \<Rightarrow> nat option \<Rightarrow> native_output res" where
  "new_native_output p common =
     (if policy_value_width p \<noteq> None \<and> common \<noteq> policy_value_width p
      then Inl (Invalid_argument ''native writer width disagrees with fixed policy'')
      else bindE (case common of None \<Rightarrow> Inr 0 | Some w \<Rightarrow> profile_multiply w (bits_per_unit p)) (\<lambda>_.
        Inr \<lparr>no_data = empty_string, no_offsets = [], no_common = common, no_count = 0, no_previous_units = 0,
          no_finished = False\<rparr>))"

text \<open>Moving from an output leaves a finished one.\<close>

definition move_output :: "native_output \<Rightarrow> native_output \<times> native_output" where
  "move_output other = (other, other\<lparr>no_data := empty_string, no_offsets := [], no_count := 0, no_previous_units := 0,
     no_finished := True\<rparr>)"

definition output_active :: "native_output \<Rightarrow> unit res" where
  "output_active w = (if no_finished w then Inl (Logic_error ''native profile writer is finished'') else Inr ())"

text \<open>The counts of a byte frame, in the order they stand in the control buffer.\<close>

function count_bytes :: "u64 \<Rightarrow> u8 list" where
  "count_bytes n =
     (if n \<ge> 128 then ucast ((n AND 127) OR 128) # count_bytes (drop_bit 7 n) else [ucast n])"
  by auto
termination by (relation "measure unat") (auto simp: drop_bit_7_less)

declare count_bytes.simps [simp del]

definition copy_unchecked :: "bool \<Rightarrow> bit_string \<Rightarrow> nat \<Rightarrow> bit_view \<Rightarrow> bit_string res" where
  "copy_unchecked host target first source =
     (let n = length (bytes target) in
      bindE (copy_bits host (bytes target @ storage source) 0 first
        \<lparr>address = n, extent = length (storage source), moffset = offset source, msize = bsize source\<rparr>)
      (\<lambda>mem. Inr (target\<lparr>bytes := take n mem\<rparr>)))"

definition store_control :: "bit_string \<Rightarrow> nat \<Rightarrow> u8 list \<Rightarrow> bit_string res" where
  "store_control target at control =
     (if at + length control > length (bytes target) then Inl (Undefined ''control bytes'')
      else Inr (target\<lparr>bytes := take at (bytes target) @ control @ drop (at + length control) (bytes target)\<rparr>))"

definition byte_frame ::
  "bool \<Rightarrow> bool \<Rightarrow> u64 \<Rightarrow> nat \<Rightarrow> nat option \<Rightarrow> bit_view \<Rightarrow> bit_view \<Rightarrow> bit_string \<Rightarrow> bit_string res" where
  "byte_frame host block prefix_count literal_units common literal val data =
     (let control = count_bytes prefix_count @ count_bytes (of_nat literal_units) @
            (if common = None then count_bytes (of_nat (bsize val div 8)) else []);
          control_bytes = length control; saved_bits = bit_size data in
      if control_bytes > 30 then Inl (Undefined ''control buffer'')
      else bindE (profile_add (bsize literal) (bsize val)) (\<lambda>payload_bits.
        bindE (profile_add (control_bytes * 8) payload_bits) (\<lambda>frame_bits.
        bindE (profile_add saved_bits frame_bits) (\<lambda>n.
        bindE (resize_string data n) (\<lambda>data.
        bindE (store_control data (saved_bits div 8) control) (\<lambda>data.
        let at = saved_bits + control_bytes * 8 in
        bindE (copy_unchecked host data at literal) (\<lambda>data.
        copy_unchecked host data (at + bsize literal) val)))))))"

definition bit_frame ::
  "bool \<Rightarrow> storage_policy \<Rightarrow> bool \<Rightarrow> u64 \<Rightarrow> nat \<Rightarrow> nat option \<Rightarrow> bit_view \<Rightarrow> bit_view \<Rightarrow> bit_string \<Rightarrow> bit_string res" where
  "bit_frame host p block prefix_count literal_units common literal val data =
     bindE (if block then write_count host p data prefix_count else write_backspace host p data prefix_count) (\<lambda>data.
     bindE (write_count host p data (of_nat literal_units)) (\<lambda>data.
     bindE (if common = None then write_count host p data (of_nat (bsize val div bits_per_unit p)) else Inr data) (\<lambda>data.
     bindE (append_view host False data literal) (\<lambda>data. append_view host False data val))))"

text \<open>
  The frame goes into local copies of the stream and the offsets: the code's handler cuts both
  back to their old sizes when any of the writes throws.
\<close>

definition frame_output ::
  "bool \<Rightarrow> storage_policy \<Rightarrow> nat \<Rightarrow> bit_view \<Rightarrow> bit_view \<Rightarrow> native_output \<Rightarrow> (bit_string \<times> u64 list) res" where
  "frame_output host p kept literal val w =
     (let literal_units = bsize literal div bits_per_unit p; block = (no_count w mod codec_block_size p = 0);
          prefix_count = (if block then of_nat kept else of_nat (no_previous_units w - kept)) in
      bindE (if block then
          bindE (profile_multiply (no_count w) (value_or (no_common w) 0)) (\<lambda>stride.
            Inr (no_offsets w @ [of_nat (bit_size (no_data w) div bits_per_unit p) - of_nat stride]))
        else Inr (no_offsets w)) (\<lambda>offsets.
      bindE (if policy_unit p = Byte
          then byte_frame host block prefix_count literal_units (no_common w) literal val (no_data w)
          else bit_frame host p block prefix_count literal_units (no_common w) literal val (no_data w)) (\<lambda>data.
      Inr (data, offsets))))"

definition output_append ::
  "bool \<Rightarrow> storage_policy \<Rightarrow> nat \<Rightarrow> bit_view \<Rightarrow> bit_view \<Rightarrow> (native_output, unit) op" where
  "output_append host p kept literal val =
     bindM (liftM output_active) (\<lambda>_.
     if \<not> unit_multiple p (bsize literal) \<or> \<not> unit_multiple p (bsize val)
     then raiseM (Invalid_argument ''native writer record length disagrees with policy units'')
     else bindM (getM (\<lambda>w. w)) (\<lambda>w.
       if no_common w \<noteq> None \<and> no_common w \<noteq> Some (bsize val div bits_per_unit p)
       then raiseM (Invalid_argument ''native writer value disagrees with common width'')
       else if kept > no_previous_units w \<or> no_count w \<noteq> 0 \<and> bsize literal = 0
       then raiseM (Invalid_argument ''native writer invalid known prefix'')
       else bindM (liftM (\<lambda>w. profile_add (no_count w) 1)) (\<lambda>next_count.
         bindM (liftM (frame_output host p kept literal val)) (\<lambda>(data, offsets).
         modifyM (\<lambda>w. w\<lparr>no_data := data, no_offsets := offsets,
           no_previous_units := u64_add kept (bsize literal div bits_per_unit p), no_count := next_count\<rparr>)))))"

definition output_finish :: "storage_policy \<Rightarrow> (native_output, profile_array) op" where
  "output_finish p =
     bindM (liftM output_active) (\<lambda>_.
     bindM (getM (\<lambda>w. bit_size (no_data w) div bits_per_unit p)) (\<lambda>extent.
     bindM (liftM (\<lambda>w. profile_multiply (no_count w) (value_or (no_common w) 0))) (\<lambda>stride.
     bindM (liftM (\<lambda>w. ef_build (no_offsets w @ [of_nat extent - of_nat stride]))) (\<lambda>offsets.
     bindM (getM (\<lambda>w. \<lparr>pa_bytes = bytes (no_data w), pa_offsets = offsets,
       pa_metadata = (initial_metadata p Native)\<lparr>m_common_value_width := no_common w, m_record_count := no_count w,
         m_extent := extent, m_terminal_key_units := no_previous_units w\<rparr>\<rparr>)) (\<lambda>result.
     bindM (modifyM (\<lambda>w. w\<lparr>no_data := empty_string, no_offsets := [], no_finished := True\<rparr>)) (\<lambda>_.
     returnM result))))))"

section \<open>The checked writer\<close>

record native_writer =
  nw_output :: native_output
  nw_previous :: bit_string

definition new_native_writer :: "storage_policy \<Rightarrow> nat option \<Rightarrow> native_writer res" where
  "new_native_writer p common =
     bindE (new_native_output p common) (\<lambda>w. Inr \<lparr>nw_output = w, nw_previous = empty_string\<rparr>)"

definition move_native_writer :: "native_writer \<Rightarrow> native_writer \<times> native_writer" where
  "move_native_writer other = (case move_output (nw_output other) of (w, w') \<Rightarrow>
     (\<lparr>nw_output = w, nw_previous = nw_previous other\<rparr>, \<lparr>nw_output = w', nw_previous = empty_string\<rparr>))"

definition on_output :: "(native_output, 'a) op \<Rightarrow> (native_writer, 'a) op" where
  "on_output m = (\<lambda>w. case m (nw_output w) of (r, w') \<Rightarrow> (r, w\<lparr>nw_output := w'\<rparr>))"

definition native_append ::
  "bool \<Rightarrow> storage_policy \<Rightarrow> bit_view \<Rightarrow> bit_view \<Rightarrow> nat option \<Rightarrow> (native_writer, unit) op" where
  "native_append host p key val retained_limit =
     bindM (on_output (liftM output_active)) (\<lambda>_.
     if \<not> unit_multiple p (bsize key) \<or> \<not> unit_multiple p (bsize val)
     then raiseM (Invalid_argument ''native writer record length disagrees with policy units'')
     else bindM (getM (\<lambda>w. no_common (nw_output w))) (\<lambda>common.
       if common \<noteq> None \<and> common \<noteq> Some (bsize val div bits_per_unit p)
       then raiseM (Invalid_argument ''native writer value disagrees with common width'')
       else bindM (liftM (\<lambda>w. bindE (string_view (nw_previous w)) (\<lambda>previous. compare_common_bits host previous key))) (\<lambda>comparison.
         bindM (getM (\<lambda>w. no_count (nw_output w))) (\<lambda>n.
         if n \<noteq> 0 \<and> order comparison \<ge> 0 then raiseM (Invalid_argument ''native writer keys must be strictly increasing'')
         else
           let kept = min (common_bits comparison) (case retained_limit of None \<Rightarrow> common_bits comparison | Some l \<Rightarrow> l)
                 div bits_per_unit p;
               kept_bits = kept * bits_per_unit p in
           if byte_count (bsize key) > vector_max then raiseM (Length_error ''profile bit string too large'')
           else bindM (liftM (\<lambda>_. subview key kept_bits (bsize key - kept_bits))) (\<lambda>literal.
             bindM (on_output (output_append host p kept literal val)) (\<lambda>_.
             bindM (liftM (\<lambda>w. resize_string (nw_previous w) (bsize key))) (\<lambda>previous.
             bindM (modifyM (\<lambda>w. w\<lparr>nw_previous := previous\<rparr>)) (\<lambda>_.
             bindM (liftM (\<lambda>w. copy_into host (nw_previous w) kept_bits literal)) (\<lambda>previous.
             modifyM (\<lambda>w. w\<lparr>nw_previous := previous\<rparr>))))))))))"

definition native_append_record :: "bool \<Rightarrow> storage_policy \<Rightarrow> profile_record \<Rightarrow> (native_writer, unit) op" where
  "native_append_record host p r =
     bindM (liftM (\<lambda>_. string_view (record_key r))) (\<lambda>key.
     bindM (liftM (\<lambda>_. string_view (record_value r))) (\<lambda>val.
     native_append host p key val (retained_limit_bits r)))"

definition native_finish :: "storage_policy \<Rightarrow> (native_writer, profile_array) op" where
  "native_finish p =
     bindM (on_output (output_finish p)) (\<lambda>result.
     bindM (modifyM (\<lambda>w. w\<lparr>nw_previous := empty_string\<rparr>)) (\<lambda>_. returnM result))"

section \<open>The framing writes the frame\<close>

lemma low_byte_count: "(ucast ((n AND 127) OR 128) :: u8) = of_nat (128 + unat n mod 128)" for n :: u64
proof -
  have "(ucast ((n AND 127) OR 128) :: u8) = ucast (ucast (n AND 127) OR 128 :: u32)"
    by (rule bit_word_eqI) (auto simp: bit_ucast_iff bit_or_iff)
  then show ?thesis using byte_group [of n] by simp
qed

lemma count_bytes_varint: "count_bytes n = varint (unat n)"
proof (induction n rule: count_bytes.induct)
  case (1 n)
  have d: "unat (drop_bit 7 n) = unat n div 128" unfolding unat_drop_bit_eq by (simp add: drop_bit_eq_div)
  show ?case
  proof (cases "n \<ge> 128")
    case True
    then have u: "128 \<le> unat n" by (simp add: word_le_nat_alt)
    have "ucast ((n AND 127) OR 128) = (of_nat (128 + unat n mod 128) :: u8)"
      using low_byte_count [of n] .
    then show ?thesis using 1 True u by (subst count_bytes.simps, subst varint.simps) (simp add: d)
  next
    case False
    then have "\<not> 128 \<le> unat n" by (simp add: word_le_nat_alt)
    then show ?thesis using False by (subst count_bytes.simps, subst varint.simps) (simp add: unsigned_ucast_eq)
  qed
qed

lemma count_bytes_length: "length (count_bytes n) \<le> 10"
proof -
  have "unat n < 2 ^ 64" using unsigned_less [of n, where 'a = nat] by simp
  then have "unat n < 128 ^ Suc 9" by (simp add: less_trans [of _ "2 ^ 64"])
  then show ?thesis using varint_groups [of "unat n" 9] by (simp add: count_bytes_varint)
qed

lemma store_control_splice:
  assumes "string_ok s" "8 * (at + length cs) \<le> bit_size s"
  shows "\<exists>t. store_control s at cs = Inr t \<and> string_ok t \<and> bit_size t = bit_size s \<and>
    string_bits t = splice (string_bits s) (8 * at) (all_bits cs)"
proof -
  let ?bs = "take at (bytes s) @ cs @ drop (at + length cs) (bytes s)"
  have cap: "bit_size s \<le> 8 * length (bytes s)"
    using assms(1) byte_count_bounds(1) [of "bit_size s"] by (simp add: string_ok_def)
  then have fit: "at + length cs \<le> length (bytes s)" using order_trans [OF assms(2) cap] by simp
  have d: "drop (8 * n) (all_bits bs) = all_bits (drop n bs)" for n and bs :: "u8 list"
    using take_all_bits [of n bs] append_take_drop_id [of n bs] all_bits_simps(3) [of "take n bs" "drop n bs"]
      append_take_drop_id [of "8 * n" "all_bits bs"] by (metis same_append_eq)
  have "all_bits ?bs = splice (all_bits (bytes s)) (8 * at) (all_bits cs)"
    unfolding splice_def using d [of "at + length cs" "bytes s"] take_all_bits [of at "bytes s"] by simp
  moreover have "length ?bs = length (bytes s)" using fit by simp
  ultimately show ?thesis
    using string_ok_write [OF assms(1), of ?bs "8 * at" "all_bits cs"] assms(2) fit by (auto simp: store_control_def)
qed

lemma copy_unchecked_into:
  "at + bsize v \<le> bit_size s \<Longrightarrow> copy_unchecked host s at v = copy_into host s at v"
  by (auto simp: copy_unchecked_def copy_into_def)

lemma mult_div_exact: "(n :: nat) mod k = 0 \<Longrightarrow> k * (n div k) = n"
  by auto

lemma byte_frame_holds:
  assumes d: "string_ok d" "bit_size d mod 8 = 0" and x: "view_ok x" and w: "view_ok w"
    and ctl: "ctl = varint (unat n) @ varint (unat (of_nat units :: u64)) @
      (if c = None then varint (unat (of_nat (bsize w div 8) :: u64)) else [])"
    and fit: "bit_size d + 8 * length ctl + bsize x + bsize w \<le> u64_max - 7"
  shows "\<exists>t. byte_frame host block n units c x w d = Inr t \<and> string_ok t \<and>
    string_bits t = string_bits d @ all_bits ctl @ view_bits x @ view_bits w"
proof -
  let ?n = "length ctl" let ?total = "bit_size d + (?n * 8 + (bsize x + bsize w))"
  have ctl': "count_bytes n @ count_bytes (of_nat units) @ (if c = None then count_bytes (of_nat (bsize w div 8)) else []) = ctl"
    by (simp add: ctl count_bytes_varint)
  have short: "\<not> ?n > 30"
    unfolding ctl' [symmetric] using count_bytes_length [of n] count_bytes_length [of "of_nat units"]
      count_bytes_length [of "of_nat (bsize w div 8)"] by simp
  have add: "profile_add (bsize x) (bsize w) = Inr (bsize x + bsize w)"
    "profile_add (?n * 8) (bsize x + bsize w) = Inr (?n * 8 + (bsize x + bsize w))"
    "profile_add (bit_size d) (?n * 8 + (bsize x + bsize w)) = Inr ?total"
    using fit by (simp_all add: profile_add_def u64_max_def)
  have ld: "length (string_bits d) = bit_size d" by (rule length_string_bits [OF d(1)])
  have lx: "length (view_bits x) = bsize x" "length (view_bits w) = bsize w" using x w by (simp_all add: length_view_bits)
  obtain a where a: "resize_string d ?total = Inr a" "string_ok a" "bit_size a = ?total"
    "string_bits a = string_bits d @ replicate (?total - bit_size d) False"
    using grow_string [OF d(1), of ?total] fit by (auto simp: algebra_simps)
  have at: "8 * (bit_size d div 8) = bit_size d" using d(2) by (rule mult_div_exact)
  obtain b where b: "store_control a (bit_size d div 8) ctl = Inr b" "string_ok b" "bit_size b = ?total"
    "string_bits b = splice (string_bits a) (bit_size d) (all_bits ctl)"
    using store_control_splice [OF a(2), of "bit_size d div 8" ctl] at a(3) by (auto simp: distrib_left)
  obtain e where e: "copy_unchecked host b (bit_size d + ?n * 8) x = Inr e" "string_ok e" "bit_size e = ?total"
    "string_bits e = splice (string_bits b) (bit_size d + ?n * 8) (view_bits x)"
    using copy_into_splice [OF b(2) x, of "bit_size d + ?n * 8" host] copy_unchecked_into [of "bit_size d + ?n * 8" x b host] b(3)
    by auto
  obtain t where t: "copy_unchecked host e (bit_size d + ?n * 8 + bsize x) w = Inr t" "string_ok t"
    "string_bits t = splice (string_bits e) (bit_size d + ?n * 8 + bsize x) (view_bits w)"
    using copy_into_splice [OF e(2) w, of "bit_size d + ?n * 8 + bsize x" host]
      copy_unchecked_into [of "bit_size d + ?n * 8 + bsize x" w e host] e(3) by auto
  have "byte_frame host block n units c x w d = Inr t"
    unfolding byte_frame_def Let_def ctl' if_not_P [OF short] add a(1) b(1) e(1) t(1) bindE_simps ..
  moreover have "string_bits t = string_bits d @ all_bits ctl @ view_bits x @ view_bits w"
    unfolding t(3) e(4) b(4) a(4) splice_def using ld lx by simp
  ultimately show ?thesis using t(2) by blast
qed

section \<open>One record\<close>

definition outputting :: "storage_policy \<Rightarrow> nat option \<Rightarrow> frame list \<Rightarrow> native_output \<Rightarrow> bool" where
  "outputting p c fs w \<longleftrightarrow> frames_ok p c fs \<and> string_ok (no_data w) \<and> string_bits (no_data w) = stream p c fs (length fs) \<and>
     no_offsets w = map (\<lambda>g. of_nat (residual p c fs (g * codec_block_size p))) [0..<blocks_of p (length fs)] \<and>
     no_common w = c \<and> no_count w = length fs \<and> no_previous_units w = length (prev_key fs (length fs)) div bits_per_unit p \<and>
     \<not> no_finished w"

text \<open>Either framing appends the control and the payload of the frame.\<close>

lemma framing_holds:
  assumes p: "policy_ok p" and d: "string_ok d" "policy_unit p = Byte \<longrightarrow> bit_size d mod 8 = 0"
    and f: "frame_ok p c (fs @ [f]) (length fs)" and views: "view_ok x" "view_ok w"
      "view_bits x = drop (fr_kept f * bits_per_unit p) (fr_key f)" "view_bits w = fr_value f"
    and fit: "bit_size d + length (control_bits p (fs @ [f]) (length fs)) + length (payload_bits p c f) \<le> u64_max - 7"
    and block: "block = (length fs mod codec_block_size p = 0)"
    and n: "n = (if block then of_nat (fr_kept f) else of_nat (length (prev_key fs (length fs)) div bits_per_unit p - fr_kept f))"
  shows "\<exists>t. (if policy_unit p = Byte then byte_frame host block n (bsize x div bits_per_unit p) c x w d
      else bit_frame host p block n (bsize x div bits_per_unit p) c x w d) = Inr t \<and> string_ok t \<and>
    string_bits t = string_bits d @ control_bits p (fs @ [f]) (length fs) @ payload_bits p c f"
proof -
  let ?u = "bits_per_unit p" and ?i = "length fs" let ?n = "length (fr_key f) div ?u" and ?m = "length (prev_key fs ?i) div ?u"
  note units = frame_units [OF f, unfolded nth_append_length prev_key_append [OF order_refl]]
  have lx: "bsize x = (?n - fr_kept f) * ?u" "bsize w = length (fr_value f)"
    using length_view_bits [OF views(1)] length_view_bits [OF views(2)] units(1) by (simp_all add: views diff_mult_distrib)
  then have xu: "bsize x div ?u = ?n - fr_kept f" by simp
  have ctl: "control_bits p (fs @ [f]) ?i = (if block then count_code p n else backspace_code p n)"
    using block n by (simp add: control_bits_def prev_key_append)
  show ?thesis
  proof (cases "policy_unit p")
    case Byte
    then have u: "?u = 8" by (simp add: bits_per_unit_def unit_shift_def)
    define cs where "cs = varint (unat n) @ varint (unat (of_nat (bsize x div 8) :: u64)) @
      (if c = None then varint (unat (of_nat (bsize w div 8) :: u64)) else [])"
    have cb: "control_bits p (fs @ [f]) ?i = all_bits (varint (unat n))"
      using Byte unfolding ctl by (simp add: count_code_def backspace_code_def)
    have pb: "payload_bits p c f = all_bits (varint (unat (of_nat (bsize x div 8) :: u64)) @
        (if c = None then varint (unat (of_nat (bsize w div 8) :: u64)) else [])) @ view_bits x @ view_bits w"
      using Byte xu lx(2) unfolding u by (simp add: payload_bits_def count_code_def views u)
    have sum: "control_bits p (fs @ [f]) ?i @ payload_bits p c f = all_bits cs @ view_bits x @ view_bits w"
      unfolding cb pb cs_def by simp
    have "length (control_bits p (fs @ [f]) ?i @ payload_bits p c f) = 8 * length cs + bsize x + bsize w"
      unfolding sum using length_view_bits [OF views(1)] length_view_bits [OF views(2)] by simp
    then have "bit_size d + 8 * length cs + bsize x + bsize w \<le> u64_max - 7" using fit by simp
    then show ?thesis
      using byte_frame_holds [OF d(1) _ views(1,2) cs_def, of host block] d(2) Byte sum unfolding u by auto
  next
    case Bit
    have bb: "(of_nat ?m - of_nat (fr_kept f) :: u64) = of_nat (?m - fr_kept f)" "(of_nat ?n - of_nat (fr_kept f) :: u64) = of_nat (?n - fr_kept f)"
      using units(3,4) by (simp_all add: of_nat_diff)
    obtain t where t: "bindE (if ?i mod codec_block_size p = 0 then write_count host p d (of_nat (fr_kept f))
      else write_backspace host p d (of_nat ?m - of_nat (fr_kept f))) (\<lambda>data.
    bindE (write_count host p data (of_nat ?n - of_nat (fr_kept f))) (\<lambda>data.
    bindE (if c = None then write_count host p data (of_nat (length (fr_value f) div ?u)) else Inr data) (\<lambda>data.
    bindE (append_view host False data x) (\<lambda>data. append_view host False data w)))) = Inr t" "string_ok t"
      "string_bits t = string_bits d @ control_bits p (fs @ [f]) ?i @ payload_bits p c f"
      using write_frame [OF p d f views fit, of host] by blast
    have "bit_frame host p block n (bsize x div ?u) c x w d = Inr t"
      unfolding bit_frame_def t(1) [symmetric] bb xu lx(2) using block n by (cases block) simp_all
    then show ?thesis using t(2,3) Bit by auto
  qed
qed

lemma output_append_holds:
  assumes p: "policy_ok p" and w: "outputting p c fs w" and x: "view_ok x" "view_bits x = drop (fr_kept f * bits_per_unit p) (fr_key f)"
    and v: "view_ok v" "view_bits v = fr_value f" and f: "frame_ok p c (fs @ [f]) (length fs)"
    and more: "fs \<noteq> [] \<Longrightarrow> bsize x \<noteq> 0"
    and fit: "length (stream p c (fs @ [f]) (Suc (length fs))) \<le> u64_max - 7" "length (fr_key f) \<le> u64_max - 7"
  shows "\<exists>w'. output_append host p (fr_kept f) x v w = (Inr (), w') \<and> outputting p c (fs @ [f]) w'"
proof -
  let ?u = "bits_per_unit p" and ?i = "length fs" let ?n = "length (fr_key f) div ?u" and ?m = "length (prev_key fs ?i) div ?u"
  have B: "0 < codec_block_size p" using p by (simp add: policy_ok_def)
  note wr = w [unfolded outputting_def]
  note units = frame_units [OF f, unfolded nth_append_length prev_key_append [OF order_refl]]
  have lx: "bsize x = (?n - fr_kept f) * ?u" "bsize v = length (fr_value f)"
    using length_view_bits [OF x(1)] length_view_bits [OF v(1)] units(1) by (simp_all add: x v diff_mult_distrib)
  have fs': "frames_ok p c (fs @ [f])" using wr f by (simp add: frames_ok_append)
  have str: "stream p c (fs @ [f]) (Suc ?i) = stream p c fs ?i @ control_bits p (fs @ [f]) ?i @ payload_bits p c f"
    by (simp add: stream_Suc stream_append)
  have ld: "bit_size (no_data w) = length (stream p c fs ?i)" using wr by (simp flip: length_string_bits)
  have lu: "length (stream p c fs ?i) = place p c fs ?i * ?u" using wr by (intro stream_units) simp_all
  have al: "policy_unit p = Byte \<longrightarrow> bit_size (no_data w) mod 8 = 0" by (simp add: ld lu bits_per_unit_def unit_shift_def)
  have pl: "bit_size (no_data w) div ?u = place p c fs ?i" by (simp add: ld place_def)
  have "bit_size (no_data w) + length (control_bits p (fs @ [f]) ?i) + length (payload_bits p c f) \<le> u64_max - 7"
    using fit(1) unfolding str ld by simp
  note fitting = this
  have ds: "string_ok (no_data w)" "string_bits (no_data w) = stream p c fs ?i" using wr by simp_all
  obtain t where
    t: "(if policy_unit p = Byte then byte_frame host (?i mod codec_block_size p = 0)
        (if ?i mod codec_block_size p = 0 then of_nat (fr_kept f) else of_nat (?m - fr_kept f)) (bsize x div ?u) c x v (no_data w)
      else bit_frame host p (?i mod codec_block_size p = 0)
        (if ?i mod codec_block_size p = 0 then of_nat (fr_kept f) else of_nat (?m - fr_kept f)) (bsize x div ?u) c x v (no_data w)) = Inr t"
      "string_ok t" "string_bits t = stream p c (fs @ [f]) (Suc ?i)"
    using framing_holds [OF p ds(1) al f x(1) v(1) x(2) v(2) fitting refl refl, of host] unfolding ds(2) str by (elim exE conjE)
  have small: "place p c fs ?i < 2 ^ 64"
  proof -
    have "place p c fs ?i \<le> length (stream p c fs ?i)" by (rule place_length)
    also have "\<dots> \<le> u64_max - 7" using fit(1) unfolding str by simp
    finally show ?thesis by (simp add: u64_max_def)
  qed
  define offs where "offs = (map (\<lambda>g. of_nat (residual p c (fs @ [f]) (g * codec_block_size p))) [0..<blocks_of p (Suc ?i)] :: u64 list)"
  have old: "frames_ok p c fs" "no_offsets w = map (\<lambda>g. of_nat (residual p c fs (g * codec_block_size p))) [0..<blocks_of p ?i]"
    and fields: "no_count w = ?i" "no_common w = c" "no_previous_units w = ?m" "\<not> no_finished w" using wr by simp_all
  have out: "frame_output host p (fr_kept f) x v w = Inr (t, offs)"
    unfolding frame_output_def Let_def fields pl offsets_step [OF old B small, of _ f] t(1) bindE_simps offs_def ..
  have n: "Suc ?i \<le> u64_max - 7"
  proof -
    have "Suc ?i \<le> place p c (fs @ [f]) (Suc ?i)" using fs' by (intro residual_mono(3)) simp_all
    also have "\<dots> \<le> length (stream p c (fs @ [f]) (Suc ?i))" by (rule place_length)
    finally show ?thesis using fit(1) by simp
  qed
  then have add: "profile_add ?i 1 = Inr (Suc ?i)" by (simp add: profile_add_def)
  have width: "\<not> (c \<noteq> None \<and> c \<noteq> Some (bsize v div ?u))" using f lx(2) by (cases c) (auto simp: frame_ok_def)
  have pre: "\<not> (fr_kept f > ?m \<or> ?i \<noteq> 0 \<and> bsize x = 0)" using units(4) more by (cases "fs = []") auto
  have um: "\<not> (\<not> unit_multiple p (bsize x) \<or> \<not> unit_multiple p (bsize v))"
    using f lx by (auto simp: frame_ok_def unit_multiple_iff)
  have kn: "u64_add (fr_kept f) (bsize x div ?u) = ?n"
  proof -
    have e: "fr_kept f + bsize x div ?u = ?n" using units(3) lx(1) by simp
    have "?n \<le> length (fr_key f)" by simp
    also have "\<dots> \<le> u64_max" using fit(2) by simp
    finally have "fr_kept f + bsize x div ?u \<le> u64_max" unfolding e .
    from u64_add_small [OF this] e show ?thesis by simp
  qed
  define w' where "w' = w\<lparr>no_data := t, no_offsets := offs, no_previous_units := ?n, no_count := Suc ?i\<rparr>"
  have "output_append host p (fr_kept f) x v w = (Inr (), w')"
    using fields out add um width pre
    unfolding output_append_def bindM_apply by (simp add: output_active_def kn w'_def)
  moreover have "outputting p c (fs @ [f]) w'"
    using wr fs' t(2,3) by (simp add: outputting_def w'_def offs_def)
  ultimately show ?thesis by blast
qed

definition native_writing :: "storage_policy \<Rightarrow> nat option \<Rightarrow> frame list \<Rightarrow> native_writer \<Rightarrow> bool" where
  "native_writing p c fs w \<longleftrightarrow> outputting p c fs (nw_output w) \<and> string_ok (nw_previous w) \<and>
     string_bits (nw_previous w) = prev_key fs (length fs)"

lemma lex_prefix_ge: "lcp as bs = length bs \<Longrightarrow> lex as bs \<ge> 0"
  by (induction as bs rule: lex.induct) (auto split: if_splits)

lemma on_output_simps [simp]:
  "m (nw_output w) = (r, out) \<Longrightarrow> on_output m w = (r, w\<lparr>nw_output := out\<rparr>)"
  by (simp add: on_output_def)

text \<open>The logical predecessor after a frame: the kept units stay, the literal is copied behind them.\<close>

lemma native_append_holds:
  assumes p: "policy_ok p" and w: "native_writing p c fs w" and key: "view_ok key" "bsize key \<le> u64_max - 7" "unit_multiple p (bsize key)"
    and v: "view_ok v" "unit_multiple p (bsize v)" and c: "\<And>n. c = Some n \<Longrightarrow> bsize v = n * bits_per_unit p"
    and order: "fs \<noteq> [] \<Longrightarrow> lex (prev_key fs (length fs)) (view_bits key) < 0"
    and f: "f = \<lparr>fr_kept = min (lcp (prev_key fs (length fs)) (view_bits key))
        (case hint of None \<Rightarrow> lcp (prev_key fs (length fs)) (view_bits key) | Some l \<Rightarrow> l) div bits_per_unit p,
      fr_key = view_bits key, fr_value = view_bits v\<rparr>"
    and fit: "length (stream p c (fs @ [f]) (Suc (length fs))) \<le> u64_max - 7"
  shows "\<exists>w'. native_append host p key v hint w = (Inr (), w') \<and> native_writing p c (fs @ [f]) w'"
proof -
  let ?u = "bits_per_unit p" and ?i = "length fs" let ?l = "lcp (prev_key fs ?i) (view_bits key)"
  define kept where "kept = min ?l (case hint of None \<Rightarrow> ?l | Some l \<Rightarrow> l) div ?u"
  note wr = w [unfolded native_writing_def outputting_def]
  have lk: "length (view_bits key) = bsize key" "length (view_bits v) = bsize v" using key v by (simp_all add: length_view_bits)
  obtain prev where prev: "string_view (nw_previous w) = Inr prev" "view_ok prev" "view_bits prev = prev_key fs ?i"
    using string_view_ok [of "nw_previous w"] wr by auto
  have cmp: "compare_common_bits host prev key = Inr \<lparr>common_bits = ?l, order = lex (prev_key fs ?i) (view_bits key)\<rparr>"
    using compare_common_bits_spec [OF prev(2) key(1), of host] prev(3) by simp
  have ku: "kept * ?u \<le> ?l"
  proof -
    have "kept * ?u \<le> min ?l (case hint of None \<Rightarrow> ?l | Some l \<Rightarrow> l)" unfolding kept_def by (rule div_times_less_eq_dividend)
    then show ?thesis by simp
  qed
  have le: "kept * ?u \<le> bsize key" using ku lcp_le(2) [of "prev_key fs ?i" "view_bits key"] lk by linarith
  have fk: "fr_kept f = kept" "fr_key f = view_bits key" "fr_value f = view_bits v" by (simp_all add: f kept_def)
  have fo: "frame_ok p c (fs @ [f]) ?i"
    using key(3) v(2) lk ku c by (simp add: frame_ok_def fk prev_key_append)
  from replace_previous [OF _ key(1,2), of "nw_previous w" "kept * ?u" host] wr ku obtain a x t' where
    r: "resize_string (nw_previous w) (bsize key) = Inr a" "subview key (kept * ?u) (bsize key - kept * ?u) = Inr x"
      "copy_into host a (kept * ?u) x = Inr t'" "string_ok t'" "string_bits t' = view_bits key" by auto
  obtain x' where x': "subview key (kept * ?u) (bsize key - kept * ?u) = Inr x'" "view_ok x'" "view_bits x' = drop (kept * ?u) (view_bits key)"
      "bsize x' = bsize key - kept * ?u"
    using subview_rest [OF key(1) le] by blast
  then have x: "view_ok x" "view_bits x = drop (kept * ?u) (view_bits key)" "bsize x = bsize key - kept * ?u" using r(2) by simp_all
  have more: "bsize x \<noteq> 0" if "fs \<noteq> []"
  proof
    assume "bsize x = 0"
    then have "bsize key \<le> ?l" using x(3) ku by simp
    then have "lcp (prev_key fs ?i) (view_bits key) = length (view_bits key)" using lcp_le(2) [of "prev_key fs ?i" "view_bits key"] lk by simp
    then have "lex (prev_key fs ?i) (view_bits key) \<ge> 0" by (rule lex_prefix_ge)
    then show False using order [OF that] by simp
  qed
  obtain out where out: "output_append host p kept x v (nw_output w) = (Inr (), out)" "outputting p c (fs @ [f]) out"
    using output_append_holds [OF p _ x(1) _ v(1) _ fo more fit, of "nw_output w" host] w key(2) x(2) lk
    unfolding fk native_writing_def by auto
  have vm: "\<not> byte_count (bsize key) > vector_max"
    using key(2) byte_count_bounds(2) [of "bsize key"] by (simp add: vector_max_def u64_max_def)
  define w' where "w' = w\<lparr>nw_output := out, nw_previous := t'\<rparr>"
  have ordered: "\<not> (?i \<noteq> 0 \<and> lex (prev_key fs ?i) (view_bits key) \<ge> 0)" using order by auto
  have width: "\<not> (c \<noteq> None \<and> c \<noteq> Some (bsize v div ?u))" using c by (cases c) auto
  have fields: "no_common (nw_output w) = c" "no_count (nw_output w) = ?i" "output_active (nw_output w) = Inr ()"
    using wr by (simp_all add: output_active_def)
  have um: "\<not> (\<not> unit_multiple p (bsize key) \<or> \<not> unit_multiple p (bsize v))" using key(3) v(2) by simp
  have same: "w\<lparr>nw_output := nw_output w\<rparr> = w" by simp
  have "native_append host p key v hint w = (Inr (), w')"
    unfolding native_append_def bindM_apply
    using fields prev(1) cmp ordered width um vm r(1-3) out(1)
    by (simp add: on_output_def Let_def kept_def [symmetric] w'_def bindM_apply cong: option.case_cong)
  moreover have "native_writing p c (fs @ [f]) w'"
    using out(2) r(4,5) by (simp add: native_writing_def w'_def fk)
  ultimately show ?thesis by blast
qed

section \<open>Whole profiles\<close>

fun append_records :: "bool \<Rightarrow> storage_policy \<Rightarrow> profile_record list \<Rightarrow> (native_writer, unit) op" where
  "append_records host p [] = returnM ()"
| "append_records host p (r # rs) = bindM (native_append_record host p r) (\<lambda>_. append_records host p rs)"

fun increasing_after :: "bool list option \<Rightarrow> profile_record list \<Rightarrow> bool" where
  "increasing_after prev [] = True"
| "increasing_after prev (r # rs) \<longleftrightarrow> (\<forall>k. prev = Some k \<longrightarrow> lex k (string_bits (record_key r)) < 0) \<and>
     increasing_after (Some (string_bits (record_key r))) rs"

lemma increasing_sorted: "increasing_after prev rs \<Longrightarrow> sorted_after prev rs"
  by (induction rs arbitrary: prev) auto

lemma min_div: "min a b div u = min (a div u) (b div u)" for a b u :: nat
  using div_le_mono [of a b u] div_le_mono [of b a u] by (cases "a \<le> b") (simp_all add: min_def antisym)

lemma append_records_holds:
  assumes p: "policy_ok p"
  shows "native_writing p c fs w \<Longrightarrow> (\<And>r. r \<in> set rs \<Longrightarrow> record_ok p r) \<Longrightarrow>
    (\<And>r n. r \<in> set rs \<Longrightarrow> c = Some n \<Longrightarrow> bit_size (record_value r) = n * bits_per_unit p) \<Longrightarrow>
    increasing_after (if fs = [] then None else Some (prev_key fs (length fs))) rs \<Longrightarrow>
    F = front_code p c [] 0 rs anchor fs \<Longrightarrow> length (stream p c F (length F)) \<le> u64_max - 7 \<Longrightarrow>
    \<exists>w'. append_records host p rs w = (Inr (), w') \<and> native_writing p c F w'"
proof (induction rs arbitrary: fs w anchor)
  case (Cons r rs)
  let ?i = "length fs" let ?key = "string_bits (record_key r)" and ?val = "string_bits (record_value r)"
  let ?l = "lcp (prev_key fs ?i) ?key"
  define f where "f = \<lparr>fr_kept = min ?l (case retained_limit_bits r of None \<Rightarrow> ?l | Some l \<Rightarrow> l) div bits_per_unit p,
    fr_key = ?key, fr_value = ?val\<rparr>"
  have r: "record_ok p r" using Cons.prems(2) by simp
  obtain key where key: "string_view (record_key r) = Inr key" "view_ok key" "view_bits key = ?key" "bsize key = length ?key"
    using string_view_ok [of "record_key r"] r by (auto simp: record_ok_def length_string_bits)
  obtain val where val: "string_view (record_value r) = Inr val" "view_ok val" "view_bits val = ?val" "bsize val = length ?val"
    using string_view_ok [of "record_value r"] r by (auto simp: record_ok_def length_string_bits)
  have sizes: "length ?key = bit_size (record_key r)" "length ?val = bit_size (record_value r)"
    using r by (simp_all add: record_ok_def length_string_bits)
  have choose: "choose_retained p ?l (retained_limit_bits r) None 0 (place p c fs ?i) anchor (length ?key div bits_per_unit p) = fr_kept f"
    by (simp add: choose_retained_def f_def min_div split: option.split)
  obtain anchor' where F: "F = front_code p c [] 0 rs anchor' (fs @ [f])"
    using Cons.prems(5) choose by (simp add: Let_def f_def)
  obtain gs where gs: "F = (fs @ [f]) @ gs" using front_code_extends [of p c "[]" 0 rs anchor' "fs @ [f]"] F by auto
  have "stream p c (fs @ [f]) (Suc ?i) = stream p c F (Suc ?i)" unfolding gs by (rule stream_append [symmetric]) simp
  moreover have "Suc ?i \<le> length F" using gs by simp
  ultimately have fit: "length (stream p c (fs @ [f]) (Suc ?i)) \<le> u64_max - 7"
    using stream_prefix [of "Suc ?i" "length F" p c F] Cons.prems(6) by auto
  have order: "lex (prev_key fs ?i) (view_bits key) < 0" if "fs \<noteq> []" using Cons.prems(4) that key(3) by simp
  have ks: "bsize key \<le> u64_max - 7" "unit_multiple p (bsize key)" "unit_multiple p (bsize val)"
    using r key(4) val(4) sizes by (simp_all add: record_ok_def string_ok_def)
  have cs: "bsize val = n * bits_per_unit p" if "c = Some n" for n using Cons.prems(3) [of r n] that val(4) sizes by simp
  have fe: "f = \<lparr>fr_kept = min (lcp (prev_key fs ?i) (view_bits key))
        (case retained_limit_bits r of None \<Rightarrow> lcp (prev_key fs ?i) (view_bits key) | Some l \<Rightarrow> l) div bits_per_unit p,
      fr_key = view_bits key, fr_value = view_bits val\<rparr>"
    unfolding f_def key(3) val(3) ..
  obtain w1 where w1: "native_append host p key val (retained_limit_bits r) w = (Inr (), w1)" "native_writing p c (fs @ [f]) w1"
    using native_append_holds [OF p Cons.prems(1) key(2) ks(1,2) val(2) ks(3) cs order fe fit, of host] by blast
  have "\<exists>w'. append_records host p rs w1 = (Inr (), w') \<and> native_writing p c F w'"
    using Cons.prems by (intro Cons.IH [OF w1(2) _ _ _ F]) (simp_all add: f_def)
  then show ?case using w1(1) key(1) val(1) by (simp add: native_append_record_def bindM_apply)
qed auto

lemma output_finish_holds:
  assumes p: "policy_ok p" and w: "outputting p c F w" and fit: "length (stream p c F (length F)) < 2 ^ 57"
    and c: "\<And>n. policy_value_width p = Some n \<Longrightarrow> c = Some n"
  shows "\<exists>a. output_finish p w = (Inr a, w\<lparr>no_data := empty_string, no_offsets := [], no_finished := True\<rparr>) \<and>
    built_profile p Native c F a"
proof -
  let ?n = "length F"
  have B: "0 < codec_block_size p" using p by (simp add: policy_ok_def)
  note wr = w [unfolded outputting_def]
  have F: "frames_ok p c F" using wr by simp
  have size: "bit_size (no_data w) = length (stream p c F ?n)" using wr by (simp flip: length_string_bits)
  have pl: "bit_size (no_data w) div bits_per_unit p = place p c F ?n" by (simp add: size place_def)
  have stride: "?n * value_or c 0 \<le> place p c F ?n" using residual_mono(2) [of p c F ?n] F by simp
  have small: "place p c F ?n < 2 ^ 57" using place_length [of p c F ?n] fit by linarith
  have mult: "profile_multiply ?n (value_or c 0) = Inr (?n * value_or c 0)"
    using stride small by (auto simp: profile_multiply_def u64_max_def div_less_iff_less_mult)
  have "of_nat (place p c F ?n) - of_nat (?n * value_or c 0) = (of_nat (residual p c F ?n) :: u64)"
    using stride by (simp add: residual_def of_nat_diff)
  then have smp: "no_offsets w @ [of_nat (place p c F ?n) - of_nat (?n * value_or c 0)] = samples p c F"
    using wr samples_sorted(3) [OF F fit B] by simp
  obtain offs where offs: "ef_build (samples p c F) = Inr offs"
    using ef_build_correct [OF samples_sorted(1,2) [OF F fit B]] by blast
  define a where "a = \<lparr>pa_bytes = bytes (no_data w), pa_offsets = offs,
    pa_metadata = (initial_metadata p Native)\<lparr>m_common_value_width := c, m_record_count := ?n, m_extent := place p c F ?n,
      m_terminal_key_units := length (prev_key F ?n) div bits_per_unit p\<rparr>\<rparr>"
  have fields: "no_count w = ?n" "no_common w = c" "no_finished w = False"
    "no_previous_units w = length (prev_key F ?n) div bits_per_unit p" using wr by simp_all
  have "output_finish p w = (Inr a, w\<lparr>no_data := empty_string, no_offsets := [], no_finished := True\<rparr>)"
    unfolding output_finish_def bindM_apply using fields mult smp offs pl by (simp add: output_active_def a_def del: of_nat_mult)
  moreover have "\<lparr>bytes = pa_bytes a, bit_size = length (stream p c F ?n)\<rparr> = no_data w" using size by (simp add: a_def)
  then have "built_profile p Native c F a" using wr offs fit c unfolding built_profile_def by (simp add: a_def)
  ultimately show ?thesis by blast
qed

lemma native_finish_holds:
  assumes "policy_ok p" "native_writing p c F w" "length (stream p c F (length F)) < 2 ^ 57"
    and "\<And>n. policy_value_width p = Some n \<Longrightarrow> c = Some n"
  shows "\<exists>a w'. native_finish p w = (Inr a, w') \<and> built_profile p Native c F a \<and> no_finished (nw_output w')"
  using output_finish_holds [OF assms(1) _ assms(3), of "nw_output w"] assms(2,4)
  by (auto simp: native_finish_def bindM_apply native_writing_def)

text \<open>A new output, for values of a width the policy admits.\<close>

lemma new_output_holds:
  assumes "\<And>n. policy_value_width p = Some n \<Longrightarrow> c = Some n" "value_or c 0 * bits_per_unit p \<le> u64_max"
  shows "\<exists>w. new_native_output p c = Inr w \<and> outputting p c [] w"
proof -
  have "profile_multiply n (bits_per_unit p) = Inr (n * bits_per_unit p)" if "c = Some n" for n
    using assms(2) that by (auto simp: profile_multiply_def div_less_iff_less_mult)
  moreover have "\<not> (policy_value_width p \<noteq> None \<and> c \<noteq> policy_value_width p)" using assms(1) by (cases "policy_value_width p") auto
  ultimately show ?thesis
    by (cases c) (simp_all add: new_native_output_def outputting_def frames_ok_def blocks_of_def)
qed

section \<open>Properties\<close>

text \<open>
  C26. The native writer is the batch encoder: records with strictly increasing keys, appended one
  by one with their retention hints to a writer opened with the width their values share, and
  finished give exactly the sections and metadata of the batch encoder, although byte profiles
  take a framing path of their own; the writer is then closed.
\<close>

theorem native_writer_equals_batch:
  assumes p: "policy_ok p" and r: "records_ok p Native records" and inc: "increasing_after None records"
    and c: "c = shared_width p Native records" "value_or c 0 * bits_per_unit p \<le> u64_max"
    and F: "F = front_code p c [] 0 records 0 []" "length (stream p c F (length F)) < 2 ^ 57"
  shows "\<exists>a w w'. build_profile maker p Native records [] 0 = Inr a \<and> new_native_writer p c = Inr w \<and>
    bindM (append_records host p records) (\<lambda>_. native_finish p) w = (Inr a, w') \<and> no_finished (nw_output w')"
proof -
  have width: "c = Some n" if "policy_value_width p = Some n" for n using that by (simp add: c shared_width_def)
  obtain a where a: "build_profile maker p Native records [] 0 = Inr a" "built_profile p Native c F a"
    using build_profile_built [OF p r _ _ c(1) F] by auto
  obtain out where out: "new_native_output p c = Inr out" "outputting p c [] out" using new_output_holds [OF width c(2)] by blast
  define w where "w = \<lparr>nw_output = out, nw_previous = empty_string\<rparr>"
  have w: "new_native_writer p c = Inr w" and w0: "native_writing p c [] w"
    using out by (simp_all add: new_native_writer_def native_writing_def w_def)
  have small: "length (stream p c F (length F)) \<le> u64_max - 7" using F(2) by (simp add: u64_max_def)
  have rok: "record_ok p x" if "x \<in> set records" for x using r that by (simp add: records_ok_def)
  have vs: "bit_size (record_value x) = n * bits_per_unit p" if "x \<in> set records" "c = Some n" for x n
    using shared_width_values [OF r that(1)] that(2) c(1) by simp
  have inc': "increasing_after (if ([] :: frame list) = [] then None else Some (prev_key [] (length ([] :: frame list)))) records"
    using inc by simp
  obtain w1 where w1: "append_records host p records w = (Inr (), w1)" "native_writing p c F w1"
    using append_records_holds [OF p w0 rok vs inc' F(1) small] by blast
  obtain b w' where b: "native_finish p w1 = (Inr b, w')" "built_profile p Native c F b" "no_finished (nw_output w')"
    using native_finish_holds [OF p w1(2) F(2) width] by blast
  have "b = a" by (rule built_profile_unique [OF b(2) a(2)])
  then show ?thesis using a(1) w w1(1) b by simp
qed

lemma native_writer_equals_batch_witness:
  "\<exists>a w w'. build_profile False default_policy Native two_records [] 0 = Inr a \<and>
     new_native_writer default_policy (shared_width default_policy Native two_records) = Inr w \<and>
     bindM (append_records True default_policy two_records) (\<lambda>_. native_finish default_policy) w = (Inr a, w')"
proof -
  let ?c = "shared_width default_policy Native two_records" let ?F = "front_code default_policy ?c [] 0 two_records 0 []"
  have inc: "increasing_after None two_records"
    by (simp add: two_records_def string_bits_def byte_bits_def bits_of_def upt_rec)
  have width: "value_or ?c 0 * bits_per_unit default_policy \<le> u64_max"
    using default_policy_facts by (simp add: shared_width_def two_records_def record_width_def u64_max_def bits_per_unit_def unit_shift_def)
  have fit: "length (stream default_policy ?c ?F (length ?F)) < 2 ^ 57"
    using byte_front_code_length [OF default_policy_facts(1) refl, of ?c "[]" 0 two_records]
    by (simp add: two_records_def string_bits_def)
  show ?thesis
    using native_writer_equals_batch [OF default_policies_ok(1) two_records_ok(1) inc refl width refl fit, of False True] by blast
qed

text \<open>
  A rejected append has no effect: whatever the writer holds, when an append of a record throws
  (a finished writer, a length off the unit, a wrong width, a key out of order, a frame that does
  not fit) the writer is exactly as it was, so the committed records stay intact. In particular
  nothing can fail after the frame has been committed.
\<close>

theorem rejected_append_keeps_writer:
  assumes w: "string_ok (nw_previous w)" and key: "view_ok key" "bsize key \<le> u64_max - 7"
    and fails: "native_append host p key val hint w = (Inl e, w')"
  shows "w' = w"
proof (rule ccontr)
  assume changed: "w' \<noteq> w"
  obtain prev where prev: "string_view (nw_previous w) = Inr prev" "view_ok prev" "view_bits prev = string_bits (nw_previous w)"
    using string_view_ok [OF w] by auto
  let ?l = "lcp (string_bits (nw_previous w)) (view_bits key)"
  have cmp: "compare_common_bits host prev key = Inr \<lparr>common_bits = ?l, order = lex (string_bits (nw_previous w)) (view_bits key)\<rparr>"
    using compare_common_bits_spec [OF prev(2) key(1), of host] prev(3) by simp
  define kept where "kept = min ?l (case hint of None \<Rightarrow> ?l | Some l \<Rightarrow> l) div bits_per_unit p"
  have "kept * bits_per_unit p \<le> min ?l (case hint of None \<Rightarrow> ?l | Some l \<Rightarrow> l)"
    unfolding kept_def by (rule div_times_less_eq_dividend)
  then have "kept * bits_per_unit p \<le> ?l" by simp
  from replace_previous [OF w key this, of host] obtain a x t where
    r: "resize_string (nw_previous w) (bsize key) = Inr a" "subview key (kept * bits_per_unit p) (bsize key - kept * bits_per_unit p) = Inr x"
      "copy_into host a (kept * bits_per_unit p) x = Inr t" by blast
  have out: "out = nw_output w" if "output_append host p kept x val (nw_output w) = (Inl e', out)" for e' out
    using that by (auto simp: output_append_def bindM_def split: if_splits sum.splits)
  show False
    using fails changed out r prev(1) cmp unfolding native_append_def bindM_apply
    by (auto simp: on_output_def Let_def kept_def [symmetric] split: if_splits sum.splits prod.splits cong: option.case_cong)
qed


lemma rejected_append_keeps_writer_witness:
  "\<exists>e w'. native_append True default_policy \<lparr>storage = [97], offset = 0, bsize = 7\<rparr> \<lparr>storage = [], offset = 0, bsize = 0\<rparr> None
     \<lparr>nw_output = \<lparr>no_data = empty_string, no_offsets = [], no_common = None, no_count = 0, no_previous_units = 0,
       no_finished = False\<rparr>, nw_previous = empty_string\<rparr> = (Inl e, w') \<and>
     w' = \<lparr>nw_output = \<lparr>no_data = empty_string, no_offsets = [], no_common = None, no_count = 0, no_previous_units = 0,
       no_finished = False\<rparr>, nw_previous = empty_string\<rparr>"
proof -
  let ?w = "\<lparr>nw_output = \<lparr>no_data = empty_string, no_offsets = [], no_common = None, no_count = 0, no_previous_units = 0,
    no_finished = False\<rparr>, nw_previous = empty_string\<rparr>"
  let ?key = "\<lparr>storage = [97], offset = 0, bsize = 7\<rparr> :: bit_view" and ?val = "\<lparr>storage = [], offset = 0, bsize = 0\<rparr> :: bit_view"
  have "\<not> unit_multiple default_policy 7"
    using default_policy_facts by (simp add: unit_multiple_def bits_per_unit_def unit_shift_def)
  then obtain e w' where f: "native_append True default_policy ?key ?val None ?w = (Inl e, w')"
    by (simp add: native_append_def bindM_apply on_output_def output_active_def)
  have "w' = ?w"
    using rejected_append_keeps_writer [OF _ _ _ f] by (simp add: view_ok_def u64_max_def)
  then show ?thesis using f by blast
qed

end
