(* ===== verification/NativeMerge.thy ===== *)
theory NativeMerge
  imports ProfileWalk NativeWriter
begin

text \<open>
  Merging two ordered native streams (\<open>native_merge.h\<close>). The builder is a template over its cursor:
  key-aware composition walks \<open>profile_cursor\<close>s, which reconstruct keys; every other composition
  walks encoded sources, which keep the predecessor of a record as spans of the immutable stream.
  The operations the builder calls on a cursor are the fields of \<open>source_ops\<close>.
\<close>

section \<open>Encoded sources\<close>

text \<open>The vector of spans is kept newest first.\<close>

record merge_span =
  sp_offset :: nat
  sp_end :: nat

record encoded_source =
  es_data :: bit_view
  es_cursor :: encoded_cursor
  es_spans :: "merge_span list"

definition span_start :: "merge_span list \<Rightarrow> nat" where
  "span_start older = (case older of [] \<Rightarrow> 0 | s # _ \<Rightarrow> sp_end s)"

fun cut_spans :: "nat \<Rightarrow> merge_span list \<Rightarrow> merge_span list" where
  "cut_spans kept [] = []"
| "cut_spans kept (s # older) =
     (if span_start older \<ge> kept then cut_spans kept older
      else (if sp_end s > kept then s\<lparr>sp_end := kept\<rparr> else s) # older)"

definition retain_spans :: "profile_encoded_record \<Rightarrow> merge_span list \<Rightarrow> merge_span list" where
  "retain_spans r spans =
     (let spans = cut_spans (retained r) spans in
      if bsize (suffix_view r) \<noteq> 0 then \<lparr>sp_offset = offset (suffix_view r), sp_end = key_units r\<rparr> # spans else spans)"

definition new_encoded_source :: "bool \<Rightarrow> storage_policy \<Rightarrow> profile_view \<Rightarrow> encoded_source res" where
  "new_encoded_source host p v =
     bindE (new_bit_view (pv_bytes v) (unit_bits p (m_extent (pv_metadata v))) 0) (\<lambda>data.
     bindE (new_encoded_cursor host p v) (\<lambda>c.
     if encoded_done c then Inr \<lparr>es_data = data, es_cursor = c, es_spans = []\<rparr>
     else bindE (encoded_peek c) (\<lambda>r. Inr \<lparr>es_data = data, es_cursor = c, es_spans = retain_spans r []\<rparr>)))"

fun materialize_spans :: "bool \<Rightarrow> storage_policy \<Rightarrow> bit_view \<Rightarrow> nat \<Rightarrow> merge_span list \<Rightarrow> bit_string \<Rightarrow> bit_string res" where
  "materialize_spans host p data start [] result = Inr result"
| "materialize_spans host p data start (s # newer) result =
     bindE (subview data (sp_offset s) (unit_bits p (sp_end s - start))) (\<lambda>part.
     bindE (append_view host False result part) (\<lambda>result.
     materialize_spans host p data (sp_end s) newer result))"

definition materialize :: "bool \<Rightarrow> storage_policy \<Rightarrow> encoded_source \<Rightarrow> bit_string res" where
  "materialize host p s = materialize_spans host p (es_data s) 0 (rev (es_spans s)) empty_string"

text \<open>The fragments a new suffix replaces, walked until the suffix or the fragments end.\<close>

fun compare_fragments ::
  "bool \<Rightarrow> storage_policy \<Rightarrow> bit_view \<Rightarrow> bit_view \<Rightarrow> nat \<Rightarrow> nat \<Rightarrow> merge_span list \<Rightarrow> nat \<Rightarrow> nat \<Rightarrow> nat \<Rightarrow> bit_comparison res" where
  "compare_fragments host p data suffix kept previous_units [] position start compared =
     (let rest = unit_bits p (previous_units - kept) in
      Inr \<lparr>common_bits = u64_add (unit_bits p kept) compared,
        order = (if rest < bsize suffix then -1 else if rest > bsize suffix then 1 else 0)\<rparr>)"
| "compare_fragments host p data suffix kept previous_units (s # newer) position start compared =
     (if compared = bsize suffix then
        (let rest = unit_bits p (previous_units - kept) in
         Inr \<lparr>common_bits = u64_add (unit_bits p kept) compared,
           order = (if rest < bsize suffix then -1 else if rest > bsize suffix then 1 else 0)\<rparr>)
      else let at = u64_add (sp_offset s) (unit_bits p (position - start));
               n = min (unit_bits p (sp_end s - position)) (bsize suffix - compared) in
        bindE (subview data at n) (\<lambda>fragment.
        bindE (subview suffix compared n) (\<lambda>part.
        bindE (compare_common_bits host fragment part) (\<lambda>result.
        if order result \<noteq> 0
        then Inr (result\<lparr>common_bits := common_bits result + (unit_bits p kept + compared)\<rparr>)
        else compare_fragments host p data suffix kept previous_units newer (sp_end s) (sp_end s) (compared + n)))))"

definition compare_successor ::
  "bool \<Rightarrow> storage_policy \<Rightarrow> bit_view \<Rightarrow> merge_span list \<Rightarrow> nat \<Rightarrow> bit_view \<Rightarrow> bit_comparison res" where
  "compare_successor host p data spans kept suffix =
     (let crossed = rev (takeWhile (\<lambda>s. sp_end s > kept) spans);
          start = span_start (dropWhile (\<lambda>s. sp_end s > kept) spans);
          walk = compare_fragments host p data suffix kept (span_start spans) crossed kept start 0 in
      case crossed of [] \<Rightarrow> walk
      | s # _ \<Rightarrow>
        if bsize suffix = 0 then walk
        else bindE (load_bits host data (u64_add (sp_offset s) (unit_bits p (kept - start))) (bits_per_unit p)) (\<lambda>before.
          bindE (load_bits host suffix 0 (bits_per_unit p)) (\<lambda>after.
          if before \<noteq> after
          then Inr \<lparr>common_bits = unit_bits p kept + (countl_zero (before XOR after) - (64 - bits_per_unit p)),
            order = (if before < after then -1 else 1)\<rparr>
          else walk)))"

definition on_cursor :: "(encoded_cursor, 'a) op \<Rightarrow> (encoded_source, 'a) op" where
  "on_cursor m = (\<lambda>s. case m (es_cursor s) of (r, c) \<Rightarrow> (r, s\<lparr>es_cursor := c\<rparr>))"

definition encoded_advance_comparison :: "bool \<Rightarrow> storage_policy \<Rightarrow> (encoded_source, bit_comparison option) op" where
  "encoded_advance_comparison host p =
     bindM (on_cursor (encoded_advance host p)) (\<lambda>_.
     bindM (getM (\<lambda>s. encoded_done (es_cursor s))) (\<lambda>end_reached.
     if end_reached then returnM None
     else bindM (liftM (\<lambda>s. encoded_peek (es_cursor s))) (\<lambda>r.
       bindM (liftM (\<lambda>s. compare_successor host p (es_data s) (es_spans s) (retained r) (suffix_view r))) (\<lambda>result.
       if order result \<ge> 0 then raiseM (Invalid_argument ''native merge inputs must have unique sorted keys'')
       else bindM (modifyM (\<lambda>s. s\<lparr>es_spans := retain_spans r (es_spans s)\<rparr>)) (\<lambda>_. returnM (Some result))))))"

section \<open>The cursor a builder walks\<close>

record 'c source_ops =
  so_done :: "'c \<Rightarrow> bool"
  so_value :: "'c \<Rightarrow> bit_view res"
  so_key :: "'c \<Rightarrow> bit_view res"
  so_retained_bits :: "'c \<Rightarrow> nat res"
  so_suffix :: "'c \<Rightarrow> nat \<Rightarrow> bit_view res"
  so_literal :: "'c \<Rightarrow> nat \<Rightarrow> bit_view res"
  so_newer_donates :: "'c \<Rightarrow> 'c \<Rightarrow> bool res"
  so_advance :: "('c, bit_comparison option) op"

text \<open>Key-aware composition: suffixes and literals are views of the reconstructed key.\<close>

definition keyed_suffix :: "storage_policy \<Rightarrow> profile_cursor \<Rightarrow> nat \<Rightarrow> bit_view res" where
  "keyed_suffix p c kept =
     bindE (cursor_peek c) (\<lambda>item. let key = prefix_view (item_key item); first = unit_bits p kept in
     subview key first (bsize key - first))"

definition keyed_ops :: "bool \<Rightarrow> storage_policy \<Rightarrow> profile_cursor source_ops" where
  "keyed_ops host p =
     \<lparr>so_done = cursor_at_end,
      so_value = (\<lambda>c. bindE (cursor_peek c) (\<lambda>item. Inr (item_value item))),
      so_key = (\<lambda>c. bindE (cursor_peek c) (\<lambda>item. Inr (prefix_view (item_key item)))),
      so_retained_bits = cursor_retained_bits p,
      so_suffix = keyed_suffix p, so_literal = keyed_suffix p,
      so_newer_donates = (\<lambda>older newer. Inr False),
      so_advance = advance_comparison host p\<rparr>"

text \<open>
  Every other composition: a suffix must not reach in front of the literal of its record; a
  literal that has to is cut from the materialized key.
\<close>

definition encoded_suffix :: "storage_policy \<Rightarrow> encoded_source \<Rightarrow> nat \<Rightarrow> bit_view res" where
  "encoded_suffix p s kept =
     bindE (encoded_peek (es_cursor s)) (\<lambda>r.
     if kept < retained r then Inl (Invalid_argument ''native merge output prefix precedes input prefix'')
     else let first = unit_bits p (kept - retained r) in subview (suffix_view r) first (bsize (suffix_view r) - first))"

definition encoded_key :: "bool \<Rightarrow> storage_policy \<Rightarrow> encoded_source \<Rightarrow> bit_view res" where
  "encoded_key host p s = bindE (materialize host p s) string_view"

definition encoded_literal :: "bool \<Rightarrow> storage_policy \<Rightarrow> encoded_source \<Rightarrow> nat \<Rightarrow> bit_view res" where
  "encoded_literal host p s kept =
     bindE (encoded_peek (es_cursor s)) (\<lambda>r.
     if kept < retained r
     then bindE (encoded_key host p s) (\<lambda>key. let first = unit_bits p kept in subview key first (bsize key - first))
     else encoded_suffix p s kept)"

definition encoded_newer_donates :: "encoded_source \<Rightarrow> encoded_source \<Rightarrow> bool res" where
  "encoded_newer_donates older newer =
     bindE (encoded_peek (es_cursor older)) (\<lambda>a. bindE (encoded_peek (es_cursor newer)) (\<lambda>b.
     Inr (retained b < retained a)))"

definition encoded_ops :: "bool \<Rightarrow> storage_policy \<Rightarrow> encoded_source source_ops" where
  "encoded_ops host p =
     \<lparr>so_done = (\<lambda>s. encoded_done (es_cursor s)),
      so_value = (\<lambda>s. bindE (encoded_peek (es_cursor s)) (\<lambda>r. Inr (value_view r))),
      so_key = encoded_key host p,
      so_retained_bits = (\<lambda>s. bindE (encoded_peek (es_cursor s)) (\<lambda>r. Inr (unit_bits p (retained r)))),
      so_suffix = encoded_suffix p, so_literal = encoded_literal host p,
      so_newer_donates = encoded_newer_donates,
      so_advance = encoded_advance_comparison host p\<rparr>"

section \<open>Composition\<close>

text \<open>
  The composer and its tombstone test are code of the caller; every call of either may throw, which
  fails the step. Each is a function of the views it is given: a composer that keeps a state of its
  own between calls is not modelled.
\<close>

datatype composition =
    Replace_value
  | On_values "bit_view \<Rightarrow> bit_view \<Rightarrow> bit_view res"
  | On_key "bit_view \<Rightarrow> bit_view \<Rightarrow> bit_view \<Rightarrow> bit_view res"

datatype tombstones =
    No_tombstones
  | Value_tombstones "bit_view \<Rightarrow> bool res"
  | Key_tombstones "bit_view \<Rightarrow> bit_view \<Rightarrow> bool res"

fun compose_values :: "composition \<Rightarrow> bit_view res \<Rightarrow> bit_view \<Rightarrow> bit_view \<Rightarrow> bit_view res" where
  "compose_values Replace_value key older newer = Inr newer"
| "compose_values (On_values f) key older newer = f older newer"
| "compose_values (On_key f) key older newer = bindE key (\<lambda>k. f k older newer)"

fun is_tombstone :: "tombstones \<Rightarrow> bit_view res \<Rightarrow> bit_view \<Rightarrow> bool res" where
  "is_tombstone No_tombstones key x = Inr False"
| "is_tombstone (Value_tombstones f) key x = f x"
| "is_tombstone (Key_tombstones f) key x = bindE key (\<lambda>k. f k x)"

section \<open>The builder\<close>

record 'c native_merge =
  nm_older :: 'c
  nm_newer :: 'c
  nm_pinned :: bool
  nm_writer :: native_output
  nm_keys :: nat
  nm_records :: nat
  nm_older_prefix :: nat
  nm_newer_prefix :: nat
  nm_failed :: bool

definition checked_output :: "native_output \<Rightarrow> native_output res" where
  "checked_output w = (if no_count w \<noteq> 0 \<or> no_finished w
     then Inl (Invalid_argument ''native merge output must be empty and active'') else Inr w)"

definition new_native_merge ::
  "(profile_view \<Rightarrow> 'c res) \<Rightarrow> native_output \<Rightarrow> profile_view option \<Rightarrow> profile_view option \<Rightarrow> 'c native_merge res" where
  "new_native_merge open_source out older newer =
     (case older of None \<Rightarrow> Inl (Invalid_argument ''null native merge input'') | Some o' \<Rightarrow>
      case newer of None \<Rightarrow> Inl (Invalid_argument ''null native merge input'') | Some n \<Rightarrow>
        bindE (open_source o') (\<lambda>older. bindE (open_source n) (\<lambda>newer. bindE (checked_output out) (\<lambda>w.
        Inr \<lparr>nm_older = older, nm_newer = newer, nm_pinned = True, nm_writer = w, nm_keys = 0, nm_records = 0,
          nm_older_prefix = 0, nm_newer_prefix = 0, nm_failed = False\<rparr>))))"

definition nm_done :: "'c source_ops \<Rightarrow> 'c native_merge \<Rightarrow> bool" where
  "nm_done src s \<longleftrightarrow> nm_pinned s \<and> \<not> nm_failed s \<and> so_done src (nm_older s) \<and> so_done src (nm_newer s)"

definition nm_active :: "'c native_merge \<Rightarrow> unit res" where
  "nm_active s = (if \<not> nm_pinned s \<or> nm_failed s \<or> no_finished (nm_writer s)
     then Inl (Logic_error ''native merge is inactive'') else Inr ())"

definition compare_heads :: "bool \<Rightarrow> storage_policy \<Rightarrow> 'c source_ops \<Rightarrow> 'c native_merge \<Rightarrow> bit_comparison res" where
  "compare_heads host p src s =
     (if so_done src (nm_older s) then Inr \<lparr>common_bits = 0, order = 1\<rparr>
      else if so_done src (nm_newer s) then Inr \<lparr>common_bits = 0, order = -1\<rparr>
      else if nm_older_prefix s \<noteq> nm_newer_prefix s then
        Inr \<lparr>common_bits = unit_bits p (min (nm_older_prefix s) (nm_newer_prefix s)),
          order = (if nm_older_prefix s > nm_newer_prefix s then -1 else 1)\<rparr>
      else bindE (so_suffix src (nm_older s) (nm_older_prefix s)) (\<lambda>a.
        bindE (so_suffix src (nm_newer s) (nm_newer_prefix s)) (\<lambda>b.
        bindE (compare_common_bits host a b) (\<lambda>result.
        Inr (result\<lparr>common_bits := common_bits result + unit_bits p (nm_older_prefix s)\<rparr>)))))"

definition merge_append ::
  "bool \<Rightarrow> storage_policy \<Rightarrow> 'c source_ops \<Rightarrow> tombstones \<Rightarrow> 'c \<Rightarrow> bit_view \<Rightarrow> nat \<Rightarrow> nat \<Rightarrow> ('c native_merge, unit) op" where
  "merge_append host p src tombs c val kept limit_bits =
     bindM (liftM (\<lambda>_. is_tombstone tombs (so_key src c) val)) (\<lambda>tomb.
     let kept = (if tomb then min kept (limit_bits div bits_per_unit p) else kept) in
     bindM (liftM (\<lambda>_. so_literal src c kept)) (\<lambda>literal.
     (\<lambda>s. case output_append host p kept literal val (nm_writer s) of (r, w) \<Rightarrow> (r, s\<lparr>nm_writer := w\<rparr>))))"

definition merge_advance :: "storage_policy \<Rightarrow> ('c, bit_comparison option) op \<Rightarrow> ('c, nat) op" where
  "merge_advance p m = bindM m (\<lambda>result. case result of None \<Rightarrow> returnM 0
     | Some r \<Rightarrow> if order r \<ge> 0 then raiseM (Invalid_argument ''native merge inputs must have unique sorted keys'')
         else returnM (common_bits r div bits_per_unit p))"

definition advance_older :: "storage_policy \<Rightarrow> 'c source_ops \<Rightarrow> ('c native_merge, unit) op" where
  "advance_older p src = (\<lambda>s. case merge_advance p (so_advance src) (nm_older s) of
     (Inl e, c) \<Rightarrow> (Inl e, s\<lparr>nm_older := c\<rparr>) | (Inr n, c) \<Rightarrow> (Inr (), s\<lparr>nm_older := c, nm_older_prefix := n\<rparr>))"

definition advance_newer :: "storage_policy \<Rightarrow> 'c source_ops \<Rightarrow> ('c native_merge, unit) op" where
  "advance_newer p src = (\<lambda>s. case merge_advance p (so_advance src) (nm_newer s) of
     (Inl e, c) \<Rightarrow> (Inl e, s\<lparr>nm_newer := c\<rparr>) | (Inr n, c) \<Rightarrow> (Inr (), s\<lparr>nm_newer := c, nm_newer_prefix := n\<rparr>))"

definition emit_older ::
  "bool \<Rightarrow> storage_policy \<Rightarrow> 'c source_ops \<Rightarrow> tombstones \<Rightarrow> bit_comparison \<Rightarrow> ('c native_merge, unit) op" where
  "emit_older host p src tombs comparison =
     bindM (getM nm_older) (\<lambda>c. bindM (getM nm_older_prefix) (\<lambda>kept.
     bindM (liftM (\<lambda>_. so_value src c)) (\<lambda>val.
     bindM (liftM (\<lambda>_. so_retained_bits src c)) (\<lambda>limit.
     bindM (merge_append host p src tombs c val kept limit) (\<lambda>_.
     bindM (modifyM (\<lambda>s. s\<lparr>nm_newer_prefix := common_bits comparison div bits_per_unit p\<rparr>)) (\<lambda>_.
     advance_older p src))))))"

definition emit_newer ::
  "bool \<Rightarrow> storage_policy \<Rightarrow> 'c source_ops \<Rightarrow> tombstones \<Rightarrow> bit_comparison \<Rightarrow> ('c native_merge, unit) op" where
  "emit_newer host p src tombs comparison =
     bindM (getM nm_newer) (\<lambda>c. bindM (getM nm_newer_prefix) (\<lambda>kept.
     bindM (liftM (\<lambda>_. so_value src c)) (\<lambda>val.
     bindM (liftM (\<lambda>_. so_retained_bits src c)) (\<lambda>limit.
     bindM (merge_append host p src tombs c val kept limit) (\<lambda>_.
     bindM (modifyM (\<lambda>s. s\<lparr>nm_older_prefix := common_bits comparison div bits_per_unit p\<rparr>)) (\<lambda>_.
     advance_newer p src))))))"

definition emit_both ::
  "bool \<Rightarrow> storage_policy \<Rightarrow> 'c source_ops \<Rightarrow> composition \<Rightarrow> tombstones \<Rightarrow> ('c native_merge, unit) op" where
  "emit_both host p src fuse tombs =
     bindM (getM nm_older) (\<lambda>older. bindM (getM nm_newer) (\<lambda>newer. bindM (getM nm_older_prefix) (\<lambda>kept.
     bindM (liftM (\<lambda>_. so_value src older)) (\<lambda>a. bindM (liftM (\<lambda>_. so_value src newer)) (\<lambda>b.
     bindM (liftM (\<lambda>_. compose_values fuse (so_key src older) a b)) (\<lambda>val.
     bindM (liftM (\<lambda>_. so_retained_bits src older)) (\<lambda>la. bindM (liftM (\<lambda>_. so_retained_bits src newer)) (\<lambda>lb.
     bindM (liftM (\<lambda>_. so_newer_donates src older newer)) (\<lambda>donor.
     bindM (merge_append host p src tombs (if donor then newer else older) val kept (min la lb)) (\<lambda>_.
     bindM (advance_older p src) (\<lambda>_. advance_newer p src)))))))))))"

definition merge_one ::
  "bool \<Rightarrow> storage_policy \<Rightarrow> 'c source_ops \<Rightarrow> composition \<Rightarrow> tombstones \<Rightarrow> ('c native_merge, nat) op" where
  "merge_one host p src fuse tombs =
     bindM (liftM (compare_heads host p src)) (\<lambda>comparison.
     let consumed = (if order comparison = 0 then 2 else 1) in
     bindM (liftM (\<lambda>s. profile_add (nm_keys s) 1)) (\<lambda>keys.
     bindM (liftM (\<lambda>s. profile_add (nm_records s) consumed)) (\<lambda>records.
     bindM (if order comparison < 0 then emit_older host p src tombs comparison
       else if order comparison > 0 then emit_newer host p src tombs comparison
       else emit_both host p src fuse tombs) (\<lambda>_.
     bindM (modifyM (\<lambda>s. s\<lparr>nm_keys := keys, nm_records := records\<rparr>)) (\<lambda>_. returnM consumed)))))"

fun merge_loop ::
  "bool \<Rightarrow> storage_policy \<Rightarrow> 'c source_ops \<Rightarrow> composition \<Rightarrow> tombstones \<Rightarrow> nat \<Rightarrow> nat \<Rightarrow> nat \<Rightarrow> ('c native_merge, nat \<times> nat) op" where
  "merge_loop host p src fuse tombs 0 keys records = returnM (keys, records)"
| "merge_loop host p src fuse tombs (Suc budget) keys records =
     bindM (getM (nm_done src)) (\<lambda>d. if d then returnM (keys, records)
     else bindM (merge_one host p src fuse tombs) (\<lambda>consumed.
       merge_loop host p src fuse tombs budget (keys + 1) (records + consumed)))"

definition nm_step ::
  "bool \<Rightarrow> storage_policy \<Rightarrow> 'c source_ops \<Rightarrow> composition \<Rightarrow> tombstones \<Rightarrow> nat \<Rightarrow> ('c native_merge, nat \<times> nat) op" where
  "nm_step host p src fuse tombs key_budget =
     bindM (liftM nm_active) (\<lambda>_. (\<lambda>s. case merge_loop host p src fuse tombs key_budget 0 0 s of
       (Inl e, s) \<Rightarrow> (Inl e, s\<lparr>nm_failed := True\<rparr>) | (Inr work, s) \<Rightarrow> (Inr work, s)))"

definition nm_finish :: "storage_policy \<Rightarrow> 'c source_ops \<Rightarrow> ('c native_merge, profile_array) op" where
  "nm_finish p src =
     bindM (liftM nm_active) (\<lambda>_. bindM (getM (nm_done src)) (\<lambda>d.
     if \<not> d then raiseM (Logic_error ''native merge has unconsumed inputs'')
     else (\<lambda>s. case output_finish p (nm_writer s) of
       (Inl e, w) \<Rightarrow> (Inl e, s\<lparr>nm_writer := w, nm_failed := False\<rparr>) | (Inr a, w) \<Rightarrow> (Inr a, s\<lparr>nm_writer := w\<rparr>))))"

end
