(* ===== verification/MergeRuns.thy ===== *)
theory MergeRuns
  imports NativeMerge
begin

text \<open>
  What the builder of \<open>native_merge.h\<close> relies on in the cursors it walks, as a locale, and the
  runs of the builder over any cursor that keeps to it: every step emits the next record of the
  merge of the two inputs, with the prefix it shares with the last one emitted.
\<close>

section \<open>The merge of two frame sequences\<close>

text \<open>A merged record: its key, its value, and the cap on its retained units when it is a tombstone.\<close>

type_synonym draft = "bool list \<times> bool list \<times> nat option"

definition draft_of :: "(bool list \<Rightarrow> bool list \<Rightarrow> bool) \<Rightarrow> bool list \<Rightarrow> bool list \<Rightarrow> nat \<Rightarrow> draft" where
  "draft_of bury key val limit = (key, val, if bury key val then Some limit else None)"

fun merge_frames ::
  "(bool list \<Rightarrow> bool list \<Rightarrow> bool list \<Rightarrow> bool list) \<Rightarrow> (bool list \<Rightarrow> bool list \<Rightarrow> bool) \<Rightarrow> frame list \<Rightarrow> frame list \<Rightarrow> draft list" where
  "merge_frames g h [] [] = []"
| "merge_frames g h (a # as) [] = draft_of h (fr_key a) (fr_value a) (fr_kept a) # merge_frames g h as []"
| "merge_frames g h [] (b # bs) = draft_of h (fr_key b) (fr_value b) (fr_kept b) # merge_frames g h [] bs"
| "merge_frames g h (a # as) (b # bs) =
     (if lex (fr_key a) (fr_key b) < 0 then draft_of h (fr_key a) (fr_value a) (fr_kept a) # merge_frames g h as (b # bs)
      else if lex (fr_key a) (fr_key b) > 0 then draft_of h (fr_key b) (fr_value b) (fr_kept b) # merge_frames g h (a # as) bs
      else draft_of h (fr_key a) (g (fr_key a) (fr_value a) (fr_value b)) (min (fr_kept a) (fr_kept b)) # merge_frames g h as bs)"

text \<open>The frames of the output.\<close>

definition draft_kept :: "storage_policy \<Rightarrow> bool list \<Rightarrow> bool list \<Rightarrow> nat option \<Rightarrow> nat" where
  "draft_kept p prev key limit = (let n = lcp prev key div bits_per_unit p in case limit of None \<Rightarrow> n | Some l \<Rightarrow> min n l)"

fun code_drafts :: "storage_policy \<Rightarrow> bool list \<Rightarrow> draft list \<Rightarrow> frame list" where
  "code_drafts p prev [] = []"
| "code_drafts p prev ((key, val, limit) # ds) =
     \<lparr>fr_kept = draft_kept p prev key limit, fr_key = key, fr_value = val\<rparr> # code_drafts p key ds"

lemma length_code_drafts [simp]: "length (code_drafts p prev ds) = length ds"
  by (induction p prev ds rule: code_drafts.induct) auto

definition rest_drafts where
  "rest_drafts g h A B i j = merge_frames g h (drop i A) (drop j B)"

text \<open>Which side comes next: negative for the older input, positive for the newer one, zero for both.\<close>

definition side :: "frame list \<Rightarrow> frame list \<Rightarrow> nat \<Rightarrow> nat \<Rightarrow> int" where
  "side A B i j = (if i \<ge> length A then 1 else if j \<ge> length B then -1 else lex (fr_key (A ! i)) (fr_key (B ! j)))"

lemma rest_drafts_step:
  assumes "i < length A \<or> j < length B"
  shows "side A B i j < 0 \<Longrightarrow> i < length A \<and>
      rest_drafts g h A B i j = draft_of h (fr_key (A ! i)) (fr_value (A ! i)) (fr_kept (A ! i)) # rest_drafts g h A B (Suc i) j"
    and "side A B i j > 0 \<Longrightarrow> j < length B \<and>
      rest_drafts g h A B i j = draft_of h (fr_key (B ! j)) (fr_value (B ! j)) (fr_kept (B ! j)) # rest_drafts g h A B i (Suc j)"
    and "side A B i j = 0 \<Longrightarrow> i < length A \<and> j < length B \<and> fr_key (A ! i) = fr_key (B ! j) \<and>
      rest_drafts g h A B i j = draft_of h (fr_key (A ! i)) (g (fr_key (A ! i)) (fr_value (A ! i)) (fr_value (B ! j)))
        (min (fr_kept (A ! i)) (fr_kept (B ! j))) # rest_drafts g h A B (Suc i) (Suc j)"
proof -
  have a: "drop i A = A ! i # drop (Suc i) A" if "i < length A" using that by (simp add: Cons_nth_drop_Suc)
  have b: "drop j B = B ! j # drop (Suc j) B" if "j < length B" using that by (simp add: Cons_nth_drop_Suc)
  show "side A B i j < 0 \<Longrightarrow> i < length A \<and>
      rest_drafts g h A B i j = draft_of h (fr_key (A ! i)) (fr_value (A ! i)) (fr_kept (A ! i)) # rest_drafts g h A B (Suc i) j"
    using a b by (cases "i < length A"; cases "j < length B") (auto simp: side_def rest_drafts_def split: if_splits)
  show "side A B i j > 0 \<Longrightarrow> j < length B \<and>
      rest_drafts g h A B i j = draft_of h (fr_key (B ! j)) (fr_value (B ! j)) (fr_kept (B ! j)) # rest_drafts g h A B i (Suc j)"
    using a b assms by (cases "i < length A"; cases "j < length B") (auto simp: side_def rest_drafts_def split: if_splits)
  show "side A B i j = 0 \<Longrightarrow> i < length A \<and> j < length B \<and> fr_key (A ! i) = fr_key (B ! j) \<and>
      rest_drafts g h A B i j = draft_of h (fr_key (A ! i)) (g (fr_key (A ! i)) (fr_value (A ! i)) (fr_value (B ! j)))
        (min (fr_kept (A ! i)) (fr_kept (B ! j))) # rest_drafts g h A B (Suc i) (Suc j)"
    using a b by (cases "i < length A"; cases "j < length B") (auto simp: side_def rest_drafts_def lex_eq_0 split: if_splits)
qed

section \<open>The heads of the two inputs\<close>

text \<open>Of two keys behind the last one emitted, the one that shares more of it comes first.\<close>

lemma shares_more_first:
  assumes "lex l a \<le> 0" "lex l b \<le> 0" "lcp l b < lcp l a"
  shows "lex a b = -1" "lcp a b = lcp l b"
proof -
  have "\<not> lex b a \<le> 0" using lcp_between [of l b a] assms by auto
  then show ab: "lex a b = -1" using lex_swap [of a b] lex_range [of a b] by auto
  then show "lcp a b = lcp l b" using lcp_between [of l a b] assms by auto
qed

lemma shares_same:
  assumes "r \<le> lcp l a" "r \<le> lcp l b"
  shows "lcp a b = r + lcp (drop r a) (drop r b)" "lex a b = lex (drop r a) (drop r b)"
proof -
  have la: "take r a = take r l" "r \<le> length a" and lb: "take r b = take r l" "r \<le> length b"
    using take_lcp_split [OF assms(1)] take_lcp_split [OF assms(2)] by simp_all
  then have "take r a @ drop r b = b" by (metis append_take_drop_id)
  then show "lcp a b = r + lcp (drop r a) (drop r b)" "lex a b = lex (drop r a) (drop r b)"
    using inherit_compare [OF la(2), of "drop r b"] by simp_all
qed

text \<open>The contracts of the composition and of the tombstone test, on bits.\<close>

definition composes :: "composition \<Rightarrow> (bool list \<Rightarrow> bool list \<Rightarrow> bool list \<Rightarrow> bool list) \<Rightarrow> bool" where
  "composes fuse g \<longleftrightarrow> (\<forall>k a b. view_ok k \<longrightarrow> view_ok a \<longrightarrow> view_ok b \<longrightarrow>
     (\<exists>w. compose_values fuse (Inr k) a b = Inr w \<and> view_ok w \<and> view_bits w = g (view_bits k) (view_bits a) (view_bits b)))"

definition buries :: "tombstones \<Rightarrow> (bool list \<Rightarrow> bool list \<Rightarrow> bool) \<Rightarrow> bool" where
  "buries tombs h \<longleftrightarrow> (\<forall>k v. view_ok k \<longrightarrow> view_ok v \<longrightarrow> is_tombstone tombs (Inr k) v = Inr (h (view_bits k) (view_bits v)))"

lemma composes_replace: "composes Replace_value (\<lambda>k a b. b)"
  by (simp add: composes_def)

lemma buries_none: "buries No_tombstones (\<lambda>k v. False)"
  by (simp add: buries_def)

lemma composesD:
  "composes fuse g \<Longrightarrow> view_ok k \<Longrightarrow> view_ok a \<Longrightarrow> view_ok b \<Longrightarrow>
    \<exists>w. compose_values fuse (Inr k) a b = Inr w \<and> view_ok w \<and> view_bits w = g (view_bits k) (view_bits a) (view_bits b)"
  by (simp add: composes_def)

lemma buriesD: "buries tombs h \<Longrightarrow> view_ok k \<Longrightarrow> view_ok v \<Longrightarrow> is_tombstone tombs (Inr k) v = Inr (h (view_bits k) (view_bits v))"
  by (simp add: buries_def)

text \<open>An output that fits, and what a prefix of it then allows.\<close>

definition fits :: "storage_policy \<Rightarrow> nat option \<Rightarrow> frame list \<Rightarrow> bool" where
  "fits p c G \<longleftrightarrow> policy_ok p \<and> frames_ok p c G \<and> length (stream p c G (length G)) \<le> u64_max - 7"

lemma fits_next:
  assumes "fits p c G" "G = F @ f # rest"
  shows "policy_ok p" "frame_ok p c (F @ [f]) (length F)" "length (stream p c (F @ [f]) (Suc (length F))) \<le> u64_max - 7" "Suc (length F) \<le> u64_max - 7"
proof -
  have G: "G = (F @ [f]) @ rest" using assms(2) by simp
  note fg = assms(1) [unfolded fits_def]
  show "policy_ok p" using fg by simp
  have "frame_ok p c G (length F)" using fg assms(2) by (auto intro: frames_okD)
  then show "frame_ok p c (F @ [f]) (length F)" unfolding G by (simp add: frame_ok_def prev_key_append nth_append)
  have "stream p c (F @ [f]) (Suc (length F)) = stream p c G (Suc (length F))" unfolding G by (rule stream_append [symmetric]) simp
  then show "length (stream p c (F @ [f]) (Suc (length F))) \<le> u64_max - 7"
    using stream_prefix [of "Suc (length F)" "length G" p c G] fg assms(2) by auto
  have "length G \<le> place p c G (length G)" using fg by (intro residual_mono(3)) simp_all
  also have "\<dots> \<le> length (stream p c G (length G))" by (rule place_length)
  finally show "Suc (length F) \<le> u64_max - 7" using fg assms(2) by simp
qed

lemma last_key [simp]: "prev_key (F @ [f]) (Suc (length F)) = fr_key f"
  by (simp add: prev_key_def)

text \<open>An input whose keys ascend as far as it has been read, and inputs that do not ascend throughout.\<close>

definition rising :: "frame list \<Rightarrow> nat \<Rightarrow> bool" where
  "rising F i \<longleftrightarrow> (\<forall>k<i. Suc k < length F \<longrightarrow> lex (fr_key (F ! k)) (fr_key (F ! Suc k)) < 0)"

definition descends :: "frame list \<Rightarrow> nat \<Rightarrow> bool" where
  "descends F i \<longleftrightarrow> Suc i < length F \<and> lex (fr_key (F ! i)) (fr_key (F ! Suc i)) \<ge> 0"

lemma rising_Suc: "rising F i \<Longrightarrow> \<not> descends F i \<Longrightarrow> rising F (Suc i)"
  by (auto simp: rising_def descends_def less_Suc_eq)

lemma rising_all: "i \<le> length F \<Longrightarrow> length F \<le> Suc i \<Longrightarrow> rising F i \<Longrightarrow> \<not> descends F k"
  by (auto simp: rising_def descends_def not_le)

section \<open>The interface of a cursor\<close>

locale merge_source =
  fixes src :: "'c source_ops" and p :: storage_policy and stand :: "frame list \<Rightarrow> nat \<Rightarrow> 'c \<Rightarrow> bool"
  assumes stand_done: "stand F i c \<Longrightarrow> so_done src c \<longleftrightarrow> i = length F"
    and stand_le: "stand F i c \<Longrightarrow> i \<le> length F"
    and stand_frame: "stand F i c \<Longrightarrow> i < length F \<Longrightarrow> unit_multiple p (length (fr_key (F ! i))) \<and>
      fr_kept (F ! i) * bits_per_unit p \<le> lcp (prev_key F i) (fr_key (F ! i)) \<and> length (fr_key (F ! i)) \<le> u64_max - 7"
    and stand_value: "stand F i c \<Longrightarrow> i < length F \<Longrightarrow> \<exists>v. so_value src c = Inr v \<and> view_ok v \<and> view_bits v = fr_value (F ! i)"
    and stand_key: "stand F i c \<Longrightarrow> i < length F \<Longrightarrow> \<exists>v. so_key src c = Inr v \<and> view_ok v \<and> view_bits v = fr_key (F ! i)"
    and stand_retained: "stand F i c \<Longrightarrow> i < length F \<Longrightarrow> so_retained_bits src c = Inr (fr_kept (F ! i) * bits_per_unit p)"
    and stand_suffix: "stand F i c \<Longrightarrow> i < length F \<Longrightarrow> fr_kept (F ! i) \<le> r \<Longrightarrow> r * bits_per_unit p \<le> length (fr_key (F ! i)) \<Longrightarrow>
      \<exists>v. so_suffix src c r = Inr v \<and> view_ok v \<and> view_bits v = drop (r * bits_per_unit p) (fr_key (F ! i))"
    and stand_literal: "stand F i c \<Longrightarrow> i < length F \<Longrightarrow> r * bits_per_unit p \<le> length (fr_key (F ! i)) \<Longrightarrow>
      \<exists>v. so_literal src c r = Inr v \<and> view_ok v \<and> view_bits v = drop (r * bits_per_unit p) (fr_key (F ! i))"
    and stand_donor: "stand F i c \<Longrightarrow> i < length F \<Longrightarrow> stand G j d \<Longrightarrow> j < length G \<Longrightarrow> \<exists>b. so_newer_donates src c d = Inr b"
    and stand_advance: "stand F i c \<Longrightarrow> i < length F \<Longrightarrow> (Suc i < length F \<Longrightarrow> lex (fr_key (F ! i)) (fr_key (F ! Suc i)) < 0) \<Longrightarrow>
      \<exists>c'. merge_advance p (so_advance src) c =
        (Inr (if Suc i < length F then lcp (fr_key (F ! i)) (fr_key (F ! Suc i)) div bits_per_unit p else 0), c') \<and> stand F (Suc i) c'"
    and stand_unsorted: "stand F i c \<Longrightarrow> i < length F \<Longrightarrow> Suc i < length F \<Longrightarrow> lex (fr_key (F ! i)) (fr_key (F ! Suc i)) \<ge> 0 \<Longrightarrow>
      \<exists>c'. merge_advance p (so_advance src) c = (Inl (Invalid_argument ''native merge inputs must have unique sorted keys''), c')"
begin

text \<open>A head whose shared prefix with the last emitted key is known in whole units.\<close>

definition head_ok :: "frame list \<Rightarrow> nat \<Rightarrow> 'c \<Rightarrow> nat \<Rightarrow> bool list \<Rightarrow> bool \<Rightarrow> bool" where
  "head_ok F i c n l started \<longleftrightarrow> stand F i c \<and> lex (prev_key F i) l \<le> 0 \<and>
     (i < length F \<longrightarrow> n = lcp l (fr_key (F ! i)) div bits_per_unit p \<and> lex l (fr_key (F ! i)) \<le> 0 \<and>
       (started \<longrightarrow> lex l (fr_key (F ! i)) < 0))"

lemma head_kept:
  assumes "head_ok F i c n l started" "i < length F"
  shows "fr_kept (F ! i) \<le> n" "n * bits_per_unit p \<le> lcp l (fr_key (F ! i))" "n * bits_per_unit p \<le> length (fr_key (F ! i))"
proof -
  let ?u = "bits_per_unit p" and ?k = "fr_key (F ! i)"
  have h: "stand F i c" "lex (prev_key F i) l \<le> 0" "n = lcp l ?k div ?u" "lex l ?k \<le> 0" using assms by (simp_all add: head_ok_def)
  have "lcp (prev_key F i) ?k \<le> lcp l ?k" using lcp_between [OF h(2,4)] by simp
  then have "fr_kept (F ! i) * ?u \<le> lcp l ?k" using stand_frame [OF h(1) assms(2)] by simp
  then show "fr_kept (F ! i) \<le> n" unfolding h(3) by (simp add: less_eq_div_iff_mult_less_eq)
  show n: "n * ?u \<le> lcp l ?k" unfolding h(3) by simp
  then show "n * ?u \<le> length ?k" using lcp_le(2) [of l ?k] by simp
qed

lemma compare_heads_holds:
  assumes a: "head_ok A i (nm_older s) (nm_older_prefix s) l b" and b: "head_ok B j (nm_newer s) (nm_newer_prefix s) l b'"
    and left: "i < length A \<or> j < length B"
  shows "\<exists>r. compare_heads host p src s = Inr r \<and> order r = side A B i j \<and>
    (i < length A \<longrightarrow> j < length B \<longrightarrow> common_bits r div bits_per_unit p = lcp (fr_key (A ! i)) (fr_key (B ! j)) div bits_per_unit p)"
proof -
  let ?u = "bits_per_unit p" and ?a = "fr_key (A ! i)" and ?b = "fr_key (B ! j)" and ?m = "nm_older_prefix s" and ?n = "nm_newer_prefix s"
  have st: "stand A i (nm_older s)" "stand B j (nm_newer s)" using a b by (simp_all add: head_ok_def)
  have dn: "so_done src (nm_older s) \<longleftrightarrow> i = length A" "so_done src (nm_newer s) \<longleftrightarrow> j = length B" "i \<le> length A" "j \<le> length B"
    using stand_done st stand_le by auto
  show ?thesis
  proof (cases "i < length A \<and> j < length B")
    case False
    then show ?thesis using dn left by (cases "i = length A") (auto simp: compare_heads_def side_def)
  next
    case True
    have ha: "?m = lcp l ?a div ?u" "lex l ?a \<le> 0" and hb: "?n = lcp l ?b div ?u" "lex l ?b \<le> 0"
      using a b True by (simp_all add: head_ok_def)
    have ka: "fr_kept (A ! i) \<le> ?m" "?m * ?u \<le> lcp l ?a" "?m * ?u \<le> length ?a" using head_kept [OF a] True by simp_all
    have kb: "fr_kept (B ! j) \<le> ?n" "?n * ?u \<le> lcp l ?b" "?n * ?u \<le> length ?b" using head_kept [OF b] True by simp_all
    have sd: "side A B i j = lex ?a ?b" using True by (simp add: side_def)
    have ub: "unit_bits p k = k * ?u" if "k \<le> ?m" for k
    proof -
      have "k * ?u \<le> length ?a" using mult_le_mono1 [OF that, of ?u] ka(3) by (rule order_trans)
      then show ?thesis using stand_frame [OF st(1)] True unfolding unit_bits_def by (intro mod_less) (simp add: u64_max_def)
    qed
    consider "?m = ?n" | "?m > ?n" | "?m < ?n" by linarith
    then show ?thesis
    proof cases
      case 1
      obtain x where x: "so_suffix src (nm_older s) ?m = Inr x" "view_ok x" "view_bits x = drop (?m * ?u) ?a"
        using stand_suffix [OF st(1) _ ka(1,3)] True by blast
      obtain y where y: "so_suffix src (nm_newer s) ?m = Inr y" "view_ok y" "view_bits y = drop (?m * ?u) ?b"
        using stand_suffix [OF st(2) _ kb(1,3)] True unfolding 1 by blast
      note same = shares_same [OF ka(2), of ?b, OF kb(2) [folded 1]]
      show ?thesis
        using True dn x(1) y(1) compare_common_bits_spec [OF x(2) y(2), of host] sd same 1 [symmetric] ub [OF order_refl] x(3) y(3)
        by (simp add: compare_heads_def add.commute)
    next
      case 2
      have "lcp l ?b < lcp l ?a" using 2 ha(1) hb(1) by (metis div_le_mono not_le)
      note first = shares_more_first [OF ha(2) hb(2) this]
      have "?n * ?u div ?u = lcp l ?b div ?u" using hb(1) by simp
      then show ?thesis using True dn 2 sd first ub [of ?n] by (simp add: compare_heads_def)
    next
      case 3
      have "lcp l ?a < lcp l ?b" using 3 ha(1) hb(1) by (metis div_le_mono not_le)
      note first = shares_more_first [OF hb(2) ha(2) this]
      have "lex ?a ?b = 1" "lcp ?a ?b = lcp l ?a" using first lex_swap [of ?a ?b] by (simp_all add: lcp_commute)
      moreover have "?m * ?u div ?u = lcp l ?a div ?u" using ha(1) by simp
      ultimately show ?thesis using True dn 3 sd ub [of ?m] by (simp add: compare_heads_def)
    qed
  qed
qed


text \<open>One output record.\<close>

lemma merge_append_holds:
  assumes c: "stand S i c" "i < length S" and out: "outputting p co F (nm_writer s)" and h: "buries tombs h"
    and v: "view_ok v" "view_bits v = val" and n: "n = lcp (prev_key F (length F)) (fr_key (S ! i)) div bits_per_unit p"
    and f: "f = \<lparr>fr_kept = draft_kept p (prev_key F (length F)) (fr_key (S ! i)) (if h (fr_key (S ! i)) val then Some l else None),
        fr_key = fr_key (S ! i), fr_value = val\<rparr>"
    and G: "fits p co G" "G = F @ f # rest" and up: "F \<noteq> [] \<Longrightarrow> lex (prev_key F (length F)) (fr_key (S ! i)) < 0"
  shows "\<exists>w. merge_append host p src tombs c v n (l * bits_per_unit p) s = (Inr (), s\<lparr>nm_writer := w\<rparr>) \<and> outputting p co (F @ [f]) w"
proof -
  let ?u = "bits_per_unit p" and ?k = "fr_key (S ! i)" and ?l = "prev_key F (length F)"
  note fit = fits_next [OF G]
  obtain k where k: "so_key src c = Inr k" "view_ok k" "view_bits k = ?k" using stand_key [OF c] by blast
  have tomb: "is_tombstone tombs (so_key src c) v = Inr (h ?k val)" using buriesD [OF h k(2) v(1)] k(1,3) v(2) by simp
  define kept where "kept = (if h ?k val then min n l else n)"
  have fk: "fr_kept f = kept" "fr_key f = ?k" "fr_value f = val" using n by (simp_all add: f draft_kept_def kept_def)
  have "kept * ?u \<le> n * ?u" by (rule mult_le_mono1) (simp add: kept_def)
  then have ku: "kept * ?u \<le> lcp ?l ?k" unfolding n by (meson div_times_less_eq_dividend le_trans)
  then have "kept * ?u \<le> length ?k" using lcp_le(2) [of ?l ?k] by simp
  then obtain x where x: "so_literal src c kept = Inr x" "view_ok x" "view_bits x = drop (kept * ?u) ?k"
    using stand_literal [OF c] by blast
  have more: "bsize x \<noteq> 0" if "F \<noteq> []"
  proof
    assume "bsize x = 0"
    then have "length ?k \<le> lcp ?l ?k" using length_view_bits [OF x(2)] x(3) ku by simp
    then have "lcp ?l ?k = length ?k" using lcp_le(2) [of ?l ?k] by simp
    then show False using lex_prefix_ge up [OF that] by fastforce
  qed
  have kl: "length ?k \<le> u64_max - 7" using stand_frame [OF c] by simp
  obtain w where w: "output_append host p kept x v (nm_writer s) = (Inr (), w)" "outputting p co (F @ [f]) w"
    using output_append_holds [OF fit(1) out x(2) _ v(1) _ fit(2) more fit(3), of host] x(3) v(2) kl unfolding fk by auto
  have "(if h ?k val then min n (l * ?u div ?u) else n) = kept" by (simp add: kept_def)
  then have "merge_append host p src tombs c v n (l * ?u) s = (Inr (), s\<lparr>nm_writer := w\<rparr>)"
    using tomb x(1) w(1) by (simp add: merge_append_def bindM_apply Let_def)
  then show ?thesis using w(2) by blast
qed

lemma advance_head:
  assumes "stand F i c" "i < length F" "\<not> descends F i"
  obtains c' n where "merge_advance p (so_advance src) c = (Inr n, c')" "head_ok F (Suc i) c' n (fr_key (F ! i)) True"
proof -
  obtain c' where c': "merge_advance p (so_advance src) c =
      (Inr (if Suc i < length F then lcp (fr_key (F ! i)) (fr_key (F ! Suc i)) div bits_per_unit p else 0), c')" "stand F (Suc i) c'"
    using stand_advance [OF assms(1,2)] assms(3) by (auto simp: descends_def not_le)
  have "head_ok F (Suc i) c' (if Suc i < length F then lcp (fr_key (F ! i)) (fr_key (F ! Suc i)) div bits_per_unit p else 0)
      (fr_key (F ! i)) True"
    using c'(2) assms(3) by (auto simp: head_ok_def descends_def)
  then show thesis using c'(1) that by blast
qed

text \<open>What the emitting of one record leaves to do: advancing the inputs it consumed.\<close>

lemma emit_older_upto:
  assumes a: "head_ok A i (nm_older s) (nm_older_prefix s) (prev_key F (length F)) (F \<noteq> [])" "i < length A"
    and out: "outputting p co F (nm_writer s)" and h: "buries tombs h"
    and f: "f = \<lparr>fr_kept = draft_kept p (prev_key F (length F)) (fr_key (A ! i)) (if h (fr_key (A ! i)) (fr_value (A ! i)) then Some (fr_kept (A ! i)) else None),
        fr_key = fr_key (A ! i), fr_value = fr_value (A ! i)\<rparr>"
    and G: "fits p co G" "G = F @ f # rest"
  shows "\<exists>w. outputting p co (F @ [f]) w \<and> emit_older host p src tombs r s =
    advance_older p src (s\<lparr>nm_writer := w, nm_newer_prefix := common_bits r div bits_per_unit p\<rparr>)"
proof -
  have st: "stand A i (nm_older s)" and n: "nm_older_prefix s = lcp (prev_key F (length F)) (fr_key (A ! i)) div bits_per_unit p"
    and up: "F \<noteq> [] \<Longrightarrow> lex (prev_key F (length F)) (fr_key (A ! i)) < 0" using a by (simp_all add: head_ok_def)
  obtain v where v: "so_value src (nm_older s) = Inr v" "view_ok v" "view_bits v = fr_value (A ! i)" using stand_value [OF st a(2)] by blast
  obtain w where w: "merge_append host p src tombs (nm_older s) v (nm_older_prefix s) (fr_kept (A ! i) * bits_per_unit p) s = (Inr (), s\<lparr>nm_writer := w\<rparr>)"
    "outputting p co (F @ [f]) w" using merge_append_holds [OF st a(2) out h v(2,3) n f G up] by blast
  show ?thesis using v(1) stand_retained [OF st a(2)] w by (auto simp: emit_older_def bindM_apply)
qed

lemma emit_newer_upto:
  assumes b: "head_ok B j (nm_newer s) (nm_newer_prefix s) (prev_key F (length F)) (F \<noteq> [])" "j < length B"
    and out: "outputting p co F (nm_writer s)" and h: "buries tombs h"
    and f: "f = \<lparr>fr_kept = draft_kept p (prev_key F (length F)) (fr_key (B ! j)) (if h (fr_key (B ! j)) (fr_value (B ! j)) then Some (fr_kept (B ! j)) else None),
        fr_key = fr_key (B ! j), fr_value = fr_value (B ! j)\<rparr>"
    and G: "fits p co G" "G = F @ f # rest"
  shows "\<exists>w. outputting p co (F @ [f]) w \<and> emit_newer host p src tombs r s =
    advance_newer p src (s\<lparr>nm_writer := w, nm_older_prefix := common_bits r div bits_per_unit p\<rparr>)"
proof -
  have st: "stand B j (nm_newer s)" and n: "nm_newer_prefix s = lcp (prev_key F (length F)) (fr_key (B ! j)) div bits_per_unit p"
    and up: "F \<noteq> [] \<Longrightarrow> lex (prev_key F (length F)) (fr_key (B ! j)) < 0" using b by (simp_all add: head_ok_def)
  obtain v where v: "so_value src (nm_newer s) = Inr v" "view_ok v" "view_bits v = fr_value (B ! j)" using stand_value [OF st b(2)] by blast
  obtain w where w: "merge_append host p src tombs (nm_newer s) v (nm_newer_prefix s) (fr_kept (B ! j) * bits_per_unit p) s = (Inr (), s\<lparr>nm_writer := w\<rparr>)"
    "outputting p co (F @ [f]) w" using merge_append_holds [OF st b(2) out h v(2,3) n f G up] by blast
  show ?thesis using v(1) stand_retained [OF st b(2)] w by (auto simp: emit_newer_def bindM_apply)
qed

lemma emit_both_upto:
  assumes a: "head_ok A i (nm_older s) (nm_older_prefix s) (prev_key F (length F)) (F \<noteq> [])" "i < length A"
    and b: "head_ok B j (nm_newer s) (nm_newer_prefix s) (prev_key F (length F)) (F \<noteq> [])" "j < length B"
    and eq: "fr_key (A ! i) = fr_key (B ! j)"
    and out: "outputting p co F (nm_writer s)" and g: "composes fuse g" and h: "buries tombs h"
    and val: "val = g (fr_key (A ! i)) (fr_value (A ! i)) (fr_value (B ! j))"
    and f: "f = \<lparr>fr_kept = draft_kept p (prev_key F (length F)) (fr_key (A ! i)) (if h (fr_key (A ! i)) val then Some (min (fr_kept (A ! i)) (fr_kept (B ! j))) else None),
        fr_key = fr_key (A ! i), fr_value = val\<rparr>"
    and G: "fits p co G" "G = F @ f # rest"
  shows "\<exists>w. outputting p co (F @ [f]) w \<and> emit_both host p src fuse tombs s =
    bindM (advance_older p src) (\<lambda>_. advance_newer p src) (s\<lparr>nm_writer := w\<rparr>)"
proof -
  let ?u = "bits_per_unit p" and ?l = "prev_key F (length F)"
  have st: "stand A i (nm_older s)" "stand B j (nm_newer s)" and n: "nm_older_prefix s = lcp ?l (fr_key (A ! i)) div ?u"
    and up: "F \<noteq> [] \<Longrightarrow> lex ?l (fr_key (A ! i)) < 0" using a b by (simp_all add: head_ok_def)
  obtain va where va: "so_value src (nm_older s) = Inr va" "view_ok va" "view_bits va = fr_value (A ! i)" using stand_value [OF st(1) a(2)] by blast
  obtain vb where vb: "so_value src (nm_newer s) = Inr vb" "view_ok vb" "view_bits vb = fr_value (B ! j)" using stand_value [OF st(2) b(2)] by blast
  obtain k where k: "so_key src (nm_older s) = Inr k" "view_ok k" "view_bits k = fr_key (A ! i)" using stand_key [OF st(1) a(2)] by blast
  obtain v where v: "compose_values fuse (so_key src (nm_older s)) va vb = Inr v" "view_ok v" "view_bits v = val"
    using composesD [OF g k(2) va(2) vb(2)] k(1,3) va(3) vb(3) unfolding val by auto
  obtain d where d: "so_newer_donates src (nm_older s) (nm_newer s) = Inr d" using stand_donor [OF st(1) a(2) st(2) b(2)] by blast
  have lim: "min (fr_kept (A ! i) * ?u) (fr_kept (B ! j) * ?u) = min (fr_kept (A ! i)) (fr_kept (B ! j)) * ?u"
    by (simp add: min_def)
  have "\<exists>w. merge_append host p src tombs (if d then nm_newer s else nm_older s) v (nm_older_prefix s)
      (min (fr_kept (A ! i)) (fr_kept (B ! j)) * ?u) s = (Inr (), s\<lparr>nm_writer := w\<rparr>) \<and> outputting p co (F @ [f]) w"
  proof (cases d)
    case True
    then show ?thesis using merge_append_holds [OF st(2) b(2) out h v(2,3), of _ f] n f G up unfolding eq by auto
  next
    case False
    then show ?thesis using merge_append_holds [OF st(1) a(2) out h v(2,3) n f G up] by auto
  qed
  then show ?thesis
    using va(1) vb(1) v(1) d stand_retained [OF st(1) a(2)] stand_retained [OF st(2) b(2)] lim
    by (auto simp: emit_both_def bindM_apply)
qed


text \<open>The builder between two records.\<close>

definition merging where
  "merging co G g h A B i j F s \<longleftrightarrow>
     head_ok A i (nm_older s) (nm_older_prefix s) (prev_key F (length F)) (F \<noteq> []) \<and>
     head_ok B j (nm_newer s) (nm_newer_prefix s) (prev_key F (length F)) (F \<noteq> []) \<and>
     rising A i \<and> rising B j \<and> outputting p co F (nm_writer s) \<and> nm_pinned s \<and> \<not> nm_failed s \<and>
     nm_keys s = length F \<and> nm_records s = i + j \<and>
     G = F @ code_drafts p (prev_key F (length F)) (rest_drafts g h A B i j)"

definition refused where
  "refused A B r s' \<longleftrightarrow> ((\<exists>k. descends A k) \<or> (\<exists>k. descends B k)) \<and>
     r = Inl (Invalid_argument ''native merge inputs must have unique sorted keys'') \<and> nm_pinned s'"

lemma merging_left: "merging co G g h A B i j F s \<Longrightarrow> nm_done src s \<longleftrightarrow> i = length A \<and> j = length B"
  by (auto simp: merging_def nm_done_def head_ok_def stand_done)

text \<open>A head that was not consumed keeps to the new last key.\<close>

lemma head_stays:
  assumes "head_ok F i c n l started" "lex l key \<le> 0" "i < length F \<Longrightarrow> m = lcp key (fr_key (F ! i)) div bits_per_unit p \<and> lex key (fr_key (F ! i)) < 0"
  shows "head_ok F i c m key True"
  using assms lcp_between [of "prev_key F i" l key] by (auto simp: head_ok_def)

lemma emit_older_holds:
  assumes m: "merging co G g h A B i j F s" and sd: "side A B i j < 0" and left: "i < length A \<or> j < length B"
    and fit: "fits p co G" and h: "buries tombs h"
    and r: "j < length B \<Longrightarrow> common_bits r div bits_per_unit p = lcp (fr_key (A ! i)) (fr_key (B ! j)) div bits_per_unit p"
    and n: "keys = Suc (length F)" "records = Suc (i + j)"
  shows "if descends A i then \<exists>s' x. emit_older host p src tombs r s = (x, s') \<and> refused A B x s'
    else \<exists>s' f. emit_older host p src tombs r s = (Inr (), s') \<and> merging co G g h A B (Suc i) j (F @ [f]) (s'\<lparr>nm_keys := keys, nm_records := records\<rparr>)"
proof -
  note mg = m [unfolded merging_def]
  have i: "i < length A" and rest: "rest_drafts g h A B i j = draft_of h (fr_key (A ! i)) (fr_value (A ! i)) (fr_kept (A ! i)) # rest_drafts g h A B (Suc i) j"
    using rest_drafts_step(1) [OF left sd] by blast+
  define f where "f = \<lparr>fr_kept = draft_kept p (prev_key F (length F)) (fr_key (A ! i)) (if h (fr_key (A ! i)) (fr_value (A ! i)) then Some (fr_kept (A ! i)) else None),
        fr_key = fr_key (A ! i), fr_value = fr_value (A ! i)\<rparr>"
  have G: "G = F @ f # code_drafts p (fr_key f) (rest_drafts g h A B (Suc i) j)"
    using mg rest by (simp add: draft_of_def f_def)
  obtain w where w: "outputting p co (F @ [f]) w" "emit_older host p src tombs r s =
      advance_older p src (s\<lparr>nm_writer := w, nm_newer_prefix := common_bits r div bits_per_unit p\<rparr>)"
    using emit_older_upto [OF _ i _ h f_def fit G, of s host r] mg by blast
  define t where "t = s\<lparr>nm_writer := w, nm_newer_prefix := common_bits r div bits_per_unit p\<rparr>"
  have st: "stand A i (nm_older t)" using mg by (simp add: t_def head_ok_def)
  show ?thesis
  proof (cases "descends A i")
    case True
    obtain c where "merge_advance p (so_advance src) (nm_older t) = (Inl (Invalid_argument ''native merge inputs must have unique sorted keys''), c)"
      using stand_unsorted [OF st i] True by (auto simp: descends_def)
    then have "advance_older p src t = (Inl (Invalid_argument ''native merge inputs must have unique sorted keys''), t\<lparr>nm_older := c\<rparr>)"
      by (simp add: advance_older_def)
    then show ?thesis using True w(2) mg by (auto simp: refused_def t_def [symmetric]) (simp add: t_def)
  next
    case False
    obtain c m where c: "merge_advance p (so_advance src) (nm_older t) = (Inr m, c)" "head_ok A (Suc i) c m (fr_key (A ! i)) True"
      using advance_head [OF st i False] by blast
    define s' where "s' = t\<lparr>nm_older := c, nm_older_prefix := m\<rparr>"
    have "advance_older p src t = (Inr (), s')" using c(1) by (simp add: advance_older_def s'_def)
    moreover have "head_ok B j (nm_newer s) (common_bits r div bits_per_unit p) (fr_key (A ! i)) True"
    proof (rule head_stays)
      show "head_ok B j (nm_newer s) (nm_newer_prefix s) (prev_key F (length F)) (F \<noteq> [])" using mg by simp
      show "lex (prev_key F (length F)) (fr_key (A ! i)) \<le> 0" using mg i by (simp add: head_ok_def)
      show "common_bits r div bits_per_unit p = lcp (fr_key (A ! i)) (fr_key (B ! j)) div bits_per_unit p \<and> lex (fr_key (A ! i)) (fr_key (B ! j)) < 0"
        if "j < length B" using r [OF that] sd i that by (simp add: side_def)
    qed
    moreover have "rising A (Suc i)" using mg False by (simp add: rising_Suc)
    ultimately have "merging co G g h A B (Suc i) j (F @ [f]) (s'\<lparr>nm_keys := keys, nm_records := records\<rparr>)"
      using mg w(1) c(2) G n by (simp add: merging_def s'_def t_def f_def)
    then show ?thesis using False w(2) \<open>advance_older p src t = (Inr (), s')\<close> by (auto simp: t_def [symmetric])
  qed
qed

lemma emit_newer_holds:
  assumes m: "merging co G g h A B i j F s" and sd: "side A B i j > 0" and left: "i < length A \<or> j < length B"
    and fit: "fits p co G" and h: "buries tombs h"
    and r: "i < length A \<Longrightarrow> common_bits r div bits_per_unit p = lcp (fr_key (A ! i)) (fr_key (B ! j)) div bits_per_unit p"
    and n: "keys = Suc (length F)" "records = Suc (i + j)"
  shows "if descends B j then \<exists>s' x. emit_newer host p src tombs r s = (x, s') \<and> refused A B x s'
    else \<exists>s' f. emit_newer host p src tombs r s = (Inr (), s') \<and> merging co G g h A B i (Suc j) (F @ [f]) (s'\<lparr>nm_keys := keys, nm_records := records\<rparr>)"
proof -
  note mg = m [unfolded merging_def]
  have j: "j < length B" and rest: "rest_drafts g h A B i j = draft_of h (fr_key (B ! j)) (fr_value (B ! j)) (fr_kept (B ! j)) # rest_drafts g h A B i (Suc j)"
    using rest_drafts_step(2) [OF left sd] by blast+
  define f where "f = \<lparr>fr_kept = draft_kept p (prev_key F (length F)) (fr_key (B ! j)) (if h (fr_key (B ! j)) (fr_value (B ! j)) then Some (fr_kept (B ! j)) else None),
        fr_key = fr_key (B ! j), fr_value = fr_value (B ! j)\<rparr>"
  have G: "G = F @ f # code_drafts p (fr_key f) (rest_drafts g h A B i (Suc j))"
    using mg rest by (simp add: draft_of_def f_def)
  obtain w where w: "outputting p co (F @ [f]) w" "emit_newer host p src tombs r s =
      advance_newer p src (s\<lparr>nm_writer := w, nm_older_prefix := common_bits r div bits_per_unit p\<rparr>)"
    using emit_newer_upto [OF _ j _ h f_def fit G, of s host r] mg by blast
  define t where "t = s\<lparr>nm_writer := w, nm_older_prefix := common_bits r div bits_per_unit p\<rparr>"
  have st: "stand B j (nm_newer t)" using mg by (simp add: t_def head_ok_def)
  show ?thesis
  proof (cases "descends B j")
    case True
    obtain c where "merge_advance p (so_advance src) (nm_newer t) = (Inl (Invalid_argument ''native merge inputs must have unique sorted keys''), c)"
      using stand_unsorted [OF st j] True by (auto simp: descends_def)
    then have "advance_newer p src t = (Inl (Invalid_argument ''native merge inputs must have unique sorted keys''), t\<lparr>nm_newer := c\<rparr>)"
      by (simp add: advance_newer_def)
    then show ?thesis using True w(2) mg by (auto simp: refused_def t_def [symmetric]) (simp add: t_def)
  next
    case False
    obtain c m where c: "merge_advance p (so_advance src) (nm_newer t) = (Inr m, c)" "head_ok B (Suc j) c m (fr_key (B ! j)) True"
      using advance_head [OF st j False] by blast
    define s' where "s' = t\<lparr>nm_newer := c, nm_newer_prefix := m\<rparr>"
    have "advance_newer p src t = (Inr (), s')" using c(1) by (simp add: advance_newer_def s'_def)
    moreover have "head_ok A i (nm_older s) (common_bits r div bits_per_unit p) (fr_key (B ! j)) True"
    proof (rule head_stays)
      show "head_ok A i (nm_older s) (nm_older_prefix s) (prev_key F (length F)) (F \<noteq> [])" using mg by simp
      show "lex (prev_key F (length F)) (fr_key (B ! j)) \<le> 0" using mg j by (simp add: head_ok_def)
      show "common_bits r div bits_per_unit p = lcp (fr_key (B ! j)) (fr_key (A ! i)) div bits_per_unit p \<and> lex (fr_key (B ! j)) (fr_key (A ! i)) < 0"
        if "i < length A" using r [OF that] sd j that lex_swap [of "fr_key (A ! i)" "fr_key (B ! j)"] by (simp add: side_def lcp_commute)
    qed
    moreover have "rising B (Suc j)" using mg False by (simp add: rising_Suc)
    ultimately have "merging co G g h A B i (Suc j) (F @ [f]) (s'\<lparr>nm_keys := keys, nm_records := records\<rparr>)"
      using mg w(1) c(2) G n by (simp add: merging_def s'_def t_def f_def)
    then show ?thesis using False w(2) \<open>advance_newer p src t = (Inr (), s')\<close> by (auto simp: t_def [symmetric])
  qed
qed

lemma emit_both_holds:
  assumes m: "merging co G g h A B i j F s" and sd: "side A B i j = 0" and left: "i < length A \<or> j < length B"
    and fit: "fits p co G" and g: "composes fuse g" and h: "buries tombs h"
    and n: "keys = Suc (length F)" "records = i + j + 2"
  shows "if descends A i \<or> descends B j then \<exists>s' x. emit_both host p src fuse tombs s = (x, s') \<and> refused A B x s'
    else \<exists>s' f. emit_both host p src fuse tombs s = (Inr (), s') \<and> merging co G g h A B (Suc i) (Suc j) (F @ [f]) (s'\<lparr>nm_keys := keys, nm_records := records\<rparr>)"
proof -
  let ?val = "g (fr_key (A ! i)) (fr_value (A ! i)) (fr_value (B ! j))"
  note mg = m [unfolded merging_def]
  have i: "i < length A" and j: "j < length B" and eq: "fr_key (A ! i) = fr_key (B ! j)"
    and rest: "rest_drafts g h A B i j = draft_of h (fr_key (A ! i)) ?val (min (fr_kept (A ! i)) (fr_kept (B ! j))) # rest_drafts g h A B (Suc i) (Suc j)"
    using rest_drafts_step(3) [OF left sd] by blast+
  define f where "f = \<lparr>fr_kept = draft_kept p (prev_key F (length F)) (fr_key (A ! i))
        (if h (fr_key (A ! i)) ?val then Some (min (fr_kept (A ! i)) (fr_kept (B ! j))) else None),
      fr_key = fr_key (A ! i), fr_value = ?val\<rparr>"
  have G: "G = F @ f # code_drafts p (fr_key f) (rest_drafts g h A B (Suc i) (Suc j))"
    using mg rest by (simp add: draft_of_def f_def)
  obtain w where w: "outputting p co (F @ [f]) w" "emit_both host p src fuse tombs s =
      bindM (advance_older p src) (\<lambda>_. advance_newer p src) (s\<lparr>nm_writer := w\<rparr>)"
    using emit_both_upto [OF _ i _ j eq _ g h refl f_def fit G, of s host] mg by blast
  define t where "t = s\<lparr>nm_writer := w\<rparr>"
  have st: "stand A i (nm_older t)" using mg by (simp add: t_def head_ok_def)
  show ?thesis
  proof (cases "descends A i")
    case True
    obtain c where "merge_advance p (so_advance src) (nm_older t) = (Inl (Invalid_argument ''native merge inputs must have unique sorted keys''), c)"
      using stand_unsorted [OF st i] True by (auto simp: descends_def)
    then have "advance_older p src t = (Inl (Invalid_argument ''native merge inputs must have unique sorted keys''), t\<lparr>nm_older := c\<rparr>)"
      by (simp add: advance_older_def)
    then show ?thesis using True w(2) mg by (auto simp: refused_def t_def [symmetric]) (simp add: t_def)
  next
    case a: False
    obtain c m where c: "merge_advance p (so_advance src) (nm_older t) = (Inr m, c)" "head_ok A (Suc i) c m (fr_key (A ! i)) True"
      using advance_head [OF st i a] by blast
    define t1 where "t1 = t\<lparr>nm_older := c, nm_older_prefix := m\<rparr>"
    have adv: "advance_older p src t = (Inr (), t1)" using c(1) by (simp add: advance_older_def t1_def)
    have st1: "stand B j (nm_newer t1)" using mg by (simp add: t1_def t_def head_ok_def)
    show ?thesis
    proof (cases "descends B j")
      case True
      obtain d where "merge_advance p (so_advance src) (nm_newer t1) = (Inl (Invalid_argument ''native merge inputs must have unique sorted keys''), d)"
        using stand_unsorted [OF st1 j] True by (auto simp: descends_def)
      then have "advance_newer p src t1 = (Inl (Invalid_argument ''native merge inputs must have unique sorted keys''), t1\<lparr>nm_newer := d\<rparr>)"
        by (simp add: advance_newer_def)
      then show ?thesis using True w(2) adv mg by (auto simp: refused_def t_def [symmetric]) (simp add: t1_def t_def)
    next
      case False
      obtain d n where d: "merge_advance p (so_advance src) (nm_newer t1) = (Inr n, d)" "head_ok B (Suc j) d n (fr_key (B ! j)) True"
        using advance_head [OF st1 j False] by blast
      define s' where "s' = t1\<lparr>nm_newer := d, nm_newer_prefix := n\<rparr>"
      have nw: "advance_newer p src t1 = (Inr (), s')" using d(1) by (simp add: advance_newer_def s'_def)
      have "rising A (Suc i)" "rising B (Suc j)" using mg a False by (simp_all add: rising_Suc)
      then have "merging co G g h A B (Suc i) (Suc j) (F @ [f]) (s'\<lparr>nm_keys := keys, nm_records := records\<rparr>)"
        using mg w(1) c(2) d(2) G assms(7,8) eq by (simp add: merging_def s'_def t1_def t_def f_def)
      then show ?thesis using a False w(2) adv nw by (auto simp: t_def [symmetric])
    qed
  qed
qed

lemma merge_one_holds:
  assumes m: "merging co G g h A B i j F s" and left: "i < length A \<or> j < length B"
    and fit: "fits p co G" and g: "composes fuse g" and h: "buries tombs h" and cap: "length A + length B \<le> u64_max"
  shows "\<exists>x s'. merge_one host p src fuse tombs s = (x, s') \<and> (refused A B x s' \<or>
    (\<exists>n i' j' f. x = Inr n \<and> merging co G g h A B i' j' (F @ [f]) s' \<and> i' + j' = i + j + n))"
proof -
  note mg = m [unfolded merging_def]
  obtain r where r: "compare_heads host p src s = Inr r" "order r = side A B i j"
      "i < length A \<Longrightarrow> j < length B \<Longrightarrow> common_bits r div bits_per_unit p = lcp (fr_key (A ! i)) (fr_key (B ! j)) div bits_per_unit p"
    using compare_heads_holds [OF _ _ left, of s "prev_key F (length F)" "F \<noteq> []" "F \<noteq> []" host] mg by blast
  have le: "i \<le> length A" "j \<le> length B" using mg stand_le by (auto simp: head_ok_def)
  have "length (rest_drafts g h A B i j) \<noteq> 0"
    using rest_drafts_step [OF left, of g h] linorder_less_linear [of "side A B i j" 0] by auto
  then have "code_drafts p (prev_key F (length F)) (rest_drafts g h A B i j) \<noteq> []" by (metis length_0_conv length_code_drafts)
  then obtain f rest where "G = F @ f # rest" using mg by (auto simp: neq_Nil_conv)
  then have "Suc (length F) \<le> u64_max - 7" using fits_next(4) [OF fit] by blast
  then have keys: "profile_add (nm_keys s) 1 = Inr (Suc (length F))" using mg by (simp add: profile_add_def)
  consider "side A B i j < 0" | "side A B i j > 0" | "side A B i j = 0" by linarith
  then show ?thesis
  proof cases
    case 1
    then have i: "i < length A" using rest_drafts_step(1) [OF left] by blast
    have recs: "profile_add (nm_records s) 1 = Inr (Suc (i + j))" using mg i le cap by (simp add: profile_add_def)
    have "if descends A i then \<exists>s' x. emit_older host p src tombs r s = (x, s') \<and> refused A B x s'
      else \<exists>s' f. emit_older host p src tombs r s = (Inr (), s') \<and>
        merging co G g h A B (Suc i) j (F @ [f]) (s'\<lparr>nm_keys := Suc (length F), nm_records := Suc (i + j)\<rparr>)"
      by (rule emit_older_holds [OF m 1 left fit h r(3) [OF i] refl refl])
    then show ?thesis
      using r(1,2) keys recs 1 by (auto simp: merge_one_def bindM_apply Let_def refused_def split: if_splits) (metis add_Suc)
  next
    case 2
    then have j: "j < length B" using rest_drafts_step(2) [OF left] by blast
    have recs: "profile_add (nm_records s) 1 = Inr (Suc (i + j))" using mg j le cap by (simp add: profile_add_def)
    have "if descends B j then \<exists>s' x. emit_newer host p src tombs r s = (x, s') \<and> refused A B x s'
      else \<exists>s' f. emit_newer host p src tombs r s = (Inr (), s') \<and>
        merging co G g h A B i (Suc j) (F @ [f]) (s'\<lparr>nm_keys := Suc (length F), nm_records := Suc (i + j)\<rparr>)"
      by (rule emit_newer_holds [OF m 2 left fit h _ refl refl]) (rule r(3) [OF _ j])
    then show ?thesis
      using r(1,2) keys recs 2 by (auto simp: merge_one_def bindM_apply Let_def refused_def split: if_splits) (metis add_Suc_right)
  next
    case 3
    then have ij: "i < length A" "j < length B" using rest_drafts_step(3) [OF left] by blast+
    have recs: "profile_add (nm_records s) 2 = Inr (i + j + 2)" using mg ij cap by (simp add: profile_add_def)
    have "if descends A i \<or> descends B j then \<exists>s' x. emit_both host p src fuse tombs s = (x, s') \<and> refused A B x s'
      else \<exists>s' f. emit_both host p src fuse tombs s = (Inr (), s') \<and>
        merging co G g h A B (Suc i) (Suc j) (F @ [f]) (s'\<lparr>nm_keys := Suc (length F), nm_records := i + j + 2\<rparr>)"
      by (rule emit_both_holds [OF m 3 left fit g h refl refl])
    then show ?thesis
      using r(1,2) keys recs 3 by (auto simp: merge_one_def bindM_apply Let_def refused_def split: if_splits) (metis add_Suc add_Suc_right add_2_eq_Suc')
  qed
qed


text \<open>Runs of the builder.\<close>

lemma merging_counts:
  assumes m: "merging co G g h A B i j F s"
  shows "nm_done src s \<longleftrightarrow> length F = length G" "length F \<le> length G" "nm_active s = Inr ()"
proof -
  have le: "i \<le> length A" "j \<le> length B" using m stand_le by (auto simp: merging_def head_ok_def)
  have len: "length G = length F + length (rest_drafts g h A B i j)" using m by (simp add: merging_def)
  have "rest_drafts g h A B i j = [] \<longleftrightarrow> i = length A \<and> j = length B"
    using rest_drafts_step [of i A j B g h] linorder_less_linear [of "side A B i j" 0] le
    by (cases "i < length A \<or> j < length B") (auto simp: rest_drafts_def)
  then show "nm_done src s \<longleftrightarrow> length F = length G" "length F \<le> length G" using merging_left [OF m] len by auto
  show "nm_active s = Inr ()" using m by (simp add: nm_active_def merging_def outputting_def)
qed

lemma merge_loop_holds:
  assumes fit: "fits p co G" and g: "composes fuse g" and h: "buries tombs h" and cap: "length A + length B \<le> u64_max"
  shows "merging co G g h A B i j F s \<Longrightarrow> \<exists>x s'. merge_loop host p src fuse tombs budget keys records s = (x, s') \<and>
    (refused A B x s' \<or> (\<exists>i' j' F'. x = Inr (keys + (length F' - length F), records + (i' + j' - (i + j))) \<and>
      merging co G g h A B i' j' F' s' \<and> i + j \<le> i' + j' \<and> length F' = min (length F + budget) (length G)))"
proof (induction budget arbitrary: i j F s keys records)
  case 0
  then show ?case using merging_counts(2) [OF 0] by (intro exI conjI disjI2) (auto simp: min_absorb1)
next
  case (Suc budget)
  note mc = merging_counts [OF Suc.prems]
  show ?case
  proof (cases "nm_done src s")
    case True
    then have run: "merge_loop host p src fuse tombs (Suc budget) keys records s = (Inr (keys, records), s)" by simp
    have "length F = min (length F + Suc budget) (length G)" using mc True by simp
    then have E: "\<exists>i' j' F'. Inr (keys, records) = Inr (keys + (length F' - length F), records + (i' + j' - (i + j))) \<and>
        merging co G g h A B i' j' F' s \<and> i + j \<le> i' + j' \<and> length F' = min (length F + Suc budget) (length G)"
      using Suc.prems by (intro exI [of _ i] exI [of _ j] exI [of _ F]) simp
    show ?thesis by (intro exI conjI, rule run, rule disjI2, rule E)
  next
    case False
    then have left: "i < length A \<or> j < length B"
      using merging_left [OF Suc.prems] Suc.prems stand_le unfolding merging_def head_ok_def by (metis le_neq_implies_less)
    obtain x s1 where x: "merge_one host p src fuse tombs s = (x, s1)" "refused A B x s1 \<or>
        (\<exists>n i' j' f. x = Inr n \<and> merging co G g h A B i' j' (F @ [f]) s1 \<and> i' + j' = i + j + n)"
      using merge_one_holds [OF Suc.prems left fit g h cap, of host] by blast
    from x(2) show ?thesis
    proof (elim disjE exE conjE)
      assume "refused A B x s1"
      then obtain e where e: "x = Inl e" by (auto simp: refused_def)
      have run: "merge_loop host p src fuse tombs (Suc budget) keys records s = (Inl e, s1)" using False x(1) e by simp
      have rf: "refused A B (Inl e) s1" using \<open>refused A B x s1\<close> e by (auto simp: refused_def)
      show ?thesis by (intro exI conjI, rule run, rule disjI1, rule rf)
    next
      fix n i1 j1 f
      assume n: "x = Inr n" "merging co G g h A B i1 j1 (F @ [f]) s1" "i1 + j1 = i + j + n"
      obtain y s' where y: "merge_loop host p src fuse tombs budget (keys + 1) (records + n) s1 = (y, s')"
        "refused A B y s' \<or> (\<exists>i' j' F'. y = Inr (keys + 1 + (length F' - length (F @ [f])), records + n + (i' + j' - (i1 + j1))) \<and>
          merging co G g h A B i' j' F' s' \<and> i1 + j1 \<le> i' + j' \<and> length F' = min (length (F @ [f]) + budget) (length G))"
        using Suc.IH [OF n(2), of "keys + 1" "records + n"] by (elim exE conjE) (rule that)
      have run: "merge_loop host p src fuse tombs (Suc budget) keys records s = (y, s')" using False x(1) n(1) y(1) by simp
      from y(2) show ?thesis
      proof (elim disjE exE conjE)
        assume rf: "refused A B y s'"
        show ?thesis by (intro exI conjI, rule run, rule disjI1, rule rf)
      next
        fix i' j' F'
        assume e: "y = Inr (keys + 1 + (length F' - length (F @ [f])), records + n + (i' + j' - (i1 + j1)))"
          "merging co G g h A B i' j' F' s'" "i1 + j1 \<le> i' + j'" "length F' = min (length (F @ [f]) + budget) (length G)"
        have "length (F @ [f]) \<le> length F'" using e(4) merging_counts(2) [OF n(2)] by simp
        then have "y = Inr (keys + (length F' - length F), records + (i' + j' - (i + j)))" using e(1,3) n(3) by simp
        moreover have "length F' = min (length F + Suc budget) (length G)" using e(4) by simp
        moreover have "i + j \<le> i' + j'" using e(3) n(3) by simp
        ultimately have E: "\<exists>i' j' F'. y = Inr (keys + (length F' - length F), records + (i' + j' - (i + j))) \<and>
            merging co G g h A B i' j' F' s' \<and> i + j \<le> i' + j' \<and> length F' = min (length F + Suc budget) (length G)"
          using e(2) by (intro exI [of _ i'] exI [of _ j'] exI [of _ F']) simp
        show ?thesis by (intro exI conjI, rule run, rule disjI2, rule E)
      qed
    qed
  qed
qed

end

text \<open>Steps with any budgets, and the work they report.\<close>

fun merge_steps ::
  "bool \<Rightarrow> storage_policy \<Rightarrow> 'c source_ops \<Rightarrow> composition \<Rightarrow> tombstones \<Rightarrow> nat list \<Rightarrow> ('c native_merge, (nat \<times> nat) list) op" where
  "merge_steps host p src fuse tombs [] = returnM []"
| "merge_steps host p src fuse tombs (b # bs) =
     bindM (nm_step host p src fuse tombs b) (\<lambda>work. bindM (merge_steps host p src fuse tombs bs) (\<lambda>works. returnM (work # works)))"

text \<open>The records of a batch build whose frames the merge emits.\<close>

definition drafts_of :: "storage_policy \<Rightarrow> profile_record list \<Rightarrow> draft list \<Rightarrow> bool" where
  "drafts_of p records ds \<longleftrightarrow> map (\<lambda>r. (string_bits (record_key r), string_bits (record_value r), retained_limit_bits r)) records =
     map (\<lambda>(key, val, limit). (key, val, map_option (\<lambda>n. n * bits_per_unit p) limit)) ds"

lemma draft_kept_chosen:
  "choose_retained p (lcp prev key) (map_option (\<lambda>n. n * bits_per_unit p) limit) None 0 start anchor units = draft_kept p prev key limit"
  by (cases limit) (simp_all add: choose_retained_def draft_kept_def min_div)

lemma code_drafts_front:
  "drafts_of p records ds \<Longrightarrow> front_code p c [] 0 records anchor fs = fs @ code_drafts p (prev_key fs (length fs)) ds"
proof (induction records arbitrary: ds anchor fs)
  case Nil
  then show ?case by (simp add: drafts_of_def)
next
  case (Cons r rs)
  obtain key val limit ds' where ds: "ds = (key, val, limit) # ds'" "string_bits (record_key r) = key" "string_bits (record_value r) = val"
      "retained_limit_bits r = map_option (\<lambda>n. n * bits_per_unit p) limit" "drafts_of p rs ds'"
    using Cons.prems by (cases ds) (auto simp: drafts_of_def)
  show ?case
    using Cons.IH [OF ds(5)] by (simp add: ds(1-4) draft_kept_chosen Let_def)
qed

context merge_source
begin

definition halted where
  "halted A B x s' \<longleftrightarrow> ((\<exists>k. descends A k) \<or> (\<exists>k. descends B k)) \<and>
     x = Inl (Invalid_argument ''native merge inputs must have unique sorted keys'') \<and> nm_failed s'"

lemma merge_steps_hold:
  assumes fit: "fits p co G" and g: "composes fuse g" and h: "buries tombs h" and cap: "length A + length B \<le> u64_max"
  shows "merging co G g h A B i j F s \<Longrightarrow> \<exists>x s'. merge_steps host p src fuse tombs budgets s = (x, s') \<and>
    (halted A B x s' \<or> (\<exists>ws i' j' F'. x = Inr ws \<and> sum_list (map fst ws) = length F' - length F \<and>
      sum_list (map snd ws) = i' + j' - (i + j) \<and> list_all2 (\<lambda>w b. fst w \<le> b) ws budgets \<and>
      merging co G g h A B i' j' F' s' \<and> i + j \<le> i' + j' \<and> length F' = min (length F + sum_list budgets) (length G)))"
proof (induction budgets arbitrary: i j F s)
  case Nil
  then show ?case using merging_counts(2) [OF Nil] by (intro exI conjI disjI2) (auto simp: min_absorb1)
next
  case (Cons b bs)
  note mc = merging_counts [OF Cons.prems]
  obtain x s1 where x: "merge_loop host p src fuse tombs b 0 0 s = (x, s1)"
    "refused A B x s1 \<or> (\<exists>i' j' F'. x = Inr (0 + (length F' - length F), 0 + (i' + j' - (i + j))) \<and>
      merging co G g h A B i' j' F' s1 \<and> i + j \<le> i' + j' \<and> length F' = min (length F + b) (length G))"
    using merge_loop_holds [OF fit g h cap Cons.prems, of host b 0 0] by (elim exE conjE) (rule that)
  from x(2) show ?case
  proof (elim disjE exE conjE)
    assume "refused A B x s1"
    then have e: "x = Inl (Invalid_argument ''native merge inputs must have unique sorted keys'')"
      and bad: "(\<exists>k. descends A k) \<or> (\<exists>k. descends B k)" by (auto simp: refused_def)
    let ?e = "Inl (Invalid_argument ''native merge inputs must have unique sorted keys'')"
    have run: "merge_steps host p src fuse tombs (b # bs) s = (?e, s1\<lparr>nm_failed := True\<rparr>)"
      using x(1) mc(3) e by (simp add: nm_step_def bindM_apply)
    have hl: "halted A B ?e (s1\<lparr>nm_failed := True\<rparr>)" using bad by (simp add: halted_def)
    show ?case by (intro exI conjI, rule run, rule disjI1, rule hl)
  next
    fix i1 j1 F1
    assume n: "x = Inr (0 + (length F1 - length F), 0 + (i1 + j1 - (i + j)))" "merging co G g h A B i1 j1 F1 s1"
      "i + j \<le> i1 + j1" "length F1 = min (length F + b) (length G)"
    have step: "nm_step host p src fuse tombs b s = (Inr (length F1 - length F, i1 + j1 - (i + j)), s1)"
      using x(1) n(1) mc(3) by (simp add: nm_step_def bindM_apply)
    have le: "length F \<le> length F1" "length F1 - length F \<le> b" using n(4) mc(2) by simp_all
    obtain y s' where y: "merge_steps host p src fuse tombs bs s1 = (y, s')"
      "halted A B y s' \<or> (\<exists>ws i' j' F'. y = Inr ws \<and> sum_list (map fst ws) = length F' - length F1 \<and>
        sum_list (map snd ws) = i' + j' - (i1 + j1) \<and> list_all2 (\<lambda>w b. fst w \<le> b) ws bs \<and>
        merging co G g h A B i' j' F' s' \<and> i1 + j1 \<le> i' + j' \<and> length F' = min (length F1 + sum_list bs) (length G))"
      using Cons.IH [OF n(2)] by (elim exE conjE) (rule that)
    from y(2) show ?case
    proof (elim disjE exE conjE)
      assume "halted A B y s'"
      then have hl: "halted A B y s'" .
      then obtain e where e: "y = Inl e" by (auto simp: halted_def)
      have run: "merge_steps host p src fuse tombs (b # bs) s = (y, s')" using step y(1) e by (simp add: bindM_apply)
      show ?case by (intro exI conjI, rule run, rule disjI1, rule hl)
    next
      fix ws i' j' F'
      assume e: "y = Inr ws" "sum_list (map fst ws) = length F' - length F1" "sum_list (map snd ws) = i' + j' - (i1 + j1)"
        "list_all2 (\<lambda>w b. fst w \<le> b) ws bs" "merging co G g h A B i' j' F' s'" "i1 + j1 \<le> i' + j'"
        "length F' = min (length F1 + sum_list bs) (length G)"
      have run: "merge_steps host p src fuse tombs (b # bs) s = (Inr ((length F1 - length F, i1 + j1 - (i + j)) # ws), s')"
        using step y(1) e(1) by (simp add: bindM_apply)
      have len: "length F' = min (length F + sum_list (b # bs)) (length G)" using e(7) n(4) by simp
      have "length F1 \<le> length F'" using e(7) merging_counts(2) [OF n(2)] by simp
      then have "sum_list (map fst ((length F1 - length F, i1 + j1 - (i + j)) # ws)) = length F' - length F"
        "sum_list (map snd ((length F1 - length F, i1 + j1 - (i + j)) # ws)) = i' + j' - (i + j)"
        "list_all2 (\<lambda>w b. fst w \<le> b) ((length F1 - length F, i1 + j1 - (i + j)) # ws) (b # bs)"
        using e(2-4,6) n(3) le by simp_all
      then have E: "\<exists>vs i' j' F'. Inr ((length F1 - length F, i1 + j1 - (i + j)) # ws) = Inr vs \<and> sum_list (map fst vs) = length F' - length F \<and>
          sum_list (map snd vs) = i' + j' - (i + j) \<and> list_all2 (\<lambda>w b. fst w \<le> b) vs (b # bs) \<and>
          merging co G g h A B i' j' F' s' \<and> i + j \<le> i' + j' \<and> length F' = min (length F + sum_list (b # bs)) (length G)"
        using len e(5,6) n(3)
        by (intro exI [of _ "(length F1 - length F, i1 + j1 - (i + j)) # ws"] exI [of _ i'] exI [of _ j'] exI [of _ F']) simp
      show ?case by (intro exI conjI, rule run, rule disjI2, rule E)
    qed
  qed
qed


text \<open>A whole merge: budgets that suffice end it, with the output of the batch encoder or with the refusal of unsorted inputs.\<close>

lemma merge_runs:
  assumes st: "stand A 0 a" "stand B 0 b" and p: "policy_ok p"
    and G: "G = code_drafts p [] (merge_frames g h A B)" "frames_ok p co G" "length (stream p co G (length G)) < 2 ^ 57"
    and g: "composes fuse g" and h: "buries tombs h" and cap: "length A + length B \<le> u64_max"
    and out: "outputting p co [] w" and width: "\<And>n. policy_value_width p = Some n \<Longrightarrow> co = Some n"
    and enough: "length G \<le> sum_list budgets"
    and s: "s = \<lparr>nm_older = a, nm_newer = b, nm_pinned = True, nm_writer = w, nm_keys = 0, nm_records = 0,
      nm_older_prefix = 0, nm_newer_prefix = 0, nm_failed = False\<rparr>"
  shows "if (\<exists>k. descends A k) \<or> (\<exists>k. descends B k)
    then \<exists>s'. merge_steps host p src fuse tombs budgets s =
      (Inl (Invalid_argument ''native merge inputs must have unique sorted keys''), s') \<and> nm_failed s'
    else \<exists>ws s1 out s2. merge_steps host p src fuse tombs budgets s = (Inr ws, s1) \<and> nm_done src s1 \<and>
      sum_list (map fst ws) = length G \<and> sum_list (map snd ws) = length A + length B \<and> list_all2 (\<lambda>w b. fst w \<le> b) ws budgets \<and>
      nm_finish p src s1 = (Inr out, s2) \<and> no_finished (nm_writer s2) \<and> built_profile p Native co G out"
proof -
  have fit: "fits p co G" using p G(2,3) by (simp add: fits_def u64_max_def)
  have nil: "lex [] k \<le> 0" for k by (cases k) simp_all
  have m: "merging co G g h A B 0 0 [] s"
    using st out nil by (simp add: merging_def s head_ok_def rising_def rest_drafts_def G(1))
  obtain x s' where x: "merge_steps host p src fuse tombs budgets s = (x, s')"
    "halted A B x s' \<or> (\<exists>ws i j F. x = Inr ws \<and> sum_list (map fst ws) = length F - length ([] :: frame list) \<and>
      sum_list (map snd ws) = i + j - (0 + 0) \<and> list_all2 (\<lambda>w b. fst w \<le> b) ws budgets \<and>
      merging co G g h A B i j F s' \<and> 0 + 0 \<le> i + j \<and> length F = min (length ([] :: frame list) + sum_list budgets) (length G))"
    using merge_steps_hold [OF fit g h cap m, of host budgets] by (elim exE conjE) (rule that)
  from x(2) show ?thesis
  proof (elim disjE exE conjE)
    assume "halted A B x s'"
    then show ?thesis using x(1) by (auto simp: halted_def)
  next
    fix ws i j F
    assume e: "x = Inr ws" "sum_list (map fst ws) = length F - length ([] :: frame list)" "sum_list (map snd ws) = i + j - (0 + 0)"
      "list_all2 (\<lambda>w b. fst w \<le> b) ws budgets" "merging co G g h A B i j F s'"
      "length F = min (length ([] :: frame list) + sum_list budgets) (length G)"
    have len: "length F = length G" using e(6) enough by simp
    then have fin: "nm_done src s'" "nm_active s' = Inr ()" using merging_counts [OF e(5)] by simp_all
    then have ij: "i = length A" "j = length B" using merging_left [OF e(5)] by simp_all
    note mg = e(5) [unfolded merging_def]
    obtain X where "G = F @ X" using mg by blast
    then have FG: "F = G" using len by simp
    have "\<not> descends A k" "\<not> descends B k" for k using mg ij rising_all [of i A k] rising_all [of j B k] by simp_all
    moreover have o: "outputting p co G (nm_writer s')" using mg FG by simp
    obtain a' where a': "output_finish p (nm_writer s') = (Inr a',
        (nm_writer s')\<lparr>no_data := empty_string, no_offsets := [], no_finished := True\<rparr>)" "built_profile p Native co G a'"
      using output_finish_holds [OF p o G(3) width] by blast
    ultimately show ?thesis
      using x(1) e(1-4) fin a' len ij by (auto simp: nm_finish_def bindM_apply)
  qed
qed

end

section \<open>Walking reconstructed keys\<close>

definition keyed_stand :: "bool \<Rightarrow> storage_policy \<Rightarrow> frame list \<Rightarrow> nat \<Rightarrow> profile_cursor \<Rightarrow> bool" where
  "keyed_stand host p F i s \<longleftrightarrow> (\<exists>c v. holds host p c F v \<and> stands host p c F v i s)"

lemma keyed_item:
  assumes h: "holds host p c F v" "stands host p c F v i s" "i < length F"
  shows "\<exists>k. cursor_peek s = Inr \<lparr>item_ordinal = i, item_key = \<lparr>prefix_view = k, anchor_units = pc_context s\<rparr>, item_value = value_view (pc_record s)\<rparr> \<and>
    view_ok k \<and> view_bits k = fr_key (F ! i) \<and> view_ok (value_view (pc_record s)) \<and> view_bits (value_view (pc_record s)) = fr_value (F ! i)"
proof -
  obtain k where "string_view (pc_scratch s) = Inr k" "view_ok k" "view_bits k = fr_key (F ! i)"
    using string_view_ok [of "pc_scratch s"] h(2,3) by (auto simp: stands_def)
  then show ?thesis
    using h holdsD(5) [OF h(1)] by (auto simp: cursor_peek_def cursor_at_end_def stands_def is_record_def)
qed

lemma keyed_suffix_holds:
  assumes "keyed_stand host p F i s" "i < length F" "r * bits_per_unit p \<le> length (fr_key (F ! i))"
  shows "\<exists>v. keyed_suffix p s r = Inr v \<and> view_ok v \<and> view_bits v = drop (r * bits_per_unit p) (fr_key (F ! i))"
proof -
  obtain c v where h: "holds host p c F v" "stands host p c F v i s" using assms(1) by (auto simp: keyed_stand_def)
  obtain k where k: "cursor_peek s = Inr \<lparr>item_ordinal = i, item_key = \<lparr>prefix_view = k, anchor_units = pc_context s\<rparr>,
      item_value = value_view (pc_record s)\<rparr>" "view_ok k" "view_bits k = fr_key (F ! i)"
    using keyed_item [OF h assms(2)] by blast
  have l: "r * bits_per_unit p \<le> bsize k" using assms(3) k(3) length_view_bits [OF k(2)] by simp
  have "string_ok (pc_scratch s)" "string_bits (pc_scratch s) = fr_key (F ! i)" using h(2) assms(2) by (simp_all add: stands_def)
  then have "length (fr_key (F ! i)) \<le> u64_max - 7" using length_string_bits [of "pc_scratch s"] by (simp add: string_ok_def)
  then have "unit_bits p r = r * bits_per_unit p" using assms(3) by (simp add: unit_bits_def u64_max_def)
  then show ?thesis using k(1,3) subview_rest [OF k(2) l] by (auto simp: keyed_suffix_def Let_def)
qed

interpretation keyed: merge_source "keyed_ops host p" p "keyed_stand host p" for host p
proof
  fix F :: "frame list" and i :: nat and s :: profile_cursor
  assume st: "keyed_stand host p F i s"
  then obtain c v where h: "holds host p c F v" "stands host p c F v i s" by (auto simp: keyed_stand_def)
  have size: "pv_size v = length F" by (rule holdsD(5) [OF h(1)])
  show "so_done (keyed_ops host p) s \<longleftrightarrow> i = length F"
    using h(2) size by (simp add: keyed_ops_def cursor_at_end_def stands_def)
  show "i \<le> length F" using h(2) by (simp add: stands_def)
  show "\<exists>b. so_newer_donates (keyed_ops host p) s d = Inr b" for d by (auto simp: keyed_ops_def)
  assume i: "i < length F"
  have f: "frame_ok p c F i" by (rule frames_okD [OF holdsD(2) [OF h(1)] i])
  have "string_ok (pc_scratch s)" "string_bits (pc_scratch s) = fr_key (F ! i)" using h(2) i by (simp_all add: stands_def)
  then have "length (fr_key (F ! i)) \<le> u64_max - 7" using length_string_bits [of "pc_scratch s"] by (simp add: string_ok_def)
  then show "unit_multiple p (length (fr_key (F ! i))) \<and> fr_kept (F ! i) * bits_per_unit p \<le> lcp (prev_key F i) (fr_key (F ! i)) \<and>
      length (fr_key (F ! i)) \<le> u64_max - 7"
    using f by (simp add: frame_ok_def)
  obtain k where k: "cursor_peek s = Inr \<lparr>item_ordinal = i, item_key = \<lparr>prefix_view = k, anchor_units = pc_context s\<rparr>,
      item_value = value_view (pc_record s)\<rparr>" "view_ok k" "view_bits k = fr_key (F ! i)"
      "view_ok (value_view (pc_record s))" "view_bits (value_view (pc_record s)) = fr_value (F ! i)"
    using keyed_item [OF h i] by blast
  show "\<exists>v. so_value (keyed_ops host p) s = Inr v \<and> view_ok v \<and> view_bits v = fr_value (F ! i)"
    using k by (simp add: keyed_ops_def)
  show "\<exists>v. so_key (keyed_ops host p) s = Inr v \<and> view_ok v \<and> view_bits v = fr_key (F ! i)"
    using k by (simp add: keyed_ops_def)
  show "so_retained_bits (keyed_ops host p) s = Inr (fr_kept (F ! i) * bits_per_unit p)"
  proof -
    have "fr_kept (F ! i) * bits_per_unit p \<le> length (fr_key (F ! i))"
      using f lcp_le(2) [of "prev_key F i" "fr_key (F ! i)"] by (simp add: frame_ok_def)
    then have "unit_bits p (fr_kept (F ! i)) = fr_kept (F ! i) * bits_per_unit p"
      using \<open>length (fr_key (F ! i)) \<le> u64_max - 7\<close> by (simp add: unit_bits_def u64_max_def)
    then show ?thesis using h(2) i size by (simp add: keyed_ops_def cursor_retained_bits_def cursor_at_end_def stands_def is_record_def)
  qed
  show "\<exists>v. so_suffix (keyed_ops host p) s r = Inr v \<and> view_ok v \<and> view_bits v = drop (r * bits_per_unit p) (fr_key (F ! i))"
    if "r * bits_per_unit p \<le> length (fr_key (F ! i))" for r
    using keyed_suffix_holds [OF st i that] by (simp add: keyed_ops_def)
  then show "\<exists>v. so_literal (keyed_ops host p) s r = Inr v \<and> view_ok v \<and> view_bits v = drop (r * bits_per_unit p) (fr_key (F ! i))"
    if "r * bits_per_unit p \<le> length (fr_key (F ! i))" for r
    using that by (simp add: keyed_ops_def)
  obtain s' where s': "advance_comparison host p s =
      (Inr (if Suc i < length F then Some \<lparr>common_bits = lcp (fr_key (F ! i)) (fr_key (F ! Suc i)),
          order = lex (fr_key (F ! i)) (fr_key (F ! Suc i))\<rparr> else None), s')" "stands host p c F v (Suc i) s'"
    using advance_holds [OF h i, of True] by (auto simp: advance_comparison_def)
  have "keyed_stand host p F (Suc i) s'" using h(1) s'(2) by (auto simp: keyed_stand_def)
  then show "\<exists>c'. merge_advance p (so_advance (keyed_ops host p)) s =
        (Inr (if Suc i < length F then lcp (fr_key (F ! i)) (fr_key (F ! Suc i)) div bits_per_unit p else 0), c') \<and>
      keyed_stand host p F (Suc i) c'"
    if "Suc i < length F \<Longrightarrow> lex (fr_key (F ! i)) (fr_key (F ! Suc i)) < 0"
    using s'(1) that by (auto simp: keyed_ops_def merge_advance_def bindM_apply)
  show "\<exists>c'. merge_advance p (so_advance (keyed_ops host p)) s =
      (Inl (Invalid_argument ''native merge inputs must have unique sorted keys''), c')"
    if "Suc i < length F" "lex (fr_key (F ! i)) (fr_key (F ! Suc i)) \<ge> 0"
    using s'(1) that by (auto simp: keyed_ops_def merge_advance_def bindM_apply)
qed

end
