(* ===== verification/EncodedMerge.thy ===== *)
theory EncodedMerge
  imports MergeRuns
begin

text \<open>
  The encoded sources of \<open>native_merge.h\<close>: the spans a source keeps of the immutable stream stand for
  the whole current key, so that comparison, literals and materialization agree with it; with that
  an encoded source keeps to the interface of a merged cursor.
\<close>

section \<open>What the spans stand for\<close>

fun spans_hold :: "nat \<Rightarrow> bit_view \<Rightarrow> merge_span list \<Rightarrow> bool list \<Rightarrow> bool" where
  "spans_hold u D [] key \<longleftrightarrow> key = []"
| "spans_hold u D (s # older) key \<longleftrightarrow> span_start older < sp_end s \<and> length key = sp_end s * u \<and>
     sp_offset s + (sp_end s - span_start older) * u \<le> bsize D \<and>
     take ((sp_end s - span_start older) * u) (drop (sp_offset s) (view_bits D)) = drop (span_start older * u) key \<and>
     spans_hold u D older (take (span_start older * u) key)"

lemma span_start_simps [simp]: "span_start [] = 0" "span_start (s # older) = sp_end s"
  by (simp_all add: span_start_def)

lemma spans_length: "spans_hold u D spans key \<Longrightarrow> length key = span_start spans * u"
  by (cases spans) simp_all

text \<open>Cutting the spans back keeps the front of the key.\<close>

lemma cut_spans_hold:
  assumes u: "0 < u"
  shows "spans_hold u D spans key \<Longrightarrow> kept * u \<le> length key \<Longrightarrow>
    spans_hold u D (cut_spans kept spans) (take (kept * u) key) \<and> span_start (cut_spans kept spans) = kept"
proof (induction spans arbitrary: key)
  case Nil
  then show ?case using u by simp
next
  case (Cons s older)
  let ?st = "span_start older"
  have h: "?st < sp_end s" "length key = sp_end s * u" "sp_offset s + (sp_end s - ?st) * u \<le> bsize D"
    "take ((sp_end s - ?st) * u) (drop (sp_offset s) (view_bits D)) = drop (?st * u) key"
    "spans_hold u D older (take (?st * u) key)" using Cons.prems(1) by simp_all
  show ?case
  proof (cases "?st \<ge> kept")
    case True
    then have le: "kept * u \<le> ?st * u" by (rule mult_le_mono1)
    have "length (take (?st * u) key) = ?st * u" using spans_length [OF h(5)] .
    then show ?thesis using Cons.IH [OF h(5)] True le by (simp add: min_absorb1)
  next
    case False
    have ke: "kept \<le> sp_end s" using Cons.prems(2) u by (simp add: h(2))
    have d: "(kept - ?st) * u \<le> (sp_end s - ?st) * u" by (rule mult_le_mono1) (use ke in simp)
    have off: "sp_offset s + (kept - ?st) * u \<le> bsize D" using d h(3) by linarith
    have le: "?st * u \<le> kept * u" by (rule mult_le_mono1) (use False in simp)
    have "take ((kept - ?st) * u) (drop (sp_offset s) (view_bits D)) =
        take ((kept - ?st) * u) (take ((sp_end s - ?st) * u) (drop (sp_offset s) (view_bits D)))"
      using d by (simp add: min_absorb1)
    also have "\<dots> = take ((kept - ?st) * u) (drop (?st * u) key)" unfolding h(4) ..
    also have "\<dots> = drop (?st * u) (take (kept * u) key)" by (simp add: drop_take diff_mult_distrib)
    finally have bits: "take ((kept - ?st) * u) (drop (sp_offset s) (view_bits D)) = drop (?st * u) (take (kept * u) key)" .
    have older: "take (?st * u) (take (kept * u) key) = take (?st * u) key" using le by (simp add: min_absorb1)
    have cut: "cut_spans kept (s # older) = (if sp_end s > kept then s\<lparr>sp_end := kept\<rparr> else s) # older" using False by simp
    have e: "sp_end (if sp_end s > kept then s\<lparr>sp_end := kept\<rparr> else s) = kept"
      "sp_offset (if sp_end s > kept then s\<lparr>sp_end := kept\<rparr> else s) = sp_offset s" using ke by simp_all
    show ?thesis
      unfolding cut span_start_simps spans_hold.simps e older using False off bits h(5) Cons.prems(2) by simp
  qed
qed

definition sourced :: "profile_view \<Rightarrow> profile_encoded_record \<Rightarrow> bool" where
  "sourced v r \<longleftrightarrow> (\<exists>k n. k + n \<le> bsize (pv_data v) \<and>
     suffix_view r = (pv_data v)\<lparr>offset := offset (pv_data v) + k, bsize := n\<rparr>)"

text \<open>A view over its whole section, as its constructor makes it.\<close>

definition plain :: "storage_policy \<Rightarrow> profile_view \<Rightarrow> bool" where
  "plain p v \<longleftrightarrow> new_bit_view (pv_bytes v) (unit_bits p (m_extent (pv_metadata v))) 0 = Inr (pv_data v)"

lemma plain_offset: "plain p v \<Longrightarrow> offset (pv_data v) = 0"
  by (cases "pv_data v") (auto simp: plain_def new_bit_view_def Let_def res_simps split: if_splits)

lemma sourced_bits:
  assumes "plain p v" "sourced v r" "view_ok (pv_data v)"
  shows "take (bsize (suffix_view r)) (drop (offset (suffix_view r)) (view_bits (pv_data v))) = view_bits (suffix_view r)"
    "offset (suffix_view r) + bsize (suffix_view r) \<le> bsize (pv_data v)"
proof -
  obtain k n where k: "k + n \<le> bsize (pv_data v)" "suffix_view r = (pv_data v)\<lparr>offset := k, bsize := n\<rparr>"
    using assms(2) plain_offset [OF assms(1)] by (auto simp: sourced_def)
  have "take n (drop k (take (bsize (pv_data v)) (all_bits (storage (pv_data v))))) = take n (drop k (all_bits (storage (pv_data v))))"
    using k(1) by (simp add: drop_take min_absorb1)
  then show "take (bsize (suffix_view r)) (drop (offset (suffix_view r)) (view_bits (pv_data v))) = view_bits (suffix_view r)"
    "offset (suffix_view r) + bsize (suffix_view r) \<le> bsize (pv_data v)"
    using k plain_offset [OF assms(1)] by (simp_all add: view_bits_def)
qed

lemma subview_sourced: "subview D k n = Inr w \<Longrightarrow> \<exists>k n. k + n \<le> bsize D \<and> w = D\<lparr>offset := offset D + k, bsize := n\<rparr>"
  by (intro exI [of _ k] exI [of _ n]) (auto simp: subview_def split: if_splits)

lemma parse_payload_sourced: "parse_payload host p v at kept = Inr r \<Longrightarrow> sourced v r"
  by (auto simp: parse_payload_def sourced_def res_simps split: prod.splits dest: subview_sourced)

lemma encoded_at_sourced: "encoded_at host p v i = Inr r \<Longrightarrow> sourced v r"
  using parse_payload_sourced by (auto simp: encoded_at_def res_simps split: if_splits prod.splits)

lemma next_record_sourced: "next_record host p v r i block_at = Inr (r', o') \<Longrightarrow> sourced v r'"
  using parse_payload_sourced
  by (auto simp: next_record_def parse_absolute_def parse_relative_def Let_def res_simps split: if_splits prod.splits)

text \<open>Taking in a record makes the spans those of its key.\<close>

lemma retain_spans_hold:
  assumes u: "u = bits_per_unit p" and s: "spans_hold u (pv_data v) spans prev" and r: "in_range p v r" "sourced v r" "plain p v" "view_ok (pv_data v)"
    and kept: "retained r * u \<le> length prev" and key: "key = take (retained r * u) prev @ view_bits (suffix_view r)"
  shows "spans_hold u (pv_data v) (retain_spans r spans) key"
proof -
  have up: "0 < u" using u by simp
  note c = cut_spans_hold [OF up s kept]
  show ?thesis
  proof (cases "bsize (suffix_view r) = 0")
    case True
    then have "view_bits (suffix_view r) = []" using length_view_bits [of "suffix_view r"] r(1) by (simp add: in_range_def)
    then show ?thesis using c True key by (simp add: retain_spans_def Let_def)
  next
    case False
    have sz: "bsize (suffix_view r) = (key_units r - retained r) * u" "retained r \<le> key_units r" "view_ok (suffix_view r)"
      using r(1) u by (simp_all add: in_range_def)
    have "retained r < key_units r" using False sz(1,2) by (cases "retained r = key_units r") simp_all
    moreover have "length key = key_units r * u"
      using kept sz key length_view_bits [OF sz(3)] by (simp add: diff_mult_distrib mult_le_mono1)
    ultimately show ?thesis
      using c False sourced_bits [OF r(3,2,4)] key kept sz(1) by (simp add: retain_spans_def Let_def)
  qed
qed

section \<open>Materialization\<close>

lemma subview_within: "view_ok D \<Longrightarrow> a + n \<le> bsize D \<Longrightarrow>
    \<exists>w. subview D a n = Inr w \<and> view_ok w \<and> view_bits w = take n (drop a (view_bits D)) \<and> bsize w = n"
proof -
  assume D: "view_ok D" and le: "a + n \<le> bsize D"
  then have "\<exists>w. subview D a n = Inr w" by (simp add: subview_def)
  then show ?thesis using subview_Inr [OF D] by metis
qed

lemma materialize_spans_append:
  "materialize_spans host p D st (xs @ ys) result =
     bindE (materialize_spans host p D st xs result) (materialize_spans host p D (if xs = [] then st else sp_end (last xs)) ys)"
  by (induction xs arbitrary: st result) (auto simp: bindE_def split: sum.splits)

lemma materialize_holds:
  assumes u: "u = bits_per_unit p" and D: "view_ok D"
  shows "spans_hold u D spans key \<Longrightarrow> length key \<le> u64_max - 7 \<Longrightarrow>
    \<exists>t. materialize_spans host p D 0 (rev spans) empty_string = Inr t \<and> string_ok t \<and> string_bits t = key"
proof (induction spans arbitrary: key)
  case Nil
  then show ?case by simp
next
  case (Cons s older)
  let ?st = "span_start older"
  have h: "?st < sp_end s" "length key = sp_end s * u" "sp_offset s + (sp_end s - ?st) * u \<le> bsize D"
    "take ((sp_end s - ?st) * u) (drop (sp_offset s) (view_bits D)) = drop (?st * u) key"
    "spans_hold u D older (take (?st * u) key)" using Cons.prems(1) by simp_all
  obtain t where t: "materialize_spans host p D 0 (rev older) empty_string = Inr t" "string_ok t" "string_bits t = take (?st * u) key"
    using Cons.IH [OF h(5)] Cons.prems(2) by (auto simp: min_le_iff_disj)
  have st: "(if rev older = [] then 0 else sp_end (last (rev older))) = ?st" by (cases older) simp_all
  have le: "(sp_end s - ?st) * u \<le> length key" unfolding h(2) by (rule mult_le_mono1) simp
  then have ub: "unit_bits p (sp_end s - ?st) = (sp_end s - ?st) * u"
    using Cons.prems(2) u by (simp add: unit_bits_def u64_max_def)
  obtain w where w: "subview D (sp_offset s) ((sp_end s - ?st) * u) = Inr w" using subview_within [OF D h(3)] by blast
  note ws = subview_Inr [OF D w]
  have lt: "bit_size t = ?st * u" using length_string_bits [OF t(2)] t(3) spans_length [OF h(5)] by simp
  have "bit_size t + bsize w \<le> u64_max - 7"
  proof -
    have "?st * u + (sp_end s - ?st) * u = sp_end s * u" using h(1) by (simp flip: distrib_right)
    then show ?thesis using lt ws(3) Cons.prems(2) h(2) by simp
  qed
  then obtain t' where "append_view host False t w = Inr t'" "string_ok t'" "string_bits t' = string_bits t @ view_bits w"
    using append_view_bits [OF t(2) ws(1), of host False] by blast
  moreover have "string_bits t @ view_bits w = key" unfolding t(3) ws(2) h(4) by simp
  ultimately show ?case using t(1) st ub w by (simp add: materialize_spans_append)
qed

section \<open>Comparison of a key with its successor\<close>

text \<open>The fragments behind a retained boundary, oldest first.\<close>

fun frags_hold :: "nat \<Rightarrow> bit_view \<Rightarrow> nat \<Rightarrow> nat \<Rightarrow> merge_span list \<Rightarrow> bool list \<Rightarrow> bool" where
  "frags_hold u D position start [] rest \<longleftrightarrow> rest = []"
| "frags_hold u D position start (s # newer) rest \<longleftrightarrow> start \<le> position \<and> position < sp_end s \<and>
     (sp_end s - position) * u \<le> length rest \<and> sp_offset s + (sp_end s - start) * u \<le> bsize D \<and>
     take ((sp_end s - position) * u) (drop (sp_offset s + (position - start) * u) (view_bits D)) = take ((sp_end s - position) * u) rest \<and>
     frags_hold u D (sp_end s) (sp_end s) newer (drop ((sp_end s - position) * u) rest)"

lemma frags_hold_append:
  "frags_hold u D position start xs rest \<Longrightarrow>
    frags_hold u D (if xs = [] then position else sp_end (last xs)) (if xs = [] then start else sp_end (last xs)) ys tail \<Longrightarrow>
    frags_hold u D position start (xs @ ys) (rest @ tail)"
  by (induction u D position start xs rest rule: frags_hold.induct) (auto split: if_splits)

definition crossed :: "nat \<Rightarrow> merge_span list \<Rightarrow> merge_span list" where
  "crossed kept spans = rev (takeWhile (\<lambda>s. sp_end s > kept) spans)"

definition cross_start :: "nat \<Rightarrow> merge_span list \<Rightarrow> nat" where
  "cross_start kept spans = span_start (dropWhile (\<lambda>s. sp_end s > kept) spans)"

lemma drop_take_drop: "a \<le> b \<Longrightarrow> drop a (take b xs) @ drop b xs = drop a xs"
  by (induction xs arbitrary: a b) (auto simp: take_Cons drop_Cons split: nat.splits)

lemma crossed_hold:
  assumes u: "0 < u"
  shows "spans_hold u D spans key \<Longrightarrow> kept * u \<le> length key \<Longrightarrow>
    frags_hold u D kept (cross_start kept spans) (crossed kept spans) (drop (kept * u) key)"
proof (induction spans arbitrary: key)
  case Nil
  then show ?case by (simp add: crossed_def)
next
  case (Cons s older)
  let ?st = "span_start older"
  have h: "?st < sp_end s" "length key = sp_end s * u" "sp_offset s + (sp_end s - ?st) * u \<le> bsize D"
    "take ((sp_end s - ?st) * u) (drop (sp_offset s) (view_bits D)) = drop (?st * u) key"
    "spans_hold u D older (take (?st * u) key)" using Cons.prems(1) by simp_all
  have ke: "kept \<le> sp_end s" using Cons.prems(2) u by (simp add: h(2))
  consider "sp_end s = kept" | "sp_end s > kept" "?st \<le> kept" | "sp_end s > kept" "kept < ?st" using ke by linarith
  then show ?case
  proof cases
    case 1
    then show ?thesis using h(2) by (simp add: crossed_def)
  next
    case 2
    then have tw: "takeWhile (\<lambda>s. sp_end s > kept) older = []" "dropWhile (\<lambda>s. sp_end s > kept) older = older"
      by (cases older; simp)+
    have "take ((sp_end s - kept) * u) (drop (sp_offset s + (kept - ?st) * u) (view_bits D)) =
        drop ((kept - ?st) * u) (take ((sp_end s - ?st) * u) (drop (sp_offset s) (view_bits D)))"
      using 2 by (simp add: drop_take add.commute flip: diff_mult_distrib)
    also have "\<dots> = drop ((kept - ?st) * u) (drop (?st * u) key)" unfolding h(4) ..
    also have "\<dots> = drop (kept * u) key" using 2 by (simp flip: distrib_right)
    finally show ?thesis
      using 2 tw h(2,3) by (simp add: crossed_def cross_start_def diff_mult_distrib)
  next
    case 3
    then have lt: "kept * u \<le> length (take (?st * u) key)" using spans_length [OF h(5)] by simp
    note ih = Cons.IH [OF h(5) lt]
    have ne: "crossed kept older \<noteq> []" "sp_end (last (crossed kept older)) = ?st"
      using 3 by (cases older; simp add: crossed_def last_rev)+
    have "frags_hold u D ?st ?st [s] (drop (?st * u) key)"
      using h(1-4) by (simp add: diff_mult_distrib)
    then have "frags_hold u D kept (cross_start kept older) (crossed kept older @ [s]) (drop (kept * u) (take (?st * u) key) @ drop (?st * u) key)"
      using frags_hold_append [OF ih, of "[s]" "drop (?st * u) key"] ne by (simp del: frags_hold.simps)
    moreover have "drop (kept * u) (take (?st * u) key) @ drop (?st * u) key = drop (kept * u) key"
      using 3 by (intro drop_take_drop mult_le_mono1) simp
    ultimately show ?thesis using 3 by (simp add: crossed_def cross_start_def)
  qed
qed

lemma agree_extend:
  assumes "take n a = take n b" "n \<le> length a" "n \<le> length b"
  shows "lcp a b = n + lcp (drop n a) (drop n b)" "lex a b = lex (drop n a) (drop n b)"
  using inherit_compare [OF assms(2), of "drop n b"] assms(1) append_take_drop_id [of n b] by simp_all

lemma compare_fragments_end:
  "compare_fragments host p D suffix kept previous frs position start (bsize suffix) =
     Inr \<lparr>common_bits = u64_add (unit_bits p kept) (bsize suffix),
       order = (if unit_bits p (previous - kept) > bsize suffix then 1 else if unit_bits p (previous - kept) < bsize suffix then -1 else 0)\<rparr>"
  by (cases frs) (auto simp: Let_def)

lemma compare_fragments_holds:
  assumes u: "u = bits_per_unit p" and D: "view_ok D" "bsize D \<le> u64_max - 7" and S: "view_ok suffix" "kept * u + bsize suffix \<le> u64_max"
    and pr: "(previous - kept) * u \<le> u64_max - 7"
  shows "frags_hold u D position start frs rest \<Longrightarrow> compared \<le> bsize suffix \<Longrightarrow> (previous - kept) * u = compared + length rest \<Longrightarrow>
    compare_fragments host p D suffix kept previous frs position start compared =
      Inr \<lparr>common_bits = kept * u + compared + lcp rest (drop compared (view_bits suffix)), order = lex rest (drop compared (view_bits suffix))\<rparr>"
proof (induction frs arbitrary: position start rest compared)
  case Nil
  have ls: "length (view_bits suffix) = bsize suffix" by (rule length_view_bits [OF S(1)])
  have ub: "unit_bits p kept = kept * u" "unit_bits p (previous - kept) = (previous - kept) * u"
    using S(2) pr u by (simp_all add: unit_bits_def u64_max_def)
  have r: "rest = []" "(previous - kept) * u = compared" using Nil by simp_all
  have add: "u64_add (kept * u) compared = kept * u + compared" using S(2) Nil.prems(2) by (intro u64_add_small) simp
  have nil: "drop compared (view_bits suffix) = [] \<longleftrightarrow> compared = bsize suffix" using ls Nil.prems(2) by auto
  show ?case
  proof (cases "compared = bsize suffix")
    case True
    then show ?thesis using r ub add nil by (simp add: Let_def)
  next
    case False
    then obtain x xs where "drop compared (view_bits suffix) = x # xs" using nil by (cases "drop compared (view_bits suffix)") simp_all
    then show ?thesis using False r Nil.prems(2) ub add by (simp add: Let_def)
  qed
next
  case (Cons s newer)
  let ?S = "drop compared (view_bits suffix)" and ?f = "(sp_end s - position) * u"
  have ls: "length (view_bits suffix) = bsize suffix" by (rule length_view_bits [OF S(1)])
  have h: "start \<le> position" "position < sp_end s" "?f \<le> length rest" "sp_offset s + (sp_end s - start) * u \<le> bsize D"
    "take ?f (drop (sp_offset s + (position - start) * u) (view_bits D)) = take ?f rest"
    "frags_hold u D (sp_end s) (sp_end s) newer (drop ?f rest)" using Cons.prems(1) by simp_all
  have kb: "unit_bits p kept = kept * u" "unit_bits p (previous - kept) = (previous - kept) * u"
    using S(2) pr u by (simp_all add: unit_bits_def u64_max_def)
  have add: "u64_add (kept * u) c = kept * u + c" if "c \<le> bsize suffix" for c using S(2) that by (intro u64_add_small) simp
  have fpos: "0 < ?f" using h(2) u by simp
  show ?case
  proof (cases "compared = bsize suffix")
    case True
    have "rest \<noteq> []" using h(3) fpos by auto
    moreover from this have "lex rest [] = 1" by (cases rest) simp_all
    ultimately show ?thesis
      using True kb add [OF order_refl] Cons.prems(3) h(3) fpos ls unfolding True compare_fragments_end by simp
  next
    case False
    then have lt: "compared < bsize suffix" using Cons.prems(2) by simp
    define n where "n = min ?f (bsize suffix - compared)"
    define at where "at = sp_offset s + (position - start) * u"
    have sum: "(position - start) * u + ?f = (sp_end s - start) * u" using h(1,2) by (simp flip: distrib_right)
    then have room: "at + ?f \<le> bsize D" using h(4) by (simp add: at_def)
    have ub: "unit_bits p (position - start) = (position - start) * u" "unit_bits p (sp_end s - position) = ?f"
      using room D(2) u by (simp_all add: unit_bits_def u64_max_def at_def)
    have at: "u64_add (sp_offset s) (unit_bits p (position - start)) = at"
      unfolding ub(1) at_def using room D(2) by (intro u64_add_small) (simp add: at_def)
    have "at + n \<le> bsize D" using room unfolding n_def by linarith
    then obtain x where x: "subview D at n = Inr x" "view_ok x" "view_bits x = take n (drop at (view_bits D))"
      using subview_within [OF D(1)] by blast
    have "compared + n \<le> bsize suffix" using lt unfolding n_def by linarith
    then obtain y where y: "subview suffix compared n = Inr y" "view_ok y" "view_bits y = take n ?S"
      using subview_within [OF S(1)] by blast
    have xr: "view_bits x = take n rest"
      using x(3) arg_cong [OF h(5), of "take n"] by (simp add: at_def n_def min_absorb1)
    have cmp: "compare_common_bits host x y = Inr \<lparr>common_bits = lcp (take n rest) (take n ?S), order = lex (take n rest) (take n ?S)\<rparr>"
      using compare_common_bits_spec [OF x(2) y(2), of host] xr y(3) by simp
    have len: "n \<le> length rest" "n \<le> length ?S" using h(3) ls by (simp_all add: n_def)
    have step: "compare_fragments host p D suffix kept previous (s # newer) position start compared =
        (if lex (take n rest) (take n ?S) \<noteq> 0
         then Inr \<lparr>common_bits = lcp (take n rest) (take n ?S) + (kept * u + compared), order = lex (take n rest) (take n ?S)\<rparr>
         else compare_fragments host p D suffix kept previous newer (sp_end s) (sp_end s) (compared + n))"
      using False at ub(2) x(1) y(1) cmp kb(1) by (simp add: Let_def n_def [symmetric])
    show ?thesis
    proof (cases "take n rest = take n ?S")
      case ne: False
      have "lcp rest ?S = lcp (take n rest) (take n ?S)" "lex rest ?S = lex (take n rest) (take n ?S)"
        using agree_split [of 0 rest ?S n] ne len by simp_all
      then show ?thesis unfolding step using ne by (simp add: lex_eq_0 del: compare_fragments.simps)
    next
      case True
      note ext = agree_extend [OF True len]
      have go: "compare_fragments host p D suffix kept previous (s # newer) position start compared =
          compare_fragments host p D suffix kept previous newer (sp_end s) (sp_end s) (compared + n)"
        unfolding step using True by (simp del: compare_fragments.simps)
      show ?thesis
      proof (cases "?f \<le> bsize suffix - compared")
        case fits: True
        then have n: "n = ?f" by (simp add: n_def)
        have "compare_fragments host p D suffix kept previous newer (sp_end s) (sp_end s) (compared + n) =
          Inr \<lparr>common_bits = kept * u + (compared + n) + lcp (drop n rest) (drop (compared + n) (view_bits suffix)),
            order = lex (drop n rest) (drop (compared + n) (view_bits suffix))\<rparr>"
          using h(6) lt fits Cons.prems(3) len(1) unfolding n by (intro Cons.IH) simp_all
        then show ?thesis unfolding go ext by (simp add: add.commute)
      next
        case False
        then have n: "compared + n = bsize suffix" "n < ?f" using lt by (simp_all add: n_def)
        have nil: "drop n ?S = []" "drop n rest \<noteq> []" using n ls h(3) by simp_all
        have "lex (drop n rest) [] = 1" using nil(2) by (cases "drop n rest") simp_all
        moreover have "bsize suffix < (previous - kept) * u" using Cons.prems(3) n h(3) by simp
        ultimately show ?thesis
          unfolding go n(1) compare_fragments_end ext nil using kb add [OF order_refl] n(1) by simp
      qed
    qed
  qed
qed

lemma compare_successor_holds:
  assumes u: "u = bits_per_unit p" and D: "view_ok D" "bsize D \<le> u64_max - 7" and S: "view_ok suffix" "unit_multiple p (bsize suffix)"
    and sp: "spans_hold u D spans key" and kept: "kept * u \<le> length key"
    and fit: "kept * u + bsize suffix \<le> u64_max" "length key \<le> u64_max - 7"
  shows "compare_successor host p D spans kept suffix =
    Inr \<lparr>common_bits = lcp key (take (kept * u) key @ view_bits suffix), order = lex key (take (kept * u) key @ view_bits suffix)\<rparr>"
proof -
  let ?R = "drop (kept * u) key" and ?S = "view_bits suffix" and ?c = "crossed kept spans" and ?st = "cross_start kept spans"
  have up: "0 < u" and u64: "u \<le> 64" using u by (simp, cases "policy_unit p") simp_all
  have ls: "length ?S = bsize suffix" by (rule length_view_bits [OF S(1)])
  have lk: "length key = span_start spans * u" by (rule spans_length [OF sp])
  have fr: "frags_hold u D kept ?st ?c ?R" by (rule crossed_hold [OF up sp kept])
  have prev: "(span_start spans - kept) * u = 0 + length ?R" using lk by (simp add: diff_mult_distrib)
  have "(span_start spans - kept) * u \<le> u64_max - 7" using prev fit(2) by simp
  note walk = compare_fragments_holds [OF u D S(1) fit(1) this fr le0 prev, of host, simplified]
  note inh = inherit_compare [OF kept, of ?S]
  show ?thesis
  proof (cases "?c = [] \<or> bsize suffix = 0")
    case True
    then show ?thesis
      using walk inh unfolding compare_successor_def Let_def crossed_def [symmetric] cross_start_def [symmetric] by (auto split: list.split)
  next
    case False
    then obtain s newer where c: "?c = s # newer" by (cases ?c) auto
    have h: "?st \<le> kept" "kept < sp_end s" "(sp_end s - kept) * u \<le> length ?R" "sp_offset s + (sp_end s - ?st) * u \<le> bsize D"
      "take ((sp_end s - kept) * u) (drop (sp_offset s + (kept - ?st) * u) (view_bits D)) = take ((sp_end s - kept) * u) ?R"
      using fr by (simp_all add: c)
    have one: "u \<le> (sp_end s - kept) * u" using h(2) by (cases "sp_end s - kept") simp_all
    define at where "at = sp_offset s + (kept - ?st) * u"
    have "(kept - ?st) * u + (sp_end s - kept) * u = (sp_end s - ?st) * u" using h(1,2) by (simp flip: distrib_right)
    then have room: "at + (sp_end s - kept) * u \<le> bsize D" using h(4) by (simp add: at_def)
    have ub: "unit_bits p (kept - ?st) = (kept - ?st) * u" "unit_bits p kept = kept * u"
      using room D(2) u fit by (simp_all add: unit_bits_def u64_max_def at_def)
    have at: "u64_add (sp_offset s) (unit_bits p (kept - ?st)) = at"
      unfolding ub(1) at_def using room D(2) by (intro u64_add_small) (simp add: at_def)
    have "take u (drop at (view_bits D)) = take u (take ((sp_end s - kept) * u) (drop at (view_bits D)))" using one by (simp add: min_absorb1)
    also have "\<dots> = take u ?R" unfolding at_def h(5) using one by (simp add: min_absorb1)
    finally have au: "take u (drop at (view_bits D)) = take u ?R" .
    have us: "u \<le> bsize suffix" using S(2) False u unfolding unit_multiple_def by (metis mod_less not_le_imp_less)
    have loads: "load_bits host D at u = Inr (wbits (take u ?R))" "load_bits host suffix 0 u = Inr (wbits (take u ?S))"
      using load_bits_view [OF D(1), of at u host] load_bits_view [OF S(1), of 0 u host] room one us u64 au by simp_all
    have lr: "u \<le> length ?R" using one h(3) by (rule order_trans)
    define a b where "a = take u ?R" and "b = take u ?S"
    have lab: "length a = u" "length b = u" using lr us ls by (simp_all add: a_def b_def)
    have eq: "compare_successor host p D spans kept suffix = (if wbits a \<noteq> wbits b
        then Inr \<lparr>common_bits = kept * u + (countl_zero (wbits a XOR wbits b) - (64 - u)), order = (if wbits a < wbits b then -1 else 1)\<rparr>
        else compare_fragments host p D suffix kept (span_start spans) ?c kept ?st 0)"
      using False at ub(2) loads u
      unfolding compare_successor_def Let_def crossed_def [symmetric] cross_start_def [symmetric] c a_def b_def by simp
    show ?thesis
    proof (cases "a = b")
      case True
      then show ?thesis using eq walk inh by simp
    next
      case ne: False
      have "lcp ?R ?S = lcp a b" "lex ?R ?S = lex a b"
        using agree_split [of 0 ?R ?S u] ne lr us ls by (simp_all add: a_def b_def)
      moreover have "wbits a \<noteq> wbits b" using ne wbits_eq_iff [of a b] lab u64 by simp
      ultimately show ?thesis using eq inh first_unit [OF _ _ ne] lab u64 by simp
    qed
  qed
qed

section \<open>Walking encoded records\<close>

definition source_stands :: "bool \<Rightarrow> storage_policy \<Rightarrow> nat option \<Rightarrow> frame list \<Rightarrow> profile_view \<Rightarrow> nat \<Rightarrow> encoded_source \<Rightarrow> bool" where
  "source_stands host p c F v i s \<longleftrightarrow> holds host p c F v \<and> plain p v \<and> es_data s = pv_data v \<and>
     ec_view (es_cursor s) = v \<and> ec_ordinal (es_cursor s) = i \<and> i \<le> length F \<and>
     (i < length F \<longrightarrow> walks host (samples p c F) (pv_offsets v) (i div codec_block_size p + 1) (ec_offsets (es_cursor s)) \<and>
       is_record p c F i (ec_record (es_cursor s)) \<and> in_range p v (ec_record (es_cursor s)) \<and>
       spans_hold (bits_per_unit p) (pv_data v) (es_spans s) (fr_key (F ! i)))"

definition encoded_stand :: "bool \<Rightarrow> storage_policy \<Rightarrow> frame list \<Rightarrow> nat \<Rightarrow> encoded_source \<Rightarrow> bool" where
  "encoded_stand host p F i s \<longleftrightarrow> (\<exists>c v. source_stands host p c F v i s)"

lemma source_stands_end: "source_stands host p c F v i s \<Longrightarrow> encoded_done (es_cursor s) \<longleftrightarrow> i = length F"
  using holdsD(5) by (auto simp: source_stands_def encoded_done_def)

text \<open>The bounds of a key that frames carry.\<close>

lemma key_bounds:
  assumes h: "holds host p c F v" and i: "i < length F"
  shows "length (fr_key (F ! i)) \<le> u64_max - 7" "fr_kept (F ! i) * bits_per_unit p \<le> length (fr_key (F ! i))"
    "unit_bits p (fr_kept (F ! i)) = fr_kept (F ! i) * bits_per_unit p" "bsize (pv_data v) \<le> u64_max - 7" "view_ok (pv_data v)"
proof -
  let ?u = "bits_per_unit p"
  have f: "frame_ok p c F i" by (rule frames_okD [OF holdsD(2) [OF h] i])
  have "length (fr_key (F ! i)) div ?u \<le> place p c F (Suc i)" using key_before_place [OF holdsD(2) [OF h], of "Suc i"] i by simp
  also have "\<dots> \<le> place p c F (length F)" using i by (intro place_mono) simp
  also have "\<dots> = m_extent (pv_metadata v)" by (rule holdsD(6) [OF h, symmetric])
  finally have "length (fr_key (F ! i)) div ?u * ?u \<le> m_extent (pv_metadata v) * ?u" by (rule mult_le_mono1)
  then show l: "length (fr_key (F ! i)) \<le> u64_max - 7"
    using admittedD(5) [OF holdsD(1) [OF h]] frame_units(1) [OF f] by linarith
  show k: "fr_kept (F ! i) * ?u \<le> length (fr_key (F ! i))"
    using f lcp_le(2) [of "prev_key F i" "fr_key (F ! i)"] by (simp add: frame_ok_def)
  show "unit_bits p (fr_kept (F ! i)) = fr_kept (F ! i) * ?u" using k l by (simp add: unit_bits_def u64_max_def)
  show "bsize (pv_data v) \<le> u64_max - 7" "view_ok (pv_data v)"
    using admittedD(3-5) [OF holdsD(1) [OF h]] by simp_all
qed

lemma new_encoded_source_holds:
  assumes h: "holds host p c F v" and pl: "plain p v"
  shows "\<exists>s. new_encoded_source host p v = Inr s \<and> source_stands host p c F v 0 s"
proof -
  let ?B = "codec_block_size p"
  have e: "encodes host (pv_offsets v) (samples p c F)" using h by (simp add: holds_def)
  have size: "pv_size v = length F" by (rule holdsD(5) [OF h])
  have ne: "0 < length (samples p c F)" by (simp add: samples_def)
  obtain offs o1 where o: "new_cursor host (pv_offsets v) 0 = Inr offs"
      "cursor_next host offs = (Inr (samples p c F ! 0), o1)" "walks host (samples p c F) (pv_offsets v) (Suc 0) o1"
    using new_cursor_correct [OF e, of 0] cursor_next_correct [OF e] ne by (metis less_imp_le)
  have dt: "new_bit_view (pv_bytes v) (unit_bits p (m_extent (pv_metadata v))) 0 = Inr (pv_data v)" using pl by (simp add: plain_def)
  show ?thesis
  proof (cases "F = []")
    case True
    then show ?thesis using h pl dt o(1) size
      by (simp add: new_encoded_source_def new_encoded_cursor_def Let_def encoded_done_def source_stands_def)
  next
    case False
    then have i: "0 < length F" by simp
    obtain r where r: "encoded_at host p v 0 = Inr r" "is_record p c F 0 r" "in_range p v r" using encoded_at_holds [OF h i] by blast
    have f: "frame_ok p c F 0" by (rule frames_okD [OF holdsD(2) [OF h] i])
    have kept: "retained r = 0" using r(2) f by (simp add: is_record_def frame_ok_def)
    have key: "fr_key (F ! 0) = take (retained r * bits_per_unit p) [] @ view_bits (suffix_view r)"
      using r(2) kept by (simp add: is_record_def)
    have "spans_hold (bits_per_unit p) (pv_data v) (retain_spans r []) (fr_key (F ! 0))"
      by (rule retain_spans_hold [OF refl _ r(3) encoded_at_sourced [OF r(1)] pl key_bounds(5) [OF h i] _ key]) (simp_all add: kept)
    then show ?thesis using h pl dt o r size i
      by (simp add: new_encoded_source_def new_encoded_cursor_def Let_def encoded_done_def encoded_peek_def source_stands_def)
  qed
qed

lemma encoded_advance_holds:
  assumes s: "source_stands host p c F v i s" and i: "i < length F"
  shows "Suc i = length F \<Longrightarrow> \<exists>s'. encoded_advance_comparison host p s = (Inr None, s') \<and> source_stands host p c F v (Suc i) s'"
    and "Suc i < length F \<Longrightarrow> lex (fr_key (F ! i)) (fr_key (F ! Suc i)) < 0 \<Longrightarrow>
      \<exists>s'. encoded_advance_comparison host p s = (Inr (Some \<lparr>common_bits = lcp (fr_key (F ! i)) (fr_key (F ! Suc i)),
        order = lex (fr_key (F ! i)) (fr_key (F ! Suc i))\<rparr>), s') \<and> source_stands host p c F v (Suc i) s'"
    and "Suc i < length F \<Longrightarrow> lex (fr_key (F ! i)) (fr_key (F ! Suc i)) \<ge> 0 \<Longrightarrow>
      \<exists>s'. encoded_advance_comparison host p s = (Inl (Invalid_argument ''native merge inputs must have unique sorted keys''), s')"
proof -
  let ?u = "bits_per_unit p" and ?c = "es_cursor s"
  note st = s [unfolded source_stands_def]
  have h: "holds host p c F v" and pl: "plain p v" using st by simp_all
  have size: "pv_size v = length F" by (rule holdsD(5) [OF h])
  have here: "\<not> encoded_done ?c" using source_stands_end [OF s] i by simp
  show "\<exists>s'. encoded_advance_comparison host p s = (Inr None, s') \<and> source_stands host p c F v (Suc i) s'" if n: "Suc i = length F"
  proof -
    have "m_terminal_key_units (pv_metadata v) = length (fr_key (F ! i)) div ?u" using h n [symmetric] by (simp add: holds_def)
    then have "check_end v (ec_record ?c) = Inr ()" using st i holdsD(6) [OF h] n by (simp add: check_end_def is_record_def)
    then have adv: "encoded_advance host p ?c = (Inr (), ?c\<lparr>ec_ordinal := Suc i\<rparr>)"
      using here st size n by (simp add: encoded_advance_def)
    have "encoded_done (?c\<lparr>ec_ordinal := Suc i\<rparr>)" using st size n by (simp add: encoded_done_def)
    then have "encoded_advance_comparison host p s = (Inr None, s\<lparr>es_cursor := ?c\<lparr>ec_ordinal := Suc i\<rparr>\<rparr>)"
      using adv by (simp add: encoded_advance_comparison_def on_cursor_def bindM_apply)
    then show ?thesis using st n by (simp add: source_stands_def)
  qed
  have step: "\<exists>r' s1. (\<forall>cmp. order cmp < 0 \<longrightarrow> cmp = \<lparr>common_bits = lcp (fr_key (F ! i)) (fr_key (F ! Suc i)), order = lex (fr_key (F ! i)) (fr_key (F ! Suc i))\<rparr> \<longrightarrow>
        encoded_advance_comparison host p s = (Inr (Some cmp), s1\<lparr>es_spans := retain_spans r' (es_spans s)\<rparr>)) \<and>
      (lex (fr_key (F ! i)) (fr_key (F ! Suc i)) \<ge> 0 \<longrightarrow> encoded_advance_comparison host p s =
        (Inl (Invalid_argument ''native merge inputs must have unique sorted keys''), s1)) \<and>
      source_stands host p c F v (Suc i) (s1\<lparr>es_spans := retain_spans r' (es_spans s)\<rparr>)" if n: "Suc i < length F"
  proof -
    have r: "is_record p c F i (ec_record ?c)" and w: "walks host (samples p c F) (pv_offsets v) (i div codec_block_size p + 1) (ec_offsets ?c)"
      and sp: "spans_hold ?u (pv_data v) (es_spans s) (fr_key (F ! i))" using st i by simp_all
    obtain r' o' where r': "next_record host p v (ec_record ?c) (Suc i) (cursor_offset host p v (ec_offsets ?c)) = Inr (r', o')"
      "is_record p c F (Suc i) r'" "in_range p v r'"
      "walks host (samples p c F) (pv_offsets v) (Suc i div codec_block_size p + 1) (case o' of None \<Rightarrow> ec_offsets ?c | Some o' \<Rightarrow> o')"
      using cursor_next_record [OF h r n w] by blast
    have f: "frame_ok p c F (Suc i)" by (rule frames_okD [OF holdsD(2) [OF h] n])
    have kept: "retained r' = fr_kept (F ! Suc i)" using r'(2) by (simp add: is_record_def)
    have key: "fr_key (F ! Suc i) = take (retained r' * ?u) (fr_key (F ! i)) @ view_bits (suffix_view r')"
      using frame_key [OF f] r'(2) by (simp add: is_record_def)
    have le: "retained r' * ?u \<le> length (fr_key (F ! i))" using frame_units(5) [OF f] by (simp add: kept)
    note kb = key_bounds [OF h n]
    have um: "view_ok (suffix_view r')" "unit_multiple p (bsize (suffix_view r'))"
      using r'(3) by (simp_all add: in_range_def unit_multiple_def)
    have fit: "retained r' * ?u + bsize (suffix_view r') \<le> u64_max"
      using arg_cong [OF key, of length] le kb(1) length_view_bits [OF um(1)] by simp
    have cmp: "compare_successor host p (pv_data v) (es_spans s) (retained r') (suffix_view r') =
        Inr \<lparr>common_bits = lcp (fr_key (F ! i)) (fr_key (F ! Suc i)), order = lex (fr_key (F ! i)) (fr_key (F ! Suc i))\<rparr>"
      using compare_successor_holds [OF refl kb(5,4) um sp le fit key_bounds(1) [OF h i], of host] unfolding key [symmetric] .
    have spans: "spans_hold ?u (pv_data v) (retain_spans r' (es_spans s)) (fr_key (F ! Suc i))"
      by (rule retain_spans_hold [OF refl sp r'(3) next_record_sourced [OF r'(1)] pl kb(5) le key])
    define c' where "c' = ?c\<lparr>ec_record := r', ec_offsets := (case o' of None \<Rightarrow> ec_offsets ?c | Some o' \<Rightarrow> o'), ec_ordinal := Suc i\<rparr>"
    have adv: "encoded_advance host p ?c = (Inr (), c')"
      using here st size n r'(1) by (simp add: encoded_advance_def c'_def)
    have nd: "\<not> encoded_done c'" using st size n by (simp add: encoded_done_def c'_def)
    have pk: "encoded_peek c' = Inr r'" using nd by (simp add: encoded_peek_def c'_def)
    have run: "encoded_advance_comparison host p s =
        (if lex (fr_key (F ! i)) (fr_key (F ! Suc i)) \<ge> 0
         then (Inl (Invalid_argument ''native merge inputs must have unique sorted keys''), s\<lparr>es_cursor := c'\<rparr>)
         else (Inr (Some \<lparr>common_bits = lcp (fr_key (F ! i)) (fr_key (F ! Suc i)), order = lex (fr_key (F ! i)) (fr_key (F ! Suc i))\<rparr>),
           s\<lparr>es_cursor := c', es_spans := retain_spans r' (es_spans s)\<rparr>))"
      using adv nd pk cmp st by (simp add: encoded_advance_comparison_def on_cursor_def bindM_apply)
    have "source_stands host p c F v (Suc i) (s\<lparr>es_cursor := c', es_spans := retain_spans r' (es_spans s)\<rparr>)"
      using st n r'(2-4) spans by (simp add: source_stands_def c'_def)
    then show ?thesis using run by (intro exI [of _ r'] exI [of _ "s\<lparr>es_cursor := c'\<rparr>"]) auto
  qed
  show "\<exists>s'. encoded_advance_comparison host p s = (Inr (Some \<lparr>common_bits = lcp (fr_key (F ! i)) (fr_key (F ! Suc i)),
        order = lex (fr_key (F ! i)) (fr_key (F ! Suc i))\<rparr>), s') \<and> source_stands host p c F v (Suc i) s'"
    if "Suc i < length F" "lex (fr_key (F ! i)) (fr_key (F ! Suc i)) < 0"
    using step [OF that(1)] that(2) by auto
  show "\<exists>s'. encoded_advance_comparison host p s = (Inl (Invalid_argument ''native merge inputs must have unique sorted keys''), s')"
    if "Suc i < length F" "lex (fr_key (F ! i)) (fr_key (F ! Suc i)) \<ge> 0"
    using step [OF that(1)] that(2) by auto
qed

lemma source_record:
  assumes "source_stands host p c F v i s" "i < length F"
  shows "encoded_peek (es_cursor s) = Inr (ec_record (es_cursor s))" "is_record p c F i (ec_record (es_cursor s))"
    "in_range p v (ec_record (es_cursor s))" "retained (ec_record (es_cursor s)) = fr_kept (F ! i)"
    "spans_hold (bits_per_unit p) (pv_data v) (es_spans s) (fr_key (F ! i))"
    "view_ok (suffix_view (ec_record (es_cursor s)))"
    "bsize (suffix_view (ec_record (es_cursor s))) = length (fr_key (F ! i)) - fr_kept (F ! i) * bits_per_unit p"
    "view_bits (suffix_view (ec_record (es_cursor s))) = drop (fr_kept (F ! i) * bits_per_unit p) (fr_key (F ! i))"
proof -
  note st = assms(1) [unfolded source_stands_def]
  show "encoded_peek (es_cursor s) = Inr (ec_record (es_cursor s))"
    using source_stands_end [OF assms(1)] assms(2) by (simp add: encoded_peek_def)
  show r: "is_record p c F i (ec_record (es_cursor s))" "in_range p v (ec_record (es_cursor s))"
    "spans_hold (bits_per_unit p) (pv_data v) (es_spans s) (fr_key (F ! i))" using st assms(2) by simp_all
  then show "retained (ec_record (es_cursor s)) = fr_kept (F ! i)" "view_ok (suffix_view (ec_record (es_cursor s)))"
    "view_bits (suffix_view (ec_record (es_cursor s))) = drop (fr_kept (F ! i) * bits_per_unit p) (fr_key (F ! i))"
    by (simp_all add: is_record_def in_range_def)
  then show "bsize (suffix_view (ec_record (es_cursor s))) = length (fr_key (F ! i)) - fr_kept (F ! i) * bits_per_unit p"
    using length_view_bits [of "suffix_view (ec_record (es_cursor s))"] by simp
qed

lemma encoded_key_holds:
  assumes s: "source_stands host p c F v i s" and i: "i < length F"
  shows "\<exists>k. encoded_key host p s = Inr k \<and> view_ok k \<and> view_bits k = fr_key (F ! i)"
proof -
  have h: "holds host p c F v" "es_data s = pv_data v" using s by (simp_all add: source_stands_def)
  obtain t where t: "materialize host p s = Inr t" "string_ok t" "string_bits t = fr_key (F ! i)"
    using materialize_holds [OF refl key_bounds(5) [OF h(1) i] source_record(5) [OF s i] key_bounds(1) [OF h(1) i], of host] h(2)
    by (auto simp: materialize_def)
  then show ?thesis using string_view_ok [OF t(2)] by (auto simp: encoded_key_def)
qed

lemma encoded_suffix_holds:
  assumes s: "source_stands host p c F v i s" and i: "i < length F"
    and r: "fr_kept (F ! i) \<le> r" "r * bits_per_unit p \<le> length (fr_key (F ! i))"
  shows "\<exists>w. encoded_suffix p s r = Inr w \<and> view_ok w \<and> view_bits w = drop (r * bits_per_unit p) (fr_key (F ! i))"
proof -
  let ?u = "bits_per_unit p" and ?k = "fr_kept (F ! i)"
  note sr = source_record [OF s i]
  have h: "holds host p c F v" using s by (simp add: source_stands_def)
  have d: "(r - ?k) * ?u + ?k * ?u = r * ?u" using r(1) by (simp flip: distrib_right)
  have le: "(r - ?k) * ?u \<le> bsize (suffix_view (ec_record (es_cursor s)))" using d r(2) unfolding sr(7) by linarith
  have "(r - ?k) * ?u \<le> u64_max" using d r(2) key_bounds(1) [OF h i] by (simp add: u64_max_def)
  then have "unit_bits p (r - ?k) = (r - ?k) * ?u" by (simp add: unit_bits_def u64_max_def)
  moreover have "drop ((r - ?k) * ?u) (drop (?k * ?u) (fr_key (F ! i))) = drop (r * ?u) (fr_key (F ! i))" using d by simp
  ultimately show ?thesis
    using subview_rest [OF sr(6) le] sr(1,4,8) r(1) by (auto simp: encoded_suffix_def Let_def)
qed

lemma encoded_literal_holds:
  assumes s: "source_stands host p c F v i s" and i: "i < length F" and r: "r * bits_per_unit p \<le> length (fr_key (F ! i))"
  shows "\<exists>w. encoded_literal host p s r = Inr w \<and> view_ok w \<and> view_bits w = drop (r * bits_per_unit p) (fr_key (F ! i))"
proof (cases "fr_kept (F ! i) \<le> r")
  case True
  then show ?thesis
    using encoded_suffix_holds [OF s i True r] source_record(1,4) [OF s i] by (simp add: encoded_literal_def)
next
  case False
  have h: "holds host p c F v" using s by (simp add: source_stands_def)
  obtain k where k: "encoded_key host p s = Inr k" "view_ok k" "view_bits k = fr_key (F ! i)" using encoded_key_holds [OF s i] by blast
  have "r * bits_per_unit p \<le> bsize k" using r k(3) length_view_bits [OF k(2)] by simp
  moreover have "unit_bits p r = r * bits_per_unit p" using r key_bounds(1) [OF h i] by (simp add: unit_bits_def u64_max_def)
  ultimately show ?thesis
    using False subview_rest [OF k(2)] source_record(1,4) [OF s i] k(1,3) by (auto simp: encoded_literal_def Let_def)
qed

interpretation encoded: merge_source "encoded_ops host p" p "encoded_stand host p" for host p
proof
  fix F :: "frame list" and i :: nat and s :: encoded_source
  assume "encoded_stand host p F i s"
  then obtain c v where s: "source_stands host p c F v i s" by (auto simp: encoded_stand_def)
  have h: "holds host p c F v" using s by (simp add: source_stands_def)
  show "so_done (encoded_ops host p) s \<longleftrightarrow> i = length F" using source_stands_end [OF s] by (simp add: encoded_ops_def)
  show "i \<le> length F" using s by (simp add: source_stands_def)
  assume i: "i < length F"
  note sr = source_record [OF s i] and kb = key_bounds [OF h i]
  have f: "frame_ok p c F i" by (rule frames_okD [OF holdsD(2) [OF h] i])
  then show "unit_multiple p (length (fr_key (F ! i))) \<and> fr_kept (F ! i) * bits_per_unit p \<le> lcp (prev_key F i) (fr_key (F ! i)) \<and>
      length (fr_key (F ! i)) \<le> u64_max - 7"
    using kb(1) by (simp add: frame_ok_def)
  show "\<exists>v. so_value (encoded_ops host p) s = Inr v \<and> view_ok v \<and> view_bits v = fr_value (F ! i)"
    using sr(1,2) by (simp add: encoded_ops_def is_record_def)
  show "\<exists>v. so_key (encoded_ops host p) s = Inr v \<and> view_ok v \<and> view_bits v = fr_key (F ! i)"
    using encoded_key_holds [OF s i] by (simp add: encoded_ops_def)
  show "so_retained_bits (encoded_ops host p) s = Inr (fr_kept (F ! i) * bits_per_unit p)"
    using sr(1,4) kb(3) by (simp add: encoded_ops_def)
  show "\<exists>v. so_suffix (encoded_ops host p) s r = Inr v \<and> view_ok v \<and> view_bits v = drop (r * bits_per_unit p) (fr_key (F ! i))"
    if "fr_kept (F ! i) \<le> r" "r * bits_per_unit p \<le> length (fr_key (F ! i))" for r
    using encoded_suffix_holds [OF s i that] by (simp add: encoded_ops_def)
  show "\<exists>v. so_literal (encoded_ops host p) s r = Inr v \<and> view_ok v \<and> view_bits v = drop (r * bits_per_unit p) (fr_key (F ! i))"
    if "r * bits_per_unit p \<le> length (fr_key (F ! i))" for r
    using encoded_literal_holds [OF s i that] by (simp add: encoded_ops_def)
  show "\<exists>b. so_newer_donates (encoded_ops host p) s d = Inr b" if "encoded_stand host p G j d" "j < length G" for G j d
    using sr(1) source_record(1) [of host p] that by (auto simp: encoded_ops_def encoded_newer_donates_def encoded_stand_def)
  show "\<exists>c'. merge_advance p (so_advance (encoded_ops host p)) s =
        (Inr (if Suc i < length F then lcp (fr_key (F ! i)) (fr_key (F ! Suc i)) div bits_per_unit p else 0), c') \<and>
      encoded_stand host p F (Suc i) c'"
    if up: "Suc i < length F \<Longrightarrow> lex (fr_key (F ! i)) (fr_key (F ! Suc i)) < 0"
  proof (cases "Suc i < length F")
    case True
    obtain s' where "encoded_advance_comparison host p s = (Inr (Some \<lparr>common_bits = lcp (fr_key (F ! i)) (fr_key (F ! Suc i)),
        order = lex (fr_key (F ! i)) (fr_key (F ! Suc i))\<rparr>), s')" "source_stands host p c F v (Suc i) s'"
      using encoded_advance_holds(2) [OF s i True up [OF True]] by blast
    then show ?thesis using True up [OF True] by (auto simp: encoded_ops_def merge_advance_def bindM_apply encoded_stand_def)
  next
    case False
    then have "Suc i = length F" using i by simp
    then obtain s' where "encoded_advance_comparison host p s = (Inr None, s')" "source_stands host p c F v (Suc i) s'"
      using encoded_advance_holds(1) [OF s i] by blast
    then show ?thesis using False by (auto simp: encoded_ops_def merge_advance_def bindM_apply encoded_stand_def)
  qed
  show "\<exists>c'. merge_advance p (so_advance (encoded_ops host p)) s =
      (Inl (Invalid_argument ''native merge inputs must have unique sorted keys''), c')"
    if "Suc i < length F" "lex (fr_key (F ! i)) (fr_key (F ! Suc i)) \<ge> 0"
    using encoded_advance_holds(3) [OF s i that] by (auto simp: encoded_ops_def merge_advance_def bindM_apply)
qed

end
