(* ===== verification/NativeMerges.thy ===== *)
theory NativeMerges
  imports EncodedMerge
begin

text \<open>
  Merges of built profiles (\<open>native_merge.h\<close>): started on the views of two native profiles and
  stepped with any budgets, the builder produces the profile the batch encoder makes of the merged
  records.
\<close>

section \<open>Inputs\<close>

text \<open>A view of the native profile built of some records, on a host of either byte order.\<close>

definition input_of :: "bool \<Rightarrow> storage_policy \<Rightarrow> nat \<Rightarrow> profile_record list \<Rightarrow> frame list \<Rightarrow> profile_view \<Rightarrow> bool" where
  "input_of host p rf records F v \<longleftrightarrow> records_ok p Native records \<and> (rf = 0 \<or> rf \<ge> 3) \<and>
     F = front_code p (shared_width p Native records) [] rf records 0 [] \<and>
     length (stream p (shared_width p Native records) F (length F)) < 2 ^ 57 \<and>
     (\<exists>maker little a. build_profile maker p Native records [] rf = Inr a \<and> (little = host \<or> little) \<and> array_view_in little p Native a = Inr v)"

lemma from_sections_plain:
  assumes "from_sections p role bs offsets m = Inr v"
  shows "plain p v"
proof -
  obtain bits data where b: "profile_multiply (m_extent m) (bits_per_unit p) = Inr bits" "bits \<le> u64_max - 7"
    "new_bit_view bs bits 0 = Inr data" "v = \<lparr>pv_bytes = bs, pv_offsets = offsets, pv_metadata = m, pv_data = data\<rparr>"
    using assms unfolding from_sections_def Let_def by (auto simp: bindE_eq_Inr split: if_splits)
  have "bits = m_extent m * bits_per_unit p" using b(1) by (auto simp: profile_multiply_def split: if_splits)
  then have "unit_bits p (m_extent m) = bits" using b(2) by (simp add: unit_bits_def u64_max_def)
  then show ?thesis using b(3,4) by (simp add: plain_def)
qed

lemma input_holds:
  assumes p: "policy_ok p" and i: "input_of host p rf records F v"
  shows "holds host p (shared_width p Native records) F v" "plain p v"
    "contents F = map (\<lambda>r. (string_bits (record_key r), string_bits (record_value r))) records" "length F = length records"
    "length F < 2 ^ 57"
proof -
  let ?c = "shared_width p Native records"
  note d = i [unfolded input_of_def]
  obtain maker little a where a: "build_profile maker p Native records [] rf = Inr a" "(little = host \<or> little)"
    "array_view_in little p Native a = Inr v" using d by blast
  have b: "built_profile p Native ?c F a"
    using build_profile_built [OF p _ _ _ refl, of Native records "[]" rf F maker] d a(1) by auto
  show h: "holds host p ?c F v" using array_view_holds [OF p b a(2)] a(3) by auto
  show "plain p v" using a(3) from_sections_plain by (auto simp: array_view_in_def res_simps)
  show cont: "contents F = map (\<lambda>r. (string_bits (record_key r), string_bits (record_value r))) records"
    using front_code_extends [of p ?c "[]" rf records 0 "[]"] d by auto
  show "length F = length records" using arg_cong [OF cont, of length] by (simp add: contents_def)
  have "length F \<le> place p ?c F (length F)" by (rule residual_mono(3) [OF holdsD(2) [OF h] order_refl])
  also have "\<dots> \<le> length (stream p ?c F (length F))" by (rule place_length)
  also have "\<dots> < 2 ^ 57" using d by blast
  finally show "length F < 2 ^ 57" .
qed

lemma increasing_nth: "increasing_after prev records \<Longrightarrow> Suc k < length records \<Longrightarrow>
    lex (string_bits (record_key (records ! k))) (string_bits (record_key (records ! Suc k))) < 0"
proof (induction records arbitrary: prev k)
  case (Cons r rs)
  then show ?case by (cases k; cases rs) auto
qed simp

lemma not_increasing_nth: "\<not> increasing_after (Some (string_bits (record_key r))) records \<Longrightarrow>
    \<exists>k. Suc k < length (r # records) \<and>
      lex (string_bits (record_key ((r # records) ! k))) (string_bits (record_key ((r # records) ! Suc k))) \<ge> 0"
proof (induction records arbitrary: r)
  case (Cons r' rs)
  show ?case
  proof (cases "lex (string_bits (record_key r)) (string_bits (record_key r')) < 0")
    case True
    then have "\<not> increasing_after (Some (string_bits (record_key r'))) rs" using Cons.prems by simp
    then obtain k where "Suc k < length (r' # rs)" "lex (string_bits (record_key ((r' # rs) ! k))) (string_bits (record_key ((r' # rs) ! Suc k))) \<ge> 0"
      using Cons.IH [of r'] by blast
    then show ?thesis by (intro exI [of _ "Suc k"]) simp
  next
    case False
    then show ?thesis by (intro exI [of _ 0]) simp
  qed
qed simp

lemma input_descends:
  assumes "policy_ok p" "input_of host p rf records F v"
  shows "increasing_after None records \<longleftrightarrow> (\<forall>k. \<not> descends F k)"
proof -
  have cont: "contents F = map (\<lambda>r. (string_bits (record_key r), string_bits (record_value r))) records" "length F = length records"
    using input_holds [OF assms] by simp_all
  have nth: "fr_key (F ! k) = string_bits (record_key (records ! k))" if "k < length records" for k
    using arg_cong [OF cont(1), of "\<lambda>xs. xs ! k"] that cont(2) by (simp add: contents_def)
  have d: "descends F k \<longleftrightarrow> Suc k < length records \<and>
      lex (string_bits (record_key (records ! k))) (string_bits (record_key (records ! Suc k))) \<ge> 0" for k
    using nth [of k] nth [of "Suc k"] cont(2) by (auto simp: descends_def)
  show ?thesis
  proof
    assume "increasing_after None records"
    then show "\<forall>k. \<not> descends F k" using increasing_nth [of None records] by (auto simp: d not_le)
  next
    assume nd: "\<forall>k. \<not> descends F k"
    show "increasing_after None records"
    proof (cases records)
      case (Cons r rs)
      then show ?thesis using nd not_increasing_nth [of r rs] by (auto simp: d)
    qed simp
  qed
qed

section \<open>The builder on two inputs\<close>

text \<open>The two instances of the template, for compositions without and with the key.\<close>

definition start_encoded_merge ::
  "bool \<Rightarrow> storage_policy \<Rightarrow> nat option \<Rightarrow> profile_view option \<Rightarrow> profile_view option \<Rightarrow> encoded_source native_merge res" where
  "start_encoded_merge host p common older newer =
     bindE (new_native_output p common) (\<lambda>out. new_native_merge (new_encoded_source host p) out older newer)"

definition start_keyed_merge ::
  "bool \<Rightarrow> storage_policy \<Rightarrow> nat option \<Rightarrow> profile_view option \<Rightarrow> profile_view option \<Rightarrow> profile_cursor native_merge res" where
  "start_keyed_merge host p common older newer =
     bindE (new_native_output p common) (\<lambda>out. new_native_merge (start_profile_cursor host p) out older newer)"

lemma start_keyed_stand:
  assumes "policy_ok p" "input_of host p rf records F v"
  shows "\<exists>s. start_profile_cursor host p v = Inr s \<and> keyed_stand host p F 0 s"
proof -
  let ?q = "\<lparr>storage = [], offset = 0, bsize = 0\<rparr>"
  have h: "holds host p (shared_width p Native records) F v" using input_holds [OF assms] by simp
  have q: "view_ok ?q" "view_bits ?q = []" by (simp_all add: view_ok_def view_bits_def)
  have nil: "lex [] xs \<le> 0" for xs by (cases xs) simp_all
  show ?thesis
    using new_profile_cursor_holds [OF h _ q(1), of 0] h q(2) nil by (auto simp: start_profile_cursor_def keyed_stand_def)
qed

lemma start_encoded_stand:
  assumes "policy_ok p" "input_of host p rf records F v"
  shows "\<exists>s. new_encoded_source host p v = Inr s \<and> encoded_stand host p F 0 s"
  using new_encoded_source_holds [of host p "shared_width p Native records" F v] input_holds [OF assms]
  by (auto simp: encoded_stand_def)

text \<open>The records a merge should produce.\<close>

definition merged_ok :: "storage_policy \<Rightarrow> draft list \<Rightarrow> profile_record list \<Rightarrow> bool" where
  "merged_ok p ds records \<longleftrightarrow> drafts_of p records ds \<and> records_ok p Native records \<and>
     value_or (shared_width p Native records) 0 * bits_per_unit p \<le> u64_max \<and>
     (let F = front_code p (shared_width p Native records) [] 0 records 0 [] in
      length (stream p (shared_width p Native records) F (length F)) < 2 ^ 57)"

lemma merged_output:
  assumes p: "policy_ok p" and m: "merged_ok p ds records" and c: "c = shared_width p Native records"
    and G: "G = front_code p c [] 0 records 0 []"
  shows "G = code_drafts p [] ds" "length G = length records" "frames_ok p c G" "length (stream p c G (length G)) < 2 ^ 57"
    "policy_value_width p = Some n \<Longrightarrow> c = Some n" "\<exists>w. new_native_output p c = Inr w \<and> outputting p c [] w"
    "\<exists>a. build_profile maker p Native records [] 0 = Inr a \<and> built_profile p Native c G a"
proof -
  have d: "drafts_of p records ds" "records_ok p Native records" "value_or c 0 * bits_per_unit p \<le> u64_max"
    and fit: "length (stream p c G (length G)) < 2 ^ 57" using m by (simp_all add: merged_ok_def Let_def c G)
  show G': "G = code_drafts p [] ds" using code_drafts_front [OF d(1), of c 0 "[]"] G by simp
  show "length G = length records" using arg_cong [OF d(1) [unfolded drafts_of_def], of length] by (simp add: G')
  show "length (stream p c G (length G)) < 2 ^ 57" by (rule fit)
  show w: "policy_value_width p = Some n \<Longrightarrow> c = Some n" for n by (simp add: c shared_width_def)
  show b: "\<exists>a. build_profile maker p Native records [] 0 = Inr a \<and> built_profile p Native c G a" for maker
    using build_profile_built [OF p d(2) _ _ c G fit, of maker] by simp
  then show "frames_ok p c G" by (auto simp: built_profile_def)
  show "\<exists>w. new_native_output p c = Inr w \<and> outputting p c [] w"
    using new_output_holds [OF w d(3)] by blast
qed

section \<open>Replacement as an update\<close>

definition ascending :: "frame list \<Rightarrow> bool" where
  "ascending F \<longleftrightarrow> sorted_wrt (\<lambda>f g. lex (fr_key f) (fr_key g) < 0) F"

lemma ascending_iff: "ascending F \<longleftrightarrow> (\<forall>k. \<not> descends F k)"
proof -
  have t: "transp (\<lambda>f g. lex (fr_key f) (fr_key g) < 0)" by (rule transpI) (rule lex_trans)
  show ?thesis
    unfolding ascending_def sorted_wrt_iff_nth_Suc_transp [OF t] descends_def by (auto simp: not_le)
qed

lemma merge_frames_keys: "fst ` set (merge_frames g h A B) = fr_key ` set A \<union> fr_key ` set B"
  by (induction g h A B rule: merge_frames.induct) (auto simp: draft_of_def lex_eq_0 not_less dest: antisym)

lemma merge_frames_member:
  "d \<in> set (merge_frames g h A B) \<Longrightarrow> \<exists>x. (x \<in> set A \<or> x \<in> set B) \<and> fst d = fr_key x"
  using merge_frames_keys [of g h A B] by (metis (no_types, lifting) UnE image_iff)

lemma merge_frames_ascend:
  "ascending A \<Longrightarrow> ascending B \<Longrightarrow> sorted_wrt (\<lambda>a b. lex (fst a) (fst b) < 0) (merge_frames g h A B)"
proof (induction g h A B rule: merge_frames.induct)
  case (4 g h a as b bs)
  have k: "lex (fr_key a) (fr_key x) < 0" if "x \<in> set as" for x using 4(4) that by (simp add: ascending_def)
  have l: "lex (fr_key b) (fr_key x) < 0" if "x \<in> set bs" for x using 4(5) that by (simp add: ascending_def)
  have tails: "ascending as" "ascending bs" using 4(4,5) by (simp_all add: ascending_def)
  consider "lex (fr_key a) (fr_key b) < 0" | "lex (fr_key a) (fr_key b) > 0" | "fr_key a = fr_key b"
    using lex_eq_0 by (metis linorder_less_linear)
  then show ?case
  proof cases
    case 1
    have "lex (fr_key a) (fst d) < 0" if "d \<in> set (merge_frames g h as (b # bs))" for d
      using merge_frames_member [OF that] k l 1 by (auto intro: lex_trans)
    then show ?thesis using 4(1) 1 tails 4(5) by (simp add: draft_of_def)
  next
    case 2
    then have ba: "lex (fr_key b) (fr_key a) < 0" using lex_swap [of "fr_key a" "fr_key b"] by simp
    have "lex (fr_key b) (fst d) < 0" if "d \<in> set (merge_frames g h (a # as) bs)" for d
      using merge_frames_member [OF that] k l ba by (auto intro: lex_trans)
    then show ?thesis using 4(2) 2 tails 4(4) by (simp add: draft_of_def)
  next
    case 3
    have "lex (fr_key a) (fst d) < 0" if "d \<in> set (merge_frames g h as bs)" for d
      using merge_frames_member [OF that] k l 3 by auto
    then show ?thesis using 4(3) 3 tails by (simp add: draft_of_def)
  qed
qed (auto simp: ascending_def draft_of_def dest!: merge_frames_member)

lemma ascending_dom: "ascending (b # bs) \<Longrightarrow> lex k (fr_key b) < 0 \<Longrightarrow> map_of (contents (b # bs)) k = None"
proof -
  assume b: "ascending (b # bs)" "lex k (fr_key b) < 0"
  have "lex k (fr_key x) < 0" if "x \<in> set (b # bs)" for x using that b by (auto simp: ascending_def intro: lex_trans)
  then have "k \<notin> fr_key ` set (b # bs)" by force
  then show ?thesis by (auto simp: map_of_eq_None_iff contents_def image_image)
qed

lemma replace_contents:
  "ascending A \<Longrightarrow> ascending B \<Longrightarrow>
    map_of (map (\<lambda>(key, val, limit). (key, val)) (merge_frames (\<lambda>k a b. b) h A B)) = map_of (contents A) ++ map_of (contents B)"
proof (induction "(\<lambda>k a b. b) :: bool list \<Rightarrow> bool list \<Rightarrow> bool list \<Rightarrow> bool list" h A B rule: merge_frames.induct)
  case (4 h a as b bs)
  have tails: "ascending as" "ascending bs" using 4(4,5) by (simp_all add: ascending_def)
  consider "lex (fr_key a) (fr_key b) < 0" | "lex (fr_key a) (fr_key b) > 0" | "fr_key a = fr_key b"
    using lex_eq_0 by (metis linorder_less_linear)
  then show ?case
  proof cases
    case 1
    let ?M = "map_of (contents (b # bs))"
    have "map_of (map (\<lambda>(key, val, limit). (key, val)) (merge_frames (\<lambda>k a b. b) h (a # as) (b # bs))) =
        (map_of (contents as) ++ ?M) (fr_key a \<mapsto> fr_value a)"
      using 4(1) [OF 1 tails(1) 4(5)] 1 by (simp add: draft_of_def)
    also have "\<dots> = (map_of (contents as)) (fr_key a \<mapsto> fr_value a) ++ ?M"
      using ascending_dom [OF 4(5) 1] by (simp add: map_add_upd_left domIff)
    finally show ?thesis by (simp add: contents_def)
  next
    case 2
    then show ?thesis using 4(2) tails 4(4) by (simp add: draft_of_def contents_def)
  next
    case 3
    have "map_of (contents bs) (fr_key b) = None"
    proof (cases bs)
      case (Cons b' bs')
      then show ?thesis using ascending_dom [of b' bs' "fr_key b"] tails 4(5) by (simp add: ascending_def)
    qed (simp add: contents_def)
    then show ?thesis using 4(3) 3 tails by (simp add: draft_of_def contents_def map_add_upd_left domIff)
  qed
qed (simp_all add: contents_def draft_of_def ascending_def)

text \<open>An ascending sequence of bindings is determined by its map.\<close>

lemma ascending_unique:
  fixes xs ys :: "(bool list \<times> 'v) list"
  assumes "sorted_wrt (\<lambda>a b. lex (fst a) (fst b) < 0) xs" "sorted_wrt (\<lambda>a b. lex (fst a) (fst b) < 0) ys" "map_of xs = map_of ys"
  shows "xs = ys"
  using assms
proof (induction xs arbitrary: ys)
  case Nil
  then show ?case by (cases ys) (auto simp: fun_eq_iff split: if_splits)
next
  case (Cons x xs)
  have absent: "map_of zs k = None" if "\<forall>b\<in>set zs. lex k (fst b) < 0" for k and zs :: "(bool list \<times> 'v) list"
    using that by (force simp: map_of_eq_None_iff)
  obtain y ys' where ys: "ys = y # ys'" using Cons.prems(3) by (cases ys; cases x) (auto simp: fun_eq_iff split: if_splits)
  have px: "map_of xs (fst x) = None" and py: "map_of ys' (fst y) = None"
    using Cons.prems(1,2) ys by (auto intro!: absent)
  have "fst x = fst y"
  proof (rule ccontr)
    assume ne: "fst x \<noteq> fst y"
    then consider "lex (fst x) (fst y) < 0" | "lex (fst y) (fst x) < 0"
      using lex_eq_0 [of "fst x" "fst y"] lex_swap [of "fst x" "fst y"] by linarith
    then show False
    proof cases
      case 1
      have "map_of ys' (fst x) = None" using 1 Cons.prems(2) ys by (intro absent) (auto intro: lex_trans)
      then show False using ne fun_cong [OF Cons.prems(3), of "fst x"] ys by (cases x; cases y) auto
    next
      case 2
      have "map_of xs (fst y) = None" using 2 Cons.prems(1) by (intro absent) (auto intro: lex_trans)
      then show False using ne fun_cong [OF Cons.prems(3), of "fst y"] ys by (cases x; cases y) auto
    qed
  qed
  moreover have "snd x = snd y" using \<open>fst x = fst y\<close> fun_cong [OF Cons.prems(3), of "fst x"] ys by (cases x; cases y) auto
  moreover have "map_of xs = map_of ys'"
  proof
    fix k
    show "map_of xs k = map_of ys' k"
      using px py \<open>fst x = fst y\<close> fun_cong [OF Cons.prems(3), of k] ys by (cases x; cases y; cases "k = fst x") auto
  qed
  then have "xs = ys'" using Cons.IH [of ys'] Cons.prems(1,2) ys by simp
  ultimately show ?case using ys by (cases x; cases y) simp
qed

lemma unburied: "h = (\<lambda>k v. False) \<Longrightarrow> d \<in> set (merge_frames g h A B) \<Longrightarrow> snd (snd d) = None"
  by (induction g h A B rule: merge_frames.induct) (auto simp: draft_of_def split: if_splits)

definition record_bindings :: "profile_record list \<Rightarrow> (bool list \<times> bool list) list" where
  "record_bindings records = map (\<lambda>r. (string_bits (record_key r), string_bits (record_value r))) records"

lemma override_drafts:
  assumes A: "ascending A" "contents A = record_bindings xs" and B: "ascending B" "contents B = record_bindings ys"
    and z: "increasing_after None zs" "\<forall>r\<in>set zs. retained_limit_bits r = None"
    and m: "map_of (record_bindings zs) = map_of (record_bindings xs) ++ map_of (record_bindings ys)"
  shows "drafts_of p zs (merge_frames (\<lambda>k a b. b) (\<lambda>k v. False) A B)"
proof -
  let ?ds = "merge_frames (\<lambda>k a b. b) (\<lambda>k v. False) A B"
  have t: "transp (\<lambda>a b. lex (fst a) (fst b) < 0)" by (rule transpI) (rule lex_trans)
  have "sorted_wrt (\<lambda>a b. lex (fst a) (fst b) < 0) (record_bindings zs)"
    unfolding sorted_wrt_iff_nth_Suc_transp [OF t] using increasing_nth [OF z(1)] by (simp add: record_bindings_def)
  moreover have "sorted_wrt (\<lambda>a b. lex (fst a) (fst b) < 0) (map (\<lambda>(key, val, limit). (key, val)) ?ds)"
    using merge_frames_ascend [OF A(1) B(1)] by (simp add: sorted_wrt_map case_prod_beta)
  ultimately have "record_bindings zs = map (\<lambda>(key, val, limit). (key, val)) ?ds"
    using m replace_contents [OF A(1) B(1)] A(2) B(2) by (intro ascending_unique) simp_all
  then have eq: "map (\<lambda>r. (string_bits (record_key r), string_bits (record_value r))) zs = map (\<lambda>d. (fst d, fst (snd d))) ?ds"
    by (simp add: record_bindings_def case_prod_beta)
  have "map (\<lambda>r. (string_bits (record_key r), string_bits (record_value r), retained_limit_bits r)) zs =
      map (\<lambda>b. (fst b, snd b, None)) (map (\<lambda>r. (string_bits (record_key r), string_bits (record_value r))) zs)"
    using z(2) by simp
  also have "\<dots> = map (\<lambda>(key, val, limit). (key, val, map_option (\<lambda>n. n * bits_per_unit p) limit)) ?ds"
    unfolding eq using unburied [OF refl, of _ "\<lambda>k a b. b" A B] by (auto simp: case_prod_beta)
  finally show ?thesis by (simp add: drafts_of_def)
qed

section \<open>Whole merges\<close>

context merge_source
begin

lemma merges_inputs:
  assumes p: "policy_ok p" and i: "input_of host p ra xs A v" "input_of host p rb ys B w"
    and st: "opener v = Inr c" "stand A 0 c" "opener w = Inr d" "stand B 0 d"
    and inc: "increasing_after None xs" "increasing_after None ys" and fuse: "composes fuse g" "buries tombs h"
    and m: "merged_ok p (merge_frames g h A B) zs" and n: "length zs \<le> sum_list budgets"
  shows "\<exists>s ws s1 a s2. bindE (new_native_output p (shared_width p Native zs)) (\<lambda>out. new_native_merge opener out (Some v) (Some w)) = Inr s \<and>
    merge_steps host p src fuse tombs budgets s = (Inr ws, s1) \<and> list_all2 (\<lambda>w b. fst w \<le> b) ws budgets \<and>
    sum_list (map fst ws) = length zs \<and> sum_list (map snd ws) = length xs + length ys \<and>
    nm_finish p src s1 = (Inr a, s2) \<and> build_profile maker p Native zs [] 0 = Inr a"
proof -
  let ?c = "shared_width p Native zs" let ?G = "front_code p ?c [] 0 zs 0 []"
  note a = input_holds [OF p i(1)] and b = input_holds [OF p i(2)] and out = merged_output [OF p m refl refl]
  obtain o' where o': "new_native_output p ?c = Inr o'" "outputting p ?c [] o'" using out(6) by blast
  obtain r where r: "build_profile maker p Native zs [] 0 = Inr r" "built_profile p Native ?c ?G r" using out(7) by blast
  have up: "\<not> ((\<exists>k. descends A k) \<or> (\<exists>k. descends B k))" using input_descends [OF p i(1)] input_descends [OF p i(2)] inc by simp
  have cap: "length A + length B \<le> u64_max" using a(5) b(5) by (simp add: u64_max_def)
  let ?s = "\<lparr>nm_older = c, nm_newer = d, nm_pinned = True, nm_writer = o', nm_keys = 0, nm_records = 0,
    nm_older_prefix = 0, nm_newer_prefix = 0, nm_failed = False\<rparr>"
  have start: "bindE (new_native_output p ?c) (\<lambda>out. new_native_merge opener out (Some v) (Some w)) = Inr ?s"
    using o' st(1,3) by (simp add: new_native_merge_def checked_output_def outputting_def)
  have enough: "length ?G \<le> sum_list budgets" using n out(2) by simp
  note run = merge_runs [OF st(2,4) p out(1,3,4) fuse cap o'(2) out(5) enough refl, of host]
  from run [unfolded if_not_P [OF up]] obtain ws s1 t s2 where
    t: "merge_steps host p src fuse tombs budgets ?s = (Inr ws, s1)" "sum_list (map fst ws) = length zs"
      "sum_list (map snd ws) = length xs + length ys" "list_all2 (\<lambda>w b. fst w \<le> b) ws budgets"
      "nm_finish p src s1 = (Inr t, s2)" "built_profile p Native ?c ?G t"
    unfolding out(2) a(4) b(4) by blast
  have "t = r" by (rule built_profile_unique [OF t(6) r(2)])
  then show ?thesis using start t r(1) by blast
qed

text \<open>Inputs with a repeated key are refused, and the builder stays inactive.\<close>

lemma refuses_inputs:
  assumes p: "policy_ok p" and i: "input_of host p ra xs A v" "input_of host p rb ys B w"
    and st: "opener v = Inr c" "stand A 0 c" "opener w = Inr d" "stand B 0 d"
    and inc: "\<not> increasing_after None xs \<or> \<not> increasing_after None ys" and fuse: "composes fuse g" "buries tombs h"
    and m: "merged_ok p (merge_frames g h A B) zs" and n: "length zs \<le> sum_list budgets"
  shows "\<exists>s s1. bindE (new_native_output p (shared_width p Native zs)) (\<lambda>out. new_native_merge opener out (Some v) (Some w)) = Inr s \<and>
    merge_steps host p src fuse tombs budgets s = (Inl (Invalid_argument ''native merge inputs must have unique sorted keys''), s1) \<and>
    nm_step host p src fuse tombs budget s1 = (Inl (Logic_error ''native merge is inactive''), s1) \<and>
    nm_finish p src s1 = (Inl (Logic_error ''native merge is inactive''), s1)"
proof -
  let ?c = "shared_width p Native zs" let ?G = "front_code p ?c [] 0 zs 0 []"
  note a = input_holds [OF p i(1)] and b = input_holds [OF p i(2)] and out = merged_output [OF p m refl refl]
  obtain o' where o': "new_native_output p ?c = Inr o'" "outputting p ?c [] o'" using out(6) by blast
  have down: "(\<exists>k. descends A k) \<or> (\<exists>k. descends B k)" using input_descends [OF p i(1)] input_descends [OF p i(2)] inc by simp
  have cap: "length A + length B \<le> u64_max" using a(5) b(5) by (simp add: u64_max_def)
  let ?s = "\<lparr>nm_older = c, nm_newer = d, nm_pinned = True, nm_writer = o', nm_keys = 0, nm_records = 0,
    nm_older_prefix = 0, nm_newer_prefix = 0, nm_failed = False\<rparr>"
  have start: "bindE (new_native_output p ?c) (\<lambda>out. new_native_merge opener out (Some v) (Some w)) = Inr ?s"
    using o' st(1,3) by (simp add: new_native_merge_def checked_output_def outputting_def)
  have enough: "length ?G \<le> sum_list budgets" using n out(2) by simp
  note run = merge_runs [OF st(2,4) p out(1,3,4) fuse cap o'(2) out(5) enough refl, of host]
  from run [unfolded if_P [OF down]] obtain s1 where
    s1: "merge_steps host p src fuse tombs budgets ?s = (Inl (Invalid_argument ''native merge inputs must have unique sorted keys''), s1)" "nm_failed s1"
    by blast
  have "nm_active s1 = Inl (Logic_error ''native merge is inactive'')" using s1(2) by (simp add: nm_active_def)
  then have "nm_step host p src fuse tombs budget s1 = (Inl (Logic_error ''native merge is inactive''), s1)"
    "nm_finish p src s1 = (Inl (Logic_error ''native merge is inactive''), s1)"
    by (simp_all add: nm_step_def nm_finish_def bindM_apply)
  then show ?thesis using start s1(1) by blast
qed

end

section \<open>Properties\<close>

text \<open>
  C2. Merging is batch encoding of the merged records, for every composition that does not look at
  the key. Started on the views of two native profiles with strictly increasing keys, and stepped
  with any budgets that add up to the number of merged keys, the builder over encoded sources takes
  every record of both inputs, never more keys in a step than its budget, and finishes with exactly
  the sections and metadata the batch encoder makes of the merged records; tombstones keep the
  smallest prefix of the records they stand for.
\<close>

theorem encoded_merge_equals_batch:
  assumes p: "policy_ok p" and i: "input_of host p ra xs A v" "input_of host p rb ys B w"
    and inc: "increasing_after None xs" "increasing_after None ys"
    and fuse: "\<forall>f. fuse \<noteq> On_key f" "composes fuse g" "buries tombs h"
    and m: "merged_ok p (merge_frames g h A B) zs" and n: "length zs \<le> sum_list budgets"
  shows "\<exists>s ws s1 a s2. start_encoded_merge host p (shared_width p Native zs) (Some v) (Some w) = Inr s \<and>
    merge_steps host p (encoded_ops host p) fuse tombs budgets s = (Inr ws, s1) \<and> list_all2 (\<lambda>w b. fst w \<le> b) ws budgets \<and>
    sum_list (map fst ws) = length zs \<and> sum_list (map snd ws) = length xs + length ys \<and>
    nm_finish p (encoded_ops host p) s1 = (Inr a, s2) \<and> build_profile maker p Native zs [] 0 = Inr a"
proof -
  obtain c d where cd: "new_encoded_source host p v = Inr c" "encoded_stand host p A 0 c"
      "new_encoded_source host p w = Inr d" "encoded_stand host p B 0 d"
    using start_encoded_stand [OF p i(1)] start_encoded_stand [OF p i(2)] by blast
  show ?thesis
    unfolding start_encoded_merge_def by (rule encoded.merges_inputs [OF p i cd inc fuse(2,3) m n])
qed

text \<open>
  C5. The key-aware builder ends as well. With a composition that takes the key, the builder walks
  reconstructed keys; budgets that add up to the number of merged keys, in whatever portions, bring
  it to the end, where it yields exactly the batch encoding of the merged records.
\<close>

theorem keyed_merge_terminates:
  assumes p: "policy_ok p" and i: "input_of host p ra xs A v" "input_of host p rb ys B w"
    and inc: "increasing_after None xs" "increasing_after None ys"
    and fuse: "composes (On_key f) g" "buries tombs h"
    and m: "merged_ok p (merge_frames g h A B) zs" and n: "length zs \<le> sum_list budgets"
  shows "\<exists>s ws s1 a s2. start_keyed_merge host p (shared_width p Native zs) (Some v) (Some w) = Inr s \<and>
    merge_steps host p (keyed_ops host p) (On_key f) tombs budgets s = (Inr ws, s1) \<and> list_all2 (\<lambda>w b. fst w \<le> b) ws budgets \<and>
    sum_list (map fst ws) = length zs \<and> sum_list (map snd ws) = length xs + length ys \<and>
    nm_finish p (keyed_ops host p) s1 = (Inr a, s2) \<and> build_profile maker p Native zs [] 0 = Inr a"
proof -
  obtain c d where cd: "start_profile_cursor host p v = Inr c" "keyed_stand host p A 0 c"
      "start_profile_cursor host p w = Inr d" "keyed_stand host p B 0 d"
    using start_keyed_stand [OF p i(1)] start_keyed_stand [OF p i(2)] by blast
  show ?thesis
    unfolding start_keyed_merge_def by (rule keyed.merges_inputs [OF p i cd inc fuse m n])
qed

text \<open>
  C24. Default merging is a map update. Without a composition of its own the builder yields the batch
  encoding of the one ascending sequence of records whose bindings are those of the older input
  overridden by those of the newer one.
\<close>

theorem replacing_merge_overrides:
  assumes p: "policy_ok p" and i: "input_of host p ra xs A v" "input_of host p rb ys B w"
    and inc: "increasing_after None xs" "increasing_after None ys"
    and z: "records_ok p Native zs" "increasing_after None zs" "\<forall>r\<in>set zs. retained_limit_bits r = None"
    and m: "map_of (record_bindings zs) = map_of (record_bindings xs) ++ map_of (record_bindings ys)"
    and c: "c = shared_width p Native zs" "value_or c 0 * bits_per_unit p \<le> u64_max"
    and G: "G = front_code p c [] 0 zs 0 []" "length (stream p c G (length G)) < 2 ^ 57"
    and n: "length zs \<le> sum_list budgets"
  shows "\<exists>s ws s1 a s2. start_encoded_merge host p c (Some v) (Some w) = Inr s \<and>
    merge_steps host p (encoded_ops host p) Replace_value No_tombstones budgets s = (Inr ws, s1) \<and>
    nm_finish p (encoded_ops host p) s1 = (Inr a, s2) \<and> build_profile maker p Native zs [] 0 = Inr a"
proof -
  have asc: "ascending A" "ascending B"
    using input_descends [OF p i(1)] input_descends [OF p i(2)] inc by (simp_all add: ascending_iff)
  have "drafts_of p zs (merge_frames (\<lambda>k a b. b) (\<lambda>k v. False) A B)"
    by (rule override_drafts [OF asc(1) _ asc(2) _ z(2,3) m]) (simp_all add: input_holds(3) [OF p i(1)] input_holds(3) [OF p i(2)] record_bindings_def)
  then have mo: "merged_ok p (merge_frames (\<lambda>k a b. b) (\<lambda>k v. False) A B) zs"
    using z(1) c(2) G(2) by (simp add: merged_ok_def Let_def c(1) G(1))
  obtain e d where cd: "new_encoded_source host p v = Inr e" "encoded_stand host p A 0 e"
      "new_encoded_source host p w = Inr d" "encoded_stand host p B 0 d"
    using start_encoded_stand [OF p i(1)] start_encoded_stand [OF p i(2)] by blast
  show ?thesis
    using encoded.merges_inputs [OF p i cd inc composes_replace buries_none mo n, of maker]
    unfolding start_encoded_merge_def c(1) by blast
qed

text \<open>
  C28. Inputs with a repeated key are refused. When the keys of one of two built inputs do not
  strictly increase, no budgets that would cover the merge finish it: a step raises
  \<open>invalid_argument\<close>, and the builder refuses every later step and \<open>finish\<close> as inactive.
\<close>

theorem repeated_keys_are_refused:
  assumes p: "policy_ok p" and i: "input_of host p ra xs A v" "input_of host p rb ys B w"
    and inc: "\<not> increasing_after None xs \<or> \<not> increasing_after None ys"
    and fuse: "\<forall>f. fuse \<noteq> On_key f" "composes fuse g" "buries tombs h"
    and m: "merged_ok p (merge_frames g h A B) zs" and n: "length zs \<le> sum_list budgets"
  shows "\<exists>s s1. start_encoded_merge host p (shared_width p Native zs) (Some v) (Some w) = Inr s \<and>
    merge_steps host p (encoded_ops host p) fuse tombs budgets s =
      (Inl (Invalid_argument ''native merge inputs must have unique sorted keys''), s1) \<and>
    nm_step host p (encoded_ops host p) fuse tombs budget s1 = (Inl (Logic_error ''native merge is inactive''), s1) \<and>
    nm_finish p (encoded_ops host p) s1 = (Inl (Logic_error ''native merge is inactive''), s1)"
proof -
  obtain c d where cd: "new_encoded_source host p v = Inr c" "encoded_stand host p A 0 c"
      "new_encoded_source host p w = Inr d" "encoded_stand host p B 0 d"
    using start_encoded_stand [OF p i(1)] start_encoded_stand [OF p i(2)] by blast
  show ?thesis
    unfolding start_encoded_merge_def by (rule encoded.refuses_inputs [OF p i cd inc fuse(2,3) m n])
qed

section \<open>Witnesses\<close>

definition built_view :: "bool \<Rightarrow> profile_record list \<Rightarrow> profile_view option" where
  "built_view host records = (case build_profile host default_policy Native records [] 0 of Inl _ \<Rightarrow> None
     | Inr a \<Rightarrow> (case array_view_in host default_policy Native a of Inl _ \<Rightarrow> None | Inr v \<Rightarrow> Some v))"

definition other_records :: "profile_record list" where
  "other_records =
     [\<lparr>record_key = \<lparr>bytes = [97, 99, 1], bit_size = 24\<rparr>, record_value = \<lparr>bytes = [2], bit_size = 8\<rparr>, retained_limit_bits = None\<rparr>,
      \<lparr>record_key = \<lparr>bytes = [98], bit_size = 8\<rparr>, record_value = \<lparr>bytes = [], bit_size = 0\<rparr>, retained_limit_bits = None\<rparr>]"

definition three_records :: "profile_record \<Rightarrow> profile_record list" where
  "three_records middle = [two_records ! 0, middle, other_records ! 1]"

definition twin_records :: "profile_record list" where
  "twin_records = [two_records ! 0, two_records ! 0]"

lemma witness_size:
  assumes "(\<Sum>r\<leftarrow>records. 240 + length (string_bits (record_key r)) + length (string_bits (record_value r))) < 2 ^ 57"
    "F = front_code default_policy c [] 0 records 0 []"
  shows "length (stream default_policy c F (length F)) < 2 ^ 57"
  using byte_front_code_length [OF default_policy_facts(1) assms(2)] assms(1) by linarith

lemma witness_input:
  assumes ok: "records_ok default_policy Native records"
    and size: "(\<Sum>r\<leftarrow>records. 240 + length (string_bits (record_key r)) + length (string_bits (record_value r))) < 2 ^ 57"
  shows "\<exists>v. built_view host records = Some v \<and> input_of host default_policy 0 records
    (front_code default_policy (shared_width default_policy Native records) [] 0 records 0 []) v"
proof -
  note fit = witness_size [OF size refl]
  obtain a where a: "build_profile host default_policy Native records [] 0 = Inr a"
      "built_profile default_policy Native (shared_width default_policy Native records)
        (front_code default_policy (shared_width default_policy Native records) [] 0 records 0 []) a"
    using build_profile_built [OF default_policies_ok(1) ok _ _ refl refl fit] by auto
  obtain v where v: "array_view_in host default_policy Native a = Inr v"
    using array_view_holds [OF default_policies_ok(1) a(2), of host host] by auto
  show ?thesis using a(1) v ok fit by (auto simp: built_view_def input_of_def)
qed

lemma witness_records:
  "records_ok default_policy Native two_records" "records_ok default_policy Native other_records"
  "records_ok default_policy Native (three_records (two_records ! 1))"
  "records_ok default_policy Native (three_records (other_records ! 0))" "records_ok default_policy Native twin_records"
  "increasing_after None two_records" "increasing_after None other_records"
  "increasing_after None (three_records (other_records ! 0))"
  "\<not> increasing_after None twin_records"
proof -
  have ok: "string_ok \<lparr>bytes = [97, 98], bit_size = 16\<rparr>" "string_ok \<lparr>bytes = [1], bit_size = 8\<rparr>"
    "string_ok \<lparr>bytes = [2], bit_size = 8\<rparr>" "string_ok \<lparr>bytes = [98], bit_size = 8\<rparr>"
    "string_ok \<lparr>bytes = [97, 99, 1], bit_size = 24\<rparr>" "string_ok \<lparr>bytes = [], bit_size = 0\<rparr>"
    unfolding validate_string_iff [symmetric] by (simp_all add: validate_string_def u64_max_def byte_count_def)
  have u: "unit_multiple default_policy n \<longleftrightarrow> n mod 8 = 0" for n
    by (simp add: unit_multiple_def default_policy_facts)
  have o: "lex (string_bits \<lparr>bytes = [97, 98], bit_size = 16\<rparr>) (string_bits \<lparr>bytes = [97, 99, 1], bit_size = 24\<rparr>) < 0"
    "lex (string_bits \<lparr>bytes = [97, 99, 1], bit_size = 24\<rparr>) (string_bits \<lparr>bytes = [98], bit_size = 8\<rparr>) < 0"
    "lex (string_bits \<lparr>bytes = [97, 98], bit_size = 16\<rparr>) (string_bits \<lparr>bytes = [97, 98], bit_size = 16\<rparr>) = 0"
    by (simp_all add: string_bits_def byte_bits_def bits_of_def upt_rec)
  note d = records_ok_def three_records_def twin_records_def two_records_def other_records_def record_ok_def u default_policy_facts
  show "records_ok default_policy Native two_records" "records_ok default_policy Native other_records"
    "records_ok default_policy Native (three_records (two_records ! 1))"
    "records_ok default_policy Native (three_records (other_records ! 0))" "records_ok default_policy Native twin_records"
    "increasing_after None two_records" "increasing_after None other_records"
    "increasing_after None (three_records (other_records ! 0))" "\<not> increasing_after None twin_records"
    using ok o order_less_imp_le [OF o(1)] order_less_imp_le [OF o(2)] by (simp_all add: d)
qed

lemma witness_views:
  "\<exists>v. built_view host two_records = Some v \<and> input_of host default_policy 0 two_records
    (front_code default_policy (shared_width default_policy Native two_records) [] 0 two_records 0 []) v"
  "\<exists>v. built_view host other_records = Some v \<and> input_of host default_policy 0 other_records
    (front_code default_policy (shared_width default_policy Native other_records) [] 0 other_records 0 []) v"
  "\<exists>v. built_view host twin_records = Some v \<and> input_of host default_policy 0 twin_records
    (front_code default_policy (shared_width default_policy Native twin_records) [] 0 twin_records 0 []) v"
proof -
  note d = two_records_def other_records_def twin_records_def string_bits_def
  show "\<exists>v. built_view host two_records = Some v \<and> input_of host default_policy 0 two_records
    (front_code default_policy (shared_width default_policy Native two_records) [] 0 two_records 0 []) v"
    by (rule witness_input [OF witness_records(1)]) (simp add: d)
  show "\<exists>v. built_view host other_records = Some v \<and> input_of host default_policy 0 other_records
    (front_code default_policy (shared_width default_policy Native other_records) [] 0 other_records 0 []) v"
    by (rule witness_input [OF witness_records(2)]) (simp add: d)
  show "\<exists>v. built_view host twin_records = Some v \<and> input_of host default_policy 0 twin_records
    (front_code default_policy (shared_width default_policy Native twin_records) [] 0 twin_records 0 []) v"
    by (rule witness_input [OF witness_records(5)]) (simp add: d)
qed

lemma witness_contents:
  "contents (front_code default_policy c [] 0 records 0 []) =
    map (\<lambda>r. (string_bits (record_key r), string_bits (record_value r))) records"
  using front_code_extends [of default_policy c "[]" 0 records 0 "[]"] by auto

lemma witness_widths:
  "value_or (shared_width default_policy Native (three_records (two_records ! 1))) 0 * bits_per_unit default_policy \<le> u64_max"
  "value_or (shared_width default_policy Native (three_records (other_records ! 0))) 0 * bits_per_unit default_policy \<le> u64_max"
  using default_policy_facts
  by (simp_all add: shared_width_def three_records_def two_records_def other_records_def record_width_def u64_max_def bits_per_unit_def unit_shift_def)

lemma contents_two: "contents F = [(k, x), (l, y)] \<Longrightarrow> \<exists>a b. F = [a, b] \<and> fr_key a = k \<and> fr_value a = x \<and> fr_key b = l \<and> fr_value b = y"
  by (auto simp: contents_def map_eq_Cons_conv)

text \<open>Equal keys keep the older value, or the newer one.\<close>

lemma witness_merges:
  assumes "contents A = map (\<lambda>r. (string_bits (record_key r), string_bits (record_value r))) two_records"
    "contents B = map (\<lambda>r. (string_bits (record_key r), string_bits (record_value r))) other_records"
  shows "merged_ok default_policy (merge_frames (\<lambda>k a b. a) (\<lambda>k v. False) A B) (three_records (two_records ! 1))"
    "merged_ok default_policy (merge_frames (\<lambda>k a b. b) (\<lambda>k v. False) A B) (three_records (other_records ! 0))"
proof -
  have o: "lex (string_bits \<lparr>bytes = [97, 98], bit_size = 16\<rparr>) (string_bits \<lparr>bytes = [97, 99, 1], bit_size = 24\<rparr>) < 0"
    by (simp add: string_bits_def byte_bits_def bits_of_def upt_rec)
  note d = two_records_def other_records_def three_records_def
  obtain a b a' b' where ab: "A = [a, b]" "B = [a', b']" "fr_key a = string_bits (record_key (two_records ! 0))"
      "fr_value a = string_bits (record_value (two_records ! 0))" "fr_key b = string_bits (record_key (two_records ! 1))"
      "fr_value b = string_bits (record_value (two_records ! 1))" "fr_key a' = string_bits (record_key (two_records ! 1))"
      "fr_value a' = string_bits (record_value (other_records ! 0))" "fr_key b' = string_bits (record_key (other_records ! 1))"
      "fr_value b' = string_bits (record_value (other_records ! 1))"
    using contents_two [of A] contents_two [of B] assms by (simp add: d) blast
  have "drafts_of default_policy (three_records (two_records ! 1)) (merge_frames (\<lambda>k a b. a) (\<lambda>k v. False) A B)"
    "drafts_of default_policy (three_records (other_records ! 0)) (merge_frames (\<lambda>k a b. b) (\<lambda>k v. False) A B)"
    using o by (simp_all add: ab drafts_of_def d draft_of_def)
  moreover have "length (stream default_policy c F (length F)) < 2 ^ 57"
    if "F = front_code default_policy c [] 0 (three_records (two_records ! 1)) 0 []" for c F
    by (rule witness_size [OF _ that]) (simp add: d string_bits_def)
  moreover have "length (stream default_policy c F (length F)) < 2 ^ 57"
    if "F = front_code default_policy c [] 0 (three_records (other_records ! 0)) 0 []" for c F
    by (rule witness_size [OF _ that]) (simp add: d string_bits_def)
  ultimately show "merged_ok default_policy (merge_frames (\<lambda>k a b. a) (\<lambda>k v. False) A B) (three_records (two_records ! 1))"
    "merged_ok default_policy (merge_frames (\<lambda>k a b. b) (\<lambda>k v. False) A B) (three_records (other_records ! 0))"
    using witness_records(3,4) witness_widths by (simp_all add: merged_ok_def)
qed


lemma witness_twins:
  assumes "contents A = map (\<lambda>r. (string_bits (record_key r), string_bits (record_value r))) twin_records"
    "contents B = map (\<lambda>r. (string_bits (record_key r), string_bits (record_value r))) other_records"
  shows "merged_ok default_policy (merge_frames (\<lambda>k a b. b) (\<lambda>k v. False) A B) (twin_records @ other_records)"
proof -
  have o: "lex (string_bits \<lparr>bytes = [97, 98], bit_size = 16\<rparr>) (string_bits \<lparr>bytes = [97, 99, 1], bit_size = 24\<rparr>) < 0"
    "lex (string_bits \<lparr>bytes = [97, 98], bit_size = 16\<rparr>) (string_bits \<lparr>bytes = [98], bit_size = 8\<rparr>) < 0"
    by (simp_all add: string_bits_def byte_bits_def bits_of_def upt_rec)
  note d = two_records_def other_records_def twin_records_def
  obtain a b a' b' where ab: "A = [a, b]" "B = [a', b']" "fr_key a = string_bits (record_key (two_records ! 0))"
      "fr_value a = string_bits (record_value (two_records ! 0))" "fr_key b = string_bits (record_key (two_records ! 0))"
      "fr_value b = string_bits (record_value (two_records ! 0))" "fr_key a' = string_bits (record_key (two_records ! 1))"
      "fr_value a' = string_bits (record_value (other_records ! 0))" "fr_key b' = string_bits (record_key (other_records ! 1))"
      "fr_value b' = string_bits (record_value (other_records ! 1))"
    using contents_two [of A] contents_two [of B] assms by (simp add: d) blast
  have "drafts_of default_policy (twin_records @ other_records) (merge_frames (\<lambda>k a b. b) (\<lambda>k v. False) A B)"
    using o by (simp add: ab drafts_of_def d draft_of_def)
  moreover have "length (stream default_policy c F (length F)) < 2 ^ 57"
    if "F = front_code default_policy c [] 0 (twin_records @ other_records) 0 []" for c F
    by (rule witness_size [OF _ that]) (simp add: d string_bits_def)
  moreover have "records_ok default_policy Native (twin_records @ other_records)"
    using witness_records(2,5) order_less_imp_le [OF o(1)] by (simp add: records_ok_def d)
  moreover have "value_or (shared_width default_policy Native (twin_records @ other_records)) 0 * bits_per_unit default_policy \<le> u64_max"
    using default_policy_facts by (simp add: shared_width_def d record_width_def u64_max_def bits_per_unit_def unit_shift_def)
  ultimately show ?thesis by (simp add: merged_ok_def)
qed

lemma encoded_merge_equals_batch_witness:
  "\<exists>v w s ws s1 a s2. built_view True two_records = Some v \<and> built_view True other_records = Some w \<and>
    start_encoded_merge True default_policy (shared_width default_policy Native (three_records (two_records ! 1))) (Some v) (Some w) = Inr s \<and>
    merge_steps True default_policy (encoded_ops True default_policy) (On_values (\<lambda>a b. Inr a)) No_tombstones [2, 5] s = (Inr ws, s1) \<and>
    sum_list (map fst ws) = 3 \<and> sum_list (map snd ws) = 4 \<and> nm_finish default_policy (encoded_ops True default_policy) s1 = (Inr a, s2) \<and>
    build_profile False default_policy Native (three_records (two_records ! 1)) [] 0 = Inr a"
proof -
  obtain v w where vw: "built_view True two_records = Some v" "built_view True other_records = Some w"
      "input_of True default_policy 0 two_records (front_code default_policy (shared_width default_policy Native two_records) [] 0 two_records 0 []) v"
      "input_of True default_policy 0 other_records (front_code default_policy (shared_width default_policy Native other_records) [] 0 other_records 0 []) w"
    using witness_views(1,2) [of True] by blast
  have g: "composes (On_values (\<lambda>a b. Inr a)) (\<lambda>k a b. a)" by (auto simp: composes_def)
  have n: "length (three_records (two_records ! 1)) = 3" "length two_records = 2" "length other_records = 2"
    by (simp_all add: three_records_def two_records_def other_records_def)
  show ?thesis
    using encoded_merge_equals_batch [OF default_policies_ok(1) vw(3,4) witness_records(6,7) _ g buries_none
        witness_merges(1) [OF witness_contents witness_contents], of "[2, 5]" False] vw(1,2) n by fastforce
qed

lemma keyed_merge_terminates_witness:
  "\<exists>v w s ws s1 a s2. built_view False two_records = Some v \<and> built_view False other_records = Some w \<and>
    start_keyed_merge False default_policy (shared_width default_policy Native (three_records (other_records ! 0))) (Some v) (Some w) = Inr s \<and>
    merge_steps False default_policy (keyed_ops False default_policy) (On_key (\<lambda>k a b. Inr b)) No_tombstones [1, 1, 1] s = (Inr ws, s1) \<and>
    sum_list (map fst ws) = 3 \<and> nm_finish default_policy (keyed_ops False default_policy) s1 = (Inr a, s2)"
proof -
  obtain v w where vw: "built_view False two_records = Some v" "built_view False other_records = Some w"
      "input_of False default_policy 0 two_records (front_code default_policy (shared_width default_policy Native two_records) [] 0 two_records 0 []) v"
      "input_of False default_policy 0 other_records (front_code default_policy (shared_width default_policy Native other_records) [] 0 other_records 0 []) w"
    using witness_views(1,2) [of False] by blast
  have g: "composes (On_key (\<lambda>k a b. Inr b)) (\<lambda>k a b. b)" by (auto simp: composes_def)
  have n: "length (three_records (other_records ! 0)) = 3" by (simp add: three_records_def)
  show ?thesis
    using keyed_merge_terminates [OF default_policies_ok(1) vw(3,4) witness_records(6,7) g buries_none
        witness_merges(2) [OF witness_contents witness_contents], of "[1, 1, 1]"] vw(1,2) n by fastforce
qed

lemma replacing_merge_overrides_witness:
  "\<exists>v w s ws s1 a s2. built_view True two_records = Some v \<and> built_view True other_records = Some w \<and>
    start_encoded_merge True default_policy (shared_width default_policy Native (three_records (other_records ! 0))) (Some v) (Some w) = Inr s \<and>
    merge_steps True default_policy (encoded_ops True default_policy) Replace_value No_tombstones [3] s = (Inr ws, s1) \<and>
    nm_finish default_policy (encoded_ops True default_policy) s1 = (Inr a, s2) \<and>
    build_profile True default_policy Native (three_records (other_records ! 0)) [] 0 = Inr a"
proof -
  obtain v w where vw: "built_view True two_records = Some v" "built_view True other_records = Some w"
      "input_of True default_policy 0 two_records (front_code default_policy (shared_width default_policy Native two_records) [] 0 two_records 0 []) v"
      "input_of True default_policy 0 other_records (front_code default_policy (shared_width default_policy Native other_records) [] 0 other_records 0 []) w"
    using witness_views(1,2) [of True] by blast
  let ?zs = "three_records (other_records ! 0)"
  have n: "length ?zs \<le> sum_list [3]" by (simp add: three_records_def)
  have plain: "\<forall>r\<in>set ?zs. retained_limit_bits r = None" by (simp add: three_records_def two_records_def other_records_def)
  have bind: "map_of (record_bindings ?zs) = map_of (record_bindings two_records) ++ map_of (record_bindings other_records)"
    by (simp add: record_bindings_def three_records_def two_records_def other_records_def string_bits_def byte_bits_def bits_of_def upt_rec fun_upd_twist)
  have fit: "length (stream default_policy c F (length F)) < 2 ^ 57" if "F = front_code default_policy c [] 0 ?zs 0 []" for c F
    by (rule witness_size [OF _ that]) (simp add: three_records_def two_records_def other_records_def string_bits_def)
  show ?thesis
    using replacing_merge_overrides [OF default_policies_ok(1) vw(3,4) witness_records(6,7,4,8) plain bind refl witness_widths(2)
        refl fit [OF refl] n, of True] vw(1,2) by blast
qed

lemma repeated_keys_are_refused_witness:
  "\<exists>v w s s1. built_view True twin_records = Some v \<and> built_view True other_records = Some w \<and>
    start_encoded_merge True default_policy (shared_width default_policy Native (twin_records @ other_records)) (Some v) (Some w) = Inr s \<and>
    merge_steps True default_policy (encoded_ops True default_policy) Replace_value No_tombstones [4] s =
      (Inl (Invalid_argument ''native merge inputs must have unique sorted keys''), s1) \<and>
    nm_finish default_policy (encoded_ops True default_policy) s1 = (Inl (Logic_error ''native merge is inactive''), s1)"
proof -
  obtain v w where vw: "built_view True twin_records = Some v" "built_view True other_records = Some w"
      "input_of True default_policy 0 twin_records (front_code default_policy (shared_width default_policy Native twin_records) [] 0 twin_records 0 []) v"
      "input_of True default_policy 0 other_records (front_code default_policy (shared_width default_policy Native other_records) [] 0 other_records 0 []) w"
    using witness_views(2,3) [of True] by blast
  have n: "length (twin_records @ other_records) \<le> sum_list [4]" by (simp add: twin_records_def other_records_def)
  show ?thesis
    using repeated_keys_are_refused [OF default_policies_ok(1) vw(3,4) disjI1 [OF witness_records(9)] _ composes_replace buries_none
        witness_twins [OF witness_contents witness_contents] n] vw(1,2) by blast
qed

end
