(* ===== verification/FixedSearch.thy ===== *)
theory FixedSearch
  imports Policy
begin

text \<open>
  Bounded windows of fixed-width keys (\<open>fixed_search.h\<close>, scalar target): keys of one, two or four
  little-endian 32-bit words, word zero first, searched by a branch-free binary search or, in
  small windows, by three pivots at a time and a population count.
\<close>

section \<open>Keys in memory\<close>

text \<open>Four bytes copied into a word: the first is the least significant on a little-endian host.\<close>

definition native_word :: "bool \<Rightarrow> u8 list \<Rightarrow> u32" where
  "native_word little bs = foldr (\<lambda>b x. push_bit 8 x OR ucast b) (if little then bs else rev bs) 0"

definition load_word :: "bool \<Rightarrow> u8 list \<Rightarrow> nat \<Rightarrow> u32 res" where
  "load_word host bs at =
     (if at + 4 > length bs then Inl (Undefined ''read outside storage'')
      else let x = native_word host (take 4 (drop at bs)) in
        if host then Inr x
        else let x = push_bit 8 (x AND 0x00ff00ff) OR (drop_bit 8 x AND 0x00ff00ff) in
          Inr (push_bit 16 x OR drop_bit 16 x))"

fun precedes_loop :: "bool \<Rightarrow> u8 list \<Rightarrow> nat \<Rightarrow> u32 list \<Rightarrow> bool \<Rightarrow> bool \<Rightarrow> (bool \<times> bool) res" where
  "precedes_loop host bs at [] before same = Inr (before, same)"
| "precedes_loop host bs at (q # qs) before same = bindE (load_word host bs at) (\<lambda>x.
     precedes_loop host bs (at + 4) qs (before \<or> same \<and> x < q) (same \<and> x = q))"

definition precedes :: "bool \<Rightarrow> bool \<Rightarrow> u8 list \<Rightarrow> nat \<Rightarrow> u32 list \<Rightarrow> bool res" where
  "precedes upper host bs at query = bindE (precedes_loop host bs at query False True) (\<lambda>(before, same).
     Inr (if upper then before \<or> same else before))"

text \<open>How many of \<open>n\<close> consecutive keys precede the query.\<close>

fun population :: "bool \<Rightarrow> bool \<Rightarrow> u8 list \<Rightarrow> nat \<Rightarrow> nat \<Rightarrow> u32 list \<Rightarrow> nat res" where
  "population upper host bs at 0 query = Inr 0"
| "population upper host bs at (Suc n) query = bindE (precedes upper host bs at query) (\<lambda>b.
     bindE (population upper host bs (at + 4 * length query) n query) (\<lambda>k. Inr (of_bool b + k)))"

section \<open>The view\<close>

record fixed_key_view =
  fk_words :: nat
  fk_bytes :: "u8 list"

definition key_bytes :: "fixed_key_view \<Rightarrow> nat" where
  "key_bytes v = fk_words v * 4"

definition new_fixed_key_view :: "nat \<Rightarrow> u8 list \<Rightarrow> fixed_key_view res" where
  "new_fixed_key_view n bs =
     (let v = \<lparr>fk_words = n, fk_bytes = bs\<rparr> in
      if length bs mod key_bytes v \<noteq> 0 then Inl (Invalid_argument ''fixed-key extent is not a whole number of keys'')
      else Inr v)"

definition fk_size :: "fixed_key_view \<Rightarrow> nat" where
  "fk_size v = length (fk_bytes v) div key_bytes v"

fun load_words :: "bool \<Rightarrow> u8 list \<Rightarrow> nat \<Rightarrow> nat \<Rightarrow> u32 list res" where
  "load_words host bs at 0 = Inr []"
| "load_words host bs at (Suc n) = bindE (load_word host bs at) (\<lambda>x.
     bindE (load_words host bs (at + 4) n) (\<lambda>xs. Inr (x # xs)))"

definition key_at :: "bool \<Rightarrow> fixed_key_view \<Rightarrow> nat \<Rightarrow> u32 list res" where
  "key_at host v ordinal =
     (if ordinal \<ge> fk_size v then Inl (Out_of_range ''fixed-key ordinal'')
      else load_words host (fk_bytes v) (ordinal * key_bytes v) (fk_words v))"

definition fk_subview :: "fixed_key_view \<Rightarrow> nat \<Rightarrow> nat \<Rightarrow> fixed_key_view res" where
  "fk_subview v first n =
     (if first > fk_size v \<or> n > fk_size v - first then Inl (Out_of_range ''fixed-key subview'')
      else new_fixed_key_view (fk_words v) (take (n * key_bytes v) (drop (first * key_bytes v) (fk_bytes v))))"

section \<open>Binary search\<close>

definition bit_floor :: "nat \<Rightarrow> nat" where
  "bit_floor n = (if n = 0 then 0 else 2 ^ (bit_width n - 1))"

definition probe :: "bool \<Rightarrow> bool \<Rightarrow> fixed_key_view \<Rightarrow> u32 list \<Rightarrow> nat \<Rightarrow> bool res" where
  "probe upper host v query i = precedes upper host (fk_bytes v) (i * key_bytes v) query"

text \<open>The loop over a complete window of \<open>2^m - 1\<close> keys and the loop over any window.\<close>

function complete_loop :: "bool \<Rightarrow> bool \<Rightarrow> fixed_key_view \<Rightarrow> u32 list \<Rightarrow> nat \<Rightarrow> nat \<Rightarrow> nat res" where
  "complete_loop upper host v query step first =
     (if step = 0 then Inr first
      else bindE (probe upper host v query (first + step - 1)) (\<lambda>below.
        complete_loop upper host v query (step div 2) (first + step * of_bool below)))"
  by auto
termination by (relation "measure (\<lambda>(upper, host, v, query, step, first). step)") auto

function window_loop :: "bool \<Rightarrow> bool \<Rightarrow> fixed_key_view \<Rightarrow> u32 list \<Rightarrow> nat \<Rightarrow> nat \<Rightarrow> nat res" where
  "window_loop upper host v query step first =
     (if step = 0 then Inr first
      else let until = first + step in
        bindE (probe upper host v query (min until (fk_size v) - 1)) (\<lambda>below.
        window_loop upper host v query (step div 2) (first + step * of_bool (until \<le> fk_size v \<and> below))))"
  by auto
termination by (relation "measure (\<lambda>(upper, host, v, query, step, first). step)") auto

declare complete_loop.simps [simp del] window_loop.simps [simp del]

definition binary_bound :: "bool \<Rightarrow> bool \<Rightarrow> fixed_key_view \<Rightarrow> u32 list \<Rightarrow> nat res" where
  "binary_bound upper host v query =
     (let count = fk_size v; step = bit_floor count in
      if has_single_bit (count + 1) then complete_loop upper host v query step 0
      else window_loop upper host v query step 0)"

section \<open>Pivots\<close>

text \<open>The three pivots are copied next to each other and counted like a window of three keys.\<close>

definition copy_key :: "fixed_key_view \<Rightarrow> nat \<Rightarrow> u8 list res" where
  "copy_key v i =
     (if (i + 1) * key_bytes v > length (fk_bytes v) then Inl (Undefined ''read outside storage'')
      else Inr (take (key_bytes v) (drop (i * key_bytes v) (fk_bytes v))))"

definition pivot_positions :: "nat \<Rightarrow> nat \<times> nat \<times> nat" where
  "pivot_positions n = (n div 4, n div 2, (3 * n) div 4)"

definition pivot_step :: "bool \<Rightarrow> bool \<Rightarrow> fixed_key_view \<Rightarrow> u32 list \<Rightarrow> nat \<times> nat \<Rightarrow> (nat \<times> nat) res" where
  "pivot_step upper host v query = (\<lambda>(first, n). case pivot_positions n of (i, j, k) \<Rightarrow>
     bindE (copy_key v (first + i)) (\<lambda>a.
     bindE (copy_key v (first + j)) (\<lambda>b.
     bindE (copy_key v (first + k)) (\<lambda>c.
     bindE (population upper host (a @ b @ c) 0 3 query) (\<lambda>rank.
     let start = (rank * n) div 4 + of_bool (rank \<noteq> 0); until = ((rank + 1) * n) div 4 in
     Inr (first + start, until - start))))))"

text \<open>The pivot steps of a bucket, and the count over the keys they leave.\<close>

definition narrow :: "bool \<Rightarrow> bool \<Rightarrow> nat \<Rightarrow> fixed_key_view \<Rightarrow> u32 list \<Rightarrow> (nat \<times> nat) res" where
  "narrow upper host bucket v query =
     bindE (if bucket > 4 then pivot_step upper host v query (0, fk_size v) else Inr (0, fk_size v)) (\<lambda>w.
     if bucket > 16 then pivot_step upper host v query w else Inr w)"

definition small_bound :: "bool \<Rightarrow> bool \<Rightarrow> nat \<Rightarrow> fixed_key_view \<Rightarrow> u32 list \<Rightarrow> nat res" where
  "small_bound upper host bucket v query =
     bindE (narrow upper host bucket v query) (\<lambda>(first, count).
     if count = 0 then Inr first
     else bindE (population upper host (fk_bytes v) (first * key_bytes v) count query) (\<lambda>n. Inr (first + n)))"

definition simd_bound :: "bool \<Rightarrow> bool \<Rightarrow> fixed_key_view \<Rightarrow> u32 list \<Rightarrow> nat res" where
  "simd_bound upper host v query =
     (if fk_size v \<le> 4 then small_bound upper host 4 v query
      else if fk_size v \<le> 8 then small_bound upper host 8 v query
      else if fk_size v \<le> 16 then small_bound upper host 16 v query
      else if fk_size v \<le> 32 then small_bound upper host 32 v query
      else binary_bound upper host v query)"

text \<open>On the scalar target no window prefers the pivots.\<close>

definition prefer_simd :: "fixed_key_view \<Rightarrow> bool" where
  "prefer_simd v = False"

definition search_bound :: "bool \<Rightarrow> bool \<Rightarrow> fixed_key_view \<Rightarrow> u32 list \<Rightarrow> nat res" where
  "search_bound upper host v query =
     (if prefer_simd v then simd_bound upper host v query else binary_bound upper host v query)"

section \<open>Keys do not depend on the host\<close>

lemma bit_native_word:
  assumes "k < 32"
  shows "bit (native_word True [a, b, c, d]) k = bit ([a, b, c, d] ! (k div 8)) (k mod 8)"
proof -
  have beyond: "\<not> bit (w :: u8) n" if "8 \<le> n" for w n using that by (auto dest: bit_imp_le_length)
  have "\<forall>k \<in> {0..<32}. bit (native_word True [a, b, c, d]) k = bit ([a, b, c, d] ! (k div 8)) (k mod 8)"
    by (simp add: atLeastLessThan_nat_numeral native_word_def bit_simps beyond flip: numeral_2_eq_2 numeral_3_eq_3)
  then show ?thesis using assms by simp
qed

definition swap_word :: "u32 \<Rightarrow> u32" where
  "swap_word x = (let x = push_bit 8 (x AND 0x00ff00ff) OR (drop_bit 8 x AND 0x00ff00ff) in push_bit 16 x OR drop_bit 16 x)"

lemma bit_swap_word:
  assumes "k < 32"
  shows "bit (swap_word x) k = bit x (8 * (3 - k div 8) + k mod 8)"
proof -
  have "\<forall>k \<in> {0..<32}. bit (swap_word x) k = bit x (8 * (3 - k div 8) + k mod 8)"
    by (simp add: atLeastLessThan_nat_numeral swap_word_def Let_def bit_simps flip: numeral_2_eq_2)
  then show ?thesis using assms by simp
qed

lemma native_word_swap: "swap_word (native_word False [a, b, c, d]) = native_word True [a, b, c, d]"
proof (rule bit_word_eqI)
  fix k assume "k < LENGTH(32)"
  then have k: "k < 32" by simp
  then have d: "k div 8 < 4" by simp
  then have i: "8 * (3 - k div 8) + k mod 8 < 32" "(8 * (3 - k div 8) + k mod 8) div 8 = 3 - k div 8"
    by (simp_all add: div_mult_self3)
  have "native_word False [a, b, c, d] = native_word True [d, c, b, a]" by (simp add: native_word_def)
  moreover have "[d, c, b, a] ! (3 - k div 8) = [a, b, c, d] ! (k div 8)"
    using rev_nth [of "3 - k div 8" "[a, b, c, d]"] d by simp
  ultimately show "bit (swap_word (native_word False [a, b, c, d])) k = bit (native_word True [a, b, c, d]) k"
    using i by (simp add: bit_swap_word [OF k] bit_native_word [OF k] bit_native_word)
qed

fun words_from :: "u8 list \<Rightarrow> nat \<Rightarrow> nat \<Rightarrow> u32 list" where
  "words_from bs at 0 = []"
| "words_from bs at (Suc n) = native_word True (take 4 (drop at bs)) # words_from bs (at + 4) n"

lemma list_of_four: "length xs = 4 \<Longrightarrow> \<exists>a b c d. xs = [a, b, c, d]"
  by (cases xs; cases "tl xs"; cases "tl (tl xs)"; cases "tl (tl (tl xs))") auto

lemma load_word_portable:
  assumes "at + 4 \<le> length bs"
  shows "load_word host bs at = Inr (native_word True (take 4 (drop at bs)))"
proof -
  have "length (take 4 (drop at bs)) = 4" using assms by simp
  then obtain a b c d where "take 4 (drop at bs) = [a, b, c, d]"
    by (metis list_of_four)
  then show ?thesis using assms native_word_swap [of a b c d] by (auto simp: load_word_def swap_word_def Let_def)
qed

lemma load_words_from: "at + 4 * n \<le> length bs \<Longrightarrow> load_words host bs at n = Inr (words_from bs at n)"
  by (induction n arbitrary: at) (simp_all add: load_word_portable)

lemma length_words_from [simp]: "length (words_from bs at n) = n"
  by (induction n arbitrary: at) simp_all

section \<open>Comparison and counting\<close>

definition comes_first :: "bool \<Rightarrow> u32 list \<Rightarrow> u32 list \<Rightarrow> bool" where
  "comes_first upper k q \<longleftrightarrow> ord_class.lexordp k q \<or> upper \<and> k = q"

lemma precedes_loop_words:
  "at + 4 * length qs \<le> length bs \<Longrightarrow> precedes_loop host bs at qs before same =
    Inr (before \<or> same \<and> ord_class.lexordp (words_from bs at (length qs)) qs, same \<and> words_from bs at (length qs) = qs)"
  by (induction qs arbitrary: at before same) (auto simp: load_word_portable)

lemma precedes_words:
  "at + 4 * length q \<le> length bs \<Longrightarrow> precedes upper host bs at q = Inr (comes_first upper (words_from bs at (length q)) q)"
  by (simp add: precedes_def precedes_loop_words comes_first_def)

lemma population_count:
  "at + n * (4 * length q) \<le> length bs \<Longrightarrow> population upper host bs at n q =
    Inr (length (filter (\<lambda>i. comes_first upper (words_from bs (at + i * (4 * length q)) (length q)) q) [0..<n]))"
proof (induction n arbitrary: at)
  case (Suc n)
  have "population upper host bs (at + 4 * length q) n q = Inr (length (filter (\<lambda>i. comes_first upper
      (words_from bs (at + 4 * length q + i * (4 * length q)) (length q)) q) [0..<n]))"
    using Suc.prems by (intro Suc.IH) simp
  moreover have "[0..<Suc n] = 0 # map Suc [0..<n]" by (simp add: map_Suc_upt upt_conv_Cons)
  ultimately show ?case
    using Suc.prems by (simp add: precedes_words filter_map o_def algebra_simps del: upt_Suc)
qed simp

section \<open>Searching\<close>

definition fixed_key :: "fixed_key_view \<Rightarrow> nat \<Rightarrow> u32 list" where
  "fixed_key v i = words_from (fk_bytes v) (i * key_bytes v) (fk_words v)"

lemma key_at_eq: "fk_words v \<noteq> 0 \<Longrightarrow> i < fk_size v \<Longrightarrow> key_at host v i = Inr (fixed_key v i)"
proof -
  assume n: "fk_words v \<noteq> 0" and i: "i < fk_size v"
  have "Suc i * key_bytes v \<le> fk_size v * key_bytes v" using i by (intro mult_le_mono1) simp
  also have "\<dots> \<le> length (fk_bytes v)" unfolding fk_size_def by (rule div_times_less_eq_dividend)
  finally have "i * key_bytes v + 4 * fk_words v \<le> length (fk_bytes v)" by (simp add: key_bytes_def algebra_simps)
  then show ?thesis using i by (simp add: key_at_def load_words_from fixed_key_def)
qed

text \<open>A window whose probes answer whether an ordinal lies before the cut.\<close>

definition cut_at :: "bool \<Rightarrow> bool \<Rightarrow> fixed_key_view \<Rightarrow> u32 list \<Rightarrow> nat \<Rightarrow> bool" where
  "cut_at upper host v q c \<longleftrightarrow> fk_words v = length q \<and> 0 < length q \<and> length (fk_bytes v) mod key_bytes v = 0 \<and>
     c \<le> fk_size v \<and> (\<forall>i<fk_size v. comes_first upper (fixed_key v i) q \<longleftrightarrow> i < c)"

lemma cut_atD:
  assumes "cut_at upper host v q c"
  shows "length (fk_bytes v) = fk_size v * key_bytes v" "key_bytes v = 4 * length q" "c \<le> fk_size v"
    "i < fk_size v \<Longrightarrow> probe upper host v q i = Inr (i < c)"
proof -
  show l: "length (fk_bytes v) = fk_size v * key_bytes v" and k: "key_bytes v = 4 * length q" and "c \<le> fk_size v"
    using assms by (auto simp: cut_at_def fk_size_def key_bytes_def)
  assume i: "i < fk_size v"
  have "Suc i * key_bytes v \<le> fk_size v * key_bytes v" using i by (intro mult_le_mono1) simp
  then have "i * key_bytes v + 4 * length q \<le> length (fk_bytes v)" unfolding l k by (simp add: algebra_simps)
  then show "probe upper host v q i = Inr (i < c)"
    using assms i by (auto simp: probe_def precedes_words cut_at_def fixed_key_def)
qed

lemma complete_loop_cut:
  assumes "cut_at upper host v q c"
  shows "first \<le> c \<Longrightarrow> c < first + 2 ^ Suc k \<Longrightarrow> first + 2 ^ Suc k \<le> fk_size v + 1 \<Longrightarrow>
    complete_loop upper host v q (2 ^ k) first = Inr c"
proof (induction k arbitrary: first)
  case 0
  have "probe upper host v q first = Inr (first < c)" using 0 by (intro cut_atD(4) [OF assms]) simp
  then show ?case using 0 by (auto simp: complete_loop.simps)
next
  case (Suc k)
  let ?s = "2 ^ Suc k :: nat"
  have s: "?s div 2 = 2 ^ k" "0 < ?s" "(2 :: nat) ^ Suc (Suc k) = ?s + ?s" by simp_all
  have pr: "probe upper host v q (first + ?s - 1) = Inr (first + ?s - 1 < c)"
    using Suc.prems(3) s(2) unfolding s(3) by (intro cut_atD(4) [OF assms]) linarith
  have step: "complete_loop upper host v q ?s first = complete_loop upper host v q (2 ^ k) (first + ?s * of_bool (first + ?s - 1 < c))"
    by (subst complete_loop.simps) (use pr in \<open>simp add: s(1)\<close>)
  show ?case
  proof (cases "first + ?s - 1 < c")
    case True
    then have "first + ?s \<le> c" using s(2) by linarith
    then have "complete_loop upper host v q (2 ^ k) (first + ?s) = Inr c"
      using Suc.prems(2,3) unfolding s(3) by (intro Suc.IH) linarith+
    then show ?thesis unfolding step using True by simp
  next
    case False
    then have "c < first + ?s" using s(2) by linarith
    then have "complete_loop upper host v q (2 ^ k) first = Inr c"
      using Suc.prems(1,3) unfolding s(3) by (intro Suc.IH) linarith+
    then show ?thesis unfolding step using False by simp
  qed
qed

lemma window_loop_cut:
  assumes cut: "cut_at upper host v q c" and n: "0 < fk_size v"
  shows "first \<le> c \<Longrightarrow> c < first + 2 ^ Suc k \<Longrightarrow> window_loop upper host v q (2 ^ k) first = Inr c"
proof (induction k arbitrary: first)
  case (Suc k)
  let ?s = "2 ^ Suc k :: nat" let ?u = "first + ?s"
  have s: "?s div 2 = 2 ^ k" "0 < ?s" "(2 :: nat) ^ Suc (Suc k) = ?s + ?s" by simp_all
  have pr: "probe upper host v q (min ?u (fk_size v) - 1) = Inr (min ?u (fk_size v) - 1 < c)"
    using n s(2) by (intro cut_atD(4) [OF cut]) linarith
  have step: "window_loop upper host v q ?s first = window_loop upper host v q (2 ^ k)
      (first + ?s * of_bool (?u \<le> fk_size v \<and> min ?u (fk_size v) - 1 < c))"
    by (subst window_loop.simps) (use pr in \<open>simp add: s(1) Let_def\<close>)
  show ?case
  proof (cases "?u \<le> fk_size v \<and> min ?u (fk_size v) - 1 < c")
    case True
    then have "?u \<le> c" using s(2) by linarith
    then have "window_loop upper host v q (2 ^ k) ?u = Inr c"
      using Suc.prems(2) unfolding s(3) by (intro Suc.IH) linarith+
    then show ?thesis unfolding step by (simp only: True of_bool_eq simp_thms mult_1_right)
  next
    case False
    have "c < ?u"
    proof (rule ccontr)
      assume "\<not> c < ?u"
      then have u: "?u \<le> fk_size v" "?u - 1 < c" using s(2) cut_atD(3) [OF cut] by linarith+
      then have "?u \<le> fk_size v \<and> min ?u (fk_size v) - 1 < c" by (simp only: min_absorb1 simp_thms)
      then show False using False by blast
    qed
    then have "window_loop upper host v q (2 ^ k) first = Inr c" using Suc.prems(1) \<open>c < ?u\<close> by (intro Suc.IH)
    moreover have "first + ?s * of_bool (?u \<le> fk_size v \<and> min ?u (fk_size v) - 1 < c) = first" by (simp only: False of_bool_eq mult_0_right add_0_right)
    ultimately show ?thesis unfolding step by (simp only:)
  qed
next
  case 0
  have pr: "probe upper host v q (min (first + 1) (fk_size v) - 1) = Inr (min (first + 1) (fk_size v) - 1 < c)"
    using n by (intro cut_atD(4) [OF cut]) linarith
  have "window_loop upper host v q 1 first = Inr (first + of_bool (first + 1 \<le> fk_size v \<and> min (first + 1) (fk_size v) - 1 < c))"
    by (subst window_loop.simps) (use pr in \<open>simp add: window_loop.simps Let_def\<close>)
  moreover have "first + of_bool (first + 1 \<le> fk_size v \<and> min (first + 1) (fk_size v) - 1 < c) = c"
    using 0 cut_atD(3) [OF cut] by (auto simp: min_def)
  ultimately show ?case by simp
qed

lemma binary_bound_cut:
  assumes cut: "cut_at upper host v q c"
  shows "binary_bound upper host v q = Inr c"
proof (cases "fk_size v = 0")
  case True
  then show ?thesis using cut_atD(3) [OF cut]
    by (simp add: binary_bound_def bit_floor_def complete_loop.simps window_loop.simps)
next
  case False
  define k where "k = bit_width (fk_size v) - 1"
  have w: "bit_width (fk_size v) = Suc k"
    using False bit_width_bounds(1) [of "fk_size v"] by (cases "bit_width (fk_size v)") (simp_all add: k_def)
  have f: "bit_floor (fk_size v) = 2 ^ k" using False by (simp add: bit_floor_def w)
  have small: "c < 0 + 2 ^ Suc k" using bit_width_bounds(1) [of "fk_size v"] cut_atD(3) [OF cut] by (simp add: w)
  show ?thesis
  proof (cases "has_single_bit (fk_size v + 1)")
    case True
    then have p: "fk_size v + 1 = 2 ^ (bit_width (fk_size v + 1) - 1)" by (simp add: has_single_bit_def)
    define m where "m = bit_width (fk_size v + 1) - 1"
    have "fk_size v = 2 ^ m - 1" using p by (simp add: m_def)
    then have "m = Suc k" using bit_width_power(1) [of m] w by simp
    then have "0 + 2 ^ Suc k \<le> fk_size v + 1" using p by (simp add: m_def)
    from complete_loop_cut [OF cut _ small this] show ?thesis using True by (simp add: binary_bound_def f)
  next
    case single: False
    from window_loop_cut [OF cut _ _ small] show ?thesis using False single by (simp add: binary_bound_def f)
  qed
qed

text \<open>The number of cut-off ordinals in a stretch of a window.\<close>

lemma count_below: "length (filter (\<lambda>i. first + i < c) [0..<n]) = min n (c - first)"
  by (induction n) auto

lemma window_population:
  assumes cut: "cut_at upper host v q c" and fit: "first + n \<le> fk_size v"
  shows "population upper host (fk_bytes v) (first * key_bytes v) n q = Inr (min n (c - first))"
proof -
  note d = cut_atD [OF cut]
  have w: "fk_words v = length q" using cut by (simp add: cut_at_def)
  have "(first + n) * key_bytes v \<le> length (fk_bytes v)" unfolding d(1) using fit by (rule mult_le_mono1)
  then have "population upper host (fk_bytes v) (first * key_bytes v) n q = Inr (length (filter (\<lambda>i. comes_first upper
      (words_from (fk_bytes v) (first * key_bytes v + i * (4 * length q)) (length q)) q) [0..<n]))"
    by (intro population_count) (simp add: d(2) algebra_simps)
  also have "filter (\<lambda>i. comes_first upper (words_from (fk_bytes v) (first * key_bytes v + i * (4 * length q)) (length q)) q) [0..<n] =
      filter (\<lambda>i. first + i < c) [0..<n]"
  proof (rule filter_cong [OF refl])
    fix i assume "i \<in> set [0..<n]"
    then have "first + i < fk_size v" using fit by simp
    then show "comes_first upper (words_from (fk_bytes v) (first * key_bytes v + i * (4 * length q)) (length q)) q \<longleftrightarrow> first + i < c"
      using cut distrib_right [of first i "4 * length q"] by (auto simp: cut_at_def fixed_key_def w d(2) simp del: distrib_right)
  qed
  finally show ?thesis by (simp add: count_below)
qed

lemma words_from_take: "at + 4 * n \<le> m \<Longrightarrow> words_from (take m bs) at n = words_from bs at n"
  by (induction n arbitrary: at) (simp_all add: drop_take)

lemma words_from_drop: "words_from (drop k bs) at n = words_from bs (k + at) n"
  by (induction n arbitrary: at) (simp_all add: algebra_simps)

lemma words_from_append: "length as = at \<Longrightarrow> words_from (as @ bs) (at + m) n = words_from bs m n"
  using words_from_drop [of at "as @ bs" m n] by simp

lemma words_from_prefix: "at + 4 * n \<le> length as \<Longrightarrow> words_from (as @ bs) at n = words_from as at n"
  using words_from_take [of at n "length as" "as @ bs"] by simp

lemma copy_key_cut:
  assumes "cut_at upper host v q c" "i < fk_size v"
  shows "\<exists>k. copy_key v i = Inr k \<and> length k = key_bytes v \<and> (comes_first upper (words_from k 0 (length q)) q \<longleftrightarrow> i < c)"
proof -
  note d = cut_atD [OF assms(1)]
  have "Suc i * key_bytes v \<le> fk_size v * key_bytes v" using assms(2) by (intro mult_le_mono1) simp
  then have fit: "(i + 1) * key_bytes v \<le> length (fk_bytes v)" unfolding d(1) by simp
  have "words_from (take (key_bytes v) (drop (i * key_bytes v) (fk_bytes v))) 0 (length q) = fixed_key v i"
    using assms(1) by (simp add: d(2) words_from_take words_from_drop fixed_key_def cut_at_def)
  then show ?thesis using assms fit by (auto simp: copy_key_def cut_at_def)
qed

lemma pivot_population:
  assumes "length a = 4 * length q" "length b = 4 * length q" "length c = 4 * length q"
  shows "population upper host (a @ b @ c) 0 3 q = Inr (of_bool (comes_first upper (words_from a 0 (length q)) q) +
    of_bool (comes_first upper (words_from b 0 (length q)) q) + of_bool (comes_first upper (words_from c 0 (length q)) q))"
proof -
  let ?n = "4 * length q"
  have "words_from (a @ b @ c) 0 (length q) = words_from a 0 (length q)" using assms by (simp add: words_from_prefix)
  moreover have "words_from (a @ b @ c) ?n (length q) = words_from b 0 (length q)"
    using assms words_from_append [of a ?n "b @ c" 0 "length q"] by (simp add: words_from_prefix)
  moreover have "words_from (a @ b @ c) (2 * ?n) (length q) = words_from c 0 (length q)"
    using assms words_from_append [of "a @ b" "2 * ?n" c 0 "length q"] by simp
  moreover have "[0..<3] = [0, 1, 2 :: nat]" by (simp add: upt_rec)
  ultimately show ?thesis
    using assms population_count [of 0 3 q "a @ b @ c" upper host] by (simp add: algebra_simps)
qed

text \<open>One pivot step keeps the cut inside the window and leaves a quarter of it.\<close>

lemma pivot_step_cut:
  assumes cut: "cut_at upper host v q c" and n: "3 \<le> n" "first + n \<le> fk_size v" and c: "first \<le> c" "c \<le> first + n"
  shows "\<exists>first' n'. pivot_step upper host v q (first, n) = Inr (first', n') \<and> first' \<le> c \<and> c \<le> first' + n' \<and>
    first' + n' \<le> first + n \<and> n' \<le> n div 4 + 1 \<and> n' + 1 \<ge> n div 4 \<and> 4 * n' \<le> n + 3"
proof -
  note d = cut_atD [OF cut]
  have i: "first + n div 4 < fk_size v" "first + n div 2 < fk_size v" "first + (3 * n) div 4 < fk_size v"
    using n by (linarith, linarith, linarith)
  obtain x where x: "copy_key v (first + n div 4) = Inr x" "length x = key_bytes v"
    "comes_first upper (words_from x 0 (length q)) q \<longleftrightarrow> first + n div 4 < c" using copy_key_cut [OF cut i(1)] by blast
  obtain y where y: "copy_key v (first + n div 2) = Inr y" "length y = key_bytes v"
    "comes_first upper (words_from y 0 (length q)) q \<longleftrightarrow> first + n div 2 < c" using copy_key_cut [OF cut i(2)] by blast
  obtain z where z: "copy_key v (first + (3 * n) div 4) = Inr z" "length z = key_bytes v"
    "comes_first upper (words_from z 0 (length q)) q \<longleftrightarrow> first + (3 * n) div 4 < c" using copy_key_cut [OF cut i(3)] by blast
  define r :: nat where "r = of_bool (first + n div 4 < c) + of_bool (first + n div 2 < c) + of_bool (first + (3 * n) div 4 < c)"
  have pop: "population upper host (x @ y @ z) 0 3 q = Inr r"
    using pivot_population [of x q y z upper host] x(2,3) y(2,3) z(2,3) d(2) by (simp add: r_def)
  have step: "pivot_step upper host v q (first, n) = Inr (first + ((r * n) div 4 + of_bool (r \<noteq> 0)),
      ((r + 1) * n) div 4 - ((r * n) div 4 + of_bool (r \<noteq> 0)))"
    by (simp add: pivot_step_def pivot_positions_def x(1) y(1) z(1) pop Let_def)
  have le: "n div 4 \<le> n div 2" "n div 2 \<le> (3 * n) div 4" "(3 * n) div 4 < n" using n by linarith+
  have "r = 0 \<and> c \<le> first + n div 4 \<or> r = 1 \<and> first + n div 4 < c \<and> c \<le> first + n div 2 \<or>
      r = 2 \<and> first + n div 2 < c \<and> c \<le> first + (3 * n) div 4 \<or> r = 3 \<and> first + (3 * n) div 4 < c"
    using le by (cases "first + n div 4 < c"; cases "first + n div 2 < c"; cases "first + (3 * n) div 4 < c") (simp_all add: r_def)
  then consider "r = 0" "c \<le> first + n div 4" | "r = 1" "first + n div 4 < c" "c \<le> first + n div 2"
    | "r = 2" "first + n div 2 < c" "c \<le> first + (3 * n) div 4" | "r = 3" "first + (3 * n) div 4 < c"
    by blast
  then show ?thesis
  proof cases
    case 1
    have "pivot_step upper host v q (first, n) = Inr (first, n div 4)" unfolding step 1(1) by simp
    moreover have "first \<le> c" "c \<le> first + n div 4" "first + n div 4 \<le> first + n" "4 * (n div 4) \<le> n + 3"
      using 1(2) c n by linarith+
    ultimately show ?thesis by force
  next
    case 2
    have "(1 + 1) * n div 4 = n div 2" by simp
    then have "pivot_step upper host v q (first, n) = Inr (first + (n div 4 + 1), n div 2 - (n div 4 + 1))" unfolding step 2(1) by simp
    moreover have "first + (n div 4 + 1) \<le> c" "c \<le> first + (n div 4 + 1) + (n div 2 - (n div 4 + 1))"
      "first + (n div 4 + 1) + (n div 2 - (n div 4 + 1)) \<le> first + n" "n div 2 - (n div 4 + 1) \<le> n div 4 + 1"
      "n div 2 - (n div 4 + 1) + 1 \<ge> n div 4" "4 * (n div 2 - (n div 4 + 1)) \<le> n + 3"
      using 2(2,3) c n by linarith+
    ultimately show ?thesis by blast
  next
    case 3
    have "2 * n div 4 = n div 2" by simp
    then have "pivot_step upper host v q (first, n) = Inr (first + (n div 2 + 1), 3 * n div 4 - (n div 2 + 1))" unfolding step 3(1) by simp
    moreover have "first + (n div 2 + 1) \<le> c" "c \<le> first + (n div 2 + 1) + (3 * n div 4 - (n div 2 + 1))"
      "first + (n div 2 + 1) + (3 * n div 4 - (n div 2 + 1)) \<le> first + n" "3 * n div 4 - (n div 2 + 1) \<le> n div 4 + 1"
      "3 * n div 4 - (n div 2 + 1) + 1 \<ge> n div 4" "4 * (3 * n div 4 - (n div 2 + 1)) \<le> n + 3"
      using 3(2,3) c n by linarith+
    ultimately show ?thesis by blast
  next
    case 4
    have "(3 + 1) * n div 4 = n" by simp
    then have "pivot_step upper host v q (first, n) = Inr (first + (3 * n div 4 + 1), n - (3 * n div 4 + 1))" unfolding step 4(1) by simp
    moreover have "first + (3 * n div 4 + 1) \<le> c" "c \<le> first + (3 * n div 4 + 1) + (n - (3 * n div 4 + 1))"
      "first + (3 * n div 4 + 1) + (n - (3 * n div 4 + 1)) \<le> first + n" "n - (3 * n div 4 + 1) \<le> n div 4 + 1"
      "n - (3 * n div 4 + 1) + 1 \<ge> n div 4" "4 * (n - (3 * n div 4 + 1)) \<le> n + 3"
      using 4(2) c n by linarith+
    ultimately show ?thesis by blast
  qed
qed

definition bucket_of :: "nat \<Rightarrow> nat \<Rightarrow> bool" where
  "bucket_of bucket n \<longleftrightarrow> bucket = 4 \<and> n \<le> 4 \<or> bucket = 8 \<and> 4 < n \<and> n \<le> 8 \<or>
     bucket = 16 \<and> 8 < n \<and> n \<le> 16 \<or> bucket = 32 \<and> 16 < n \<and> n \<le> 32"

lemma narrow_cut:
  assumes cut: "cut_at upper host v q c" and bucket: "bucket_of bucket (fk_size v)"
  shows "\<exists>f n. narrow upper host bucket v q = Inr (f, n) \<and> f \<le> c \<and> c \<le> f + n \<and> f + n \<le> fk_size v"
proof -
  let ?n = "fk_size v"
  have le: "c \<le> ?n" using cut_atD(3) [OF cut] .
  obtain f1 n1 where w1: "(if bucket > 4 then pivot_step upper host v q (0, ?n) else Inr (0, ?n)) = Inr (f1, n1)"
    "f1 \<le> c" "c \<le> f1 + n1" "f1 + n1 \<le> ?n" "bucket > 16 \<Longrightarrow> 3 \<le> n1"
  proof (cases "bucket > 4")
    case True
    then have "3 \<le> ?n" using bucket by (auto simp: bucket_of_def)
    from pivot_step_cut [OF cut this, of 0] le obtain f n where s: "pivot_step upper host v q (0, ?n) = Inr (f, n)" "f \<le> c" "c \<le> f + n"
      "f + n \<le> ?n" "n + 1 \<ge> ?n div 4" by auto
    show ?thesis
      by (rule that [of f n]) (use True s bucket in \<open>auto simp: bucket_of_def\<close>)
  next
    case False
    then show ?thesis using that [of 0 ?n] bucket le by auto
  qed
  show ?thesis
  proof (cases "bucket > 16")
    case True
    from pivot_step_cut [OF cut _ w1(4,2,3)] w1(5) True obtain f n where s: "pivot_step upper host v q (f1, n1) = Inr (f, n)" "f \<le> c" "c \<le> f + n"
      "f + n \<le> f1 + n1" by auto
    have "narrow upper host bucket v q = Inr (f, n)" using True unfolding narrow_def w1(1) bindE_simps s(1) by simp
    moreover have "f + n \<le> ?n" using s(4) w1(4) by linarith
    ultimately show ?thesis using s(2,3) by blast
  next
    case False
    then have "narrow upper host bucket v q = Inr (f1, n1)" unfolding narrow_def w1(1) bindE_simps by simp
    then show ?thesis using w1(2-4) by blast
  qed
qed

lemma small_bound_cut:
  assumes cut: "cut_at upper host v q c" and bucket: "bucket_of bucket (fk_size v)"
  shows "small_bound upper host bucket v q = Inr c"
proof -
  obtain f n where w: "narrow upper host bucket v q = Inr (f, n)" "f \<le> c" "c \<le> f + n" "f + n \<le> fk_size v"
    using narrow_cut [OF assms] by blast
  have "population upper host (fk_bytes v) (f * key_bytes v) n q = Inr (c - f)"
    using window_population [OF cut w(4)] w(2,3) by (simp add: min_absorb2)
  then show ?thesis using w(2,3) unfolding small_bound_def w(1) bindE_simps by simp
qed

lemma simd_bound_cut: "cut_at upper host v q c \<Longrightarrow> simd_bound upper host v q = Inr c"
  unfolding simd_bound_def using small_bound_cut [of upper host v q c] binary_bound_cut [of upper host v q c]
  by (simp add: bucket_of_def)

text \<open>Sorted keys have a cut.\<close>

lemma comes_first_trans: "ord_class.lexordp j k \<or> j = k \<Longrightarrow> comes_first upper k q \<Longrightarrow> comes_first upper j q" for j :: "u32 list"
  unfolding comes_first_def using lexordp_trans [of j k q] by auto

lemma prefix_count:
  assumes "\<And>i j. i < j \<Longrightarrow> j < n \<Longrightarrow> b j \<Longrightarrow> b i"
  shows "\<forall>i<n. b i \<longleftrightarrow> i < length (filter b [0..<n])"
  using assms
proof (induction n)
  case (Suc n)
  have IH: "\<forall>i<n. b i \<longleftrightarrow> i < length (filter b [0..<n])"
  proof (rule Suc.IH)
    fix i j assume "i < j" "j < n" "b j"
    then show "b i" using Suc.prems [of i j] by simp
  qed
  have le: "length (filter b [0..<n]) \<le> n" using length_filter_le [of b "[0..<n]"] by simp
  show ?case
  proof (cases "b n")
    case True
    have all: "b i" if "i < Suc n" for i using True Suc.prems [of i n] that by (cases "i = n") simp_all
    then have "filter b [0..<Suc n] = [0..<Suc n]" by (intro filter_True) simp
    then show ?thesis using all by (simp del: upt_Suc)
  next
    case False
    then have f: "filter b [0..<Suc n] = filter b [0..<n]" by simp
    define m where "m = length (filter b [0..<n])"
    have m: "\<forall>i<n. b i \<longleftrightarrow> i < m" "m \<le> n" using IH le unfolding m_def by blast+
    show ?thesis unfolding f m_def [symmetric]
    proof (intro allI impI)
      fix i assume "i < Suc n"
      then show "b i \<longleftrightarrow> i < m" using m False by (cases "i = n") simp_all
    qed
  qed
qed simp

definition keys_sorted :: "fixed_key_view \<Rightarrow> bool" where
  "keys_sorted v \<longleftrightarrow> (\<forall>j<fk_size v. \<forall>i<j. ord_class.lexordp (fixed_key v i) (fixed_key v j) \<or> fixed_key v i = fixed_key v j)"

section \<open>Properties\<close>

text \<open>
  C34. Every search finds the bound: over sorted keys, duplicates included, the branch-free binary
  search, the pivot search for small windows and the dispatching entry all return the number of
  keys below the query (at or below it for the upper bound), on hosts of either byte order, for
  complete and partial windows, the empty one included, and never read outside the keys.
\<close>

theorem searches_find_bound:
  assumes "new_fixed_key_view n bs = Inr v" "n = 1 \<or> n = 2 \<or> n = 4" "length query = n" "keys_sorted v"
    and "bound = length (filter (\<lambda>i. comes_first upper (fixed_key v i) query) [0..<fk_size v])"
  shows "binary_bound upper host v query = Inr bound \<and> simd_bound upper host v query = Inr bound \<and>
    search_bound upper host v query = Inr bound"
proof -
  have v: "v = \<lparr>fk_words = n, fk_bytes = bs\<rparr>" "length (fk_bytes v) mod key_bytes v = 0"
    using assms(1) by (auto simp: new_fixed_key_view_def Let_def split: if_splits)
  have "\<forall>i<fk_size v. comes_first upper (fixed_key v i) query \<longleftrightarrow> i < bound"
    unfolding assms(5)
  proof (rule prefix_count)
    fix i j assume "i < j" "j < fk_size v" "comes_first upper (fixed_key v j) query"
    then show "comes_first upper (fixed_key v i) query" using assms(4) comes_first_trans unfolding keys_sorted_def by blast
  qed
  moreover have "bound \<le> fk_size v"
    using assms(5) length_filter_le [of "\<lambda>i. comes_first upper (fixed_key v i) query" "[0..<fk_size v]"] by simp
  moreover have "fk_words v = length query" "0 < length query" using v(1) assms(2,3) by auto
  ultimately have "cut_at upper host v query bound" using v(2) by (simp add: cut_at_def)
  then show ?thesis using binary_bound_cut simd_bound_cut by (simp add: search_bound_def)
qed

lemma searches_find_bound_witness:
  "\<exists>v. new_fixed_key_view 1 [1, 0, 0, 0, 5, 0, 0, 0, 5, 0, 0, 0, 0, 1, 0, 0, 7, 2, 0, 0] = Inr v \<and>
     binary_bound False False v [5] = Inr 1 \<and> simd_bound True True v [5] = Inr 3"
proof -
  let ?bs = "[1, 0, 0, 0, 5, 0, 0, 0, 5, 0, 0, 0, 0, 1, 0, 0, 7, 2, 0, 0] :: u8 list"
  define v where "v = \<lparr>fk_words = 1, fk_bytes = ?bs\<rparr>"
  have v: "new_fixed_key_view 1 ?bs = Inr v" by (simp add: new_fixed_key_view_def key_bytes_def v_def)
  have size: "fk_size v = 5" by (simp add: fk_size_def key_bytes_def v_def)
  have key: "fixed_key v 0 = [1]" "fixed_key v 1 = [5]" "fixed_key v 2 = [5]" "fixed_key v 3 = [256]" "fixed_key v 4 = [519]"
    by (simp_all add: fixed_key_def key_bytes_def v_def native_word_def)
  note key = key key(2) [unfolded One_nat_def]
  have five: "[0..<5] = [0, 1, 2, 3, 4 :: nat]" by (simp add: upt_rec)
  have sorted: "keys_sorted v"
  proof -
    have "\<forall>j\<in>set [0..<5]. \<forall>i\<in>set [0..<5]. i < j \<longrightarrow> ord_class.lexordp (fixed_key v i) (fixed_key v j) \<or> fixed_key v i = fixed_key v j"
      unfolding five by (simp add: key)
    then show ?thesis unfolding keys_sorted_def size by auto
  qed
  have counts: "1 = length (filter (\<lambda>i. comes_first False (fixed_key v i) [5]) [0..<fk_size v])"
    "3 = length (filter (\<lambda>i. comes_first True (fixed_key v i) [5]) [0..<fk_size v])"
    by (simp_all add: size five key comes_first_def)
  show ?thesis
    using v searches_find_bound [OF v _ _ sorted counts(1), of False] searches_find_bound [OF v _ _ sorted counts(2), of True]
    by auto
qed

section \<open>Any bytes\<close>

text \<open>Without an order on the keys a probe still reads inside the view.\<close>

lemma probe_inside:
  assumes "fk_words v = length q" "i < fk_size v"
  shows "\<exists>b. probe upper host v q i = Inr b" "\<exists>k. copy_key v i = Inr k \<and> length k = 4 * length q"
proof -
  have "Suc i * key_bytes v \<le> fk_size v * key_bytes v" using assms(2) by (intro mult_le_mono1) simp
  also have "\<dots> \<le> length (fk_bytes v)" unfolding fk_size_def by (rule div_times_less_eq_dividend)
  finally have "i * key_bytes v + 4 * length q \<le> length (fk_bytes v)" using assms(1) by (simp add: key_bytes_def algebra_simps)
  then show "\<exists>b. probe upper host v q i = Inr b" "\<exists>k. copy_key v i = Inr k \<and> length k = 4 * length q"
    using assms(1) by (auto simp: probe_def precedes_words copy_key_def key_bytes_def algebra_simps)
qed

lemma complete_loop_inside:
  assumes "fk_words v = length q"
  shows "first + 2 ^ Suc k \<le> fk_size v + 1 \<Longrightarrow> \<exists>r\<le>fk_size v. complete_loop upper host v q (2 ^ k) first = Inr r"
proof (induction k arbitrary: first)
  case 0
  then obtain b where "probe upper host v q first = Inr b" using probe_inside(1) [OF assms, of first] by auto
  then show ?case using 0 by (subst complete_loop.simps) (auto simp: complete_loop.simps)
next
  case (Suc k)
  let ?s = "2 ^ Suc k :: nat"
  have s: "?s div 2 = 2 ^ k" "0 < ?s" "(2 :: nat) ^ Suc (Suc k) = ?s + ?s" by simp_all
  have "first + ?s - 1 < fk_size v" using Suc.prems s(2) unfolding s(3) by linarith
  then obtain b where b: "probe upper host v q (first + ?s - 1) = Inr b" using probe_inside(1) [OF assms] by blast
  have "first + ?s * of_bool b + ?s \<le> fk_size v + 1" using Suc.prems unfolding s(3) by (cases b) simp_all
  from Suc.IH [OF this] show ?case by (subst complete_loop.simps) (use b in \<open>simp add: s(1)\<close>)
qed

lemma window_loop_inside:
  assumes w: "fk_words v = length q" and n: "0 < fk_size v"
  shows "first \<le> fk_size v \<Longrightarrow> \<exists>r\<le>fk_size v. window_loop upper host v q step first = Inr r"
proof (induction step arbitrary: first rule: less_induct)
  case (less step)
  show ?case
  proof (cases "step = 0")
    case False
    have "min (first + step) (fk_size v) - 1 < fk_size v" using n by linarith
    then obtain b where b: "probe upper host v q (min (first + step) (fk_size v) - 1) = Inr b" using probe_inside(1) [OF w] by blast
    have "first + step * of_bool (first + step \<le> fk_size v \<and> b) \<le> fk_size v" using less.prems by auto
    then have "\<exists>r\<le>fk_size v. window_loop upper host v q (step div 2) (first + step * of_bool (first + step \<le> fk_size v \<and> b)) = Inr r"
      using False by (intro less.IH) simp_all
    moreover have "window_loop upper host v q step first =
        window_loop upper host v q (step div 2) (first + step * of_bool (first + step \<le> fk_size v \<and> b))"
      using False b by (subst window_loop.simps) (simp only: Let_def if_False bindE_simps)
    ultimately show ?thesis by simp
  qed (use less.prems in \<open>simp add: window_loop.simps\<close>)
qed

lemma pivot_step_inside:
  assumes w: "fk_words v = length q" and n: "3 \<le> n" "first + n \<le> fk_size v"
  shows "\<exists>first' n'. pivot_step upper host v q (first, n) = Inr (first', n') \<and> first' + n' \<le> first + n \<and>
    n' + 1 \<ge> n div 4 \<and> 4 * n' \<le> n + 3"
proof -
  have i: "first + n div 4 < fk_size v" "first + n div 2 < fk_size v" "first + (3 * n) div 4 < fk_size v"
    using n by (linarith, linarith, linarith)
  obtain x y z where k: "copy_key v (first + n div 4) = Inr x" "copy_key v (first + n div 2) = Inr y"
    "copy_key v (first + (3 * n) div 4) = Inr z" "length x = 4 * length q" "length y = 4 * length q" "length z = 4 * length q"
    using probe_inside(2) [OF w i(1)] probe_inside(2) [OF w i(2)] probe_inside(2) [OF w i(3)] by blast
  obtain r where r: "population upper host (x @ y @ z) 0 3 q = Inr r" "r \<le> 3"
    using pivot_population [OF k(4-6), of upper host] by auto
  have step: "pivot_step upper host v q (first, n) = Inr (first + ((r * n) div 4 + of_bool (r \<noteq> 0)),
      ((r + 1) * n) div 4 - ((r * n) div 4 + of_bool (r \<noteq> 0)))"
    by (simp add: pivot_step_def pivot_positions_def k(1-3) r(1) Let_def)
  have "r = 0 \<or> r = 1 \<or> r = 2 \<or> r = 3" using r(2) by auto
  then have "first + ((r * n) div 4 + of_bool (r \<noteq> 0)) + (((r + 1) * n) div 4 - ((r * n) div 4 + of_bool (r \<noteq> 0))) \<le> first + n \<and>
      ((r + 1) * n) div 4 - ((r * n) div 4 + of_bool (r \<noteq> 0)) + 1 \<ge> n div 4 \<and>
      4 * (((r + 1) * n) div 4 - ((r * n) div 4 + of_bool (r \<noteq> 0))) \<le> n + 3"
    using n(1) by (elim disjE) (simp_all, linarith+)
  then show ?thesis using step by blast
qed

lemma binary_bound_inside:
  assumes w: "fk_words v = length query"
  shows "\<exists>r\<le>fk_size v. binary_bound upper host v query = Inr r"
proof (cases "fk_size v = 0")
  case True
  then show ?thesis by (simp add: binary_bound_def bit_floor_def complete_loop.simps window_loop.simps)
next
  case False
  define m where "m = bit_width (fk_size v + 1) - 1"
  show ?thesis
  proof (cases "has_single_bit (fk_size v + 1)")
    case True
    then have p: "fk_size v + 1 = 2 ^ m" by (simp add: has_single_bit_def m_def)
    then obtain k where k: "m = Suc k" using False by (cases m) auto
    have "fk_size v = 2 ^ m - 1" using p by simp
    then have "bit_floor (fk_size v) = 2 ^ k" using bit_width_power(1) [of m] False by (simp add: bit_floor_def k)
    then show ?thesis using True p complete_loop_inside [OF w, of 0 k upper host] by (simp add: binary_bound_def k)
  next
    case single: False
    then show ?thesis using window_loop_inside [OF w, of 0 upper host "bit_floor (fk_size v)"] False by (simp add: binary_bound_def)
  qed
qed

text \<open>A window whose three pivots are distinct keys inside it.\<close>

definition pivots_inside :: "fixed_key_view \<Rightarrow> nat \<times> nat \<Rightarrow> bool" where
  "pivots_inside v w \<longleftrightarrow> (case w of (first, n) \<Rightarrow> case pivot_positions n of (i, j, k) \<Rightarrow>
     i < j \<and> j < k \<and> k < n \<and> first + n \<le> fk_size v)"

lemma pivots_inside_window: "3 \<le> n \<Longrightarrow> first + n \<le> fk_size v \<Longrightarrow> pivots_inside v (first, n)"
  unfolding pivots_inside_def pivot_positions_def prod.case by (intro conjI; presburger)

lemma narrow_inside:
  assumes w: "fk_words v = length query" and bucket: "bucket_of bucket (fk_size v)"
  shows "(\<exists>first m. narrow upper host bucket v query = Inr (first, m) \<and> m \<le> 4 \<and> first + m \<le> fk_size v) \<and>
    (4 < bucket \<longrightarrow> pivots_inside v (0, fk_size v) \<and>
      (\<exists>step. pivot_step upper host v query (0, fk_size v) = Inr step \<and> (16 < bucket \<longrightarrow> pivots_inside v step)))"
proof (cases "bucket = 4")
  case True
  then show ?thesis using bucket by (auto simp: narrow_def bucket_of_def)
next
  case False
  then have b: "3 \<le> fk_size v" "4 < bucket" using bucket by (auto simp: bucket_of_def)
  obtain f k where s: "pivot_step upper host v query (0, fk_size v) = Inr (f, k)" "f + k \<le> fk_size v"
    "k + 1 \<ge> fk_size v div 4" "4 * k \<le> fk_size v + 3"
    using pivot_step_inside [OF w b(1), of 0 upper host] by auto
  have first: "pivots_inside v (0, fk_size v)" using pivots_inside_window [OF b(1), of 0 v] by simp
  show ?thesis
  proof (cases "bucket = 32")
    case True
    then have k: "3 \<le> k" "k \<le> 8" using bucket s(3,4) by (auto simp: bucket_of_def)
    from pivot_step_inside [OF w k(1) s(2), of upper host] obtain f' k' where t: "pivot_step upper host v query (f, k) = Inr (f', k')"
      "f' + k' \<le> f + k" "4 * k' \<le> k + 3" by auto
    have "k' \<le> 4" "f' + k' \<le> fk_size v" using t(2,3) s(2) k(2) by linarith+
    then show ?thesis using True s(1) t(1) first pivots_inside_window [OF k(1) s(2)] by (simp add: narrow_def)
  next
    case other: False
    then have "k \<le> 4" "\<not> 16 < bucket" using bucket s(4) False by (auto simp: bucket_of_def)
    then show ?thesis using b(2) s(1,2) first by (simp add: narrow_def)
  qed
qed

text \<open>The counting kernel runs over the keys that are left, and adds at most their number.\<close>

lemma population_inside:
  assumes "fk_words v = length q" "first + n \<le> fk_size v"
  shows "\<exists>k\<le>n. population upper host (fk_bytes v) (first * key_bytes v) n q = Inr k"
proof -
  have "(first + n) * key_bytes v \<le> fk_size v * key_bytes v" using assms(2) by (rule mult_le_mono1)
  also have "\<dots> \<le> length (fk_bytes v)" unfolding fk_size_def by (rule div_times_less_eq_dividend)
  finally have "first * key_bytes v + n * (4 * length q) \<le> length (fk_bytes v)" using assms(1) by (simp add: key_bytes_def algebra_simps)
  note c = population_count [OF this, of upper host]
  show ?thesis unfolding c by (rule exI [of _ "length (filter _ [0..<n])"]) (simp add: le_trans [OF length_filter_le])
qed

lemma small_bound_inside:
  assumes w: "fk_words v = length query" and bucket: "bucket_of bucket (fk_size v)"
  shows "\<exists>r\<le>fk_size v. small_bound upper host bucket v query = Inr r"
proof -
  obtain f m where n: "narrow upper host bucket v query = Inr (f, m)" "f + m \<le> fk_size v"
    using narrow_inside [OF assms, of upper host] by blast
  obtain k where "k \<le> m" "population upper host (fk_bytes v) (f * key_bytes v) m query = Inr k"
    using population_inside [OF w n(2)] by blast
  then show ?thesis using n by (cases "m = 0") (simp_all add: small_bound_def)
qed

lemma simd_bound_inside:
  assumes "fk_words v = length query"
  shows "\<exists>r\<le>fk_size v. simd_bound upper host v query = Inr r"
  using small_bound_inside [OF assms, of _ upper host] binary_bound_inside [OF assms, of upper host]
  unfolding simd_bound_def bucket_of_def by (auto split: if_splits)

text \<open>
  C35. Any bytes are searched safely. Whatever the stored keys are, sorted or not, the binary search,
  the search by pivots and the dispatching one return a bound inside the window, and so does the
  kernel of each of the four buckets; none of them reads outside the keys. In a bucket with pivot steps, each step
  takes three distinct pivots inside the window it is given, and at most four keys are left for
  the counting kernel, as many as its vector registers hold.
\<close>

theorem searches_stay_inside:
  assumes "new_fixed_key_view n bs = Inr v" "n = 1 \<or> n = 2 \<or> n = 4" "length query = n"
  shows "(\<exists>r\<le>fk_size v. binary_bound upper host v query = Inr r) \<and>
    (\<exists>r\<le>fk_size v. simd_bound upper host v query = Inr r) \<and>
    (\<exists>r\<le>fk_size v. search_bound upper host v query = Inr r) \<and>
    (bucket_of bucket (fk_size v) \<longrightarrow>
      (\<exists>r\<le>fk_size v. small_bound upper host bucket v query = Inr r) \<and>
      (\<exists>first m. narrow upper host bucket v query = Inr (first, m) \<and> m \<le> 4 \<and> first + m \<le> fk_size v) \<and>
      (4 < bucket \<longrightarrow> pivots_inside v (0, fk_size v) \<and>
        (\<exists>step. pivot_step upper host v query (0, fk_size v) = Inr step \<and> (16 < bucket \<longrightarrow> pivots_inside v step))))"
proof -
  have w: "fk_words v = length query" using assms by (auto simp: new_fixed_key_view_def Let_def split: if_splits)
  have search: "\<exists>r\<le>fk_size v. search_bound upper host v query = Inr r"
    using binary_bound_inside [OF w, of upper host] simd_bound_inside [OF w, of upper host] by (simp add: search_bound_def)
  show ?thesis
    by (intro conjI impI binary_bound_inside [OF w] simd_bound_inside [OF w] search)
      (use small_bound_inside [OF w] narrow_inside [OF w] in blast)+
qed

lemma searches_stay_inside_witness:
  "\<exists>v. new_fixed_key_view 1 [9, 0, 0, 0, 1, 0, 0, 0, 4, 0, 0, 0, 2, 0, 0, 0, 7, 0, 0, 0] = Inr v \<and>
     (\<exists>r\<le>5. binary_bound True False v [5] = Inr r) \<and> (\<exists>r\<le>5. simd_bound True False v [5] = Inr r) \<and>
     (\<exists>r\<le>5. small_bound True False 8 v [5] = Inr r) \<and> pivots_inside v (0, 5)"
proof -
  let ?bs = "[9, 0, 0, 0, 1, 0, 0, 0, 4, 0, 0, 0, 2, 0, 0, 0, 7, 0, 0, 0] :: u8 list"
  define v where "v = \<lparr>fk_words = 1, fk_bytes = ?bs\<rparr>"
  have v: "new_fixed_key_view 1 ?bs = Inr v" by (simp add: new_fixed_key_view_def key_bytes_def v_def)
  have size: "fk_size v = 5" by (simp add: fk_size_def key_bytes_def v_def)
  show ?thesis using searches_stay_inside [OF v, of "[5]" True False 8] v unfolding size by (auto simp: bucket_of_def)
qed

end
