(* ===== verification/GroupCounts.thy ===== *)
theory GroupCounts
  imports EliasBuild
begin

text \<open>
  What the rank directories over fixed groups share: the class populations of a sequence cut into
  groups, their prefix sums, and lanes of a machine word added without carries.
\<close>

section \<open>Populations and prefixes\<close>

definition groups_of :: "nat \<Rightarrow> nat \<Rightarrow> nat" where
  "groups_of K n = n div K + of_bool (n mod K \<noteq> 0)"

definition group_limit :: "nat \<Rightarrow> nat \<Rightarrow> nat \<Rightarrow> nat" where
  "group_limit K n i = (if i + 1 = groups_of K n \<and> n mod K \<noteq> 0 then n mod K else K)"

definition counts_ok :: "nat \<Rightarrow> nat \<Rightarrow> nat list \<Rightarrow> bool" where
  "counts_ok K n cs \<longleftrightarrow> length cs = groups_of K n \<and> (\<forall>i<length cs. cs ! i \<le> group_limit K n i)"

definition before_group :: "nat list \<Rightarrow> nat \<Rightarrow> nat" where
  "before_group cs g = sum_list (take g cs)"

lemma before_group_0 [simp]: "before_group cs 0 = 0"
  by (simp add: before_group_def)

lemma before_group_Suc: "g < length cs \<Longrightarrow> before_group cs (Suc g) = before_group cs g + cs ! g"
  by (simp add: before_group_def take_Suc_conv_app_nth)

lemma before_group_add:
  "g + k \<le> length cs \<Longrightarrow> before_group cs (g + k) = before_group cs g + (\<Sum>i<k. cs ! (g + i))"
  by (induction k) (simp_all add: before_group_Suc)

lemma before_group_mono: "g \<le> h \<Longrightarrow> before_group cs g \<le> before_group cs h"
proof -
  assume "g \<le> h"
  then have "take h cs = take g cs @ take (h - g) (drop g cs)" using take_add [of g "h - g" cs] by simp
  then show ?thesis by (simp add: before_group_def)
qed

lemma groups_of_bounds:
  assumes "0 < K"
  shows "g < groups_of K n \<Longrightarrow> K * g + group_limit K n g \<le> n" "n \<le> K * groups_of K n" "groups_of K n \<le> n"
    "g + 1 < groups_of K n \<Longrightarrow> group_limit K n g = K"
proof -
  define q r where "q = n div K" and "r = n mod K"
  have n: "n = K * q + r" "r < K" using assms by (simp_all add: q_def r_def)
  have gs: "groups_of K n = q + of_bool (r \<noteq> 0)" by (simp add: groups_of_def q_def r_def)
  show "g < groups_of K n \<Longrightarrow> K * g + group_limit K n g \<le> n"
  proof -
    assume g: "g < groups_of K n"
    show ?thesis
    proof (cases "g = q")
      case True
      then have "r \<noteq> 0" using g gs by (cases "r = 0") simp_all
      then have "group_limit K n g = r" using True gs by (simp add: group_limit_def r_def)
      then show ?thesis using True n by simp
    next
      case False
      then have "Suc g \<le> q" using g gs by (cases "r = 0") simp_all
      then have "K * Suc g \<le> K * q" by (rule mult_le_mono2)
      moreover have "group_limit K n g \<le> K" using n(2) by (simp add: group_limit_def flip: r_def)
      ultimately show ?thesis using n(1) by simp
    qed
  qed
  have le: "q \<le> K * q" using assms by simp
  show "n \<le> K * groups_of K n" using n unfolding gs by (cases "r = 0") (simp_all add: distrib_left)
  have "of_bool (r \<noteq> 0) \<le> r" by simp
  then show "groups_of K n \<le> n" using n(1) le unfolding gs by linarith
  show "g + 1 < groups_of K n \<Longrightarrow> group_limit K n g = K" by (simp add: group_limit_def)
qed

lemma counts_prefix:
  assumes c: "counts_ok K n cs" and K: "0 < K"
  shows "g < length cs \<Longrightarrow> before_group cs g \<le> K * g" "g < length cs \<Longrightarrow> before_group cs g + cs ! g \<le> n"
    "before_group cs g \<le> n" "g < length cs \<Longrightarrow> cs ! g \<le> K" "cs \<noteq> [] \<Longrightarrow> cs ! (length cs - 1) \<le> n - (length cs - 1) * K"
proof -
  have l: "length cs = groups_of K n" and lim: "g < length cs \<Longrightarrow> cs ! g \<le> group_limit K n g" for g
    using c by (simp_all add: counts_ok_def)
  have lk: "group_limit K n g \<le> K" for g using K by (auto simp: group_limit_def less_imp_le)
  show top: "g < length cs \<Longrightarrow> cs ! g \<le> K" for g using lim [of g] lk [of g] by linarith
  show low: "g < length cs \<Longrightarrow> before_group cs g \<le> K * g" for g
  proof (induction g)
    case (Suc g)
    then show ?case using top [of g] by (simp add: before_group_Suc)
  qed simp
  show sum: "g < length cs \<Longrightarrow> before_group cs g + cs ! g \<le> n" for g
    using low [of g] lim [of g] groups_of_bounds(1) [OF K, of g n] l by linarith
  have "before_group cs (length cs) \<le> n"
  proof (cases cs rule: rev_cases)
    case (snoc xs x)
    then show ?thesis using sum [of "length xs"] before_group_Suc [of "length xs" cs] by simp
  qed (simp add: before_group_def)
  moreover have "before_group cs g \<le> before_group cs (length cs)"
    using before_group_mono [of g "length cs" cs] by (cases "g \<le> length cs") (simp_all add: before_group_def)
  ultimately show "before_group cs g \<le> n" by linarith
  assume "cs \<noteq> []"
  then have i: "length cs - 1 < length cs" by (cases cs) simp_all
  have "(length cs - 1) * K + group_limit K n (length cs - 1) \<le> n"
    using groups_of_bounds(1) [OF K, of "length cs - 1" n] i l by (simp add: mult.commute)
  then show "cs ! (length cs - 1) \<le> n - (length cs - 1) * K" using lim [OF i] by linarith
qed

section \<open>Classes in packed words\<close>

definition class_words :: "nat \<Rightarrow> nat list \<Rightarrow> u64 list \<Rightarrow> bool" where
  "class_words b cs ws \<longleftrightarrow> 0 < b \<and> b \<le> 63 \<and> length ws = (length cs * b + 63) div 64 \<and> (\<forall>c\<in>set cs. c < 2 ^ b) \<and>
     packed b (map of_nat cs) ws (length cs)"

definition checkpoint_words :: "nat list \<Rightarrow> u64 list \<Rightarrow> bool" where
  "checkpoint_words cs ps \<longleftrightarrow> ps = map (\<lambda>q. of_nat (before_group cs (128 * q))) [0..<(length cs + 127) div 128]"

lemma class_bit:
  assumes c: "class_words b cs ws" and g: "g < length cs" "j < b"
  shows "bitpos ws (g * b + j) = bit (cs ! g) j" "g * b + j < 64 * length ws"
proof -
  have "Suc g * b \<le> length cs * b" using g(1) by (intro mult_le_mono1) simp
  then have n: "g * b + j < length cs * b" using g(2) by simp
  moreover have "length cs * b \<le> 64 * length ws" using c by (simp add: class_words_def)
  ultimately show l: "g * b + j < 64 * length ws" by linarith
  have "bitpos ws (g * b + j) = bit (map of_nat cs ! ((g * b + j) div b) :: u64) ((g * b + j) mod b)"
    using c l n unfolding class_words_def packed_def by simp
  also have "\<dots> = bit (of_nat (cs ! g) :: u64) j" using g by simp
  also have "\<dots> = bit (cs ! g) j" using c g(2) by (simp add: class_words_def bit_of_nat_iff)
  finally show "bitpos ws (g * b + j) = bit (cs ! g) j" .
qed

lemma class_lane:
  assumes c: "class_words b cs ws" and g: "g < length cs" and w: "64 * w \<le> g * b" "g * b + b \<le> 64 * w + 64"
  shows "drop_bit (g * b - 64 * w) (ws ! w) AND mask b = of_nat (cs ! g)" "w < length ws"
    "unat (drop_bit (g * b - 64 * w) (ws ! w) AND mask b) = cs ! g"
proof -
  define s where "s = g * b - 64 * w"
  have s: "g * b = 64 * w + s" "s + b \<le> 64" "0 < b" "b \<le> 63" using w c by (simp_all add: s_def class_words_def)
  show e: "drop_bit (g * b - 64 * w) (ws ! w) AND mask b = of_nat (cs ! g)"
  proof (rule bit_word_eqI)
    fix j assume "j < LENGTH(64)"
    then have j: "j < 64" by simp
    have lim: "cs ! g < 2 ^ b" using c g by (simp add: class_words_def)
    show "bit (drop_bit (g * b - 64 * w) (ws ! w) AND mask b) j = bit (of_nat (cs ! g) :: u64) j"
    proof (cases "j < b")
      case True
      have "bit (ws ! w) (s + j) = bitpos ws (64 * w + (s + j))" using True s(2) by (simp add: bitpos_join)
      also have "\<dots> = bit (cs ! g) j" using class_bit(1) [OF c g True] by (simp add: s(1) add.assoc)
      finally show ?thesis using True j by (simp add: bit_and_iff bit_drop_bit_eq bit_mask_iff bit_of_nat_iff flip: s_def)
    next
      case False
      have "take_bit b (cs ! g) = cs ! g" using lim by (simp add: take_bit_nat_eq_self)
      then have "\<not> bit (cs ! g) j" using False by (metis bit_take_bit_iff)
      then show ?thesis using False by (simp add: bit_and_iff bit_mask_iff bit_of_nat_iff)
    qed
  qed
  have "64 * w + s < 64 * length ws" using class_bit(2) [OF c g s(3)] s(1) by simp
  then show "w < length ws" by simp
  have "cs ! g < 2 ^ b" using c g by (simp add: class_words_def)
  also have "(2 :: nat) ^ b < 2 ^ 64" using s(4) by (intro power_strict_increasing) simp_all
  finally show "unat (drop_bit (g * b - 64 * w) (ws ! w) AND mask b) = cs ! g" unfolding e by (simp add: unat_of_nat_u64)
qed

section \<open>Lanes\<close>

text \<open>The fields of a word that the adders sum, and a tail mask that keeps the first of them.\<close>

definition lane :: "nat \<Rightarrow> u64 \<Rightarrow> nat \<Rightarrow> nat" where
  "lane w x i = unat (drop_bit (w * i) x AND mask w)"

lemma lane_masked:
  assumes "w * t < 64"
  shows "lane w (x AND (push_bit (w * t) 1 - 1)) i = (if i < t then lane w x i else 0)"
proof -
  have m: "push_bit (w * t) 1 - 1 = (mask (w * t) :: u64)" by (simp add: mask_eq_exp_minus_1 push_bit_eq_mult)
  have "drop_bit (w * i) (x AND mask (w * t)) AND mask w = (if i < t then drop_bit (w * i) x AND mask w else 0)"
  proof (rule bit_word_eqI)
    fix j assume "j < LENGTH(64)"
    have "w * i + j < w * t" if "i < t" "j < w"
    proof -
      have "w * Suc i \<le> w * t" using that(1) by (intro mult_le_mono2) simp
      then show ?thesis using that(2) by simp
    qed
    moreover have "\<not> w * i + j < w * t" if "\<not> i < t"
    proof -
      have "w * t \<le> w * i" using that by (intro mult_le_mono2) simp
      then show ?thesis by linarith
    qed
    ultimately show "bit (drop_bit (w * i) (x AND mask (w * t)) AND mask w) j = bit (if i < t then drop_bit (w * i) x AND mask w else 0) j"
      by (auto simp: bit_and_iff bit_drop_bit_eq bit_mask_iff dest: bit_top)
  qed
  then show ?thesis unfolding lane_def m by (cases "i < t") (simp_all only: if_True if_False unsigned_0)
qed

lemma lane_masked_sum: "w * t < 64 \<Longrightarrow> t \<le> n \<Longrightarrow> (\<Sum>i<n. lane w (x AND (push_bit (w * t) 1 - 1)) i) = (\<Sum>i<t. lane w x i)"
proof -
  assume t: "w * t < 64" "t \<le> n"
  have "(\<Sum>i<n. lane w (x AND (push_bit (w * t) 1 - 1)) i) = (\<Sum>i<n. if i < t then lane w x i else 0)"
    using lane_masked [OF t(1)] by simp
  also have "\<dots> = (\<Sum>i\<in>{..<n} \<inter> {i. i < t}. lane w x i)" by (simp add: sum.inter_restrict)
  also have "{..<n} \<inter> {i. i < t} = {..<t}" using t(2) by auto
  finally show ?thesis .
qed

text \<open>Sixteen-bit halves of eight bytes, added by one multiplication.\<close>

definition sum_bytes :: "u64 \<Rightarrow> nat" where
  "sum_bytes x = (let x = (x AND 0x00ff00ff00ff00ff) + (drop_bit 8 x AND 0x00ff00ff00ff00ff)
     in unat (drop_bit 48 (x * 0x0001000100010001)))"

lemma sum_bytes_bytes: "rep x ds \<Longrightarrow> sum_bytes x = sum_list ds"
proof -
  assume r: "rep x ds"
  then obtain a b c d e f g h where ds: "ds = [a, b, c, d, e, f, g, h]" by (auto simp: rep_def intro: eight)
  have l: "a < 256" "b < 256" "c < 256" "d < 256" "e < 256" "f < 256" "g < 256" "h < 256" using r by (simp_all add: rep_def ds)
  have m: "rep 0x00ff00ff00ff00ff [255, 0, 255, 0, 255, 0, 255, 0]" by (simp add: rep_def)
  have mod: "n AND 255 = n mod 256" for n :: nat using take_bit_eq_mask [of 8 n] by (simp add: take_bit_eq_mod mask_eq_exp_minus_1)
  have lo: "rep (x AND 0x00ff00ff00ff00ff) [a, 0, c, 0, e, 0, g, 0]"
    using rep_and [OF r m] l by (simp add: ds mod)
  have "rep (drop_bit 8 x) [b, c, d, e, f, g, h, 0]"
    using rep_shift [OF r, of 8] l by (simp add: ds shifted_def)
  from rep_and [OF this m] have hi: "rep (drop_bit 8 x AND 0x00ff00ff00ff00ff) [b, 0, d, 0, f, 0, h, 0]" using l by (simp add: mod)
  define y where "y = (x AND 0x00ff00ff00ff00ff) + (drop_bit 8 x AND 0x00ff00ff00ff00ff)"
  let ?p = "a + b" and ?q = "c + d" and ?r = "e + f" and ?s = "g + h"
  have u: "unat (x AND 0x00ff00ff00ff00ff) = a + 65536 * (c + 65536 * (e + 65536 * g))"
    "unat (drop_bit 8 x AND 0x00ff00ff00ff00ff) = b + 65536 * (d + 65536 * (f + 65536 * h))"
    using lo hi by (simp_all add: rep_def)
  have "unat y = (unat (x AND 0x00ff00ff00ff00ff) + unat (drop_bit 8 x AND 0x00ff00ff00ff00ff)) mod 2 ^ 64"
    unfolding y_def by (simp add: unat_word_ariths)
  also have "\<dots> = ?p + 65536 * (?q + 65536 * (?r + 65536 * ?s))" unfolding u using l by simp
  finally have y: "unat y = ?p + 65536 * (?q + 65536 * (?r + 65536 * ?s))" .
  let ?low = "?p + 65536 * ((?p + ?q) + 65536 * (?p + ?q + ?r))" and ?sum = "?p + ?q + ?r + ?s"
  have "unat (y * 0x0001000100010001) = (unat y * 0x0001000100010001) mod 2 ^ 64" by (simp add: unat_word_ariths)
  also have "unat y * 0x0001000100010001 = ?low + 281474976710656 * ?sum +
      18446744073709551616 * ((?q + ?r + ?s) + 65536 * ((?r + ?s) + 65536 * ?s))"
    unfolding y by (simp add: algebra_simps)
  also have "(?low + 281474976710656 * ?sum + 18446744073709551616 * ((?q + ?r + ?s) + 65536 * ((?r + ?s) + 65536 * ?s))) mod 2 ^ 64 =
      ?low + 281474976710656 * ?sum"
  proof -
    have wrap: "(v + 18446744073709551616 * t) mod 2 ^ 64 = v" if "v < 2 ^ 64" for v t :: nat using that by simp
    have "?low < 281474976710656" "?sum < 65536" using l by simp_all
    then show ?thesis by (intro wrap) simp
  qed
  finally have "unat (y * 0x0001000100010001) = ?low + 281474976710656 * ?sum" .
  moreover have "?low < 281474976710656" using l by simp
  ultimately have "unat (y * 0x0001000100010001) div 281474976710656 = ?sum" by simp
  moreover have "unat (drop_bit 48 (y * 0x0001000100010001)) = unat (y * 0x0001000100010001) div 2 ^ 48"
    unfolding unat_drop_bit_eq by (simp add: drop_bit_eq_div)
  ultimately show ?thesis by (simp add: sum_bytes_def Let_def ds flip: y_def)
qed

section \<open>Packing classes\<close>

lemma packed_snoc:
  assumes W: "0 < W" and p: "packed W xs ws (length xs)" and l: "length ws' = length ws"
    and b: "\<And>b. b < 64 * length ws \<Longrightarrow> bitpos ws' b = (bitpos ws b \<or> length xs * W \<le> b \<and> b < length xs * W + W \<and> bit x (b - length xs * W))"
  shows "packed W (xs @ [x]) ws' (length xs + 1)"
  unfolding packed_def
proof (intro allI impI)
  let ?n = "length xs"
  fix i assume "i < 64 * length ws'"
  then have i: "i < 64 * length ws" using l by simp
  consider (old) "i < ?n * W" | (new) "?n * W \<le> i" "i < ?n * W + W" | (above) "?n * W + W \<le> i" by linarith
  then show "bitpos ws' i = (i < (?n + 1) * W \<and> bit ((xs @ [x]) ! (i div W)) (i mod W))"
  proof cases
    case old
    then have "i div W < ?n" using W by (simp add: div_less_iff_less_mult)
    then show ?thesis using old b [OF i] p i by (simp add: packed_def nth_append)
  next
    case new
    then show ?thesis using field_at [OF W new] b [OF i] p i by (simp add: packed_def)
  next
    case above
    then show ?thesis using b [OF i] p i by (simp add: packed_def)
  qed
qed

lemma packed_grow: "packed W xs ws n \<Longrightarrow> n * W \<le> 64 * length ws \<Longrightarrow> packed W xs (ws @ replicate k 0) n"
  unfolding packed_def
proof (intro allI impI)
  fix b assume p: "\<forall>b<64 * length ws. bitpos ws b = (b < n * W \<and> bit (xs ! (b div W)) (b mod W))" and l: "n * W \<le> 64 * length ws"
    and b: "b < 64 * length (ws @ replicate k (0 :: u64))"
  show "bitpos (ws @ replicate k 0) b = (b < n * W \<and> bit (xs ! (b div W)) (b mod W))"
  proof (cases "b < 64 * length ws")
    case True
    then have "b div 64 < length ws" by (simp add: div_less_iff_less_mult mult.commute)
    then have "bitpos (ws @ replicate k 0) b = bitpos ws b" by (simp add: bitpos_def nth_append)
    then show ?thesis using p True by simp
  next
    case False
    then have "length ws \<le> b div 64" by (simp add: less_eq_div_iff_mult_less_eq mult.commute)
    moreover have "b div 64 < length ws + k" using b by (simp add: div_less_iff_less_mult mult.commute)
    ultimately have "\<not> bitpos (ws @ replicate k 0) b" by (simp add: bitpos_def nth_append)
    then show ?thesis using False l by simp
  qed
qed

lemma packed_zero: "packed W xs (replicate n 0) 0"
  by (simp add: packed_def)

lemma or_class:
  assumes W: "0 < W" "W \<le> 63" and p: "packed W (map of_nat cs) ws (length cs)" and c: "c < 2 ^ W"
    and fits: "(length cs + 1) * W \<le> 64 * length ws"
  shows "\<exists>ws'. or_field W (of_nat c) ws (length cs * W) = Inr ws' \<and> length ws' = length ws \<and>
    packed W (map of_nat (cs @ [c])) ws' (length cs + 1)"
proof -
  have m: "of_nat c AND field_mask W = (of_nat c :: u64)"
  proof (rule bit_word_eqI)
    fix j assume "j < LENGTH(64)"
    have "take_bit W c = c" using c by (simp add: take_bit_nat_eq_self)
    then have "bit c j \<Longrightarrow> j < W" by (metis bit_take_bit_iff)
    then show "bit (of_nat c AND field_mask W :: u64) j = bit (of_nat c :: u64) j"
      using W(2) by (auto simp: bit_and_iff bit_of_nat_iff not_less)
  qed
  have f: "length cs * W + W \<le> 64 * length ws" using fits by (simp add: algebra_simps)
  obtain ws' where ws': "or_field W (of_nat c) ws (length cs * W) = Inr ws'" "length ws' = length ws"
    "\<And>b. b < 64 * length ws \<Longrightarrow> bitpos ws' b = (bitpos ws b \<or> length cs * W \<le> b \<and> b < length cs * W + W \<and>
       bit (of_nat c :: u64) (b - length cs * W))"
    using or_field_bits [OF W f, of "of_nat c"] unfolding m by blast
  have "packed W (map of_nat cs @ [of_nat c]) ws' (length (map of_nat cs :: u64 list) + 1)"
    using p ws'(2,3) by (intro packed_snoc [OF W(1)]) simp_all
  then show ?thesis using ws'(1,2) by simp
qed

lemma checkpoint_snoc:
  assumes "checkpoint_words cs ps"
  shows "checkpoint_words (cs @ [c]) (if length cs mod 128 = 0 then ps @ [of_nat (sum_list cs)] else ps)"
proof -
  let ?n = "length cs" and ?q = "length cs div 128"
  have pre: "map (\<lambda>q. of_nat (before_group cs (128 * q))) [0..<k] = (map (\<lambda>q. of_nat (before_group (cs @ [c]) (128 * q))) [0..<k] :: u64 list)"
    if "k \<le> ?q + 1" for k
  proof -
    have "before_group cs (128 * q) = before_group (cs @ [c]) (128 * q)" if "q < k" for q
    proof -
      have "q \<le> ?q" using that \<open>k \<le> ?q + 1\<close> by simp
      then have "q * 128 \<le> ?n" by (simp add: less_eq_div_iff_mult_less_eq)
      then show ?thesis by (simp add: before_group_def mult.commute)
    qed
    then show ?thesis by simp
  qed
  have up: "(length (cs @ [c]) + 127) div 128 = ?q + 1" by (simp add: div_add_self2)
  show ?thesis
  proof (cases "?n mod 128 = 0")
    case True
    have "?n = 128 * ?q + ?n mod 128" by simp
    then have n: "?n = 128 * ?q" using True by simp
    then have "(?n + 127) div 128 = ?q" by linarith
    moreover have "before_group (cs @ [c]) (128 * ?q) = sum_list cs" unfolding n [symmetric] by (simp add: before_group_def)
    ultimately show ?thesis using True assms pre [of ?q] up by (simp add: checkpoint_words_def)
  next
    case False
    have "?n = 128 * ?q + ?n mod 128" "?n mod 128 < 128" "0 < ?n mod 128" using False by simp_all
    moreover have "0 < r \<Longrightarrow> r < 128 \<Longrightarrow> (128 * q + r + 127) div 128 = q + 1" for q r :: nat
      by (intro div_nat_eqI) simp_all
    ultimately have "(?n + 127) div 128 = ?q + 1" by metis
    then show ?thesis using False assms pre [of "?q + 1"] up by (simp add: checkpoint_words_def)
  qed
qed

lemma checkpoint_nil: "checkpoint_words [] []"
  by (simp add: checkpoint_words_def)

end
