(* ===== verification/Rank15.thy ===== *)
theory Rank15
  imports GroupCounts
begin

text \<open>
  Rank over groups of fifteen entries (\<open>rank15.h\<close>, scalar target): four-bit class populations
  packed sixteen to a word and a checkpoint every 128 classes, read through checked word views.
\<close>

section \<open>The view\<close>

record rank15_view =
  r15_classes :: word_view
  r15_checkpoints :: word_view
  r15_virtual_count :: nat
  r15_group_count :: nat

definition new_rank15_view :: "word_view \<Rightarrow> word_view \<Rightarrow> nat \<Rightarrow> rank15_view res" where
  "new_rank15_view classes checkpoints virtual_count =
     (let groups = groups_of 15 virtual_count in
      if view_size classes \<noteq> (groups + 15) div 16 \<or> view_size checkpoints \<noteq> (groups + 127) div 128
      then Inl (Invalid_argument ''invalid rank15 spans'')
      else Inr \<lparr>r15_classes = classes, r15_checkpoints = checkpoints, r15_virtual_count = virtual_count,
        r15_group_count = groups\<rparr>)"

definition r15_class_at :: "bool \<Rightarrow> rank15_view \<Rightarrow> nat \<Rightarrow> nat res" where
  "r15_class_at host v g =
     (if g \<ge> r15_group_count v then Inl (Out_of_range ''rank15 class'')
      else bindE (word_at host (r15_classes v) (g div 16)) (\<lambda>x.
        Inr (unat (drop_bit (4 * (g mod 16)) x AND 15))))"

definition r15_add_prefix :: "nat \<Rightarrow> nat \<Rightarrow> nat \<Rightarrow> nat res" where
  "r15_add_prefix checkpoint pre limit =
     (if checkpoint > limit \<or> pre > limit - checkpoint
      then Inl (Invalid_argument ''invalid rank15 checkpoint or prefix'') else Inr (checkpoint + pre))"

definition pair_nibbles :: "u64 \<Rightarrow> u64" where
  "pair_nibbles x = (x AND 0x0f0f0f0f0f0f0f0f) + (drop_bit 4 x AND 0x0f0f0f0f0f0f0f0f)"

fun pairs_loop :: "bool \<Rightarrow> word_view \<Rightarrow> nat \<Rightarrow> nat \<Rightarrow> u64 \<Rightarrow> u64 res" where
  "pairs_loop host classes at 0 pairs = Inr pairs"
| "pairs_loop host classes at (Suc n) pairs = bindE (word_at host classes at) (\<lambda>x.
     pairs_loop host classes (at + 1) n (pairs + pair_nibbles x))"

text \<open>The loop runs over the whole words of the block in front of the word of the group.\<close>

definition r15_rank :: "bool \<Rightarrow> rank15_view \<Rightarrow> nat \<Rightarrow> nat res" where
  "r15_rank host v g =
     (if g \<ge> r15_group_count v then Inl (Out_of_range ''rank15 group'')
      else bindE (word_at host (r15_checkpoints v) (g div 128)) (\<lambda>checkpoint.
        let limit = r15_virtual_count v in
        if g mod 128 = 0 then r15_add_prefix (unat checkpoint) 0 limit
        else let word = g div 128 * 8; tail = g mod 16 in
          bindE (pairs_loop host (r15_classes v) word (g div 16 - word) 0) (\<lambda>pairs.
          bindE (word_at host (r15_classes v) (g div 16)) (\<lambda>x.
          r15_add_prefix (unat checkpoint) (sum_bytes (pairs + pair_nibbles (x AND (push_bit (4 * tail) 1 - 1)))) limit))))"

definition r15_count :: "bool \<Rightarrow> rank15_view \<Rightarrow> nat res" where
  "r15_count host v =
     (if r15_group_count v = 0 then Inr 0
      else let last = r15_group_count v - 1 in
        bindE (r15_class_at host v last) (\<lambda>population.
        if population > r15_virtual_count v - last * 15
        then Inl (Invalid_argument ''invalid rank15 final population'')
        else bindE (r15_rank host v last) (\<lambda>before. r15_add_prefix before population (r15_virtual_count v))))"

section \<open>The builder\<close>

record rank15_index =
  r15_class_words :: "u64 list"
  r15_checkpoint_words :: "u64 list"
  r15_count_of :: nat

fun r15_fill :: "nat \<Rightarrow> u8 list \<Rightarrow> nat \<Rightarrow> u64 \<Rightarrow> rank15_index \<Rightarrow> rank15_index res" where
  "r15_fill n [] i acc r = Inr r"
| "r15_fill n (s # ss) i acc r =
     (let limit = group_limit 15 n i in
      if unat s > limit then Inl (Invalid_argument ''rank15 class population'')
      else let r = (if i mod 128 = 0 then r\<lparr>r15_checkpoint_words := r15_checkpoint_words r @ [acc]\<rparr> else r) in
        bindE (or_at (r15_class_words r) (i div 16) (push_bit (4 * (i mod 16)) (ucast s))) (\<lambda>ws.
        r15_fill n ss (i + 1) (acc + ucast s) (r\<lparr>r15_class_words := ws\<rparr>)))"

definition r15_build :: "u8 list \<Rightarrow> nat \<Rightarrow> rank15_index res" where
  "r15_build source n =
     (let groups = groups_of 15 n in
      if length source \<noteq> groups then Inl (Invalid_argument ''rank15 class length'')
      else r15_fill n source 0 0 \<lparr>r15_class_words = replicate ((groups + 15) div 16) 0,
        r15_checkpoint_words = [], r15_count_of = n\<rparr>)"

definition r15_view :: "bool \<Rightarrow> rank15_index \<Rightarrow> rank15_view res" where
  "r15_view host r = new_rank15_view (native_words host (r15_class_words r)) (native_words host (r15_checkpoint_words r)) (r15_count_of r)"

section \<open>Sums of nibbles\<close>

definition nibbles :: "u64 \<Rightarrow> nat" where
  "nibbles x = (\<Sum>i<16. lane 4 x i)"

definition both_nibbles :: "nat \<Rightarrow> nat" where
  "both_nibbles b = b mod 16 + b div 16"

lemma rep_pair_nibbles: "rep x bs \<Longrightarrow> rep (pair_nibbles x) (map both_nibbles bs)"
proof -
  assume r: "rep x bs"
  then obtain a b c d e f g h where bs: "bs = [a, b, c, d, e, f, g, h]" by (auto simp: rep_def intro: eight)
  have l: "a < 256" "b < 256" "c < 256" "d < 256" "e < 256" "f < 256" "g < 256" "h < 256" using r by (simp_all add: rep_def bs)
  have m: "n AND 15 = n mod 16" for n :: nat using take_bit_eq_mask [of 4 n] by (simp add: take_bit_eq_mod mask_eq_exp_minus_1)
  have s: "shifted 4 b c mod 16 = b div 16" if "b < 256" for b c
  proof -
    have "b div 16 < 16" using that by (simp add: div_less_iff_less_mult)
    then show ?thesis by (simp add: shifted_def)
  qed
  have "rep (x AND 0x0f0f0f0f0f0f0f0f) (map (\<lambda>b. b mod 16) bs)"
    using rep_and [OF r rep_constants(3)] by (simp add: bs replicate_8 m)
  moreover have "rep (drop_bit 4 x AND 0x0f0f0f0f0f0f0f0f) (map (\<lambda>b. b div 16) bs)"
    using rep_and [OF rep_shift [OF r, of 4] rep_constants(3)] l by (simp add: bs replicate_8 m s)
  ultimately have "rep ((x AND 0x0f0f0f0f0f0f0f0f) + (drop_bit 4 x AND 0x0f0f0f0f0f0f0f0f))
      (map2 (+) (map (\<lambda>b. b mod 16) bs) (map (\<lambda>b. b div 16) bs))"
  proof (rule rep_add)
    show "bytes_ok (map2 (+) (map (\<lambda>b. b mod 16) bs) (map (\<lambda>b. b div 16) bs))"
    proof -
      have "n mod 16 + n div 16 < 256" if "n < 256" for n :: nat using that by linarith
      then show ?thesis using l by (simp add: bs)
    qed
  qed
  moreover have "map2 (+) (map (\<lambda>b. b mod 16) bs) (map (\<lambda>b. b div 16) bs) = map both_nibbles bs"
    by (simp add: bs both_nibbles_def)
  ultimately show ?thesis by (simp add: pair_nibbles_def)
qed

lemma nibbles_bytes: "rep x bs \<Longrightarrow> nibbles x = sum_list (map both_nibbles bs)"
proof -
  assume r: "rep x bs"
  then obtain a b c d e f g h where bs: "bs = [a, b, c, d, e, f, g, h]" by (auto simp: rep_def intro: eight)
  have l: "lane 4 x (2 * i) = bs ! i mod 16" "lane 4 x (2 * i + 1) = bs ! i div 16" if i: "i < 8" for i
  proof -
    have "bs ! i < 256" using r i by (auto simp: rep_def)
    then have "bs ! i div 16 mod 16 = bs ! i div 16" by (simp add: div_less_iff_less_mult)
    then show "lane 4 x (2 * i) = bs ! i mod 16" "lane 4 x (2 * i + 1) = bs ! i div 16"
      using rep_field [OF r i, of 4 0] rep_field [OF r i, of 4 4] by (simp_all add: lane_def algebra_simps)
  qed
  have "nibbles x = (\<Sum>i<8. lane 4 x (2 * i) + lane 4 x (2 * i + 1))"
    by (simp add: nibbles_def lessThan_nat_numeral lessThan_Suc)
  also have "\<dots> = (\<Sum>i<8. both_nibbles (bs ! i))"
    using l by (intro sum.cong) (simp_all add: both_nibbles_def)
  also have "\<dots> = sum_list (map both_nibbles bs)" using r by (simp add: rep_def sum_list_sum_nth atLeast0LessThan)
  finally show ?thesis .
qed

lemma sum_map2: "length xs = length ys \<Longrightarrow> sum_list (map2 (+) xs ys) = sum_list xs + sum_list ys" for xs ys :: "nat list"
  by (induction xs ys rule: list_induct2) simp_all

lemma map2_elem: "d \<in> set (map2 f xs ys) \<Longrightarrow> \<exists>i. i < length xs \<and> i < length ys \<and> d = f (xs ! i) (ys ! i)"
  by (force simp: in_set_conv_nth)

lemma pairs_loop_sum:
  "reads host cl ws \<Longrightarrow> at + n \<le> length ws \<Longrightarrow> rep pairs ds \<Longrightarrow> \<forall>d\<in>set ds. d \<le> 30 * k \<Longrightarrow> k + n \<le> 8 \<Longrightarrow>
    \<exists>p es. pairs_loop host cl at n pairs = Inr p \<and> rep p es \<and> (\<forall>d\<in>set es. d \<le> 30 * (k + n)) \<and>
      sum_list es = sum_list ds + (\<Sum>j<n. nibbles (ws ! (at + j)))"
proof (induction n arbitrary: at pairs ds k)
  case (Suc n)
  let ?x = "ws ! at"
  have x: "word_at host cl at = Inr ?x" using Suc.prems(1,2) by (intro readsD(2)) simp_all
  obtain bs where bs: "rep ?x bs" using rep_exists by blast
  have len: "length ds = 8" "length (map both_nibbles bs) = 8" using bs Suc.prems(3) by (simp_all add: rep_def)
  have small: "both_nibbles b \<le> 30" if "b \<in> set bs" for b
  proof -
    have "b < 256" using bs that by (auto simp: rep_def list_all_iff)
    then show ?thesis unfolding both_nibbles_def by linarith
  qed
  define es where "es = map2 (+) ds (map both_nibbles bs)"
  have bound: "d \<le> 30 * Suc k" if elem: "d \<in> set es" for d
  proof -
    obtain i where i: "i < 8" "d = ds ! i + both_nibbles (bs ! i)"
      using map2_elem [OF elem [unfolded es_def]] len by auto
    have "ds ! i \<le> 30 * k" using Suc.prems(4) i(1) len(1) nth_mem [of i ds] by simp
    moreover have "both_nibbles (bs ! i) \<le> 30" using small i(1) len(2) nth_mem [of i bs] by simp
    ultimately show ?thesis using i(2) by simp
  qed
  have "bytes_ok es" using bound Suc.prems(5) by (fastforce simp: list_all_iff)
  then have r: "rep (pairs + pair_nibbles ?x) es"
    unfolding es_def using rep_add [OF Suc.prems(3) rep_pair_nibbles [OF bs]] by simp
  have sum: "sum_list es = sum_list ds + nibbles ?x"
    unfolding nibbles_bytes [OF bs] es_def using len by (intro sum_map2) simp
  obtain p es' where "pairs_loop host cl (at + 1) n (pairs + pair_nibbles ?x) = Inr p" "rep p es'"
    "\<forall>d\<in>set es'. d \<le> 30 * (Suc k + n)" "sum_list es' = sum_list es + (\<Sum>j<n. nibbles (ws ! (at + 1 + j)))"
    using Suc.IH [OF Suc.prems(1) _ r, of "at + 1" "Suc k"] Suc.prems(2,5) bound by auto
  moreover have "(\<Sum>j<Suc n. nibbles (ws ! (at + j))) = nibbles ?x + (\<Sum>j<n. nibbles (ws ! (at + 1 + j)))"
    using sum.lessThan_Suc_shift [of "\<lambda>j. nibbles (ws ! (at + j))" n] by (simp del: sum.lessThan_Suc)
  ultimately show ?case using x sum by (intro exI [of _ p] exI [of _ es']) simp
qed auto

section \<open>Rank is the prefix sum\<close>

text \<open>A view that shows the populations of a sequence cut into groups of fifteen.\<close>

definition r15_shows :: "bool \<Rightarrow> rank15_view \<Rightarrow> nat list \<Rightarrow> bool" where
  "r15_shows host v cs \<longleftrightarrow> (\<exists>ws ps. reads host (r15_classes v) ws \<and> reads host (r15_checkpoints v) ps \<and>
     class_words 4 cs ws \<and> checkpoint_words cs ps \<and> counts_ok 15 (r15_virtual_count v) cs \<and>
     r15_group_count v = length cs \<and> r15_virtual_count v \<le> u64_max)"

lemma nibble_class:
  assumes "class_words 4 cs ws" "16 * w + i < length cs" "i < 16"
  shows "lane 4 (ws ! w) i = cs ! (16 * w + i)" "w < length ws"
  using class_lane [OF assms(1,2), of w] assms(3) by (simp_all add: lane_def mult.commute)

lemma nibbles_classes:
  assumes "class_words 4 cs ws" "16 * (w + 1) \<le> length cs"
  shows "before_group cs (16 * w) + nibbles (ws ! w) = before_group cs (16 * (w + 1))"
  using before_group_add [of "16 * w" 16 cs] nibble_class(1) [OF assms(1), of w] assms(2)
  by (simp add: nibbles_def add.commute)

lemma nibbles_run:
  assumes "class_words 4 cs ws"
  shows "16 * (at + n) \<le> length cs \<Longrightarrow> before_group cs (16 * at) + (\<Sum>j<n. nibbles (ws ! (at + j))) = before_group cs (16 * (at + n))"
proof (induction n)
  case (Suc n)
  then show ?case using nibbles_classes [OF assms, of "at + n"] by simp
qed simp

lemma r15_class_at_shows:
  assumes "r15_shows host v cs" "g < length cs"
  shows "r15_class_at host v g = Inr (cs ! g)"
proof -
  obtain ws ps where v: "reads host (r15_classes v) ws" "class_words 4 cs ws" "r15_group_count v = length cs"
    using assms(1) unfolding r15_shows_def by blast
  have g: "16 * (g div 16) + g mod 16 < length cs" using assms(2) by simp
  have "word_at host (r15_classes v) (g div 16) = Inr (ws ! (g div 16))"
    using nibble_class(2) [OF v(2) g] by (intro readsD(2) [OF v(1)]) simp
  then show ?thesis
    using nibble_class(1) [OF v(2) g] assms(2) v(3) by (simp add: r15_class_at_def lane_def mask_eq_exp_minus_1)
qed

lemma r15_rank_shows:
  assumes s: "r15_shows host v cs" and g: "g < length cs"
  shows "r15_rank host v g = Inr (before_group cs g)"
proof -
  obtain ws ps where v: "reads host (r15_classes v) ws" "reads host (r15_checkpoints v) ps" "class_words 4 cs ws"
    "checkpoint_words cs ps" "counts_ok 15 (r15_virtual_count v) cs" "r15_group_count v = length cs" "r15_virtual_count v \<le> u64_max"
    using s unfolding r15_shows_def by blast
  let ?n = "r15_virtual_count v" and ?r = "g mod 128"
  define q t where "q = g div 128" and "t = g mod 16" 
  have le: "before_group cs k \<le> ?n" for k using counts_prefix(3) [OF v(5)] by simp
  have q: "q < (length cs + 127) div 128" using g unfolding q_def by (simp add: div_less_iff_less_mult less_eq_div_iff_mult_less_eq)
  then have "word_at host (r15_checkpoints v) q = Inr (of_nat (before_group cs (128 * q)))"
    using readsD(2) [OF v(2), of q] v(4) by (simp add: checkpoint_words_def)
  moreover have "before_group cs (128 * q) < 2 ^ 64" using le [of "128 * q"] v(7) by (simp add: u64_max_def)
  ultimately have cp: "word_at host (r15_checkpoints v) q = Inr (of_nat (before_group cs (128 * q)))"
    "unat (of_nat (before_group cs (128 * q)) :: u64) = before_group cs (128 * q)" by (simp_all add: unat_of_nat_u64)
  have add: "r15_add_prefix (before_group cs (128 * q)) (before_group cs g - before_group cs (128 * q)) ?n = Inr (before_group cs g)"
  proof -
    have "before_group cs (128 * q) \<le> before_group cs g" by (intro before_group_mono) (simp add: q_def)
    then show ?thesis using le [of g] le [of "128 * q"] by (simp add: r15_add_prefix_def)
  qed
  show ?thesis
  proof (cases "?r = 0")
    case True
    then have "128 * q = g" by (auto simp: q_def)
    then show ?thesis using add cp g v(6) True by (simp add: r15_rank_def Let_def flip: q_def)
  next
    case False
    let ?w = "q * 8"
    define k where "k = ?r div 16"
    have gs: "g = 128 * q + 16 * k + t" "k < 8"
    proof -
      have "?r = 16 * k + ?r mod 16" by (simp add: k_def)
      moreover have "?r mod 16 = t" by (simp add: mod_mod_cancel t_def)
      moreover have "g = 128 * q + ?r" by (simp add: q_def)
      ultimately show "g = 128 * q + 16 * k + t" by linarith
      show "k < 8" by (simp add: k_def div_less_iff_less_mult)
    qed
    have w: "g div 16 = ?w + k"
    proof -
      have "t < 16" by (simp add: t_def)
      then show ?thesis unfolding gs(1) by (intro div_nat_eqI) simp_all
    qed
    have sixteen: "16 * (?w + k) = 128 * q + 16 * k" by simp
    have fit: "16 * (?w + k) + t < length cs" "16 * (?w + k) \<le> length cs" unfolding sixteen using gs(1) g by linarith+
    have t16: "t < 16" by (simp add: t_def)
    have inside: "?w + k < length ws" using nibble_class(2) [OF v(3) fit(1) t16] .
    have "rep 0 (replicate 8 0)" by (simp add: rep_def replicate_8)
    then obtain p es where p: "pairs_loop host (r15_classes v) ?w k 0 = Inr p" "rep p es" "\<forall>d\<in>set es. d \<le> 30 * k"
      "sum_list es = (\<Sum>j<k. nibbles (ws ! (?w + j)))"
      using pairs_loop_sum [OF v(1), of ?w k 0 "replicate 8 0" 0] inside gs(2) by auto
    define x where "x = ws ! (?w + k) AND (push_bit (4 * t) 1 - 1)"
    have wx: "word_at host (r15_classes v) (?w + k) = Inr (ws ! (?w + k))" using inside by (rule readsD(2) [OF v(1)])
    have nx: "nibbles x = (\<Sum>i<t. cs ! (16 * (?w + k) + i))"
    proof -
      have "nibbles x = (\<Sum>i<t. lane 4 (ws ! (?w + k)) i)" unfolding nibbles_def x_def using t16 by (intro lane_masked_sum) simp_all
      also have "\<dots> = (\<Sum>i<t. cs ! (16 * (?w + k) + i))"
      proof (rule sum.cong)
        fix i assume "i \<in> {..<t}"
        then show "lane 4 (ws ! (?w + k)) i = cs ! (16 * (?w + k) + i)"
          using fit(1) t16 by (intro nibble_class(1) [OF v(3)]) simp_all
      qed simp
      finally show ?thesis .
    qed
    obtain bs where bs: "rep x bs" using rep_exists by blast
    define ts where "ts = map2 (+) es (map both_nibbles bs)"
    have len: "length es = 8" "length (map both_nibbles bs) = 8" using p(2) bs by (simp_all add: rep_def)
    have "bytes_ok ts"
    proof -
      have "d < 256" if elem: "d \<in> set ts" for d
      proof -
        obtain i where i: "i < 8" "d = es ! i + both_nibbles (bs ! i)"
          using map2_elem [OF elem [unfolded ts_def]] len by auto
        have "es ! i \<le> 30 * k" using p(3) i(1) len(1) nth_mem [of i es] by simp
        moreover have "bs ! i < 256" using bs i(1) by (auto simp: rep_def)
        then have "both_nibbles (bs ! i) \<le> 30" unfolding both_nibbles_def by linarith
        ultimately show ?thesis using i(2) gs(2) by linarith
      qed
      then show ?thesis by (simp add: list_all_iff)
    qed
    then have "rep (p + pair_nibbles x) ts" unfolding ts_def using rep_add [OF p(2) rep_pair_nibbles [OF bs]] by simp
    then have "sum_bytes (p + pair_nibbles x) = sum_list ts" by (rule sum_bytes_bytes)
    moreover have "sum_list ts = sum_list es + nibbles x"
      unfolding nibbles_bytes [OF bs] ts_def using len by (intro sum_map2) simp
    moreover have "before_group cs (128 * q) + (sum_list es + nibbles x) = before_group cs g"
    proof -
      have "before_group cs (16 * ?w) + sum_list es = before_group cs (16 * (?w + k))" unfolding p(4) using fit(2) by (rule nibbles_run [OF v(3)])
      moreover have "before_group cs (16 * (?w + k) + t) = before_group cs (16 * (?w + k)) + nibbles x"
        unfolding nx using fit(1) by (intro before_group_add) simp
      moreover have "16 * ?w = 128 * q" by simp
      moreover have "16 * (?w + k) + t = g" unfolding sixteen by (rule gs(1) [symmetric])
      ultimately show ?thesis by (simp add: add.assoc)
    qed
    ultimately have sum: "sum_bytes (p + pair_nibbles x) = before_group cs g - before_group cs (128 * q)" by linarith
    have masked: "ws ! (?w + k) AND (2 ^ (4 * t) - 1) = x" by (simp add: x_def)
    show ?thesis
      using False g v(6) cp(1) p(1) wx add
      by (simp add: r15_rank_def Let_def cp(2) w masked sum flip: q_def t_def)
  qed
qed


lemma r15_count_shows:
  assumes s: "r15_shows host v cs"
  shows "r15_count host v = Inr (sum_list cs)"
proof (cases cs rule: rev_cases)
  case Nil
  then show ?thesis using s by (auto simp: r15_shows_def r15_count_def)
next
  case (snoc xs x)
  have v: "counts_ok 15 (r15_virtual_count v) cs" "r15_group_count v = length cs"
    using s unfolding r15_shows_def by blast+
  have g: "length xs < length cs" using snoc by simp
  have "x \<le> r15_virtual_count v - length xs * 15" using counts_prefix(5) [OF v(1)] snoc by simp
  moreover have "sum_list xs + x \<le> r15_virtual_count v"
    using counts_prefix(2) [OF v(1) _ g] snoc by (simp add: before_group_def)
  ultimately show ?thesis
    using r15_class_at_shows [OF s g] r15_rank_shows [OF s g] v(2) snoc
    by (simp add: r15_count_def r15_add_prefix_def before_group_def)
qed

section \<open>The builder packs the populations\<close>

lemma or_nibble: "or_at ws (i div 16) (push_bit (4 * (i mod 16)) (ucast s)) = or_field 4 (of_nat (unat (s :: u8))) ws (i * 4)"
proof -
  have "i * 4 div 64 = i div 16" "i * 4 mod 64 = 4 * (i mod 16)" using div_mult2_eq [of "i * 4" 4 16] mult_mod_right [of 4 i 16]
    by (simp_all add: mult.commute)
  moreover have "\<not> 4 * (i mod 16) + 4 > 64" by (simp add: not_less)
  ultimately show ?thesis by (cases "or_at ws (i div 16) (push_bit (4 * (i mod 16)) (ucast s))")
      (simp_all add: or_field_def)
qed

lemma r15_fill_correct:
  fixes cs :: "nat list"
  assumes "i = length cs" "acc = of_nat (sum_list cs)" "packed 4 (map of_nat cs) (r15_class_words r) i"
    "checkpoint_words cs (r15_checkpoint_words r)" "(i + length ss) * 4 \<le> 64 * length (r15_class_words r)"
  shows "if \<forall>j<length ss. unat (ss ! j) \<le> group_limit 15 n (i + j)
    then \<exists>ws ps. r15_fill n ss i acc r = Inr (r\<lparr>r15_class_words := ws, r15_checkpoint_words := ps\<rparr>) \<and>
      length ws = length (r15_class_words r) \<and> packed 4 (map of_nat (cs @ map unat ss)) ws (i + length ss) \<and>
      checkpoint_words (cs @ map unat ss) ps
    else r15_fill n ss i acc r = Inl (Invalid_argument ''rank15 class population'')"
  using assms
proof (induction n ss i acc r arbitrary: cs rule: r15_fill.induct)
  case (1 n i acc r)
  then show ?case by simp (rule exI [of _ "r15_class_words r"], rule exI [of _ "r15_checkpoint_words r"], simp)
next
  case (2 n s ss i acc r)
  have all: "(\<forall>j<length (s # ss). unat ((s # ss) ! j) \<le> group_limit 15 n (i + j)) \<longleftrightarrow>
      unat s \<le> group_limit 15 n i \<and> (\<forall>j<length ss. unat (ss ! j) \<le> group_limit 15 n (i + 1 + j))"
    by (auto simp: less_Suc_eq_0_disj)
  show ?case
  proof (cases "unat s \<le> group_limit 15 n i")
    case False
    then show ?thesis unfolding all by simp
  next
    case True
    have "group_limit 15 n i \<le> 15" by (simp add: group_limit_def less_imp_le)
    then have small: "unat s < 2 ^ 4" using True by simp
    define r' where "r' = (if i mod 128 = 0 then r\<lparr>r15_checkpoint_words := r15_checkpoint_words r @ [acc]\<rparr> else r)"
    have cp: "checkpoint_words (cs @ [unat s]) (r15_checkpoint_words r')" "r15_class_words r' = r15_class_words r"
      using checkpoint_snoc [OF "2.prems"(4), of "unat s"] "2.prems"(1,2) by (simp_all add: r'_def split: if_splits)
    have fits: "(length cs + 1) * 4 \<le> 64 * length (r15_class_words r)" using "2.prems"(1,5) by simp
    obtain ws where ws: "or_field 4 (of_nat (unat s)) (r15_class_words r) (i * 4) = Inr ws" "length ws = length (r15_class_words r)"
      "packed 4 (map of_nat (cs @ [unat s])) ws (i + 1)"
      using or_class [OF _ _ _ small fits] "2.prems"(1,3) by auto
    let ?r = "r'\<lparr>r15_class_words := ws\<rparr>"
    have step: "r15_fill n (s # ss) i acc r = r15_fill n ss (i + 1) (acc + ucast s) ?r"
      using True ws(1) cp(2) by (simp add: Let_def or_nibble flip: r'_def)
    have up: "r'\<lparr>r15_class_words := ws, r15_checkpoint_words := ps\<rparr> = r\<lparr>r15_class_words := ws, r15_checkpoint_words := ps\<rparr>" for ws ps
      by (simp add: r'_def)
    have "if \<forall>j<length ss. unat (ss ! j) \<le> group_limit 15 n (i + 1 + j)
      then \<exists>ws' ps. r15_fill n ss (i + 1) (acc + ucast s) ?r = Inr (?r\<lparr>r15_class_words := ws', r15_checkpoint_words := ps\<rparr>) \<and>
        length ws' = length (r15_class_words ?r) \<and> packed 4 (map of_nat ((cs @ [unat s]) @ map unat ss)) ws' (i + 1 + length ss) \<and>
        checkpoint_words ((cs @ [unat s]) @ map unat ss) ps
      else r15_fill n ss (i + 1) (acc + ucast s) ?r = Inl (Invalid_argument ''rank15 class population'')"
      using True "2.prems"(1,2,5) ws cp
      by (intro "2.IH" [OF refl _ r'_def, of ws "cs @ [unat s]"]) (simp_all add: or_nibble)
    then show ?thesis unfolding all step using True ws(2) up by (simp split: if_splits) blast
  qed
qed

lemma group_limit_le: "0 < K \<Longrightarrow> group_limit K n i \<le> K"
  by (simp add: group_limit_def less_imp_le)

lemma r15_build_decides:
  "if counts_ok 15 n (map unat ss)
   then \<exists>r. r15_build ss n = Inr r \<and> class_words 4 (map unat ss) (r15_class_words r) \<and>
     checkpoint_words (map unat ss) (r15_checkpoint_words r) \<and> r15_count_of r = n
   else \<exists>m. r15_build ss n = Inl (Invalid_argument m)"
proof (cases "length ss = groups_of 15 n")
  case False
  then show ?thesis by (simp add: counts_ok_def r15_build_def)
next
  case True
  define r where "r = \<lparr>r15_class_words = replicate ((groups_of 15 n + 15) div 16) (0 :: u64), r15_checkpoint_words = [], r15_count_of = n\<rparr>"
  have l: "length (r15_class_words r) = (length ss * 4 + 63) div 64"
  proof -
    have "(length ss * 4 + 63) div 64 = (length ss * 4 + 63) div 4 div 16" using div_mult2_eq [of "length ss * 4 + 63" 4 16] by simp
    moreover have "(length ss * 4 + 63) div 4 = length ss + 15" by (rule div_nat_eqI) simp_all
    ultimately show ?thesis using True by (simp add: r_def)
  qed
  have fits: "(0 + length ss) * 4 \<le> 64 * length (r15_class_words r)" unfolding l using div_mult_mod_eq [of "length ss * 4 + 63" 64] mod_less_divisor [of 64 "length ss * 4 + 63"] by simp
  have run: "r15_build ss n = r15_fill n ss 0 0 r" using True by (simp add: r15_build_def r_def)
  have ok: "counts_ok 15 n (map unat ss) \<longleftrightarrow> (\<forall>j<length ss. unat (ss ! j) \<le> group_limit 15 n (0 + j))"
    using True by (simp add: counts_ok_def)
  have fill: "if \<forall>j<length ss. unat (ss ! j) \<le> group_limit 15 n (0 + j)
    then \<exists>ws ps. r15_fill n ss 0 0 r = Inr (r\<lparr>r15_class_words := ws, r15_checkpoint_words := ps\<rparr>) \<and>
      length ws = length (r15_class_words r) \<and> packed 4 (map of_nat ([] @ map unat ss)) ws (0 + length ss) \<and>
      checkpoint_words ([] @ map unat ss) ps
    else r15_fill n ss 0 0 r = Inl (Invalid_argument ''rank15 class population'')"
    using fits by (intro r15_fill_correct) (simp_all add: r_def packed_zero checkpoint_nil)
  show ?thesis
  proof (cases "counts_ok 15 n (map unat ss)")
    case False
    then show ?thesis using fill unfolding ok run by (simp split: if_splits)
  next
    case True
    then obtain ws ps where w: "r15_fill n ss 0 0 r = Inr (r\<lparr>r15_class_words := ws, r15_checkpoint_words := ps\<rparr>)"
      "length ws = length (r15_class_words r)" "packed 4 (map of_nat (map unat ss)) ws (length ss)" "checkpoint_words (map unat ss) ps"
      using fill unfolding ok by (simp split: if_splits) blast
    have "\<forall>c\<in>set (map unat ss). c < 2 ^ 4"
    proof
      fix c assume "c \<in> set (map unat ss)"
      then obtain j where "j < length ss" "c = unat (ss ! j)" by (auto simp: in_set_conv_nth)
      then show "c < 2 ^ 4" using True group_limit_le [of 15 n j] by (fastforce simp: ok)
    qed
    then have "class_words 4 (map unat ss) ws" using w(2,3) l by (simp add: class_words_def)
    then show ?thesis using True w(1,4) unfolding run by (simp add: r_def)
  qed
qed

lemma r15_view_shows:
  assumes "class_words 4 cs (r15_class_words r)" "checkpoint_words cs (r15_checkpoint_words r)"
    "counts_ok 15 (r15_count_of r) cs" "r15_count_of r \<le> u64_max"
  shows "\<exists>v. r15_view host r = Inr v \<and> r15_shows host v cs \<and> r15_virtual_count v = r15_count_of r"
proof -
  have g: "length cs = groups_of 15 (r15_count_of r)" using assms(3) by (simp add: counts_ok_def)
  have "length (r15_class_words r) = (length cs + 15) div 16"
  proof -
    have "(length cs * 4 + 63) div 64 = (length cs * 4 + 63) div 4 div 16" using div_mult2_eq [of "length cs * 4 + 63" 4 16] by simp
    moreover have "(length cs * 4 + 63) div 4 = length cs + 15" by (rule div_nat_eqI) simp_all
    ultimately show ?thesis using assms(1) by (simp add: class_words_def)
  qed
  moreover have "length (r15_checkpoint_words r) = (length cs + 127) div 128" using assms(2) by (simp add: checkpoint_words_def)
  moreover have "reads host (native_words host ws) ws" for ws by (simp add: native_words_section reads_section)
  moreover have "view_size (native_words host ws) = length ws" for ws
    using \<open>reads host (native_words host ws) ws\<close> readsD(1) by blast
  ultimately show ?thesis using assms g by (auto simp: r15_view_def new_rank15_view_def r15_shows_def)
qed

section \<open>Damaged directories\<close>

lemma r15_add_prefix_checked:
  "only_checked (r15_add_prefix a b n)" "r15_add_prefix a b n = Inr x \<Longrightarrow> x \<le> n"
  by (auto simp: r15_add_prefix_def split: if_splits)

lemma pairs_loop_checked: "only_checked (pairs_loop host cl at n acc)"
  by (induction host cl at n acc rule: pairs_loop.induct) (auto intro!: only_checked_bind)

lemma r15_checked:
  "only_checked (r15_class_at host v g)" "only_checked (r15_rank host v g)" "only_checked (r15_count host v)"
  "r15_rank host v g = Inr x \<Longrightarrow> g < r15_group_count v \<and> x \<le> r15_virtual_count v"
  "r15_count host v = Inr x \<Longrightarrow> x \<le> r15_virtual_count v"
proof -
  show c: "only_checked (r15_class_at host v g)" for g
    unfolding r15_class_at_def by (auto intro!: only_checked_bind)
  show r: "only_checked (r15_rank host v g)" for g
    unfolding r15_rank_def Let_def by (auto intro!: only_checked_bind pairs_loop_checked r15_add_prefix_checked(1))
  show "only_checked (r15_count host v)"
    unfolding r15_count_def Let_def using c r by (auto intro!: only_checked_bind r15_add_prefix_checked(1))
  show "r15_rank host v g = Inr x \<Longrightarrow> g < r15_group_count v \<and> x \<le> r15_virtual_count v"
    unfolding r15_rank_def Let_def by (auto simp: bindE_eq_Inr dest: r15_add_prefix_checked(2) split: if_splits)
  show "r15_count host v = Inr x \<Longrightarrow> x \<le> r15_virtual_count v"
    unfolding r15_count_def Let_def by (auto simp: bindE_eq_Inr dest: r15_add_prefix_checked(2) split: if_splits)
qed

text \<open>
  The builder accepts exactly the populations that fit their groups; through the view of what
  it built, every class reads back, and rank is the sum of the populations in front of a group.
\<close>

theorem rank15_counts:
  assumes "n \<le> u64_max" "counts_ok 15 n (map unat ss)"
  shows "\<exists>r v. r15_build ss n = Inr r \<and> r15_view host r = Inr v \<and>
    (\<forall>g<length ss. r15_class_at host v g = Inr (unat (ss ! g)) \<and> r15_rank host v g = Inr (sum_list (take g (map unat ss)))) \<and>
    r15_count host v = Inr (sum_list (map unat ss))"
proof -
  obtain r where r: "r15_build ss n = Inr r" "class_words 4 (map unat ss) (r15_class_words r)"
    "checkpoint_words (map unat ss) (r15_checkpoint_words r)" "r15_count_of r = n"
    using r15_build_decides [of n ss] assms(2) by auto
  obtain v where v: "r15_view host r = Inr v" "r15_shows host v (map unat ss)"
    using r15_view_shows [OF r(2,3)] r(4) assms by blast
  show ?thesis
    using r(1) v r15_class_at_shows [OF v(2)] r15_rank_shows [OF v(2)] r15_count_shows [OF v(2)]
    by (intro exI [of _ r] exI [of _ v]) (simp add: before_group_def)
qed

theorem rank15_counts_witness:
  "\<exists>r v. r15_build [3, 15, 2] 35 = Inr r \<and> r15_view True r = Inr v \<and> r15_rank True v 2 = Inr 18 \<and> r15_count True v = Inr 20"
proof -
  have three: "(\<forall>g<3. P g) \<longleftrightarrow> P 0 \<and> P 1 \<and> P (2 :: nat)" for P by (auto simp: numeral_eq_Suc less_Suc_eq)
  have l: "length (map unat [3 :: u8, 15, 2]) = 3" by simp
  have "counts_ok 15 35 (map unat [3 :: u8, 15, 2])"
    unfolding counts_ok_def l three by (simp add: groups_of_def group_limit_def)
  then obtain r v where "r15_build [3, 15, 2] 35 = Inr r" "r15_view True r = Inr v" "r15_count True v = Inr 20"
    "\<forall>g<3. r15_rank True v g = Inr (sum_list (take g [3, 15, 2]))"
    using rank15_counts [of 35 "[3, 15, 2]" True] by (auto simp: u64_max_def)
  then show ?thesis by (intro exI [of _ r] exI [of _ v]) (simp add: three)
qed

text \<open>
  The builder refuses every other list of populations with an exception. On arbitrary borrowed
  sections a view refuses damage with a checked exception or answers at most the number of entries.
\<close>

theorem rank15_rejects:
  "(\<exists>m. r15_build ss n = Inl (Invalid_argument m)) = (\<not> counts_ok 15 n (map unat ss)) \<and>
   (case r15_rank host v g of Inr x \<Rightarrow> g < r15_group_count v \<and> x \<le> r15_virtual_count v | Inl e \<Rightarrow> checked e) \<and>
   (case r15_count host v of Inr x \<Rightarrow> x \<le> r15_virtual_count v | Inl e \<Rightarrow> checked e)"
proof (intro conjI)
  show "(\<exists>m. r15_build ss n = Inl (Invalid_argument m)) = (\<not> counts_ok 15 n (map unat ss))"
    using r15_build_decides [of n ss] by (auto split: if_splits)
  show "case r15_rank host v g of Inr x \<Rightarrow> g < r15_group_count v \<and> x \<le> r15_virtual_count v | Inl e \<Rightarrow> checked e"
    using only_checkedD [OF r15_checked(2)] r15_checked(4) by (auto split: sum.splits)
  show "case r15_count host v of Inr x \<Rightarrow> x \<le> r15_virtual_count v | Inl e \<Rightarrow> checked e"
    using only_checkedD [OF r15_checked(3)] r15_checked(5) by (auto split: sum.splits)
qed

end
