(* ===== verification/RankGroups.thy ===== *)
theory RankGroups
  imports Rank15
begin

text \<open>
  Rank over groups of \<open>2 ^ n - 1\<close> entries (\<open>rank_groups.h\<close>, scalar target): packed class
  populations that may cross word boundaries, their views, the batch builder and the incremental one.
\<close>

section \<open>Packed prefixes\<close>

text \<open>The populations of the planes of a class: the bits of a word that carry one weight.\<close>

definition plane_mask :: "nat \<Rightarrow> nat \<Rightarrow> nat \<Rightarrow> u64" where
  "plane_mask b word plane =
     fold (\<lambda>i m. if (word * 64 + i) mod b = plane then m OR push_bit i 1 else m) [0..<64] 0"

definition add_planes :: "nat \<Rightarrow> nat \<Rightarrow> u64 \<Rightarrow> nat \<Rightarrow> nat" where
  "add_planes b word x result =
     fold (\<lambda>plane result. result + popcount (x AND plane_mask b (word mod b) plane) * 2 ^ plane) [0..<b] result"

definition pair_classes :: "u64 \<Rightarrow> u64" where
  "pair_classes x = (let x = (x AND 0x3333333333333333) + (drop_bit 2 x AND 0x3333333333333333)
     in (x AND 0x0f0f0f0f0f0f0f0f) + (drop_bit 4 x AND 0x0f0f0f0f0f0f0f0f))"

fun prefix_loop :: "bool \<Rightarrow> nat \<Rightarrow> word_view \<Rightarrow> nat \<Rightarrow> nat \<Rightarrow> nat \<Rightarrow> nat \<Rightarrow> u64 \<Rightarrow> (nat \<times> u64) res" where
  "prefix_loop host b words bits word 0 result pairs = Inr (result, pairs)"
| "prefix_loop host b words bits word (Suc n) result pairs = bindE (word_at host words word) (\<lambda>x.
     let remaining = bits - word * 64;
         x = (if remaining < 64 then x AND (push_bit remaining 1 - 1) else x)
     in if b = 2 then prefix_loop host b words bits (word + 1) n result (pairs + pair_classes x)
        else prefix_loop host b words bits (word + 1) n (add_planes b word x result) pairs)"

definition prefix_portable :: "bool \<Rightarrow> nat \<Rightarrow> word_view \<Rightarrow> nat \<Rightarrow> nat res" where
  "prefix_portable host b words n =
     bindE (prefix_loop host b words (n * b) 0 ((n * b + 63) div 64) 0 0) (\<lambda>(result, pairs).
     Inr (if b = 2 then sum_bytes pairs else result))"

section \<open>Views\<close>

definition rg_group_ok :: "nat \<Rightarrow> bool" where
  "rg_group_ok K \<longleftrightarrow> K \<ge> 3 \<and> K < u64_max \<and> has_single_bit (K + 1)"

definition rg_class_bits :: "nat \<Rightarrow> nat" where
  "rg_class_bits K = countr_zero (of_nat (K + 1))"

record rank_groups_view =
  rg_classes :: word_view
  rg_checkpoints :: word_view
  rg_virtual_count :: nat

definition rg_group_count :: "nat \<Rightarrow> rank_groups_view \<Rightarrow> nat" where
  "rg_group_count K v = groups_of K (rg_virtual_count v)"

definition new_rank_groups_view :: "nat \<Rightarrow> word_view \<Rightarrow> word_view \<Rightarrow> nat \<Rightarrow> rank_groups_view res" where
  "new_rank_groups_view K classes checkpoints virtual_count =
     (let groups = groups_of K virtual_count in
      if groups > (u64_max - 63) div rg_class_bits K then Inl (Overflow_error ''rank groups packed size'')
      else let bits = groups * rg_class_bits K in
        if view_size classes \<noteq> (bits + 63) div 64 \<or> view_size checkpoints \<noteq> (groups + 127) div 128
        then Inl (Invalid_argument ''invalid rank groups spans'')
        else Inr \<lparr>rg_classes = classes, rg_checkpoints = checkpoints, rg_virtual_count = virtual_count\<rparr>)"

definition rg_read_class :: "bool \<Rightarrow> nat \<Rightarrow> rank_groups_view \<Rightarrow> nat \<Rightarrow> nat res" where
  "rg_read_class host K v g =
     (let b = rg_class_bits K; at = g * b; word = at div 64; shift = at mod 64 in
      bindE (word_at host (rg_classes v) word) (\<lambda>low.
      bindE (if shift + b > 64
        then bindE (word_at host (rg_classes v) (word + 1)) (\<lambda>high. Inr (drop_bit shift low OR push_bit (64 - shift) high))
        else Inr (drop_bit shift low)) (\<lambda>x.
      Inr (unat (x AND of_nat K)))))"

definition rg_class_at :: "bool \<Rightarrow> nat \<Rightarrow> rank_groups_view \<Rightarrow> nat \<Rightarrow> nat res" where
  "rg_class_at host K v g =
     (if g \<ge> rg_group_count K v then Inl (Out_of_range ''rank groups class'') else rg_read_class host K v g)"

definition rg_add_prefix :: "nat \<Rightarrow> nat \<Rightarrow> nat \<Rightarrow> nat res" where
  "rg_add_prefix checkpoint pre limit =
     (if checkpoint > limit \<or> pre > limit - checkpoint
      then Inl (Invalid_argument ''invalid rank groups checkpoint or prefix'') else Inr (checkpoint + pre))"

fun class_loop :: "bool \<Rightarrow> nat \<Rightarrow> rank_groups_view \<Rightarrow> nat \<Rightarrow> nat \<Rightarrow> nat \<Rightarrow> nat \<Rightarrow> nat res" where
  "class_loop host K v limit i 0 result = Inr result"
| "class_loop host K v limit i (Suc n) result =
     bindE (rg_read_class host K v i) (\<lambda>c.
     bindE (rg_add_prefix result c limit) (\<lambda>result.
     class_loop host K v limit (i + 1) n result))"

definition rg_rank :: "bool \<Rightarrow> nat \<Rightarrow> rank_groups_view \<Rightarrow> nat \<Rightarrow> nat res" where
  "rg_rank host K v g =
     (if g \<ge> rg_group_count K v then Inl (Out_of_range ''rank groups boundary'')
      else bindE (word_at host (rg_checkpoints v) (g div 128)) (\<lambda>checkpoint.
        let limit = rg_virtual_count v; n = g mod 128; b = rg_class_bits K in
        if K = 3 \<or> K = 7 \<or> K = 31
        then if n = 0 then rg_add_prefix (unat checkpoint) 0 limit
          else bindE (subspan (rg_classes v) (g div 128 * (2 * b)) None) (\<lambda>words.
            bindE (prefix_portable host b words n) (\<lambda>pre. rg_add_prefix (unat checkpoint) pre limit))
        else bindE (class_loop host K v limit (g - n) n (unat checkpoint)) (\<lambda>result. rg_add_prefix result 0 limit)))"

definition rg_count :: "bool \<Rightarrow> nat \<Rightarrow> rank_groups_view \<Rightarrow> nat res" where
  "rg_count host K v =
     (if rg_group_count K v = 0 then Inr 0
      else let last = rg_group_count K v - 1 in
        bindE (rg_class_at host K v last) (\<lambda>population.
        if population > rg_virtual_count v - last * K
        then Inl (Invalid_argument ''invalid rank groups final population'')
        else bindE (rg_rank host K v last) (\<lambda>before. rg_add_prefix before population (rg_virtual_count v))))"

section \<open>Building\<close>

record rank_groups =
  rg_class_words :: "u64 list"
  rg_checkpoint_words :: "u64 list"
  rg_count_of :: nat

fun rg_fill :: "nat \<Rightarrow> nat \<Rightarrow> u64 list \<Rightarrow> nat \<Rightarrow> u64 \<Rightarrow> rank_groups \<Rightarrow> rank_groups res" where
  "rg_fill K n [] i acc r = Inr r"
| "rg_fill K n (x # xs) i acc r =
     (if unat x > group_limit K n i then Inl (Invalid_argument ''rank groups population'')
      else let r = (if i mod 128 = 0 then r\<lparr>rg_checkpoint_words := rg_checkpoint_words r @ [acc]\<rparr> else r) in
        bindE (or_field (rg_class_bits K) x (rg_class_words r) (i * rg_class_bits K)) (\<lambda>ws.
        rg_fill K n xs (i + 1) (acc + x) (r\<lparr>rg_class_words := ws\<rparr>)))"

definition rg_build :: "nat \<Rightarrow> u64 list \<Rightarrow> nat \<Rightarrow> rank_groups res" where
  "rg_build K source n =
     (let groups = groups_of K n in
      if length source \<noteq> groups then Inl (Invalid_argument ''rank groups class length'')
      else if groups > (u64_max - 63) div rg_class_bits K then Inl (Overflow_error ''rank groups packed size'')
      else rg_fill K n source 0 0 \<lparr>rg_class_words = replicate ((groups * rg_class_bits K + 63) div 64) 0,
        rg_checkpoint_words = [], rg_count_of = n\<rparr>)"

text \<open>The specialization for fifteen wraps a \<open>rank15_view\<close>.\<close>

datatype any_rank_view = Groups_view rank_groups_view | Fifteen_view rank15_view

definition rg_view :: "bool \<Rightarrow> nat \<Rightarrow> rank_groups \<Rightarrow> any_rank_view res" where
  "rg_view host K r =
     (let cl = native_words host (rg_class_words r); cp = native_words host (rg_checkpoint_words r) in
      if K = 15 then bindE (new_rank15_view cl cp (rg_count_of r)) (\<lambda>v. Inr (Fifteen_view v))
      else bindE (new_rank_groups_view K cl cp (rg_count_of r)) (\<lambda>v. Inr (Groups_view v)))"

fun view_class_at :: "bool \<Rightarrow> nat \<Rightarrow> any_rank_view \<Rightarrow> nat \<Rightarrow> nat res" where
  "view_class_at host K (Groups_view v) g = rg_class_at host K v g"
| "view_class_at host K (Fifteen_view v) g = r15_class_at host v g"

fun view_rank :: "bool \<Rightarrow> nat \<Rightarrow> any_rank_view \<Rightarrow> nat \<Rightarrow> nat res" where
  "view_rank host K (Groups_view v) g = rg_rank host K v g"
| "view_rank host K (Fifteen_view v) g = r15_rank host v g"

fun view_count :: "bool \<Rightarrow> nat \<Rightarrow> any_rank_view \<Rightarrow> nat res" where
  "view_count host K (Groups_view v) = rg_count host K v"
| "view_count host K (Fifteen_view v) = r15_count host v"

section \<open>Building incrementally\<close>

record rank_groups_builder =
  gb_data :: rank_groups
  gb_groups :: nat
  gb_population :: u64
  gb_partial :: bool
  gb_finished :: bool

definition new_builder :: rank_groups_builder where
  "new_builder = \<lparr>gb_data = \<lparr>rg_class_words = [], rg_checkpoint_words = [], rg_count_of = 0\<rparr>, gb_groups = 0,
     gb_population = 0, gb_partial = False, gb_finished = False\<rparr>"

text \<open>A moved-from builder counts as finished; its vectors are moved away.\<close>

definition move_builder :: "rank_groups_builder \<Rightarrow> rank_groups_builder \<times> rank_groups_builder" where
  "move_builder other = (other, other\<lparr>gb_data := (gb_data other)\<lparr>rg_class_words := [], rg_checkpoint_words := []\<rparr>,
     gb_finished := True\<rparr>)"

definition gb_append :: "nat \<Rightarrow> u64 \<Rightarrow> nat \<Rightarrow> (rank_groups_builder, unit) op" where
  "gb_append K population entries = (\<lambda>s.
     let b = rg_class_bits K; d = gb_data s in
     if gb_finished s then (Inl (Logic_error ''incremental rank groups are finished''), s)
     else if gb_partial s \<or> entries = 0 \<or> entries > K \<or> unat population > entries
     then (Inl (Invalid_argument ''invalid incremental rank group''), s)
     else if entries > u64_max - rg_count_of d \<or> gb_groups s \<ge> (u64_max - 63) div b
     then (Inl (Length_error ''incremental rank groups are too large''), s)
     else let bits = (gb_groups s + 1) * b; words = (bits + 63) div 64;
              grown = rg_class_words d @ replicate (words - length (rg_class_words d)) 0;
              points = (if gb_groups s mod 128 = 0 then rg_checkpoint_words d @ [gb_population s] else rg_checkpoint_words d)
       in case or_field b population grown (gb_groups s * b) of
            Inl e \<Rightarrow> (Inl e, s)
          | Inr ws \<Rightarrow> (Inr (), s\<lparr>gb_data := \<lparr>rg_class_words = ws, rg_checkpoint_words = points, rg_count_of = rg_count_of d + entries\<rparr>,
              gb_population := gb_population s + population, gb_groups := gb_groups s + 1, gb_partial := (entries \<noteq> K)\<rparr>))"

definition gb_finish :: "(rank_groups_builder, rank_groups) op" where
  "gb_finish = (\<lambda>s.
     if gb_finished s then (Inl (Logic_error ''incremental rank groups are finished''), s)
     else (Inr (gb_data s), s\<lparr>gb_data := (gb_data s)\<lparr>rg_class_words := [], rg_checkpoint_words := []\<rparr>, gb_finished := True\<rparr>))"

section \<open>The size of a class\<close>

lemma rg_bits:
  assumes "rg_group_ok K"
  shows "K + 1 = 2 ^ rg_class_bits K" "2 \<le> rg_class_bits K" "rg_class_bits K \<le> 63"
    "x < 2 ^ rg_class_bits K \<longleftrightarrow> x \<le> K"
proof -
  obtain n where n: "K + 1 = 2 ^ n" using assms unfolding rg_group_ok_def has_single_bit_def by blast
  have "(2 :: nat) ^ n < 2 ^ 64" using assms n by (simp add: rg_group_ok_def u64_max_def)
  then have n64: "n < 64" by (simp only: power_strict_increasing_iff one_less_numeral_iff num.simps semiring_norm)
  have "(2 :: nat) ^ 2 \<le> 2 ^ n" using assms n by (simp add: rg_group_ok_def flip: n)
  then have n2: "2 \<le> n" by (simp only: power_increasing_iff one_less_numeral_iff num.simps semiring_norm)
  have low: "rev (word_bits 64 (2 ^ n :: u64)) ! i = (i = n)" if "i < 64" for i
    using that by (simp add: rev_nth nth_word_bits bit_exp_iff)
  have "takeWhile Not (rev (word_bits 64 (2 ^ n :: u64))) = take n (rev (word_bits 64 (2 ^ n :: u64)))"
    using n64 low by (intro takeWhile_eq_take_P_nth) auto
  then have "countr_zero (2 ^ n) = n" using n64 by (simp add: countr_zero_def)
  then have c: "rg_class_bits K = n" by (simp only: rg_class_bits_def n of_nat_power of_nat_numeral)
  show "K + 1 = 2 ^ rg_class_bits K" "2 \<le> rg_class_bits K" "rg_class_bits K \<le> 63" using n n2 n64 c by simp_all
  show "x < 2 ^ rg_class_bits K \<longleftrightarrow> x \<le> K" unfolding c by (simp add: less_Suc_eq_le flip: n)
qed

lemma field_mask_K: "rg_group_ok K \<Longrightarrow> field_mask (rg_class_bits K) = of_nat K"
proof -
  assume "rg_group_ok K"
  then have "K = 2 ^ rg_class_bits K - 1" using rg_bits(1) [of K] by simp
  moreover have "(of_nat (2 ^ n - 1) :: u64) = 2 ^ n - 1" for n by (simp add: of_nat_diff)
  ultimately have "(of_nat K :: u64) = 2 ^ rg_class_bits K - 1" by metis
  then show ?thesis by (simp add: field_mask_def push_bit_eq_mult)
qed

section \<open>Weighted bits\<close>

definition bits_weight :: "nat \<Rightarrow> nat \<Rightarrow> u64 \<Rightarrow> nat" where
  "bits_weight b word x = (\<Sum>i<64. of_bool (bit x i) * 2 ^ ((64 * word + i) mod b))"

lemma plane_mask_bit: "bit (plane_mask b word plane) i \<longleftrightarrow> i < 64 \<and> (word * 64 + i) mod b = plane"
proof -
  have "n \<le> 64 \<Longrightarrow> bit (fold (\<lambda>i m. if (word * 64 + i) mod b = plane then m OR push_bit i 1 else m) [0..<n] (0 :: u64)) i \<longleftrightarrow>
      i < n \<and> (word * 64 + i) mod b = plane" for n
  proof (induction n)
    case (Suc n)
    then show ?case by (auto simp: bit_or_iff bit_exp_iff less_Suc_eq)
  qed simp
  then show ?thesis by (simp add: plane_mask_def)
qed

lemma popcount_sum: "popcount x = (\<Sum>i<64. of_bool (bit x i))"
proof -
  have "length (filter P [0..<n]) = (\<Sum>i<n. of_bool (P i))" for P and n :: nat by (induction n) simp_all
  then show ?thesis by (simp add: popcount_def ones_def)
qed

lemma add_planes_weight:
  assumes "0 < b"
  shows "add_planes b word x result = result + bits_weight b word x"
proof -
  let ?f = "\<lambda>plane. popcount (x AND plane_mask b (word mod b) plane) * 2 ^ plane"
  have "fold (\<lambda>plane result. result + ?f plane) [0..<n] r = r + (\<Sum>plane<n. ?f plane)" for n r
    by (induction n) simp_all
  then have "add_planes b word x result = result + (\<Sum>plane<b. ?f plane)" by (simp add: add_planes_def)
  moreover have "?f plane = (\<Sum>i<64. of_bool (bit x i) * (if (64 * word + i) mod b = plane then 2 ^ plane else 0))" for plane
  proof -
    have "(word mod b * 64 + i) mod b = (64 * word + i) mod b" for i
      by (metis mod_add_left_eq mod_mult_left_eq mult.commute)
    then have "?f plane = (\<Sum>i<64. of_bool (bit x i \<and> (64 * word + i) mod b = plane)) * 2 ^ plane"
      unfolding popcount_sum by (simp add: bit_and_iff plane_mask_bit)
    also have "\<dots> = (\<Sum>i<64. of_bool (bit x i) * (if (64 * word + i) mod b = plane then 2 ^ plane else 0))"
      unfolding sum_distrib_right by (intro sum.cong) auto
    finally show ?thesis .
  qed
  moreover have "(\<Sum>plane<b. \<Sum>i<64. of_bool (bit x i) * (if (64 * word + i) mod b = plane then 2 ^ plane else 0)) = bits_weight b word x"
    unfolding sum.swap [of _ "{..<64}"] bits_weight_def sum_distrib_left [symmetric] using assms by simp
  ultimately show ?thesis by simp
qed

text \<open>Two-bit classes are summed in the byte lanes instead.\<close>

definition quad_classes :: "nat \<Rightarrow> nat" where
  "quad_classes b = b mod 4 + b div 4 mod 4 + b div 16 mod 4 + b div 64"

lemma rep_pair_classes: "rep x bs \<Longrightarrow> rep (pair_classes x) (map quad_classes bs)"
proof -
  assume r: "rep x bs"
  then obtain a b c d e f g h where bs: "bs = [a, b, c, d, e, f, g, h]" by (auto simp: rep_def intro: eight)
  have l: "a < 256" "b < 256" "c < 256" "d < 256" "e < 256" "f < 256" "g < 256" "h < 256" using r by (simp_all add: rep_def bs)
  have and51: "n AND 0x33 = n mod 4 + 16 * (n div 16 mod 4)" for n :: nat
  proof -
    have "n AND 0x33 = (n mod 16 AND 3) + 2 ^ 4 * (n div 16 AND 3)"
      using and_digit [of "n mod 16" 4 3 "n div 16" 3] by simp
    moreover have "m AND 3 = m mod 4" for m :: nat
      using take_bit_eq_mask [of 2 m] by (simp add: take_bit_eq_mod mask_eq_exp_minus_1)
    ultimately show ?thesis by (simp add: mod_mod_cancel)
  qed
  define pairs where "pairs n = (n AND 0x33) + (n div 4 AND 0x33)" for n :: nat
  have p: "pairs n = (n mod 4 + n div 4 mod 4) + 16 * (n div 16 mod 4 + n div 64 mod 4)" for n
    by (simp add: pairs_def and51 div_mult2_eq [of n 4 16, simplified])
  have q: "pairs n < 256" "both_nibbles (pairs n) = quad_classes n" if "n < 256" for n
  proof -
    have lo: "n mod 4 + n div 4 mod 4 < 16" and hi: "n div 16 mod 4 + n div 64 mod 4 < 16" by simp_all
    have "a + 16 * c < 256" if "a < 16" "c < 16" for a c :: nat using that by linarith
    then show "pairs n < 256" unfolding p using lo hi by blast
    have "n div 64 mod 4 = n div 64" using that by (simp add: div_less_iff_less_mult)
    moreover have "both_nibbles (a + 16 * c) = a + c" if "a < 16" for a c using that by (simp add: both_nibbles_def)
    from this [OF lo] have "both_nibbles (pairs n) = n mod 4 + n div 4 mod 4 + (n div 16 mod 4 + n div 64 mod 4)" unfolding p .
    ultimately show "both_nibbles (pairs n) = quad_classes n" by (simp add: quad_classes_def)
  qed
  have "rep (x AND 0x3333333333333333) (map (\<lambda>b. b AND 0x33) bs)"
    using rep_and [OF r rep_constants(2)] by (simp add: bs replicate_8)
  moreover have "rep (drop_bit 2 x AND 0x3333333333333333) (map (\<lambda>b. b div 4 AND 0x33) bs)"
    using rep_and [OF rep_shift [OF r, of 2] rep_constants(2)] l by (simp add: bs replicate_8 masked_shift(2))
  ultimately have "rep ((x AND 0x3333333333333333) + (drop_bit 2 x AND 0x3333333333333333))
      (map2 (+) (map (\<lambda>b. b AND 0x33) bs) (map (\<lambda>b. b div 4 AND 0x33) bs))"
    using l q(1) by (intro rep_add) (simp_all add: bs flip: pairs_def)
  moreover have "map2 (+) (map (\<lambda>b. b AND 0x33) bs) (map (\<lambda>b. b div 4 AND 0x33) bs) = map pairs bs"
    by (simp add: bs pairs_def)
  ultimately have "rep ((x AND 0x3333333333333333) + (drop_bit 2 x AND 0x3333333333333333)) (map pairs bs)" by (simp only:)
  from rep_pair_nibbles [OF this] have "rep (pair_classes x) (map both_nibbles (map pairs bs))"
    by (simp only: pair_classes_def pair_nibbles_def Let_def)
  then show ?thesis using l q(2) by (simp add: bs)
qed

lemma sum_blocks: "(\<Sum>i<m. \<Sum>j<k. f (k * i + j)) = (\<Sum>i<m * k. f i)" for f :: "nat \<Rightarrow> nat"
proof (induction m)
  case (Suc m)
  have "(\<Sum>i<a + k. f i) = (\<Sum>i<a. f i) + (\<Sum>j<k. f (a + j))" for a by (induction k) simp_all
  from this [of "m * k"] show ?case using Suc by (simp add: add.commute mult.commute)
qed simp

lemma lane_weight: "lane 2 x i = (\<Sum>j<2. of_bool (bit x (2 * i + j)) * 2 ^ j)"
proof -
  define y where "y = drop_bit (2 * i) x"
  have y: "bit (unat y) j = bit x (2 * i + j)" if "j < 2" for j
    using that by (auto simp: y_def bit_unsigned_iff bit_drop_bit_eq dest: bit_top)
  have "lane 2 x i = take_bit 2 (unat y)"
    by (simp add: lane_def y_def unsigned_take_bit_eq flip: take_bit_eq_mask)
  also have "\<dots> = (\<Sum>j<2. push_bit j (of_bool (bit (unat y) j)))" unfolding take_bit_sum atLeast0LessThan ..
  also have "\<dots> = (\<Sum>j<2. of_bool (bit x (2 * i + j)) * 2 ^ j)"
    using y by (intro sum.cong) (simp_all add: push_bit_eq_mult)
  finally show ?thesis .
qed

lemma quad_weight: "rep x bs \<Longrightarrow> sum_list (map quad_classes bs) = bits_weight 2 word x"
proof -
  assume r: "rep x bs"
  have l: "lane 2 x (4 * i + j) = bs ! i div 4 ^ j mod 4" if "i < 8" "j < 4" for i j
  proof -
    have "2 * j + 2 \<le> 8" using that(2) by simp
    then have "unat (drop_bit (8 * i + 2 * j) x AND mask 2) = bs ! i div 2 ^ (2 * j) mod 2 ^ 2"
      using rep_field [OF r that(1), of 2 "2 * j"] by (simp add: add.commute)
    then show ?thesis by (simp add: lane_def power_mult distrib_left)
  qed
  have four: "(\<Sum>j<4. f j) = f 0 + f 1 + f 2 + f (3 :: nat)" for f :: "nat \<Rightarrow> nat"
    by (simp add: numeral_eq_Suc)
  have "quad_classes (bs ! i) = (\<Sum>j<4. lane 2 x (4 * i + j))" if i: "i < 8" for i
  proof -
    have "bs ! i < 256" using r i by (auto simp: rep_def)
    then have "bs ! i div 64 mod 4 = bs ! i div 64" by (simp add: div_less_iff_less_mult)
    then show ?thesis unfolding four using l [OF i, of 0] l [OF i, of 1] l [OF i, of 2] l [OF i, of 3] by (simp add: quad_classes_def)
  qed
  then have "sum_list (map quad_classes bs) = (\<Sum>i<8. \<Sum>j<4. lane 2 x (4 * i + j))"
    using r by (simp add: rep_def sum_list_sum_nth atLeast0LessThan)
  also have "\<dots> = (\<Sum>i<32. lane 2 x i)" unfolding sum_blocks by simp
  also have "\<dots> = (\<Sum>i<32. \<Sum>j<2. of_bool (bit x (2 * i + j)) * 2 ^ ((2 * i + j) mod 2))"
    unfolding lane_weight by (intro sum.cong) simp_all
  also have "\<dots> = (\<Sum>k<64. of_bool (bit x k) * 2 ^ (k mod 2))"
    using sum_blocks [of "\<lambda>k. of_bool (bit x k) * 2 ^ (k mod 2)" 2 32] by simp
  also have "\<dots> = bits_weight 2 word x" unfolding bits_weight_def by (intro sum.cong) (simp_all add: mod_add_eq [symmetric] mod_mult_left_eq)
  finally show ?thesis .
qed

section \<open>The packed prefix\<close>

definition tail_masked :: "nat \<Rightarrow> nat \<Rightarrow> u64 \<Rightarrow> u64" where
  "tail_masked bits word x = (if bits - word * 64 < 64 then x AND (push_bit (bits - word * 64) 1 - 1) else x)"

lemma tail_masked_bit: "i < 64 \<Longrightarrow> bit (tail_masked bits word x) i \<longleftrightarrow> bit x i \<and> (64 * word + i < bits \<or> bits - word * 64 \<ge> 64)"
proof -
  assume i: "i < 64"
  have m: "push_bit k 1 - 1 = (mask k :: u64)" for k by (simp add: mask_eq_exp_minus_1 push_bit_eq_mult)
  show ?thesis unfolding tail_masked_def m using i by (auto simp: bit_and_iff bit_mask_iff)
qed

lemma sum_map2_bound:
  assumes "length xs = 8" "length ys = 8" "\<forall>d\<in>set xs. d \<le> a" "\<forall>d\<in>set ys. d \<le> c"
  shows "\<forall>d\<in>set (map2 (+) xs ys). d \<le> a + (c :: nat)" "sum_list (map2 (+) xs ys) = sum_list xs + sum_list ys"
proof
  fix d assume "d \<in> set (map2 (+) xs ys)"
  then obtain i where "i < 8" "d = xs ! i + ys ! i" using map2_elem [of d "(+)" xs ys] assms(1,2) by auto
  then show "d \<le> a + c" using assms by (simp add: add_mono)
qed (use assms(1,2) in \<open>simp add: sum_map2\<close>)

lemma prefix_loop_holds:
  assumes "reads host w ws" "0 < b"
  shows "word + n \<le> length ws \<Longrightarrow> rep pairs ds \<Longrightarrow> \<forall>d\<in>set ds. d \<le> 12 * k \<Longrightarrow> k + n \<le> 20 \<Longrightarrow>
    \<exists>r p es. prefix_loop host b w bits word n result pairs = Inr (r, p) \<and> rep p es \<and>
      (if b = 2 then sum_list es else r) =
      (if b = 2 then sum_list ds else result) + (\<Sum>j<n. bits_weight b (word + j) (tail_masked bits (word + j) (ws ! (word + j))))"
proof (induction n arbitrary: word result pairs ds k)
  case (Suc n)
  let ?y = "tail_masked bits word (ws ! word)"
  let ?f = "\<lambda>word j. bits_weight b (word + j) (tail_masked bits (word + j) (ws ! (word + j)))"
  have shift: "(\<Sum>j<Suc n. ?f word j) = bits_weight b word ?y + (\<Sum>j<n. ?f (word + 1) j)"
    using sum.lessThan_Suc_shift [of "?f word" n] by (simp del: sum.lessThan_Suc)
  have x: "word_at host w word = Inr (ws ! word)" using Suc.prems(1) by (intro readsD(2) [OF assms(1)]) simp
  show ?case
  proof (cases "b = 2")
    case False
    then have step: "prefix_loop host b w bits word (Suc n) result pairs = prefix_loop host b w bits (word + 1) n (add_planes b word ?y result) pairs"
      by (simp add: x Let_def tail_masked_def)
    show ?thesis
      using Suc.IH [of "word + 1" pairs ds k "add_planes b word ?y result"] Suc.prems False
      unfolding step shift add_planes_weight [OF assms(2)] by (simp add: add.assoc)
  next
    case True
    then have step: "prefix_loop host b w bits word (Suc n) result pairs = prefix_loop host b w bits (word + 1) n result (pairs + pair_classes ?y)"
      by (simp add: x Let_def tail_masked_def)
    obtain bs where bs: "rep ?y bs" using rep_exists by blast
    have quad: "\<forall>d\<in>set (map quad_classes bs). d \<le> 12"
    proof -
      have "quad_classes n \<le> 12" if "n < 256" for n
      proof -
        have "n div 64 \<le> 3" "n mod 4 \<le> 3" "n div 4 mod 4 \<le> 3" "n div 16 mod 4 \<le> 3"
          using that by (simp_all add: less_Suc_eq_le [symmetric] div_less_iff_less_mult)
        then show ?thesis unfolding quad_classes_def by linarith
      qed
      then show ?thesis using bs by (auto simp: rep_def list_all_iff)
    qed
    have len: "length ds = 8" "length (map quad_classes bs) = 8" using bs Suc.prems(2) by (simp_all add: rep_def)
    define es where "es = map2 (+) ds (map quad_classes bs)"
    have k: "12 * (k + 1) = 12 * k + 12" by simp
    have es: "\<forall>d\<in>set es. d \<le> 12 * (k + 1)" "sum_list es = sum_list ds + bits_weight b word ?y"
      using sum_map2_bound [OF len Suc.prems(3) quad] quad_weight [OF bs, of word] True unfolding es_def k by simp_all
    have "bytes_ok es" using es(1) Suc.prems(4) by (fastforce simp: list_all_iff)
    then have r: "rep (pairs + pair_classes ?y) es"
      unfolding es_def by (intro rep_add [OF Suc.prems(2) rep_pair_classes [OF bs]]) simp_all
    show ?thesis
      using Suc.IH [OF _ r es(1), of "word + 1" result] Suc.prems(1,4) True es(2) unfolding step shift by (simp add: add.assoc)
  qed
qed auto

lemma class_weight:
  assumes c: "class_words b cs ws" and n: "n \<le> length cs"
  shows "(\<Sum>w<(n * b + 63) div 64. bits_weight b w (tail_masked (n * b) w (ws ! w))) = before_group cs n"
proof -
  let ?f = "\<lambda>k. of_bool (k < n * b \<and> bitpos ws k) * 2 ^ (k mod b)"
  let ?m = "(n * b + 63) div 64"
  have "bits_weight b w (tail_masked (n * b) w (ws ! w)) = (\<Sum>i<64. ?f (64 * w + i))" for w
    unfolding bits_weight_def by (intro sum.cong) (auto simp: tail_masked_bit bitpos_join)
  then have "(\<Sum>w<?m. bits_weight b w (tail_masked (n * b) w (ws ! w))) = (\<Sum>w<?m. \<Sum>i<64. ?f (64 * w + i))" by simp
  also have "\<dots> = (\<Sum>k<?m * 64. ?f k)" by (rule sum_blocks [of ?f])
  also have "\<dots> = (\<Sum>k<n * b. ?f k)"
  proof (rule sum.mono_neutral_right)
    have "n * b \<le> ?m * 64" using div_mult_mod_eq [of "n * b + 63" 64] mod_less_divisor [of 64 "n * b + 63"] by simp
    then show "{..<n * b} \<subseteq> {..<?m * 64}" by auto
  qed auto
  also have "\<dots> = (\<Sum>g<n. \<Sum>j<b. ?f (b * g + j))" by (rule sum_blocks [of ?f, symmetric])
  also have "\<dots> = (\<Sum>g<n. cs ! g)"
  proof (rule sum.cong)
    fix g assume "g \<in> {..<n}"
    then have g: "g < n" "g < length cs" using n by simp_all
    have "(\<Sum>j<b. ?f (b * g + j)) = (\<Sum>j<b. push_bit j (of_bool (bit (cs ! g) j)))"
    proof (rule sum.cong)
      fix j assume "j \<in> {..<b}"
      then have j: "j < b" by simp
      have "Suc g * b \<le> n * b" using g(1) by (intro mult_le_mono1) simp
      then have "b * g + j < n * b" using j by (simp add: mult.commute)
      then show "?f (b * g + j) = push_bit j (of_bool (bit (cs ! g) j))"
        using class_bit(1) [OF c g(2) j] j by (simp add: mult.commute push_bit_eq_mult)
    qed simp
    also have "\<dots> = take_bit b (cs ! g)" unfolding take_bit_sum atLeast0LessThan ..
    also have "\<dots> = cs ! g" using c g(2) by (simp add: class_words_def take_bit_nat_eq_self)
    finally show "(\<Sum>j<b. ?f (b * g + j)) = cs ! g" .
  qed simp
  also have "\<dots> = before_group cs n" using before_group_add [of 0 n cs] n by simp
  finally show ?thesis .
qed

lemma prefix_portable_shows:
  assumes r: "reads host w ws" and c: "class_words b cs ws" and n: "n \<le> length cs" "n * b \<le> 1280"
  shows "prefix_portable host b w n = Inr (before_group cs n)"
proof -
  let ?m = "(n * b + 63) div 64"
  have b: "0 < b" using c by (simp add: class_words_def)
  have "n * b \<le> length cs * b" using n(1) by (rule mult_le_mono1)
  then have "?m \<le> length ws" using c by (simp add: class_words_def div_le_mono)
  moreover have "?m \<le> 20" using n(2) by (intro less_Suc_eq_le [THEN iffD1]) (simp add: div_less_iff_less_mult)
  moreover have "rep 0 (replicate 8 0)" by (simp add: rep_def replicate_8)
  ultimately obtain x p es where p: "prefix_loop host b w (n * b) 0 ?m 0 0 = Inr (x, p)" "rep p es"
    "(if b = 2 then sum_list es else x) = before_group cs n"
    using prefix_loop_holds [OF r b, of 0 ?m 0 "replicate 8 0" 0 "n * b" 0] class_weight [OF c n(1)] by auto
  then show ?thesis using sum_bytes_bytes [OF p(2)] by (auto simp: prefix_portable_def split: if_splits)
qed

section \<open>What a view shows\<close>

definition rg_shows :: "bool \<Rightarrow> nat \<Rightarrow> rank_groups_view \<Rightarrow> nat list \<Rightarrow> bool" where
  "rg_shows host K v cs \<longleftrightarrow> rg_group_ok K \<and> (\<exists>ws ps. reads host (rg_classes v) ws \<and> reads host (rg_checkpoints v) ps \<and>
     class_words (rg_class_bits K) cs ws \<and> checkpoint_words cs ps \<and> counts_ok K (rg_virtual_count v) cs \<and>
     rg_virtual_count v \<le> u64_max)"

lemma rg_showsE:
  assumes "rg_shows host K v cs"
  obtains ws ps where "rg_group_ok K" "reads host (rg_classes v) ws" "reads host (rg_checkpoints v) ps"
    "class_words (rg_class_bits K) cs ws" "checkpoint_words cs ps" "counts_ok K (rg_virtual_count v) cs"
    "rg_virtual_count v \<le> u64_max" "rg_group_count K v = length cs"
  using assms unfolding rg_shows_def by (auto simp: counts_ok_def rg_group_count_def)

lemma split_field:
  assumes c: "class_words b cs ws" and g: "g < length cs"
  defines "w \<equiv> g * b div 64" and "s \<equiv> g * b mod 64"
  shows "w < length ws" "s + b > 64 \<Longrightarrow> w + 1 < length ws"
    "unat ((if s + b > 64 then drop_bit s (ws ! w) OR push_bit (64 - s) (ws ! (w + 1)) else drop_bit s (ws ! w)) AND field_mask b) = cs ! g"
proof -
  have b: "0 < b" "b \<le> 63" and small: "cs ! g < 2 ^ b" using c g by (simp_all add: class_words_def)
  have at: "g * b = 64 * w + s" "s < 64" by (simp_all add: w_def s_def)
  have "64 * w + s < 64 * length ws" using class_bit(2) [OF c g b(1)] at(1) by simp
  then show w: "w < length ws" by simp
  have "64 * w + s + (b - 1) < 64 * length ws" using class_bit(2) [OF c g, of "b - 1"] at(1) b(1) by simp
  then show w1: "s + b > 64 \<Longrightarrow> w + 1 < length ws" using at(2) by simp
  let ?x = "if s + b > 64 then drop_bit s (ws ! w) OR push_bit (64 - s) (ws ! (w + 1)) else drop_bit s (ws ! w)"
  have "?x AND field_mask b = of_nat (cs ! g)"
  proof (rule bit_word_eqI)
    fix j assume "j < LENGTH(64)"
    then have j: "j < 64" by simp
    show "bit (?x AND field_mask b) j = bit (of_nat (cs ! g) :: u64) j"
    proof (cases "j < b")
      case False
      have "take_bit b (cs ! g) = cs ! g" using small by (simp add: take_bit_nat_eq_self)
      then have "\<not> bit (cs ! g) j" using False by (metis bit_take_bit_iff)
      then show ?thesis using False b by (simp add: bit_and_iff bit_of_nat_iff)
    next
      case True
      have t: "bitpos ws (64 * w + s + j) = bit (cs ! g) j" using class_bit(1) [OF c g True] at(1) by simp
      have "bit ?x j = bitpos ws (64 * w + s + j)"
      proof (cases "s + j < 64")
        case True
        then have "bitpos ws (64 * w + s + j) = bit (ws ! w) (s + j)" using bitpos_join [of "s + j" ws w] by (simp add: add.assoc)
        moreover have "\<not> 64 - s \<le> j" using True by simp
        ultimately show ?thesis by (auto simp: bit_or_iff bit_drop_bit_eq bit_push_u64)
      next
        case False
        then have up: "64 * w + s + j = 64 * (w + 1) + (s + j - 64)" "s + j - 64 < 64" "s + b > 64" using at(2) j True by simp_all
        then have "bitpos ws (64 * w + s + j) = bit (ws ! (w + 1)) (s + j - 64)" using bitpos_join by metis
        moreover have "\<not> bit (ws ! w) (s + j)" using False by (auto dest: bit_top)
        moreover have "64 - s \<le> j" "j - (64 - s) = s + j - 64" using False at(2) by simp_all
        ultimately show ?thesis using up(3) j by (simp add: bit_or_iff bit_drop_bit_eq bit_push_u64)
      qed
      then show ?thesis using t True b j by (simp add: bit_and_iff bit_of_nat_iff)
    qed
  qed
  moreover have "cs ! g < 2 ^ 64" using small power_increasing [of b 64 "2 :: nat"] b(2) by linarith
  ultimately show "unat (?x AND field_mask b) = cs ! g" by (simp add: unat_of_nat_u64)
qed

lemma rg_read_class_shows:
  assumes "rg_shows host K v cs" "g < length cs"
  shows "rg_read_class host K v g = Inr (cs ! g)"
proof -
  obtain ws ps where v: "rg_group_ok K" "reads host (rg_classes v) ws" "class_words (rg_class_bits K) cs ws"
    using assms(1) by (rule rg_showsE)
  note f = split_field [OF v(3) assms(2)]
  show ?thesis
    using f(3) readsD(2) [OF v(2) f(1)] readsD(2) [OF v(2) f(2)] unfolding field_mask_K [OF v(1)]
    by (cases "g * rg_class_bits K mod 64 + rg_class_bits K > 64") (simp_all add: rg_read_class_def Let_def)
qed

lemma rg_class_at_shows:
  assumes "rg_shows host K v cs" "g < length cs"
  shows "rg_class_at host K v g = Inr (cs ! g)"
proof -
  have "rg_group_count K v = length cs" using assms(1) by (rule rg_showsE)
  then show ?thesis using rg_read_class_shows [OF assms] assms(2) by (simp add: rg_class_at_def)
qed

lemma class_words_drop:
  assumes c: "class_words b cs ws" and q: "128 * q \<le> length cs"
  shows "class_words b (drop (128 * q) cs) (drop (q * (2 * b)) ws)"
proof -
  have e: "128 * q * b = 64 * (q * (2 * b))" by simp
  have len: "(length cs * b + 63) div 64 - q * (2 * b) = ((length cs - 128 * q) * b + 63) div 64"
  proof -
    have "length cs * b + 63 = (length cs - 128 * q) * b + 63 + q * (2 * b) * 64"
    proof -
      obtain d where d: "length cs = 128 * q + d" using q by (metis le_Suc_ex)
      show ?thesis unfolding d by (simp add: distrib_right)
    qed
    then show ?thesis by simp
  qed
  have bits: "bitpos (drop (q * (2 * b)) ws) k = bitpos ws (128 * q * b + k)" if "k < 64 * length (drop (q * (2 * b)) ws)" for k
  proof -
    have "k div 64 < length ws - q * (2 * b)" using that by (simp add: div_less_iff_less_mult mult.commute)
    then have "drop (q * (2 * b)) ws ! (k div 64) = ws ! (q * (2 * b) + k div 64)" by (intro nth_drop) simp
    moreover have "(64 * i + k) div 64 = i + k div 64" "(64 * i + k) mod 64 = k mod 64" for i by simp_all
    ultimately show ?thesis unfolding e bitpos_def by (simp only:)
  qed
  have "packed b (map of_nat (drop (128 * q) cs)) (drop (q * (2 * b)) ws) (length cs - 128 * q)"
    unfolding packed_def
  proof (intro allI impI)
    fix k assume k: "k < 64 * length (drop (q * (2 * b)) ws)"
    have b: "0 < b" using c by (simp add: class_words_def)
    have "128 * q * b + k < 64 * length ws" using k unfolding e by simp
    then have "bitpos ws (128 * q * b + k) = (128 * q * b + k < length cs * b \<and>
        bit (map of_nat cs ! ((128 * q * b + k) div b) :: u64) ((128 * q * b + k) mod b))"
      using c by (simp add: class_words_def packed_def)
    moreover have "(128 * q * b + k) div b = 128 * q + k div b" "(128 * q * b + k) mod b = k mod b" using b by simp_all
    moreover have "128 * q * b + k < length cs * b \<longleftrightarrow> k < (length cs - 128 * q) * b"
      using mult_le_mono1 [OF q, of b] by (simp add: diff_mult_distrib less_diff_conv add.commute)
    moreover have "map of_nat cs ! (128 * q + k div b) = (map of_nat (drop (128 * q) cs) ! (k div b) :: u64)"
      if "k < (length cs - 128 * q) * b"
    proof -
      have "k div b < length cs - 128 * q" using that b by (simp add: div_less_iff_less_mult)
      then have "128 * q + k div b < length cs" by linarith
      then show ?thesis by simp
    qed
    ultimately show "bitpos (drop (q * (2 * b)) ws) k = (k < (length cs - 128 * q) * b \<and>
        bit (map of_nat (drop (128 * q) cs) ! (k div b) :: u64) (k mod b))"
      unfolding bits [OF k] by auto
  qed
  then show ?thesis using c len by (auto simp: class_words_def dest: in_set_dropD)
qed

lemma subspan_reads:
  assumes r: "reads host w ws" and i: "i \<le> length ws"
  shows "\<exists>w'. subspan w i None = Inr w' \<and> reads host w' (drop i ws)"
proof -
  define w' where "w' = w\<lparr>vbytes := take (8 * (length ws - i)) (drop (8 * i) (vbytes w))\<rparr>"
  have sz: "view_size w = length ws" using readsD(1) [OF r] .
  have l: "8 * length ws \<le> length (vbytes w)" using sz unfolding view_size_def by linarith
  have s: "subspan w i None = Inr w'" using i sz by (simp add: subspan_def w'_def)
  have n: "view_size w' = length ws - i" using l i by (simp add: view_size_def w'_def)
  have "word_at host w' j = Inr (drop i ws ! j)" if "j < length ws - i" for j
  proof -
    have j: "j < view_size w'" "i + j < view_size w" using that n sz by simp_all
    have "8 \<le> 8 * (length ws - i) - 8 * j" using that by simp
    then have "take 8 (drop (8 * j) (vbytes w')) = take 8 (drop (8 * (i + j)) (vbytes w))"
      unfolding w'_def by (simp add: drop_take add.commute distrib_left)
    then have "word_at host w' j = word_at host w (i + j)" using word_at_in [OF j(1)] word_at_in [OF j(2)] by (simp add: w'_def)
    then show ?thesis using readsD(2) [OF r, of "i + j"] that by simp
  qed
  then show ?thesis using s n by (auto simp: reads_def)
qed

lemma rg_rank_shows:
  assumes s: "rg_shows host K v cs" and g: "g < length cs"
  shows "rg_rank host K v g = Inr (before_group cs g)"
proof -
  obtain ws ps where v: "rg_group_ok K" "reads host (rg_classes v) ws" "reads host (rg_checkpoints v) ps"
    "class_words (rg_class_bits K) cs ws" "checkpoint_words cs ps" "counts_ok K (rg_virtual_count v) cs"
    "rg_virtual_count v \<le> u64_max" "rg_group_count K v = length cs"
    using s by (rule rg_showsE)
  let ?n = "rg_virtual_count v" and ?b = "rg_class_bits K"
  define q t where "q = g div 128" and "t = g mod 128"
  have gq: "g = 128 * q + t" "t < 128" by (simp_all add: q_def t_def)
  have K: "0 < K" using v(1) by (simp add: rg_group_ok_def)
  have le: "before_group cs k \<le> ?n" for k using counts_prefix(3) [OF v(6) K] by simp
  have q: "q < (length cs + 127) div 128" using g gq by (intro less_le_trans [OF lessI]) (simp add: less_eq_div_iff_mult_less_eq)
  have small: "before_group cs (128 * q) < 2 ^ 64" using le [of "128 * q"] v(7) by (simp add: u64_max_def)
  have cp: "word_at host (rg_checkpoints v) q = Inr (of_nat (before_group cs (128 * q)))"
    using readsD(2) [OF v(3), of q] v(5) q by (simp add: checkpoint_words_def)
  note un = unat_of_nat_u64 [OF small]
  have add: "rg_add_prefix (before_group cs i) (before_group cs j - before_group cs i) ?n = Inr (before_group cs j)" if "i \<le> j" for i j
    using before_group_mono [OF that, of cs] le [of i] le [of j] by (auto simp: rg_add_prefix_def)
  have base: "128 * q \<le> g" using gq by simp
  show ?thesis
  proof (cases "K = 3 \<or> K = 7 \<or> K = 31")
    case True
    show ?thesis
    proof (cases "t = 0")
      case True
      then have "128 * q = g" using gq by simp
      then show ?thesis
        using add [of g g] \<open>K = 3 \<or> K = 7 \<or> K = 31\<close> True g v(8) cp un
        by (simp add: rg_rank_def Let_def flip: q_def t_def)
    next
      case False
      have b: "?b \<le> 5" using rg_bits(1) [OF v(1)] True power_increasing [of 6 ?b "2 :: nat"] by (cases "?b \<le> 5") auto
      have "128 * q \<le> length cs" using base g by simp
      from class_words_drop [OF v(4) this] have dc: "class_words ?b (drop (128 * q) cs) (drop (q * (2 * ?b)) ws)" .
      have "q * (2 * ?b) \<le> length ws"
      proof -
        have "128 * q * ?b \<le> length cs * ?b" using \<open>128 * q \<le> length cs\<close> by (rule mult_le_mono1)
        moreover have "q * (2 * ?b) * 64 = 128 * q * ?b" by simp
        ultimately have "q * (2 * ?b) * 64 \<le> length cs * ?b + 63" by linarith
        then show ?thesis using v(4) by (simp add: class_words_def less_eq_div_iff_mult_less_eq)
      qed
      then obtain w' where w': "subspan (rg_classes v) (q * (2 * ?b)) None = Inr w'" "reads host w' (drop (q * (2 * ?b)) ws)"
        using subspan_reads [OF v(2)] by blast
      have "t * ?b \<le> 128 * 5" using gq(2) b by (intro mult_le_mono) simp_all
      then have "prefix_portable host ?b w' t = Inr (before_group (drop (128 * q) cs) t)"
        using g gq by (intro prefix_portable_shows [OF w'(2) dc]) simp_all
      moreover have "before_group (drop (128 * q) cs) t = before_group cs g - before_group cs (128 * q)"
        using before_group_add [of "128 * q" t cs] before_group_add [of 0 t "drop (128 * q) cs"] g gq by simp
      ultimately show ?thesis
        using add [OF base] True False g v(8) cp un w'(1)
        by (simp add: rg_rank_def Let_def flip: q_def t_def)
    qed
  next
    case False
    have loop: "i + n \<le> length cs \<Longrightarrow> class_loop host K v ?n i n (before_group cs i) = Inr (before_group cs (i + n))" for i n
    proof (induction n arbitrary: i)
      case (Suc n)
      then have "class_loop host K v ?n (i + 1) n (before_group cs (i + 1)) = Inr (before_group cs (i + 1 + n))" by simp
      then show ?case
        using rg_read_class_shows [OF s, of i] add [of i "i + 1"] before_group_Suc [of i cs] Suc.prems by simp
    qed simp
    have "g - t = 128 * q" using gq by simp
    then show ?thesis
      using False loop [of "128 * q" t] add [of g g] g gq v(8) cp un
      by (simp add: rg_rank_def Let_def flip: q_def t_def)
  qed
qed

lemma rg_count_shows:
  assumes s: "rg_shows host K v cs"
  shows "rg_count host K v = Inr (sum_list cs)"
proof -
  obtain ws ps where v: "rg_group_ok K" "counts_ok K (rg_virtual_count v) cs" "rg_group_count K v = length cs"
    using s by (rule rg_showsE)
  have K: "0 < K" using v(1) by (simp add: rg_group_ok_def)
  show ?thesis
  proof (cases cs rule: rev_cases)
    case Nil
    then show ?thesis using v(3) by (simp add: rg_count_def)
  next
    case (snoc xs x)
    have g: "length xs < length cs" using snoc by simp
    have "x \<le> rg_virtual_count v - length xs * K" using counts_prefix(5) [OF v(2) K] snoc by simp
    moreover have "sum_list xs + x \<le> rg_virtual_count v"
      using counts_prefix(2) [OF v(2) K g] snoc by (simp add: before_group_def)
    ultimately show ?thesis
      using rg_class_at_shows [OF s g] rg_rank_shows [OF s g] v(3) snoc
      by (simp add: rg_count_def rg_add_prefix_def before_group_def)
  qed
qed

section \<open>What every directory promises\<close>

locale rank_directory =
  fixes shows_counts :: "'v \<Rightarrow> nat list \<Rightarrow> bool"
    and class_of :: "'v \<Rightarrow> nat \<Rightarrow> nat res" and rank_of :: "'v \<Rightarrow> nat \<Rightarrow> nat res" and count_all :: "'v \<Rightarrow> nat res"
  assumes class_law: "shows_counts v cs \<Longrightarrow> g < length cs \<Longrightarrow> class_of v g = Inr (cs ! g)"
    and rank_law: "shows_counts v cs \<Longrightarrow> g < length cs \<Longrightarrow> rank_of v g = Inr (before_group cs g)"
    and past_law: "shows_counts v cs \<Longrightarrow> \<not> g < length cs \<Longrightarrow> \<exists>m. rank_of v g = Inl (Out_of_range m)"
    and count_law: "shows_counts v cs \<Longrightarrow> count_all v = Inr (sum_list cs)"
begin

lemma answers:
  "shows_counts v cs \<Longrightarrow> (\<forall>g<length cs. class_of v g = Inr (cs ! g) \<and> rank_of v g = Inr (sum_list (take g cs))) \<and>
    (\<forall>g\<ge>length cs. \<exists>m. rank_of v g = Inl (Out_of_range m)) \<and> count_all v = Inr (sum_list cs)"
  using class_law rank_law past_law count_law by (simp add: before_group_def)

lemma rank_steps:
  "shows_counts v cs \<Longrightarrow> Suc g < length cs \<Longrightarrow>
    \<exists>r c. rank_of v g = Inr r \<and> class_of v g = Inr c \<and> rank_of v (Suc g) = Inr (r + c)"
  using rank_law [of v cs g] rank_law [of v cs "Suc g"] class_law [of v cs g] before_group_Suc [of g cs] by simp

lemma shows_one: "shows_counts v cs \<Longrightarrow> shows_counts v ds \<Longrightarrow> cs = ds"
proof (rule nth_equalityI)
  assume s: "shows_counts v cs" "shows_counts v ds"
  have "g < length cs \<longleftrightarrow> g < length ds" for g using rank_law [OF s(1)] rank_law [OF s(2)] past_law [OF s(1)] past_law [OF s(2)] by force
  then show l: "length cs = length ds" by (metis less_irrefl nat_neq_iff)
  show "g < length cs \<Longrightarrow> cs ! g = ds ! g" for g using class_law [OF s(1), of g] class_law [OF s(2), of g] l by simp
qed

end

interpretation fifteen: rank_directory "r15_shows host" "r15_class_at host" "r15_rank host" "r15_count host"
proof unfold_locales
  show "r15_shows host v cs \<Longrightarrow> \<not> g < length cs \<Longrightarrow> \<exists>m. r15_rank host v g = Inl (Out_of_range m)" for v cs g
    by (auto simp: r15_shows_def r15_rank_def)
qed (simp_all add: r15_class_at_shows r15_rank_shows r15_count_shows)

lemma rg_rank_past: "rg_shows host K v cs \<Longrightarrow> \<not> g < length cs \<Longrightarrow> \<exists>m. rg_rank host K v g = Inl (Out_of_range m)"
  by (erule rg_showsE) (simp add: rg_rank_def)

interpretation groups: rank_directory "rg_shows host K" "rg_class_at host K" "rg_rank host K" "rg_count host K"
  by unfold_locales (simp_all add: rg_class_at_shows rg_rank_shows rg_count_shows rg_rank_past)

fun view_shows :: "bool \<Rightarrow> nat \<Rightarrow> any_rank_view \<Rightarrow> nat list \<Rightarrow> bool" where
  "view_shows host K (Groups_view v) cs = rg_shows host K v cs"
| "view_shows host K (Fifteen_view v) cs = r15_shows host v cs"

interpretation any_view: rank_directory "view_shows host K" "view_class_at host K" "view_rank host K" "view_count host K"
proof unfold_locales
  fix v cs g assume s: "view_shows host K v cs"
  show "g < length cs \<Longrightarrow> view_class_at host K v g = Inr (cs ! g)" using s by (cases v) (simp_all add: fifteen.class_law groups.class_law)
  show "g < length cs \<Longrightarrow> view_rank host K v g = Inr (before_group cs g)" using s by (cases v) (simp_all add: fifteen.rank_law groups.rank_law)
  show "\<not> g < length cs \<Longrightarrow> \<exists>m. view_rank host K v g = Inl (Out_of_range m)"
    using s by (cases v) (simp_all add: fifteen.past_law groups.past_law)
  show "view_count host K v = Inr (sum_list cs)" using s by (cases v) (simp_all add: fifteen.count_law groups.count_law)
qed

section \<open>The batch builder\<close>

definition built_groups :: "nat \<Rightarrow> nat list \<Rightarrow> rank_groups \<Rightarrow> bool" where
  "built_groups K cs r \<longleftrightarrow> class_words (rg_class_bits K) cs (rg_class_words r) \<and> checkpoint_words cs (rg_checkpoint_words r)"

lemma class_words_unique: "class_words b cs ws \<Longrightarrow> class_words b cs ws' \<Longrightarrow> ws = ws'"
proof (rule nth_equalityI)
  assume c: "class_words b cs ws" "class_words b cs ws'"
  show l: "length ws = length ws'" using c by (simp add: class_words_def)
  fix i assume i: "i < length ws"
  show "ws ! i = ws' ! i"
  proof (rule bit_word_eqI)
    fix j assume "j < LENGTH(64)"
    then have j: "j < 64" by simp
    then have "64 * i + j < 64 * length ws" "64 * i + j < 64 * length ws'" using i l by simp_all
    then have "bitpos ws (64 * i + j) = bitpos ws' (64 * i + j)" using c unfolding class_words_def packed_def by simp
    then show "bit (ws ! i) j = bit (ws' ! i) j" using j by (simp add: bitpos_join)
  qed
qed

lemma built_unique: "built_groups K cs r \<Longrightarrow> built_groups K cs r' \<Longrightarrow> rg_count_of r = rg_count_of r' \<Longrightarrow> r = r'"
  unfolding built_groups_def checkpoint_words_def using class_words_unique by (cases r; cases r') fastforce

lemma rg_fill_correct:
  fixes cs :: "nat list"
  assumes K: "rg_group_ok K"
  shows "i = length cs \<Longrightarrow> acc = of_nat (sum_list cs) \<Longrightarrow> packed (rg_class_bits K) (map of_nat cs) (rg_class_words r) i \<Longrightarrow>
    checkpoint_words cs (rg_checkpoint_words r) \<Longrightarrow> (i + length xs) * rg_class_bits K \<le> 64 * length (rg_class_words r) \<Longrightarrow>
    if \<forall>j<length xs. unat (xs ! j) \<le> group_limit K n (i + j)
    then \<exists>ws ps. rg_fill K n xs i acc r = Inr (r\<lparr>rg_class_words := ws, rg_checkpoint_words := ps\<rparr>) \<and>
      length ws = length (rg_class_words r) \<and> packed (rg_class_bits K) (map of_nat (cs @ map unat xs)) ws (i + length xs) \<and>
      checkpoint_words (cs @ map unat xs) ps
    else rg_fill K n xs i acc r = Inl (Invalid_argument ''rank groups population'')"
proof (induction xs arbitrary: i acc r cs)
  case Nil
  then show ?case by simp (rule exI [of _ "rg_class_words r"], rule exI [of _ "rg_checkpoint_words r"], simp)
next
  case (Cons x xs)
  let ?b = "rg_class_bits K"
  have all: "(\<forall>j<length (x # xs). unat ((x # xs) ! j) \<le> group_limit K n (i + j)) \<longleftrightarrow>
      unat x \<le> group_limit K n i \<and> (\<forall>j<length xs. unat (xs ! j) \<le> group_limit K n (i + 1 + j))"
    by (auto simp: less_Suc_eq_0_disj)
  show ?case
  proof (cases "unat x \<le> group_limit K n i")
    case False
    then show ?thesis unfolding all by simp
  next
    case True
    have b: "0 < ?b" "?b \<le> 63" "0 < K" using rg_bits(2,3) [OF K] K by (simp_all add: rg_group_ok_def)
    have small: "unat x < 2 ^ ?b" using True group_limit_le [OF b(3), of n i] rg_bits(4) [OF K] by simp
    define r' where "r' = (if i mod 128 = 0 then r\<lparr>rg_checkpoint_words := rg_checkpoint_words r @ [acc]\<rparr> else r)"
    have cp: "checkpoint_words (cs @ [unat x]) (rg_checkpoint_words r')" "rg_class_words r' = rg_class_words r"
      using checkpoint_snoc [OF Cons.prems(4), of "unat x"] Cons.prems(1,2) by (simp_all add: r'_def split: if_splits)
    have fits: "(length cs + 1) * ?b \<le> 64 * length (rg_class_words r)" using Cons.prems(1,5) by (simp add: distrib_right)
    obtain ws where ws: "or_field ?b x (rg_class_words r) (i * ?b) = Inr ws" "length ws = length (rg_class_words r)"
      "packed ?b (map of_nat (cs @ [unat x])) ws (i + 1)"
      using or_class [OF b(1,2) _ small fits] Cons.prems(1,3) by auto
    let ?r = "r'\<lparr>rg_class_words := ws\<rparr>"
    have step: "rg_fill K n (x # xs) i acc r = rg_fill K n xs (i + 1) (acc + x) ?r"
      using True ws(1) cp(2) by (simp add: Let_def flip: r'_def)
    have up: "r'\<lparr>rg_class_words := ws, rg_checkpoint_words := ps\<rparr> = r\<lparr>rg_class_words := ws, rg_checkpoint_words := ps\<rparr>" for ws ps
      by (simp add: r'_def)
    have "if \<forall>j<length xs. unat (xs ! j) \<le> group_limit K n (i + 1 + j)
      then \<exists>ws' ps. rg_fill K n xs (i + 1) (acc + x) ?r = Inr (?r\<lparr>rg_class_words := ws', rg_checkpoint_words := ps\<rparr>) \<and>
        length ws' = length (rg_class_words ?r) \<and> packed ?b (map of_nat ((cs @ [unat x]) @ map unat xs)) ws' (i + 1 + length xs) \<and>
        checkpoint_words ((cs @ [unat x]) @ map unat xs) ps
      else rg_fill K n xs (i + 1) (acc + x) ?r = Inl (Invalid_argument ''rank groups population'')"
      using Cons.prems(1,2,5) ws cp by (intro Cons.IH) simp_all
    then show ?thesis unfolding all step using True ws(2) up by (simp split: if_splits) blast
  qed
qed

lemma rg_extent_fits:
  assumes K: "rg_group_ok K" and n: "n \<le> u64_max"
  shows "groups_of K n \<le> (u64_max - 63) div rg_class_bits K"
proof -
  let ?b = "rg_class_bits K"
  have b: "2 \<le> ?b" "?b \<le> 63" "K + 1 = 2 ^ ?b" using rg_bits [OF K] by simp_all
  have small: "3 * b \<le> 2 * (2 ^ b - 1 :: nat)" if "2 \<le> b" for b
    using that by (induction b rule: nat_induct_at_least) auto
  have "K = 2 ^ ?b - 1" using b(3) by simp
  then have "3 * ?b \<le> 2 * K" using small [OF b(1)] by simp
  then have "n div K * (3 * ?b) \<le> n div K * (2 * K)" by (rule mult_le_mono2)
  moreover have "n div K * K \<le> n" by simp
  moreover have "n div K * (3 * ?b) = 3 * (n div K * ?b)" "n div K * (2 * K) = 2 * (n div K * K)" by (simp_all only: ac_simps)
  ultimately have "3 * (n div K * ?b) \<le> 2 * n" by linarith
  moreover have "groups_of K n * ?b \<le> n div K * ?b + 63" unfolding groups_of_def using b(2) by (simp add: distrib_right)
  ultimately have "groups_of K n * ?b \<le> u64_max - 63" using n by (simp add: u64_max_def)
  then show ?thesis using b(1) by (simp add: less_eq_div_iff_mult_less_eq)
qed

lemma rg_build_decides:
  assumes K: "rg_group_ok K" and n: "n \<le> u64_max"
  shows "if counts_ok K n (map unat xs)
   then \<exists>r. rg_build K xs n = Inr r \<and> built_groups K (map unat xs) r \<and> rg_count_of r = n
   else \<exists>m. rg_build K xs n = Inl (Invalid_argument m)"
proof (cases "length xs = groups_of K n")
  case False
  then show ?thesis by (simp add: counts_ok_def rg_build_def)
next
  case True
  let ?b = "rg_class_bits K"
  define r where "r = \<lparr>rg_class_words = replicate ((groups_of K n * ?b + 63) div 64) (0 :: u64), rg_checkpoint_words = [], rg_count_of = n\<rparr>"
  have l: "length (rg_class_words r) = (length xs * ?b + 63) div 64" using True by (simp add: r_def)
  have fits: "(0 + length xs) * ?b \<le> 64 * length (rg_class_words r)"
    unfolding l using div_mult_mod_eq [of "length xs * ?b + 63" 64] mod_less_divisor [of 64 "length xs * ?b + 63"] by simp
  have run: "rg_build K xs n = rg_fill K n xs 0 0 r" using True rg_extent_fits [OF K n] by (simp add: rg_build_def Let_def r_def)
  have ok: "counts_ok K n (map unat xs) \<longleftrightarrow> (\<forall>j<length xs. unat (xs ! j) \<le> group_limit K n (0 + j))"
    using True by (simp add: counts_ok_def)
  have fill: "if \<forall>j<length xs. unat (xs ! j) \<le> group_limit K n (0 + j)
    then \<exists>ws ps. rg_fill K n xs 0 0 r = Inr (r\<lparr>rg_class_words := ws, rg_checkpoint_words := ps\<rparr>) \<and>
      length ws = length (rg_class_words r) \<and> packed ?b (map of_nat ([] @ map unat xs)) ws (0 + length xs) \<and>
      checkpoint_words ([] @ map unat xs) ps
    else rg_fill K n xs 0 0 r = Inl (Invalid_argument ''rank groups population'')"
    using fits by (intro rg_fill_correct [OF K]) (simp_all add: r_def packed_zero checkpoint_nil)
  show ?thesis
  proof (cases "counts_ok K n (map unat xs)")
    case False
    then show ?thesis using fill unfolding ok run by (simp split: if_splits)
  next
    case True
    then obtain ws ps where w: "rg_fill K n xs 0 0 r = Inr (r\<lparr>rg_class_words := ws, rg_checkpoint_words := ps\<rparr>)"
      "length ws = length (rg_class_words r)" "packed ?b (map of_nat (map unat xs)) ws (length xs)" "checkpoint_words (map unat xs) ps"
      using fill unfolding ok by (simp split: if_splits) blast
    have "\<forall>c\<in>set (map unat xs). c < 2 ^ ?b"
    proof
      fix c assume "c \<in> set (map unat xs)"
      then obtain j where j: "j < length xs" "c = unat (xs ! j)" by (auto simp: in_set_conv_nth)
      then have "c \<le> group_limit K n j" using True by (simp add: ok)
      also have "\<dots> \<le> K" using K by (intro group_limit_le) (simp add: rg_group_ok_def)
      finally show "c < 2 ^ ?b" using rg_bits(4) [OF K] by simp
    qed
    then have "class_words ?b (map unat xs) ws" using w(2,3) l rg_bits(2,3) [OF K] by (simp add: class_words_def)
    then show ?thesis using True w(1,4) unfolding run by (simp add: r_def built_groups_def)
  qed
qed

lemma rg_view_shows:
  assumes b: "built_groups K cs r" and ok: "counts_ok K (rg_count_of r) cs" "rg_count_of r \<le> u64_max" and K: "rg_group_ok K"
  shows "\<exists>v. rg_view host K r = Inr v \<and> view_shows host K v cs"
proof (cases "K = 15")
  case True
  have "2 ^ rg_class_bits K = (2 :: nat) ^ 4" using rg_bits(1) [OF K] True by simp
  then have four: "rg_class_bits K = 4" by (simp only: power_inject_exp one_less_numeral_iff num.simps semiring_norm)
  have "\<exists>v. r15_view host \<lparr>r15_class_words = rg_class_words r, r15_checkpoint_words = rg_checkpoint_words r, r15_count_of = rg_count_of r\<rparr> = Inr v \<and>
      r15_shows host v cs"
    using r15_view_shows [of cs "\<lparr>r15_class_words = rg_class_words r, r15_checkpoint_words = rg_checkpoint_words r, r15_count_of = rg_count_of r\<rparr>" host]
      b ok True four by (auto simp: built_groups_def)
  then show ?thesis using True by (auto simp: rg_view_def r15_view_def Let_def)
next
  case False
  have rd: "reads host (native_words host ws) ws" for ws by (simp add: native_words_section reads_section)
  have sz: "view_size (native_words host ws) = length ws" for ws using rd readsD(1) by blast
  have g: "length cs = groups_of K (rg_count_of r)" using ok(1) by (simp add: counts_ok_def)
  have "\<not> groups_of K (rg_count_of r) > (u64_max - 63) div rg_class_bits K" using rg_extent_fits [OF K ok(2)] by simp
  moreover have "length (rg_class_words r) = (length cs * rg_class_bits K + 63) div 64"
    "length (rg_checkpoint_words r) = (length cs + 127) div 128"
    using b by (simp_all add: built_groups_def class_words_def checkpoint_words_def)
  ultimately show ?thesis
    using False b ok K rd g by (auto simp: rg_view_def Let_def new_rank_groups_view_def sz rg_shows_def built_groups_def)
qed

section \<open>The incremental builder\<close>

definition gb_inv :: "nat \<Rightarrow> rank_groups_builder \<Rightarrow> nat list \<Rightarrow> bool" where
  "gb_inv K s cs \<longleftrightarrow> built_groups K cs (gb_data s) \<and> gb_groups s = length cs \<and> gb_population s = of_nat (sum_list cs) \<and>
     counts_ok K (rg_count_of (gb_data s)) cs \<and> rg_count_of (gb_data s) \<le> u64_max \<and>
     (\<not> gb_partial s \<longrightarrow> rg_count_of (gb_data s) = length cs * K)"

lemma gb_inv_new: "rg_group_ok K \<Longrightarrow> gb_inv K new_builder []"
  using rg_bits(2,3) [of K]
  by (simp add: gb_inv_def new_builder_def built_groups_def class_words_def packed_def checkpoint_nil counts_ok_def groups_of_def)

lemma counts_ok_snoc:
  assumes K: "0 < K" and c: "counts_ok K (length cs * K) cs" and w: "0 < w" "w \<le> K" "c \<le> w"
  shows "counts_ok K (length cs * K + w) (cs @ [c])"
proof -
  let ?m = "length cs"
  have g: "groups_of K (?m * K + w) = ?m + 1" "(?m * K + w) mod K = (if w = K then 0 else w)"
    using K w(1,2) by (cases "w = K"; simp add: groups_of_def)+
  have old: "cs ! i \<le> K" if "i < ?m" for i
    using c that group_limit_le [OF K, of "?m * K" i] by (fastforce simp: counts_ok_def)
  have "w mod K = (if w = K then 0 else w)" using w(2) by auto
  then show ?thesis using w old g(1) by (cases "w = K") (auto simp: counts_ok_def group_limit_def nth_append less_Suc_eq)
qed

lemma gb_append_accepts:
  assumes K: "rg_group_ok K" and inv: "gb_inv K s cs" and ok: "fst (gb_append K x w s) = Inr ()"
  shows "gb_inv K (snd (gb_append K x w s)) (cs @ [unat x])" "w \<le> K" "\<not> gb_partial s" "\<not> gb_finished s"
    "rg_count_of (gb_data (snd (gb_append K x w s))) = rg_count_of (gb_data s) + w"
    "gb_partial (snd (gb_append K x w s)) = (w \<noteq> K)" "gb_finished (snd (gb_append K x w s)) = gb_finished s"
proof -
  let ?b = "rg_class_bits K" and ?d = "gb_data s"
  have g: "\<not> gb_finished s" "\<not> gb_partial s" "w \<noteq> 0" "w \<le> K" "unat x \<le> w" "w \<le> u64_max - rg_count_of ?d"
    using ok by (auto simp: gb_append_def Let_def split: if_splits)
  have i: "class_words ?b cs (rg_class_words ?d)" "checkpoint_words cs (rg_checkpoint_words ?d)" "gb_groups s = length cs"
    "gb_population s = of_nat (sum_list cs)" "rg_count_of ?d = length cs * K" "counts_ok K (rg_count_of ?d) cs" "rg_count_of ?d \<le> u64_max"
    using inv g(2) by (auto simp: gb_inv_def built_groups_def)
  have b: "0 < ?b" "?b \<le> 63" using rg_bits(2,3) [OF K] by simp_all
  have small: "unat x < 2 ^ ?b" using g(4,5) rg_bits(4) [OF K] by simp
  let ?words = "((length cs + 1) * ?b + 63) div 64"
  let ?grown = "rg_class_words ?d @ replicate (?words - length (rg_class_words ?d)) 0"
  let ?points = "if length cs mod 128 = 0 then rg_checkpoint_words ?d @ [gb_population s] else rg_checkpoint_words ?d"
  have up: "m * b \<le> 64 * ((m * b + 63) div 64)" for m b :: nat
    using div_mult_mod_eq [of "m * b + 63" 64] mod_less_divisor [of 64 "m * b + 63"] by simp
  have len: "length (rg_class_words ?d) = (length cs * ?b + 63) div 64" using i(1) by (simp add: class_words_def)
  have "length (rg_class_words ?d) \<le> ?words" unfolding len by (intro div_le_mono) simp
  then have lg: "length ?grown = ?words" by simp
  have "packed ?b (map of_nat cs) ?grown (length cs)"
    using i(1) up [of "length cs" ?b] len by (intro packed_grow) (simp_all add: class_words_def)
  moreover have "(length cs + 1) * ?b \<le> 64 * length ?grown" unfolding lg by (rule up)
  ultimately obtain ws where ws: "or_field ?b x ?grown (length cs * ?b) = Inr ws" "length ws = ?words"
    "packed ?b (map of_nat (cs @ [unat x])) ws (length cs + 1)"
    using or_class [OF b _ small, of cs ?grown] lg by auto
  have run: "gb_append K x w s = (if gb_groups s \<ge> (u64_max - 63) div ?b then (Inl (Length_error ''incremental rank groups are too large''), s)
      else (Inr (), s\<lparr>gb_data := \<lparr>rg_class_words = ws, rg_checkpoint_words = ?points, rg_count_of = rg_count_of ?d + w\<rparr>,
        gb_population := gb_population s + x, gb_groups := length cs + 1, gb_partial := (w \<noteq> K)\<rparr>))"
    using g ws(1) i(3) by (simp add: gb_append_def Let_def not_less)
  then have run: "gb_append K x w s = (Inr (), s\<lparr>gb_data := \<lparr>rg_class_words = ws, rg_checkpoint_words = ?points, rg_count_of = rg_count_of ?d + w\<rparr>,
        gb_population := gb_population s + x, gb_groups := length cs + 1, gb_partial := (w \<noteq> K)\<rparr>)"
    using ok by (auto split: if_splits)
  have "\<forall>c\<in>set (cs @ [unat x]). c < 2 ^ ?b" using i(1) small by (auto simp: class_words_def)
  then have "class_words ?b (cs @ [unat x]) ws" using ws(2,3) b by (simp add: class_words_def)
  moreover have "checkpoint_words (cs @ [unat x]) ?points" using checkpoint_snoc [OF i(2), of "unat x"] unfolding i(4) .
  moreover have "counts_ok K (length cs * K + w) (cs @ [unat x])"
    using K g(3,4,5) i(6) [unfolded i(5)] by (intro counts_ok_snoc) (simp_all add: rg_group_ok_def)
  ultimately show "gb_inv K (snd (gb_append K x w s)) (cs @ [unat x])"
    unfolding run using g(6) i(4,5,7) by (auto simp: gb_inv_def built_groups_def)
  show "w \<le> K" "\<not> gb_partial s" "\<not> gb_finished s" using g by simp_all
  show "rg_count_of (gb_data (snd (gb_append K x w s))) = rg_count_of (gb_data s) + w"
    "gb_partial (snd (gb_append K x w s)) = (w \<noteq> K)" "gb_finished (snd (gb_append K x w s)) = gb_finished s" unfolding run by simp_all
qed

lemma gb_append_rejects: "fst (gb_append K x w s) = Inl e \<Longrightarrow> snd (gb_append K x w s) = s"
  by (auto simp: gb_append_def Let_def split: if_splits sum.splits)

text \<open>A run of appends, some of which may be refused, and the ones it accepts.\<close>

fun gb_run :: "nat \<Rightarrow> (u64 \<times> nat) list \<Rightarrow> rank_groups_builder \<Rightarrow> (u64 \<times> nat) list \<times> rank_groups_builder" where
  "gb_run K [] s = ([], s)"
| "gb_run K ((x, w) # ops) s =
     (let (r, s') = gb_append K x w s; (rest, t) = gb_run K ops s' in (if r = Inr () then (x, w) # rest else rest, t))"

lemma gb_run_holds:
  assumes "rg_group_ok K"
  shows "gb_inv K s cs \<Longrightarrow> gb_run K ops s = (done_ops, t) \<Longrightarrow>
    gb_inv K t (cs @ map (unat \<circ> fst) done_ops) \<and> rg_count_of (gb_data t) = rg_count_of (gb_data s) + sum_list (map snd done_ops) \<and>
    gb_finished t = gb_finished s"
proof (induction ops arbitrary: s cs done_ops)
  case (Cons op ops)
  obtain x w where op: "op = (x, w)" by (cases op)
  obtain r s' where a: "gb_append K x w s = (r, s')" by (cases "gb_append K x w s")
  obtain rest t' where rest: "gb_run K ops s' = (rest, t')" by (cases "gb_run K ops s'")
  have t: "done_ops = (if r = Inr () then (x, w) # rest else rest)" "t' = t" using Cons.prems(2) by (simp_all add: op a rest)
  show ?case
  proof (cases r)
    case (Inl e)
    then have "s' = s" using gb_append_rejects [of K x w s e] a by simp
    then show ?thesis using Cons.IH [OF Cons.prems(1), of rest] rest t Inl by simp
  next
    case (Inr u)
    then have ok: "fst (gb_append K x w s) = Inr ()" using a by simp
    note acc = gb_append_accepts [OF assms Cons.prems(1) ok]
    show ?thesis using Cons.IH [of s' "cs @ [unat x]" rest] acc(1,5,7) a rest t Inr by simp
  qed
qed simp

text \<open>
  C36. Populations that fit their groups build a directory for every group size of the templates,
  and through the view of it, whichever layout the template selects, every class reads back and
  rank is the sum of the populations in front of a group; there is no rank past the last group.
\<close>

theorem rank_groups_counts:
  assumes "rg_group_ok K" "n \<le> u64_max" "counts_ok K n (map unat xs)"
  shows "\<exists>r v. rg_build K xs n = Inr r \<and> rg_view host K r = Inr v \<and>
    (\<forall>g<length xs. view_class_at host K v g = Inr (unat (xs ! g)) \<and> view_rank host K v g = Inr (sum_list (take g (map unat xs)))) \<and>
    (\<forall>g\<ge>length xs. \<exists>m. view_rank host K v g = Inl (Out_of_range m)) \<and> view_count host K v = Inr (sum_list (map unat xs))"
proof -
  obtain r where r: "rg_build K xs n = Inr r" "built_groups K (map unat xs) r" "rg_count_of r = n"
    using rg_build_decides [OF assms(1,2), of xs] assms(3) by auto
  obtain v where v: "rg_view host K r = Inr v" "view_shows host K v (map unat xs)"
    using rg_view_shows [OF r(2)] r(3) assms by blast
  show ?thesis using r(1) v(1) any_view.answers [OF v(2)] by auto
qed

theorem rank_groups_counts_witness:
  "\<exists>r v. rg_build 7 [3, 7, 2] 17 = Inr r \<and> rg_view True 7 r = Inr v \<and> view_rank True 7 v 2 = Inr 10 \<and> view_count True 7 v = Inr 12"
proof -
  have three: "(\<forall>g<3. P g) \<longleftrightarrow> P 0 \<and> P 1 \<and> P (2 :: nat)" for P by (auto simp: numeral_eq_Suc less_Suc_eq)
  have l: "length (map unat [3 :: u64, 7, 2]) = 3" by simp
  have "counts_ok 7 17 (map unat [3 :: u64, 7, 2])"
    unfolding counts_ok_def l three by (simp add: groups_of_def group_limit_def)
  moreover have "has_single_bit 8" by (simp add: has_single_bit_def bit_width_eqI [of 3 8])
  then have "rg_group_ok 7" by (simp add: rg_group_ok_def u64_max_def)
  ultimately obtain r v where "rg_build 7 [3, 7, 2] 17 = Inr r" "rg_view True 7 r = Inr v" "view_count True 7 v = Inr 12"
    "\<forall>g<3. view_rank True 7 v g = Inr (sum_list (take g [3, 7, 2]))"
    using rank_groups_counts [of 7 17 "[3, 7, 2]" True] by (auto simp: u64_max_def)
  then show ?thesis by (intro exI [of _ r] exI [of _ v]) (simp add: three)
qed

text \<open>
  C37. The incremental builder agrees with the batch builder: whatever appends are tried, refused
  ones included, finishing yields exactly the directory the batch builder makes of the accepted
  populations and the sum of their widths, and the finished builder refuses to go on.
\<close>

theorem groups_builder_equals_batch:
  assumes "rg_group_ok K" "gb_run K ops new_builder = (ok, s)"
  shows "\<exists>r t. gb_finish s = (Inr r, t) \<and> rg_build K (map fst ok) (sum_list (map snd ok)) = Inr r \<and>
    (\<exists>m. fst (gb_finish t) = Inl (Logic_error m)) \<and> (\<exists>m. \<forall>x w. gb_append K x w t = (Inl (Logic_error m), t))"
proof -
  have e: "map unat (map fst ok) = map (unat \<circ> fst) ok" by simp
  have h: "gb_inv K s (map (unat \<circ> fst) ok)" "rg_count_of (gb_data s) = sum_list (map snd ok)" "\<not> gb_finished s"
    using gb_run_holds [OF assms(1) gb_inv_new [OF assms(1)] assms(2)] by (simp_all add: new_builder_def)
  have n: "sum_list (map snd ok) \<le> u64_max" "counts_ok K (sum_list (map snd ok)) (map unat (map fst ok))"
    "built_groups K (map unat (map fst ok)) (gb_data s)" using h(1,2) unfolding gb_inv_def e by simp_all
  obtain r where r: "rg_build K (map fst ok) (sum_list (map snd ok)) = Inr r" "built_groups K (map unat (map fst ok)) r"
    "rg_count_of r = sum_list (map snd ok)"
    using rg_build_decides [OF assms(1) n(1), of "map fst ok"] n(2) by auto
  have "gb_data s = r" using built_unique [OF n(3) r(2)] h(2) r(3) by simp
  then show ?thesis using r(1) h(3) by (auto simp: gb_finish_def gb_append_def)
qed

theorem groups_builder_equals_batch_witness:
  "\<exists>r t. gb_finish (snd (gb_run 3 [(2, 3), (4, 3), (1, 2), (1, 3)] new_builder)) = (Inr r, t) \<and>
    rg_build 3 (map fst (fst (gb_run 3 [(2, 3), (4, 3), (1, 2), (1, 3)] new_builder)))
      (sum_list (map snd (fst (gb_run 3 [(2, 3), (4, 3), (1, 2), (1, 3)] new_builder)))) = Inr r"
proof -
  have "has_single_bit 4" by (simp add: has_single_bit_def bit_width_eqI [of 2 4])
  then have "rg_group_ok 3" by (simp add: rg_group_ok_def u64_max_def)
  from groups_builder_equals_batch [OF this prod.collapse [symmetric]] show ?thesis by blast
qed

end
