(* ===== verification/Rank.thy ===== *)
theory Rank
  imports RankGroups
begin

text \<open>
  Rank over a bitmap (\<open>rank.h\<close>, scalar target): one 64-bit count for every \<open>2 ^ 32\<close> bits, a 64-bit
  block with a relative count and three run populations for every 2048 bits, and the words.
\<close>

section \<open>Populations of short runs\<close>

type_synonym u32 = "32 word"

record rank_block =
  rb_before :: u32
  rb_runs :: u32

fun popcount_words :: "u64 list \<Rightarrow> nat \<Rightarrow> nat \<Rightarrow> nat \<Rightarrow> nat res" where
  "popcount_words ws at 0 result = Inr result"
| "popcount_words ws at (Suc n) result = bindE (get_at ws at) (\<lambda>x. popcount_words ws (at + 1) n (result + popcount x))"

definition prefix512_portable :: "u64 list \<Rightarrow> nat \<Rightarrow> nat \<Rightarrow> nat res" where
  "prefix512_portable ws at bits =
     bindE (popcount_words ws at (bits div 64) 0) (\<lambda>result.
     if bits mod 64 \<noteq> 0
     then bindE (get_at ws (at + bits div 64)) (\<lambda>x.
       Inr (result + popcount (x AND (push_bit (bits mod 64) 1 - 1))))
     else Inr result)"

definition popcount512_portable :: "u64 list \<Rightarrow> nat \<Rightarrow> nat res" where
  "popcount512_portable ws at = popcount_words ws at 8 0"

definition run_prefix :: "u32 \<Rightarrow> nat \<Rightarrow> nat" where
  "run_prefix runs rn =
     (let selected = (ucast runs :: u64) AND (push_bit (11 * rn) 1 - 1)
      in unat (drop_bit 22 (selected * 0x400801) AND 2047))"

section \<open>The counters of the directory\<close>

definition starts_epoch :: "nat \<Rightarrow> bool" where
  "starts_epoch blk \<longleftrightarrow> blk mod 2 ^ 21 = 0"

definition cursor_before :: "nat \<Rightarrow> nat \<Rightarrow> nat \<Rightarrow> (u32 \<times> nat) res" where
  "cursor_before epoch_base blk seen =
     (let epoch_base = (if starts_epoch blk then seen else epoch_base) in
      if seen < epoch_base \<or> seen - epoch_base > 4294967295
      then Inl (Overflow_error ''rank relative count'')
      else Inr (of_nat (seen - epoch_base), epoch_base))"

section \<open>Views\<close>

record rank_view =
  rv_words :: "u64 list"
  rv_blocks :: "rank_block list"
  rv_supers :: "u64 list"
  rv_bit_count :: nat

definition new_rank_view :: "u64 list \<Rightarrow> rank_block list \<Rightarrow> u64 list \<Rightarrow> nat \<Rightarrow> rank_view res" where
  "new_rank_view words blocks supers bit_count =
     (if bit_count > u64_max - 0xffffffff \<or> length words \<noteq> (bit_count + 63) div 64 \<or>
         length blocks \<noteq> (bit_count + 2047) div 2048 \<or> length supers \<noteq> (bit_count + 0xffffffff) div 2 ^ 32
      then Inl (Invalid_argument ''invalid rank spans'')
      else Inr \<lparr>rv_words = words, rv_blocks = blocks, rv_supers = supers, rv_bit_count = bit_count\<rparr>)"

definition rv_rank :: "rank_view \<Rightarrow> nat \<Rightarrow> u64 res" where
  "rv_rank v position =
     (if position \<ge> rv_bit_count v then Inl (Out_of_range ''rank position'')
      else bindE (get_at (rv_blocks v) (position div 2048)) (\<lambda>blk.
        let rn = position div 512 mod 4 in
        bindE (get_at (rv_supers v) (position div 2 ^ 32)) (\<lambda>super.
        let result = super + ucast (rb_before blk) + of_nat (run_prefix (rb_runs blk) rn);
            word = position div 512 * 8; bits = position mod 512 in
        if bits = 0 then Inr result
        else bindE (prefix512_portable (rv_words v) word bits) (\<lambda>n. Inr (result + of_nat n)))))"

definition rv_count :: "rank_view \<Rightarrow> u64 res" where
  "rv_count v =
     (if rv_bit_count v = 0 then Inr 0
      else let last = rv_bit_count v - 1 in
        bindE (rv_rank v last) (\<lambda>r. bindE (get_at (rv_words v) (last div 64)) (\<lambda>x.
        Inr (r + (drop_bit (last mod 64) x AND 1)))))"

section \<open>Building\<close>

record rank_index =
  ri_words :: "u64 list"
  ri_blocks :: "rank_block list"
  ri_supers :: "u64 list"
  ri_bit_count :: nat

definition begin_block :: "nat \<Rightarrow> nat \<Rightarrow> nat \<Rightarrow> rank_index \<Rightarrow> (nat \<times> rank_index) res" where
  "begin_block epoch_base seen blk r =
     bindE (cursor_before epoch_base blk seen) (\<lambda>(before, epoch_base).
     bindE (get_at (ri_blocks r) blk) (\<lambda>entry.
     bindE (put_at (ri_blocks r) blk (entry\<lparr>rb_before := before\<rparr>)) (\<lambda>blocks.
     Inr (epoch_base, r\<lparr>ri_blocks := blocks,
       ri_supers := (if starts_epoch blk then ri_supers r @ [of_nat epoch_base] else ri_supers r)\<rparr>))))"

definition pack_runs :: "nat \<Rightarrow> nat \<Rightarrow> nat \<Rightarrow> u32" where
  "pack_runs a b c = of_nat a OR push_bit 11 (of_nat b) OR push_bit 22 (of_nat c)"

definition set_runs :: "nat \<Rightarrow> u32 \<Rightarrow> rank_index \<Rightarrow> rank_index res" where
  "set_runs blk runs r =
     bindE (get_at (ri_blocks r) blk) (\<lambda>entry.
     bindE (put_at (ri_blocks r) blk (entry\<lparr>rb_runs := runs\<rparr>)) (\<lambda>blocks.
     Inr (r\<lparr>ri_blocks := blocks\<rparr>)))"

fun full_blocks :: "nat \<Rightarrow> nat \<Rightarrow> nat \<Rightarrow> nat \<Rightarrow> rank_index \<Rightarrow> (nat \<times> nat \<times> rank_index) res" where
  "full_blocks 0 blk epoch_base seen r = Inr (epoch_base, seen, r)"
| "full_blocks (Suc n) blk epoch_base seen r =
     bindE (begin_block epoch_base seen blk r) (\<lambda>(epoch_base, r).
     let at = blk * 32 in
     bindE (popcount512_portable (ri_words r) at) (\<lambda>a.
     bindE (popcount512_portable (ri_words r) (at + 8)) (\<lambda>b.
     bindE (popcount512_portable (ri_words r) (at + 16)) (\<lambda>c.
     bindE (popcount512_portable (ri_words r) (at + 24)) (\<lambda>d.
     bindE (set_runs blk (pack_runs a b c) r) (\<lambda>r.
     full_blocks n (blk + 1) epoch_base (seen + (a + b + c + d)) r))))))"

fun tail_counts :: "u64 list \<Rightarrow> nat \<Rightarrow> nat \<Rightarrow> nat list \<Rightarrow> nat list res" where
  "tail_counts [] first word counts = Inr counts"
| "tail_counts (x # xs) first word counts =
     bindE (get_at counts ((word - first) div 8)) (\<lambda>n.
     bindE (put_at counts ((word - first) div 8) (n + popcount x)) (\<lambda>counts.
     tail_counts xs first (word + 1) counts))"

definition ri_build :: "u64 list \<Rightarrow> nat \<Rightarrow> rank_index res" where
  "ri_build source bits =
     (if bits > u64_max - 0xffffffff \<or> length source \<noteq> (bits + 63) div 64
      then Inl (Invalid_argument ''rank source length'')
      else let words = (if bits mod 64 \<noteq> 0
             then source[length source - 1 := last source AND (push_bit (bits mod 64) 1 - 1)] else source);
           r = \<lparr>ri_words = words, ri_blocks = replicate ((bits + 2047) div 2048) \<lparr>rb_before = 0, rb_runs = 0\<rparr>,
             ri_supers = [], ri_bit_count = bits\<rparr>; full = bits div 2048 in
        bindE (full_blocks full 0 0 0 r) (\<lambda>(epoch_base, seen, r).
        if full \<noteq> length (ri_blocks r) then
          bindE (begin_block epoch_base seen full r) (\<lambda>(epoch_base, r).
          bindE (tail_counts (drop (full * 32) (ri_words r)) (full * 32) (full * 32) [0, 0, 0, 0]) (\<lambda>counts.
          set_runs full (pack_runs (counts ! 0) (counts ! 1) (counts ! 2)) r))
        else Inr r))"

definition ri_view :: "rank_index \<Rightarrow> rank_view res" where
  "ri_view r = new_rank_view (ri_words r) (ri_blocks r) (ri_supers r) (ri_bit_count r)"

section \<open>Counting ones\<close>

definition bit_at :: "u64 list \<Rightarrow> nat \<Rightarrow> bool" where
  "bit_at ws i \<longleftrightarrow> i < 64 * length ws \<and> bitpos ws i"

definition ones_before :: "u64 list \<Rightarrow> nat \<Rightarrow> nat" where
  "ones_before ws n = (\<Sum>i<n. of_bool (bit_at ws i))"

lemma ones_before_add: "ones_before ws (a + k) = ones_before ws a + (\<Sum>i<k. of_bool (bit_at ws (a + i)))"
  by (induction k) (simp_all add: ones_before_def)

lemma ones_before_mono: "a \<le> b \<Longrightarrow> ones_before ws a \<le> ones_before ws b"
  using ones_before_add [of ws a "b - a"] by simp

lemma ones_before_le: "ones_before ws (a + k) \<le> ones_before ws a + k"
  by (induction k) (simp_all add: ones_before_def)

lemma ones_before_clip: "ones_before ws n = ones_before ws (min n (64 * length ws))"
  using ones_before_add [of ws "64 * length ws" "n - 64 * length ws"]
  by (cases "n \<le> 64 * length ws") (simp_all add: bit_at_def)

lemma bit_at_word: "w < length ws \<Longrightarrow> i < 64 \<Longrightarrow> bit_at ws (64 * w + i) = bit (ws ! w) i"
  using bitpos_join [where ws = ws and i = w and n = i] by (simp add: bit_at_def)

lemma popcount_masked:
  "k \<le> 64 \<Longrightarrow> popcount (x AND (push_bit k 1 - 1)) = (\<Sum>i<k. of_bool (bit x i))"
proof -
  assume k: "k \<le> 64"
  have m: "push_bit k 1 - 1 = (mask k :: u64)" by (simp add: mask_eq_exp_minus_1 push_bit_eq_mult)
  have "popcount (x AND (push_bit k 1 - 1)) = (\<Sum>i<64. if i \<in> {..<k} then of_bool (bit x i) else 0)"
    unfolding popcount_sum m by (intro sum.cong) (auto simp: bit_and_iff bit_mask_iff)
  also have "\<dots> = (\<Sum>i\<in>{..<64} \<inter> {..<k}. of_bool (bit x i))" by (rule sum.inter_restrict [symmetric]) simp
  also have "{..<64} \<inter> {..<k} = {..<k}" using k by auto
  finally show ?thesis .
qed

lemma ones_before_word: "w < length ws \<Longrightarrow> ones_before ws (64 * w + 64) = ones_before ws (64 * w) + popcount (ws ! w)"
  unfolding ones_before_add popcount_sum by (intro arg_cong2 [of _ _ _ _ "(+)"] sum.cong) (simp_all add: bit_at_word)

lemma popcount_words_ones:
  "at + n \<le> length ws \<Longrightarrow> popcount_words ws at n result = Inr (result + (ones_before ws (64 * (at + n)) - ones_before ws (64 * at)))"
proof (induction n arbitrary: at result)
  case (Suc n)
  have "ones_before ws (64 * at + 64) \<le> ones_before ws (64 * (at + 1 + n))" by (rule ones_before_mono) simp
  then show ?case using Suc.IH [of "at + 1" "result + popcount (ws ! at)"] Suc.prems ones_before_word [of at ws]
    by (simp add: get_at_def algebra_simps)
qed simp

lemma prefix512_ones:
  assumes "64 * at + bits \<le> 64 * length ws"
  shows "prefix512_portable ws at bits = Inr (ones_before ws (64 * at + bits) - ones_before ws (64 * at))"
proof -
  define q s where "q = bits div 64" and "s = bits mod 64"
  have b: "bits = 64 * q + s" "s < 64" by (simp_all add: q_def s_def)
  have e: "64 * at + bits = 64 * (at + q) + s" using b by simp
  have q: "at + q \<le> length ws" using assms b by simp
  have m: "ones_before ws (64 * at) \<le> ones_before ws (64 * (at + q))" by (rule ones_before_mono) simp
  show ?thesis
  proof (cases "s = 0")
    case True
    then show ?thesis using popcount_words_ones [OF q, of 0] b
      by (simp add: prefix512_portable_def flip: q_def s_def)
  next
    case False
    then have inside: "at + q < length ws" using assms e by simp
    have "popcount (ws ! (at + q) AND (push_bit s 1 - 1)) = (\<Sum>i < s. of_bool (bit_at ws (64 * (at + q) + i)))"
      unfolding popcount_masked [OF less_imp_le [OF b(2)]]
    proof (rule sum.cong)
      fix i assume "i \<in> {..<s}"
      then have "bit_at ws (64 * (at + q) + i) = bit (ws ! (at + q)) i" using b(2) inside by (intro bit_at_word) simp_all
      then show "of_bool (bit (ws ! (at + q)) i) = (of_bool (bit_at ws (64 * (at + q) + i)) :: nat)" by (simp only:)
    qed simp
    then show ?thesis
      using False inside popcount_words_ones [OF q, of 0] m ones_before_add [of ws "64 * (at + q)" s] unfolding e
      by (simp add: prefix512_portable_def get_at_def flip: q_def s_def)
  qed
qed

text \<open>Populations of three runs in one 32-bit word, and their sum by a multiplication.\<close>

lemma or_add_disjoint: "x < 2 ^ k \<Longrightarrow> x OR push_bit k y = x + push_bit k (y :: nat)"
proof -
  assume "x < 2 ^ k"
  then have "take_bit k x = x" by (simp add: take_bit_nat_eq_self)
  then have "\<not> (bit x n \<and> bit (push_bit k y) n)" for n by (metis bit_push_bit_iff bit_take_bit_iff linorder_not_less)
  then have "x AND push_bit k y = 0" by (simp add: bit_eq_iff bit_and_iff)
  then show ?thesis by (simp add: disjunctive_add_eq_or)
qed

lemma unat_pack_runs:
  assumes "a \<le> 512" "b \<le> 512" "c \<le> 512"
  shows "unat (pack_runs a b c) = a + 2048 * (b + 2048 * c)"
proof -
  have n: "a OR push_bit 11 b OR push_bit 22 c = a + 2048 * (b + 2048 * c)"
  proof -
    have "push_bit 11 b OR push_bit 22 c = push_bit 11 (b OR push_bit 11 c)" by (simp add: push_bit_or)
    also have "b OR push_bit 11 c = b + 2048 * c" using or_add_disjoint [of b 11 c] assms by (simp add: push_bit_eq_mult)
    finally show ?thesis using or_add_disjoint [of a 11 "b + 2048 * c"] assms by (simp add: push_bit_eq_mult or.assoc)
  qed
  have small: "unat (push_bit k (of_nat x :: u32)) = push_bit k x" if "push_bit k x < 2 ^ 32" for k x
  proof -
    have "push_bit k (of_nat x :: u32) = of_nat (push_bit k x)" by (simp add: push_bit_of_nat)
    then show ?thesis using that by (simp add: unat_of_nat take_bit_eq_mod)
  qed
  have "unat (pack_runs a b c) = (unat (of_nat a :: u32) OR unat (push_bit 11 (of_nat b :: u32))) OR unat (push_bit 22 (of_nat c :: u32))"
    by (simp only: pack_runs_def unsigned_or_eq or.assoc)
  also have "\<dots> = a OR push_bit 11 b OR push_bit 22 c"
    using assms small [of 0 a] small [of 11 b] small [of 22 c] by (simp add: push_bit_eq_mult or.assoc)
  finally show ?thesis using n by simp
qed

lemma run_prefix_runs:
  assumes l: "a \<le> 512" "b \<le> 512" "c \<le> 512" and rn: "rn < 4"
  shows "run_prefix (pack_runs a b c) rn = sum_list (take rn [a, b, c])"
proof -
  define f where "f i = (if i < rn then [a, b, c] ! i else 0)" for i
  have fl: "f 0 \<le> 512" "f 1 \<le> 512" "f 2 \<le> 512" using l by (simp_all add: f_def)
  have "unat ((ucast (pack_runs a b c) :: u64) AND (push_bit (11 * rn) 1 - 1)) = unat (pack_runs a b c) mod 2 ^ (11 * rn)"
  proof -
    have "(ucast (pack_runs a b c) :: u64) AND (push_bit (11 * rn) 1 - 1) = take_bit (11 * rn) (ucast (pack_runs a b c))"
      by (simp add: take_bit_eq_mask mask_eq_exp_minus_1 push_bit_eq_mult)
    moreover have "unat (ucast (pack_runs a b c) :: u64) = unat (pack_runs a b c)"
    proof -
      have "unat (pack_runs a b c) < 2 ^ 64" by (rule order_less_le_trans [OF unsigned_less]) simp
      then show ?thesis by (simp add: unsigned_ucast_eq take_bit_nat_eq_self)
    qed
    ultimately show ?thesis by (simp only: unsigned_take_bit_eq take_bit_eq_mod [where ?'a = nat])
  qed
  also have "\<dots> = f 0 + 2048 * (f 1 + 2048 * f 2)"
  proof -
    consider "rn = 0" | "rn = 1" | "rn = 2" | "rn = 3" using rn by linarith
    then show ?thesis
      using l mod_mult_self2 [of a 2048 "b + 2048 * c"] mod_mult_self2 [of "a + 2048 * b" 4194304 c]
      unfolding unat_pack_runs [OF l] by cases (simp_all add: f_def add.assoc)
  qed
  finally have sel: "unat ((ucast (pack_runs a b c) :: u64) AND (push_bit (11 * rn) 1 - 1)) = f 0 + 2048 * (f 1 + 2048 * f 2)" .
  have "sum_list (take rn [a, b, c]) = f 0 + f 1 + f 2"
  proof -
    consider "rn = 0" | "rn = 1" | "rn = 2" | "rn = 3" using rn by linarith
    then show ?thesis by cases (simp_all add: f_def)
  qed
  moreover have "run_prefix (pack_runs a b c) rn = f 0 + f 1 + f 2"
  proof -
    let ?x = "(ucast (pack_runs a b c) :: u64) AND (push_bit (11 * rn) 1 - 1)"
    let ?low = "f 0 + 2048 * (f 0 + f 1)" and ?sum = "f 0 + f 1 + f 2" and ?high = "f 1 + f 2 + 2048 * f 2"
    have "unat (?x * 0x400801) = unat ?x * 0x400801 mod 2 ^ 64" by (simp only: unat_word_ariths) simp
    also have "unat ?x * 0x400801 = ?low + 4194304 * (?sum + 2048 * ?high)" unfolding sel by simp
    also have "\<dots> mod 2 ^ 64 = \<dots>" using fl by simp
    finally have e: "unat (?x * 0x400801) = ?low + 4194304 * (?sum + 2048 * ?high)" .
    have "?low < 4194304" "?sum < 2048" using fl by simp_all
    then have "unat (?x * 0x400801) div 4194304 = ?sum + 2048 * ?high" unfolding e by simp
    moreover have "(?sum + 2048 * ?high) mod 2048 = ?sum" using \<open>?sum < 2048\<close> by (simp only: mod_mult_self2 mod_less)
    moreover have "unat (drop_bit 22 y AND 2047) = unat y div 4194304 mod 2048" for y :: u64
    proof -
      have "drop_bit 22 y AND 2047 = take_bit 11 (drop_bit 22 y)" by (simp add: take_bit_eq_mask mask_eq_exp_minus_1)
      then have "unat (drop_bit 22 y AND 2047) = take_bit 11 (unat (drop_bit 22 y))" by (simp only: unsigned_take_bit_eq)
      then show ?thesis unfolding unat_drop_bit_eq by (simp add: take_bit_eq_mod drop_bit_eq_div)
    qed
    ultimately show ?thesis by (simp only: run_prefix_def Let_def)
  qed
  ultimately show ?thesis by simp
qed

section \<open>A consistent directory\<close>

text \<open>The entry of a block, and a directory whose first entries are filled in.\<close>

definition run_count :: "u64 list \<Rightarrow> nat \<Rightarrow> nat" where
  "run_count ws n = ones_before ws (512 * (n + 1)) - ones_before ws (512 * n)"

definition entry_ok :: "u64 list \<Rightarrow> nat \<Rightarrow> rank_block \<Rightarrow> bool" where
  "entry_ok ws i e \<longleftrightarrow>
     unat (rb_before e) = ones_before ws (2048 * i) - ones_before ws (2 ^ 32 * (i div 2 ^ 21)) \<and>
     rb_runs e = pack_runs (run_count ws (4 * i)) (run_count ws (4 * i + 1)) (run_count ws (4 * i + 2))"

definition supers_upto :: "u64 list \<Rightarrow> nat \<Rightarrow> u64 list" where
  "supers_upto ws n = map (\<lambda>e. of_nat (ones_before ws (2 ^ 32 * e))) [0..<(n + 2 ^ 21 - 1) div 2 ^ 21]"

definition shows_bits :: "rank_view \<Rightarrow> bool" where
  "shows_bits v \<longleftrightarrow> (let ws = rv_words v; n = (rv_bit_count v + 2047) div 2048 in
     rv_bit_count v \<le> u64_max - 0xffffffff \<and> length ws = (rv_bit_count v + 63) div 64 \<and> length (rv_blocks v) = n \<and>
     (\<forall>i<n. entry_ok ws i (rv_blocks v ! i)) \<and> rv_supers v = supers_upto ws n)"

lemma run_count_le: "run_count ws n \<le> 512"
proof -
  have e: "512 * (n + 1) = 512 * n + 512" by simp
  show ?thesis using ones_before_le [of ws "512 * n" 512] unfolding run_count_def e by simp
qed

lemma run_count_step: "ones_before ws (512 * (n + 1)) = ones_before ws (512 * n) + run_count ws n"
proof -
  have "ones_before ws (512 * n) \<le> ones_before ws (512 * (n + 1))" by (rule ones_before_mono) simp
  then show ?thesis by (simp add: run_count_def)
qed

lemma runs_before: "rn < 4 \<Longrightarrow> ones_before ws (512 * (m + rn)) = ones_before ws (512 * m) +
    sum_list (take rn [run_count ws m, run_count ws (m + 1), run_count ws (m + 2)])"
proof -
  define F where "F n = ones_before ws (512 * n)" for n
  have "F (n + 1) = F n + run_count ws n" for n unfolding F_def by (rule run_count_step)
  from this [of m] this [of "m + 1"] this [of "m + 2"]
  have s: "F (m + 1) = F m + run_count ws m" "F (m + 2) = F m + run_count ws m + run_count ws (m + 1)"
    "F (m + 3) = F m + run_count ws m + run_count ws (m + 1) + run_count ws (m + 2)"
    by (simp_all add: numeral_eq_Suc)
  assume "rn < 4"
  then consider (0) "rn = 0" | (1) "rn = 1" | (2) "rn = 2" | (3) "rn = 3" by linarith
  then show ?thesis unfolding F_def [symmetric] using s by cases simp_all
qed

lemma rv_rank_shows:
  assumes s: "shows_bits v" and p: "position < rv_bit_count v"
  shows "rv_rank v position = Inr (of_nat (ones_before (rv_words v) position))"
proof -
  let ?ws = "rv_words v" and ?N = "rv_bit_count v"
  define blk rn where "blk = position div 2048" and "rn = position div 512 mod 4"
  define bits where "bits = position mod 512"
  note v = s [unfolded shows_bits_def Let_def]
  have rn: "rn < 4" by (simp add: rn_def)
  have pos: "position = 512 * (4 * blk + rn) + bits" "position div 512 = 4 * blk + rn" "bits < 512"
  proof -
    have "position div 512 div 4 = blk" unfolding blk_def by (simp flip: div_mult2_eq)
    then show d: "position div 512 = 4 * blk + rn" using mult_div_mod_eq [of 4 "position div 512"] by (simp add: rn_def)
    show "position = 512 * (4 * blk + rn) + bits" using mult_div_mod_eq [of 512 position] unfolding d bits_def by simp
    show "bits < 512" by (simp add: bits_def)
  qed
  have "position \<le> 2048 * blk + 2047" "2048 * blk \<le> position" unfolding blk_def by simp_all
  then have blk: "blk < (?N + 2047) div 2048" using p by (intro less_le_trans [OF lessI]) (simp add: less_eq_div_iff_mult_less_eq)
  have sup: "position div 2 ^ 32 = blk div 2 ^ 21" unfolding blk_def by (simp flip: div_mult2_eq)
  obtain e where e: "rv_blocks v ! blk = e" "entry_ok ?ws blk e" using v blk by blast
  have lb: "blk < length (rv_blocks v)" using v blk by simp
  have ls: "blk div 2 ^ 21 < ((?N + 2047) div 2048 + 2 ^ 21 - 1) div 2 ^ 21"
    using blk by (intro less_le_trans [OF lessI]) (simp add: less_eq_div_iff_mult_less_eq)
  have super: "get_at (rv_supers v) (position div 2 ^ 32) = Inr (of_nat (ones_before ?ws (2 ^ 32 * (blk div 2 ^ 21))))"
    using v ls unfolding sup by (simp add: get_at_def supers_upto_def)
  have rp: "run_prefix (rb_runs e) rn = ones_before ?ws (512 * (4 * blk + rn)) - ones_before ?ws (512 * (4 * blk))"
    using e(2) run_prefix_runs [OF run_count_le run_count_le run_count_le rn] runs_before [OF rn, of ?ws "4 * blk"]
    by (simp add: entry_ok_def)
  have m: "ones_before ?ws (2 ^ 32 * (blk div 2 ^ 21)) \<le> ones_before ?ws (2048 * blk)"
    "ones_before ?ws (512 * (4 * blk)) \<le> ones_before ?ws (512 * (4 * blk + rn))"
    "ones_before ?ws (512 * (4 * blk + rn)) \<le> ones_before ?ws position"
  proof -
    have "2 ^ 21 * (blk div 2 ^ 21) \<le> blk" by simp
    then show "ones_before ?ws (2 ^ 32 * (blk div 2 ^ 21)) \<le> ones_before ?ws (2048 * blk)" by (intro ones_before_mono) simp
  qed (use pos in \<open>simp_all add: ones_before_mono\<close>)
  have sum: "of_nat (ones_before ?ws (2 ^ 32 * (blk div 2 ^ 21))) + ucast (rb_before e) + of_nat (run_prefix (rb_runs e) rn) =
      (of_nat (ones_before ?ws (512 * (4 * blk + rn))) :: u64)"
  proof -
    have "(ucast (rb_before e) :: u64) = of_nat (unat (rb_before e))" by simp
    then have "of_nat (ones_before ?ws (2 ^ 32 * (blk div 2 ^ 21))) + ucast (rb_before e) + of_nat (run_prefix (rb_runs e) rn) =
        (of_nat (ones_before ?ws (2 ^ 32 * (blk div 2 ^ 21)) + unat (rb_before e) + run_prefix (rb_runs e) rn) :: u64)"
      by (simp only: of_nat_add)
    moreover have "ones_before ?ws (2 ^ 32 * (blk div 2 ^ 21)) + unat (rb_before e) + run_prefix (rb_runs e) rn = ones_before ?ws (512 * (4 * blk + rn))"
      using e(2) m(1,2) unfolding rp by (simp add: entry_ok_def)
    ultimately show ?thesis by (simp only:)
  qed
  have get: "get_at (rv_blocks v) blk = Inr e" using lb e(1) by (simp add: get_at_def)
  show ?thesis
  proof (cases "bits = 0")
    case True
    then have "512 * (4 * blk + rn) = position" using pos(1) by simp
    then show ?thesis
      using p get super sum True by (simp add: rv_rank_def Let_def flip: blk_def rn_def bits_def)
  next
    case False
    have at: "64 * ((4 * blk + rn) * 8) + bits = position" "64 * ((4 * blk + rn) * 8) = 512 * (4 * blk + rn)" using pos(1) by simp_all
    have "?N \<le> 64 * ((?N + 63) div 64)" using div_mult_mod_eq [of "?N + 63" 64] mod_less_divisor [of 64 "?N + 63"] by simp
    then have "64 * ((4 * blk + rn) * 8) + bits \<le> 64 * length ?ws" unfolding at(1) using p v by simp
    from prefix512_ones [OF this]
    have pre: "prefix512_portable ?ws ((4 * blk + rn) * 8) bits = Inr (ones_before ?ws position - ones_before ?ws (512 * (4 * blk + rn)))"
      unfolding at(1) unfolding at(2) .
    have "(of_nat (ones_before ?ws (512 * (4 * blk + rn))) :: u64) + of_nat (ones_before ?ws position - ones_before ?ws (512 * (4 * blk + rn))) =
        of_nat (ones_before ?ws position)"
      using m(3) by (simp flip: of_nat_add)
    then show ?thesis
      using False p get super sum pre pos(2) rn by (simp add: rv_rank_def Let_def flip: blk_def rn_def bits_def)
  qed
qed

lemma rv_count_shows:
  assumes s: "shows_bits v"
  shows "rv_count v = Inr (of_nat (ones_before (rv_words v) (rv_bit_count v)))"
proof (cases "rv_bit_count v")
  case 0
  then show ?thesis by (simp add: rv_count_def ones_before_def)
next
  case (Suc last)
  have "last div 64 < (rv_bit_count v + 63) div 64" using Suc by simp
  then have w: "get_at (rv_words v) (last div 64) = Inr (rv_words v ! (last div 64))"
    using s by (simp add: shows_bits_def Let_def get_at_def)
  have "drop_bit n x AND 1 = of_bool (bit x n)" for n and x :: u64 by (simp add: bit_iff_odd_drop_bit and_one_eq mod_2_eq_odd)
  moreover have "last < 64 * length (rv_words v)"
  proof -
    have "length (rv_words v) = (last + 64) div 64" using s Suc by (simp add: shows_bits_def Let_def)
    then show ?thesis by simp
  qed
  ultimately have "drop_bit (last mod 64) (rv_words v ! (last div 64)) AND 1 = of_bool (bit_at (rv_words v) last)"
    by (simp add: bitpos_def bit_at_def)
  then show ?thesis using Suc w rv_rank_shows [OF s, of last] by (simp add: rv_count_def ones_before_def)
qed

section \<open>The builder fills the directory\<close>

definition filled :: "u64 list \<Rightarrow> nat \<Rightarrow> rank_index \<Rightarrow> nat \<Rightarrow> bool" where
  "filled ws N r n \<longleftrightarrow> ri_words r = ws \<and> length (ri_blocks r) = N \<and> (\<forall>i<n. entry_ok ws i (ri_blocks r ! i)) \<and>
     ri_supers r = supers_upto ws n"

definition epoch_count :: "u64 list \<Rightarrow> nat \<Rightarrow> nat" where
  "epoch_count ws blk = ones_before ws (2 ^ 32 * (blk div 2 ^ 21))"

lemma supers_upto_step:
  "supers_upto ws (blk + 1) = (if starts_epoch blk then supers_upto ws blk @ [of_nat (epoch_count ws blk)] else supers_upto ws blk)"
proof -
  define q t where "q = blk div 2097152" and "t = blk mod 2097152"
  have b: "blk = 2097152 * q + t" "t < 2097152" by (simp_all add: q_def t_def)
  have up: "(blk + 1 + 2 ^ 21 - 1) div 2 ^ 21 = q + 1" by (simp add: q_def)
  show ?thesis
  proof (cases "t = 0")
    case True
    have "(blk + 2 ^ 21 - 1) div 2 ^ 21 = q" unfolding b(1) True by (intro div_nat_eqI) simp_all
    then show ?thesis using True up by (simp add: supers_upto_def starts_epoch_def epoch_count_def flip: q_def t_def)
  next
    case False
    have "(blk + 2 ^ 21 - 1) div 2 ^ 21 = q + 1" unfolding b(1) using b(2) False by (intro div_nat_eqI) simp_all
    then show ?thesis using False up by (simp add: supers_upto_def starts_epoch_def flip: t_def)
  qed
qed

lemma cursor_before_ok:
  assumes e: "\<not> starts_epoch blk \<Longrightarrow> epoch = epoch_count ws (blk - 1)"
  shows "\<exists>x. cursor_before epoch blk (ones_before ws (2048 * blk)) = Inr (x, epoch_count ws blk) \<and>
    unat x = ones_before ws (2048 * blk) - epoch_count ws blk"
proof -
  define q t where "q = blk div 2097152" and "t = blk mod 2097152"
  have b: "blk = 2097152 * q + t" "t < 2097152" by (simp_all add: q_def t_def)
  have pos: "2048 * blk = 2 ^ 32 * q + 2048 * t" unfolding b(1) by simp
  have E: "epoch_count ws blk = ones_before ws (2 ^ 32 * q)" by (simp add: epoch_count_def q_def)
  have le: "ones_before ws (2 ^ 32 * q) \<le> ones_before ws (2048 * blk)" unfolding pos by (rule ones_before_mono) simp
  have "ones_before ws (2048 * blk) \<le> ones_before ws (2 ^ 32 * q) + 2048 * t" unfolding pos by (rule ones_before_le)
  then have d: "ones_before ws (2048 * blk) - ones_before ws (2 ^ 32 * q) \<le> 4294967295" using b(2) by simp
  have cur: "(if starts_epoch blk then ones_before ws (2048 * blk) else epoch) = epoch_count ws blk"
  proof (cases "t = 0")
    case True
    then have "starts_epoch blk" "2048 * blk = 2 ^ 32 * q" using pos by (simp_all add: starts_epoch_def t_def)
    then show ?thesis unfolding E by (simp only: if_True)
  next
    case False
    have "(blk - 1) div 2 ^ 21 = q" using b False by (intro div_nat_eqI) simp_all
    then show ?thesis using False e by (simp add: starts_epoch_def epoch_count_def flip: t_def q_def)
  qed
  have "unat (of_nat n :: u32) = n" if "n \<le> 4294967295" for n
    using that by (simp add: unat_of_nat take_bit_eq_mod)
  from this [OF d] show ?thesis using le d unfolding cursor_before_def Let_def cur E
    by (intro exI [of _ "of_nat (ones_before ws (2048 * blk) - ones_before ws (2 ^ 32 * q))"]) (simp del: of_nat_diff)
qed

lemma block_step:
  assumes f: "filled ws N r blk" and blk: "blk < N" and e: "\<not> starts_epoch blk \<Longrightarrow> epoch = epoch_count ws (blk - 1)"
  shows "\<exists>r1. begin_block epoch (ones_before ws (2048 * blk)) blk r = Inr (epoch_count ws blk, r1) \<and> ri_words r1 = ws \<and>
    (\<exists>r2. set_runs blk (pack_runs (run_count ws (4 * blk)) (run_count ws (4 * blk + 1)) (run_count ws (4 * blk + 2))) r1 = Inr r2 \<and>
      filled ws N r2 (blk + 1) \<and> ri_bit_count r2 = ri_bit_count r)"
proof -
  obtain x where x: "cursor_before epoch blk (ones_before ws (2048 * blk)) = Inr (x, epoch_count ws blk)"
    "unat x = ones_before ws (2048 * blk) - epoch_count ws blk"
    using cursor_before_ok [OF e] by blast
  have l: "blk < length (ri_blocks r)" using f blk by (simp add: filled_def)
  define r1 where "r1 = r\<lparr>ri_blocks := (ri_blocks r)[blk := (ri_blocks r ! blk)\<lparr>rb_before := x\<rparr>], ri_supers := supers_upto ws (blk + 1)\<rparr>"
  have one: "begin_block epoch (ones_before ws (2048 * blk)) blk r = Inr (epoch_count ws blk, r1)"
    using f l x(1) unfolding supers_upto_step r1_def by (simp add: begin_block_def filled_def get_at_def put_at_def)
  let ?runs = "pack_runs (run_count ws (4 * blk)) (run_count ws (4 * blk + 1)) (run_count ws (4 * blk + 2))"
  define r2 where "r2 = r1\<lparr>ri_blocks := (ri_blocks r1)[blk := (ri_blocks r1 ! blk)\<lparr>rb_runs := ?runs\<rparr>]\<rparr>"
  have two: "set_runs blk ?runs r1 = Inr r2" using l by (simp add: set_runs_def get_at_def put_at_def r2_def r1_def)
  have "entry_ok ws i (ri_blocks r2 ! i)" if "i < blk + 1" for i
  proof (cases "i = blk")
    case True
    then show ?thesis using l x(2) by (simp add: r2_def r1_def entry_ok_def epoch_count_def)
  next
    case False
    then show ?thesis using that f by (simp add: r2_def r1_def filled_def)
  qed
  then have "filled ws N r2 (blk + 1)" using f by (simp add: filled_def r2_def r1_def)
  then show ?thesis using one two f by (auto simp: r2_def r1_def filled_def)
qed

lemma popcount512_run: "8 * n + 8 \<le> length ws \<Longrightarrow> popcount512_portable ws (8 * n) = Inr (run_count ws n)"
  using popcount_words_ones [of "8 * n" 8 ws 0] by (simp add: popcount512_portable_def run_count_def algebra_simps)

lemma runs_of_block: "ones_before ws (2048 * (blk + 1)) = ones_before ws (2048 * blk) +
    (run_count ws (4 * blk) + run_count ws (4 * blk + 1) + run_count ws (4 * blk + 2) + run_count ws (4 * blk + 3))"
proof -
  have "ones_before ws (512 * (4 * blk + 3 + 1)) = ones_before ws (512 * (4 * blk + 3)) + run_count ws (4 * blk + 3)"
    by (rule run_count_step)
  moreover have "ones_before ws (512 * (4 * blk + 3)) = ones_before ws (512 * (4 * blk)) +
      (run_count ws (4 * blk) + run_count ws (4 * blk + 1) + run_count ws (4 * blk + 2))"
    using runs_before [of 3 ws "4 * blk"] by simp
  moreover have "512 * (4 * blk + 3 + 1) = 2048 * (blk + 1)" "512 * (4 * blk) = 2048 * blk" by simp_all
  ultimately show ?thesis by simp
qed

lemma full_blocks_fill:
  "filled ws N r blk \<Longrightarrow> blk + n \<le> N \<Longrightarrow> 32 * (blk + n) \<le> length ws \<Longrightarrow>
    (\<not> starts_epoch blk \<Longrightarrow> epoch = epoch_count ws (blk - 1)) \<Longrightarrow>
    \<exists>epoch' r'. full_blocks n blk epoch (ones_before ws (2048 * blk)) r = Inr (epoch', ones_before ws (2048 * (blk + n)), r') \<and>
      filled ws N r' (blk + n) \<and> (\<not> starts_epoch (blk + n) \<longrightarrow> epoch' = epoch_count ws (blk + n - 1)) \<and> ri_bit_count r' = ri_bit_count r"
proof (induction n arbitrary: blk epoch r)
  case (Suc n)
  obtain r1 r2 where s: "begin_block epoch (ones_before ws (2048 * blk)) blk r = Inr (epoch_count ws blk, r1)" "ri_words r1 = ws"
    "set_runs blk (pack_runs (run_count ws (4 * blk)) (run_count ws (4 * blk + 1)) (run_count ws (4 * blk + 2))) r1 = Inr r2"
    "filled ws N r2 (blk + 1)" "ri_bit_count r2 = ri_bit_count r"
    using block_step [OF Suc.prems(1) _ Suc.prems(4)] Suc.prems(2) by auto
  have at: "blk * 32 = 8 * (4 * blk)" "blk * 32 + 8 = 8 * (4 * blk + 1)" "blk * 32 + 16 = 8 * (4 * blk + 2)"
    "blk * 32 + 24 = 8 * (4 * blk + 3)" by simp_all
  have p: "popcount512_portable ws (8 * (4 * blk + i)) = Inr (run_count ws (4 * blk + i))" if "i < 4" for i
    using Suc.prems(3) that by (intro popcount512_run) simp
  have p4: "popcount512_portable ws (blk * 32) = Inr (run_count ws (4 * blk))"
    "popcount512_portable ws (blk * 32 + 8) = Inr (run_count ws (4 * blk + 1))"
    "popcount512_portable ws (blk * 32 + 16) = Inr (run_count ws (4 * blk + 2))"
    "popcount512_portable ws (blk * 32 + 24) = Inr (run_count ws (4 * blk + 3))"
    subgoal using p [of 0] unfolding at(1) by simp
    subgoal unfolding at(2) by (rule p) simp
    subgoal unfolding at(3) by (rule p) simp
    subgoal unfolding at(4) by (rule p) simp
    done
  have step: "full_blocks (Suc n) blk epoch (ones_before ws (2048 * blk)) r =
      full_blocks n (blk + 1) (epoch_count ws blk) (ones_before ws (2048 * (blk + 1))) r2"
    unfolding full_blocks.simps s(1) bindE_simps prod.case Let_def s(2) p4 s(3) runs_of_block ..
  show ?case
    using Suc.IH [OF s(4), of "epoch_count ws blk"] Suc.prems(2,3) s(5) unfolding step by simp
qed simp

text \<open>The last, partial block counts word by word.\<close>

definition clipped :: "u64 list \<Rightarrow> nat \<Rightarrow> nat \<Rightarrow> nat \<Rightarrow> nat" where
  "clipped ws first word k = ones_before ws (64 * min word (first + 8 * (k + 1))) - ones_before ws (64 * min word (first + 8 * k))"

lemma clipped_step:
  assumes w: "first \<le> word" "word < length ws"
  shows "clipped ws first (word + 1) k = clipped ws first word k + (if k = (word - first) div 8 then popcount (ws ! word) else 0)"
proof -
  obtain d where d: "word = first + d" using w(1) le_Suc_ex by blast
  consider "k < d div 8" | (eq) "k = d div 8" | "d div 8 < k" by linarith
  then show ?thesis
  proof cases
    case 1
    then have "8 * (k + 1) \<le> d" by (simp add: less_eq_div_iff_mult_less_eq flip: Suc_le_eq) 
    then show ?thesis using 1 by (simp add: clipped_def d min_def)
  next
    case eq
    have "8 * k \<le> d" "d < 8 * (k + 1)" unfolding eq by simp_all
    then have m: "min word (first + 8 * (k + 1)) = word" "min (word + 1) (first + 8 * (k + 1)) = word + 1"
      "min word (first + 8 * k) = first + 8 * k" "min (word + 1) (first + 8 * k) = first + 8 * k"
      by (simp_all add: d)
    have "ones_before ws (64 * (first + 8 * k)) \<le> ones_before ws (64 * word)"
      using \<open>8 * k \<le> d\<close> by (intro ones_before_mono) (simp add: d)
    moreover have up: "ones_before ws (64 * (word + 1)) = ones_before ws (64 * word) + popcount (ws ! word)"
      using ones_before_word [OF w(2)] by (simp add: add.commute)
    moreover have "k = (word - first) div 8" using eq d by simp
    ultimately show ?thesis unfolding clipped_def m up by simp
  next
    case 3
    then have "d + 1 \<le> 8 * k" by (simp add: div_less_iff_less_mult)
    then show ?thesis using 3 by (simp add: clipped_def d min_def)
  qed
qed

lemma tail_counts_clipped:
  "xs = drop word ws \<Longrightarrow> first \<le> word \<Longrightarrow> word \<le> length ws \<Longrightarrow> length ws \<le> first + 32 \<Longrightarrow> length counts = 4 \<Longrightarrow>
    \<forall>k<4. counts ! k = clipped ws first word k \<Longrightarrow>
    \<exists>counts'. tail_counts xs first word counts = Inr counts' \<and> (\<forall>k<4. counts' ! k = clipped ws first (length ws) k)"
proof (induction xs arbitrary: word counts)
  case (Cons x xs)
  then have w: "word < length ws" "x = ws ! word" "xs = drop (word + 1) ws"
    by (metis drop_eq_Nil list.distinct(1) linorder_not_le, metis hd_drop_conv_nth list.distinct(1) drop_eq_Nil linorder_not_le list.sel(1),
        metis drop_Suc list.sel(3) tl_drop Suc_eq_plus1)
  let ?k = "(word - first) div 8"
  have k: "?k < 4" using w(1) Cons.prems(4) by (simp add: div_less_iff_less_mult)
  have "\<forall>k<4. counts[?k := counts ! ?k + popcount x] ! k = clipped ws first (word + 1) k"
    unfolding clipped_step [OF Cons.prems(2) w(1)] using Cons.prems(5,6) w(2) k by (simp add: nth_list_update)
  then show ?case
    using Cons.IH [OF w(3), of "counts[?k := counts ! ?k + popcount x]"] Cons.prems(2,4,5) w(1) k
    by (simp add: get_at_def put_at_def)
qed auto

lemma clipped_run:
  assumes "length ws \<le> 32 * blk + 32" "32 * blk \<le> length ws"
  shows "clipped ws (32 * blk) (length ws) k = run_count ws (4 * blk + k)"
proof -
  have c: "ones_before ws (64 * min (length ws) n) = ones_before ws (64 * n)" for n
    using ones_before_clip [of ws "64 * n"] by (simp add: min_mult_distrib_left min.commute)
  show ?thesis unfolding clipped_def c run_count_def by (simp add: algebra_simps)
qed

section \<open>What the builder promises\<close>

lemma last_cleared:
  assumes n: "length source = (bits + 63) div 64"
  defines "ws \<equiv> if bits mod 64 \<noteq> 0 then source[length source - 1 := last source AND (push_bit (bits mod 64) 1 - 1)] else source"
  shows "length ws = length source" "i < bits \<Longrightarrow> bit_at ws i = bit_at source i" "bits \<le> i \<Longrightarrow> \<not> bit_at ws i"
proof -
  show l: "length ws = length source" by (simp add: ws_def)
  define q s where "q = bits div 64" and "s = bits mod 64"
  have b: "bits = 64 * q + s" "s < 64" by (simp_all add: q_def s_def)
  have len: "length source = (if s = 0 then q else q + 1)"
    unfolding n b(1) using b(2) by (cases "s = 0") (auto intro!: div_nat_eqI)
  have m: "push_bit s 1 - 1 = (mask s :: u64)" by (simp add: mask_eq_exp_minus_1 push_bit_eq_mult)
  have at: "bit_at ws i \<longleftrightarrow> i < bits \<and> bit_at source i" for i
  proof (cases "s = 0")
    case True
    then show ?thesis using len b by (auto simp: ws_def bit_at_def simp flip: s_def)
  next
    case False
    then have ws: "ws = source[q := source ! q AND mask s]"
      using len m last_conv_nth [of source] by (cases "source = []") (simp_all add: ws_def flip: s_def)
    have i: "i = 64 * (i div 64) + i mod 64" "i mod 64 < 64" by simp_all
    consider (below) "i div 64 < q" | (here) "i div 64 = q" | (above) "q < i div 64" by linarith
    then show ?thesis
    proof cases
      case below
      then have "i < bits" using i b by linarith
      then show ?thesis using below by (simp add: bit_at_def bitpos_def ws)
    next
      case here
      then have "i < bits \<longleftrightarrow> i mod 64 < s" using i b by linarith
      then show ?thesis using here False len by (auto simp: bit_at_def bitpos_def ws bit_and_iff bit_mask_iff)
    next
      case above
      then have "64 * (q + 1) \<le> 64 * (i div 64)" by (intro mult_le_mono2) simp
      also have "64 * (i div 64) \<le> i" by simp
      finally have "64 * (q + 1) \<le> i" .
      then show ?thesis using len False by (simp add: bit_at_def ws)
    qed
  qed
  show "i < bits \<Longrightarrow> bit_at ws i = bit_at source i" "bits \<le> i \<Longrightarrow> \<not> bit_at ws i" unfolding at by simp_all
qed

lemma ri_build_shows:
  assumes n: "length source = (bits + 63) div 64" and max: "bits \<le> u64_max - 0xffffffff"
  shows "\<exists>r v. ri_build source bits = Inr r \<and> ri_view r = Inr v \<and> shows_bits v \<and> rv_bit_count v = bits \<and>
    (\<forall>p\<le>bits. ones_before (rv_words v) p = ones_before source p)"
proof -
  define ws where "ws = (if bits mod 64 \<noteq> 0 then source[length source - 1 := last source AND (push_bit (bits mod 64) 1 - 1)] else source)"
  note cleared = last_cleared [OF n, folded ws_def]
  define N where "N = (bits + 2047) div 2048"
  define full where "full = bits div 2048"
  define r where "r = \<lparr>ri_words = ws, ri_blocks = replicate N \<lparr>rb_before = 0, rb_runs = 0\<rparr>, ri_supers = [], ri_bit_count = bits\<rparr>"
  have len: "length ws = (bits + 63) div 64" using cleared(1) n by simp
  define t where "t = bits mod 2048"
  have b: "bits = 2048 * full + t" "t < 2048" by (simp_all add: full_def t_def)
  have nf: "N = (if t = 0 then full else full + 1)"
    unfolding N_def b(1) using b(2) by (cases "t = 0") (auto intro!: div_nat_eqI)
  have lo: "32 * full \<le> length ws" unfolding len less_eq_div_iff_mult_less_eq [OF zero_less_numeral] using b(1) by simp
  have hi: "length ws \<le> 32 * full + 32"
  proof -
    have "(bits + 63) div 64 < 32 * full + 33" using b by (simp add: div_less_iff_less_mult)
    then show ?thesis using len by simp
  qed
  have f0: "filled ws N r 0" by (simp add: filled_def r_def supers_upto_def)
  obtain epoch r1 where r1: "full_blocks full 0 0 0 r = Inr (epoch, ones_before ws (2048 * full), r1)" "filled ws N r1 full"
    "\<not> starts_epoch full \<Longrightarrow> epoch = epoch_count ws (full - 1)" "ri_bit_count r1 = bits"
  proof -
    have "full \<le> N" using nf by simp
    then have "\<exists>epoch r'. full_blocks full 0 0 (ones_before ws (2048 * 0)) r = Inr (epoch, ones_before ws (2048 * (0 + full)), r') \<and>
        filled ws N r' (0 + full) \<and> (\<not> starts_epoch (0 + full) \<longrightarrow> epoch = epoch_count ws (0 + full - 1)) \<and> ri_bit_count r' = ri_bit_count r"
      using lo by (intro full_blocks_fill [OF f0]) (simp_all add: starts_epoch_def)
    moreover have "ones_before ws (2048 * 0) = 0" "ri_bit_count r = bits" by (simp_all add: ones_before_def r_def)
    ultimately show ?thesis using that unfolding add_0 by metis
  qed
  have run: "ri_build source bits = bindE (full_blocks full 0 0 0 r) (\<lambda>(epoch_base, seen, r).
        if full \<noteq> length (ri_blocks r) then
          bindE (begin_block epoch_base seen full r) (\<lambda>(epoch_base, r).
          bindE (tail_counts (drop (full * 32) (ri_words r)) (full * 32) (full * 32) [0, 0, 0, 0]) (\<lambda>counts.
          set_runs full (pack_runs (counts ! 0) (counts ! 1) (counts ! 2)) r))
        else Inr r)"
    unfolding ri_build_def Let_def r_def N_def full_def ws_def using n max by (intro if_not_P) simp
  obtain r2 where r2: "ri_build source bits = Inr r2" "filled ws N r2 N" "ri_bit_count r2 = bits"
  proof (cases "t = 0")
    case True
    then have "full = length (ri_blocks r1)" using r1(2) nf by (simp add: filled_def)
    then have "ri_build source bits = Inr r1" unfolding run r1(1) by simp
    then show ?thesis using that r1(2,4) True nf by simp
  next
    case False
    then have N: "full < N" "N = full + 1" using nf by simp_all
    obtain rb r2 where s: "begin_block epoch (ones_before ws (2048 * full)) full r1 = Inr (epoch_count ws full, rb)" "ri_words rb = ws"
      "set_runs full (pack_runs (run_count ws (4 * full)) (run_count ws (4 * full + 1)) (run_count ws (4 * full + 2))) rb = Inr r2"
      "filled ws N r2 (full + 1)" "ri_bit_count r2 = ri_bit_count r1"
      using block_step [OF r1(2) N(1) r1(3)] by blast
    have zero: "\<forall>k<4. [0, 0, 0, 0] ! k = clipped ws (32 * full) (32 * full) k"
      by (auto simp: clipped_def less_Suc_eq numeral_eq_Suc)
    obtain counts where c: "tail_counts (drop (32 * full) ws) (32 * full) (32 * full) [0, 0, 0, 0] = Inr counts"
      "\<forall>k<4. counts ! k = clipped ws (32 * full) (length ws) k"
      using tail_counts_clipped [OF refl _ lo hi _ zero] by auto
    have counts: "counts ! 0 = run_count ws (4 * full)" "counts ! 1 = run_count ws (4 * full + 1)" "counts ! 2 = run_count ws (4 * full + 2)"
      using c(2) clipped_run [OF hi lo] by simp_all
    have "full \<noteq> length (ri_blocks r1)" using r1(2) N by (simp add: filled_def)
    then have "ri_build source bits = Inr r2"
      unfolding run r1(1) using s(1,2,3) c(1) counts by (simp add: mult.commute)
    then show ?thesis using that s(4,5) r1(4) N(2) by simp
  qed
  define v where "v = \<lparr>rv_words = ws, rv_blocks = ri_blocks r2, rv_supers = ri_supers r2, rv_bit_count = bits\<rparr>"
  have sup: "length (ri_supers r2) = (bits + 0xffffffff) div 2 ^ 32"
  proof -
    have "(bits + 0xffffffff) div 2 ^ 32 = (bits + 0xffffffff) div 2048 div 2 ^ 21" by (simp flip: div_mult2_eq)
    moreover have "(bits + 0xffffffff) div 2048 = N + 2 ^ 21 - 1" unfolding N_def by (rule div_nat_eqI) simp_all
    ultimately show ?thesis using r2(2) by (simp add: filled_def supers_upto_def)
  qed
  have view: "ri_view r2 = Inr v"
    using r2(2,3) sup len max by (simp add: ri_view_def new_rank_view_def filled_def v_def N_def not_less)
  have shown: "shows_bits v" using r2(2) len max by (simp add: shows_bits_def Let_def v_def filled_def N_def)
  have same: "ones_before ws p = ones_before source p" if "p \<le> bits" for p
    unfolding ones_before_def using that cleared(2) by (intro sum.cong) simp_all
  show ?thesis using r2(1) view shown same by (auto simp: v_def)
qed

text \<open>
  C38. The directory over a bitmap answers every rank query: whatever the words, the builder
  succeeds on the matching number of words, its view accepts what it built, the rank of every
  position is the number of set bits in front of it, the total counts all of them, and positions
  past the end are refused.
\<close>

theorem bitmap_rank_counts_ones:
  assumes "length source = (bits + 63) div 64" "bits \<le> u64_max - 0xffffffff"
  shows "\<exists>r v. ri_build source bits = Inr r \<and> ri_view r = Inr v \<and>
    (\<forall>p<bits. rv_rank v p = Inr (of_nat (\<Sum>i<p. of_bool (bitpos source i)))) \<and>
    (\<forall>p\<ge>bits. \<exists>m. rv_rank v p = Inl (Out_of_range m)) \<and>
    rv_count v = Inr (of_nat (\<Sum>i<bits. of_bool (bitpos source i)))"
proof -
  obtain r v where v: "ri_build source bits = Inr r" "ri_view r = Inr v" "shows_bits v" "rv_bit_count v = bits"
    "\<And>p. p \<le> bits \<Longrightarrow> ones_before (rv_words v) p = ones_before source p"
    using ri_build_shows [OF assms] by blast
  have top: "bits \<le> 64 * length source"
    unfolding assms(1) using div_mult_mod_eq [of "bits + 63" 64] mod_less_divisor [of 64 "bits + 63"] by simp
  have e: "ones_before source p = (\<Sum>i<p. of_bool (bitpos source i))" if "p \<le> bits" for p
    unfolding ones_before_def using that top by (intro sum.cong) (simp_all add: bit_at_def)
  have "rv_rank v p = Inr (of_nat (\<Sum>i<p. of_bool (bitpos source i)))" if "p < bits" for p
    using rv_rank_shows [OF v(3), of p] v(4) v(5) [of p] e [of p] that by simp
  moreover have "rv_count v = Inr (of_nat (\<Sum>i<bits. of_bool (bitpos source i)))"
    using rv_count_shows [OF v(3)] v(4) v(5) [of bits] e [of bits] by simp
  ultimately show ?thesis using v(1,2,4) by (intro exI [of _ r] exI [of _ v]) (simp add: rv_rank_def)
qed

theorem bitmap_rank_counts_ones_witness:
  "\<exists>r v. ri_build [11, 3] 66 = Inr r \<and> ri_view r = Inr v \<and> rv_rank v 65 = Inr (of_nat (\<Sum>i<65. of_bool (bitpos [11, 3] i))) \<and>
    (\<exists>m. rv_rank v 66 = Inl (Out_of_range m))"
proof -
  obtain r v where "ri_build [11, 3] 66 = Inr r" "ri_view r = Inr v"
    "\<forall>p<66. rv_rank v p = Inr (of_nat (\<Sum>i<p. of_bool (bitpos [11, 3] i)))" "\<forall>p\<ge>66. \<exists>m. rv_rank v p = Inl (Out_of_range m)"
    using bitmap_rank_counts_ones [of "[11, 3]" 66] by (auto simp: u64_max_def)
  then show ?thesis by (intro exI [of _ r] exI [of _ v]) simp
qed

end
