(* ===== verification/Sampling.thy ===== *)
theory Sampling
  imports ProfileWalk NativeWriter
begin

text \<open>
  Samples of an ordered stream (\<open>sampling.h\<close>): the encoder that transmits the difference of each
  sample to its predecessor and the decoder that reconstructs the keys.
\<close>

section \<open>Samples\<close>

record profile_sample =
  ps_key :: bit_string
  ps_target_ordinal :: nat

record profile_sample_view =
  sv_key :: bit_view
  sv_target_ordinal :: nat
  sv_source_role :: stream_role
  sv_source_ordinal :: nat

record coded_sample =
  cs_backspace :: nat
  cs_suffix :: bit_string
  cs_target_ordinal :: nat

definition check_ordinal :: "storage_policy \<Rightarrow> nat \<Rightarrow> nat \<Rightarrow> unit res" where
  "check_ordinal p n ordinal =
     (if n > u64_max div group_size p \<or> ordinal \<noteq> n * group_size p
      then Inl (Invalid_argument ''sample ordinals must be consecutive policy groups'') else Inr ())"

text \<open>
  The checks come first; then the context is cut and extended. Growing the buffer before the cut
  only concerns the capacity of the vector, which has no counterpart here.
\<close>

definition replace_suffix :: "bool \<Rightarrow> nat \<Rightarrow> bit_view \<Rightarrow> (bit_string, unit) op" where
  "replace_suffix host kept suffix =
     bindM (liftM (\<lambda>_. profile_add kept (bsize suffix))) (\<lambda>bits.
     if bits > u64_max - 7 then raiseM (Length_error ''sample key is too large'')
     else if byte_count bits > vector_max then raiseM (Length_error ''sample key is too large'')
     else bindM (liftM (\<lambda>context. resize_string context kept)) (\<lambda>context.
       bindM (modifyM (\<lambda>_. context)) (\<lambda>_.
       bindM (liftM (\<lambda>context. append_view host False context suffix)) (\<lambda>context.
       modifyM (\<lambda>_. context)))))"

section \<open>The two endpoints\<close>

text \<open>Encoder and decoder keep the same state: the last sample and the number of samples.\<close>

record sample_endpoint =
  se_key :: bit_string
  se_count :: nat

definition new_endpoint :: sample_endpoint where
  "new_endpoint = \<lparr>se_key = empty_string, se_count = 0\<rparr>"

definition on_key :: "(bit_string, 'a) op \<Rightarrow> (sample_endpoint, 'a) op" where
  "on_key m = (\<lambda>e. case m (se_key e) of (r, key) \<Rightarrow> (r, e\<lparr>se_key := key\<rparr>))"

definition count_sample :: "(sample_endpoint, unit) op" where
  "count_sample = modifyM (\<lambda>e. e\<lparr>se_count := u64_add (se_count e) 1\<rparr>)"

definition encode_known ::
  "bool \<Rightarrow> storage_policy \<Rightarrow> bit_view \<Rightarrow> nat \<Rightarrow> nat \<Rightarrow> (sample_endpoint, coded_sample) op" where
  "encode_known host p key ordinal common =
     (let kept = common div bits_per_unit p in
      bindM (liftM (\<lambda>_. profile_multiply kept (bits_per_unit p))) (\<lambda>kept_bits.
      bindM (getM (\<lambda>e. bit_size (se_key e) div bits_per_unit p - kept)) (\<lambda>back.
      bindM (liftM (\<lambda>_. bindE (subview key kept_bits (bsize key - kept_bits)) (copy_string host))) (\<lambda>suffix.
      bindM (liftM (\<lambda>_. string_view suffix)) (\<lambda>v.
      bindM (on_key (replace_suffix host kept_bits v)) (\<lambda>_.
      bindM count_sample (\<lambda>_.
      returnM \<lparr>cs_backspace = back, cs_suffix = suffix, cs_target_ordinal = ordinal\<rparr>)))))))"

definition sample_encode :: "bool \<Rightarrow> storage_policy \<Rightarrow> bit_view \<Rightarrow> nat \<Rightarrow> (sample_endpoint, coded_sample) op" where
  "sample_encode host p key ordinal =
     bindM (liftM (\<lambda>e. check_ordinal p (se_count e) ordinal)) (\<lambda>_.
     if \<not> unit_multiple p (bsize key) then raiseM (Invalid_argument ''sample key unit mismatch'')
     else bindM (liftM (\<lambda>e. bindE (string_view (se_key e)) (\<lambda>previous. compare_common_bits host previous key))) (\<lambda>comparison.
       if order comparison > 0 then raiseM (Invalid_argument ''sample keys must be sorted'')
       else encode_known host p key ordinal (common_bits comparison)))"

definition sample_accept_full :: "bool \<Rightarrow> storage_policy \<Rightarrow> bit_view \<Rightarrow> nat \<Rightarrow> (sample_endpoint, bit_comparison) op" where
  "sample_accept_full host p key ordinal =
     bindM (liftM (\<lambda>e. check_ordinal p (se_count e) ordinal)) (\<lambda>_.
     if \<not> unit_multiple p (bsize key) then raiseM (Invalid_argument ''sample key unit mismatch'')
     else bindM (liftM (\<lambda>e. bindE (string_view (se_key e)) (\<lambda>previous. compare_common_bits host previous key))) (\<lambda>comparison.
       if order comparison > 0 then raiseM (Invalid_argument ''sample keys must be sorted'')
       else let kept = common_bits comparison div 8 * 8 in
         bindM (liftM (\<lambda>_. subview key kept (bsize key - kept))) (\<lambda>suffix.
         bindM (on_key (replace_suffix host kept suffix)) (\<lambda>_.
         bindM count_sample (\<lambda>_. returnM comparison)))))"

definition sample_accept_compared ::
  "bool \<Rightarrow> storage_policy \<Rightarrow> coded_sample \<Rightarrow> (sample_endpoint, bit_view \<times> bit_comparison) op" where
  "sample_accept_compared host p sample =
     bindM (liftM (\<lambda>e. check_ordinal p (se_count e) (cs_target_ordinal sample))) (\<lambda>_.
     bindM (liftM (\<lambda>_. string_view (cs_suffix sample))) (\<lambda>suffix.
     if \<not> unit_multiple p (bsize suffix) then raiseM (Invalid_argument ''sample suffix unit mismatch'')
     else bindM (liftM (\<lambda>e. string_view (se_key e))) (\<lambda>previous.
       let previous_units = bsize previous div bits_per_unit p in
       if cs_backspace sample > previous_units then raiseM (Invalid_argument ''sample backspace exceeds previous key'')
       else bindM (liftM (\<lambda>_. profile_multiply (previous_units - cs_backspace sample) (bits_per_unit p))) (\<lambda>kept.
         bindM (liftM (\<lambda>_. bindE (subview previous kept (bsize previous - kept)) (\<lambda>rest.
           compare_common_bits host rest suffix))) (\<lambda>comparison.
         if order comparison > 0 then raiseM (Invalid_argument ''sample keys must be sorted'')
         else bindM (on_key (replace_suffix host kept suffix)) (\<lambda>_.
           bindM count_sample (\<lambda>_.
           bindM (liftM (\<lambda>e. string_view (se_key e))) (\<lambda>key.
           returnM (key, comparison\<lparr>common_bits := common_bits comparison + kept\<rparr>)))))))))"

definition sample_accept :: "bool \<Rightarrow> storage_policy \<Rightarrow> coded_sample \<Rightarrow> (sample_endpoint, bit_view) op" where
  "sample_accept host p sample = bindM (sample_accept_compared host p sample) (\<lambda>(key, _). returnM key)"

section \<open>One sample\<close>

lemma replace_suffix_holds:
  assumes s: "string_ok s" "kept \<le> bit_size s" and v: "view_ok v" "kept + bsize v \<le> u64_max - 7"
  shows "\<exists>t. replace_suffix host kept v s = (Inr (), t) \<and> string_ok t \<and>
    string_bits t = take kept (string_bits s) @ view_bits v"
proof -
  obtain a where a: "resize_string s kept = Inr a" "string_ok a" "bit_size a = kept" "string_bits a = take kept (string_bits s)"
    using resize_string_bits [OF s(1), of kept] s(2) v(2) length_string_bits [OF s(1)] by auto
  obtain t where t: "append_view host False a v = Inr t" "string_ok t" "string_bits t = string_bits a @ view_bits v"
    using append_view_bits [OF a(2) v(1), of host False] a(3) v(2) by auto
  have add: "profile_add kept (bsize v) = Inr (kept + bsize v)" using v(2) by (simp add: profile_add_def u64_max_def)
  have cap: "\<not> kept + bsize v > u64_max - 7" "\<not> byte_count (kept + bsize v) > vector_max"
    using v(2) byte_count_bounds(2) [of "kept + bsize v"] by (simp_all add: vector_max_def u64_max_def)
  show ?thesis
    using a(1,4) t cap by (simp add: replace_suffix_def add)
qed

definition endpoint_ok :: "storage_policy \<Rightarrow> sample_endpoint \<Rightarrow> bool" where
  "endpoint_ok p e \<longleftrightarrow> string_ok (se_key e) \<and> unit_multiple p (bit_size (se_key e))"

lemma new_endpoint_ok [simp]: "endpoint_ok p new_endpoint" "se_count new_endpoint = 0" "string_bits (se_key new_endpoint) = []"
  by (simp_all add: endpoint_ok_def new_endpoint_def unit_multiple_def)

text \<open>An endpoint that has taken a key.\<close>

definition took :: "storage_policy \<Rightarrow> bool list \<Rightarrow> sample_endpoint \<Rightarrow> sample_endpoint \<Rightarrow> bool" where
  "took p key e e' \<longleftrightarrow> endpoint_ok p e' \<and> string_bits (se_key e') = key \<and> se_count e' = Suc (se_count e)"

text \<open>The next sample in order, and what is transmitted for it.\<close>

definition due :: "storage_policy \<Rightarrow> sample_endpoint \<Rightarrow> nat \<Rightarrow> bool" where
  "due p e ordinal \<longleftrightarrow> se_count e \<le> u64_max div group_size p \<and> ordinal = se_count e * group_size p"

definition kept_units :: "storage_policy \<Rightarrow> bool list \<Rightarrow> bool list \<Rightarrow> nat" where
  "kept_units p previous key = lcp previous key div bits_per_unit p"

lemma check_ordinal_due: "check_ordinal p (se_count e) ordinal = (if due p e ordinal
    then Inr () else Inl (Invalid_argument ''sample ordinals must be consecutive policy groups''))"
  by (auto simp: check_ordinal_def due_def)

lemma due_count: "3 \<le> group_size p \<Longrightarrow> due p e ordinal \<Longrightarrow> u64_add (se_count e) 1 = Suc (se_count e)"
proof -
  assume g: "3 \<le> group_size p" and d: "due p e ordinal"
  have "se_count e * 3 \<le> se_count e * group_size p" using g by (rule mult_le_mono2)
  also have "\<dots> \<le> u64_max div group_size p * group_size p" using d by (intro mult_le_mono1) (simp add: due_def)
  also have "\<dots> \<le> u64_max" by simp
  finally show ?thesis by (simp add: u64_add_def u64_max_def)
qed

lemma on_key_eq: "m (se_key e) = (r, k) \<Longrightarrow> on_key m e = (r, e\<lparr>se_key := k\<rparr>)"
  by (simp add: on_key_def)

text \<open>Encoding decides the checks and transmits the difference.\<close>

lemma sample_encode_holds:
  assumes p: "policy_ok p" and e: "endpoint_ok p e" and key: "view_ok key" "bsize key \<le> u64_max - 7" "unit_multiple p (bsize key)"
    and ord: "due p e ordinal" "lex (string_bits (se_key e)) (view_bits key) \<le> 0"
  shows "\<exists>s e'. sample_encode host p key ordinal e = (Inr s, e') \<and> took p (view_bits key) e e' \<and>
    string_ok (cs_suffix s) \<and> cs_target_ordinal s = ordinal \<and>
    cs_backspace s = length (string_bits (se_key e)) div bits_per_unit p - kept_units p (string_bits (se_key e)) (view_bits key) \<and>
    string_bits (cs_suffix s) = drop (kept_units p (string_bits (se_key e)) (view_bits key) * bits_per_unit p) (view_bits key)"
proof -
  let ?u = "bits_per_unit p" and ?a = "string_bits (se_key e)" and ?b = "view_bits key" let ?n = "kept_units p ?a ?b"
  have sk: "string_ok (se_key e)" and la: "length ?a = bit_size (se_key e)" and lb: "length ?b = bsize key"
    using e length_string_bits [of "se_key e"] length_view_bits [OF key(1)] by (simp_all add: endpoint_ok_def)
  have le: "?n * ?u \<le> lcp ?a ?b" unfolding kept_units_def by simp
  note ag = take_lcp_split [OF le]
  have lu: "?n * ?u \<le> bsize key" "?n * ?u \<le> bit_size (se_key e)" using ag(2,3) la lb by simp_all
  obtain v where v: "string_view (se_key e) = Inr v" "view_ok v" "view_bits v = ?a" using string_view_ok [OF sk] by blast
  have cmp: "compare_common_bits host v key = Inr \<lparr>common_bits = lcp ?a ?b, order = lex ?a ?b\<rparr>"
    using compare_common_bits_spec [OF v(2) key(1)] v(3) by simp
  obtain x where x: "subview key (?n * ?u) (bsize key - ?n * ?u) = Inr x" "view_ok x" "view_bits x = drop (?n * ?u) ?b"
    "bsize x = bsize key - ?n * ?u" using subview_rest [OF key(1) lu(1)] by blast
  obtain suf where suf: "copy_string host x = Inr suf" "string_ok suf" "string_bits suf = view_bits x" "bit_size suf = bsize x"
    using copy_string_ok [OF x(2) le_trans [OF eq_refl [OF x(4)] le_trans [OF diff_le_self key(2)]], of host] by blast
  obtain y where y: "string_view suf = Inr y" "view_ok y" "view_bits y = string_bits suf" "bsize y = bit_size suf"
    using string_view_ok [OF suf(2)] by blast
  obtain t where t: "replace_suffix host (?n * ?u) y (se_key e) = (Inr (), t)" "string_ok t"
    "string_bits t = take (?n * ?u) ?a @ view_bits y"
    using replace_suffix_holds [OF sk lu(2) y(2), of host] y(4) suf(4) x(4) key(2) lu(1) by auto
  have tb: "string_bits t = ?b" unfolding t(3) y(3) suf(3) x(3) using ag(1) by simp
  have tu: "unit_multiple p (bit_size t)" using key(3) lb length_string_bits [OF t(2)] tb by simp
  have mult: "profile_multiply ?n ?u = Inr (?n * ?u)" using lu(1) key(2) by (intro multiply_units) simp
  have g: "3 \<le> group_size p" using p by (simp add: policy_ok_def)
  have no: "\<not> lex ?a ?b > 0" using ord(2) by simp
  let ?e' = "e\<lparr>se_key := t, se_count := Suc (se_count e)\<rparr>"
  have "encode_known host p key ordinal (lcp ?a ?b) e = (Inr \<lparr>cs_backspace = bit_size (se_key e) div ?u - ?n,
      cs_suffix = suf, cs_target_ordinal = ordinal\<rparr>, ?e')"
    using mult x(1) suf(1) y(1) on_key_eq [where m = "replace_suffix host (?n * ?u) y", OF t(1)] due_count [OF g ord(1)]
    by (simp add: encode_known_def Let_def kept_units_def [symmetric] count_sample_def)
  then have "sample_encode host p key ordinal e = (Inr \<lparr>cs_backspace = bit_size (se_key e) div ?u - ?n,
      cs_suffix = suf, cs_target_ordinal = ordinal\<rparr>, ?e')"
    using ord(1) key(3) v(1) cmp no by (simp add: sample_encode_def check_ordinal_due bindM_apply)
  then show ?thesis
    using suf(2) t(2) tb tu x(3) suf(3) la by (simp add: took_def endpoint_ok_def)
qed

text \<open>Decoding decides the checks; a refused sample changes nothing.\<close>

definition acceptable :: "storage_policy \<Rightarrow> sample_endpoint \<Rightarrow> coded_sample \<Rightarrow> bool" where
  "acceptable p e s \<longleftrightarrow> due p e (cs_target_ordinal s) \<and> unit_multiple p (bit_size (cs_suffix s)) \<and>
     cs_backspace s \<le> length (string_bits (se_key e)) div bits_per_unit p \<and>
     lex (drop ((length (string_bits (se_key e)) div bits_per_unit p - cs_backspace s) * bits_per_unit p) (string_bits (se_key e)))
       (string_bits (cs_suffix s)) \<le> 0"

lemma sample_accept_compared_holds:
  assumes p: "policy_ok p" and e: "endpoint_ok p e" and s: "string_ok (cs_suffix s)"
    and r: "r = (length (string_bits (se_key e)) div bits_per_unit p - cs_backspace s) * bits_per_unit p"
    and fit: "r + bit_size (cs_suffix s) \<le> u64_max - 7"
  shows "if acceptable p e s
    then let key = take r (string_bits (se_key e)) @ string_bits (cs_suffix s) in
      \<exists>v e'. sample_accept_compared host p s e = (Inr (v, \<lparr>common_bits = lcp (string_bits (se_key e)) key,
          order = lex (string_bits (se_key e)) key\<rparr>), e') \<and> view_bits v = key \<and> took p key e e'
    else \<exists>x. sample_accept_compared host p s e = (Inl (Invalid_argument x), e)"
proof -
  let ?u = "bits_per_unit p" and ?a = "string_bits (se_key e)" and ?b = "string_bits (cs_suffix s)"
  have sk: "string_ok (se_key e)" and la: "length ?a = bit_size (se_key e)" and uk: "unit_multiple p (bit_size (se_key e))"
    using e length_string_bits [of "se_key e"] by (simp_all add: endpoint_ok_def)
  have ra: "r \<le> bit_size (se_key e)"
  proof -
    have "r \<le> length ?a div ?u * ?u" unfolding r by (intro mult_le_mono1) simp
    then show ?thesis using units_exact [OF uk] la by simp
  qed
  obtain v where v: "string_view (se_key e) = Inr v" "view_ok v" "view_bits v = ?a" "bsize v = bit_size (se_key e)"
    using string_view_ok [OF sk] by blast
  obtain y where y: "string_view (cs_suffix s) = Inr y" "view_ok y" "view_bits y = ?b" "bsize y = bit_size (cs_suffix s)"
    using string_view_ok [OF s] by blast
  obtain x where x: "subview v r (bsize v - r) = Inr x" "view_ok x" "view_bits x = drop r ?a"
    using subview_rest [OF v(2), of r] ra v(3,4) by auto
  have cmp: "compare_common_bits host x y = Inr \<lparr>common_bits = lcp (drop r ?a) ?b, order = lex (drop r ?a) ?b\<rparr>"
    using compare_common_bits_spec [OF x(2) y(2)] x(3) y(3) by simp
  have mult: "profile_multiply (bit_size (se_key e) div ?u - cs_backspace s) ?u = Inr r"
    unfolding r la by (rule multiply_units) (use fit r la in simp)
  show ?thesis
  proof (cases "acceptable p e s")
    case True
    have g: "3 \<le> group_size p" using p by (simp add: policy_ok_def)
    have acc: "due p e (cs_target_ordinal s)" "unit_multiple p (bit_size (cs_suffix s))"
        "cs_backspace s \<le> bit_size (se_key e) div ?u" "\<not> 0 < lex (drop r ?a) ?b"
      using True unfolding acceptable_def r [symmetric] by (simp_all add: la)
    obtain t where t: "replace_suffix host r y (se_key e) = (Inr (), t)" "string_ok t" "string_bits t = take r ?a @ view_bits y"
      using replace_suffix_holds [OF sk ra y(2), of host] y(4) fit by auto
    let ?e' = "e\<lparr>se_key := t, se_count := Suc (se_count e)\<rparr>"
    obtain w where w: "string_view t = Inr w" "view_bits w = string_bits t" using string_view_ok [OF t(2)] by blast
    have "bit_size t = r + bit_size (cs_suffix s)"
      using length_string_bits [OF t(2)] length_string_bits [OF s] t(3) y(3) ra la by simp
    moreover have "unit_multiple p r" unfolding r unit_multiple_iff by (rule exI) (rule refl)
    moreover have "unit_multiple p (bit_size (cs_suffix s))" using True by (simp add: acceptable_def)
    ultimately have um: "unit_multiple p (bit_size t)" by (metis add_mult_distrib unit_multiple_iff)
    have inh: "lcp ?a (take r ?a @ ?b) = r + lcp (drop r ?a) ?b" "lex ?a (take r ?a @ ?b) = lex (drop r ?a) ?b"
      using inherit_compare [of r ?a ?b] ra la by simp_all
    have "sample_accept_compared host p s e = (Inr (w, \<lparr>common_bits = lcp ?a (take r ?a @ ?b), order = lex ?a (take r ?a @ ?b)\<rparr>), ?e')"
      using acc v(1,4) y(1,4) mult x(1) cmp on_key_eq [where m = "replace_suffix host r y", OF t(1)] due_count [OF g acc(1)] w(1) la
      by (simp add: sample_accept_compared_def check_ordinal_due inh bindM_apply count_sample_def Let_def add.commute)
    then show ?thesis using True t(2,3) um w(2) y(3) by (simp add: took_def endpoint_ok_def)
  next
    case False
    then have "\<not> (due p e (cs_target_ordinal s) \<and> unit_multiple p (bit_size (cs_suffix s)) \<and>
        cs_backspace s \<le> bit_size (se_key e) div ?u \<and> lex (drop r ?a) ?b \<le> 0)"
      unfolding acceptable_def r [symmetric] by (simp add: la)
    moreover have "\<not> acceptable p e s" by (rule False)
    ultimately show ?thesis
      using v(1,4) y(1,4) mult x(1) cmp
      by (auto simp: sample_accept_compared_def check_ordinal_due bindM_apply Let_def)
  qed
qed

section \<open>Both ends\<close>

text \<open>A sender that numbers its samples, and a receiver that shows the keys it reconstructs.\<close>

fun send_samples :: "bool \<Rightarrow> storage_policy \<Rightarrow> bit_view list \<Rightarrow> (sample_endpoint, coded_sample list) op" where
  "send_samples host p [] = returnM []"
| "send_samples host p (key # keys) =
     bindM (getM (\<lambda>e. se_count e * group_size p)) (\<lambda>ordinal. bindM (sample_encode host p key ordinal) (\<lambda>s.
     bindM (send_samples host p keys) (\<lambda>ss. returnM (s # ss))))"

fun receive_samples :: "bool \<Rightarrow> storage_policy \<Rightarrow> coded_sample list \<Rightarrow> (sample_endpoint, bool list list) op" where
  "receive_samples host p [] = returnM []"
| "receive_samples host p (s # ss) =
     bindM (sample_accept host p s) (\<lambda>v. bindM (receive_samples host p ss) (\<lambda>keys. returnM (view_bits v # keys)))"

text \<open>The bits a sequence of keys costs: each sample only carries what its predecessor does not have.\<close>

fun suffixes :: "storage_policy \<Rightarrow> bool list \<Rightarrow> bool list list \<Rightarrow> bool list list" where
  "suffixes p previous [] = []"
| "suffixes p previous (key # keys) =
     drop (kept_units p previous key * bits_per_unit p) key # suffixes p key keys"

lemma both_ends_agree:
  assumes p: "policy_ok p"
  shows "endpoint_ok p e \<Longrightarrow> endpoint_ok p d \<Longrightarrow> se_key d = se_key e \<Longrightarrow> se_count d = se_count e \<Longrightarrow>
    (\<And>k. k \<in> set keys \<Longrightarrow> view_ok k \<and> bsize k \<le> u64_max - 7 \<and> unit_multiple p (bsize k)) \<Longrightarrow>
    successively (\<lambda>a b. lex a b \<le> 0) (string_bits (se_key e) # map view_bits keys) \<Longrightarrow>
    (se_count e + length keys) * group_size p \<le> u64_max \<Longrightarrow>
    \<exists>ss e' d'. send_samples host p keys e = (Inr ss, e') \<and> receive_samples host' p ss d = (Inr (map view_bits keys), d') \<and>
      se_count e' = se_count e + length keys \<and> se_count d' = se_count e' \<and> se_key d' = se_key e' \<and>
      map cs_target_ordinal ss = map (\<lambda>i. (se_count e + i) * group_size p) [0..<length keys] \<and>
      map (\<lambda>s. string_bits (cs_suffix s)) ss = suffixes p (string_bits (se_key e)) (map view_bits keys)"
proof (induction keys arbitrary: e d)
  case Nil
  then show ?case by simp
next
  case (Cons key keys)
  let ?u = "bits_per_unit p" and ?a = "string_bits (se_key e)" and ?b = "view_bits key" let ?n = "kept_units p ?a ?b"
    and ?o = "se_count e * group_size p"
  have key: "view_ok key" "bsize key \<le> u64_max - 7" "unit_multiple p (bsize key)" using Cons.prems(5) [of key] by simp_all
  have g: "0 < group_size p" using p by (simp add: policy_ok_def)
  have sum: "(se_count e + length (key # keys)) * group_size p = ?o + (Suc (length keys)) * group_size p"
    by (simp add: add_mult_distrib)
  have "?o \<le> u64_max" using Cons.prems(7) unfolding sum by simp
  then have "due p e ?o" using g by (simp add: due_def less_eq_div_iff_mult_less_eq)
  note due = this
  have ordered: "lex ?a ?b \<le> 0" using Cons.prems(6) by simp
  obtain s e1 where s: "sample_encode host p key ?o e = (Inr s, e1)" "took p ?b e e1" "string_ok (cs_suffix s)"
      "cs_target_ordinal s = ?o" "cs_backspace s = length ?a div ?u - ?n" "string_bits (cs_suffix s) = drop (?n * ?u) ?b"
    using sample_encode_holds [OF p Cons.prems(1) key due ordered, of host] by blast
  have le: "?n * ?u \<le> lcp ?a ?b" unfolding kept_units_def by simp
  note ag = take_lcp_split [OF le]
  have un: "?n \<le> length ?a div ?u" using div_le_mono [OF ag(2), of ?u] by simp
  then have bk: "length ?a div ?u - cs_backspace s = ?n" unfolding s(5) by simp
  have ls: "?n * ?u + bit_size (cs_suffix s) = bsize key"
    using length_string_bits [OF s(3)] s(6) ag(3) length_view_bits [OF key(1)] by simp
  have whole: "take (?n * ?u) ?a @ string_bits (cs_suffix s) = ?b" unfolding s(6) using ag(1) by simp
  have um: "unit_multiple p (bit_size (cs_suffix s))"
  proof -
    obtain k where "bsize key = k * ?u" using key(3) by (auto simp: unit_multiple_iff)
    then have "bit_size (cs_suffix s) = (k - ?n) * ?u" using ls by (simp add: diff_mult_distrib)
    then show ?thesis unfolding unit_multiple_iff ..
  qed
  have "lex (drop (?n * ?u) ?a) (string_bits (cs_suffix s)) \<le> 0"
    using inherit_compare(2) [OF ag(2), of "string_bits (cs_suffix s)"] ordered unfolding whole by simp
  then have acc: "acceptable p d s"
    using due um s(4) Cons.prems(3,4) unfolding acceptable_def bk [unfolded Cons.prems(3) [symmetric]] by (simp add: due_def s(5))
  obtain v d1 where d1: "sample_accept_compared host' p s d = (Inr (v, \<lparr>common_bits = lcp ?a ?b, order = lex ?a ?b\<rparr>), d1)"
      "view_bits v = ?b" "took p ?b d d1"
    using sample_accept_compared_holds [OF p Cons.prems(2) s(3) refl, of host'] acc ls key(2) bk whole
    by (auto simp: Cons.prems(3) Let_def)
  have ok: "endpoint_ok p e1" "endpoint_ok p d1" "se_count e1 = Suc (se_count e)" "se_count d1 = se_count e1"
    using s(2) d1(3) Cons.prems(4) by (simp_all add: took_def)
  have same: "se_key d1 = se_key e1"
    using s(2) d1(3) string_ok_eq [of "se_key d1" "se_key e1"] by (auto simp: took_def endpoint_ok_def)
  have kb: "string_bits (se_key e1) = ?b" using s(2) by (simp add: took_def)
  obtain ss e' d' where ih: "send_samples host p keys e1 = (Inr ss, e')" "receive_samples host' p ss d1 = (Inr (map view_bits keys), d')"
      "se_count e' = se_count e1 + length keys" "se_count d' = se_count e'" "se_key d' = se_key e'"
      "map cs_target_ordinal ss = map (\<lambda>i. (se_count e1 + i) * group_size p) [0..<length keys]"
      "map (\<lambda>s. string_bits (cs_suffix s)) ss = suffixes p (string_bits (se_key e1)) (map view_bits keys)"
    using Cons.IH [OF ok(1,2) same ok(4)] Cons.prems(5-7) ok(3) kb by (auto simp: successively_Cons)
  have "[0..<length (key # keys)] = 0 # map Suc [0..<length keys]" by (simp add: upt_conv_Cons map_Suc_upt del: upt_Suc)
  then have "map cs_target_ordinal (s # ss) = map (\<lambda>i. (se_count e + i) * group_size p) [0..<length (key # keys)]"
    using s(4) ih(6) ok(3) by simp
  moreover have "send_samples host p (key # keys) e = (Inr (s # ss), e')" using s(1) ih(1) by simp
  moreover have "receive_samples host' p (s # ss) d = (Inr (map view_bits (key # keys)), d')"
    using d1(1,2) ih(2) by (simp add: sample_accept_def)
  ultimately show ?case using ih(3-5,7) ok(3) s(6) kb by auto
qed

section \<open>Properties\<close>

text \<open>
  C8. A decoder follows its encoder. For any sorted sequence of keys whose lengths are whole units,
  repeated keys included, the encoder emits one sample per key, numbered by policy groups, that
  carries nothing but the units its predecessor lacks; the decoder, on a host of either byte order,
  reconstructs exactly the keys, and both ends are left in the same state.
\<close>

theorem samples_round_trip:
  assumes "policy_ok p" "length keys * group_size p \<le> u64_max"
    and "\<forall>k\<in>set keys. view_ok k \<and> bsize k \<le> u64_max - 7 \<and> unit_multiple p (bsize k)"
    and "successively (\<lambda>a b. lex a b \<le> 0) (map view_bits keys)"
  shows "\<exists>ss e. send_samples host p keys new_endpoint = (Inr ss, e) \<and>
    receive_samples host' p ss new_endpoint = (Inr (map view_bits keys), e) \<and>
    map cs_target_ordinal ss = map (\<lambda>i. i * group_size p) [0..<length keys] \<and>
    map (\<lambda>s. string_bits (cs_suffix s)) ss = suffixes p [] (map view_bits keys)"
proof -
  have "lex [] b \<le> 0" for b by (cases b) simp_all
  then have sorted: "successively (\<lambda>a b. lex a b \<le> 0) (string_bits (se_key new_endpoint) # map view_bits keys)"
    using assms(4) by (simp add: successively_Cons)
  obtain ss e d where r: "send_samples host p keys new_endpoint = (Inr ss, e)"
      "receive_samples host' p ss new_endpoint = (Inr (map view_bits keys), d)" "se_count d = se_count e" "se_key d = se_key e"
      "map cs_target_ordinal ss = map (\<lambda>i. (se_count new_endpoint + i) * group_size p) [0..<length keys]"
      "map (\<lambda>s. string_bits (cs_suffix s)) ss = suffixes p (string_bits (se_key new_endpoint)) (map view_bits keys)"
    using both_ends_agree [OF assms(1) new_endpoint_ok(1) new_endpoint_ok(1) refl refl _ sorted, of host host'] assms(2,3) by auto
  have "d = e" using r(3,4) by simp
  then show ?thesis using r by simp
qed

definition sample_ab :: bit_view where
  "sample_ab = \<lparr>storage = [97, 98], offset = 0, bsize = 16\<rparr>"

definition sample_ac :: bit_view where
  "sample_ac = \<lparr>storage = [97, 99, 1], offset = 0, bsize = 24\<rparr>"

lemma sample_bits:
  "view_bits sample_ab = byte_bits 97 @ byte_bits 98" "view_bits sample_ac = byte_bits 97 @ byte_bits 99 @ byte_bits 1"
  "view_ok sample_ab" "view_ok sample_ac" "bsize sample_ab = 16" "bsize sample_ac = 24"
  by (simp_all add: sample_ab_def sample_ac_def view_ok_def view_bits_def byte_bits_def bits_of_def upt_rec)

lemma samples_round_trip_witness:
  "\<exists>ss e. send_samples True default_policy [sample_ab, sample_ab, sample_ac] new_endpoint = (Inr ss, e) \<and>
    receive_samples False default_policy ss new_endpoint =
      (Inr [byte_bits 97 @ byte_bits 98, byte_bits 97 @ byte_bits 98, byte_bits 97 @ byte_bits 99 @ byte_bits 1], e) \<and>
    map cs_target_ordinal ss = [0, 15, 30] \<and>
    map (\<lambda>s. string_bits (cs_suffix s)) ss = [byte_bits 97 @ byte_bits 98, [], byte_bits 99 @ byte_bits 1]"
proof -
  let ?keys = "[sample_ab, sample_ab, sample_ac]"
  have u: "bits_per_unit default_policy = 8" by (simp add: bits_per_unit_def unit_shift_def)
  have ok: "\<forall>k\<in>set ?keys. view_ok k \<and> bsize k \<le> u64_max - 7 \<and> unit_multiple default_policy (bsize k)"
    by (simp add: sample_bits unit_multiple_def u u64_max_def)
  have bits: "byte_bits 97 = [False, True, True, False, False, False, False, True]"
    "byte_bits 98 = [False, True, True, False, False, False, True, False]"
    "byte_bits 99 = [False, True, True, False, False, False, True, True]"
    by (simp_all add: byte_bits_def bits_of_def upt_rec)
  have sorted: "successively (\<lambda>a b. lex a b \<le> 0) (map view_bits ?keys)"
    by (simp add: sample_bits bits)
  have suf: "suffixes default_policy [] (map view_bits ?keys) = [byte_bits 97 @ byte_bits 98, [], byte_bits 99 @ byte_bits 1]"
    by (simp add: sample_bits bits kept_units_def u)
  have g: "group_size default_policy = 15" by (simp add: default_policy_def)
  show ?thesis
    using samples_round_trip [OF default_policies_ok(1) _ ok sorted, of True False] suf
    by (auto simp: g sample_bits u64_max_def upt_rec)
qed

text \<open>
  C32. A decoder takes exactly the samples that continue its sequence. Whatever sample arrives, it is
  taken when its ordinal is the next policy group, its suffix is whole units, its backspace stays
  inside the last key and the key it describes does not precede the last one; the decoder then
  holds that key. Every other sample raises \<open>invalid_argument\<close> and leaves the decoder as it was.
\<close>

theorem decoder_takes_only_continuations:
  assumes "policy_ok p" "endpoint_ok p e" "string_ok (cs_suffix s)"
    and "r = (length (string_bits (se_key e)) div bits_per_unit p - cs_backspace s) * bits_per_unit p"
    and "r + bit_size (cs_suffix s) \<le> u64_max - 7"
    and "key = take r (string_bits (se_key e)) @ string_bits (cs_suffix s)"
  shows "if due p e (cs_target_ordinal s) \<and> unit_multiple p (bit_size (cs_suffix s)) \<and>
       cs_backspace s \<le> length (string_bits (se_key e)) div bits_per_unit p \<and> lex (string_bits (se_key e)) key \<le> 0
    then \<exists>v e'. sample_accept host p s e = (Inr v, e') \<and> view_bits v = key \<and> string_bits (se_key e') = key \<and>
      se_count e' = Suc (se_count e) \<and> endpoint_ok p e'
    else \<exists>x. sample_accept host p s e = (Inl (Invalid_argument x), e)"
proof -
  have "r \<le> length (string_bits (se_key e))"
  proof -
    have "r \<le> length (string_bits (se_key e)) div bits_per_unit p * bits_per_unit p" unfolding assms(4) by (intro mult_le_mono1) simp
    also have "\<dots> \<le> length (string_bits (se_key e))" by simp
    finally show ?thesis .
  qed
  then have "lex (string_bits (se_key e)) key = lex (drop r (string_bits (se_key e))) (string_bits (cs_suffix s))"
    unfolding assms(6) by (rule inherit_compare(2))
  then have "acceptable p e s \<longleftrightarrow> due p e (cs_target_ordinal s) \<and> unit_multiple p (bit_size (cs_suffix s)) \<and>
       cs_backspace s \<le> length (string_bits (se_key e)) div bits_per_unit p \<and> lex (string_bits (se_key e)) key \<le> 0"
    by (simp add: acceptable_def assms(4) [symmetric])
  then show ?thesis
    using sample_accept_compared_holds [OF assms(1-5), of host] assms(6)
    by (auto simp: sample_accept_def took_def Let_def bindM_apply)
qed

lemma decoder_takes_only_continuations_witness:
  "\<exists>v e. sample_accept True default_policy \<lparr>cs_backspace = 0, cs_suffix = \<lparr>bytes = [97], bit_size = 8\<rparr>, cs_target_ordinal = 0\<rparr>
    new_endpoint = (Inr v, e) \<and> view_bits v = byte_bits 97 \<and> se_count e = 1"
proof -
  let ?s = "\<lparr>cs_backspace = 0, cs_suffix = \<lparr>bytes = [97], bit_size = 8\<rparr>, cs_target_ordinal = 0\<rparr>"
  have ok: "string_ok (cs_suffix ?s)" by (simp add: string_ok_def string_bits_def byte_count_def byte_bits_def bits_of_def upt_rec u64_max_def)
  have bits: "string_bits (cs_suffix ?s) = byte_bits 97" by (simp add: string_bits_def byte_bits_def bits_of_def upt_rec)
  have "lex [] xs \<le> 0" for xs by (cases xs) simp_all
  then show ?thesis
    using decoder_takes_only_continuations [OF default_policies_ok(1) new_endpoint_ok(1) ok refl _ refl, of True] bits
    by (auto simp: due_def unit_multiple_def bits_per_unit_def unit_shift_def u64_max_def)
qed

end
