(* ===== verification/SampleDraw.thy ===== *)
theory SampleDraw
  imports Sampling
begin

text \<open>
  The cursor that draws samples (\<open>sampling.h\<close>): every \<open>group_size\<close>-th occurrence of the merge of
  the native and the borrowed stream of a blob, a native entry in front of equal borrowed ones.
\<close>

section \<open>Drawing samples from a pair of streams\<close>

record sampling_work =
  sw_native_entries :: nat
  sw_borrowed_entries :: nat
  sw_decoded_entries :: nat
  sw_key_comparisons :: nat

definition consumed_entries :: "sampling_work \<Rightarrow> nat" where
  "consumed_entries w = u64_add (sw_native_entries w) (sw_borrowed_entries w)"

text \<open>What a cursor uses of its pinned target: the two streams and the number of occurrences.\<close>

record sample_target =
  st_native :: profile_view
  st_borrowed :: profile_view
  st_virtual_size :: nat

record sample_cursor =
  sc_target :: sample_target
  sc_native :: profile_cursor
  sc_borrowed :: profile_cursor
  sc_work :: sampling_work
  sc_ordinal :: nat
  sc_next_borrowed :: bool

definition choose_next :: "bool \<Rightarrow> (sample_cursor, unit) op" where
  "choose_next host =
     bindM (getM (\<lambda>c. (cursor_at_end (sc_native c), cursor_at_end (sc_borrowed c)))) (\<lambda>(no_native, no_borrowed).
     if no_native then modifyM (\<lambda>c. c\<lparr>sc_next_borrowed := True\<rparr>)
     else if no_borrowed then modifyM (\<lambda>c. c\<lparr>sc_next_borrowed := False\<rparr>)
     else bindM (modifyM (\<lambda>c. c\<lparr>sc_work := (sc_work c)\<lparr>sw_key_comparisons := sw_key_comparisons (sc_work c) + 1\<rparr>\<rparr>)) (\<lambda>_.
       bindM (liftM (\<lambda>c. bindE (cursor_peek (sc_borrowed c)) (\<lambda>b. bindE (cursor_peek (sc_native c)) (\<lambda>a.
         compare_bits host (prefix_view (item_key b)) (prefix_view (item_key a)))))) (\<lambda>r.
       modifyM (\<lambda>c. c\<lparr>sc_next_borrowed := r < 0\<rparr>))))"

definition new_sample_cursor :: "bool \<Rightarrow> storage_policy \<Rightarrow> sample_target option \<Rightarrow> sample_cursor res" where
  "new_sample_cursor host p target =
     (case target of None \<Rightarrow> Inl (Invalid_argument ''sample cursor requires a pinned target'')
      | Some t \<Rightarrow>
        bindE (start_profile_cursor host p (st_native t)) (\<lambda>a.
        bindE (start_profile_cursor host p (st_borrowed t)) (\<lambda>b.
        fst (bindM (choose_next host) (\<lambda>_. getM (\<lambda>c. c))
          \<lparr>sc_target = t, sc_native = a, sc_borrowed = b,
           sc_work = \<lparr>sw_native_entries = 0, sw_borrowed_entries = 0,
             sw_decoded_entries = of_bool (\<not> cursor_at_end a) + of_bool (\<not> cursor_at_end b), sw_key_comparisons = 0\<rparr>,
           sc_ordinal = 0, sc_next_borrowed = False\<rparr>))))"

definition sample_done :: "sample_cursor \<Rightarrow> bool" where
  "sample_done c \<longleftrightarrow> cursor_at_end (sc_native c) \<and> cursor_at_end (sc_borrowed c)"

definition sample_peek :: "sample_cursor \<Rightarrow> profile_sample_view res" where
  "sample_peek c =
     (if sample_done c then Inl (Out_of_range ''sample cursor at end'')
      else bindE (cursor_peek (if sc_next_borrowed c then sc_borrowed c else sc_native c)) (\<lambda>item.
        Inr \<lparr>sv_key = prefix_view (item_key item), sv_target_ordinal = sc_ordinal c,
          sv_source_role = (if sc_next_borrowed c then Borrowed else Native), sv_source_ordinal = item_ordinal item\<rparr>))"

definition advance_borrowed :: "bool \<Rightarrow> storage_policy \<Rightarrow> (sample_cursor, unit) op" where
  "advance_borrowed host p = (\<lambda>c. case advance_profile_cursor host p False (sc_borrowed c) of
     (Inl e, b) \<Rightarrow> (Inl e, c\<lparr>sc_borrowed := b\<rparr>)
   | (Inr _, b) \<Rightarrow> (Inr (), c\<lparr>sc_borrowed := b, sc_work := (sc_work c)
       \<lparr>sw_borrowed_entries := sw_borrowed_entries (sc_work c) + 1,
        sw_decoded_entries := sw_decoded_entries (sc_work c) + of_bool (\<not> cursor_at_end b)\<rparr>\<rparr>))"

definition advance_native :: "bool \<Rightarrow> storage_policy \<Rightarrow> (sample_cursor, unit) op" where
  "advance_native host p = (\<lambda>c. case advance_profile_cursor host p False (sc_native c) of
     (Inl e, a) \<Rightarrow> (Inl e, c\<lparr>sc_native := a\<rparr>)
   | (Inr _, a) \<Rightarrow> (Inr (), c\<lparr>sc_native := a, sc_work := (sc_work c)
       \<lparr>sw_native_entries := sw_native_entries (sc_work c) + 1,
        sw_decoded_entries := sw_decoded_entries (sc_work c) + of_bool (\<not> cursor_at_end a)\<rparr>\<rparr>))"

fun sample_steps :: "bool \<Rightarrow> storage_policy \<Rightarrow> nat \<Rightarrow> (sample_cursor, unit) op" where
  "sample_steps host p 0 = returnM ()"
| "sample_steps host p (Suc n) =
     bindM (getM sc_next_borrowed) (\<lambda>b.
     bindM (if b then advance_borrowed host p else advance_native host p) (\<lambda>_.
     bindM (modifyM (\<lambda>c. c\<lparr>sc_ordinal := sc_ordinal c + 1\<rparr>)) (\<lambda>_.
     bindM (choose_next host) (\<lambda>_. sample_steps host p n))))"

definition sample_advance :: "bool \<Rightarrow> storage_policy \<Rightarrow> (sample_cursor, unit) op" where
  "sample_advance host p =
     bindM (getM sample_done) (\<lambda>d.
     if d then raiseM (Out_of_range ''sample cursor at end'')
     else bindM (getM (\<lambda>c. min (group_size p) (st_virtual_size (sc_target c) - sc_ordinal c))) (\<lambda>n.
       sample_steps host p n))"

section \<open>The merge of two streams\<close>

text \<open>The occurrences of both streams in order, each with its role, its ordinal there and its key.\<close>

fun weave :: "nat \<Rightarrow> bool list list \<Rightarrow> nat \<Rightarrow> bool list list \<Rightarrow> (stream_role \<times> nat \<times> bool list) list" where
  "weave i [] j [] = []"
| "weave i (a # as) j [] = (Native, i, a) # weave (Suc i) as j []"
| "weave i [] j (b # bs) = (Borrowed, j, b) # weave i [] (Suc j) bs"
| "weave i (a # as) j (b # bs) =
     (if lex b a < 0 then (Borrowed, j, b) # weave i (a # as) (Suc j) bs else (Native, i, a) # weave (Suc i) as j (b # bs))"

definition occurrences :: "bool list list \<Rightarrow> bool list list \<Rightarrow> nat \<Rightarrow> nat \<Rightarrow> (stream_role \<times> nat \<times> bool list) list" where
  "occurrences A B i j = weave i (drop i A) j (drop j B)"

definition borrowed_first :: "bool list list \<Rightarrow> bool list list \<Rightarrow> nat \<Rightarrow> nat \<Rightarrow> bool" where
  "borrowed_first A B i j \<longleftrightarrow> i \<ge> length A \<or> j < length B \<and> lex (B ! j) (A ! i) < 0"

lemma length_weave [simp]: "length (weave i A j B) = length A + length B"
  by (induction i A j B rule: weave.induct) auto

lemma length_occurrences [simp]: "length (occurrences A B i j) = (length A - i) + (length B - j)"
  by (simp add: occurrences_def)

lemma occurrences_step:
  assumes "i < length A \<or> j < length B"
  shows "occurrences A B i j = (if borrowed_first A B i j then (Borrowed, j, B ! j) # occurrences A B i (Suc j)
    else (Native, i, A ! i) # occurrences A B (Suc i) j)"
    and "borrowed_first A B i j \<Longrightarrow> j < length B" "\<not> borrowed_first A B i j \<Longrightarrow> i < length A"
proof -
  show "borrowed_first A B i j \<Longrightarrow> j < length B" "\<not> borrowed_first A B i j \<Longrightarrow> i < length A"
    using assms by (auto simp: borrowed_first_def)
  show "occurrences A B i j = (if borrowed_first A B i j then (Borrowed, j, B ! j) # occurrences A B i (Suc j)
    else (Native, i, A ! i) # occurrences A B (Suc i) j)"
  proof (cases "i < length A")
    case True
    then have a: "drop i A = A ! i # drop (Suc i) A" by (simp add: Cons_nth_drop_Suc)
    show ?thesis
    proof (cases "j < length B")
      case B: True
      then have "drop j B = B ! j # drop (Suc j) B" by (simp add: Cons_nth_drop_Suc)
      then show ?thesis using True B a by (simp add: occurrences_def borrowed_first_def)
    next
      case False
      then show ?thesis using True a by (simp add: occurrences_def borrowed_first_def)
    qed
  next
    case False
    then have "drop j B = B ! j # drop (Suc j) B" using assms by (simp add: Cons_nth_drop_Suc)
    then show ?thesis using False by (simp add: occurrences_def borrowed_first_def)
  qed
qed

section \<open>Standing in the merge\<close>

text \<open>A cursor in front of the occurrences \<open>xs\<close>; \<open>ready\<close> says that the next stream has been chosen.\<close>

definition drawing ::
  "bool \<Rightarrow> storage_policy \<Rightarrow> nat option \<Rightarrow> frame list \<Rightarrow> nat option \<Rightarrow> frame list \<Rightarrow> sample_target \<Rightarrow> bool \<Rightarrow> nat \<Rightarrow> nat \<Rightarrow> sample_cursor \<Rightarrow> bool" where
  "drawing host p ca A cb B t ready i j c \<longleftrightarrow> sc_target c = t \<and> sc_ordinal c = i + j \<and>
     stands host p ca A (st_native t) i (sc_native c) \<and> stands host p cb B (st_borrowed t) j (sc_borrowed c) \<and>
     sw_native_entries (sc_work c) = i \<and> sw_borrowed_entries (sc_work c) = j \<and>
     (ready \<longrightarrow> sc_next_borrowed c = borrowed_first (map fr_key A) (map fr_key B) i j)"

definition target_holds ::
  "bool \<Rightarrow> storage_policy \<Rightarrow> nat option \<Rightarrow> frame list \<Rightarrow> nat option \<Rightarrow> frame list \<Rightarrow> sample_target \<Rightarrow> bool" where
  "target_holds host p ca A cb B t \<longleftrightarrow> holds host p ca A (st_native t) \<and> holds host p cb B (st_borrowed t) \<and>
     st_virtual_size t = length A + length B"

lemma stands_end: "holds host p c fs v \<Longrightarrow> stands host p c fs v i s \<Longrightarrow> cursor_at_end s \<longleftrightarrow> i = length fs"
  using holdsD(5) by (auto simp: stands_def cursor_at_end_def)

lemma stands_key:
  assumes h: "holds host p c fs v" "stands host p c fs v i s" "i < length fs"
  shows "\<exists>it. cursor_peek s = Inr it \<and> item_ordinal it = i \<and> view_ok (prefix_view (item_key it)) \<and>
    view_bits (prefix_view (item_key it)) = fr_key (fs ! i)"
proof -
  obtain w where "string_view (pc_scratch s) = Inr w" "view_ok w" "view_bits w = fr_key (fs ! i)"
    using string_view_ok [of "pc_scratch s"] h(2,3) by (auto simp: stands_def)
  then show ?thesis using h stands_end [OF h(1,2)] by (simp add: cursor_peek_def stands_def)
qed

lemma choose_next_holds:
  assumes t: "target_holds host p ca A cb B t" and c: "drawing host p ca A cb B t r i j c"
  shows "\<exists>c'. choose_next host c = (Inr (), c') \<and> drawing host p ca A cb B t True i j c'"
proof -
  note th = t [unfolded target_holds_def] and d = c [unfolded drawing_def]
  have ends: "cursor_at_end (sc_native c) \<longleftrightarrow> i = length A" "cursor_at_end (sc_borrowed c) \<longleftrightarrow> j = length B"
    using th d stands_end by blast+
  have le: "i \<le> length A" "j \<le> length B" using d by (auto simp: stands_def)
  show ?thesis
  proof (cases "i < length A \<and> j < length B")
    case True
    obtain a where a: "cursor_peek (sc_native c) = Inr a" "view_ok (prefix_view (item_key a))" "view_bits (prefix_view (item_key a)) = fr_key (A ! i)"
      using stands_key [of host p ca A "st_native t" i "sc_native c"] th d True by blast
    obtain b where b: "cursor_peek (sc_borrowed c) = Inr b" "view_ok (prefix_view (item_key b))" "view_bits (prefix_view (item_key b)) = fr_key (B ! j)"
      using stands_key [of host p cb B "st_borrowed t" j "sc_borrowed c"] th d True by blast
    have "compare_bits host (prefix_view (item_key b)) (prefix_view (item_key a)) = Inr (lex (fr_key (B ! j)) (fr_key (A ! i)))"
      using compare_bits_spec [OF b(2) a(2)] a(3) b(3) by simp
    then show ?thesis using ends True a(1) b(1) d by (simp add: choose_next_def drawing_def borrowed_first_def)
  next
    case False
    then consider "i = length A" | "i \<noteq> length A" "i < length A" "j = length B" using le by linarith
    then show ?thesis
    proof cases
      case 1
      then show ?thesis using ends(1) d by (simp add: choose_next_def drawing_def borrowed_first_def)
    next
      case 2
      then show ?thesis using ends d by (simp add: choose_next_def drawing_def borrowed_first_def)
    qed
  qed
qed

lemma sample_step_holds:
  assumes t: "target_holds host p ca A cb B t" and c: "drawing host p ca A cb B t True i j c"
    and left: "i < length A \<or> j < length B"
  shows "\<exists>i' j' c'. sample_steps host p (Suc n) c = sample_steps host p n c' \<and> drawing host p ca A cb B t True i' j' c' \<and>
    i' + j' = Suc (i + j) \<and> occurrences (map fr_key A) (map fr_key B) i' j' = tl (occurrences (map fr_key A) (map fr_key B) i j)"
proof -
  let ?A = "map fr_key A" and ?B = "map fr_key B"
  note th = t [unfolded target_holds_def] and d = c [unfolded drawing_def]
  note step = occurrences_step [of i ?A j ?B, simplified length_map, OF left]
  show ?thesis
  proof (cases "borrowed_first ?A ?B i j")
    case True
    obtain b r where b: "advance_profile_cursor host p False (sc_borrowed c) = (Inr r, b)" "stands host p cb B (st_borrowed t) (Suc j) b"
      using advance_holds [of host p cb B "st_borrowed t" j "sc_borrowed c" False] th d step(2) [OF True] by auto
    define c1 where "c1 = c\<lparr>sc_borrowed := b, sc_work := (sc_work c)
       \<lparr>sw_borrowed_entries := sw_borrowed_entries (sc_work c) + 1,
        sw_decoded_entries := sw_decoded_entries (sc_work c) + of_bool (\<not> cursor_at_end b)\<rparr>, sc_ordinal := sc_ordinal c + 1\<rparr>"
    have "drawing host p ca A cb B t False i (Suc j) c1" using d b(2) by (simp add: drawing_def c1_def)
    then obtain c' where c': "choose_next host c1 = (Inr (), c')" "drawing host p ca A cb B t True i (Suc j) c'"
      using choose_next_holds [OF t] by blast
    have "sample_steps host p (Suc n) c = sample_steps host p n c'"
      using d True b(1) c'(1) by (simp add: advance_borrowed_def c1_def bindM_apply)
    then show ?thesis using c'(2) step(1) True by (intro exI [of _ i] exI [of _ "Suc j"] exI [of _ c']) simp
  next
    case False
    obtain a r where a: "advance_profile_cursor host p False (sc_native c) = (Inr r, a)" "stands host p ca A (st_native t) (Suc i) a"
      using advance_holds [of host p ca A "st_native t" i "sc_native c" False] th d step(3) [OF False] by auto
    define c1 where "c1 = c\<lparr>sc_native := a, sc_work := (sc_work c)
       \<lparr>sw_native_entries := sw_native_entries (sc_work c) + 1,
        sw_decoded_entries := sw_decoded_entries (sc_work c) + of_bool (\<not> cursor_at_end a)\<rparr>, sc_ordinal := sc_ordinal c + 1\<rparr>"
    have "drawing host p ca A cb B t False (Suc i) j c1" using d a(2) by (simp add: drawing_def c1_def)
    then obtain c' where c': "choose_next host c1 = (Inr (), c')" "drawing host p ca A cb B t True (Suc i) j c'"
      using choose_next_holds [OF t] by blast
    have "sample_steps host p (Suc n) c = sample_steps host p n c'"
      using d False a(1) c'(1) by (simp add: advance_native_def c1_def bindM_apply)
    then show ?thesis using c'(2) step(1) False by (intro exI [of _ "Suc i"] exI [of _ j] exI [of _ c']) simp
  qed
qed

lemma drawing_le: "drawing host p ca A cb B t r i j c \<Longrightarrow> i \<le> length A \<and> j \<le> length B"
  by (auto simp: drawing_def stands_def)

lemma sample_steps_holds:
  assumes t: "target_holds host p ca A cb B t"
  shows "drawing host p ca A cb B t True i j c \<Longrightarrow> i + j + n \<le> length A + length B \<Longrightarrow>
    \<exists>i' j' c'. sample_steps host p n c = (Inr (), c') \<and> drawing host p ca A cb B t True i' j' c' \<and> i' + j' = i + j + n \<and>
      occurrences (map fr_key A) (map fr_key B) i' j' = drop n (occurrences (map fr_key A) (map fr_key B) i j)"
proof (induction n arbitrary: i j c)
  case 0
  then show ?case by auto
next
  case (Suc n)
  have "i < length A \<or> j < length B" using Suc.prems(2) drawing_le [OF Suc.prems(1)] by linarith
  then obtain i1 j1 c1 where s: "sample_steps host p (Suc n) c = sample_steps host p n c1" "drawing host p ca A cb B t True i1 j1 c1"
      "i1 + j1 = Suc (i + j)" "occurrences (map fr_key A) (map fr_key B) i1 j1 = tl (occurrences (map fr_key A) (map fr_key B) i j)"
    using sample_step_holds [OF t Suc.prems(1), of n] by blast
  obtain i' j' c' where "sample_steps host p n c1 = (Inr (), c')" "drawing host p ca A cb B t True i' j' c'" "i' + j' = i1 + j1 + n"
      "occurrences (map fr_key A) (map fr_key B) i' j' = drop n (occurrences (map fr_key A) (map fr_key B) i1 j1)"
    using Suc.IH [OF s(2)] s(3) Suc.prems(2) by auto
  then show ?case using s by (intro exI [of _ i'] exI [of _ j'] exI [of _ c']) (simp add: drop_Suc)
qed

section \<open>All samples\<close>

text \<open>A sample without its view: the ordinal it is given, its stream, its ordinal there and its key.\<close>

fun draw_samples :: "bool \<Rightarrow> storage_policy \<Rightarrow> nat \<Rightarrow> (sample_cursor, (nat \<times> stream_role \<times> nat \<times> bool list) list) op" where
  "draw_samples host p 0 = returnM []"
| "draw_samples host p (Suc k) = bindM (liftM sample_peek) (\<lambda>v. bindM (sample_advance host p) (\<lambda>_.
     bindM (draw_samples host p k) (\<lambda>vs.
     returnM ((sv_target_ordinal v, sv_source_role v, sv_source_ordinal v, view_bits (sv_key v)) # vs))))"

definition group_total :: "nat \<Rightarrow> nat \<Rightarrow> nat" where
  "group_total g n = n div g + of_bool (n mod g \<noteq> 0)"

lemma group_total_step: "0 < g \<Longrightarrow> 0 < n \<Longrightarrow> group_total g n = Suc (group_total g (n - min g n))"
  by (cases "g \<le> n") (simp_all add: group_total_def le_div_geq le_mod_geq min_def)

lemma sample_peek_holds:
  assumes t: "target_holds host p ca A cb B t" and c: "drawing host p ca A cb B t True i j c"
    and left: "i < length A \<or> j < length B"
  shows "\<exists>v. sample_peek c = Inr v \<and> sv_target_ordinal v = i + j \<and>
    (sv_source_role v, sv_source_ordinal v, view_bits (sv_key v)) = hd (occurrences (map fr_key A) (map fr_key B) i j)"
proof -
  let ?A = "map fr_key A" and ?B = "map fr_key B"
  note th = t [unfolded target_holds_def] and d = c [unfolded drawing_def]
  note step = occurrences_step [of i ?A j ?B, simplified length_map, OF left]
  have ends: "cursor_at_end (sc_native c) \<longleftrightarrow> i = length A" "cursor_at_end (sc_borrowed c) \<longleftrightarrow> j = length B"
    using th d stands_end by blast+
  have nd: "\<not> sample_done c" using ends left by (auto simp: sample_done_def)
  show ?thesis
  proof (cases "borrowed_first ?A ?B i j")
    case True
    obtain b where "cursor_peek (sc_borrowed c) = Inr b" "item_ordinal b = j" "view_bits (prefix_view (item_key b)) = fr_key (B ! j)"
      using stands_key [of host p cb B "st_borrowed t" j "sc_borrowed c"] th d step(2) [OF True] by blast
    then show ?thesis using True nd d step(1) step(2) [OF True] by (simp add: sample_peek_def)
  next
    case False
    obtain a where "cursor_peek (sc_native c) = Inr a" "item_ordinal a = i" "view_bits (prefix_view (item_key a)) = fr_key (A ! i)"
      using stands_key [of host p ca A "st_native t" i "sc_native c"] th d step(3) [OF False] by blast
    then show ?thesis using False nd d step(1) step(3) [OF False] by (simp add: sample_peek_def)
  qed
qed

lemma draw_samples_holds:
  assumes t: "target_holds host p ca A cb B t" and g: "0 < group_size p"
  shows "drawing host p ca A cb B t True i j c \<Longrightarrow> k = group_total (group_size p) (length A + length B - (i + j)) \<Longrightarrow>
    \<exists>c'. draw_samples host p k c =
        (Inr (map (\<lambda>m. (i + j + m * group_size p, occurrences (map fr_key A) (map fr_key B) i j ! (m * group_size p))) [0..<k]), c') \<and>
      drawing host p ca A cb B t True (length A) (length B) c'"
proof (induction k arbitrary: i j c)
  case 0
  have le: "i \<le> length A" "j \<le> length B" using drawing_le [OF 0(1)] by simp_all
  have "\<not> 0 < length A + length B - (i + j)" using 0(2) group_total_step [OF g, of "length A + length B - (i + j)"] by auto
  then have "i = length A" "j = length B" using le by linarith+
  then show ?case using 0(1) by simp
next
  case (Suc k)
  let ?g = "group_size p" and ?rem = "length A + length B - (i + j)" and ?O = "occurrences (map fr_key A) (map fr_key B)"
  have le: "i \<le> length A" "j \<le> length B" using drawing_le [OF Suc.prems(1)] by simp_all
  have pos: "0 < ?rem" using Suc.prems(2) by (cases ?rem) (simp_all add: group_total_def)
  then have left: "i < length A \<or> j < length B" by linarith
  note th = t [unfolded target_holds_def] and d = Suc.prems(1) [unfolded drawing_def]
  obtain v where v: "sample_peek c = Inr v" "sv_target_ordinal v = i + j"
      "(sv_source_role v, sv_source_ordinal v, view_bits (sv_key v)) = hd (?O i j)"
    using sample_peek_holds [OF t Suc.prems(1) left] by blast
  have nd: "\<not> sample_done c" using v(1) by (auto simp: sample_peek_def)
  define n where "n = min ?g ?rem"
  have "i + j + n \<le> length A + length B" using le unfolding n_def by linarith
  then obtain i' j' c1 where s: "sample_steps host p n c = (Inr (), c1)" "drawing host p ca A cb B t True i' j' c1"
      "i' + j' = i + j + n" "?O i' j' = drop n (?O i j)"
    using sample_steps_holds [OF t Suc.prems(1), of n] by blast
  have adv: "sample_advance host p c = (Inr (), c1)" using nd s(1) th d by (simp add: sample_advance_def n_def)
  have k: "k = group_total ?g (length A + length B - (i' + j'))"
    using Suc.prems(2) group_total_step [OF g pos] s(3) n_def by simp
  obtain c' where c': "draw_samples host p k c1 = (Inr (map (\<lambda>m. (i' + j' + m * ?g, ?O i' j' ! (m * ?g))) [0..<k]), c')"
      "drawing host p ca A cb B t True (length A) (length B) c'"
    using Suc.IH [OF s(2) k] by blast
  have len: "length (?O i j) = ?rem" using le by simp
  have shift: "(i' + j' + m * ?g, ?O i' j' ! (m * ?g)) = (i + j + Suc m * ?g, ?O i j ! (Suc m * ?g))" if m: "m < k" for m
  proof -
    have n: "n = ?g"
    proof (rule ccontr)
      assume "n \<noteq> ?g"
      then have "length A + length B - (i' + j') = 0" using s(3) n_def by simp
      then show False using k m by (simp add: group_total_def)
    qed
    have "?g \<le> length (?O i j)" using n n_def len by simp
    then show ?thesis using s(3,4) n by simp
  qed
  have hd: "(sv_source_role v, sv_source_ordinal v, view_bits (sv_key v)) = ?O i j ! 0"
    using v(3) len pos by (cases "?O i j") auto
  have "[0..<Suc k] = 0 # map Suc [0..<k]" by (simp add: upt_conv_Cons map_Suc_upt del: upt_Suc)
  then have "map (\<lambda>m. (i + j + m * ?g, ?O i j ! (m * ?g))) [0..<Suc k] =
      (i + j, ?O i j ! 0) # map (\<lambda>m. (i' + j' + m * ?g, ?O i' j' ! (m * ?g))) [0..<k]"
    using shift by simp
  moreover have "draw_samples host p (Suc k) c =
      (Inr ((i + j, ?O i j ! 0) # map (\<lambda>m. (i' + j' + m * ?g, ?O i' j' ! (m * ?g))) [0..<k]), c')"
    using v(1,2) adv c'(1) hd by (simp add: bindM_apply)
  ultimately show ?case using c'(2) by auto
qed

lemma new_sample_cursor_holds:
  assumes t: "target_holds host p ca A cb B t"
  shows "\<exists>c. new_sample_cursor host p (Some t) = Inr c \<and> drawing host p ca A cb B t True 0 0 c"
proof -
  let ?q = "\<lparr>storage = [], offset = 0, bsize = 0\<rparr>"
  note th = t [unfolded target_holds_def]
  have q: "view_ok ?q" "view_bits ?q = []" by (simp_all add: view_ok_def view_bits_def)
  have nil: "lex [] xs \<le> 0" for xs by (cases xs) simp_all
  obtain a where a: "start_profile_cursor host p (st_native t) = Inr a" "stands host p ca A (st_native t) 0 a"
    using new_profile_cursor_holds [of host p ca A "st_native t" 0 ?q] th q nil by (auto simp: start_profile_cursor_def)
  obtain b where b: "start_profile_cursor host p (st_borrowed t) = Inr b" "stands host p cb B (st_borrowed t) 0 b"
    using new_profile_cursor_holds [of host p cb B "st_borrowed t" 0 ?q] th q nil by (auto simp: start_profile_cursor_def)
  define c0 where "c0 = \<lparr>sc_target = t, sc_native = a, sc_borrowed = b,
           sc_work = \<lparr>sw_native_entries = 0, sw_borrowed_entries = 0,
             sw_decoded_entries = of_bool (\<not> cursor_at_end a) + of_bool (\<not> cursor_at_end b), sw_key_comparisons = 0\<rparr>,
           sc_ordinal = 0, sc_next_borrowed = False\<rparr>"
  have "drawing host p ca A cb B t False 0 0 c0" using a(2) b(2) by (simp add: drawing_def c0_def)
  then obtain c where "choose_next host c0 = (Inr (), c)" "drawing host p ca A cb B t True 0 0 c"
    using choose_next_holds [OF t] by blast
  then show ?thesis using a(1) b(1) by (simp add: new_sample_cursor_def c0_def [symmetric])
qed

section \<open>Property\<close>

text \<open>
  C10. The cursor draws every \<open>group_size\<close>-th occurrence of the merge of its two streams, the first
  one included, numbered by its place in the merge; entries of the native stream come before equal
  borrowed ones. There is one sample per group of occurrences, every entry of both streams is
  consumed, and behind the last group peeking and advancing throw \<open>out_of_range\<close>.
\<close>

theorem cursor_draws_groups:
  assumes "policy_ok p" "target_holds host p ca A cb B t"
    and "merged = weave 0 (map fr_key A) 0 (map fr_key B)" "k = group_total (group_size p) (length merged)"
  shows "\<exists>c c'. new_sample_cursor host p (Some t) = Inr c \<and>
    draw_samples host p k c = (Inr (map (\<lambda>m. (m * group_size p, merged ! (m * group_size p))) [0..<k]), c') \<and>
    sw_native_entries (sc_work c') = length A \<and> sw_borrowed_entries (sc_work c') = length B \<and>
    sample_peek c' = Inl (Out_of_range ''sample cursor at end'') \<and>
    sample_advance host p c' = (Inl (Out_of_range ''sample cursor at end''), c')"
proof -
  have g: "0 < group_size p" using assms(1) by (simp add: policy_ok_def)
  obtain c where c: "new_sample_cursor host p (Some t) = Inr c" "drawing host p ca A cb B t True 0 0 c"
    using new_sample_cursor_holds [OF assms(2)] by blast
  obtain c' where c': "draw_samples host p k c = (Inr (map (\<lambda>m. (m * group_size p, merged ! (m * group_size p))) [0..<k]), c')"
      "drawing host p ca A cb B t True (length A) (length B) c'"
    using draw_samples_holds [OF assms(2) g c(2), of k] assms(3,4) by (auto simp: occurrences_def)
  have "sample_done c'" using c'(2) assms(2) stands_end by (auto simp: drawing_def target_holds_def sample_done_def)
  then show ?thesis using c(1) c' by (auto simp: drawing_def sample_peek_def sample_advance_def)
qed

definition two_streams :: "bool \<Rightarrow> sample_target option" where
  "two_streams host = (case build_profile host default_policy Native two_records [] 0 of Inl _ \<Rightarrow> None | Inr a \<Rightarrow>
     case build_profile host default_policy Borrowed two_keys [0, 1] 0 of Inl _ \<Rightarrow> None | Inr b \<Rightarrow>
     case array_view_in host default_policy Native a of Inl _ \<Rightarrow> None | Inr v \<Rightarrow>
     case array_view_in host default_policy Borrowed b of Inl _ \<Rightarrow> None | Inr w \<Rightarrow>
     Some \<lparr>st_native = v, st_borrowed = w, st_virtual_size = 4\<rparr>)"

lemma cursor_draws_groups_witness:
  "\<exists>t c c'. two_streams True = Some t \<and> new_sample_cursor True default_policy (Some t) = Inr c \<and>
    draw_samples True default_policy 1 c = (Inr [(0, Native, 0, byte_bits 97 @ byte_bits 98)], c') \<and>
    sw_native_entries (sc_work c') = 2 \<and> sw_borrowed_entries (sc_work c') = 2"
proof -
  let ?ca = "shared_width default_policy Native two_records"
  let ?A = "front_code default_policy ?ca [] 0 two_records 0 []"
    and ?B = "front_code default_policy (Some 0) [0, 1] 0 two_keys 0 []"
  note two = two_records_ok(2) [OF refl, of ?ca]
  have ok: "records_ok default_policy Borrowed two_keys"
    using two_records_ok(1) by (simp add: records_ok_def two_keys_def two_records_def record_ok_def unit_multiple_def)
  have fit: "length (stream default_policy (Some 0) ?B (length ?B)) < 2 ^ 57"
    using byte_front_code_length [OF default_policy_facts(1) refl, of "Some 0" "[0, 1]" 0 two_keys]
    by (simp add: two_keys_def two_records_def string_bits_def)
  have wd: "Some 0 = shared_width default_policy Borrowed two_keys" by (simp add: shared_width_def)
  obtain a where a: "build_profile True default_policy Native two_records [] 0 = Inr a" "built_profile default_policy Native ?ca ?A a"
    using build_profile_built [OF default_policies_ok(1) two_records_ok(1) _ _ refl refl two] by auto
  obtain b where b: "build_profile True default_policy Borrowed two_keys [0, 1] 0 = Inr b" "built_profile default_policy Borrowed (Some 0) ?B b"
    using build_profile_built [OF default_policies_ok(1) ok _ _ wd refl fit] by (auto simp: two_keys_def two_records_def)
  obtain v where v: "array_view_in True default_policy Native a = Inr v" "holds True default_policy ?ca ?A v"
    using array_view_holds [OF default_policies_ok(1) a(2), of True True] by auto
  obtain w where w: "array_view_in True default_policy Borrowed b = Inr w" "holds True default_policy (Some 0) ?B w"
    using array_view_holds [OF default_policies_ok(1) b(2), of True True] by auto
  have cont: "map fr_key ?A = map (\<lambda>r. string_bits (record_key r)) two_records"
    "map fr_key ?B = map (\<lambda>r. string_bits (record_key r)) two_keys"
  proof -
    have m: "map fr_key F = map fst (contents F)" for F by (simp add: contents_def)
    show "map fr_key ?A = map (\<lambda>r. string_bits (record_key r)) two_records"
      unfolding m using front_code_extends [of default_policy ?ca "[]" 0 two_records 0 "[]"] by auto
    show "map fr_key ?B = map (\<lambda>r. string_bits (record_key r)) two_keys"
      unfolding m using front_code_extends [of default_policy "Some 0" "[0, 1]" 0 two_keys 0 "[]"] by auto
  qed
  have len: "length ?A = 2" "length ?B = 2"
    using arg_cong [OF cont(1), of length] arg_cong [OF cont(2), of length] by (simp_all add: two_keys_def two_records_def)
  define t where "t = \<lparr>st_native = v, st_borrowed = w, st_virtual_size = 4\<rparr>"
  have t: "two_streams True = Some t" "target_holds True default_policy ?ca ?A (Some 0) ?B t"
    using a(1) b(1) v w len by (simp_all add: two_streams_def t_def target_holds_def)
  have g: "group_size default_policy = 15" by (simp add: default_policy_def)
  have first: "weave 0 (map fr_key ?A) 0 (map fr_key ?B) ! 0 = (Native, 0, byte_bits 97 @ byte_bits 98)"
    unfolding cont by (simp add: two_keys_def two_records_def string_bits_def)
  show ?thesis
    using cursor_draws_groups [OF default_policies_ok(1) t(2) refl refl] t(1) len first
    by (auto simp: g group_total_def)
qed

end
