(* ===== verification/ProfileBlob.thy ===== *)
theory ProfileBlob
  imports SampleDraw RankGroups
begin

text \<open>
  Profile blobs (\<open>profile_blob.h\<close>): a native stream with the index of one level of the cascade, the
  sampled keys of the next one. The interleaving of the two streams is cut into groups; a query
  is answered inside one group, by windows of both streams. The owning blob builds its index; the
  borrowed view over its sections answers the queries.
\<close>

section \<open>Views\<close>

record blob_window =
  native_first :: nat
  native_last :: nat
  borrowed_first_of :: nat
  borrowed_last_of :: nat

record native_match =
  match_ordinal :: nat
  match_value :: bit_string

record borrowed_predecessor =
  bp_ordinal :: nat
  bp_target_ordinal :: nat
  bp_false_borrow :: bool
  bp_comparison :: query_context

record window_result =
  wr_native :: "native_match option"
  wr_borrowed :: "borrowed_predecessor option"

record blob_view =
  bv_native :: profile_view
  bv_borrowed :: profile_view
  bv_interleave :: any_rank_view
  bv_false_borrows :: "u8 list"
  bv_cut_lcps :: word_view
  bv_virtual_count :: nat

fun rank_view_size :: "any_rank_view \<Rightarrow> nat" where
  "rank_view_size (Groups_view v) = rg_virtual_count v"
| "rank_view_size (Fifteen_view v) = r15_virtual_count v"

definition blob_group_count :: "storage_policy \<Rightarrow> nat \<Rightarrow> nat" where
  "blob_group_count p n = n div group_size p + of_bool (n mod group_size p \<noteq> 0)"

definition new_blob_view ::
  "storage_policy \<Rightarrow> profile_view \<Rightarrow> profile_view \<Rightarrow> any_rank_view \<Rightarrow> u8 list \<Rightarrow> word_view \<Rightarrow> nat \<Rightarrow> blob_view res" where
  "new_blob_view p native borrowed interleave false_borrows cut_lcps virtual_count =
     (if pv_size borrowed > u64_max - 7 \<or> pv_size native > u64_max - pv_size borrowed \<or>
         pv_size native + pv_size borrowed \<noteq> virtual_count \<or> rank_view_size interleave \<noteq> virtual_count \<or>
         length false_borrows \<noteq> (pv_size borrowed + 7) div 8 \<or> view_size cut_lcps \<noteq> blob_group_count p virtual_count
      then Inl (Invalid_argument ''profile blob section shape mismatch'')
      else Inr \<lparr>bv_native = native, bv_borrowed = borrowed, bv_interleave = interleave, bv_false_borrows = false_borrows,
        bv_cut_lcps = cut_lcps, bv_virtual_count = virtual_count\<rparr>)"

definition false_borrow :: "blob_view \<Rightarrow> nat \<Rightarrow> bool res" where
  "false_borrow v ordinal =
     (if ordinal \<ge> pv_size (bv_borrowed v) then Inl (Out_of_range ''profile blob borrowed ordinal'')
      else Inr (bit (bv_false_borrows v ! (ordinal div 8)) (ordinal mod 8)))"

definition project :: "bool \<Rightarrow> storage_policy \<Rightarrow> blob_view \<Rightarrow> nat \<Rightarrow> blob_window res" where
  "project host p v g =
     (if g \<ge> blob_group_count p (bv_virtual_count v) then Inl (Out_of_range ''profile blob virtual group'')
      else let start = g * group_size p; stop = start + min (group_size p) (bv_virtual_count v - start) in
        bindE (view_rank host (group_size p) (bv_interleave v) g) (\<lambda>a.
        bindE (view_class_at host (group_size p) (bv_interleave v) g) (\<lambda>population.
        if a > start \<or> a > pv_size (bv_borrowed v) \<or> population > stop - start \<or> population > pv_size (bv_borrowed v) - a
        then Inl (Invalid_argument ''invalid profile blob rank projection'')
        else let b = a + population in
          if stop - b > pv_size (bv_native v) then Inl (Invalid_argument ''invalid profile blob native projection'')
          else Inr \<lparr>native_first = start - a, native_last = stop - b, borrowed_first_of = a, borrowed_last_of = b\<rparr>)))"

definition checked_target_ordinal :: "storage_policy \<Rightarrow> nat \<Rightarrow> nat res" where
  "checked_target_ordinal p ordinal =
     (if ordinal > u64_max div group_size p then Inl (Overflow_error ''borrowed target ordinal overflows'')
      else Inr (ordinal * group_size p))"

section \<open>Searching a window\<close>

text \<open>The callbacks of the two window comparisons share the result.\<close>

definition native_found :: "bool \<Rightarrow> comparison_item \<Rightarrow> (window_result, bool) op" where
  "native_found host item =
     (if context_order (ci_comparison item) = 0
      then bindM (liftM (\<lambda>_. copy_string host (ci_value item))) (\<lambda>s.
        bindM (modifyM (\<lambda>r. r\<lparr>wr_native := Some \<lparr>match_ordinal = ci_ordinal item, match_value = s\<rparr>\<rparr>)) (\<lambda>_. returnM False))
      else returnM (context_order (ci_comparison item) < 0))"

definition remember ::
  "bool \<Rightarrow> storage_policy \<Rightarrow> blob_view \<Rightarrow> blob_window \<Rightarrow> nat \<Rightarrow> query_context \<Rightarrow> (window_result, unit) op" where
  "remember host p v window ordinal comparison =
     bindM (liftM (\<lambda>_. false_borrow v ordinal)) (\<lambda>is_false.
     bindM (liftM (\<lambda>_. checked_target_ordinal p ordinal)) (\<lambda>target.
     bindM (modifyM (\<lambda>r. r\<lparr>wr_borrowed := Some \<lparr>bp_ordinal = ordinal, bp_target_ordinal = target,
       bp_false_borrow = is_false, bp_comparison = comparison\<rparr>\<rparr>)) (\<lambda>_.
     bindM (getM wr_native) (\<lambda>found.
     if context_order comparison = 0 \<and> is_false \<and> found = None then
       if native_first window = 0 then raiseM (Invalid_argument ''false borrow has no native predecessor'')
       else bindM (liftM (\<lambda>_. encoded_at host p (bv_native v) (native_first window - 1))) (\<lambda>r.
         bindM (liftM (\<lambda>_. copy_string host (value_view r))) (\<lambda>s.
         modifyM (\<lambda>res. res\<lparr>wr_native := Some \<lparr>match_ordinal = native_first window - 1, match_value = s\<rparr>\<rparr>)))
     else returnM ()))))"

definition borrowed_found ::
  "bool \<Rightarrow> storage_policy \<Rightarrow> blob_view \<Rightarrow> blob_window \<Rightarrow> comparison_item \<Rightarrow> (window_result, bool) op" where
  "borrowed_found host p v window item =
     (if context_order (ci_comparison item) > 0 then returnM False
      else bindM (remember host p v window (ci_ordinal item) (ci_comparison item)) (\<lambda>_. returnM True))"

text \<open>
  The window comparisons run on the shared result, each with the caller's work counters of its own
  stream. What a comparison has counted stays counted when the search throws.
\<close>

definition on_native_work ::
  "('s \<times> comparison_work, 'a) op \<Rightarrow> ('s \<times> comparison_work \<times> comparison_work, 'a) op" where
  "on_native_work m = (\<lambda>(s, nw, bw). case m (s, nw) of (r, (s, nw)) \<Rightarrow> (r, (s, nw, bw)))"

definition on_borrowed_work ::
  "('s \<times> comparison_work, 'a) op \<Rightarrow> ('s \<times> comparison_work \<times> comparison_work, 'a) op" where
  "on_borrowed_work m = (\<lambda>(s, nw, bw). case m (s, bw) of (r, (s, bw)) \<Rightarrow> (r, (s, nw, bw)))"

definition on_found :: "('s, 'a) op \<Rightarrow> ('s \<times> 'w, 'a) op" where
  "on_found m = (\<lambda>(s, works). case m s of (r, s) \<Rightarrow> (r, (s, works)))"

definition search_window ::
  "bool \<Rightarrow> storage_policy \<Rightarrow> blob_view \<Rightarrow> nat \<Rightarrow> query_context \<Rightarrow> (comparison_work \<times> comparison_work, window_result) op" where
  "search_window host p v g lower = (\<lambda>works.
     if context_order lower > 0 then (Inl (Invalid_argument ''query precedes its routed boundary''), works)
     else case project host p v g of Inl e \<Rightarrow> (Inl e, works)
     | Inr w \<Rightarrow>
        (case bindM (on_native_work (compare_window host p (bv_native v) (native_first w) (native_last w) lower
            (native_found host) False)) (\<lambda>_.
          bindM (on_borrowed_work (compare_window host p (bv_borrowed v) (borrowed_first_of w) (borrowed_last_of w) lower
            (borrowed_found host p v w) False)) (\<lambda>_.
          on_found (bindM (getM wr_borrowed) (\<lambda>found.
            bindM (if found = None \<and> borrowed_first_of w \<noteq> 0
              then bindM (liftM (\<lambda>_. word_at host (bv_cut_lcps v) g)) (\<lambda>cut.
                bindM (liftM (\<lambda>_. context_predecessor p (unat cut) lower)) (\<lambda>comparison.
                remember host p v w (borrowed_first_of w - 1) comparison))
              else returnM ()) (\<lambda>_. getM (\<lambda>res. res))))))
          (\<lparr>wr_native = None, wr_borrowed = None\<rparr>, works) of
           (r, (_, works)) \<Rightarrow> (r, works)))"

section \<open>Owning blobs\<close>

record profile_blob =
  pb_native :: profile_array
  pb_borrowed :: profile_array
  pb_interleave :: rank_groups
  pb_false_borrows :: "u8 list"
  pb_virtual_count :: nat
  pb_cut_lcps :: "u64 list"

definition empty_blob :: "bool \<Rightarrow> storage_policy \<Rightarrow> profile_blob res" where
  "empty_blob host p =
     bindE (build_profile host p Native [] [] 0) (\<lambda>native. bindE (build_profile host p Borrowed [] [] 0) (\<lambda>borrowed.
     bindE (rg_build (group_size p) [] 0) (\<lambda>ranks.
     Inr \<lparr>pb_native = native, pb_borrowed = borrowed, pb_interleave = ranks, pb_false_borrows = [],
       pb_virtual_count = 0, pb_cut_lcps = []\<rparr>)))"

definition check_count :: "nat \<Rightarrow> nat \<Rightarrow> unit res" where
  "check_count native borrowed =
     (if borrowed > u64_max - 7 \<or> native > u64_max - borrowed
      then Inl (Length_error ''profile blob virtual count overflows'') else Inr ())"

definition compare_strings :: "bool \<Rightarrow> bit_string \<Rightarrow> bit_string \<Rightarrow> bit_comparison res" where
  "compare_strings host a b = bindE (string_view a) (\<lambda>v. bindE (string_view b) (\<lambda>w. compare_common_bits host v w))"

text \<open>The native records from the first one not below the key on.\<close>

fun skip_below :: "bool \<Rightarrow> bit_string \<Rightarrow> profile_record list \<Rightarrow> profile_record list res" where
  "skip_below host key [] = Inr []"
| "skip_below host key (r # rs) = bindE (compare_strings host (record_key r) key) (\<lambda>c.
     if order c < 0 then skip_below host key rs else Inr (r # rs))"

fun mark_false ::
  "bool \<Rightarrow> bit_string option \<Rightarrow> nat \<Rightarrow> profile_record list \<Rightarrow> bit_string list \<Rightarrow> u8 list \<Rightarrow> profile_record list \<Rightarrow>
     (u8 list \<times> profile_record list) res" where
  "mark_false host prev i native [] flags records = Inr (flags, records)"
| "mark_false host prev i native (b # bs) flags records =
     bindE (case prev of None \<Rightarrow> Inr () | Some a \<Rightarrow> bindE (compare_strings host a b) (\<lambda>c.
       if order c > 0 then Inl (Invalid_argument ''profile blob borrowed keys must be sorted'') else Inr ())) (\<lambda>_.
     bindE (skip_below host b native) (\<lambda>native.
     bindE (case native of [] \<Rightarrow> Inr False | r # _ \<Rightarrow> bindE (compare_strings host (record_key r) b) (\<lambda>c. Inr (order c = 0))) (\<lambda>hit.
     mark_false host (Some b) (i + 1) native bs
       (if hit then flags[i div 8 := flags ! (i div 8) OR push_bit (i mod 8) 1] else flags)
       (records @ [\<lparr>record_key = b, record_value = empty_string, retained_limit_bits = None\<rparr>]))))"

text \<open>The loop over the occurrences; \<open>n\<close> are left, \<open>prev\<close> is the last borrowed one taken.\<close>

fun cut_groups ::
  "bool \<Rightarrow> storage_policy \<Rightarrow> nat \<Rightarrow> nat \<Rightarrow> profile_record list \<Rightarrow> bit_string option \<Rightarrow> bit_string list \<Rightarrow> u64 list \<Rightarrow> u64 list \<Rightarrow>
     (u64 list \<times> u64 list) res" where
  "cut_groups host p 0 i native prev borrowed classes cuts = Inr (classes, cuts)"
| "cut_groups host p (Suc n) i native prev borrowed classes cuts =
     bindE (case borrowed of [] \<Rightarrow> Inr False | b # _ \<Rightarrow> (case native of [] \<Rightarrow> Inr True
       | r # _ \<Rightarrow> bindE (compare_strings host b (record_key r)) (\<lambda>c. Inr (order c < 0)))) (\<lambda>take_borrowed.
     bindE (if i mod group_size p = 0 then
         let boundary = (if take_borrowed then hd borrowed else record_key (hd native)) in
         (case prev of None \<Rightarrow> Inr (cuts @ [0])
          | Some a \<Rightarrow> bindE (compare_strings host a boundary) (\<lambda>c. Inr (cuts @ [of_nat (common_bits c)])))
       else Inr cuts) (\<lambda>cuts.
     if take_borrowed
     then cut_groups host p n (i + 1) native (Some (hd borrowed)) (tl borrowed)
       (classes[i div group_size p := classes ! (i div group_size p) + 1]) cuts
     else cut_groups host p n (i + 1) (tl native) prev borrowed classes cuts))"

definition build_index ::
  "bool \<Rightarrow> storage_policy \<Rightarrow> profile_record list \<Rightarrow> bit_string list \<Rightarrow> profile_blob \<Rightarrow> profile_blob res" where
  "build_index host p native borrowed blob =
     bindE (mark_false host None 0 native borrowed (replicate ((length borrowed + 7) div 8) 0) []) (\<lambda>(flags, records).
     let total = length native + length borrowed in
     bindE (cut_groups host p total 0 native None borrowed (replicate (blob_group_count p total) 0) (pb_cut_lcps blob)) (\<lambda>(classes, cuts).
     bindE (build_profile host p Borrowed records [] 0) (\<lambda>keys.
     bindE (rg_build (group_size p) classes total) (\<lambda>ranks.
     Inr (blob\<lparr>pb_borrowed := keys, pb_interleave := ranks, pb_false_borrows := flags, pb_virtual_count := total,
       pb_cut_lcps := cuts\<rparr>)))))"

fun check_native :: "bool \<Rightarrow> bit_string option \<Rightarrow> profile_record list \<Rightarrow> unit res" where
  "check_native host prev [] = Inr ()"
| "check_native host prev (r # rs) =
     bindE (case prev of None \<Rightarrow> Inr () | Some a \<Rightarrow> bindE (compare_strings host a (record_key r)) (\<lambda>c.
       if order c \<ge> 0 then Inl (Invalid_argument ''profile blob native keys must be strictly sorted'') else Inr ())) (\<lambda>_.
     check_native host (Some (record_key r)) rs)"

definition blob_build :: "bool \<Rightarrow> storage_policy \<Rightarrow> profile_record list \<Rightarrow> bit_string list \<Rightarrow> profile_blob res" where
  "blob_build host p native borrowed =
     bindE (check_count (length native) (length borrowed)) (\<lambda>_. bindE (check_native host None native) (\<lambda>_.
     bindE (empty_blob host p) (\<lambda>blob. bindE (build_profile host p Native native [] 0) (\<lambda>a.
     build_index host p native borrowed (blob\<lparr>pb_native := a\<rparr>)))))"

definition adopt_native :: "bool \<Rightarrow> storage_policy \<Rightarrow> profile_array \<Rightarrow> profile_blob res" where
  "adopt_native host p native =
     bindE (array_view host p Native native) (\<lambda>_. bindE (empty_blob host p) (\<lambda>blob.
     let n = m_record_count (pa_metadata native); cuts = replicate (blob_group_count p n) 0 in
     bindE (rg_build (group_size p) cuts n) (\<lambda>ranks.
     Inr (blob\<lparr>pb_native := native, pb_interleave := ranks, pb_virtual_count := n, pb_cut_lcps := cuts\<rparr>))))"

definition collect_key :: "bool \<Rightarrow> profile_item \<Rightarrow> (profile_record list, bool) op" where
  "collect_key host item =
     bindM (liftM (\<lambda>_. copy_string host (prefix_view (item_key item)))) (\<lambda>key.
     bindM (modifyM (\<lambda>rs. rs @ [\<lparr>record_key = key, record_value = empty_string, retained_limit_bits = None\<rparr>])) (\<lambda>_.
     returnM True))"

definition reindex :: "bool \<Rightarrow> storage_policy \<Rightarrow> profile_blob \<Rightarrow> bit_string list \<Rightarrow> profile_blob res" where
  "reindex host p blob borrowed =
     bindE (check_count (m_record_count (pa_metadata (pb_native blob))) (length borrowed)) (\<lambda>_.
     bindE (array_view host p Native (pb_native blob)) (\<lambda>v.
     case visit_all host p v (collect_key host) [] of
       (Inl e, _) \<Rightarrow> Inl e
     | (Inr _, records) \<Rightarrow> bindE (empty_blob host p) (\<lambda>fresh.
         build_index host p records borrowed (fresh\<lparr>pb_native := pb_native blob\<rparr>))))"

definition view_of_blob :: "bool \<Rightarrow> storage_policy \<Rightarrow> profile_blob \<Rightarrow> blob_view res" where
  "view_of_blob host p b =
     bindE (array_view host p Native (pb_native b)) (\<lambda>native. bindE (array_view host p Borrowed (pb_borrowed b)) (\<lambda>borrowed.
     bindE (rg_view host (group_size p) (pb_interleave b)) (\<lambda>ranks.
     new_blob_view p native borrowed ranks (pb_false_borrows b) (native_words host (pb_cut_lcps b)) (pb_virtual_count b))))"

end
