(* ===== verification/BlobIndex.thy ===== *)
theory BlobIndex
  imports ProfileBlob
begin

text \<open>
  The index of a blob (\<open>profile_blob.h\<close>): populations and cuts of the groups of the interleaving, and
  the marks of borrowed keys that repeat a native one, are those of the merge of the two streams.
\<close>

section \<open>The interleaving\<close>

definition in_order :: "bool list list \<Rightarrow> bool" where
  "in_order A \<longleftrightarrow> sorted_wrt (\<lambda>x y. lex x y \<le> 0) A"

definition strict_order :: "bool list list \<Rightarrow> bool" where
  "strict_order A \<longleftrightarrow> sorted_wrt (\<lambda>x y. lex x y < 0) A"

lemma lex_le_trans: "lex x y \<le> 0 \<Longrightarrow> lex y z \<le> 0 \<Longrightarrow> lex x z \<le> 0"
  using lcp_between by blast

lemma lex_less_le_trans: "lex x y < 0 \<Longrightarrow> lex y z \<le> 0 \<Longrightarrow> lex x z < 0"
  using lex_trans [of x y z] lex_eq_0 [of y z] by (cases "lex y z = 0") simp_all

lemma lex_le_less_trans: "lex x y \<le> 0 \<Longrightarrow> lex y z < 0 \<Longrightarrow> lex x z < 0"
  using lex_trans [of x y z] lex_eq_0 [of x y] by (cases "lex x y = 0") simp_all

lemma strict_in_order: "strict_order A \<Longrightarrow> in_order A"
  unfolding strict_order_def in_order_def by (rule sorted_wrt_mono_rel) simp_all

lemma in_orderD: "in_order A \<Longrightarrow> a \<le> b \<Longrightarrow> b < length A \<Longrightarrow> lex (A ! a) (A ! b) \<le> 0"
  unfolding in_order_def using sorted_wrt_nth_less [of "\<lambda>x y. lex x y \<le> 0" A a b] by (cases "a = b") simp_all

lemma strict_orderD: "strict_order A \<Longrightarrow> a < b \<Longrightarrow> b < length A \<Longrightarrow> lex (A ! a) (A ! b) < 0"
  unfolding strict_order_def by (rule sorted_wrt_nth_less)

abbreviation occurrence_key :: "stream_role \<times> nat \<times> bool list \<Rightarrow> bool list" where
  "occurrence_key x \<equiv> snd (snd x)"

lemma set_weave:
  "set (weave i A j B) = (\<lambda>k. (Native, i + k, A ! k)) ` {..<length A} \<union> (\<lambda>k. (Borrowed, j + k, B ! k)) ` {..<length B}"
proof -
  have n: "(\<lambda>k. (r, i + k, (x # xs) ! k)) ` {..<Suc (length xs)} = insert (r, i, x) ((\<lambda>k. (r, Suc (i + k), xs ! k)) ` {..<length xs})"
    for r :: stream_role and i and x :: "bool list" and xs
    by (simp add: lessThan_Suc_eq_insert_0 image_image)
  show ?thesis by (induction i A j B rule: weave.induct) (auto simp: n)
qed

lemma weave_in_order:
  "in_order A \<Longrightarrow> in_order B \<Longrightarrow> sorted_wrt (\<lambda>x y. lex (occurrence_key x) (occurrence_key y) \<le> 0) (weave i A j B)"
proof (induction i A j B rule: weave.induct)
  case (4 i a as j b bs)
  have t: "lex a x \<le> 0" if "x \<in> set as" for x using 4(3) that by (simp add: in_order_def)
  have u: "lex b x \<le> 0" if "x \<in> set bs" for x using 4(4) that by (simp add: in_order_def)
  have tails: "in_order as" "in_order bs" using 4(3,4) by (simp_all add: in_order_def)
  have keys: "occurrence_key x \<in> set xs \<union> set ys" if "x \<in> set (weave k xs l ys)" for x k l xs ys
    using that by (auto simp: set_weave)
  show ?case
  proof (cases "lex b a < 0")
    case True
    have "lex b (occurrence_key x) \<le> 0" if "x \<in> set (weave i (a # as) (Suc j) bs)" for x
      using keys [OF that] t u True lex_le_trans [of b a] by auto
    then show ?thesis using True 4(1) [OF True 4(3) tails(2)] by simp
  next
    case False
    then have ab: "lex a b \<le> 0" using lex_swap [of a b] by simp
    have "lex a (occurrence_key x) \<le> 0" if "x \<in> set (weave (Suc i) as j (b # bs))" for x
      using keys [OF that] t u ab lex_le_trans [of a b] by auto
    then show ?thesis using False 4(2) [OF False tails(1) 4(4)] by simp
  qed
qed (auto simp: set_weave in_order_def)

definition borrowed_before :: "(stream_role \<times> nat \<times> bool list) list \<Rightarrow> nat \<Rightarrow> nat" where
  "borrowed_before xs m = card {l. l < m \<and> fst (xs ! l) = Borrowed}"

lemma borrowed_before_Suc: "borrowed_before xs (Suc m) = borrowed_before xs m + of_bool (fst (xs ! m) = Borrowed)"
proof (cases "fst (xs ! m) = Borrowed")
  case True
  then have "{l. l < Suc m \<and> fst (xs ! l) = Borrowed} = insert m {l. l < m \<and> fst (xs ! l) = Borrowed}" by auto
  then show ?thesis using True by (simp add: borrowed_before_def)
next
  case False
  then have "{l. l < Suc m \<and> fst (xs ! l) = Borrowed} = {l. l < m \<and> fst (xs ! l) = Borrowed}" using less_Suc_eq by auto
  then show ?thesis using False by (simp add: borrowed_before_def)
qed

lemma borrowed_before_0 [simp]: "borrowed_before xs 0 = 0"
  by (simp add: borrowed_before_def)

lemma borrowed_before_le: "borrowed_before xs m \<le> m"
  using card_mono [of "{..<m}" "{l. l < m \<and> fst (xs ! l) = Borrowed}"] by (auto simp: borrowed_before_def)

text \<open>In front of occurrence \<open>m\<close> the cursors of the merge stand at its counts.\<close>

lemma weave_state:
  "m \<le> length A + length B \<Longrightarrow> drop m (weave 0 A 0 B) = occurrences A B (m - borrowed_before (weave 0 A 0 B) m) (borrowed_before (weave 0 A 0 B) m) \<and>
    m - borrowed_before (weave 0 A 0 B) m \<le> length A \<and> borrowed_before (weave 0 A 0 B) m \<le> length B"
proof (induction m)
  case (Suc m)
  let ?os = "weave 0 A 0 B" let ?j = "borrowed_before ?os m" let ?i = "m - ?j"
  have IH: "drop m ?os = occurrences A B ?i ?j" "?i \<le> length A" "?j \<le> length B" using Suc by simp_all
  have ij: "?i + ?j = m" using borrowed_before_le [of ?os m] by simp
  then have left: "?i < length A \<or> ?j < length B" using Suc.prems IH(2,3) by linarith
  note step = occurrences_step [OF left]
  have nth: "?os ! m = hd (drop m ?os)" "drop (Suc m) ?os = tl (drop m ?os)"
    using Suc.prems by (simp_all add: hd_drop_conv_nth drop_Suc tl_drop)
  show ?case
  proof (cases "borrowed_first A B ?i ?j")
    case True
    then have "borrowed_before ?os (Suc m) = Suc ?j" "Suc m - borrowed_before ?os (Suc m) = ?i"
      using nth(1) IH(1) step(1) ij by (simp_all add: borrowed_before_Suc)
    then show ?thesis using True nth(2) IH step by simp
  next
    case False
    then have "borrowed_before ?os (Suc m) = ?j" "Suc m - borrowed_before ?os (Suc m) = Suc ?i"
      using nth(1) IH(1) step(1) ij by (simp_all add: borrowed_before_Suc)
    then show ?thesis using False nth(2) IH step by simp
  qed
qed (simp add: occurrences_def)

lemma weave_nth:
  assumes "m < length A + length B" "os = weave 0 A 0 B" "j = borrowed_before os m" "i = m - j"
  shows "i \<le> length A" "j \<le> length B" "i + j = m" "os ! m = (if borrowed_first A B i j then (Borrowed, j, B ! j) else (Native, i, A ! i))"
    "borrowed_first A B i j \<Longrightarrow> j < length B" "\<not> borrowed_first A B i j \<Longrightarrow> i < length A"
proof -
  have s: "drop m os = occurrences A B i j" "i \<le> length A" "j \<le> length B" using weave_state [of m A B] assms by simp_all
  have ij: "i + j = m" using borrowed_before_le [of os m] assms(3,4) by simp
  then have left: "i < length A \<or> j < length B" using assms(1) s(2,3) by linarith
  have "os ! m = hd (drop m os)" using assms(1,2) by (simp add: hd_drop_conv_nth)
  then show "i \<le> length A" "j \<le> length B" "i + j = m" "os ! m = (if borrowed_first A B i j then (Borrowed, j, B ! j) else (Native, i, A ! i))"
    "borrowed_first A B i j \<Longrightarrow> j < length B" "\<not> borrowed_first A B i j \<Longrightarrow> i < length A"
    using s ij occurrences_step [OF left] by auto
qed

text \<open>Everything in front of an occurrence is at most its key, everything from it on at least.\<close>

lemma weave_cut:
  assumes o: "in_order A" "in_order B" and m: "m < length A + length B" "os = weave 0 A 0 B" "j = borrowed_before os m" "i = m - j"
  shows "a < i \<Longrightarrow> lex (A ! a) (occurrence_key (os ! m)) \<le> 0" "i \<le> a \<Longrightarrow> a < length A \<Longrightarrow> lex (occurrence_key (os ! m)) (A ! a) \<le> 0"
    "b < j \<Longrightarrow> lex (B ! b) (occurrence_key (os ! m)) \<le> 0" "j \<le> b \<Longrightarrow> b < length B \<Longrightarrow> lex (occurrence_key (os ! m)) (B ! b) \<le> 0"
proof -
  have state: "drop m os = occurrences A B i j" "i \<le> length A" "j \<le> length B" using weave_state [of m A B] m by simp_all
  have late: "set (drop m os) = (\<lambda>k. (Native, i + k, drop i A ! k)) ` {..<length A - i} \<union> (\<lambda>k. (Borrowed, j + k, drop j B ! k)) ` {..<length B - j}"
    unfolding state(1) occurrences_def set_weave by simp
  have all: "set os = (\<lambda>k. (Native, k, A ! k)) ` {..<length A} \<union> (\<lambda>k. (Borrowed, k, B ! k)) ` {..<length B}"
    unfolding m(2) set_weave by simp
  have split: "os = take m os @ drop m os" "set os = set (take m os) \<union> set (drop m os)"
    by simp (metis append_take_drop_id set_append)
  have "sorted_wrt (\<lambda>x y. lex (occurrence_key x) (occurrence_key y) \<le> 0) (take m os @ drop m os)"
    using weave_in_order [OF o, of 0 0] m(2) by simp
  then have srt: "\<And>x y. x \<in> set (take m os) \<Longrightarrow> y \<in> set (drop m os) \<Longrightarrow> lex (occurrence_key x) (occurrence_key y) \<le> 0"
    "sorted_wrt (\<lambda>x y. lex (occurrence_key x) (occurrence_key y) \<le> 0) (drop m os)"
    unfolding sorted_wrt_append by blast+
  have "drop m os = os ! m # drop (Suc m) os" using m(1,2) by (simp add: Cons_nth_drop_Suc)
  then have at: "os ! m \<in> set (drop m os)" "\<And>y. y \<in> set (drop m os) \<Longrightarrow> lex (occurrence_key (os ! m)) (occurrence_key y) \<le> 0"
    using srt(2) by auto
  show "lex (A ! a) (occurrence_key (os ! m)) \<le> 0" if "a < i"
  proof -
    have "(Native, a, A ! a) \<in> set os" using that state(2) by (auto simp: all)
    moreover have "(Native, a, A ! a) \<notin> set (drop m os)" using that by (auto simp: late)
    ultimately show ?thesis using srt(1) [OF _ at(1), of "(Native, a, A ! a)"] split(2) by auto
  qed
  show "lex (B ! b) (occurrence_key (os ! m)) \<le> 0" if "b < j"
  proof -
    have "(Borrowed, b, B ! b) \<in> set os" using that state(3) by (auto simp: all)
    moreover have "(Borrowed, b, B ! b) \<notin> set (drop m os)" using that by (auto simp: late)
    ultimately show ?thesis using srt(1) [OF _ at(1), of "(Borrowed, b, B ! b)"] split(2) by auto
  qed
  show "lex (occurrence_key (os ! m)) (A ! a) \<le> 0" if "i \<le> a" "a < length A"
  proof -
    have "(Native, i + (a - i), drop i A ! (a - i)) \<in> set (drop m os)" unfolding late using that by (intro UnI1 imageI) simp
    then show ?thesis using at(2) that by fastforce
  qed
  show "lex (occurrence_key (os ! m)) (B ! b) \<le> 0" if "j \<le> b" "b < length B"
  proof -
    have "(Borrowed, j + (b - j), drop j B ! (b - j)) \<in> set (drop m os)" unfolding late using that by (intro UnI2 imageI) simp
    then show ?thesis using at(2) that by fastforce
  qed
qed

section \<open>Populations and cuts\<close>

definition class_population :: "nat \<Rightarrow> (stream_role \<times> nat \<times> bool list) list \<Rightarrow> nat \<Rightarrow> nat \<Rightarrow> nat" where
  "class_population K xs m g = card {l. l < m \<and> l div K = g \<and> fst (xs ! l) = Borrowed}"

definition cut_value :: "bool list list \<Rightarrow> (stream_role \<times> nat \<times> bool list) list \<Rightarrow> nat \<Rightarrow> nat" where
  "cut_value B xs m = (if borrowed_before xs m = 0 then 0 else lcp (B ! (borrowed_before xs m - 1)) (occurrence_key (xs ! m)))"

lemma class_population_Suc:
  "class_population K xs (Suc m) g = class_population K xs m g + of_bool (m div K = g \<and> fst (xs ! m) = Borrowed)"
proof (cases "m div K = g \<and> fst (xs ! m) = Borrowed")
  case True
  then have "{l. l < Suc m \<and> l div K = g \<and> fst (xs ! l) = Borrowed} = insert m {l. l < m \<and> l div K = g \<and> fst (xs ! l) = Borrowed}"
    by auto
  then show ?thesis using True by (simp add: class_population_def)
next
  case False
  then have "{l. l < Suc m \<and> l div K = g \<and> fst (xs ! l) = Borrowed} = {l. l < m \<and> l div K = g \<and> fst (xs ! l) = Borrowed}"
    using less_Suc_eq by auto
  then show ?thesis using False by (simp add: class_population_def)
qed

lemma class_population_0 [simp]: "class_population K xs 0 g = 0"
  by (simp add: class_population_def)

lemma class_population_le: "0 < K \<Longrightarrow> class_population K xs m g \<le> min K (m - g * K)"
proof -
  assume K: "0 < K"
  have "l \<in> {g * K..<g * K + min K (m - g * K)}" if l: "l < m" "l div K = g" for l
  proof -
    have e: "g * K + l mod K = l" using div_mult_mod_eq [of l K] l(2) by simp
    moreover have "l mod K < K" using K by simp
    ultimately show ?thesis using l(1) by auto
  qed
  then have "{l. l < m \<and> l div K = g \<and> fst (xs ! l) = Borrowed} \<subseteq> {g * K..<g * K + min K (m - g * K)}" by blast
  then have "class_population K xs m g \<le> card {g * K..<g * K + min K (m - g * K)}"
    unfolding class_population_def by (intro card_mono) simp_all
  then show ?thesis by simp
qed

text \<open>The rank of a group is the number of borrowed occurrences in front of it.\<close>

lemma class_population_sum:
  assumes K: "0 < K"
  shows "sum_list (map (class_population K xs m) [0..<g]) = borrowed_before xs (min (g * K) m)"
proof -
  have "(\<Sum>h<g. class_population K xs m h) = card (\<Union>h\<in>{..<g}. {l. l < m \<and> l div K = h \<and> fst (xs ! l) = Borrowed})"
    unfolding class_population_def by (subst card_UN_disjoint) auto
  also have "(\<Union>h\<in>{..<g}. {l. l < m \<and> l div K = h \<and> fst (xs ! l) = Borrowed}) = {l. l < min (g * K) m \<and> fst (xs ! l) = Borrowed}"
    using K by (auto simp: div_less_iff_less_mult)
  finally show ?thesis by (simp add: borrowed_before_def interv_sum_list_conv_sum_set_nat atLeast0LessThan)
qed

section \<open>Building the index\<close>

lemma compare_strings_spec:
  assumes "string_ok a" "string_ok b"
  shows "compare_strings host a b = Inr \<lparr>common_bits = lcp (string_bits a) (string_bits b), order = lex (string_bits a) (string_bits b)\<rparr>"
proof -
  obtain v where v: "string_view a = Inr v" "view_ok v" "view_bits v = string_bits a" using string_view_ok [OF assms(1)] by blast
  obtain w where w: "string_view b = Inr w" "view_ok w" "view_bits w = string_bits b" using string_view_ok [OF assms(2)] by blast
  show ?thesis using v w compare_common_bits_spec [OF v(2) w(2)] by (simp add: compare_strings_def)
qed

abbreviation record_bits :: "profile_record \<Rightarrow> bool list" where
  "record_bits r \<equiv> string_bits (record_key r)"

text \<open>The state of the loop over the occurrences.\<close>

definition cutting :: "nat \<Rightarrow> nat \<Rightarrow> bool list list \<Rightarrow> (stream_role \<times> nat \<times> bool list) list \<Rightarrow> nat \<Rightarrow> u64 list \<Rightarrow> u64 list \<Rightarrow> bool" where
  "cutting K groups B xs m classes cuts \<longleftrightarrow> length classes = groups \<and>
     (\<forall>g<groups. classes ! g = of_nat (class_population K xs m g)) \<and>
     cuts = map (\<lambda>g. of_nat (cut_value B xs (g * K))) [0..<groups_of K m]"

lemma groups_of_Suc: "0 < K \<Longrightarrow> groups_of K (Suc m) = groups_of K m + of_bool (m mod K = 0)"
proof -
  assume K: "0 < K"
  have m: "m = m div K * K + m mod K" "m mod K < K" using K by simp_all
  show ?thesis
  proof (cases "Suc (m mod K) = K")
    case True
    have "Suc m = m div K * K + Suc (m mod K)" using m(1) by (metis add_Suc_right)
    then have "Suc m = Suc (m div K) * K" using True by simp
    then have "Suc m div K = Suc (m div K)" "Suc m mod K = 0" using K by (simp_all only: nonzero_mult_div_cancel_right mod_mult_self2_is_0)
    then show ?thesis using True K by (auto simp: groups_of_def)
  next
    case False
    then have "Suc m div K = m div K" "Suc m mod K = Suc (m mod K)" by (simp_all add: div_Suc mod_Suc)
    then show ?thesis by (simp add: groups_of_def)
  qed
qed

lemma cut_groups_holds:
  assumes K: "0 < group_size p" and A: "A = map record_bits native" and B: "B = map string_bits borrowed" and xs: "xs = weave 0 A 0 B"
    and ok: "\<forall>r\<in>set native. string_ok (record_key r)" "\<forall>s\<in>set borrowed. string_ok s"
    and G: "groups = groups_of (group_size p) (length A + length B)"
  shows "m + n = length A + length B \<Longrightarrow> j = borrowed_before xs m \<Longrightarrow> cutting (group_size p) groups B xs m classes cuts \<Longrightarrow>
    \<exists>classes' cuts'. cut_groups host p n m (drop (m - j) native) (if j = 0 then None else Some (borrowed ! (j - 1))) (drop j borrowed)
      classes cuts = Inr (classes', cuts') \<and> cutting (group_size p) groups B xs (length A + length B) classes' cuts'"
proof (induction n arbitrary: m j classes cuts)
  case (Suc n)
  let ?K = "group_size p" and ?i = "m - j"
  have m: "m < length A + length B" using Suc.prems(1) by simp
  note at = weave_nth [OF m xs Suc.prems(2) refl]
  have len: "length A = length native" "length B = length borrowed" by (simp_all add: A B)
  let ?f = "borrowed_first A B ?i j"
  have srt: "string_ok (record_key (native ! a))" "A ! a = record_bits (native ! a)" if "a < length native" for a
    using that ok(1) by (simp_all add: A)
  have srt': "string_ok (borrowed ! b)" "B ! b = string_bits (borrowed ! b)" if "b < length borrowed" for b
    using that ok(2) by (simp_all add: B)
  have nat: "drop ?i native = native ! ?i # drop (Suc ?i) native" if "?i < length native" using that by (simp add: Cons_nth_drop_Suc)
  have bor: "drop j borrowed = borrowed ! j # drop (Suc j) borrowed" if "j < length borrowed" using that by (simp add: Cons_nth_drop_Suc)
  have choice: "(case drop j borrowed of [] \<Rightarrow> Inr False | b # _ \<Rightarrow> (case drop ?i native of [] \<Rightarrow> Inr True
       | r # _ \<Rightarrow> bindE (compare_strings host b (record_key r)) (\<lambda>c. Inr (order c < 0)))) = Inr ?f"
  proof (cases "?i < length native \<and> j < length borrowed")
    case True
    then show ?thesis using compare_strings_spec [of "borrowed ! j" "record_key (native ! ?i)"] srt [of ?i] srt' [of j] nat bor len
      by (simp add: borrowed_first_def)
  next
    case False
    then show ?thesis using at(1,2,3) m len bor by (cases "j < length borrowed") (auto simp: borrowed_first_def)
  qed
  define boundary where "boundary = (if ?f then hd (drop j borrowed) else record_key (hd (drop ?i native)))"
  have bd: "string_ok boundary" "string_bits boundary = occurrence_key (xs ! m)"
    using at(4-6) nat bor srt [of ?i] srt' [of j] len by (auto simp: boundary_def)
  define cuts1 where "cuts1 = map (\<lambda>g. of_nat (cut_value B xs (g * ?K)) :: u64) [0..<groups_of ?K (Suc m)]"
  have cutsm: "cuts = map (\<lambda>g. of_nat (cut_value B xs (g * ?K))) [0..<groups_of ?K m]" using Suc.prems(3) by (simp add: cutting_def)
  have cut: "(if m mod ?K = 0 then
         let boundary = boundary in
         (case if j = 0 then None else Some (borrowed ! (j - 1)) of None \<Rightarrow> Inr (cuts @ [0])
          | Some a \<Rightarrow> bindE (compare_strings host a boundary) (\<lambda>c. Inr (cuts @ [of_nat (common_bits c)])))
       else Inr cuts) = Inr cuts1"
  proof (cases "m mod ?K = 0")
    case True
    then have g: "groups_of ?K m * ?K = m" "groups_of ?K (Suc m) = Suc (groups_of ?K m)"
      using groups_of_Suc [OF K, of m] by (auto simp: groups_of_def)
    have "cuts1 = cuts @ [of_nat (cut_value B xs m)]" unfolding cuts1_def g(2) cutsm by (simp add: g(1))
    moreover have "cut_value B xs m = (if j = 0 then 0 else lcp (string_bits (borrowed ! (j - 1))) (string_bits boundary))"
      using at(2) srt' [of "j - 1"] len Suc.prems(2) bd(2) by (simp add: cut_value_def)
    ultimately show ?thesis using True compare_strings_spec [of "borrowed ! (j - 1)" boundary] srt'(1) [of "j - 1"] bd(1) at(2) len
      by auto
  next
    case False
    then show ?thesis using groups_of_Suc [OF K, of m] by (simp add: cuts1_def cutsm)
  qed
  have mg: "m div ?K < groups"
  proof -
    have "m div ?K < groups_of ?K (Suc m)" using groups_of_Suc [OF K, of m] by (auto simp: groups_of_def)
    also have "\<dots> \<le> groups_of ?K (Suc m + k)" for k
      by (induction k) (simp_all add: groups_of_Suc [OF K])
    finally have "m div ?K < groups_of ?K (Suc m + n)" .
    then show ?thesis using Suc.prems(1) G by simp
  qed
  have inv: "length classes = groups" "\<And>g. g < groups \<Longrightarrow> classes ! g = of_nat (class_population ?K xs m g)"
    using Suc.prems(3) by (simp_all add: cutting_def)
  have step_eq: "cut_groups host p (Suc n) m (drop ?i native) (if j = 0 then None else Some (borrowed ! (j - 1))) (drop j borrowed) classes cuts =
      (if ?f then cut_groups host p n (m + 1) (drop ?i native) (Some (hd (drop j borrowed))) (tl (drop j borrowed))
         (classes[m div ?K := classes ! (m div ?K) + 1]) cuts1
       else cut_groups host p n (m + 1) (tl (drop ?i native)) (if j = 0 then None else Some (borrowed ! (j - 1))) (drop j borrowed) classes cuts1)"
    by (simp only: cut_groups.simps choice cut [unfolded boundary_def] bindE_simps)
  show ?case
  proof (cases ?f)
    case True
    let ?classes = "classes[m div ?K := classes ! (m div ?K) + 1]"
    have j': "Suc j = borrowed_before xs (Suc m)" using Suc.prems(2) at(4) True by (simp add: borrowed_before_Suc)
    have step: "cutting ?K groups B xs (Suc m) ?classes cuts1"
      using inv mg at(4) True by (auto simp: cutting_def cuts1_def class_population_Suc nth_list_update)
    have "\<exists>classes' cuts'. cut_groups host p n (Suc m) (drop (Suc m - Suc j) native)
        (if Suc j = 0 then None else Some (borrowed ! (Suc j - 1))) (drop (Suc j) borrowed) ?classes cuts1 = Inr (classes', cuts') \<and>
        cutting ?K groups B xs (length A + length B) classes' cuts'"
      using Suc.prems(1) by (intro Suc.IH [OF _ j' step]) simp
    moreover have "hd (drop j borrowed) = borrowed ! j" "tl (drop j borrowed) = drop (Suc j) borrowed"
      using bor at(5) True len by simp_all
    ultimately show ?thesis unfolding step_eq using True by simp
  next
    case False
    have j': "j = borrowed_before xs (Suc m)" using Suc.prems(2) at(4) False by (simp add: borrowed_before_Suc)
    have step: "cutting ?K groups B xs (Suc m) classes cuts1"
      using inv at(4) False by (auto simp: cutting_def cuts1_def class_population_Suc)
    have "\<exists>classes' cuts'. cut_groups host p n (Suc m) (drop (Suc m - j) native)
        (if j = 0 then None else Some (borrowed ! (j - 1))) (drop j borrowed) classes cuts1 = Inr (classes', cuts') \<and>
        cutting ?K groups B xs (length A + length B) classes' cuts'"
      using Suc.prems(1) by (intro Suc.IH [OF _ j' step]) simp
    moreover have "tl (drop ?i native) = drop (Suc m - j) native" using at(3) by (simp add: Suc_diff_le tl_drop drop_Suc)
    ultimately show ?thesis unfolding step_eq using False by simp
  qed
qed simp

section \<open>Marks of repeated keys\<close>

lemma skip_below_holds:
  assumes "string_ok b" "\<forall>r\<in>set native. string_ok (record_key r)" "i \<le> length native"
  shows "\<exists>k. skip_below host b (drop i native) = Inr (drop k native) \<and> i \<le> k \<and> k \<le> length native \<and>
    (\<forall>a. i \<le> a \<longrightarrow> a < k \<longrightarrow> lex (record_bits (native ! a)) (string_bits b) < 0) \<and>
    (k < length native \<longrightarrow> \<not> lex (record_bits (native ! k)) (string_bits b) < 0)"
  using assms(3)
proof (induction "length native - i" arbitrary: i)
  case 0
  then show ?case by (intro exI [of _ i]) simp
next
  case (Suc n)
  then have i: "i < length native" by simp
  then have n: "n = length native - Suc i" "Suc i \<le> length native" using Suc(2) by simp_all
  have d: "drop i native = native ! i # drop (Suc i) native" using i by (simp add: Cons_nth_drop_Suc)
  have c: "compare_strings host (record_key (native ! i)) b =
      Inr \<lparr>common_bits = lcp (record_bits (native ! i)) (string_bits b), order = lex (record_bits (native ! i)) (string_bits b)\<rparr>"
    using compare_strings_spec assms(1,2) i by simp
  show ?case
  proof (cases "lex (record_bits (native ! i)) (string_bits b) < 0")
    case True
    obtain k where k: "skip_below host b (drop (Suc i) native) = Inr (drop k native)" "Suc i \<le> k" "k \<le> length native"
      "\<forall>a. Suc i \<le> a \<longrightarrow> a < k \<longrightarrow> lex (record_bits (native ! a)) (string_bits b) < 0"
      "k < length native \<longrightarrow> \<not> lex (record_bits (native ! k)) (string_bits b) < 0"
      using Suc(1) [OF n] by (elim exE conjE) (rule that)
    have "lex (record_bits (native ! a)) (string_bits b) < 0" if "i \<le> a" "a < k" for a
      using that k(4) True by (cases "a = i") simp_all
    then show ?thesis using k d c True by (intro exI [of _ k]) simp
  next
    case False
    then show ?thesis using d c i by (intro exI [of _ i]) simp
  qed
qed

lemma bit_mark:
  assumes "j < length flags * 8"
  shows "bit ((flags[i div 8 := flags ! (i div 8) OR push_bit (i mod 8) 1] :: u8 list) ! (j div 8)) (j mod 8) \<longleftrightarrow>
    bit (flags ! (j div 8)) (j mod 8) \<or> j = i"
proof (cases "j div 8 = i div 8")
  case True
  then have "j = i \<longleftrightarrow> j mod 8 = i mod 8" by (metis div_mult_mod_eq)
  moreover have "j div 8 < length flags" using assms by (simp add: div_less_iff_less_mult)
  moreover have "j mod 8 < 8" by simp
  ultimately show ?thesis using True by (auto simp: bit_or_iff bit_exp_iff not_less)
next
  case False
  then show ?thesis by auto
qed

lemma mark_false_holds:
  assumes A: "A = map record_bits native" "strict_order A" and B: "B = map string_bits borrowed" "in_order B"
    and ok: "\<forall>r\<in>set native. string_ok (record_key r)" "\<forall>s\<in>set borrowed. string_ok s"
  shows "j + n = length borrowed \<Longrightarrow> i \<le> length native \<Longrightarrow> (\<forall>a<i. \<forall>b<length B. j \<le> b \<longrightarrow> lex (A ! a) (B ! b) < 0) \<Longrightarrow>
    length borrowed \<le> 8 * length flags \<Longrightarrow>
    (\<forall>b<length borrowed. bit (flags ! (b div 8)) (b mod 8) \<longleftrightarrow> b < j \<and> B ! b \<in> set A) \<Longrightarrow>
    \<exists>flags'. mark_false host (if j = 0 then None else Some (borrowed ! (j - 1))) j (drop i native) (drop j borrowed) flags records =
      Inr (flags', records @ map (\<lambda>b. \<lparr>record_key = b, record_value = empty_string, retained_limit_bits = None\<rparr>) (drop j borrowed)) \<and>
      length flags' = length flags \<and> (\<forall>b<length borrowed. bit (flags' ! (b div 8)) (b mod 8) \<longleftrightarrow> B ! b \<in> set A)"
proof (induction n arbitrary: i j flags records)
  case (Suc n)
  have j: "j < length borrowed" "length B = length borrowed" "length A = length native" using Suc.prems(1) by (simp_all add: A B)
  then have d: "drop j borrowed = borrowed ! j # drop (Suc j) borrowed" by (simp add: Cons_nth_drop_Suc)
  have key: "string_ok (borrowed ! b)" "B ! b = string_bits (borrowed ! b)" if "b < length borrowed" for b
    using that ok(2) by (simp_all add: B)
  have rec: "string_ok (record_key (native ! a))" "A ! a = record_bits (native ! a)" if "a < length native" for a
    using that ok(1) by (simp_all add: A)
  have sorted: "(case if j = 0 then None else Some (borrowed ! (j - 1)) of None \<Rightarrow> Inr ()
      | Some a \<Rightarrow> bindE (compare_strings host a (borrowed ! j)) (\<lambda>c.
        if order c > 0 then Inl (Invalid_argument ''profile blob borrowed keys must be sorted'') else Inr ())) = Inr ()"
  proof (cases "j = 0")
    case False
    then have "lex (B ! (j - 1)) (B ! j) \<le> 0" using in_orderD [OF B(2), of "j - 1" j] j by simp
    then show ?thesis using False compare_strings_spec [OF key(1) key(1), of "j - 1" j host] key(2) [of "j - 1"] key(2) [of j] j(1)
      by (simp add: not_less)
  qed simp
  obtain k where k: "skip_below host (borrowed ! j) (drop i native) = Inr (drop k native)" "i \<le> k" "k \<le> length native"
    "\<forall>a. i \<le> a \<longrightarrow> a < k \<longrightarrow> lex (record_bits (native ! a)) (string_bits (borrowed ! j)) < 0"
    "k < length native \<longrightarrow> \<not> lex (record_bits (native ! k)) (string_bits (borrowed ! j)) < 0"
    using skip_below_holds [OF key(1) [OF j(1)] ok(1) Suc.prems(2)] by blast
  have below: "lex (A ! a) (B ! b) < 0" if "a < k" "j \<le> b" "b < length B" for a b
  proof -
    have "lex (A ! a) (B ! j) < 0"
    proof (cases "a < i")
      case True
      then show ?thesis using Suc.prems(3) j by simp
    next
      case False
      then show ?thesis using k(3,4) that(1) rec(2) [of a] key(2) [OF j(1)] by simp
    qed
    moreover have "lex (B ! j) (B ! b) \<le> 0" by (rule in_orderD [OF B(2) that(2,3)])
    ultimately show ?thesis by (rule lex_less_le_trans)
  qed
  have mem: "B ! j \<in> set A \<longleftrightarrow> k < length A \<and> A ! k = B ! j"
  proof
    assume "B ! j \<in> set A"
    then obtain a where a: "a < length A" "A ! a = B ! j" by (auto simp: in_set_conv_nth)
    then have "\<not> a < k" using below [of a j] j lex_eq_0 by force
    moreover have "\<not> k < a"
    proof
      assume l: "k < a"
      then have "lex (A ! k) (A ! a) < 0" using strict_orderD [OF A(2)] a(1) by blast
      moreover have "\<not> lex (A ! k) (B ! j) < 0" using k(5) l a(1) j rec(2) [of k] key(2) [OF j(1)] by simp
      ultimately show False using a(2) by simp
    qed
    ultimately have "a = k" by simp
    then show "k < length A \<and> A ! k = B ! j" using a by simp
  qed (metis nth_mem)
  have hit: "(case drop k native of [] \<Rightarrow> Inr False
      | r # _ \<Rightarrow> bindE (compare_strings host (record_key r) (borrowed ! j)) (\<lambda>c. Inr (order c = 0))) = Inr (B ! j \<in> set A)"
  proof (cases "k < length native")
    case True
    then have "drop k native = native ! k # drop (Suc k) native" by (simp add: Cons_nth_drop_Suc)
    then show ?thesis using True compare_strings_spec [OF rec(1) key(1) [OF j(1)], of k host] rec(2) [of k] key(2) [OF j(1)] mem j lex_eq_0 by simp
  next
    case False
    then show ?thesis using mem j by simp
  qed
  define flags1 where "flags1 = (if B ! j \<in> set A then flags[j div 8 := flags ! (j div 8) OR push_bit (j mod 8) 1] else flags)"
  have f: "length flags1 = length flags" "\<forall>b<length borrowed. bit (flags1 ! (b div 8)) (b mod 8) \<longleftrightarrow> b < Suc j \<and> B ! b \<in> set A"
  proof -
    show "length flags1 = length flags" by (simp add: flags1_def)
    show "\<forall>b<length borrowed. bit (flags1 ! (b div 8)) (b mod 8) \<longleftrightarrow> b < Suc j \<and> B ! b \<in> set A"
    proof (intro allI impI)
      fix b assume b: "b < length borrowed"
      then have "b < length flags * 8" using Suc.prems(4) by simp
      then show "bit (flags1 ! (b div 8)) (b mod 8) \<longleftrightarrow> b < Suc j \<and> B ! b \<in> set A"
        using Suc.prems(5) b bit_mark [of b flags j] by (auto simp: flags1_def less_Suc_eq)
    qed
  qed
  let ?r = "\<lparr>record_key = borrowed ! j, record_value = empty_string, retained_limit_bits = None\<rparr>"
  have "\<exists>flags'. mark_false host (if Suc j = 0 then None else Some (borrowed ! (Suc j - 1))) (Suc j) (drop k native) (drop (Suc j) borrowed) flags1 (records @ [?r]) =
      Inr (flags', (records @ [?r]) @ map (\<lambda>b. \<lparr>record_key = b, record_value = empty_string, retained_limit_bits = None\<rparr>) (drop (Suc j) borrowed)) \<and>
      length flags' = length flags1 \<and> (\<forall>b<length borrowed. bit (flags' ! (b div 8)) (b mod 8) \<longleftrightarrow> B ! b \<in> set A)"
    using Suc.prems f k(3) below by (intro Suc.IH) simp_all
  moreover have "mark_false host (if j = 0 then None else Some (borrowed ! (j - 1))) j (drop i native) (drop j borrowed) flags records =
      mark_false host (Some (borrowed ! j)) (j + 1) (drop k native) (drop (Suc j) borrowed) flags1 (records @ [?r])"
    unfolding d flags1_def by (simp only: mark_false.simps sorted k(1) hit bindE_simps)
  ultimately show ?case using f(1) by (simp add: d)
qed simp

section \<open>Built blobs\<close>

definition borrowed_records :: "bit_string list \<Rightarrow> profile_record list" where
  "borrowed_records = map (\<lambda>b. \<lparr>record_key = b, record_value = empty_string, retained_limit_bits = None\<rparr>)"

text \<open>A view whose sections describe the interleaving of two streams of frames.\<close>

definition blob_holds ::
  "bool \<Rightarrow> storage_policy \<Rightarrow> nat option \<Rightarrow> frame list \<Rightarrow> frame list \<Rightarrow> blob_view \<Rightarrow> bool" where
  "blob_holds host p c F H v \<longleftrightarrow> holds host p c F (bv_native v) \<and> holds host p (Some 0) H (bv_borrowed v) \<and>
     (let A = map fr_key F; B = map fr_key H; xs = weave 0 A 0 B; n = length xs; K = group_size p in
      strict_order A \<and> in_order B \<and> bv_virtual_count v = n \<and>
      view_shows host K (bv_interleave v) (map (class_population K xs n) [0..<groups_of K n]) \<and>
      (\<forall>j<length B. bit (bv_false_borrows v ! (j div 8)) (j mod 8) \<longleftrightarrow> B ! j \<in> set A) \<and>
      (\<forall>g<groups_of K n. \<exists>w. word_at host (bv_cut_lcps v) g = Inr w \<and> unat w = cut_value B xs (g * K)))"

lemma increasing_strict:
  "increasing_after prev rs \<Longrightarrow> strict_order (map record_bits rs) \<and> (\<forall>k. prev = Some k \<longrightarrow> (\<forall>r\<in>set rs. lex k (record_bits r) < 0))"
proof (induction rs arbitrary: prev)
  case (Cons r rs)
  have "strict_order (map record_bits rs)" "\<forall>x\<in>set rs. lex (record_bits r) (record_bits x) < 0"
    using Cons.IH [of "Some (record_bits r)"] Cons.prems by simp_all
  then show ?case using Cons.prems lex_trans by (auto simp: strict_order_def)
qed (simp add: strict_order_def)

lemma sorted_in_order:
  "sorted_after prev rs \<Longrightarrow> in_order (map record_bits rs) \<and> (\<forall>k. prev = Some k \<longrightarrow> (\<forall>r\<in>set rs. lex k (record_bits r) \<le> 0))"
proof (induction rs arbitrary: prev)
  case (Cons r rs)
  have "in_order (map record_bits rs)" "\<forall>x\<in>set rs. lex (record_bits r) (record_bits x) \<le> 0"
    using Cons.IH [of "Some (record_bits r)"] Cons.prems by simp_all
  then show ?case using Cons.prems lex_le_trans by (auto simp: in_order_def)
qed (simp add: in_order_def)

lemma check_native_holds:
  "increasing_after (map_option string_bits prev) rs \<Longrightarrow> (\<forall>s. prev = Some s \<longrightarrow> string_ok s) \<Longrightarrow> \<forall>r\<in>set rs. string_ok (record_key r) \<Longrightarrow>
    check_native host prev rs = Inr ()"
proof (induction rs arbitrary: prev)
  case (Cons r rs)
  have "(case prev of None \<Rightarrow> Inr () | Some a \<Rightarrow> bindE (compare_strings host a (record_key r)) (\<lambda>c.
       if order c \<ge> 0 then Inl (Invalid_argument ''profile blob native keys must be strictly sorted'') else Inr ())) = Inr ()"
    using Cons.prems compare_strings_spec by (cases prev) (auto simp: not_le)
  then show ?case using Cons.IH [of "Some (record_key r)"] Cons.prems by simp
qed simp

lemma empty_blob_builds:
  assumes p: "policy_ok p"
  shows "\<exists>b. empty_blob host p = Inr b \<and> pb_cut_lcps b = []"
proof -
  have fit: "length (stream p c (front_code p c [] 0 [] 0 []) (length (front_code p c [] 0 [] 0 []))) < 2 ^ 57" for c by simp
  have ok: "records_ok p role []" for role by (simp add: records_ok_def)
  obtain a b where "build_profile host p Native [] [] 0 = Inr a" "build_profile host p Borrowed [] [] 0 = Inr b"
    using build_profile_built [OF p ok [of Native] _ _ refl refl fit, of host] build_profile_built [OF p ok [of Borrowed] _ _ refl refl fit, of host]
    by auto
  moreover have "rg_group_ok (group_size p)" using p by (simp add: policy_ok_def rg_group_ok_def)
  then have "\<exists>r. rg_build (group_size p) [] 0 = Inr r"
    using rg_build_decides [of "group_size p" 0 "[]"] by (auto simp: counts_ok_def groups_of_def)
  ultimately show ?thesis by (auto simp: empty_blob_def)
qed

lemma rank_view_size_built: "rg_view host K r = Inr v \<Longrightarrow> rank_view_size v = rg_count_of r"
  by (auto simp: rg_view_def Let_def new_rank15_view_def new_rank_groups_view_def bindE_eq_Inr split: if_splits)

lemma front_keys:
  "map fr_key (front_code p c ceilings rf records anchor []) = map record_bits records"
proof -
  have "contents (front_code p c ceilings rf records anchor []) = map (\<lambda>r. (record_bits r, string_bits (record_value r))) records"
    using front_code_extends [of p c ceilings rf records anchor "[]"] by auto
  then have "map fst (contents (front_code p c ceilings rf records anchor [])) = map record_bits records" by simp
  then show ?thesis by (simp add: contents_def o_def)
qed

lemma built_length:
  assumes "built_profile p role c F a"
  shows "length F < 2 ^ 57"
proof -
  have "length F \<le> place p c F (length F)" using residual_mono(3) [OF _ order_refl] assms by (auto simp: built_profile_def)
  also have "\<dots> \<le> length (stream p c F (length F))" by (rule place_length)
  finally show ?thesis using assms by (simp add: built_profile_def)
qed

lemma counts_of_classes:
  assumes "0 < K"
  shows "counts_ok K n (map (class_population K xs n) [0..<groups_of K n])"
proof -
  have "class_population K xs n g \<le> group_limit K n g" if "g < groups_of K n" for g
  proof (cases "g + 1 = groups_of K n \<and> n mod K \<noteq> 0")
    case True
    then have "g = n div K" unfolding groups_of_def by auto
    then have "n - g * K = n mod K" by (simp add: minus_div_mult_eq_mod)
    then show ?thesis using class_population_le [OF assms, of xs n g] True by (simp add: group_limit_def)
  next
    case False
    then show ?thesis using class_population_le [OF assms, of xs n g] by (auto simp: group_limit_def)
  qed
  then show ?thesis by (simp add: counts_ok_def)
qed

lemma blob_build_holds:
  assumes p: "policy_ok p" and native: "records_ok p Native native" "increasing_after None native"
    and borrowed: "records_ok p Borrowed (borrowed_records borrowed)"
    and F: "c = shared_width p Native native" "F = front_code p c [] 0 native 0 []" "length (stream p c F (length F)) < 2 ^ 57"
    and H: "H = front_code p (Some 0) [] 0 (borrowed_records borrowed) 0 []" "length (stream p (Some 0) H (length H)) < 2 ^ 57"
  shows "\<exists>b v. blob_build host p native borrowed = Inr b \<and> view_of_blob host p b = Inr v \<and> blob_holds host p c F H v"
proof -
  let ?K = "group_size p" let ?A = "map record_bits native" and ?B = "map string_bits borrowed"
  define xs where "xs = weave 0 ?A 0 ?B"
  have K: "0 < ?K" "rg_group_ok ?K" using p by (simp_all add: policy_ok_def rg_group_ok_def)
  obtain a where a: "build_profile host p Native native [] 0 = Inr a" "built_profile p Native c F a"
    using build_profile_built [OF p native(1) _ _ F(1,2,3), of host] by auto
  have w0: "Some 0 = shared_width p Borrowed (borrowed_records borrowed)" by (simp add: shared_width_def)
  obtain b where b: "build_profile host p Borrowed (borrowed_records borrowed) [] 0 = Inr b" "built_profile p Borrowed (Some 0) H b"
    using build_profile_built [OF p borrowed _ _ w0 H, of host] by auto
  have keys: "map fr_key F = ?A" "map fr_key H = ?B" by (simp_all add: F(2) H(1) front_keys borrowed_records_def o_def)
  have len: "length F = length native" "length H = length borrowed"
    using arg_cong [OF keys(1), of length] arg_cong [OF keys(2), of length] by simp_all
  have small: "length native < 2 ^ 57" "length borrowed < 2 ^ 57" using built_length [OF a(2)] built_length [OF b(2)] len by simp_all
  have strict: "strict_order ?A" using increasing_strict [OF native(2)] by simp
  have ordered: "in_order ?B" using sorted_in_order [of None "borrowed_records borrowed"] borrowed
    by (simp add: records_ok_def borrowed_records_def o_def)
  have ok: "\<forall>r\<in>set native. string_ok (record_key r)" "\<forall>s\<in>set borrowed. string_ok s"
    using native(1) borrowed by (auto simp: records_ok_def record_ok_def borrowed_records_def)
  obtain e where e: "empty_blob host p = Inr e" "pb_cut_lcps e = []" using empty_blob_builds [OF p] by blast
  have bytes: "length borrowed \<le> 8 * ((length borrowed + 7) div 8)"
    using div_mult_mod_eq [of "length borrowed + 7" 8] mod_less_divisor [of 8 "length borrowed + 7"] by simp
  have zero: "bit (replicate ((length borrowed + 7) div 8) (0 :: u8) ! (j div 8)) (j mod 8) \<longleftrightarrow> j < 0 \<and> ?B ! j \<in> set ?A"
    if "j < length borrowed" for j
  proof -
    have "j div 8 < (length borrowed + 7) div 8" using that bytes by (simp add: div_less_iff_less_mult)
    then show ?thesis by simp
  qed
  obtain flags where flags: "mark_false host None 0 native borrowed (replicate ((length borrowed + 7) div 8) 0) [] =
      Inr (flags, borrowed_records borrowed)" "length flags = (length borrowed + 7) div 8"
      "\<forall>j<length borrowed. bit (flags ! (j div 8)) (j mod 8) \<longleftrightarrow> ?B ! j \<in> set ?A"
    using mark_false_holds [OF refl strict refl ordered ok, of 0 "length borrowed" 0 "replicate ((length borrowed + 7) div 8) 0" host "[]"] bytes zero
    by (auto simp: borrowed_records_def)
  let ?n = "length native + length borrowed"
  have n: "?n = length ?A + length ?B" "length xs = ?n" by (simp_all add: xs_def)
  have start: "cutting ?K (groups_of ?K ?n) ?B xs 0 (replicate (groups_of ?K ?n) 0) []" by (simp add: cutting_def groups_of_def)
  obtain classes cuts where cl: "cut_groups host p ?n 0 native None borrowed (replicate (groups_of ?K ?n) 0) [] = Inr (classes, cuts)"
      "cutting ?K (groups_of ?K ?n) ?B xs ?n classes cuts"
    using cut_groups_holds [OF K(1) refl refl xs_def ok refl, of 0 ?n 0 "replicate (groups_of ?K ?n) 0" "[]" host] start by auto
  have pop: "class_population ?K xs ?n g < 2 ^ 64" for g
    using class_population_le [OF K(1), of xs ?n g] K(2) by (simp add: rg_group_ok_def u64_max_def)
  have classes: "map unat classes = map (class_population ?K xs ?n) [0..<groups_of ?K ?n]"
    using cl(2) pop by (intro nth_equalityI) (simp_all add: cutting_def unat_of_nat_u64)
  have big: "?n \<le> u64_max" using small by (simp add: u64_max_def)
  obtain ranks where ranks: "rg_build ?K classes ?n = Inr ranks" "built_groups ?K (map unat classes) ranks" "rg_count_of ranks = ?n"
    using rg_build_decides [OF K(2) big, of classes] counts_of_classes [OF K(1), of ?n xs] by (auto simp: classes)
  define blob where "blob = e\<lparr>pb_native := a, pb_borrowed := b, pb_interleave := ranks, pb_false_borrows := flags,
    pb_virtual_count := ?n, pb_cut_lcps := cuts\<rparr>"
  have gc: "blob_group_count p n = groups_of ?K n" for n by (simp add: blob_group_count_def groups_of_def)
  have check: "check_count (length native) (length borrowed) = Inr ()" using small by (simp add: check_count_def u64_max_def)
  have built: "blob_build host p native borrowed = Inr blob"
    using check check_native_holds [of None native host] native(2) ok(1) e a(1) b(1) flags(1) cl(1) ranks(1)
    by (simp add: blob_build_def build_index_def Let_def gc blob_def)
  obtain v where v: "array_view host p Native a = Inr v" "holds host p c F v"
    using array_view_holds [OF p a(2), of host host] by (auto simp: array_view_native)
  obtain w where w: "array_view host p Borrowed b = Inr w" "holds host p (Some 0) H w"
    using array_view_holds [OF p b(2), of host host] by (auto simp: array_view_native)
  obtain r where r: "rg_view host ?K ranks = Inr r" "view_shows host ?K r (map unat classes)"
    using rg_view_shows [OF ranks(2) _ _ K(2)] counts_of_classes [OF K(1), of ?n xs] big by (auto simp: ranks(3) classes)
  have cuts: "cuts = map (\<lambda>g. of_nat (cut_value ?B xs (g * ?K))) [0..<groups_of ?K ?n]" using cl(2) by (simp add: cutting_def)
  have rd: "reads host (native_words host cuts) cuts" by (simp add: native_words_section reads_section)
  have shape: "new_blob_view p v w r flags (native_words host cuts) ?n = Inr \<lparr>bv_native = v, bv_borrowed = w, bv_interleave = r,
      bv_false_borrows = flags, bv_cut_lcps = native_words host cuts, bv_virtual_count = ?n\<rparr>"
    using small flags(2) readsD(1) [OF rd] holdsD(5) [OF v(2)] holdsD(5) [OF w(2)] len rank_view_size_built [OF r(1)] ranks(3)
    by (simp add: new_blob_view_def gc cuts u64_max_def)
  have cut: "\<exists>x. word_at host (native_words host cuts) g = Inr x \<and> unat x = cut_value ?B xs (g * ?K)" if g: "g < groups_of ?K ?n" for g
  proof -
    have "length (?B ! j) < 2 ^ 64" if "j < length borrowed" for j
    proof -
      have s: "string_ok (borrowed ! j)" using ok(2) that by simp
      then have "bit_size (borrowed ! j) < 2 ^ 64" by (simp add: string_ok_def u64_max_def)
      then show ?thesis using length_string_bits [OF s] that by simp
    qed
    moreover have "borrowed_before xs (g * ?K) \<le> length borrowed"
    proof -
      have "g * ?K \<le> ?n"
      proof -
        have "g \<le> ?n div ?K" using g unfolding groups_of_def of_bool_def by (simp split: if_splits)
        then have "g * ?K \<le> ?n div ?K * ?K" by (rule mult_le_mono1)
        also have "\<dots> \<le> ?n" by simp
        finally show ?thesis .
      qed
      then show ?thesis using weave_state [of "g * ?K" ?A ?B] by (simp add: xs_def)
    qed
    ultimately have "cut_value ?B xs (g * ?K) < 2 ^ 64"
      using le_less_trans [OF lcp_le(1) [of "?B ! (borrowed_before xs (g * ?K) - 1)" "occurrence_key (xs ! (g * ?K))"]]
      by (cases "borrowed_before xs (g * ?K) = 0") (simp_all add: cut_value_def)
    then show ?thesis using readsD(2) [OF rd, of g] g by (simp add: cuts unat_of_nat_u64)
  qed
  have "blob_holds host p c F H \<lparr>bv_native = v, bv_borrowed = w, bv_interleave = r,
      bv_false_borrows = flags, bv_cut_lcps = native_words host cuts, bv_virtual_count = ?n\<rparr>"
    using v(2) w(2) r(2) flags(3) cut strict ordered by (simp add: blob_holds_def Let_def keys n(2) classes flip: xs_def)
  moreover have "view_of_blob host p blob = new_blob_view p v w r flags (native_words host cuts) ?n"
    using v(1) w(1) r(1) by (simp add: view_of_blob_def blob_def)
  ultimately show ?thesis using built shape by simp
qed

end
