(* ===== verification/BlobSearch.thy ===== *)
theory BlobSearch
  imports BlobIndex
begin

text \<open>
  Queries of a blob (\<open>profile_blob.h\<close>): the windows a group projects to, the comparison of a window
  against a query from the comparison of a boundary key, and the search that finds the native record
  of the query and the borrowed key to descend from.
\<close>

section \<open>Comparing a window\<close>

text \<open>
  A callback is described by what holds in front of a record, \<open>P\<close>, and after the comparison, \<open>R\<close>. The
  comparison starts from any key that shares the retained prefix of the first record.
\<close>

lemma record_advance:
  assumes h: "holds host p c F v" and i: "i < length F" and r: "is_record p c F i r" "in_range p v r"
    and d: "describes p ctx q k" and k: "fr_kept (F ! i) * bits_per_unit p \<le> lcp k (fr_key (F ! i))"
  shows "\<exists>ctx' work. context_advance host p r ctx = Inr (ctx', work) \<and> describes p ctx' q (fr_key (F ! i))"
proof -
  let ?u = "bits_per_unit p" let ?n = "fr_kept (F ! i) * ?u"
  note f = frame_units [OF frames_okD [OF holdsD(2) [OF h] i]]
  have r': "retained r = fr_kept (F ! i)" "key_units r = length (fr_key (F ! i)) div ?u"
    "view_bits (suffix_view r) = drop ?n (fr_key (F ! i))" "view_ok (suffix_view r)" "retained r \<le> key_units r"
    "key_units r \<le> m_extent (pv_metadata v)" "bsize (suffix_view r) = (key_units r - retained r) * ?u"
    using r by (simp_all add: is_record_def in_range_def)
  note t = take_lcp_split [OF k]
  have "key_units r * ?u \<le> m_extent (pv_metadata v) * ?u" using r'(6) by (rule mult_le_mono1)
  then have "key_units r * ?u \<le> u64_max" using admittedD(5) [OF holdsD(1) [OF h]] by linarith
  moreover have "key_units r * ?u = retained r * ?u + bsize (suffix_view r)"
    using r'(5,7) by (simp add: diff_mult_distrib mult_le_mono1)
  moreover have "retained r * ?u \<le> length k" using t(2) r'(1) by simp
  moreover have "take (retained r * ?u) k @ view_bits (suffix_view r) = fr_key (F ! i)" using t(1) r'(1,3) by simp
  ultimately show ?thesis using context_advance_describes [OF d r'(4), of host] by fastforce
qed

lemma compare_loop_holds:
  assumes h: "holds host p c F v" and l: "l \<le> length F"
    and step: "\<And>i ctx val s. P i s \<Longrightarrow> f \<le> i \<Longrightarrow> i < l \<Longrightarrow> describes p ctx q (fr_key (F ! i)) \<Longrightarrow> view_ok val \<Longrightarrow>
      view_bits val = fr_value (F ! i) \<Longrightarrow> bsize val \<le> u64_max - 7 \<Longrightarrow>
      \<exists>s'. callback \<lparr>ci_ordinal = i, ci_comparison = ctx, ci_value = val\<rparr> s = (Inr True, s') \<and> P (Suc i) s' \<or>
        callback \<lparr>ci_ordinal = i, ci_comparison = ctx, ci_value = val\<rparr> s = (Inr False, s') \<and> R s'"
    and fin: "\<And>s. P l s \<Longrightarrow> R s"
  shows "n = l - i \<Longrightarrow> 0 < n \<Longrightarrow> f \<le> i \<Longrightarrow> is_record p c F i r \<Longrightarrow> in_range p v r \<Longrightarrow> describes p ctx q k \<Longrightarrow>
    fr_kept (F ! i) * bits_per_unit p \<le> lcp k (fr_key (F ! i)) \<Longrightarrow> P i s \<Longrightarrow>
    \<exists>s' work'. compare_loop host p v callback n i ctx r (s, work) = (Inr (), (s', work')) \<and> R s'"
proof (induction n arbitrary: i r ctx k s work)
  case (Suc n)
  have i: "i < l" "i < length F" using Suc.prems(1) l by simp_all
  obtain ctx' x where adv: "context_advance host p r ctx = Inr (ctx', x)" "describes p ctx' q (fr_key (F ! i))"
    using record_advance [OF h i(2) Suc.prems(4-7)] by blast
  have val: "view_ok (value_view r)" "view_bits (value_view r) = fr_value (F ! i)" "bsize (value_view r) \<le> u64_max - 7"
  proof -
    show "view_ok (value_view r)" "view_bits (value_view r) = fr_value (F ! i)" using Suc.prems(4) by (simp_all add: is_record_def)
    have "value_units r * bits_per_unit p \<le> m_extent (pv_metadata v) * bits_per_unit p"
      using Suc.prems(5) by (intro mult_le_mono1) (simp add: in_range_def)
    also have "\<dots> \<le> u64_max - 7" by (rule admittedD(5) [OF holdsD(1) [OF h]])
    finally show "bsize (value_view r) \<le> u64_max - 7" using Suc.prems(5) by (simp add: in_range_def)
  qed
  let ?item = "\<lparr>ci_ordinal = i, ci_comparison = ctx', ci_value = value_view r\<rparr>"
  obtain s1 where s1: "callback ?item s = (Inr True, s1) \<and> P (Suc i) s1 \<or> callback ?item s = (Inr False, s1) \<and> R s1"
    using step [OF Suc.prems(8,3) i(1) adv(2) val] by blast
  then show ?case
  proof (elim disjE conjE)
    assume stop: "callback ?item s = (Inr False, s1)" "R s1"
    then show ?thesis using adv(1) by (simp add: Let_def)
  next
    assume go: "callback ?item s = (Inr True, s1)" "P (Suc i) s1"
    show ?thesis
    proof (cases "n = 0")
      case True
      then have "Suc i = l" using Suc.prems(1) i(1) by simp
      then show ?thesis using go adv(1) True fin by (simp add: Let_def)
    next
      case False
      then have i': "Suc i < l" "Suc i < length F" "n = l - Suc i" using Suc.prems(1) l by simp_all
      obtain r' o' where r': "next_record host p v r (Suc i) (view_offset host p v) = Inr (r', o')" "is_record p c F (Suc i) r'" "in_range p v r'"
        using next_record_holds [OF h Suc.prems(4) i'(2), of "view_offset host p v" "()"] view_offset_holds [OF h i'(2)] by blast
      have kept: "fr_kept (F ! Suc i) * bits_per_unit p \<le> lcp (fr_key (F ! i)) (fr_key (F ! Suc i))"
        using frames_okD [OF holdsD(2) [OF h] i'(2)] by (simp add: frame_ok_def)
      show ?thesis
        using Suc.IH [OF i'(3) _ _ r'(2,3) adv(2) kept go(2)] False Suc.prems(3) go(1) adv(1) r'(1) by (simp add: Let_def)
    qed
  qed
qed simp

lemma compare_window_holds:
  assumes h: "holds host p c F v" and w: "f \<le> l" "l \<le> length F" "l - f \<le> group_size p"
    and d: "describes p ctx q k" and k: "f < l \<Longrightarrow> lex (prev_key F f) k \<le> 0" "f < l \<Longrightarrow> lex k (fr_key (F ! f)) \<le> 0"
    and step: "\<And>i ctx val s. P i s \<Longrightarrow> f \<le> i \<Longrightarrow> i < l \<Longrightarrow> describes p ctx q (fr_key (F ! i)) \<Longrightarrow> view_ok val \<Longrightarrow>
      view_bits val = fr_value (F ! i) \<Longrightarrow> bsize val \<le> u64_max - 7 \<Longrightarrow>
      \<exists>s'. callback \<lparr>ci_ordinal = i, ci_comparison = ctx, ci_value = val\<rparr> s = (Inr True, s') \<and> P (Suc i) s' \<or>
        callback \<lparr>ci_ordinal = i, ci_comparison = ctx, ci_value = val\<rparr> s = (Inr False, s') \<and> R s'"
    and fin: "\<And>s. P l s \<Longrightarrow> R s" and s: "P f s"
  shows "\<exists>s' work'. compare_window host p v f l ctx callback False (s, work) = (Inr None, (s', work')) \<and> R s'"
proof -
  have ok: "window_ok p v f l" using w holdsD(5) [OF h] by (simp add: window_ok_def)
  show ?thesis
  proof (cases "f = l")
    case True
    then show ?thesis using ok fin s by (auto simp: compare_window_def)
  next
    case False
    then have f: "f < l" "f < length F" using w by simp_all
    have kept: "fr_kept (F ! f) * bits_per_unit p \<le> lcp k (fr_key (F ! f))"
      using frames_okD [OF holdsD(2) [OF h] f(2)] lcp_between [OF k(1) [OF f(1)] k(2) [OF f(1)]] by (simp add: frame_ok_def)
    obtain r where r: "parse_payload host p v (payload_place p c F f) (fr_kept (F ! f)) = Inr r" "is_record p c F f r" "in_range p v r"
      using parse_payload_holds(1) [OF h f(2)] by blast
    have "\<exists>s' work'. compare_loop host p v callback (l - f) f ctx r (s, work\<lparr>skipped_headers := skipped_headers work + f mod codec_block_size p\<rparr>) =
        (Inr (), (s', work')) \<and> R s'"
      by (rule compare_loop_holds [OF h w(2) step fin refl _ order_refl r(2,3) d kept s]) (use f in simp_all)
    then show ?thesis
      using f ok locate_record_holds [OF h f(2)] r(1) by (auto simp: compare_window_def on_skipped_def bindM_apply)
  qed
qed

section \<open>Projection\<close>

lemma project_holds:
  assumes b: "blob_holds host p c F H v" and xs: "xs = weave 0 (map fr_key F) 0 (map fr_key H)" "n = length F + length H"
    and g: "g < groups_of (group_size p) n" "m = g * group_size p" "m' = min (Suc g * group_size p) n"
    and p: "policy_ok p"
  shows "project host p v g = Inr \<lparr>native_first = m - borrowed_before xs m, native_last = m' - borrowed_before xs m',
    borrowed_first_of = borrowed_before xs m, borrowed_last_of = borrowed_before xs m'\<rparr>"
    and "m < n" "m < m'" "m' - m \<le> group_size p" "borrowed_before xs m \<le> borrowed_before xs m'"
      "m - borrowed_before xs m \<le> m' - borrowed_before xs m'"
proof -
  let ?K = "group_size p" let ?cs = "map (class_population ?K xs n) [0..<groups_of ?K n]"
  have K: "0 < ?K" using p by (simp add: policy_ok_def)
  have v: "view_shows host ?K (bv_interleave v) ?cs" "bv_virtual_count v = n" "pv_size (bv_native v) = length F" "pv_size (bv_borrowed v) = length H"
  proof -
    have "holds host p c F (bv_native v)" "holds host p (Some 0) H (bv_borrowed v)" using b by (simp_all add: blob_holds_def)
    then show "pv_size (bv_native v) = length F" "pv_size (bv_borrowed v) = length H" by (simp_all add: holdsD(5))
    show "view_shows host ?K (bv_interleave v) ?cs" "bv_virtual_count v = n" using b xs by (simp_all add: blob_holds_def Let_def)
  qed
  show mn: "m < n"
  proof (cases "n mod ?K = 0")
    case True
    then have "Suc g \<le> n div ?K" using g(1) by (simp add: groups_of_def)
    then have "Suc g * ?K \<le> n div ?K * ?K" by (rule mult_le_mono1)
    moreover have "n div ?K * ?K \<le> n" by simp
    ultimately have "?K + g * ?K \<le> n" unfolding mult_Suc by (rule order_trans)
    then show ?thesis using K g(2) by linarith
  next
    case False
    then have "g \<le> n div ?K" using g(1) by (simp add: groups_of_def)
    then have "g * ?K \<le> n div ?K * ?K" by (rule mult_le_mono1)
    moreover have "n div ?K * ?K \<le> n" "n div ?K * ?K \<noteq> n" using False by (simp, metis mod_mult_self2_is_0)
    ultimately show ?thesis unfolding g(2) by linarith
  qed
  show m': "m < m'" "m' - m \<le> ?K" using mn K g(2,3) by auto
  have stop: "m + min ?K (n - m) = m'" using mn g(2,3) by auto
  have rank: "before_group ?cs g = borrowed_before xs m"
    using class_population_sum [OF K, of xs n g] g(1,2) mn by (simp add: before_group_def take_map min_absorb1)
  have pop: "borrowed_before xs m + class_population ?K xs n g = borrowed_before xs m'"
    using class_population_sum [OF K, of xs n g] class_population_sum [OF K, of xs n "Suc g"] g(2,3) mn by (simp add: min_absorb1)
  then show mono: "borrowed_before xs m \<le> borrowed_before xs m'" by simp
  have small: "class_population ?K xs n g \<le> m' - m" using class_population_le [OF K, of xs n g, folded g(2)] stop by linarith
  have le: "borrowed_before xs m \<le> m" by (rule borrowed_before_le)
  show mono': "m - borrowed_before xs m \<le> m' - borrowed_before xs m'" using small pop le m'(1) by linarith
  have state: "m' - borrowed_before xs m' \<le> length F" "borrowed_before xs m' \<le> length H"
    using weave_state [of m' "map fr_key F" "map fr_key H"] g(3) xs by simp_all
  have cls: "view_class_at host ?K (bv_interleave v) g = Inr (class_population ?K xs n g)"
    using any_view.class_law [OF v(1), of g] g(1) by simp
  have rk: "view_rank host ?K (bv_interleave v) g = Inr (borrowed_before xs m)"
    using any_view.rank_law [OF v(1), of g] g(1) rank by simp
  have "blob_group_count p n = groups_of ?K n" by (simp add: blob_group_count_def groups_of_def)
  then show "project host p v g = Inr \<lparr>native_first = m - borrowed_before xs m, native_last = m' - borrowed_before xs m',
      borrowed_first_of = borrowed_before xs m, borrowed_last_of = borrowed_before xs m'\<rparr>"
    using g(1) cls rk v(2-4) pop mono le small state unfolding project_def Let_def
    by (simp add: stop flip: g(2))
qed

section \<open>A routed window\<close>

text \<open>
  What routing establishes about the windows of a group: every key in front of them is at most the
  boundary \<open>k\<close>, every key from them on at least \<open>k\<close>, and every key behind them exceeds the query.
\<close>

definition routed ::
  "bool list list \<Rightarrow> bool list list \<Rightarrow> bool list \<Rightarrow> bool list \<Rightarrow> nat \<Rightarrow> nat \<Rightarrow> nat \<Rightarrow> nat \<Rightarrow> bool" where
  "routed A B q k nf nl bf bl \<longleftrightarrow> nf \<le> nl \<and> nl \<le> length A \<and> bf \<le> bl \<and> bl \<le> length B \<and> lex k q \<le> 0 \<and>
     (\<forall>a<nf. lex (A ! a) k \<le> 0) \<and> (\<forall>a. nf \<le> a \<longrightarrow> a < length A \<longrightarrow> lex k (A ! a) \<le> 0) \<and>
     (\<forall>b<bf. lex (B ! b) k \<le> 0) \<and> (\<forall>b. bf \<le> b \<longrightarrow> b < length B \<longrightarrow> lex k (B ! b) \<le> 0) \<and>
     (\<forall>a. nl \<le> a \<longrightarrow> a < length A \<longrightarrow> lex q (A ! a) < 0) \<and> (\<forall>b. bl \<le> b \<longrightarrow> b < length B \<longrightarrow> lex q (B ! b) < 0) \<and>
     (\<forall>a<nf. A ! a = q \<longrightarrow> bf < bl \<and> B ! bf = q)"

lemma lex_antisym: "lex x y \<le> 0 \<Longrightarrow> lex y x \<le> 0 \<Longrightarrow> x = y"
  using lex_swap [of x y] lex_eq_0 [of x y] by simp

lemma lex_nil: "lex [] x \<le> 0"
  by (cases x) simp_all

lemma group_routed:
  assumes A: "strict_order A" and B: "in_order B" and xs: "xs = weave 0 A 0 B" "n = length A + length B"
    and m: "m < n" "m < m'" "m' \<le> n" "borrowed_before xs m \<le> borrowed_before xs m'"
      "m - borrowed_before xs m \<le> m' - borrowed_before xs m'"
    and k: "k = occurrence_key (xs ! m) \<or> m = 0 \<and> k = []" "lex k q \<le> 0"
    and nxt: "m' < n \<Longrightarrow> lex q (occurrence_key (xs ! m')) < 0"
  shows "routed A B q k (m - borrowed_before xs m) (m' - borrowed_before xs m') (borrowed_before xs m) (borrowed_before xs m')"
proof -
  let ?bf = "borrowed_before xs m" and ?bl = "borrowed_before xs m'"
  define nf nl where "nf = m - ?bf" and "nl = m' - ?bl"
  have iA: "in_order A" by (rule strict_in_order [OF A])
  have le: "nl \<le> length A" "?bl \<le> length B" using weave_state [of m' A B] m(3) xs by (simp_all add: nl_def)
  note cut = weave_cut [OF iA B m(1) [unfolded xs(2)] xs(1) refl nf_def]
  note at = weave_nth [OF m(1) [unfolded xs(2)] xs(1) refl nf_def]
  have front: "\<forall>a<nf. lex (A ! a) k \<le> 0" "\<forall>a. nf \<le> a \<longrightarrow> a < length A \<longrightarrow> lex k (A ! a) \<le> 0"
    "\<forall>b<?bf. lex (B ! b) k \<le> 0" "\<forall>b. ?bf \<le> b \<longrightarrow> b < length B \<longrightarrow> lex k (B ! b) \<le> 0"
    using k(1) cut lex_nil by (auto simp: nf_def)
  have behind: "(\<forall>a. nl \<le> a \<longrightarrow> a < length A \<longrightarrow> lex q (A ! a) < 0) \<and> (\<forall>b. ?bl \<le> b \<longrightarrow> b < length B \<longrightarrow> lex q (B ! b) < 0)"
  proof (cases "m' < n")
    case True
    note c = weave_cut [OF iA B True [unfolded xs(2)] xs(1) refl nl_def]
    show ?thesis using c(2,4) nxt [OF True] lex_less_le_trans by blast
  next
    case False
    then have "m' = n" using m(3) by simp
    then have "nl = length A" "?bl = length B"
      using le borrowed_before_le [of xs m'] by (simp_all add: nl_def xs(2))
    then show ?thesis by simp
  qed
  have repeated: "?bf < ?bl \<and> B ! ?bf = q" if a: "a < nf" "A ! a = q" for a
  proof -
    have "m \<noteq> 0" using a(1) by (auto simp: nf_def)
    then have key: "k = occurrence_key (xs ! m)" using k(1) by simp
    have "lex q k \<le> 0" using front(1) a by blast
    then have kq: "k = q" using k(2) lex_antisym by blast
    have "borrowed_first A B nf ?bf"
    proof (rule ccontr)
      assume "\<not> borrowed_first A B nf ?bf"
      then have "xs ! m = (Native, nf, A ! nf)" "nf < length A" using at(4,6) by simp_all
      then show False using strict_orderD [OF A a(1)] key kq a(2) lex_eq_0 by force
    qed
    then have o: "xs ! m = (Borrowed, ?bf, B ! ?bf)" using at(4) by simp
    have "borrowed_before xs (Suc m) \<le> ?bl"
      unfolding borrowed_before_def using m(2) by (intro card_mono) auto
    then have "?bf < ?bl" using o by (simp add: borrowed_before_Suc)
    then show ?thesis using o key kq by simp
  qed
  show ?thesis
    unfolding routed_def using m(4,5) le k(2) front behind repeated by (auto simp flip: nf_def nl_def)
qed

section \<open>The search\<close>

definition good_match :: "frame list \<Rightarrow> bool list \<Rightarrow> native_match \<Rightarrow> bool" where
  "good_match F q x \<longleftrightarrow> match_ordinal x < length F \<and> fr_key (F ! match_ordinal x) = q \<and>
     string_bits (match_value x) = fr_value (F ! match_ordinal x)"

definition good_predecessor :: "storage_policy \<Rightarrow> frame list \<Rightarrow> frame list \<Rightarrow> bool list \<Rightarrow> borrowed_predecessor \<Rightarrow> bool" where
  "good_predecessor p F H q x \<longleftrightarrow> bp_ordinal x < length H \<and> lex (fr_key (H ! bp_ordinal x)) q \<le> 0 \<and>
     bp_target_ordinal x = bp_ordinal x * group_size p \<and>
     (bp_false_borrow x \<longleftrightarrow> fr_key (H ! bp_ordinal x) \<in> fr_key ` set F) \<and>
     describes p (bp_comparison x) q (fr_key (H ! bp_ordinal x))"

definition native_scanned :: "frame list \<Rightarrow> bool list \<Rightarrow> nat \<Rightarrow> nat \<Rightarrow> window_result \<Rightarrow> bool" where
  "native_scanned F q nf nl s \<longleftrightarrow> (case wr_native s of None \<Rightarrow> \<forall>a. nf \<le> a \<longrightarrow> a < nl \<longrightarrow> fr_key (F ! a) \<noteq> q | Some x \<Rightarrow> good_match F q x)"

lemma native_found_holds:
  assumes s: "native_scanned F q nf i s" "wr_native s = None" "wr_borrowed s = None" and i: "nf \<le> i" "i < nl" "nl \<le> length F"
    and A: "strict_order (map fr_key F)" and d: "describes p ctx q (fr_key (F ! i))"
    and v: "view_ok val" "view_bits val = fr_value (F ! i)" "bsize val \<le> u64_max - 7"
  shows "\<exists>s'. native_found host \<lparr>ci_ordinal = i, ci_comparison = ctx, ci_value = val\<rparr> s = (Inr True, s') \<and>
      (native_scanned F q nf (Suc i) s' \<and> wr_native s' = None \<and> wr_borrowed s' = None) \<or>
    native_found host \<lparr>ci_ordinal = i, ci_comparison = ctx, ci_value = val\<rparr> s = (Inr False, s') \<and>
      (native_scanned F q nf nl s' \<and> wr_borrowed s' = None)"
proof -
  have o: "context_order ctx = lex (fr_key (F ! i)) q" using d by (simp add: describes_def)
  consider "lex (fr_key (F ! i)) q < 0" | "lex (fr_key (F ! i)) q = 0" | "lex (fr_key (F ! i)) q > 0" by linarith
  then show ?thesis
  proof cases
    case 1
    then have "fr_key (F ! i) \<noteq> q" using lex_eq_0 by force
    then have "native_scanned F q nf (Suc i) s" using s by (auto simp: native_scanned_def less_Suc_eq)
    then show ?thesis using 1 o s by (intro exI [of _ s]) (simp add: native_found_def)
  next
    case 2
    obtain t where t: "copy_string host val = Inr t" "string_bits t = view_bits val" using copy_string_ok [OF v(1,3)] by blast
    let ?s = "s\<lparr>wr_native := Some \<lparr>match_ordinal = i, match_value = t\<rparr>\<rparr>"
    have "good_match F q \<lparr>match_ordinal = i, match_value = t\<rparr>" using 2 i t(2) v(2) lex_eq_0 by (simp add: good_match_def)
    then show ?thesis using 2 o s t(1) by (intro exI [of _ ?s]) (simp add: native_found_def native_scanned_def)
  next
    case 3
    have later: "fr_key (F ! a) \<noteq> q" if "i \<le> a" "a < nl" for a
    proof -
      have "lex q (fr_key (F ! i)) < 0" using 3 lex_swap [of q "fr_key (F ! i)"] by simp
      moreover have "lex (fr_key (F ! i)) (fr_key (F ! a)) \<le> 0"
        using in_orderD [OF strict_in_order [OF A], of i a] that i by simp
      ultimately have "lex q (fr_key (F ! a)) < 0" by (rule lex_less_le_trans)
      then show ?thesis using lex_eq_0 by force
    qed
    then have "native_scanned F q nf nl s" using s by (auto simp: native_scanned_def not_less [symmetric])
    then show ?thesis using 3 o s by (intro exI [of _ s]) (simp add: native_found_def)
  qed
qed

lemma remember_holds:
  assumes b: "blob_holds host p c F H v" and r: "routed (map fr_key F) (map fr_key H) q k nf nl bf bl" and w: "native_first w = nf"
    and s: "native_scanned F q nf nl s" and j: "j < length H" "lex (fr_key (H ! j)) q \<le> 0"
    and d: "describes p ctx q (fr_key (H ! j))" and fit: "length H * group_size p \<le> u64_max"
  shows "\<exists>s' x. remember host p v w j ctx s = (Inr (), s') \<and> native_scanned F q nf nl s' \<and> wr_borrowed s' = Some x \<and>
    bp_ordinal x = j \<and> good_predecessor p F H q x \<and> (fr_key (H ! j) = q \<longrightarrow> q \<in> fr_key ` set F \<longrightarrow> wr_native s' \<noteq> None)"
proof -
  have h: "holds host p c F (bv_native v)" "holds host p (Some 0) H (bv_borrowed v)" using b by (simp_all add: blob_holds_def)
  have A: "strict_order (map fr_key F)" using b by (simp add: blob_holds_def Let_def)
  have flag: "false_borrow v j = Inr (fr_key (H ! j) \<in> fr_key ` set F)"
    using b j(1) holdsD(5) [OF h(2)] by (simp add: false_borrow_def blob_holds_def Let_def)
  have "j * group_size p \<le> length H * group_size p" using j(1) by (intro mult_le_mono1) simp
  then have "j * group_size p \<le> u64_max" using fit by (rule order_trans)
  then have "j \<le> u64_max div group_size p"
    using admittedD(1) [OF holdsD(1) [OF h(1)]] by (simp add: less_eq_div_iff_mult_less_eq policy_ok_def)
  then have target: "checked_target_ordinal p j = Inr (j * group_size p)" by (simp add: checked_target_ordinal_def)
  let ?x = "\<lparr>bp_ordinal = j, bp_target_ordinal = j * group_size p, bp_false_borrow = fr_key (H ! j) \<in> fr_key ` set F, bp_comparison = ctx\<rparr>"
  let ?s = "s\<lparr>wr_borrowed := Some ?x\<rparr>"
  have x: "good_predecessor p F H q ?x" using j d by (simp add: good_predecessor_def)
  have sc: "native_scanned F q nf nl ?s" using s by (simp add: native_scanned_def)
  have o: "context_order ctx = 0 \<longleftrightarrow> fr_key (H ! j) = q" using d by (simp add: describes_def lex_eq_0)
  show ?thesis
  proof (cases "fr_key (H ! j) = q \<and> q \<in> fr_key ` set F \<and> wr_native s = None")
    case True
    then obtain a where a: "a < length F" "fr_key (F ! a) = q" by (auto simp: in_set_conv_nth)
    have "\<not> (nf \<le> a \<and> a < nl)" using True s a(2) by (auto simp: native_scanned_def)
    moreover have "\<not> nl \<le> a"
    proof
      assume "nl \<le> a"
      then have "lex q (fr_key (F ! a)) < 0" using r a(1) by (simp add: routed_def)
      then show False using a(2) lex_eq_0 [of q q] by simp
    qed
    ultimately have af: "a < nf" by simp
    then have nf: "0 < nf" "nf - 1 < length F" using r by (auto simp: routed_def)
    have "lex (fr_key (F ! a)) (fr_key (F ! (nf - 1))) \<le> 0"
      using in_orderD [OF strict_in_order [OF A], of a "nf - 1"] af nf(2) by simp
    moreover have "lex (fr_key (F ! (nf - 1))) q \<le> 0"
      using r nf lex_le_trans [of "fr_key (F ! (nf - 1))" k q] by (auto simp: routed_def)
    ultimately have key: "fr_key (F ! (nf - 1)) = q" using a(2) lex_antisym by blast
    obtain rec where rec: "encoded_at host p (bv_native v) (nf - 1) = Inr rec" "is_record p c F (nf - 1) rec" "in_range p (bv_native v) rec"
      using encoded_at_holds [OF h(1) nf(2)] by blast
    have "value_units rec * bits_per_unit p \<le> m_extent (pv_metadata (bv_native v)) * bits_per_unit p"
      using rec(3) by (intro mult_le_mono1) (simp add: in_range_def)
    also have "\<dots> \<le> u64_max - 7" by (rule admittedD(5) [OF holdsD(1) [OF h(1)]])
    finally have "bsize (value_view rec) \<le> u64_max - 7" using rec(3) by (simp add: in_range_def)
    moreover have "view_ok (value_view rec)" "view_bits (value_view rec) = fr_value (F ! (nf - 1))" using rec(2) by (simp_all add: is_record_def)
    ultimately obtain t where t: "copy_string host (value_view rec) = Inr t" "string_bits t = fr_value (F ! (nf - 1))"
      using copy_string_ok by metis
    let ?m = "\<lparr>match_ordinal = nf - 1, match_value = t\<rparr>" let ?s' = "?s\<lparr>wr_native := Some ?m\<rparr>"
    have "remember host p v w j ctx s = (Inr (), ?s')"
      using flag target True o nf(1) w rec(1) t(1) by (simp add: remember_def)
    moreover have "native_scanned F q nf nl ?s'" using nf(2) key t(2) by (simp add: native_scanned_def good_match_def)
    ultimately show ?thesis using x by (intro exI [of _ ?s'] exI [of _ ?x]) simp
  next
    case False
    have "remember host p v w j ctx s = (Inr (), ?s)"
      using flag target False o by (auto simp: remember_def)
    then show ?thesis using x sc False by (intro exI [of _ ?s] exI [of _ ?x]) auto
  qed
qed

definition borrowed_scanned :: "storage_policy \<Rightarrow> frame list \<Rightarrow> frame list \<Rightarrow> bool list \<Rightarrow> nat \<Rightarrow> nat \<Rightarrow> nat \<Rightarrow> nat \<Rightarrow> window_result \<Rightarrow> bool" where
  "borrowed_scanned p F H q nf nl bf j s \<longleftrightarrow> native_scanned F q nf nl s \<and>
     (if j = bf then wr_borrowed s = None
      else \<exists>x. wr_borrowed s = Some x \<and> bp_ordinal x = j - 1 \<and> good_predecessor p F H q x \<and>
        (fr_key (H ! (j - 1)) = q \<longrightarrow> q \<in> fr_key ` set F \<longrightarrow> wr_native s \<noteq> None))"

lemma borrowed_found_holds:
  assumes b: "blob_holds host p c F H v" and r: "routed (map fr_key F) (map fr_key H) q k nf nl bf bl" and w: "native_first w = nf"
    and s: "borrowed_scanned p F H q nf nl bf j s" and j: "bf \<le> j" "j < bl"
    and d: "describes p ctx q (fr_key (H ! j))" and fit: "length H * group_size p \<le> u64_max"
  shows "\<exists>s'. borrowed_found host p v w \<lparr>ci_ordinal = j, ci_comparison = ctx, ci_value = val\<rparr> s = (Inr True, s') \<and>
      borrowed_scanned p F H q nf nl bf (Suc j) s' \<or>
    borrowed_found host p v w \<lparr>ci_ordinal = j, ci_comparison = ctx, ci_value = val\<rparr> s = (Inr False, s') \<and>
      (\<exists>j'. borrowed_scanned p F H q nf nl bf j' s' \<and> bf \<le> j' \<and> j' < bl \<and> lex q (fr_key (H ! j')) < 0)"
proof -
  have o: "context_order ctx = lex (fr_key (H ! j)) q" using d by (simp add: describes_def)
  show ?thesis
  proof (cases "lex (fr_key (H ! j)) q > 0")
    case True
    then have "lex q (fr_key (H ! j)) < 0" using lex_swap [of q "fr_key (H ! j)"] by simp
    then show ?thesis using True o s j by (intro exI [of _ s]) (auto simp: borrowed_found_def)
  next
    case False
    have "j < length H" using r j(2) by (simp add: routed_def)
    then obtain s' x where "remember host p v w j ctx s = (Inr (), s')" "native_scanned F q nf nl s'" "wr_borrowed s' = Some x"
      "bp_ordinal x = j" "good_predecessor p F H q x" "fr_key (H ! j) = q \<longrightarrow> q \<in> fr_key ` set F \<longrightarrow> wr_native s' \<noteq> None"
      using remember_holds [OF b r w _ _ _ d fit, of s] s False by (auto simp: borrowed_scanned_def)
    then show ?thesis using False o j(1) by (intro exI [of _ s']) (simp add: borrowed_found_def borrowed_scanned_def)
  qed
qed

text \<open>What a search reports of a query that was routed to its group.\<close>

definition answers_query :: "storage_policy \<Rightarrow> frame list \<Rightarrow> frame list \<Rightarrow> bool list \<Rightarrow> window_result \<Rightarrow> bool" where
  "answers_query p F H q res \<longleftrightarrow>
     (case wr_native res of None \<Rightarrow> q \<notin> fr_key ` set F | Some x \<Rightarrow> good_match F q x) \<and>
     (case wr_borrowed res of None \<Rightarrow> \<forall>f\<in>set H. lex q (fr_key f) < 0
      | Some x \<Rightarrow> good_predecessor p F H q x \<and> (\<forall>b. bp_ordinal x < b \<longrightarrow> b < length H \<longrightarrow> lex q (fr_key (H ! b)) < 0))"

lemma scan_result:
  assumes H: "in_order (map fr_key H)" and r: "routed (map fr_key F) (map fr_key H) q k nf nl bf bl"
    and s: "borrowed_scanned p F H q nf nl bf j s" "bf \<le> j" "j \<le> bl" "j = bl \<or> lex q (fr_key (H ! j)) < 0"
  shows "\<forall>b. j \<le> b \<longrightarrow> b < length H \<longrightarrow> lex q (fr_key (H ! b)) < 0"
    "wr_native s = None \<Longrightarrow> q \<in> fr_key ` set F \<Longrightarrow> False" "native_scanned F q nf nl s"
proof -
  show sc: "native_scanned F q nf nl s" using s(1) by (simp add: borrowed_scanned_def)
  show later: "\<forall>b. j \<le> b \<longrightarrow> b < length H \<longrightarrow> lex q (fr_key (H ! b)) < 0"
  proof (intro allI impI)
    fix b assume b: "j \<le> b" "b < length H"
    show "lex q (fr_key (H ! b)) < 0"
    proof (cases "j = bl")
      case True
      then show ?thesis using r b by (simp add: routed_def)
    next
      case False
      then have "lex q (fr_key (H ! j)) < 0" using s(4) by simp
      moreover have "lex (fr_key (H ! j)) (fr_key (H ! b)) \<le> 0" using in_orderD [OF H, of j b] b by simp
      ultimately show ?thesis by (rule lex_less_le_trans)
    qed
  qed
  assume none: "wr_native s = None" and q: "q \<in> fr_key ` set F"
  then obtain a where a: "a < length F" "fr_key (F ! a) = q" by (auto simp: in_set_conv_nth)
  have "\<not> (nf \<le> a \<and> a < nl)" using sc none a(2) by (auto simp: native_scanned_def)
  moreover have "\<not> nl \<le> a"
  proof
    assume "nl \<le> a"
    then have "lex q (fr_key (F ! a)) < 0" using r a(1) by (simp add: routed_def)
    then show False using a(2) lex_eq_0 [of q q] by simp
  qed
  ultimately have "a < nf" by simp
  then have bf: "bf < bl" "fr_key (H ! bf) = q" "bf < length H" using r a by (auto simp: routed_def)
  have "bf \<noteq> j" using later bf lex_eq_0 [of q q] by auto
  then have jf: "bf \<le> j - 1" "j - 1 < length H" using s(2,3) r by (auto simp: routed_def)
  obtain x where x: "bp_ordinal x = j - 1" "good_predecessor p F H q x"
      "fr_key (H ! (j - 1)) = q \<longrightarrow> q \<in> fr_key ` set F \<longrightarrow> wr_native s \<noteq> None"
    using s(1) \<open>bf \<noteq> j\<close> by (auto simp: borrowed_scanned_def)
  have "lex (fr_key (H ! bf)) (fr_key (H ! (j - 1))) \<le> 0" using in_orderD [OF H, of bf "j - 1"] jf by simp
  then have "fr_key (H ! (j - 1)) = q" using x(1,2) bf(2) lex_antisym by (auto simp: good_predecessor_def)
  then show False using x(3) q none by simp
qed

lemma groups_cover: "0 < K \<Longrightarrow> n \<le> groups_of K n * K"
proof -
  assume "0 < K"
  then have r: "n mod K < K" "n = n div K * K + n mod K" by simp_all
  have "n mod K \<le> of_bool (n mod K \<noteq> 0) * K" using r(1) by simp
  then show ?thesis unfolding groups_of_def distrib_right using r(2) by linarith
qed

lemma search_window_holds:
  assumes b: "blob_holds host p c F H v" and xs: "xs = weave 0 (map fr_key F) 0 (map fr_key H)" "n = length F + length H"
    and g: "g < groups_of (group_size p) n" and k: "k = occurrence_key (xs ! (g * group_size p)) \<or> g = 0 \<and> k = []"
    and d: "describes p lower q k" "lex k q \<le> 0"
    and nxt: "Suc g < groups_of (group_size p) n \<Longrightarrow> lex q (occurrence_key (xs ! (Suc g * group_size p))) < 0"
    and fit: "length H * group_size p \<le> u64_max"
  shows "\<exists>res w w'. search_window host p v g lower (work, work') = (Inr res, (w, w')) \<and> answers_query p F H q res"
proof -
  let ?K = "group_size p"
  have h: "holds host p c F (bv_native v)" "holds host p (Some 0) H (bv_borrowed v)" using b by (simp_all add: blob_holds_def)
  have p: "policy_ok p" by (rule admittedD(1) [OF holdsD(1) [OF h(1)]])
  have A: "strict_order (map fr_key F)" and B: "in_order (map fr_key H)" using b by (simp_all add: blob_holds_def Let_def)
  define m m' where "m = g * ?K" and "m' = min (Suc g * ?K) n"
  note pr = project_holds [OF b xs g m_def m'_def p]
  have nxt': "lex q (occurrence_key (xs ! m')) < 0" if less: "m' < n"
  proof -
    have "m' = Suc g * ?K" using less by (auto simp: m'_def)
    moreover have "Suc g < groups_of ?K n"
    proof (rule ccontr)
      assume "\<not> Suc g < groups_of ?K n"
      then have "groups_of ?K n \<le> Suc g" by simp
      then have "groups_of ?K n * ?K \<le> Suc g * ?K" by (rule mult_le_mono1)
      moreover have "n \<le> groups_of ?K n * ?K" using groups_cover [of ?K n] p by (simp add: policy_ok_def)
      ultimately show False using less \<open>m' = Suc g * ?K\<close> by linarith
    qed
    ultimately show ?thesis using nxt by simp
  qed
  define nf nl bf bl where "nf = m - borrowed_before xs m" and "nl = m' - borrowed_before xs m'" and
    "bf = borrowed_before xs m" and "bl = borrowed_before xs m'"
  have r: "routed (map fr_key F) (map fr_key H) q k nf nl bf bl"
    unfolding nf_def nl_def bf_def bl_def
    by (rule group_routed [OF A B xs(1) _ pr(2,3) _ pr(5,6) _ d(2) nxt']) (use xs(2) k in \<open>auto simp: m_def m'_def\<close>)
  define w where "w = \<lparr>native_first = nf, native_last = nl, borrowed_first_of = bf, borrowed_last_of = bl\<rparr>"
  have proj: "project host p v g = Inr w" using pr(1) by (simp add: w_def nf_def nl_def bf_def bl_def)
  have size: "nl - nf \<le> ?K" "bl - bf \<le> ?K"
    using pr(4,5,6) borrowed_before_le [of xs m] borrowed_before_le [of xs m'] unfolding nf_def nl_def bf_def bl_def by linarith+
  have rd: "nf \<le> nl" "nl \<le> length F" "bf \<le> bl" "bl \<le> length H" using r by (simp_all add: routed_def)
  have order: "context_order lower \<le> 0" using d by (simp add: describes_def)
  let ?s = "\<lparr>wr_native = None, wr_borrowed = None\<rparr>"
  have prevF: "lex (prev_key F nf) k \<le> 0" using r rd lex_nil by (cases nf) (auto simp: routed_def)
  have prevH: "lex (prev_key H bf) k \<le> 0" using r rd lex_nil by (cases bf) (auto simp: routed_def)
  have nextF: "lex k (fr_key (F ! nf)) \<le> 0" if "nf < nl" using r rd that by (simp add: routed_def)
  have nextH: "lex k (fr_key (H ! bf)) \<le> 0" if "bf < bl" using r rd that by (simp add: routed_def)
  have scan: "\<exists>s' work'. compare_window host p (bv_native v) nf nl lower (native_found host) False (?s, work) = (Inr None, (s', work')) \<and>
      (native_scanned F q nf nl s' \<and> wr_borrowed s' = None)"
  proof (rule compare_window_holds [OF h(1) rd(1,2) size(1) d(1) prevF nextF,
      where P = "\<lambda>i s. native_scanned F q nf i s \<and> wr_native s = None \<and> wr_borrowed s = None"])
    fix i ctx val s
    assume s: "native_scanned F q nf i s \<and> wr_native s = None \<and> wr_borrowed s = None" and i: "nf \<le> i" "i < nl"
      and item: "describes p ctx q (fr_key (F ! i))" "view_ok val" "view_bits val = fr_value (F ! i)" "bsize val \<le> u64_max - 7"
    show "\<exists>s'. native_found host \<lparr>ci_ordinal = i, ci_comparison = ctx, ci_value = val\<rparr> s = (Inr True, s') \<and>
        (native_scanned F q nf (Suc i) s' \<and> wr_native s' = None \<and> wr_borrowed s' = None) \<or>
      native_found host \<lparr>ci_ordinal = i, ci_comparison = ctx, ci_value = val\<rparr> s = (Inr False, s') \<and>
        (native_scanned F q nf nl s' \<and> wr_borrowed s' = None)"
      by (rule native_found_holds [OF conjunct1 [OF s] conjunct1 [OF conjunct2 [OF s]] conjunct2 [OF conjunct2 [OF s]] i rd(2) A item])
  qed (auto simp: native_scanned_def)
  then obtain s1 w1 where s1: "compare_window host p (bv_native v) nf nl lower (native_found host) False (?s, work) = (Inr None, (s1, w1))"
      "native_scanned F q nf nl s1" "wr_borrowed s1 = None" by blast
  have b1: "borrowed_scanned p F H q nf nl bf bf s1" using s1(2,3) by (simp add: borrowed_scanned_def)
  have wf: "native_first w = nf" by (simp add: w_def)
  have "\<exists>s' work''. compare_window host p (bv_borrowed v) bf bl lower (borrowed_found host p v w) False (s1, work') = (Inr None, (s', work'')) \<and>
      (\<exists>j. borrowed_scanned p F H q nf nl bf j s' \<and> bf \<le> j \<and> j \<le> bl \<and> (j = bl \<or> lex q (fr_key (H ! j)) < 0))"
  proof (rule compare_window_holds [OF h(2) rd(3,4) size(2) d(1) prevH nextH, where P = "borrowed_scanned p F H q nf nl bf"])
    fix j ctx val s
    assume s: "borrowed_scanned p F H q nf nl bf j s" and j: "bf \<le> j" "j < bl" and item: "describes p ctx q (fr_key (H ! j))"
    show "\<exists>s'. borrowed_found host p v w \<lparr>ci_ordinal = j, ci_comparison = ctx, ci_value = val\<rparr> s = (Inr True, s') \<and>
        borrowed_scanned p F H q nf nl bf (Suc j) s' \<or>
      borrowed_found host p v w \<lparr>ci_ordinal = j, ci_comparison = ctx, ci_value = val\<rparr> s = (Inr False, s') \<and>
        (\<exists>j. borrowed_scanned p F H q nf nl bf j s' \<and> bf \<le> j \<and> j \<le> bl \<and> (j = bl \<or> lex q (fr_key (H ! j)) < 0))"
      using borrowed_found_holds [OF b r wf s j item fit, of val] less_imp_le by blast
  next
    fix s assume "borrowed_scanned p F H q nf nl bf bl s"
    then show "\<exists>j. borrowed_scanned p F H q nf nl bf j s \<and> bf \<le> j \<and> j \<le> bl \<and> (j = bl \<or> lex q (fr_key (H ! j)) < 0)"
      using rd(3) by blast
  qed (assumption | rule b1)+
  then obtain s2 w2 j where s2: "compare_window host p (bv_borrowed v) bf bl lower (borrowed_found host p v w) False (s1, work') = (Inr None, (s2, w2))"
      "borrowed_scanned p F H q nf nl bf j s2" "bf \<le> j" "j \<le> bl" "j = bl \<or> lex q (fr_key (H ! j)) < 0"
    by blast
  note res = scan_result [OF B r s2(2-5)]
  define tail where "tail = (if wr_borrowed s2 = None \<and> bf \<noteq> 0
          then bindM (liftM (\<lambda>_. word_at host (bv_cut_lcps v) g)) (\<lambda>cut.
            bindM (liftM (\<lambda>_. context_predecessor p (unat cut) lower)) (\<lambda>comparison.
            remember host p v w (bf - 1) comparison)) else returnM ())"
  have run: "search_window host p v g lower (work, work') = (fst (bindM tail (\<lambda>_. getM (\<lambda>res. res)) s2), (w1, w2))"
    using order proj s1(1) s2(1)
    by (simp add: search_window_def tail_def w_def on_native_work_def on_borrowed_work_def on_found_def bindM_apply split: prod.splits sum.splits)
  show ?thesis
  proof (cases "wr_borrowed s2 = None")
    case False
    then obtain x where x: "j \<noteq> bf" "wr_borrowed s2 = Some x" "bp_ordinal x = j - 1" "good_predecessor p F H q x"
      using s2(2) by (auto simp: borrowed_scanned_def split: if_splits)
    have "answers_query p F H q s2"
      using res x s2(3) by (auto simp: answers_query_def native_scanned_def split: option.splits)
    then show ?thesis using run False by (simp add: tail_def)
  next
    case True
    then have j: "j = bf" using s2(2) by (auto simp: borrowed_scanned_def split: if_splits)
    show ?thesis
    proof (cases "bf = 0")
      case zero: True
      then have "answers_query p F H q s2"
        using res True j by (auto simp: answers_query_def native_scanned_def in_set_conv_nth split: option.splits)
      then show ?thesis using run zero by (simp add: tail_def)
    next
      case False
      then have bf: "bf - 1 < bf" "bf - 1 < length H" using rd by simp_all
      have "m \<noteq> 0" using False borrowed_before_le [of xs m] by (simp add: bf_def)
      then have key: "k = occurrence_key (xs ! m)" using k by (auto simp: m_def)
      have "\<exists>x. word_at host (bv_cut_lcps v) g = Inr x \<and> unat x = cut_value (map fr_key H) xs m"
        using b g xs unfolding blob_holds_def Let_def m_def by simp
      moreover have "cut_value (map fr_key H) xs m = lcp (fr_key (H ! (bf - 1))) k"
        using False bf(2) key by (simp add: cut_value_def flip: bf_def)
      ultimately obtain x where x: "word_at host (bv_cut_lcps v) g = Inr x" "unat x = lcp (fr_key (H ! (bf - 1))) k" by auto
      have below: "lex (fr_key (H ! (bf - 1))) k \<le> 0" using r bf by (simp add: routed_def)
      have frame: "frame_ok p (Some 0) H (bf - 1)" by (rule frames_okD [OF holdsD(2) [OF h(2)] bf(2)])
      have units: "unit_multiple p (length (fr_key (H ! (bf - 1))))" using frame by (simp add: frame_ok_def)
      obtain rec where rec: "is_record p (Some 0) H (bf - 1) rec" "in_range p (bv_borrowed v) rec"
        using encoded_at_holds [OF h(2) bf(2)] by blast
      have "length (fr_key (H ! (bf - 1))) = key_units rec * bits_per_unit p" using rec(1) frame_units(1) [OF frame] by (simp add: is_record_def)
      also have "\<dots> \<le> m_extent (pv_metadata (bv_borrowed v)) * bits_per_unit p"
        using rec(2) by (intro mult_le_mono1) (simp add: in_range_def)
      also have "\<dots> \<le> u64_max" using admittedD(5) [OF holdsD(1) [OF h(2)]] by linarith
      finally obtain ctx where ctx: "context_predecessor p (lcp (fr_key (H ! (bf - 1))) k) lower = Inr ctx"
          "describes p ctx q (fr_key (H ! (bf - 1)))"
        using context_predecessor_describes [OF d(1) below d(2) _ units] by blast
      have "lex (fr_key (H ! (bf - 1))) q \<le> 0" by (rule lex_le_trans [OF below d(2)])
      then obtain s3 y where s3: "remember host p v w (bf - 1) ctx s2 = (Inr (), s3)" "native_scanned F q nf nl s3"
          "wr_borrowed s3 = Some y" "bp_ordinal y = bf - 1" "good_predecessor p F H q y"
        using remember_holds [OF b r _ res(3) bf(2) _ ctx(2) fit, of w] by (auto simp: w_def)
      have keep: "wr_native s3 = None \<Longrightarrow> wr_native s2 = None"
        using s3(1) by (auto simp: remember_def bindM_apply split: sum.splits prod.splits if_splits)
      have "q \<notin> fr_key ` set F" if "wr_native s3 = None" by (rule notI) (rule res(2) [OF keep [OF that]])
      then have "answers_query p F H q s3"
        using s3 res(1) j bf by (auto simp: answers_query_def native_scanned_def split: option.splits)
      moreover have "tail s2 = (Inr (), s3)" using True False x ctx(1) s3(1) by (simp add: tail_def)
      ultimately show ?thesis using run by simp
    qed
  qed
qed

end
