(* ===== verification/BlobQueries.thy ===== *)
theory BlobQueries
  imports BlobSearch
begin

text \<open>
  Profile blobs from end to end (\<open>profile_blob.h\<close>): the ways to make one agree, and a search in a
  built blob answers its query.
\<close>

section \<open>Reindexing\<close>

definition bare :: "profile_record \<Rightarrow> profile_record" where
  "bare r = \<lparr>record_key = record_key r, record_value = empty_string, retained_limit_bits = None\<rparr>"

lemma record_key_bare [simp]: "record_key (bare r) = record_key r"
  by (simp add: bare_def)

lemma skip_below_bare: "skip_below host key (map bare rs) = bindE (skip_below host key rs) (\<lambda>rs. Inr (map bare rs))"
proof (induction rs)
  case (Cons r rs)
  then show ?case by (cases "compare_strings host (record_key r) key") auto
qed simp

lemma mark_false_bare: "mark_false host prev i (map bare rs) bs flags records = mark_false host prev i rs bs flags records"
proof (induction bs arbitrary: prev i rs flags records)
  case (Cons b bs)
  have hit: "(case map bare xs of [] \<Rightarrow> Inr False | r # _ \<Rightarrow> bindE (compare_strings host (record_key r) b) (\<lambda>c. Inr (order c = 0))) =
      (case xs of [] \<Rightarrow> Inr False | r # _ \<Rightarrow> bindE (compare_strings host (record_key r) b) (\<lambda>c. Inr (order c = 0)))" for xs
    by (cases xs) simp_all
  show ?case
  proof (cases "skip_below host b rs")
    case (Inl e)
    then show ?thesis by (simp add: skip_below_bare)
  next
    case (Inr xs)
    then show ?thesis unfolding mark_false.simps skip_below_bare by (simp only: bindE_simps hit Cons)
  qed
qed simp

lemma cut_groups_bare: "cut_groups host p n i (map bare rs) prev bs classes cuts = cut_groups host p n i rs prev bs classes cuts"
proof (induction n arbitrary: i rs prev bs classes cuts)
  case (Suc n)
  have choice: "(case bs of [] \<Rightarrow> Inr False | b # _ \<Rightarrow> (case map bare rs of [] \<Rightarrow> Inr True
       | r # _ \<Rightarrow> bindE (compare_strings host b (record_key r)) (\<lambda>c. Inr (order c < 0)))) =
      (case bs of [] \<Rightarrow> Inr False | b # _ \<Rightarrow> (case rs of [] \<Rightarrow> Inr True
       | r # _ \<Rightarrow> bindE (compare_strings host b (record_key r)) (\<lambda>c. Inr (order c < 0))))"
    by (cases rs) (simp_all split: list.split)
  have heads: "record_key (hd (map bare rs)) = record_key (hd rs)" "tl (map bare rs) = map bare (tl rs)"
    by (cases rs; simp)+
  show ?case unfolding cut_groups.simps choice heads Suc ..
qed simp

lemma visit_collects:
  assumes h: "holds host p c fs v" and keys: "length recs = length fs"
      "\<And>j. j < length fs \<Longrightarrow> string_ok (record_key (recs ! j)) \<and> record_bits (recs ! j) = fr_key (fs ! j)"
  shows "i + Suc n \<le> length fs \<Longrightarrow> is_record p c fs i r \<Longrightarrow> in_range p v r \<Longrightarrow> string_ok s \<Longrightarrow> string_bits s = prev_key fs i \<Longrightarrow>
    \<exists>r'. is_record p c fs (i + n) r' \<and>
      visit_loop host p v u64_max (collect_key host) (Suc n) i s (length (prev_key fs i) div bits_per_unit p) r st =
        (Inr (Some r'), st @ map bare (take (Suc n) (drop i recs)))"
proof (induction n arbitrary: i r s st)
  case (0 i r s st)
  then have i: "i < length fs" by simp
  obtain t where t: "decode_into host p r u64_max s (length (prev_key fs i) div bits_per_unit p) = Inr (t, length (fr_key (fs ! i)) div bits_per_unit p)"
    "string_ok t" "string_bits t = fr_key (fs ! i)" using decode_into_holds [OF h i 0(2-5)] by blast
  have tk: "t = record_key (recs ! i)" by (rule string_ok_eq) (use t keys(2) [OF i] in simp_all)
  obtain w where w: "string_view t = Inr w" "view_ok w" "view_bits w = string_bits t" "bsize w = bit_size t" using string_view_ok [OF t(2)] by blast
  have "bsize w \<le> u64_max - 7" using w(4) t(2) by (simp add: string_ok_def)
  then obtain u where u: "copy_string host w = Inr u" "string_ok u" "string_bits u = view_bits w" using copy_string_ok [OF w(2)] by blast
  have uk: "u = record_key (recs ! i)" unfolding tk [symmetric] by (rule string_ok_eq) (use u t w in simp_all)
  have "take (Suc 0) (drop i recs) = [recs ! i]" using i keys(1) by (simp add: take_Suc hd_drop_conv_nth)
  then show ?case using 0(2) t(1) w(1) u(1) uk by (simp add: collect_key_def bare_def)
next
  case (Suc n i r s st)
  then have i: "i < length fs" "Suc i < length fs" "Suc i + Suc n \<le> length fs" by simp_all
  obtain t where t: "decode_into host p r u64_max s (length (prev_key fs i) div bits_per_unit p) = Inr (t, length (fr_key (fs ! i)) div bits_per_unit p)"
    "string_ok t" "string_bits t = fr_key (fs ! i)" using decode_into_holds [OF h i(1) Suc.prems(2-5)] by blast
  have tk: "t = record_key (recs ! i)" by (rule string_ok_eq) (use t keys(2) [OF i(1)] in simp_all)
  obtain w where w: "string_view t = Inr w" "view_ok w" "view_bits w = string_bits t" "bsize w = bit_size t" using string_view_ok [OF t(2)] by blast
  have "bsize w \<le> u64_max - 7" using w(4) t(2) by (simp add: string_ok_def)
  then obtain u where u: "copy_string host w = Inr u" "string_ok u" "string_bits u = view_bits w" using copy_string_ok [OF w(2)] by blast
  have uk: "u = record_key (recs ! i)" unfolding tk [symmetric] by (rule string_ok_eq) (use u t w in simp_all)
  obtain r' where r': "next_record host p v r (Suc i) (view_offset host p v) = Inr (r', if Suc i mod codec_block_size p = 0 then Some () else None)"
    "is_record p c fs (Suc i) r'" "in_range p v r'"
    using next_record_holds [OF h Suc.prems(2) i(2), of "view_offset host p v" "()"] view_offset_holds [OF h i(2)] by blast
  obtain r2 where r2: "is_record p c fs (Suc i + n) r2"
      "visit_loop host p v u64_max (collect_key host) (Suc n) (Suc i) t (length (fr_key (fs ! i)) div bits_per_unit p) r' (st @ [bare (recs ! i)]) =
        (Inr (Some r2), (st @ [bare (recs ! i)]) @ map bare (take (Suc n) (drop (Suc i) recs)))"
    using Suc.IH [OF i(3) r'(2,3) t(2), unfolded prev_key_Suc, OF t(3), of "st @ [bare (recs ! i)]"] by blast
  have tail: "take (Suc (Suc n)) (drop i recs) = recs ! i # take (Suc n) (drop (Suc i) recs)"
    unfolding Cons_nth_drop_Suc [OF i(1) [folded keys(1)], symmetric] by simp
  have "visit_loop host p v u64_max (collect_key host) (Suc (Suc n)) i s (length (prev_key fs i) div bits_per_unit p) r st =
      visit_loop host p v u64_max (collect_key host) (Suc n) (Suc i) t (length (fr_key (fs ! i)) div bits_per_unit p) r' (st @ [bare (recs ! i)])"
    using t(1) w(1) u(1) uk r'(1) by (subst visit_loop.simps) (simp add: collect_key_def bare_def del: visit_loop.simps)
  then show ?case using r2 unfolding tail by (intro exI [of _ r2]) (simp del: visit_loop.simps)
qed

lemma visit_all_collects:
  assumes h: "holds host p c fs v" and keys: "length recs = length fs"
      "\<And>j. j < length fs \<Longrightarrow> string_ok (record_key (recs ! j)) \<and> record_bits (recs ! j) = fr_key (fs ! j)"
  shows "visit_all host p v (collect_key host) [] = (Inr (), map bare recs)"
proof (cases fs)
  case Nil
  then show ?thesis using holdsD(5) [OF h] keys(1) by (simp add: visit_all_def)
next
  case (Cons f fs')
  define n where "n = length fs'"
  have n: "length fs = Suc n" by (simp add: Cons n_def)
  obtain r where r: "encoded_at host p v 0 = Inr r" "is_record p c fs 0 r" "in_range p v r"
    using encoded_at_holds [OF h, of 0] n(1) by auto
  have "\<exists>r'. is_record p c fs (0 + n) r' \<and>
      visit_loop host p v u64_max (collect_key host) (Suc n) 0 empty_string (length (prev_key fs 0) div bits_per_unit p) r [] =
        (Inr (Some r'), [] @ map bare (take (Suc n) (drop 0 recs)))"
    by (rule visit_collects [OF h keys]) (use n r(2,3) in simp_all)
  then obtain r' where r': "is_record p c fs n r'"
      "visit_loop host p v u64_max (collect_key host) (Suc n) 0 empty_string 0 r [] = (Inr (Some r'), map bare recs)"
    using n keys(1) by auto
  have "m_terminal_key_units (pv_metadata v) = length (fr_key (fs ! n)) div bits_per_unit p"
    using h n(1) by (simp add: holds_def)
  then have "check_end v r' = Inr ()" using r'(1) holdsD(6) [OF h] n(1) by (simp add: check_end_def is_record_def)
  then show ?thesis using r(1) r'(2) holdsD(5) [OF h] n by (simp add: visit_all_def bindM_apply del: visit_loop.simps)
qed

lemma cut_groups_native:
  assumes "0 < group_size p"
  shows "cut_groups host p (length rs) i rs None [] classes cuts =
    Inr (classes, cuts @ replicate (groups_of (group_size p) (i + length rs) - groups_of (group_size p) i) 0)"
proof (induction rs arbitrary: i cuts)
  case (Cons r rs)
  let ?K = "group_size p"
  have mono: "groups_of ?K i \<le> groups_of ?K (i + k)" for i k
    by (induction k) (simp_all add: groups_of_Suc [OF assms])
  have "groups_of ?K (Suc i + length rs) - groups_of ?K i = of_bool (i mod ?K = 0) + (groups_of ?K (Suc i + length rs) - groups_of ?K (Suc i))"
    using groups_of_Suc [OF assms, of i] mono [of "Suc i" "length rs"] by simp
  then show ?case using Cons.IH [of "Suc i"] by simp
qed simp

section \<open>Properties\<close>

text \<open>
  C15. The ways to make a blob agree. Adopting the native stream of a built blob gives the blob that is
  built of its records and no borrowed keys, and reindexing the blob for other borrowed keys, valid
  or not, does what building from its records and these keys does, although it reads the keys back
  from the encoded stream.
\<close>

theorem blob_constructions_agree:
  assumes p: "policy_ok p" and native: "records_ok p Native native" "increasing_after None native"
    and borrowed: "records_ok p Borrowed (borrowed_records borrowed)"
    and F: "c = shared_width p Native native" "F = front_code p c [] 0 native 0 []" "length (stream p c F (length F)) < 2 ^ 57"
    and H: "H = front_code p (Some 0) [] 0 (borrowed_records borrowed) 0 []" "length (stream p (Some 0) H (length H)) < 2 ^ 57"
  shows "\<exists>b. blob_build host p native borrowed = Inr b \<and> adopt_native host p (pb_native b) = blob_build host p native [] \<and>
    reindex host p b others = blob_build host p native others"
proof -
  let ?K = "group_size p"
  obtain b where b: "blob_build host p native borrowed = Inr b" using blob_build_holds [OF assms, of host] by blast
  obtain a where a: "build_profile host p Native native [] 0 = Inr a" "built_profile p Native c F a"
    using build_profile_built [OF p native(1) _ _ F(1,2,3), of host] by auto
  obtain v where v: "array_view host p Native a = Inr v" "holds host p c F v"
    using array_view_holds [OF p a(2), of host host] by (auto simp: array_view_native)
  have K: "0 < ?K" using p by (simp add: policy_ok_def)
  have keys: "map fr_key F = map record_bits native" by (simp add: F(2) front_keys)
  have len: "length F = length native" using arg_cong [OF keys, of length] by simp
  have ok: "\<forall>r\<in>set native. string_ok (record_key r)" using native(1) by (auto simp: records_ok_def record_ok_def)
  have nth: "string_ok (record_key (native ! j)) \<and> record_bits (native ! j) = fr_key (F ! j)" if "j < length F" for j
    using ok that len arg_cong [OF keys, of "\<lambda>xs. xs ! j"] by simp
  obtain e where e: "empty_blob host p = Inr e" "pb_cut_lcps e = []" using empty_blob_builds [OF p] by blast
  obtain d where d: "build_profile host p Borrowed [] [] 0 = Inr d" "pb_borrowed e = d" "pb_false_borrows e = []"
    using e(1) by (auto simp: empty_blob_def bindE_eq_Inr)
  have check: "check_native host None native = Inr ()" using check_native_holds [of None native host] native(2) ok by simp
  have small: "length native < 2 ^ 57" using built_length [OF a(2)] len by simp
  have native_b: "pb_native b = a"
    using b check e(1) a(1) by (auto simp: blob_build_def build_index_def bindE_eq_Inr Let_def split: prod.splits)
  have count: "m_record_count (pa_metadata a) = length native" using a(2) len by (simp add: built_profile_def)
  have gc: "blob_group_count p n = groups_of ?K n" for n by (simp add: blob_group_count_def groups_of_def)
  have same: "e\<lparr>pb_native := a, pb_borrowed := d, pb_interleave := r, pb_false_borrows := [], pb_virtual_count := n, pb_cut_lcps := cs\<rparr> =
      e\<lparr>pb_native := a, pb_interleave := r, pb_virtual_count := n, pb_cut_lcps := cs\<rparr>" for r n cs
    using d(2,3) by (cases e) simp
  have zero: "groups_of ?K 0 = 0" by (simp add: groups_of_def)
  have "blob_build host p native [] = build_index host p native [] (e\<lparr>pb_native := a\<rparr>)"
    using check e(1) a(1) small by (simp add: blob_build_def check_count_def u64_max_def)
  also have "\<dots> = adopt_native host p a"
    using cut_groups_native [OF K, of host native 0 "replicate (groups_of ?K (length native)) 0" "[]"] d e v(1)
    by (simp add: build_index_def adopt_native_def count gc Let_def zero same)
  finally have adopt: "adopt_native host p (pb_native b) = blob_build host p native []" using native_b by simp
  have index: "build_index host p (map bare native) others blob = build_index host p native others blob" for blob
    by (simp add: build_index_def mark_false_bare cut_groups_bare)
  have "reindex host p b others = bindE (check_count (length native) (length others)) (\<lambda>_.
      build_index host p (map bare native) others (e\<lparr>pb_native := a\<rparr>))"
    using v(1) e(1) visit_all_collects [OF v(2) len [symmetric] nth] by (simp add: reindex_def native_b count)
  also have "\<dots> = blob_build host p native others" using check e(1) a(1) by (simp add: blob_build_def index)
  finally show ?thesis using b adopt by blast
qed

definition reports :: "storage_policy \<Rightarrow> profile_record list \<Rightarrow> bit_string list \<Rightarrow> bool list \<Rightarrow> window_result \<Rightarrow> bool" where
  "reports p native borrowed q res \<longleftrightarrow>
     (case wr_native res of None \<Rightarrow> q \<notin> record_bits ` set native
      | Some x \<Rightarrow> match_ordinal x < length native \<and> record_bits (native ! match_ordinal x) = q \<and>
          string_bits (match_value x) = string_bits (record_value (native ! match_ordinal x))) \<and>
     (case wr_borrowed res of None \<Rightarrow> \<forall>s\<in>set borrowed. lex q (string_bits s) < 0
      | Some x \<Rightarrow> bp_ordinal x < length borrowed \<and> lex (string_bits (borrowed ! bp_ordinal x)) q \<le> 0 \<and>
          (\<forall>j. bp_ordinal x < j \<longrightarrow> j < length borrowed \<longrightarrow> lex q (string_bits (borrowed ! j)) < 0) \<and>
          bp_target_ordinal x = bp_ordinal x * group_size p \<and>
          (bp_false_borrow x \<longleftrightarrow> string_bits (borrowed ! bp_ordinal x) \<in> record_bits ` set native) \<and>
          describes p (bp_comparison x) q (string_bits (borrowed ! bp_ordinal x)))"

text \<open>
  C3. Searching a group answers the query. In a blob built of strictly increasing native records and
  sorted borrowed keys, let the query lie between the first key of a group and the first key of the
  next one, and let the comparison of that first key with the query be given (of the empty key, at
  group zero). Then the search of that one group finds the native record of the query, wherever it
  is, or there is none; and it returns the last borrowed key that does not exceed the query, with
  the comparison of it, its position in the next level and whether it repeats a native key, or every
  borrowed key exceeds the query.
\<close>

theorem blob_search_answers:
  assumes p: "policy_ok p" and native: "records_ok p Native native" "increasing_after None native"
    and borrowed: "records_ok p Borrowed (borrowed_records borrowed)" "length borrowed * group_size p \<le> u64_max"
    and F: "c = shared_width p Native native" "F = front_code p c [] 0 native 0 []" "length (stream p c F (length F)) < 2 ^ 57"
    and H: "H = front_code p (Some 0) [] 0 (borrowed_records borrowed) 0 []" "length (stream p (Some 0) H (length H)) < 2 ^ 57"
    and xs: "xs = weave 0 (map record_bits native) 0 (map string_bits borrowed)" "groups = groups_of (group_size p) (length xs)"
    and g: "g < groups" "k = occurrence_key (xs ! (g * group_size p)) \<or> g = 0 \<and> k = []"
    and q: "describes p lower q k" "lex k q \<le> 0" "Suc g < groups \<longrightarrow> lex q (occurrence_key (xs ! (Suc g * group_size p))) < 0"
  shows "\<exists>b v res w w'. blob_build host p native borrowed = Inr b \<and> view_of_blob host p b = Inr v \<and>
    search_window host p v g lower (work, work') = (Inr res, (w, w')) \<and> reports p native borrowed q res"
proof -
  obtain b v where b: "blob_build host p native borrowed = Inr b" "view_of_blob host p b = Inr v" "blob_holds host p c F H v"
    using blob_build_holds [OF p native borrowed(1) F H, of host] by blast
  have cont: "contents F = map (\<lambda>r. (record_bits r, string_bits (record_value r))) native"
    using front_code_extends [of p c "[]" 0 native 0 "[]"] F(2) by auto
  have keys: "map fr_key F = map record_bits native" "map fr_key H = map string_bits borrowed"
    by (simp_all add: F(2) H(1) front_keys borrowed_records_def o_def)
  have len: "length F = length native" "length H = length borrowed"
    using arg_cong [OF keys(1), of length] arg_cong [OF keys(2), of length] by simp_all
  have sets: "fr_key ` set F = record_bits ` set native" "fr_key ` set H = string_bits ` set borrowed"
    using arg_cong [OF keys(1), of set] arg_cong [OF keys(2), of set] by simp_all
  have nth: "fr_key (F ! i) = record_bits (native ! i)" "fr_value (F ! i) = string_bits (record_value (native ! i))" if "i < length native" for i
    using arg_cong [OF cont, of "\<lambda>xs. xs ! i"] that len by (simp_all add: contents_def)
  have nth': "fr_key (H ! j) = string_bits (borrowed ! j)" if "j < length borrowed" for j
    using arg_cong [OF keys(2), of "\<lambda>xs. xs ! j"] that len by simp
  have n: "length xs = length F + length H" by (simp add: xs(1) len)
  obtain res w w' where res: "search_window host p v g lower (work, work') = (Inr res, (w, w'))" "answers_query p F H q res"
    using search_window_holds [OF b(3) _ n, where g = g and k = k and lower = lower and q = q and work = work and work' = work'] xs g q borrowed(2) keys len by auto
  have all: "(\<forall>f\<in>set H. lex q (fr_key f) < 0) \<longleftrightarrow> (\<forall>s\<in>set borrowed. lex q (string_bits s) < 0)"
    using arg_cong [OF sets(2), of "\<lambda>K. \<forall>k\<in>K. lex q k < 0"] by simp
  have "reports p native borrowed q res"
    using res(2) all unfolding answers_query_def reports_def good_match_def good_predecessor_def len sets
    by (auto simp: nth nth' split: option.splits)
  then show ?thesis using b(1,2) res(1) by blast
qed

section \<open>Witnesses\<close>

definition one_key :: "bit_string list" where
  "one_key = [\<lparr>bytes = [97, 98], bit_size = 16\<rparr>]"

lemma one_key_ok:
  "records_ok default_policy Borrowed (borrowed_records one_key)" "increasing_after None two_records"
  "H = front_code default_policy (Some 0) [] 0 (borrowed_records one_key) 0 [] \<Longrightarrow> length (stream default_policy (Some 0) H (length H)) < 2 ^ 57"
proof -
  show "records_ok default_policy Borrowed (borrowed_records one_key)"
    using two_records_ok(1) by (simp add: records_ok_def one_key_def borrowed_records_def two_records_def record_ok_def unit_multiple_def)
  show "increasing_after None two_records"
    by (simp add: two_records_def string_bits_def byte_bits_def bits_of_def upt_rec)
  assume "H = front_code default_policy (Some 0) [] 0 (borrowed_records one_key) 0 []"
  from byte_front_code_length [OF default_policy_facts(1) this]
  show "length (stream default_policy (Some 0) H (length H)) < 2 ^ 57" by (simp add: one_key_def borrowed_records_def string_bits_def)
qed

lemma blob_constructions_agree_witness:
  "\<exists>b. blob_build False default_policy two_records one_key = Inr b \<and>
    adopt_native False default_policy (pb_native b) = blob_build False default_policy two_records [] \<and>
    reindex False default_policy b [] = blob_build False default_policy two_records []"
  using blob_constructions_agree [OF default_policies_ok(1) two_records_ok(1) one_key_ok(2,1) refl refl two_records_ok(2) [OF refl]
      refl one_key_ok(3) [OF refl], of False "[]"] .

lemma blob_search_answers_witness:
  "\<exists>b v c res w w' x. blob_build True default_policy two_records one_key = Inr b \<and> view_of_blob True default_policy b = Inr v \<and>
    new_context True default_policy \<lparr>storage = [97, 99, 1], offset = 0, bsize = 24\<rparr> = Inr c \<and>
    search_window True default_policy v 0 c (\<lparr>skipped_headers = 0, visited_headers = 0, compared_bits = 0\<rparr>,
      \<lparr>skipped_headers = 0, visited_headers = 0, compared_bits = 0\<rparr>) = (Inr res, (w, w')) \<and>
    wr_native res = Some x \<and> match_ordinal x = 1 \<and> wr_borrowed res \<noteq> None"
proof -
  let ?q = "\<lparr>storage = [97, 99, 1], offset = 0, bsize = 24\<rparr> :: bit_view" and ?z = "\<lparr>skipped_headers = 0, visited_headers = 0, compared_bits = 0\<rparr>"
  have "view_ok ?q" "bsize ?q \<le> u64_max - 7" "unit_multiple default_policy (bsize ?q)"
    by (simp_all add: view_ok_def u64_max_def unit_multiple_def)
  then obtain c where c: "new_context True default_policy ?q = Inr c" "describes default_policy c (view_bits ?q) []"
    using new_context_describes by blast
  have q: "view_bits ?q = string_bits \<lparr>bytes = [97, 99, 1], bit_size = 24\<rparr>" by (simp add: view_bits_def string_bits_def)
  let ?xs = "weave 0 (map record_bits two_records) 0 (map string_bits one_key)"
  have n: "length ?xs = 3" by (simp add: two_records_def one_key_def)
  have K: "group_size default_policy = 15" by (simp add: default_policy_def)
  have g: "groups_of (group_size default_policy) (length ?xs) = 1" unfolding n K by (simp add: groups_of_def)
  obtain b v res w w' where r: "blob_build True default_policy two_records one_key = Inr b" "view_of_blob True default_policy b = Inr v"
      "search_window True default_policy v 0 c (?z, ?z) = (Inr res, (w, w'))" "reports default_policy two_records one_key (view_bits ?q) res"
    using blob_search_answers [OF default_policies_ok(1) two_records_ok(1) one_key_ok(2,1) _ refl refl two_records_ok(2) [OF refl]
        refl one_key_ok(3) [OF refl] refl refl _ _ c(2) lex_nil, of 0 True ?z ?z] g
    by (auto simp: K one_key_def u64_max_def)
  have differ: "string_bits \<lparr>bytes = [97, 98], bit_size = 16\<rparr> \<noteq> string_bits \<lparr>bytes = [97, 99, 1], bit_size = 24\<rparr>"
    "lex (string_bits \<lparr>bytes = [97, 98], bit_size = 16\<rparr>) (string_bits \<lparr>bytes = [97, 99, 1], bit_size = 24\<rparr>) < 0"
    by (simp_all add: string_bits_def byte_bits_def bits_of_def upt_rec)
  then have less: "\<not> lex (string_bits \<lparr>bytes = [97, 99, 1], bit_size = 24\<rparr>) (string_bits \<lparr>bytes = [97, 98], bit_size = 16\<rparr>) < 0"
    using lex_swap [of "string_bits \<lparr>bytes = [97, 99, 1], bit_size = 24\<rparr>" "string_bits \<lparr>bytes = [97, 98], bit_size = 16\<rparr>"] by simp
  have "\<exists>x. wr_native res = Some x \<and> match_ordinal x = 1"
    using r(4) differ by (auto simp: reports_def q two_records_def less_Suc_eq split: option.splits)
  moreover have "wr_borrowed res \<noteq> None"
    using r(4) less by (auto simp: reports_def q one_key_def split: option.splits)
  ultimately show ?thesis using r(1-3) c(1) by blast
qed

end
