(* ===== verification/Spec2Isabelle.thy ===== *)
theory Spec2Isabelle
  imports ObjectPath Nursery Pins OutputBudget Registry NativeMerges FixedSearch Rank BlobQueries
begin

text \<open>
  Everett is a C++26 library of compact string-keyed tables with snapshots. This development models
  the headers under \<open>src/include/everett\<close> that carry its data structures: how a sorted run of records
  is encoded, read, written, indexed, sampled, merged and searched, and the in-memory structures
  around the runs. Names of definitions are the names of the code wherever Isabelle allows it.

  \<^bold>\<open>The parts and how they interact.\<close> A table is a cascade of immutable levels. Each level is a
  profile blob (\<open>profile_blob.h\<close>): a native profile with the records of the level, a borrowed profile
  with every \<open>group_size\<close>-th key of the next level, and a rank directory, false-borrow marks and cut
  prefixes that cut the interleaving of the two into groups. A profile (\<open>profile.h\<close>) is a front-coded
  stream of records with an Elias-Fano directory (\<open>elias_fano.h\<close>) of block offsets; its fields are bit
  strings, its integers the count and backspace codes of a policy (\<open>policy.h\<close>). A query descends the
  cascade by comparisons that are carried from key to key as query contexts, without any key being
  reconstructed. New runs are written by the native writer (\<open>native_writer.h\<close>), older ones are merged
  (\<open>native_merge.h\<close>), and levels are sampled for the level above (\<open>sampling.h\<close>). Fresh writes live in the
  nursery map (\<open>nursery_map.h\<close>); a fingerprint (\<open>fingerprint.h\<close>) identifies a table state, pinned sets
  (\<open>pins.h\<close>) keep objects alive, \<open>object_path.h\<close> names their files, \<open>output_budget.h\<close> bounds what
  concurrent producers emit, and registries (\<open>registry.h\<close>) describe the sorts of keys and values.

  \<^bold>\<open>Theories, bottom up.\<close>
  \<^item> \<open>Prelude\<close>: words, exceptions as values of \<open>exn\<close>, results \<open>'a res\<close>, operations \<open>('s, 'a) op\<close> that return
    their result and the state they leave, also when they throw.
  \<^item> \<open>NurseryTree\<close>, \<open>NurseryMap\<close>, \<open>NurseryRefine\<close>, \<open>NurseryEdits\<close>, \<open>NurseryOwners\<close>, \<open>Nursery\<close>: the AVL map over an
    explicit heap of shared nodes, the pure trees it refines, and its laws for any number of maps and
    snapshots: map semantics, isolation of snapshots, balance, and what an error leaves behind. The
    allocator, the comparator and the construction of keys and values may throw at any call.
  \<^item> \<open>ObjectPath\<close>, \<open>Fingerprint\<close>, \<open>Pins\<close>, \<open>OutputBudget\<close>, \<open>Registry\<close>: one component each. Budgets run as
    interleavings of the atomic steps of any number of threads.
  \<^item> \<open>Bits\<close>, \<open>WordView\<close>, \<open>BitString\<close>, \<open>BitFields\<close>, \<open>BitCompare\<close>, \<open>OwnedStrings\<close>: words in byte storage
    (\<open>word_view.h\<close>, \<open>key_detail.h\<close>) and the packed strings of \<open>profile.h\<close>: fields, overlapping copies,
    word-at-a-time comparison. A view stands for its list of bits, \<open>view_bits\<close>.
  \<^item> \<open>Policy\<close>, \<open>Counts\<close>, \<open>CountCodes\<close>, \<open>CountReads\<close>: the policy and its codes; readers accept exactly what
    the writers write. \<open>QueryContext\<close>: comparisons carried from key to key.
  \<^item> \<open>EliasFano\<close>, \<open>EliasPack\<close>, \<open>EliasHigh\<close>, \<open>EliasSelect\<close>, \<open>EliasBuild\<close>, \<open>SelectWord\<close>: the Elias-Fano directory, its
    builder, selection and forward cursor, on sound and on damaged sections.
  \<^item> \<open>ProfileView\<close>, \<open>ProfileCursor\<close>, \<open>ProfileBuild\<close> hold the definitions of the readers, cursors and writers
    of \<open>profile.h\<close>. \<open>ProfileFrames\<close> shows what any admitted bytes can do; \<open>ProfileStream\<close> defines the stream
    of a list of frames and that a view which holds it (\<open>holds\<close>) reads these frames; \<open>ProfileWrites\<close> and
    \<open>ProfileWriter\<close> show that the writers write it, \<open>ProfileWalk\<close> that the cursors walk it.
  \<^item> \<open>NativeWriter\<close>: the incremental writer equals the batch encoder. \<open>NativeMerge\<close> models the merge builder
    as a template over its cursor (\<open>source_ops\<close>); \<open>MergeRuns\<close> states what it needs of one (locale
    \<open>merge_source\<close>) and proves its runs, \<open>EncodedMerge\<close> provides the cursor that keeps keys as spans of the
    stream, \<open>NativeMerges\<close> the merges of built profiles.
  \<^item> \<open>GroupCounts\<close>, \<open>Rank15\<close>, \<open>RankGroups\<close>, \<open>Rank\<close>: rank directories over groups (\<open>rank15.h\<close>, \<open>rank_groups.h\<close>;
    locale \<open>rank_directory\<close>) and over bitmaps (\<open>rank.h\<close>). \<open>FixedSearch\<close>: bounded searches of fixed keys.
  \<^item> \<open>Sampling\<close>, \<open>SampleDraw\<close>: transmission of sampled keys, and the cursor that draws them from the merge
    \<open>weave\<close> of two streams. \<open>ProfileBlob\<close> defines blobs; \<open>BlobIndex\<close> shows that a built index describes
    \<open>weave\<close>, \<open>BlobSearch\<close> and \<open>BlobQueries\<close> that a search of the routed group answers its query.

  \<^bold>\<open>What the lemma groups show.\<close> Round trips of every encoding; equality of each incremental or word-level
  routine with its batch or list-level reference; refinement of cursors and windows by the list of
  records they stand for; and, for readers, that damaged sections can only raise the checked
  exceptions. Errors are values: every throw is a branch, an operation that throws leaves the state the
  code leaves (the counters of a query's work included), and the theorems show \<open>Undefined\<close> (a read the code makes without a check) unreachable.

  \<^bold>\<open>Conventions and bounds.\<close> The target of the code is its scalar one; the byte order of the host is a
  parameter \<open>host\<close> (true when little-endian), that of a section \<open>little\<close>. Sizes, positions and ordinals
  are natural numbers with the \<open>uint64\<close> checks written out, wrapping operations use \<open>u64_add\<close> and
  \<open>u64_mult\<close>, and packed words are words. Theorems on built profiles assume a stream below \<open>2 ^ 57\<close> bits,
  which keeps every offset and every packed extent of the directory inside 64 bits. The recursion of
  the nursery map is bounded by fuel, and its theorems show that no reachable map exhausts it; every
  other loop recurs on a number of records, words or bits that the code itself computes.

  \<^bold>\<open>Not modelled.\<close> Allocation failure and capacity of vectors, except where the code's own checks or the
  nursery map make them visible; a state that a composer of merged values or its tombstone test keeps
  between calls (both may throw, and a merge whose callback throws is left inactive); moved-from objects and move assignment; reference counts of shared
  owners. SIMD backends and checksums are generated or chosen at build time. The runtimes, sessions,
  transactions, typed worlds and catalog queries above the blobs are concurrent front ends or
  schedules over the modelled operations, and templates over user code; section directories, object
  files, mapping and durability are operating-system I/O; the durable catalog is SQL. The manifest
  lists each of them with its reason.
\<close>

end
